(* ===== verification/Prelude.thy ===== *)
theory Prelude
  imports Main "HOL-Library.Word"
begin

unbundle bit_operations_syntax

text \<open>
  What every component of the development shares.

  \<^item> The machine types of the C++ code (\<open>uint8_t\<close>, \<open>uint32_t\<close>, \<open>size_t\<close>) as words.
  \<^item> The shared memory segment as a total map from addresses to bytes, with block and
    32-bit little-endian access, and the frame lemmas for both.
  \<^item> The result type of an operation: it may not return (\<open>None\<close>), crash
    (\<open>Some (Inl c)\<close>) or return a value (\<open>Some (Inr x)\<close>).
  \<^item> The Boost atomic primitives, which are not part of the repository, as a record of
    functions, with their documented behaviour as the predicate \<open>atomic_spec\<close>.
\<close>

section \<open>Machine types\<close>

type_synonym u8 = "8 word"
type_synonym u32 = "32 word"
type_synonym u64 = "64 word"

named_theorems memory_simps "reading back what was written, and frames"
named_theorems run_simps "evaluation of the result type"

lemma unat_lt_u32: "unat (w :: u32) < 4294967296"
  using unsigned_less [of w, where ?'a = nat] by simp

lemma unat_ucast_32_64 [simp]: "unat (ucast (w :: u32) :: u64) = unat w"
  using unat_lt_u32 [of w] by (simp add: unsigned_ucast_eq take_bit_nat_eq_self_iff)

lemma unat_of_nat_u32: "n < 4294967296 \<Longrightarrow> unat (of_nat n :: u32) = n"
  by (simp add: unat_of_nat take_bit_nat_eq_self_iff)

lemma unat_of_nat_u64: "n < 18446744073709551616 \<Longrightarrow> unat (of_nat n :: u64) = n"
  by (simp add: unat_of_nat take_bit_nat_eq_self_iff)

lemma unat_ucast_64_32: "unat (w :: u64) < 4294967296 \<Longrightarrow> unat (ucast w :: u32) = unat w"
  by (simp add: unsigned_ucast_eq take_bit_nat_eq_self_iff)

section \<open>The result of an operation\<close>

text \<open>
  The ways the modelled code can stop without returning: a member call through a null
  \<open>shared_ptr\<close> (Boost asserts), a remainder by zero, a failed \<open>assert\<close>, an
  exception (the only one the code throws itself is \<open>lock_exception\<close>,
  \<^verbatim>\<open>qbus/exceptions.h\<close>), the first or last element of an empty list, and an access
  to a segment that has been unmapped.
\<close>

datatype crash = Null_pointer | Division_by_zero | Assertion_failed | Lock_exception
  | Empty_container | Unmapped_memory

type_synonym 'a run = "(crash + 'a) option"

definition returns :: "'a \<Rightarrow> 'a run" where
  "returns x = Some (Inr x)"

definition crashes :: "crash \<Rightarrow> 'a run" where
  "crashes c = Some (Inl c)"

definition and_then :: "'a run \<Rightarrow> ('a \<Rightarrow> 'b run) \<Rightarrow> 'b run" where
  "and_then r f = Option.bind r (\<lambda>s. case s of Inl c \<Rightarrow> crashes c | Inr x \<Rightarrow> f x)"

lemma and_then_returns [simp, run_simps]: "and_then (returns x) f = f x"
  by (simp add: and_then_def returns_def)

lemma and_then_crashes [simp, run_simps]: "and_then (crashes c) f = crashes c"
  by (simp add: and_then_def crashes_def)

lemma and_then_None [simp, run_simps]: "and_then None f = None"
  by (simp add: and_then_def)

lemma and_then_returns_right [simp]: "and_then r returns = r"
proof (cases r)
  case (Some s)
  then show ?thesis by (cases s) (simp_all add: and_then_def returns_def crashes_def)
qed (simp add: and_then_def)

lemma returns_eq [simp]: "returns x = returns y \<longleftrightarrow> x = y"
  by (simp add: returns_def)

lemma crashes_eq [simp]: "crashes c = crashes d \<longleftrightarrow> c = d"
  by (simp add: crashes_def)

lemma returns_neq [simp]:
  "returns x \<noteq> crashes c" "crashes c \<noteq> returns x" "returns x \<noteq> None" "None \<noteq> returns x"
  "crashes c \<noteq> None" "None \<noteq> crashes c"
  by (simp_all add: returns_def crashes_def)

lemma and_then_eq_returns:
  "and_then r f = returns y \<longleftrightarrow> (\<exists>x. r = returns x \<and> f x = returns y)"
  by (auto simp: and_then_def returns_def crashes_def split: option.splits sum.splits
    elim: Option.bind_eq_Some_conv [THEN iffD1, elim_format])

text \<open>A computation that cannot crash, but may not end.\<close>

definition as_run :: "'a option \<Rightarrow> 'a run" where
  "as_run r = map_option Inr r"

lemma as_run_simps [simp, run_simps]: "as_run (Some x) = returns x" "as_run None = None"
  by (simp_all add: as_run_def returns_def)

text \<open>Loops that may not end are defined over this type, so it has to be monotone.\<close>

lemma and_then_mono [partial_function_mono]:
  assumes "mono_option B" and "\<And>y. mono_option (\<lambda>f. C y f)"
  shows "mono_option (\<lambda>f. and_then (B f) (\<lambda>y. C y f))"
  unfolding and_then_def
proof (rule bind_mono [OF assms(1)])
  fix s
  show "mono_option (\<lambda>f. case s of Inl c \<Rightarrow> crashes c | Inr x \<Rightarrow> C x f)"
    using assms(2) by (cases s) (simp_all add: option.const_mono)
qed

section \<open>Memory\<close>

type_synonym memory = "nat \<Rightarrow> u8"

definition load :: "memory \<Rightarrow> nat \<Rightarrow> nat \<Rightarrow> u8 list" where
  "load m a n = map (\<lambda>i. m (a + i)) [0..<n]"

definition store :: "memory \<Rightarrow> nat \<Rightarrow> u8 list \<Rightarrow> memory" where
  "store m a bs = (\<lambda>i. if a \<le> i \<and> i < a + length bs then bs ! (i - a) else m i)"

text \<open>\<open>unchanged m m' a n\<close>: the \<open>n\<close> bytes from \<open>a\<close> are the same in both memories.\<close>

definition unchanged :: "memory \<Rightarrow> memory \<Rightarrow> nat \<Rightarrow> nat \<Rightarrow> bool" where
  "unchanged m m' a n \<longleftrightarrow> (\<forall>i. a \<le> i \<longrightarrow> i < a + n \<longrightarrow> m' i = m i)"

lemma length_load [simp]: "length (load m a n) = n"
  by (simp add: load_def)

lemma load_store_same [memory_simps]: "n = length bs \<Longrightarrow> load (store m a bs) a n = bs"
  by (auto simp: load_def store_def intro: nth_equalityI)

lemma load_unchanged: "unchanged m m' a n \<Longrightarrow> load m' a n = load m a n"
  by (simp add: load_def unchanged_def)

lemma unchanged_refl [simp]: "unchanged m m a n"
  by (simp add: unchanged_def)

lemma unchanged_trans: "unchanged m m' a n \<Longrightarrow> unchanged m' m'' a n \<Longrightarrow> unchanged m m'' a n"
  by (simp add: unchanged_def)

lemma unchanged_sub: "unchanged m m' a n \<Longrightarrow> a \<le> b \<Longrightarrow> b + k \<le> a + n \<Longrightarrow> unchanged m m' b k"
  by (simp add: unchanged_def)

lemma unchanged_store: "b + n \<le> a \<or> a + length bs \<le> b \<Longrightarrow> unchanged m (store m a bs) b n"
  by (auto simp: unchanged_def store_def)

text \<open>\<open>only_changes m m' S\<close>: the two memories differ at addresses in \<open>S\<close> only.\<close>

definition only_changes :: "memory \<Rightarrow> memory \<Rightarrow> nat set \<Rightarrow> bool" where
  "only_changes m m' S \<longleftrightarrow> (\<forall>i. i \<notin> S \<longrightarrow> m' i = m i)"

lemma only_changes_refl [simp]: "only_changes m m S"
  by (simp add: only_changes_def)

lemma only_changes_trans:
  "only_changes m m' S \<Longrightarrow> only_changes m' m'' T \<Longrightarrow> S \<subseteq> U \<Longrightarrow> T \<subseteq> U \<Longrightarrow> only_changes m m'' U"
  unfolding only_changes_def by (metis subsetD)

lemma only_changes_mono: "only_changes m m' S \<Longrightarrow> S \<subseteq> T \<Longrightarrow> only_changes m m' T"
  by (auto simp: only_changes_def)

lemma only_changes_unchanged:
  "only_changes m m' S \<Longrightarrow> {a..<a + n} \<inter> S = {} \<Longrightarrow> unchanged m m' a n"
  by (auto simp: only_changes_def unchanged_def disjoint_iff)

lemma only_changes_store: "only_changes m (store m a bs) {a..<a + length bs}"
  by (auto simp: only_changes_def store_def)

subsection \<open>32-bit access\<close>

definition bytes32 :: "u32 \<Rightarrow> u8 list" where
  "bytes32 w = [ucast w, ucast (drop_bit 8 w), ucast (drop_bit 16 w), ucast (drop_bit 24 w)]"

definition word32 :: "u8 list \<Rightarrow> u32" where
  "word32 bs = ucast (bs ! 0) OR push_bit 8 (ucast (bs ! 1)) OR push_bit 16 (ucast (bs ! 2))
     OR push_bit 24 (ucast (bs ! 3))"

definition load32 :: "memory \<Rightarrow> nat \<Rightarrow> u32" where
  "load32 m a = word32 (load m a 4)"

definition store32 :: "memory \<Rightarrow> nat \<Rightarrow> u32 \<Rightarrow> memory" where
  "store32 m a w = store m a (bytes32 w)"

lemma length_bytes32 [simp]: "length (bytes32 w) = 4"
  by (simp add: bytes32_def)

lemma word32_bytes32 [simp]: "word32 (bytes32 w) = w"
proof (rule bit_word_eqI)
  fix n assume "n < LENGTH(32)"
  then have "n < 32" by simp
  then consider "n < 8" | "8 \<le> n" "n < 16" | "16 \<le> n" "n < 24" | "24 \<le> n" "n < 32"
    by linarith
  then show "bit (word32 (bytes32 w)) n = bit w n"
    by cases (auto simp: word32_def bytes32_def bit_simps)
qed

lemma load32_store32 [simp, memory_simps]: "load32 (store32 m a w) a = w"
  by (simp add: load32_def store32_def load_store_same)

lemma load32_unchanged: "unchanged m m' a 4 \<Longrightarrow> load32 m' a = load32 m a"
  by (simp add: load32_def load_unchanged)

lemma unchanged_store32: "b + n \<le> a \<or> a + 4 \<le> b \<Longrightarrow> unchanged m (store32 m a w) b n"
  by (simp add: store32_def unchanged_store)

lemma only_changes_store32: "b = a + 4 \<Longrightarrow> only_changes m (store32 m a w) {a..<b}"
  using only_changes_store [of m a "bytes32 w"] by (simp add: store32_def)

lemma load32_store32_other [memory_simps]:
  "b + 4 \<le> a \<or> a + 4 \<le> b \<Longrightarrow> load32 (store32 m a w) b = load32 m b"
  by (simp add: load32_unchanged unchanged_store32)

lemma load_store32_other [memory_simps]:
  "b + n \<le> a \<or> a + 4 \<le> b \<Longrightarrow> load (store32 m a w) b n = load m b n"
  by (simp add: load_unchanged unchanged_store32)

lemma load32_store_other [memory_simps]:
  "b + 4 \<le> a \<or> a + length bs \<le> b \<Longrightarrow> load32 (store m a bs) b = load32 m b"
  by (simp add: load32_unchanged unchanged_store)

section \<open>Boost atomics\<close>

text \<open>
  \<^verbatim>\<open>boost/interprocess/detail/atomic.hpp\<close> is not in the repository. Each primitive acts
  on one 32-bit cell: it takes the cell's value and yields what the call returns and what
  the cell holds afterwards.
\<close>

record atomic_ops =
  atomic_read32 :: "u32 \<Rightarrow> u32"
  atomic_write32 :: "u32 \<Rightarrow> u32 \<Rightarrow> u32"
  atomic_inc32 :: "u32 \<Rightarrow> u32 \<times> u32"
  atomic_dec32 :: "u32 \<Rightarrow> u32 \<times> u32"
  atomic_add32 :: "u32 \<Rightarrow> u32 \<Rightarrow> u32 \<times> u32"
  atomic_cas32 :: "u32 \<Rightarrow> u32 \<Rightarrow> u32 \<Rightarrow> u32 \<times> u32"

text \<open>
  Their documentation: read returns the cell, write replaces it; increment, decrement and
  addition return the old value; compare-and-swap takes the new value, then the value to
  compare with, and returns the old value.
\<close>

definition atomic_spec :: "atomic_ops \<Rightarrow> bool" where
  "atomic_spec A \<longleftrightarrow>
     (\<forall>c. atomic_read32 A c = c) \<and>
     (\<forall>c v. atomic_write32 A c v = v) \<and>
     (\<forall>c. atomic_inc32 A c = (c, c + 1)) \<and>
     (\<forall>c. atomic_dec32 A c = (c, c - 1)) \<and>
     (\<forall>c v. atomic_add32 A c v = (c, c + v)) \<and>
     (\<forall>c new old. atomic_cas32 A c new old = (c, if c = old then new else c))"

lemma atomic_specD:
  assumes "atomic_spec A"
  shows "atomic_read32 A c = c" "atomic_write32 A c v = v" "atomic_inc32 A c = (c, c + 1)"
    "atomic_dec32 A c = (c, c - 1)" "atomic_add32 A c v = (c, c + v)"
    "atomic_cas32 A c v d = (c, if c = d then v else c)"
  using assms by (simp_all add: atomic_spec_def)

text \<open>An instance, for the witnesses.\<close>

definition plain_atomics :: atomic_ops where
  "plain_atomics = \<lparr>atomic_read32 = (\<lambda>c. c), atomic_write32 = (\<lambda>c v. v),
     atomic_inc32 = (\<lambda>c. (c, c + 1)), atomic_dec32 = (\<lambda>c. (c, c - 1)),
     atomic_add32 = (\<lambda>c v. (c, c + v)),
     atomic_cas32 = (\<lambda>c new old. (c, if c = old then new else c))\<rparr>"

lemma plain_atomics_spec [simp]: "atomic_spec plain_atomics"
  by (simp add: atomic_spec_def plain_atomics_def)

end
