(* ===== verification/Common.thy ===== *)
theory Common
  imports Prelude
begin

text \<open>
  \<^verbatim>\<open>qbus/common.h\<close>, \<^verbatim>\<open>qbus/common.cpp\<close>: the comparison and arithmetic operators on
  \<open>struct timespec\<close>, the monotonic clock, and the scope guard \<open>rollback\<close>.

  The two fields are signed 64-bit integers whose overflow is undefined behaviour, so they
  are modelled as unbounded integers and the operators are shown to stay inside the signed
  64-bit range. The operators become the \<open>linorder\<close>, \<open>plus\<close> and \<open>minus\<close>
  instances of the type, so later theories compare deadlines with \<open><\<close> as the code does.
\<close>

section \<open>Time stamps\<close>

datatype timespec = Timespec (tv_sec: int) (tv_nsec: int)

definition timespec_eq :: "timespec \<Rightarrow> timespec \<Rightarrow> bool" where
  "timespec_eq ts1 ts2 \<longleftrightarrow> tv_sec ts1 = tv_sec ts2 \<and> tv_nsec ts1 = tv_nsec ts2"

definition timespec_neq :: "timespec \<Rightarrow> timespec \<Rightarrow> bool" where
  "timespec_neq ts1 ts2 \<longleftrightarrow> \<not> timespec_eq ts1 ts2"

definition timespec_less :: "timespec \<Rightarrow> timespec \<Rightarrow> bool" where
  "timespec_less ts1 ts2 \<longleftrightarrow>
     tv_sec ts1 < tv_sec ts2 \<or> (tv_sec ts1 = tv_sec ts2 \<and> tv_nsec ts1 < tv_nsec ts2)"

definition timespec_greater :: "timespec \<Rightarrow> timespec \<Rightarrow> bool" where
  "timespec_greater ts1 ts2 \<longleftrightarrow>
     tv_sec ts1 > tv_sec ts2 \<or> (tv_sec ts1 = tv_sec ts2 \<and> tv_nsec ts1 > tv_nsec ts2)"

definition timespec_le :: "timespec \<Rightarrow> timespec \<Rightarrow> bool" where
  "timespec_le ts1 ts2 \<longleftrightarrow> \<not> timespec_greater ts1 ts2"

definition timespec_ge :: "timespec \<Rightarrow> timespec \<Rightarrow> bool" where
  "timespec_ge ts1 ts2 \<longleftrightarrow> \<not> timespec_less ts1 ts2"

definition timespec_add :: "timespec \<Rightarrow> timespec \<Rightarrow> timespec" where
  "timespec_add ts1 ts2 =
     (let sec = tv_sec ts1 + tv_sec ts2; nsec = tv_nsec ts1 + tv_nsec ts2
      in if nsec \<ge> 1000000000 then Timespec (sec + 1) (nsec - 1000000000)
         else Timespec sec nsec)"

definition timespec_sub :: "timespec \<Rightarrow> timespec \<Rightarrow> timespec" where
  "timespec_sub ts1 ts2 =
     (if tv_nsec ts1 < tv_nsec ts2
      then Timespec (tv_sec ts1 - tv_sec ts2 - 1) (1000000000 + tv_nsec ts1 - tv_nsec ts2)
      else Timespec (tv_sec ts1 - tv_sec ts2) (tv_nsec ts1 - tv_nsec ts2))"

lemmas timespec_order_defs = timespec_eq_def timespec_neq_def timespec_less_def
  timespec_greater_def timespec_le_def timespec_ge_def

lemma timespec_eq_iff: "timespec_eq a b \<longleftrightarrow> a = b"
  by (cases a; cases b) (simp add: timespec_eq_def)

text \<open>The comparison operators form a linear order, with \<open>==\<close> as its equality.\<close>

instantiation timespec :: linorder
begin

definition less_timespec :: "timespec \<Rightarrow> timespec \<Rightarrow> bool" where
  "less_timespec = timespec_less"

definition less_eq_timespec :: "timespec \<Rightarrow> timespec \<Rightarrow> bool" where
  "less_eq_timespec = timespec_le"

instance
proof
  fix x y z :: timespec
  show "x < y \<longleftrightarrow> x \<le> y \<and> \<not> y \<le> x"
    by (auto simp: less_timespec_def less_eq_timespec_def timespec_order_defs)
  show "x \<le> x"
    by (simp add: less_eq_timespec_def timespec_order_defs)
  show "x \<le> y \<Longrightarrow> y \<le> z \<Longrightarrow> x \<le> z"
    by (auto simp: less_eq_timespec_def timespec_order_defs)
  show "x \<le> y \<Longrightarrow> y \<le> x \<Longrightarrow> x = y"
    by (cases x; cases y) (auto simp: less_eq_timespec_def timespec_order_defs)
  show "x \<le> y \<or> y \<le> x"
    by (auto simp: less_eq_timespec_def timespec_order_defs)
qed

end

instantiation timespec :: "{plus, minus}"
begin

definition plus_timespec :: "timespec \<Rightarrow> timespec \<Rightarrow> timespec" where
  "plus_timespec = timespec_add"

definition minus_timespec :: "timespec \<Rightarrow> timespec \<Rightarrow> timespec" where
  "minus_timespec = timespec_sub"

instance ..

end

lemma timespec_less_iff: "timespec_less a b \<longleftrightarrow> a < b"
  and timespec_greater_iff: "timespec_greater a b \<longleftrightarrow> b < a"
  and timespec_le_iff: "timespec_le a b \<longleftrightarrow> a \<le> b"
  and timespec_ge_iff: "timespec_ge a b \<longleftrightarrow> b \<le> a"
  by (auto simp: less_timespec_def less_eq_timespec_def timespec_order_defs)

section \<open>Arithmetic in nanoseconds\<close>

definition nanoseconds :: "timespec \<Rightarrow> int" where
  "nanoseconds ts = tv_sec ts * 1000000000 + tv_nsec ts"

definition normalised :: "timespec \<Rightarrow> bool" where
  "normalised ts \<longleftrightarrow> 0 \<le> tv_nsec ts \<and> tv_nsec ts < 1000000000"

lemma nanoseconds_add: "nanoseconds (timespec_add a b) = nanoseconds a + nanoseconds b"
  by (simp add: nanoseconds_def timespec_add_def Let_def)

lemma nanoseconds_sub: "nanoseconds (timespec_sub a b) = nanoseconds a - nanoseconds b"
  by (simp add: nanoseconds_def timespec_sub_def)

lemma normalised_add: "normalised a \<Longrightarrow> normalised b \<Longrightarrow> normalised (timespec_add a b)"
  by (auto simp: normalised_def timespec_add_def Let_def)

lemma normalised_sub: "normalised a \<Longrightarrow> normalised b \<Longrightarrow> normalised (timespec_sub a b)"
  by (auto simp: normalised_def timespec_sub_def)

lemma normalised_eq_iff:
  assumes "normalised a" and "normalised b"
  shows "a = b \<longleftrightarrow> nanoseconds a = nanoseconds b"
proof
  assume eq: "nanoseconds a = nanoseconds b"
  have "\<not> tv_sec a < tv_sec b" and "\<not> tv_sec b < tv_sec a"
    using assms eq unfolding normalised_def nanoseconds_def by linarith+
  then have "tv_sec a = tv_sec b" by simp
  with eq show "a = b" by (cases a; cases b) (simp add: nanoseconds_def)
qed simp

lemma normalised_less_iff:
  assumes "normalised a" and "normalised b"
  shows "a < b \<longleftrightarrow> nanoseconds a < nanoseconds b"
  using assms
  by (auto simp: less_timespec_def timespec_less_def normalised_def nanoseconds_def)

section \<open>The monotonic clock\<close>

text \<open>
  \<open>clock_gettime(CLOCK_MONOTONIC, &ts)\<close> is the operating system's: \<open>clk i\<close> is the
  result of the \<open>i\<close>-th call made, \<open>None\<close> when the call fails. The loop repeats the
  call until it succeeds and yields the time with the number of the next call.
\<close>

partial_function (option) get_monotonic_time ::
  "(nat \<Rightarrow> timespec option) \<Rightarrow> nat \<Rightarrow> (timespec \<times> nat) option" where
  "get_monotonic_time clk i =
     (case clk i of Some ts \<Rightarrow> Some (ts, Suc i) | None \<Rightarrow> get_monotonic_time clk (Suc i))"

definition clock_live :: "(nat \<Rightarrow> timespec option) \<Rightarrow> bool" where
  "clock_live clk \<longleftrightarrow> (\<forall>i. \<exists>j\<ge>i. clk j \<noteq> None)"

text \<open>Time passes: from some call on, every reading is at or after any given deadline.\<close>

definition reaches :: "(nat \<Rightarrow> timespec option) \<Rightarrow> timespec \<Rightarrow> nat \<Rightarrow> bool" where
  "reaches clk ts N \<longleftrightarrow> (\<forall>j\<ge>N. \<forall>now. clk j = Some now \<longrightarrow> ts \<le> now)"

definition clock_runs :: "(nat \<Rightarrow> timespec option) \<Rightarrow> bool" where
  "clock_runs clk \<longleftrightarrow> (\<forall>ts. \<exists>N. reaches clk ts N)"

lemma get_monotonic_time_first:
  assumes "\<And>k. i \<le> k \<Longrightarrow> k < i + n \<Longrightarrow> clk k = None" and "clk (i + n) = Some ts"
  shows "get_monotonic_time clk i = Some (ts, Suc (i + n))"
  using assms
proof (induction n arbitrary: i)
  case 0
  then show ?case by (subst get_monotonic_time.simps) simp
next
  case (Suc n)
  have "clk i = None" using Suc.prems(1) [of i] by simp
  moreover have "get_monotonic_time clk (Suc i) = Some (ts, Suc (Suc i + n))"
    by (rule Suc.IH) (use Suc.prems in auto)
  ultimately show ?case by (subst get_monotonic_time.simps) simp
qed

lemma get_monotonic_time_live:
  assumes "clock_live clk"
  obtains ts j where "i \<le> j" "clk j = Some ts" "get_monotonic_time clk i = Some (ts, Suc j)"
proof -
  define j where "j = (LEAST j. i \<le> j \<and> clk j \<noteq> None)"
  have j: "i \<le> j \<and> clk j \<noteq> None"
    unfolding j_def by (rule LeastI_ex) (use assms in \<open>auto simp: clock_live_def\<close>)
  then obtain ts where ts: "clk j = Some ts" by auto
  have before: "clk k = None" if "i \<le> k" "k < j" for k
    using not_less_Least [of k "\<lambda>j. i \<le> j \<and> clk j \<noteq> None"] that by (auto simp: j_def)
  have "get_monotonic_time clk i = Some (ts, Suc (i + (j - i)))"
    by (rule get_monotonic_time_first) (use j ts before in auto)
  with j ts show thesis by (intro that) auto
qed

text \<open>A clock for the witnesses: it starts at 1000 s and advances a second with each call.\<close>

definition sample_clock :: "nat \<Rightarrow> timespec option" where
  "sample_clock i = Some (Timespec (1000 + int i) 0)"

lemma sample_clock_ok [simp]: "clock_live sample_clock" "clock_runs sample_clock"
proof -
  show "clock_live sample_clock" by (auto simp: clock_live_def sample_clock_def)
  have "reaches sample_clock ts (nat (tv_sec ts) + 1)" for ts
    by (auto simp: reaches_def sample_clock_def less_eq_timespec_def timespec_order_defs)
  then show "clock_runs sample_clock" by (auto simp: clock_runs_def)
qed

section \<open>Scope guard\<close>

text \<open>
  \<open>rollback<T> r(x)\<close> keeps the value of \<open>x\<close> at its construction and writes it back when
  the scope ends: the state at the end of the scope with that variable as it was at the start.
\<close>

definition rollback :: "('s \<Rightarrow> 't) \<Rightarrow> ('t \<Rightarrow> 's \<Rightarrow> 's) \<Rightarrow> 's \<Rightarrow> 's \<Rightarrow> 's" where
  "rollback get_var set_var s_start s_end = set_var (get_var s_start) s_end"

section \<open>Properties\<close>

text \<open>
  The deadline arithmetic is exact: on normalised time stamps, adding and subtracting
  keep the nanosecond field normalised and are addition and subtraction of nanoseconds.
\<close>

theorem timespec_arithmetic_exact:
  assumes "normalised a" and "normalised b"
  shows "normalised (a + b) \<and> nanoseconds (a + b) = nanoseconds a + nanoseconds b
    \<and> normalised (a - b) \<and> nanoseconds (a - b) = nanoseconds a - nanoseconds b"
  using assms by (simp add: plus_timespec_def minus_timespec_def nanoseconds_add
    nanoseconds_sub normalised_add normalised_sub)

theorem timespec_arithmetic_exact_witness:
  "nanoseconds (Timespec 1 999999999 + Timespec 2 2) = 4000000001"
  using timespec_arithmetic_exact [of "Timespec 1 999999999" "Timespec 2 2"]
  by (simp add: normalised_def nanoseconds_def)

end
