(* ===== verification/Message.thy ===== *)
theory Message
  imports Common
begin

text \<open>
  \<^verbatim>\<open>qbus/message.h\<close>, \<^verbatim>\<open>qbus/message.cpp\<close>, \<^verbatim>\<open>qbus/service_message.h\<close>: raw messages.

  A message is a header of 24 bytes followed by its data, both in shared memory. A
  \<open>base_message\<close> object is a pointer to the header and the next message of its chain, so
  a (possibly null) \<open>pmessage_type\<close> is the list of the header addresses of the chain.
  Buffers of the caller (\<open>const void *source, size_t size\<close>) are byte lists, and their
  sizes natural numbers; sizes and offsets that the code computes are 64-bit words.
\<close>

section \<open>The process environment\<close>

text \<open>
  What a process gets from outside: the function installed for \<open>get_sid\<close>, the operating
  system's clock (the \<open>i\<close>-th call of \<open>clock_gettime\<close>) and the Boost atomics.
\<close>

type_synonym sid_type = u32
type_synonym tag_type = u32
type_synonym flags_type = u32

record env =
  pget_sid_impl :: "unit \<Rightarrow> sid_type"
  clock :: "nat \<Rightarrow> timespec option"
  atomics :: atomic_ops

text \<open>The state operations change: the memory and the number of clock calls made so far.\<close>

record world =
  mem :: memory
  readings :: nat

definition env_ok :: "env \<Rightarrow> bool" where
  "env_ok E \<longleftrightarrow> atomic_spec (atomics E) \<and> clock_live (clock E)"

text \<open>An environment for the witnesses: process 7, and a clock that ticks with each call.\<close>

definition sample_env :: env where
  "sample_env = \<lparr>pget_sid_impl = (\<lambda>_. 7), clock = sample_clock,
     atomics = plain_atomics\<rparr>"

lemma sample_env_ok [simp]: "env_ok sample_env"
  by (simp add: env_ok_def sample_env_def)

definition default_get_sid_impl :: "sid_type \<Rightarrow> unit \<Rightarrow> sid_type" where
  "default_get_sid_impl pid = (\<lambda>_. pid)"

definition get_sid :: "env \<Rightarrow> sid_type" where
  "get_sid E = pget_sid_impl E ()"

definition init_get_sid :: "(unit \<Rightarrow> sid_type) \<Rightarrow> env \<Rightarrow> env" where
  "init_get_sid pfunc E = E\<lparr>pget_sid_impl := pfunc\<rparr>"

partial_function (option) get_timestamp :: "env \<Rightarrow> world \<Rightarrow> (u64 \<times> world) run" where
  "get_timestamp E w =
     (case clock E (readings w) of
        Some ts \<Rightarrow> returns (of_int (tv_sec ts), w\<lparr>readings := Suc (readings w)\<rparr>)
      | None \<Rightarrow> get_timestamp E (w\<lparr>readings := Suc (readings w)\<rparr>))"

section \<open>The header\<close>

abbreviation (input) FLG_HEAD :: flags_type where "FLG_HEAD \<equiv> 1"
abbreviation (input) FLG_TAIL :: flags_type where "FLG_TAIL \<equiv> 2"

abbreviation (input) FLAGS_OFFSET :: nat where "FLAGS_OFFSET \<equiv> 0"
abbreviation (input) CAPACITY_OFFSET :: nat where "CAPACITY_OFFSET \<equiv> 4"
abbreviation (input) SID_OFFSET :: nat where "SID_OFFSET \<equiv> 8"
abbreviation (input) TAG_OFFSET :: nat where "TAG_OFFSET \<equiv> 12"
abbreviation (input) COUNTER_OFFSET :: nat where "COUNTER_OFFSET \<equiv> 16"
abbreviation (input) TS_OFFSET :: nat where "TS_OFFSET \<equiv> 20"
abbreviation (input) DATA_OFFSET :: nat where "DATA_OFFSET \<equiv> 24"
abbreviation (input) HEADER_SIZE :: nat where "HEADER_SIZE \<equiv> 24"

definition static_size :: "u64 \<Rightarrow> u64" where
  "static_size cpct = 24 + cpct"

definition static_capacity :: "u64 \<Rightarrow> u64" where
  "static_capacity sz = (if sz > 24 then sz - 24 else 0)"

definition msg_sid :: "memory \<Rightarrow> nat \<Rightarrow> sid_type" where
  "msg_sid m p = load32 m (p + SID_OFFSET)"

definition msg_set_sid :: "memory \<Rightarrow> nat \<Rightarrow> sid_type \<Rightarrow> memory" where
  "msg_set_sid m p value = store32 m (p + SID_OFFSET) value"

definition msg_timestamp :: "memory \<Rightarrow> nat \<Rightarrow> u64" where
  "msg_timestamp m p = ucast (load32 m (p + TS_OFFSET))"

definition msg_set_timestamp :: "memory \<Rightarrow> nat \<Rightarrow> u64 \<Rightarrow> memory" where
  "msg_set_timestamp m p value = store32 m (p + TS_OFFSET) (ucast value)"

definition msg_tag :: "memory \<Rightarrow> nat \<Rightarrow> tag_type" where
  "msg_tag m p = load32 m (p + TAG_OFFSET)"

definition msg_set_tag :: "memory \<Rightarrow> nat \<Rightarrow> tag_type \<Rightarrow> memory" where
  "msg_set_tag m p value = store32 m (p + TAG_OFFSET) value"

definition msg_flags :: "memory \<Rightarrow> nat \<Rightarrow> flags_type" where
  "msg_flags m p = load32 m (p + FLAGS_OFFSET)"

definition msg_set_flags :: "memory \<Rightarrow> nat \<Rightarrow> flags_type \<Rightarrow> memory" where
  "msg_set_flags m p value = store32 m (p + FLAGS_OFFSET) value"

definition msg_capacity :: "memory \<Rightarrow> nat \<Rightarrow> u64" where
  "msg_capacity m p = ucast (load32 m (p + CAPACITY_OFFSET))"

definition msg_set_capacity :: "memory \<Rightarrow> nat \<Rightarrow> u64 \<Rightarrow> memory" where
  "msg_set_capacity m p value = store32 m (p + CAPACITY_OFFSET) (ucast value)"

definition msg_counter :: "env \<Rightarrow> memory \<Rightarrow> nat \<Rightarrow> u64" where
  "msg_counter E m p = ucast (atomic_read32 (atomics E) (load32 m (p + COUNTER_OFFSET)))"

definition msg_set_counter :: "env \<Rightarrow> memory \<Rightarrow> nat \<Rightarrow> u64 \<Rightarrow> memory" where
  "msg_set_counter E m p value =
     store32 m (p + COUNTER_OFFSET)
       (atomic_write32 (atomics E) (load32 m (p + COUNTER_OFFSET)) (ucast value))"

definition msg_inc_counter :: "env \<Rightarrow> memory \<Rightarrow> nat \<Rightarrow> u64 \<times> memory" where
  "msg_inc_counter E m p =
     (let (old, new) = atomic_inc32 (atomics E) (load32 m (p + COUNTER_OFFSET))
      in (ucast (old + 1), store32 m (p + COUNTER_OFFSET) new))"

definition msg_dec_counter :: "env \<Rightarrow> memory \<Rightarrow> nat \<Rightarrow> u64 \<times> memory" where
  "msg_dec_counter E m p =
     (let (old, new) = atomic_dec32 (atomics E) (load32 m (p + COUNTER_OFFSET))
      in (ucast (old - 1), store32 m (p + COUNTER_OFFSET) new))"

definition msg_data :: "nat \<Rightarrow> nat" where
  "msg_data p = p + DATA_OFFSET"

definition msg_size :: "memory \<Rightarrow> nat \<Rightarrow> u64" where
  "msg_size m p = static_size (msg_capacity m p)"

text \<open>The two constructors: over a raw message as it is, and with a fresh header.\<close>

type_synonym pmessage = "nat list"

definition wrap_message :: "nat \<Rightarrow> pmessage" where
  "wrap_message p = [p]"

definition new_message :: "env \<Rightarrow> world \<Rightarrow> nat \<Rightarrow> u64 \<Rightarrow> (pmessage \<times> world) run" where
  "new_message E w p cpct =
     (let m0 = store (mem w) p (replicate HEADER_SIZE 0);
          m1 = msg_set_capacity m0 p cpct;
          m2 = msg_set_sid m1 p (get_sid E)
      in and_then (get_timestamp E (w\<lparr>mem := m2\<rparr>))
           (\<lambda>(ts, w1). returns ([p], w1\<lparr>mem := msg_set_timestamp (mem w1) p ts\<rparr>)))"

lemmas msg_field_defs = msg_sid_def msg_set_sid_def msg_timestamp_def msg_set_timestamp_def
  msg_tag_def msg_set_tag_def msg_flags_def msg_set_flags_def msg_capacity_def
  msg_set_capacity_def

section \<open>Chains\<close>

definition attach :: "pmessage \<Rightarrow> pmessage \<Rightarrow> pmessage" where
  "attach chain pmessage = chain @ pmessage"

fun pack :: "memory \<Rightarrow> pmessage \<Rightarrow> u8 list \<Rightarrow> memory \<times> nat" where
  "pack m [] source = (m, 0)"
| "pack m (p # ps) source =
     (let cpct = unat (msg_capacity m p) in
      if length source \<le> cpct
      then (msg_set_flags (store m (msg_data p) source) p (FLG_HEAD OR FLG_TAIL), length source)
      else
        let m1 = msg_set_flags (store m (msg_data p) (take cpct source)) p FLG_HEAD in
        case ps of
          [] \<Rightarrow> (m1, cpct)
        | next # _ \<Rightarrow>
            let (m2, rest_size) = pack m1 ps (drop cpct source);
                m3 = msg_set_flags m2 next (msg_flags m2 next AND NOT FLG_HEAD)
            in (m3, cpct + rest_size))"

fun unpack :: "memory \<Rightarrow> pmessage \<Rightarrow> u8 list \<times> nat" where
  "unpack m [] = ([], 0)"
| "unpack m (p # ps) =
     (let cpct = unat (msg_capacity m p);
          (rest, rest_size) = unpack m ps
      in (load m (msg_data p) cpct @ rest, cpct + rest_size))"

fun total_capacity :: "memory \<Rightarrow> pmessage \<Rightarrow> u64" where
  "total_capacity m [] = 0"
| "total_capacity m (p # ps) = msg_capacity m p + total_capacity m ps"

definition data_size :: "memory \<Rightarrow> pmessage \<Rightarrow> u64" where
  "data_size m ps = total_capacity m ps"

fun total_size :: "memory \<Rightarrow> pmessage \<Rightarrow> u64" where
  "total_size m [] = 0"
| "total_size m (p # ps) = static_size (msg_capacity m p) + total_size m ps"

section \<open>Service messages\<close>

text \<open>\<open>service_message::TAG\<close>, the codes, and the code byte of a service message.\<close>

definition SERVICE_TAG :: tag_type where
  "SERVICE_TAG = 4294967295"

datatype service_code = CODE_CONNECT | CODE_DISCONNECT | CODE_BOOK | CODE_COUNT

fun code_byte :: "service_code \<Rightarrow> u8" where
  "code_byte CODE_CONNECT = 0"
| "code_byte CODE_DISCONNECT = 1"
| "code_byte CODE_BOOK = 2"
| "code_byte CODE_COUNT = 3"

definition service_code_of :: "memory \<Rightarrow> nat \<Rightarrow> u8" where
  "service_code_of m p = m (msg_data p)"

section \<open>Lemmas: header fields\<close>

lemma get_timestamp_live:
  assumes "clock_live (clock E)"
  obtains ts i where "get_timestamp E w = returns (of_int (tv_sec ts), w\<lparr>readings := i\<rparr>)"
    "\<exists>j\<ge>readings w. clock E j = Some ts"
proof -
  obtain ts j where j: "readings w \<le> j" "clock E j = Some ts"
    "get_monotonic_time (clock E) (readings w) = Some (ts, Suc j)"
    by (rule get_monotonic_time_live [OF assms])
  have "get_timestamp E w' = (case get_monotonic_time (clock E) (readings w') of
          None \<Rightarrow> None | Some (ts, i) \<Rightarrow> returns (of_int (tv_sec ts), w'\<lparr>readings := i\<rparr>))"
    if "readings w' \<le> j" for w'
    using that
  proof (induction "j - readings w'" arbitrary: w')
    case 0
    then have "readings w' = j" by simp
    with j(2) show ?case
      by (subst get_timestamp.simps, subst get_monotonic_time.simps) simp
  next
    case (Suc n)
    show ?case
    proof (cases "clock E (readings w')")
      case None
      then have "get_timestamp E w' = get_timestamp E (w'\<lparr>readings := Suc (readings w')\<rparr>)"
        by (subst get_timestamp.simps) simp
      also have "\<dots> = (case get_monotonic_time (clock E) (Suc (readings w')) of
          None \<Rightarrow> None | Some (ts, i) \<Rightarrow> returns (of_int (tv_sec ts), w'\<lparr>readings := i\<rparr>))"
        by (subst Suc.hyps(1)) (use Suc.hyps(2) in \<open>cases w', auto split: option.splits\<close>)
      also have "get_monotonic_time (clock E) (Suc (readings w'))
          = get_monotonic_time (clock E) (readings w')"
        using None by (subst (2) get_monotonic_time.simps) simp
      finally show ?thesis .
    next
      case (Some t)
      then show ?thesis
        by (subst get_timestamp.simps, subst get_monotonic_time.simps) simp
    qed
  qed
  from this [of w] j have "get_timestamp E w = returns (of_int (tv_sec ts), w\<lparr>readings := Suc j\<rparr>)"
    by simp
  with j show thesis by (intro that) auto
qed

text \<open>A fresh header: the fields it sets, zero elsewhere, and nothing written outside it.\<close>

lemma new_message_returns:
  assumes "clock_live (clock E)"
  obtains m' i where
    "new_message E w p cpct = returns ([p], \<lparr>mem = m', readings = i\<rparr>)"
    "msg_capacity m' p = ucast (ucast cpct :: u32)" "msg_flags m' p = 0" "msg_tag m' p = 0"
    "msg_sid m' p = get_sid E" "load32 m' (p + COUNTER_OFFSET) = 0"
    "\<And>a n. a + n \<le> p \<or> p + HEADER_SIZE \<le> a \<Longrightarrow> unchanged (mem w) m' a n"
proof -
  define m2 where "m2 = msg_set_sid (msg_set_capacity (store (mem w) p (replicate HEADER_SIZE 0))
    p cpct) p (get_sid E)"
  obtain ts i where ts: "get_timestamp E (w\<lparr>mem := m2\<rparr>)
      = returns (of_int (tv_sec ts), w\<lparr>mem := m2, readings := i\<rparr>)"
    by (rule get_timestamp_live [OF assms, where w = "w\<lparr>mem := m2\<rparr>"]) simp
  define m' where "m' = msg_set_timestamp m2 p (of_int (tv_sec ts))"
  have zero: "load32 (store (mem w) p (replicate 24 0)) (p + k) = 0" if "k + 4 \<le> 24" for k
  proof -
    have "load (store (mem w) p (replicate 24 0)) (p + k) 4 = replicate 4 0"
      using that by (auto simp: load_def store_def intro!: nth_equalityI)
    then show ?thesis
      by (simp add: load32_def word32_def)
  qed
  note zero' = zero [of 0, simplified] zero [of 4, simplified] zero [of 12, simplified]
     zero [of 16, simplified]
  show thesis
  proof (rule that [of m' i])
    show "new_message E w p cpct = returns ([p], \<lparr>mem = m', readings = i\<rparr>)"
      using ts by (simp add: new_message_def m2_def m'_def Let_def)
    show "msg_capacity m' p = ucast (ucast cpct :: u32)" "msg_flags m' p = 0" "msg_tag m' p = 0"
      "msg_sid m' p = get_sid E" "load32 m' (p + COUNTER_OFFSET) = 0"
      by (simp_all add: m'_def m2_def msg_field_defs memory_simps zero')
    show "unchanged (mem w) m' a n" if "a + n \<le> p \<or> p + HEADER_SIZE \<le> a" for a n
      using that unfolding m'_def m2_def msg_field_defs
      by (intro unchanged_trans [OF _ unchanged_store32]
          unchanged_trans [OF _ unchanged_store32] unchanged_trans [OF _ unchanged_store32]
          unchanged_store) auto
  qed
qed

section \<open>Lemmas: packing and unpacking\<close>

text \<open>The blocks of a chain do not overlap.\<close>

abbreviation msg_end :: "memory \<Rightarrow> nat \<Rightarrow> nat" where
  "msg_end m p \<equiv> p + HEADER_SIZE + unat (msg_capacity m p)"

fun separate :: "memory \<Rightarrow> pmessage \<Rightarrow> bool" where
  "separate m [] = True"
| "separate m (p # ps) =
     ((\<forall>q \<in> set ps. msg_end m p \<le> q \<or> msg_end m q \<le> p) \<and> separate m ps)"

fun room :: "memory \<Rightarrow> pmessage \<Rightarrow> nat" where
  "room m [] = 0"
| "room m (p # ps) = unat (msg_capacity m p) + room m ps"

text \<open>Packing writes the flags and the data of the blocks of the chain only.\<close>

definition clear_of :: "memory \<Rightarrow> pmessage \<Rightarrow> nat \<Rightarrow> nat \<Rightarrow> bool" where
  "clear_of m ps a n \<longleftrightarrow> (\<forall>p \<in> set ps. (a + n \<le> p \<or> p + 4 \<le> a)
     \<and> (a + n \<le> p + HEADER_SIZE \<or> msg_end m p \<le> a))"

definition same_capacities :: "memory \<Rightarrow> memory \<Rightarrow> pmessage \<Rightarrow> bool" where
  "same_capacities m m' ps \<longleftrightarrow> (\<forall>p \<in> set ps. msg_capacity m' p = msg_capacity m p)"

lemma same_capacities_separate: "same_capacities m m' ps \<Longrightarrow> separate m' ps = separate m ps"
  by (induction ps) (auto simp: same_capacities_def)

lemma same_capacities_room: "same_capacities m m' ps \<Longrightarrow> room m' ps = room m ps"
  by (induction ps) (auto simp: same_capacities_def)

lemma same_capacities_clear: "same_capacities m m' ps \<Longrightarrow> clear_of m' ps a n = clear_of m ps a n"
  by (auto simp: same_capacities_def clear_of_def)

lemma same_capacities_Cons:
  "same_capacities m m' (p # ps) \<Longrightarrow> same_capacities m m' ps"
  by (simp add: same_capacities_def)

text \<open>The memory after one block of the chain has been filled.\<close>

definition fill_block :: "memory \<Rightarrow> nat \<Rightarrow> u8 list \<Rightarrow> flags_type \<Rightarrow> memory" where
  "fill_block m p bs f = msg_set_flags (store m (msg_data p) bs) p f"

lemma fill_block_unchanged:
  assumes "a + n \<le> p \<or> p + 4 \<le> a" "a + n \<le> p + HEADER_SIZE \<or> p + HEADER_SIZE + length bs \<le> a"
  shows "unchanged m (fill_block m p bs f) a n"
  unfolding fill_block_def msg_set_flags_def
  using assms by (intro unchanged_trans [OF unchanged_store unchanged_store32])
    (auto simp: msg_data_def)

lemma fill_block_capacity:
  assumes "q = p \<or> q + 8 \<le> p \<or> p + HEADER_SIZE + length bs \<le> q"
  shows "msg_capacity (fill_block m p bs f) q = msg_capacity m q"
proof -
  have "unchanged m (fill_block m p bs f) (q + 4) 4"
    using assms by (intro fill_block_unchanged) auto
  then show ?thesis by (simp add: msg_capacity_def load32_unchanged)
qed

lemma fill_block_flags [simp]: "msg_flags (fill_block m p bs f) p = f"
  by (simp add: fill_block_def msg_field_defs)

lemma fill_block_data:
  "length bs \<le> n \<Longrightarrow> take (length bs) (load (fill_block m p bs f) (msg_data p) n) = bs"
proof -
  assume n: "length bs \<le> n"
  have "load (fill_block m p bs f) (msg_data p) (length bs) = load (store m (msg_data p) bs)
      (msg_data p) (length bs)"
    by (simp add: fill_block_def msg_set_flags_def msg_data_def memory_simps)
  moreover have "take k (load m' a n) = load m' a k" if "k \<le> n" for k m' a
    using that by (simp add: load_def take_map)
  ultimately show ?thesis using n by (simp add: load_store_same)
qed

lemma pack_Cons:
  "pack m (p # ps) src =
     (let cpct = unat (msg_capacity m p) in
      if length src \<le> cpct then (fill_block m p src (FLG_HEAD OR FLG_TAIL), length src)
      else if ps = [] then (fill_block m p (take cpct src) FLG_HEAD, cpct)
      else (let (m2, k) = pack (fill_block m p (take cpct src) FLG_HEAD) ps (drop cpct src)
            in (msg_set_flags m2 (hd ps) (msg_flags m2 (hd ps) AND NOT FLG_HEAD), cpct + k)))"
  by (auto simp: Let_def fill_block_def split: list.splits prod.splits)

declare pack.simps(2) [simp del]

lemma fill_block_same_capacities:
  assumes "separate m (p # ps)" and "length bs \<le> unat (msg_capacity m p)"
  shows "same_capacities m (fill_block m p bs f) (p # ps)"
  using assms by (force simp: same_capacities_def intro!: fill_block_capacity)

lemma clear_of_ConsD:
  "clear_of m (p # ps) a n \<Longrightarrow> clear_of m ps a n"
  by (simp add: clear_of_def)

lemma clear_of_fill_block:
  assumes "clear_of m (p # ps) a n" and "length bs \<le> unat (msg_capacity m p)"
  shows "unchanged m (fill_block m p bs f) a n"
  using assms by (intro fill_block_unchanged) (auto simp: clear_of_def)

lemma separate_clear_of:
  assumes "separate m (p # ps)" and "p \<le> a" and "a + n \<le> msg_end m p"
  shows "clear_of m ps a n"
  unfolding clear_of_def
proof (intro ballI)
  fix q assume "q \<in> set ps"
  with assms(1) have "msg_end m p \<le> q \<or> msg_end m q \<le> p" by auto
  with assms(2,3) show "(a + n \<le> q \<or> q + 4 \<le> a) \<and> (a + n \<le> q + HEADER_SIZE \<or> msg_end m q \<le> a)"
    by linarith
qed

lemma clear_of_hd_flags:
  assumes "clear_of m ps a n" and "ps \<noteq> []"
  shows "unchanged m2 (msg_set_flags m2 (hd ps) f) a n"
  using assms by (cases ps) (auto simp: clear_of_def msg_set_flags_def intro!: unchanged_store32)

lemma hd_flags_capacity:
  assumes "separate m ps" and "q \<in> set ps"
  shows "msg_capacity (msg_set_flags m2 (hd ps) f) q = msg_capacity m2 q"
proof -
  have "q + 8 \<le> hd ps \<or> hd ps + 4 \<le> q + 4"
    using assms by (cases ps) (auto dest!: bspec)
  then show ?thesis
    by (auto simp: msg_field_defs memory_simps)
qed

lemma pack_frame:
  assumes "separate m ps" and "pack m ps src = (m', k)"
  shows "same_capacities m m' ps \<and> (\<forall>a n. clear_of m ps a n \<longrightarrow> unchanged m m' a n)
    \<and> k = min (length src) (room m ps)"
  using assms
proof (induction ps arbitrary: m src m' k)
  case Nil
  then show ?case by (simp add: same_capacities_def)
next
  case (Cons p ps)
  let ?c = "unat (msg_capacity m p)"
  consider (fits) "length src \<le> ?c" | (last) "\<not> length src \<le> ?c" "ps = []"
    | (more) "\<not> length src \<le> ?c" "ps \<noteq> []" by blast
  then show ?case
  proof cases
    case fits
    with Cons.prems show ?thesis
      by (auto simp: pack_Cons Let_def intro!: fill_block_same_capacities clear_of_fill_block)
  next
    case last
    with Cons.prems show ?thesis
      by (auto simp: pack_Cons Let_def intro!: fill_block_same_capacities clear_of_fill_block)
  next
    case more
    define m1 where "m1 = fill_block m p (take ?c src) FLG_HEAD"
    obtain m2 k2 where m2: "pack m1 ps (drop ?c src) = (m2, k2)" by fastforce
    define f where "f = msg_flags m2 (hd ps) AND NOT FLG_HEAD"
    from m2 Cons.prems(2) more have m': "m' = msg_set_flags m2 (hd ps) f" and k: "k = ?c + k2"
      by (auto simp: pack_Cons Let_def m1_def f_def)
    have s1: "same_capacities m m1 (p # ps)"
      unfolding m1_def using more by (intro fill_block_same_capacities Cons.prems(1)) simp
    have sep1: "separate m1 (p # ps)"
      using s1 Cons.prems(1) same_capacities_separate by blast
    have IH: "same_capacities m1 m2 ps" "\<And>a n. clear_of m1 ps a n \<Longrightarrow> unchanged m1 m2 a n"
      "k2 = min (length (drop ?c src)) (room m1 ps)"
      using Cons.IH [OF _ m2] sep1 by auto
    have frame1: "unchanged m1 m' a n" if "clear_of m1 ps a n" for a n
      unfolding m' using IH(2) [OF that] clear_of_hd_flags [OF that more(2)]
      by (rule unchanged_trans)
    have "clear_of m1 ps (p + 4) 4"
      by (rule separate_clear_of [OF sep1]) auto
    then have "msg_capacity m' p = msg_capacity m1 p"
      by (simp add: msg_capacity_def load32_unchanged [OF frame1])
    moreover have "msg_capacity m' q = msg_capacity m1 q" if "q \<in> set ps" for q
      using hd_flags_capacity [of m1 ps q] sep1 that IH(1)
      by (simp add: m' same_capacities_def)
    ultimately have caps: "same_capacities m1 m' (p # ps)"
      by (simp add: same_capacities_def)
    have "unchanged m m' a n" if "clear_of m (p # ps) a n" for a n
    proof -
      have "unchanged m m1 a n"
        unfolding m1_def using that more by (intro clear_of_fill_block) auto
      moreover have "clear_of m1 ps a n"
        using that s1 by (metis clear_of_ConsD same_capacities_clear)
      ultimately show ?thesis using frame1 unchanged_trans by blast
    qed
    moreover have "same_capacities m m' (p # ps)"
      using s1 caps by (simp add: same_capacities_def)
    moreover have "room m1 ps = room m ps"
      using s1 by (metis same_capacities_Cons same_capacities_room)
    ultimately show ?thesis using IH(3) k more by auto
  qed
qed

lemma unpack_eq:
  "unpack m ps = (concat (map (\<lambda>p. load m (msg_data p) (unat (msg_capacity m p))) ps), room m ps)"
  by (induction ps) (simp_all add: Let_def)

lemma fst_unpack_Cons:
  "fst (unpack m (p # ps)) = load m (msg_data p) (unat (msg_capacity m p)) @ fst (unpack m ps)"
  by (simp add: unpack_eq)

lemma length_unpack: "length (fst (unpack m ps)) = room m ps"
  by (induction ps) (simp_all add: unpack_eq)

lemma unpack_frame:
  assumes "same_capacities m m' ps"
    and "\<And>p. p \<in> set ps \<Longrightarrow> unchanged m m' (msg_data p) (unat (msg_capacity m p))"
  shows "unpack m' ps = unpack m ps"
  using assms
  by (induction ps) (auto simp: same_capacities_def load_unchanged Let_def split: prod.splits)

lemma pack_unpack:
  assumes "separate m ps" and "pack m ps src = (m', k)"
  shows "take k (fst (unpack m' ps)) = take k src"
  using assms
proof (induction ps arbitrary: m src m' k)
  case Nil
  then show ?case by simp
next
  case (Cons p ps)
  let ?c = "unat (msg_capacity m p)"
  have cap': "msg_capacity m' p = msg_capacity m p"
    using pack_frame [OF Cons.prems] by (simp add: same_capacities_def)
  consider (fits) "length src \<le> ?c" | (last) "\<not> length src \<le> ?c" "ps = []"
    | (more) "\<not> length src \<le> ?c" "ps \<noteq> []" by blast
  then show ?case
  proof cases
    case fits
    with Cons.prems have "m' = fill_block m p src (FLG_HEAD OR FLG_TAIL)" "k = length src"
      by (auto simp: pack_Cons Let_def)
    then show ?thesis
      using fits cap' fill_block_data [OF fits] by (simp add: fst_unpack_Cons del: unpack.simps)
  next
    case last
    with Cons.prems have "m' = fill_block m p (take ?c src) FLG_HEAD" "k = ?c"
      by (auto simp: pack_Cons Let_def)
    then show ?thesis
      using last cap' fill_block_data [of "take ?c src" ?c m p FLG_HEAD]
      by (simp add: Let_def)
  next
    case more
    define m1 where "m1 = fill_block m p (take ?c src) FLG_HEAD"
    obtain m2 k2 where m2: "pack m1 ps (drop ?c src) = (m2, k2)" by fastforce
    define f where "f = msg_flags m2 (hd ps) AND NOT FLG_HEAD"
    from m2 Cons.prems(2) more have m': "m' = msg_set_flags m2 (hd ps) f" and k: "k = ?c + k2"
      by (auto simp: pack_Cons Let_def m1_def f_def)
    have s1: "same_capacities m m1 (p # ps)"
      unfolding m1_def using more by (intro fill_block_same_capacities Cons.prems(1)) simp
    then have sep1: "separate m1 (p # ps)"
      using Cons.prems(1) same_capacities_separate by blast
    then have sep: "separate m1 ps" by simp
    have "clear_of m1 ps (msg_data p) ?c"
      by (rule separate_clear_of [OF sep1])
        (use s1 in \<open>auto simp: msg_data_def same_capacities_def\<close>)
    then have "unchanged m1 m' (msg_data p) ?c"
      unfolding m' using pack_frame [OF sep m2] more(2)
      by (metis clear_of_hd_flags unchanged_trans)
    then have block: "load m' (msg_data p) ?c = take ?c src"
      using fill_block_data [of "take ?c src" ?c m p FLG_HEAD] more
      by (simp add: load_unchanged m1_def)
    have "unpack m' ps = unpack m2 ps"
    proof (rule unpack_frame)
      show "same_capacities m2 m' ps"
        using hd_flags_capacity [OF sep] by (simp add: same_capacities_def m')
      fix q assume q: "q \<in> set ps"
      have "q \<noteq> hd ps \<Longrightarrow> msg_end m1 (hd ps) \<le> q \<or> msg_end m1 q \<le> hd ps"
        using sep q by (cases ps) auto
      moreover have "msg_capacity m2 q = msg_capacity m1 q"
        using pack_frame [OF sep m2] q by (simp add: same_capacities_def)
      ultimately show "unchanged m2 m' (msg_data q) (unat (msg_capacity m2 q))"
        unfolding m' msg_set_flags_def
        by (intro unchanged_store32) (auto simp: msg_data_def)
    qed
    with Cons.IH [OF sep m2] have "take k2 (fst (unpack m' ps)) = take k2 (drop ?c src)"
      by simp
    with block cap' k more show ?thesis
      by (simp add: fst_unpack_Cons take_add del: unpack.simps)
  qed
qed

lemma separate_distinct: "separate m ps \<Longrightarrow> distinct ps"
  by (induction ps) auto

text \<open>
  When the data needs every block of the chain, the first block carries \<open>FLG_HEAD\<close>, the
  last one \<open>FLG_TAIL\<close>, and those between neither: a reader following the chain stops
  exactly at its last block.
\<close>

lemma pack_flags:
  assumes "separate m ps" and "pack m ps src = (m', k)" and "ps \<noteq> []"
    and "length ps > 1 \<Longrightarrow> room m (butlast ps) < length src" and "length src \<le> room m ps"
  shows "msg_flags m' (hd ps) = (if length ps = 1 then FLG_HEAD OR FLG_TAIL else FLG_HEAD)
    \<and> (\<forall>q \<in> set (tl ps). msg_flags m' q = (if q = last ps then FLG_TAIL else 0))"
  using assms
proof (induction ps arbitrary: m src m' k)
  case Nil
  then show ?case by simp
next
  case (Cons p ps)
  let ?c = "unat (msg_capacity m p)"
  show ?case
  proof (cases "ps = []")
    case True
    with Cons.prems show ?thesis by (auto simp: pack_Cons Let_def)
  next
    case False
    with Cons.prems(4) have long: "?c + room m (butlast ps) < length src" by simp
    define m1 where "m1 = fill_block m p (take ?c src) FLG_HEAD"
    obtain m2 k2 where m2: "pack m1 ps (drop ?c src) = (m2, k2)" by fastforce
    define f where "f = msg_flags m2 (hd ps) AND NOT FLG_HEAD"
    from m2 Cons.prems(2) long False have m': "m' = msg_set_flags m2 (hd ps) f"
      by (auto simp: pack_Cons Let_def m1_def f_def)
    have s1: "same_capacities m m1 (p # ps)"
      unfolding m1_def using long by (intro fill_block_same_capacities Cons.prems(1)) simp
    then have sep1: "separate m1 (p # ps)"
      using Cons.prems(1) same_capacities_separate by blast
    have "same_capacities m m1 ps" "same_capacities m m1 (butlast ps)"
      using s1 by (auto simp: same_capacities_def) (metis in_set_butlastD)
    then have rooms: "room m1 ps = room m ps" "room m1 (butlast ps) = room m (butlast ps)"
      by (simp_all add: same_capacities_room)
    have IH: "msg_flags m2 (hd ps) = (if length ps = 1 then FLG_HEAD OR FLG_TAIL else FLG_HEAD)"
      "\<And>q. q \<in> set (tl ps) \<Longrightarrow> msg_flags m2 q = (if q = last ps then FLG_TAIL else 0)"
      using Cons.IH [OF _ m2 False] sep1 long Cons.prems(5) rooms by auto
    have "clear_of m1 ps p 4"
      by (rule separate_clear_of [OF sep1]) auto
    then have "msg_flags m' p = msg_flags m1 p"
      unfolding m' using pack_frame [OF _ m2] sep1 False
      by (metis clear_of_hd_flags load32_unchanged msg_flags_def add_0_right separate.simps(2)
          unchanged_trans)
    moreover have "msg_flags m' (hd ps) = (if hd ps = last ps then FLG_TAIL else 0)"
      using IH(1) separate_distinct [of m1 ps] sep1 False
      by (cases ps) (auto simp: m' f_def msg_field_defs)
    moreover have "msg_flags m' q = msg_flags m2 q" if "q \<in> set (tl ps)" for q
    proof -
      have "q + 4 \<le> hd ps \<or> hd ps + 4 \<le> q"
        using sep1 that by (cases ps) (auto dest!: bspec)
      then show ?thesis by (auto simp: m' msg_field_defs memory_simps)
    qed
    ultimately show ?thesis
      using IH(2) False by (cases ps) (auto simp: m1_def)
  qed
qed
text \<open>Two blocks for the witnesses, of 3 and 5 bytes, at 0 and at 100.\<close>

definition two_blocks :: memory where
  "two_blocks = msg_set_capacity (msg_set_capacity (\<lambda>_. 0) 0 3) 100 5"

lemma two_blocks_simps:
  "msg_capacity two_blocks 0 = 3" "msg_capacity two_blocks 100 = 5"
  by (simp_all add: two_blocks_def msg_field_defs memory_simps)

section \<open>Properties\<close>

text \<open>
  C15. Packing a buffer into a chain whose blocks do not overlap and
  have room for it stores it whole: \<open>pack\<close> returns the buffer's size, and unpacking gives
  the buffer back.
\<close>

theorem pack_unpack_roundtrip:
  assumes "separate m ps" and "length source \<le> room m ps" and "pack m ps source = (m', k)"
  shows "k = length source \<and> take k (fst (unpack m' ps)) = source
    \<and> snd (unpack m' ps) = room m ps"
proof -
  have caps: "same_capacities m m' ps" and k: "k = min (length source) (room m ps)"
    using pack_frame [OF assms(1,3)] by auto
  then show ?thesis
    using pack_unpack [OF assms(1,3)] assms(2) by (simp add: unpack_eq same_capacities_room)
qed

theorem pack_unpack_roundtrip_witness:
  "take (snd (pack two_blocks [0, 100] [1, 2, 3, 4, 5]))
     (fst (unpack (fst (pack two_blocks [0, 100] [1, 2, 3, 4, 5])) [0, 100])) = [1, 2, 3, 4, 5]"
proof -
  have "separate two_blocks [0, 100]" "length [1, 2, 3, 4, 5 :: u8] \<le> room two_blocks [0, 100]"
    by (simp_all add: two_blocks_simps)
  from pack_unpack_roundtrip [OF this prod.collapse [symmetric]] show ?thesis by blast
qed

text \<open>
  Packing writes nothing but the flag words and the data areas of the
  blocks of the chain, and never more bytes than the chain has room for.
\<close>

theorem pack_stays_inside:
  assumes "separate m ps" and "pack m ps source = (m', k)" and "clear_of m ps a n"
  shows "load m' a n = load m a n \<and> k \<le> room m ps"
  using pack_frame [OF assms(1,2)] assms(3) by (auto intro: load_unchanged)

theorem pack_stays_inside_witness:
  "load (fst (pack two_blocks [0, 100] [1, 2, 3, 4, 5])) 27 73 = load two_blocks 27 73"
  using pack_stays_inside [of two_blocks "[0, 100]" "[1, 2, 3, 4, 5]"
      "fst (pack two_blocks [0, 100] [1, 2, 3, 4, 5])" "snd (pack two_blocks [0, 100] [1, 2, 3, 4, 5])" 27 73]
  by (simp add: two_blocks_simps clear_of_def del: pack.simps)

text \<open>
  A buffer that needs every block of the chain is marked so that a
  reader finds its ends: the head flag is on the first block only, the tail flag on the last
  only.
\<close>

theorem pack_marks_ends:
  assumes "separate m ps" and "pack m ps source = (m', k)" and "ps \<noteq> []"
    and "length ps > 1 \<Longrightarrow> room m (butlast ps) < length source" and "length source \<le> room m ps"
  shows "\<forall>p \<in> set ps. (msg_flags m' p AND FLG_HEAD \<noteq> 0 \<longleftrightarrow> p = hd ps)
    \<and> (msg_flags m' p AND FLG_TAIL \<noteq> 0 \<longleftrightarrow> p = last ps)"
proof
  fix p assume p: "p \<in> set ps"
  note fl = pack_flags [OF assms]
  have "p = hd ps \<or> p \<in> set (tl ps)" using p by (cases ps) auto
  moreover have "hd ps \<notin> set (tl ps)"
    using separate_distinct [OF assms(1)] by (cases ps) auto
  moreover have "length ps = 1 \<longleftrightarrow> hd ps = last ps"
    using separate_distinct [OF assms(1)] assms(3) by (cases ps) auto
  ultimately show "(msg_flags m' p AND FLG_HEAD \<noteq> 0 \<longleftrightarrow> p = hd ps)
      \<and> (msg_flags m' p AND FLG_TAIL \<noteq> 0 \<longleftrightarrow> p = last ps)"
    using fl by (auto split: if_splits)
qed

theorem pack_marks_ends_witness:
  "msg_flags (fst (pack two_blocks [0, 100] [1, 2, 3, 4, 5])) 100 AND FLG_TAIL \<noteq> 0 \<and>
   msg_flags (fst (pack two_blocks [0, 100] [1, 2, 3, 4, 5])) 0 AND FLG_TAIL = 0"
  using pack_marks_ends [of two_blocks "[0, 100]" "[1, 2, 3, 4, 5]"
      "fst (pack two_blocks [0, 100] [1, 2, 3, 4, 5])" "snd (pack two_blocks [0, 100] [1, 2, 3, 4, 5])"]
  by (simp add: two_blocks_simps del: pack.simps)

end
