(* ===== verification/Queue.thy ===== *)
theory Queue
  imports Message
begin

text \<open>
  \<^verbatim>\<open>qbus/queue.h\<close>, \<^verbatim>\<open>qbus/queue.cpp\<close> and the class template of
  \<^verbatim>\<open>qbus/message.h\<close>: the definitions of all queue classes.

  A queue object is a record: its class, the addresses of the headers it works on and its
  process-local fields. The virtual functions dispatch on the class. An operation takes the
  memory (or the world, where it may read the clock) and the object and yields both again.

  Sizes that C++ computes in \<open>size_t\<close> are 64-bit words and positions 32-bit words, so
  every truncation and wrap-around of the code is in the model. A remainder by a zero
  capacity, a member call through a null pointer and a failed assertion are crashes.
\<close>

section \<open>The objects\<close>

type_synonym id_type = u32
type_synonym pos_type = u32
type_synonym region = "pos_type \<times> u64"
type_synonym message_desc = "pmessage \<times> pos_type"
type_synonym garbage_info = "u64 \<times> u64"

datatype queue_class =
  Simple_queue | Shared_queue | Unreadable_shared_queue | Smart_shared_queue

datatype state_type = ST_UNKNOWN | ST_PUSH_SPECIAL_MESSAGE

record queue =
  class_of :: queue_class
  base_ptr :: nat
  shared_ptr :: nat
  smart_ptr :: nat
  m_message_desc :: message_desc
  m_head :: pos_type
  m_counter :: u32
  m_state :: state_type

definition null_desc :: message_desc where
  "null_desc = ([], 0)"

section \<open>base_queue: the header\<close>

abbreviation (input) Q_ID_OFFSET :: nat where "Q_ID_OFFSET \<equiv> 0"
abbreviation (input) Q_CAPACITY_OFFSET :: nat where "Q_CAPACITY_OFFSET \<equiv> 4"
abbreviation (input) Q_TIMEOUT_OFFSET :: nat where "Q_TIMEOUT_OFFSET \<equiv> 8"
abbreviation (input) Q_COUNT_OFFSET :: nat where "Q_COUNT_OFFSET \<equiv> 12"
abbreviation (input) Q_HEAD_OFFSET :: nat where "Q_HEAD_OFFSET \<equiv> 16"
abbreviation (input) Q_TAIL_OFFSET :: nat where "Q_TAIL_OFFSET \<equiv> 20"
abbreviation (input) Q_DATA_OFFSET :: nat where "Q_DATA_OFFSET \<equiv> 24"

definition q_static_size :: "u64 \<Rightarrow> u64" where
  "q_static_size cpct = 24 + cpct"

definition q_id :: "memory \<Rightarrow> queue \<Rightarrow> id_type" where
  "q_id m q = load32 m (base_ptr q + Q_ID_OFFSET)"

definition q_set_id :: "memory \<Rightarrow> queue \<Rightarrow> id_type \<Rightarrow> memory" where
  "q_set_id m q value = store32 m (base_ptr q + Q_ID_OFFSET) value"

definition q_capacity :: "memory \<Rightarrow> queue \<Rightarrow> u64" where
  "q_capacity m q = ucast (load32 m (base_ptr q + Q_CAPACITY_OFFSET))"

definition q_set_capacity :: "memory \<Rightarrow> queue \<Rightarrow> u64 \<Rightarrow> memory" where
  "q_set_capacity m q value = store32 m (base_ptr q + Q_CAPACITY_OFFSET) (ucast value)"

definition keepalive_timeout :: "memory \<Rightarrow> queue \<Rightarrow> u64" where
  "keepalive_timeout m q = ucast (load32 m (base_ptr q + Q_TIMEOUT_OFFSET))"

definition set_keepalive_timeout :: "memory \<Rightarrow> queue \<Rightarrow> u64 \<Rightarrow> memory" where
  "set_keepalive_timeout m q value = store32 m (base_ptr q + Q_TIMEOUT_OFFSET) (ucast value)"

definition base_count :: "memory \<Rightarrow> queue \<Rightarrow> u64" where
  "base_count m q = ucast (load32 m (base_ptr q + Q_COUNT_OFFSET))"

definition set_base_count :: "memory \<Rightarrow> queue \<Rightarrow> u64 \<Rightarrow> memory" where
  "set_base_count m q value = store32 m (base_ptr q + Q_COUNT_OFFSET) (ucast value)"

definition base_head :: "memory \<Rightarrow> queue \<Rightarrow> pos_type" where
  "base_head m q = load32 m (base_ptr q + Q_HEAD_OFFSET)"

definition set_base_head :: "memory \<Rightarrow> queue \<Rightarrow> pos_type \<Rightarrow> memory run" where
  "set_base_head m q value =
     (if q_capacity m q = 0 then crashes Division_by_zero
      else returns (store32 m (base_ptr q + Q_HEAD_OFFSET)
        (ucast (ucast value mod q_capacity m q))))"

definition q_tail :: "memory \<Rightarrow> queue \<Rightarrow> pos_type" where
  "q_tail m q = load32 m (base_ptr q + Q_TAIL_OFFSET)"

definition set_tail :: "memory \<Rightarrow> queue \<Rightarrow> pos_type \<Rightarrow> memory run" where
  "set_tail m q value =
     (if q_capacity m q = 0 then crashes Division_by_zero
      else returns (store32 m (base_ptr q + Q_TAIL_OFFSET)
        (ucast (ucast value mod q_capacity m q))))"

definition q_data :: "queue \<Rightarrow> pos_type \<Rightarrow> nat" where
  "q_data q pos = base_ptr q + Q_DATA_OFFSET + unat pos"

definition clear :: "memory \<Rightarrow> queue \<Rightarrow> memory run" where
  "clear m q =
     and_then (set_base_head m q 0) (\<lambda>m1.
     and_then (set_tail m1 q 0) (\<lambda>m2.
     returns (set_base_count m2 q 0)))"

definition base_size :: "memory \<Rightarrow> queue \<Rightarrow> u64" where
  "base_size m q = q_static_size (q_capacity m q)"

definition base_clean_messages :: "garbage_info" where
  "base_clean_messages = (0, 0)"

lemmas q_field_defs = q_id_def q_set_id_def q_capacity_def q_set_capacity_def
  keepalive_timeout_def set_keepalive_timeout_def base_count_def set_base_count_def
  base_head_def q_tail_def

section \<open>base_shared_queue: the header\<close>

abbreviation (input) SUBS_COUNT_OFFSET :: nat where "SUBS_COUNT_OFFSET \<equiv> 0"
abbreviation (input) S_COUNTER_OFFSET :: nat where "S_COUNTER_OFFSET \<equiv> 4"
abbreviation (input) S_HEADER_SIZE :: nat where "S_HEADER_SIZE \<equiv> 8"

definition s_static_size :: "u64 \<Rightarrow> u64" where
  "s_static_size cpct = 8 + q_static_size cpct"

definition subscriptions_count :: "env \<Rightarrow> memory \<Rightarrow> queue \<Rightarrow> u64" where
  "subscriptions_count E m q =
     ucast (atomic_read32 (atomics E) (load32 m (shared_ptr q + SUBS_COUNT_OFFSET)))"

definition set_subscriptions_count :: "env \<Rightarrow> memory \<Rightarrow> queue \<Rightarrow> u64 \<Rightarrow> memory" where
  "set_subscriptions_count E m q value =
     store32 m (shared_ptr q + SUBS_COUNT_OFFSET)
       (atomic_write32 (atomics E) (load32 m (shared_ptr q + SUBS_COUNT_OFFSET)) (ucast value))"

definition inc_subscriptions_count :: "env \<Rightarrow> memory \<Rightarrow> queue \<Rightarrow> u64 \<times> memory" where
  "inc_subscriptions_count E m q =
     (let (old, new) = atomic_inc32 (atomics E) (load32 m (shared_ptr q + SUBS_COUNT_OFFSET))
      in (ucast (old + 1), store32 m (shared_ptr q + SUBS_COUNT_OFFSET) new))"

definition dec_subscriptions_count :: "env \<Rightarrow> memory \<Rightarrow> queue \<Rightarrow> u64 \<times> memory" where
  "dec_subscriptions_count E m q =
     (let (old, new) = atomic_dec32 (atomics E) (load32 m (shared_ptr q + SUBS_COUNT_OFFSET))
      in (ucast (old - 1), store32 m (shared_ptr q + SUBS_COUNT_OFFSET) new))"

definition s_counter :: "memory \<Rightarrow> queue \<Rightarrow> u32" where
  "s_counter m q = load32 m (shared_ptr q + S_COUNTER_OFFSET)"

definition set_s_counter :: "memory \<Rightarrow> queue \<Rightarrow> u32 \<Rightarrow> memory" where
  "set_s_counter m q value = store32 m (shared_ptr q + S_COUNTER_OFFSET) value"

definition shared_size :: "memory \<Rightarrow> queue \<Rightarrow> u64" where
  "shared_size m q = s_static_size (q_capacity m q)"

definition shared_head :: "memory \<Rightarrow> queue \<Rightarrow> pos_type" where
  "shared_head m q = (if m_head q \<noteq> - 1 then m_head q else base_head m q)"

definition shared_count :: "memory \<Rightarrow> queue \<Rightarrow> u64" where
  "shared_count m q = ucast (s_counter m q - m_counter q)"

section \<open>smart_shared_queue: the header\<close>

abbreviation (input) FREE_SPACE_OFFSET :: nat where "FREE_SPACE_OFFSET \<equiv> 0"
abbreviation (input) F_HEADER_SIZE :: nat where "F_HEADER_SIZE \<equiv> 4"

definition smart_static_size :: "u64 \<Rightarrow> u64" where
  "smart_static_size cpct = 4 + s_static_size cpct"

definition free_space :: "env \<Rightarrow> memory \<Rightarrow> queue \<Rightarrow> u64" where
  "free_space E m q =
     ucast (atomic_read32 (atomics E) (load32 m (smart_ptr q + FREE_SPACE_OFFSET)))"

definition set_free_space :: "env \<Rightarrow> memory \<Rightarrow> queue \<Rightarrow> u64 \<Rightarrow> memory" where
  "set_free_space E m q value =
     store32 m (smart_ptr q + FREE_SPACE_OFFSET)
       (atomic_write32 (atomics E) (load32 m (smart_ptr q + FREE_SPACE_OFFSET)) (ucast value))"

definition inc_free_space :: "env \<Rightarrow> memory \<Rightarrow> queue \<Rightarrow> u64 \<Rightarrow> u64 \<times> memory" where
  "inc_free_space E m q value =
     (let (old, new) = atomic_add32 (atomics E) (load32 m (smart_ptr q + FREE_SPACE_OFFSET))
            (ucast value)
      in (ucast old + value, store32 m (smart_ptr q + FREE_SPACE_OFFSET) new))"

definition dec_free_space :: "env \<Rightarrow> memory \<Rightarrow> queue \<Rightarrow> u64 \<Rightarrow> u64 \<times> memory" where
  "dec_free_space E m q value =
     (let (old, new) = atomic_add32 (atomics E) (load32 m (smart_ptr q + FREE_SPACE_OFFSET))
            (ucast (- value))
      in (ucast old - value, store32 m (smart_ptr q + FREE_SPACE_OFFSET) new))"

definition smart_size :: "memory \<Rightarrow> queue \<Rightarrow> u64" where
  "smart_size m q = smart_static_size (q_capacity m q)"

section \<open>Virtual accessors\<close>

definition q_head :: "memory \<Rightarrow> queue \<Rightarrow> pos_type" where
  "q_head m q = (case class_of q of Simple_queue \<Rightarrow> base_head m q | _ \<Rightarrow> shared_head m q)"

definition q_count :: "memory \<Rightarrow> queue \<Rightarrow> u64" where
  "q_count m q = (case class_of q of Simple_queue \<Rightarrow> base_count m q | _ \<Rightarrow> shared_count m q)"

definition q_empty :: "memory \<Rightarrow> queue \<Rightarrow> bool" where
  "q_empty m q \<longleftrightarrow> q_count m q = 0"

definition q_size :: "memory \<Rightarrow> queue \<Rightarrow> u64" where
  "q_size m q = (case class_of q of
       Simple_queue \<Rightarrow> base_size m q
     | Smart_shared_queue \<Rightarrow> smart_size m q
     | _ \<Rightarrow> shared_size m q)"

section \<open>Regions\<close>

definition base_get_free_region :: "memory \<Rightarrow> queue \<Rightarrow> region option \<Rightarrow> region run" where
  "base_get_free_region m q pprev_region =
     (let cpct = q_capacity m q; hd = base_head m q in
      case pprev_region of
        None \<Rightarrow>
          let tl = q_tail m q in
          returns (if base_count m q = 0 \<or> hd < tl then (tl, cpct - ucast tl)
                   else (tl, ucast (hd - tl)))
      | Some prev \<Rightarrow>
          if cpct = 0 then crashes Division_by_zero
          else
            let tl = ucast ((ucast (fst prev) + snd prev) mod cpct) in
            returns (if hd < tl then (tl, cpct - ucast tl) else (tl, ucast (hd - tl))))"

definition smart_get_free_region ::
  "env \<Rightarrow> memory \<Rightarrow> queue \<Rightarrow> region option \<Rightarrow> region run" where
  "smart_get_free_region E m q pprev_region =
     and_then (base_get_free_region m q pprev_region) (\<lambda>base_region.
       if m_state q \<noteq> ST_PUSH_SPECIAL_MESSAGE then
         let reserved_space = 2 * static_size 1 * subscriptions_count E m q;
             available_space = free_space E m q - reserved_space;
             size = snd base_region +
               (case pprev_region of None \<Rightarrow> 0 | Some prev \<Rightarrow> snd prev)
         in if size > available_space
            then returns (fst base_region, snd base_region - (size - available_space))
            else returns base_region
       else returns base_region)"

definition get_free_region :: "env \<Rightarrow> memory \<Rightarrow> queue \<Rightarrow> region option \<Rightarrow> region run" where
  "get_free_region E m q pprev_region =
     (case class_of q of
        Smart_shared_queue \<Rightarrow> smart_get_free_region E m q pprev_region
      | _ \<Rightarrow> base_get_free_region m q pprev_region)"

definition get_busy_region :: "memory \<Rightarrow> queue \<Rightarrow> region option \<Rightarrow> region run" where
  "get_busy_region m q pprev_region =
     (let cpct = q_capacity m q; tl = q_tail m q in
      case pprev_region of
        None \<Rightarrow>
          let hd = q_head m q in
          returns (if q_empty m q \<or> hd < tl then (hd, ucast (tl - hd))
                   else (hd, cpct - ucast hd))
      | Some prev \<Rightarrow>
          if cpct = 0 then crashes Division_by_zero
          else
            let hd = ucast ((ucast (fst prev) + snd prev) mod cpct) in
            returns (if hd < tl then (hd, ucast (tl - hd)) else (hd, cpct - ucast hd)))"

section \<open>Making and getting messages\<close>

text \<open>
  The two nested loops of \<open>static_make_message\<close> in one: a region too small for a header
  is skipped, any other takes the next part of the data. \<open>None\<close> in the result is the
  early return when the regions have run out.
\<close>

partial_function (option) make_loop ::
  "env \<Rightarrow> queue \<Rightarrow> world \<Rightarrow> pmessage \<Rightarrow> region option \<Rightarrow> nat
    \<Rightarrow> (world \<times> (pmessage \<times> region option) option) run" where
  "make_loop E q w pmessage pprev_region rest =
     (if rest = 0 then returns (w, Some (pmessage, pprev_region))
      else and_then (get_free_region E (mem w) q pprev_region) (\<lambda>region.
        if snd region = 0 then returns (w, None)
        else if snd region \<le> 24 then make_loop E q w pmessage (Some region) rest
        else
          let part = min rest (unat (static_capacity (snd region))) in
          and_then (new_message E w (q_data q (fst region)) (of_nat part)) (\<lambda>(pnext, w1).
            make_loop E q w1 (attach pmessage pnext) (Some region) (rest - part))))"

definition static_make_message ::
  "env \<Rightarrow> queue \<Rightarrow> world \<Rightarrow> u8 list \<Rightarrow> (message_desc \<times> world) run" where
  "static_make_message E q w data =
     and_then (make_loop E q w [] None (length data)) (\<lambda>(w1, made).
       case made of
         None \<Rightarrow> returns (null_desc, w1)
       | Some (pmessage, pregion) \<Rightarrow>
           (case pregion of
              None \<Rightarrow> crashes Null_pointer
            | Some region \<Rightarrow>
                let (m2, packed_size) = pack (mem w1) pmessage data in
                if packed_size \<noteq> length data then crashes Assertion_failed
                else returns ((pmessage, ucast (ucast (fst region) + msg_size m2 (last pmessage))),
                       w1\<lparr>mem := m2\<rparr>)))"

partial_function (option) get_loop ::
  "queue \<Rightarrow> memory \<Rightarrow> pmessage \<Rightarrow> region option \<Rightarrow> message_desc run" where
  "get_loop q m pmessage pprev_region =
     and_then (get_busy_region m q pprev_region) (\<lambda>region.
       if snd region = 0 then returns null_desc
       else if snd region \<le> 24 then get_loop q m pmessage (Some region)
       else
         let pnext = q_data q (fst region);
             chain = attach pmessage (wrap_message pnext)
         in if pmessage = [] \<and> msg_flags m pnext AND FLG_HEAD = 0 then crashes Assertion_failed
            else if msg_flags m pnext AND FLG_TAIL \<noteq> 0
            then returns (chain, ucast (ucast (fst region) + msg_size m pnext))
            else get_loop q m chain (Some region))"

definition static_get_message :: "queue \<Rightarrow> memory \<Rightarrow> message_desc run" where
  "static_get_message q m = get_loop q m [] None"

end
