(* ===== verification/Queue_Operations.thy ===== *)
theory Queue_Operations
  imports Queue
begin

text \<open>
  \<^verbatim>\<open>qbus/queue.cpp\<close>: what each queue class does to push, get, pop and collect messages,
  the operations of \<open>base_queue\<close> built on these virtual functions, and the constructors
  and destructors.
\<close>

section \<open>base_shared_queue\<close>

text \<open>
  The loop of \<open>clean_messages\<close>: \<open>cnt\<close> is the number of messages not looked at yet, and
  the object is the one with \<open>m_head\<close> and \<open>m_counter\<close> set for the duration of the loop.
\<close>

fun clean_loop :: "env \<Rightarrow> queue \<Rightarrow> nat \<Rightarrow> memory \<Rightarrow> garbage_info \<Rightarrow> (garbage_info \<times> memory) run" where
  "clean_loop E q 0 m garbage = returns (garbage, m)"
| "clean_loop E q (Suc cnt) m garbage =
     and_then (static_get_message q m) (\<lambda>(pmessage, pos).
       if pmessage = [] \<or> msg_counter E m (hd pmessage) > 0 then returns (garbage, m)
       else and_then (set_base_head m q pos) (\<lambda>m1.
         let m2 = set_base_count m1 q (of_nat cnt) in
         clean_loop E q cnt m2 (fst garbage + 1, snd garbage + total_size m2 pmessage)))"

definition shared_clean_messages :: "env \<Rightarrow> memory \<Rightarrow> queue \<Rightarrow> (garbage_info \<times> memory) run" where
  "shared_clean_messages E m q =
     (let cnt = base_count m q in
      if cnt > 0
      then clean_loop E (q\<lparr>m_head := - 1, m_counter := m_counter q - 1\<rparr>) (unat cnt) m (0, 0)
      else returns ((0, 0), m))"

definition shared_push_message ::
  "env \<Rightarrow> queue \<Rightarrow> world \<Rightarrow> u8 list \<Rightarrow> (message_desc \<times> world) run" where
  "shared_push_message E q w data =
     and_then (static_make_message E q w data) (\<lambda>((pmessage, pos), w1).
       if pmessage \<noteq> [] then
         let m2 = msg_set_counter E (mem w1) (hd pmessage) (subscriptions_count E (mem w1) q);
             m3 = set_s_counter m2 q (s_counter m2 q + 1)
         in returns ((pmessage, pos), w1\<lparr>mem := m3\<rparr>)
       else returns ((pmessage, pos), w1))"

definition shared_pop_message :: "env \<Rightarrow> memory \<Rightarrow> queue \<Rightarrow> message_desc \<Rightarrow> (memory \<times> queue) run" where
  "shared_pop_message E m q desc =
     (if fst desc = [] then crashes Null_pointer
      else let (counter, m1) = msg_dec_counter E m (hd (fst desc)) in
        if counter = ucast (- 1 :: u32) then crashes Assertion_failed
        else if q_capacity m1 q = 0 then crashes Division_by_zero
        else returns (m1, q\<lparr>m_head := ucast (ucast (snd desc) mod q_capacity m1 q),
               m_counter := m_counter q + 1\<rparr>))"

section \<open>simple_queue\<close>

definition simple_pop_message :: "env \<Rightarrow> memory \<Rightarrow> queue \<Rightarrow> message_desc \<Rightarrow> (memory \<times> queue) run" where
  "simple_pop_message E m q desc =
     (if fst desc = [] then crashes Null_pointer
      else
        let (_, m1) = msg_dec_counter E m (hd (fst desc)) in
        and_then (set_base_head m1 q (snd desc)) (\<lambda>m2.
          returns (set_base_count m2 q (base_count m2 q - 1), q)))"

section \<open>unreadable_shared_queue\<close>

definition unreadable_clean_messages ::
  "env \<Rightarrow> memory \<Rightarrow> queue \<Rightarrow> (garbage_info \<times> memory \<times> queue) run" where
  "unreadable_clean_messages E m q =
     and_then (shared_clean_messages E m q) (\<lambda>(garbage, m1).
       returns (garbage, m1, q\<lparr>m_counter := m_counter q + ucast (fst garbage)\<rparr>))"

section \<open>smart_shared_queue\<close>

definition smart_clean_messages ::
  "env \<Rightarrow> memory \<Rightarrow> queue \<Rightarrow> (garbage_info \<times> memory) run" where
  "smart_clean_messages E m q =
     and_then (shared_clean_messages E m q) (\<lambda>(garbage, m1).
       if fst garbage > 0 then returns (garbage, snd (inc_free_space E m1 q (snd garbage)))
       else returns (garbage, m1))"

definition smart_push_message ::
  "env \<Rightarrow> queue \<Rightarrow> world \<Rightarrow> u8 list \<Rightarrow> (message_desc \<times> world) run" where
  "smart_push_message E q w data =
     and_then (shared_push_message E q w data) (\<lambda>((pmessage, pos), w1).
       if pmessage \<noteq> [] then
         let message_size = total_size (mem w1) pmessage
         in returns ((pmessage, pos), w1\<lparr>mem := snd (dec_free_space E (mem w1) q message_size)\<rparr>)
       else returns ((pmessage, pos), w1))"

text \<open>A reader skips (pops) the messages it pushed itself and all service messages.\<close>

partial_function (option) smart_get_message ::
  "env \<Rightarrow> memory \<Rightarrow> queue \<Rightarrow> (message_desc \<times> memory \<times> queue) run" where
  "smart_get_message E m q =
     and_then (static_get_message q m) (\<lambda>desc.
       if fst desc = [] then crashes Assertion_failed
       else if msg_sid m (hd (fst desc)) \<noteq> get_sid E \<and> msg_tag m (hd (fst desc)) \<noteq> SERVICE_TAG
       then returns (desc, m, q)
       else and_then (shared_pop_message E m q desc) (\<lambda>(m1, q1).
         if q_count m1 q1 > 0 then smart_get_message E m1 q1
         else returns (null_desc, m1, q1)))"

section \<open>Virtual operations\<close>

definition clean_messages :: "env \<Rightarrow> memory \<Rightarrow> queue \<Rightarrow> (garbage_info \<times> memory \<times> queue) run" where
  "clean_messages E m q =
     (case class_of q of
        Simple_queue \<Rightarrow> returns (base_clean_messages, m, q)
      | Shared_queue \<Rightarrow> and_then (shared_clean_messages E m q) (\<lambda>(g, m1). returns (g, m1, q))
      | Unreadable_shared_queue \<Rightarrow> unreadable_clean_messages E m q
      | Smart_shared_queue \<Rightarrow> and_then (smart_clean_messages E m q) (\<lambda>(g, m1). returns (g, m1, q)))"

definition push_message :: "env \<Rightarrow> queue \<Rightarrow> world \<Rightarrow> u8 list \<Rightarrow> (message_desc \<times> world) run" where
  "push_message E q w data =
     (case class_of q of
        Simple_queue \<Rightarrow> static_make_message E q w data
      | Smart_shared_queue \<Rightarrow> smart_push_message E q w data
      | _ \<Rightarrow> shared_push_message E q w data)"

definition get_message :: "env \<Rightarrow> memory \<Rightarrow> queue \<Rightarrow> (message_desc \<times> memory \<times> queue) run" where
  "get_message E m q =
     (case class_of q of
        Smart_shared_queue \<Rightarrow> smart_get_message E m q
      | _ \<Rightarrow> and_then (static_get_message q m) (\<lambda>desc. returns (desc, m, q)))"

definition pop_message :: "env \<Rightarrow> memory \<Rightarrow> queue \<Rightarrow> message_desc \<Rightarrow> (memory \<times> queue) run" where
  "pop_message E m q desc =
     (case class_of q of
        Simple_queue \<Rightarrow> simple_pop_message E m q desc
      | _ \<Rightarrow> shared_pop_message E m q desc)"

section \<open>base_queue: push, get, pop, clean\<close>

definition clean :: "env \<Rightarrow> memory \<Rightarrow> queue \<Rightarrow> (u64 \<times> memory \<times> queue) run" where
  "clean E m q = and_then (clean_messages E m q) (\<lambda>(garbage, m1, q1). returns (fst garbage, m1, q1))"

definition do_push ::
  "env \<Rightarrow> world \<Rightarrow> queue \<Rightarrow> tag_type \<Rightarrow> u8 list \<Rightarrow> (bool \<times> world \<times> queue) run" where
  "do_push E w q tag data =
     and_then (clean_messages E (mem w) q) (\<lambda>(_, m1, q1).
     and_then (push_message E q1 (w\<lparr>mem := m1\<rparr>) data) (\<lambda>((pmessage, pos), w2).
       if pmessage \<noteq> [] then
         and_then (set_tail (msg_set_tag (mem w2) (hd pmessage) tag) q1 pos) (\<lambda>m3.
           returns (True, w2\<lparr>mem := set_base_count m3 q1 (base_count m3 q1 + 1)\<rparr>, q1))
       else returns (False, w2, q1)))"

text \<open>
  The eviction loop of \<open>push\<close>: while the push fails, the oldest message goes, provided it
  is not younger than the limit.
\<close>

partial_function (option) evict_loop ::
  "env \<Rightarrow> world \<Rightarrow> queue \<Rightarrow> tag_type \<Rightarrow> u8 list \<Rightarrow> u64 \<Rightarrow> (bool \<times> world \<times> queue) run" where
  "evict_loop E w q tag data limit =
     (if q_empty (mem w) q then returns (False, w, q)
      else and_then (get_message E (mem w) q) (\<lambda>(desc, m1, q1).
        if fst desc = [] \<or> msg_timestamp m1 (hd (fst desc)) > limit
        then returns (False, w\<lparr>mem := m1\<rparr>, q1)
        else and_then (pop_message E m1 q1 desc) (\<lambda>(m2, q2).
             and_then (do_push E (w\<lparr>mem := m2\<rparr>) q2 tag data) (\<lambda>(pushed, w3, q3).
               if pushed then returns (True, w3, q3)
               else evict_loop E w3 q3 tag data limit))))"

definition push ::
  "env \<Rightarrow> world \<Rightarrow> queue \<Rightarrow> tag_type \<Rightarrow> u8 list \<Rightarrow> (bool \<times> world \<times> queue) run" where
  "push E w q tag data =
     and_then (do_push E w q tag data) (\<lambda>(pushed, w1, q1).
       if \<not> pushed then
         let timeout = keepalive_timeout (mem w1) q1 in
         if timeout > 0 then
           and_then (get_timestamp E w1) (\<lambda>(now, w2).
             evict_loop E w2 q1 tag data (now - timeout))
         else returns (False, w1, q1)
       else returns (True, w1, q1))"

definition get :: "env \<Rightarrow> memory \<Rightarrow> queue \<Rightarrow> (pmessage \<times> memory \<times> queue) run" where
  "get E m q =
     (if q_count m q > 0 then
        and_then (get_message E m q) (\<lambda>(desc, m1, q1).
          returns (fst desc, m1, q1\<lparr>m_message_desc := desc\<rparr>))
      else returns ([], m, q))"

definition pop :: "env \<Rightarrow> memory \<Rightarrow> queue \<Rightarrow> (bool \<times> memory \<times> queue) run" where
  "pop E m q =
     (if q_count m q > 0 then
        and_then
          (if fst (m_message_desc q) = [] then
             and_then (get_message E m q) (\<lambda>(desc, m1, q1).
               returns (m1, q1\<lparr>m_message_desc := desc\<rparr>))
           else returns (m, q)) (\<lambda>(m1, q1).
        and_then (pop_message E m1 q1 (m_message_desc q1)) (\<lambda>(m2, q2).
          returns (True, m2, q2\<lparr>m_message_desc := ([], snd (m_message_desc q2))\<rparr>)))
      else returns (False, m, q))"

section \<open>Service messages\<close>

text \<open>\<open>while (!push(TAG, &data, 1)) yield;\<close> with no other process running meanwhile.\<close>

partial_function (option) push_service_loop ::
  "env \<Rightarrow> world \<Rightarrow> queue \<Rightarrow> u8 \<Rightarrow> (world \<times> queue) run" where
  "push_service_loop E w q data =
     and_then (push E w q SERVICE_TAG [data]) (\<lambda>(pushed, w1, q1).
       if pushed then returns (w1, q1) else push_service_loop E w1 q1 data)"

definition push_service_message :: "env \<Rightarrow> world \<Rightarrow> queue \<Rightarrow> service_code \<Rightarrow> (world \<times> queue) run" where
  "push_service_message E w q code =
     and_then (push_service_loop E w (q\<lparr>m_state := ST_PUSH_SPECIAL_MESSAGE\<rparr>) (code_byte code))
       (\<lambda>(w1, q1). returns (w1, rollback m_state (\<lambda>v. m_state_update (\<lambda>_. v)) q q1))"

section \<open>Constructors and destructors\<close>

definition fresh_object :: "queue_class \<Rightarrow> nat \<Rightarrow> nat \<Rightarrow> nat \<Rightarrow> queue" where
  "fresh_object c b s f = \<lparr>class_of = c, base_ptr = b, shared_ptr = s, smart_ptr = f,
     m_message_desc = null_desc, m_head = - 1, m_counter = 0, m_state = ST_UNKNOWN\<rparr>"

definition base_create :: "memory \<Rightarrow> queue \<Rightarrow> id_type \<Rightarrow> u64 \<Rightarrow> memory run" where
  "base_create m q qid cpct =
     clear (set_keepalive_timeout (q_set_capacity (q_set_id m q qid) q cpct) q 0) q"

definition simple_open :: "nat \<Rightarrow> queue" where
  "simple_open ptr = fresh_object Simple_queue ptr ptr ptr"

definition simple_create :: "memory \<Rightarrow> id_type \<Rightarrow> nat \<Rightarrow> u64 \<Rightarrow> (memory \<times> queue) run" where
  "simple_create m qid ptr cpct =
     (let q = simple_open ptr in
      and_then (base_create m q qid cpct) (\<lambda>m1. returns (m1, q)))"

definition base_shared_open :: "queue_class \<Rightarrow> memory \<Rightarrow> nat \<Rightarrow> nat \<Rightarrow> queue" where
  "base_shared_open c m ptr f =
     (let q = fresh_object c (ptr + S_HEADER_SIZE) ptr f in q\<lparr>m_counter := s_counter m q\<rparr>)"

definition base_shared_create ::
  "queue_class \<Rightarrow> env \<Rightarrow> memory \<Rightarrow> id_type \<Rightarrow> nat \<Rightarrow> nat \<Rightarrow> u64 \<Rightarrow> (memory \<times> queue) run" where
  "base_shared_create c E m qid ptr f cpct =
     (let q = fresh_object c (ptr + S_HEADER_SIZE) ptr f in
      and_then (base_create m q qid cpct) (\<lambda>m1.
        returns (set_subscriptions_count E (set_s_counter m1 q 0) q 0, q)))"

definition shared_open :: "env \<Rightarrow> memory \<Rightarrow> nat \<Rightarrow> memory \<times> queue" where
  "shared_open E m ptr =
     (let q = base_shared_open Shared_queue m ptr ptr in (snd (inc_subscriptions_count E m q), q))"

definition shared_create :: "env \<Rightarrow> memory \<Rightarrow> id_type \<Rightarrow> nat \<Rightarrow> u64 \<Rightarrow> (memory \<times> queue) run" where
  "shared_create E m qid ptr cpct =
     and_then (base_shared_create Shared_queue E m qid ptr ptr cpct) (\<lambda>(m1, q).
       returns (set_subscriptions_count E m1 q 1, q))"

definition shared_destroy :: "env \<Rightarrow> memory \<Rightarrow> queue \<Rightarrow> memory" where
  "shared_destroy E m q = snd (dec_subscriptions_count E m q)"

definition unreadable_open :: "memory \<Rightarrow> nat \<Rightarrow> queue" where
  "unreadable_open m ptr = base_shared_open Unreadable_shared_queue m ptr ptr"

definition unreadable_create :: "env \<Rightarrow> memory \<Rightarrow> id_type \<Rightarrow> nat \<Rightarrow> u64 \<Rightarrow> (memory \<times> queue) run" where
  "unreadable_create E m qid ptr cpct =
     and_then (base_shared_create Unreadable_shared_queue E m qid ptr ptr cpct) (\<lambda>(m1, q).
       returns (set_subscriptions_count E m1 q 0, q))"

definition initialize :: "env \<Rightarrow> world \<Rightarrow> queue \<Rightarrow> (world \<times> queue) run" where
  "initialize E w q =
     and_then (push_service_message E w q CODE_CONNECT) (\<lambda>(w1, q1).
       returns (w1\<lparr>mem := snd (inc_subscriptions_count E (mem w1) q1)\<rparr>,
         q1\<lparr>m_head := q_tail (mem w1) q1, m_counter := s_counter (mem w1) q1\<rparr>))"

definition smart_open :: "env \<Rightarrow> world \<Rightarrow> nat \<Rightarrow> (world \<times> queue) run" where
  "smart_open E w ptr =
     initialize E w (base_shared_open Smart_shared_queue (mem w) (ptr + F_HEADER_SIZE) ptr)"

definition smart_create :: "env \<Rightarrow> world \<Rightarrow> id_type \<Rightarrow> nat \<Rightarrow> u64 \<Rightarrow> (world \<times> queue) run" where
  "smart_create E w qid ptr cpct =
     and_then (base_shared_create Smart_shared_queue E (mem w) qid (ptr + F_HEADER_SIZE) ptr cpct)
       (\<lambda>(m1, q). initialize E (w\<lparr>mem := set_free_space E m1 q (q_capacity m1 q)\<rparr>) q)"

text \<open>
  The constructors with a parent queue. Opening takes the booking messages left for the
  subscribers of the parent, up to the first message that is not a booking.
\<close>

partial_function (option) booked_loop ::
  "env \<Rightarrow> memory \<Rightarrow> queue \<Rightarrow> nat \<Rightarrow> (nat \<times> memory \<times> queue) run" where
  "booked_loop E m q booked =
     (if q_count m q > 0 then
        and_then (static_get_message q m) (\<lambda>desc.
          if fst desc = [] \<or> msg_tag m (hd (fst desc)) \<noteq> SERVICE_TAG
          then crashes Assertion_failed
          else
            let code = service_code_of m (hd (fst desc)) in
            and_then (shared_pop_message E m q desc) (\<lambda>(m1, q1).
              if code \<noteq> code_byte CODE_BOOK then returns (booked, m1, q1)
              else booked_loop E m1 q1 (booked + 1)))
      else returns (booked, m, q))"

definition smart_open_booked ::
  "env \<Rightarrow> world \<Rightarrow> nat \<Rightarrow> queue option \<Rightarrow> (world \<times> queue) run" where
  "smart_open_booked E w ptr pqueue =
     (let q = base_shared_open Smart_shared_queue (mem w) (ptr + F_HEADER_SIZE) ptr in
      case pqueue of
        None \<Rightarrow> initialize E w q
      | Some pq \<Rightarrow>
          if class_of pq \<noteq> Smart_shared_queue then crashes Assertion_failed
          else and_then (booked_loop E (mem w) (q\<lparr>m_counter := 0\<rparr>) 0) (\<lambda>(booked, m1, q1).
            if booked = 0 then crashes Assertion_failed
            else returns (w\<lparr>mem := m1\<rparr>, q1)))"

fun push_bookings :: "env \<Rightarrow> world \<Rightarrow> queue \<Rightarrow> nat \<Rightarrow> (world \<times> queue) run" where
  "push_bookings E w q 0 = returns (w, q)"
| "push_bookings E w q (Suc n) =
     and_then (push_service_message E w q CODE_BOOK) (\<lambda>(w1, q1). push_bookings E w1 q1 n)"

definition smart_create_booked ::
  "env \<Rightarrow> world \<Rightarrow> id_type \<Rightarrow> nat \<Rightarrow> u64 \<Rightarrow> queue option \<Rightarrow> (world \<times> queue) run" where
  "smart_create_booked E w qid ptr cpct pqueue =
     and_then (base_shared_create Smart_shared_queue E (mem w) qid (ptr + F_HEADER_SIZE) ptr cpct)
       (\<lambda>(m1, q).
         and_then
           (case pqueue of
              None \<Rightarrow> returns (w\<lparr>mem := set_free_space E m1 q (q_capacity m1 q)\<rparr>, q)
            | Some pq \<Rightarrow>
                if class_of pq \<noteq> Smart_shared_queue then crashes Assertion_failed
                else
                  let count = subscriptions_count E m1 pq in
                  if count > 1 then
                    push_bookings E
                      (w\<lparr>mem := set_subscriptions_count E m1 q (count - 1)\<rparr>) q (unat (count - 1))
                  else returns (w\<lparr>mem := m1\<rparr>, q))
           (\<lambda>(w2, q2). initialize E w2 q2))"

text \<open>
  The destructor: it announces the disconnection and reads up to its own announcement, so
  that the counters of the messages it has not read are released.
\<close>

partial_function (option) drain_loop :: "env \<Rightarrow> memory \<Rightarrow> queue \<Rightarrow> (memory \<times> queue) run" where
  "drain_loop E m q =
     and_then (static_get_message q m) (\<lambda>desc.
       if fst desc = [] then crashes Assertion_failed
       else
         let mine = msg_sid m (hd (fst desc)) = get_sid E
               \<and> msg_tag m (hd (fst desc)) = SERVICE_TAG
               \<and> service_code_of m (hd (fst desc)) = code_byte CODE_DISCONNECT
         in and_then (shared_pop_message E m q desc) (\<lambda>(m1, q1).
              if mine then returns (m1, q1) else drain_loop E m1 q1))"

definition smart_destroy :: "env \<Rightarrow> world \<Rightarrow> queue \<Rightarrow> (world \<times> queue) run" where
  "smart_destroy E w q =
     and_then (push_service_message E w q CODE_DISCONNECT) (\<lambda>(w1, q1).
       and_then (drain_loop E (snd (dec_subscriptions_count E (mem w1) q1)) q1) (\<lambda>(m2, q2).
         returns (w1\<lparr>mem := m2\<rparr>, q2)))"

text \<open>\<open>create<Queue>\<close> and \<open>open<Queue>\<close>: only the smart queue looks at its parent.\<close>

definition create_queue ::
  "env \<Rightarrow> world \<Rightarrow> queue_class \<Rightarrow> id_type \<Rightarrow> nat \<Rightarrow> u64 \<Rightarrow> queue option \<Rightarrow> (world \<times> queue) run" where
  "create_queue E w c qid ptr cpct pqueue =
     (let lift = (\<lambda>r. and_then r (\<lambda>(m1, q). returns (w\<lparr>mem := m1\<rparr>, q))) in
      case c of
        Simple_queue \<Rightarrow> lift (simple_create (mem w) qid ptr cpct)
      | Shared_queue \<Rightarrow> lift (shared_create E (mem w) qid ptr cpct)
      | Unreadable_shared_queue \<Rightarrow> lift (unreadable_create E (mem w) qid ptr cpct)
      | Smart_shared_queue \<Rightarrow> smart_create_booked E w qid ptr cpct pqueue)"

definition open_queue ::
  "env \<Rightarrow> world \<Rightarrow> queue_class \<Rightarrow> nat \<Rightarrow> queue option \<Rightarrow> (world \<times> queue) run" where
  "open_queue E w c ptr pqueue =
     (case c of
        Simple_queue \<Rightarrow> returns (w, simple_open ptr)
      | Shared_queue \<Rightarrow> (let (m1, q) = shared_open E (mem w) ptr in returns (w\<lparr>mem := m1\<rparr>, q))
      | Unreadable_shared_queue \<Rightarrow> returns (w, unreadable_open (mem w) ptr)
      | Smart_shared_queue \<Rightarrow> smart_open_booked E w ptr pqueue)"

end
