(* ===== verification/Ring.thy ===== *)
theory Ring
  imports Queue_Operations
begin

text \<open>
  The ring of messages that \<open>static_make_message\<close> and \<open>static_get_message\<close> lay out in
  the data area of a queue: where the parts of a message go, how much of the ring it takes,
  and the proof that making a message and getting it back agree on this layout. All queue
  classes share it.
\<close>

section \<open>Layout\<close>

text \<open>
  \<open>place cap p n\<close>: the parts, as position and data size, of a message of \<open>n\<close> bytes made
  at position \<open>p\<close>. What is left up to the end of the ring is skipped when it has no room
  for a header and one byte; otherwise it takes the first part.
\<close>

definition place :: "nat \<Rightarrow> nat \<Rightarrow> nat \<Rightarrow> (nat \<times> nat) list" where
  "place cap p n =
     (if cap - p \<le> 24 then [(0, n)]
      else if n \<le> cap - p - 24 then [(p, n)]
      else [(p, cap - p - 24), (0, n - (cap - p - 24))])"

definition span :: "nat \<Rightarrow> nat \<Rightarrow> nat \<Rightarrow> nat" where
  "span cap p n =
     (if cap - p \<le> 24 then cap - p + 24 + n
      else if n \<le> cap - p - 24 then 24 + n
      else 48 + n)"

text \<open>\<open>arc cap p n\<close>: the \<open>n\<close> positions of the ring from \<open>p\<close> on.\<close>

definition arc :: "nat \<Rightarrow> nat \<Rightarrow> nat \<Rightarrow> nat set" where
  "arc cap p n = (if p + n \<le> cap then {p..<p + n} else {p..<cap} \<union> {0..<p + n - cap})"

lemma span_pos [simp]: "0 < span cap p n"
  by (simp add: span_def)

lemma span_ge: "24 + n \<le> span cap p n"
  by (auto simp: span_def)

lemma place_nonempty [simp]: "place cap p n \<noteq> []"
  by (simp add: place_def)

lemma place_arc:
  assumes "p < cap" and "span cap p n \<le> cap" and "(pos, len) \<in> set (place cap p n)"
  shows "{pos..<pos + 24 + len} \<subseteq> arc cap p (span cap p n)" "pos + 24 + len \<le> cap"
  using assms by (auto simp: place_def span_def arc_def split: if_splits)

lemma place_end:
  assumes "p < cap" and "span cap p n \<le> cap" and "last (place cap p n) = (pos, len)"
  shows "(pos + 24 + len) mod cap = (p + span cap p n) mod cap"
proof -
  have "p + span cap p n = pos + 24 + len \<or> p + span cap p n = pos + 24 + len + cap"
    using assms by (auto simp: place_def span_def split: if_splits)
  then show ?thesis by auto
qed

lemma mod_wrap: "p < (cap :: nat) \<Longrightarrow> n \<le> cap \<Longrightarrow>
    (p + n) mod cap = (if p + n < cap then p + n else p + n - cap)"
  by (simp add: mod_if)

lemma arc_split:
  assumes "p < cap" and "a + b \<le> cap"
  shows "arc cap p (a + b) = arc cap p a \<union> arc cap ((p + a) mod cap) b"
  using assms by (auto simp: arc_def mod_wrap)

lemma arc_disjoint:
  assumes "p < cap" and "a + b \<le> cap"
  shows "arc cap p a \<inter> arc cap ((p + a) mod cap) b = {}"
  using assms by (auto simp: arc_def mod_wrap)

lemma arc_below: "p < cap \<Longrightarrow> n \<le> cap \<Longrightarrow> arc cap p n \<subseteq> {0..<cap}"
  by (auto simp: arc_def)

section \<open>Regions as natural numbers\<close>

abbreviation cap_of :: "memory \<Rightarrow> queue \<Rightarrow> nat" where
  "cap_of m q \<equiv> unat (q_capacity m q)"

abbreviation head_of :: "memory \<Rightarrow> queue \<Rightarrow> nat" where
  "head_of m q \<equiv> unat (base_head m q)"

abbreviation tail_of :: "memory \<Rightarrow> queue \<Rightarrow> nat" where
  "tail_of m q \<equiv> unat (q_tail m q)"

abbreviation count_of :: "memory \<Rightarrow> queue \<Rightarrow> nat" where
  "count_of m q \<equiv> unat (base_count m q)"

definition region_is :: "region \<Rightarrow> nat \<Rightarrow> nat \<Rightarrow> bool" where
  "region_is r p n \<longleftrightarrow> unat (fst r) = p \<and> unat (snd r) = n"

definition header_ok :: "memory \<Rightarrow> queue \<Rightarrow> bool" where
  "header_ok m q \<longleftrightarrow> head_of m q < cap_of m q \<and> tail_of m q < cap_of m q"

lemma cap_of_bound: "cap_of m q < 4294967296"
  by (simp add: q_capacity_def unat_lt_u32)

lemma unat_diff_u64_u32:
  "unat (t :: u32) \<le> unat (c :: u64) \<Longrightarrow> unat (c - ucast t) = unat c - unat t"
  by (simp add: unat_sub word_le_nat_alt)

lemma unat_diff_u32:
  "unat (t :: u32) \<le> unat (h :: u32) \<Longrightarrow> unat (h - t) = unat h - unat t"
  by (simp add: unat_sub word_le_nat_alt)

lemma region_end:
  assumes "region_is prev p n" and "p + n \<le> unat c" and "unat (c :: u64) < 4294967296" and "0 < unat c"
  shows "unat (ucast ((ucast (fst prev) + snd prev) mod c) :: u32) = (p + n) mod unat c"
proof -
  have "unat (ucast (fst prev) + snd prev) = p + n"
    using assms by (simp add: region_is_def unat_word_ariths)
  then have "unat ((ucast (fst prev) + snd prev) mod c) = (p + n) mod unat c"
    by (simp add: unat_mod_distrib)
  moreover have "(p + n) mod unat c < 4294967296"
    using assms(3,4) by (meson mod_less_divisor order.strict_trans)
  ultimately show ?thesis by (simp add: unat_ucast_64_32)
qed

lemma free_region_is:
  assumes "unat (h :: u32) < unat (c :: u64)" and "unat (t :: u32) < unat c"
  shows "region_is (if b \<or> h < t then (t, c - ucast t) else (t, ucast (h - t))) (unat t)
    (if b \<or> unat h < unat t then unat c - unat t else unat h - unat t)"
  using assms by (auto simp: region_is_def word_less_nat_alt unat_diff_u64_u32 unat_diff_u32)

lemma first_free_region:
  assumes "header_ok m q"
  obtains r where "base_get_free_region m q None = returns r"
    "region_is r (tail_of m q)
       (if count_of m q = 0 \<or> head_of m q < tail_of m q then cap_of m q - tail_of m q
        else head_of m q - tail_of m q)"
proof (rule that)
  let ?t = "q_tail m q" and ?h = "base_head m q"
  let ?r = "if base_count m q = 0 \<or> ?h < ?t then (?t, q_capacity m q - ucast ?t)
    else (?t, ucast (?h - ?t))"
  show "base_get_free_region m q None = returns ?r"
    by (simp add: base_get_free_region_def Let_def)
  show "region_is ?r (tail_of m q)
       (if count_of m q = 0 \<or> head_of m q < tail_of m q then cap_of m q - tail_of m q
        else head_of m q - tail_of m q)"
    using free_region_is [of ?h "q_capacity m q" ?t "base_count m q = 0"] assms
    by (simp add: header_ok_def unat_eq_zero)
qed

lemma next_free_region:
  assumes "header_ok m q" and "region_is prev p n" and "p + n \<le> cap_of m q"
  obtains r where "base_get_free_region m q (Some prev) = returns r"
    "region_is r ((p + n) mod cap_of m q)
       (if head_of m q < (p + n) mod cap_of m q then cap_of m q - (p + n) mod cap_of m q
        else head_of m q - (p + n) mod cap_of m q)"
proof -
  have pos: "0 < cap_of m q" using assms(1) by (auto simp: header_ok_def)
  define t :: u32 where "t = ucast ((ucast (fst prev) + snd prev) mod q_capacity m q)"
  have t: "unat t = (p + n) mod cap_of m q"
    using region_end [OF assms(2,3) cap_of_bound pos] by (simp add: t_def)
  let ?h = "base_head m q"
  let ?r = "if ?h < t then (t, q_capacity m q - ucast t) else (t, ucast (?h - t))"
  show thesis
  proof (rule that)
    show "base_get_free_region m q (Some prev) = returns ?r"
      using pos by (auto simp: base_get_free_region_def Let_def t_def)
    show "region_is ?r ((p + n) mod cap_of m q)
       (if head_of m q < (p + n) mod cap_of m q then cap_of m q - (p + n) mod cap_of m q
        else head_of m q - (p + n) mod cap_of m q)"
      using free_region_is [of ?h "q_capacity m q" t False] assms(1) pos
      unfolding header_ok_def t by simp
  qed
qed

text \<open>The busy regions are the same with the head and the tail exchanged.\<close>

lemma first_busy_region:
  assumes "unat (q_head m q) < cap_of m q" and "tail_of m q < cap_of m q" and "\<not> q_empty m q"
  obtains r where "get_busy_region m q None = returns r"
    "region_is r (unat (q_head m q))
       (if unat (q_head m q) < tail_of m q then tail_of m q - unat (q_head m q)
        else cap_of m q - unat (q_head m q))"
proof (rule that)
  let ?t = "q_tail m q" and ?h = "q_head m q"
  let ?r = "if ?h < ?t then (?h, ucast (?t - ?h)) else (?h, q_capacity m q - ucast ?h)"
  show "get_busy_region m q None = returns ?r"
    using assms(3) by (simp add: get_busy_region_def Let_def)
  show "region_is ?r (unat ?h)
       (if unat ?h < tail_of m q then tail_of m q - unat ?h else cap_of m q - unat ?h)"
    using assms by (auto simp: region_is_def word_less_nat_alt unat_diff_u64_u32 unat_diff_u32)
qed

lemma next_busy_region:
  assumes "0 < cap_of m q" and "tail_of m q < cap_of m q" and "region_is prev p n"
    and "p + n \<le> cap_of m q"
  obtains r where "get_busy_region m q (Some prev) = returns r"
    "region_is r ((p + n) mod cap_of m q)
       (if (p + n) mod cap_of m q < tail_of m q then tail_of m q - (p + n) mod cap_of m q
        else cap_of m q - (p + n) mod cap_of m q)"
proof -
  define h :: u32 where "h = ucast ((ucast (fst prev) + snd prev) mod q_capacity m q)"
  have h: "unat h = (p + n) mod cap_of m q"
    using region_end [OF assms(3,4) cap_of_bound assms(1)] by (simp add: h_def)
  have lt: "(p + n) mod cap_of m q < cap_of m q" using assms(1) by simp
  let ?t = "q_tail m q"
  let ?r = "if h < ?t then (h, ucast (?t - h)) else (h, q_capacity m q - ucast h)"
  show thesis
  proof (rule that)
    show "get_busy_region m q (Some prev) = returns ?r"
      using assms(1) by (auto simp: get_busy_region_def Let_def h_def)
    show "region_is ?r ((p + n) mod cap_of m q)
       (if (p + n) mod cap_of m q < tail_of m q then tail_of m q - (p + n) mod cap_of m q
        else cap_of m q - (p + n) mod cap_of m q)"
      using lt h by (auto simp: region_is_def word_less_nat_alt unat_diff_u64_u32 unat_diff_u32)
  qed
qed

section \<open>Making a message\<close>

text \<open>Queues whose free regions are those of \<open>base_queue\<close>.\<close>

definition plain_regions :: "queue \<Rightarrow> bool" where
  "plain_regions q \<longleftrightarrow> class_of q \<noteq> Smart_shared_queue \<or> m_state q = ST_PUSH_SPECIAL_MESSAGE"

lemma plain_get_free_region:
  "plain_regions q \<Longrightarrow> get_free_region E m q prev = base_get_free_region m q prev"
  by (cases "class_of q") (auto simp: plain_regions_def get_free_region_def
    smart_get_free_region_def)

abbreviation data_start :: "queue \<Rightarrow> nat" where
  "data_start q \<equiv> base_ptr q + 24"

lemma header_unchanged:
  assumes "unchanged m m' (base_ptr q) 24"
  shows "q_capacity m' q = q_capacity m q" "base_head m' q = base_head m q"
    "q_tail m' q = q_tail m q" "base_count m' q = base_count m q"
    "keepalive_timeout m' q = keepalive_timeout m q" "q_id m' q = q_id m q"
proof -
  have same: "load32 m' (base_ptr q + k) = load32 m (base_ptr q + k)" if "k + 4 \<le> 24" for k
    using assms that by (intro load32_unchanged) (auto intro: unchanged_sub)
  show "q_capacity m' q = q_capacity m q" "base_head m' q = base_head m q"
    "q_tail m' q = q_tail m q" "base_count m' q = base_count m q"
    "keepalive_timeout m' q = keepalive_timeout m q" "q_id m' q = q_id m q"
    using same [of 0] by (simp_all add: q_field_defs same)
qed

lemma header_only_changes:
  assumes "only_changes m m' S" and "\<And>i. i \<in> S \<Longrightarrow> data_start q \<le> i"
  shows "unchanged m m' (base_ptr q) 24"
  using assms by (intro only_changes_unchanged) force+

lemma header_ok_cong:
  "unchanged m m' (base_ptr q) 24 \<Longrightarrow> header_ok m' q = header_ok m q"
  by (simp add: header_ok_def header_unchanged)

lemma make_loop_done: "make_loop E q w pmessage prev 0 = returns (w, Some (pmessage, prev))"
  by (subst make_loop.simps) simp

text \<open>One round of the loop, by the size of the region it gets.\<close>

lemma loop_stops:
  assumes "0 < rest" and "get_free_region E (mem w) q prev = returns r" and "region_is r p 0"
  shows "make_loop E q w pmessage prev rest = returns (w, None)"
  using assms by (subst make_loop.simps) (simp add: region_is_def unat_0_iff)

lemma loop_skips:
  assumes "0 < rest" and "get_free_region E (mem w) q prev = returns r"
    and "region_is r p n" and "0 < n" and "n \<le> 24"
  shows "make_loop E q w pmessage prev rest = make_loop E q w pmessage (Some r) rest"
  using assms by (subst make_loop.simps) (auto simp: region_is_def word_le_nat_alt)

lemma loop_takes:
  assumes "clock_live (clock E)" and "0 < rest" and "get_free_region E (mem w) q prev = returns r"
    and "region_is r p n" and "24 < n" and "n < 4294967296"
  obtains w1 where
    "make_loop E q w pmessage prev rest
       = make_loop E q w1 (pmessage @ [data_start q + p]) (Some r) (rest - min rest (n - 24))"
    "only_changes (mem w) (mem w1) {data_start q + p..<data_start q + p + 24}"
    "unat (msg_capacity (mem w1) (data_start q + p)) = min rest (n - 24)"
    "msg_sid (mem w1) (data_start q + p) = get_sid E"
proof -
  let ?part = "min rest (n - 24)" and ?p = "data_start q + p"
  have sc: "unat (static_capacity (snd r)) = n - 24"
    using assms(4,5) by (simp add: static_capacity_def region_is_def word_less_nat_alt unat_sub
      word_le_nat_alt)
  obtain m1 i where new: "new_message E w ?p (of_nat ?part) = returns ([?p], \<lparr>mem = m1, readings = i\<rparr>)"
    "msg_capacity m1 ?p = ucast (ucast (of_nat ?part :: u64) :: u32)" "msg_sid m1 ?p = get_sid E"
    "\<And>a k. a + k \<le> ?p \<or> ?p + 24 \<le> a \<Longrightarrow> unchanged (mem w) m1 a k"
    by (rule new_message_returns [OF assms(1), where w = w and p = ?p and cpct = "of_nat ?part"]) simp
  show thesis
  proof (rule that [of "\<lparr>mem = m1, readings = i\<rparr>"])
    show "make_loop E q w pmessage prev rest
       = make_loop E q \<lparr>mem = m1, readings = i\<rparr> (pmessage @ [?p]) (Some r) (rest - ?part)"
      using assms new(1) sc
      by (subst make_loop.simps) (auto simp: region_is_def word_le_nat_alt q_data_def attach_def)
    show "only_changes (mem w) (mem \<lparr>mem = m1, readings = i\<rparr>) {?p..<?p + 24}"
      unfolding only_changes_def
    proof (intro allI impI)
      fix j assume "j \<notin> {?p..<?p + 24}"
      then have "unchanged (mem w) m1 j 1" by (intro new(4)) auto
      then show "mem \<lparr>mem = m1, readings = i\<rparr> j = mem w j" by (simp add: unchanged_def)
    qed
    have "?part < 4294967296" using assms(6) by linarith
    then show "unat (msg_capacity (mem \<lparr>mem = m1, readings = i\<rparr>) ?p) = ?part"
      by (simp add: new(2) unat_ucast_64_32 unat_of_nat_u64)
    show "msg_sid (mem \<lparr>mem = m1, readings = i\<rparr>) ?p = get_sid E"
      by (simp add: new(3))
  qed
qed

text \<open>The same with the regions of \<open>base_queue\<close>.\<close>

lemma make_loop_stop:
  assumes "plain_regions q" and "0 < rest" and "base_get_free_region (mem w) q prev = returns r"
    and "region_is r p 0"
  shows "make_loop E q w pmessage prev rest = returns (w, None)"
  by (rule loop_stops [OF assms(2) _ assms(4)]) (simp add: plain_get_free_region assms(1,3))

lemma make_loop_skip:
  assumes "plain_regions q" and "0 < rest" and "base_get_free_region (mem w) q prev = returns r"
    and "region_is r p n" and "0 < n" and "n \<le> 24"
  shows "make_loop E q w pmessage prev rest = make_loop E q w pmessage (Some r) rest"
  by (rule loop_skips [OF assms(2) _ assms(4-6)]) (simp add: plain_get_free_region assms(1,3))

lemma make_loop_part:
  assumes "plain_regions q" and "clock_live (clock E)" and "0 < rest"
    and "base_get_free_region (mem w) q prev = returns r"
    and "region_is r p n" and "24 < n" and "n < 4294967296"
  obtains w1 where
    "make_loop E q w pmessage prev rest
       = make_loop E q w1 (pmessage @ [data_start q + p]) (Some r) (rest - min rest (n - 24))"
    "only_changes (mem w) (mem w1) {data_start q + p..<data_start q + p + 24}"
    "unat (msg_capacity (mem w1) (data_start q + p)) = min rest (n - 24)"
    "msg_sid (mem w1) (data_start q + p) = get_sid E"
proof (rule loop_takes [OF assms(2,3) _ assms(5-7), where q = q and pmessage = pmessage])
  show "get_free_region E (mem w) q prev = returns r"
    by (simp add: plain_get_free_region assms(1,4))
qed (rule that)

text \<open>After a region that ends where the head is, the regions have run out.\<close>

lemma make_loop_blocked:
  assumes "plain_regions q" and "header_ok (mem w) q" and "region_is prev p n"
    and "p + n = head_of (mem w) q" and "0 < rest"
  shows "make_loop E q w pmessage (Some prev) rest = returns (w, None)"
proof -
  have hd: "head_of (mem w) q < cap_of (mem w) q" using assms(2) by (simp add: header_ok_def)
  then have le: "p + n \<le> cap_of (mem w) q" using assms(4) by simp
  obtain r where r: "base_get_free_region (mem w) q (Some prev) = returns r"
    "region_is r ((p + n) mod cap_of (mem w) q)
       (if head_of (mem w) q < (p + n) mod cap_of (mem w) q
        then cap_of (mem w) q - (p + n) mod cap_of (mem w) q
        else head_of (mem w) q - (p + n) mod cap_of (mem w) q)"
    by (rule next_free_region [OF assms(2,3) le])
  then have "region_is r (head_of (mem w) q) 0" using hd assms(4) by simp
  with assms(1,5) r(1) show ?thesis by (intro make_loop_stop)
qed

text \<open>After a region that ends where the ring ends, what is left goes to the start of the ring.\<close>

lemma make_loop_wrap:
  assumes "plain_regions q" and "clock_live (clock E)" and "header_ok (mem w) q"
    and "region_is prev p n" and "p + n = cap_of (mem w) q" and "0 < rest"
  obtains (fits) w1 r where "rest + 24 \<le> head_of (mem w) q"
      "make_loop E q w pmessage (Some prev) rest
         = returns (w1, Some (pmessage @ [data_start q], Some r))"
      "unat (fst r) = 0" "unat (msg_capacity (mem w1) (data_start q)) = rest"
      "msg_sid (mem w1) (data_start q) = get_sid E"
      "only_changes (mem w) (mem w1) {data_start q..<data_start q + 24}"
  | (full) w1 where "head_of (mem w) q < rest + 24"
      "make_loop E q w pmessage (Some prev) rest = returns (w1, None)"
      "only_changes (mem w) (mem w1) {data_start q..<data_start q + head_of (mem w) q}"
proof -
  let ?h = "head_of (mem w) q"
  have hd: "?h < cap_of (mem w) q" using assms(3) by (simp add: header_ok_def)
  have le: "p + n \<le> cap_of (mem w) q" using assms(5) by simp
  obtain r where r0: "base_get_free_region (mem w) q (Some prev) = returns r"
    "region_is r ((p + n) mod cap_of (mem w) q)
       (if ?h < (p + n) mod cap_of (mem w) q then cap_of (mem w) q - (p + n) mod cap_of (mem w) q
        else ?h - (p + n) mod cap_of (mem w) q)"
    by (rule next_free_region [OF assms(3,4) le])
  then have r: "base_get_free_region (mem w) q (Some prev) = returns r" "region_is r 0 ?h"
    using assms(5) by simp_all
  have hsmall: "?h < 4294967296" using hd cap_of_bound [of "mem w" q] by linarith
  consider "?h = 0" | "0 < ?h" "?h \<le> 24" | "24 < ?h" by linarith
  then show thesis
  proof cases
    case 1
    then have "make_loop E q w pmessage (Some prev) rest = returns (w, None)"
      using make_loop_stop [OF assms(1,6) r(1)] r(2) by simp
    with 1 assms(6) show thesis by (intro full [of w]) auto
  next
    case 2
    then have "make_loop E q w pmessage (Some prev) rest = make_loop E q w pmessage (Some r) rest"
      using make_loop_skip [OF assms(1,6) r] by simp
    also have "\<dots> = returns (w, None)"
      by (rule make_loop_blocked [OF assms(1,3) r(2) _ assms(6)]) simp
    finally show thesis using 2 assms(6) by (intro full [of w]) auto
  next
    case 3
    obtain w1 where w1: "make_loop E q w pmessage (Some prev) rest
         = make_loop E q w1 (pmessage @ [data_start q]) (Some r) (rest - min rest (?h - 24))"
      "only_changes (mem w) (mem w1) {data_start q..<data_start q + 24}"
      "unat (msg_capacity (mem w1) (data_start q)) = min rest (?h - 24)"
      "msg_sid (mem w1) (data_start q) = get_sid E"
      by (rule make_loop_part [OF assms(1,2,6) r 3 hsmall, of pmessage]) simp
    show thesis
    proof (cases "rest + 24 \<le> ?h")
      case True
      then have "min rest (?h - 24) = rest" by simp
      with w1 r(2) True show thesis
        by (intro fits [of w1 r]) (simp_all add: make_loop_done region_is_def)
    next
      case False
      have "unchanged (mem w) (mem w1) (base_ptr q) 24"
        by (rule header_only_changes [OF w1(2)]) auto
      then have ok: "header_ok (mem w1) q" and same: "head_of (mem w1) q = ?h"
        using assms(3) by (simp_all add: header_ok_cong header_unchanged)
      have "make_loop E q w1 (pmessage @ [data_start q]) (Some r) (rest - min rest (?h - 24))
          = returns (w1, None)"
        by (rule make_loop_blocked [OF assms(1) ok r(2)]) (use same False 3 in auto)
      with w1 False 3 show thesis
        by (intro full [of w1]) (auto elim: only_changes_mono)
    qed
  qed
qed

text \<open>
  Whether a message finds room: the free part of the ring runs from the tail to the head,
  around the end of the ring unless the tail is below the head.
\<close>

definition wraps :: "memory \<Rightarrow> queue \<Rightarrow> bool" where
  "wraps m q \<longleftrightarrow> count_of m q = 0 \<or> head_of m q < tail_of m q"

definition free_bytes :: "memory \<Rightarrow> queue \<Rightarrow> nat" where
  "free_bytes m q =
     (if wraps m q then cap_of m q - tail_of m q + head_of m q else head_of m q - tail_of m q)"

definition free_cells :: "memory \<Rightarrow> queue \<Rightarrow> nat set" where
  "free_cells m q =
     (if wraps m q
      then {data_start q + tail_of m q..<data_start q + cap_of m q}
         \<union> {data_start q..<data_start q + head_of m q}
      else {data_start q + tail_of m q..<data_start q + head_of m q})"

definition chain_at :: "queue \<Rightarrow> nat \<Rightarrow> nat \<Rightarrow> nat \<Rightarrow> pmessage" where
  "chain_at q cap p n = map (\<lambda>(pos, len). data_start q + pos) (place cap p n)"

definition made :: "env \<Rightarrow> memory \<Rightarrow> memory \<Rightarrow> queue \<Rightarrow> nat \<Rightarrow> nat \<Rightarrow> bool" where
  "made E m m1 q p n \<longleftrightarrow>
     (\<forall>(pos, len) \<in> set (place (cap_of m q) p n).
        unat (msg_capacity m1 (data_start q + pos)) = len) \<and>
     msg_sid m1 (hd (chain_at q (cap_of m q) p n)) = get_sid E \<and>
     only_changes m m1 (free_cells m q)"

lemma place_cases:
  obtains (skip) "cap - p \<le> 24" "place cap p n = [(0, n)]" "span cap p n = cap - p + 24 + n"
  | (one) "24 < cap - p" "n \<le> cap - p - 24" "place cap p n = [(p, n)]" "span cap p n = 24 + n"
  | (two) "24 < cap - p" "cap - p - 24 < n"
      "place cap p n = [(p, cap - p - 24), (0, n - (cap - p - 24))]" "span cap p n = 48 + n"
proof -
  consider "cap - p \<le> 24" | "24 < cap - p" "n \<le> cap - p - 24" | "24 < cap - p" "cap - p - 24 < n"
    by linarith
  then show thesis
    by cases (use that in \<open>auto simp: place_def span_def\<close>)
qed

text \<open>
  \<open>static_make_message\<close> finds room exactly when the span of the message is at most the
  number of free bytes, and then lays the parts out as \<open>place\<close> says.
\<close>

lemma make_loop_fits:
  assumes "plain_regions q" and "clock_live (clock E)" and "header_ok (mem w) q" and "0 < n"
    and "count_of (mem w) q = 0 \<Longrightarrow> head_of (mem w) q = tail_of (mem w) q"
    and "span (cap_of (mem w) q) (tail_of (mem w) q) n \<le> free_bytes (mem w) q"
  obtains w1 r where
    "make_loop E q w [] None n
       = returns (w1, Some (chain_at q (cap_of (mem w) q) (tail_of (mem w) q) n, Some r))"
    "unat (fst r) = fst (last (place (cap_of (mem w) q) (tail_of (mem w) q) n))"
    "made E (mem w) (mem w1) q (tail_of (mem w) q) n"
proof -
  let ?m = "mem w"
  let ?c = "cap_of ?m q" and ?t = "tail_of ?m q" and ?h = "head_of ?m q" and ?D = "data_start q"
  have lt: "?h < ?c" "?t < ?c" using assms(3) by (simp_all add: header_ok_def)
  obtain r where r0: "base_get_free_region ?m q None = returns r"
    "region_is r ?t (if count_of ?m q = 0 \<or> ?h < ?t then ?c - ?t else ?h - ?t)"
    by (rule first_free_region [OF assms(3)])
  define n1 where "n1 = (if wraps ?m q then ?c - ?t else ?h - ?t)"
  have r: "region_is r ?t n1" using r0(2) by (simp add: n1_def wraps_def)
  have n1: "n1 < 4294967296" using lt cap_of_bound [of ?m q] by (auto simp: n1_def)
  note fit = assms(6) [unfolded free_bytes_def]
  show thesis
  proof (cases rule: place_cases [of ?c ?t n])
    case skip
    then have w: "wraps ?m q" and n1c: "n1 = ?c - ?t"
      using fit lt by (auto simp: n1_def split: if_splits)
    have loop: "make_loop E q w [] None n = make_loop E q w [] (Some r) n"
      using skip lt n1c by (intro make_loop_skip [OF assms(1,4) r0(1) r]) auto
    have ends: "?t + n1 = ?c" using n1c lt by simp
    from assms(1,2,3) r ends assms(4) show thesis
    proof (cases rule: make_loop_wrap [where pmessage = "[]"])
      case (fits w1 r')
      with skip w lt loop show thesis
        by (intro that [of w1 r'])
          (auto simp: chain_at_def made_def free_cells_def elim!: only_changes_mono)
    next
      case (full w1)
      with skip w fit lt show thesis by auto
    qed
  next
    case one
    then have len: "n + 24 \<le> n1" using fit lt by (auto simp: n1_def split: if_splits)
    then have gt: "24 < n1" using assms(4) by simp
    obtain w1 where w1: "make_loop E q w [] None n
         = make_loop E q w1 ([] @ [?D + ?t]) (Some r) (n - min n (n1 - 24))"
      "only_changes ?m (mem w1) {?D + ?t..<?D + ?t + 24}"
      "unat (msg_capacity (mem w1) (?D + ?t)) = min n (n1 - 24)"
      "msg_sid (mem w1) (?D + ?t) = get_sid E"
      by (rule make_loop_part [OF assms(1,2,4) r0(1) r gt n1, of "[]"])
    moreover have "min n (n1 - 24) = n" using len by simp
    moreover have "{?D + ?t..<?D + ?t + 24} \<subseteq> free_cells ?m q"
      using len lt by (auto simp: free_cells_def n1_def split: if_splits)
    ultimately show thesis
      using one r by (intro that [of w1 r])
        (auto simp: make_loop_done chain_at_def made_def region_is_def elim!: only_changes_mono)
  next
    case two
    then have w: "wraps ?m q" and n1c: "n1 = ?c - ?t"
      using fit lt by (auto simp: n1_def split: if_splits)
    then have gt: "24 < n1" using two by simp
    obtain w1 where w1: "make_loop E q w [] None n
         = make_loop E q w1 ([] @ [?D + ?t]) (Some r) (n - min n (n1 - 24))"
      "only_changes ?m (mem w1) {?D + ?t..<?D + ?t + 24}"
      "unat (msg_capacity (mem w1) (?D + ?t)) = min n (n1 - 24)"
      "msg_sid (mem w1) (?D + ?t) = get_sid E"
      by (rule make_loop_part [OF assms(1,2,4) r0(1) r gt n1, of "[]"])
    have rest: "n - min n (n1 - 24) = n - (?c - ?t - 24)" "min n (n1 - 24) = ?c - ?t - 24"
      using two n1c by auto
    have "unchanged ?m (mem w1) (base_ptr q) 24"
      by (rule header_only_changes [OF w1(2)]) auto
    then have ok: "header_ok (mem w1) q" and same: "head_of (mem w1) q = ?h" "cap_of (mem w1) q = ?c"
      using assms(3) by (simp_all add: header_ok_cong header_unchanged)
    have ends: "?t + n1 = cap_of (mem w1) q" using n1c lt same by simp
    have pos: "0 < n - (?c - ?t - 24)" using two by simp
    from assms(1,2) ok r ends pos show thesis
    proof (cases rule: make_loop_wrap [where pmessage = "[?D + ?t]"])
      case (fits w2 r')
      have "unchanged (mem w1) (mem w2) (?D + ?t) 24"
        using fits(1) w lt two same assms(5)
        by (intro only_changes_unchanged [OF fits(6)]) (auto simp: wraps_def)
      then have "unchanged (mem w1) (mem w2) (?D + ?t + 4) 4" "unchanged (mem w1) (mem w2) (?D + ?t + 8) 4"
        by (auto elim: unchanged_sub)
      then have keep: "msg_capacity (mem w2) (?D + ?t) = msg_capacity (mem w1) (?D + ?t)"
        "msg_sid (mem w2) (?D + ?t) = msg_sid (mem w1) (?D + ?t)"
        by (simp_all add: msg_capacity_def msg_sid_def load32_unchanged)
      have "only_changes ?m (mem w2) (free_cells ?m q)"
        by (rule only_changes_trans [OF w1(2) fits(6)])
          (use w lt two fits(1) same in \<open>auto simp: free_cells_def\<close>)
      with fits two w1 rest keep show thesis
        by (intro that [of w2 r']) (simp_all add: chain_at_def made_def)
    next
      case (full w2)
      with two w fit lt same show thesis by auto
    qed
  qed
qed

lemma make_loop_full:
  assumes "plain_regions q" and "clock_live (clock E)" and "header_ok (mem w) q" and "0 < n"
    and "free_bytes (mem w) q < span (cap_of (mem w) q) (tail_of (mem w) q) n"
  obtains w1 where "make_loop E q w [] None n = returns (w1, None)"
    "only_changes (mem w) (mem w1) (free_cells (mem w) q)"
proof -
  let ?m = "mem w"
  let ?c = "cap_of ?m q" and ?t = "tail_of ?m q" and ?h = "head_of ?m q" and ?D = "data_start q"
  have lt: "?h < ?c" "?t < ?c" using assms(3) by (simp_all add: header_ok_def)
  obtain r where r0: "base_get_free_region ?m q None = returns r"
    "region_is r ?t (if count_of ?m q = 0 \<or> ?h < ?t then ?c - ?t else ?h - ?t)"
    by (rule first_free_region [OF assms(3)])
  define n1 where "n1 = (if wraps ?m q then ?c - ?t else ?h - ?t)"
  have r: "region_is r ?t n1" using r0(2) by (simp add: n1_def wraps_def)
  have n1: "n1 < 4294967296" using lt cap_of_bound [of ?m q] by (auto simp: n1_def)
  note full = assms(5) [unfolded free_bytes_def]
  have rest_goes: thesis
    if "make_loop E q w [] None n = make_loop E q w1 pm (Some r) k"
      "only_changes ?m (mem w1) (free_cells ?m q)" "unchanged ?m (mem w1) (base_ptr q) 24"
      "0 < k" "0 < n1" "wraps ?m q \<Longrightarrow> ?h < k + 24" for w1 pm k
  proof (cases "wraps ?m q")
    case True
    have ok: "header_ok (mem w1) q" and same: "head_of (mem w1) q = ?h" "cap_of (mem w1) q = ?c"
      using that(3) assms(3) by (simp_all add: header_ok_cong header_unchanged)
    have "?t + n1 = cap_of (mem w1) q" using True lt same by (simp add: n1_def)
    with assms(1,2) ok r show thesis using that(4)
    proof (cases rule: make_loop_wrap [where pmessage = pm])
      case (fits w2 r')
      with that(6) True same show thesis by simp
    next
      case (full w2)
      have "only_changes ?m (mem w2) (free_cells ?m q)"
        by (rule only_changes_trans [OF that(2) full(3)])
          (use True lt same in \<open>auto simp: free_cells_def\<close>)
      with full(2) that(1) show thesis by (intro \<open>\<And>w1. _ \<Longrightarrow> _ \<Longrightarrow> thesis\<close>) simp
    qed
  next
    case False
    have ok: "header_ok (mem w1) q" and same: "head_of (mem w1) q = ?h"
      using that(3) assms(3) by (simp_all add: header_ok_cong header_unchanged)
    have "?t + n1 = head_of (mem w1) q"
      using False that(5) same by (simp add: n1_def)
    then have "make_loop E q w1 pm (Some r) k = returns (w1, None)"
      by (intro make_loop_blocked [OF assms(1) ok r]) (use that(4) in auto)
    with that(1,2) show thesis by (intro \<open>\<And>w1. _ \<Longrightarrow> _ \<Longrightarrow> thesis\<close>) simp
  qed
  consider "n1 = 0" | "0 < n1" "n1 \<le> 24" | "24 < n1" by linarith
  then show thesis
  proof cases
    case 1
    then have "make_loop E q w [] None n = returns (w, None)"
      using make_loop_stop [OF assms(1,4) r0(1)] r by simp
    then show thesis by (rule that) simp
  next
    case 2
    then have "make_loop E q w [] None n = make_loop E q w [] (Some r) n"
      by (intro make_loop_skip [OF assms(1,4) r0(1) r])
    then show thesis
      using 2 assms(4) full lt by (intro rest_goes [of w "[]" n])
        (auto simp: n1_def span_def)
  next
    case 3
    obtain w1 where w1: "make_loop E q w [] None n
         = make_loop E q w1 ([] @ [?D + ?t]) (Some r) (n - min n (n1 - 24))"
      "only_changes ?m (mem w1) {?D + ?t..<?D + ?t + 24}"
      by (rule make_loop_part [OF assms(1,2,4) r0(1) r 3 n1, of "[]"])
    have more: "n1 - 24 < n"
      using full 3 lt by (auto simp: n1_def span_def split: if_splits)
    have "only_changes ?m (mem w1) (free_cells ?m q)"
      by (rule only_changes_mono [OF w1(2)])
        (use 3 lt in \<open>auto simp: free_cells_def n1_def split: if_splits\<close>)
    moreover have "unchanged ?m (mem w1) (base_ptr q) 24"
      by (rule header_only_changes [OF w1(2)]) auto
    ultimately show thesis
      using 3 more full lt w1(1) by (intro rest_goes [of w1 "[?D + ?t]" "n - (n1 - 24)"])
        (auto simp: n1_def span_def split: if_splits)
  qed
qed

text \<open>
  \<open>laid_out m q p data\<close>: the parts of a message with this data lie at position \<open>p\<close>;
  \<open>stored\<close> adds its tag.
\<close>

definition laid_out :: "memory \<Rightarrow> queue \<Rightarrow> nat \<Rightarrow> u8 list \<Rightarrow> bool" where
  "laid_out m q p data \<longleftrightarrow> data \<noteq> [] \<and>
     (let parts = place (cap_of m q) p (length data);
          chain = chain_at q (cap_of m q) p (length data)
      in (\<forall>(pos, len) \<in> set parts. unat (msg_capacity m (data_start q + pos)) = len) \<and>
         msg_flags m (hd chain) = (if length chain = 1 then FLG_HEAD OR FLG_TAIL else FLG_HEAD) \<and>
         (\<forall>a \<in> set (tl chain). msg_flags m a = FLG_TAIL) \<and>
         fst (unpack m chain) = data)"

definition stored :: "memory \<Rightarrow> queue \<Rightarrow> nat \<Rightarrow> tag_type \<times> u8 list \<Rightarrow> bool" where
  "stored m q p x \<longleftrightarrow> laid_out m q p (snd x) \<and>
     msg_tag m (hd (chain_at q (cap_of m q) p (length (snd x)))) = fst x"

lemma chain_at_nonempty [simp]: "chain_at q cap p n \<noteq> []"
  by (simp add: chain_at_def)

lemma pack_only_changes:
  assumes "separate m ps" and "pack m ps src = (m', k)"
  shows "only_changes m m' (\<Union>p \<in> set ps. {p..<msg_end m p})"
  unfolding only_changes_def
proof (intro allI impI)
  fix i assume i: "i \<notin> (\<Union>p \<in> set ps. {p..<msg_end m p})"
  have "clear_of m ps i 1"
    unfolding clear_of_def
  proof
    fix p assume "p \<in> set ps"
    with i have "i < p \<or> msg_end m p \<le> i" by force
    then show "(i + 1 \<le> p \<or> p + 4 \<le> i) \<and> (i + 1 \<le> p + 24 \<or> msg_end m p \<le> i)" by auto
  qed
  then have "unchanged m m' i 1" using pack_frame [OF assms] by blast
  then show "m' i = m i" by (simp add: unchanged_def)
qed

text \<open>A freshly made chain is ready to be packed: its blocks are apart and have exact room.\<close>

lemma made_chain:
  assumes "header_ok m q" and "count_of m q = 0 \<Longrightarrow> head_of m q = tail_of m q"
    and "span (cap_of m q) (tail_of m q) n \<le> free_bytes m q" and "0 < n"
    and "made E m m1 q (tail_of m q) n"
  shows "separate m1 (chain_at q (cap_of m q) (tail_of m q) n)"
    "room m1 (chain_at q (cap_of m q) (tail_of m q) n) = n"
    "(\<Union>p \<in> set (chain_at q (cap_of m q) (tail_of m q) n). {p..<msg_end m1 p}) \<subseteq> free_cells m q"
    "length (chain_at q (cap_of m q) (tail_of m q) n) > 1 \<Longrightarrow>
       room m1 (butlast (chain_at q (cap_of m q) (tail_of m q) n)) < n"
proof -
  have lt: "head_of m q < cap_of m q" "tail_of m q < cap_of m q"
    using assms(1) by (simp_all add: header_ok_def)
  have "separate m1 (chain_at q (cap_of m q) (tail_of m q) n)
    \<and> room m1 (chain_at q (cap_of m q) (tail_of m q) n) = n
    \<and> (\<Union>p \<in> set (chain_at q (cap_of m q) (tail_of m q) n). {p..<msg_end m1 p}) \<subseteq> free_cells m q
    \<and> (length (chain_at q (cap_of m q) (tail_of m q) n) > 1 \<longrightarrow>
       room m1 (butlast (chain_at q (cap_of m q) (tail_of m q) n)) < n)"
  proof (cases rule: place_cases [of "cap_of m q" "tail_of m q" n])
    case skip
    with assms(3,5) lt show ?thesis
      by (auto simp: chain_at_def made_def free_cells_def free_bytes_def split: if_splits)
  next
    case one
    with assms(3,5) lt show ?thesis
      by (auto simp: chain_at_def made_def free_cells_def free_bytes_def split: if_splits)
  next
    case two
    then have "wraps m q" "n - (cap_of m q - tail_of m q - 24) + 24 \<le> head_of m q"
      "head_of m q \<le> tail_of m q"
      using assms(2,3) lt by (auto simp: free_bytes_def wraps_def split: if_splits)
    with two assms(5) lt show ?thesis
      by (auto simp: chain_at_def made_def free_cells_def)
  qed
  then show "separate m1 (chain_at q (cap_of m q) (tail_of m q) n)"
    "room m1 (chain_at q (cap_of m q) (tail_of m q) n) = n"
    "(\<Union>p \<in> set (chain_at q (cap_of m q) (tail_of m q) n). {p..<msg_end m1 p}) \<subseteq> free_cells m q"
    "length (chain_at q (cap_of m q) (tail_of m q) n) > 1 \<Longrightarrow>
       room m1 (butlast (chain_at q (cap_of m q) (tail_of m q) n)) < n"
    by auto
qed

lemma free_cells_above: "i \<in> free_cells m q \<Longrightarrow> data_start q \<le> i"
  by (auto simp: free_cells_def split: if_splits)

lemma separate_sid_clear:
  assumes "separate m ps" and "p \<in> set ps"
  shows "clear_of m ps (p + 8) 4" "clear_of m ps (p + 12) 12"
proof -
  have "q = p \<or> msg_end m p \<le> q \<or> msg_end m q \<le> p" if "q \<in> set ps" for q
    using assms that by (induction ps) auto
  then show "clear_of m ps (p + 8) 4" "clear_of m ps (p + 12) 12"
    unfolding clear_of_def by fastforce+
qed

text \<open>Once its blocks are made, the message is packed into them.\<close>

lemma static_make_packs:
  assumes w1: "make_loop E q w [] None (length data)
      = returns (w1, Some (chain_at q (cap_of (mem w) q) (tail_of (mem w) q) (length data), Some r))"
    "unat (fst r) = fst (last (place (cap_of (mem w) q) (tail_of (mem w) q) (length data)))"
    "made E (mem w) (mem w1) q (tail_of (mem w) q) (length data)"
    and ok: "header_ok (mem w) q" and ne: "data \<noteq> []"
    and empty: "count_of (mem w) q = 0 \<Longrightarrow> head_of (mem w) q = tail_of (mem w) q"
    and room: "span (cap_of (mem w) q) (tail_of (mem w) q) (length data) \<le> free_bytes (mem w) q"
  obtains w2 pos where
    "static_make_message E q w data
       = returns ((chain_at q (cap_of (mem w) q) (tail_of (mem w) q) (length data), pos), w2)"
    "unat pos mod cap_of (mem w) q
       = (tail_of (mem w) q + span (cap_of (mem w) q) (tail_of (mem w) q) (length data))
           mod cap_of (mem w) q"
    "laid_out (mem w2) q (tail_of (mem w) q) data"
    "msg_sid (mem w2) (hd (chain_at q (cap_of (mem w) q) (tail_of (mem w) q) (length data)))
       = get_sid E"
    "only_changes (mem w) (mem w2) (free_cells (mem w) q)"
proof -
  let ?m = "mem w" and ?n = "length data"
  let ?c = "cap_of ?m q" and ?t = "tail_of ?m q"
  let ?chain = "chain_at q ?c ?t ?n"
  have n: "0 < ?n" using ne by simp
  note ready = made_chain [OF ok empty room n w1(3)]
  obtain m2 k where pk: "pack (mem w1) ?chain data = (m2, k)" by fastforce
  have frame: "same_capacities (mem w1) m2 ?chain" "\<And>a j. clear_of (mem w1) ?chain a j \<Longrightarrow>
      unchanged (mem w1) m2 a j" and k: "k = ?n"
    using pack_frame [OF ready(1) pk] ready(2) by auto
  have "room m2 ?chain = ?n" using frame(1) ready(2) by (simp add: same_capacities_room)
  then have data: "fst (unpack m2 ?chain) = data"
    using pack_unpack [OF ready(1) pk] k length_unpack [of m2 ?chain] by simp
  have flags: "msg_flags m2 (hd ?chain) = (if length ?chain = 1 then FLG_HEAD OR FLG_TAIL else FLG_HEAD)"
    "\<And>a. a \<in> set (tl ?chain) \<Longrightarrow> msg_flags m2 a = FLG_TAIL"
    using pack_flags [OF ready(1) pk _ ready(4)] ready(2)
    by (auto simp: chain_at_def place_def split: if_splits)
  have changed: "only_changes ?m m2 (free_cells ?m q)"
    by (rule only_changes_trans [OF _ pack_only_changes [OF ready(1) pk] subset_refl ready(3)])
      (use w1(3) in \<open>simp add: made_def\<close>)
  have "unchanged ?m m2 (base_ptr q) 24"
    by (rule header_only_changes [OF changed free_cells_above])
  then have cap: "cap_of m2 q = ?c" by (simp add: header_unchanged)
  have caps: "unat (msg_capacity m2 (data_start q + pos)) = len"
    if "(pos, len) \<in> set (place ?c ?t ?n)" for pos len
    using w1(3) frame(1) that by (fastforce simp: made_def same_capacities_def chain_at_def)
  have laid: "laid_out m2 q ?t data"
    using ne caps flags data by (auto simp: laid_out_def cap Let_def)
  have "msg_sid m2 (hd ?chain) = msg_sid (mem w1) (hd ?chain)"
    using frame(2) separate_sid_clear(1) [OF ready(1), of "hd ?chain"]
    by (simp add: msg_sid_def load32_unchanged)
  then have sid: "msg_sid m2 (hd ?chain) = get_sid E" using w1(3) by (simp add: made_def)
  obtain p l where last: "last (place ?c ?t ?n) = (p, l)" by fastforce
  have span: "span ?c ?t ?n \<le> ?c"
    using ok empty room by (auto simp: free_bytes_def wraps_def header_ok_def split: if_splits)
  have mem: "(p, l) \<in> set (place ?c ?t ?n)" using last by (metis last_in_set place_nonempty)
  have lt: "?t < ?c" using ok by (simp add: header_ok_def)
  have "last ?chain = data_start q + p" using last by (simp add: chain_at_def last_map)
  then have "unat (msg_capacity m2 (last ?chain)) = l" using caps [OF mem] by simp
  moreover have "p + 24 + l < 4294967296"
    using place_arc(2) [OF lt span mem] cap_of_bound [of ?m q] by linarith
  ultimately have pos: "unat (ucast (ucast (fst r) + msg_size m2 (last ?chain)) :: u32) = p + 24 + l"
    using w1(2) last by (simp add: msg_size_def static_size_def unat_ucast_64_32 unat_word_ariths)
  show thesis
  proof (rule that)
    show "static_make_message E q w data
        = returns ((?chain, ucast (ucast (fst r) + msg_size m2 (last ?chain))), w1\<lparr>mem := m2\<rparr>)"
      using w1(1) pk k by (simp add: static_make_message_def)
    show "unat (ucast (ucast (fst r) + msg_size m2 (last ?chain)) :: u32) mod ?c
        = (?t + span ?c ?t ?n) mod ?c"
      using pos place_end [OF lt span last] by simp
  qed (simp_all add: laid sid changed)
qed

lemma static_make_fits:
  assumes "plain_regions q" and "clock_live (clock E)" and "header_ok (mem w) q" and "data \<noteq> []"
    and "count_of (mem w) q = 0 \<Longrightarrow> head_of (mem w) q = tail_of (mem w) q"
    and "span (cap_of (mem w) q) (tail_of (mem w) q) (length data) \<le> free_bytes (mem w) q"
  obtains w2 pos where
    "static_make_message E q w data
       = returns ((chain_at q (cap_of (mem w) q) (tail_of (mem w) q) (length data), pos), w2)"
    "unat pos mod cap_of (mem w) q
       = (tail_of (mem w) q + span (cap_of (mem w) q) (tail_of (mem w) q) (length data))
           mod cap_of (mem w) q"
    "laid_out (mem w2) q (tail_of (mem w) q) data"
    "msg_sid (mem w2) (hd (chain_at q (cap_of (mem w) q) (tail_of (mem w) q) (length data)))
       = get_sid E"
    "only_changes (mem w) (mem w2) (free_cells (mem w) q)"
proof -
  have n: "0 < length data" using assms(4) by simp
  obtain w1 r where w1: "make_loop E q w [] None (length data)
      = returns (w1, Some (chain_at q (cap_of (mem w) q) (tail_of (mem w) q) (length data), Some r))"
    "unat (fst r) = fst (last (place (cap_of (mem w) q) (tail_of (mem w) q) (length data)))"
    "made E (mem w) (mem w1) q (tail_of (mem w) q) (length data)"
    by (rule make_loop_fits [OF assms(1-3) n assms(5,6)])
  show thesis by (rule static_make_packs [OF w1 assms(3-6)]) (assumption, rule that)
qed

lemma static_make_full:
  assumes "plain_regions q" and "clock_live (clock E)" and "header_ok (mem w) q" and "data \<noteq> []"
    and "free_bytes (mem w) q < span (cap_of (mem w) q) (tail_of (mem w) q) (length data)"
  obtains w2 where "static_make_message E q w data = returns (null_desc, w2)"
    "only_changes (mem w) (mem w2) (free_cells (mem w) q)"
proof -
  have n: "0 < length data" using assms(4) by simp
  obtain w1 where "make_loop E q w [] None (length data) = returns (w1, None)"
    "only_changes (mem w) (mem w1) (free_cells (mem w) q)"
    by (rule make_loop_full [OF assms(1-3) n assms(5)])
  then show thesis by (intro that [of w1]) (simp_all add: static_make_message_def)
qed

lemma static_make_empty: "static_make_message E q w [] = crashes Null_pointer"
  by (simp add: static_make_message_def make_loop_done)

section \<open>Getting a message\<close>

lemma get_loop_skip:
  assumes "get_busy_region m q prev = returns r" and "region_is r p n" and "0 < n" and "n \<le> 24"
  shows "get_loop q m pmessage prev = get_loop q m pmessage (Some r)"
  using assms by (subst get_loop.simps) (auto simp: region_is_def word_le_nat_alt)

lemma get_loop_last:
  assumes "get_busy_region m q prev = returns r" and "region_is r p n" and "24 < n"
    and "pmessage = [] \<Longrightarrow> msg_flags m (data_start q + p) AND FLG_HEAD \<noteq> 0"
    and "msg_flags m (data_start q + p) AND FLG_TAIL \<noteq> 0"
  shows "get_loop q m pmessage prev
    = returns (pmessage @ [data_start q + p], ucast (ucast (fst r) + msg_size m (data_start q + p)))"
  using assms
  by (subst get_loop.simps)
    (auto simp: region_is_def word_le_nat_alt q_data_def attach_def wrap_message_def Let_def)

lemma get_loop_more:
  assumes "get_busy_region m q prev = returns r" and "region_is r p n" and "24 < n"
    and "pmessage = [] \<Longrightarrow> msg_flags m (data_start q + p) AND FLG_HEAD \<noteq> 0"
    and "msg_flags m (data_start q + p) AND FLG_TAIL = 0"
  shows "get_loop q m pmessage prev = get_loop q m (pmessage @ [data_start q + p]) (Some r)"
  using assms
  by (subst get_loop.simps)
    (auto simp: region_is_def word_le_nat_alt q_data_def attach_def wrap_message_def Let_def)

lemma msg_end_pos:
  assumes "unat (fst (r :: region)) = p" and "unat (msg_capacity m a) = l" and "p + 24 + l < 4294967296"
  shows "unat (ucast (ucast (fst r) + msg_size m a) :: u32) = p + 24 + l"
  using assms by (simp add: msg_size_def static_size_def unat_ucast_64_32 unat_word_ariths)

text \<open>
  A reader whose head is where a message lies gets the parts of this message, and the
  position after it; \<open>used\<close> is the part of the ring between its head and the tail.
\<close>

lemma static_get_laid_out:
  assumes "unat (q_head m q) = p" and "p < cap_of m q" and "\<not> q_empty m q"
    and "laid_out m q p data" and "span (cap_of m q) p (length data) \<le> used"
    and "used \<le> cap_of m q" and "tail_of m q = (p + used) mod cap_of m q"
  obtains pos where
    "static_get_message q m = returns (chain_at q (cap_of m q) p (length data), pos)"
    "unat pos mod cap_of m q = (p + span (cap_of m q) p (length data)) mod cap_of m q"
proof -
  let ?c = "cap_of m q" and ?t = "tail_of m q" and ?n = "length data" and ?D = "data_start q"
  have c: "0 < ?c" using assms(2) by simp
  have t: "?t < ?c" using assms(7) c by simp
  have tail: "?t = (if p + used < ?c then p + used else p + used - ?c)"
    using assms(2,6,7) by (simp add: mod_wrap)
  have n: "0 < ?n" using assms(4) by (simp add: laid_out_def)
  have laid: "\<forall>(pos, len) \<in> set (place ?c p ?n). unat (msg_capacity m (?D + pos)) = len"
    and flags: "msg_flags m (hd (chain_at q ?c p ?n))
        = (if length (chain_at q ?c p ?n) = 1 then FLG_HEAD OR FLG_TAIL else FLG_HEAD)"
      "\<forall>a \<in> set (tl (chain_at q ?c p ?n)). msg_flags m a = FLG_TAIL"
    using assms(4) by (simp_all add: laid_out_def Let_def)
  have span: "span ?c p ?n \<le> ?c" using assms(5,6) by simp
  have hd: "unat (q_head m q) < ?c" using assms(1,2) by simp
  obtain r where r0: "get_busy_region m q None = returns r"
    "region_is r (unat (q_head m q))
       (if unat (q_head m q) < ?t then ?t - unat (q_head m q) else ?c - unat (q_head m q))"
    by (rule first_busy_region [OF hd t assms(3)])
  define n1 where "n1 = (if p < ?t then ?t - p else ?c - p)"
  have r: "region_is r p n1" using r0(2) unfolding assms(1) n1_def .
  have second: "\<exists>r'. get_busy_region m q (Some r) = returns r' \<and> region_is r' 0 ?t"
    if "p + n1 = ?c" "0 < ?t"
  proof -
    have le: "p + n1 \<le> ?c" using that by simp
    obtain r' where "get_busy_region m q (Some r) = returns r'"
      "region_is r' ((p + n1) mod ?c)
         (if (p + n1) mod ?c < ?t then ?t - (p + n1) mod ?c else ?c - (p + n1) mod ?c)"
      by (rule next_busy_region [OF c t r le])
    with that show ?thesis by auto
  qed
  have ends: "unat (ucast (ucast (fst r') + msg_size m (?D + p')) :: u32) mod ?c = (p + span ?c p ?n) mod ?c"
    if "unat (fst (r' :: region)) = p'" "last (place ?c p ?n) = (p', l)" for r' p' l
  proof -
    have mem: "(p', l) \<in> set (place ?c p ?n)" using that(2) by (metis last_in_set place_nonempty)
    have "unat (msg_capacity m (?D + p')) = l" using laid mem by auto
    moreover have "p' + 24 + l < 4294967296"
      using place_arc(2) [OF assms(2) span mem] cap_of_bound [of m q] by linarith
    ultimately have "unat (ucast (ucast (fst r') + msg_size m (?D + p')) :: u32) = p' + 24 + l"
      using that(1) by (intro msg_end_pos)
    then show ?thesis using place_end [OF assms(2) span that(2)] by simp
  qed
  show thesis
  proof (cases rule: place_cases [of ?c p ?n])
    case skip
    then have wrap: "p + n1 = ?c" "?t = p + used - ?c" "24 + ?n \<le> ?t"
      using tail assms(2,5,6) n by (auto simp: n1_def split: if_splits)
    then have "0 < ?t" by linarith
    then obtain r' where r': "get_busy_region m q (Some r) = returns r'" "region_is r' 0 ?t"
      using second [OF wrap(1)] by blast
    have gt: "24 < ?t" using wrap(3) n by linarith
    have "get_loop q m [] None = get_loop q m [] (Some r)"
      using get_loop_skip [OF r0(1) r] wrap(1) skip assms(2) by auto
    also have "\<dots> = returns ([] @ [?D + 0], ucast (ucast (fst r') + msg_size m (?D + 0)))"
      by (rule get_loop_last [OF r' gt]) (use flags skip in \<open>simp_all add: chain_at_def\<close>)
    finally show thesis
      using skip r'(2) ends [of r' 0 ?n]
      by (intro that) (simp_all add: static_get_message_def chain_at_def region_is_def)
  next
    case one
    then have "24 < n1"
      using tail assms(2,5,6) n
      by (auto simp: n1_def simp del: length_greater_0_conv split: if_splits)
    then have "get_loop q m [] None = returns ([] @ [?D + p], ucast (ucast (fst r) + msg_size m (?D + p)))"
      by (intro get_loop_last [OF r0(1) r]) (use flags one in \<open>simp_all add: chain_at_def\<close>)
    then show thesis
      using one r ends [of r p ?n]
      by (intro that) (simp_all add: static_get_message_def chain_at_def region_is_def)
  next
    case two
    then have wrap: "p + n1 = ?c" "24 < n1" "24 < ?t"
      using tail assms(2,5,6) n by (auto simp: n1_def split: if_splits)
    then have "0 < ?t" by linarith
    then obtain r' where r': "get_busy_region m q (Some r) = returns r'" "region_is r' 0 ?t"
      using second [OF wrap(1)] by blast
    have "get_loop q m [] None = get_loop q m ([] @ [?D + p]) (Some r)"
      by (rule get_loop_more [OF r0(1) r wrap(2)]) (use flags two in \<open>simp_all add: chain_at_def\<close>)
    also have "\<dots> = returns (([] @ [?D + p]) @ [?D + 0], ucast (ucast (fst r') + msg_size m (?D + 0)))"
      by (rule get_loop_last [OF r' wrap(3)]) (use flags two in \<open>simp_all add: chain_at_def\<close>)
    finally show thesis
      using two r'(2) ends [of r' 0 "?n - (?c - p - 24)"]
      by (intro that) (simp_all add: static_get_message_def chain_at_def region_is_def)
  qed
qed

section \<open>The messages of a ring\<close>

definition after :: "nat \<Rightarrow> nat \<Rightarrow> tag_type \<times> u8 list \<Rightarrow> nat" where
  "after cap p x = (p + span cap p (length (snd x))) mod cap"

fun used :: "nat \<Rightarrow> nat \<Rightarrow> (tag_type \<times> u8 list) list \<Rightarrow> nat" where
  "used cap p [] = 0"
| "used cap p (x # xs) = span cap p (length (snd x)) + used cap (after cap p x) xs"

fun ring :: "memory \<Rightarrow> queue \<Rightarrow> nat \<Rightarrow> (tag_type \<times> u8 list) list \<Rightarrow> bool" where
  "ring m q p [] = True"
| "ring m q p (x # xs) = (stored m q p x \<and> ring m q (after (cap_of m q) p x) xs)"

lemma after_less: "0 < cap \<Longrightarrow> after cap p x < cap"
  by (simp add: after_def)

lemma used_append:
  "used cap p (xs @ ys) = used cap p xs + used cap ((p + used cap p xs) mod cap) ys" if "p < cap"
  using that
proof (induction xs arbitrary: p)
  case (Cons x xs)
  have "used cap (after cap p x) (xs @ ys)
      = used cap (after cap p x) xs + used cap ((after cap p x + used cap (after cap p x) xs) mod cap) ys"
    using Cons.prems by (intro Cons.IH after_less) simp
  then show ?case by (simp add: after_def mod_add_left_eq add.assoc)
qed simp

lemma ring_append:
  assumes "p < cap_of m q"
  shows "ring m q p (xs @ ys)
    \<longleftrightarrow> ring m q p xs \<and> ring m q ((p + used (cap_of m q) p xs) mod cap_of m q) ys"
  using assms
proof (induction xs arbitrary: p)
  case (Cons x xs)
  have "after (cap_of m q) p x < cap_of m q" using Cons.prems by (intro after_less) simp
  from Cons.IH [OF this] show ?case by (simp add: after_def mod_add_left_eq add.assoc)
qed simp

lemma used_nonempty: "xs \<noteq> [] \<Longrightarrow> 0 < used cap p xs"
  by (cases xs) simp_all

lemma span_le_used: "span cap p (length (snd x)) \<le> used cap p (x # xs)"
  by simp

subsection \<open>Frames\<close>

lemma laid_out_frame:
  assumes "laid_out m q p data" and "cap_of m' q = cap_of m q"
    and "\<And>pos len. (pos, len) \<in> set (place (cap_of m q) p (length data)) \<Longrightarrow>
      unchanged m m' (data_start q + pos) 8 \<and> unchanged m m' (data_start q + pos + 24) len"
  shows "laid_out m' q p data"
proof -
  let ?parts = "place (cap_of m q) p (length data)"
  let ?chain = "chain_at q (cap_of m q) p (length data)"
  have part: "\<exists>pos len. (pos, len) \<in> set ?parts \<and> a = data_start q + pos" if "a \<in> set ?chain" for a
    using that by (auto simp: chain_at_def)
  have caps: "msg_capacity m' a = msg_capacity m a" and flags: "msg_flags m' a = msg_flags m a"
    if "a \<in> set ?chain" for a
  proof -
    obtain pos len where "(pos, len) \<in> set ?parts" and a: "a = data_start q + pos"
      using part [OF \<open>a \<in> set ?chain\<close>] by blast
    with assms(3) have "unchanged m m' a 8" by blast
    then have "unchanged m m' a 4" "unchanged m m' (a + 4) 4" by (auto elim: unchanged_sub)
    then show "msg_capacity m' a = msg_capacity m a" and "msg_flags m' a = msg_flags m a"
      by (simp_all add: msg_capacity_def msg_flags_def load32_unchanged)
  qed
  have "unpack m' ?chain = unpack m ?chain"
  proof (rule unpack_frame)
    show "same_capacities m m' ?chain" by (simp add: same_capacities_def caps)
    fix a assume "a \<in> set ?chain"
    then obtain pos len where mem: "(pos, len) \<in> set ?parts" and a: "a = data_start q + pos"
      using part by blast
    moreover have "unat (msg_capacity m a) = len"
      using assms(1) mem a by (auto simp: laid_out_def Let_def)
    ultimately show "unchanged m m' (msg_data a) (unat (msg_capacity m a))"
      using assms(3) by (simp add: msg_data_def)
  qed
  moreover have "hd ?chain \<in> set ?chain" "set (tl ?chain) \<subseteq> set ?chain"
    by (simp_all add: list.set_sel(2) subsetI)
  moreover have "msg_capacity m' (data_start q + pos) = msg_capacity m (data_start q + pos)"
    if "(pos, len) \<in> set ?parts" for pos len
    using that by (intro caps) (force simp: chain_at_def)
  ultimately show ?thesis
    using assms(1,2) flags by (fastforce simp: laid_out_def Let_def)
qed

definition same_cells :: "memory \<Rightarrow> memory \<Rightarrow> queue \<Rightarrow> nat set \<Rightarrow> bool" where
  "same_cells m m' q A \<longleftrightarrow> (\<forall>i \<in> A. m' (data_start q + i) = m (data_start q + i))"

lemma same_cells_unchanged:
  assumes "same_cells m m' q A" and "{pos..<pos + k} \<subseteq> A"
  shows "unchanged m m' (data_start q + pos) k"
  unfolding unchanged_def
proof (intro allI impI)
  fix i assume "data_start q + pos \<le> i" and "i < data_start q + pos + k"
  then have "i - data_start q \<in> {pos..<pos + k}" "i = data_start q + (i - data_start q)"
    by auto
  then have "i - data_start q \<in> A" "i = data_start q + (i - data_start q)"
    using assms(2) by blast+
  with assms(1) show "m' i = m i" unfolding same_cells_def by metis
qed

lemma unchanged_block:
  assumes "unchanged m m' a (24 + len)"
  shows "unchanged m m' a 8" "unchanged m m' (a + 24) len" "unchanged m m' (a + 12) 4"
  using assms by (auto simp: unchanged_def)

lemma stored_frame:
  assumes "stored m q p x" and "cap_of m' q = cap_of m q" and "p < cap_of m q"
    and "span (cap_of m q) p (length (snd x)) \<le> cap_of m q"
    and "same_cells m m' q (arc (cap_of m q) p (span (cap_of m q) p (length (snd x))))"
  shows "stored m' q p x"
proof -
  let ?parts = "place (cap_of m q) p (length (snd x))"
  have part: "unchanged m m' (data_start q + pos) (24 + len)" if "(pos, len) \<in> set ?parts" for pos len
    using place_arc(1) [OF assms(3,4) that] by (intro same_cells_unchanged [OF assms(5)])
      (simp add: add.assoc)
  have "laid_out m' q p (snd x)"
    using assms(1) unchanged_block [OF part] by (intro laid_out_frame [OF _ assms(2)])
      (auto simp: stored_def)
  moreover obtain pos len where hd: "hd ?parts = (pos, len)" by fastforce
  then have "(pos, len) \<in> set ?parts" by (metis hd_in_set place_nonempty)
  from unchanged_block(3) [OF part [OF this]] have "unchanged m m' (data_start q + pos + 12) 4" .
  then have "msg_tag m' (data_start q + pos) = msg_tag m (data_start q + pos)"
    by (simp add: msg_tag_def load32_unchanged)
  moreover have "hd (chain_at q (cap_of m q) p (length (snd x))) = data_start q + pos"
    using hd by (simp add: chain_at_def hd_map)
  ultimately show ?thesis using assms(1,2) by (simp add: stored_def)
qed

lemma ring_frame:
  assumes "ring m q p xs" and "cap_of m' q = cap_of m q" and "p < cap_of m q"
    and "used (cap_of m q) p xs \<le> cap_of m q"
    and "same_cells m m' q (arc (cap_of m q) p (used (cap_of m q) p xs))"
  shows "ring m' q p xs"
  using assms(1,3-5)
proof (induction xs arbitrary: p)
  case (Cons x xs)
  let ?c = "cap_of m q"
  let ?s = "span ?c p (length (snd x))" and ?u = "used ?c (after ?c p x) xs"
  have arc: "arc ?c p (?s + ?u) = arc ?c p ?s \<union> arc ?c (after ?c p x) ?u"
    using Cons.prems(2,3) by (simp add: arc_split after_def)
  have "stored m' q p x"
    using Cons.prems arc by (intro stored_frame [OF _ assms(2)]) (auto simp: same_cells_def)
  moreover have "ring m' q (after ?c p x) xs"
    using Cons.prems arc by (intro Cons.IH after_less) (auto simp: same_cells_def)
  ultimately show ?case by (simp add: assms(2))
qed simp

text \<open>Setting the tag of the first part leaves the layout alone.\<close>

lemma laid_out_set_tag:
  assumes "laid_out m q p data" and "p < cap_of m q"
    and "span (cap_of m q) p (length data) \<le> cap_of m q"
    and "a = hd (chain_at q (cap_of m q) p (length data))"
  shows "stored (msg_set_tag m a tag) q p (tag, data)"
proof -
  let ?m' = "msg_set_tag m a tag" and ?c = "cap_of m q"
  have "unchanged m ?m' (base_ptr q) 24"
    using assms(4) by (auto simp: msg_set_tag_def chain_at_def place_def intro!: unchanged_store32)
  then have cap: "cap_of ?m' q = ?c" by (simp add: header_unchanged)
  have "unchanged m ?m' (data_start q + pos) 8 \<and> unchanged m ?m' (data_start q + pos + 24) len"
    if "(pos, len) \<in> set (place ?c p (length data))" for pos len
    using that assms(2,3,4)
    by (auto simp: place_def span_def chain_at_def msg_set_tag_def split: if_splits
      intro!: unchanged_store32)
  then have "laid_out ?m' q p data"
    by (intro laid_out_frame [OF assms(1) cap]) blast
  moreover have "msg_tag ?m' a = tag" by (simp add: msg_tag_def msg_set_tag_def)
  moreover have "hd (chain_at q (cap_of ?m' q) p (length data)) = a"
    unfolding cap by (rule assms(4) [symmetric])
  ultimately show ?thesis by (simp add: stored_def)
qed

end
