(* ===== verification/Fifo.thy ===== *)
theory Fifo
  imports Ring
begin

text \<open>
  The contract of a message queue without expiry: a bounded FIFO of tagged byte buffers, and
  the interface \<open>refines_fifo\<close> that an implementation of push, get and pop fulfils. The
  simple queue and the connectors over it are its instances. The weaker \<open>lossless_queue\<close> has no
  bound to refer to; every bounded FIFO is one, and so is a bus.
\<close>

section \<open>The abstract queue\<close>

type_synonym message = "tag_type \<times> u8 list"

text \<open>
  A ring of \<open>fifo_cap\<close> bytes whose oldest message starts at \<open>fifo_pos\<close>. A message is
  accepted when the ring with it is not longer than its capacity.
\<close>

record fifo =
  fifo_cap :: nat
  fifo_pos :: nat
  fifo_msgs :: "message list"

definition fits :: "nat \<Rightarrow> nat \<Rightarrow> message list \<Rightarrow> u8 list \<Rightarrow> bool" where
  "fits cap h xs data \<longleftrightarrow>
     used cap h xs + span cap ((h + used cap h xs) mod cap) (length data) \<le> cap"

definition fifo_push :: "message \<Rightarrow> fifo \<Rightarrow> bool \<times> fifo" where
  "fifo_push x f =
     (if fits (fifo_cap f) (fifo_pos f) (fifo_msgs f) (snd x)
      then (True, f\<lparr>fifo_msgs := fifo_msgs f @ [x]\<rparr>) else (False, f))"

definition fifo_get :: "fifo \<Rightarrow> message option" where
  "fifo_get f = (case fifo_msgs f of [] \<Rightarrow> None | x # _ \<Rightarrow> Some x)"

definition fifo_pop :: "fifo \<Rightarrow> bool \<times> fifo" where
  "fifo_pop f =
     (case fifo_msgs f of
        [] \<Rightarrow> (False, f)
      | x # xs \<Rightarrow> (True, f\<lparr>fifo_pos := after (fifo_cap f) (fifo_pos f) x, fifo_msgs := xs\<rparr>))"

definition fifo_ok :: "fifo \<Rightarrow> bool" where
  "fifo_ok f \<longleftrightarrow> fifo_pos f < fifo_cap f
     \<and> used (fifo_cap f) (fifo_pos f) (fifo_msgs f) \<le> fifo_cap f"

lemma fifo_push_ok: "fifo_ok f \<Longrightarrow> fifo_ok (snd (fifo_push x f))"
  by (auto simp: fifo_ok_def fifo_push_def fits_def used_append)

lemma fifo_pop_ok: "fifo_ok f \<Longrightarrow> fifo_ok (snd (fifo_pop f))"
  by (auto simp: fifo_ok_def fifo_pop_def after_less split: list.splits)

section \<open>Sequences of operations\<close>

datatype queue_op = Push message | Get | Pop

datatype outcome = Pushed bool | Got "message option" | Popped bool

fun fifo_step :: "queue_op \<Rightarrow> fifo \<Rightarrow> outcome \<times> fifo" where
  "fifo_step (Push x) f = (case fifo_push x f of (b, f') \<Rightarrow> (Pushed b, f'))"
| "fifo_step Get f = (Got (fifo_get f), f)"
| "fifo_step Pop f = (case fifo_pop f of (b, f') \<Rightarrow> (Popped b, f'))"

fun fifo_run :: "queue_op list \<Rightarrow> fifo \<Rightarrow> outcome list \<times> fifo" where
  "fifo_run [] f = ([], f)"
| "fifo_run (p # ps) f =
     (let (r, f1) = fifo_step p f; (rs, f2) = fifo_run ps f1 in (r # rs, f2))"

text \<open>The messages a run accepted and those it dropped, read off its outcomes.\<close>

fun accepted :: "queue_op list \<Rightarrow> outcome list \<Rightarrow> message list" where
  "accepted (p # ps) (r # rs) =
     (case p of Push x \<Rightarrow> (if r = Pushed True then x # accepted ps rs else accepted ps rs)
      | _ \<Rightarrow> accepted ps rs)"
| "accepted _ _ = []"

definition pops :: "outcome list \<Rightarrow> nat" where
  "pops rs = length (filter (\<lambda>r. r = Popped True) rs)"

lemma fifo_step_ok: "fifo_ok f \<Longrightarrow> fifo_ok (snd (fifo_step p f))"
  by (cases p) (simp_all add: case_prod_beta fifo_push_ok fifo_pop_ok)

text \<open>First in, first out: what is left is what was there and was accepted, less the pops.\<close>

lemma fifo_run_order:
  assumes "fifo_run ps f = (rs, f')"
  shows "pops rs \<le> length (fifo_msgs f @ accepted ps rs)
    \<and> fifo_msgs f' = drop (pops rs) (fifo_msgs f @ accepted ps rs)"
  using assms
proof (induction ps arbitrary: f rs f')
  case Nil
  then show ?case by (auto simp: pops_def)
next
  case (Cons p ps)
  obtain r f1 where step: "fifo_step p f = (r, f1)" by fastforce
  obtain rs2 f2 where run: "fifo_run ps f1 = (rs2, f2)" by fastforce
  have split: "rs = r # rs2" "f' = f2" using Cons.prems step run by (auto simp: Let_def)
  note IH = Cons.IH [OF run]
  show ?case
  proof (cases p)
    case (Push x)
    with step IH split show ?thesis
      by (cases "fits (fifo_cap f) (fifo_pos f) (fifo_msgs f) (snd x)")
        (auto simp: fifo_push_def pops_def simp del: drop_append)
  next
    case Get
    with step IH split show ?thesis by (auto simp: pops_def)
  next
    case Pop
    with step IH split show ?thesis by (cases "fifo_msgs f") (auto simp: fifo_pop_def pops_def)
  qed
qed

fun sendable :: "queue_op \<Rightarrow> bool" where
  "sendable (Push x) \<longleftrightarrow> snd x \<noteq> []"
| "sendable _ \<longleftrightarrow> True"

section \<open>The interface\<close>

text \<open>One operation, and a run of operations, of an implementation over states \<open>'s\<close>.\<close>

fun impl_step ::
  "(message \<Rightarrow> 's \<Rightarrow> (bool \<times> 's) run) \<Rightarrow> ('s \<Rightarrow> (message option \<times> 's) run)
    \<Rightarrow> ('s \<Rightarrow> (bool \<times> 's) run) \<Rightarrow> queue_op \<Rightarrow> 's \<Rightarrow> (outcome \<times> 's) run" where
  "impl_step enq front deq (Push x) s = and_then (enq x s) (\<lambda>(b, s1). returns (Pushed b, s1))"
| "impl_step enq front deq Get s = and_then (front s) (\<lambda>(x, s1). returns (Got x, s1))"
| "impl_step enq front deq Pop s = and_then (deq s) (\<lambda>(b, s1). returns (Popped b, s1))"

fun impl_run ::
  "(message \<Rightarrow> 's \<Rightarrow> (bool \<times> 's) run) \<Rightarrow> ('s \<Rightarrow> (message option \<times> 's) run)
    \<Rightarrow> ('s \<Rightarrow> (bool \<times> 's) run) \<Rightarrow> queue_op list \<Rightarrow> 's \<Rightarrow> (outcome list \<times> 's) run" where
  "impl_run enq front deq [] s = returns ([], s)"
| "impl_run enq front deq (p # ps) s =
     and_then (impl_step enq front deq p s) (\<lambda>(r, s1).
     and_then (impl_run enq front deq ps s1) (\<lambda>(rs, s2). returns (r # rs, s2)))"

locale refines_fifo =
  fixes enq :: "message \<Rightarrow> 's \<Rightarrow> (bool \<times> 's) run"
    and front :: "'s \<Rightarrow> (message option \<times> 's) run"
    and deq :: "'s \<Rightarrow> (bool \<times> 's) run"
    and holds :: "'s \<Rightarrow> fifo \<Rightarrow> bool"
  assumes enq_law: "holds s f \<Longrightarrow> snd x \<noteq> [] \<Longrightarrow>
      \<exists>s'. enq x s = returns (fst (fifo_push x f), s') \<and> holds s' (snd (fifo_push x f))"
    and front_law: "holds s f \<Longrightarrow> \<exists>s'. front s = returns (fifo_get f, s') \<and> holds s' f"
    and deq_law: "holds s f \<Longrightarrow>
      \<exists>s'. deq s = returns (fst (fifo_pop f), s') \<and> holds s' (snd (fifo_pop f))"
begin

lemma step_law:
  assumes "holds s f" and "sendable p"
  shows "\<exists>s'. impl_step enq front deq p s = returns (fst (fifo_step p f), s')
    \<and> holds s' (snd (fifo_step p f))"
proof (cases p)
  case (Push x)
  then show ?thesis using enq_law [OF assms(1), of x] assms(2)
    by (auto simp: case_prod_beta)
next
  case Get
  then show ?thesis using front_law [OF assms(1)] by auto
next
  case Pop
  then show ?thesis using deq_law [OF assms(1)] by (auto simp: case_prod_beta)
qed

lemma run_law:
  assumes "holds s f" and "\<forall>p \<in> set ps. sendable p"
  shows "\<exists>s'. impl_run enq front deq ps s = returns (fst (fifo_run ps f), s')
    \<and> holds s' (snd (fifo_run ps f))"
  using assms
proof (induction ps arbitrary: s f)
  case (Cons p ps)
  obtain s1 where s1: "impl_step enq front deq p s = returns (fst (fifo_step p f), s1)"
    "holds s1 (snd (fifo_step p f))"
    using step_law [OF Cons.prems(1)] Cons.prems(2) by auto
  obtain s2 where "impl_run enq front deq ps s1 = returns (fst (fifo_run ps (snd (fifo_step p f))), s2)"
    "holds s2 (snd (fifo_run ps (snd (fifo_step p f))))"
    using Cons.IH [OF s1(2)] Cons.prems(2) by auto
  with s1(1) show ?case by (simp add: Let_def case_prod_beta)
qed auto

text \<open>Every run ends without a crash, and delivers in the order of acceptance.\<close>

lemma run_fifo:
  assumes "holds s f" and "\<forall>p \<in> set ps. sendable p"
  obtains rs s' f' where "impl_run enq front deq ps s = returns (rs, s')" "holds s' f'"
    "fifo_run ps f = (rs, f')"
    "fifo_msgs f' = drop (pops rs) (fifo_msgs f @ accepted ps rs)"
proof -
  obtain rs f' where r: "fifo_run ps f = (rs, f')" by fastforce
  then show thesis
    using run_law [OF assms] fifo_run_order [OF r] that by auto
qed

end

section \<open>A queue without bound\<close>

text \<open>
  The contract of a queue that may refuse a message but loses and reorders none: its state is
  the list of its messages. Each outcome of a run is explained by the list so far.
\<close>

definition first_of :: "message list \<Rightarrow> message option" where
  "first_of xs = (case xs of [] \<Rightarrow> None | x # _ \<Rightarrow> Some x)"

fun explained :: "message list \<Rightarrow> queue_op list \<Rightarrow> outcome list \<Rightarrow> bool" where
  "explained xs [] [] \<longleftrightarrow> True"
| "explained xs (Push x # ps) (Pushed b # rs) \<longleftrightarrow> explained (if b then xs @ [x] else xs) ps rs"
| "explained xs (Get # ps) (Got y # rs) \<longleftrightarrow> y = first_of xs \<and> explained xs ps rs"
| "explained xs (Pop # ps) (Popped b # rs) \<longleftrightarrow> b = (xs \<noteq> []) \<and> explained (tl xs) ps rs"
| "explained _ _ _ \<longleftrightarrow> False"

lemma pops_simps [simp]:
  "pops [] = 0" "pops (Pushed b # rs) = pops rs" "pops (Got y # rs) = pops rs"
  "pops (Popped b # rs) = (if b then Suc (pops rs) else pops rs)"
  by (simp_all add: pops_def)

locale lossless_queue =
  fixes enq :: "message \<Rightarrow> 's \<Rightarrow> (bool \<times> 's) run"
    and front :: "'s \<Rightarrow> (message option \<times> 's) run"
    and deq :: "'s \<Rightarrow> (bool \<times> 's) run"
    and lists :: "'s \<Rightarrow> message list \<Rightarrow> bool"
  assumes appends: "lists s xs \<Longrightarrow> snd x \<noteq> [] \<Longrightarrow>
      \<exists>b s'. enq x s = returns (b, s') \<and> lists s' (if b then xs @ [x] else xs)"
    and reads: "lists s xs \<Longrightarrow> \<exists>s'. front s = returns (first_of xs, s') \<and> lists s' xs"
    and drops: "lists s xs \<Longrightarrow> \<exists>s'. deq s = returns (xs \<noteq> [], s') \<and> lists s' (tl xs)"
begin

lemma lossless_run:
  assumes "lists s xs" and "\<forall>p \<in> set ps. sendable p"
  shows "\<exists>rs s'. impl_run enq front deq ps s = returns (rs, s') \<and> explained xs ps rs
    \<and> pops rs \<le> length (xs @ accepted ps rs) \<and> lists s' (drop (pops rs) (xs @ accepted ps rs))"
  using assms
proof (induction ps arbitrary: s xs)
  case Nil
  then show ?case by simp
next
  case (Cons p ps)
  have rest: "\<forall>p \<in> set ps. sendable p" using Cons.prems(2) by simp
  show ?case
  proof (cases p)
    case (Push x)
    obtain b s1 where b: "enq x s = returns (b, s1)" "lists s1 (if b then xs @ [x] else xs)"
      using appends [OF Cons.prems(1), of x] Cons.prems(2) Push by auto
    obtain rs s' where "impl_run enq front deq ps s1 = returns (rs, s')"
      "explained (if b then xs @ [x] else xs) ps rs"
      "pops rs \<le> length ((if b then xs @ [x] else xs) @ accepted ps rs)"
      "lists s' (drop (pops rs) ((if b then xs @ [x] else xs) @ accepted ps rs))"
      using Cons.IH [OF b(2) rest] by blast
    with b(1) Push show ?thesis
      by (intro exI [of _ "Pushed b # rs"] exI [of _ s']) (cases b; simp del: drop_append)
  next
    case Get
    obtain s1 where s1: "front s = returns (first_of xs, s1)" "lists s1 xs" using reads [OF Cons.prems(1)] by blast
    obtain rs s' where "impl_run enq front deq ps s1 = returns (rs, s')" "explained xs ps rs"
      "pops rs \<le> length (xs @ accepted ps rs)" "lists s' (drop (pops rs) (xs @ accepted ps rs))"
      using Cons.IH [OF s1(2) rest] by blast
    with s1(1) Get show ?thesis
      by (intro exI [of _ "Got (first_of xs) # rs"] exI [of _ s']) (simp del: drop_append)
  next
    case Pop
    obtain s1 where s1: "deq s = returns (xs \<noteq> [], s1)" "lists s1 (tl xs)" using drops [OF Cons.prems(1)] by blast
    obtain rs s' where "impl_run enq front deq ps s1 = returns (rs, s')" "explained (tl xs) ps rs"
      "pops rs \<le> length (tl xs @ accepted ps rs)" "lists s' (drop (pops rs) (tl xs @ accepted ps rs))"
      using Cons.IH [OF s1(2) rest] by blast
    note ran = this
    show ?thesis
    proof (cases xs)
      case Nil
      with ran s1(1) Pop show ?thesis
        by (intro exI [of _ "Popped False # rs"] exI [of _ s']) simp
    next
      case (Cons y ys)
      with ran s1(1) Pop show ?thesis
        by (intro exI [of _ "Popped True # rs"] exI [of _ s']) (simp del: drop_append append_assoc)
    qed
  qed
qed

end

text \<open>A bounded FIFO is one.\<close>

sublocale refines_fifo \<subseteq> lossless: lossless_queue enq front deq "\<lambda>s xs. \<exists>f. holds s f \<and> fifo_msgs f = xs"
proof unfold_locales
  fix s xs x assume "\<exists>f. holds s f \<and> fifo_msgs f = xs" and x: "snd (x :: message) \<noteq> []"
  then obtain f where f: "holds s f" "fifo_msgs f = xs" by blast
  have "fifo_msgs (snd (fifo_push x f)) = (if fst (fifo_push x f) then xs @ [x] else xs)"
    using f(2) by (simp add: fifo_push_def)
  then show "\<exists>b s'. enq x s = returns (b, s') \<and> (\<exists>f. holds s' f \<and> fifo_msgs f = (if b then xs @ [x] else xs))"
    using enq_law [OF f(1) x] by blast
next
  fix s xs assume "\<exists>f. holds s f \<and> fifo_msgs f = xs"
  then obtain f where f: "holds s f" "fifo_msgs f = xs" by blast
  have "fifo_get f = first_of xs" using f(2) by (simp add: fifo_get_def first_of_def)
  then show "\<exists>s'. front s = returns (first_of xs, s') \<and> (\<exists>f. holds s' f \<and> fifo_msgs f = xs)"
    using front_law [OF f(1)] f(2) by metis
next
  fix s xs assume "\<exists>f. holds s f \<and> fifo_msgs f = xs"
  then obtain f where f: "holds s f" "fifo_msgs f = xs" by blast
  have pop: "fst (fifo_pop f) = (xs \<noteq> [])" "fifo_msgs (snd (fifo_pop f)) = tl xs"
    using f(2) by (auto simp: fifo_pop_def split: list.splits)
  show "\<exists>s'. deq s = returns (xs \<noteq> [], s') \<and> (\<exists>f. holds s' f \<and> fifo_msgs f = tl xs)"
    using deq_law [OF f(1), unfolded pop(1)] pop(2) by blast
qed

end
