(* ===== verification/Ring_State.thy ===== *)
theory Ring_State
  imports Fifo
begin

text \<open>
  The invariant that ties the ring of a queue in memory to a list of messages, and what the
  steps of the queue operations do to it: appending a message, advancing the head, counting
  down a message's reference counter, and creating the header. All queue classes share it.
\<close>

section \<open>The free part of a ring\<close>

text \<open>The ring between head and tail holds the messages; \<open>u\<close> is its length.\<close>

definition ring_bounds :: "memory \<Rightarrow> queue \<Rightarrow> nat \<Rightarrow> bool" where
  "ring_bounds m q u \<longleftrightarrow> header_ok m q \<and> u \<le> cap_of m q
     \<and> tail_of m q = (head_of m q + u) mod cap_of m q \<and> (count_of m q = 0 \<longleftrightarrow> u = 0)"

lemma ring_bounds_cases:
  assumes "ring_bounds m q u"
  obtains (none) "u = 0" "count_of m q = 0" "tail_of m q = head_of m q" "head_of m q < cap_of m q"
  | (inner) "0 < u" "count_of m q \<noteq> 0" "tail_of m q = head_of m q + u" "tail_of m q < cap_of m q"
  | (outer) "0 < u" "count_of m q \<noteq> 0" "tail_of m q + cap_of m q = head_of m q + u"
      "tail_of m q \<le> head_of m q" "head_of m q < cap_of m q"
proof -
  have lt: "head_of m q < cap_of m q" "u \<le> cap_of m q" and cnt: "count_of m q = 0 \<longleftrightarrow> u = 0"
    and t: "tail_of m q = (if head_of m q + u < cap_of m q then head_of m q + u
      else head_of m q + u - cap_of m q)"
    using assms by (simp_all add: ring_bounds_def header_ok_def mod_wrap)
  show thesis
  proof (cases "u = 0")
    case True
    with lt cnt t show thesis by (intro none) simp_all
  next
    case False
    show thesis
    proof (cases "head_of m q + u < cap_of m q")
      case True
      with False cnt t show thesis by (intro inner) simp_all
    next
      case below: False
      with False lt cnt t show thesis by (intro outer) simp_all
    qed
  qed
qed

lemma free_bytes_eq:
  assumes "ring_bounds m q u"
  shows "free_bytes m q = cap_of m q - u"
  using assms by (cases rule: ring_bounds_cases) (auto simp: free_bytes_def wraps_def)

lemma free_cells_arc:
  assumes "ring_bounds m q u" and "i \<in> arc (cap_of m q) (head_of m q) u"
  shows "data_start q + i \<notin> free_cells m q"
  using assms by (cases rule: ring_bounds_cases)
    (auto simp: free_cells_def wraps_def arc_def split: if_splits)

lemma free_cells_inside:
  "header_ok m q \<Longrightarrow> free_cells m q \<subseteq> {data_start q..<data_start q + cap_of m q}"
  by (auto simp: free_cells_def header_ok_def)

section \<open>Invariant\<close>

text \<open>\<open>ring_state m q xs\<close>: the ring between the head and the tail holds the messages \<open>xs\<close>.\<close>

definition ring_state :: "memory \<Rightarrow> queue \<Rightarrow> (tag_type \<times> u8 list) list \<Rightarrow> bool" where
  "ring_state m q xs \<longleftrightarrow> header_ok m q
     \<and> count_of m q = length xs \<and> ring m q (head_of m q) xs
     \<and> used (cap_of m q) (head_of m q) xs \<le> cap_of m q
     \<and> tail_of m q = (head_of m q + used (cap_of m q) (head_of m q) xs) mod cap_of m q"

lemma length_le_used: "length xs \<le> used cap p xs"
proof (induction xs arbitrary: p)
  case (Cons x xs)
  from Cons.IH [of "after cap p x"] span_pos [of cap p "length (snd x)"] show ?case
    unfolding used.simps list.size by linarith
qed simp

lemma ring_state_bounds:
  assumes "ring_state m q xs"
  shows "ring_bounds m q (used (cap_of m q) (head_of m q) xs)"
    "count_of m q = 0 \<Longrightarrow> head_of m q = tail_of m q" "length xs < 4294967296"
proof -
  show "ring_bounds m q (used (cap_of m q) (head_of m q) xs)"
    using assms length_le_used [of xs "cap_of m q" "head_of m q"]
    by (auto simp: ring_state_def ring_bounds_def used_nonempty)
  show "count_of m q = 0 \<Longrightarrow> head_of m q = tail_of m q"
    using assms by (simp add: ring_state_def header_ok_def)
  show "length xs < 4294967296"
    using assms length_le_used [of xs "cap_of m q" "head_of m q"] cap_of_bound [of m q]
    by (simp add: ring_state_def)
qed

text \<open>The header after the writes of a successful push.\<close>

lemma set_tail_returns:
  assumes "0 < cap_of m q"
  obtains m' where "set_tail m q pos = returns m'" "only_changes m m' {base_ptr q + 20..<base_ptr q + 24}"
    "tail_of m' q = unat pos mod cap_of m q"
proof -
  let ?v = "ucast (ucast pos mod q_capacity m q) :: u32"
  have "unat (ucast pos mod q_capacity m q :: u64) = unat pos mod cap_of m q"
    by (simp add: unat_mod_distrib)
  moreover have "unat pos mod cap_of m q < 4294967296"
    using assms cap_of_bound [of m q] by (meson mod_less_divisor order.strict_trans)
  ultimately have v: "unat ?v = unat pos mod cap_of m q" by (simp add: unat_ucast_64_32)
  show thesis
  proof (rule that)
    show "set_tail m q pos = returns (store32 m (base_ptr q + 20) ?v)"
      using assms by (simp add: set_tail_def unat_gt_0)
    show "only_changes m (store32 m (base_ptr q + 20) ?v) {base_ptr q + 20..<base_ptr q + 24}"
      by (simp add: only_changes_store32)
    show "tail_of (store32 m (base_ptr q + 20) ?v) q = unat pos mod cap_of m q"
      using v by (simp add: q_tail_def)
  qed
qed

lemma set_base_head_returns:
  assumes "0 < cap_of m q"
  obtains m' where "set_base_head m q pos = returns m'"
    "only_changes m m' {base_ptr q + 16..<base_ptr q + 20}"
    "head_of m' q = unat pos mod cap_of m q"
proof -
  let ?v = "ucast (ucast pos mod q_capacity m q) :: u32"
  have "unat (ucast pos mod q_capacity m q :: u64) = unat pos mod cap_of m q"
    by (simp add: unat_mod_distrib)
  moreover have "unat pos mod cap_of m q < 4294967296"
    using assms cap_of_bound [of m q] by (meson mod_less_divisor order.strict_trans)
  ultimately have v: "unat ?v = unat pos mod cap_of m q" by (simp add: unat_ucast_64_32)
  show thesis
  proof (rule that)
    show "set_base_head m q pos = returns (store32 m (base_ptr q + 16) ?v)"
      using assms by (simp add: set_base_head_def unat_gt_0)
    show "only_changes m (store32 m (base_ptr q + 16) ?v) {base_ptr q + 16..<base_ptr q + 20}"
      by (simp add: only_changes_store32)
    show "head_of (store32 m (base_ptr q + 16) ?v) q = unat pos mod cap_of m q"
      using v by (simp add: base_head_def)
  qed
qed

lemma set_base_count_count:
  "unat v < 4294967296 \<Longrightarrow> count_of (set_base_count m q v) q = unat v"
  by (simp add: q_field_defs unat_ucast_64_32)

lemma set_base_count_changes:
  "only_changes m (set_base_count m q v) {base_ptr q + 12..<base_ptr q + 16}"
  by (simp add: set_base_count_def only_changes_store32)

text \<open>Which header fields a write to another field leaves alone.\<close>

lemma field_unchanged:
  assumes "only_changes m m' S" and "{base_ptr q + k..<base_ptr q + k + 4} \<inter> S = {}"
  shows "load32 m' (base_ptr q + k) = load32 m (base_ptr q + k)"
  using assms by (intro load32_unchanged only_changes_unchanged) auto

lemma header_write_data:
  assumes "only_changes m m' S" and "S \<subseteq> {base_ptr q..<base_ptr q + 24}"
  shows "same_cells m m' q A"
  using assms by (force simp: same_cells_def only_changes_def)

lemma same_cells_trans: "same_cells m m' q A \<Longrightarrow> same_cells m' m'' q A \<Longrightarrow> same_cells m m'' q A"
  by (simp add: same_cells_def)

lemma same_cells_outside:
  "only_changes m m' S \<Longrightarrow> (\<And>i. i \<in> A \<Longrightarrow> data_start q + i \<notin> S) \<Longrightarrow> same_cells m m' q A"
  by (simp add: same_cells_def only_changes_def)

lemma hd_chain_at: "hd (chain_at q cap p n) = data_start q + fst (hd (place cap p n))"
  by (simp add: chain_at_def hd_map split: prod.splits)

lemma hd_place_arc:
  assumes "p < cap" and "span cap p n \<le> cap"
  shows "{fst (hd (place cap p n))..<fst (hd (place cap p n)) + 24} \<subseteq> arc cap p (span cap p n)"
proof -
  obtain pos len where "hd (place cap p n) = (pos, len)" by fastforce
  moreover from this have "(pos, len) \<in> set (place cap p n)" by (metis hd_in_set place_nonempty)
  ultimately show ?thesis using place_arc(1) [OF assms] by fastforce
qed

lemma only_changes_trans3:
  assumes "only_changes m0 m1 A" and "only_changes m1 m2 B" and "only_changes m2 m3 C"
    and "A \<subseteq> U" and "B \<subseteq> U" and "C \<subseteq> U"
  shows "only_changes m0 m3 U"
  by (rule only_changes_trans [OF only_changes_trans [OF assms(1,2,4,5)] assms(3) subset_refl assms(6)])

section \<open>Appending a message\<close>

text \<open>What \<open>do_push\<close> does after the message is in place: set its tag, the tail, the count.\<close>

lemma commit_message:
  assumes rs: "ring_state m q xs"
    and fits: "used (cap_of m q) (head_of m q) xs + span (cap_of m q) (tail_of m q) (length data)
        \<le> cap_of m q"
    and laid: "laid_out m2 q (tail_of m q) data" and hdr: "unchanged m m2 (base_ptr q) 24"
    and cells: "same_cells m m2 q (arc (cap_of m q) (head_of m q) (used (cap_of m q) (head_of m q) xs))"
    and pos: "unat pos mod cap_of m q
        = (tail_of m q + span (cap_of m q) (tail_of m q) (length data)) mod cap_of m q"
    and a: "a = hd (chain_at q (cap_of m q) (tail_of m q) (length data))"
  obtains m3 m4 where "set_tail (msg_set_tag m2 a tag) q pos = returns m3"
    "m4 = set_base_count m3 q (base_count m3 q + 1)"
    "ring_state m4 q (xs @ [(tag, data)])" "head_of m4 q = head_of m q" "cap_of m4 q = cap_of m q"
    "only_changes m2 m4 ({base_ptr q + 12..<base_ptr q + 16} \<union> {base_ptr q + 20..<base_ptr q + 24}
       \<union> {a + 12..<a + 16})"
proof -
  let ?c = "cap_of m q" and ?h = "head_of m q" and ?t = "tail_of m q" and ?n = "length data"
  let ?u = "used ?c ?h xs" and ?s = "span ?c ?t ?n" and ?x = "(tag, data)"
  have lt: "?h < ?c" "?t < ?c" and tail: "?t = (?h + ?u) mod ?c"
    using rs by (simp_all add: ring_state_def header_ok_def)
  have s: "?s \<le> ?c" using fits by simp
  define m2t where "m2t = msg_set_tag m2 a tag"
  have apos: "a = data_start q + fst (hd (place ?c ?t ?n))" by (simp add: a hd_chain_at)
  have tagw: "only_changes m2 m2t {a + 12..<a + 16}"
    by (simp add: m2t_def msg_set_tag_def only_changes_store32)
  have hdr_t: "unchanged m m2t (base_ptr q) 24"
    by (rule unchanged_trans [OF hdr only_changes_unchanged [OF tagw]]) (auto simp: apos)
  then have t_fields: "cap_of m2t q = ?c" "head_of m2t q = ?h" "count_of m2t q = count_of m q"
    by (simp_all add: header_unchanged)
  have cap2: "cap_of m2 q = ?c" using hdr by (simp add: header_unchanged)
  have st: "stored m2t q ?t ?x"
    unfolding m2t_def by (rule laid_out_set_tag [OF laid]) (use lt s cap2 a in auto)
  obtain m3 where m3: "set_tail m2t q pos = returns m3"
    "only_changes m2t m3 {base_ptr q + 20..<base_ptr q + 24}" "tail_of m3 q = unat pos mod ?c"
    using set_tail_returns [of m2t q pos] lt t_fields by (metis gr_zeroI not_less_zero)
  note f3 = field_unchanged [OF m3(2)]
  have fields3: "cap_of m3 q = ?c" "head_of m3 q = ?h" "count_of m3 q = count_of m q"
    using f3 [where k = 4 and q = q] f3 [where k = 16 and q = q] f3 [where k = 12 and q = q] t_fields by (simp_all add: q_field_defs)
  define m4 where "m4 = set_base_count m3 q (base_count m3 q + 1)"
  note w4 = set_base_count_changes [of m3 q "base_count m3 q + 1", folded m4_def]
  note f4 = field_unchanged [OF w4]
  have fields4: "cap_of m4 q = ?c" "head_of m4 q = ?h" "tail_of m4 q = unat pos mod ?c"
    using f4 [where k = 4 and q = q] f4 [where k = 16 and q = q] f4 [where k = 20 and q = q] fields3 m3(3) by (simp_all add: q_field_defs)
  have data_same: "same_cells m2t m4 q A" for A
    using header_write_data [OF m3(2), of q A] header_write_data [OF w4, of q A]
    by (auto intro: same_cells_trans)
  have new: "stored m4 q ?t ?x"
    by (rule stored_frame [OF st]) (use t_fields fields4 lt s data_same in auto)
  have disj: "arc ?c ?h ?u \<inter> arc ?c ?t ?s = {}"
    using arc_disjoint [OF lt(1) fits] by (simp add: tail [symmetric])
  have "same_cells m2 m2t q (arc ?c ?h ?u)"
  proof (rule same_cells_outside [OF tagw])
    fix i assume "i \<in> arc ?c ?h ?u"
    then have "i \<notin> {fst (hd (place ?c ?t ?n))..<fst (hd (place ?c ?t ?n)) + 24}"
      using disj hd_place_arc [OF lt(2) s] by blast
    then show "data_start q + i \<notin> {a + 12..<a + 16}" by (auto simp: apos)
  qed
  then have kept: "same_cells m m4 q (arc ?c ?h ?u)"
    using cells data_same by (blast intro: same_cells_trans)
  have rng: "ring m q ?h xs" and u: "?u \<le> ?c" using rs by (simp_all add: ring_state_def)
  have old: "ring m4 q ?h xs"
    by (rule ring_frame [OF rng fields4(1) lt(1) u kept])
  have len: "length xs + 1 < 4294967296"
  proof -
    have "length xs + 1 \<le> ?c"
      using length_le_used [of xs ?c ?h] span_pos [of ?c ?t ?n] fits by linarith
    then show ?thesis using cap_of_bound [of m q] by linarith
  qed
  have cnt: "count_of m4 q = length xs + 1"
  proof -
    have "count_of m3 q = length xs" using fields3 rs by (simp add: ring_state_def)
    then have "unat (base_count m3 q + 1) = length xs + 1"
      using len by (simp add: unat_word_ariths)
    then show ?thesis using len by (simp add: m4_def set_base_count_count)
  qed
  have used4: "used ?c ?h (xs @ [?x]) = ?u + ?s"
    using lt(1) by (simp add: used_append tail [symmetric])
  have "ring_state m4 q (xs @ [?x])"
    unfolding ring_state_def header_ok_def fields4 used4
  proof (intro conjI)
    show "?h < ?c" "unat pos mod ?c < ?c" "count_of m4 q = length (xs @ [?x])" "?u + ?s \<le> ?c"
      using lt cnt fits by simp_all
    show "ring m4 q ?h (xs @ [?x])"
      using old new lt(1) by (simp add: ring_append fields4 tail [symmetric])
    show "unat pos mod ?c = (?h + (?u + ?s)) mod ?c"
      using pos by (simp add: tail mod_add_left_eq add.assoc)
  qed
  moreover have "only_changes m2 m4 ({base_ptr q + 12..<base_ptr q + 16}
       \<union> {base_ptr q + 20..<base_ptr q + 24} \<union> {a + 12..<a + 16})"
    by (intro only_changes_trans3 [OF tagw m3(2) w4]) auto
  ultimately show thesis
    using m3(1) fields4 by (intro that) (auto simp: m2t_def m4_def)
qed

section \<open>The segment of a queue\<close>

definition segment :: "memory \<Rightarrow> queue \<Rightarrow> nat set" where
  "segment m q = {base_ptr q..<data_start q + cap_of m q}"

lemma free_cells_segment: "header_ok m q \<Longrightarrow> free_cells m q \<subseteq> segment m q"
  using free_cells_inside [of m q] by (auto simp: segment_def)

text \<open>Writing the free cells only leaves the ring as it is.\<close>

lemma ring_state_free:
  assumes "ring_state m q xs" and "only_changes m m' (free_cells m q)"
  shows "ring_state m' q xs" "unchanged m m' (base_ptr q) 24"
    "same_cells m m' q (arc (cap_of m q) (head_of m q) (used (cap_of m q) (head_of m q) xs))"
proof -
  note rb = ring_state_bounds(1) [OF assms(1)]
  have ok: "header_ok m q" using rb by (simp add: ring_bounds_def)
  show hdr: "unchanged m m' (base_ptr q) 24"
    by (rule header_only_changes [OF assms(2)]) (use free_cells_inside [OF ok] in auto)
  show cells: "same_cells m m' q
      (arc (cap_of m q) (head_of m q) (used (cap_of m q) (head_of m q) xs))"
    by (rule same_cells_outside [OF assms(2)]) (rule free_cells_arc [OF rb])
  have "ring m' q (head_of m q) xs"
    by (rule ring_frame [OF _ _ _ _ cells])
      (use assms(1) hdr in \<open>simp_all add: ring_state_def header_unchanged header_ok_def\<close>)
  then show "ring_state m' q xs"
    using assms(1) by (simp add: ring_state_def header_unchanged [OF hdr] header_ok_cong [OF hdr])
qed

lemma free_bytes_fits:
  assumes "ring_state m q xs"
  shows "span (cap_of m q) (tail_of m q) (length data) \<le> free_bytes m q
    \<longleftrightarrow> fits (cap_of m q) (head_of m q) xs data"
proof -
  have "used (cap_of m q) (head_of m q) xs \<le> cap_of m q"
    and "tail_of m q = (head_of m q + used (cap_of m q) (head_of m q) xs) mod cap_of m q"
    using assms by (simp_all add: ring_state_def)
  then show ?thesis
    unfolding fits_def by (simp add: free_bytes_eq [OF ring_state_bounds(1) [OF assms]]) linarith
qed

lemma stored_hd:
  assumes "ring_state m q (x # xs)"
  shows "stored m q (head_of m q) x" "span (cap_of m q) (head_of m q) (length (snd x)) \<le> cap_of m q"
  using assms by (simp_all add: ring_state_def)

section \<open>Counters and the head\<close>

text \<open>Only the address of the queue matters for the ring, not the rest of the object.\<close>

lemma base_ptr_cong:
  assumes "base_ptr q' = base_ptr q"
  shows "q_capacity m q' = q_capacity m q" "base_head m q' = base_head m q"
    "q_tail m q' = q_tail m q" "base_count m q' = base_count m q"
    "keepalive_timeout m q' = keepalive_timeout m q" "chain_at q' = chain_at q"
    "header_ok m q' = header_ok m q" "segment m q' = segment m q"
    "set_base_head m q' v = set_base_head m q v" "set_tail m q' v = set_tail m q v"
    "set_base_count m q' c = set_base_count m q c"
  using assms
  by (auto simp: q_field_defs chain_at_def header_ok_def segment_def set_base_head_def
    set_tail_def fun_eq_iff)

lemma ring_cong:
  assumes "base_ptr q' = base_ptr q"
  shows "ring m q' p xs = ring m q p xs"
  by (induction xs arbitrary: p)
    (simp_all add: stored_def laid_out_def base_ptr_cong [OF assms] assms)

lemma ring_state_cong:
  assumes "base_ptr q' = base_ptr q"
  shows "ring_state m q' xs = ring_state m q xs"
  by (simp add: ring_state_def ring_cong [OF assms] base_ptr_cong [OF assms])

text \<open>Position and address of the \<open>i\<close>-th message.\<close>

definition pos_at :: "memory \<Rightarrow> queue \<Rightarrow> (tag_type \<times> u8 list) list \<Rightarrow> nat \<Rightarrow> nat" where
  "pos_at m q xs i = (head_of m q + used (cap_of m q) (head_of m q) (take i xs)) mod cap_of m q"

definition addr_at :: "memory \<Rightarrow> queue \<Rightarrow> (tag_type \<times> u8 list) list \<Rightarrow> nat \<Rightarrow> nat" where
  "addr_at m q xs i = hd (chain_at q (cap_of m q) (pos_at m q xs i) (length (snd (xs ! i))))"

lemma used_split:
  assumes "i < length xs" and "h < cap"
  defines "p \<equiv> (h + used cap h (take i xs)) mod cap"
  shows "used cap h xs = used cap h (take i xs)
      + (span cap p (length (snd (xs ! i))) + used cap (after cap p (xs ! i)) (drop (Suc i) xs))"
proof -
  have "xs = take i xs @ xs ! i # drop (Suc i) xs"
    using assms(1) by (simp add: id_take_nth_drop [symmetric])
  then have "used cap h xs = used cap h (take i xs @ xs ! i # drop (Suc i) xs)" by simp
  also have "\<dots> = used cap h (take i xs) + used cap p (xs ! i # drop (Suc i) xs)"
    using assms(2) by (simp only: used_append p_def)
  finally show ?thesis by simp
qed

lemma pos_at_less: "ring_state m q xs \<Longrightarrow> pos_at m q xs i < cap_of m q"
  by (auto simp: pos_at_def ring_state_def header_ok_def intro!: mod_less_divisor)

lemma pos_at_Suc:
  assumes "ring_state m q xs" and "i < length xs"
  shows "pos_at m q xs (Suc i) = after (cap_of m q) (pos_at m q xs i) (xs ! i)"
proof -
  have "head_of m q < cap_of m q" using assms(1) by (simp add: ring_state_def header_ok_def)
  then show ?thesis
    using assms(2)
    by (simp add: pos_at_def after_def take_Suc_conv_app_nth used_append mod_add_left_eq add.assoc)
qed

lemma stored_at:
  assumes "ring_state m q xs" and "i < length xs"
  shows "stored m q (pos_at m q xs i) (xs ! i)"
    "span (cap_of m q) (pos_at m q xs i) (length (snd (xs ! i))) \<le> cap_of m q"
proof -
  have h: "head_of m q < cap_of m q" and u: "used (cap_of m q) (head_of m q) xs \<le> cap_of m q"
    using assms(1) by (simp_all add: ring_state_def header_ok_def)
  have "xs = take i xs @ xs ! i # drop (Suc i) xs"
    using assms(2) by (simp add: id_take_nth_drop [symmetric])
  moreover have "ring m q (head_of m q) xs" using assms(1) by (simp add: ring_state_def)
  ultimately have "ring m q (head_of m q) (take i xs @ xs ! i # drop (Suc i) xs)" by simp
  then show "stored m q (pos_at m q xs i) (xs ! i)"
    using h by (simp add: ring_append pos_at_def)
  show "span (cap_of m q) (pos_at m q xs i) (length (snd (xs ! i))) \<le> cap_of m q"
    using used_split [OF assms(2) h] u by (simp add: pos_at_def)
qed

text \<open>A write to the reference counter of a message leaves the ring as it is.\<close>

lemma stored_counter:
  assumes "stored m q p x" and "p < cap_of m q" and "span (cap_of m q) p (length (snd x)) \<le> cap_of m q"
    and "only_changes m m' {a + 16..<a + 20}" and "a = hd (chain_at q (cap_of m q) p (length (snd x)))"
    and "cap_of m' q = cap_of m q"
  shows "stored m' q p x"
proof -
  let ?c = "cap_of m q" and ?n = "length (snd x)"
  have keep: "unchanged m m' b k" if "b + k \<le> a + 16 \<or> a + 20 \<le> b" for b k
    using assms(4) that by (intro only_changes_unchanged) auto
  have blocks: "unchanged m m' (data_start q + pos) 8 \<and> unchanged m m' (data_start q + pos + 24) len"
    if "(pos, len) \<in> set (place ?c p ?n)" for pos len
  proof -
    have "data_start q + pos = a \<or> data_start q + pos + 24 + len \<le> a + 16 \<or> a + 20 \<le> data_start q + pos"
    proof (cases ?c p ?n rule: place_cases)
      case skip
      with that show ?thesis by (simp add: assms(5) hd_chain_at)
    next
      case one
      with that show ?thesis by (simp add: assms(5) hd_chain_at)
    next
      case two
      from that have "(pos, len) \<in> set [(p, ?c - p - 24), (0, ?n - (?c - p - 24))]"
        by (simp only: two(3))
      then have "pos = p \<or> (pos = 0 \<and> len = ?n - (?c - p - 24))" by auto
      then show ?thesis
      proof
        assume l: "pos = 0 \<and> len = ?n - (?c - p - 24)"
        then have "24 + len \<le> p" using two assms(2,3) by linarith
        moreover have "a = data_start q + p" using two(3) by (simp add: assms(5) hd_chain_at)
        ultimately show ?thesis using l by linarith
      qed (use two in \<open>simp add: assms(5) hd_chain_at\<close>)
    qed
    then show ?thesis by (intro conjI keep) auto
  qed
  have "laid_out m q p (snd x)" using assms(1) by (simp add: stored_def)
  from laid_out_frame [OF this assms(6)] blocks have "laid_out m' q p (snd x)" by blast
  moreover have "msg_tag m' a = msg_tag m a"
    unfolding msg_tag_def by (intro load32_unchanged keep) simp
  ultimately show ?thesis using assms(1,5,6) by (simp add: stored_def)
qed

lemma counter_write:
  assumes rs: "ring_state m q xs" and i: "i < length xs" and a: "a = addr_at m q xs i"
    and w: "only_changes m m' {a + 16..<a + 20}"
  shows "ring_state m' q xs" "unchanged m m' (base_ptr q) 24"
    "{a + 16..<a + 20} \<subseteq> {data_start q..<data_start q + cap_of m q}"
proof -
  let ?c = "cap_of m q" and ?h = "head_of m q" and ?p = "pos_at m q xs i" and ?x = "xs ! i"
  let ?n = "length (snd ?x)" and ?ys = "take i xs" and ?zs = "drop (Suc i) xs"
  let ?s = "span ?c ?p ?n"
  have h: "?h < ?c" and u: "used ?c ?h xs \<le> ?c" and r: "ring m q ?h xs"
    using rs by (simp_all add: ring_state_def header_ok_def)
  have p: "?p < ?c" by (rule pos_at_less [OF rs])
  note st = stored_at [OF rs i]
  have split: "xs = ?ys @ ?x # ?zs" using i by (simp add: id_take_nth_drop [symmetric])
  have u': "used ?c ?h ?ys + (?s + used ?c (after ?c ?p ?x) ?zs) \<le> ?c"
    using used_split [OF i h] u by (simp add: pos_at_def)
  have part: "{fst (hd (place ?c ?p ?n))..<fst (hd (place ?c ?p ?n)) + 24} \<subseteq> arc ?c ?p ?s"
    by (rule hd_place_arc [OF p st(2)])
  have apos: "a = data_start q + fst (hd (place ?c ?p ?n))" by (simp add: a addr_at_def hd_chain_at)
  show inside: "{a + 16..<a + 20} \<subseteq> {data_start q..<data_start q + ?c}"
  proof -
    have "{fst (hd (place ?c ?p ?n))..<fst (hd (place ?c ?p ?n)) + 24} \<subseteq> {0..<?c}"
      using part arc_below [OF p st(2)] by (rule subset_trans)
    then show ?thesis by (auto simp: apos)
  qed
  show hdr: "unchanged m m' (base_ptr q) 24"
    by (rule only_changes_unchanged [OF w]) (use inside in force)
  note f = header_unchanged [OF hdr]
  have away: "same_cells m m' q A" if "A \<inter> arc ?c ?p ?s = {}" for A
  proof (rule same_cells_outside [OF w])
    fix j assume "j \<in> A"
    then have "j \<notin> {fst (hd (place ?c ?p ?n))..<fst (hd (place ?c ?p ?n)) + 24}"
      using that part by blast
    then show "data_start q + j \<notin> {a + 16..<a + 20}" by (auto simp: apos)
  qed
  have r': "ring m q ?h ?ys" "ring m q (after ?c ?p ?x) ?zs"
    using r h by (subst (asm) split, simp add: ring_append pos_at_def)+
  have "arc ?c ?h (used ?c ?h ?ys) \<inter> arc ?c ?p ?s = {}"
    using arc_disjoint [OF h, of "used ?c ?h ?ys" ?s] u' by (simp add: pos_at_def)
  then have 1: "ring m' q ?h ?ys"
    using ring_frame [OF r'(1) _ h _ away] f u' by simp
  have aft: "after ?c ?p ?x < ?c" using p by (intro after_less) simp
  have "arc ?c (after ?c ?p ?x) (used ?c (after ?c ?p ?x) ?zs) \<inter> arc ?c ?p ?s = {}"
    using arc_disjoint [OF p, of ?s "used ?c (after ?c ?p ?x) ?zs"] u' by (auto simp: after_def)
  then have 3: "ring m' q (after ?c ?p ?x) ?zs"
    using ring_frame [OF r'(2) _ aft _ away] f u' by simp
  have 2: "stored m' q ?p ?x"
    by (rule stored_counter [OF st(1) p st(2) w]) (simp_all add: a addr_at_def f)
  have "ring m' q ?h (?ys @ ?x # ?zs)"
    using 1 2 3 h f by (simp add: ring_append pos_at_def)
  then have "ring m' q ?h xs" using split by simp
  then show "ring_state m' q xs"
    using rs by (simp add: ring_state_def header_ok_def f)
qed

text \<open>The head moves behind the first message.\<close>

lemma advance_head:
  assumes rs: "ring_state m q (x # xs)" and pos: "unat pos mod cap_of m q = after (cap_of m q) (head_of m q) x"
    and c: "unat c = length xs"
  obtains m2 m3 where "set_base_head m q pos = returns m2" "m3 = set_base_count m2 q c"
    "base_count m2 q = base_count m q" "ring_state m3 q xs" "cap_of m3 q = cap_of m q"
    "head_of m3 q = after (cap_of m q) (head_of m q) x"
    "only_changes m m3 {base_ptr q + 12..<base_ptr q + 20}"
proof -
  let ?c = "cap_of m q" and ?h = "head_of m q"
  let ?h' = "after ?c ?h x"
  let ?u = "used ?c ?h' xs" and ?s = "span ?c ?h (length (snd x))"
  have lt: "?h < ?c" "tail_of m q < ?c" and u: "?s + ?u \<le> ?c" and rng: "ring m q ?h' xs"
    and tail: "tail_of m q = (?h + (?s + ?u)) mod ?c"
    using rs by (simp_all add: ring_state_def header_ok_def)
  have h': "?h' < ?c" using lt(1) by (intro after_less) simp
  have cpos: "0 < ?c" using lt(1) by simp
  obtain m2 where m2: "set_base_head m q pos = returns m2"
    "only_changes m m2 {base_ptr q + 16..<base_ptr q + 20}" "head_of m2 q = unat pos mod ?c"
    by (rule set_base_head_returns [OF cpos])
  note f2 = field_unchanged [OF m2(2)]
  have fields2: "cap_of m2 q = ?c" "tail_of m2 q = tail_of m q" "head_of m2 q = ?h'"
    "base_count m2 q = base_count m q"
    using f2 [where k = 4 and q = q] f2 [where k = 20 and q = q] f2 [where k = 12 and q = q] m2(3) pos
    by (simp_all add: q_field_defs)
  define m3 where "m3 = set_base_count m2 q c"
  note w3 = set_base_count_changes [of m2 q c, folded m3_def]
  note f3 = field_unchanged [OF w3]
  have fields3: "cap_of m3 q = ?c" "tail_of m3 q = tail_of m q" "head_of m3 q = ?h'"
    using f3 [where k = 4 and q = q] f3 [where k = 20 and q = q] f3 [where k = 16 and q = q] fields2
    by (simp_all add: q_field_defs)
  have "length xs < 4294967296" using ring_state_bounds(3) [OF rs] by simp
  then have cnt3: "count_of m3 q = length xs"
    using c by (simp add: m3_def set_base_count_count)
  have kept: "same_cells m m3 q A" for A
    using header_write_data [OF m2(2), of q A] header_write_data [OF w3, of q A]
    by (auto intro: same_cells_trans)
  have "ring m3 q ?h' xs"
    by (rule ring_frame [OF rng fields3(1) h' _ kept]) (use u in simp)
  moreover have "tail_of m q = (?h' + ?u) mod ?c"
    by (simp add: tail after_def mod_add_left_eq add.assoc)
  ultimately have "ring_state m3 q xs"
    using cnt3 h' lt(2) u fields3 by (simp add: ring_state_def header_ok_def)
  moreover have "only_changes m m3 {base_ptr q + 12..<base_ptr q + 20}"
    by (rule only_changes_trans [OF m2(2) w3]) auto
  ultimately show thesis
    by (intro that [OF m2(1) m3_def]) (simp_all add: fields2 fields3)
qed

text \<open>What a caller of \<open>get\<close> can read from the message it gets.\<close>

definition read_message :: "memory \<Rightarrow> pmessage \<Rightarrow> message option" where
  "read_message m ps = (if ps = [] then None else Some (msg_tag m (hd ps), fst (unpack m ps)))"

lemma read_stored:
  assumes "stored m q p x"
  shows "read_message m (chain_at q (cap_of m q) p (length (snd x))) = Some x"
  using assms by (cases x) (simp add: read_message_def stored_def laid_out_def Let_def)

section \<open>Dropping the first message\<close>

text \<open>The ring without its first message, after a write to that message and a new head.\<close>

lemma drop_message:
  assumes rs: "ring_state m q (x # xs)" and at: "atomic_spec (atomics E)"
    and a: "a = hd (chain_at q (cap_of m q) (head_of m q) (length (snd x)))"
    and pos: "unat pos mod cap_of m q = after (cap_of m q) (head_of m q) x"
  obtains m2 m3 where "set_base_head (snd (msg_dec_counter E m a)) q pos = returns m2"
    "m3 = set_base_count m2 q (base_count m2 q - 1)" "ring_state m3 q xs"
    "cap_of m3 q = cap_of m q" "head_of m3 q = after (cap_of m q) (head_of m q) x"
    "only_changes m m3 (segment m q)" "keepalive_timeout m3 q = keepalive_timeout m q"
proof -
  define m1 where "m1 = snd (msg_dec_counter E m a)"
  have w1: "only_changes m m1 {a + 16..<a + 20}"
    by (simp add: m1_def msg_dec_counter_def atomic_specD [OF at] only_changes_store32)
  have "head_of m q < cap_of m q" using rs by (simp add: ring_state_def header_ok_def)
  then have a0: "a = addr_at m q (x # xs) 0" by (simp add: a addr_at_def pos_at_def)
  note cw = counter_write [OF rs _ a0 w1, simplified]
  note f1 = header_unchanged [OF cw(2)]
  have cnt: "unat (base_count m1 q - 1) = length xs"
    using rs by (simp add: f1 ring_state_def unat_sub word_le_nat_alt)
  have pos1: "unat pos mod cap_of m1 q = after (cap_of m1 q) (head_of m1 q) x"
    using pos by (simp add: f1)
  obtain m2 m3 where d: "set_base_head m1 q pos = returns m2"
    "m3 = set_base_count m2 q (base_count m1 q - 1)" "base_count m2 q = base_count m1 q"
    "ring_state m3 q xs" "cap_of m3 q = cap_of m1 q"
    "head_of m3 q = after (cap_of m1 q) (head_of m1 q) x"
    "only_changes m1 m3 {base_ptr q + 12..<base_ptr q + 20}"
    by (rule advance_head [OF cw(1) pos1 cnt])
  show thesis
  proof (rule that [of m2 m3])
    show "m3 = set_base_count m2 q (base_count m2 q - 1)" using d(2,3) by simp
    show "only_changes m m3 (segment m q)"
      by (rule only_changes_trans [OF w1 d(7)]) (use cw(3) in \<open>auto simp: segment_def\<close>)
    show "keepalive_timeout m3 q = keepalive_timeout m q"
      using field_unchanged [OF d(7), where k = 8 and q = q] f1(5)
      by (simp add: keepalive_timeout_def)
  qed (use d f1 in \<open>simp_all add: m1_def\<close>)
qed

section \<open>Creation\<close>

lemma clear_returns:
  assumes "0 < cap_of m q"
  obtains m' where "clear m q = returns m'" "head_of m' q = 0" "tail_of m' q = 0"
    "count_of m' q = 0" "cap_of m' q = cap_of m q" "keepalive_timeout m' q = keepalive_timeout m q"
    "only_changes m m' {base_ptr q + 12..<base_ptr q + 24}"
proof -
  obtain m1 where 1: "set_base_head m q 0 = returns m1"
    "only_changes m m1 {base_ptr q + 16..<base_ptr q + 20}" "head_of m1 q = 0"
    by (rule set_base_head_returns [OF assms, where pos = 0]) simp
  note f1 = field_unchanged [OF 1(2)]
  have c1: "cap_of m1 q = cap_of m q" "keepalive_timeout m1 q = keepalive_timeout m q"
    using f1 [where k = 4 and q = q] f1 [where k = 8 and q = q] by (simp_all add: q_field_defs)
  then have pos1: "0 < cap_of m1 q" using assms by simp
  obtain m2 where 2: "set_tail m1 q 0 = returns m2"
    "only_changes m1 m2 {base_ptr q + 20..<base_ptr q + 24}" "tail_of m2 q = 0"
    by (rule set_tail_returns [OF pos1, where pos = 0]) simp
  note f2 = field_unchanged [OF 2(2)]
  have c2: "cap_of m2 q = cap_of m q" "head_of m2 q = 0"
    "keepalive_timeout m2 q = keepalive_timeout m q"
    using f2 [where k = 4 and q = q] f2 [where k = 16 and q = q] f2 [where k = 8 and q = q] c1 1(3)
    by (simp_all add: q_field_defs)
  define m3 where "m3 = set_base_count m2 q 0"
  note w3 = set_base_count_changes [of m2 q 0, folded m3_def]
  note f3 = field_unchanged [OF w3]
  show thesis
  proof (rule that [of m3])
    show "clear m q = returns m3" by (simp add: clear_def 1(1) 2(1) m3_def)
    show "count_of m3 q = 0" unfolding m3_def by (subst set_base_count_count) simp_all
    show "only_changes m m3 {base_ptr q + 12..<base_ptr q + 24}"
      by (rule only_changes_trans3 [OF 1(2) 2(2) w3]) auto
  qed (use f3 [where k = 4 and q = q] f3 [where k = 16 and q = q] f3 [where k = 20 and q = q]
      f3 [where k = 8 and q = q] c2 2(3) in \<open>simp_all add: q_field_defs\<close>)
qed

lemma base_create_returns:
  assumes "0 < unat cpct" and "unat cpct < 4294967296"
  obtains m' where "base_create m q qid cpct = returns m'" "head_of m' q = 0" "tail_of m' q = 0"
    "count_of m' q = 0" "cap_of m' q = unat cpct" "keepalive_timeout m' q = 0" "q_id m' q = qid"
    "only_changes m m' {base_ptr q..<base_ptr q + 24}"
proof -
  define m1 where "m1 = set_keepalive_timeout (q_set_capacity (q_set_id m q qid) q cpct) q 0"
  have cap: "cap_of m1 q = unat cpct" and ka: "keepalive_timeout m1 q = 0" and i: "q_id m1 q = qid"
    using assms by (simp_all add: m1_def q_field_defs memory_simps unat_ucast_64_32)
  have w1: "only_changes m m1 {base_ptr q..<base_ptr q + 12}"
    unfolding m1_def q_field_defs
    by (rule only_changes_trans3 [OF only_changes_store32 only_changes_store32 only_changes_store32])
      auto
  have pos: "0 < cap_of m1 q" using cap assms by simp
  obtain m2 where 2: "clear m1 q = returns m2" "head_of m2 q = 0" "tail_of m2 q = 0"
    "count_of m2 q = 0" "cap_of m2 q = cap_of m1 q"
    "keepalive_timeout m2 q = keepalive_timeout m1 q"
    "only_changes m1 m2 {base_ptr q + 12..<base_ptr q + 24}"
    by (rule clear_returns [OF pos])
  show thesis
  proof (rule that [of m2])
    show "base_create m q qid cpct = returns m2"
      using 2(1) by (simp add: base_create_def m1_def)
    show "q_id m2 q = qid"
      using field_unchanged [OF 2(7), where k = 0 and q = q] i by (simp add: q_id_def)
    show "only_changes m m2 {base_ptr q..<base_ptr q + 24}"
      by (rule only_changes_trans [OF w1 2(7)]) auto
  qed (use 2 cap ka in simp_all)
qed

lemma ring_state_empty:
  "head_of m q = 0 \<Longrightarrow> tail_of m q = 0 \<Longrightarrow> count_of m q = 0 \<Longrightarrow> 0 < cap_of m q
    \<Longrightarrow> ring_state m q []"
  by (simp add: ring_state_def header_ok_def)

end
