(* ===== verification/Simple_Queue.thy ===== *)
theory Simple_Queue
  imports Ring_State
begin

text \<open>
  \<open>simple_queue\<close> is a FIFO queue of byte buffers: the invariant that ties the ring in memory
  to a list of messages, and the refinement of that list by push, get and pop.
\<close>

section \<open>Invariant\<close>

definition queue_inv :: "memory \<Rightarrow> queue \<Rightarrow> (tag_type \<times> u8 list) list \<Rightarrow> bool" where
  "queue_inv m q xs \<longleftrightarrow> class_of q = Simple_queue \<and> ring_state m q xs"

text \<open>The remembered message of \<open>get\<close> is none, or the one at the head.\<close>

definition desc_ok :: "memory \<Rightarrow> queue \<Rightarrow> (tag_type \<times> u8 list) list \<Rightarrow> bool" where
  "desc_ok m q xs \<longleftrightarrow> fst (m_message_desc q) = [] \<or>
     (xs \<noteq> [] \<and>
      fst (m_message_desc q) = chain_at q (cap_of m q) (head_of m q) (length (snd (hd xs))) \<and>
      unat (snd (m_message_desc q)) mod cap_of m q = after (cap_of m q) (head_of m q) (hd xs))"

lemma queue_inv_plain: "queue_inv m q xs \<Longrightarrow> plain_regions q"
  by (simp add: queue_inv_def plain_regions_def)

text \<open>Neither the ring nor the invariant looks at the remembered message.\<close>

lemma ring_desc: "ring m (q\<lparr>m_message_desc := d\<rparr>) p xs = ring m q p xs"
  by (induction xs arbitrary: p)
    (simp_all add: stored_def laid_out_def q_capacity_def chain_at_def)

lemma queue_inv_desc: "queue_inv m (q\<lparr>m_message_desc := d\<rparr>) xs = queue_inv m q xs"
  by (simp add: queue_inv_def ring_state_def ring_desc header_ok_def q_field_defs)

section \<open>The operations on the list of messages\<close>

lemma do_push_simple:
  "do_push E w q tag data =
     and_then (static_make_message E q w data) (\<lambda>((pmessage, pos), w2).
       if pmessage \<noteq> [] then
         and_then (set_tail (msg_set_tag (mem w2) (hd pmessage) tag) q pos) (\<lambda>m3.
           returns (True, w2\<lparr>mem := set_base_count m3 q (base_count m3 q + 1)\<rparr>, q))
       else returns (False, w2, q))"
  if "class_of q = Simple_queue"
  using that by (simp add: do_push_def clean_messages_def push_message_def)

lemma do_push_fits:
  assumes inv: "queue_inv (mem w) q xs" and live: "clock_live (clock E)" and ne: "data \<noteq> []"
    and room: "fits (cap_of (mem w) q) (head_of (mem w) q) xs data"
  obtains w' where "do_push E w q tag data = returns (True, w', q)"
    "queue_inv (mem w') q (xs @ [(tag, data)])" "head_of (mem w') q = head_of (mem w) q"
    "cap_of (mem w') q = cap_of (mem w) q" "only_changes (mem w) (mem w') (segment (mem w) q)"
    "keepalive_timeout (mem w') q = keepalive_timeout (mem w) q"
proof -
  let ?m = "mem w"
  let ?c = "cap_of ?m q" and ?h = "head_of ?m q" and ?t = "tail_of ?m q"
  have rs: "ring_state ?m q xs" and cls: "class_of q = Simple_queue"
    using inv by (simp_all add: queue_inv_def)
  have ok: "header_ok ?m q" using rs by (simp add: ring_state_def)
  have tail: "?t = (?h + used ?c ?h xs) mod ?c" using rs by (simp add: ring_state_def)
  have s: "used ?c ?h xs + span ?c ?t (length data) \<le> ?c"
    using room by (simp add: fits_def tail)
  have lt: "?t < ?c" using ok by (simp add: header_ok_def)
  let ?chain = "chain_at q ?c ?t (length data)"
  obtain w2 pos where made: "static_make_message E q w data = returns ((?chain, pos), w2)"
    "unat pos mod ?c = (?t + span ?c ?t (length data)) mod ?c"
    "laid_out (mem w2) q ?t data" "only_changes ?m (mem w2) (free_cells ?m q)"
    using static_make_fits [OF queue_inv_plain [OF inv] live ok ne ring_state_bounds(2) [OF rs]]
      room free_bytes_fits [OF rs] by metis
  note free = ring_state_free [OF rs made(4)]
  obtain m3 m4 where m: "set_tail (msg_set_tag (mem w2) (hd ?chain) tag) q pos = returns m3"
    "m4 = set_base_count m3 q (base_count m3 q + 1)"
    "ring_state m4 q (xs @ [(tag, data)])" "head_of m4 q = ?h" "cap_of m4 q = ?c"
    "only_changes (mem w2) m4 ({base_ptr q + 12..<base_ptr q + 16}
       \<union> {base_ptr q + 20..<base_ptr q + 24} \<union> {hd ?chain + 12..<hd ?chain + 16})"
    by (rule commit_message [OF rs s made(3) free(2,3) made(2) refl, where tag = tag])
  have part: "{fst (hd (place ?c ?t (length data)))..<fst (hd (place ?c ?t (length data))) + 24}
      \<subseteq> {0..<?c}"
    using hd_place_arc [OF lt, of "length data"] arc_below [OF lt, of "span ?c ?t (length data)"] s
    by (meson add_leD2 order_trans)
  have hd_in: "{hd ?chain + 12..<hd ?chain + 16} \<subseteq> {data_start q..<data_start q + ?c}"
    using part by (auto simp: hd_chain_at)
  show thesis
  proof (rule that)
    show "do_push E w q tag data = returns (True, w2\<lparr>mem := m4\<rparr>, q)"
      using m(1,2) by (simp add: do_push_simple [OF cls] made(1))
    show "queue_inv (mem (w2\<lparr>mem := m4\<rparr>)) q (xs @ [(tag, data)])"
      using m(3) cls by (simp add: queue_inv_def)
    show "only_changes ?m (mem (w2\<lparr>mem := m4\<rparr>)) (segment ?m q)"
      by (simp, rule only_changes_trans [OF made(4) m(6) free_cells_segment [OF ok]])
        (use hd_in in \<open>auto simp: segment_def\<close>)
    have "only_changes ?m m4 (free_cells ?m q \<union> ({base_ptr q + 12..<base_ptr q + 16}
       \<union> {base_ptr q + 20..<base_ptr q + 24} \<union> {hd ?chain + 12..<hd ?chain + 16}))"
      by (rule only_changes_trans [OF made(4) m(6)]) auto
    from field_unchanged [OF this, of q 8]
    show "keepalive_timeout (mem (w2\<lparr>mem := m4\<rparr>)) q = keepalive_timeout ?m q"
      using hd_in free_cells_inside [OF ok] by (force simp: keepalive_timeout_def)
  qed (simp_all add: m(4,5))
qed

lemma do_push_full:
  assumes inv: "queue_inv (mem w) q xs" and live: "clock_live (clock E)" and ne: "data \<noteq> []"
    and room: "\<not> fits (cap_of (mem w) q) (head_of (mem w) q) xs data"
  obtains w' where "do_push E w q tag data = returns (False, w', q)"
    "queue_inv (mem w') q xs" "only_changes (mem w) (mem w') (free_cells (mem w) q)"
    "unchanged (mem w) (mem w') (base_ptr q) 24"
proof -
  have rs: "ring_state (mem w) q xs" and cls: "class_of q = Simple_queue"
    using inv by (simp_all add: queue_inv_def)
  have ok: "header_ok (mem w) q" using rs by (simp add: ring_state_def)
  obtain w2 where made: "static_make_message E q w data = returns (null_desc, w2)"
    "only_changes (mem w) (mem w2) (free_cells (mem w) q)"
    using static_make_full [OF queue_inv_plain [OF inv] live ok ne] room free_bytes_fits [OF rs]
    by (metis not_le)
  show thesis
  proof (rule that)
    show "do_push E w q tag data = returns (False, w2, q)"
      by (simp add: do_push_simple [OF cls] made(1) null_desc_def)
    show "queue_inv (mem w2) q xs"
      using ring_state_free(1) [OF rs made(2)] cls by (simp add: queue_inv_def)
    show "unchanged (mem w) (mem w2) (base_ptr q) 24"
      by (rule ring_state_free(2) [OF rs made(2)])
  qed (rule made(2))
qed

text \<open>Getting and dropping the head.\<close>

lemma simple_not_empty:
  "queue_inv m q (x # xs) \<Longrightarrow> \<not> q_empty m q \<and> q_count m q > 0 \<and> q_head m q = base_head m q"
  by (auto simp: queue_inv_def ring_state_def q_empty_def q_count_def q_head_def word_gt_0)

lemma simple_empty: "queue_inv m q [] \<Longrightarrow> q_empty m q \<and> \<not> q_count m q > 0"
  by (auto simp: queue_inv_def ring_state_def q_empty_def q_count_def unat_eq_zero)

lemma get_message_simple:
  assumes inv: "queue_inv m q (x # xs)"
  obtains pos where
    "get_message E m q = returns ((chain_at q (cap_of m q) (head_of m q) (length (snd x)), pos), m, q)"
    "unat pos mod cap_of m q = after (cap_of m q) (head_of m q) x"
proof -
  have rs: "ring_state m q (x # xs)" and cls: "class_of q = Simple_queue"
    using inv by (simp_all add: queue_inv_def)
  have lt: "head_of m q < cap_of m q" using rs by (simp add: ring_state_def header_ok_def)
  note q = simple_not_empty [OF inv]
  have head: "unat (q_head m q) = head_of m q" using q by simp
  have laid: "laid_out m q (head_of m q) (snd x)"
    using stored_hd(1) [OF rs] by (simp add: stored_def)
  obtain pos where "static_get_message q m
      = returns (chain_at q (cap_of m q) (head_of m q) (length (snd x)), pos)"
    "unat pos mod cap_of m q = (head_of m q + span (cap_of m q) (head_of m q) (length (snd x))) mod cap_of m q"
    by (rule static_get_laid_out [OF head lt conjunct1 [OF q] laid span_le_used])
      (use rs in \<open>simp_all only: ring_state_def\<close>)
  then show thesis
    using that cls by (simp add: get_message_def after_def)
qed

lemma get_simple:
  assumes inv: "queue_inv m q (x # xs)"
  obtains q' pos where "get E m q = returns (chain_at q (cap_of m q) (head_of m q) (length (snd x)), m, q')"
    "q' = q\<lparr>m_message_desc := (chain_at q (cap_of m q) (head_of m q) (length (snd x)), pos)\<rparr>"
    "desc_ok m q' (x # xs)"
proof -
  obtain pos where g:
    "get_message E m q = returns ((chain_at q (cap_of m q) (head_of m q) (length (snd x)), pos), m, q)"
    "unat pos mod cap_of m q = after (cap_of m q) (head_of m q) x"
    by (rule get_message_simple [OF inv])
  show thesis
    by (rule that [OF _ refl, of pos])
      (use g simple_not_empty [OF inv] in
        \<open>simp_all add: get_def desc_ok_def q_capacity_def base_head_def chain_at_def\<close>)
qed

lemma pop_message_simple:
  assumes inv: "queue_inv m q (x # xs)" and at: "atomic_spec (atomics E)"
    and ch: "chain = chain_at q (cap_of m q) (head_of m q) (length (snd x))"
    and pos: "unat pos mod cap_of m q = after (cap_of m q) (head_of m q) x"
  obtains m' where "pop_message E m q (chain, pos) = returns (m', q)" "queue_inv m' q xs"
    "cap_of m' q = cap_of m q" "head_of m' q = after (cap_of m q) (head_of m q) x"
    "only_changes m m' (segment m q)" "keepalive_timeout m' q = keepalive_timeout m q"
proof -
  have rs: "ring_state m q (x # xs)" and cls: "class_of q = Simple_queue"
    using inv by (simp_all add: queue_inv_def)
  obtain m2 m3 where d: "set_base_head (snd (msg_dec_counter E m (hd chain))) q pos = returns m2"
    "m3 = set_base_count m2 q (base_count m2 q - 1)" "ring_state m3 q xs"
    "cap_of m3 q = cap_of m q" "head_of m3 q = after (cap_of m q) (head_of m q) x"
    "only_changes m m3 (segment m q)" "keepalive_timeout m3 q = keepalive_timeout m q"
    by (rule drop_message [OF rs at _ pos]) (simp_all add: ch)
  show thesis
    by (rule that [of m3]) (use d cls ch in \<open>simp_all add: pop_message_def simple_pop_message_def
      queue_inv_def case_prod_beta\<close>)
qed

lemma pop_simple:
  assumes inv: "queue_inv m q (x # xs)" and desc: "desc_ok m q (x # xs)"
    and at: "atomic_spec (atomics E)"
  obtains m' q' pos where "pop E m q = returns (True, m', q')"
    "q' = q\<lparr>m_message_desc := ([], pos)\<rparr>" "queue_inv m' q' xs" "cap_of m' q = cap_of m q"
    "head_of m' q = after (cap_of m q) (head_of m q) x" "only_changes m m' (segment m q)"
    "keepalive_timeout m' q = keepalive_timeout m q"
proof -
  let ?chain = "chain_at q (cap_of m q) (head_of m q) (length (snd x))"
  obtain pos where pos: "unat pos mod cap_of m q = after (cap_of m q) (head_of m q) x"
    and found: "(if fst (m_message_desc q) = [] then
             and_then (get_message E m q) (\<lambda>(desc, m1, q1).
               returns (m1, q1\<lparr>m_message_desc := desc\<rparr>))
           else returns (m, q)) = returns (m, q\<lparr>m_message_desc := (?chain, pos)\<rparr>)"
  proof (cases "fst (m_message_desc q) = []")
    case True
    obtain p where g: "get_message E m q = returns ((?chain, p), m, q)"
      "unat p mod cap_of m q = after (cap_of m q) (head_of m q) x"
      by (rule get_message_simple [OF inv])
    show thesis by (rule that [OF g(2)]) (simp add: True g(1))
  next
    case False
    with desc have d: "fst (m_message_desc q) = ?chain"
      "unat (snd (m_message_desc q)) mod cap_of m q = after (cap_of m q) (head_of m q) x"
      by (simp_all add: desc_ok_def)
    show thesis by (rule that [OF d(2)]) (use False in \<open>simp add: d(1) [symmetric]\<close>)
  qed
  define q1 where "q1 = q\<lparr>m_message_desc := (?chain, pos)\<rparr>"
  have same: "base_ptr q1 = base_ptr q" "class_of q1 = class_of q" by (simp_all add: q1_def)
  have cong: "queue_inv n (q\<lparr>m_message_desc := d\<rparr>) ys = queue_inv n q ys" for n d ys
    by (rule queue_inv_desc)
  obtain m' where p: "pop_message E m q1 (?chain, pos) = returns (m', q1)" "queue_inv m' q1 xs"
    "cap_of m' q1 = cap_of m q1" "head_of m' q1 = after (cap_of m q1) (head_of m q1) x"
    "only_changes m m' (segment m q1)" "keepalive_timeout m' q1 = keepalive_timeout m q1"
    by (rule pop_message_simple [where m = m and q = q1 and x = x and xs = xs and E = E
      and pos = pos and chain = ?chain])
      (use inv at pos in \<open>simp_all add: q1_def cong q_capacity_def base_head_def chain_at_def\<close>)
  show thesis
  proof (rule that)
    show "pop E m q = returns (True, m', q\<lparr>m_message_desc := ([], pos)\<rparr>)"
      using p(1) simple_not_empty [OF inv] unfolding pop_def found
      by (simp add: q1_def)
  qed (use p in \<open>simp_all add: q1_def cong q_capacity_def base_head_def segment_def
      keepalive_timeout_def\<close>)
qed

section \<open>Creation\<close>

lemma simple_create_returns:
  assumes "0 < unat cpct" and "unat cpct < 4294967296"
  obtains m' q where "simple_create m qid ptr cpct = returns (m', q)" "q = simple_open ptr"
    "queue_inv m' q []" "cap_of m' q = unat cpct" "head_of m' q = 0"
    "keepalive_timeout m' q = 0" "q_id m' q = qid" "only_changes m m' {ptr..<ptr + 24}"
proof -
  define q where "q = simple_open ptr"
  have q: "base_ptr q = ptr" "class_of q = Simple_queue"
    by (simp_all add: q_def simple_open_def fresh_object_def)
  obtain m' where c: "base_create m q qid cpct = returns m'" "head_of m' q = 0" "tail_of m' q = 0"
    "count_of m' q = 0" "cap_of m' q = unat cpct" "keepalive_timeout m' q = 0" "q_id m' q = qid"
    "only_changes m m' {base_ptr q..<base_ptr q + 24}"
    by (rule base_create_returns [OF assms])
  show thesis
    by (rule that [of m' q])
      (use c q assms ring_state_empty [OF c(2-4)] in \<open>simp_all add: simple_create_def q_def
        queue_inv_def Let_def\<close>)
qed

section \<open>Pushing with eviction\<close>

text \<open>
  The whole \<open>push\<close>: it returns; the oldest messages may have been dropped, and none when
  the message fits at once or the queue keeps its messages for ever.
\<close>

lemma evict_loop_returns:
  assumes "queue_inv (mem w) q xs" and "env_ok E" and "data \<noteq> []"
  shows "\<exists>b w' k. evict_loop E w q tag data limit = returns (b, w', q) \<and> k \<le> length xs
    \<and> queue_inv (mem w') q (drop k xs @ (if b then [(tag, data)] else []))
    \<and> cap_of (mem w') q = cap_of (mem w) q \<and> only_changes (mem w) (mem w') (segment (mem w) q)"
  using assms(1)
proof (induction xs arbitrary: w)
  case Nil
  then have "evict_loop E w q tag data limit = returns (False, w, q)"
    using simple_empty [OF Nil] by (subst evict_loop.simps) simp
  with Nil show ?case by auto
next
  case (Cons x xs)
  have live: "clock_live (clock E)" and at: "atomic_spec (atomics E)"
    using assms(2) by (simp_all add: env_ok_def)
  let ?chain = "chain_at q (cap_of (mem w) q) (head_of (mem w) q) (length (snd x))"
  note ne = simple_not_empty [OF Cons.prems]
  obtain pos where g: "get_message E (mem w) q = returns ((?chain, pos), mem w, q)"
    "unat pos mod cap_of (mem w) q = after (cap_of (mem w) q) (head_of (mem w) q) x"
    by (rule get_message_simple [OF Cons.prems])
  show ?case
  proof (cases "msg_timestamp (mem w) (hd ?chain) > limit")
    case True
    then have "evict_loop E w q tag data limit = returns (False, w, q)"
      using ne g(1) by (subst evict_loop.simps) simp
    with Cons.prems show ?thesis by (intro exI [of _ False] exI [of _ w] exI [of _ 0]) auto
  next
    case young: False
    obtain m' where p: "pop_message E (mem w) q (?chain, pos) = returns (m', q)" "queue_inv m' q xs"
      "cap_of m' q = cap_of (mem w) q" "only_changes (mem w) m' (segment (mem w) q)"
      by (rule pop_message_simple [OF Cons.prems at refl g(2)])
    define w1 where "w1 = w\<lparr>mem := m'\<rparr>"
    have loop: "evict_loop E w q tag data limit
        = and_then (do_push E w1 q tag data) (\<lambda>(pushed, w3, q3).
               if pushed then returns (True, w3, q3) else evict_loop E w3 q3 tag data limit)"
      using ne g(1) young p(1) by (subst evict_loop.simps) (simp add: w1_def)
    have inv1: "queue_inv (mem w1) q xs" using p(2) by (simp add: w1_def)
    have seg: "segment m' q = segment (mem w) q" using p(3) by (simp add: segment_def)
    show ?thesis
    proof (cases "fits (cap_of (mem w1) q) (head_of (mem w1) q) xs data")
      case True
      obtain w' where d: "do_push E w1 q tag data = returns (True, w', q)"
        "queue_inv (mem w') q (xs @ [(tag, data)])" "cap_of (mem w') q = cap_of (mem w1) q"
        "only_changes (mem w1) (mem w') (segment (mem w1) q)"
        by (rule do_push_fits [OF inv1 live assms(3) True])
      then have "evict_loop E w q tag data limit = returns (True, w', q)"
        and "only_changes (mem w) (mem w') (segment (mem w) q)"
        using loop only_changes_trans [OF p(4)] seg by (auto simp: w1_def)
      then show ?thesis
        using d p(3) by (intro exI [of _ True] exI [of _ w'] exI [of _ "Suc 0"]) (simp add: w1_def)
    next
      case False
      obtain w2 where d: "do_push E w1 q tag data = returns (False, w2, q)"
        "queue_inv (mem w2) q xs" "only_changes (mem w1) (mem w2) (free_cells (mem w1) q)"
        "unchanged (mem w1) (mem w2) (base_ptr q) 24"
        by (rule do_push_full [OF inv1 live assms(3) False])
      have cap2: "cap_of (mem w2) q = cap_of (mem w) q"
        using header_unchanged(1) [OF d(4)] p(3) by (simp add: w1_def)
      then have seg2: "segment (mem w2) q = segment (mem w) q" by (simp add: segment_def)
      obtain b w' k where IH: "evict_loop E w2 q tag data limit = returns (b, w', q)"
        "k \<le> length xs" "queue_inv (mem w') q (drop k xs @ (if b then [(tag, data)] else []))"
        "cap_of (mem w') q = cap_of (mem w2) q"
        "only_changes (mem w2) (mem w') (segment (mem w2) q)"
        using Cons.IH [OF d(2)] by blast
      have "header_ok (mem w1) q" using inv1 by (simp add: queue_inv_def ring_state_def)
      then have "only_changes (mem w) (mem w') (segment (mem w) q)"
        using only_changes_trans3 [OF p(4) d(3) [unfolded w1_def, simplified] IH(5)]
          free_cells_segment [of "mem w1" q] seg seg2
        by (simp add: w1_def)
      then show ?thesis
        using loop d(1) IH cap2
        by (intro exI [of _ b] exI [of _ w'] exI [of _ "Suc k"]) (simp add: w1_def)
    qed
  qed
qed

lemma push_now:
  "do_push E w q tag data = returns (True, w', q) \<Longrightarrow> push E w q tag data = returns (True, w', q)"
  by (simp add: push_def)

lemma push_full_keep:
  assumes "do_push E w q tag data = returns (False, w', q)" and "keepalive_timeout (mem w') q = 0"
  shows "push E w q tag data = returns (False, w', q)"
  using assms by (simp add: push_def)

lemma push_returns:
  assumes inv: "queue_inv (mem w) q xs" and E: "env_ok E" and ne: "data \<noteq> []"
  shows "\<exists>b w' k. push E w q tag data = returns (b, w', q) \<and> k \<le> length xs
    \<and> queue_inv (mem w') q (drop k xs @ (if b then [(tag, data)] else []))
    \<and> only_changes (mem w) (mem w') (segment (mem w) q)"
proof -
  have live: "clock_live (clock E)" using E by (simp add: env_ok_def)
  show ?thesis
  proof (cases "fits (cap_of (mem w) q) (head_of (mem w) q) xs data")
    case True
    obtain w' where "do_push E w q tag data = returns (True, w', q)"
      "queue_inv (mem w') q (xs @ [(tag, data)])" "only_changes (mem w) (mem w') (segment (mem w) q)"
      by (rule do_push_fits [OF inv live ne True])
    then show ?thesis
      by (intro exI [of _ True] exI [of _ w'] exI [of _ 0]) (simp add: push_now)
  next
    case False
    obtain w' where d: "do_push E w q tag data = returns (False, w', q)"
      "queue_inv (mem w') q xs" "only_changes (mem w) (mem w') (free_cells (mem w) q)"
      "unchanged (mem w) (mem w') (base_ptr q) 24"
      by (rule do_push_full [OF inv live ne False])
    have "header_ok (mem w) q" using inv by (simp add: queue_inv_def ring_state_def)
    then have seg: "only_changes (mem w) (mem w') (segment (mem w) q)"
      using only_changes_mono [OF d(3) free_cells_segment] by simp
    have same: "segment (mem w') q = segment (mem w) q"
      using header_unchanged(1) [OF d(4)] by (simp add: segment_def)
    show ?thesis
    proof (cases "keepalive_timeout (mem w') q = 0")
      case True
      then show ?thesis using d seg push_full_keep [OF d(1)]
        by (intro exI [of _ False] exI [of _ w'] exI [of _ 0]) simp
    next
      case False
      obtain ts i where t: "get_timestamp E w' = returns (of_int (tv_sec ts), w'\<lparr>readings := i\<rparr>)"
        by (rule get_timestamp_live [OF live]) blast
      let ?w1 = "w'\<lparr>readings := i\<rparr>"
      let ?limit = "of_int (tv_sec ts) - keepalive_timeout (mem w') q"
      have inv1: "queue_inv (mem ?w1) q xs" using d(2) by simp
      obtain b w2 k where e: "evict_loop E ?w1 q tag data ?limit = returns (b, w2, q)"
        "k \<le> length xs" "queue_inv (mem w2) q (drop k xs @ (if b then [(tag, data)] else []))"
        "only_changes (mem ?w1) (mem w2) (segment (mem ?w1) q)"
        using evict_loop_returns [OF inv1 E ne, of tag ?limit] by blast
      have "push E w q tag data = returns (b, w2, q)"
        using False by (simp add: push_def d(1) t e(1) Let_def word_gt_0)
      moreover have "only_changes (mem w) (mem w2) (segment (mem w) q)"
        by (rule only_changes_trans [OF seg e(4) [simplified]]) (simp_all add: same)
      ultimately show ?thesis using e by blast
    qed
  qed
qed

section \<open>The queue as a bounded FIFO\<close>

text \<open>The operations on a state that holds the world and the queue object.\<close>

definition queue_enq :: "env \<Rightarrow> message \<Rightarrow> world \<times> queue \<Rightarrow> (bool \<times> world \<times> queue) run" where
  "queue_enq E x s = push E (fst s) (snd s) (fst x) (snd x)"

definition queue_front :: "env \<Rightarrow> world \<times> queue \<Rightarrow> (message option \<times> world \<times> queue) run" where
  "queue_front E s =
     and_then (get E (mem (fst s)) (snd s)) (\<lambda>(ps, m1, q1).
       returns (read_message m1 ps, (fst s)\<lparr>mem := m1\<rparr>, q1))"

definition queue_deq :: "env \<Rightarrow> world \<times> queue \<Rightarrow> (bool \<times> world \<times> queue) run" where
  "queue_deq E s =
     and_then (pop E (mem (fst s)) (snd s)) (\<lambda>(b, m1, q1). returns (b, (fst s)\<lparr>mem := m1\<rparr>, q1))"

definition queue_holds :: "env \<Rightarrow> world \<times> queue \<Rightarrow> fifo \<Rightarrow> bool" where
  "queue_holds E s f \<longleftrightarrow> env_ok E \<and> keepalive_timeout (mem (fst s)) (snd s) = 0
     \<and> queue_inv (mem (fst s)) (snd s) (fifo_msgs f) \<and> desc_ok (mem (fst s)) (snd s) (fifo_msgs f)
     \<and> cap_of (mem (fst s)) (snd s) = fifo_cap f \<and> head_of (mem (fst s)) (snd s) = fifo_pos f"

lemma desc_ok_append:
  assumes "desc_ok m q xs" and "cap_of m' q = cap_of m q" and "head_of m' q = head_of m q"
  shows "desc_ok m' q (xs @ ys)"
  using assms by (cases xs) (auto simp: desc_ok_def)

lemma queue_enq_law:
  assumes h: "queue_holds E s f" and ne: "snd x \<noteq> []"
  shows "\<exists>s'. queue_enq E x s = returns (fst (fifo_push x f), s')
    \<and> queue_holds E s' (snd (fifo_push x f))"
proof -
  obtain w q where s: "s = (w, q)" by fastforce
  note h' = h [unfolded queue_holds_def s, simplified]
  have live: "clock_live (clock E)" and inv: "queue_inv (mem w) q (fifo_msgs f)"
    using h' by (simp_all add: env_ok_def)
  show ?thesis
  proof (cases "fits (fifo_cap f) (fifo_pos f) (fifo_msgs f) (snd x)")
    case True
    then have room: "fits (cap_of (mem w) q) (head_of (mem w) q) (fifo_msgs f) (snd x)"
      using h' by simp
    obtain w' where d: "do_push E w q (fst x) (snd x) = returns (True, w', q)"
      "queue_inv (mem w') q (fifo_msgs f @ [(fst x, snd x)])" "head_of (mem w') q = head_of (mem w) q"
      "cap_of (mem w') q = cap_of (mem w) q" "keepalive_timeout (mem w') q = keepalive_timeout (mem w) q"
      by (rule do_push_fits [OF inv live ne room])
    show ?thesis
      using True h' d push_now [OF d(1)] desc_ok_append [OF _ d(4,3)]
      by (simp add: s queue_enq_def fifo_push_def queue_holds_def)
  next
    case False
    then have room: "\<not> fits (cap_of (mem w) q) (head_of (mem w) q) (fifo_msgs f) (snd x)"
      using h' by simp
    obtain w' where d: "do_push E w q (fst x) (snd x) = returns (False, w', q)"
      "queue_inv (mem w') q (fifo_msgs f)" "unchanged (mem w) (mem w') (base_ptr q) 24"
      by (rule do_push_full [OF inv live ne room])
    note same = header_unchanged [OF d(3)]
    have "desc_ok (mem w') q (fifo_msgs f)"
      using desc_ok_append [of "mem w" q "fifo_msgs f" "mem w'" "[]"] h' same by simp
    then show ?thesis
      using False h' d same push_full_keep [OF d(1)]
      by (simp add: s queue_enq_def fifo_push_def queue_holds_def)
  qed
qed

lemma queue_front_law:
  assumes h: "queue_holds E s f"
  shows "\<exists>s'. queue_front E s = returns (fifo_get f, s') \<and> queue_holds E s' f"
proof -
  obtain w q where s: "s = (w, q)" by fastforce
  note h' = h [unfolded queue_holds_def s, simplified]
  show ?thesis
  proof (cases "fifo_msgs f")
    case Nil
    then have "\<not> q_count (mem w) q > 0" using h' simple_empty [of "mem w" q] by simp
    with Nil h show ?thesis
      by (simp add: s queue_front_def get_def fifo_get_def read_message_def)
  next
    case (Cons x xs)
    with h' have inv: "queue_inv (mem w) q (x # xs)" by simp
    obtain q' pos where g: "get E (mem w) q
        = returns (chain_at q (cap_of (mem w) q) (head_of (mem w) q) (length (snd x)), mem w, q')"
      "q' = q\<lparr>m_message_desc := (chain_at q (cap_of (mem w) q) (head_of (mem w) q) (length (snd x)), pos)\<rparr>"
      "desc_ok (mem w) q' (x # xs)"
      by (rule get_simple [OF inv])
    have "stored (mem w) q (head_of (mem w) q) x"
      using stored_hd(1) [of "mem w" q x xs] inv by (simp add: queue_inv_def)
    from read_stored [OF this] show ?thesis
      using g h' Cons
      by (auto simp: s queue_front_def fifo_get_def queue_holds_def queue_inv_desc q_field_defs)
  qed
qed

lemma queue_deq_law:
  assumes h: "queue_holds E s f"
  shows "\<exists>s'. queue_deq E s = returns (fst (fifo_pop f), s') \<and> queue_holds E s' (snd (fifo_pop f))"
proof -
  obtain w q where s: "s = (w, q)" by fastforce
  note h' = h [unfolded queue_holds_def s, simplified]
  show ?thesis
  proof (cases "fifo_msgs f")
    case Nil
    then have "\<not> q_count (mem w) q > 0" using h' simple_empty [of "mem w" q] by simp
    with Nil h show ?thesis
      by (simp add: s queue_deq_def pop_def fifo_pop_def)
  next
    case (Cons x xs)
    with h' have inv: "queue_inv (mem w) q (x # xs)" and d: "desc_ok (mem w) q (x # xs)"
      and at: "atomic_spec (atomics E)"
      by (simp_all add: env_ok_def)
    obtain m' q' pos where p: "pop E (mem w) q = returns (True, m', q')"
      "q' = q\<lparr>m_message_desc := ([], pos)\<rparr>" "queue_inv m' q' xs" "cap_of m' q = cap_of (mem w) q"
      "head_of m' q = after (cap_of (mem w) q) (head_of (mem w) q) x"
      "keepalive_timeout m' q = keepalive_timeout (mem w) q"
      by (rule pop_simple [OF inv d at])
    show ?thesis
      using p h' Cons
      by (simp add: s queue_deq_def fifo_pop_def queue_holds_def desc_ok_def q_field_defs)
  qed
qed

interpretation simple: refines_fifo "queue_enq E" "queue_front E" "queue_deq E" "queue_holds E" for E
  by unfold_locales (fact queue_enq_law queue_front_law queue_deq_law)+

lemma simple_create_queue_holds:
  assumes "env_ok E" and "0 < unat cpct" and "unat cpct < 4294967296"
  shows "\<exists>m' q. simple_create (mem w) qid ptr cpct = returns (m', q)
    \<and> queue_holds E (w\<lparr>mem := m'\<rparr>, q) \<lparr>fifo_cap = unat cpct, fifo_pos = 0, fifo_msgs = []\<rparr>
    \<and> q_id m' q = qid \<and> only_changes (mem w) m' {ptr..<ptr + 24}"
proof -
  obtain m' q where c: "simple_create (mem w) qid ptr cpct = returns (m', q)" "q = simple_open ptr"
    "queue_inv m' q []" "cap_of m' q = unat cpct" "head_of m' q = 0"
    "keepalive_timeout m' q = 0" "q_id m' q = qid" "only_changes (mem w) m' {ptr..<ptr + 24}"
    by (rule simple_create_returns [OF assms(2,3)])
  then have "fst (m_message_desc q) = []"
    by (simp add: simple_open_def fresh_object_def null_desc_def)
  with c assms(1) show ?thesis by (simp add: queue_holds_def desc_ok_def)
qed

lemma stale_pop:
  assumes at: "atomic_spec (atomics E)" and inv: "queue_inv m q (y # ys)"
    and stale: "m_message_desc q = (a # as, pos)" "data_start q \<le> a"
      "unat pos mod cap_of m q = head_of m q"
  obtains m' q' where "pop E m q = returns (True, m', q')" "head_of m' q' = head_of m q"
    "count_of m' q' = length ys" "tail_of m' q' = tail_of m q"
proof -
  have cls: "class_of q = Simple_queue" and cnt: "count_of m q = Suc (length ys)"
    and lt: "head_of m q < cap_of m q" and len: "Suc (length ys) < 4294967296"
    using inv ring_state_bounds(3) [of m q "y # ys"]
    by (simp_all add: queue_inv_def ring_state_def header_ok_def)
  define m1 where "m1 = snd (msg_dec_counter E m a)"
  have w1: "only_changes m m1 {a + 16..<a + 20}"
    by (simp add: m1_def msg_dec_counter_def atomic_specD [OF at] only_changes_store32)
  have hdr: "unchanged m m1 (base_ptr q) 24"
    by (rule header_only_changes [OF w1]) (use stale(2) in auto)
  note f1 = header_unchanged [OF hdr]
  have c1: "0 < cap_of m1 q" using lt f1 by simp
  obtain m2 where m2: "set_base_head m1 q pos = returns m2"
    "only_changes m1 m2 {base_ptr q + 16..<base_ptr q + 20}" "head_of m2 q = unat pos mod cap_of m1 q"
    by (rule set_base_head_returns [OF c1])
  note f2 = field_unchanged [OF m2(2)]
  have fields2: "tail_of m2 q = tail_of m q" "count_of m2 q = count_of m q"
    "head_of m2 q = head_of m q"
    using f2 [where k = 20 and q = q] f2 [where k = 12 and q = q] f1 m2(3) stale(3)
    by (simp_all add: q_field_defs)
  define m3 where "m3 = set_base_count m2 q (base_count m2 q - 1)"
  note w3 = set_base_count_changes [of m2 q "base_count m2 q - 1", folded m3_def]
  note f3 = field_unchanged [OF w3]
  have cnt2: "unat (base_count m2 q - 1) = length ys"
    using fields2(2) cnt by (simp add: unat_sub word_le_nat_alt)
  let ?q = "q\<lparr>m_message_desc := ([], pos)\<rparr>"
  have "q_count m q > 0" using simple_not_empty [OF inv] by simp
  then have p: "pop E m q = returns (True, m3, ?q)"
    using m2(1) cls by (simp add: pop_def pop_message_def simple_pop_message_def stale(1)
      case_prod_beta m1_def m3_def)
  have "head_of m3 ?q = head_of m q" "tail_of m3 ?q = tail_of m q"
    using f3 [where k = 20 and q = q] f3 [where k = 16 and q = q] fields2
    by (simp_all add: q_field_defs)
  moreover have "count_of m3 ?q = length ys"
    using set_base_count_count [of "base_count m2 q - 1" m2 q] cnt2 len
    by (simp add: m3_def q_field_defs)
  ultimately show thesis using p that by blast
qed

text \<open>A small queue for the witnesses.\<close>

lemma sample_queue:
  obtains m q where "simple_create (\<lambda>_. 0) 5 64 100 = returns (m, q)" "queue_inv m q []"
    "cap_of m q = 100" "head_of m q = 0"
proof -
  obtain m q where "simple_create (\<lambda>_. 0) 5 64 100 = returns (m, q)" "queue_inv m q []"
    "cap_of m q = unat (100 :: u64)" "head_of m q = 0"
    by (rule simple_create_returns [where m = "\<lambda>_. 0" and qid = 5 and ptr = 64 and cpct = 100])
      simp_all
  then show thesis using that by simp
qed

section \<open>Properties\<close>

text \<open>
  C1. Every sequence of gets, pops and pushes of non-empty messages on a simple queue whose messages
  do not expire ends without a crash and behaves as the bounded FIFO: the same results in the same
  order, the same contents afterwards, and the messages come out in the order in which they were
  accepted. (An empty message is not covered: pushing it crashes.)
\<close>

theorem simple_queue_refines_fifo:
  assumes "queue_holds E s f" and "\<forall>p \<in> set ps. sendable p"
  shows "\<exists>rs s' f'. impl_run (queue_enq E) (queue_front E) (queue_deq E) ps s = returns (rs, s')
    \<and> fifo_run ps f = (rs, f') \<and> queue_holds E s' f'
    \<and> fifo_msgs f' = drop (pops rs) (fifo_msgs f @ accepted ps rs)"
  using simple.run_fifo [OF assms] by metis

theorem simple_queue_refines_fifo_witness:
  "\<exists>m q s'. simple_create (\<lambda>_. 0) 5 64 100 = returns (m, q)
    \<and> impl_run (queue_enq sample_env) (queue_front sample_env) (queue_deq sample_env)
        [Push (1, [10, 11, 12]), Push (2, replicate 60 9), Get, Pop, Pop] (\<lparr>mem = m, readings = 0\<rparr>, q)
      = returns ([Pushed True, Pushed False, Got (Some (1, [10, 11, 12])), Popped True, Popped False], s')"
proof -
  obtain m q where c: "simple_create (\<lambda>_. 0) 5 64 100 = returns (m, q)"
    "queue_holds sample_env (\<lparr>mem = m, readings = 0\<rparr>, q) \<lparr>fifo_cap = 100, fifo_pos = 0, fifo_msgs = []\<rparr>"
    using simple_create_queue_holds [of sample_env 100 "\<lparr>mem = \<lambda>_. 0, readings = 0\<rparr>" 5 64] by auto
  show ?thesis
    using simple_queue_refines_fifo [OF c(2),
        of "[Push (1, [10, 11, 12]), Push (2, replicate 60 9), Get, Pop, Pop]"] c(1)
    by (auto simp: fifo_push_def fifo_get_def fifo_pop_def fits_def span_def Let_def)
qed

text \<open>
  A simple queue created with a capacity of 1 to 2^32 - 1 bytes is
  the empty FIFO of that capacity, with the given identifier, and creation writes nothing but
  its header.
\<close>

theorem simple_create_holds:
  assumes "env_ok E" and "0 < unat cpct" and "unat cpct < 4294967296"
  shows "\<exists>m' q. simple_create (mem w) qid ptr cpct = returns (m', q)
    \<and> queue_holds E (w\<lparr>mem := m'\<rparr>, q) \<lparr>fifo_cap = unat cpct, fifo_pos = 0, fifo_msgs = []\<rparr>
    \<and> q_id m' q = qid \<and> only_changes (mem w) m' {ptr..<ptr + 24}"
  by (rule simple_create_queue_holds [OF assms])

theorem simple_create_holds_witness:
  "\<exists>m' q. simple_create (\<lambda>_. 255) 3 16 1000 = returns (m', q)
    \<and> queue_holds sample_env (\<lparr>mem = m', readings = 0\<rparr>, q)
        \<lparr>fifo_cap = 1000, fifo_pos = 0, fifo_msgs = []\<rparr> \<and> q_id m' q = 3"
  using simple_create_holds [of sample_env 1000 "\<lparr>mem = \<lambda>_. 255, readings = 0\<rparr>" 3 16] by auto

text \<open>
  C19. A push of a non-empty message on a simple queue returns, whatever the expiry time of the
  queue: the messages afterwards are those before less some of the oldest, followed by the new one
  exactly when the push reports success, and it writes nothing outside the queue's memory.
\<close>

theorem push_evicts_oldest:
  assumes "queue_inv (mem w) q xs" and "env_ok E" and "data \<noteq> []"
  shows "\<exists>b w' k. push E w q tag data = returns (b, w', q) \<and> k \<le> length xs
    \<and> queue_inv (mem w') q (drop k xs @ (if b then [(tag, data)] else []))
    \<and> only_changes (mem w) (mem w') (segment (mem w) q)"
  by (rule push_returns [OF assms])

theorem push_evicts_oldest_witness:
  "\<exists>m q b w'. simple_create (\<lambda>_. 0) 5 64 100 = returns (m, q)
    \<and> push sample_env \<lparr>mem = m, readings = 0\<rparr> q 1 [10, 11, 12] = returns (b, w', q)
    \<and> queue_inv (mem w') q (if b then [(1, [10, 11, 12])] else [])"
proof -
  obtain m q where c: "simple_create (\<lambda>_. 0) 5 64 100 = returns (m, q)" "queue_inv m q []"
    by (rule sample_queue)
  have "\<exists>b w' k. push sample_env \<lparr>mem = m, readings = 0\<rparr> q 1 [10, 11, 12] = returns (b, w', q)
      \<and> k \<le> length ([] :: message list)
      \<and> queue_inv (mem w') q (drop k [] @ (if b then [(1, [10, 11, 12])] else []))
      \<and> only_changes (mem \<lparr>mem = m, readings = 0\<rparr>) (mem w') (segment (mem \<lparr>mem = m, readings = 0\<rparr>) q)"
    by (rule push_evicts_oldest) (simp_all add: c(2))
  then obtain b w' k where "push sample_env \<lparr>mem = m, readings = 0\<rparr> q 1 [10, 11, 12] = returns (b, w', q)"
    "queue_inv (mem w') q (drop k [] @ (if b then [(1, [10, 11, 12])] else []))" by blast
  with c(1) show ?thesis by (intro exI [of _ m] exI [of _ q] exI [of _ b] exI [of _ w']) simp
qed

text \<open>
  A message that fits is accepted at once, whatever the expiry
  time: no message is dropped and the new one is the last.
\<close>

theorem push_accepts_when_room:
  assumes "queue_inv (mem w) q xs" and "env_ok E" and "data \<noteq> []"
    and "fits (cap_of (mem w) q) (head_of (mem w) q) xs data"
  shows "\<exists>w'. push E w q tag data = returns (True, w', q) \<and> queue_inv (mem w') q (xs @ [(tag, data)])"
proof -
  have "clock_live (clock E)" using assms(2) by (simp add: env_ok_def)
  then obtain w' where "do_push E w q tag data = returns (True, w', q)"
    "queue_inv (mem w') q (xs @ [(tag, data)])"
    by (rule do_push_fits [OF assms(1) _ assms(3,4)])
  then show ?thesis using push_now by blast
qed

theorem push_accepts_when_room_witness:
  "\<exists>m q w'. simple_create (\<lambda>_. 0) 5 64 100 = returns (m, q)
    \<and> push sample_env \<lparr>mem = m, readings = 0\<rparr> q 1 (replicate 76 10) = returns (True, w', q)"
proof -
  obtain m q where c: "simple_create (\<lambda>_. 0) 5 64 100 = returns (m, q)" "queue_inv m q []"
    "cap_of m q = 100" "head_of m q = 0"
    by (rule sample_queue)
  show ?thesis
    using push_accepts_when_room [of "\<lparr>mem = m, readings = 0\<rparr>" q "[]" sample_env "replicate 76 10" 1] c
    by (auto simp: fits_def span_def)
qed

text \<open>
  Pushing an empty buffer never succeeds: the message pointer is
  still null when \<open>pack\<close> is called on it.
\<close>

theorem push_empty_crashes:
  assumes "class_of q = Simple_queue"
  shows "push E w q tag [] = crashes Null_pointer"
  using assms by (simp add: push_def do_push_simple static_make_empty)

theorem push_empty_crashes_witness:
  "push sample_env \<lparr>mem = \<lambda>_. 0, readings = 0\<rparr> (simple_open 64) 1 [] = crashes Null_pointer"
  using push_empty_crashes [of "simple_open 64"] by (simp add: simple_open_def fresh_object_def)

text \<open>
  \<open>push\<close> keeps the description that an earlier
  \<open>get\<close> remembered even when it evicts that message. A pop then reports success and
  decrements the count, but leaves the head at the message it should have removed.
\<close>

theorem pop_after_eviction_removes_nothing:
  assumes "atomic_spec (atomics E)" and "queue_inv m q (y # ys)"
    and "m_message_desc q = (a # as, pos)" and "data_start q \<le> a"
    and "unat pos mod cap_of m q = head_of m q"
  shows "\<exists>m' q'. pop E m q = returns (True, m', q') \<and> head_of m' q' = head_of m q
    \<and> tail_of m' q' = tail_of m q \<and> count_of m' q' = length ys"
  using stale_pop [OF assms] by metis

theorem pop_after_eviction_removes_nothing_witness:
  "\<exists>m q m' q'. queue_inv m q [(1, [10, 11])] \<and> pop sample_env m q = returns (True, m', q')
    \<and> head_of m' q' = head_of m q \<and> tail_of m' q' \<noteq> head_of m' q' \<and> count_of m' q' = 0"
proof -
  have E: "clock_live (clock sample_env)" "atomic_spec (atomics sample_env)"
    using sample_env_ok unfolding env_ok_def by blast+
  obtain m0 q where c: "queue_inv m0 q []" "cap_of m0 q = 100" "head_of m0 q = 0"
    by (rule sample_queue)
  define w0 where "w0 = \<lparr>mem = m0, readings = 0\<rparr>"
  have inv0: "queue_inv (mem w0) q []" and room: "fits (cap_of (mem w0) q) (head_of (mem w0) q) [] [10, 11]"
    using c by (simp_all add: fits_def span_def w0_def)
  obtain w :: world where d0: "queue_inv (mem w) q ([] @ [(1, [10, 11])])" "head_of (mem w) q = head_of (mem w0) q"
    "cap_of (mem w) q = cap_of (mem w0) q"
    by (rule do_push_fits [OF inv0 E(1) list.distinct(2) room, where tag = 1])
  then have d: "queue_inv (mem w) q [(1, [10, 11])]" "head_of (mem w) q = 0" "cap_of (mem w) q = 100"
    using c by (simp_all add: w0_def)
  let ?q = "q\<lparr>m_message_desc := ([data_start q], 0)\<rparr>"
  have inv: "queue_inv (mem w) ?q [(1, [10, 11])]" using d(1) by (simp add: queue_inv_desc)
  have "tail_of (mem w) ?q = 26" "head_of (mem w) ?q = 0"
    using inv d(2,3) by (simp_all add: queue_inv_def ring_state_def q_field_defs span_def)
  then obtain m' q' where "pop sample_env (mem w) ?q = returns (True, m', q')"
    "head_of m' q' = 0" "tail_of m' q' = 26" "count_of m' q' = 0" "head_of (mem w) ?q = 0"
    using pop_after_eviction_removes_nothing [OF E(2) inv, of "data_start q" "[]" 0] by auto
  with inv show ?thesis
    by (intro exI [of _ "mem w"] exI [of _ ?q] exI [of _ m'] exI [of _ q']) simp
qed

end
