(* ===== verification/Shared_Ring.thy ===== *)
theory Shared_Ring
  imports Ring_State
begin

text \<open>
  \<open>shared_queue\<close>: one ring, read by every subscriber. The invariant of a group of objects on
  the same queue: each reader is at some message of the list, each message counts the readers
  that have not taken it yet, and cleaning drops the messages nobody waits for.
\<close>

section \<open>Messages in the ring\<close>

lemma part_arc:
  assumes "i < length xs" and "h < cap" and "used cap h xs \<le> cap"
  shows "arc cap ((h + used cap h (take i xs)) mod cap)
      (span cap ((h + used cap h (take i xs)) mod cap) (length (snd (xs ! i))))
    \<subseteq> arc cap h (used cap h xs)"
proof -
  let ?p = "(h + used cap h (take i xs)) mod cap" and ?u = "used cap h (take i xs)"
  let ?s = "span cap ?p (length (snd (xs ! i)))"
  let ?v = "used cap (after cap ?p (xs ! i)) (drop (Suc i) xs)"
  have u: "used cap h xs = ?u + (?s + ?v)" by (rule used_split [OF assms(1,2)])
  have "0 < cap" using assms(2) by simp
  then have p: "?p < cap" by simp
  have "arc cap ?p (?s + ?v) = arc cap ?p ?s \<union> arc cap ((?p + ?s) mod cap) ?v"
    using u assms(3) by (intro arc_split [OF p]) simp
  moreover have "arc cap h (?u + (?s + ?v)) = arc cap h ?u \<union> arc cap ?p (?s + ?v)"
    using u assms(3) by (intro arc_split [OF assms(2)]) simp
  ultimately show ?thesis unfolding u by blast
qed

abbreviation block_of :: "memory \<Rightarrow> queue \<Rightarrow> (tag_type \<times> u8 list) list \<Rightarrow> nat \<Rightarrow> nat set" where
  "block_of m q xs i \<equiv> {addr_at m q xs i..<addr_at m q xs i + 24}"

abbreviation ring_cells :: "memory \<Rightarrow> queue \<Rightarrow> (tag_type \<times> u8 list) list \<Rightarrow> nat set" where
  "ring_cells m q xs \<equiv> arc (cap_of m q) (head_of m q) (used (cap_of m q) (head_of m q) xs)"

text \<open>The header of a message lies in the part of the ring that the message takes.\<close>

definition span_of :: "memory \<Rightarrow> queue \<Rightarrow> (tag_type \<times> u8 list) list \<Rightarrow> nat \<Rightarrow> nat set" where
  "span_of m q xs i =
     arc (cap_of m q) (pos_at m q xs i) (span (cap_of m q) (pos_at m q xs i) (length (snd (xs ! i))))"

lemma block_span:
  assumes "ring_state m q xs" and "i < length xs"
  shows "block_of m q xs i \<subseteq> (\<lambda>j. data_start q + j) ` span_of m q xs i"
    "span_of m q xs i \<subseteq> ring_cells m q xs"
proof -
  let ?b = "fst (hd (place (cap_of m q) (pos_at m q xs i) (length (snd (xs ! i)))))"
  have sub: "{?b..<?b + 24} \<subseteq> span_of m q xs i"
    unfolding span_of_def by (rule hd_place_arc [OF pos_at_less [OF assms(1)] stored_at(2) [OF assms]])
  have addr: "addr_at m q xs i = data_start q + ?b" by (simp add: addr_at_def hd_chain_at)
  show "block_of m q xs i \<subseteq> (\<lambda>j. data_start q + j) ` span_of m q xs i"
  proof
    fix a assume "a \<in> block_of m q xs i"
    then have "a = data_start q + (a - data_start q)" "a - data_start q \<in> {?b..<?b + 24}"
      by (auto simp: addr)
    with sub show "a \<in> (\<lambda>j. data_start q + j) ` span_of m q xs i" by blast
  qed
  show "span_of m q xs i \<subseteq> ring_cells m q xs"
    using part_arc [OF assms(2), of "head_of m q" "cap_of m q"] assms(1)
    by (simp add: span_of_def pos_at_def ring_state_def header_ok_def)
qed

lemma block_inside:
  assumes "ring_state m q xs" and "i < length xs"
  shows "block_of m q xs i \<subseteq> {data_start q..<data_start q + cap_of m q}"
proof -
  have "ring_cells m q xs \<subseteq> {0..<cap_of m q}"
    using assms(1) by (intro arc_below) (simp_all add: ring_state_def header_ok_def)
  then have "span_of m q xs i \<subseteq> {0..<cap_of m q}" using block_span(2) [OF assms] by blast
  then have "(\<lambda>j. data_start q + j) ` span_of m q xs i \<subseteq> {data_start q..<data_start q + cap_of m q}"
    by fastforce
  then show ?thesis using block_span(1) [OF assms] by blast
qed

lemma span_of_disjoint:
  assumes "ring_state m q xs" and "i < j" and "j < length xs"
  shows "span_of m q xs i \<inter> span_of m q xs j = {}"
proof -
  let ?c = "cap_of m q" and ?h = "head_of m q" and ?p = "pos_at m q xs i"
  let ?s = "span ?c ?p (length (snd (xs ! i)))" and ?ys = "drop (Suc i) xs"
  have h: "?h < ?c" and u: "used ?c ?h xs \<le> ?c"
    using assms(1) by (simp_all add: ring_state_def header_ok_def)
  have i: "i < length xs" using assms by simp
  have p: "?p < ?c" by (rule pos_at_less [OF assms(1)])
  have sp: "?s + used ?c (after ?c ?p (xs ! i)) ?ys \<le> ?c"
    using used_split [OF i h] u by (simp add: pos_at_def)
  have aft: "after ?c ?p (xs ! i) < ?c" using p by (intro after_less) simp
  have nth: "?ys ! (j - Suc i) = xs ! j" "j - Suc i < length ?ys"
    using assms(2,3) by simp_all
  have tk: "take j xs = take (Suc i) xs @ take (j - Suc i) ?ys"
    using assms(2) take_add [of "Suc i" "j - Suc i" xs] by simp
  have pj: "pos_at m q xs j = (after ?c ?p (xs ! i) + used ?c (after ?c ?p (xs ! i)) (take (j - Suc i) ?ys)) mod ?c"
  proof -
    have e: "(?h + used ?c ?h (take (Suc i) xs)) mod ?c = after ?c ?p (xs ! i)"
      using pos_at_Suc [OF assms(1) i] by (simp add: pos_at_def)
    have "pos_at m q xs j = (?h + (used ?c ?h (take (Suc i) xs)
        + used ?c (after ?c ?p (xs ! i)) (take (j - Suc i) ?ys))) mod ?c"
      unfolding pos_at_def [of m q xs j] by (simp only: tk used_append [OF h] e)
    also have "\<dots> = ((?h + used ?c ?h (take (Suc i) xs)) mod ?c
        + used ?c (after ?c ?p (xs ! i)) (take (j - Suc i) ?ys)) mod ?c"
      by (simp only: mod_add_left_eq add.assoc)
    finally show ?thesis by (simp only: e)
  qed
  have "span_of m q xs j \<subseteq> arc ?c (after ?c ?p (xs ! i)) (used ?c (after ?c ?p (xs ! i)) ?ys)"
    using part_arc [OF nth(2) aft] sp by (simp add: span_of_def pj nth(1))
  moreover have "arc ?c ?p ?s \<inter> arc ?c (after ?c ?p (xs ! i)) (used ?c (after ?c ?p (xs ! i)) ?ys) = {}"
    using arc_disjoint [OF p sp] by (simp add: after_def)
  ultimately show ?thesis by (auto simp: span_of_def)
qed

lemma blocks_disjoint:
  assumes "ring_state m q xs" and "i < length xs" and "j < length xs" and "i \<noteq> j"
  shows "block_of m q xs i \<inter> block_of m q xs j = {}"
proof -
  have "span_of m q xs i \<inter> span_of m q xs j = {}"
  proof (cases "i < j")
    case True
    then show ?thesis by (rule span_of_disjoint [OF assms(1) _ assms(3)])
  next
    case False
    then have "j < i" using assms(4) by simp
    then have "span_of m q xs j \<inter> span_of m q xs i = {}"
      by (rule span_of_disjoint [OF assms(1) _ assms(2)])
    then show ?thesis by (simp add: Int_commute)
  qed
  then have "(\<lambda>j. data_start q + j) ` span_of m q xs i \<inter> (\<lambda>j. data_start q + j) ` span_of m q xs j = {}"
    by auto
  with Int_mono [OF block_span(1) [OF assms(1,2)] block_span(1) [OF assms(1,3)]]
  show ?thesis by (simp only: subset_empty)
qed

text \<open>The reference counter of the \<open>i\<close>-th message.\<close>

definition counter_at :: "memory \<Rightarrow> queue \<Rightarrow> (tag_type \<times> u8 list) list \<Rightarrow> nat \<Rightarrow> u32" where
  "counter_at m q xs i = load32 m (addr_at m q xs i + 16)"

lemma counter_at_kept:
  assumes "ring_state m q xs" and "i < length xs" and "same_cells m m' q (ring_cells m q xs)"
    and "head_of m' q = head_of m q" and "cap_of m' q = cap_of m q"
  shows "counter_at m' q xs i = counter_at m q xs i"
proof -
  have same: "addr_at m' q xs i = addr_at m q xs i" using assms(4,5) by (simp add: addr_at_def pos_at_def)
  have "unchanged m m' (addr_at m q xs i + 16) 4"
    unfolding unchanged_def
  proof (intro allI impI)
    fix a assume "addr_at m q xs i + 16 \<le> a" "a < addr_at m q xs i + 16 + 4"
    then have "a \<in> block_of m q xs i" by simp
    then obtain j where "a = data_start q + j" "j \<in> ring_cells m q xs"
      using block_span [OF assms(1,2)] by blast
    with assms(3) show "m' a = m a" by (simp add: same_cells_def)
  qed
  then show ?thesis by (simp add: counter_at_def same load32_unchanged)
qed

lemma pos_at_drop:
  assumes "head_of m q < cap_of m q" and "head_of m' q = pos_at m q xs j" and "cap_of m' q = cap_of m q"
  shows "pos_at m' q (drop j xs) i = pos_at m q xs (j + i)"
proof -
  let ?c = "cap_of m q" and ?h = "head_of m q"
  have "used ?c ?h (take (j + i) xs) = used ?c ?h (take j xs) + used ?c (pos_at m q xs j) (take i (drop j xs))"
    using assms(1) by (simp add: take_add used_append pos_at_def)
  moreover have "(pos_at m q xs j + b) mod ?c = (?h + (used ?c ?h (take j xs) + b)) mod ?c" for b
    by (simp add: pos_at_def mod_add_left_eq add.assoc)
  ultimately show ?thesis
    using assms(2,3) by (simp add: pos_at_def [of m'] pos_at_def [of m q xs "j + i"])
qed

lemma addr_at_drop:
  assumes "head_of m q < cap_of m q" and "head_of m' q = pos_at m q xs j" and "cap_of m' q = cap_of m q"
    and "j + i < length xs"
  shows "addr_at m' q (drop j xs) i = addr_at m q xs (j + i)"
  using assms by (simp add: addr_at_def pos_at_drop)

section \<open>Readers\<close>

text \<open>
  An object whose next message is the \<open>k\<close>-th of the ring. Until its first pop a reader has no
  head of its own and reads at the head of the ring.
\<close>

definition reader :: "memory \<Rightarrow> queue \<Rightarrow> (tag_type \<times> u8 list) list \<Rightarrow> nat \<Rightarrow> bool" where
  "reader m q xs k \<longleftrightarrow> class_of q \<noteq> Simple_queue \<and> k \<le> length xs
     \<and> unat (s_counter m q - m_counter q) = length xs - k
     \<and> (if m_head q = - 1 then k = 0 else unat (m_head q) = pos_at m q xs k)
     \<and> (fst (m_message_desc q) = [] \<or>
        (k < length xs
         \<and> fst (m_message_desc q) = chain_at q (cap_of m q) (pos_at m q xs k) (length (snd (xs ! k)))
         \<and> unat (snd (m_message_desc q)) mod cap_of m q = pos_at m q xs (Suc k)))"

lemma pos_at_0: "ring_state m q xs \<Longrightarrow> pos_at m q xs 0 = head_of m q"
  by (simp add: pos_at_def ring_state_def header_ok_def)

lemma ring_class_simps:
  assumes "class_of q \<noteq> Simple_queue"
  shows "q_head m q = shared_head m q" "q_count m q = shared_count m q"
    "pop_message E m q desc = shared_pop_message E m q desc"
  using assms by (cases "class_of q"; simp add: q_head_def q_count_def pop_message_def)+

lemma shared_class_simps:
  assumes "class_of q = Shared_queue"
  shows "q_head m q = shared_head m q" "q_count m q = shared_count m q" "plain_regions q"
    "clean_messages E m q = and_then (shared_clean_messages E m q) (\<lambda>(g, m1). returns (g, m1, q))"
    "push_message E q w data = shared_push_message E q w data"
    "get_message E m q = and_then (static_get_message q m) (\<lambda>desc. returns (desc, m, q))"
    "pop_message E m q desc = shared_pop_message E m q desc"
  using assms
  by (simp_all add: q_head_def q_count_def plain_regions_def clean_messages_def push_message_def
    get_message_def pop_message_def)

lemma ucast_32_64_eq_0: "(ucast (w :: u32) :: u64) = 0 \<longleftrightarrow> w = 0"
  by (metis unat_ucast_32_64 unat_eq_zero)

lemma q_count_reader:
  "reader m q xs k \<Longrightarrow> unat (q_count m q) = length xs - k"
  by (simp add: reader_def ring_class_simps shared_count_def)

lemma q_count_pos: "reader m q xs k \<Longrightarrow> q_count m q > 0 \<longleftrightarrow> k < length xs"
  using q_count_reader [of m q xs k] by (auto simp: word_less_nat_alt)

lemma q_head_reader:
  "reader m q xs k \<Longrightarrow> ring_state m q xs \<Longrightarrow> unat (q_head m q) = pos_at m q xs k"
  by (auto simp: reader_def ring_class_simps shared_head_def pos_at_0 split: if_splits)

text \<open>What \<open>static_get_message\<close> finds at a position of the ring.\<close>

lemma static_get_at:
  assumes rs: "ring_state m q xs" and i: "i < length xs" and head: "unat (q_head m q) = pos_at m q xs i"
    and ne: "\<not> q_empty m q"
  obtains pos where
    "static_get_message q m = returns (chain_at q (cap_of m q) (pos_at m q xs i) (length (snd (xs ! i))), pos)"
    "unat pos mod cap_of m q = pos_at m q xs (Suc i)"
proof -
  let ?c = "cap_of m q" and ?h = "head_of m q" and ?p = "pos_at m q xs i" and ?x = "xs ! i"
  let ?u = "span ?c ?p (length (snd ?x)) + used ?c (after ?c ?p ?x) (drop (Suc i) xs)"
  have h: "?h < ?c" and u: "used ?c ?h xs \<le> ?c"
    and tail: "tail_of m q = (?h + used ?c ?h xs) mod ?c"
    using rs by (simp_all add: ring_state_def header_ok_def)
  have sp: "used ?c ?h xs = used ?c ?h (take i xs) + ?u"
    using used_split [OF i h] by (simp add: pos_at_def)
  have laid: "laid_out m q ?p (snd ?x)" using stored_at(1) [OF rs i] by (simp add: stored_def)
  have t: "tail_of m q = (?p + ?u) mod ?c"
    unfolding tail sp pos_at_def by (simp add: mod_add_left_eq add.assoc)
  have le: "?u \<le> ?c" using sp u by simp
  obtain pos where "static_get_message q m = returns (chain_at q ?c ?p (length (snd ?x)), pos)"
    "unat pos mod ?c = (?p + span ?c ?p (length (snd ?x))) mod ?c"
    by (rule static_get_laid_out [OF head pos_at_less [OF rs] ne laid _ le t]) simp
  moreover have "(?p + span ?c ?p (length (snd ?x))) mod ?c = pos_at m q xs (Suc i)"
    using pos_at_Suc [OF rs i] by (simp add: after_def)
  ultimately show thesis using that by simp
qed

section \<open>The size of messages\<close>

text \<open>
  The bytes that messages take with their headers. A gap at the end of the ring is part of the
  \<open>span\<close> of a message but not of its size.
\<close>

fun taken :: "nat \<Rightarrow> nat \<Rightarrow> (tag_type \<times> u8 list) list \<Rightarrow> nat" where
  "taken cap p [] = 0"
| "taken cap p (x # xs) =
     length (snd x) + 24 * length (place cap p (length (snd x))) + taken cap (after cap p x) xs"

lemma place_size: "n + 24 * length (place cap p n) \<le> span cap p n"
  by (cases cap p n rule: place_cases) auto

lemma taken_used: "taken cap p xs \<le> used cap p xs"
proof (induction xs arbitrary: p)
  case (Cons x xs)
  then show ?case using place_size [of "length (snd x)" cap p] by (simp add: add_mono)
qed simp

lemma taken_append:
  "taken cap p (xs @ ys) = taken cap p xs + taken cap ((p + used cap p xs) mod cap) ys" if "p < cap"
  using that
proof (induction xs arbitrary: p)
  case (Cons x xs)
  have "after cap p x < cap" using Cons.prems by (intro after_less) simp
  then show ?case
    by (simp add: Cons.IH after_def mod_add_left_eq add.assoc)
qed simp

lemma total_size_stored:
  assumes "stored m q p x" and "cap = cap_of m q"
  shows "total_size m (chain_at q cap p (length (snd x)))
    = of_nat (length (snd x) + 24 * length (place cap p (length (snd x))))"
proof -
  have caps: "msg_capacity m (data_start q + pos) = of_nat len"
    if "(pos, len) \<in> set (place cap p (length (snd x)))" for pos len
  proof -
    have "unat (msg_capacity m (data_start q + pos)) = len"
      using assms that by (auto simp: stored_def laid_out_def Let_def)
    then show ?thesis by auto
  qed
  show ?thesis
  proof (cases cap p "length (snd x)" rule: place_cases)
    case two
    have "msg_capacity m (data_start q + p) + msg_capacity m (data_start q + 0)
        = of_nat (cap - p - 24) + of_nat (length (snd x) - (cap - p - 24))"
      using caps [of p "cap - p - 24"] caps [of 0 "length (snd x) - (cap - p - 24)"]
      by (simp only: two(3)) simp
    also have "\<dots> = of_nat (length (snd x))" using two(2) by (simp flip: of_nat_add)
    finally show ?thesis by (simp add: chain_at_def static_size_def two(3))
  qed (use caps in \<open>simp_all add: chain_at_def static_size_def\<close>)
qed

section \<open>Cleaning\<close>

text \<open>
  The loop of \<open>clean_messages\<close> drops exactly the messages up to the first one whose counter
  is not zero.
\<close>

lemma clean_loop_spec:
  assumes "ring_state m q xs" and "class_of q \<noteq> Simple_queue" and "m_head q = - 1"
    and "shared_ptr q + 8 = base_ptr q" and "s_counter m q \<noteq> m_counter q"
    and "atomic_spec (atomics E)" and "j \<le> length xs" and "\<And>i. i < j \<Longrightarrow> counter_at m q xs i = 0"
    and "j < length xs \<Longrightarrow> counter_at m q xs j \<noteq> 0"
  shows "\<exists>m'. clean_loop E q (length xs) m g = returns ((fst g + of_nat j,
        snd g + of_nat (taken (cap_of m q) (head_of m q) (take j xs))), m')
    \<and> ring_state m' q (drop j xs)
    \<and> head_of m' q = pos_at m q xs j \<and> cap_of m' q = cap_of m q
    \<and> only_changes m m' {base_ptr q + 12..<base_ptr q + 20}"
  using assms(1,5,7-9)
proof (induction j arbitrary: m xs g)
  case 0
  show ?case
  proof (cases xs)
    case Nil
    with 0 show ?thesis by (simp add: pos_at_0)
  next
    case (Cons x xs')
    have ne: "\<not> q_empty m q"
      using 0 assms(2) by (simp add: q_empty_def ring_class_simps shared_count_def ucast_32_64_eq_0)
    have hd: "unat (q_head m q) = pos_at m q xs 0"
      using assms(2,3) 0 by (simp add: ring_class_simps shared_head_def pos_at_0)
    obtain pos where get: "static_get_message q m
        = returns (chain_at q (cap_of m q) (pos_at m q xs 0) (length (snd (xs ! 0))), pos)"
      by (rule static_get_at [OF 0(1) _ hd ne]) (simp add: Cons)
    have "msg_counter E m (addr_at m q xs 0) > 0"
      using 0(5) Cons by (simp add: msg_counter_def counter_at_def atomic_specD [OF assms(6)]
        word_gt_0 ucast_32_64_eq_0)
    then have "clean_loop E q (length xs) m g = returns (g, m)"
      using get by (simp add: Cons addr_at_def)
    with 0(1) show ?thesis by (simp add: pos_at_0)
  qed
next
  case (Suc j)
  then obtain x xs' where xs: "xs = x # xs'" by (cases xs) auto
  have h: "head_of m q < cap_of m q" using Suc.prems(1) by (simp add: ring_state_def header_ok_def)
  have ne: "\<not> q_empty m q"
    using Suc.prems(2) assms(2) by (simp add: q_empty_def ring_class_simps shared_count_def ucast_32_64_eq_0)
  have hd: "unat (q_head m q) = pos_at m q xs 0"
    using assms(2,3) Suc.prems(1) by (simp add: ring_class_simps shared_head_def pos_at_0)
  obtain pos where get: "static_get_message q m
      = returns (chain_at q (cap_of m q) (pos_at m q xs 0) (length (snd (xs ! 0))), pos)"
    and pos: "unat pos mod cap_of m q = pos_at m q xs (Suc 0)"
    by (rule static_get_at [OF Suc.prems(1) _ hd ne]) (simp add: xs)
  have pos': "unat pos mod cap_of m q = after (cap_of m q) (head_of m q) x"
    using pos pos_at_Suc [OF Suc.prems(1), of 0] by (simp add: xs pos_at_0 [OF Suc.prems(1) [unfolded xs]])
  have len: "length xs' < 4294967296" using ring_state_bounds(3) [OF Suc.prems(1)] by (simp add: xs)
  have cnt: "unat (of_nat (length xs') :: u64) = length xs'" using len by (simp add: unat_of_nat_u64)
  obtain m2 m3 where adv: "set_base_head m q pos = returns m2" "m3 = set_base_count m2 q (of_nat (length xs'))"
    "ring_state m3 q xs'" "cap_of m3 q = cap_of m q" "head_of m3 q = after (cap_of m q) (head_of m q) x"
    "only_changes m m3 {base_ptr q + 12..<base_ptr q + 20}"
    by (rule advance_head [OF Suc.prems(1) [unfolded xs] pos' cnt])
  have zero: "msg_counter E m (addr_at m q xs 0) = 0"
    using Suc.prems(4) [of 0] by (simp add: msg_counter_def counter_at_def atomic_specD [OF assms(6)])
  have loop: "clean_loop E q (length xs) m g
      = clean_loop E q (length xs') m3 (fst g + 1, snd g + total_size m3 (chain_at q (cap_of m q)
          (pos_at m q xs 0) (length (snd (xs ! 0)))))"
    using get zero adv(1,2) by (simp add: xs addr_at_def Let_def)
  have hd3: "head_of m3 q = pos_at m q xs 1"
    using adv(5) pos pos' by simp
  have sc: "s_counter m3 q = s_counter m q"
    unfolding s_counter_def
    by (intro load32_unchanged only_changes_unchanged [OF adv(6)]) (use assms(4) in auto)
  have cells: "same_cells m m3 q A" for A by (rule header_write_data [OF adv(6)]) simp
  have cnts: "counter_at m3 q xs' i = counter_at m q xs (Suc i)" if "i < length xs'" for i
  proof -
    have "addr_at m3 q (drop 1 xs) i = addr_at m q xs (1 + i)"
      by (rule addr_at_drop [OF h hd3 adv(4)]) (use that xs in simp)
    moreover have "unchanged m m3 (addr_at m q xs (Suc i) + 16) 4"
    proof (rule only_changes_unchanged [OF adv(6)])
      have "block_of m q xs (Suc i) \<subseteq> {data_start q..<data_start q + cap_of m q}"
        by (rule block_inside [OF Suc.prems(1)]) (use that xs in simp)
      then show "{addr_at m q xs (Suc i) + 16..<addr_at m q xs (Suc i) + 16 + 4}
          \<inter> {base_ptr q + 12..<base_ptr q + 20} = {}" by auto
    qed
    ultimately show ?thesis by (simp add: counter_at_def xs load32_unchanged)
  qed
  have size: "total_size m3 (chain_at q (cap_of m q) (pos_at m q xs 0) (length (snd (xs ! 0))))
      = of_nat (length (snd x) + 24 * length (place (cap_of m q) (head_of m q) (length (snd x))))"
  proof -
    have p0: "pos_at m q xs 0 = head_of m q" by (rule pos_at_0 [OF Suc.prems(1)])
    have "stored m q (head_of m q) x" "span (cap_of m q) (head_of m q) (length (snd x)) \<le> cap_of m q"
      using stored_at [OF Suc.prems(1), of 0] p0 by (simp_all add: xs)
    then have "stored m3 q (head_of m q) x" by (intro stored_frame [OF _ adv(4) h _ cells])
    from total_size_stored [OF this refl] show ?thesis using p0 adv(4) by (simp add: xs)
  qed
  have IH: "\<exists>m'. clean_loop E q (length xs') m3 g3 = returns ((fst g3 + of_nat j,
        snd g3 + of_nat (taken (cap_of m3 q) (head_of m3 q) (take j xs'))), m')
    \<and> ring_state m' q (drop j xs')
    \<and> head_of m' q = pos_at m3 q xs' j \<and> cap_of m' q = cap_of m3 q
    \<and> only_changes m3 m' {base_ptr q + 12..<base_ptr q + 20}" for g3
  proof (rule Suc.IH [OF adv(3)])
    show "s_counter m3 q \<noteq> m_counter q" using Suc.prems(2) sc by simp
    show "j \<le> length xs'" using Suc.prems(3) xs by simp
    show "counter_at m3 q xs' i = 0" if "i < j" for i
      using cnts [of i] Suc.prems(3,4) that xs by simp
    show "counter_at m3 q xs' j \<noteq> 0" if "j < length xs'"
      using cnts [OF that] Suc.prems(5) that xs by simp
  qed
  have "pos_at m3 q xs' j = pos_at m q xs (Suc j)"
    using pos_at_drop [OF h hd3 adv(4), of j] by (simp add: xs)
  moreover have "fst g + 1 + of_nat j = fst g + of_nat (Suc j)"
    "snd g + of_nat (length (snd x) + 24 * length (place (cap_of m q) (head_of m q) (length (snd x))))
        + of_nat (taken (cap_of m3 q) (head_of m3 q) (take j xs'))
      = snd g + of_nat (taken (cap_of m q) (head_of m q) (take (Suc j) xs))"
    using adv(4,5) by (simp_all add: xs)
  moreover obtain m' where I: "clean_loop E q (length xs) m g = returns ((fst g + 1 + of_nat j,
      snd g + of_nat (length (snd x) + 24 * length (place (cap_of m q) (head_of m q) (length (snd x))))
        + of_nat (taken (cap_of m3 q) (head_of m3 q) (take j xs'))), m')"
    "ring_state m' q (drop j xs')" "head_of m' q = pos_at m3 q xs' j" "cap_of m' q = cap_of m3 q"
    "only_changes m3 m' {base_ptr q + 12..<base_ptr q + 20}"
    unfolding loop size using IH [of "(fst g + 1, snd g + of_nat (length (snd x)
        + 24 * length (place (cap_of m q) (head_of m q) (length (snd x)))))"] by auto
  moreover have "drop (Suc j) xs = drop j xs'" by (simp add: xs)
  ultimately show ?case
    using adv(4) only_changes_trans [OF adv(6) I(5) subset_refl subset_refl] by metis
qed

section \<open>A group of readers\<close>

definition ring_object :: "nat \<Rightarrow> queue" where
  "ring_object ptr = fresh_object Shared_queue (ptr + 8) ptr ptr"

lemma ring_object_simps [simp]:
  "base_ptr (ring_object ptr) = ptr + 8" "shared_ptr (ring_object ptr) = ptr"
  "class_of (ring_object ptr) = Shared_queue"
  by (simp_all add: ring_object_def fresh_object_def)

text \<open>
  The objects \<open>rs r\<close> of the readers \<open>r\<close> in \<open>R\<close> work on the queue at \<open>ptr\<close>; all of them
  are subscribed, and nobody else.
\<close>

definition group_inv ::
  "memory \<Rightarrow> nat \<Rightarrow> nat set \<Rightarrow> (nat \<Rightarrow> queue) \<Rightarrow> (tag_type \<times> u8 list) list \<Rightarrow> (nat \<Rightarrow> nat) \<Rightarrow> bool" where
  "group_inv m ptr R rs xs ks \<longleftrightarrow> finite R \<and> card R < 4294967296
     \<and> (\<forall>r \<in> R. base_ptr (rs r) = ptr + 8 \<and> shared_ptr (rs r) = ptr \<and> reader m (rs r) xs (ks r))
     \<and> ring_state m (ring_object ptr) xs
     \<and> load32 m ptr = of_nat (card R)
     \<and> (\<forall>i < length xs. unat (counter_at m (ring_object ptr) xs i) = card {r \<in> R. ks r \<le> i})"

text \<open>The same without the count of subscribers, which a leaving member lowers first.\<close>

definition group_at ::
  "memory \<Rightarrow> nat \<Rightarrow> nat set \<Rightarrow> (nat \<Rightarrow> queue) \<Rightarrow> (tag_type \<times> u8 list) list \<Rightarrow> (nat \<Rightarrow> nat) \<Rightarrow> bool" where
  "group_at m ptr R rs xs ks \<longleftrightarrow> finite R
     \<and> (\<forall>r \<in> R. base_ptr (rs r) = ptr + 8 \<and> shared_ptr (rs r) = ptr \<and> reader m (rs r) xs (ks r))
     \<and> ring_state m (ring_object ptr) xs
     \<and> (\<forall>i < length xs. unat (counter_at m (ring_object ptr) xs i) = card {r \<in> R. ks r \<le> i})"

lemma group_inv_at:
  "group_inv m ptr R rs xs ks \<longleftrightarrow>
     group_at m ptr R rs xs ks \<and> card R < 4294967296 \<and> load32 m ptr = of_nat (card R)"
  by (auto simp: group_inv_def group_at_def)

lemma at_cong:
  assumes "base_ptr q' = base_ptr q"
  shows "pos_at m q' xs i = pos_at m q xs i" "addr_at m q' xs i = addr_at m q xs i"
    "counter_at m q' xs i = counter_at m q xs i"
  by (simp_all add: counter_at_def addr_at_def pos_at_def base_ptr_cong [OF assms])

lemma pos_at_append: "i \<le> length xs \<Longrightarrow> pos_at m q (xs @ ys) i = pos_at m q xs i"
  by (simp add: pos_at_def)

lemma addr_at_append: "i < length xs \<Longrightarrow> addr_at m q (xs @ ys) i = addr_at m q xs i"
  by (simp add: addr_at_def pos_at_append nth_append)

lemma pos_at_same:
  "head_of m' q = head_of m q \<Longrightarrow> cap_of m' q = cap_of m q \<Longrightarrow> pos_at m' q xs i = pos_at m q xs i"
  by (simp add: pos_at_def)

lemma addr_at_same:
  assumes "head_of m' q = head_of m q" and "cap_of m' q = cap_of m q"
  shows "addr_at m' q xs i = addr_at m q xs i"
  by (simp add: addr_at_def pos_at_same [OF assms] assms)

text \<open>What the steps of others do to a reader.\<close>

lemma reader_same:
  assumes "reader m q xs k" and "s_counter m' q = s_counter m q"
    and "head_of m' q = head_of m q" and "cap_of m' q = cap_of m q"
  shows "reader m' q xs k"
  using assms(1,2,4) by (simp add: reader_def pos_at_same [OF assms(3,4)])

lemma reader_drop:
  assumes "reader m q xs k" and "j \<le> k" and "head_of m q < cap_of m q"
    and "s_counter m' q = s_counter m q" and "head_of m' q = pos_at m q xs j"
    and "cap_of m' q = cap_of m q"
  shows "reader m' q (drop j xs) (k - j)"
  using assms(1,2,4,6) by (auto simp: reader_def pos_at_drop [OF assms(3,5,6)] Suc_diff_le [symmetric])

lemma reader_append:
  assumes "reader m q xs k" and "s_counter m' q = s_counter m q + 1"
    and "head_of m' q = head_of m q" and "cap_of m' q = cap_of m q" and "length xs < 4294967295"
  shows "reader m' q (xs @ [x]) k"
proof -
  have "unat (s_counter m q - m_counter q) = length xs - k" "k \<le> length xs"
    using assms(1) by (simp_all add: reader_def)
  moreover have "unat (s_counter m q - m_counter q + 1) = Suc (unat (s_counter m q - m_counter q))"
    using calculation(1) assms(5) by (simp add: unat_word_ariths)
  moreover have "s_counter m' q - m_counter q = s_counter m q - m_counter q + 1"
    using assms(2) by simp
  ultimately have "unat (s_counter m' q - m_counter q) = length (xs @ [x]) - k"
    by (simp only:) (simp add: Suc_diff_le)
  moreover have "pos_at m' q (xs @ [x]) k = pos_at m q xs k"
    using assms(1,3,4) by (simp add: pos_at_append reader_def pos_at_same [OF assms(3,4)])
  moreover have "k < length xs \<Longrightarrow> pos_at m' q (xs @ [x]) (Suc k) = pos_at m q xs (Suc k)"
    by (simp add: pos_at_append pos_at_same [OF assms(3,4)])
  ultimately show ?thesis
    using assms(1,4) by (auto simp: reader_def nth_append)
qed

section \<open>Getting and popping\<close>

lemma get_reader:
  assumes rd: "reader m q xs k" and cls: "class_of q = Shared_queue" and rs: "ring_state m q xs"
    and k: "k < length xs"
  obtains q' chain pos where "get E m q = returns (chain, m, q')" "q' = q\<lparr>m_message_desc := (chain, pos)\<rparr>"
    "reader m q' xs k" "read_message m chain = Some (xs ! k)"
proof -
  have cnt: "q_count m q > 0" using q_count_pos [OF rd] k by simp
  then have ne: "\<not> q_empty m q" by (simp add: q_empty_def)
  let ?chain = "chain_at q (cap_of m q) (pos_at m q xs k) (length (snd (xs ! k)))"
  obtain pos where g: "static_get_message q m = returns (?chain, pos)"
    "unat pos mod cap_of m q = pos_at m q xs (Suc k)"
    by (rule static_get_at [OF rs k q_head_reader [OF rd rs] ne])
  show thesis
  proof (rule that [OF _ refl])
    show "get E m q = returns (?chain, m, q\<lparr>m_message_desc := (?chain, pos)\<rparr>)"
      using cnt g(1) by (simp add: get_def shared_class_simps [OF cls])
    show "reader m (q\<lparr>m_message_desc := (?chain, pos)\<rparr>) xs k"
      using rd k g(2) by (simp add: reader_def pos_at_def q_field_defs s_counter_def chain_at_def)
    show "read_message m ?chain = Some (xs ! k)"
      by (rule read_stored [OF stored_at(1) [OF rs k]])
  qed
qed

lemma get_reader_none: "reader m q xs (length xs) \<Longrightarrow> get E m q = returns ([], m, q)"
  using q_count_pos [of m q xs "length xs"] by (simp add: get_def)

lemma m_head_not_unset: "unat (v :: u32) < n \<Longrightarrow> n < 4294967296 \<Longrightarrow> v \<noteq> - 1"
  by (auto simp: unsigned_minus_1_eq_mask mask_eq_exp_minus_1)

text \<open>What \<open>pop_message\<close> does to an object that has the description of its next message.\<close>

lemma pop_step:
  assumes rd: "reader m q xs k" and rs: "ring_state m q xs" and k: "k < length xs"
    and at: "atomic_spec (atomics E)" and c: "counter_at m q xs k > 0"
    and lay: "shared_ptr q + 8 = base_ptr q"
    and pos: "unat pos mod cap_of m q = pos_at m q xs (Suc k)"
  obtains m' v where
    "\<forall>d. shared_pop_message E m (q\<lparr>m_message_desc := d\<rparr>)
        (chain_at q (cap_of m q) (pos_at m q xs k) (length (snd (xs ! k))), pos)
      = returns (m', q\<lparr>m_message_desc := d, m_head := v, m_counter := m_counter q + 1\<rparr>)"
    "m' = store32 m (addr_at m q xs k + 16) (counter_at m q xs k - 1)"
    "\<forall>x. reader m' (q\<lparr>m_message_desc := ([], x), m_head := v, m_counter := m_counter q + 1\<rparr>) xs (Suc k)"
    "ring_state m' q xs" "unchanged m m' (base_ptr q) 24" "s_counter m' q = s_counter m q"
    "load32 m' (shared_ptr q) = load32 m (shared_ptr q)"
proof -
  let ?chain = "chain_at q (cap_of m q) (pos_at m q xs k) (length (snd (xs ! k)))"
  let ?a = "addr_at m q xs k"
  define m' where "m' = store32 m (?a + 16) (counter_at m q xs k - 1)"
  have w: "only_changes m m' {?a + 16..<?a + 20}" by (simp add: m'_def only_changes_store32)
  note cw = counter_write [OF rs k refl w]
  note f = header_unchanged [OF cw(2)]
  have dec: "msg_dec_counter E m ?a = (ucast (counter_at m q xs k - 1), m')"
    by (simp add: msg_dec_counter_def atomic_specD [OF at] counter_at_def m'_def)
  have "unat (counter_at m q xs k - 1) < 4294967295"
    using c unat_lt_u32 [of "counter_at m q xs k"]
    by (simp add: unat_sub word_le_nat_alt word_less_nat_alt)
  then have "unat (ucast (counter_at m q xs k - 1) :: u64) < 4294967295" by simp
  moreover have "unat (ucast (- 1 :: u32) :: u64) = 4294967295"
    by (simp only: unat_ucast_32_64) (simp add: unsigned_minus_1_eq_mask mask_eq_exp_minus_1)
  ultimately have noass: "(ucast (counter_at m q xs k - 1) :: u64) \<noteq> ucast (- 1 :: u32)"
    by (metis order_less_irrefl)
  let ?v = "ucast (ucast pos mod q_capacity m q) :: u32"
  have cpos: "0 < cap_of m q" using rs by (auto simp: ring_state_def header_ok_def)
  have "unat (ucast pos mod q_capacity m q :: u64) = unat pos mod cap_of m q"
    by (simp add: unat_mod_distrib)
  moreover have "unat pos mod cap_of m q < 4294967296"
    using cpos cap_of_bound [of m q] by (meson mod_less_divisor order.strict_trans)
  ultimately have v: "unat ?v = pos_at m q xs (Suc k)" using pos by (simp add: unat_ucast_64_32)
  have vneq: "?v \<noteq> - 1"
    using m_head_not_unset [OF _ cap_of_bound [of m q]] v pos_at_less [OF rs, of "Suc k"] by metis
  have capq: "q_capacity m' (q\<lparr>m_message_desc := d\<rparr>) = q_capacity m q" for d
    using f(1) by (simp add: q_capacity_def)
  have sc: "s_counter m' q = s_counter m q" "load32 m' (shared_ptr q) = load32 m (shared_ptr q)"
    unfolding s_counter_def
    by (intro load32_unchanged only_changes_unchanged [OF w]; use cw(3) lay in force)+
  have pop: "shared_pop_message E m (q\<lparr>m_message_desc := d\<rparr>) (?chain, pos)
      = returns (m', q\<lparr>m_message_desc := d, m_head := ?v, m_counter := m_counter q + 1\<rparr>)" for d
    using dec noass cpos
    by (simp add: capq shared_pop_message_def addr_at_def unat_gt_0)
  have "unat (s_counter m q - (m_counter q + 1)) = unat (s_counter m q - m_counter q) - 1"
    using rd k by (simp add: reader_def unat_sub word_le_nat_alt diff_diff_eq [symmetric])
  then have "reader m' (q\<lparr>m_message_desc := ([], x), m_head := ?v, m_counter := m_counter q + 1\<rparr>) xs (Suc k)" for x
    using rd k v vneq sc f by (auto simp: reader_def pos_at_def q_field_defs s_counter_def)
  with pop have "\<forall>d. shared_pop_message E m (q\<lparr>m_message_desc := d\<rparr>) (?chain, pos)
      = returns (m', q\<lparr>m_message_desc := d, m_head := ?v, m_counter := m_counter q + 1\<rparr>)"
    "\<forall>x. reader m' (q\<lparr>m_message_desc := ([], x), m_head := ?v, m_counter := m_counter q + 1\<rparr>) xs (Suc k)"
    by blast+
  from this(1) m'_def this(2) cw(1,2) sc show thesis by (rule that)
qed

text \<open>The steps of one member of the group.\<close>

lemma disjoint_blocks: "{a :: nat..<a + 24} \<inter> {b..<b + 24} = {} \<Longrightarrow> b + 24 \<le> a \<or> a + 24 \<le> b"
proof (rule ccontr)
  assume "{a..<a + 24} \<inter> {b..<b + 24} = {}" and "\<not> (b + 24 \<le> a \<or> a + 24 \<le> b)"
  moreover from this have "max a b \<in> {a..<a + 24} \<inter> {b..<b + 24}" by auto
  ultimately show False by simp
qed

lemma group_at_member:
  assumes "group_at m ptr R rs xs ks" and "r \<in> R"
  shows "base_ptr (rs r) = base_ptr (ring_object ptr)" "shared_ptr (rs r) + 8 = base_ptr (rs r)"
    "shared_ptr (rs r) = ptr" "reader m (rs r) xs (ks r)" "ring_state m (rs r) xs"
    "finite R" "0 < card R"
proof -
  show base: "base_ptr (rs r) = base_ptr (ring_object ptr)" using assms by (simp add: group_at_def)
  show "ring_state m (rs r) xs"
    using assms by (simp add: ring_state_cong [OF base] group_at_def)
qed (use assms in \<open>auto simp: group_at_def card_gt_0_iff\<close>)

lemma group_member:
  assumes "group_inv m ptr R rs xs ks" and "r \<in> R"
  shows "base_ptr (rs r) = base_ptr (ring_object ptr)" "shared_ptr (rs r) + 8 = base_ptr (rs r)"
    "shared_ptr (rs r) = ptr" "reader m (rs r) xs (ks r)" "ring_state m (rs r) xs"
    "finite R" "0 < card R"
  using assms group_at_member [of m ptr R rs xs ks r] by (simp_all add: group_inv_at)

lemma group_at_readers:
  assumes "group_at m ptr R rs xs ks" and "\<And>r. r \<in> R \<Longrightarrow> base_ptr (rs' r) = base_ptr (rs r) \<and>
      shared_ptr (rs' r) = shared_ptr (rs r) \<and> reader m' (rs' r) xs' (ks' r)"
    and "ring_state m' (ring_object ptr) xs'"
    and "\<And>i. i < length xs' \<Longrightarrow> unat (counter_at m' (ring_object ptr) xs' i) = card {r \<in> R. ks' r \<le> i}"
  shows "group_at m' ptr R rs' xs' ks'"
  using assms by (auto simp: group_at_def)

lemma group_readers:
  assumes "group_inv m ptr R rs xs ks" and "\<And>r. r \<in> R \<Longrightarrow> base_ptr (rs' r) = base_ptr (rs r) \<and>
      shared_ptr (rs' r) = shared_ptr (rs r) \<and> reader m' (rs' r) xs' (ks' r)"
    and "ring_state m' (ring_object ptr) xs'" and "load32 m' ptr = load32 m ptr"
    and "\<And>i. i < length xs' \<Longrightarrow> unat (counter_at m' (ring_object ptr) xs' i) = card {r \<in> R. ks' r \<le> i}"
  shows "group_inv m' ptr R rs' xs' ks'"
  using assms by (auto simp: group_inv_def)

lemma group_get:
  assumes g: "group_inv m ptr R rs xs ks" and r: "r \<in> R" and cls: "class_of (rs r) = Shared_queue"
  shows "\<exists>chain q'. get E m (rs r) = returns (chain, m, q') \<and> group_inv m ptr R (rs(r := q')) xs ks
    \<and> class_of q' = Shared_queue
    \<and> read_message m chain = (if ks r < length xs then Some (xs ! ks r) else None)"
proof (cases "ks r < length xs")
  case True
  note mem = group_member [OF g r]
  obtain q' chain pos where d: "get E m (rs r) = returns (chain, m, q')"
    "q' = (rs r)\<lparr>m_message_desc := (chain, pos)\<rparr>" "reader m q' xs (ks r)"
    "read_message m chain = Some (xs ! ks r)"
    by (rule get_reader [OF mem(4) cls mem(5) True])
  have "group_inv m ptr R (rs(r := q')) xs ks"
    by (rule group_readers [OF g]) (use g d(2,3) in \<open>auto simp: group_inv_def\<close>)
  with d True cls show ?thesis by auto
next
  case False
  note mem = group_member [OF g r]
  have "ks r = length xs" using mem(4) False by (simp add: reader_def)
  then have "get E m (rs r) = returns ([], m, rs r)"
    using get_reader_none [of m "rs r" xs E] mem(4) by simp
  with g False cls show ?thesis by (simp add: read_message_def fun_upd_triv)
qed

text \<open>A member takes its next message: the message waits for one reader less.\<close>

lemma group_at_pop_step:
  assumes g: "group_at m ptr R rs xs ks" and r: "r \<in> R" and k: "ks r < length xs"
    and at: "atomic_spec (atomics E)"
    and pos: "unat pos mod cap_of m (ring_object ptr) = pos_at m (ring_object ptr) xs (Suc (ks r))"
  shows "\<exists>m' v. (\<forall>d. shared_pop_message E m ((rs r)\<lparr>m_message_desc := d\<rparr>)
        (chain_at (rs r) (cap_of m (ring_object ptr)) (pos_at m (ring_object ptr) xs (ks r))
          (length (snd (xs ! ks r))), pos)
      = returns (m', (rs r)\<lparr>m_message_desc := d, m_head := v, m_counter := m_counter (rs r) + 1\<rparr>))
    \<and> (\<forall>x. group_at m' ptr R
        (rs(r := (rs r)\<lparr>m_message_desc := ([], x), m_head := v, m_counter := m_counter (rs r) + 1\<rparr>))
        xs (ks(r := Suc (ks r))))
    \<and> unchanged m m' (ptr + 8) 24 \<and> load32 m' ptr = load32 m ptr
    \<and> load32 m' (ptr + 4) = load32 m (ptr + 4)
    \<and> only_changes m m' {addr_at m (ring_object ptr) xs (ks r) + 16..<addr_at m (ring_object ptr) xs (ks r) + 20}"
proof -
  let ?o = "ring_object ptr" and ?k = "ks r" and ?ks = "ks(r := Suc (ks r))"
  note mem = group_at_member [OF g r]
  have rs: "ring_state m ?o xs" using g by (simp add: group_at_def)
  note cong = at_cong [OF mem(1)]
  note cap = base_ptr_cong [OF mem(1)]
  have cnt: "unat (counter_at m ?o xs i) = card {r \<in> R. ks r \<le> i}" if "i < length xs" for i
    using g that by (simp add: group_at_def)
  have here: "r \<in> {r' \<in> R. ks r' \<le> ?k}" using r by simp
  have fin: "finite {r' \<in> R. ks r' \<le> i}" for i using mem(6) by simp
  have pos0: "0 < unat (counter_at m ?o xs ?k)"
    using cnt [OF k] here fin card_gt_0_iff by fastforce
  then have c: "counter_at m (rs r) xs ?k > 0" by (simp add: cong word_less_nat_alt)
  have pos': "unat pos mod cap_of m (rs r) = pos_at m (rs r) xs (Suc ?k)"
    using pos by (simp only: cong cap)
  obtain m' v where p: "\<forall>d. shared_pop_message E m ((rs r)\<lparr>m_message_desc := d\<rparr>)
        (chain_at (rs r) (cap_of m (rs r)) (pos_at m (rs r) xs ?k) (length (snd (xs ! ?k))), pos)
      = returns (m', (rs r)\<lparr>m_message_desc := d, m_head := v, m_counter := m_counter (rs r) + 1\<rparr>)"
    "m' = store32 m (addr_at m (rs r) xs ?k + 16) (counter_at m (rs r) xs ?k - 1)"
    "\<forall>x. reader m' ((rs r)\<lparr>m_message_desc := ([], x), m_head := v, m_counter := m_counter (rs r) + 1\<rparr>) xs (Suc ?k)"
    "ring_state m' (rs r) xs" "unchanged m m' (base_ptr (rs r)) 24"
    "s_counter m' (rs r) = s_counter m (rs r)"
    "load32 m' (shared_ptr (rs r)) = load32 m (shared_ptr (rs r))"
    by (rule pop_step [OF mem(4,5) k at c mem(2) pos'])
  let ?q = "\<lambda>x. (rs r)\<lparr>m_message_desc := ([], x), m_head := v, m_counter := m_counter (rs r) + 1\<rparr>"
  let ?a = "addr_at m ?o xs ?k"
  have m': "m' = store32 m (?a + 16) (counter_at m ?o xs ?k - 1)" using p(2) by (simp add: cong)
  have hdr: "unchanged m m' (base_ptr ?o) 24" using p(5) mem(1) by simp
  note f = header_unchanged [OF hdr]
  have addr: "addr_at m' ?o xs i = addr_at m ?o xs i" for i
    by (rule addr_at_same) (simp_all add: f)
  have inv: "group_at m' ptr R (rs(r := ?q x)) xs ?ks" for x
  proof (rule group_at_readers [OF g])
    fix r' assume r': "r' \<in> R"
    note mem' = group_at_member [OF g r']
    have hd: "head_of m' (rs r') = head_of m (rs r')" "cap_of m' (rs r') = cap_of m (rs r')"
      using f by (simp_all add: base_ptr_cong [OF mem'(1)])
    have sc: "s_counter m' (rs r') = s_counter m (rs r')"
      using p(6) mem'(3) mem(3) by (simp add: s_counter_def)
    show "base_ptr ((rs(r := ?q x)) r') = base_ptr (rs r') \<and> shared_ptr ((rs(r := ?q x)) r') = shared_ptr (rs r')
      \<and> reader m' ((rs(r := ?q x)) r') xs (?ks r')"
      using p(3) mem r reader_same [OF mem'(4) sc hd] by simp
  next
    show "ring_state m' ?o xs" using p(4) by (simp add: ring_state_cong [OF mem(1)])
  next
    fix i assume i: "i < length xs"
    show "unat (counter_at m' ?o xs i) = card {r' \<in> R. ?ks r' \<le> i}"
    proof (cases "i = ?k")
      case True
      have "{r' \<in> R. ?ks r' \<le> i} = {r' \<in> R. ks r' \<le> i} - {r}" using True by auto
      moreover have "counter_at m' ?o xs i = counter_at m ?o xs i - 1"
        unfolding True counter_at_def addr by (simp add: m' counter_at_def)
      ultimately show ?thesis
        using pos0 cnt [OF i] here True fin by (simp add: unat_sub word_le_nat_alt)
    next
      case False
      have "block_of m ?o xs i \<inter> block_of m ?o xs ?k = {}"
        by (rule blocks_disjoint [OF rs i k False])
      then have "?a + 24 \<le> addr_at m ?o xs i \<or> addr_at m ?o xs i + 24 \<le> ?a"
        using disjoint_blocks by blast
      then have "counter_at m' ?o xs i = counter_at m ?o xs i"
        unfolding counter_at_def addr by (auto simp: m' memory_simps)
      moreover have "{r' \<in> R. ?ks r' \<le> i} = {r' \<in> R. ks r' \<le> i}" using False by auto
      ultimately show ?thesis using cnt [OF i] by simp
    qed
  qed
  have w: "only_changes m m' {?a + 16..<?a + 20}" by (simp add: m' only_changes_store32)
  have "\<forall>d. shared_pop_message E m ((rs r)\<lparr>m_message_desc := d\<rparr>)
        (chain_at (rs r) (cap_of m ?o) (pos_at m ?o xs ?k) (length (snd (xs ! ?k))), pos)
      = returns (m', (rs r)\<lparr>m_message_desc := d, m_head := v, m_counter := m_counter (rs r) + 1\<rparr>)"
    using p(1) by (simp only: cong cap simp_thms)
  moreover have "unchanged m m' (ptr + 8) 24" using hdr by simp
  moreover have "load32 m' ptr = load32 m ptr" "load32 m' (ptr + 4) = load32 m (ptr + 4)"
    using p(6,7) mem(3) by (simp_all add: s_counter_def)
  ultimately show ?thesis using inv w by blast
qed

lemma group_pop_step:
  assumes g: "group_inv m ptr R rs xs ks" and r: "r \<in> R" and k: "ks r < length xs"
    and at: "atomic_spec (atomics E)"
    and pos: "unat pos mod cap_of m (ring_object ptr) = pos_at m (ring_object ptr) xs (Suc (ks r))"
  shows "\<exists>m' v. (\<forall>d. shared_pop_message E m ((rs r)\<lparr>m_message_desc := d\<rparr>)
        (chain_at (rs r) (cap_of m (ring_object ptr)) (pos_at m (ring_object ptr) xs (ks r))
          (length (snd (xs ! ks r))), pos)
      = returns (m', (rs r)\<lparr>m_message_desc := d, m_head := v, m_counter := m_counter (rs r) + 1\<rparr>))
    \<and> (\<forall>x. group_inv m' ptr R
        (rs(r := (rs r)\<lparr>m_message_desc := ([], x), m_head := v, m_counter := m_counter (rs r) + 1\<rparr>))
        xs (ks(r := Suc (ks r))))
    \<and> unchanged m m' (ptr + 8) 24 \<and> load32 m' (ptr + 4) = load32 m (ptr + 4)
    \<and> only_changes m m' {addr_at m (ring_object ptr) xs (ks r) + 16..<addr_at m (ring_object ptr) xs (ks r) + 20}"
proof -
  have ga: "group_at m ptr R rs xs ks" and c: "card R < 4294967296 \<and> load32 m ptr = of_nat (card R)"
    using g by (simp_all add: group_inv_at)
  obtain m' v where p: "\<forall>d. shared_pop_message E m ((rs r)\<lparr>m_message_desc := d\<rparr>)
        (chain_at (rs r) (cap_of m (ring_object ptr)) (pos_at m (ring_object ptr) xs (ks r))
          (length (snd (xs ! ks r))), pos)
      = returns (m', (rs r)\<lparr>m_message_desc := d, m_head := v, m_counter := m_counter (rs r) + 1\<rparr>)"
    "\<forall>x. group_at m' ptr R
        (rs(r := (rs r)\<lparr>m_message_desc := ([], x), m_head := v, m_counter := m_counter (rs r) + 1\<rparr>))
        xs (ks(r := Suc (ks r)))"
    "unchanged m m' (ptr + 8) 24" "load32 m' ptr = load32 m ptr" "load32 m' (ptr + 4) = load32 m (ptr + 4)"
    "only_changes m m' {addr_at m (ring_object ptr) xs (ks r) + 16..<addr_at m (ring_object ptr) xs (ks r) + 20}"
    using group_at_pop_step [OF ga r k at pos] by blast
  show ?thesis
    by (rule exI [of _ m'], rule exI [of _ v], intro conjI) (use p c in \<open>simp_all add: group_inv_at\<close>)
qed

text \<open>The description of the next message: cached by a get, or looked up.\<close>

lemma group_next:
  assumes g: "group_at m ptr R rs xs ks" and r: "r \<in> R" and k: "ks r < length xs"
  obtains pos where "static_get_message (rs r) m
      = returns (chain_at (rs r) (cap_of m (ring_object ptr)) (pos_at m (ring_object ptr) xs (ks r))
          (length (snd (xs ! ks r))), pos)"
    "unat pos mod cap_of m (ring_object ptr) = pos_at m (ring_object ptr) xs (Suc (ks r))"
proof -
  note mem = group_at_member [OF g r]
  have "q_count m (rs r) > 0" using q_count_pos [OF mem(4)] k by simp
  then have ne: "\<not> q_empty m (rs r)" by (simp add: q_empty_def)
  show thesis
    using static_get_at [OF mem(5) k q_head_reader [OF mem(4,5)] ne] that
    by (simp only: at_cong [OF mem(1)] base_ptr_cong [OF mem(1)]) blast
qed

lemma group_cached:
  assumes g: "group_at m ptr R rs xs ks" and r: "r \<in> R" and c: "fst (m_message_desc (rs r)) \<noteq> []"
  shows "ks r < length xs" "fst (m_message_desc (rs r))
      = chain_at (rs r) (cap_of m (ring_object ptr)) (pos_at m (ring_object ptr) xs (ks r)) (length (snd (xs ! ks r)))"
    "unat (snd (m_message_desc (rs r))) mod cap_of m (ring_object ptr) = pos_at m (ring_object ptr) xs (Suc (ks r))"
  using group_at_member(4) [OF g r] c
  by (auto simp: reader_def at_cong [OF group_at_member(1) [OF g r]] base_ptr_cong [OF group_at_member(1) [OF g r]])

lemma group_pop:
  assumes g: "group_inv m ptr R rs xs ks" and r: "r \<in> R" and k: "ks r < length xs"
    and at: "atomic_spec (atomics E)" and cls: "class_of (rs r) = Shared_queue"
  shows "\<exists>m' q'. pop E m (rs r) = returns (True, m', q')
    \<and> group_inv m' ptr R (rs(r := q')) xs (ks(r := Suc (ks r)))
    \<and> class_of q' = Shared_queue \<and> unchanged m m' (ptr + 8) 24
    \<and> load32 m' (ptr + 4) = load32 m (ptr + 4)"
proof -
  let ?o = "ring_object ptr"
  have ga: "group_at m ptr R rs xs ks" using g by (simp add: group_inv_at)
  let ?chain = "chain_at (rs r) (cap_of m ?o) (pos_at m ?o xs (ks r)) (length (snd (xs ! ks r)))"
  obtain pos where pos: "unat pos mod cap_of m ?o = pos_at m ?o xs (Suc (ks r))"
    and found: "(if fst (m_message_desc (rs r)) = [] then
             and_then (get_message E m (rs r)) (\<lambda>(desc, m1, q1).
               returns (m1, q1\<lparr>m_message_desc := desc\<rparr>))
           else returns (m, rs r)) = returns (m, (rs r)\<lparr>m_message_desc := (?chain, pos)\<rparr>)"
  proof (cases "fst (m_message_desc (rs r)) = []")
    case True
    obtain p where "static_get_message (rs r) m = returns (?chain, p)"
      "unat p mod cap_of m ?o = pos_at m ?o xs (Suc (ks r))"
      by (rule group_next [OF ga r k])
    then show thesis by (intro that [of p]) (simp_all add: True shared_class_simps [OF cls])
  next
    case False
    note d = group_cached [OF ga r False]
    show thesis by (rule that [OF d(3)]) (use False in \<open>simp add: d(2) [symmetric]\<close>)
  qed
  obtain m' v where p: "\<forall>d. shared_pop_message E m ((rs r)\<lparr>m_message_desc := d\<rparr>) (?chain, pos)
      = returns (m', (rs r)\<lparr>m_message_desc := d, m_head := v, m_counter := m_counter (rs r) + 1\<rparr>)"
    "\<forall>x. group_inv m' ptr R
        (rs(r := (rs r)\<lparr>m_message_desc := ([], x), m_head := v, m_counter := m_counter (rs r) + 1\<rparr>))
        xs (ks(r := Suc (ks r)))"
    "unchanged m m' (ptr + 8) 24" "load32 m' (ptr + 4) = load32 m (ptr + 4)"
    using group_pop_step [OF g r k at pos] by blast
  have "q_count m (rs r) > 0" using q_count_pos [OF group_member(4) [OF g r]] k by simp
  then have "pop E m (rs r) = returns (True, m',
      (rs r)\<lparr>m_message_desc := ([], pos), m_head := v, m_counter := m_counter (rs r) + 1\<rparr>)"
    by (simp add: pop_def found shared_class_simps(7) cls p(1))
  with p(2-4) cls show ?thesis by fastforce
qed

section \<open>Cleaning and pushing in a group\<close>

text \<open>
  Any object on the ring can clean and push, whether it is a member or not: one that is only
  used for writing, or one that is about to subscribe.
\<close>

definition on_ring :: "nat \<Rightarrow> queue \<Rightarrow> bool" where
  "on_ring ptr q \<longleftrightarrow> base_ptr q = ptr + 8 \<and> shared_ptr q = ptr \<and> class_of q \<noteq> Simple_queue"

lemma on_ringD:
  assumes "on_ring ptr q"
  shows "base_ptr q = base_ptr (ring_object ptr)" "shared_ptr q = ptr" "base_ptr q = ptr + 8"
    "class_of q \<noteq> Simple_queue"
  using assms by (simp_all add: on_ring_def)

lemma member_on_ring: "group_inv m ptr R rs xs ks \<Longrightarrow> r \<in> R \<Longrightarrow> on_ring ptr (rs r)"
  by (simp add: group_inv_def on_ring_def reader_def)

lemma ring_state_short:
  assumes "ring_state m q xs"
  shows "length xs < 4294967295"
proof -
  have "length xs \<le> cap_of m q"
    using assms length_le_used [of xs "cap_of m q" "head_of m q"] by (simp add: ring_state_def)
  moreover have "cap_of m q \<noteq> length xs \<or> length xs = 0"
  proof (cases xs)
    case (Cons x ys)
    have "24 + length (snd x) + length ys \<le> used (cap_of m q) (head_of m q) xs"
      using span_ge [of "length (snd x)" "cap_of m q" "head_of m q"]
        length_le_used [of ys "cap_of m q" "after (cap_of m q) (head_of m q) x"]
      by (simp add: Cons)
    then show ?thesis using assms by (simp add: ring_state_def Cons)
  qed simp
  ultimately show ?thesis using cap_of_bound [of m q] by auto
qed

lemma group_clean_any:
  assumes g: "group_inv m ptr R rs xs ks" and q: "on_ring ptr q" and at: "atomic_spec (atomics E)"
    and full: "s_counter m q - m_counter q \<noteq> - 1"
    and jlen: "j \<le> length xs" and jle: "\<And>r. r \<in> R \<Longrightarrow> j \<le> ks r"
    and here: "j < length xs \<Longrightarrow> \<exists>r \<in> R. ks r = j"
  shows "\<exists>m1. shared_clean_messages E m q = returns ((of_nat j,
        of_nat (taken (cap_of m (ring_object ptr)) (head_of m (ring_object ptr)) (take j xs))), m1)
    \<and> group_inv m1 ptr R rs (drop j xs) (\<lambda>r. ks r - j)
    \<and> head_of m1 (ring_object ptr) = pos_at m (ring_object ptr) xs j
    \<and> cap_of m1 (ring_object ptr) = cap_of m (ring_object ptr)
    \<and> only_changes m m1 {ptr + 20..<ptr + 28}"
proof -
  let ?o = "ring_object ptr"
  let ?q1 = "q\<lparr>m_head := - 1, m_counter := m_counter q - 1\<rparr>"
  note q' = on_ringD [OF q]
  have rs: "ring_state m ?o xs" using g by (simp add: group_inv_def)
  have fin: "finite R" using g by (simp add: group_inv_def)
  have cnt: "unat (counter_at m ?o xs i) = card {r \<in> R. ks r \<le> i}" if "i < length xs" for i
    using g that by (simp add: group_inv_def)
  have base: "base_ptr ?q1 = base_ptr ?o" "base_ptr ?q1 = base_ptr q" using q' by simp_all
  have zero: "counter_at m ?q1 xs i = 0" if "i < j" for i
  proof -
    have "{r \<in> R. ks r \<le> i} = {}" using jle that by fastforce
    then have "card {r \<in> R. ks r \<le> i} = 0" by (simp only: card.empty)
    then have "unat (counter_at m ?o xs i) = 0" using cnt [of i] that jlen by simp
    then show ?thesis by (simp add: at_cong [OF base(1)] unat_eq_zero)
  qed
  have nonzero: "counter_at m ?q1 xs j \<noteq> 0" if "j < length xs"
  proof -
    from here [OF that] obtain r' where "r' \<in> R" "ks r' = j" by blast
    then have "r' \<in> {r \<in> R. ks r \<le> j}" by simp
    then have "0 < card {r \<in> R. ks r \<le> j}" using fin by (auto simp: card_gt_0_iff)
    then have "unat (counter_at m ?o xs j) \<noteq> 0" using cnt [OF that] by simp
    then show ?thesis by (auto simp: at_cong [OF base(1)])
  qed
  have ne: "s_counter m ?q1 \<noteq> m_counter ?q1"
  proof
    assume "s_counter m ?q1 = m_counter ?q1"
    then have "s_counter m q - m_counter q = - 1" by (simp add: s_counter_def)
    with full show False by simp
  qed
  have rsq: "ring_state m ?q1 xs" using rs by (simp add: ring_state_cong [OF base(1)])
  have "\<exists>m'. clean_loop E ?q1 (length xs) m (0, 0) = returns ((fst (0 :: u64, 0 :: u64) + of_nat j,
        snd (0 :: u64, 0 :: u64) + of_nat (taken (cap_of m ?q1) (head_of m ?q1) (take j xs))), m')
    \<and> ring_state m' ?q1 (drop j xs) \<and> head_of m' ?q1 = pos_at m ?q1 xs j \<and> cap_of m' ?q1 = cap_of m ?q1
    \<and> only_changes m m' {base_ptr ?q1 + 12..<base_ptr ?q1 + 20}"
    by (rule clean_loop_spec [OF rsq _ _ _ ne at jlen zero nonzero]) (use q' in auto)
  then obtain m1 where loop: "clean_loop E ?q1 (length xs) m (0, 0) = returns ((of_nat j,
        of_nat (taken (cap_of m ?o) (head_of m ?o) (take j xs))), m1)"
    "ring_state m1 ?q1 (drop j xs)" "head_of m1 ?q1 = pos_at m ?q1 xs j" "cap_of m1 ?q1 = cap_of m ?q1"
    "only_changes m m1 {base_ptr ?q1 + 12..<base_ptr ?q1 + 20}"
    by (auto simp: base_ptr_cong [OF base(1)] simp del: clean_loop.simps)
  have "unat (base_count m q) = length xs"
    using rs by (simp add: ring_state_def base_ptr_cong [OF q'(1)])
  then have clean: "shared_clean_messages E m q = returns ((of_nat j,
        of_nat (taken (cap_of m ?o) (head_of m ?o) (take j xs))), m1)"
    using loop(1) jlen by (auto simp: shared_clean_messages_def Let_def word_less_nat_alt)
  have w: "only_changes m m1 {ptr + 20..<ptr + 28}" using loop(5) base(1) by (simp add: add.commute)
  have hd: "head_of m1 ?o = pos_at m ?o xs j" "cap_of m1 ?o = cap_of m ?o"
    using loop(3,4) by (simp_all only: base_ptr_cong [OF base(1)] at_cong [OF base(1)])
  have h: "head_of m ?o < cap_of m ?o" using rs by (simp add: ring_state_def header_ok_def)
  have "group_inv m1 ptr R rs (drop j xs) (\<lambda>r. ks r - j)"
  proof (rule group_readers [OF g])
    fix r' assume r': "r' \<in> R"
    note mem' = group_member [OF g r']
    have "s_counter m1 (rs r') = s_counter m (rs r')"
      unfolding s_counter_def
      by (intro load32_unchanged only_changes_unchanged [OF w]) (use mem'(3) in auto)
    moreover have "head_of m1 (rs r') = pos_at m (rs r') xs j" "cap_of m1 (rs r') = cap_of m (rs r')"
      "head_of m (rs r') < cap_of m (rs r')"
      using hd h by (simp_all only: base_ptr_cong [OF mem'(1)] at_cong [OF mem'(1)])
    ultimately show "base_ptr (rs r') = base_ptr (rs r') \<and> shared_ptr (rs r') = shared_ptr (rs r')
        \<and> reader m1 (rs r') (drop j xs) (ks r' - j)"
      using reader_drop [OF mem'(4) jle [OF r']] by simp
  next
    show "ring_state m1 ?o (drop j xs)" using loop(2) by (simp add: ring_state_cong [OF base(1)])
    show "load32 m1 ptr = load32 m ptr"
      by (intro load32_unchanged only_changes_unchanged [OF w]) auto
  next
    fix i assume "i < length (drop j xs)"
    then have i: "j + i < length xs" by simp
    have "block_of m ?o xs (j + i) \<subseteq> {data_start ?o..<data_start ?o + cap_of m ?o}"
      by (rule block_inside [OF rs i])
    then have "unchanged m m1 (addr_at m ?o xs (j + i) + 16) 4"
      by (intro only_changes_unchanged [OF w]) auto
    then have "counter_at m1 ?o (drop j xs) i = counter_at m ?o xs (j + i)"
      by (simp add: counter_at_def addr_at_drop [OF h hd i] load32_unchanged)
    moreover have "{r \<in> R. ks r - j \<le> i} = {r \<in> R. ks r \<le> j + i}" by auto
    ultimately show "unat (counter_at m1 ?o (drop j xs) i) = card {r \<in> R. ks r - j \<le> i}"
      using cnt [OF i] by simp
  qed
  with clean hd w show ?thesis by blast
qed

text \<open>A member drops everything that all members have read.\<close>

lemma lowest_member:
  assumes g: "group_inv m ptr R rs xs ks" and r: "r \<in> R"
  shows "Min (ks ` R) \<le> length xs" "\<And>r. r \<in> R \<Longrightarrow> Min (ks ` R) \<le> ks r"
    "\<exists>r \<in> R. ks r = Min (ks ` R)"
proof -
  have fin: "finite (ks ` R)" "ks ` R \<noteq> {}" using group_member(6) [OF g r] r by auto
  show "\<And>r. r \<in> R \<Longrightarrow> Min (ks ` R) \<le> ks r" using fin by simp
  then show "Min (ks ` R) \<le> length xs"
    using r group_member(4) [OF g r] by (fastforce simp: reader_def)
  show "\<exists>r \<in> R. ks r = Min (ks ` R)" using Min_in [OF fin] by auto
qed

lemma member_not_full:
  assumes g: "group_inv m ptr R rs xs ks" and r: "r \<in> R"
  shows "s_counter m (rs r) - m_counter (rs r) \<noteq> - 1"
proof
  assume "s_counter m (rs r) - m_counter (rs r) = - 1"
  then have "unat (s_counter m (rs r) - m_counter (rs r)) = 4294967295"
    by (simp add: unsigned_minus_1_eq_mask mask_eq_exp_minus_1)
  moreover have "unat (s_counter m (rs r) - m_counter (rs r)) = length xs - ks r"
    using group_member(4) [OF g r] by (simp add: reader_def)
  ultimately show False using ring_state_short [OF group_member(5) [OF g r]] by linarith
qed

lemma ucast_32_64_32: "ucast (ucast (x :: u32) :: u64) = x"
  by (rule word_unat_eq_iff [THEN iffD2])
    (use unat_lt_u32 [of x] in \<open>simp only: unat_ucast_64_32 unat_ucast_32_64 mod_less\<close>)

text \<open>The process that pushed the \<open>i\<close>-th message.\<close>

definition sid_at :: "memory \<Rightarrow> nat \<Rightarrow> (tag_type \<times> u8 list) list \<Rightarrow> nat \<Rightarrow> sid_type" where
  "sid_at m ptr xs i = msg_sid m (addr_at m (ring_object ptr) xs i)"

lemma sid_at_kept:
  assumes "ring_state m (ring_object ptr) xs" and "i < length xs"
    and "same_cells m m' (ring_object ptr) (ring_cells m (ring_object ptr) xs)"
    and "head_of m' (ring_object ptr) = head_of m (ring_object ptr)"
    and "cap_of m' (ring_object ptr) = cap_of m (ring_object ptr)"
  shows "sid_at m' ptr xs i = sid_at m ptr xs i"
proof -
  let ?o = "ring_object ptr"
  have same: "addr_at m' ?o xs i = addr_at m ?o xs i" using assms(4,5) by (simp add: addr_at_def pos_at_def)
  have "unchanged m m' (addr_at m ?o xs i + 8) 4"
    unfolding unchanged_def
  proof (intro allI impI)
    fix a assume "addr_at m ?o xs i + 8 \<le> a" "a < addr_at m ?o xs i + 8 + 4"
    then have "a \<in> block_of m ?o xs i" by simp
    then obtain j where "a = data_start ?o + j" "j \<in> ring_cells m ?o xs"
      using block_span [OF assms(1,2)] by blast
    with assms(3) show "m' a = m a" by (simp add: same_cells_def)
  qed
  then show ?thesis by (simp add: sid_at_def msg_sid_def same load32_unchanged)
qed

text \<open>
  A message that has been made counts every subscriber, and is in the ring for all of them
  once its tag, the tail and the number of messages are written; \<open>m3'\<close> lets the pusher write
  something in front of the queue in between.
\<close>

lemma push_lands:
  assumes g: "group_inv (mem w) ptr R rs ys ls" and q: "on_ring ptr q" and at: "atomic_spec (atomics E)"
    and room: "fits (cap_of (mem w) (ring_object ptr)) (head_of (mem w) (ring_object ptr)) ys data"
    and made: "static_make_message E q w data
       = returns ((chain_at q (cap_of (mem w) q) (tail_of (mem w) q) (length data), pos), w2)"
    "unat pos mod cap_of (mem w) q
       = (tail_of (mem w) q + span (cap_of (mem w) q) (tail_of (mem w) q) (length data))
           mod cap_of (mem w) q"
    "laid_out (mem w2) q (tail_of (mem w) q) data"
    "msg_sid (mem w2) (hd (chain_at q (cap_of (mem w) q) (tail_of (mem w) q) (length data)))
       = get_sid E"
    "only_changes (mem w) (mem w2) (free_cells (mem w) q)"
  shows "\<exists>m3 a. shared_push_message E q w data = returns ((a, pos), w2\<lparr>mem := m3\<rparr>) \<and> a \<noteq> []
    \<and> total_size m3 a = of_nat (taken (cap_of (mem w) (ring_object ptr))
        (tail_of (mem w) (ring_object ptr)) [(tag, data)])
    \<and> only_changes (mem w) m3 {ptr + 4..}
    \<and> (\<forall>m3'. only_changes m3 m3' {..<ptr} \<longrightarrow> (\<exists>m4 m5.
        set_tail (msg_set_tag m3' (hd a) tag) q pos = returns m4
        \<and> m5 = set_base_count m4 q (base_count m4 q + 1)
        \<and> group_inv m5 ptr R rs (ys @ [(tag, data)]) ls
        \<and> head_of m5 (ring_object ptr) = head_of (mem w) (ring_object ptr)
        \<and> cap_of m5 (ring_object ptr) = cap_of (mem w) (ring_object ptr)
        \<and> keepalive_timeout m5 (ring_object ptr) = keepalive_timeout (mem w) (ring_object ptr)
        \<and> s_counter m5 (ring_object ptr) = s_counter (mem w) (ring_object ptr) + 1
        \<and> (\<forall>i < length ys. sid_at m5 ptr (ys @ [(tag, data)]) i = sid_at (mem w) ptr ys i)
        \<and> sid_at m5 ptr (ys @ [(tag, data)]) (length ys) = get_sid E
        \<and> only_changes m3' m5 {ptr + 20..}))"
proof -
  let ?m = "mem w" and ?o = "ring_object ptr" and ?q = "q"
  let ?c = "cap_of ?m ?q" and ?h = "head_of ?m ?q" and ?t = "tail_of ?m ?q" and ?n = "length data"
  note gm = on_ringD [OF q]
  note base = base_ptr_cong [OF gm(1)]
  have rs: "ring_state ?m ?q ys" using g by (simp add: ring_state_cong [OF gm(1)] group_inv_def)
  have ok: "header_ok ?m ?q" using rs by (simp add: ring_state_def)
  have tail: "?t = (?h + used ?c ?h ys) mod ?c" using rs by (simp add: ring_state_def)
  have fit: "fits ?c ?h ys data" using room by (simp add: base)
  then have s: "used ?c ?h ys + span ?c ?t ?n \<le> ?c" by (simp only: fits_def tail [symmetric])
  have sp: "span ?c ?t ?n \<le> ?c" using s by simp
  have lt: "?h < ?c" "?t < ?c" using ok by (simp_all add: header_ok_def)
  let ?chain = "chain_at ?q ?c ?t ?n"
  let ?a = "hd ?chain"
  have apos: "?a = data_start ?q + fst (hd (place ?c ?t ?n))" by (simp add: hd_chain_at)
  note free = ring_state_free [OF rs made(5)]
  have inside: "{fst (hd (place ?c ?t ?n))..<fst (hd (place ?c ?t ?n)) + 24} \<subseteq> arc ?c ?t (span ?c ?t ?n)"
    by (rule hd_place_arc [OF lt(2) sp])
  have below: "fst (hd (place ?c ?t ?n)) + 24 \<le> ?c"
  proof -
    have "{fst (hd (place ?c ?t ?n))..<fst (hd (place ?c ?t ?n)) + 24} \<subseteq> {0..<?c}"
      using inside arc_below [OF lt(2) sp] by (rule subset_trans)
    then show ?thesis by auto
  qed
  have shp: "shared_ptr ?q = ptr" "base_ptr ?q = ptr + 8" using gm by simp_all
  have freeout: "free_cells ?m ?q \<subseteq> {data_start ?q..<data_start ?q + ?c}"
    by (rule free_cells_inside [OF ok])
  have subs2: "load32 (mem w2) ptr = of_nat (card R)"
  proof -
    have "load32 (mem w2) ptr = load32 ?m ptr"
      by (intro load32_unchanged only_changes_unchanged [OF made(5)]) (use freeout shp in fastforce)
    then show ?thesis using g by (simp add: group_inv_def)
  qed
  define m2 where "m2 = store32 (mem w2) (?a + 16) (of_nat (card R))"
  have m2: "msg_set_counter E (mem w2) ?a (subscriptions_count E (mem w2) ?q) = m2"
    by (simp add: msg_set_counter_def subscriptions_count_def atomic_specD [OF at] shp subs2 m2_def
      ucast_32_64_32)
  have w2c: "only_changes (mem w2) m2 {?a + 16..<?a + 20}"
    by (simp add: m2_def only_changes_store32)
  define m3 where "m3 = store32 m2 (ptr + 4) (s_counter m2 ?q + 1)"
  have m3: "set_s_counter m2 ?q (s_counter m2 ?q + 1) = m3" by (simp add: set_s_counter_def shp m3_def)
  have w3: "only_changes m2 m3 {ptr + 4..<ptr + 8}" by (simp add: m3_def only_changes_store32)
  have push: "shared_push_message E ?q w data = returns ((?chain, pos), w2\<lparr>mem := m3\<rparr>)"
    by (simp add: shared_push_message_def made(1) m2 m3 Let_def)
  have cap2: "cap_of (mem w2) ?q = ?c" using header_unchanged(1) [OF free(2)] by simp
  have hdr2: "unchanged (mem w2) m2 (base_ptr ?q) 24"
    by (rule only_changes_unchanged [OF w2c]) (auto simp: apos)
  have cap2': "cap_of m2 ?q = ?c" using header_unchanged(1) [OF hdr2] cap2 by simp
  have st2: "stored (mem w2) ?q ?t (msg_tag (mem w2) ?a, data)"
    using made(3) by (simp add: stored_def cap2)
  have st3: "stored m2 ?q ?t (msg_tag (mem w2) ?a, data)"
    by (rule stored_counter [OF st2 _ _ w2c]) (use lt sp cap2 cap2' in simp_all)
  have "stored m3 ?q ?t (msg_tag (mem w2) ?a, data)"
  proof (rule stored_frame [OF st3])
    show "cap_of m3 ?q = cap_of m2 ?q"
      by (rule arg_cong [where f = unat], rule header_unchanged(1))
        (rule only_changes_unchanged [OF w3], auto simp: shp)
    show "same_cells m2 m3 ?q A" for A by (rule same_cells_outside [OF w3]) (simp add: shp)
  qed (use lt sp cap2' in simp_all)
  moreover have "cap_of m3 ?q = ?c"
    using cap2' header_unchanged(1) [of m2 m3 ?q] only_changes_unchanged [OF w3] by (simp add: shp)
  ultimately have size: "total_size m3 ?chain = of_nat (taken (cap_of ?m ?o) (tail_of ?m ?o) [(tag, data)])"
    using total_size_stored [of m3 ?q ?t _ ?c] by (force simp: base)
  have away: "only_changes ?m m3 {ptr + 4..}"
    by (rule only_changes_trans3 [OF made(5) w2c w3]) (use freeout in \<open>auto simp: shp apos\<close>)
  have lands: "\<exists>m4 m5. set_tail (msg_set_tag m3' ?a tag) q pos = returns m4
        \<and> m5 = set_base_count m4 q (base_count m4 q + 1)
        \<and> group_inv m5 ptr R rs (ys @ [(tag, data)]) ls
        \<and> head_of m5 ?o = head_of ?m ?o \<and> cap_of m5 ?o = cap_of ?m ?o
        \<and> keepalive_timeout m5 ?o = keepalive_timeout ?m ?o
        \<and> s_counter m5 ?o = s_counter ?m ?o + 1
        \<and> (\<forall>i < length ys. sid_at m5 ptr (ys @ [(tag, data)]) i = sid_at ?m ptr ys i)
        \<and> sid_at m5 ptr (ys @ [(tag, data)]) (length ys) = get_sid E
        \<and> only_changes m3' m5 {ptr + 20..}"
    if w4: "only_changes m3 m3' {..<ptr}" for m3'
  proof -
  have w3c: "only_changes m2 m3' ({..<ptr} \<union> {ptr + 4..<ptr + 8})"
    by (rule only_changes_trans [OF w3 w4]) auto
  have hdr3: "unchanged m2 m3' (base_ptr ?q) 24"
    by (rule only_changes_unchanged [OF w3c]) (auto simp: shp)
  have hdr: "unchanged ?m m3' (base_ptr ?q) 24"
    by (rule unchanged_trans [OF free(2) unchanged_trans [OF hdr2 hdr3]])
  have cap3: "cap_of m2 ?q = ?c" "cap_of m3' ?q = ?c"
    using cap2' header_unchanged(1) [OF hdr3] by simp_all
  have cells3: "same_cells m2 m3' ?q A" for A
    by (rule same_cells_outside [OF w3c]) (simp add: shp)
  have "stored m3' ?q ?t (msg_tag (mem w2) ?a, data)"
    by (rule stored_frame [OF st3 _ _ _ cells3]) (use lt sp cap3 in simp_all)
  then have laid: "laid_out m3' ?q ?t data" by (simp add: stored_def)
  have disj: "arc ?c ?h (used ?c ?h ys) \<inter> arc ?c ?t (span ?c ?t ?n) = {}"
    using arc_disjoint [OF lt(1) s] by (simp add: tail [symmetric])
  have cells2: "same_cells (mem w2) m2 ?q (ring_cells ?m ?q ys)"
  proof (rule same_cells_outside [OF w2c])
    fix i assume "i \<in> ring_cells ?m ?q ys"
    then have "i \<notin> {fst (hd (place ?c ?t ?n))..<fst (hd (place ?c ?t ?n)) + 24}"
      using disj inside by blast
    then show "data_start ?q + i \<notin> {?a + 16..<?a + 20}" by (auto simp: apos)
  qed
  have cells: "same_cells ?m m3' ?q (ring_cells ?m ?q ys)"
    by (rule same_cells_trans [OF free(3) same_cells_trans [OF cells2 cells3]])
  obtain m4 m5 where c: "set_tail (msg_set_tag m3' ?a tag) ?q pos = returns m4"
    "m5 = set_base_count m4 ?q (base_count m4 ?q + 1)" "ring_state m5 ?q (ys @ [(tag, data)])"
    "head_of m5 ?q = ?h" "cap_of m5 ?q = ?c"
    "only_changes m3' m5 ({base_ptr ?q + 12..<base_ptr ?q + 16} \<union> {base_ptr ?q + 20..<base_ptr ?q + 24}
       \<union> {?a + 12..<?a + 16})"
    by (rule commit_message [OF rs s laid hdr cells made(2) refl, where tag = tag])
  have head5: "head_of m5 ?o = head_of ?m ?o" "cap_of m5 ?o = cap_of ?m ?o"
    using c(4,5) by (simp_all add: base)
  have ka: "keepalive_timeout m5 ?o = keepalive_timeout ?m ?o"
  proof -
    have "keepalive_timeout m5 ?q = keepalive_timeout m3' ?q"
      unfolding keepalive_timeout_def
      by (subst field_unchanged [OF c(6), where k = 8]) (auto simp: apos)
    then show ?thesis using header_unchanged(5) [OF hdr] by (simp add: base)
  qed
  have sc: "s_counter m5 ?q = s_counter ?m ?q + 1"
  proof -
    have "s_counter m5 ?q = s_counter m3' ?q" unfolding s_counter_def
      by (intro load32_unchanged only_changes_unchanged [OF c(6)]) (auto simp: shp apos)
    moreover have "s_counter m3' ?q = s_counter m3 ?q" unfolding s_counter_def
      by (intro load32_unchanged only_changes_unchanged [OF w4]) (auto simp: shp)
    moreover have "s_counter m3 ?q = s_counter m2 ?q + 1" by (simp add: m3_def s_counter_def shp)
    moreover have "s_counter m2 ?q = s_counter (mem w2) ?q" unfolding s_counter_def
      by (intro load32_unchanged only_changes_unchanged [OF w2c]) (auto simp: shp apos)
    moreover have "s_counter (mem w2) ?q = s_counter ?m ?q" unfolding s_counter_def
      by (intro load32_unchanged only_changes_unchanged [OF made(5)]) (use freeout shp in fastforce)
    ultimately show ?thesis by simp
  qed
  have short: "length ys < 4294967295"
    using ring_state_bounds(3) [OF c(3)] by simp
  have inv: "group_inv m5 ptr R rs (ys @ [(tag, data)]) ls"
  proof (rule group_readers [OF g])
    fix r' assume r': "r' \<in> R"
    note gm' = group_member [OF g r']
    have "s_counter m5 (rs r') = s_counter ?m (rs r') + 1"
      using sc shp gm'(3) by (simp add: s_counter_def)
    moreover have "head_of m5 (rs r') = head_of ?m (rs r')" "cap_of m5 (rs r') = cap_of ?m (rs r')"
      using head5 by (simp_all add: base_ptr_cong [OF gm'(1)])
    ultimately show "base_ptr (rs r') = base_ptr (rs r') \<and> shared_ptr (rs r') = shared_ptr (rs r')
        \<and> reader m5 (rs r') (ys @ [(tag, data)]) (ls r')"
      using reader_append [OF gm'(4) _ _ _ short] by simp
  next
    show "ring_state m5 ?o (ys @ [(tag, data)])" using c(3) by (simp add: ring_state_cong [OF gm(1)])
    have "load32 m5 ptr = load32 m3' ptr"
      by (intro load32_unchanged only_changes_unchanged [OF c(6)]) (auto simp: shp apos)
    moreover have "load32 m3' ptr = load32 m2 ptr"
      by (intro load32_unchanged only_changes_unchanged [OF w3c]) auto
    moreover have "load32 m2 ptr = load32 (mem w2) ptr"
      by (intro load32_unchanged only_changes_unchanged [OF w2c]) (auto simp: shp apos)
    ultimately show "load32 m5 ptr = load32 ?m ptr" using subs2 g by (simp add: group_inv_def)
  next
    fix i assume i: "i < length (ys @ [(tag, data)])"
    show "unat (counter_at m5 ?o (ys @ [(tag, data)]) i) = card {r \<in> R. ls r \<le> i}"
    proof (cases "i < length ys")
      case True
      have "counter_at m3' ?q ys i = counter_at ?m ?q ys i"
        by (rule counter_at_kept [OF rs True cells]) (simp_all add: header_unchanged [OF hdr])
      moreover have "addr_at m5 ?q (ys @ [(tag, data)]) i = addr_at ?m ?q ys i"
        "addr_at m3' ?q ys i = addr_at ?m ?q ys i"
        using c(4,5) True header_unchanged [OF hdr]
        by (simp_all add: addr_at_append addr_at_same [of m5 ?q ?m] addr_at_same [of m3' ?q ?m])
      moreover have "load32 m5 (addr_at ?m ?q ys i + 16) = load32 m3' (addr_at ?m ?q ys i + 16)"
      proof (intro load32_unchanged only_changes_unchanged [OF c(6)])
        have "block_of ?m ?q ys i \<subseteq> (\<lambda>j. data_start ?q + j) ` ring_cells ?m ?q ys"
          using block_span [OF rs True] by blast
        moreover have "(\<lambda>j. data_start ?q + j) ` ring_cells ?m ?q ys \<inter> {?a..<?a + 24} = {}"
          using disj inside unfolding apos by (force simp: disjoint_iff)
        ultimately have "block_of ?m ?q ys i \<inter> {?a..<?a + 24} = {}" by blast
        moreover have "data_start ?q \<le> addr_at ?m ?q ys i"
          using block_inside [OF rs True] by auto
        ultimately show "{addr_at ?m ?q ys i + 16..<addr_at ?m ?q ys i + 16 + 4}
            \<inter> ({base_ptr ?q + 12..<base_ptr ?q + 16} \<union> {base_ptr ?q + 20..<base_ptr ?q + 24}
              \<union> {?a + 12..<?a + 16}) = {}"
          using disjoint_blocks [of "addr_at ?m ?q ys i" ?a] by auto
      qed
      ultimately have "counter_at m5 ?q (ys @ [(tag, data)]) i = counter_at ?m ?q ys i"
        by (simp add: counter_at_def)
      then have "counter_at m5 ?o (ys @ [(tag, data)]) i = counter_at ?m ?o ys i"
        by (simp add: at_cong [OF gm(1)])
      then show ?thesis using g True by (simp add: group_inv_def)
    next
      case False
      then have ie: "i = length ys" using i by simp
      have "pos_at m5 ?q (ys @ [(tag, data)]) i = ?t"
        using c(4,5) by (simp add: pos_at_def ie tail)
      then have "addr_at m5 ?q (ys @ [(tag, data)]) i = ?a"
        using c(5) by (simp add: addr_at_def ie)
      moreover have "load32 m5 (?a + 16) = load32 m3' (?a + 16)"
        by (intro load32_unchanged only_changes_unchanged [OF c(6)]) (auto simp: apos)
      moreover have "load32 m3' (?a + 16) = load32 m2 (?a + 16)"
        by (intro load32_unchanged only_changes_unchanged [OF w3c]) (auto simp: apos shp)
      ultimately have "counter_at m5 ?q (ys @ [(tag, data)]) i = of_nat (card R)"
        by (simp add: counter_at_def m2_def)
      then have "unat (counter_at m5 ?o (ys @ [(tag, data)]) i) = card R"
        using g by (simp add: at_cong [OF gm(1)] group_inv_def unat_of_nat take_bit_nat_eq_self)
      moreover have "{r \<in> R. ls r \<le> i} = R"
        using group_member(4) [OF g] by (auto simp: reader_def ie)
      ultimately show ?thesis by simp
    qed
  qed
  have frame: "only_changes m3' m5 {ptr + 20..}"
    by (rule only_changes_mono [OF c(6)]) (auto simp: shp apos)
  have sids: "sid_at m5 ptr (ys @ [(tag, data)]) i = sid_at ?m ptr ys i" if i: "i < length ys" for i
  proof -
    have cells5: "same_cells m3' m5 ?q (ring_cells ?m ?q ys)"
    proof (rule same_cells_outside [OF c(6)])
      fix j assume "j \<in> ring_cells ?m ?q ys"
      then have "j \<notin> {fst (hd (place ?c ?t ?n))..<fst (hd (place ?c ?t ?n)) + 24}"
        using disj inside by blast
      then show "data_start ?q + j \<notin> {base_ptr ?q + 12..<base_ptr ?q + 16} \<union> {base_ptr ?q + 20..<base_ptr ?q + 24}
          \<union> {?a + 12..<?a + 16}" by (auto simp: apos)
    qed
    have "same_cells ?m m5 ?q (ring_cells ?m ?q ys)"
      by (rule same_cells_trans [OF cells cells5])
    then have "same_cells ?m m5 ?o (ring_cells ?m ?o ys)"
      using gm(1) base by (simp add: same_cells_def)
    then have "sid_at m5 ptr ys i = sid_at ?m ptr ys i"
      using g head5 i by (intro sid_at_kept) (simp_all add: group_inv_def)
    then show ?thesis by (simp add: sid_at_def addr_at_append i)
  qed
  have new: "sid_at m5 ptr (ys @ [(tag, data)]) (length ys) = get_sid E"
  proof -
    have "pos_at m5 ?q (ys @ [(tag, data)]) (length ys) = ?t"
      using c(4,5) by (simp add: pos_at_def tail)
    then have "addr_at m5 ?o (ys @ [(tag, data)]) (length ys) = ?a"
      using c(5) by (simp add: at_cong(2) [OF gm(1), symmetric]) (simp add: addr_at_def)
    moreover have "load32 m5 (?a + 8) = load32 m3' (?a + 8)"
      by (intro load32_unchanged only_changes_unchanged [OF c(6)]) (auto simp: apos)
    moreover have "load32 m3' (?a + 8) = load32 m2 (?a + 8)"
      by (intro load32_unchanged only_changes_unchanged [OF w3c]) (auto simp: apos shp)
    moreover have "load32 m2 (?a + 8) = load32 (mem w2) (?a + 8)"
      by (intro load32_unchanged only_changes_unchanged [OF w2c]) auto
    ultimately show ?thesis using made(4) by (simp add: sid_at_def msg_sid_def)
  qed
  have "s_counter m5 ?o = s_counter ?m ?o + 1" using sc shp by (simp add: s_counter_def)
  with c(1,2) head5 ka inv sids new frame show ?thesis by blast
  qed
  from push size away lands show ?thesis
    by (intro exI [of _ m3] exI [of _ ?chain] conjI) simp_all
qed

text \<open>With the regions of \<open>base_queue\<close> a message that fits is made and lands.\<close>

lemma plain_push_fits:
  assumes g: "group_inv (mem w) ptr R rs ys ls" and q: "on_ring ptr q" and plain: "plain_regions q"
    and E: "env_ok E" and ne: "data \<noteq> []"
    and room: "fits (cap_of (mem w) (ring_object ptr)) (head_of (mem w) (ring_object ptr)) ys data"
  obtains w2 pos where "static_make_message E q w data
       = returns ((chain_at q (cap_of (mem w) q) (tail_of (mem w) q) (length data), pos), w2)"
    "unat pos mod cap_of (mem w) q
       = (tail_of (mem w) q + span (cap_of (mem w) q) (tail_of (mem w) q) (length data))
           mod cap_of (mem w) q"
    "laid_out (mem w2) q (tail_of (mem w) q) data"
    "msg_sid (mem w2) (hd (chain_at q (cap_of (mem w) q) (tail_of (mem w) q) (length data)))
       = get_sid E"
    "only_changes (mem w) (mem w2) (free_cells (mem w) q)"
proof -
  let ?m = "mem w"
  note gm = on_ringD [OF q]
  have rs: "ring_state ?m q ys" using g by (simp add: ring_state_cong [OF gm(1)] group_inv_def)
  have live: "clock_live (clock E)" using E by (simp add: env_ok_def)
  have ok: "header_ok ?m q" using rs by (simp add: ring_state_def)
  have "fits (cap_of ?m q) (head_of ?m q) ys data" using room by (simp add: base_ptr_cong [OF gm(1)])
  then have room': "span (cap_of ?m q) (tail_of ?m q) (length data) \<le> free_bytes ?m q"
    by (simp only: free_bytes_fits [OF rs])
  show thesis
    by (rule static_make_fits [OF plain live ok ne ring_state_bounds(2) [OF rs] room']) (assumption, rule that)
qed

lemma shared_push_fits:
  assumes g: "group_inv (mem w) ptr R rs ys ls" and q: "on_ring ptr q" and plain: "plain_regions q"
    and E: "env_ok E" and ne: "data \<noteq> []"
    and room: "fits (cap_of (mem w) (ring_object ptr)) (head_of (mem w) (ring_object ptr)) ys data"
  shows "\<exists>w3 pos m4 m5 a. shared_push_message E q w data = returns ((a, pos), w3) \<and> a \<noteq> []
    \<and> set_tail (msg_set_tag (mem w3) (hd a) tag) q pos = returns m4
    \<and> m5 = set_base_count m4 q (base_count m4 q + 1)
    \<and> group_inv m5 ptr R rs (ys @ [(tag, data)]) ls
    \<and> head_of m5 (ring_object ptr) = head_of (mem w) (ring_object ptr)
    \<and> cap_of m5 (ring_object ptr) = cap_of (mem w) (ring_object ptr)
    \<and> keepalive_timeout m5 (ring_object ptr) = keepalive_timeout (mem w) (ring_object ptr)
    \<and> s_counter m5 (ring_object ptr) = s_counter (mem w) (ring_object ptr) + 1"
proof -
  have at: "atomic_spec (atomics E)" using E by (simp add: env_ok_def)
  obtain w2 pos where made: "static_make_message E q w data
       = returns ((chain_at q (cap_of (mem w) q) (tail_of (mem w) q) (length data), pos), w2)"
    "unat pos mod cap_of (mem w) q
       = (tail_of (mem w) q + span (cap_of (mem w) q) (tail_of (mem w) q) (length data))
           mod cap_of (mem w) q"
    "laid_out (mem w2) q (tail_of (mem w) q) data"
    "msg_sid (mem w2) (hd (chain_at q (cap_of (mem w) q) (tail_of (mem w) q) (length data)))
       = get_sid E"
    "only_changes (mem w) (mem w2) (free_cells (mem w) q)"
    by (rule plain_push_fits [OF g q plain E ne room])
  obtain m3 a where p: "shared_push_message E q w data = returns ((a, pos), w2\<lparr>mem := m3\<rparr>)" "a \<noteq> []"
    "\<forall>m3'. only_changes m3 m3' {..<ptr} \<longrightarrow> (\<exists>m4 m5.
        set_tail (msg_set_tag m3' (hd a) tag) q pos = returns m4
        \<and> m5 = set_base_count m4 q (base_count m4 q + 1)
        \<and> group_inv m5 ptr R rs (ys @ [(tag, data)]) ls
        \<and> head_of m5 (ring_object ptr) = head_of (mem w) (ring_object ptr)
        \<and> cap_of m5 (ring_object ptr) = cap_of (mem w) (ring_object ptr)
        \<and> keepalive_timeout m5 (ring_object ptr) = keepalive_timeout (mem w) (ring_object ptr)
        \<and> s_counter m5 (ring_object ptr) = s_counter (mem w) (ring_object ptr) + 1)"
    using push_lands [OF g q at room made, of tag] by blast
  from p(3) [rule_format, OF only_changes_refl] p(1,2) show ?thesis by fastforce
qed

text \<open>Writes to the free part of the ring leave the group as it is.\<close>

lemma group_free:
  assumes g: "group_inv m ptr R rs ys ls" and q: "on_ring ptr q"
    and w: "only_changes m m' (free_cells m q)"
  shows "group_inv m' ptr R rs ys ls" "unchanged m m' (base_ptr (ring_object ptr)) 24"
    "same_cells m m' (ring_object ptr) (ring_cells m (ring_object ptr) ys)"
    "only_changes m m' {ptr + 32..}"
proof -
  let ?o = "ring_object ptr" and ?q = "q"
  note gm = on_ringD [OF q]
  note base = base_ptr_cong [OF gm(1)]
  have rsq: "ring_state m ?q ys" using g by (simp add: ring_state_cong [OF gm(1)] group_inv_def)
  have ok: "header_ok m ?q" using rsq by (simp add: ring_state_def)
  note free = ring_state_free [OF rsq w]
  note f = header_unchanged [OF free(2)]
  have shp: "base_ptr ?q = ptr + 8" using gm(1) by simp
  have freeout: "free_cells m ?q \<subseteq> {data_start ?q..<data_start ?q + cap_of m ?q}"
    by (rule free_cells_inside [OF ok])
  show w': "only_changes m m' {ptr + 32..}"
    by (rule only_changes_mono [OF w]) (use freeout shp in fastforce)
  have out: "load32 m' a = load32 m a" if "a + 4 \<le> ptr + 8" for a
    by (intro load32_unchanged only_changes_unchanged [OF w']) (use that in auto)
  show "unchanged m m' (base_ptr ?o) 24" using free(2) gm(1) by simp
  show "same_cells m m' ?o (ring_cells m ?o ys)" using free(3) gm(1) base by (simp add: same_cells_def)
  show "group_inv m' ptr R rs ys ls"
  proof (rule group_readers [OF g])
    fix r' assume r': "r' \<in> R"
    note gm' = group_member [OF g r']
    have "s_counter m' (rs r') = s_counter m (rs r')"
      using gm'(3) by (simp add: s_counter_def out)
    moreover have "head_of m' (rs r') = head_of m (rs r')" "cap_of m' (rs r') = cap_of m (rs r')"
      using f by (simp_all only: base_ptr_cong [OF gm'(1)] base)
    ultimately show "base_ptr (rs r') = base_ptr (rs r') \<and> shared_ptr (rs r') = shared_ptr (rs r')
        \<and> reader m' (rs r') ys (ls r')"
      using reader_same [OF gm'(4)] by simp
  next
    show "ring_state m' ?o ys" using free(1) by (simp add: ring_state_cong [OF gm(1)])
    show "load32 m' ptr = load32 m ptr" by (rule out) simp
  next
    fix i assume i: "i < length ys"
    have "counter_at m' ?q ys i = counter_at m ?q ys i"
      by (rule counter_at_kept [OF rsq i free(3)]) (simp_all add: f)
    then show "unat (counter_at m' ?o ys i) = card {r \<in> R. ls r \<le> i}"
      using g i by (simp add: at_cong [OF gm(1)] group_inv_def)
  qed
qed

text \<open>A push without room leaves the group as it is.\<close>

lemma shared_push_full:
  assumes g: "group_inv (mem w) ptr R rs ys ls" and q: "on_ring ptr q" and plain: "plain_regions q"
    and E: "env_ok E" and ne: "data \<noteq> []"
    and room: "\<not> fits (cap_of (mem w) (ring_object ptr)) (head_of (mem w) (ring_object ptr)) ys data"
  shows "\<exists>w'. shared_push_message E q w data = returns (null_desc, w')
    \<and> group_inv (mem w') ptr R rs ys ls
    \<and> unchanged (mem w) (mem w') (base_ptr (ring_object ptr)) 24
    \<and> s_counter (mem w') (ring_object ptr) = s_counter (mem w) (ring_object ptr)"
proof -
  let ?m = "mem w"
  note gm = on_ringD [OF q]
  have rsq: "ring_state ?m q ys" using g by (simp add: ring_state_cong [OF gm(1)] group_inv_def)
  have live: "clock_live (clock E)" using E by (simp add: env_ok_def)
  have ok: "header_ok ?m q" using rsq by (simp add: ring_state_def)
  have "\<not> fits (cap_of ?m q) (head_of ?m q) ys data" using room by (simp add: base_ptr_cong [OF gm(1)])
  then have full: "free_bytes ?m q < span (cap_of ?m q) (tail_of ?m q) (length data)"
    by (simp add: free_bytes_fits [OF rsq, symmetric])
  obtain w' where made: "static_make_message E q w data = returns (null_desc, w')"
    "only_changes ?m (mem w') (free_cells ?m q)"
    by (rule static_make_full [OF plain live ok ne full])
  have "shared_push_message E q w data = returns (null_desc, w')"
    by (simp add: shared_push_message_def made(1) null_desc_def)
  moreover have "s_counter (mem w') (ring_object ptr) = s_counter (mem w) (ring_object ptr)"
    unfolding s_counter_def
    by (intro load32_unchanged only_changes_unchanged [OF group_free(4) [OF g q made(2)]]) auto
  ultimately show ?thesis using group_free [OF g q made(2)] by blast
qed

text \<open>
  \<open>push\<close> without expiry, by a member or by an object that only writes: it drops what everybody
  has read, then takes the message if it fits. A writer counts what it drops as read.
\<close>

definition pusher :: "nat \<Rightarrow> queue \<Rightarrow> bool" where
  "pusher ptr q \<longleftrightarrow> on_ring ptr q \<and> class_of q \<in> {Shared_queue, Unreadable_shared_queue}"

definition counted :: "nat \<Rightarrow> queue \<Rightarrow> queue" where
  "counted j q = (if class_of q = Unreadable_shared_queue
     then q\<lparr>m_counter := m_counter q + of_nat j\<rparr> else q)"

lemma pusher_counted: "pusher ptr q \<Longrightarrow> pusher ptr (counted j q)"
  by (auto simp: pusher_def counted_def on_ring_def)

lemma pusher_simps:
  assumes "pusher ptr q"
  shows "plain_regions q" "push_message E q w data = shared_push_message E q w data"
  using assms by (auto simp: pusher_def plain_regions_def push_message_def)

lemma ucast_of_nat_32: "(ucast (of_nat n :: u64) :: u32) = of_nat n"
  by transfer simp

lemma pusher_clean:
  assumes "pusher ptr q" and "shared_clean_messages E m q = returns ((of_nat j, t), m1)"
  shows "clean_messages E m q = returns ((of_nat j, t), m1, counted j q)"
  using assms
  by (auto simp: pusher_def clean_messages_def unreadable_clean_messages_def counted_def ucast_of_nat_32)

lemma any_push:
  assumes g: "group_inv (mem w) ptr R rs xs ks" and q: "pusher ptr q" and E: "env_ok E" and ne: "data \<noteq> []"
    and full: "s_counter (mem w) q - m_counter q \<noteq> - 1"
    and ka: "keepalive_timeout (mem w) (ring_object ptr) = 0"
    and jlen: "j \<le> length xs" and jle: "\<And>r. r \<in> R \<Longrightarrow> j \<le> ks r"
    and here: "j < length xs \<Longrightarrow> \<exists>r \<in> R. ks r = j"
  defines "ok \<equiv> fits (cap_of (mem w) (ring_object ptr)) (pos_at (mem w) (ring_object ptr) xs j) (drop j xs) data"
  shows "\<exists>w'. push E w q tag data = returns (ok, w', counted j q)
    \<and> group_inv (mem w') ptr R rs (drop j xs @ (if ok then [(tag, data)] else [])) (\<lambda>r. ks r - j)
    \<and> head_of (mem w') (ring_object ptr) = pos_at (mem w) (ring_object ptr) xs j
    \<and> cap_of (mem w') (ring_object ptr) = cap_of (mem w) (ring_object ptr)
    \<and> keepalive_timeout (mem w') (ring_object ptr) = 0
    \<and> s_counter (mem w') (ring_object ptr) = s_counter (mem w) (ring_object ptr) + (if ok then 1 else 0)"
proof -
  let ?o = "ring_object ptr" and ?q = "counted j q"
  have at: "atomic_spec (atomics E)" using E by (simp add: env_ok_def)
  have onr: "on_ring ptr q" "on_ring ptr ?q" using q pusher_counted [OF q] by (simp_all add: pusher_def)
  note plain = pusher_simps [OF pusher_counted [OF q]]
  obtain t m1 where c: "shared_clean_messages E (mem w) q = returns ((of_nat j, t), m1)"
    "group_inv m1 ptr R rs (drop j xs) (\<lambda>r. ks r - j)" "head_of m1 ?o = pos_at (mem w) ?o xs j"
    "cap_of m1 ?o = cap_of (mem w) ?o" "only_changes (mem w) m1 {ptr + 20..<ptr + 28}"
    using group_clean_any [OF g onr(1) at full jlen jle here] by blast
  have ka1: "keepalive_timeout m1 ?o = 0"
    using field_unchanged [OF c(5), where q = ?o and k = 8] ka by (simp add: keepalive_timeout_def)
  have sc1: "s_counter m1 ?o = s_counter (mem w) ?o"
    unfolding s_counter_def by (intro load32_unchanged only_changes_unchanged [OF c(5)]) auto
  define w1 where "w1 = w\<lparr>mem := m1\<rparr>"
  have g1: "group_inv (mem w1) ptr R rs (drop j xs) (\<lambda>r. ks r - j)" using c(2) by (simp add: w1_def)
  have ok: "fits (cap_of (mem w1) ?o) (head_of (mem w1) ?o) (drop j xs) data \<longleftrightarrow> ok"
    using c(3,4) by (simp add: ok_def w1_def)
  note clean = pusher_clean [OF q c(1)]
  show ?thesis
  proof (cases ok)
    case True
    then obtain w3 pos m4 m5 a where p: "shared_push_message E ?q w1 data = returns ((a, pos), w3)" "a \<noteq> []"
      "set_tail (msg_set_tag (mem w3) (hd a) tag) ?q pos = returns m4"
      "m5 = set_base_count m4 ?q (base_count m4 ?q + 1)"
      "group_inv m5 ptr R rs (drop j xs @ [(tag, data)]) (\<lambda>r. ks r - j)"
      "head_of m5 ?o = head_of (mem w1) ?o" "cap_of m5 ?o = cap_of (mem w1) ?o"
      "keepalive_timeout m5 ?o = keepalive_timeout (mem w1) ?o"
      "s_counter m5 ?o = s_counter (mem w1) ?o + 1"
      using shared_push_fits [OF g1 onr(2) plain(1) E ne, of tag] ok by blast
    have "push E w q tag data = returns (True, w3\<lparr>mem := m5\<rparr>, ?q)"
      using p(2-4) by (simp add: push_def do_push_def clean plain(2) p(1) [unfolded w1_def])
    then show ?thesis using True p(5-9) c(3,4) ka1 sc1
      by (intro exI [of _ "w3\<lparr>mem := m5\<rparr>"]) (simp add: w1_def)
  next
    case False
    then obtain w2 where p: "shared_push_message E ?q w1 data = returns (null_desc, w2)"
      "group_inv (mem w2) ptr R rs (drop j xs) (\<lambda>r. ks r - j)"
      "unchanged (mem w1) (mem w2) (base_ptr ?o) 24" "s_counter (mem w2) ?o = s_counter (mem w1) ?o"
      using shared_push_full [OF g1 onr(2) plain(1) E ne] ok by blast
    note f = header_unchanged [OF p(3)]
    have ka2: "keepalive_timeout (mem w2) ?q = 0"
      using f(5) ka1 by (simp add: base_ptr_cong [OF on_ringD(1) [OF onr(2)]] w1_def)
    have "push E w q tag data = returns (False, w2, ?q)"
      using ka2 by (simp add: push_def do_push_def clean plain(2) p(1) [unfolded w1_def] null_desc_def)
    then show ?thesis using False p(2,4) c(3,4) f ka1 sc1 by (intro exI [of _ w2]) (simp add: w1_def)
  qed
qed

lemma member_pusher:
  assumes "group_inv m ptr R rs xs ks" and "r \<in> R" and "class_of (rs r) = Shared_queue"
  shows "pusher ptr (rs r)" "counted j (rs r) = rs r"
  using assms member_on_ring [OF assms(1,2)] by (simp_all add: pusher_def counted_def)

end
