(* ===== verification/Shared_Queue.thy ===== *)
theory Shared_Queue
  imports Shared_Ring
begin

text \<open>
  The contract of \<open>shared_queue\<close>: every subscriber gets every message pushed after it has
  subscribed, once and in order. The abstract multicast queue, the interface
  \<open>refines_multicast\<close>, and the shared queue as its instance.
\<close>

section \<open>The abstract multicast queue\<close>

text \<open>
  \<open>mc_msgs\<close> are the messages still in the ring, and \<open>mc_at r\<close> the index in them of the next
  message of the subscriber \<open>r\<close>. The subscribers are \<open>mc_subs\<close>.
\<close>

record multicast =
  mc_cap :: nat
  mc_pos :: nat
  mc_msgs :: "message list"
  mc_subs :: "nat set"
  mc_at :: "nat \<Rightarrow> nat"

definition unread :: "multicast \<Rightarrow> nat \<Rightarrow> message list" where
  "unread c r = drop (mc_at c r) (mc_msgs c)"

text \<open>The messages that every subscriber has read leave the ring.\<close>

definition mc_lowest :: "multicast \<Rightarrow> nat" where
  "mc_lowest c = (if mc_subs c = {} then length (mc_msgs c) else Min (mc_at c ` mc_subs c))"

definition mc_clean :: "multicast \<Rightarrow> multicast" where
  "mc_clean c =
     (let j = mc_lowest c in
      c\<lparr>mc_pos := (mc_pos c + used (mc_cap c) (mc_pos c) (take j (mc_msgs c))) mod mc_cap c,
        mc_msgs := drop j (mc_msgs c), mc_at := (\<lambda>r. mc_at c r - j)\<rparr>)"

definition mc_push :: "message \<Rightarrow> multicast \<Rightarrow> bool \<times> multicast" where
  "mc_push x c =
     (let c1 = mc_clean c in
      if fits (mc_cap c1) (mc_pos c1) (mc_msgs c1) (snd x)
      then (True, c1\<lparr>mc_msgs := mc_msgs c1 @ [x]\<rparr>) else (False, c1))"

definition mc_get :: "nat \<Rightarrow> multicast \<Rightarrow> message option" where
  "mc_get r c = (if mc_at c r < length (mc_msgs c) then Some (mc_msgs c ! mc_at c r) else None)"

definition mc_pop :: "nat \<Rightarrow> multicast \<Rightarrow> bool \<times> multicast" where
  "mc_pop r c =
     (if mc_at c r < length (mc_msgs c) then (True, c\<lparr>mc_at := (mc_at c)(r := Suc (mc_at c r))\<rparr>)
      else (False, c))"

definition mc_ok :: "multicast \<Rightarrow> bool" where
  "mc_ok c \<longleftrightarrow> finite (mc_subs c) \<and> (\<forall>r \<in> mc_subs c. mc_at c r \<le> length (mc_msgs c))"

text \<open>What an operation does to what a subscriber has not read.\<close>

lemma mc_lowest_le: "mc_ok c \<Longrightarrow> r \<in> mc_subs c \<Longrightarrow> mc_lowest c \<le> mc_at c r"
  by (auto simp: mc_lowest_def mc_ok_def)

lemma mc_clean_ok:
  assumes "mc_ok c"
  shows "mc_ok (mc_clean c)" "mc_subs (mc_clean c) = mc_subs c"
    "r \<in> mc_subs c \<Longrightarrow> unread (mc_clean c) r = unread c r"
  using assms mc_lowest_le [OF assms]
  by (auto simp: mc_clean_def Let_def mc_ok_def unread_def intro: diff_le_mono)

lemma mc_push_unread:
  assumes "mc_ok c" and "mc_push x c = (b, c')"
  shows "mc_ok c'" "mc_subs c' = mc_subs c"
    "r \<in> mc_subs c \<Longrightarrow> unread c' r = unread c r @ (if b then [x] else [])"
proof -
  note cl = mc_clean_ok [OF assms(1)]
  have "mc_at (mc_clean c) r \<le> length (mc_msgs (mc_clean c))" if "r \<in> mc_subs c"
    using cl that by (simp add: mc_ok_def)
  then show "r \<in> mc_subs c \<Longrightarrow> unread c' r = unread c r @ (if b then [x] else [])"
    using assms(2) cl(3) by (auto simp: mc_push_def Let_def unread_def split: if_splits)
  show "mc_ok c'" "mc_subs c' = mc_subs c"
    using assms(2) cl by (auto simp: mc_push_def Let_def mc_ok_def le_SucI split: if_splits)
qed

lemma mc_pop_unread:
  assumes "mc_ok c" and "s \<in> mc_subs c" and "mc_pop s c = (b, c')"
  shows "unread c' r = (if r = s \<and> b then tl (unread c r) else unread c r)"
    "mc_ok c'" "mc_subs c' = mc_subs c" "b \<longleftrightarrow> unread c s \<noteq> []"
  using assms
  by (auto simp: mc_pop_def unread_def mc_ok_def drop_Suc tl_drop split: if_splits)

lemma mc_get_unread: "mc_get r c = (case unread c r of [] \<Rightarrow> None | x # _ \<Rightarrow> Some x)"
  by (auto simp: mc_get_def unread_def Cons_nth_drop_Suc [symmetric])

section \<open>Sequences of operations\<close>

text \<open>Every call is made by a subscriber.\<close>

type_synonym mc_call = "nat \<times> queue_op"

fun mc_step :: "mc_call \<Rightarrow> multicast \<Rightarrow> outcome \<times> multicast" where
  "mc_step (r, Push x) c = (case mc_push x c of (b, c') \<Rightarrow> (Pushed b, c'))"
| "mc_step (r, Get) c = (Got (mc_get r c), c)"
| "mc_step (r, Pop) c = (case mc_pop r c of (b, c') \<Rightarrow> (Popped b, c'))"

fun mc_run :: "mc_call list \<Rightarrow> multicast \<Rightarrow> outcome list \<times> multicast" where
  "mc_run [] c = ([], c)"
| "mc_run (p # ps) c = (let (r, c1) = mc_step p c; (rs, c2) = mc_run ps c1 in (r # rs, c2))"

definition calls_of :: "nat \<Rightarrow> mc_call list \<Rightarrow> outcome list \<Rightarrow> outcome list" where
  "calls_of r ps os = map snd (filter (\<lambda>(p, x). fst p = r) (zip ps os))"

abbreviation by_subscribers :: "nat set \<Rightarrow> mc_call list \<Rightarrow> bool" where
  "by_subscribers R ps \<equiv> \<forall>(r, p) \<in> set ps. r \<in> R \<and> sendable p"

text \<open>The same, but anybody may push.\<close>

definition is_push :: "queue_op \<Rightarrow> bool" where
  "is_push p \<longleftrightarrow> (case p of Push x \<Rightarrow> True | _ \<Rightarrow> False)"

lemma is_push_simps [simp]: "is_push (Push x)" "\<not> is_push Get" "\<not> is_push Pop"
  by (simp_all add: is_push_def)

abbreviation by_members :: "nat set \<Rightarrow> mc_call list \<Rightarrow> bool" where
  "by_members R ps \<equiv> \<forall>(r, p) \<in> set ps. r \<in> R \<or> is_push p"

lemma mc_step_ok:
  assumes "mc_ok c" and "fst p \<in> mc_subs c \<or> is_push (snd p)" and "mc_step p c = (x, c')"
  shows "mc_ok c'" "mc_subs c' = mc_subs c"
  using assms mc_push_unread(1,2) [OF assms(1)] mc_pop_unread [OF assms(1)]
  by (cases "(p, c)" rule: mc_step.cases; force split: prod.splits)+

text \<open>
  Every subscriber is left with what it had not read and the messages accepted since, less the
  messages it popped itself: nobody's pops take a message away from another.
\<close>

lemma mc_run_delivery:
  assumes "mc_run ps c = (os, c')" and "mc_ok c" and "by_members (mc_subs c) ps"
    and "r \<in> mc_subs c"
  shows "pops (calls_of r ps os) \<le> length (unread c r @ accepted (map snd ps) os)
    \<and> unread c' r = drop (pops (calls_of r ps os)) (unread c r @ accepted (map snd ps) os)"
  using assms
proof (induction ps arbitrary: c os c')
  case Nil
  then show ?case by (simp add: pops_def calls_of_def)
next
  case (Cons p ps)
  obtain s a where p: "p = (s, a)" by fastforce
  obtain x c1 where step: "mc_step p c = (x, c1)" by fastforce
  obtain os2 c2 where run: "mc_run ps c1 = (os2, c2)" by fastforce
  have split: "os = x # os2" "c' = c2" using Cons.prems step run by (auto simp: Let_def)
  have s: "s \<in> mc_subs c \<or> is_push a" using Cons.prems p by simp
  note ok = mc_step_ok [OF Cons.prems(2) _ step, unfolded p, simplified, OF s]
  have "by_members (mc_subs c1) ps" "r \<in> mc_subs c1" using Cons.prems ok by auto
  note IH = Cons.IH [OF run ok(1) this]
  show ?case
  proof (cases a)
    case (Push y)
    obtain b where b: "mc_push y c = (b, c1)" "x = Pushed b"
      using step by (auto simp: p Push split: prod.splits)
    from mc_push_unread(3) [OF Cons.prems(2) b(1) Cons.prems(4)] IH show ?thesis
      by (cases b) (simp_all add: p Push b split calls_of_def pops_def del: drop_append)
  next
    case Get
    with IH step show ?thesis by (auto simp: p split calls_of_def pops_def)
  next
    case Pop
    obtain b where b: "mc_pop s c = (b, c1)" "x = Popped b"
      using step by (auto simp: p Pop split: prod.splits)
    have "s \<in> mc_subs c" using s Pop by simp
    note u = mc_pop_unread [OF Cons.prems(2) this b(1)]
    show ?thesis
    proof (cases "r = s \<and> b")
      case True
      then obtain y ys where "unread c r = y # ys" using u(4) by (cases "unread c r") auto
      then show ?thesis using True IH u(1) [of r]
        by (simp add: p Pop b split calls_of_def pops_def del: drop_append)
    next
      case False
      then show ?thesis using IH u(1) [of r]
        by (auto simp: p Pop b split calls_of_def pops_def simp del: drop_append)
    qed
  qed
qed

section \<open>The interface\<close>

fun members_step ::
  "(nat \<Rightarrow> message \<Rightarrow> 's \<Rightarrow> (bool \<times> 's) run) \<Rightarrow> (nat \<Rightarrow> 's \<Rightarrow> (message option \<times> 's) run)
    \<Rightarrow> (nat \<Rightarrow> 's \<Rightarrow> (bool \<times> 's) run) \<Rightarrow> mc_call \<Rightarrow> 's \<Rightarrow> (outcome \<times> 's) run" where
  "members_step enq front deq (r, p) s = impl_step (enq r) (front r) (deq r) p s"

fun members_run ::
  "(nat \<Rightarrow> message \<Rightarrow> 's \<Rightarrow> (bool \<times> 's) run) \<Rightarrow> (nat \<Rightarrow> 's \<Rightarrow> (message option \<times> 's) run)
    \<Rightarrow> (nat \<Rightarrow> 's \<Rightarrow> (bool \<times> 's) run) \<Rightarrow> mc_call list \<Rightarrow> 's \<Rightarrow> (outcome list \<times> 's) run" where
  "members_run enq front deq [] s = returns ([], s)"
| "members_run enq front deq (p # ps) s =
     and_then (members_step enq front deq p s) (\<lambda>(x, s1).
     and_then (members_run enq front deq ps s1) (\<lambda>(xs, s2). returns (x # xs, s2)))"

locale refines_multicast =
  fixes enq :: "nat \<Rightarrow> message \<Rightarrow> 's \<Rightarrow> (bool \<times> 's) run"
    and front :: "nat \<Rightarrow> 's \<Rightarrow> (message option \<times> 's) run"
    and deq :: "nat \<Rightarrow> 's \<Rightarrow> (bool \<times> 's) run"
    and holds :: "'s \<Rightarrow> multicast \<Rightarrow> bool"
  assumes holds_ok: "holds s c \<Longrightarrow> mc_ok c"
    and enq_law: "holds s c \<Longrightarrow> r \<in> mc_subs c \<Longrightarrow> snd x \<noteq> [] \<Longrightarrow>
      \<exists>s'. enq r x s = returns (fst (mc_push x c), s') \<and> holds s' (snd (mc_push x c))"
    and front_law: "holds s c \<Longrightarrow> r \<in> mc_subs c \<Longrightarrow>
      \<exists>s'. front r s = returns (mc_get r c, s') \<and> holds s' c"
    and deq_law: "holds s c \<Longrightarrow> r \<in> mc_subs c \<Longrightarrow>
      \<exists>s'. deq r s = returns (fst (mc_pop r c), s') \<and> holds s' (snd (mc_pop r c))"
begin

lemma step_law:
  assumes "holds s c" and "fst p \<in> mc_subs c" and "sendable (snd p)"
  shows "\<exists>s'. members_step enq front deq p s = returns (fst (mc_step p c), s')
    \<and> holds s' (snd (mc_step p c))"
proof (cases "(p, c)" rule: mc_step.cases)
  case (1 r x c)
  then show ?thesis using enq_law [OF assms(1), of r x] assms by (auto simp: case_prod_beta)
next
  case (2 r c)
  then show ?thesis using front_law [OF assms(1), of r] assms by auto
next
  case (3 r c)
  then show ?thesis using deq_law [OF assms(1), of r] assms by (auto simp: case_prod_beta)
qed

lemma run_law:
  assumes "holds s c" and "by_subscribers (mc_subs c) ps"
  shows "\<exists>s'. members_run enq front deq ps s = returns (fst (mc_run ps c), s')
    \<and> holds s' (snd (mc_run ps c))"
  using assms
proof (induction ps arbitrary: s c)
  case (Cons p ps)
  have p: "fst p \<in> mc_subs c" "sendable (snd p)" using Cons.prems(2) by auto
  obtain s1 where s1: "members_step enq front deq p s = returns (fst (mc_step p c), s1)"
    "holds s1 (snd (mc_step p c))"
    using step_law [OF Cons.prems(1) p] by auto
  have "mc_subs (snd (mc_step p c)) = mc_subs c"
    by (rule mc_step_ok(2) [OF holds_ok [OF Cons.prems(1)] disjI1 [OF p(1)] prod.collapse [symmetric]])
  then obtain s2 where "members_run enq front deq ps s1 = returns (fst (mc_run ps (snd (mc_step p c))), s2)"
    "holds s2 (snd (mc_run ps (snd (mc_step p c))))"
    using Cons.IH [OF s1(2)] Cons.prems(2) by auto
  with s1(1) show ?case by (simp add: Let_def case_prod_beta)
qed auto

lemma run_multicast:
  assumes "holds s c" and "by_subscribers (mc_subs c) ps"
  shows "\<exists>os s' c'. members_run enq front deq ps s = returns (os, s') \<and> holds s' c'
    \<and> mc_run ps c = (os, c') \<and> (\<forall>r \<in> mc_subs c.
        unread c' r = drop (pops (calls_of r ps os)) (unread c r @ accepted (map snd ps) os))"
proof -
  obtain os c' where run: "mc_run ps c = (os, c')" by fastforce
  moreover have "by_members (mc_subs c) ps" using assms(2) by auto
  ultimately show ?thesis
    using run_law [OF assms] mc_run_delivery [OF run holds_ok [OF assms(1)]] by auto
qed

end

section \<open>The shared queue\<close>

text \<open>The state: the world, and the object of every subscriber.\<close>

type_synonym group = "world \<times> (nat \<Rightarrow> queue)"

definition group_enq :: "env \<Rightarrow> nat \<Rightarrow> message \<Rightarrow> group \<Rightarrow> (bool \<times> group) run" where
  "group_enq E r x s =
     and_then (push E (fst s) (snd s r) (fst x) (snd x)) (\<lambda>(b, w1, q1). returns (b, w1, (snd s)(r := q1)))"

definition group_front :: "env \<Rightarrow> nat \<Rightarrow> group \<Rightarrow> (message option \<times> group) run" where
  "group_front E r s =
     and_then (get E (mem (fst s)) (snd s r)) (\<lambda>(ps, m1, q1).
       returns (read_message m1 ps, (fst s)\<lparr>mem := m1\<rparr>, (snd s)(r := q1)))"

definition group_deq :: "env \<Rightarrow> nat \<Rightarrow> group \<Rightarrow> (bool \<times> group) run" where
  "group_deq E r s =
     and_then (pop E (mem (fst s)) (snd s r)) (\<lambda>(b, m1, q1).
       returns (b, (fst s)\<lparr>mem := m1\<rparr>, (snd s)(r := q1)))"

definition group_holds :: "env \<Rightarrow> nat \<Rightarrow> group \<Rightarrow> multicast \<Rightarrow> bool" where
  "group_holds E ptr s c \<longleftrightarrow> env_ok E
     \<and> group_inv (mem (fst s)) ptr (mc_subs c) (snd s) (mc_msgs c) (mc_at c)
     \<and> (\<forall>r \<in> mc_subs c. class_of (snd s r) = Shared_queue)
     \<and> keepalive_timeout (mem (fst s)) (ring_object ptr) = 0
     \<and> cap_of (mem (fst s)) (ring_object ptr) = mc_cap c
     \<and> head_of (mem (fst s)) (ring_object ptr) = mc_pos c"

lemma group_holds_ok: "group_holds E ptr s c \<Longrightarrow> mc_ok c"
  by (auto simp: group_holds_def group_inv_def mc_ok_def reader_def)

lemma mc_lowest_props:
  assumes "mc_ok c"
  shows "mc_lowest c \<le> length (mc_msgs c)" "\<And>r. r \<in> mc_subs c \<Longrightarrow> mc_lowest c \<le> mc_at c r"
    "mc_lowest c < length (mc_msgs c) \<Longrightarrow> \<exists>r \<in> mc_subs c. mc_at c r = mc_lowest c"
proof -
  have fin: "finite (mc_at c ` mc_subs c)" using assms by (simp add: mc_ok_def)
  show le: "\<And>r. r \<in> mc_subs c \<Longrightarrow> mc_lowest c \<le> mc_at c r" by (rule mc_lowest_le [OF assms])
  show "mc_lowest c < length (mc_msgs c) \<Longrightarrow> \<exists>r \<in> mc_subs c. mc_at c r = mc_lowest c"
    using Min_in [OF fin] by (auto simp: mc_lowest_def split: if_splits)
  show "mc_lowest c \<le> length (mc_msgs c)"
  proof (cases "mc_subs c = {}")
    case False
    then obtain r where "r \<in> mc_subs c" by auto
    then show ?thesis using le assms by (force simp: mc_ok_def)
  qed (simp add: mc_lowest_def)
qed

text \<open>What ties the header and the group to the abstract queue, and a push by anybody.\<close>

definition mc_inv :: "memory \<Rightarrow> nat \<Rightarrow> (nat \<Rightarrow> queue) \<Rightarrow> multicast \<Rightarrow> bool" where
  "mc_inv m ptr rs c \<longleftrightarrow> group_inv m ptr (mc_subs c) rs (mc_msgs c) (mc_at c)
     \<and> keepalive_timeout m (ring_object ptr) = 0
     \<and> cap_of m (ring_object ptr) = mc_cap c \<and> head_of m (ring_object ptr) = mc_pos c"

lemma mc_inv_ok: "mc_inv m ptr rs c \<Longrightarrow> mc_ok c"
  by (auto simp: mc_inv_def group_inv_def mc_ok_def reader_def)

lemma mc_inv_push:
  assumes inv: "mc_inv (mem w) ptr rs c" and q: "pusher ptr q" and E: "env_ok E" and ne: "snd x \<noteq> []"
    and full: "s_counter (mem w) q - m_counter q \<noteq> - 1"
  shows "\<exists>w'. push E w q (fst x) (snd x) = returns (fst (mc_push x c), w', counted (mc_lowest c) q)
    \<and> mc_inv (mem w') ptr rs (snd (mc_push x c))
    \<and> s_counter (mem w') (ring_object ptr)
      = s_counter (mem w) (ring_object ptr) + (if fst (mc_push x c) then 1 else 0)"
proof -
  let ?o = "ring_object ptr"
  have g: "group_inv (mem w) ptr (mc_subs c) rs (mc_msgs c) (mc_at c)" and ka: "keepalive_timeout (mem w) ?o = 0"
    and cap: "cap_of (mem w) ?o = mc_cap c" "head_of (mem w) ?o = mc_pos c"
    using inv by (simp_all add: mc_inv_def)
  note low = mc_lowest_props [OF mc_inv_ok [OF inv]]
  define j where "j = mc_lowest c"
  define ok where "ok = fits (cap_of (mem w) ?o) (pos_at (mem w) ?o (mc_msgs c) j) (drop j (mc_msgs c)) (snd x)"
  obtain w' where p: "push E w q (fst x) (snd x) = returns (ok, w', counted j q)"
    "group_inv (mem w') ptr (mc_subs c) rs (drop j (mc_msgs c) @ (if ok then [(fst x, snd x)] else []))
      (\<lambda>r. mc_at c r - j)"
    "head_of (mem w') ?o = pos_at (mem w) ?o (mc_msgs c) j" "cap_of (mem w') ?o = cap_of (mem w) ?o"
    "keepalive_timeout (mem w') ?o = 0"
    "s_counter (mem w') ?o = s_counter (mem w) ?o + (if ok then 1 else 0)"
    using any_push [OF g q E ne full ka low, of "fst x"] unfolding ok_def j_def by blast
  have pos: "pos_at (mem w) ?o (mc_msgs c) j = mc_pos (mc_clean c)"
    using cap by (simp add: pos_at_def mc_clean_def Let_def j_def)
  have clean: "mc_msgs (mc_clean c) = drop j (mc_msgs c)" "mc_at (mc_clean c) = (\<lambda>r. mc_at c r - j)"
    "mc_subs (mc_clean c) = mc_subs c" "mc_cap (mc_clean c) = mc_cap c"
    by (simp_all add: mc_clean_def Let_def j_def)
  have fit: "fits (mc_cap (mc_clean c)) (mc_pos (mc_clean c)) (mc_msgs (mc_clean c)) (snd x) \<longleftrightarrow> ok"
    unfolding ok_def pos [symmetric] clean using cap by simp
  have "mc_push x c = (if ok then (True, (mc_clean c)\<lparr>mc_msgs := mc_msgs (mc_clean c) @ [x]\<rparr>)
      else (False, mc_clean c))"
    by (simp add: mc_push_def Let_def fit)
  then show ?thesis
    using p clean pos cap by (cases ok) (simp_all add: mc_inv_def j_def)
qed

lemma group_enq_law:
  assumes h: "group_holds E ptr s c" and r: "r \<in> mc_subs c" and ne: "snd x \<noteq> []"
  shows "\<exists>s'. group_enq E r x s = returns (fst (mc_push x c), s') \<and> group_holds E ptr s' (snd (mc_push x c))"
proof -
  obtain w rs where s: "s = (w, rs)" by fastforce
  note h' = h [unfolded group_holds_def s, simplified]
  have inv: "mc_inv (mem w) ptr rs c" and E: "env_ok E" and cls: "class_of (rs r) = Shared_queue"
    using h' r by (simp_all add: mc_inv_def)
  have g: "group_inv (mem w) ptr (mc_subs c) rs (mc_msgs c) (mc_at c)" using inv by (simp add: mc_inv_def)
  note m = member_pusher [OF g r cls]
  obtain w' where p: "push E w (rs r) (fst x) (snd x) = returns (fst (mc_push x c), w', rs r)"
    "mc_inv (mem w') ptr rs (snd (mc_push x c))"
    using mc_inv_push [OF inv m(1) E ne member_not_full [OF g r]] unfolding m(2) by blast
  have "mc_subs (snd (mc_push x c)) = mc_subs c"
    by (rule mc_push_unread(2) [OF mc_inv_ok [OF inv] prod.collapse [symmetric]])
  with p h' show ?thesis by (simp add: s group_enq_def group_holds_def mc_inv_def fun_upd_triv)
qed

lemma group_front_law:
  assumes h: "group_holds E ptr s c" and r: "r \<in> mc_subs c"
  shows "\<exists>s'. group_front E r s = returns (mc_get r c, s') \<and> group_holds E ptr s' c"
proof -
  obtain w rs where s: "s = (w, rs)" by fastforce
  note h' = h [unfolded group_holds_def s, simplified]
  then have g: "group_inv (mem w) ptr (mc_subs c) rs (mc_msgs c) (mc_at c)" by simp
  show ?thesis
    using group_get [OF g r, of E] h' r by (auto simp: s group_front_def group_holds_def mc_get_def)
qed

lemma group_deq_law:
  assumes h: "group_holds E ptr s c" and r: "r \<in> mc_subs c"
  shows "\<exists>s'. group_deq E r s = returns (fst (mc_pop r c), s') \<and> group_holds E ptr s' (snd (mc_pop r c))"
proof -
  obtain w rs where s: "s = (w, rs)" by fastforce
  note h' = h [unfolded group_holds_def s, simplified]
  have g: "group_inv (mem w) ptr (mc_subs c) rs (mc_msgs c) (mc_at c)"
    and at: "atomic_spec (atomics E)" using h' by (simp_all add: env_ok_def)
  show ?thesis
  proof (cases "mc_at c r < length (mc_msgs c)")
    case True
    obtain m' q' where p: "pop E (mem w) (rs r) = returns (True, m', q')"
      "group_inv m' ptr (mc_subs c) (rs(r := q')) (mc_msgs c) ((mc_at c)(r := Suc (mc_at c r)))"
      "class_of q' = Shared_queue" "unchanged (mem w) m' (ptr + 8) 24"
      using group_pop [OF g r True at] h' r by blast
    have "unchanged (mem w) m' (base_ptr (ring_object ptr)) 24" using p(4) by simp
    from header_unchanged [OF this] show ?thesis
      using p(1-3) h' True by (simp add: s group_deq_def group_holds_def mc_pop_def)
  next
    case False
    have "reader (mem w) (rs r) (mc_msgs c) (mc_at c r)" by (rule group_member(4) [OF g r])
    then have "pop E (mem w) (rs r) = returns (False, mem w, rs r)"
      using q_count_pos [of "mem w" "rs r" "mc_msgs c" "mc_at c r"] False by (simp add: pop_def)
    then show ?thesis using h False by (simp add: s group_deq_def mc_pop_def fun_upd_triv)
  qed
qed

interpretation shared: refines_multicast "group_enq E" "group_front E" "group_deq E" "group_holds E ptr"
  for E ptr
  by unfold_locales (fact group_holds_ok group_enq_law group_front_law group_deq_law)+

section \<open>Creating and opening\<close>

text \<open>An object that starts at an empty ring.\<close>

lemma reader_start:
  assumes "class_of q = Shared_queue" and "m_head q = - 1" and "m_counter q = s_counter m q"
    and "m_message_desc q = null_desc"
  shows "reader m q [] 0"
  using assms by (simp add: reader_def null_desc_def)

lemma shared_create_group:
  assumes E: "env_ok E" and cap: "0 < unat cpct" "unat cpct < 4294967296"
  shows "\<exists>m' q. shared_create E (mem w) qid ptr cpct = returns (m', q)
    \<and> group_holds E ptr (w\<lparr>mem := m'\<rparr>, \<lambda>_. q)
        \<lparr>mc_cap = unat cpct, mc_pos = 0, mc_msgs = [], mc_subs = {r}, mc_at = \<lambda>_. 0\<rparr>
    \<and> q_id m' q = qid \<and> only_changes (mem w) m' {ptr..<ptr + 32}"
proof -
  let ?o = "ring_object ptr"
  have at: "atomic_spec (atomics E)" using E by (simp add: env_ok_def)
  obtain m1 where c: "base_create (mem w) ?o qid cpct = returns m1" "head_of m1 ?o = 0" "tail_of m1 ?o = 0"
    "count_of m1 ?o = 0" "cap_of m1 ?o = unat cpct" "keepalive_timeout m1 ?o = 0" "q_id m1 ?o = qid"
    "only_changes (mem w) m1 {base_ptr ?o..<base_ptr ?o + 24}"
    by (rule base_create_returns [OF cap])
  define m2 where "m2 = store32 (store32 (store32 m1 (ptr + 4) 0) ptr 0) ptr 1"
  have create: "shared_create E (mem w) qid ptr cpct = returns (m2, ?o)"
    using c(1) by (simp add: shared_create_def base_shared_create_def ring_object_def Let_def
      set_s_counter_def set_subscriptions_count_def atomic_specD [OF at] fresh_object_def m2_def)
  have w2: "only_changes m1 m2 {ptr..<ptr + 8}"
    unfolding m2_def
    by (rule only_changes_trans3 [OF only_changes_store32 only_changes_store32 only_changes_store32]) auto
  have hdr: "unchanged m1 m2 (base_ptr ?o) 24"
    by (rule only_changes_unchanged [OF w2]) auto
  note f = header_unchanged [OF hdr]
  have "q_id m2 ?o = qid"
    unfolding q_id_def by (subst load32_unchanged [of m1 m2])
      (use c(7) only_changes_unchanged [OF w2] in \<open>auto simp: q_id_def\<close>)
  moreover have "ring_state m2 ?o []"
    by (rule ring_state_empty) (use c f cap in simp_all)
  moreover have "s_counter m2 ?o = 0" "load32 m2 ptr = 1"
    by (simp_all add: m2_def s_counter_def memory_simps)
  moreover have "reader m2 ?o [] 0"
    by (rule reader_start) (use calculation(3) in \<open>simp_all add: ring_object_def fresh_object_def\<close>)
  moreover have "only_changes (mem w) m2 {ptr..<ptr + 32}"
    by (rule only_changes_trans [OF c(8) w2]) auto
  ultimately show ?thesis
    using create E c f by (auto simp: group_holds_def group_inv_def)
qed

lemma shared_open_group:
  assumes h: "group_holds E ptr (w, rs) c" and empty: "mc_msgs c = []" and new: "r \<notin> mc_subs c"
    and few: "card (mc_subs c) + 1 < 4294967296"
  shows "\<exists>m' q. shared_open E (mem w) ptr = (m', q)
    \<and> group_holds E ptr (w\<lparr>mem := m'\<rparr>, rs(r := q)) (c\<lparr>mc_subs := insert r (mc_subs c), mc_at := \<lambda>_. 0\<rparr>)
    \<and> only_changes (mem w) m' {ptr..<ptr + 4}"
proof -
  let ?o = "ring_object ptr" and ?m = "mem w"
  note h' = h [unfolded group_holds_def, simplified]
  have at: "atomic_spec (atomics E)" and g: "group_inv ?m ptr (mc_subs c) rs [] (mc_at c)"
    using h' empty by (simp_all add: env_ok_def)
  define q where "q = ?o\<lparr>m_counter := s_counter ?m ?o\<rparr>"
  define m' where "m' = store32 ?m ptr (load32 ?m ptr + 1)"
  have s: "s_counter ?m (fresh_object Shared_queue (ptr + 8) ptr ptr) = s_counter ?m ?o"
    by (simp add: ring_object_def)
  have open': "shared_open E ?m ptr = (m', q)"
    by (simp add: shared_open_def base_shared_open_def Let_def inc_subscriptions_count_def
      atomic_specD [OF at] q_def m'_def ring_object_def fresh_object_def)
  have w': "only_changes ?m m' {ptr..<ptr + 4}" by (simp add: m'_def only_changes_store32)
  have hdr: "unchanged ?m m' (base_ptr ?o) 24" by (rule only_changes_unchanged [OF w']) auto
  note f = header_unchanged [OF hdr]
  have sc: "load32 m' (ptr + 4) = load32 ?m (ptr + 4)"
    by (intro load32_unchanged only_changes_unchanged [OF w']) auto
  have "group_inv m' ptr (insert r (mc_subs c)) (rs(r := q)) [] (\<lambda>_. 0)"
    unfolding group_inv_def
  proof (intro conjI ballI)
    show "finite (insert r (mc_subs c))" using g by (simp add: group_inv_def)
    show "card (insert r (mc_subs c)) < 4294967296" using g new few by (simp add: group_inv_def)
    show "load32 m' ptr = of_nat (card (insert r (mc_subs c)))"
      using g new by (simp add: group_inv_def m'_def)
    show "ring_state m' ?o []" using g f by (simp add: group_inv_def ring_state_def header_ok_def)
    fix r' assume r': "r' \<in> insert r (mc_subs c)"
    show "base_ptr ((rs(r := q)) r') = ptr + 8" "shared_ptr ((rs(r := q)) r') = ptr"
      using g r' by (auto simp: group_inv_def q_def)
    show "reader m' ((rs(r := q)) r') [] 0"
    proof (cases "r' = r")
      case True
      have "reader m' q [] 0"
        by (rule reader_start) (simp_all add: q_def s_counter_def sc ring_object_def fresh_object_def)
      then show ?thesis using True by simp
    next
      case False
      then have r'': "r' \<in> mc_subs c" using r' by simp
      note gm = group_member [OF g r'']
      have "head_of m' (rs r') = head_of ?m (rs r')" "cap_of m' (rs r') = cap_of ?m (rs r')"
        using f by (simp_all only: base_ptr_cong [OF gm(1)])
      moreover have "s_counter m' (rs r') = s_counter ?m (rs r')"
        using gm(3) sc by (simp add: s_counter_def)
      moreover have "mc_at c r' = 0" using gm(4) by (simp add: reader_def)
      ultimately show ?thesis using reader_same [OF gm(4)] False by simp
    qed
  qed simp_all
  moreover have "class_of q = Shared_queue" by (simp add: q_def)
  ultimately show ?thesis using open' w' h' f empty by (simp add: group_holds_def)
qed

section \<open>Properties\<close>

text \<open>
  C3. The objects that subscribe to a shared queue without expiry push non-empty messages, get and
  pop; nobody joins or leaves meanwhile, and no call overlaps another. Whatever the order of their
  calls, the run ends without a crash or a failed assertion and behaves as the abstract multicast
  queue: each of these subscribers is left with what it had not read at the start of the run and the
  messages accepted during the run, in order, less those it popped itself, so each of these reaches
  it exactly once whatever the others do.
\<close>

theorem shared_queue_delivers_to_all:
  assumes "group_holds E ptr s c" and "by_subscribers (mc_subs c) ps"
  shows "\<exists>os s' c'. members_run (group_enq E) (group_front E) (group_deq E) ps s = returns (os, s')
    \<and> group_holds E ptr s' c' \<and> mc_run ps c = (os, c')
    \<and> (\<forall>r \<in> mc_subs c. unread c' r
          = drop (pops (calls_of r ps os)) (unread c r @ accepted (map snd ps) os))"
  by (rule shared.run_multicast [OF assms])

text \<open>
  Creating a shared queue subscribes its creator to an empty
  queue of the given capacity and identifier, writing only the two headers; opening a queue
  with no messages in its ring adds one subscriber and writes only the subscriber count.
\<close>

theorem shared_create_open_holds:
  assumes "env_ok E" and "0 < unat cpct" and "unat cpct < 4294967296" and "r \<noteq> r2"
  shows "\<exists>m1 q m2 q2. shared_create E (mem w) qid ptr cpct = returns (m1, q) \<and> q_id m1 q = qid
    \<and> only_changes (mem w) m1 {ptr..<ptr + 32} \<and> shared_open E m1 ptr = (m2, q2)
    \<and> only_changes m1 m2 {ptr..<ptr + 4}
    \<and> group_holds E ptr (w\<lparr>mem := m2\<rparr>, (\<lambda>_. q)(r2 := q2))
        \<lparr>mc_cap = unat cpct, mc_pos = 0, mc_msgs = [], mc_subs = {r2, r}, mc_at = \<lambda>_. 0\<rparr>"
proof -
  obtain m1 q where c: "shared_create E (mem w) qid ptr cpct = returns (m1, q)"
    "group_holds E ptr (w\<lparr>mem := m1\<rparr>, \<lambda>_. q)
        \<lparr>mc_cap = unat cpct, mc_pos = 0, mc_msgs = [], mc_subs = {r}, mc_at = \<lambda>_. 0\<rparr>"
    "q_id m1 q = qid" "only_changes (mem w) m1 {ptr..<ptr + 32}"
    using shared_create_group [OF assms(1-3)] by blast
  show ?thesis
    using shared_open_group [OF c(2), of r2] c assms(4) by auto
qed

lemma sample_group:
  obtains m1 q m2 q2 where "shared_create sample_env (\<lambda>_. 0) 5 64 100 = returns (m1, q)"
    "shared_open sample_env m1 64 = (m2, q2)"
    "group_holds sample_env 64 (\<lparr>mem = m2, readings = 0\<rparr>, (\<lambda>_. q)(2 := q2))
       \<lparr>mc_cap = 100, mc_pos = 0, mc_msgs = [], mc_subs = {2, 1}, mc_at = \<lambda>_. 0\<rparr>"
proof -
  obtain m1 q where c: "shared_create sample_env (mem \<lparr>mem = \<lambda>_. 0, readings = 0\<rparr>) 5 64 100 = returns (m1, q)"
    "group_holds sample_env 64 (\<lparr>mem = \<lambda>_. 0, readings = 0\<rparr>\<lparr>mem := m1\<rparr>, \<lambda>_. q)
        \<lparr>mc_cap = unat (100 :: u64), mc_pos = 0, mc_msgs = [], mc_subs = {1}, mc_at = \<lambda>_. 0\<rparr>"
    using shared_create_group [of sample_env 100 "\<lparr>mem = \<lambda>_. 0, readings = 0\<rparr>" 5 64 1] by auto
  show thesis
    using shared_open_group [OF c(2), of 2] c(1) that by auto
qed

theorem shared_queue_delivers_to_all_witness:
  "\<exists>s s'. members_run (group_enq sample_env) (group_front sample_env) (group_deq sample_env)
      [(1, Push (7, [10, 11])), (2, Get), (2, Pop), (2, Pop), (1, Push (8, [12])), (1, Get), (1, Pop), (2, Get)] s
    = returns ([Pushed True, Got (Some (7, [10, 11])), Popped True, Popped False, Pushed True,
        Got (Some (7, [10, 11])), Popped True, Got (Some (8, [12]))], s')"
proof -
  obtain m2 q q2 where c: "group_holds sample_env 64 (\<lparr>mem = m2, readings = 0\<rparr>, (\<lambda>_. q)(2 := q2))
       \<lparr>mc_cap = 100, mc_pos = 0, mc_msgs = [], mc_subs = {2, 1}, mc_at = \<lambda>_. 0\<rparr>"
    by (rule sample_group)
  show ?thesis
    using shared_queue_delivers_to_all [OF c, of "[(1, Push (7, [10, 11])), (2, Get), (2, Pop), (2, Pop),
        (1, Push (8, [12])), (1, Get), (1, Pop), (2, Get)]"]
    by (auto simp: mc_push_def mc_clean_def mc_lowest_def mc_get_def mc_pop_def fits_def span_def Let_def after_def)
qed

theorem shared_create_open_holds_witness:
  "\<exists>m1 q m2 q2. shared_create sample_env (\<lambda>_. 9) 5 64 100 = returns (m1, q)
    \<and> shared_open sample_env m1 64 = (m2, q2) \<and> q_id m1 q = 5"
  using shared_create_open_holds [of sample_env 100 0 1 "\<lparr>mem = \<lambda>_. 9, readings = 0\<rparr>" 5 64] by auto

text \<open>
  An object opened on a shared queue has counted
  itself up to date, but has no head of its own: once anything has been pushed, its first get
  yields the oldest message of the ring, also when that one was pushed before it subscribed.
\<close>

lemma late_subscriber_reads_old_message:
  assumes "atomic_spec (atomics E)" and "shared_open E m ptr = (m1, q)"
    and "ring_state m' (ring_object ptr) (x # xs)" and "load32 m' (ptr + 4) \<noteq> load32 m (ptr + 4)"
  shows "q_count m1 q = 0
    \<and> (\<exists>chain q'. get E m' q = returns (chain, m', q') \<and> read_message m' chain = Some x)"
proof -
  have q: "q = (ring_object ptr)\<lparr>m_counter := load32 m (ptr + 4)\<rparr>"
    and m1: "m1 = store32 m ptr (load32 m ptr + 1)"
    using assms(2) by (simp_all add: shared_open_def base_shared_open_def Let_def s_counter_def
      inc_subscriptions_count_def atomic_specD [OF assms(1)] ring_object_def fresh_object_def prod_eq_iff)
  have base: "base_ptr q = base_ptr (ring_object ptr)" and cls: "class_of q = Shared_queue"
    by (simp_all add: q)
  have rs: "ring_state m' q (x # xs)" using assms(3) by (simp add: ring_state_cong [OF base])
  have none: "m_head q = - 1" by (simp add: q ring_object_def fresh_object_def)
  have head: "unat (q_head m' q) = pos_at m' q (x # xs) 0"
    using none by (simp add: shared_class_simps [OF cls] shared_head_def pos_at_0 [OF rs])
  have cnt: "q_count m' q > 0"
    using assms(4) unfolding shared_class_simps(2) [OF cls] shared_count_def
    by (simp add: q s_counter_def word_gt_0 ucast_32_64_eq_0)
  then have ne: "\<not> q_empty m' q" by (simp add: q_empty_def)
  obtain pos where g: "static_get_message q m'
      = returns (chain_at q (cap_of m' q) (pos_at m' q (x # xs) 0) (length (snd ((x # xs) ! 0))), pos)"
    by (rule static_get_at [OF rs _ head ne]) simp
  have "get E m' q = returns (chain_at q (cap_of m' q) (head_of m' q) (length (snd x)), m',
      q\<lparr>m_message_desc := (chain_at q (cap_of m' q) (head_of m' q) (length (snd x)), pos)\<rparr>)"
    using g cnt by (simp add: get_def shared_class_simps [OF cls] pos_at_0 [OF rs])
  moreover have "read_message m' (chain_at q (cap_of m' q) (head_of m' q) (length (snd x))) = Some x"
    by (rule read_stored [OF stored_hd(1) [OF rs]])
  moreover have "q_count m1 q = 0"
    unfolding shared_class_simps(2) [OF cls] shared_count_def
    by (simp add: q s_counter_def m1 memory_simps)
  ultimately show ?thesis by blast
qed

end
