(* ===== verification/Simulation.thy ===== *)
theory Simulation
  imports Prelude
begin

text \<open>
  The interface of a component whose contract leaves some calls open: the specification is a
  partial step, and the program refines it where it is defined. The smart queue and the shared
  queue with writers interpret it.
\<close>

section \<open>The interface\<close>

text \<open>
  A program simulates a partial specification: as long as the specification says what a call
  does, the program does that.
\<close>

fun run_calls :: "('c \<Rightarrow> 's \<Rightarrow> ('x \<times> 's) run) \<Rightarrow> 'c list \<Rightarrow> 's \<Rightarrow> ('x list \<times> 's) run" where
  "run_calls f [] s = returns ([], s)"
| "run_calls f (p # ps) s =
     and_then (f p s) (\<lambda>(x, s1). and_then (run_calls f ps s1) (\<lambda>(xs, s2). returns (x # xs, s2)))"

fun spec_calls :: "('c \<Rightarrow> 'a \<Rightarrow> ('x \<times> 'a) option) \<Rightarrow> 'c list \<Rightarrow> 'a \<Rightarrow> ('x list \<times> 'a) option" where
  "spec_calls f [] a = Some ([], a)"
| "spec_calls f (p # ps) a =
     (case f p a of None \<Rightarrow> None
      | Some (x, a1) \<Rightarrow> map_option (\<lambda>(xs, a2). (x # xs, a2)) (spec_calls f ps a1))"

locale simulation =
  fixes impl :: "'c \<Rightarrow> 's \<Rightarrow> ('x \<times> 's) run"
    and spec :: "'c \<Rightarrow> 'a \<Rightarrow> ('x \<times> 'a) option"
    and legal :: "'c \<Rightarrow> bool"
    and holds :: "'s \<Rightarrow> 'a \<Rightarrow> bool"
  assumes call_law: "holds s a \<Longrightarrow> legal p \<Longrightarrow> spec p a = Some (x, a') \<Longrightarrow>
      \<exists>s'. impl p s = returns (x, s') \<and> holds s' a'"
begin

lemma calls_law:
  "holds s a \<Longrightarrow> \<forall>p \<in> set ps. legal p \<Longrightarrow> spec_calls spec ps a = Some (xs, a') \<Longrightarrow>
    \<exists>s'. run_calls impl ps s = returns (xs, s') \<and> holds s' a'"
proof (induction ps arbitrary: s a xs)
  case (Cons p ps)
  then obtain x a1 ys where step: "spec p a = Some (x, a1)" and rest: "spec_calls spec ps a1 = Some (ys, a')"
    and xs: "xs = x # ys"
    by (auto split: option.splits)
  obtain s1 where s1: "impl p s = returns (x, s1)" "holds s1 a1"
    using call_law [OF Cons.prems(1) _ step] Cons.prems(2) by auto
  obtain s2 where "run_calls impl ps s1 = returns (ys, s2)" "holds s2 a'"
    using Cons.IH [OF s1(2) _ rest] Cons.prems(2) by auto
  with s1(1) xs show ?case by auto
qed simp

end

end
