(* ===== verification/Unreadable_Queue.thy ===== *)
theory Unreadable_Queue
  imports Shared_Queue Simulation
begin

text \<open>
  \<open>unreadable_shared_queue\<close>: objects that only write into a ring that the objects of
  \<open>shared_queue\<close> read, as the multi output connectors use them. They are not subscribed, so no
  message waits for them, but each keeps a counter of the messages it knows to be collected.
\<close>

section \<open>The abstract queue\<close>

text \<open>
  The multicast queue of the subscribers with a set of writers. \<open>bc_lag w\<close> is the number of
  messages that others have collected since the writer \<open>w\<close> opened the queue: its counter lags
  behind by that number.
\<close>

record broadcast =
  bc_queue :: multicast
  bc_writers :: "nat set"
  bc_lag :: "nat \<Rightarrow> nat"

definition bc_legal :: "mc_call \<Rightarrow> broadcast \<Rightarrow> bool" where
  "bc_legal p b \<longleftrightarrow> sendable (snd p) \<and>
     (fst p \<in> mc_subs (bc_queue b) \<or> is_push (snd p) \<and> fst p \<in> bc_writers b)"

definition bc_next :: "mc_call \<Rightarrow> multicast \<Rightarrow> broadcast \<Rightarrow> broadcast" where
  "bc_next p c' b = b\<lparr>bc_queue := c', bc_lag := (\<lambda>w. if w \<noteq> fst p \<and> is_push (snd p)
     then bc_lag b w + mc_lowest (bc_queue b) else bc_lag b w)\<rparr>"

text \<open>Nothing is promised of a writer that lags behind by as many messages as its counter can count.\<close>

definition bc_step :: "mc_call \<Rightarrow> broadcast \<Rightarrow> (outcome \<times> broadcast) option" where
  "bc_step p b =
     (if bc_legal p b \<and>
        (fst p \<in> bc_writers b \<longrightarrow> length (mc_msgs (bc_queue b)) + bc_lag b (fst p) < 4294967295)
      then Some (fst (mc_step p (bc_queue b)), bc_next p (snd (mc_step p (bc_queue b))) b)
      else None)"

lemma bc_next_simps [simp]:
  "bc_queue (bc_next p c' b) = c'" "bc_writers (bc_next p c' b) = bc_writers b"
  by (simp_all add: bc_next_def)

lemma mc_push_length:
  assumes "mc_ok c"
  shows "length (mc_msgs (snd (mc_push x c))) + mc_lowest c
    = length (mc_msgs c) + (if fst (mc_push x c) then 1 else 0)"
  using mc_lowest_props(1) [OF assms] by (simp add: mc_push_def mc_clean_def Let_def)

lemma mc_step_messages:
  "\<not> is_push (snd p) \<Longrightarrow> mc_msgs (snd (mc_step p c)) = mc_msgs c"
  by (cases "(p, c)" rule: mc_step.cases) (simp_all add: mc_pop_def)

text \<open>What is left to read and the lag of a writer grow by one message with each call at most.\<close>

lemma bc_next_lag:
  assumes "mc_ok (bc_queue b)"
  shows "length (mc_msgs (snd (mc_step p (bc_queue b))))
      + bc_lag (bc_next p (snd (mc_step p (bc_queue b))) b) w
    \<le> Suc (length (mc_msgs (bc_queue b)) + bc_lag b w)"
proof (cases "is_push (snd p)")
  case True
  then obtain r x where p: "p = (r, Push x)" by (cases p) (auto simp: is_push_def split: queue_op.splits)
  have "snd (mc_step p (bc_queue b)) = snd (mc_push x (bc_queue b))" by (simp add: p case_prod_beta)
  then show ?thesis using mc_push_length [OF assms, of x] by (auto simp: bc_next_def p split: if_splits)
next
  case False
  then show ?thesis by (simp add: mc_step_messages bc_next_def)
qed

lemma bc_run_defined:
  assumes "mc_ok (bc_queue b)" and "\<forall>p \<in> set ps. bc_legal p b"
    and "\<forall>w \<in> bc_writers b. length (mc_msgs (bc_queue b)) + bc_lag b w + length ps < 4294967296"
  shows "\<exists>os b'. spec_calls bc_step ps b = Some (os, b') \<and> mc_run ps (bc_queue b) = (os, bc_queue b')"
  using assms
proof (induction ps arbitrary: b)
  case (Cons p ps)
  let ?c = "bc_queue b"
  let ?c' = "snd (mc_step p ?c)"
  let ?b = "bc_next p ?c' b"
  have legal: "bc_legal p b" using Cons.prems(2) by simp
  have step: "bc_step p b = Some (fst (mc_step p ?c), ?b)"
    using legal Cons.prems(3) by (auto simp: bc_step_def)
  note ok = mc_step_ok [OF Cons.prems(1) _ prod.collapse [symmetric], of p]
  have who: "fst p \<in> mc_subs ?c \<or> is_push (snd p)" using legal by (auto simp: bc_legal_def)
  have "mc_ok (bc_queue ?b)" "\<forall>p' \<in> set ps. bc_legal p' ?b"
    using ok(1) [OF who] ok(2) [OF who] Cons.prems(2) by (simp_all add: bc_legal_def)
  moreover have "\<forall>w \<in> bc_writers ?b. length (mc_msgs (bc_queue ?b)) + bc_lag ?b w + length ps < 4294967296"
  proof
    fix w assume "w \<in> bc_writers ?b"
    then have "length (mc_msgs ?c) + bc_lag b w + length (p # ps) < 4294967296" using Cons.prems(3) by simp
    then show "length (mc_msgs (bc_queue ?b)) + bc_lag ?b w + length ps < 4294967296"
      using bc_next_lag [OF Cons.prems(1), of p w] by simp
  qed
  ultimately obtain os b' where "spec_calls bc_step ps ?b = Some (os, b')"
    "mc_run ps ?c' = (os, bc_queue b')"
    using Cons.IH [of ?b] by auto
  with step show ?case by (simp add: Let_def case_prod_beta)
qed auto

section \<open>The invariant\<close>

definition writer :: "memory \<Rightarrow> nat \<Rightarrow> queue \<Rightarrow> nat \<Rightarrow> bool" where
  "writer m ptr q n \<longleftrightarrow> pusher ptr q \<and> class_of q = Unreadable_shared_queue
     \<and> s_counter m (ring_object ptr) - m_counter q = of_nat n"

definition bc_holds :: "env \<Rightarrow> nat \<Rightarrow> group \<Rightarrow> broadcast \<Rightarrow> bool" where
  "bc_holds E ptr s b \<longleftrightarrow> group_holds E ptr s (bc_queue b)
     \<and> mc_subs (bc_queue b) \<inter> bc_writers b = {}
     \<and> (\<forall>w \<in> bc_writers b.
          writer (mem (fst s)) ptr (snd s w) (length (mc_msgs (bc_queue b)) + bc_lag b w))"

lemma group_holds_inv: "group_holds E ptr s c \<longleftrightarrow> env_ok E \<and> mc_inv (mem (fst s)) ptr (snd s) c
    \<and> (\<forall>r \<in> mc_subs c. class_of (snd s r) = Shared_queue)"
  by (auto simp: group_holds_def mc_inv_def)

lemma mc_inv_others:
  assumes "mc_inv m ptr rs c" and "\<And>r. r \<in> mc_subs c \<Longrightarrow> rs' r = rs r"
  shows "mc_inv m ptr rs' c"
  using assms by (simp add: mc_inv_def group_inv_def)

lemma writer_counter:
  assumes "writer m ptr q n" and "s_counter m' (ring_object ptr) = s_counter m (ring_object ptr) + of_nat k"
  shows "writer m' ptr q (n + k)"
  using assms by (simp add: writer_def algebra_simps)

lemma writer_counted:
  assumes "writer m ptr q (j + n)"
  shows "writer m ptr (counted j q) n"
  using assms pusher_counted [of ptr q j] by (simp add: writer_def counted_def algebra_simps)

lemma writer_not_full:
  assumes "writer m ptr q n" and "n < 4294967295"
  shows "s_counter m q - m_counter q \<noteq> - 1"
proof
  assume "s_counter m q - m_counter q = - 1"
  then have "(of_nat n :: u32) = - 1" using assms(1)
    by (simp add: writer_def pusher_def on_ring_def s_counter_def)
  then have "unat (of_nat n :: u32) = unat (- 1 :: u32)" by simp
  then show False using assms(2)
    by (simp add: unat_of_nat_u32 unsigned_minus_1_eq_mask mask_eq_exp_minus_1)
qed

section \<open>The calls\<close>

lemma bc_push_law:
  assumes h: "bc_holds E ptr s b" and legal: "bc_legal (r, Push x) b"
    and few: "r \<in> bc_writers b \<Longrightarrow> length (mc_msgs (bc_queue b)) + bc_lag b r < 4294967295"
  shows "\<exists>s'. group_enq E r x s = returns (fst (mc_push x (bc_queue b)), s')
    \<and> bc_holds E ptr s' (bc_next (r, Push x) (snd (mc_push x (bc_queue b))) b)"
proof -
  let ?c = "bc_queue b" and ?o = "ring_object ptr"
  let ?c' = "snd (mc_push x ?c)" and ?j = "mc_lowest ?c"
  let ?k = "if fst (mc_push x ?c) then 1 else 0 :: nat"
  obtain w rs where s: "s = (w, rs)" by fastforce
  have E: "env_ok E" and inv: "mc_inv (mem w) ptr rs ?c"
    and cls: "\<And>r. r \<in> mc_subs ?c \<Longrightarrow> class_of (rs r) = Shared_queue"
    and apart: "mc_subs ?c \<inter> bc_writers b = {}"
    and wr: "\<And>w'. w' \<in> bc_writers b \<Longrightarrow> writer (mem w) ptr (rs w') (length (mc_msgs ?c) + bc_lag b w')"
    using h by (simp_all add: bc_holds_def group_holds_inv s)
  have g: "group_inv (mem w) ptr (mc_subs ?c) rs (mc_msgs ?c) (mc_at ?c)" using inv by (simp add: mc_inv_def)
  have ne: "snd x \<noteq> []" using legal by (simp add: bc_legal_def)
  have q: "pusher ptr (rs r)" "s_counter (mem w) (rs r) - m_counter (rs r) \<noteq> - 1"
    and keep: "r \<in> mc_subs ?c \<Longrightarrow> counted ?j (rs r) = rs r"
  proof -
    show "r \<in> mc_subs ?c \<Longrightarrow> counted ?j (rs r) = rs r" using member_pusher(2) [OF g] cls by blast
    show "pusher ptr (rs r)" "s_counter (mem w) (rs r) - m_counter (rs r) \<noteq> - 1"
      using legal member_pusher(1) [OF g] member_not_full [OF g] cls writer_not_full [OF wr few] wr
      by (auto simp: bc_legal_def writer_def)
  qed
  obtain w1 where p: "push E w (rs r) (fst x) (snd x) = returns (fst (mc_push x ?c), w1, counted ?j (rs r))"
    "mc_inv (mem w1) ptr rs ?c'"
    "s_counter (mem w1) ?o = s_counter (mem w) ?o + (if fst (mc_push x ?c) then 1 else 0)"
    using mc_inv_push [OF inv q(1) E ne q(2)] by blast
  let ?rs = "rs(r := counted ?j (rs r))"
  have subs: "mc_subs ?c' = mc_subs ?c"
    by (rule mc_push_unread(2) [OF mc_inv_ok [OF inv] prod.collapse [symmetric]])
  have "mc_inv (mem w1) ptr ?rs ?c'"
    by (rule mc_inv_others [OF p(2)]) (use keep subs in auto)
  moreover have "class_of (?rs r') = Shared_queue" if "r' \<in> mc_subs ?c'" for r'
    using that keep cls subs by auto
  moreover have "writer (mem w1) ptr (?rs w')
      (length (mc_msgs ?c') + bc_lag (bc_next (r, Push x) ?c' b) w')" if w': "w' \<in> bc_writers b" for w'
  proof -
    have "s_counter (mem w1) ?o = s_counter (mem w) ?o + of_nat ?k" using p(3) by simp
    note wr0 = writer_counter [OF wr [OF w'] this]
    have "length (mc_msgs ?c) + bc_lag b w' + ?k = ?j + (length (mc_msgs ?c') + bc_lag b w')"
      using mc_push_length [OF mc_inv_ok [OF inv], of x] by simp
    with wr0 have wr1: "writer (mem w1) ptr (rs w') (?j + (length (mc_msgs ?c') + bc_lag b w'))"
      by (simp only:)
    show ?thesis
    proof (cases "w' = r")
      case True
      with writer_counted [OF wr1] show ?thesis by (simp add: bc_next_def)
    next
      case False
      with wr1 show ?thesis by (simp add: bc_next_def algebra_simps)
    qed
  qed
  ultimately have "bc_holds E ptr (w1, ?rs) (bc_next (r, Push x) ?c' b)"
    using E apart subs by (simp add: bc_holds_def group_holds_inv)
  with p(1) show ?thesis by (auto simp: group_enq_def s)
qed

text \<open>A call of a subscriber that reads; the counter of the queue stays.\<close>

lemma bc_read_law:
  assumes h: "bc_holds E ptr s b" and r: "r \<in> mc_subs (bc_queue b)"
    and new: "group_holds E ptr s' c'" "mc_subs c' = mc_subs (bc_queue b)" "mc_msgs c' = mc_msgs (bc_queue b)"
    and rest: "\<And>w. w \<noteq> r \<Longrightarrow> snd s' w = snd s w"
    and sc: "s_counter (mem (fst s')) (ring_object ptr) = s_counter (mem (fst s)) (ring_object ptr)"
    and p: "\<not> is_push p"
  shows "bc_holds E ptr s' (bc_next (r, p) c' b)"
proof -
  have "snd s' w = snd s w" if "w \<in> bc_writers b" for w
    using h r that by (intro rest) (auto simp: bc_holds_def)
  then show ?thesis
    using h new p sc by (simp add: bc_holds_def bc_next_def writer_def)
qed

lemma bc_call_law:
  assumes h: "bc_holds E ptr s b" and step: "bc_step p b = Some (x, b')"
  shows "\<exists>s'. members_step (group_enq E) (group_front E) (group_deq E) p s = returns (x, s')
    \<and> bc_holds E ptr s' b'"
proof -
  let ?c = "bc_queue b"
  obtain r a where p: "p = (r, a)" by fastforce
  obtain w rs where s: "s = (w, rs)" by fastforce
  have legal: "bc_legal (r, a) b" and few: "r \<in> bc_writers b \<Longrightarrow> length (mc_msgs ?c) + bc_lag b r < 4294967295"
    and x: "x = fst (mc_step p ?c)" "b' = bc_next p (snd (mc_step p ?c)) b"
    using step by (auto simp: bc_step_def p split: if_splits)
  show ?thesis
  proof (cases a)
    case (Push y)
    from bc_push_law [OF h legal [unfolded Push] few] show ?thesis
      by (auto simp: p Push x case_prod_beta)
  next
    case Get
    have r: "r \<in> mc_subs ?c" using legal by (simp add: bc_legal_def Get)
    have gh: "group_holds E ptr s ?c" using h by (simp add: bc_holds_def)
    have g: "group_inv (mem w) ptr (mc_subs ?c) rs (mc_msgs ?c) (mc_at ?c)"
      and cls: "class_of (rs r) = Shared_queue" using gh r by (simp_all add: group_holds_def s)
    obtain chain q' where d: "get E (mem w) (rs r) = returns (chain, mem w, q')"
      "group_inv (mem w) ptr (mc_subs ?c) (rs(r := q')) (mc_msgs ?c) (mc_at ?c)" "class_of q' = Shared_queue"
      "read_message (mem w) chain = mc_get r ?c"
      using group_get [OF g r cls, of E] by (auto simp: mc_get_def)
    have "group_holds E ptr (w, rs(r := q')) ?c" using gh d by (simp add: group_holds_def s)
    then have "bc_holds E ptr (w, rs(r := q')) (bc_next (r, Get) ?c b)"
      by (rule bc_read_law [OF h r]) (simp_all add: s)
    with d(1,4) show ?thesis by (auto simp: p Get x s group_front_def)
  next
    case Pop
    have r: "r \<in> mc_subs ?c" using legal by (simp add: bc_legal_def Pop)
    have gh: "group_holds E ptr s ?c" using h by (simp add: bc_holds_def)
    have at: "atomic_spec (atomics E)" and g: "group_inv (mem w) ptr (mc_subs ?c) rs (mc_msgs ?c) (mc_at ?c)"
      and cls: "class_of (rs r) = Shared_queue" using gh r by (simp_all add: group_holds_def env_ok_def s)
    obtain s' where d: "group_deq E r s = returns (fst (mc_pop r ?c), s')"
      "group_holds E ptr s' (snd (mc_pop r ?c))"
      using group_deq_law [OF gh r] by blast
    have sc: "s_counter (mem (fst s')) (ring_object ptr) = s_counter (mem w) (ring_object ptr)
        \<and> (\<forall>w. w \<noteq> r \<longrightarrow> snd s' w = rs w)"
    proof (cases "mc_at ?c r < length (mc_msgs ?c)")
      case True
      obtain m' q' where "pop E (mem w) (rs r) = returns (True, m', q')" "load32 m' (ptr + 4) = load32 (mem w) (ptr + 4)"
        using group_pop [OF g r True at cls] by blast
      then show ?thesis using d(1) by (auto simp: group_deq_def s s_counter_def)
    next
      case False
      have "reader (mem w) (rs r) (mc_msgs ?c) (mc_at ?c r)" by (rule group_member(4) [OF g r])
      then have "pop E (mem w) (rs r) = returns (False, mem w, rs r)"
        using q_count_pos [of "mem w" "rs r" "mc_msgs ?c" "mc_at ?c r"] False by (simp add: pop_def)
      then show ?thesis using d(1) by (auto simp: group_deq_def s)
    qed
    have "bc_holds E ptr s' (bc_next (r, Pop) (snd (mc_pop r ?c)) b)"
      by (rule bc_read_law [OF h r d(2)]) (use sc in \<open>auto simp: mc_pop_def s\<close>)
    with d(1) show ?thesis by (auto simp: p Pop x case_prod_beta)
  qed
qed

interpretation broadcast: simulation "members_step (group_enq E) (group_front E) (group_deq E)" bc_step
    "\<lambda>_. True" "bc_holds E ptr"
  for E ptr
  by unfold_locales (rule bc_call_law)

section \<open>Opening\<close>

text \<open>A writer that opens a ring without messages, and one that creates it.\<close>

lemma unreadable_open_writer:
  assumes h: "bc_holds E ptr s b" and empty: "mc_msgs (bc_queue b) = []"
    and new: "w \<notin> mc_subs (bc_queue b)" "w \<notin> bc_writers b"
  shows "bc_holds E ptr (fst s, (snd s)(w := unreadable_open (mem (fst s)) ptr))
    (b\<lparr>bc_writers := insert w (bc_writers b), bc_lag := (bc_lag b)(w := 0)\<rparr>)"
proof -
  let ?q = "unreadable_open (mem (fst s)) ptr"
  have "writer (mem (fst s)) ptr ?q 0"
    by (simp add: writer_def pusher_def on_ring_def unreadable_open_def base_shared_open_def Let_def
      fresh_object_def s_counter_def)
  moreover have "mc_inv (mem (fst s)) ptr ((snd s)(w := ?q)) (bc_queue b)"
    by (rule mc_inv_others [where rs = "snd s"]) (use h new in \<open>auto simp: bc_holds_def group_holds_inv\<close>)
  moreover have "class_of (((snd s)(w := ?q)) r) = Shared_queue" if "r \<in> mc_subs (bc_queue b)" for r
    using h that new by (auto simp: bc_holds_def group_holds_inv)
  moreover have "writer (mem (fst s)) ptr (((snd s)(w := ?q)) w') (((bc_lag b)(w := 0)) w')"
    if "w' \<in> insert w (bc_writers b)" for w'
    using h that empty calculation(1) by (auto simp: bc_holds_def)
  ultimately show ?thesis
    using h empty new unfolding bc_holds_def group_holds_inv by simp
qed

lemma bc_subscribe:
  assumes h: "bc_holds E ptr (w, rs) b" and empty: "mc_msgs (bc_queue b) = []"
    and new: "r \<notin> mc_subs (bc_queue b)" "r \<notin> bc_writers b"
    and few: "card (mc_subs (bc_queue b)) + 1 < 4294967296"
  shows "\<exists>m' q. shared_open E (mem w) ptr = (m', q) \<and> bc_holds E ptr (w\<lparr>mem := m'\<rparr>, rs(r := q))
    (b\<lparr>bc_queue := (bc_queue b)\<lparr>mc_subs := insert r (mc_subs (bc_queue b)), mc_at := \<lambda>_. 0\<rparr>\<rparr>)"
proof -
  have gh: "group_holds E ptr (w, rs) (bc_queue b)" using h by (simp add: bc_holds_def)
  obtain m' q where o: "shared_open E (mem w) ptr = (m', q)" "group_holds E ptr (w\<lparr>mem := m'\<rparr>, rs(r := q))
      ((bc_queue b)\<lparr>mc_subs := insert r (mc_subs (bc_queue b)), mc_at := \<lambda>_. 0\<rparr>)"
    "only_changes (mem w) m' {ptr..<ptr + 4}"
    using shared_open_group [OF gh empty new(1) few] by blast
  have "s_counter m' (ring_object ptr) = s_counter (mem w) (ring_object ptr)"
    unfolding s_counter_def by (intro load32_unchanged only_changes_unchanged [OF o(3)]) auto
  then have "writer m' ptr ((rs(r := q)) w') (length (mc_msgs (bc_queue b)) + bc_lag b w')"
    if "w' \<in> bc_writers b" for w'
    using h new that by (auto simp: bc_holds_def writer_def)
  then show ?thesis
    using o(1,2) h new by (simp add: bc_holds_def)
qed

lemma unreadable_creates:
  assumes E: "env_ok E" and cap: "0 < unat cpct" "unat cpct < 4294967296"
  shows "\<exists>m' q. unreadable_create E (mem w) qid ptr cpct = returns (m', q)
    \<and> bc_holds E ptr (w\<lparr>mem := m'\<rparr>, \<lambda>_. q)
        \<lparr>bc_queue = \<lparr>mc_cap = unat cpct, mc_pos = 0, mc_msgs = [], mc_subs = {}, mc_at = \<lambda>_. 0\<rparr>,
         bc_writers = {r}, bc_lag = \<lambda>_. 0\<rparr>"
proof -
  let ?o = "ring_object ptr" and ?q = "fresh_object Unreadable_shared_queue (ptr + 8) ptr ptr"
  have at: "atomic_spec (atomics E)" using E by (simp add: env_ok_def)
  have b: "base_ptr ?q = base_ptr ?o" by (simp add: fresh_object_def)
  obtain m1 where c: "base_create (mem w) ?q qid cpct = returns m1" "head_of m1 ?q = 0" "tail_of m1 ?q = 0"
    "count_of m1 ?q = 0" "cap_of m1 ?q = unat cpct" "keepalive_timeout m1 ?q = 0"
    by (rule base_create_returns [OF cap])
  note c' = c(2-6) [unfolded base_ptr_cong [OF b]]
  define m2 where "m2 = store32 (store32 (store32 m1 (ptr + 4) 0) ptr 0) ptr 0"
  have create: "unreadable_create E (mem w) qid ptr cpct = returns (m2, ?q)"
    using c(1) by (simp add: unreadable_create_def base_shared_create_def Let_def
      set_s_counter_def set_subscriptions_count_def atomic_specD [OF at] fresh_object_def m2_def)
  have w2: "only_changes m1 m2 {ptr..<ptr + 8}"
    unfolding m2_def
    by (rule only_changes_trans3 [OF only_changes_store32 only_changes_store32 only_changes_store32]) auto
  have hdr: "unchanged m1 m2 (base_ptr ?o) 24" by (rule only_changes_unchanged [OF w2]) auto
  note f = header_unchanged [OF hdr]
  have "ring_state m2 ?o []" by (rule ring_state_empty) (use c' f cap in simp_all)
  moreover have "s_counter m2 ?o = 0" "load32 m2 ptr = 0"
    by (simp_all add: m2_def s_counter_def memory_simps)
  moreover have "writer m2 ptr ?q 0"
    using calculation(2) by (simp add: writer_def pusher_def on_ring_def fresh_object_def)
  ultimately show ?thesis
    using create E c' f by (simp add: bc_holds_def group_holds_inv mc_inv_def group_inv_def)
qed

section \<open>Properties\<close>

text \<open>
  C10. Subscribers of a shared queue without expiry push non-empty messages, get and pop, and
  objects that only write push non-empty messages; nobody joins or leaves and no call overlaps
  another. As long as for each writer the messages in the queue, those it lags behind by and the
  calls of the run together are less than \<open>2 ^ 32\<close>, the calls, in whatever order,
  return what the abstract multicast queue returns, without a crash or a failed assertion, and each
  subscriber is left with what it had not read and the messages accepted since from anybody, in
  order, less those it popped.
\<close>

theorem unreadable_writers_deliver:
  assumes "bc_holds E ptr s b" and "\<forall>p \<in> set ps. bc_legal p b"
    and "\<forall>w \<in> bc_writers b. length (mc_msgs (bc_queue b)) + bc_lag b w + length ps < 4294967296"
  shows "\<exists>os s' b'. run_calls (members_step (group_enq E) (group_front E) (group_deq E)) ps s = returns (os, s')
    \<and> bc_holds E ptr s' b' \<and> mc_run ps (bc_queue b) = (os, bc_queue b')
    \<and> (\<forall>r \<in> mc_subs (bc_queue b). unread (bc_queue b') r
          = drop (pops (calls_of r ps os)) (unread (bc_queue b) r @ accepted (map snd ps) os))"
proof -
  have ok: "mc_ok (bc_queue b)" using assms(1) group_holds_ok unfolding bc_holds_def by blast
  obtain os b' where run: "spec_calls bc_step ps b = Some (os, b')" "mc_run ps (bc_queue b) = (os, bc_queue b')"
    using bc_run_defined [OF ok assms(2,3)] by blast
  obtain s' where "run_calls (members_step (group_enq E) (group_front E) (group_deq E)) ps s = returns (os, s')"
    "bc_holds E ptr s' b'"
    using broadcast.calls_law [OF assms(1) _ run(1)] by auto
  moreover have "by_members (mc_subs (bc_queue b)) ps" using assms(2) by (auto simp: bc_legal_def)
  ultimately show ?thesis
    using run(2) mc_run_delivery [OF run(2) ok] by blast
qed

text \<open>
  C34. A writer that opens a queue in which messages wait to be
  collected starts level with the counter of the queue and then adds what it collects: its count of
  messages wraps around to almost \<open>2 ^ 32\<close>.
\<close>

theorem late_writer_count_wraps:
  assumes "mc_inv m ptr rs c" and "atomic_spec (atomics E)" and "0 < mc_lowest c"
  shows "\<exists>m1 q1. clean E m (unreadable_open m ptr) = returns (of_nat (mc_lowest c), m1, q1)
    \<and> unat (q_count m1 q1) = 4294967296 - mc_lowest c"
proof -
  let ?q = "unreadable_open m ptr" and ?j = "mc_lowest c"
  have g: "group_inv m ptr (mc_subs c) rs (mc_msgs c) (mc_at c)" using assms(1) by (simp add: mc_inv_def)
  note low = mc_lowest_props [OF mc_inv_ok [OF assms(1)]]
  have q: "pusher ptr ?q" "class_of ?q = Unreadable_shared_queue" "m_counter ?q = load32 m (ptr + 4)"
    "shared_ptr ?q = ptr"
    by (simp_all add: pusher_def on_ring_def unreadable_open_def base_shared_open_def Let_def
      fresh_object_def s_counter_def)
  have "s_counter m ?q - m_counter ?q = 0" using q(3,4) by (simp add: s_counter_def)
  then have full: "s_counter m ?q - m_counter ?q \<noteq> - 1" by simp
  obtain t m1 where c: "shared_clean_messages E m ?q = returns ((of_nat ?j, t), m1)"
    "only_changes m m1 {ptr + 20..<ptr + 28}"
    using group_clean_any [OF g _ assms(2) full low] q(1) by (auto simp: pusher_def)
  have "ring_state m (ring_object ptr) (mc_msgs c)" using g by (simp add: group_inv_def)
  then have j: "?j < 4294967296" using low(1) ring_state_short by fastforce
  have "load32 m1 (ptr + 4) = load32 m (ptr + 4)"
    by (intro load32_unchanged only_changes_unchanged [OF c(2)]) auto
  then have "q_count m1 (counted ?j ?q) = ucast (- (of_nat ?j :: u32))"
    using q(2-4) by (simp add: counted_def ring_class_simps shared_count_def s_counter_def)
  moreover have "unat (0 - (of_nat ?j :: u32)) = 4294967296 - ?j"
    using assms(3) j by (simp add: unat_sub_if' unat_of_nat_u32 del: diff_0)
  ultimately show ?thesis using pusher_clean [OF q(1) c(1)] by (simp add: clean_def)
qed

lemma sample_broadcast:
  obtains m q m2 q2 where "unreadable_create sample_env (\<lambda>_. 9) 5 64 100 = returns (m, q)"
    "shared_open sample_env m 64 = (m2, q2)"
    "bc_holds sample_env 64 (\<lparr>mem = m2, readings = 0\<rparr>, (\<lambda>_. q)(2 := q2))
      \<lparr>bc_queue = \<lparr>mc_cap = 100, mc_pos = 0, mc_msgs = [], mc_subs = {2}, mc_at = \<lambda>_. 0\<rparr>,
         bc_writers = {1}, bc_lag = \<lambda>_. 0\<rparr>"
proof -
  obtain m q where c: "unreadable_create sample_env (mem \<lparr>mem = \<lambda>_. 9, readings = 0\<rparr>) 5 64 100 = returns (m, q)"
    "bc_holds sample_env 64 (\<lparr>mem = \<lambda>_. 9, readings = 0\<rparr>\<lparr>mem := m\<rparr>, \<lambda>_. q)
        \<lparr>bc_queue = \<lparr>mc_cap = unat (100 :: u64), mc_pos = 0, mc_msgs = [], mc_subs = {}, mc_at = \<lambda>_. 0\<rparr>,
         bc_writers = {1}, bc_lag = \<lambda>_. 0\<rparr>"
    using unreadable_creates [of sample_env 100 "\<lparr>mem = \<lambda>_. 9, readings = 0\<rparr>" 5 64 1] by auto
  show thesis
    using bc_subscribe [OF c(2), of 2] c(1) that by auto
qed

theorem unreadable_writers_deliver_witness:
  "\<exists>s s'. run_calls (members_step (group_enq sample_env) (group_front sample_env) (group_deq sample_env))
      [(1, Push (7, [10, 11])), (2, Get), (2, Pop), (1, Push (8, [12])), (2, Push (9, [13])), (2, Get)] s
    = returns ([Pushed True, Got (Some (7, [10, 11])), Popped True, Pushed True, Pushed True,
        Got (Some (8, [12]))], s')"
proof -
  obtain m2 q q2 where c: "bc_holds sample_env 64 (\<lparr>mem = m2, readings = 0\<rparr>, (\<lambda>_. q)(2 := q2))
      \<lparr>bc_queue = \<lparr>mc_cap = 100, mc_pos = 0, mc_msgs = [], mc_subs = {2}, mc_at = \<lambda>_. 0\<rparr>,
         bc_writers = {1}, bc_lag = \<lambda>_. 0\<rparr>"
    by (rule sample_broadcast)
  show ?thesis
    using unreadable_writers_deliver [OF c, of "[(1, Push (7, [10, 11])), (2, Get), (2, Pop),
        (1, Push (8, [12])), (2, Push (9, [13])), (2, Get)]"]
    by (auto simp: bc_legal_def mc_push_def mc_clean_def mc_lowest_def mc_get_def mc_pop_def fits_def
      span_def Let_def after_def)
qed

theorem late_writer_count_wraps_witness:
  "\<exists>m m1 q1. clean sample_env m (unreadable_open m 64) = returns (1, m1, q1)
    \<and> unat (q_count m1 q1) = 4294967295"
proof -
  obtain m2 q q2 where c: "bc_holds sample_env 64 (\<lparr>mem = m2, readings = 0\<rparr>, (\<lambda>_. q)(2 := q2))
      \<lparr>bc_queue = \<lparr>mc_cap = 100, mc_pos = 0, mc_msgs = [], mc_subs = {2}, mc_at = \<lambda>_. 0\<rparr>,
         bc_writers = {1}, bc_lag = \<lambda>_. 0\<rparr>"
    by (rule sample_broadcast)
  let ?c = "\<lparr>mc_cap = 100, mc_pos = 0, mc_msgs = [(7, [10, 11])], mc_subs = {2}, mc_at = (\<lambda>_. 0)(2 := 1)\<rparr>"
  obtain b' where "spec_calls bc_step [(1, Push (7, [10, 11])), (2, Pop)]
      \<lparr>bc_queue = \<lparr>mc_cap = 100, mc_pos = 0, mc_msgs = [], mc_subs = {2}, mc_at = \<lambda>_. 0\<rparr>,
         bc_writers = {1}, bc_lag = \<lambda>_. 0\<rparr> = Some ([Pushed True, Popped True], b')" "bc_queue b' = ?c"
    by (auto simp: bc_step_def bc_next_def bc_legal_def mc_push_def mc_clean_def mc_lowest_def mc_pop_def
      fits_def span_def Let_def after_def)
  then obtain s where "bc_holds sample_env 64 s b'" using broadcast.calls_law [OF c] by blast
  then have "mc_inv (mem (fst s)) 64 (snd s) ?c"
    using \<open>bc_queue b' = ?c\<close> by (simp add: bc_holds_def group_holds_inv)
  from late_writer_count_wraps [OF this, of sample_env] show ?thesis
    using sample_env_ok by (auto simp: mc_lowest_def env_ok_def)
qed

end
