(* ===== verification/Smart_Ring.thy ===== *)
theory Smart_Ring
  imports Shared_Queue
begin

text \<open>
  \<open>smart_shared_queue\<close>: the free regions it hands out. For a message of a user they are those
  of \<open>base_queue\<close>, cut so that the message does not use more than what the queue keeps free
  beyond a reserve for the service messages of its subscribers; a service message may use all.
\<close>

section \<open>The regions of a message of a user\<close>

definition user_object :: "queue \<Rightarrow> bool" where
  "user_object q \<longleftrightarrow> class_of q = Smart_shared_queue \<and> m_state q \<noteq> ST_PUSH_SPECIAL_MESSAGE
     \<and> smart_ptr q + 4 = shared_ptr q \<and> shared_ptr q + 8 = base_ptr q"

text \<open>The free space less the reserve, as the code computes it: it may wrap around.\<close>

definition smart_limit :: "env \<Rightarrow> memory \<Rightarrow> queue \<Rightarrow> nat" where
  "smart_limit E m q = unat (free_space E m q - 2 * static_size 1 * subscriptions_count E m q)"

lemma smart_limit_unchanged:
  assumes "user_object q" and "only_changes m m' S" and "S \<inter> {..<base_ptr q} = {}"
  shows "smart_limit E m' q = smart_limit E m q"
proof -
  have "unchanged m m' (smart_ptr q) 4" "unchanged m m' (shared_ptr q) 4"
    using assms by (intro only_changes_unchanged [OF assms(2)]; force simp: user_object_def)+
  then show ?thesis
    by (simp add: smart_limit_def free_space_def subscriptions_count_def load32_unchanged)
qed

definition before :: "region option \<Rightarrow> nat" where
  "before prev = (case prev of None \<Rightarrow> 0 | Some r \<Rightarrow> unat (snd r))"

lemma before_simps [simp]: "before None = 0" "before (Some r) = unat (snd r)"
  by (simp_all add: before_def)

lemma smart_region:
  assumes q: "user_object q" and base: "base_get_free_region m q prev = returns r" "region_is r p n"
    and small: "n + before prev < 18446744073709551616" and le: "before prev \<le> smart_limit E m q"
  obtains r' where "get_free_region E m q prev = returns r'"
    "region_is r' p (min n (smart_limit E m q - before prev))"
proof -
  let ?A = "free_space E m q - 2 * static_size 1 * subscriptions_count E m q"
  let ?k = "case prev of None \<Rightarrow> 0 | Some prev \<Rightarrow> snd prev"
  let ?size = "snd r + ?k"
  have k: "unat ?k = before prev" by (simp add: before_def split: option.splits)
  have n: "unat (snd r) = n" "unat (fst r) = p" using base(2) by (simp_all add: region_is_def)
  have size: "unat ?size = n + before prev" using small by (simp add: unat_word_ariths n k)
  let ?r = "if ?size > ?A then (fst r, snd r - (?size - ?A)) else r"
  have get: "get_free_region E m q prev = returns ?r"
    using q base(1) by (simp add: get_free_region_def smart_get_free_region_def user_object_def Let_def)
  have "region_is ?r p (min n (smart_limit E m q - before prev))"
  proof (cases "?size > ?A")
    case True
    then have gt: "smart_limit E m q < n + before prev"
      by (simp add: smart_limit_def word_less_nat_alt size)
    define d where "d = ?size - ?A"
    have "unat d = n + before prev - smart_limit E m q"
      unfolding d_def using True by (subst unat_sub) (simp_all add: size smart_limit_def)
    then have "unat (snd r - d) = n - (n + before prev - smart_limit E m q)"
      using le by (simp add: unat_sub word_le_nat_alt n)
    then show ?thesis using True gt le n by (simp add: region_is_def d_def)
  next
    case False
    then have "n + before prev \<le> smart_limit E m q"
      by (simp add: smart_limit_def word_less_nat_alt size)
    then show ?thesis using False n by (simp add: region_is_def)
  qed
  with get show thesis by (rule that)
qed

section \<open>Messages that respect the reserve\<close>

text \<open>What is left after the first region goes to the start of the ring.\<close>

lemma smart_wrap:
  assumes q: "user_object q" and live: "clock_live (clock E)" and ok: "header_ok (mem w) q"
    and prev: "region_is prev p k" "p + k = cap_of (mem w) q" and rest: "0 < rest"
    and room: "rest + 24 \<le> head_of (mem w) q" "k + rest + 24 \<le> smart_limit E (mem w) q"
  obtains w1 r where
    "make_loop E q w pm (Some prev) rest = returns (w1, Some (pm @ [data_start q], Some r))"
    "unat (fst r) = 0" "unat (msg_capacity (mem w1) (data_start q)) = rest"
    "msg_sid (mem w1) (data_start q) = get_sid E"
    "only_changes (mem w) (mem w1) {data_start q..<data_start q + 24}"
proof -
  let ?h = "head_of (mem w) q" and ?A = "smart_limit E (mem w) q"
  have hd: "?h < cap_of (mem w) q" using ok by (simp add: header_ok_def)
  have small: "cap_of (mem w) q < 4294967296" by (rule cap_of_bound)
  have le: "p + k \<le> cap_of (mem w) q" using prev(2) by simp
  have k: "unat (snd prev) = k" using prev(1) by (simp add: region_is_def)
  obtain r where r0: "base_get_free_region (mem w) q (Some prev) = returns r"
    "region_is r ((p + k) mod cap_of (mem w) q)
       (if ?h < (p + k) mod cap_of (mem w) q then cap_of (mem w) q - (p + k) mod cap_of (mem w) q
        else ?h - (p + k) mod cap_of (mem w) q)"
    by (rule next_free_region [OF ok prev(1) le])
  then have r: "region_is r 0 ?h" using prev(2) by simp
  have "?h + before (Some prev) < 18446744073709551616" "before (Some prev) \<le> ?A"
    using hd small le room k by simp_all
  then obtain r' where r': "get_free_region E (mem w) q (Some prev) = returns r'"
    "region_is r' 0 (min ?h (?A - before (Some prev)))"
    by (rule smart_region [OF q r0(1) r])
  let ?n = "min ?h (?A - k)"
  have gt: "24 < ?n" "?n < 4294967296" and all: "min rest (?n - 24) = rest"
    using rest room hd small by auto
  have rr: "region_is r' 0 ?n" using r'(2) k by simp
  obtain w1 where w1: "make_loop E q w pm (Some prev) rest
       = make_loop E q w1 (pm @ [data_start q + 0]) (Some r') (rest - min rest (?n - 24))"
    "only_changes (mem w) (mem w1) {data_start q + 0..<data_start q + 0 + 24}"
    "unat (msg_capacity (mem w1) (data_start q + 0)) = min rest (?n - 24)"
    "msg_sid (mem w1) (data_start q + 0) = get_sid E"
    by (rule loop_takes [OF live rest r'(1) rr gt, where pmessage = pm])
  show thesis
    by (rule that [of w1 r']) (use w1 all r'(2) in \<open>simp_all add: make_loop_done region_is_def\<close>)
qed

text \<open>The first region.\<close>

lemma smart_first:
  assumes q: "user_object q" and ok: "header_ok (mem w) q"
  defines "n1 \<equiv> if wraps (mem w) q then cap_of (mem w) q - tail_of (mem w) q
    else head_of (mem w) q - tail_of (mem w) q"
  obtains r where "get_free_region E (mem w) q None = returns r"
    "region_is r (tail_of (mem w) q) (min n1 (smart_limit E (mem w) q))"
proof -
  obtain r where r: "base_get_free_region (mem w) q None = returns r"
    "region_is r (tail_of (mem w) q)
       (if count_of (mem w) q = 0 \<or> head_of (mem w) q < tail_of (mem w) q
        then cap_of (mem w) q - tail_of (mem w) q else head_of (mem w) q - tail_of (mem w) q)"
    by (rule first_free_region [OF ok])
  then have "region_is r (tail_of (mem w) q) n1" by (simp add: n1_def wraps_def)
  moreover have "n1 + before None < 18446744073709551616" "before None \<le> smart_limit E (mem w) q"
    using cap_of_bound [of "mem w" q] ok by (auto simp: n1_def header_ok_def less_imp_diff_less)
  ultimately obtain r' where "get_free_region E (mem w) q None = returns r'"
    "region_is r' (tail_of (mem w) q) (min n1 (smart_limit E (mem w) q - before None))"
    by (rule smart_region [OF q r(1)])
  then show thesis using that [of r'] by simp
qed

lemma smart_make_loop_fits:
  assumes q: "user_object q" and live: "clock_live (clock E)" and ok: "header_ok (mem w) q"
    and pos: "0 < n" and empty: "count_of (mem w) q = 0 \<Longrightarrow> head_of (mem w) q = tail_of (mem w) q"
    and fit: "span (cap_of (mem w) q) (tail_of (mem w) q) n \<le> free_bytes (mem w) q"
    and lim: "span (cap_of (mem w) q) (tail_of (mem w) q) n \<le> smart_limit E (mem w) q"
  obtains w1 r where
    "make_loop E q w [] None n
       = returns (w1, Some (chain_at q (cap_of (mem w) q) (tail_of (mem w) q) n, Some r))"
    "unat (fst r) = fst (last (place (cap_of (mem w) q) (tail_of (mem w) q) n))"
    "made E (mem w) (mem w1) q (tail_of (mem w) q) n"
proof -
  let ?m = "mem w"
  let ?c = "cap_of ?m q" and ?t = "tail_of ?m q" and ?h = "head_of ?m q" and ?D = "data_start q"
  let ?A = "smart_limit E ?m q"
  have lt: "?h < ?c" "?t < ?c" using ok by (simp_all add: header_ok_def)
  have small: "?c < 4294967296" by (rule cap_of_bound)
  define n1 where "n1 = (if wraps ?m q then ?c - ?t else ?h - ?t)"
  obtain r where r: "get_free_region E ?m q None = returns r" "region_is r ?t (min n1 ?A)"
    using smart_first [OF q ok] unfolding n1_def by blast
  note fit' = fit [unfolded free_bytes_def]
  show thesis
  proof (cases rule: place_cases [of ?c ?t n])
    case skip
    then have w: "wraps ?m q" and n1c: "n1 = ?c - ?t" and h: "n + 24 \<le> ?h"
      using fit' lt by (auto simp: n1_def split: if_splits)
    have rr: "region_is r ?t n1" using r(2) lim skip n1c by simp
    have loop: "make_loop E q w [] None n = make_loop E q w [] (Some r) n"
      by (rule loop_skips [OF pos r(1) rr]) (use n1c lt skip in auto)
    obtain w1 r' where "make_loop E q w [] (Some r) n = returns (w1, Some ([] @ [?D], Some r'))"
      "unat (fst r') = 0" "unat (msg_capacity (mem w1) ?D) = n" "msg_sid (mem w1) ?D = get_sid E"
      "only_changes ?m (mem w1) {?D..<?D + 24}"
      by (rule smart_wrap [OF q live ok rr _ pos, where pm = "[]"])
        (use n1c lt h lim skip in auto)
    with skip w lt loop h show thesis
      by (intro that [of w1 r'])
        (auto simp: chain_at_def made_def free_cells_def elim!: only_changes_mono)
  next
    case one
    then have len: "n + 24 \<le> n1" using fit' lt by (auto simp: n1_def split: if_splits)
    have gt: "24 < min n1 ?A" "min n1 ?A < 4294967296" and all: "min n (min n1 ?A - 24) = n"
      using len lim one pos lt small by (auto simp: n1_def)
    obtain w1 where w1: "make_loop E q w [] None n
         = make_loop E q w1 ([] @ [?D + ?t]) (Some r) (n - min n (min n1 ?A - 24))"
      "only_changes ?m (mem w1) {?D + ?t..<?D + ?t + 24}"
      "unat (msg_capacity (mem w1) (?D + ?t)) = min n (min n1 ?A - 24)"
      "msg_sid (mem w1) (?D + ?t) = get_sid E"
      by (rule loop_takes [OF live pos r gt, where pmessage = "[]"])
    have "{?D + ?t..<?D + ?t + 24} \<subseteq> free_cells ?m q"
      using len lt by (auto simp: free_cells_def n1_def split: if_splits)
    with w1 all one r show thesis
      by (intro that [of w1 r])
        (auto simp: make_loop_done chain_at_def made_def region_is_def elim!: only_changes_mono)
  next
    case two
    then have w: "wraps ?m q" and n1c: "n1 = ?c - ?t"
      using fit' lt by (auto simp: n1_def split: if_splits)
    then have A: "min n1 ?A = n1" and gt: "24 < n1" "n1 < 4294967296"
      using two lim small by auto
    have rr: "region_is r ?t n1" using r(2) A by simp
    obtain w1 where w1: "make_loop E q w [] None n
         = make_loop E q w1 ([] @ [?D + ?t]) (Some r) (n - min n (n1 - 24))"
      "only_changes ?m (mem w1) {?D + ?t..<?D + ?t + 24}"
      "unat (msg_capacity (mem w1) (?D + ?t)) = min n (n1 - 24)"
      "msg_sid (mem w1) (?D + ?t) = get_sid E"
      by (rule loop_takes [OF live pos r(1) rr gt, where pmessage = "[]"])
    have rest: "n - min n (n1 - 24) = n - (?c - ?t - 24)" "min n (n1 - 24) = ?c - ?t - 24"
      using two n1c by auto
    have "unchanged ?m (mem w1) (base_ptr q) 24"
      by (rule header_only_changes [OF w1(2)]) auto
    then have ok1: "header_ok (mem w1) q" and same: "head_of (mem w1) q = ?h" "cap_of (mem w1) q = ?c"
      using ok by (simp_all add: header_ok_cong header_unchanged)
    have lim1: "smart_limit E (mem w1) q = ?A"
      by (rule smart_limit_unchanged [OF q w1(2)]) auto
    have room: "0 < n - (?c - ?t - 24)" "n - (?c - ?t - 24) + 24 \<le> ?h"
      "n1 + (n - (?c - ?t - 24)) + 24 \<le> ?A"
      using two w fit' lt lim n1c by auto
    obtain w2 r' where w2: "make_loop E q w1 [?D + ?t] (Some r) (n - (?c - ?t - 24))
        = returns (w2, Some ([?D + ?t] @ [?D], Some r'))"
      "unat (fst r') = 0" "unat (msg_capacity (mem w2) ?D) = n - (?c - ?t - 24)"
      "msg_sid (mem w2) ?D = get_sid E" "only_changes (mem w1) (mem w2) {?D..<?D + 24}"
      by (rule smart_wrap [OF q live ok1 rr _ room(1), where pm = "[?D + ?t]"])
        (use n1c lt room same lim1 in auto)
    have "unchanged (mem w1) (mem w2) (?D + ?t) 24"
      using room(2) w lt two empty by (intro only_changes_unchanged [OF w2(5)]) (auto simp: wraps_def)
    then have "unchanged (mem w1) (mem w2) (?D + ?t + 4) 4" "unchanged (mem w1) (mem w2) (?D + ?t + 8) 4"
      by (auto elim: unchanged_sub)
    then have keep: "msg_capacity (mem w2) (?D + ?t) = msg_capacity (mem w1) (?D + ?t)"
      "msg_sid (mem w2) (?D + ?t) = msg_sid (mem w1) (?D + ?t)"
      by (simp_all add: msg_capacity_def msg_sid_def load32_unchanged)
    have "only_changes ?m (mem w2) (free_cells ?m q)"
      by (rule only_changes_trans [OF w1(2) w2(5)])
        (use w lt two room(2) in \<open>auto simp: free_cells_def\<close>)
    with w2 two w1 rest keep show thesis
      by (intro that [of w2 r']) (simp_all add: chain_at_def made_def)
  qed
qed

text \<open>A message that would use the reserve is refused, if the first region is long enough to tell.\<close>

lemma smart_make_loop_refused:
  assumes q: "user_object q" and live: "clock_live (clock E)" and ok: "header_ok (mem w) q"
    and pos: "0 < n" and long: "smart_limit E (mem w) q < n + 24"
    and first: "smart_limit E (mem w) q \<le> (if wraps (mem w) q then cap_of (mem w) q - tail_of (mem w) q
      else head_of (mem w) q - tail_of (mem w) q)"
  obtains w1 where "make_loop E q w [] None n = returns (w1, None)"
    "only_changes (mem w) (mem w1) (free_cells (mem w) q)"
proof -
  let ?m = "mem w"
  let ?c = "cap_of ?m q" and ?t = "tail_of ?m q" and ?h = "head_of ?m q" and ?D = "data_start q"
  let ?A = "smart_limit E ?m q"
  have lt: "?h < ?c" "?t < ?c" using ok by (simp_all add: header_ok_def)
  have small: "?c < 4294967296" by (rule cap_of_bound)
  have tA: "?A = 0 \<or> ?t + ?A \<le> ?c" using first lt by (auto split: if_splits)
  obtain r where r: "get_free_region E ?m q None = returns r" "region_is r ?t ?A"
    using smart_first [OF q ok] first by (metis min.absorb2)
  have A: "unat (snd r) = ?A" using r(2) by (simp add: region_is_def)
  have stop: "make_loop E q w1 pm (Some r) k = returns (w1, None)"
    if "header_ok (mem w1) q" "cap_of (mem w1) q = ?c" "smart_limit E (mem w1) q = ?A" "0 < k" "0 < ?A"
    for w1 pm k
  proof -
    note hyp = that
    have le: "?t + ?A \<le> cap_of (mem w1) q" using tA hyp(2,5) by auto
    obtain r2 where r2: "base_get_free_region (mem w1) q (Some r) = returns r2"
      "region_is r2 ((?t + ?A) mod cap_of (mem w1) q)
       (if head_of (mem w1) q < (?t + ?A) mod cap_of (mem w1) q
        then cap_of (mem w1) q - (?t + ?A) mod cap_of (mem w1) q
        else head_of (mem w1) q - (?t + ?A) mod cap_of (mem w1) q)"
      by (rule next_free_region [OF hyp(1) r(2) le])
    let ?n = "if head_of (mem w1) q < (?t + ?A) mod cap_of (mem w1) q
        then cap_of (mem w1) q - (?t + ?A) mod cap_of (mem w1) q
        else head_of (mem w1) q - (?t + ?A) mod cap_of (mem w1) q"
    have "?n \<le> ?c" using hyp(1,2) by (auto simp: header_ok_def)
    then have "?n + before (Some r) < 18446744073709551616" "before (Some r) \<le> smart_limit E (mem w1) q"
      using A hyp(2,3) le small by (simp_all del: if_split)
    then obtain r' where "get_free_region E (mem w1) q (Some r) = returns r'"
      "region_is r' ((?t + ?A) mod cap_of (mem w1) q) (min ?n (smart_limit E (mem w1) q - before (Some r)))"
      by (rule smart_region [OF q r2])
    with A hyp(3) show ?thesis by (intro loop_stops [OF hyp(4), of _ _ _ _ r']) simp_all
  qed
  consider "?A = 0" | "0 < ?A" "?A \<le> 24" | "24 < ?A" by linarith
  then show thesis
  proof cases
    case 1
    then have "make_loop E q w [] None n = returns (w, None)"
      using loop_stops [OF pos r(1)] r(2) by simp
    then show thesis by (rule that) simp
  next
    case 2
    then have "make_loop E q w [] None n = make_loop E q w [] (Some r) n"
      by (intro loop_skips [OF pos r])
    also have "\<dots> = returns (w, None)" by (rule stop [OF ok refl refl pos 2(1)])
    finally show thesis by (rule that) simp
  next
    case 3
    have As: "?A < 4294967296" using 3 tA lt small by auto
    obtain w1 where w1: "make_loop E q w [] None n
         = make_loop E q w1 ([] @ [?D + ?t]) (Some r) (n - min n (?A - 24))"
      "only_changes ?m (mem w1) {?D + ?t..<?D + ?t + 24}"
      by (rule loop_takes [OF live pos r 3 As, where pmessage = "[]"])
    have "unchanged ?m (mem w1) (base_ptr q) 24"
      by (rule header_only_changes [OF w1(2)]) auto
    then have ok1: "header_ok (mem w1) q" and same: "cap_of (mem w1) q = ?c"
      using ok by (simp_all add: header_ok_cong header_unchanged)
    have lim1: "smart_limit E (mem w1) q = ?A"
      by (rule smart_limit_unchanged [OF q w1(2)]) auto
    have "make_loop E q w [] None n = returns (w1, None)"
      unfolding w1(1) by (rule stop [OF ok1 same lim1]) (use long 3 in auto)
    moreover have "only_changes ?m (mem w1) (free_cells ?m q)"
      by (rule only_changes_mono [OF w1(2)])
        (use 3 first lt in \<open>auto simp: free_cells_def split: if_splits\<close>)
    ultimately show thesis by (rule that)
  qed
qed

end
