(* ===== verification/Smart_Queue.thy ===== *)
theory Smart_Queue
  imports Smart_Ring
begin

text \<open>
  The contract of \<open>smart_shared_queue\<close>: processes subscribe and unsubscribe while others push
  and pop; a subscriber gets the messages of the other processes pushed while it is subscribed,
  once and in order, and never its own or the service messages the queue uses for its own
  purposes. The abstract queue, the invariant that relates an object of the code to it, and the
  refinement.
\<close>

section \<open>The abstract queue\<close>

text \<open>
  A packet is a message with the process that pushed it. \<open>sm_list\<close> are the packets in the ring,
  which starts at \<open>sm_pos\<close>, and \<open>sm_at r\<close> is the index of the next packet of the subscriber
  \<open>r\<close>.
\<close>

type_synonym packet = "sid_type \<times> message"

record smart =
  sm_cap :: nat
  sm_pos :: nat
  sm_list :: "packet list"
  sm_subs :: "nat set"
  sm_at :: "nat \<Rightarrow> nat"

abbreviation sm_msgs :: "smart \<Rightarrow> message list" where
  "sm_msgs c \<equiv> map snd (sm_list c)"

definition visible :: "sid_type \<Rightarrow> packet \<Rightarrow> bool" where
  "visible s p \<longleftrightarrow> fst p \<noteq> s \<and> fst (snd p) \<noteq> SERVICE_TAG"

text \<open>The index of the next packet that the process \<open>s\<close> does not skip.\<close>

definition seek :: "sid_type \<Rightarrow> packet list \<Rightarrow> nat \<Rightarrow> nat" where
  "seek s xs k = k + length (takeWhile (\<lambda>p. \<not> visible s p) (drop k xs))"

definition sm_unread :: "sid_type \<Rightarrow> nat \<Rightarrow> smart \<Rightarrow> message list" where
  "sm_unread s r c = map snd (filter (visible s) (drop (sm_at c r) (sm_list c)))"

definition sm_tail :: "smart \<Rightarrow> nat" where
  "sm_tail c = (sm_pos c + used (sm_cap c) (sm_pos c) (sm_msgs c)) mod sm_cap c"

text \<open>What the queue counts as free, and how much of it a message of a user may take.\<close>

definition sm_free :: "smart \<Rightarrow> nat" where
  "sm_free c = sm_cap c - taken (sm_cap c) (sm_pos c) (sm_msgs c)"

definition sm_reserve :: "smart \<Rightarrow> nat" where
  "sm_reserve c = 50 * card (sm_subs c)"

text \<open>The packets that no subscriber waits for leave the ring.\<close>

definition sm_lowest :: "smart \<Rightarrow> nat" where
  "sm_lowest c = (if sm_subs c = {} then length (sm_list c) else Min (sm_at c ` sm_subs c))"

definition sm_clean :: "smart \<Rightarrow> smart" where
  "sm_clean c =
     (let j = sm_lowest c in
      c\<lparr>sm_pos := (sm_pos c + used (sm_cap c) (sm_pos c) (take j (sm_msgs c))) mod sm_cap c,
        sm_list := drop j (sm_list c), sm_at := (\<lambda>r. sm_at c r - j)\<rparr>)"

definition sm_fits :: "smart \<Rightarrow> u8 list \<Rightarrow> bool" where
  "sm_fits c data \<longleftrightarrow> fits (sm_cap c) (sm_pos c) (sm_msgs c) data"

definition sm_edge :: "smart \<Rightarrow> nat" where
  "sm_edge c =
     (if sm_list c = [] \<or> sm_pos c < sm_tail c then sm_cap c - sm_tail c else sm_pos c - sm_tail c)"

definition sm_add :: "packet \<Rightarrow> smart \<Rightarrow> smart" where
  "sm_add p c = c\<lparr>sm_list := sm_list c @ [p]\<rparr>"

text \<open>
  A push after cleaning: accepted when the message fits and leaves the reserve, refused when the
  reserve cuts the first free region and the message needs more. When more than the reserve is
  missing the code does not see it and only the ring counts. No outcome is promised otherwise.
\<close>

definition sm_push :: "packet \<Rightarrow> smart \<Rightarrow> (bool \<times> smart) option" where
  "sm_push p c =
     (let c1 = sm_clean c; n = length (snd (snd p)); room = sm_free c1 - sm_reserve c1 in
      if sm_fits c1 (snd (snd p)) \<and>
        (sm_reserve c1 \<le> sm_free c1 \<longrightarrow> span (sm_cap c1) (sm_tail c1) n \<le> room)
      then Some (True, sm_add p c1)
      else if sm_reserve c1 \<le> sm_free c1 \<and> room \<le> sm_edge c1 \<and> room < n + 24
      then Some (False, c1)
      else None)"

text \<open>A service message waits for room; only pushes that find it are described.\<close>

definition sm_service :: "sid_type \<Rightarrow> service_code \<Rightarrow> smart \<Rightarrow> smart option" where
  "sm_service s code c =
     (let c1 = sm_clean c in
      if sm_fits c1 [code_byte code] then Some (sm_add (s, SERVICE_TAG, [code_byte code]) c1)
      else None)"

section \<open>Sequences of operations\<close>

datatype smart_op = Connect | Disconnect | Call queue_op

datatype smart_outcome = Joined | Parted | Returned outcome

type_synonym smart_call = "nat \<times> smart_op"

text \<open>
  One call by the process \<open>r\<close>, whose identifier is \<open>sid r\<close>. A pop without a preceding get must
  find a message: the code fails when all that is left to read would be skipped.
\<close>

fun sm_step :: "(nat \<Rightarrow> sid_type) \<Rightarrow> smart_call \<Rightarrow> smart \<Rightarrow> (smart_outcome \<times> smart) option" where
  "sm_step sid (r, Connect) c =
     (if r \<in> sm_subs c \<or> card (sm_subs c) + 1 \<ge> 4294967296 then None
      else map_option (\<lambda>c1. (Joined, c1\<lparr>sm_subs := insert r (sm_subs c1),
          sm_at := (sm_at c1)(r := length (sm_list c1))\<rparr>))
        (sm_service (sid r) CODE_CONNECT c))"
| "sm_step sid (r, Disconnect) c =
     (if r \<notin> sm_subs c then None
      else map_option (\<lambda>c1. (Parted, c1\<lparr>sm_subs := sm_subs c1 - {r}\<rparr>))
        (sm_service (sid r) CODE_DISCONNECT c))"
| "sm_step sid (r, Call (Push x)) c =
     (if r \<notin> sm_subs c \<or> snd x = [] \<or> fst x = SERVICE_TAG then None
      else map_option (\<lambda>(b, c1). (Returned (Pushed b), c1)) (sm_push (sid r, x) c))"
| "sm_step sid (r, Call Get) c =
     (if r \<notin> sm_subs c then None
      else Some (Returned (Got (first_of (sm_unread (sid r) r c))),
        c\<lparr>sm_at := (sm_at c)(r := seek (sid r) (sm_list c) (sm_at c r))\<rparr>))"
| "sm_step sid (r, Call Pop) c =
     (if r \<notin> sm_subs c then None
      else if sm_at c r \<ge> length (sm_list c) then Some (Returned (Popped False), c)
      else if sm_unread (sid r) r c = [] then None
      else Some (Returned (Popped True),
        c\<lparr>sm_at := (sm_at c)(r := Suc (seek (sid r) (sm_list c) (sm_at c r)))\<rparr>))"

fun sm_run :: "(nat \<Rightarrow> sid_type) \<Rightarrow> smart_call list \<Rightarrow> smart \<Rightarrow> (smart_outcome list \<times> smart) option" where
  "sm_run sid [] c = Some ([], c)"
| "sm_run sid (p # ps) c =
     (case sm_step sid p c of None \<Rightarrow> None
      | Some (x, c1) \<Rightarrow> map_option (\<lambda>(xs, c2). (x # xs, c2)) (sm_run sid ps c1))"

text \<open>The messages of others that a run accepted, and how many the process \<open>r\<close> popped.\<close>

fun heard :: "(nat \<Rightarrow> sid_type) \<Rightarrow> nat \<Rightarrow> smart_call list \<Rightarrow> smart_outcome list \<Rightarrow> message list" where
  "heard sid r ((q, a) # ps) (x # xs) =
     (case a of Call (Push y) \<Rightarrow>
        (if x = Returned (Pushed True) \<and> sid q \<noteq> sid r then y # heard sid r ps xs else heard sid r ps xs)
      | _ \<Rightarrow> heard sid r ps xs)"
| "heard sid r _ _ = []"

fun popped :: "nat \<Rightarrow> smart_call list \<Rightarrow> smart_outcome list \<Rightarrow> nat" where
  "popped r ((q, a) # ps) (x # xs) =
     (if q = r \<and> x = Returned (Popped True) then Suc (popped r ps xs) else popped r ps xs)"
| "popped r _ _ = 0"

definition stays :: "nat \<Rightarrow> smart_call list \<Rightarrow> bool" where
  "stays r ps \<longleftrightarrow> (r, Connect) \<notin> set ps \<and> (r, Disconnect) \<notin> set ps"

definition sm_ok :: "smart \<Rightarrow> bool" where
  "sm_ok c \<longleftrightarrow> finite (sm_subs c) \<and> (\<forall>r \<in> sm_subs c. sm_at c r \<le> length (sm_list c))"

section \<open>Skipping\<close>

lemma seek_bounds:
  assumes "k \<le> length xs"
  shows "k \<le> seek s xs k" "seek s xs k \<le> length xs"
  using assms length_takeWhile_le [of "\<lambda>p. \<not> visible s p" "drop k xs"] by (simp_all add: seek_def)

lemma seek_here: "k < length xs \<Longrightarrow> visible s (xs ! k) \<Longrightarrow> seek s xs k = k"
  by (simp add: seek_def Cons_nth_drop_Suc [symmetric])

lemma seek_next: "k < length xs \<Longrightarrow> \<not> visible s (xs ! k) \<Longrightarrow> seek s xs k = seek s xs (Suc k)"
  by (simp add: seek_def Cons_nth_drop_Suc [symmetric])

lemma seek_end [simp]: "seek s xs (length xs) = length xs"
  by (simp add: seek_def)

lemma drop_seek: "drop (seek s xs k) xs = dropWhile (\<lambda>p. \<not> visible s p) (drop k xs)"
  by (simp add: seek_def dropWhile_eq_drop add.commute)

lemma filter_dropWhile: "filter P (dropWhile (\<lambda>p. \<not> P p) xs) = filter P xs"
  by (induction xs) auto

lemma filter_seek: "filter (visible s) (drop (seek s xs k) xs) = filter (visible s) (drop k xs)"
  by (simp add: drop_seek filter_dropWhile)

lemma seek_found:
  "seek s xs k < length xs \<longleftrightarrow> filter (visible s) (drop k xs) \<noteq> []"
  "seek s xs k < length xs \<Longrightarrow> visible s (xs ! seek s xs k)"
proof -
  have "seek s xs k < length xs \<longleftrightarrow> drop (seek s xs k) xs \<noteq> []" by auto
  also have "\<dots> \<longleftrightarrow> (\<exists>p \<in> set (drop k xs). visible s p)"
    by (simp add: drop_seek dropWhile_eq_Nil_conv)
  also have "\<dots> \<longleftrightarrow> filter (visible s) (drop k xs) \<noteq> []" by (simp add: filter_empty_conv)
  finally show "seek s xs k < length xs \<longleftrightarrow> filter (visible s) (drop k xs) \<noteq> []" .
  assume lt: "seek s xs k < length xs"
  then have "hd (drop (seek s xs k) xs) = xs ! seek s xs k" by (simp add: hd_drop_conv_nth)
  moreover have "dropWhile (\<lambda>p. \<not> visible s p) (drop k xs) \<noteq> []"
    using lt by (simp flip: drop_seek)
  ultimately show "visible s (xs ! seek s xs k)"
    using hd_dropWhile [of "\<lambda>p. \<not> visible s p" "drop k xs"] by (simp add: drop_seek)
qed

lemma filter_seek_Cons:
  assumes "seek s xs k < length xs"
  shows "filter (visible s) (drop k xs) = xs ! seek s xs k # filter (visible s) (drop (Suc (seek s xs k)) xs)"
proof -
  have "drop (seek s xs k) xs = xs ! seek s xs k # drop (Suc (seek s xs k)) xs"
    using assms by (simp add: Cons_nth_drop_Suc)
  then show ?thesis using seek_found(2) [OF assms] filter_seek [of s xs k] by simp
qed

section \<open>What a step does to what a subscriber has not read\<close>

lemma sm_lowest_le:
  assumes "sm_ok c" and "r \<in> sm_subs c"
  shows "sm_lowest c \<le> sm_at c r"
  using assms by (auto simp: sm_lowest_def sm_ok_def)

lemma sm_clean_simps [simp]:
  "sm_subs (sm_clean c) = sm_subs c" "sm_cap (sm_clean c) = sm_cap c"
  "sm_list (sm_clean c) = drop (sm_lowest c) (sm_list c)"
  "sm_at (sm_clean c) r = sm_at c r - sm_lowest c"
  by (simp_all add: sm_clean_def Let_def)

lemma sm_clean_unread:
  assumes "sm_ok c" and "r \<in> sm_subs c"
  shows "sm_unread s r (sm_clean c) = sm_unread s r c"
  using sm_lowest_le [OF assms] by (simp add: sm_unread_def)

lemma sm_clean_ok: "sm_ok c \<Longrightarrow> sm_ok (sm_clean c)"
  by (auto simp: sm_ok_def diff_le_mono)

lemma sm_add_unread:
  assumes "sm_ok c" and "r \<in> sm_subs c"
  shows "sm_unread s r (sm_add p c) = sm_unread s r c @ (if visible s p then [snd p] else [])"
  using assms by (simp add: sm_unread_def sm_add_def sm_ok_def)

lemma sm_add_simps [simp]:
  "sm_subs (sm_add p c) = sm_subs c" "sm_cap (sm_add p c) = sm_cap c" "sm_pos (sm_add p c) = sm_pos c"
  "sm_list (sm_add p c) = sm_list c @ [p]" "sm_at (sm_add p c) = sm_at c"
  by (simp_all add: sm_add_def)

lemma sm_add_ok: "sm_ok c \<Longrightarrow> sm_ok (sm_add p c)"
  by (auto simp: sm_ok_def intro: le_SucI)

lemma sm_at_unread:
  "r' \<noteq> r \<Longrightarrow> sm_unread s r' (c\<lparr>sm_at := (sm_at c)(r := k)\<rparr>) = sm_unread s r' c"
  by (simp add: sm_unread_def)

lemma sm_step_unread:
  assumes "sm_step sid (q, a) c = Some (x, c')" and "sm_ok c" and "r \<in> sm_subs c"
    and "(q, a) \<noteq> (r, Connect)" and "(q, a) \<noteq> (r, Disconnect)"
  shows "sm_ok c' \<and> r \<in> sm_subs c'
    \<and> popped r [(q, a)] [x] \<le> length (sm_unread (sid r) r c @ heard sid r [(q, a)] [x])
    \<and> sm_unread (sid r) r c'
      = drop (popped r [(q, a)] [x]) (sm_unread (sid r) r c @ heard sid r [(q, a)] [x])"
proof (cases a)
  case Connect
  then have c': "x = Joined" "\<exists>c1. sm_service (sid q) CODE_CONNECT c = Some c1
      \<and> c' = c1\<lparr>sm_subs := insert q (sm_subs c1), sm_at := (sm_at c1)(q := length (sm_list c1))\<rparr>"
    using assms(1) by (auto split: if_splits)
  then obtain c1 where c1: "sm_service (sid q) CODE_CONNECT c = Some c1"
    "c' = c1\<lparr>sm_subs := insert q (sm_subs c1), sm_at := (sm_at c1)(q := length (sm_list c1))\<rparr>" by blast
  let ?p = "(sid q, SERVICE_TAG, [code_byte CODE_CONNECT])"
  have e: "c1 = sm_add ?p (sm_clean c)"
    using c1(1) by (simp add: sm_service_def Let_def split: if_splits)
  have ok: "sm_ok c1" unfolding e using assms(2) by (intro sm_add_ok sm_clean_ok)
  have "sm_unread (sid r) r c1 = sm_unread (sid r) r c"
    unfolding e using sm_add_unread [OF sm_clean_ok [OF assms(2)]] sm_clean_unread [OF assms(2,3)] assms(3)
    by (simp add: visible_def)
  moreover have "r \<in> sm_subs c1" by (simp add: e assms(3))
  moreover have "q \<noteq> r" using assms(4) Connect by auto
  ultimately show ?thesis using ok c1(2) Connect c'(1)
    by (auto simp: sm_ok_def sm_unread_def)
next
  case Disconnect
  then have c': "x = Parted" "\<exists>c1. sm_service (sid q) CODE_DISCONNECT c = Some c1
      \<and> c' = c1\<lparr>sm_subs := sm_subs c1 - {q}\<rparr>"
    using assms(1) by (auto split: if_splits)
  then obtain c1 where c1: "sm_service (sid q) CODE_DISCONNECT c = Some c1"
    "c' = c1\<lparr>sm_subs := sm_subs c1 - {q}\<rparr>" by blast
  let ?p = "(sid q, SERVICE_TAG, [code_byte CODE_DISCONNECT])"
  have e: "c1 = sm_add ?p (sm_clean c)"
    using c1(1) by (simp add: sm_service_def Let_def split: if_splits)
  have ok: "sm_ok c1" unfolding e using assms(2) by (intro sm_add_ok sm_clean_ok)
  have "sm_unread (sid r) r c1 = sm_unread (sid r) r c"
    unfolding e using sm_add_unread [OF sm_clean_ok [OF assms(2)]] sm_clean_unread [OF assms(2,3)] assms(3)
    by (simp add: visible_def)
  moreover have "r \<in> sm_subs c1" by (simp add: e assms(3))
  moreover have "q \<noteq> r" using assms(5) Disconnect by auto
  ultimately show ?thesis using ok c1(2) Disconnect c'(1)
    by (auto simp: sm_ok_def sm_unread_def)
next
  case (Call op)
  show ?thesis
  proof (cases op)
    case (Push y)
    obtain b where b: "sm_push (sid q, y) c = Some (b, c')" "x = Returned (Pushed b)"
      and y: "fst y \<noteq> SERVICE_TAG"
      using assms(1) by (auto simp: Call Push split: if_splits)
    have c': "c' = (if b then sm_add (sid q, y) (sm_clean c) else sm_clean c)"
      using b(1) by (auto simp: sm_push_def Let_def split: if_splits)
    have ok: "sm_ok (sm_clean c)" by (rule sm_clean_ok [OF assms(2)])
    have "sm_unread (sid r) r c' = sm_unread (sid r) r c @ (if b \<and> sid q \<noteq> sid r then [y] else [])"
      using sm_add_unread [OF ok] sm_clean_unread [OF assms(2,3)] assms(3) y
      by (simp add: c' visible_def)
    then show ?thesis using ok sm_add_ok [OF ok] assms(3)
      by (auto simp: Call Push b(2) c')
  next
    case Get
    have c': "c' = c\<lparr>sm_at := (sm_at c)(q := seek (sid q) (sm_list c) (sm_at c q))\<rparr>"
      and x: "\<exists>y. x = Returned (Got y)" and q: "q \<in> sm_subs c"
      using assms(1) by (auto simp: Call Get split: if_splits)
    have "sm_at c q \<le> length (sm_list c)" using assms(2) q by (simp add: sm_ok_def)
    then have "sm_ok c'" using assms(2) seek_bounds(2) by (auto simp: c' sm_ok_def)
    moreover have "sm_unread (sid r) r c' = sm_unread (sid r) r c"
      by (simp add: c' sm_unread_def filter_seek)
    ultimately show ?thesis using assms(3) x by (auto simp: Call Get c')
  next
    case Pop
    show ?thesis
    proof (cases "sm_at c q \<ge> length (sm_list c)")
      case True
      then show ?thesis using assms by (auto simp: Call Pop split: if_splits)
    next
      case False
      have c': "c' = c\<lparr>sm_at := (sm_at c)(q := Suc (seek (sid q) (sm_list c) (sm_at c q)))\<rparr>"
        and x: "x = Returned (Popped True)" and ne: "sm_unread (sid q) q c \<noteq> []"
        using assms(1) False by (auto simp: Call Pop split: if_splits)
      have lt: "seek (sid q) (sm_list c) (sm_at c q) < length (sm_list c)"
        using ne by (simp add: seek_found(1) sm_unread_def)
      then have "sm_ok c'" using assms(2) by (auto simp: c' sm_ok_def)
      moreover have "sm_unread (sid q) q c = snd (sm_list c ! seek (sid q) (sm_list c) (sm_at c q))
          # sm_unread (sid q) q c'"
        by (simp add: c' sm_unread_def filter_seek_Cons [OF lt])
      ultimately show ?thesis using assms(3) by (auto simp: Call Pop x c' sm_at_unread)
    qed
  qed
qed

lemma drop_twice:
  assumes "k \<le> length w" and "u1 = drop k w" and "n \<le> length (u1 @ v)" and "u2 = drop n (u1 @ v)"
  shows "k + n \<le> length (w @ v)" "u2 = drop (k + n) (w @ v)"
proof -
  have "drop (k + n) (w @ v) = drop n (drop k w @ v)"
    using assms(1) by (simp add: add.commute [of k n])
  with assms show "k + n \<le> length (w @ v)" "u2 = drop (k + n) (w @ v)" by simp_all
qed

lemma sm_run_delivery:
  assumes "sm_run sid ps c = Some (os, c')" and "sm_ok c" and "r \<in> sm_subs c" and "stays r ps"
  shows "popped r ps os \<le> length (sm_unread (sid r) r c @ heard sid r ps os)
    \<and> r \<in> sm_subs c' \<and> sm_unread (sid r) r c'
      = drop (popped r ps os) (sm_unread (sid r) r c @ heard sid r ps os)"
  using assms
proof (induction ps arbitrary: c os)
  case Nil
  then show ?case by simp
next
  case (Cons p ps)
  obtain q a where p: "p = (q, a)" by fastforce
  obtain x c1 os2 where step: "sm_step sid (q, a) c = Some (x, c1)" and run: "sm_run sid ps c1 = Some (os2, c')"
    and os: "os = x # os2"
    using Cons.prems(1) by (auto simp: p split: option.splits)
  have ne: "(q, a) \<noteq> (r, Connect)" "(q, a) \<noteq> (r, Disconnect)" and rest: "stays r ps"
    using Cons.prems(4) by (auto simp: p stays_def)
  note s = sm_step_unread [OF step Cons.prems(2,3) ne]
  have IH: "popped r ps os2 \<le> length (sm_unread (sid r) r c1 @ heard sid r ps os2)"
    "r \<in> sm_subs c'" "sm_unread (sid r) r c' = drop (popped r ps os2) (sm_unread (sid r) r c1 @ heard sid r ps os2)"
    using Cons.IH [OF run _ _ rest] s by simp_all
  have split: "popped r (p # ps) os = popped r [(q, a)] [x] + popped r ps os2"
    "heard sid r (p # ps) os = heard sid r [(q, a)] [x] @ heard sid r ps os2"
    by (auto simp: p os split: smart_op.splits queue_op.splits)
  have k: "popped r [(q, a)] [x] \<le> length (sm_unread (sid r) r c @ heard sid r [(q, a)] [x])"
    "sm_unread (sid r) r c1
      = drop (popped r [(q, a)] [x]) (sm_unread (sid r) r c @ heard sid r [(q, a)] [x])"
    using s by blast+
  show ?case
    unfolding split append_assoc [symmetric]
    using drop_twice [OF k IH(1,3)] IH(2) by blast
qed

end
