(* ===== verification/Smart_Group.thy ===== *)
theory Smart_Group
  imports Smart_Queue
begin

text \<open>
  The invariant that relates the objects of a \<open>smart_shared_queue\<close> to the abstract queue, and
  what each operation of the code does to it.

  The header of a smart queue is at \<open>F\<close>; its free space is the word at \<open>F\<close>, and the shared
  queue starts at \<open>F + 4\<close>.
\<close>

section \<open>The invariant\<close>

definition smart_object :: "nat \<Rightarrow> queue \<Rightarrow> bool" where
  "smart_object F q \<longleftrightarrow> class_of q = Smart_shared_queue \<and> smart_ptr q = F \<and> shared_ptr q = F + 4
     \<and> base_ptr q = F + 12"

lemma smart_objectD:
  assumes "smart_object F q"
  shows "on_ring (F + 4) q" "class_of q = Smart_shared_queue" "smart_ptr q = F" "shared_ptr q = F + 4"
    "base_ptr q = F + 12" "m_state q \<noteq> ST_PUSH_SPECIAL_MESSAGE \<Longrightarrow> user_object q"
  using assms by (simp_all add: smart_object_def on_ring_def user_object_def)

lemma smart_object_update [simp]:
  "smart_object F (q\<lparr>m_state := st\<rparr>) = smart_object F q"
  "smart_object F (q\<lparr>m_message_desc := d\<rparr>) = smart_object F q"
  "smart_object F (q\<lparr>m_head := h\<rparr>) = smart_object F q"
  "smart_object F (q\<lparr>m_counter := n\<rparr>) = smart_object F q"
  by (simp_all add: smart_object_def)

definition packets :: "memory \<Rightarrow> nat \<Rightarrow> packet list \<Rightarrow> bool" where
  "packets m F xs \<longleftrightarrow> (\<forall>i < length xs. sid_at m (F + 4) (map snd xs) i = fst (xs ! i))"

text \<open>A subscriber: its object, and that it has not cached a packet it would skip.\<close>

definition subscriber :: "nat \<Rightarrow> sid_type \<Rightarrow> packet list \<Rightarrow> nat \<Rightarrow> queue \<Rightarrow> bool" where
  "subscriber F s xs k q \<longleftrightarrow> smart_object F q \<and> m_state q = ST_UNKNOWN
     \<and> (fst (m_message_desc q) \<noteq> [] \<longrightarrow> k < length xs \<and> visible s (xs ! k))"

definition smart_inv :: "memory \<Rightarrow> nat \<Rightarrow> (nat \<Rightarrow> sid_type) \<Rightarrow> (nat \<Rightarrow> queue) \<Rightarrow> smart \<Rightarrow> bool" where
  "smart_inv m F sid rs c \<longleftrightarrow>
     group_inv m (F + 4) (sm_subs c) rs (sm_msgs c) (sm_at c)
     \<and> packets m F (sm_list c)
     \<and> (\<forall>r \<in> sm_subs c. subscriber F (sid r) (sm_list c) (sm_at c r) (rs r))
     \<and> cap_of m (ring_object (F + 4)) = sm_cap c \<and> head_of m (ring_object (F + 4)) = sm_pos c
     \<and> keepalive_timeout m (ring_object (F + 4)) = 0
     \<and> unat (load32 m F) = sm_free c"

lemma smart_inv_ok: "smart_inv m F sid rs c \<Longrightarrow> sm_ok c"
  by (auto simp: smart_inv_def group_inv_def sm_ok_def reader_def)

section \<open>Frames\<close>

lemma ring_state_frame:
  assumes rs: "ring_state m q xs" and w: "only_changes m m' S" and S: "S \<inter> {base_ptr q..} = {}"
  shows "ring_state m' q xs"
proof -
  have hdr: "unchanged m m' (base_ptr q) 24" by (rule only_changes_unchanged [OF w]) (use S in auto)
  note f = header_unchanged [OF hdr]
  have cells: "same_cells m m' q A" for A
    by (rule same_cells_outside [OF w]) (use S in fastforce)
  have "ring m' q (head_of m q) xs"
    using rs f by (intro ring_frame [OF _ _ _ _ cells]) (simp_all add: ring_state_def header_ok_def)
  then show ?thesis using rs by (simp add: ring_state_def header_ok_def f)
qed

lemma group_at_frame:
  assumes g: "group_at m ptr R rs xs ks" and w: "only_changes m m' S" and S: "S \<inter> {ptr + 4..} = {}"
  shows "group_at m' ptr R rs xs ks"
proof (rule group_at_readers [OF g])
  let ?o = "ring_object ptr"
  have rs: "ring_state m ?o xs" using g by (simp add: group_at_def)
  have hdr: "unchanged m m' (base_ptr ?o) 24" by (rule only_changes_unchanged [OF w]) (use S in auto)
  note f = header_unchanged [OF hdr]
  have out: "load32 m' (ptr + 4) = load32 m (ptr + 4)"
    by (intro load32_unchanged only_changes_unchanged [OF w]) (use S in auto)
  show "ring_state m' ?o xs" by (rule ring_state_frame [OF rs w]) (use S in auto)
  fix r assume r: "r \<in> R"
  note gm = group_at_member [OF g r]
  have "s_counter m' (rs r) = s_counter m (rs r)" using gm(3) by (simp add: s_counter_def out)
  moreover have "head_of m' (rs r) = head_of m (rs r)" "cap_of m' (rs r) = cap_of m (rs r)"
    using f by (simp_all only: base_ptr_cong [OF gm(1)])
  ultimately show "base_ptr (rs r) = base_ptr (rs r) \<and> shared_ptr (rs r) = shared_ptr (rs r)
      \<and> reader m' (rs r) xs (ks r)"
    using reader_same [OF gm(4)] by simp
next
  let ?o = "ring_object ptr"
  fix i assume i: "i < length xs"
  have rs: "ring_state m ?o xs" using g by (simp add: group_at_def)
  have hdr: "unchanged m m' (base_ptr ?o) 24" by (rule only_changes_unchanged [OF w]) (use S in auto)
  have cells: "same_cells m m' ?o (ring_cells m ?o xs)"
    by (rule same_cells_outside [OF w]) (use S in fastforce)
  have "counter_at m' ?o xs i = counter_at m ?o xs i"
    by (rule counter_at_kept [OF rs i cells]) (simp_all add: header_unchanged [OF hdr])
  then show "unat (counter_at m' ?o xs i) = card {r \<in> R. ks r \<le> i}"
    using g i by (simp add: group_at_def)
qed

lemma group_frame:
  assumes g: "group_inv m ptr R rs xs ks" and w: "only_changes m m' {..<ptr}"
  shows "group_inv m' ptr R rs xs ks"
proof -
  have "load32 m' ptr = load32 m ptr"
    by (intro load32_unchanged only_changes_unchanged [OF w]) auto
  moreover have "group_at m' ptr R rs xs ks"
    by (rule group_at_frame [OF _ w]) (use g in \<open>auto simp: group_inv_at\<close>)
  ultimately show ?thesis using g by (simp add: group_inv_at)
qed

lemma packets_frame:
  assumes p: "packets m F xs" and rs: "ring_state m (ring_object (F + 4)) (map snd xs)"
    and w: "only_changes m m' S" and S: "S \<inter> {F + 12..} = {}"
  shows "packets m' F xs"
proof -
  let ?o = "ring_object (F + 4)"
  have hdr: "unchanged m m' (base_ptr ?o) 24" by (rule only_changes_unchanged [OF w]) (use S in auto)
  have cells: "same_cells m m' ?o (ring_cells m ?o (map snd xs))"
    by (rule same_cells_outside [OF w]) (use S in fastforce)
  have "sid_at m' (F + 4) (map snd xs) i = sid_at m (F + 4) (map snd xs) i" if "i < length xs" for i
    by (rule sid_at_kept [OF rs _ cells]) (simp_all add: that header_unchanged [OF hdr])
  with p show ?thesis by (simp add: packets_def)
qed

text \<open>Writes to the headers that leave the ring where it is.\<close>

lemma packets_pos:
  assumes p: "packets m F xs" and rs: "ring_state m (ring_object (F + 4)) (map snd xs)"
    and w: "only_changes m m' {F + 24..<F + 32}" and j: "j \<le> length xs"
    and hd: "head_of m' (ring_object (F + 4)) = pos_at m (ring_object (F + 4)) (map snd xs) j"
    "cap_of m' (ring_object (F + 4)) = cap_of m (ring_object (F + 4))"
  shows "packets m' F (drop j xs)"
proof -
  let ?o = "ring_object (F + 4)"
  have h: "head_of m ?o < cap_of m ?o" using rs by (simp add: ring_state_def header_ok_def)
  have "sid_at m' (F + 4) (map snd (drop j xs)) i = sid_at m (F + 4) (map snd xs) (j + i)"
    if i: "j + i < length xs" for i
  proof -
    have len: "j + i < length (map snd xs)" using i by simp
    have "block_of m ?o (map snd xs) (j + i) \<subseteq> {data_start ?o..<data_start ?o + cap_of m ?o}"
      by (rule block_inside [OF rs len])
    then have "unchanged m m' (addr_at m ?o (map snd xs) (j + i) + 8) 4"
      by (intro only_changes_unchanged [OF w]) auto
    moreover have "addr_at m' ?o (drop j (map snd xs)) i = addr_at m ?o (map snd xs) (j + i)"
      by (rule addr_at_drop [OF h hd len])
    ultimately show ?thesis by (simp add: sid_at_def msg_sid_def load32_unchanged drop_map)
  qed
  with p show ?thesis by (simp add: packets_def less_diff_conv add.commute)
qed

section \<open>Cleaning\<close>

lemma sm_lowest_props:
  assumes "sm_ok c"
  shows "sm_lowest c \<le> length (sm_list c)" "\<And>r. r \<in> sm_subs c \<Longrightarrow> sm_lowest c \<le> sm_at c r"
    "sm_lowest c < length (sm_list c) \<Longrightarrow> \<exists>r \<in> sm_subs c. sm_at c r = sm_lowest c"
proof -
  have fin: "finite (sm_at c ` sm_subs c)" using assms by (simp add: sm_ok_def)
  show le: "\<And>r. r \<in> sm_subs c \<Longrightarrow> sm_lowest c \<le> sm_at c r"
    by (rule sm_lowest_le [OF assms])
  show "sm_lowest c < length (sm_list c) \<Longrightarrow> \<exists>r \<in> sm_subs c. sm_at c r = sm_lowest c"
    using Min_in [OF fin] by (auto simp: sm_lowest_def split: if_splits)
  show "sm_lowest c \<le> length (sm_list c)"
  proof (cases "sm_subs c = {}")
    case False
    then obtain r where "r \<in> sm_subs c" by auto
    then show ?thesis using le assms by (force simp: sm_ok_def)
  qed (simp add: sm_lowest_def)
qed

lemma sm_free_clean:
  assumes ok: "sm_ok c" and u: "used (sm_cap c) (sm_pos c) (sm_msgs c) \<le> sm_cap c" and pos: "sm_pos c < sm_cap c"
  shows "sm_free (sm_clean c)
    = sm_free c + taken (sm_cap c) (sm_pos c) (take (sm_lowest c) (sm_msgs c))"
proof -
  let ?j = "sm_lowest c" and ?t = "taken (sm_cap c)"
  have "?t (sm_pos c) (take ?j (sm_msgs c) @ drop ?j (sm_msgs c))
      = ?t (sm_pos c) (take ?j (sm_msgs c)) + ?t (sm_pos (sm_clean c)) (drop ?j (sm_msgs c))"
    by (subst taken_append [OF pos]) (simp add: sm_clean_def Let_def)
  then have "?t (sm_pos c) (sm_msgs c)
      = ?t (sm_pos c) (take ?j (sm_msgs c)) + ?t (sm_pos (sm_clean c)) (sm_msgs (sm_clean c))"
    by (simp only: append_take_drop_id) (simp add: drop_map)
  moreover have "?t (sm_pos c) (sm_msgs c) \<le> sm_cap c" using taken_used u by (rule order.trans)
  ultimately show ?thesis by (simp add: sm_free_def del: sm_clean_simps(3))
qed

lemma smart_cleans:
  assumes inv: "smart_inv m F sid rs c" and q: "smart_object F q" and at: "atomic_spec (atomics E)"
    and full: "s_counter m q - m_counter q \<noteq> - 1"
  shows "\<exists>g m1. clean_messages E m q = returns (g, m1, q) \<and> smart_inv m1 F sid rs (sm_clean c)
    \<and> load32 m1 (F + 8) = load32 m (F + 8)"
proof -
  let ?o = "ring_object (F + 4)" and ?j = "sm_lowest c"
  let ?T = "taken (sm_cap c) (sm_pos c) (take ?j (sm_msgs c))"
  have inv': "group_inv m (F + 4) (sm_subs c) rs (sm_msgs c) (sm_at c)" "packets m F (sm_list c)"
    "\<And>r. r \<in> sm_subs c \<Longrightarrow> subscriber F (sid r) (sm_list c) (sm_at c r) (rs r)"
    "cap_of m ?o = sm_cap c" "head_of m ?o = sm_pos c" "keepalive_timeout m ?o = 0"
    "unat (load32 m F) = sm_free c"
    using inv by (simp_all add: smart_inv_def)
  have rs: "ring_state m ?o (sm_msgs c)" using inv'(1) by (simp add: group_inv_def)
  note ok = smart_inv_ok [OF inv] and low = sm_lowest_props [OF smart_inv_ok [OF inv]]
  have len: "?j \<le> length (sm_msgs c)" using low(1) by simp
  have here: "?j < length (sm_msgs c) \<Longrightarrow> \<exists>r \<in> sm_subs c. sm_at c r = ?j" using low(3) by simp
  obtain m1 where c: "shared_clean_messages E m q = returns ((of_nat ?j, of_nat ?T), m1)"
    "group_inv m1 (F + 4) (sm_subs c) rs (drop ?j (sm_msgs c)) (\<lambda>r. sm_at c r - ?j)"
    "head_of m1 ?o = pos_at m ?o (sm_msgs c) ?j" "cap_of m1 ?o = cap_of m ?o"
    "only_changes m m1 {F + 4 + 20..<F + 4 + 28}"
    using group_clean_any [OF inv'(1) smart_objectD(1) [OF q] at full len low(2) here] inv'(4,5) by auto
  have w1: "only_changes m m1 {F + 24..<F + 32}" using c(5) by (simp add: add.commute add.left_commute)
  have pos: "sm_pos c < sm_cap c" and u: "used (sm_cap c) (sm_pos c) (sm_msgs c) \<le> sm_cap c"
    using rs inv'(4,5) by (simp_all add: ring_state_def header_ok_def)
  have free: "sm_free (sm_clean c) = sm_free c + ?T" by (rule sm_free_clean [OF ok u pos])
  have "sm_free (sm_clean c) \<le> sm_cap c" by (simp add: sm_free_def)
  then have small: "sm_free c + ?T < 4294967296" "?T < 4294967296"
    using free cap_of_bound [of m ?o] inv'(4) by linarith+
  define m2 where "m2 = (if (of_nat ?j :: u64) > 0
    then store32 m1 F (load32 m1 F + ucast (of_nat ?T :: u64)) else m1)"
  have clean: "clean_messages E m q = returns ((of_nat ?j, of_nat ?T), m2, q)"
    using c(1) smart_objectD(2,3) [OF q]
    by (simp add: clean_messages_def smart_clean_messages_def inc_free_space_def atomic_specD [OF at] m2_def)
  have w2: "only_changes m1 m2 {F..<F + 4}" by (simp add: m2_def only_changes_store32)
  have j32: "?j < 4294967296" using len ring_state_short [OF rs] by linarith
  have "load32 m1 F = load32 m F"
    by (intro load32_unchanged only_changes_unchanged [OF w1]) auto
  moreover have "(ucast (of_nat ?T :: u64) :: u32) = of_nat ?T"
    using small(2) by (intro word_unat_eq_iff [THEN iffD2]) (simp add: unat_ucast_64_32 unat_of_nat_u64 unat_of_nat_u32)
  moreover have "?j = 0 \<Longrightarrow> ?T = 0" by simp
  moreover have "(of_nat ?j :: u64) > 0 \<longleftrightarrow> 0 < ?j"
    using j32 by (simp add: word_less_nat_alt unat_of_nat_u64)
  ultimately have "unat (load32 m2 F) = sm_free c + ?T"
    using small inv'(7) by (auto simp: m2_def unat_word_ariths unat_of_nat_u32)
  then have f2: "unat (load32 m2 F) = sm_free (sm_clean c)" using free by simp
  have g2: "group_inv m2 (F + 4) (sm_subs c) rs (drop ?j (sm_msgs c)) (\<lambda>r. sm_at c r - ?j)"
    by (rule group_frame [OF c(2)], rule only_changes_mono [OF w2]) auto
  have "packets m1 F (drop ?j (sm_list c))"
    by (rule packets_pos [OF inv'(2) rs w1 low(1) c(3,4)])
  then have p2: "packets m2 F (drop ?j (sm_list c))"
    by (rule packets_frame [OF _ _ w2]) (use c(2) in \<open>auto simp: group_inv_def drop_map\<close>)
  have hdr: "unchanged m1 m2 (base_ptr ?o) 24" by (rule only_changes_unchanged [OF w2]) auto
  note f = header_unchanged [OF hdr]
  have ka1: "keepalive_timeout m1 ?o = 0"
    using field_unchanged [OF w1, where q = ?o and k = 8] inv'(6) by (simp add: keepalive_timeout_def)
  have sub: "subscriber F (sid r) (drop ?j (sm_list c)) (sm_at c r - ?j) (rs r)" if r: "r \<in> sm_subs c" for r
    using inv'(3) [OF r] low(2) [OF r] low(1) by (auto simp: subscriber_def)
  have cap: "cap_of m2 ?o = sm_cap c" "head_of m2 ?o = sm_pos (sm_clean c)"
    using f c(3,4) inv'(4,5) by (simp_all add: sm_clean_def Let_def pos_at_def)
  have at': "sm_at (sm_clean c) = (\<lambda>r. sm_at c r - ?j)" by (rule ext) simp
  have "smart_inv m2 F sid rs (sm_clean c)"
    unfolding smart_inv_def
    using g2 p2 sub cap f(5) ka1 f2 by (simp add: at' drop_map)
  moreover have "load32 m2 (F + 8) = load32 m (F + 8)"
    by (rule trans [OF load32_unchanged load32_unchanged])
      (rule only_changes_unchanged [OF w2] only_changes_unchanged [OF w1], auto)+
  ultimately show ?thesis using clean by blast
qed

section \<open>Pushing\<close>

lemma sm_free_add:
  assumes pos: "sm_pos c < sm_cap c" and fit: "sm_fits c (snd (snd p))"
  shows "taken (sm_cap c) (sm_tail c) [snd p] \<le> sm_free c"
    "sm_free (sm_add p c) = sm_free c - taken (sm_cap c) (sm_tail c) [snd p]"
proof -
  have t: "taken (sm_cap c) (sm_pos c) (sm_msgs c @ [snd p])
      = taken (sm_cap c) (sm_pos c) (sm_msgs c) + taken (sm_cap c) (sm_tail c) [snd p]"
    by (simp only: taken_append [OF pos] sm_tail_def)
  have "used (sm_cap c) (sm_pos c) (sm_msgs c @ [snd p]) \<le> sm_cap c"
    using fit by (simp add: used_append [OF pos] sm_fits_def fits_def)
  then have "taken (sm_cap c) (sm_pos c) (sm_msgs c @ [snd p]) \<le> sm_cap c"
    using taken_used [of "sm_cap c" "sm_pos c" "sm_msgs c @ [snd p]"] by (rule order.trans [rotated])
  then show "taken (sm_cap c) (sm_tail c) [snd p] \<le> sm_free c"
    using t by (simp add: sm_free_def)
  show "sm_free (sm_add p c) = sm_free c - taken (sm_cap c) (sm_tail c) [snd p]"
    using t by (simp add: sm_free_def)
qed

lemma smart_inv_ring:
  assumes "smart_inv m F sid rs c"
  shows "ring_state m (ring_object (F + 4)) (sm_msgs c)" "sm_pos c < sm_cap c"
    "tail_of m (ring_object (F + 4)) = sm_tail c" "sm_cap c < 4294967296"
    "used (sm_cap c) (sm_pos c) (sm_msgs c) \<le> sm_cap c"
proof -
  let ?o = "ring_object (F + 4)"
  show rs: "ring_state m ?o (sm_msgs c)" using assms by (simp add: smart_inv_def group_inv_def)
  have e: "cap_of m ?o = sm_cap c" "head_of m ?o = sm_pos c" using assms by (simp_all add: smart_inv_def)
  show "sm_pos c < sm_cap c" "tail_of m ?o = sm_tail c" "used (sm_cap c) (sm_pos c) (sm_msgs c) \<le> sm_cap c"
    using rs e by (simp_all add: ring_state_def header_ok_def sm_tail_def)
  show "sm_cap c < 4294967296" using cap_of_bound [of m ?o] e by simp
qed

lemma ucast_neg: "(ucast (- (of_nat n :: u64)) :: u32) = - of_nat n"
  by transfer simp

lemma smart_lands:
  assumes inv: "smart_inv (mem w) F sid rs c" and q: "smart_object F q" and at: "atomic_spec (atomics E)"
    and room: "sm_fits c data"
    and made: "static_make_message E q w data
       = returns ((chain_at q (cap_of (mem w) q) (tail_of (mem w) q) (length data), pos), w2)"
    "unat pos mod cap_of (mem w) q
       = (tail_of (mem w) q + span (cap_of (mem w) q) (tail_of (mem w) q) (length data))
           mod cap_of (mem w) q"
    "laid_out (mem w2) q (tail_of (mem w) q) data"
    "msg_sid (mem w2) (hd (chain_at q (cap_of (mem w) q) (tail_of (mem w) q) (length data)))
       = get_sid E"
    "only_changes (mem w) (mem w2) (free_cells (mem w) q)"
  shows "\<exists>a w3 m4 m5. smart_push_message E q w data = returns ((a, pos), w3) \<and> a \<noteq> []
    \<and> set_tail (msg_set_tag (mem w3) (hd a) tag) q pos = returns m4
    \<and> m5 = set_base_count m4 q (base_count m4 q + 1)
    \<and> smart_inv m5 F sid rs (sm_add (get_sid E, tag, data) c)
    \<and> load32 m5 (F + 8) = load32 (mem w) (F + 8) + 1"
proof -
  let ?m = "mem w" and ?o = "ring_object (F + 4)" and ?x = "(tag, data)"
  let ?p = "(get_sid E, tag, data)"
  let ?T = "taken (sm_cap c) (sm_tail c) [?x]"
  have inv': "group_inv ?m (F + 4) (sm_subs c) rs (sm_msgs c) (sm_at c)" "packets ?m F (sm_list c)"
    "\<And>r. r \<in> sm_subs c \<Longrightarrow> subscriber F (sid r) (sm_list c) (sm_at c r) (rs r)"
    "cap_of ?m ?o = sm_cap c" "head_of ?m ?o = sm_pos c" "keepalive_timeout ?m ?o = 0"
    "unat (load32 ?m F) = sm_free c"
    using inv by (simp_all add: smart_inv_def)
  note ring = smart_inv_ring [OF inv]
  note on = smart_objectD [OF q]
  have fit: "fits (cap_of ?m ?o) (head_of ?m ?o) (sm_msgs c) data"
    using room inv'(4,5) by (simp add: sm_fits_def)
  obtain m3 a where p: "shared_push_message E q w data = returns ((a, pos), w2\<lparr>mem := m3\<rparr>)" "a \<noteq> []"
    "total_size m3 a = of_nat (taken (cap_of ?m ?o) (tail_of ?m ?o) [(tag, data)])"
    "only_changes ?m m3 {F + 4 + 4..}"
    "\<forall>m3'. only_changes m3 m3' {..<F + 4} \<longrightarrow> (\<exists>m4 m5.
        set_tail (msg_set_tag m3' (hd a) tag) q pos = returns m4
        \<and> m5 = set_base_count m4 q (base_count m4 q + 1)
        \<and> group_inv m5 (F + 4) (sm_subs c) rs (sm_msgs c @ [?x]) (sm_at c)
        \<and> head_of m5 ?o = head_of ?m ?o \<and> cap_of m5 ?o = cap_of ?m ?o
        \<and> keepalive_timeout m5 ?o = keepalive_timeout ?m ?o
        \<and> s_counter m5 ?o = s_counter ?m ?o + 1
        \<and> (\<forall>i < length (sm_msgs c). sid_at m5 (F + 4) (sm_msgs c @ [?x]) i = sid_at ?m (F + 4) (sm_msgs c) i)
        \<and> sid_at m5 (F + 4) (sm_msgs c @ [?x]) (length (sm_msgs c)) = get_sid E
        \<and> only_changes m3' m5 {F + 4 + 20..})"
    using push_lands [OF inv'(1) on(1) at fit made, of tag] by blast
  have size: "total_size m3 a = of_nat ?T" using p(3) ring(3) inv'(4) by simp
  define m3' where "m3' = store32 m3 F (load32 m3 F + ucast (- (of_nat ?T :: u64)))"
  have smart: "smart_push_message E q w data = returns ((a, pos), w2\<lparr>mem := m3'\<rparr>)"
    using p(1,2) size on(3)
    by (simp add: smart_push_message_def dec_free_space_def atomic_specD [OF at] m3'_def Let_def del: taken.simps)
  have w3: "only_changes m3 m3' {..<F + 4}"
    unfolding m3'_def by (rule only_changes_mono [OF only_changes_store32 [OF refl]]) auto
  obtain m4 m5 where c: "set_tail (msg_set_tag m3' (hd a) tag) q pos = returns m4"
    "m5 = set_base_count m4 q (base_count m4 q + 1)"
    "group_inv m5 (F + 4) (sm_subs c) rs (sm_msgs c @ [?x]) (sm_at c)"
    "head_of m5 ?o = head_of ?m ?o" "cap_of m5 ?o = cap_of ?m ?o"
    "keepalive_timeout m5 ?o = keepalive_timeout ?m ?o" "s_counter m5 ?o = s_counter ?m ?o + 1"
    "\<forall>i < length (sm_msgs c). sid_at m5 (F + 4) (sm_msgs c @ [?x]) i = sid_at ?m (F + 4) (sm_msgs c) i"
    "sid_at m5 (F + 4) (sm_msgs c @ [?x]) (length (sm_msgs c)) = get_sid E"
    "only_changes m3' m5 {F + 4 + 20..}"
    using p(5) [rule_format, OF w3] by blast
  have free: "?T \<le> sm_free c" "sm_free (sm_add ?p c) = sm_free c - ?T"
    using sm_free_add [OF ring(2), of ?p] room by simp_all
  have "sm_free c \<le> sm_cap c" by (simp add: sm_free_def)
  then have T: "?T < 4294967296" using free(1) ring(4) by linarith
  have neg: "(ucast (- (of_nat ?T :: u64)) :: u32) = - of_nat ?T"
    by (rule ucast_neg)
  have "load32 m3 F = load32 ?m F"
    by (intro load32_unchanged only_changes_unchanged [OF p(4)]) auto
  then have "load32 m3' F = load32 ?m F - of_nat ?T" by (simp add: m3'_def neg del: taken.simps)
  moreover have "load32 m5 F = load32 m3' F"
    by (intro load32_unchanged only_changes_unchanged [OF c(10)]) auto
  moreover have "unat (load32 ?m F - of_nat ?T) = sm_free c - ?T"
    using free(1) T inv'(7) by (simp add: unat_sub word_le_nat_alt unat_of_nat_u32 del: taken.simps)
  ultimately have f5: "unat (load32 m5 F) = sm_free (sm_add ?p c)" using free(2) by simp
  have "packets m5 F (sm_list c @ [?p])"
    using c(8,9) inv'(2) by (auto simp: packets_def nth_append less_Suc_eq)
  moreover have "subscriber F (sid r) (sm_list c @ [?p]) (sm_at c r) (rs r)" if "r \<in> sm_subs c" for r
    using inv'(3) [OF that] by (auto simp: subscriber_def nth_append)
  ultimately have "smart_inv m5 F sid rs (sm_add ?p c)"
    using c(3-6) inv'(4-6) f5 by (simp add: smart_inv_def)
  moreover have "load32 m5 (F + 8) = load32 ?m (F + 8) + 1"
    using c(7) by (simp add: s_counter_def add.commute)
  moreover have "set_tail (msg_set_tag (mem (w2\<lparr>mem := m3'\<rparr>)) (hd a) tag) q pos = returns m4"
    using c(1) by simp
  ultimately show ?thesis using smart p(2) c(2) by blast
qed

text \<open>A message without a place leaves everything as it was.\<close>

lemma smart_refused:
  assumes inv: "smart_inv (mem w) F sid rs c" and q: "smart_object F q"
    and made: "static_make_message E q w data = returns (null_desc, w2)"
    "only_changes (mem w) (mem w2) (free_cells (mem w) q)"
  shows "smart_push_message E q w data = returns (null_desc, w2)" "smart_inv (mem w2) F sid rs c"
    "load32 (mem w2) (F + 8) = load32 (mem w) (F + 8)"
proof -
  let ?m = "mem w"
  show "smart_push_message E q w data = returns (null_desc, w2)"
    by (simp add: smart_push_message_def shared_push_message_def made(1) null_desc_def)
  have g: "group_inv ?m (F + 4) (sm_subs c) rs (sm_msgs c) (sm_at c)"
    using inv unfolding smart_inv_def by blast
  note free = group_free [OF g smart_objectD(1) [OF q] made(2)]
  note f = header_unchanged [OF free(2)]
  have "packets (mem w2) F (sm_list c)"
    using inv sid_at_kept [OF smart_inv_ring(1) [OF inv] _ free(3)] f unfolding smart_inv_def packets_def by auto
  moreover have "load32 (mem w2) a = load32 ?m a" if "a + 4 \<le> F + 36" for a
    by (intro load32_unchanged only_changes_unchanged [OF free(4)]) (use that in auto)
  ultimately show "smart_inv (mem w2) F sid rs c" "load32 (mem w2) (F + 8) = load32 ?m (F + 8)"
    using inv free(1) f unfolding smart_inv_def by simp_all
qed

text \<open>What \<open>push\<close> does when the queue keeps no messages past their time.\<close>

lemma smart_push_cases:
  assumes inv: "smart_inv (mem w) F sid rs c" and q: "smart_object F q" and at: "atomic_spec (atomics E)"
    and full: "s_counter (mem w) q - m_counter q \<noteq> - 1"
    and step: "\<And>w1. smart_inv (mem w1) F sid rs (sm_clean c) \<Longrightarrow>
      (b \<and> (\<exists>a pos w3 m4 m5. smart_push_message E q w1 data = returns ((a, pos), w3) \<and> a \<noteq> []
        \<and> set_tail (msg_set_tag (mem w3) (hd a) tag) q pos = returns m4
        \<and> m5 = set_base_count m4 q (base_count m4 q + 1) \<and> smart_inv m5 F sid rs c'
        \<and> load32 m5 (F + 8) = load32 (mem w1) (F + 8) + 1))
      \<or> (\<not> b \<and> (\<exists>w3. smart_push_message E q w1 data = returns (null_desc, w3)
        \<and> smart_inv (mem w3) F sid rs c' \<and> load32 (mem w3) (F + 8) = load32 (mem w1) (F + 8)))"
  shows "\<exists>w'. push E w q tag data = returns (b, w', q) \<and> smart_inv (mem w') F sid rs c'
    \<and> load32 (mem w') (F + 8) = load32 (mem w) (F + 8) + (if b then 1 else 0)"
proof -
  let ?o = "ring_object (F + 4)"
  note on = smart_objectD [OF q]
  obtain g m1 where c: "clean_messages E (mem w) q = returns (g, m1, q)"
    "smart_inv m1 F sid rs (sm_clean c)" "load32 m1 (F + 8) = load32 (mem w) (F + 8)"
    using smart_cleans [OF inv q at full] by blast
  define w1 where "w1 = w\<lparr>mem := m1\<rparr>"
  have c1: "smart_inv (mem w1) F sid rs (sm_clean c)" using c(2) by (simp add: w1_def)
  have pm: "push_message E q w1 data = smart_push_message E q w1 data"
    by (simp add: push_message_def on(2))
  show ?thesis
  proof (cases b)
    case True
    then obtain a pos w3 m4 m5 where p: "smart_push_message E q w1 data = returns ((a, pos), w3)" "a \<noteq> []"
      "set_tail (msg_set_tag (mem w3) (hd a) tag) q pos = returns m4"
      "m5 = set_base_count m4 q (base_count m4 q + 1)" "smart_inv m5 F sid rs c'"
      "load32 m5 (F + 8) = load32 (mem w1) (F + 8) + 1"
      using step [OF c1] by blast
    have "push E w q tag data = returns (True, w3\<lparr>mem := m5\<rparr>, q)"
      using p(1-4) by (simp add: push_def do_push_def c(1) pm [unfolded w1_def] w1_def)
    then show ?thesis using True p(5,6) c(3) by (intro exI [of _ "w3\<lparr>mem := m5\<rparr>"]) (simp add: w1_def)
  next
    case False
    then obtain w3 where p: "smart_push_message E q w1 data = returns (null_desc, w3)"
      "smart_inv (mem w3) F sid rs c'" "load32 (mem w3) (F + 8) = load32 (mem w1) (F + 8)"
      using step [OF c1] by blast
    have "keepalive_timeout (mem w3) ?o = 0" using p(2) by (simp add: smart_inv_def)
    then have "keepalive_timeout (mem w3) q = 0"
      by (simp add: base_ptr_cong [OF on_ringD(1) [OF on(1)]])
    then have "push E w q tag data = returns (False, w3, q)"
      using p(1) by (simp add: push_def do_push_def c(1) pm [unfolded w1_def] w1_def null_desc_def)
    then show ?thesis using False p(2,3) c(3) by (intro exI [of _ w3]) (simp add: w1_def)
  qed
qed

text \<open>A service message, which may use the reserve.\<close>

lemma smart_pushes_service:
  assumes inv: "smart_inv (mem w) F sid rs c" and q: "smart_object F q" and E: "env_ok E"
    and full: "s_counter (mem w) q - m_counter q \<noteq> - 1"
    and spec: "sm_service (get_sid E) code c = Some c'"
  shows "\<exists>w'. push_service_message E w q code = returns (w', q) \<and> smart_inv (mem w') F sid rs c'
    \<and> load32 (mem w') (F + 8) = load32 (mem w) (F + 8) + 1"
proof -
  let ?q = "q\<lparr>m_state := ST_PUSH_SPECIAL_MESSAGE\<rparr>" and ?data = "[code_byte code]"
  have at: "atomic_spec (atomics E)" using E by (simp add: env_ok_def)
  have q': "smart_object F ?q" using q by simp
  have plain: "plain_regions ?q" by (simp add: plain_regions_def)
  have fit: "sm_fits (sm_clean c) ?data"
    and c': "c' = sm_add (get_sid E, SERVICE_TAG, ?data) (sm_clean c)"
    using spec by (simp_all add: sm_service_def Let_def split: if_splits)
  have "\<exists>w'. push E w ?q SERVICE_TAG ?data = returns (True, w', ?q) \<and> smart_inv (mem w') F sid rs c'
      \<and> load32 (mem w') (F + 8) = load32 (mem w) (F + 8) + (if True then 1 else 0)"
  proof (rule smart_push_cases [OF inv q' at])
    show "s_counter (mem w) ?q - m_counter ?q \<noteq> - 1" using full by (simp add: s_counter_def)
    fix w1 :: world assume i: "smart_inv (mem w1) F sid rs (sm_clean c)"
    have g: "group_inv (mem w1) (F + 4) (sm_subs (sm_clean c)) rs (sm_msgs (sm_clean c)) (sm_at (sm_clean c))"
      using i unfolding smart_inv_def by blast
    have room: "fits (cap_of (mem w1) (ring_object (F + 4))) (head_of (mem w1) (ring_object (F + 4)))
        (sm_msgs (sm_clean c)) ?data"
      using fit i unfolding sm_fits_def smart_inv_def by argo
    obtain w2 pos where made: "static_make_message E ?q w1 ?data
       = returns ((chain_at ?q (cap_of (mem w1) ?q) (tail_of (mem w1) ?q) (length ?data), pos), w2)"
      "unat pos mod cap_of (mem w1) ?q
       = (tail_of (mem w1) ?q + span (cap_of (mem w1) ?q) (tail_of (mem w1) ?q) (length ?data))
           mod cap_of (mem w1) ?q"
      "laid_out (mem w2) ?q (tail_of (mem w1) ?q) ?data"
      "msg_sid (mem w2) (hd (chain_at ?q (cap_of (mem w1) ?q) (tail_of (mem w1) ?q) (length ?data)))
       = get_sid E"
      "only_changes (mem w1) (mem w2) (free_cells (mem w1) ?q)"
      by (rule plain_push_fits [OF g smart_objectD(1) [OF q'] plain E _ room]) simp
    from smart_lands [OF i q' at fit made, of SERVICE_TAG]
    show "(True \<and> (\<exists>a pos w3 m4 m5. smart_push_message E ?q w1 ?data = returns ((a, pos), w3) \<and> a \<noteq> []
        \<and> set_tail (msg_set_tag (mem w3) (hd a) SERVICE_TAG) ?q pos = returns m4
        \<and> m5 = set_base_count m4 ?q (base_count m4 ?q + 1) \<and> smart_inv m5 F sid rs c'
        \<and> load32 m5 (F + 8) = load32 (mem w1) (F + 8) + 1))
      \<or> (\<not> True \<and> (\<exists>w3. smart_push_message E ?q w1 ?data = returns (null_desc, w3)
        \<and> smart_inv (mem w3) F sid rs c' \<and> load32 (mem w3) (F + 8) = load32 (mem w1) (F + 8)))"
      unfolding c' by blast
  qed
  then obtain w' where p: "push E w ?q SERVICE_TAG ?data = returns (True, w', ?q)"
    "smart_inv (mem w') F sid rs c'" "load32 (mem w') (F + 8) = load32 (mem w) (F + 8) + 1"
    by auto
  have "push_service_loop E w ?q (code_byte code) = returns (w', ?q)"
    by (subst push_service_loop.simps) (simp add: p(1))
  then have "push_service_message E w q code = returns (w', q)"
    by (simp add: push_service_message_def rollback_def)
  with p(2,3) show ?thesis by blast
qed

text \<open>Without room for it, the push of a service message fails and nothing but the cleaning is done.\<close>

lemma smart_service_full:
  assumes inv: "smart_inv (mem w) F sid rs c" and q: "smart_object F q" and E: "env_ok E"
    and state: "m_state q = ST_PUSH_SPECIAL_MESSAGE" and ne: "data \<noteq> []"
    and full: "s_counter (mem w) q - m_counter q \<noteq> - 1"
    and room: "\<not> sm_fits (sm_clean c) data"
  shows "\<exists>w'. push E w q SERVICE_TAG data = returns (False, w', q) \<and> smart_inv (mem w') F sid rs (sm_clean c)
    \<and> load32 (mem w') (F + 8) = load32 (mem w) (F + 8)"
proof -
  have at: "atomic_spec (atomics E)" and live: "clock_live (clock E)" using E by (simp_all add: env_ok_def)
  have plain: "plain_regions q" using state by (simp add: plain_regions_def)
  have "\<exists>w'. push E w q SERVICE_TAG data = returns (False, w', q) \<and> smart_inv (mem w') F sid rs (sm_clean c)
    \<and> load32 (mem w') (F + 8) = load32 (mem w) (F + 8) + (if False then 1 else 0)"
  proof (rule smart_push_cases [OF inv q at full])
    fix w1 :: world assume i: "smart_inv (mem w1) F sid rs (sm_clean c)"
    let ?m = "mem w1"
    note on = on_ringD [OF smart_objectD(1) [OF q]]
    have rs: "ring_state ?m q (sm_msgs (sm_clean c))"
      using smart_inv_ring(1) [OF i] by (simp only: ring_state_cong [OF on(1)])
    then have ok: "header_ok ?m q" by (simp add: ring_state_def)
    have caps: "cap_of ?m q = sm_cap (sm_clean c)" "head_of ?m q = sm_pos (sm_clean c)"
      using i unfolding smart_inv_def by (simp_all only: base_ptr_cong [OF on(1)])
    have "\<not> Fifo.fits (cap_of ?m q) (head_of ?m q) (sm_msgs (sm_clean c)) data"
      using room unfolding sm_fits_def caps .
    then have few: "free_bytes ?m q < span (cap_of ?m q) (tail_of ?m q) (length data)"
      unfolding not_le [symmetric] by (simp only: free_bytes_fits [OF rs] simp_thms)
    obtain w2 where made: "static_make_message E q w1 data = returns (null_desc, w2)"
      "only_changes ?m (mem w2) (free_cells ?m q)"
      by (rule static_make_full [OF plain live ok ne few])
    from smart_refused [OF i q made]
    show "(False \<and> (\<exists>a pos w3 m4 m5. smart_push_message E q w1 data = returns ((a, pos), w3) \<and> a \<noteq> []
        \<and> set_tail (msg_set_tag (mem w3) (hd a) SERVICE_TAG) q pos = returns m4
        \<and> m5 = set_base_count m4 q (base_count m4 q + 1) \<and> smart_inv m5 F sid rs (sm_clean c)
        \<and> load32 m5 (F + 8) = load32 ?m (F + 8) + 1))
      \<or> (\<not> False \<and> (\<exists>w3. smart_push_message E q w1 data = returns (null_desc, w3)
        \<and> smart_inv (mem w3) F sid rs (sm_clean c) \<and> load32 (mem w3) (F + 8) = load32 ?m (F + 8)))"
      by blast
  qed
  then show ?thesis by simp
qed

text \<open>A message of a user, which may not.\<close>

lemma smart_limit_is:
  assumes inv: "smart_inv m F sid rs c" and q: "smart_object F q" and at: "atomic_spec (atomics E)"
  shows "smart_limit E m q = (if sm_reserve c \<le> sm_free c then sm_free c - sm_reserve c
    else 18446744073709551616 + sm_free c - sm_reserve c)"
proof -
  note on = smart_objectD [OF q]
  let ?f = "free_space E m q" and ?r = "2 * static_size 1 * subscriptions_count E m q"
  have card: "card (sm_subs c) < 4294967296" "load32 m (F + 4) = of_nat (card (sm_subs c))"
    using inv by (simp_all add: smart_inv_def group_inv_def)
  have f: "unat ?f = sm_free c"
    using inv on(3) by (simp add: free_space_def atomic_specD [OF at] smart_inv_def)
  have s: "unat (subscriptions_count E m q) = card (sm_subs c)"
    using card on(4) by (simp add: subscriptions_count_def atomic_specD [OF at] unat_of_nat_u32)
  have r: "unat ?r = sm_reserve c"
    using card(1) by (simp add: static_size_def unat_word_ariths s sm_reserve_def)
  have small: "sm_free c < 4294967296" using smart_inv_ring(4) [OF inv] by (simp add: sm_free_def)
  show ?thesis
  proof (cases "sm_reserve c \<le> sm_free c")
    case True
    then show ?thesis by (simp add: smart_limit_def unat_sub word_le_nat_alt f r)
  next
    case False
    have "?f < ?r" using False by (simp add: word_less_nat_alt f r)
    then have "unat (?f - ?r) = unat ?f + 2 ^ LENGTH(64) - unat ?r"
      by (simp add: unat_sub_if' word_le_nat_alt word_less_nat_alt)
    then show ?thesis using False by (simp add: smart_limit_def f r)
  qed
qed

lemma smart_pushes:
  assumes inv: "smart_inv (mem w) F sid rs c" and r: "r \<in> sm_subs c" and E: "env_ok E"
    and sid: "get_sid E = sid r" and ne: "data \<noteq> []"
    and spec: "sm_push (sid r, tag, data) c = Some (b, c')"
  shows "\<exists>w'. push E w (rs r) tag data = returns (b, w', rs r) \<and> smart_inv (mem w') F sid rs c'"
proof -
  let ?q = "rs r" and ?c1 = "sm_clean c" and ?n = "length data"
  let ?lim = "sm_free ?c1 - sm_reserve ?c1"
  have at: "atomic_spec (atomics E)" and live: "clock_live (clock E)" using E by (simp_all add: env_ok_def)
  have sub: "subscriber F (sid r) (sm_list c) (sm_at c r) ?q"
    and g: "group_inv (mem w) (F + 4) (sm_subs c) rs (sm_msgs c) (sm_at c)"
    using inv r by (simp_all add: smart_inv_def)
  have q: "smart_object F ?q" and u: "user_object ?q"
    using sub smart_objectD(6) by (auto simp: subscriber_def)
  note on = on_ringD [OF smart_objectD(1) [OF q]]
  have "\<exists>w'. push E w ?q tag data = returns (b, w', ?q) \<and> smart_inv (mem w') F sid rs c'
      \<and> load32 (mem w') (F + 8) = load32 (mem w) (F + 8) + (if b then 1 else 0)"
  proof (rule smart_push_cases [OF inv q at member_not_full [OF g r]])
    fix w1 :: world assume i: "smart_inv (mem w1) F sid rs ?c1"
    let ?m = "mem w1"
    note ring = smart_inv_ring [OF i]
    have rs: "ring_state ?m ?q (sm_msgs ?c1)" using ring(1) by (simp only: ring_state_cong [OF on(1)])
    have ok: "header_ok ?m ?q" using rs by (simp add: ring_state_def)
    have caps: "cap_of ?m ?q = sm_cap ?c1" "head_of ?m ?q = sm_pos ?c1" "tail_of ?m ?q = sm_tail ?c1"
      using i ring(3) unfolding smart_inv_def by (simp_all only: base_ptr_cong [OF on(1)])
    have lim: "smart_limit E ?m ?q = (if sm_reserve ?c1 \<le> sm_free ?c1 then ?lim
        else 18446744073709551616 + sm_free ?c1 - sm_reserve ?c1)"
      by (rule smart_limit_is [OF i q at])
    consider (fits) "b" "c' = sm_add (sid r, tag, data) ?c1" "sm_fits ?c1 data"
        "sm_reserve ?c1 \<le> sm_free ?c1 \<longrightarrow> span (sm_cap ?c1) (sm_tail ?c1) ?n \<le> ?lim"
      | (full) "\<not> b" "c' = ?c1" "sm_reserve ?c1 \<le> sm_free ?c1" "?lim \<le> sm_edge ?c1" "?lim < ?n + 24"
      using spec by (auto simp: sm_push_def Let_def split: if_splits)
    then show "(b \<and> (\<exists>a pos w3 m4 m5. smart_push_message E ?q w1 data = returns ((a, pos), w3) \<and> a \<noteq> []
        \<and> set_tail (msg_set_tag (mem w3) (hd a) tag) ?q pos = returns m4
        \<and> m5 = set_base_count m4 ?q (base_count m4 ?q + 1) \<and> smart_inv m5 F sid rs c'
        \<and> load32 m5 (F + 8) = load32 ?m (F + 8) + 1))
      \<or> (\<not> b \<and> (\<exists>w3. smart_push_message E ?q w1 data = returns (null_desc, w3)
        \<and> smart_inv (mem w3) F sid rs c' \<and> load32 (mem w3) (F + 8) = load32 ?m (F + 8)))"
    proof cases
      case fits
      have n: "0 < ?n" using ne by simp
      have fit: "Fifo.fits (cap_of ?m ?q) (head_of ?m ?q) (sm_msgs ?c1) data"
        using fits(3) unfolding sm_fits_def caps .
      then have room: "span (cap_of ?m ?q) (tail_of ?m ?q) ?n \<le> free_bytes ?m ?q"
        by (simp only: free_bytes_fits [OF rs])
      have "span (sm_cap ?c1) (sm_tail ?c1) ?n \<le> sm_cap ?c1"
        using fits(3) by (simp add: sm_fits_def fits_def sm_tail_def)
      moreover have "sm_cap ?c1 \<le> 18446744073709551616 + sm_free ?c1 - sm_reserve ?c1"
      proof -
        have "card (sm_subs ?c1) < 4294967296" using i by (simp add: smart_inv_def group_inv_def)
        then show ?thesis using ring(4) unfolding sm_reserve_def by linarith
      qed
      ultimately have l: "span (cap_of ?m ?q) (tail_of ?m ?q) ?n \<le> smart_limit E ?m ?q"
        using fits(4) unfolding lim caps by (simp split: if_split)
      note empty = ring_state_bounds(2) [OF rs]
      obtain w2 r' where loop: "make_loop E ?q w1 [] None ?n
       = returns (w2, Some (chain_at ?q (cap_of ?m ?q) (tail_of ?m ?q) ?n, Some r'))"
        "unat (fst r') = fst (last (place (cap_of ?m ?q) (tail_of ?m ?q) ?n))"
        "made E ?m (mem w2) ?q (tail_of ?m ?q) ?n"
        by (rule smart_make_loop_fits [OF u live ok n empty room l])
      obtain w3 pos where made: "static_make_message E ?q w1 data
          = returns ((chain_at ?q (cap_of ?m ?q) (tail_of ?m ?q) ?n, pos), w3)"
        "unat pos mod cap_of ?m ?q = (tail_of ?m ?q + span (cap_of ?m ?q) (tail_of ?m ?q) ?n) mod cap_of ?m ?q"
        "laid_out (mem w3) ?q (tail_of ?m ?q) data"
        "msg_sid (mem w3) (hd (chain_at ?q (cap_of ?m ?q) (tail_of ?m ?q) ?n)) = get_sid E"
        "only_changes ?m (mem w3) (free_cells ?m ?q)"
        by (rule static_make_packs [OF loop ok ne empty room])
      show ?thesis
        using smart_lands [OF i q at fits(3) made, of tag] fits(1,2) sid by (intro disjI1 conjI) auto
    next
      case full
      have n: "0 < ?n" using ne by simp
      have l: "smart_limit E ?m ?q = ?lim" using lim full(3) by simp
      have long: "smart_limit E ?m ?q < ?n + 24" using l full(5) by simp
      have "count_of ?m ?q = length (sm_list ?c1)" using rs by (simp add: ring_state_def)
      then have "wraps ?m ?q \<longleftrightarrow> sm_list ?c1 = [] \<or> sm_pos ?c1 < sm_tail ?c1"
        unfolding wraps_def caps by simp
      then have first: "smart_limit E ?m ?q \<le> (if wraps ?m ?q then cap_of ?m ?q - tail_of ?m ?q
          else head_of ?m ?q - tail_of ?m ?q)"
        using full(4) unfolding l caps sm_edge_def by simp
      obtain w2 where loop: "make_loop E ?q w1 [] None ?n = returns (w2, None)"
        "only_changes ?m (mem w2) (free_cells ?m ?q)"
        by (rule smart_make_loop_refused [OF u live ok n long first])
      have made: "static_make_message E ?q w1 data = returns (null_desc, w2)"
        using loop(1) by (simp add: static_make_message_def)
      show ?thesis using smart_refused [OF i q made loop(2)] full(1,2) by blast
    qed
  qed
  then show ?thesis by blast
qed

end
