(* ===== verification/Smart_Reader.thy ===== *)
theory Smart_Reader
  imports Smart_Group
begin

text \<open>
  \<open>smart_shared_queue\<close>: how a subscriber reads. A get skips the packets of its own process and
  the service messages, a pop removes the next packet that is not skipped, and a leaving
  subscriber reads up to its own farewell.
\<close>

section \<open>One packet\<close>

text \<open>The part of the invariant that reading needs; it does not mention the subscriber count.\<close>

definition reading ::
  "memory \<Rightarrow> nat \<Rightarrow> nat set \<Rightarrow> (nat \<Rightarrow> queue) \<Rightarrow> packet list \<Rightarrow> (nat \<Rightarrow> nat) \<Rightarrow> bool" where
  "reading m F R rs xs ks \<longleftrightarrow> group_at m (F + 4) R rs (map snd xs) ks \<and> packets m F xs"

abbreviation chain_of :: "memory \<Rightarrow> nat \<Rightarrow> packet list \<Rightarrow> nat \<Rightarrow> pmessage" where
  "chain_of m F xs k \<equiv> chain_at (ring_object (F + 4)) (cap_of m (ring_object (F + 4)))
     (pos_at m (ring_object (F + 4)) (map snd xs) k) (length (snd (snd (xs ! k))))"

definition next_pos :: "memory \<Rightarrow> nat \<Rightarrow> packet list \<Rightarrow> nat \<Rightarrow> pos_type \<Rightarrow> bool" where
  "next_pos m F xs k pos \<longleftrightarrow> unat pos mod cap_of m (ring_object (F + 4))
     = pos_at m (ring_object (F + 4)) (map snd xs) (Suc k)"

lemma chain_base: "base_ptr q = base_ptr q' \<Longrightarrow> chain_at q cap p n = chain_at q' cap p n"
  by (simp add: chain_at_def)

lemma first_byte:
  assumes "stored m q p x"
  shows "service_code_of m (hd (chain_at q (cap_of m q) p (length (snd x)))) = hd (snd x)"
proof -
  let ?c = "chain_at q (cap_of m q) p (length (snd x))"
  have laid: "snd x \<noteq> []" "fst (unpack m ?c) = snd x"
    "\<And>pos len. (pos, len) \<in> set (place (cap_of m q) p (length (snd x))) \<Longrightarrow>
       unat (msg_capacity m (data_start q + pos)) = len"
    using assms by (auto simp: stored_def laid_out_def Let_def)
  obtain pos len rest where pl: "place (cap_of m q) p (length (snd x)) = (pos, len) # rest"
    by (metis list.exhaust place_nonempty surj_pair)
  have len: "0 < len"
    using pl laid(1) by (cases "cap_of m q" p "length (snd x)" rule: place_cases) auto
  have c: "?c = (data_start q + pos) # map (\<lambda>(pos, len). data_start q + pos) rest"
    by (simp add: chain_at_def pl)
  have cap: "unat (msg_capacity m (data_start q + pos)) = len" by (rule laid(3)) (simp add: pl)
  have "hd (snd x) = hd (load m (msg_data (data_start q + pos)) len
      @ fst (unpack m (map (\<lambda>(pos, len). data_start q + pos) rest)))"
    using laid(2) unfolding c fst_unpack_Cons cap by simp
  also have "\<dots> = m (msg_data (data_start q + pos))"
    using len by (simp add: load_def upt_conv_Cons)
  finally show ?thesis by (simp add: c service_code_of_def)
qed

lemma reading_packet:
  assumes rd: "reading m F R rs xs ks" and k: "k < length xs"
  shows "msg_sid m (hd (chain_of m F xs k)) = fst (xs ! k)"
    "msg_tag m (hd (chain_of m F xs k)) = fst (snd (xs ! k))"
    "service_code_of m (hd (chain_of m F xs k)) = hd (snd (snd (xs ! k)))"
    "read_message m (chain_of m F xs k) = Some (snd (xs ! k))"
proof -
  let ?o = "ring_object (F + 4)"
  have rs: "ring_state m ?o (map snd xs)" using rd by (simp add: reading_def group_at_def)
  have len: "k < length (map snd xs)" using k by simp
  note st = stored_at(1) [OF rs len]
  have nth: "map snd xs ! k = snd (xs ! k)" using k by simp
  have "addr_at m ?o (map snd xs) k = hd (chain_of m F xs k)" using k by (simp add: addr_at_def)
  then show "msg_sid m (hd (chain_of m F xs k)) = fst (xs ! k)"
    using rd k unfolding reading_def packets_def sid_at_def by metis
  show "msg_tag m (hd (chain_of m F xs k)) = fst (snd (xs ! k))"
    using st unfolding stored_def nth by simp
  show "service_code_of m (hd (chain_of m F xs k)) = hd (snd (snd (xs ! k)))"
    using first_byte [OF st] unfolding nth .
  show "read_message m (chain_of m F xs k) = Some (snd (xs ! k))"
    using read_stored [OF st] unfolding nth .
qed

text \<open>The description that an object keeps is not looked at while it searches.\<close>

lemma desc_simps [simp]:
  "q_count m (q\<lparr>m_message_desc := d\<rparr>) = q_count m q"
  "q_head m (q\<lparr>m_message_desc := d\<rparr>) = q_head m q"
  "q_empty m (q\<lparr>m_message_desc := d\<rparr>) = q_empty m q"
  by (simp_all add: q_empty_def q_count_def shared_count_def q_head_def
    shared_head_def q_field_defs s_counter_def cong: queue_class.case_cong)

lemma desc_same: "q\<lparr>m_message_desc := d, m_head := m_head q, m_counter := m_counter q\<rparr>
    = q\<lparr>m_message_desc := d\<rparr>"
  "q\<lparr>m_message_desc := m_message_desc q\<rparr> = q"
  by (cases q; simp)+

lemma desc_first [simp]: "q\<lparr>m_head := v, m_counter := n, m_message_desc := d\<rparr>
    = q\<lparr>m_message_desc := d, m_head := v, m_counter := n\<rparr>"
  by (cases q) simp

lemma reading_next:
  assumes rd: "reading m F R rs xs ks" and r: "r \<in> R" and k: "ks r < length xs"
  obtains pos where "static_get_message ((rs r)\<lparr>m_message_desc := d\<rparr>) m
      = returns (chain_of m F xs (ks r), pos)"
    "next_pos m F xs (ks r) pos"
proof -
  let ?o = "ring_object (F + 4)" and ?q = "(rs r)\<lparr>m_message_desc := d\<rparr>"
  have g: "group_at m (F + 4) R rs (map snd xs) ks" using rd by (simp add: reading_def)
  note mem = group_at_member [OF g r]
  have b: "base_ptr ?q = base_ptr ?o" using mem(1) by simp
  have k': "ks r < length (map snd xs)" using k by simp
  have "ring_state m ?o (map snd xs)" using g by (simp add: group_at_def)
  then have rs: "ring_state m ?q (map snd xs)" by (simp only: ring_state_cong [OF b])
  have head: "unat (q_head m ?q) = pos_at m ?q (map snd xs) (ks r)"
    using q_head_reader [OF mem(4,5)] at_cong(1) [OF b] at_cong(1) [OF mem(1)] by simp
  have "q_count m (rs r) > 0" using q_count_pos [OF mem(4)] k' by simp
  then have ne: "\<not> q_empty m ?q" by (simp add: q_empty_def)
  obtain pos where "static_get_message ?q m = returns (chain_at ?q (cap_of m ?q)
      (pos_at m ?q (map snd xs) (ks r)) (length (snd (map snd xs ! ks r))), pos)"
    "unat pos mod cap_of m ?q = pos_at m ?q (map snd xs) (Suc (ks r))"
    by (rule static_get_at [OF rs k' head ne])
  then have "static_get_message ?q m = returns (chain_of m F xs (ks r), pos)"
    "unat pos mod cap_of m ?o = pos_at m ?o (map snd xs) (Suc (ks r))"
    using k unfolding at_cong [OF b] base_ptr_cong [OF b] chain_base [OF b] by simp_all
  then show thesis by (intro that) (simp_all add: next_pos_def)
qed

text \<open>Popping a packet changes its reference counter only.\<close>

lemma packets_counter:
  assumes p: "packets m F xs" and rs: "ring_state m (ring_object (F + 4)) (map snd xs)"
    and k: "k < length xs" and hdr: "unchanged m m' (F + 12) 24"
    and w: "only_changes m m' {addr_at m (ring_object (F + 4)) (map snd xs) k + 16
      ..<addr_at m (ring_object (F + 4)) (map snd xs) k + 20}"
  shows "packets m' F xs"
proof -
  let ?o = "ring_object (F + 4)" and ?xs = "map snd xs"
  have h: "unchanged m m' (base_ptr ?o) 24" using hdr by (simp add: add.commute add.left_commute)
  note f = header_unchanged [OF h]
  have "sid_at m' (F + 4) ?xs i = sid_at m (F + 4) ?xs i" if i: "i < length xs" for i
  proof -
    have addr: "addr_at m' ?o ?xs i = addr_at m ?o ?xs i" by (rule addr_at_same) (simp_all add: f)
    have "i = k \<or> block_of m ?o ?xs i \<inter> block_of m ?o ?xs k = {}"
      using blocks_disjoint [OF rs, of i k] i k by auto
    then have "unchanged m m' (addr_at m ?o ?xs i + 8) 4"
    proof
      assume "i = k"
      then show ?thesis by (intro only_changes_unchanged [OF w]) auto
    next
      assume "block_of m ?o ?xs i \<inter> block_of m ?o ?xs k = {}"
      from disjoint_blocks [OF this] show ?thesis
        by (intro only_changes_unchanged [OF w]) auto
    qed
    then show ?thesis by (simp add: sid_at_def msg_sid_def addr load32_unchanged)
  qed
  with p show ?thesis by (simp add: packets_def)
qed

lemma reading_pop:
  assumes rd: "reading m F R rs xs ks" and r: "r \<in> R" and k: "ks r < length xs"
    and at: "atomic_spec (atomics E)" and pos: "next_pos m F xs (ks r) pos"
  shows "\<exists>m' v. (\<forall>d. shared_pop_message E m ((rs r)\<lparr>m_message_desc := d\<rparr>) (chain_of m F xs (ks r), pos)
      = returns (m', (rs r)\<lparr>m_message_desc := d, m_head := v, m_counter := m_counter (rs r) + 1\<rparr>))
    \<and> (\<forall>x. reading m' F R
        (rs(r := (rs r)\<lparr>m_message_desc := ([], x), m_head := v, m_counter := m_counter (rs r) + 1\<rparr>))
        xs (ks(r := Suc (ks r))))
    \<and> unchanged m m' F 36"
proof -
  let ?o = "ring_object (F + 4)"
  have g: "group_at m (F + 4) R rs (map snd xs) ks" and p: "packets m F xs"
    using rd by (simp_all add: reading_def)
  have rs: "ring_state m ?o (map snd xs)" using g by (simp add: group_at_def)
  have b: "base_ptr (rs r) = base_ptr ?o" by (rule group_at_member(1) [OF g r])
  have k': "ks r < length (map snd xs)" using k by simp
  have pos': "unat pos mod cap_of m ?o = pos_at m ?o (map snd xs) (Suc (ks r))"
    using pos by (simp add: next_pos_def)
  obtain m' v where s: "\<forall>d. shared_pop_message E m ((rs r)\<lparr>m_message_desc := d\<rparr>)
        (chain_at (rs r) (cap_of m ?o) (pos_at m ?o (map snd xs) (ks r)) (length (snd (map snd xs ! ks r))), pos)
      = returns (m', (rs r)\<lparr>m_message_desc := d, m_head := v, m_counter := m_counter (rs r) + 1\<rparr>)"
    "\<forall>x. group_at m' (F + 4) R
        (rs(r := (rs r)\<lparr>m_message_desc := ([], x), m_head := v, m_counter := m_counter (rs r) + 1\<rparr>))
        (map snd xs) (ks(r := Suc (ks r)))"
    "unchanged m m' (F + 4 + 8) 24"
    "only_changes m m' {addr_at m ?o (map snd xs) (ks r) + 16..<addr_at m ?o (map snd xs) (ks r) + 20}"
    using group_at_pop_step [OF g r k' at pos'] by blast
  have h: "unchanged m m' (F + 12) 24" using s(3) by (simp add: add.commute add.left_commute)
  have "packets m' F xs" by (rule packets_counter [OF p rs k h s(4)])
  moreover have "unchanged m m' F 36"
  proof (rule only_changes_unchanged [OF s(4)])
    have "block_of m ?o (map snd xs) (ks r) \<subseteq> {data_start ?o..<data_start ?o + cap_of m ?o}"
      by (rule block_inside [OF rs k'])
    then show "{F..<F + 36} \<inter> {addr_at m ?o (map snd xs) (ks r) + 16
        ..<addr_at m ?o (map snd xs) (ks r) + 20} = {}" by auto
  qed
  moreover have "chain_at (rs r) (cap_of m ?o) (pos_at m ?o (map snd xs) (ks r))
      (length (snd (map snd xs ! ks r))) = chain_of m F xs (ks r)"
    using k by (simp add: chain_base [OF b])
  ultimately show ?thesis using s(1,2) unfolding reading_def by metis
qed


lemma reading_readers:
  assumes rd: "reading m F R rs xs ks" and r: "r \<in> R"
    and q: "base_ptr q = base_ptr (rs r)" "shared_ptr q = shared_ptr (rs r)"
      "reader m (rs r) (map snd xs) (ks r) \<Longrightarrow> reader m q (map snd xs) (ks r)"
  shows "reading m F R (rs(r := q)) xs ks"
proof -
  have g: "group_at m (F + 4) R rs (map snd xs) ks" using rd by (simp add: reading_def)
  have "group_at m (F + 4) R (rs(r := q)) (map snd xs) ks"
    by (rule group_at_readers [OF g]) (use g r q in \<open>auto simp: group_at_def\<close>)
  with rd show ?thesis by (simp add: reading_def)
qed

lemma reading_forget: "reading m F R rs xs ks \<Longrightarrow> r \<in> R \<Longrightarrow>
    reading m F R (rs(r := (rs r)\<lparr>m_message_desc := ([], x)\<rparr>)) xs ks"
  by (erule reading_readers) (simp_all add: reader_def pos_at_def q_field_defs s_counter_def)

lemma reading_cache:
  assumes rd: "reading m F R rs xs ks" and r: "r \<in> R" and k: "ks r < length xs"
    and pos: "next_pos m F xs (ks r) pos"
  shows "reading m F R (rs(r := (rs r)\<lparr>m_message_desc := (chain_of m F xs (ks r), pos)\<rparr>)) xs ks"
proof -
  let ?o = "ring_object (F + 4)"
  have g: "group_at m (F + 4) R rs (map snd xs) ks" using rd by (simp add: reading_def)
  have b: "base_ptr (rs r) = base_ptr ?o" by (rule group_at_member(1) [OF g r])
  have p: "unat pos mod cap_of m ?o = pos_at m ?o (map snd xs) (Suc (ks r))"
    using pos by (simp add: next_pos_def)
  have b': "base_ptr ((rs r)\<lparr>m_message_desc := d\<rparr>) = base_ptr ?o" for d by (simp add: b)
  show ?thesis
  proof (rule reading_readers [OF rd r])
    assume "reader m (rs r) (map snd xs) (ks r)"
    then show "reader m ((rs r)\<lparr>m_message_desc := (chain_of m F xs (ks r), pos)\<rparr>) (map snd xs) (ks r)"
      using k p unfolding reader_def at_cong [OF b] at_cong [OF b'] base_ptr_cong [OF b]
        base_ptr_cong [OF b'] chain_base [OF b] chain_base [OF b']
      by (simp add: s_counter_def)
  qed simp_all
qed

lemma chain_of_same:
  assumes "unchanged m m' F 36"
  shows "chain_of m' F xs k = chain_of m F xs k" "next_pos m' F xs k pos = next_pos m F xs k pos"
proof -
  let ?o = "ring_object (F + 4)"
  have h: "unchanged m m' (base_ptr ?o) 24" by (rule unchanged_sub [OF assms]) simp_all
  note f = header_unchanged [OF h]
  have "pos_at m' ?o (map snd xs) i = pos_at m ?o (map snd xs) i" for i
    by (rule pos_at_same) (simp_all add: f)
  then show "chain_of m' F xs k = chain_of m F xs k" "next_pos m' F xs k pos = next_pos m F xs k pos"
    by (simp_all add: next_pos_def f)
qed


section \<open>Searching for a message\<close>

lemma reading_bound: "reading m F R rs xs ks \<Longrightarrow> r \<in> R \<Longrightarrow> ks r \<le> length xs"
  by (simp add: reading_def group_at_def reader_def)

lemma reading_count:
  assumes "reading m F R rs xs ks" and "r \<in> R"
  shows "q_count m (rs r) > 0 \<longleftrightarrow> ks r < length xs"
  using q_count_pos [OF group_at_member(4)] assms unfolding reading_def by (metis length_map)

lemma reading_count_upd:
  assumes "reading m F R (rs(r := q\<lparr>m_message_desc := d, m_head := v, m_counter := n\<rparr>)) xs ks" and "r \<in> R"
  shows "q_count m (q\<lparr>m_message_desc := d', m_head := v, m_counter := n\<rparr>) > 0 \<longleftrightarrow> ks r < length xs"
proof -
  have "q_count m (q\<lparr>m_message_desc := d, m_head := v, m_counter := n\<rparr>) > 0 \<longleftrightarrow> ks r < length xs"
    using reading_count [OF assms] by simp
  moreover have "q\<lparr>m_message_desc := d', m_head := v, m_counter := n\<rparr>
      = q\<lparr>m_message_desc := d, m_head := v, m_counter := n\<rparr>\<lparr>m_message_desc := d'\<rparr>" by simp
  ultimately show ?thesis by (simp only: desc_simps)
qed

text \<open>
  \<open>smart_get_message\<close> finds the next packet that is not to be skipped, and pops those before
  it; when there is none, it has read everything.
\<close>

lemma smart_seek:
  assumes "reading m F R rs xs ks" and "r \<in> R" and "ks r < length xs"
    and at: "atomic_spec (atomics E)"
  shows "\<exists>m' v n desc. smart_get_message E m ((rs r)\<lparr>m_message_desc := d\<rparr>)
      = returns (desc, m', (rs r)\<lparr>m_message_desc := d, m_head := v, m_counter := n\<rparr>)
    \<and> (\<forall>x. reading m' F R (rs(r := (rs r)\<lparr>m_message_desc := ([], x), m_head := v, m_counter := n\<rparr>))
        xs (ks(r := seek (get_sid E) xs (ks r))))
    \<and> unchanged m m' F 36
    \<and> (if seek (get_sid E) xs (ks r) < length xs
       then fst desc = chain_of m F xs (seek (get_sid E) xs (ks r))
         \<and> next_pos m F xs (seek (get_sid E) xs (ks r)) (snd desc)
       else desc = null_desc)"
  using assms(1-3)
proof (induction "length xs - ks r" arbitrary: m rs ks)
  case 0
  then show ?case by simp
next
  case (Suc l)
  let ?k = "ks r" and ?s = "get_sid E" and ?q = "(rs r)\<lparr>m_message_desc := d\<rparr>"
  note rd = Suc.prems(1) and r = Suc.prems(2) and k = Suc.prems(3)
  obtain pos where g: "static_get_message ?q m = returns (chain_of m F xs ?k, pos)"
    and pos: "next_pos m F xs ?k pos"
    by (rule reading_next [OF rd r k])
  note pk = reading_packet [OF rd k]
  have ne: "chain_of m F xs ?k \<noteq> []" by simp
  have mine: "msg_sid m (hd (chain_of m F xs ?k)) \<noteq> get_sid E
      \<and> msg_tag m (hd (chain_of m F xs ?k)) \<noteq> SERVICE_TAG \<longleftrightarrow> visible ?s (xs ! ?k)"
    by (simp only: pk visible_def)
  show ?case
  proof (cases "visible ?s (xs ! ?k)")
    case True
    have sk: "seek ?s xs ?k = ?k" by (rule seek_here [OF k True])
    have found: "smart_get_message E m ?q = returns ((chain_of m F xs ?k, pos), m, ?q)"
      by (subst smart_get_message.simps) (simp add: g ne mine True)
    show ?thesis
      by (rule exI [of _ m], rule exI [of _ "m_head (rs r)"], rule exI [of _ "m_counter (rs r)"],
          rule exI [of _ "(chain_of m F xs ?k, pos)"])
        (simp add: sk desc_same found k pos reading_forget [OF rd r])
  next
    case False
    have sk: "seek ?s xs ?k = seek ?s xs (Suc ?k)" by (rule seek_next [OF k False])
    obtain m1 v where p: "\<forall>d. shared_pop_message E m ((rs r)\<lparr>m_message_desc := d\<rparr>) (chain_of m F xs ?k, pos)
        = returns (m1, (rs r)\<lparr>m_message_desc := d, m_head := v, m_counter := m_counter (rs r) + 1\<rparr>)"
      "\<forall>x. reading m1 F R
        (rs(r := (rs r)\<lparr>m_message_desc := ([], x), m_head := v, m_counter := m_counter (rs r) + 1\<rparr>))
        xs (ks(r := Suc ?k))" "unchanged m m1 F 36"
      using reading_pop [OF rd r k at pos] by blast
    let ?q1 = "\<lambda>d. (rs r)\<lparr>m_message_desc := d, m_head := v, m_counter := m_counter (rs r) + 1\<rparr>"
    let ?rs = "rs(r := ?q1 ([], undefined))" and ?ks = "ks(r := Suc ?k)"
    have rd1: "reading m1 F R ?rs xs ?ks" using p(2) by blast
    have cnt: "q_count m1 (?q1 d) > 0 \<longleftrightarrow> Suc ?k < length xs"
      using reading_count_upd [OF rd1 r] by simp
    have step: "smart_get_message E m ?q = (if Suc ?k < length xs then smart_get_message E m1 (?q1 d)
        else returns (null_desc, m1, ?q1 d))"
      by (subst smart_get_message.simps) (simp add: g ne mine False p(1) cnt)
    show ?thesis
    proof (cases "Suc ?k < length xs")
      case True
      have l: "l = length xs - ?ks r" and lt: "?ks r < length xs" using Suc.hyps(2) True by simp_all
      obtain m' v' n desc where i: "smart_get_message E m1 ((?rs r)\<lparr>m_message_desc := d\<rparr>)
          = returns (desc, m', (?rs r)\<lparr>m_message_desc := d, m_head := v', m_counter := n\<rparr>)"
        "\<forall>x. reading m' F R (?rs(r := (?rs r)\<lparr>m_message_desc := ([], x), m_head := v', m_counter := n\<rparr>))
          xs (?ks(r := seek ?s xs (?ks r)))" "unchanged m1 m' F 36"
        "if seek ?s xs (?ks r) < length xs
         then fst desc = chain_of m1 F xs (seek ?s xs (?ks r)) \<and> next_pos m1 F xs (seek ?s xs (?ks r)) (snd desc)
         else desc = null_desc"
        using Suc.hyps(1) [OF l rd1 r lt] by blast
      have swap: "(?rs r)\<lparr>m_message_desc := d\<rparr> = ?q1 d" by (cases "rs r") simp
      note same = unchanged_trans [OF p(3) i(3)] and i1 = i(1) [unfolded swap]
        and i4 = i(4) [unfolded chain_of_same [OF p(3)] fun_upd_same, folded sk]
      show ?thesis
        by (rule exI [of _ m'], rule exI [of _ v'], rule exI [of _ n], rule exI [of _ desc])
          (use i(2) i4 same in \<open>simp add: step True i1 sk\<close>)
    next
      case over: False
      then have last: "Suc ?k = length xs" using k by simp
      show ?thesis
        by (rule exI [of _ m1], rule exI [of _ v], rule exI [of _ "m_counter (rs r) + 1"],
            rule exI [of _ null_desc])
          (use p(2,3) over sk last in \<open>simp add: step\<close>)
    qed
  qed
qed


section \<open>Leaving\<close>

definition farewell :: "sid_type \<Rightarrow> packet \<Rightarrow> bool" where
  "farewell s p \<longleftrightarrow> fst p = s \<and> fst (snd p) = SERVICE_TAG
     \<and> hd (snd (snd p)) = code_byte CODE_DISCONNECT"

text \<open>\<open>drain_loop\<close> pops everything up to the farewell of its own process, here the last packet.\<close>

lemma drains:
  assumes "reading m F R rs xs ks" and "r \<in> R" and "ks r < length xs"
    and "\<forall>i. ks r \<le> i \<and> Suc i < length xs \<longrightarrow> \<not> farewell (get_sid E) (xs ! i)"
    and at: "atomic_spec (atomics E)" and bye: "farewell (get_sid E) (last xs)"
  shows "\<exists>m' v n. drain_loop E m ((rs r)\<lparr>m_message_desc := d\<rparr>)
      = returns (m', (rs r)\<lparr>m_message_desc := d, m_head := v, m_counter := n\<rparr>)
    \<and> (\<forall>x. reading m' F R (rs(r := (rs r)\<lparr>m_message_desc := ([], x), m_head := v, m_counter := n\<rparr>))
        xs (ks(r := length xs)))
    \<and> unchanged m m' F 36"
  using assms(1-4)
proof (induction "length xs - ks r" arbitrary: m rs ks)
  case 0
  then show ?case by simp
next
  case (Suc l)
  let ?k = "ks r" and ?s = "get_sid E" and ?q = "(rs r)\<lparr>m_message_desc := d\<rparr>"
  note rd = Suc.prems(1) and r = Suc.prems(2) and k = Suc.prems(3)
  obtain pos where g: "static_get_message ?q m = returns (chain_of m F xs ?k, pos)"
    and pos: "next_pos m F xs ?k pos"
    by (rule reading_next [OF rd r k])
  note pk = reading_packet [OF rd k]
  have ne: "chain_of m F xs ?k \<noteq> []" by simp
  obtain m1 v where p: "\<forall>d. shared_pop_message E m ((rs r)\<lparr>m_message_desc := d\<rparr>) (chain_of m F xs ?k, pos)
      = returns (m1, (rs r)\<lparr>m_message_desc := d, m_head := v, m_counter := m_counter (rs r) + 1\<rparr>)"
    "\<forall>x. reading m1 F R
      (rs(r := (rs r)\<lparr>m_message_desc := ([], x), m_head := v, m_counter := m_counter (rs r) + 1\<rparr>))
      xs (ks(r := Suc ?k))" "unchanged m m1 F 36"
    using reading_pop [OF rd r k at pos] by blast
  let ?q1 = "\<lambda>d. (rs r)\<lparr>m_message_desc := d, m_head := v, m_counter := m_counter (rs r) + 1\<rparr>"
  have step: "drain_loop E m ?q = (if farewell ?s (xs ! ?k) then returns (m1, ?q1 d)
      else drain_loop E m1 (?q1 d))"
    by (subst drain_loop.simps) (simp add: g ne p(1) Let_def pk farewell_def)
  show ?case
  proof (cases "Suc ?k < length xs")
    case True
    let ?rs = "rs(r := ?q1 ([], undefined))" and ?ks = "ks(r := Suc ?k)"
    have rd1: "reading m1 F R ?rs xs ?ks" using p(2) by blast
    have l: "l = length xs - ?ks r" and lt: "?ks r < length xs" using Suc.hyps(2) True by simp_all
    have silent: "\<forall>i. ?ks r \<le> i \<and> Suc i < length xs \<longrightarrow> \<not> farewell ?s (xs ! i)"
      using Suc.prems(4) by simp
    have no: "\<not> farewell ?s (xs ! ?k)" using Suc.prems(4) True by simp
    obtain m' v' n where i: "drain_loop E m1 ((?rs r)\<lparr>m_message_desc := d\<rparr>)
        = returns (m', (?rs r)\<lparr>m_message_desc := d, m_head := v', m_counter := n\<rparr>)"
      "\<forall>x. reading m' F R (?rs(r := (?rs r)\<lparr>m_message_desc := ([], x), m_head := v', m_counter := n\<rparr>))
        xs (?ks(r := length xs))" "unchanged m1 m' F 36"
      using Suc.hyps(1) [OF l rd1 r lt silent] by blast
    have swap: "(?rs r)\<lparr>m_message_desc := d\<rparr> = ?q1 d" by (cases "rs r") simp
    note same = unchanged_trans [OF p(3) i(3)] and i1 = i(1) [unfolded swap]
    show ?thesis
      by (rule exI [of _ m'], rule exI [of _ v'], rule exI [of _ n])
        (use i(2) same in \<open>simp add: step no i1\<close>)
  next
    case False
    then have last: "Suc ?k = length xs" using k by simp
    then have "last xs = xs ! ?k" by (metis One_nat_def diff_Suc_1 last_conv_nth list.size(3) nat.simps(3))
    with bye have yes: "farewell ?s (xs ! ?k)" by simp
    show ?thesis
      by (rule exI [of _ m1], rule exI [of _ v], rule exI [of _ "m_counter (rs r) + 1"])
        (use p(2,3) last in \<open>simp add: step yes\<close>)
  qed
qed

section \<open>A subscriber reads\<close>

lemma smart_inv_reading:
  assumes "smart_inv m F sid rs c"
  shows "reading m F (sm_subs c) rs (sm_list c) (sm_at c)"
  using assms by (simp add: smart_inv_def reading_def group_inv_at)

lemma smart_inv_reads:
  assumes inv: "smart_inv m F sid rs c" and rd: "reading m' F (sm_subs c) rs' (sm_list c) at"
    and same: "unchanged m m' F 36"
    and sub: "\<And>r. r \<in> sm_subs c \<Longrightarrow> subscriber F (sid r) (sm_list c) (at r) (rs' r)"
  shows "smart_inv m' F sid rs' (c\<lparr>sm_at := at\<rparr>)"
proof -
  let ?o = "ring_object (F + 4)"
  have h: "unchanged m m' (base_ptr ?o) 24" by (rule unchanged_sub [OF same]) simp_all
  note f = header_unchanged [OF h]
  have "load32 m' F = load32 m F" "load32 m' (F + 4) = load32 m (F + 4)"
    by (rule load32_unchanged, rule unchanged_sub [OF same]; simp)+
  moreover have "sm_free (c\<lparr>sm_at := at\<rparr>) = sm_free c" by (simp add: sm_free_def)
  ultimately show ?thesis
    using inv rd f sub by (simp add: smart_inv_def reading_def group_inv_at)
qed

lemma subscriber_kept:
  assumes "subscriber F s xs k q" and "fst d \<noteq> [] \<Longrightarrow> j < length xs \<and> visible s (xs ! j)"
  shows "subscriber F s xs j (q\<lparr>m_message_desc := d, m_head := v, m_counter := n\<rparr>)"
  using assms by (simp add: subscriber_def smart_object_def)

text \<open>What a search leaves, with the description of what it has found.\<close>

lemma smart_found:
  assumes inv: "smart_inv m F sid rs c" and r: "r \<in> sm_subs c"
    and rd: "\<forall>x. reading m' F (sm_subs c)
        (rs(r := (rs r)\<lparr>m_message_desc := ([], x), m_head := v, m_counter := n\<rparr>)) (sm_list c) ((sm_at c)(r := j))"
    and same: "unchanged m m' F 36"
    and desc: "if j < length (sm_list c)
       then fst desc = chain_of m F (sm_list c) j \<and> next_pos m F (sm_list c) j (snd desc)
       else desc = null_desc"
    and vis: "j < length (sm_list c) \<Longrightarrow> visible (sid r) (sm_list c ! j)"
  shows "reading m' F (sm_subs c)
      (rs(r := (rs r)\<lparr>m_message_desc := desc, m_head := v, m_counter := n\<rparr>)) (sm_list c) ((sm_at c)(r := j))"
    "smart_inv m' F sid (rs(r := (rs r)\<lparr>m_message_desc := desc, m_head := v, m_counter := n\<rparr>))
      (c\<lparr>sm_at := (sm_at c)(r := j)\<rparr>)"
    "read_message m' (fst desc) = first_of (map snd (drop j (sm_list c)))"
proof -
  let ?xs = "sm_list c" and ?q = "\<lambda>d. (rs r)\<lparr>m_message_desc := d, m_head := v, m_counter := n\<rparr>"
  let ?at = "(sm_at c)(r := j)"
  have rd0: "reading m' F (sm_subs c) (rs(r := ?q ([], 0))) ?xs ?at" using rd by blast
  show rd1: "reading m' F (sm_subs c) (rs(r := ?q desc)) ?xs ?at"
  proof (cases "j < length ?xs")
    case True
    then have "next_pos m' F ?xs j (snd desc)" using desc by (simp add: chain_of_same [OF same])
    then have "reading m' F (sm_subs c) (rs(r := ?q (chain_of m' F ?xs j, snd desc))) ?xs ?at"
      using reading_cache [OF rd0 r] True by simp
    moreover have "(chain_of m' F ?xs j, snd desc) = desc"
      using desc True by (simp add: chain_of_same [OF same] prod_eq_iff)
    ultimately show ?thesis by (simp only:)
  next
    case False
    then have "desc = ([], snd desc)" using desc by (simp add: null_desc_def)
    with rd show ?thesis by metis
  qed
  have "subscriber F (sid r') ?xs (?at r') ((rs(r := ?q desc)) r')" if r': "r' \<in> sm_subs c" for r'
  proof (cases "r' = r")
    case True
    have "subscriber F (sid r) ?xs (sm_at c r) (rs r)" using inv r by (simp add: smart_inv_def)
    then have "subscriber F (sid r) ?xs j (?q desc)"
      by (rule subscriber_kept) (use desc vis in \<open>auto simp: null_desc_def split: if_splits\<close>)
    with True show ?thesis by simp
  next
    case False
    with inv r' show ?thesis by (simp add: smart_inv_def)
  qed
  then show "smart_inv m' F sid (rs(r := ?q desc)) (c\<lparr>sm_at := ?at\<rparr>)"
    by (rule smart_inv_reads [OF inv rd1 same])
  show "read_message m' (fst desc) = first_of (map snd (drop j ?xs))"
  proof (cases "j < length ?xs")
    case True
    have "read_message m' (chain_of m' F ?xs j) = Some (snd (?xs ! j))"
      using reading_packet(4) [OF rd1 True] .
    then show ?thesis using desc True
      by (simp add: chain_of_same [OF same] first_of_def Cons_nth_drop_Suc [symmetric])
  next
    case False
    then show ?thesis using desc by (simp add: null_desc_def read_message_def first_of_def)
  qed
qed

lemma first_unread: "first_of (map snd (filter (visible s) (drop k xs)))
    = first_of (map snd (drop (seek s xs k) xs))"
proof (cases "seek s xs k < length xs")
  case True
  then show ?thesis
    by (simp add: filter_seek_Cons first_of_def Cons_nth_drop_Suc [symmetric])
next
  case False
  then have "filter (visible s) (drop k xs) = []" using seek_found(1) by blast
  with False show ?thesis by simp
qed

lemma smart_gets:
  assumes inv: "smart_inv m F sid rs c" and r: "r \<in> sm_subs c" and at: "atomic_spec (atomics E)"
    and sid: "get_sid E = sid r"
  shows "\<exists>chain m' q'. get E m (rs r) = returns (chain, m', q')
    \<and> smart_inv m' F sid (rs(r := q'))
        (c\<lparr>sm_at := (sm_at c)(r := seek (sid r) (sm_list c) (sm_at c r))\<rparr>)
    \<and> read_message m' chain = first_of (sm_unread (sid r) r c)"
proof -
  let ?xs = "sm_list c" and ?k = "sm_at c r" and ?j = "seek (sid r) (sm_list c) (sm_at c r)"
  have rd: "reading m F (sm_subs c) rs ?xs (sm_at c)" by (rule smart_inv_reading [OF inv])
  have cls: "class_of (rs r) = Smart_shared_queue"
    using inv r by (simp add: smart_inv_def subscriber_def smart_object_def)
  note cnt = reading_count [OF rd r]
  show ?thesis
  proof (cases "?k < length ?xs")
    case False
    then have e: "?k = length ?xs" using reading_bound [OF rd r] by simp
    then have "sm_unread (sid r) r c = []" "?j = ?k" by (simp_all add: sm_unread_def)
    moreover have "get E m (rs r) = returns ([], m, rs r)" using cnt False by (simp add: get_def)
    moreover have "c\<lparr>sm_at := (sm_at c)(r := ?k)\<rparr> = c" by (simp add: fun_upd_triv)
    ultimately show ?thesis using inv
      by (intro exI [of _ "[]"] exI [of _ m] exI [of _ "rs r"])
        (simp add: fun_upd_triv read_message_def first_of_def)
  next
    case True
    obtain m' v n desc where s: "smart_get_message E m ((rs r)\<lparr>m_message_desc := m_message_desc (rs r)\<rparr>)
        = returns (desc, m', (rs r)\<lparr>m_message_desc := m_message_desc (rs r), m_head := v, m_counter := n\<rparr>)"
      "\<forall>x. reading m' F (sm_subs c)
        (rs(r := (rs r)\<lparr>m_message_desc := ([], x), m_head := v, m_counter := n\<rparr>)) ?xs ((sm_at c)(r := ?j))"
      "unchanged m m' F 36"
      "if ?j < length ?xs then fst desc = chain_of m F ?xs ?j \<and> next_pos m F ?xs ?j (snd desc)
       else desc = null_desc"
      using smart_seek [OF rd r True at, of "m_message_desc (rs r)"] unfolding sid by blast
    note found = smart_found [OF inv r s(2-4) seek_found(2)]
    have "get E m (rs r) = returns (fst desc, m', (rs r)\<lparr>m_message_desc := desc, m_head := v, m_counter := n\<rparr>)"
      using s(1) cnt True by (simp add: get_def get_message_def cls desc_same)
    moreover have "read_message m' (fst desc) = first_of (sm_unread (sid r) r c)"
      unfolding sm_unread_def first_unread using found(3) by simp
    ultimately show ?thesis using found(2) by blast
  qed
qed


text \<open>A pop takes the packet whose description the object keeps, or searches for one first.\<close>

lemma smart_pop_cached:
  assumes inv: "smart_inv m F sid rs c" and r: "r \<in> sm_subs c" and at: "atomic_spec (atomics E)"
    and cached: "fst (m_message_desc (rs r)) \<noteq> []"
  shows "\<exists>m' q'. shared_pop_message E m (rs r) (m_message_desc (rs r)) = returns (m', q')
    \<and> smart_inv m' F sid (rs(r := q'\<lparr>m_message_desc := ([], snd (m_message_desc q'))\<rparr>))
        (c\<lparr>sm_at := (sm_at c)(r := Suc (sm_at c r))\<rparr>)"
proof -
  let ?xs = "sm_list c" and ?k = "sm_at c r" and ?d = "m_message_desc (rs r)"
  have rd: "reading m F (sm_subs c) rs ?xs (sm_at c)" by (rule smart_inv_reading [OF inv])
  then have g: "group_at m (F + 4) (sm_subs c) rs (map snd ?xs) (sm_at c)" by (simp add: reading_def)
  note d = group_cached [OF g r cached]
  have k: "?k < length ?xs" using d(1) by simp
  have pos: "next_pos m F ?xs ?k (snd ?d)" using d(3) by (simp add: next_pos_def)
  have "fst ?d = chain_of m F ?xs ?k"
    using d(2) k by (simp add: chain_base [OF group_at_member(1) [OF g r]])
  then have desc: "(chain_of m F ?xs ?k, snd ?d) = ?d" by (simp add: prod_eq_iff)
  obtain m' v where p: "\<forall>d. shared_pop_message E m ((rs r)\<lparr>m_message_desc := d\<rparr>) (chain_of m F ?xs ?k, snd ?d)
      = returns (m', (rs r)\<lparr>m_message_desc := d, m_head := v, m_counter := m_counter (rs r) + 1\<rparr>)"
    "\<forall>x. reading m' F (sm_subs c)
        (rs(r := (rs r)\<lparr>m_message_desc := ([], x), m_head := v, m_counter := m_counter (rs r) + 1\<rparr>))
        ?xs ((sm_at c)(r := Suc ?k))" "unchanged m m' F 36"
    using reading_pop [OF rd r k at pos] by blast
  let ?q = "\<lambda>d. (rs r)\<lparr>m_message_desc := d, m_head := v, m_counter := m_counter (rs r) + 1\<rparr>"
  have "shared_pop_message E m (rs r) ?d = returns (m', ?q ?d)"
    using p(1) [rule_format, of ?d] by (simp only: desc desc_same(2))
  moreover have "smart_inv m' F sid (rs(r := ?q ([], snd ?d))) (c\<lparr>sm_at := (sm_at c)(r := Suc ?k)\<rparr>)"
  proof (rule smart_inv_reads [OF inv _ p(3)])
    show "reading m' F (sm_subs c) (rs(r := ?q ([], snd ?d))) ?xs ((sm_at c)(r := Suc ?k))"
      using p(2) by blast
    fix r' assume r': "r' \<in> sm_subs c"
    have s: "subscriber F (sid r') ?xs (sm_at c r') (rs r')" using inv r' by (simp add: smart_inv_def)
    then show "subscriber F (sid r') ?xs (((sm_at c)(r := Suc ?k)) r') ((rs(r := ?q ([], snd ?d))) r')"
      by (cases "r' = r") (auto intro: subscriber_kept [where d = "([], x)" for x])
  qed
  ultimately show ?thesis by simp
qed

lemma smart_pops:
  assumes inv: "smart_inv m F sid rs c" and r: "r \<in> sm_subs c" and at: "atomic_spec (atomics E)"
    and sid: "get_sid E = sid r" and some: "sm_unread (sid r) r c \<noteq> []"
  shows "\<exists>m' q'. pop E m (rs r) = returns (True, m', q')
    \<and> smart_inv m' F sid (rs(r := q'))
        (c\<lparr>sm_at := (sm_at c)(r := Suc (seek (sid r) (sm_list c) (sm_at c r)))\<rparr>)"
proof -
  let ?xs = "sm_list c" and ?k = "sm_at c r" and ?j = "seek (sid r) (sm_list c) (sm_at c r)"
  have rd: "reading m F (sm_subs c) rs ?xs (sm_at c)" by (rule smart_inv_reading [OF inv])
  have sub: "subscriber F (sid r) ?xs ?k (rs r)" using inv r by (simp add: smart_inv_def)
  then have cls: "class_of (rs r) = Smart_shared_queue" by (simp add: subscriber_def smart_object_def)
  have j: "?j < length ?xs" using some by (simp add: sm_unread_def seek_found(1))
  have k: "?k < length ?xs" using some reading_bound [OF rd r] by (cases "?k < length ?xs") (auto simp: sm_unread_def)
  have cnt: "q_count m (rs r) > 0" using reading_count [OF rd r] k by simp
  obtain m1 q1 where found: "(if fst (m_message_desc (rs r)) = [] then
             and_then (get_message E m (rs r)) (\<lambda>(desc, m1, q1).
               returns (m1, q1\<lparr>m_message_desc := desc\<rparr>))
           else returns (m, rs r)) = returns (m1, q1)"
    and inv1: "smart_inv m1 F sid (rs(r := q1)) (c\<lparr>sm_at := (sm_at c)(r := ?j)\<rparr>)"
    and cached: "fst (m_message_desc q1) \<noteq> []" and cls1: "class_of q1 = Smart_shared_queue"
  proof (cases "fst (m_message_desc (rs r)) = []")
    case True
    obtain m' v n desc where s: "smart_get_message E m ((rs r)\<lparr>m_message_desc := m_message_desc (rs r)\<rparr>)
        = returns (desc, m', (rs r)\<lparr>m_message_desc := m_message_desc (rs r), m_head := v, m_counter := n\<rparr>)"
      "\<forall>x. reading m' F (sm_subs c)
        (rs(r := (rs r)\<lparr>m_message_desc := ([], x), m_head := v, m_counter := n\<rparr>)) ?xs ((sm_at c)(r := ?j))"
      "unchanged m m' F 36"
      "if ?j < length ?xs then fst desc = chain_of m F ?xs ?j \<and> next_pos m F ?xs ?j (snd desc)
       else desc = null_desc"
      using smart_seek [OF rd r k at, of "m_message_desc (rs r)"] unfolding sid by blast
    note i = smart_found(2) [OF inv r s(2-4) seek_found(2)]
    show thesis
      by (rule that [OF _ i]) (use s(1,4) j True cls in \<open>simp_all add: get_message_def desc_same\<close>)
  next
    case False
    then have "visible (sid r) (?xs ! ?k)" using sub by (simp add: subscriber_def)
    then have "?j = ?k" by (rule seek_here [OF k])
    then have "rs(r := rs r) = rs" "c\<lparr>sm_at := (sm_at c)(r := ?j)\<rparr> = c" by (simp_all add: fun_upd_triv)
    then show thesis using that [of m "rs r"] inv False cls by simp
  qed
  have r1: "r \<in> sm_subs (c\<lparr>sm_at := (sm_at c)(r := ?j)\<rparr>)" using r by simp
  obtain m' q' where p: "shared_pop_message E m1 q1 (m_message_desc q1) = returns (m', q')"
    "smart_inv m' F sid (rs(r := q'\<lparr>m_message_desc := ([], snd (m_message_desc q'))\<rparr>))
        (c\<lparr>sm_at := (sm_at c)(r := Suc ?j)\<rparr>)"
    using smart_pop_cached [OF inv1 r1 at] cached by auto
  have "pop E m (rs r) = returns (True, m', q'\<lparr>m_message_desc := ([], snd (m_message_desc q'))\<rparr>)"
    using cnt p(1) by (simp add: pop_def found pop_message_def cls1)
  with p(2) show ?thesis by blast
qed

lemma smart_pops_nothing:
  assumes inv: "smart_inv m F sid rs c" and r: "r \<in> sm_subs c" and "length (sm_list c) \<le> sm_at c r"
  shows "pop E m (rs r) = returns (False, m, rs r)"
proof -
  have rd: "reading m F (sm_subs c) rs (sm_list c) (sm_at c)" by (rule smart_inv_reading [OF inv])
  show ?thesis using reading_count [OF rd r] assms(3) by (simp add: pop_def)
qed

text \<open>When all that is unread is to be skipped, a pop without a get dereferences no message.\<close>

lemma smart_pop_fails:
  assumes inv: "smart_inv m F sid rs c" and r: "r \<in> sm_subs c" and at: "atomic_spec (atomics E)"
    and sid: "get_sid E = sid r" and none: "sm_unread (sid r) r c = []" and k: "sm_at c r < length (sm_list c)"
  shows "pop E m (rs r) = crashes Null_pointer"
proof -
  let ?xs = "sm_list c" and ?k = "sm_at c r" and ?j = "seek (sid r) (sm_list c) (sm_at c r)"
  have rd: "reading m F (sm_subs c) rs ?xs (sm_at c)" by (rule smart_inv_reading [OF inv])
  have sub: "subscriber F (sid r) ?xs ?k (rs r)" using inv r by (simp add: smart_inv_def)
  then have cls: "class_of (rs r) = Smart_shared_queue" by (simp add: subscriber_def smart_object_def)
  have j: "\<not> ?j < length ?xs" using none by (simp add: sm_unread_def seek_found(1))
  have "\<not> visible (sid r) (?xs ! ?k)" using j seek_here [OF k] k by auto
  then have nil: "fst (m_message_desc (rs r)) = []" using sub by (auto simp: subscriber_def)
  have cnt: "q_count m (rs r) > 0" using reading_count [OF rd r] k by simp
  obtain m' v n desc where s: "smart_get_message E m ((rs r)\<lparr>m_message_desc := m_message_desc (rs r)\<rparr>)
      = returns (desc, m', (rs r)\<lparr>m_message_desc := m_message_desc (rs r), m_head := v, m_counter := n\<rparr>)"
    "if ?j < length ?xs then fst desc = chain_of m F ?xs ?j \<and> next_pos m F ?xs ?j (snd desc)
     else desc = null_desc"
    using smart_seek [OF rd r k at, of "m_message_desc (rs r)"] unfolding sid by blast
  have "get_message E m (rs r) = returns (null_desc, m',
      (rs r)\<lparr>m_message_desc := m_message_desc (rs r), m_head := v, m_counter := n\<rparr>)"
    using s j by (simp add: get_message_def cls desc_same)
  then show ?thesis using cnt nil
    by (simp add: pop_def pop_message_def cls shared_pop_message_def null_desc_def)
qed

end
