(* ===== verification/Smart_Contract.thy ===== *)
theory Smart_Contract
  imports Smart_Reader Simulation
begin

text \<open>
  \<open>smart_shared_queue\<close>: joining and leaving, the refinement of the abstract queue by the code
  through the interface \<open>simulation\<close>, and the properties.
\<close>

section \<open>Joining\<close>

lemma smart_inv_extend:
  assumes inv: "smart_inv m F sid rs c" and new: "r \<notin> sm_subs c" and few: "card (sm_subs c) + 1 < 4294967296"
    and w: "only_changes m m' {F + 4..<F + 8}" and one: "load32 m' (F + 4) = load32 m (F + 4) + 1"
    and q: "smart_object F q" "m_state q = ST_UNKNOWN" "m_message_desc q = null_desc"
      "unat (m_head q) = sm_tail c" "m_counter q = load32 m (F + 8)"
  shows "smart_inv m' F sid (rs(r := q))
    (c\<lparr>sm_subs := insert r (sm_subs c), sm_at := (sm_at c)(r := length (sm_list c))\<rparr>)"
proof -
  let ?o = "ring_object (F + 4)" and ?R = "insert r (sm_subs c)" and ?xs = "sm_msgs c"
  let ?at = "(sm_at c)(r := length (sm_list c))" and ?rs = "rs(r := q)"
  have inv': "group_inv m (F + 4) (sm_subs c) rs ?xs (sm_at c)" "packets m F (sm_list c)"
    "\<And>r. r \<in> sm_subs c \<Longrightarrow> subscriber F (sid r) (sm_list c) (sm_at c r) (rs r)"
    "cap_of m ?o = sm_cap c" "head_of m ?o = sm_pos c" "keepalive_timeout m ?o = 0"
    "unat (load32 m F) = sm_free c"
    using inv by (simp_all add: smart_inv_def)
  have gat: "group_at m (F + 4) (sm_subs c) rs ?xs (sm_at c)" using inv'(1) by (simp add: group_inv_at)
  have g: "group_at m' (F + 4) (sm_subs c) rs ?xs (sm_at c)"
    by (rule group_at_frame [OF gat w]) auto
  have rs: "ring_state m' ?o ?xs" and fin: "finite (sm_subs c)" using g by (simp_all add: group_at_def)
  have hdr: "unchanged m m' (base_ptr ?o) 24" by (rule only_changes_unchanged [OF w]) auto
  note f = header_unchanged [OF hdr]
  have keep: "load32 m' F = load32 m F" "load32 m' (F + 8) = load32 m (F + 8)"
    by (rule load32_unchanged, rule only_changes_unchanged [OF w]; auto)+
  have b: "base_ptr q = base_ptr ?o" using smart_objectD(1) [OF q(1)] by (rule on_ringD)
  have tail: "pos_at m' q ?xs (length ?xs) = sm_tail c"
    unfolding at_cong [OF b] using f inv'(4,5) by (simp add: pos_at_def sm_tail_def)
  have "sm_tail c < sm_cap c" using smart_inv_ring(2) [OF inv] by (simp add: sm_tail_def)
  then have "m_head q \<noteq> - 1"
    using smart_inv_ring(4) [OF inv] q(4) m_head_not_unset [of "m_head q" "sm_cap c"] by simp
  moreover have "s_counter m' q = m_counter q"
    using q(5) keep(2) smart_objectD(4) [OF q(1)] by (simp add: s_counter_def add.commute)
  ultimately have rd: "reader m' q ?xs (length ?xs)"
    using q tail smart_objectD(2) [OF q(1)] by (simp add: reader_def null_desc_def)
  have counts: "{r' \<in> ?R. ?at r' \<le> i} = {r' \<in> sm_subs c. sm_at c r' \<le> i}" if "i < length ?xs" for i
    using that new by auto
  have "group_at m' (F + 4) ?R ?rs ?xs ?at"
    unfolding group_at_def
  proof (intro conjI ballI allI impI)
    fix r' assume r': "r' \<in> ?R"
    then consider "r' = r" | "r' \<noteq> r" "r' \<in> sm_subs c" by auto
    note cs = this
    show "base_ptr (?rs r') = F + 4 + 8"
      using cs g smart_objectD(5) [OF q(1)] by cases (auto simp: group_at_def)
    show "shared_ptr (?rs r') = F + 4"
      using cs g smart_objectD(4) [OF q(1)] by cases (auto simp: group_at_def)
    show "reader m' (?rs r') ?xs (?at r')"
      using cs g rd by cases (auto simp: group_at_def)
  next
    fix i assume i: "i < length ?xs"
    show "unat (counter_at m' ?o ?xs i) = card {r' \<in> ?R. ?at r' \<le> i}"
      using g i unfolding counts [OF i] by (simp add: group_at_def)
  qed (use rs fin in simp_all)
  moreover have "load32 m' (F + 4) = of_nat (card ?R)"
    using inv'(1) new fin one by (simp add: group_inv_def)
  moreover have "card ?R < 4294967296" using few new fin by simp
  ultimately have "group_inv m' (F + 4) ?R ?rs ?xs ?at" by (simp add: group_inv_at)
  moreover have "packets m' F (sm_list c)"
    by (rule packets_frame [OF inv'(2) _ w]) (use inv'(1) in \<open>auto simp: group_inv_def\<close>)
  moreover have "subscriber F (sid r') (sm_list c) (?at r') (?rs r')" if "r' \<in> ?R" for r'
    using that inv'(3) q by (cases "r' = r") (auto simp: subscriber_def null_desc_def)
  ultimately show ?thesis
    using f inv'(4-7) keep(1) by (simp add: smart_inv_def sm_free_def)
qed

lemma smart_initializes:
  assumes inv: "smart_inv (mem w) F sid rs c" and new: "r \<notin> sm_subs c"
    and few: "card (sm_subs c) + 1 < 4294967296" and E: "env_ok E"
    and q: "smart_object F q" "m_state q = ST_UNKNOWN" "m_message_desc q = null_desc"
    and full: "s_counter (mem w) q - m_counter q \<noteq> - 1"
    and spec: "sm_service (get_sid E) CODE_CONNECT c = Some c1"
  shows "\<exists>w' q'. initialize E w q = returns (w', q') \<and> smart_inv (mem w') F sid (rs(r := q'))
    (c1\<lparr>sm_subs := insert r (sm_subs c1), sm_at := (sm_at c1)(r := length (sm_list c1))\<rparr>)"
proof -
  let ?o = "ring_object (F + 4)"
  have at: "atomic_spec (atomics E)" using E by (simp add: env_ok_def)
  obtain w1 where p: "push_service_message E w q CODE_CONNECT = returns (w1, q)"
    "smart_inv (mem w1) F sid rs c1"
    using smart_pushes_service [OF inv q(1) E full spec] by blast
  let ?m' = "store32 (mem w1) (F + 4) (load32 (mem w1) (F + 4) + 1)"
  let ?q = "q\<lparr>m_head := q_tail (mem w1) q, m_counter := s_counter (mem w1) q\<rparr>"
  note on = smart_objectD [OF q(1)]
  have init: "initialize E w q = returns (w1\<lparr>mem := ?m'\<rparr>, ?q)"
    using p(1) on(4) by (simp add: initialize_def inc_subscriptions_count_def atomic_specD [OF at])
  have subs: "sm_subs c1 = sm_subs c"
    using spec by (auto simp: sm_service_def Let_def split: if_splits)
  have "tail_of (mem w1) q = sm_tail c1"
    using smart_inv_ring(3) [OF p(2)] by (simp add: base_ptr_cong [OF on_ringD(1) [OF on(1)]])
  then have t: "unat (m_head ?q) = sm_tail c1" by simp
  have s: "m_counter ?q = load32 (mem w1) (F + 8)" using on(4) by (simp add: s_counter_def add.commute)
  have "smart_inv ?m' F sid (rs(r := ?q))
    (c1\<lparr>sm_subs := insert r (sm_subs c1), sm_at := (sm_at c1)(r := length (sm_list c1))\<rparr>)"
    by (rule smart_inv_extend [OF p(2) _ _ _ _ _ _ _ t s])
      (use new few q subs in \<open>simp_all add: only_changes_store32\<close>)
  with init show ?thesis by (intro exI conjI) (assumption, simp)
qed

lemma smart_joins:
  assumes inv: "smart_inv (mem w) F sid rs c" and new: "r \<notin> sm_subs c"
    and few: "card (sm_subs c) + 1 < 4294967296" and E: "env_ok E"
    and spec: "sm_service (get_sid E) CODE_CONNECT c = Some c1"
  shows "\<exists>w' q'. smart_open E w F = returns (w', q') \<and> smart_inv (mem w') F sid (rs(r := q'))
    (c1\<lparr>sm_subs := insert r (sm_subs c1), sm_at := (sm_at c1)(r := length (sm_list c1))\<rparr>)"
proof -
  let ?q = "base_shared_open Smart_shared_queue (mem w) (F + F_HEADER_SIZE) F"
  have q: "smart_object F ?q" "m_state ?q = ST_UNKNOWN" "m_message_desc ?q = null_desc"
    "s_counter (mem w) ?q - m_counter ?q = 0"
    by (simp_all add: base_shared_open_def fresh_object_def smart_object_def Let_def s_counter_def)
  have "s_counter (mem w) ?q - m_counter ?q \<noteq> - 1" by (simp add: q(4))
  from smart_initializes [OF inv new few E q(1-3) this spec] show ?thesis
    by (simp add: smart_open_def)
qed


section \<open>Leaving\<close>

lemma smart_inv_remove:
  assumes inv: "smart_inv m F sid rs c" and r: "r \<in> sm_subs c"
    and rd: "reading m' F (sm_subs c) rs' (sm_list c) ((sm_at c)(r := length (sm_list c)))"
    and others: "\<And>r'. r' \<noteq> r \<Longrightarrow> rs' r' = rs r'"
    and hdr: "unchanged m m' (F + 8) 28" "load32 m' F = load32 m F"
    and one: "load32 m' (F + 4) = load32 m (F + 4) - 1"
  shows "smart_inv m' F sid rs' (c\<lparr>sm_subs := sm_subs c - {r}\<rparr>)"
proof -
  let ?o = "ring_object (F + 4)" and ?R = "sm_subs c - {r}" and ?xs = "sm_msgs c"
  let ?at = "(sm_at c)(r := length (sm_list c))"
  have h: "unchanged m m' (base_ptr ?o) 24" by (rule unchanged_sub [OF hdr(1)]) simp_all
  note f = header_unchanged [OF h]
  have g: "group_at m' (F + 4) (sm_subs c) rs' ?xs ?at" and pk: "packets m' F (sm_list c)"
    using rd by (simp_all add: reading_def)
  have fin: "finite (sm_subs c)" using g by (simp add: group_at_def)
  have counts: "{r' \<in> ?R. sm_at c r' \<le> i} = {r' \<in> sm_subs c. ?at r' \<le> i}" if "i < length ?xs" for i
    using that by auto
  have "group_at m' (F + 4) ?R rs' ?xs (sm_at c)"
    unfolding group_at_def
  proof (intro conjI ballI allI impI)
    fix r' assume "r' \<in> ?R"
    then have r': "r' \<in> sm_subs c" "?at r' = sm_at c r'" by simp_all
    show "base_ptr (rs' r') = F + 4 + 8" "shared_ptr (rs' r') = F + 4" "reader m' (rs' r') ?xs (sm_at c r')"
      using g r'(1) unfolding group_at_def r'(2) [symmetric] by blast+
  next
    fix i assume i: "i < length ?xs"
    show "unat (counter_at m' ?o ?xs i) = card {r' \<in> ?R. sm_at c r' \<le> i}"
      unfolding counts [OF i] using g i by (simp add: group_at_def)
  qed (use g in \<open>simp_all add: group_at_def\<close>)
  moreover have "card ?R < 4294967296" "load32 m' (F + 4) = of_nat (card ?R)"
  proof -
    have c: "card (sm_subs c) < 4294967296" "load32 m (F + 4) = of_nat (card (sm_subs c))"
      using inv by (simp_all add: smart_inv_def group_inv_def)
    have "card (sm_subs c) = Suc (card ?R)" using r fin by (simp only: card.remove)
    then show "card ?R < 4294967296" "load32 m' (F + 4) = of_nat (card ?R)"
      using c one by simp_all
  qed
  ultimately have "group_inv m' (F + 4) ?R rs' ?xs (sm_at c)" by (simp add: group_inv_at)
  moreover have "subscriber F (sid r') (sm_list c) (sm_at c r') (rs' r')" if "r' \<in> ?R" for r'
    using that inv others by (simp add: smart_inv_def)
  ultimately show ?thesis using f inv pk hdr(2) by (simp add: smart_inv_def sm_free_def)
qed

text \<open>The packets that a process has not read contain no farewell of an earlier life of it.\<close>

definition quiet :: "(nat \<Rightarrow> sid_type) \<Rightarrow> smart \<Rightarrow> bool" where
  "quiet sid c \<longleftrightarrow>
     (\<forall>r \<in> sm_subs c. \<forall>p \<in> set (drop (sm_at c r) (sm_list c)). \<not> farewell (sid r) p)"

lemma smart_inv_others:
  assumes inv: "smart_inv m F sid rs c" and same: "\<And>r. r \<in> sm_subs c \<Longrightarrow> rs' r = rs r"
  shows "smart_inv m F sid rs' c"
  using assms by (simp add: smart_inv_def group_inv_def)

lemma smart_leaves:
  assumes inv: "smart_inv (mem w) F sid rs c" and r: "r \<in> sm_subs c" and E: "env_ok E"
    and sid: "get_sid E = sid r" and quiet: "quiet sid c"
    and spec: "sm_service (sid r) CODE_DISCONNECT c = Some c1"
  shows "\<exists>w' q'. smart_destroy E w (rs r) = returns (w', q')
    \<and> smart_inv (mem w') F sid (rs(r := q')) (c1\<lparr>sm_subs := sm_subs c1 - {r}\<rparr>)"
proof -
  let ?d = "m_message_desc (rs r)" and ?p = "(sid r, SERVICE_TAG, [code_byte CODE_DISCONNECT])"
  have at: "atomic_spec (atomics E)" using E by (simp add: env_ok_def)
  have g: "group_inv (mem w) (F + 4) (sm_subs c) rs (sm_msgs c) (sm_at c)"
    and q: "smart_object F (rs r)"
    using inv r by (simp_all add: smart_inv_def subscriber_def)
  have c1: "c1 = sm_add ?p (sm_clean c)"
    using spec by (auto simp: sm_service_def Let_def split: if_splits)
  have r1: "r \<in> sm_subs c1" using r by (simp add: c1)
  obtain w1 where p: "push_service_message E w (rs r) CODE_DISCONNECT = returns (w1, rs r)"
    "smart_inv (mem w1) F sid rs c1"
    using smart_pushes_service [OF inv q E member_not_full [OF g r], of CODE_DISCONNECT c1] spec sid by auto
  let ?m2 = "store32 (mem w1) (F + 4) (load32 (mem w1) (F + 4) - 1)"
  have w2: "only_changes (mem w1) ?m2 {F + 4..<F + 8}" by (simp add: only_changes_store32)
  have dec: "snd (dec_subscriptions_count E (mem w1) (rs r)) = ?m2"
    using smart_objectD(4) [OF q] by (simp add: dec_subscriptions_count_def atomic_specD [OF at])
  have rd1: "reading (mem w1) F (sm_subs c1) rs (sm_list c1) (sm_at c1)"
    by (rule smart_inv_reading [OF p(2)])
  have rd2: "reading ?m2 F (sm_subs c1) rs (sm_list c1) (sm_at c1)"
    unfolding reading_def
  proof
    show "group_at ?m2 (F + 4) (sm_subs c1) rs (sm_msgs c1) (sm_at c1)"
      by (rule group_at_frame [OF _ w2]) (use rd1 in \<open>auto simp: reading_def\<close>)
    show "packets ?m2 F (sm_list c1)"
      by (rule packets_frame [OF _ smart_inv_ring(1) [OF p(2)] w2]) (use rd1 in \<open>auto simp: reading_def\<close>)
  qed
  have low: "sm_lowest c \<le> sm_at c r" "sm_at c r \<le> length (sm_list c)"
    using sm_lowest_le [OF smart_inv_ok [OF inv] r] smart_inv_ok [OF inv] r by (auto simp: sm_ok_def)
  have k: "sm_at c1 r < length (sm_list c1)" using low by (simp add: c1)
  have silent: "\<forall>i. sm_at c1 r \<le> i \<and> Suc i < length (sm_list c1) \<longrightarrow> \<not> farewell (get_sid E) (sm_list c1 ! i)"
  proof (intro allI impI)
    fix i assume i: "sm_at c1 r \<le> i \<and> Suc i < length (sm_list c1)"
    let ?i = "sm_lowest c + i"
    have lt: "?i < length (sm_list c)" "sm_at c r \<le> ?i" using i low unfolding c1 by auto
    have "sm_list c ! ?i \<in> set (drop (sm_at c r) (sm_list c))"
      using lt by (auto simp: in_set_conv_nth intro!: exI [of _ "?i - sm_at c r"])
    moreover have "sm_list c1 ! i = sm_list c ! ?i" using lt i by (simp add: c1 nth_append)
    ultimately show "\<not> farewell (get_sid E) (sm_list c1 ! i)"
      using quiet r sid by (simp add: quiet_def)
  qed
  have bye: "farewell (get_sid E) (last (sm_list c1))" by (simp add: c1 farewell_def sid)
  obtain m' v n where d: "drain_loop E ?m2 ((rs r)\<lparr>m_message_desc := ?d\<rparr>)
      = returns (m', (rs r)\<lparr>m_message_desc := ?d, m_head := v, m_counter := n\<rparr>)"
    "\<forall>x. reading m' F (sm_subs c1) (rs(r := (rs r)\<lparr>m_message_desc := ([], x), m_head := v, m_counter := n\<rparr>))
        (sm_list c1) ((sm_at c1)(r := length (sm_list c1)))"
    "unchanged ?m2 m' F 36"
    using drains [OF rd2 r1 k silent at bye, of ?d] by blast
  let ?q = "\<lambda>d. (rs r)\<lparr>m_message_desc := d, m_head := v, m_counter := n\<rparr>"
  have destroy: "smart_destroy E w (rs r) = returns (w1\<lparr>mem := m'\<rparr>, ?q ?d)"
    using p(1) d(1) by (simp add: smart_destroy_def dec desc_same)
  have m1: "unchanged (mem w1) m' (F + 8) 28"
  proof (rule unchanged_trans)
    show "unchanged (mem w1) ?m2 (F + 8) 28" by (rule only_changes_unchanged [OF w2]) auto
    show "unchanged ?m2 m' (F + 8) 28" by (rule unchanged_sub [OF d(3)]) simp_all
  qed
  have "load32 m' F = load32 ?m2 F" "load32 m' (F + 4) = load32 ?m2 (F + 4)"
    by (rule load32_unchanged, rule unchanged_sub [OF d(3)]; simp)+
  then have m2: "load32 m' F = load32 (mem w1) F" "load32 m' (F + 4) = load32 (mem w1) (F + 4) - 1"
    by (simp_all add: memory_simps)
  have "smart_inv m' F sid (rs(r := ?q ([], 0))) (c1\<lparr>sm_subs := sm_subs c1 - {r}\<rparr>)"
    by (rule smart_inv_remove [OF p(2) r1 d(2) [rule_format] _ m1 m2]) simp
  then have "smart_inv m' F sid (rs(r := ?q ?d)) (c1\<lparr>sm_subs := sm_subs c1 - {r}\<rparr>)"
    by (rule smart_inv_others) simp
  with destroy show ?thesis by (intro exI conjI) (assumption, simp)
qed


section \<open>Farewells\<close>

lemma quiet_clean: "quiet sid c \<Longrightarrow> sm_ok c \<Longrightarrow> quiet sid (sm_clean c)"
  using sm_lowest_le [of c] by (auto simp: quiet_def)

lemma quiet_add:
  assumes "quiet sid c" and "sm_ok c" and "\<And>r. r \<in> R \<Longrightarrow> \<not> farewell (sid r) p" and "R \<subseteq> sm_subs c"
  shows "quiet sid ((sm_add p c)\<lparr>sm_subs := R\<rparr>)"
  using assms by (auto simp: quiet_def sm_ok_def subset_iff)

lemma quiet_add_all:
  assumes "quiet sid c" and "sm_ok c" and "\<And>r. r \<in> sm_subs c \<Longrightarrow> \<not> farewell (sid r) p"
  shows "quiet sid (sm_add p c)"
  using quiet_add [OF assms subset_refl] by (simp add: quiet_def)

lemma quiet_at:
  assumes "quiet sid c" and "sm_at c r \<le> k"
  shows "quiet sid (c\<lparr>sm_at := (sm_at c)(r := k)\<rparr>)"
  using assms set_drop_subset_set_drop [of "sm_at c r" k "sm_list c"] by (auto simp: quiet_def)

lemma quiet_step:
  assumes step: "sm_step sid (q, a) c = Some (x, c')" and qu: "quiet sid c" and ok: "sm_ok c"
    and inj: "inj_on sid (insert q (sm_subs c))"
  shows "quiet sid c'" "sm_subs c' \<subseteq> insert q (sm_subs c)"
proof -
  note clean = quiet_clean [OF qu ok] sm_clean_ok [OF ok]
  have "quiet sid c' \<and> sm_subs c' \<subseteq> insert q (sm_subs c)"
  proof (cases a)
    case Connect
    let ?p = "(sid q, SERVICE_TAG, [code_byte CODE_CONNECT])" and ?c = "sm_add (sid q, SERVICE_TAG, [code_byte CODE_CONNECT]) (sm_clean c)"
    have c': "c' = ?c\<lparr>sm_subs := insert q (sm_subs ?c), sm_at := (sm_at ?c)(q := length (sm_list ?c))\<rparr>"
      using step Connect by (auto simp: sm_service_def Let_def split: if_splits)
    have "quiet sid ?c" by (rule quiet_add_all [OF clean]) (simp add: farewell_def)
    then have "quiet sid c'" unfolding c' by (auto simp: quiet_def)
    then show ?thesis unfolding c' by simp
  next
    case Disconnect
    let ?c = "sm_add (sid q, SERVICE_TAG, [code_byte CODE_DISCONNECT]) (sm_clean c)"
    have c': "c' = ?c\<lparr>sm_subs := sm_subs ?c - {q}\<rparr>"
      using step Disconnect by (auto simp: sm_service_def Let_def split: if_splits)
    have "\<not> farewell (sid r) (sid q, SERVICE_TAG, [code_byte CODE_DISCONNECT])"
      if "r \<in> sm_subs c" "r \<noteq> q" for r
      using that inj by (auto simp: farewell_def inj_on_def)
    then have "quiet sid c'"
      unfolding c' by (intro quiet_add [OF clean]) auto
    then show ?thesis unfolding c' by auto
  next
    case (Call op)
    show ?thesis
    proof (cases op)
      case (Push y)
      obtain b where b: "sm_push (sid q, y) c = Some (b, c')" and y: "fst y \<noteq> SERVICE_TAG"
        using step by (auto simp: Call Push split: if_splits)
      have c': "c' = (if b then sm_add (sid q, y) (sm_clean c) else sm_clean c)"
        using b by (auto simp: sm_push_def Let_def split: if_splits)
      show ?thesis unfolding c' using clean y
        by (auto intro: quiet_add_all simp: farewell_def)
    next
      case Get
      have q: "q \<in> sm_subs c" and c': "c' = c\<lparr>sm_at := (sm_at c)(q := seek (sid q) (sm_list c) (sm_at c q))\<rparr>"
        using step by (auto simp: Call Get split: if_splits)
      have "sm_at c q \<le> seek (sid q) (sm_list c) (sm_at c q)"
        using ok q by (intro seek_bounds) (simp add: sm_ok_def)
      then show ?thesis unfolding c' using quiet_at [OF qu] by auto
    next
      case Pop
      have q: "q \<in> sm_subs c" and c': "c' = c \<or>
          c' = c\<lparr>sm_at := (sm_at c)(q := Suc (seek (sid q) (sm_list c) (sm_at c q)))\<rparr>"
        using step by (auto simp: Call Pop split: if_splits)
      have "sm_at c q \<le> Suc (seek (sid q) (sm_list c) (sm_at c q))"
        using seek_bounds(1) [of "sm_at c q" "sm_list c" "sid q"] ok q by (simp add: sm_ok_def le_SucI)
      then show ?thesis using c' quiet_at [OF qu] qu by auto
    qed
  qed
  then show "quiet sid c'" "sm_subs c' \<subseteq> insert q (sm_subs c)" by simp_all
qed

section \<open>Runs\<close>

lemma sm_run_calls: "sm_run sid ps c = spec_calls (sm_step sid) ps c"
  by (induction ps arbitrary: c) (auto split: option.splits)

section \<open>The smart queue\<close>

text \<open>The processes share the memory; each has its own environment and its own object.\<close>

fun smart_call :: "(nat \<Rightarrow> env) \<Rightarrow> nat \<Rightarrow> smart_call \<Rightarrow> group \<Rightarrow> (smart_outcome \<times> group) run" where
  "smart_call E F (r, Connect) s =
     and_then (smart_open (E r) (fst s) F) (\<lambda>(w1, q1). returns (Joined, w1, (snd s)(r := q1)))"
| "smart_call E F (r, Disconnect) s =
     and_then (smart_destroy (E r) (fst s) (snd s r)) (\<lambda>(w1, q1). returns (Parted, w1, (snd s)(r := q1)))"
| "smart_call E F (r, Call p) s =
     and_then (impl_step (group_enq (E r) r) (group_front (E r) r) (group_deq (E r) r) p s)
       (\<lambda>(x, s1). returns (Returned x, s1))"

definition smart_holds ::
  "(nat \<Rightarrow> env) \<Rightarrow> nat set \<Rightarrow> nat \<Rightarrow> group \<Rightarrow> smart \<Rightarrow> bool" where
  "smart_holds E P F s c \<longleftrightarrow> (\<forall>r \<in> P. env_ok (E r)) \<and> inj_on (\<lambda>r. get_sid (E r)) P
     \<and> sm_subs c \<subseteq> P \<and> quiet (\<lambda>r. get_sid (E r)) c
     \<and> smart_inv (mem (fst s)) F (\<lambda>r. get_sid (E r)) (snd s) c"

lemma smart_call_law:
  assumes h: "smart_holds E P F s c" and p: "fst p \<in> P"
    and step: "sm_step (\<lambda>r. get_sid (E r)) p c = Some (x, c')"
  shows "\<exists>s'. smart_call E F p s = returns (x, s') \<and> smart_holds E P F s' c'"
proof -
  let ?sid = "\<lambda>r. get_sid (E r)"
  obtain r a where ra: "p = (r, a)" by fastforce
  obtain w rs where s: "s = (w, rs)" by fastforce
  have E: "env_ok (E r)" and inv: "smart_inv (mem w) F ?sid rs c" and quiet: "quiet ?sid c"
    and subs: "sm_subs c \<subseteq> P" and inj: "inj_on ?sid P"
    using h p by (simp_all add: smart_holds_def s ra)
  have at: "atomic_spec (atomics (E r))" using E by (simp add: env_ok_def)
  note step' = step [unfolded ra]
  have "inj_on ?sid (insert r (sm_subs c))" by (rule inj_on_subset [OF inj]) (use subs p ra in auto)
  note qs = quiet_step [OF step' quiet smart_inv_ok [OF inv] this]
  have rest: "smart_holds E P F (w', rs') c'" if "smart_inv (mem w') F ?sid rs' c'" for w' rs'
    using h that qs p by (auto simp: smart_holds_def ra)
  have "\<exists>w' rs'. smart_call E F (r, a) (w, rs) = returns (x, w', rs') \<and> smart_inv (mem w') F ?sid rs' c'"
  proof (cases a)
    case Connect
    obtain c1 where c1: "r \<notin> sm_subs c" "card (sm_subs c) + 1 < 4294967296"
      "sm_service (?sid r) CODE_CONNECT c = Some c1" "x = Joined"
      "c' = c1\<lparr>sm_subs := insert r (sm_subs c1), sm_at := (sm_at c1)(r := length (sm_list c1))\<rparr>"
      using step' by (auto simp: Connect not_le split: if_splits)
    from smart_joins [OF inv c1(1,2) E c1(3)] show ?thesis
      by (auto simp: Connect c1(4,5))
  next
    case Disconnect
    obtain c1 where c1: "r \<in> sm_subs c" "sm_service (?sid r) CODE_DISCONNECT c = Some c1" "x = Parted"
      "c' = c1\<lparr>sm_subs := sm_subs c1 - {r}\<rparr>"
      using step' by (auto simp: Disconnect split: if_splits)
    from smart_leaves [OF inv c1(1) E refl quiet c1(2)] show ?thesis
      by (auto simp: Disconnect c1(3,4))
  next
    case (Call op)
    have r: "r \<in> sm_subs c" using step' by (cases op) (auto simp: Call split: if_splits)
    show ?thesis
    proof (cases op)
      case (Push y)
      obtain b where b: "sm_push (?sid r, fst y, snd y) c = Some (b, c')" "x = Returned (Pushed b)"
        "snd y \<noteq> []"
        using step' by (auto simp: Call Push split: if_splits)
      obtain w' where "push (E r) w (rs r) (fst y) (snd y) = returns (b, w', rs r)"
        "smart_inv (mem w') F ?sid rs c'"
        using smart_pushes [OF inv r E refl b(3) b(1)] by blast
      then show ?thesis by (auto simp: Call Push group_enq_def b(2) fun_upd_triv)
    next
      case Get
      have c': "c' = c\<lparr>sm_at := (sm_at c)(r := seek (?sid r) (sm_list c) (sm_at c r))\<rparr>"
        "x = Returned (Got (first_of (sm_unread (?sid r) r c)))"
        using step' r by (auto simp: Call Get)
      from smart_gets [OF inv r at refl] show ?thesis
        by (auto simp: Call Get group_front_def c')
    next
      case Pop
      show ?thesis
      proof (cases "length (sm_list c) \<le> sm_at c r")
        case True
        have c': "x = Returned (Popped False)" "c' = c" using step' r True by (simp_all add: Call Pop)
        show ?thesis unfolding Call Pop c'
          by (rule exI [of _ w], rule exI [of _ rs])
            (use smart_pops_nothing [OF inv r True, of "E r"] inv in \<open>simp add: group_deq_def fun_upd_triv\<close>)
      next
        case False
        have some: "sm_unread (?sid r) r c \<noteq> []" and c': "x = Returned (Popped True)"
          "c\<lparr>sm_at := (sm_at c)(r := Suc (seek (?sid r) (sm_list c) (sm_at c r)))\<rparr> = c'"
          using step' r False by (simp_all add: Call Pop split: if_splits)
        obtain m' q' where "pop (E r) (mem w) (rs r) = returns (True, m', q')"
          "smart_inv m' F ?sid (rs(r := q')) c'"
          using smart_pops [OF inv r at refl some] unfolding c'(2) by blast
        then show ?thesis unfolding Call Pop c'(1)
          by (intro exI [of _ "w\<lparr>mem := m'\<rparr>"] exI [of _ "rs(r := q')"]) (simp add: group_deq_def)
      qed
    qed
  qed
  with rest show ?thesis by (auto simp: ra s)
qed

interpretation smart: simulation "smart_call E F" "sm_step (\<lambda>r. get_sid (E r))" "\<lambda>p. fst p \<in> P" "smart_holds E P F"
  for E F P
  by unfold_locales (fact smart_call_law)

section \<open>Creating\<close>

text \<open>A new queue: its creator is subscribed, and its connect message is the only packet.\<close>

definition empty_smart :: "nat \<Rightarrow> smart" where
  "empty_smart cap = \<lparr>sm_cap = cap, sm_pos = 0, sm_list = [], sm_subs = {}, sm_at = \<lambda>_. 0\<rparr>"

definition new_smart :: "nat \<Rightarrow> nat \<Rightarrow> sid_type \<Rightarrow> smart" where
  "new_smart cap r s = \<lparr>sm_cap = cap, sm_pos = 0,
     sm_list = [(s, SERVICE_TAG, [code_byte CODE_CONNECT])], sm_subs = {r}, sm_at = (\<lambda>_. 0)(r := 1)\<rparr>"

lemma empty_smart_service:
  assumes "25 \<le> cap"
  shows "sm_service s CODE_CONNECT (empty_smart cap)
    = Some (sm_add (s, SERVICE_TAG, [code_byte CODE_CONNECT]) (empty_smart cap))"
proof -
  have "sm_clean (empty_smart cap) = empty_smart cap"
    by (simp add: sm_clean_def empty_smart_def sm_lowest_def)
  then show ?thesis using assms
    by (auto simp: sm_service_def sm_fits_def empty_smart_def fits_def span_def)
qed

lemma smart_creates:
  assumes E: "env_ok E" and cap: "25 \<le> unat cpct" "unat cpct < 4294967296"
  shows "\<exists>w' q. smart_create E w qid F cpct = returns (w', q)
    \<and> smart_inv (mem w') F sid ((\<lambda>_. q)) (new_smart (unat cpct) r (get_sid E))"
proof -
  let ?q = "fresh_object Smart_shared_queue (F + 4 + 8) (F + 4) F" and ?o = "ring_object (F + 4)"
  have at: "atomic_spec (atomics E)" using E by (simp add: env_ok_def)
  have pos: "0 < unat cpct" using cap by simp
  obtain m1 where c: "base_create (mem w) ?q qid cpct = returns m1" "head_of m1 ?q = 0" "tail_of m1 ?q = 0"
    "count_of m1 ?q = 0" "cap_of m1 ?q = unat cpct" "keepalive_timeout m1 ?q = 0"
    by (rule base_create_returns [OF pos cap(2)])
  have b: "base_ptr ?q = base_ptr ?o" by (simp add: fresh_object_def)
  note c' = c(2-6) [unfolded base_ptr_cong [OF b]]
  define m2 where "m2 = store32 (store32 m1 (F + 8) 0) (F + 4) 0"
  define m3 where "m3 = store32 m2 F (ucast (q_capacity m2 ?q))"
  have w2: "only_changes m1 m2 {F..<F + 12}"
    unfolding m2_def
    by (rule only_changes_trans [OF only_changes_store32 only_changes_store32]) auto
  have w3: "only_changes m1 m3 {F..<F + 12}"
    unfolding m3_def by (rule only_changes_trans [OF w2 only_changes_store32]) auto
  have hdr: "unchanged m1 m2 (base_ptr ?o) 24" "unchanged m1 m3 (base_ptr ?o) 24"
    by (rule only_changes_unchanged [OF w2] only_changes_unchanged [OF w3]; auto)+
  note f = header_unchanged [OF hdr(2)] and f2 = header_unchanged [OF hdr(1)]
  have create: "smart_create E w qid F cpct = initialize E (w\<lparr>mem := m3\<rparr>) ?q"
    using c(1) by (simp add: smart_create_def base_shared_create_def Let_def set_s_counter_def
      set_subscriptions_count_def set_free_space_def atomic_specD [OF at] fresh_object_def m2_def m3_def add.commute)
  have "unat (q_capacity m2 ?q) = unat cpct" unfolding base_ptr_cong [OF b] using f2(1) c'(4) by simp
  then have free: "unat (load32 m3 F) = unat cpct"
    using cap(2) by (simp add: m3_def unat_ucast_64_32)
  have words: "load32 m3 (F + 4) = 0" "load32 m3 (F + 8) = 0"
    by (simp_all add: m3_def m2_def memory_simps)
  have "ring_state m3 ?o []"
    by (rule ring_state_empty) (use c' f pos in simp_all)
  then have inv: "smart_inv (mem (w\<lparr>mem := m3\<rparr>)) F sid rs (empty_smart (unat cpct))" for rs
    using words(1) free c' f
    by (simp add: smart_inv_def group_inv_def empty_smart_def packets_def sm_free_def)
  have q: "smart_object F ?q" "m_state ?q = ST_UNKNOWN" "m_message_desc ?q = null_desc"
    by (simp_all add: smart_object_def fresh_object_def)
  have sc: "s_counter (mem (w\<lparr>mem := m3\<rparr>)) ?q - m_counter ?q \<noteq> - 1"
    using words(2) by (simp add: s_counter_def fresh_object_def add.commute)
  let ?c1 = "sm_add (get_sid E, SERVICE_TAG, [code_byte CODE_CONNECT]) (empty_smart (unat cpct))"
  have few: "r \<notin> sm_subs (empty_smart (unat cpct))" "card (sm_subs (empty_smart (unat cpct))) + 1 < 4294967296"
    by (simp_all add: empty_smart_def)
  obtain w' q' where i: "initialize E (w\<lparr>mem := m3\<rparr>) ?q = returns (w', q')"
    "smart_inv (mem w') F sid ((\<lambda>_. ?q)(r := q'))
      (?c1\<lparr>sm_subs := insert r (sm_subs ?c1), sm_at := (sm_at ?c1)(r := length (sm_list ?c1))\<rparr>)"
    using smart_initializes [OF inv few E q sc empty_smart_service [OF cap(1)]] by blast
  have new: "?c1\<lparr>sm_subs := insert r (sm_subs ?c1), sm_at := (sm_at ?c1)(r := length (sm_list ?c1))\<rparr>
      = new_smart (unat cpct) r (get_sid E)"
    by (simp add: new_smart_def sm_add_def empty_smart_def)
  have "smart_inv (mem w') F sid (\<lambda>_. q') (new_smart (unat cpct) r (get_sid E))"
    by (rule smart_inv_others [OF i(2) [unfolded new]]) (simp add: new_smart_def)
  with create i(1) show ?thesis by auto
qed

section \<open>Properties\<close>

text \<open>
  C2. Processes with different identifiers subscribe to a smart queue,
  unsubscribe, push, get and pop, in any interleaving of the calls. As long as the abstract queue
  says what a call does, the code does that, without a crash or a failed assertion, and with the
  same outcomes; and a subscriber that stays is left with what it had not read and the messages
  the others pushed since, in order, less those it popped: it gets every message of the others
  exactly once, and never one of its own or one of the queue.
\<close>

theorem smart_queue_delivers:
  assumes "smart_holds E P F s c" and "\<forall>p \<in> set ps. fst p \<in> P"
    and "sm_run (\<lambda>r. get_sid (E r)) ps c = Some (os, c')"
  shows "\<exists>s'. run_calls (smart_call E F) ps s = returns (os, s') \<and> smart_holds E P F s' c'
    \<and> (\<forall>r \<in> sm_subs c. stays r ps \<longrightarrow> sm_unread (get_sid (E r)) r c'
        = drop (popped r ps os) (sm_unread (get_sid (E r)) r c @ heard (\<lambda>r. get_sid (E r)) r ps os))"
proof -
  have ok: "sm_ok c" using assms(1) smart_inv_ok by (auto simp: smart_holds_def)
  obtain s' where "run_calls (smart_call E F) ps s = returns (os, s')" "smart_holds E P F s' c'"
    using smart.calls_law [OF assms(1,2)] assms(3) by (auto simp: sm_run_calls)
  moreover have "sm_unread (get_sid (E r)) r c'
        = drop (popped r ps os) (sm_unread (get_sid (E r)) r c @ heard (\<lambda>r. get_sid (E r)) r ps os)"
    if "r \<in> sm_subs c" "stays r ps" for r
    using sm_run_delivery [OF assms(3) ok that] by blast
  ultimately show ?thesis by blast
qed

text \<open>
  Creating a smart queue with room for one service message returns,
  whatever the memory held before, and leaves a queue of the given capacity to which the creator
  is subscribed and in which nothing is unread.
\<close>

theorem smart_create_holds:
  assumes "\<forall>p \<in> P. env_ok (E p)" and "inj_on (\<lambda>p. get_sid (E p)) P" and "r \<in> P"
    and "25 \<le> unat cpct" and "unat cpct < 4294967296"
  shows "\<exists>w' q. smart_create (E r) w qid F cpct = returns (w', q)
    \<and> smart_holds E P F (w', \<lambda>_. q) (new_smart (unat cpct) r (get_sid (E r)))"
proof -
  have E: "env_ok (E r)" using assms(1,3) by blast
  have "quiet (\<lambda>p. get_sid (E p)) (new_smart (unat cpct) r (get_sid (E r)))"
    by (simp add: quiet_def new_smart_def)
  moreover have "sm_subs (new_smart (unat cpct) r (get_sid (E r))) \<subseteq> P" using assms(3) by (simp add: new_smart_def)
  ultimately show ?thesis
    using smart_creates [OF E assms(4,5), of w qid F "\<lambda>p. get_sid (E p)" r] assms(1,2)
    by (auto simp: smart_holds_def)
qed

text \<open>
  C33. When a subscriber has unread packets but all of them are
  its own or service messages, so that a get finds no message, a pop calls the null message that
  its search returns.
\<close>

theorem smart_pop_without_get_crashes:
  assumes "smart_holds E P F s c" and "r \<in> sm_subs c"
    and "sm_at c r < length (sm_list c)" and "sm_unread (get_sid (E r)) r c = []"
  shows "pop (E r) (mem (fst s)) (snd s r) = crashes Null_pointer"
proof -
  have "smart_inv (mem (fst s)) F (\<lambda>r. get_sid (E r)) (snd s) c" "atomic_spec (atomics (E r))"
    using assms(1,2) by (auto simp: smart_holds_def env_ok_def)
  from smart_pop_fails [OF this(1) assms(2) this(2) refl assms(4,3)] show ?thesis .
qed

definition sample_process :: "nat \<Rightarrow> env" where
  "sample_process r = sample_env\<lparr>pget_sid_impl := (\<lambda>_. of_nat r)\<rparr>"

lemma sample_process [simp]: "env_ok (sample_process r)" "get_sid (sample_process r) = of_nat r"
  by (simp_all add: sample_process_def env_ok_def get_sid_def sample_env_def)

lemma sample_smart:
  assumes "25 \<le> unat cap" and "unat cap < 4294967296"
  obtains w q where "smart_create (sample_process 1) \<lparr>mem = \<lambda>_. 9, readings = 0\<rparr> 5 64 cap = returns (w, q)"
    "smart_holds sample_process {1, 2} 64 (w, \<lambda>_. q) (new_smart (unat cap) 1 1)"
proof -
  have sep: "inj_on (\<lambda>p. get_sid (sample_process p)) {1, 2}" by (simp add: inj_on_def)
  obtain w q where c: "smart_create (sample_process 1) \<lparr>mem = \<lambda>_. 9, readings = 0\<rparr> 5 64 cap = returns (w, q)"
    "smart_inv (mem w) 64 (\<lambda>p. get_sid (sample_process p)) (\<lambda>_. q) (new_smart (unat cap) 1 (get_sid (sample_process 1)))"
    using smart_creates [of "sample_process 1" cap "\<lparr>mem = \<lambda>_. 9, readings = 0\<rparr>" 5 64
        "\<lambda>p. get_sid (sample_process p)" 1] assms by auto
  have "smart_holds sample_process {1, 2} 64 (w, \<lambda>_. q) (new_smart (unat cap) 1 1)"
    using c(2) sep by (simp add: smart_holds_def quiet_def new_smart_def)
  with c(1) that show thesis by blast
qed

lemmas sample_defs = sm_service_def sm_push_def sm_clean_def new_smart_def sm_lowest_def Let_def
  sm_fits_def fits_def span_def sm_unread_def visible_def first_of_def seek_def sm_add_def after_def
  sm_free_def sm_reserve_def sm_tail_def sm_edge_def place_def SERVICE_TAG_def

theorem smart_queue_delivers_witness:
  "\<exists>w q s'. smart_create (sample_process 1) \<lparr>mem = \<lambda>_. 9, readings = 0\<rparr> 5 64 400 = returns (w, q)
    \<and> run_calls (smart_call sample_process 64)
      [(2, Connect), (1, Call (Push (7, [10, 11]))), (1, Call Get), (2, Call Get), (2, Call Pop),
       (2, Call (Push (8, [12]))), (2, Disconnect), (1, Call Get), (1, Call Pop)] (w, \<lambda>_. q)
    = returns ([Joined, Returned (Pushed True), Returned (Got None), Returned (Got (Some (7, [10, 11]))),
        Returned (Popped True), Returned (Pushed True), Parted, Returned (Got (Some (8, [12]))),
        Returned (Popped True)], s')"
proof -
  obtain w q where c: "smart_create (sample_process 1) \<lparr>mem = \<lambda>_. 9, readings = 0\<rparr> 5 64 400 = returns (w, q)"
    "smart_holds sample_process {1, 2} 64 (w, \<lambda>_. q) (new_smart 400 1 1)"
    using sample_smart [of 400] by auto
  have "\<exists>c'. sm_run (\<lambda>r. get_sid (sample_process r))
      [(2, Connect), (1, Call (Push (7, [10, 11]))), (1, Call Get), (2, Call Get), (2, Call Pop),
       (2, Call (Push (8, [12]))), (2, Disconnect), (1, Call Get), (1, Call Pop)] (new_smart 400 1 1)
    = Some ([Joined, Returned (Pushed True), Returned (Got None), Returned (Got (Some (7, [10, 11]))),
        Returned (Popped True), Returned (Pushed True), Parted, Returned (Got (Some (8, [12]))),
        Returned (Popped True)], c')"
    by (simp add: sample_defs)
  then obtain c' where "sm_run (\<lambda>r. get_sid (sample_process r))
      [(2, Connect), (1, Call (Push (7, [10, 11]))), (1, Call Get), (2, Call Get), (2, Call Pop),
       (2, Call (Push (8, [12]))), (2, Disconnect), (1, Call Get), (1, Call Pop)] (new_smart 400 1 1)
    = Some ([Joined, Returned (Pushed True), Returned (Got None), Returned (Got (Some (7, [10, 11]))),
        Returned (Popped True), Returned (Pushed True), Parted, Returned (Got (Some (8, [12]))),
        Returned (Popped True)], c')" by blast
  from smart_queue_delivers [OF c(2) _ this] c(1) show ?thesis by auto
qed

theorem smart_create_holds_witness:
  "\<exists>w' q. smart_create (sample_process 2) \<lparr>mem = \<lambda>_. 9, readings = 0\<rparr> 5 64 400 = returns (w', q)
    \<and> smart_holds sample_process {2} 64 (w', \<lambda>_. q) (new_smart 400 2 2)"
  using smart_create_holds [of "{2}" sample_process 2 400 "\<lparr>mem = \<lambda>_. 9, readings = 0\<rparr>" 5 64] by simp

theorem smart_pop_without_get_crashes_witness:
  "\<exists>w q w1 q1. smart_create (sample_process 1) \<lparr>mem = \<lambda>_. 9, readings = 0\<rparr> 5 64 400 = returns (w, q)
    \<and> push (sample_process 1) w q 7 [10, 11] = returns (True, w1, q1)
    \<and> pop (sample_process 1) (mem w1) q1 = crashes Null_pointer"
proof -
  obtain w q where c: "smart_create (sample_process 1) \<lparr>mem = \<lambda>_. 9, readings = 0\<rparr> 5 64 400 = returns (w, q)"
    "smart_holds sample_process {1, 2} 64 (w, \<lambda>_. q) (new_smart 400 1 1)"
    using sample_smart [of 400] by auto
  let ?c = "sm_add (1, 7, [10, 11]) (sm_clean (new_smart 400 1 1))"
  have "sm_step (\<lambda>r. get_sid (sample_process r)) (1, Call (Push (7, [10, 11]))) (new_smart 400 1 1)
      = Some (Returned (Pushed True), ?c)"
    by (simp add: sample_defs)
  then obtain s' where s: "smart_call sample_process 64 (1, Call (Push (7, [10, 11]))) (w, \<lambda>_. q)
      = returns (Returned (Pushed True), s')" "smart_holds sample_process {1, 2} 64 s' ?c"
    using smart_call_law [OF c(2)] by (metis fst_conv insertCI)
  then have p: "\<exists>q1. push (sample_process 1) w q 7 [10, 11] = returns (True, fst s', q1) \<and> snd s' 1 = q1"
    by (auto simp: group_enq_def and_then_eq_returns)
  have "pop (sample_process 1) (mem (fst s')) (snd s' 1) = crashes Null_pointer"
    by (rule smart_pop_without_get_crashes [OF s(2)]) (simp_all add: sample_defs)
  with c(1) p show ?thesis by blast
qed

end
