(* ===== verification/Smart_Reserve.thy ===== *)
theory Smart_Reserve
  imports Smart_Contract
begin

text \<open>
  \<open>smart_shared_queue\<close>: the reserve. A queue keeps 50 bytes for every subscriber back from the
  messages of the users, so that each can announce its leaving; what the reserve guarantees, and
  what happens without it.
\<close>

section \<open>Gaps\<close>

text \<open>
  The bytes in use are those that the messages take and a gap at the end of the ring, which is
  shorter than a header and which the messages skip once at most.
\<close>

lemma used_short:
  assumes "p < cap" and "p + used cap p xs < cap"
  shows "used cap p xs = taken cap p xs"
  using assms
proof (induction xs arbitrary: p)
  case (Cons x xs)
  let ?n = "length (snd x)"
  have lt: "p + span cap p ?n < cap" using Cons.prems(2) by simp
  then have a: "after cap p x = p + span cap p ?n" by (simp add: after_def)
  have "used cap (after cap p x) xs = taken cap (after cap p x) xs"
    by (rule Cons.IH) (use Cons.prems(2) lt a in simp_all)
  then show ?case using lt Cons.prems(1)
    by (cases cap p ?n rule: place_cases) simp_all
qed simp

lemma used_gap:
  assumes "p < cap" and "used cap p xs \<le> cap"
  shows "used cap p xs \<le> taken cap p xs + 24"
  using assms
proof (induction xs arbitrary: p)
  case (Cons x xs)
  let ?n = "length (snd x)" and ?p = "after cap p x"
  let ?s = "span cap p ?n" and ?t = "?n + 24 * length (place cap p ?n)"
  have le: "?s + used cap ?p xs \<le> cap" using Cons.prems(2) by simp
  have less: "?p < cap" using Cons.prems(1) by (intro after_less) simp
  show ?case
  proof (cases "p + ?s < cap")
    case True
    have "used cap ?p xs \<le> taken cap ?p xs + 24"
      by (rule Cons.IH) (use le less in simp_all)
    moreover have "?s = ?t" using True Cons.prems(1) by (cases cap p ?n rule: place_cases) simp_all
    ultimately show ?thesis by simp
  next
    case False
    have "(p + ?s) mod cap = p + ?s - cap"
      using False Cons.prems(1) le by (simp add: mod_if)
    then have "?p + used cap ?p xs < cap" using False le Cons.prems(1) by (simp add: after_def)
    then have "used cap ?p xs = taken cap ?p xs" by (rule used_short [OF less])
    moreover have "?s \<le> ?t + 24" by (cases cap p ?n rule: place_cases) simp_all
    ultimately show ?thesis by simp
  qed
qed simp

definition sm_ring :: "smart \<Rightarrow> bool" where
  "sm_ring c \<longleftrightarrow> sm_pos c < sm_cap c \<and> used (sm_cap c) (sm_pos c) (sm_msgs c) \<le> sm_cap c"

text \<open>50 free bytes are enough for a byte of data wherever the ring ends.\<close>

lemma byte_fits:
  assumes ring: "sm_ring c" and free: "50 \<le> sm_free c"
  shows "sm_fits c [b]"
proof -
  let ?c = "sm_cap c" and ?p = "sm_pos c" and ?u = "used (sm_cap c) (sm_pos c) (sm_msgs c)"
  have p: "?p < ?c" and u: "?u \<le> ?c" using ring by (simp_all add: sm_ring_def)
  have t: "taken ?c ?p (sm_msgs c) + 50 \<le> ?c" using free by (simp add: sm_free_def)
  have "?u + span ?c ((?p + ?u) mod ?c) 1 \<le> ?c"
  proof (cases "?p + ?u < ?c")
    case True
    have short: "?u = taken ?c ?p (sm_msgs c)" by (rule used_short [OF p True])
    have tail: "(?p + ?u) mod ?c = ?p + ?u" using True by simp
    show ?thesis unfolding tail using short True t
      by (cases ?c "?p + ?u" "1 :: nat" rule: place_cases) linarith+
  next
    case False
    have gap: "?u \<le> taken ?c ?p (sm_msgs c) + 24" by (rule used_gap [OF p u])
    have tail: "(?p + ?u) mod ?c = ?p + ?u - ?c" using False p u by (simp add: mod_if)
    have far: "25 \<le> ?c - (?p + ?u - ?c)" using False gap p t by linarith
    show ?thesis unfolding tail using gap far t
      by (cases ?c "?p + ?u - ?c" "1 :: nat" rule: place_cases) linarith+
  qed
  then show ?thesis by (simp add: sm_fits_def fits_def)
qed

section \<open>Calls that keep the reserve\<close>

lemma sm_clean_reserve:
  assumes "sm_ok c" and "sm_ring c" and "sm_reserve c \<le> sm_free c"
  shows "sm_reserve (sm_clean c) \<le> sm_free (sm_clean c)"
  using sm_free_clean [OF assms(1)] assms(2,3) by (simp add: sm_ring_def sm_reserve_def)

lemma sm_add_reserve:
  assumes "sm_pos c < sm_cap c" and "sm_fits c (snd (snd p))"
    and "span (sm_cap c) (sm_tail c) (length (snd (snd p))) \<le> sm_free c - n"
  shows "n \<le> sm_free c \<Longrightarrow> n \<le> sm_free (sm_add p c)"
proof -
  have "taken (sm_cap c) (sm_tail c) [snd p] \<le> span (sm_cap c) (sm_tail c) (length (snd (snd p)))"
    using taken_used [of "sm_cap c" "sm_tail c" "[snd p]"] by simp
  then show "n \<le> sm_free c \<Longrightarrow> n \<le> sm_free (sm_add p c)"
    using sm_free_add(2) [OF assms(1,2)] assms(3) by linarith
qed

lemma sm_step_reserve:
  assumes step: "sm_step sid (q, a) c = Some (x, c')" and a: "a \<noteq> Connect"
    and ok: "sm_ok c" and ring: "sm_ring c" "sm_ring (sm_clean c)" and res: "sm_reserve c \<le> sm_free c"
  shows "sm_reserve c' \<le> sm_free c'"
proof (cases a)
  case Connect
  with a show ?thesis by simp
next
  case Disconnect
  let ?p = "(sid q, SERVICE_TAG, [code_byte CODE_DISCONNECT])" and ?c = "sm_clean c"
  have q: "q \<in> sm_subs c" and fit: "sm_fits ?c (snd (snd ?p))"
    and c': "c' = (sm_add ?p ?c)\<lparr>sm_subs := sm_subs c - {q}\<rparr>"
    using step by (auto simp: Disconnect sm_service_def Let_def split: if_splits)
  have "taken (sm_cap ?c) (sm_tail ?c) [snd ?p] = 25"
    by (cases "sm_cap ?c" "sm_tail ?c" "1 :: nat" rule: place_cases) (simp_all del: sm_clean_simps)
  then have free: "sm_free (sm_add ?p ?c) = sm_free ?c - 25"
    using sm_free_add(2) [OF _ fit] ring(2) by (simp add: sm_ring_def)
  have "card (sm_subs c) = Suc (card (sm_subs c - {q}))"
    using q ok by (simp only: sm_ok_def card.remove)
  then have "sm_reserve ?c = sm_reserve c' + 50" by (simp add: sm_reserve_def c')
  moreover have "sm_free c' = sm_free ?c - 25" using free by (simp add: c' sm_free_def)
  ultimately show ?thesis using sm_clean_reserve [OF ok ring(1) res] by linarith
next
  case (Call op)
  show ?thesis
  proof (cases op)
    case (Push y)
    let ?c = "sm_clean c"
    obtain b where b: "sm_push (sid q, y) c = Some (b, c')"
      using step by (auto simp: Call Push split: if_splits)
    note le = sm_clean_reserve [OF ok ring(1) res]
    show ?thesis
    proof (cases b)
      case True
      then have c': "c' = sm_add (sid q, y) ?c" "sm_fits ?c (snd y)"
        "span (sm_cap ?c) (sm_tail ?c) (length (snd y)) \<le> sm_free ?c - sm_reserve ?c"
        using b le by (auto simp: sm_push_def Let_def simp del: sm_clean_simps split: if_splits)
      have pos: "sm_pos ?c < sm_cap ?c" using ring(2) by (simp only: sm_ring_def)
      have "sm_reserve ?c \<le> sm_free c'"
        unfolding c'(1) by (rule sm_add_reserve [OF pos _ _ le]) (use c'(2,3) in simp_all)
      then show ?thesis by (simp add: c'(1) sm_reserve_def)
    next
      case False
      then have "c' = ?c" using b by (auto simp: sm_push_def Let_def split: if_splits)
      then show ?thesis using le by simp
    qed
  qed (use step res in \<open>auto simp: Call sm_reserve_def sm_free_def split: if_splits\<close>)
qed


lemma sm_ring_clean: "sm_ring c \<Longrightarrow> sm_ring (sm_clean c)"
proof -
  assume ring: "sm_ring c"
  let ?j = "sm_lowest c"
  have p: "sm_pos c < sm_cap c" and u: "used (sm_cap c) (sm_pos c) (sm_msgs c) \<le> sm_cap c"
    using ring by (simp_all add: sm_ring_def)
  have "used (sm_cap c) (sm_pos c) (take ?j (sm_msgs c) @ drop ?j (sm_msgs c))
      = used (sm_cap c) (sm_pos c) (take ?j (sm_msgs c)) + used (sm_cap c) (sm_pos (sm_clean c)) (drop ?j (sm_msgs c))"
    by (subst used_append [OF p]) (simp add: sm_clean_def Let_def)
  then have "used (sm_cap c) (sm_pos (sm_clean c)) (drop ?j (sm_msgs c)) \<le> used (sm_cap c) (sm_pos c) (sm_msgs c)"
    by (simp only: append_take_drop_id)
  moreover have "sm_pos (sm_clean c) < sm_cap c" using p by (simp add: sm_clean_def Let_def)
  ultimately show "sm_ring (sm_clean c)" using u by (simp add: sm_ring_def drop_map)
qed

lemma sm_clean_clean:
  assumes ok: "sm_ok c" and ring: "sm_ring c"
  shows "sm_clean (sm_clean c) = sm_clean c"
proof -
  have low: "sm_lowest (sm_clean c) = 0"
  proof (cases "sm_subs c = {}")
    case False
    have fin: "finite (sm_at c ` sm_subs c)" using ok by (simp add: sm_ok_def)
    have "sm_lowest c \<in> sm_at c ` sm_subs c"
      using Min_in [OF fin] False by (simp add: sm_lowest_def)
    then obtain r where r: "r \<in> sm_subs c" "sm_at c r = sm_lowest c" by auto
    then show ?thesis using sm_lowest_le [OF sm_clean_ok [OF ok], of r] by simp
  qed (simp add: sm_lowest_def)
  have pos: "sm_pos (sm_clean c) mod sm_cap c = sm_pos (sm_clean c)"
    using sm_ring_clean [OF ring] by (simp add: sm_ring_def)
  have eq: "sm_lowest c' = 0 \<Longrightarrow> sm_pos c' mod sm_cap c' = sm_pos c' \<Longrightarrow> sm_clean c' = c'" for c'
    by (simp add: sm_clean_def)
  show ?thesis by (rule eq [OF low]) (use pos in simp)
qed

section \<open>Waiting for room\<close>

lemma smart_inv_sm_ring: "smart_inv m F sid rs c \<Longrightarrow> sm_ring c"
  using smart_inv_ring(2,5) by (simp add: sm_ring_def)

text \<open>Alone, a process that finds no room for its service message waits for ever.\<close>

definition blocked :: "nat \<Rightarrow> env \<Rightarrow> world \<Rightarrow> queue \<Rightarrow> u8 \<Rightarrow> bool" where
  "blocked F E w q b \<longleftrightarrow> smart_object F q \<and> env_ok E \<and> m_state q = ST_PUSH_SPECIAL_MESSAGE
     \<and> s_counter (mem w) q - m_counter q \<noteq> - 1
     \<and> (\<exists>sid rs c. smart_inv (mem w) F sid rs c \<and> \<not> sm_fits (sm_clean c) [b])"

lemma blocked_push:
  assumes "blocked F E w q b"
  shows "\<exists>w1. push E w q SERVICE_TAG [b] = returns (False, w1, q) \<and> blocked F E w1 q b"
proof -
  obtain sid rs c where a: "smart_inv (mem w) F sid rs c" "\<not> sm_fits (sm_clean c) [b]"
    and b: "smart_object F q" "env_ok E" "m_state q = ST_PUSH_SPECIAL_MESSAGE"
      "s_counter (mem w) q - m_counter q \<noteq> - 1"
    using assms unfolding blocked_def by blast
  obtain w1 where w1: "push E w q SERVICE_TAG [b] = returns (False, w1, q)"
    "smart_inv (mem w1) F sid rs (sm_clean c)" "load32 (mem w1) (F + 8) = load32 (mem w) (F + 8)"
    using smart_service_full [OF a(1) b(1-3) _ b(4) a(2)] by auto
  have "s_counter (mem w1) q = s_counter (mem w) q"
    using w1(3) smart_objectD(4) [OF b(1)] by (simp add: s_counter_def add.commute)
  moreover have "sm_clean (sm_clean c) = sm_clean c"
    using smart_inv_ok [OF a(1)] smart_inv_sm_ring [OF a(1)] by (rule sm_clean_clean)
  ultimately have "blocked F E w1 q b"
    unfolding blocked_def using b a(2) w1(2) by metis
  with w1(1) show ?thesis by blast
qed

lemma service_loop_blocks: "blocked F E w q b \<Longrightarrow> push_service_loop E w q b = None"
proof (rule ccontr)
  assume blocked: "blocked F E w q b" and "push_service_loop E w q b \<noteq> None"
  then obtain y where y: "push_service_loop E w q b = Some y" by blast
  have "\<not> blocked F E w q b"
  proof (rule push_service_loop.raw_induct [OF _ y, where P = "\<lambda>E w q b y. \<not> blocked F E w q b"])
    fix loop E w q b y
    assume hyp: "\<And>E w q b y. loop E w q b = Some y \<Longrightarrow> \<not> blocked F E w q b"
      and step: "and_then (push E w q SERVICE_TAG [b]) (\<lambda>(pushed, w1, q1).
        if pushed then returns (w1, q1) else loop E w1 q1 b) = Some y"
    show "\<not> blocked F E w q b"
    proof
      assume "blocked F E w q b"
      then obtain w1 where w1: "push E w q SERVICE_TAG [b] = returns (False, w1, q)" "blocked F E w1 q b"
        using blocked_push by blast
      have "loop E w1 q b = Some y" using step w1(1) by simp
      with hyp w1(2) show False by blast
    qed
  qed
  with blocked show False by blast
qed

lemma smart_leave_blocks:
  assumes inv: "smart_inv (mem w) F sid rs c" and r: "r \<in> sm_subs c" and E: "env_ok E"
    and room: "\<not> sm_fits (sm_clean c) [code_byte CODE_DISCONNECT]"
  shows "smart_destroy E w (rs r) = None"
proof -
  let ?q = "(rs r)\<lparr>m_state := ST_PUSH_SPECIAL_MESSAGE\<rparr>"
  have g: "group_inv (mem w) (F + 4) (sm_subs c) rs (sm_msgs c) (sm_at c)" and q: "smart_object F ?q"
    using inv r by (simp_all add: smart_inv_def subscriber_def)
  have "s_counter (mem w) ?q - m_counter ?q \<noteq> - 1"
    using member_not_full [OF g r] by (simp add: s_counter_def)
  then have "blocked F E w ?q (code_byte CODE_DISCONNECT)"
    using inv q E room unfolding blocked_def by auto
  then have "push_service_loop E w ?q (code_byte CODE_DISCONNECT) = None"
    by (rule service_loop_blocks)
  then show ?thesis by (simp add: smart_destroy_def push_service_message_def and_then_def)
qed

section \<open>Messages that use the reserve\<close>

lemma smart_next_region:
  assumes q: "user_object q" and ok: "header_ok m q" and prev: "region_is prev p k" "p + k \<le> cap_of m q"
    and le: "k \<le> smart_limit E m q"
  obtains r where "get_free_region E m q (Some prev) = returns r"
    "region_is r ((p + k) mod cap_of m q)
       (min (if head_of m q < (p + k) mod cap_of m q then cap_of m q - (p + k) mod cap_of m q
         else head_of m q - (p + k) mod cap_of m q) (smart_limit E m q - k))"
proof -
  let ?t = "(p + k) mod cap_of m q"
  let ?n = "if head_of m q < ?t then cap_of m q - ?t else head_of m q - ?t"
  obtain r where r: "base_get_free_region m q (Some prev) = returns r" "region_is r ?t ?n"
    by (rule next_free_region [OF ok prev])
  have k: "unat (snd prev) = k" using prev(1) by (simp add: region_is_def)
  have "?n < 4294967296" "k < 4294967296"
    using ok prev(2) cap_of_bound [of m q] by (auto simp: header_ok_def)
  then have "?n + before (Some prev) < 18446744073709551616" "before (Some prev) \<le> smart_limit E m q"
    using k le by (simp_all del: if_split)
  then obtain r' where "get_free_region E m q (Some prev) = returns r'"
    "region_is r' ?t (min ?n (smart_limit E m q - before (Some prev)))"
    by (rule smart_region [OF q r])
  then show thesis using that k by simp
qed

lemma smart_takes:
  assumes q: "user_object q" and live: "clock_live (clock E)" and ok: "header_ok (mem w) q"
    and rest: "0 < rest" and r: "get_free_region E (mem w) q prev = returns r" "region_is r p n"
    and n: "24 < n" "p + n \<le> cap_of (mem w) q"
  obtains w1 where "make_loop E q w pm prev rest
      = make_loop E q w1 (pm @ [data_start q + p]) (Some r) (rest - min rest (n - 24))"
    "header_ok (mem w1) q" "cap_of (mem w1) q = cap_of (mem w) q" "head_of (mem w1) q = head_of (mem w) q"
    "smart_limit E (mem w1) q = smart_limit E (mem w) q"
proof -
  have n': "n < 4294967296" using n(2) cap_of_bound [of "mem w" q] by linarith
  obtain w1 where w1: "make_loop E q w pm prev rest
      = make_loop E q w1 (pm @ [data_start q + p]) (Some r) (rest - min rest (n - 24))"
    "only_changes (mem w) (mem w1) {data_start q + p..<data_start q + p + 24}"
    by (rule loop_takes [OF live rest r n(1) n', where pmessage = pm])
  have "unchanged (mem w) (mem w1) (base_ptr q) 24" by (rule header_only_changes [OF w1(2)]) auto
  moreover have "smart_limit E (mem w1) q = smart_limit E (mem w) q"
    by (rule smart_limit_unchanged [OF q w1(2)]) auto
  ultimately show thesis using that w1(1) ok by (simp add: header_ok_cong header_unchanged)
qed

lemma smart_overdraws:
  assumes q: "user_object q" and live: "clock_live (clock E)" and ok: "header_ok (mem w) q"
    and wr: "wraps (mem w) q"
  defines "A \<equiv> smart_limit E (mem w) q" and "n1 \<equiv> cap_of (mem w) q - tail_of (mem w) q"
  defines "n2 \<equiv> A - n1"
  assumes room: "24 < n1" "24 < n2" "n2 < head_of (mem w) q"
    and k: "0 < k" "k + 24 \<le> n1" "k + 24 \<le> head_of (mem w) q - n2"
  shows "\<exists>w' r. make_loop E q w [] None ((n1 - 24) + (n2 - 24) + k)
      = returns (w', Some ([data_start q + tail_of (mem w) q, data_start q, data_start q + n2], Some r))"
proof -
  let ?m = "mem w" and ?D = "data_start q" and ?n = "(n1 - 24) + (n2 - 24) + k"
  have lt: "head_of ?m q < cap_of ?m q" "tail_of ?m q < cap_of ?m q" using ok by (simp_all add: header_ok_def)
  obtain r1 where "get_free_region E ?m q None = returns r1" "region_is r1 (tail_of ?m q) (min n1 A)"
    using smart_first [OF q ok] wr unfolding n1_def A_def by auto
  then have r1: "get_free_region E ?m q None = returns r1" "region_is r1 (tail_of ?m q) n1"
    using room(2) by (simp_all add: n2_def min_absorb1)
  have n: "0 < ?n" "tail_of ?m q + n1 \<le> cap_of ?m q" using k lt by (simp_all add: n1_def)
  obtain w1 where w1: "make_loop E q w [] None ?n
      = make_loop E q w1 ([] @ [?D + tail_of ?m q]) (Some r1) (?n - min ?n (n1 - 24))"
    "header_ok (mem w1) q" "cap_of (mem w1) q = cap_of ?m q" "head_of (mem w1) q = head_of ?m q"
    "smart_limit E (mem w1) q = A"
    unfolding A_def by (rule smart_takes [OF q live ok n(1) r1 room(1) n(2), where pm = "[]"])
  have "tail_of ?m q + n1 = cap_of ?m q" using lt by (simp add: n1_def)
  note end1 = this
  obtain r2 where "get_free_region E (mem w1) q (Some r1) = returns r2"
    "region_is r2 ((tail_of ?m q + n1) mod cap_of (mem w1) q)
       (min (if head_of (mem w1) q < (tail_of ?m q + n1) mod cap_of (mem w1) q
         then cap_of (mem w1) q - (tail_of ?m q + n1) mod cap_of (mem w1) q
         else head_of (mem w1) q - (tail_of ?m q + n1) mod cap_of (mem w1) q)
         (smart_limit E (mem w1) q - n1))"
    by (rule smart_next_region [OF q w1(2) r1(2), of E]) (use n(2) room(2) w1(3,5) in \<open>simp_all add: n2_def\<close>)
  then have r2: "get_free_region E (mem w1) q (Some r1) = returns r2" "region_is r2 0 n2"
    using end1 w1(3-5) room(3) by (simp_all add: n2_def min_absorb2)
  have rest1: "?n - min ?n (n1 - 24) = (n2 - 24) + k" by simp
  have p2: "0 < (n2 - 24) + k" "0 + n2 \<le> cap_of (mem w1) q" using k room(3) lt w1(3) by simp_all
  obtain w2 where w2: "make_loop E q w1 [?D + tail_of ?m q] (Some r1) ((n2 - 24) + k)
      = make_loop E q w2 ([?D + tail_of ?m q] @ [?D + 0]) (Some r2)
          ((n2 - 24) + k - min ((n2 - 24) + k) (n2 - 24))"
    "header_ok (mem w2) q" "cap_of (mem w2) q = cap_of (mem w1) q" "head_of (mem w2) q = head_of (mem w1) q"
    "smart_limit E (mem w2) q = smart_limit E (mem w1) q"
    by (rule smart_takes [OF q live w1(2) p2(1) r2 room(2) p2(2), where pm = "[?D + tail_of ?m q]"])
  obtain r3 where r3': "get_free_region E (mem w2) q (Some r2) = returns r3"
    "region_is r3 ((0 + n2) mod cap_of (mem w2) q)
       (min (if head_of (mem w2) q < (0 + n2) mod cap_of (mem w2) q
         then cap_of (mem w2) q - (0 + n2) mod cap_of (mem w2) q
         else head_of (mem w2) q - (0 + n2) mod cap_of (mem w2) q)
         (smart_limit E (mem w2) q - n2))"
    by (rule smart_next_region [OF q w2(2) r2(2), of E]) (use p2(2) w2(3,5) w1(5) in \<open>simp_all add: n2_def\<close>)
  have "n2 mod cap_of ?m q = n2" using room(3) lt by simp
  moreover have "A - n2 = n1" using room(2) by (simp add: n2_def)
  ultimately have r3: "get_free_region E (mem w2) q (Some r2) = returns r3"
    "region_is r3 n2 (min (head_of ?m q - n2) n1)"
    using r3' w1(3-5) w2(3-5) room(3) by simp_all
  have p3: "24 < min (head_of ?m q - n2) n1" "n2 + min (head_of ?m q - n2) n1 \<le> cap_of (mem w2) q"
    using k lt w1(3) w2(3) by simp_all
  obtain w3 where w3: "make_loop E q w2 [?D + tail_of ?m q, ?D] (Some r2) k
      = make_loop E q w3 ([?D + tail_of ?m q, ?D] @ [?D + n2]) (Some r3)
          (k - min k (min (head_of ?m q - n2) n1 - 24))"
    by (rule smart_takes [OF q live w2(2) k(1) r3 p3, where pm = "[?D + tail_of ?m q, ?D]"])
  have "k - min k (min (head_of ?m q - n2) n1 - 24) = 0" using k by simp
  then have "make_loop E q w [] None ?n
      = returns (w3, Some ([?D + tail_of ?m q, ?D, ?D + n2], Some r3))"
    using w1(1) w2(1) w3 unfolding rest1 by (simp add: make_loop_done)
  then show ?thesis by blast
qed


section \<open>Properties\<close>

lemma smart_holdsD:
  assumes "smart_holds E P F s c" and "r \<in> sm_subs c"
  shows "smart_inv (mem (fst s)) F (\<lambda>r. get_sid (E r)) (snd s) c" "env_ok (E r)" "r \<in> P"
    "quiet (\<lambda>r. get_sid (E r)) c" "sm_ok c" "sm_ring c" "sm_ring (sm_clean c)"
proof -
  show inv: "smart_inv (mem (fst s)) F (\<lambda>r. get_sid (E r)) (snd s) c" using assms(1) by (simp add: smart_holds_def)
  show "sm_ok c" "sm_ring c" using smart_inv_ok [OF inv] smart_inv_sm_ring [OF inv] .
  then show "sm_ring (sm_clean c)" by (intro sm_ring_clean)
qed (use assms in \<open>auto simp: smart_holds_def\<close>)

text \<open>A run without new subscribers keeps the reserve.\<close>

lemma smart_run_reserve:
  assumes "smart_holds E P F s c" and "sm_reserve c \<le> sm_free c" and "\<forall>p \<in> set ps. fst p \<in> P \<and> snd p \<noteq> Connect"
    and "sm_run (\<lambda>r. get_sid (E r)) ps c = Some (os, c')"
  shows "\<exists>s'. run_calls (smart_call E F) ps s = returns (os, s') \<and> smart_holds E P F s' c'
    \<and> sm_reserve c' \<le> sm_free c'"
  using assms
proof (induction ps arbitrary: s c os)
  case (Cons p ps)
  obtain q a where p: "p = (q, a)" by fastforce
  obtain x c1 os2 where step: "sm_step (\<lambda>r. get_sid (E r)) p c = Some (x, c1)"
    and run: "sm_run (\<lambda>r. get_sid (E r)) ps c1 = Some (os2, c')" and os: "os = x # os2"
    using Cons.prems(4) by (auto split: option.splits)
  have inv: "smart_inv (mem (fst s)) F (\<lambda>r. get_sid (E r)) (snd s) c"
    using Cons.prems(1) by (simp add: smart_holds_def)
  have rings: "sm_ok c" "sm_ring c" "sm_ring (sm_clean c)"
    using smart_inv_ok [OF inv] smart_inv_sm_ring [OF inv] sm_ring_clean by blast+
  have res: "sm_reserve c1 \<le> sm_free c1"
    by (rule sm_step_reserve [OF step [unfolded p] _ rings Cons.prems(2)])
      (use Cons.prems(3) p in auto)
  have legal: "fst p \<in> P" using Cons.prems(3) by simp
  obtain s1 where s1: "smart_call E F p s = returns (x, s1)" "smart_holds E P F s1 c1"
    using smart_call_law [OF Cons.prems(1) legal step] by blast
  obtain s2 where "run_calls (smart_call E F) ps s1 = returns (os2, s2)" "smart_holds E P F s2 c'"
    "sm_reserve c' \<le> sm_free c'"
    using Cons.IH [OF s1(2) res _ run] Cons.prems(3) by auto
  with s1(1) os show ?case by auto
qed auto

lemma smart_leave:
  assumes h: "smart_holds E P F s c" and r: "r \<in> sm_subs c"
    and fit: "sm_fits (sm_clean c) [code_byte CODE_DISCONNECT]"
  shows "\<exists>w q. smart_destroy (E r) (fst s) (snd s r) = returns (w, q)"
proof -
  note d = smart_holdsD [OF h r]
  let ?c1 = "sm_add (get_sid (E r), SERVICE_TAG, [code_byte CODE_DISCONNECT]) (sm_clean c)"
  have "sm_service (get_sid (E r)) CODE_DISCONNECT c = Some ?c1"
    using fit by (simp add: sm_service_def Let_def)
  from smart_leaves [OF d(1) r d(2) refl d(4) this] show ?thesis by blast
qed

text \<open>
  C31. Once the reserve of a smart queue is free, and nobody joins,
  no described sequence of calls uses it up: afterwards the destructor of any subscriber returns,
  also when nobody has read anything and nobody reads meanwhile.
\<close>

theorem smart_leaving_never_blocks:
  assumes "smart_holds E P F s c" and "sm_reserve c \<le> sm_free c"
    and "\<forall>p \<in> set ps. fst p \<in> P \<and> snd p \<noteq> Connect"
    and "sm_run (\<lambda>r. get_sid (E r)) ps c = Some (os, c')"
  shows "\<exists>s'. run_calls (smart_call E F) ps s = returns (os, s')
    \<and> (\<forall>r \<in> sm_subs c'. \<exists>w q. smart_destroy (E r) (fst s') (snd s' r) = returns (w, q))"
proof -
  obtain s' where s': "run_calls (smart_call E F) ps s = returns (os, s')" "smart_holds E P F s' c'"
    "sm_reserve c' \<le> sm_free c'"
    using smart_run_reserve [OF assms] by blast
  have "\<exists>w q. smart_destroy (E r) (fst s') (snd s' r) = returns (w, q)" if r: "r \<in> sm_subs c'" for r
  proof (rule smart_leave [OF s'(2) r])
    note d = smart_holdsD [OF s'(2) r]
    have "0 < card (sm_subs c')" using d(5) r by (auto simp: sm_ok_def card_gt_0_iff)
    then have "50 \<le> sm_free (sm_clean c')"
      using sm_clean_reserve [OF d(5,6) s'(3)] by (simp add: sm_reserve_def)
    then show "sm_fits (sm_clean c') [code_byte CODE_DISCONNECT]" by (rule byte_fits [OF d(7)])
  qed
  with s'(1) show ?thesis by blast
qed

text \<open>
  C32. With no other process running, the destructor of a subscriber returns, without a crash, if
  its announcement fits into the ring after the packets that nobody waits for have been dropped;
  otherwise it pushes for ever, without reading its own packets, which may be those that fill the
  ring.
\<close>

theorem smart_leaves_or_waits:
  assumes "smart_holds E P F s c" and "r \<in> sm_subs c"
  shows "if sm_fits (sm_clean c) [code_byte CODE_DISCONNECT]
    then \<exists>w q. smart_destroy (E r) (fst s) (snd s r) = returns (w, q)
    else smart_destroy (E r) (fst s) (snd s r) = None"
proof -
  note d = smart_holdsD [OF assms]
  show ?thesis
    using smart_leave [OF assms] smart_leave_blocks [OF d(1) assms(2) d(2)] by auto
qed

theorem smart_leaving_never_blocks_witness:
  "\<exists>w q s'. smart_create (sample_process 1) \<lparr>mem = \<lambda>_. 9, readings = 0\<rparr> 5 64 400 = returns (w, q)
    \<and> run_calls (smart_call sample_process 64) [(1, Call (Push (7, replicate 240 3)))] (w, \<lambda>_. q)
      = returns ([Returned (Pushed True)], s')
    \<and> (\<exists>w1 q1. smart_destroy (sample_process 1) (fst s') (snd s' 1) = returns (w1, q1))"
proof -
  obtain w q where c: "smart_create (sample_process 1) \<lparr>mem = \<lambda>_. 9, readings = 0\<rparr> 5 64 400 = returns (w, q)"
    "smart_holds sample_process {1, 2} 64 (w, \<lambda>_. q) (new_smart 400 1 1)"
    using sample_smart [of 400] by auto
  have res: "sm_reserve (new_smart 400 1 1) \<le> sm_free (new_smart 400 1 1)" by (simp add: sample_defs)
  obtain c' where run: "sm_run (\<lambda>r. get_sid (sample_process r)) [(1, Call (Push (7, replicate 240 3)))] (new_smart 400 1 1)
      = Some ([Returned (Pushed True)], c')" and subs: "sm_subs c' = {1}"
    by (simp add: sample_defs)
  from smart_leaving_never_blocks [OF c(2) res _ run] subs c(1) show ?thesis by auto
qed

text \<open>A ring too small for the reserve of two subscribers, filled by one of them; the other cannot leave.\<close>

theorem smart_leaves_or_waits_witness:
  "\<exists>w q s'. smart_create (sample_process 1) \<lparr>mem = \<lambda>_. 9, readings = 0\<rparr> 5 64 100 = returns (w, q)
    \<and> run_calls (smart_call sample_process 64)
        [(2, Connect), (1, Call (Push (7, replicate 26 3))), (1, Call (Push (7, [3])))] (w, \<lambda>_. q)
      = returns ([Joined, Returned (Pushed True), Returned (Pushed True)], s')
    \<and> smart_destroy (sample_process 2) (fst s') (snd s' 2) = None"
proof -
  let ?ps = "[(2, Connect), (1, Call (Push (7, replicate 26 3))), (1, Call (Push (7, [3])))] :: smart_call list"
  obtain w q where c: "smart_create (sample_process 1) \<lparr>mem = \<lambda>_. 9, readings = 0\<rparr> 5 64 100 = returns (w, q)"
    "smart_holds sample_process {1, 2} 64 (w, \<lambda>_. q) (new_smart 100 1 1)"
    using sample_smart [of 100] by auto
  obtain c' where run: "sm_run (\<lambda>r. get_sid (sample_process r)) ?ps (new_smart 100 1 1)
      = Some ([Joined, Returned (Pushed True), Returned (Pushed True)], c')" and subs: "2 \<in> sm_subs c'"
    and full: "\<not> sm_fits (sm_clean c') [code_byte CODE_DISCONNECT]"
    by (simp add: sample_defs)
  obtain s' where s': "run_calls (smart_call sample_process 64) ?ps (w, \<lambda>_. q)
      = returns ([Joined, Returned (Pushed True), Returned (Pushed True)], s')"
    "smart_holds sample_process {1, 2} 64 s' c'"
    using smart.calls_law [OF c(2) _ run [unfolded sm_run_calls]] by auto
  have "smart_destroy (sample_process 2) (fst s') (snd s' 2) = None"
    using smart_leaves_or_waits [OF s'(2) subs] full by simp
  with s'(1) c(1) show ?thesis by blast
qed

text \<open>
  The cut of a free region looks only at the region before it: a
  message that gets the end of the ring, its start and a third part takes more bytes with its
  headers than the queue counts as available beyond the reserve, and is accepted.
\<close>

lemma smart_message_overdraws:
  assumes "user_object q" and "clock_live (clock E)" and "header_ok (mem w) q" and "wraps (mem w) q"
    and "n1 = cap_of (mem w) q - tail_of (mem w) q" and "n2 = smart_limit E (mem w) q - n1"
    and "24 < n1" and "24 < n2" and "n2 < head_of (mem w) q"
    and "0 < k" and "k + 24 \<le> n1" and "k + 24 \<le> head_of (mem w) q - n2"
    and "n = (n1 - 24) + (n2 - 24) + k"
  shows "\<exists>w' chain r. make_loop E q w [] None n = returns (w', Some (chain, Some r))
    \<and> smart_limit E (mem w) q < n + 24 * length chain"
proof -
  obtain w' r where "make_loop E q w [] None n
      = returns (w', Some ([data_start q + tail_of (mem w) q, data_start q, data_start q + n2], Some r))"
    using smart_overdraws [OF assms(1-4), folded assms(5), folded assms(6), OF assms(7-12)]
    unfolding assms(13) by blast
  moreover have "smart_limit E (mem w) q < n + 24 * 3" using assms(6-8,10,13) by linarith
  ultimately show ?thesis by fastforce
qed

end
