(* ===== verification/Locker.thy ===== *)
theory Locker
  imports Common
begin

text \<open>
  \<^verbatim>\<open>qbus/locker.h\<close>, \<^verbatim>\<open>qbus/locker.cpp\<close>: \<open>shared_locker\<close>, the readers-writer lock of the
  connectors.

  Each operation that holds the guard \<open>m_lock\<close> from its first to its last statement is one
  function on the two counters. The loops around them (\<open>lock\<close>, \<open>timed_lock\<close>, ...) take
  the clock and what the other processes do to the lock during the \<open>k\<close>-th \<open>yield\<close> as
  arguments. The step relation interleaves the atomic operations of any number of
  processes; the mutual exclusion theorems are about its reachable states.
\<close>

section \<open>The atomic operations\<close>

record shared_locker =
  m_scoped :: u32
  m_sharable :: u32

datatype lock_state = LS_SCOPED | LS_SHARABLE | LS_NONE

definition new_shared_locker :: shared_locker where
  "new_shared_locker = \<lparr>m_scoped = 0, m_sharable = 0\<rparr>"

definition try_book_lock :: "shared_locker \<Rightarrow> lock_state \<times> shared_locker" where
  "try_book_lock L =
     (if m_scoped L = 0
      then (if m_sharable L = 0 then LS_NONE else LS_SHARABLE, L\<lparr>m_scoped := 1\<rparr>)
      else (LS_SCOPED, L))"

definition count_sharable :: "shared_locker \<Rightarrow> u32" where
  "count_sharable L = m_sharable L"

definition try_lock :: "shared_locker \<Rightarrow> bool \<times> shared_locker" where
  "try_lock L =
     (if m_scoped L = 0 \<and> m_sharable L = 0 then (True, L\<lparr>m_scoped := 1\<rparr>) else (False, L))"

definition unlock :: "shared_locker \<Rightarrow> shared_locker run" where
  "unlock L =
     (if m_scoped L = 1 then returns (L\<lparr>m_scoped := 0\<rparr>) else crashes Assertion_failed)"

definition try_lock_sharable :: "shared_locker \<Rightarrow> bool \<times> shared_locker" where
  "try_lock_sharable L =
     (if m_scoped L = 0 \<and> m_sharable L < - 1 then (True, L\<lparr>m_sharable := m_sharable L + 1\<rparr>)
      else (False, L))"

definition unlock_sharable :: "shared_locker \<Rightarrow> shared_locker run" where
  "unlock_sharable L =
     (if m_sharable L > 0 then returns (L\<lparr>m_sharable := m_sharable L - 1\<rparr>)
      else crashes Assertion_failed)"

lemmas locker_defs = try_book_lock_def count_sharable_def try_lock_def unlock_def
  try_lock_sharable_def unlock_sharable_def

section \<open>The waiting operations\<close>

type_synonym 's others = "nat \<Rightarrow> 's \<Rightarrow> 's"

partial_function (option) wait_readers ::
  "shared_locker others \<Rightarrow> nat \<Rightarrow> shared_locker \<Rightarrow> shared_locker option" where
  "wait_readers others k L =
     (if count_sharable L > 0 then wait_readers others (k + 1) (others k L) else Some L)"

partial_function (option) lock ::
  "shared_locker others \<Rightarrow> nat \<Rightarrow> shared_locker \<Rightarrow> shared_locker option" where
  "lock others k L =
     (case try_book_lock L of
        (LS_NONE, L1) \<Rightarrow> Some L1
      | (LS_SCOPED, L1) \<Rightarrow> lock others (k + 1) (others k L1)
      | (LS_SHARABLE, L1) \<Rightarrow> wait_readers others k L1)"

partial_function (option) lock_sharable ::
  "shared_locker others \<Rightarrow> nat \<Rightarrow> shared_locker \<Rightarrow> shared_locker option" where
  "lock_sharable others k L =
     (case try_lock_sharable L of
        (locked, L1) \<Rightarrow>
          if locked then Some L1 else lock_sharable others (k + 1) (others k L1))"

text \<open>
  The timed operations. \<open>i\<close> is the number of the next clock call; they yield the result,
  the number of the next clock call and the lock. The outer loop cannot continue after
  \<open>LS_SHARABLE\<close>, since the inner one ends in a return.
\<close>

partial_function (option) timed_wait_readers ::
  "(nat \<Rightarrow> timespec option) \<Rightarrow> shared_locker others \<Rightarrow> timespec \<Rightarrow> nat \<Rightarrow> nat \<Rightarrow> shared_locker
    \<Rightarrow> (bool \<times> nat \<times> shared_locker) run" where
  "timed_wait_readers clk others ts k i L =
     and_then (as_run (get_monotonic_time clk i)) (\<lambda>(now, i1).
       if now < ts then
         if count_sharable L = 0 then returns (True, i1, L)
         else timed_wait_readers clk others ts (k + 1) i1 (others k L)
       else and_then (unlock L) (\<lambda>L1. returns (False, i1, L1)))"

partial_function (option) timed_lock_loop ::
  "(nat \<Rightarrow> timespec option) \<Rightarrow> shared_locker others \<Rightarrow> timespec \<Rightarrow> nat \<Rightarrow> nat \<Rightarrow> shared_locker
    \<Rightarrow> (bool \<times> nat \<times> shared_locker) run" where
  "timed_lock_loop clk others ts k i L =
     and_then (as_run (get_monotonic_time clk i)) (\<lambda>(now, i1).
       if now < ts then
         (case try_book_lock L of
            (LS_NONE, L1) \<Rightarrow> returns (True, i1, L1)
          | (LS_SCOPED, L1) \<Rightarrow> timed_lock_loop clk others ts (k + 1) i1 (others k L1)
          | (LS_SHARABLE, L1) \<Rightarrow> timed_wait_readers clk others ts k i1 L1)
       else returns (False, i1, L))"

definition timed_lock ::
  "(nat \<Rightarrow> timespec option) \<Rightarrow> shared_locker others \<Rightarrow> timespec \<Rightarrow> nat \<Rightarrow> shared_locker
    \<Rightarrow> (bool \<times> nat \<times> shared_locker) run" where
  "timed_lock clk others timeout i L =
     and_then (as_run (get_monotonic_time clk i)) (\<lambda>(now, i1).
       timed_lock_loop clk others (now + timeout) 0 i1 L)"

partial_function (option) timed_sharable_loop ::
  "(nat \<Rightarrow> timespec option) \<Rightarrow> shared_locker others \<Rightarrow> timespec \<Rightarrow> nat \<Rightarrow> nat \<Rightarrow> shared_locker
    \<Rightarrow> (bool \<times> nat \<times> shared_locker) run" where
  "timed_sharable_loop clk others ts k i L =
     and_then (as_run (get_monotonic_time clk i)) (\<lambda>(now, i1).
       if now < ts then
         (case try_lock_sharable L of
            (locked, L1) \<Rightarrow>
              if locked then returns (True, i1, L1)
              else timed_sharable_loop clk others ts (k + 1) i1 (others k L1))
       else returns (False, i1, L))"

definition timed_lock_sharable ::
  "(nat \<Rightarrow> timespec option) \<Rightarrow> shared_locker others \<Rightarrow> timespec \<Rightarrow> nat \<Rightarrow> shared_locker
    \<Rightarrow> (bool \<times> nat \<times> shared_locker) run" where
  "timed_lock_sharable clk others timeout i L =
     and_then (as_run (get_monotonic_time clk i)) (\<lambda>(now, i1).
       timed_sharable_loop clk others (now + timeout) 0 i1 L)"

section \<open>Processes\<close>

text \<open>
  What a process is doing with the lock: nothing, having booked the exclusive lock and waiting
  for the readers to leave (the inner loops of \<open>lock\<close> and \<open>timed_lock\<close>), holding the
  exclusive lock, or holding a sharable lock. A system has any number of processes.
\<close>

datatype activity = Idle | Booked | Writing | Reading

record system =
  locker :: shared_locker
  doing :: "nat \<Rightarrow> activity"

inductive step :: "system \<Rightarrow> system \<Rightarrow> bool" where
  book: "doing s p = Idle \<Longrightarrow> try_book_lock (locker s) = (r, L)
    \<Longrightarrow> a = (case r of LS_NONE \<Rightarrow> Writing | LS_SHARABLE \<Rightarrow> Booked | LS_SCOPED \<Rightarrow> Idle)
    \<Longrightarrow> step s (s\<lparr>locker := L, doing := (doing s)(p := a)\<rparr>)"
| enter: "doing s p = Booked \<Longrightarrow> count_sharable (locker s) = 0
    \<Longrightarrow> step s (s\<lparr>doing := (doing s)(p := Writing)\<rparr>)"
| give_up: "doing s p = Booked \<Longrightarrow> unlock (locker s) = returns L
    \<Longrightarrow> step s (s\<lparr>locker := L, doing := (doing s)(p := Idle)\<rparr>)"
| attempt: "doing s p = Idle \<Longrightarrow> try_lock (locker s) = (b, L)
    \<Longrightarrow> step s (s\<lparr>locker := L, doing := (doing s)(p := if b then Writing else Idle)\<rparr>)"
| leave: "doing s p = Writing \<Longrightarrow> unlock (locker s) = returns L
    \<Longrightarrow> step s (s\<lparr>locker := L, doing := (doing s)(p := Idle)\<rparr>)"
| share: "doing s p = Idle \<Longrightarrow> try_lock_sharable (locker s) = (b, L)
    \<Longrightarrow> step s (s\<lparr>locker := L, doing := (doing s)(p := if b then Reading else Idle)\<rparr>)"
| unshare: "doing s p = Reading \<Longrightarrow> unlock_sharable (locker s) = returns L
    \<Longrightarrow> step s (s\<lparr>locker := L, doing := (doing s)(p := Idle)\<rparr>)"

definition initial :: system where
  "initial = \<lparr>locker = new_shared_locker, doing = (\<lambda>_. Idle)\<rparr>"

inductive reachable :: "system \<Rightarrow> bool" where
  start: "reachable initial"
| more: "reachable s \<Longrightarrow> step s s' \<Longrightarrow> reachable s'"

inductive_cases stepE: "step s s'"

definition readers :: "system \<Rightarrow> nat set" where
  "readers s = {p. doing s p = Reading}"

definition owners :: "system \<Rightarrow> nat set" where
  "owners s = {p. doing s p = Booked \<or> doing s p = Writing}"

text \<open>
  The invariant: the counters say how many processes own and share the lock, at most one owns
  it, and nobody writes while somebody reads.
\<close>

definition system_inv :: "system \<Rightarrow> bool" where
  "system_inv s \<longleftrightarrow> finite (readers s) \<and> card (readers s) = unat (m_sharable (locker s))
     \<and> ((m_scoped (locker s) = 0 \<and> owners s = {}) \<or>
        (m_scoped (locker s) = 1 \<and> (\<exists>p. owners s = {p} \<and> (doing s p = Writing \<longrightarrow> readers s = {}))))"

lemma readers_update:
  "readers (s\<lparr>locker := L, doing := (doing s)(p := a)\<rparr>)
     = (if a = Reading then insert p (readers s) else readers s - {p})"
  by (auto simp: readers_def)

lemma owners_update:
  "owners (s\<lparr>locker := L, doing := (doing s)(p := a)\<rparr>)
     = (if a = Booked \<or> a = Writing then insert p (owners s) else owners s - {p})"
  by (auto simp: owners_def)

lemma system_inv_initial: "system_inv initial"
  by (simp add: system_inv_def initial_def new_shared_locker_def readers_def owners_def)

text \<open>Which kinds of change keep the invariant.\<close>

lemma inv_acquire:
  assumes "system_inv s" and "doing s p = Idle" and "m_scoped (locker s) = 0"
    and "a = Booked \<or> (a = Writing \<and> m_sharable (locker s) = 0)"
  shows "system_inv (s\<lparr>locker := (locker s)\<lparr>m_scoped := 1\<rparr>, doing := (doing s)(p := a)\<rparr>)"
proof -
  have own: "owners s = {}" and fin: "finite (readers s)"
    and card: "card (readers s) = unat (m_sharable (locker s))"
    using assms(1,3) by (auto simp: system_inv_def)
  have "readers s = {}" if "a = Writing"
    using that assms(4) fin card by auto
  moreover have "p \<notin> readers s" using assms(2) by (simp add: readers_def)
  ultimately show ?thesis
    using assms(4) own fin card unfolding system_inv_def readers_update owners_update by auto
qed

lemma inv_release:
  assumes "system_inv s" and "doing s p = Booked \<or> doing s p = Writing"
  shows "unlock (locker s) = returns ((locker s)\<lparr>m_scoped := 0\<rparr>)"
    "system_inv (s\<lparr>locker := (locker s)\<lparr>m_scoped := 0\<rparr>, doing := (doing s)(p := Idle)\<rparr>)"
proof -
  have "p \<in> owners s" using assms(2) by (simp add: owners_def)
  then have own: "m_scoped (locker s) = 1" "owners s = {p}" and fin: "finite (readers s)"
    and card: "card (readers s) = unat (m_sharable (locker s))"
    using assms(1) by (auto simp: system_inv_def)
  show "unlock (locker s) = returns ((locker s)\<lparr>m_scoped := 0\<rparr>)"
    using own by (simp add: unlock_def)
  have "p \<notin> readers s" using assms(2) by (auto simp: readers_def)
  then show "system_inv (s\<lparr>locker := (locker s)\<lparr>m_scoped := 0\<rparr>, doing := (doing s)(p := Idle)\<rparr>)"
    using own fin card unfolding system_inv_def readers_update owners_update by auto
qed

lemma inv_share:
  assumes "system_inv s" and "doing s p = Idle" and "m_scoped (locker s) = 0"
    and "m_sharable (locker s) < - 1"
  shows "system_inv (s\<lparr>locker := (locker s)\<lparr>m_sharable := m_sharable (locker s) + 1\<rparr>,
    doing := (doing s)(p := Reading)\<rparr>)"
proof -
  have own: "owners s = {}" and fin: "finite (readers s)"
    and card: "card (readers s) = unat (m_sharable (locker s))"
    using assms(1,3) by (auto simp: system_inv_def)
  have "unat (m_sharable (locker s)) < 4294967295"
    using assms(4) by (simp add: word_less_nat_alt unsigned_minus_1_eq_mask mask_eq_exp_minus_1)
  then have "unat (m_sharable (locker s) + 1) = Suc (card (readers s))"
    by (simp add: unat_word_ariths card)
  moreover have "p \<notin> readers s" using assms(2) by (simp add: readers_def)
  ultimately show ?thesis
    using own fin assms(3) unfolding system_inv_def readers_update owners_update by auto
qed

lemma inv_unshare:
  assumes "system_inv s" and "doing s p = Reading"
  shows "unlock_sharable (locker s)
      = returns ((locker s)\<lparr>m_sharable := m_sharable (locker s) - 1\<rparr>)"
    "system_inv (s\<lparr>locker := (locker s)\<lparr>m_sharable := m_sharable (locker s) - 1\<rparr>,
      doing := (doing s)(p := Idle)\<rparr>)"
proof -
  have fin: "finite (readers s)" and card: "card (readers s) = unat (m_sharable (locker s))"
    using assms(1) by (auto simp: system_inv_def)
  have p: "p \<in> readers s" using assms(2) by (simp add: readers_def)
  then have pos: "0 < unat (m_sharable (locker s))" using fin card card_gt_0_iff [of "readers s"] by auto
  then show "unlock_sharable (locker s)
      = returns ((locker s)\<lparr>m_sharable := m_sharable (locker s) - 1\<rparr>)"
    by (simp add: unlock_sharable_def word_less_nat_alt)
  have "unat (m_sharable (locker s) - 1) = card (readers s - {p})"
    using pos p fin card by (simp add: unat_sub word_le_nat_alt)
  moreover have "p \<notin> owners s" using assms(2) by (simp add: owners_def)
  ultimately show "system_inv (s\<lparr>locker := (locker s)\<lparr>m_sharable := m_sharable (locker s) - 1\<rparr>,
      doing := (doing s)(p := Idle)\<rparr>)"
    using assms fin unfolding system_inv_def readers_update owners_update by auto
qed

lemma unchanged_idle:
  "doing s p = a \<Longrightarrow> s\<lparr>doing := (doing s)(p := a)\<rparr> = s"
  by (cases s) auto

lemma system_inv_step:
  assumes "step s s'" and "system_inv s"
  shows "system_inv s'"
  using assms(1)
proof (cases rule: step.cases)
  case (book p r L a)
  show ?thesis
  proof (cases "m_scoped (locker s) = 0")
    case True
    with book have "L = (locker s)\<lparr>m_scoped := 1\<rparr>"
      "a = Booked \<or> (a = Writing \<and> m_sharable (locker s) = 0)"
      by (auto simp: try_book_lock_def split: if_splits)
    with book(1) show ?thesis using inv_acquire [OF assms(2) book(2) True] by simp
  next
    case False
    with book have "L = locker s" "a = Idle" by (auto simp: try_book_lock_def)
    with book(1,2) assms(2) show ?thesis by (simp add: unchanged_idle)
  qed
next
  case (enter p)
  then have "p \<in> owners s" by (simp add: owners_def)
  then have "owners s = {p}" "finite (readers s)" "card (readers s) = 0" "m_scoped (locker s) = 1"
    using assms(2) enter(3) by (auto simp: system_inv_def count_sharable_def)
  moreover have "readers s' = readers s - {p}" "owners s' = insert p (owners s)"
    using enter by (auto simp: readers_def owners_def)
  moreover have "locker s' = locker s" using enter by simp
  ultimately show ?thesis
    using enter(3) by (simp add: system_inv_def count_sharable_def)
next
  case (give_up p L)
  then show ?thesis using inv_release [OF assms(2), of p] by simp
next
  case (attempt p b L)
  show ?thesis
  proof (cases b)
    case True
    with attempt show ?thesis
      using inv_acquire [OF assms(2) attempt(2), of Writing] by (auto simp: try_lock_def split: if_splits)
  next
    case False
    with attempt assms(2) show ?thesis
      by (auto simp: try_lock_def unchanged_idle split: if_splits)
  qed
next
  case (leave p L)
  then show ?thesis using inv_release [OF assms(2), of p] by simp
next
  case (share p b L)
  show ?thesis
  proof (cases b)
    case True
    with share show ?thesis
      using inv_share [OF assms(2) share(2)] by (auto simp: try_lock_sharable_def split: if_splits)
  next
    case False
    with share assms(2) show ?thesis
      by (auto simp: try_lock_sharable_def unchanged_idle split: if_splits)
  qed
next
  case (unshare p L)
  then show ?thesis using inv_unshare [OF assms(2), of p] by simp
qed

lemma reachable_inv: "reachable s \<Longrightarrow> system_inv s"
  by (induction rule: reachable.induct) (auto simp: system_inv_initial dest: system_inv_step)

section \<open>The waiting operations\<close>

text \<open>
  What a process may rely on while it waits: the others do not release a booking that is not
  theirs, which the invariant of the reachable states guarantees.
\<close>

definition keeps_booking :: "shared_locker others \<Rightarrow> bool" where
  "keeps_booking others \<longleftrightarrow> (\<forall>k L. m_scoped L = 1 \<longrightarrow> m_scoped (others k L) = 1)"

lemma try_lock_sharable_positive:
  assumes "try_lock_sharable L = (True, L1)"
  shows "m_scoped L1 = 0 \<and> m_sharable L1 > 0"
proof -
  have "m_sharable L < - 1" "m_scoped L = 0" "L1 = L\<lparr>m_sharable := m_sharable L + 1\<rparr>"
    using assms by (auto simp: try_lock_sharable_def split: if_splits)
  moreover from this have "m_sharable L + 1 \<noteq> 0"
    by (metis add.inverse_inverse add_eq_0_iff2 order_less_irrefl)
  ultimately show ?thesis by (simp add: word_gt_0)
qed

lemma monotonic_cases:
  assumes "clock_live clk"
  obtains ts j where "get_monotonic_time clk i = Some (ts, Suc j)" "i \<le> j" "clk j = Some ts"
  using get_monotonic_time_live [OF assms] by metis

lemma reaches_before: "reaches clk ts N \<Longrightarrow> clk j = Some now \<Longrightarrow> now < ts \<Longrightarrow> j < N"
  by (meson reaches_def leD le_less_linear)

lemma timed_wait_readers_returns:
  assumes "clock_live clk" and "reaches clk ts N" and "keeps_booking others" and "m_scoped L = 1"
  shows "\<exists>b i' L'. timed_wait_readers clk others ts k i L = returns (b, i', L')
    \<and> i \<le> i' \<and> (b \<longrightarrow> m_scoped L' = 1 \<and> m_sharable L' = 0) \<and> (\<not> b \<longrightarrow> m_scoped L' = 0)"
  using assms(4)
proof (induction "N - i" arbitrary: i k L rule: less_induct)
  case less
  obtain now j where t: "get_monotonic_time clk i = Some (now, Suc j)" "i \<le> j" "clk j = Some now"
    by (rule monotonic_cases [OF assms(1)])
  show ?case
  proof (cases "now < ts")
    case False
    then have "timed_wait_readers clk others ts k i L = returns (False, Suc j, L\<lparr>m_scoped := 0\<rparr>)"
      using t(1) less.prems by (subst timed_wait_readers.simps) (simp add: unlock_def)
    with t(2) show ?thesis by auto
  next
    case True
    then have "j < N" using reaches_before [OF assms(2) t(3)] by simp
    show ?thesis
    proof (cases "m_sharable L = 0")
      case True
      then have "timed_wait_readers clk others ts k i L = returns (True, Suc j, L)"
        using t(1) \<open>now < ts\<close> by (subst timed_wait_readers.simps) (simp add: count_sharable_def)
      with True less.prems t(2) show ?thesis by auto
    next
      case False
      then have "timed_wait_readers clk others ts k i L
          = timed_wait_readers clk others ts (k + 1) (Suc j) (others k L)"
        using t(1) \<open>now < ts\<close> by (subst timed_wait_readers.simps) (simp add: count_sharable_def)
      moreover have "N - Suc j < N - i" "m_scoped (others k L) = 1"
        using \<open>j < N\<close> t(2) assms(3) less.prems by (auto simp: keeps_booking_def)
      ultimately show ?thesis using less.hyps [of "Suc j" "others k L" "k + 1"] t(2) by fastforce
    qed
  qed
qed

lemma timed_lock_loop_returns:
  assumes "clock_live clk" and "reaches clk ts N" and "keeps_booking others"
  shows "\<exists>b i' L'. timed_lock_loop clk others ts k i L = returns (b, i', L')
    \<and> i \<le> i' \<and> (b \<longrightarrow> m_scoped L' = 1 \<and> m_sharable L' = 0)"
proof (induction "N - i" arbitrary: i k L rule: less_induct)
  case less
  obtain now j where t: "get_monotonic_time clk i = Some (now, Suc j)" "i \<le> j" "clk j = Some now"
    by (rule monotonic_cases [OF assms(1)])
  show ?case
  proof (cases "now < ts")
    case False
    then have "timed_lock_loop clk others ts k i L = returns (False, Suc j, L)"
      using t(1) by (subst timed_lock_loop.simps) simp
    with t(2) show ?thesis by auto
  next
    case True
    then have "j < N" using reaches_before [OF assms(2) t(3)] by simp
    obtain r L1 where book: "try_book_lock L = (r, L1)" by fastforce
    show ?thesis
    proof (cases r)
      case LS_NONE
      then have "timed_lock_loop clk others ts k i L = returns (True, Suc j, L1)"
        using t(1) True book by (subst timed_lock_loop.simps) simp
      moreover have "m_scoped L1 = 1 \<and> m_sharable L1 = 0"
        using LS_NONE book by (auto simp: try_book_lock_def split: if_splits)
      ultimately show ?thesis using t(2) by auto
    next
      case LS_SCOPED
      then have "timed_lock_loop clk others ts k i L
          = timed_lock_loop clk others ts (k + 1) (Suc j) (others k L1)"
        using t(1) True book by (subst timed_lock_loop.simps) simp
      moreover have "N - Suc j < N - i" using \<open>j < N\<close> t(2) by simp
      ultimately show ?thesis using less.hyps [of "Suc j" "k + 1" "others k L1"] t(2) by fastforce
    next
      case LS_SHARABLE
      then have "timed_lock_loop clk others ts k i L = timed_wait_readers clk others ts k (Suc j) L1"
        using t(1) True book by (subst timed_lock_loop.simps) simp
      moreover have "m_scoped L1 = 1"
        using book LS_SHARABLE by (auto simp: try_book_lock_def split: if_splits)
      ultimately show ?thesis
        using timed_wait_readers_returns [OF assms(1-3), of L1 k "Suc j"] t(2) by fastforce
    qed
  qed
qed

lemma timed_lock_returns:
  assumes "clock_live clk" and "clock_runs clk" and "keeps_booking others"
  shows "\<exists>b i' L'. timed_lock clk others timeout i L = returns (b, i', L')
    \<and> i \<le> i' \<and> (b \<longrightarrow> m_scoped L' = 1 \<and> m_sharable L' = 0)"
proof -
  obtain now j where t: "get_monotonic_time clk i = Some (now, Suc j)" "i \<le> j"
    by (rule monotonic_cases [OF assms(1)])
  obtain N where "reaches clk (now + timeout) N" using assms(2) by (auto simp: clock_runs_def)
  from timed_lock_loop_returns [OF assms(1) this assms(3), of 0 "Suc j" L] t(2) show ?thesis
    by (fastforce simp: timed_lock_def t(1))
qed

lemma timed_sharable_loop_returns:
  assumes "clock_live clk" and "reaches clk ts N"
  shows "\<exists>b i' L'. timed_sharable_loop clk others ts k i L = returns (b, i', L')
    \<and> i \<le> i' \<and> (b \<longrightarrow> m_scoped L' = 0 \<and> m_sharable L' > 0)"
proof (induction "N - i" arbitrary: i k L rule: less_induct)
  case less
  obtain now j where t: "get_monotonic_time clk i = Some (now, Suc j)" "i \<le> j" "clk j = Some now"
    by (rule monotonic_cases [OF assms(1)])
  show ?case
  proof (cases "now < ts")
    case False
    then have "timed_sharable_loop clk others ts k i L = returns (False, Suc j, L)"
      using t(1) by (subst timed_sharable_loop.simps) simp
    with t(2) show ?thesis by auto
  next
    case True
    then have "j < N" using reaches_before [OF assms(2) t(3)] by simp
    obtain b L1 where share: "try_lock_sharable L = (b, L1)" by fastforce
    show ?thesis
    proof (cases b)
      case True
      then have "timed_sharable_loop clk others ts k i L = returns (True, Suc j, L1)"
        using t(1) \<open>now < ts\<close> share by (subst timed_sharable_loop.simps) simp
      moreover have "m_scoped L1 = 0 \<and> m_sharable L1 > 0"
        using share True try_lock_sharable_positive by simp
      ultimately show ?thesis using t(2) by auto
    next
      case False
      then have "timed_sharable_loop clk others ts k i L
          = timed_sharable_loop clk others ts (k + 1) (Suc j) (others k L1)"
        using t(1) \<open>now < ts\<close> share by (subst timed_sharable_loop.simps) simp
      moreover have "N - Suc j < N - i" using \<open>j < N\<close> t(2) by simp
      ultimately show ?thesis using less.hyps [of "Suc j" "k + 1" "others k L1"] t(2) by fastforce
    qed
  qed
qed

lemma timed_lock_sharable_returns:
  assumes "clock_live clk" and "clock_runs clk"
  shows "\<exists>b i' L'. timed_lock_sharable clk others timeout i L = returns (b, i', L')
    \<and> i \<le> i' \<and> (b \<longrightarrow> m_scoped L' = 0 \<and> m_sharable L' > 0)"
proof -
  obtain now j where t: "get_monotonic_time clk i = Some (now, Suc j)" "i \<le> j"
    by (rule monotonic_cases [OF assms(1)])
  obtain N where "reaches clk (now + timeout) N" using assms(2) by (auto simp: clock_runs_def)
  from timed_sharable_loop_returns [OF assms(1) this, of others 0 "Suc j" L] t(2) show ?thesis
    by (fastforce simp: timed_lock_sharable_def t(1))
qed

text \<open>The relation between the loops and the step relation: what may happen during a yield.\<close>

lemma others_keep_booking:
  assumes "system_inv s" and "doing s p = Booked \<or> doing s p = Writing" and "step s s'"
    and "doing s' p = doing s p"
  shows "m_scoped (locker s') = 1"
proof -
  have "p \<in> owners s'" using assms(2,4) by (auto simp: owners_def)
  then show ?thesis using system_inv_step [OF assms(3,1)] by (auto simp: system_inv_def)
qed

section \<open>Properties\<close>

text \<open>
  C9. However the operations of any number of processes
  interleave: while one process holds the exclusive lock, no other holds it, has booked it or
  holds a sharable lock.
\<close>

theorem shared_locker_mutual_exclusion:
  assumes "reachable s" and "doing s p = Writing" and "q \<noteq> p"
  shows "doing s q = Idle"
proof -
  have "p \<in> owners s" using assms(2) by (simp add: owners_def)
  then have "owners s = {p}" "readers s = {}"
    using reachable_inv [OF assms(1)] assms(2) by (auto simp: system_inv_def)
  then have "q \<notin> owners s" "q \<notin> readers s" using assms(3) by auto
  then show ?thesis by (cases "doing s q") (auto simp: owners_def readers_def)
qed

lemma reachable_writing:
  "reachable (initial\<lparr>locker := \<lparr>m_scoped = 1, m_sharable = 0\<rparr>, doing := (\<lambda>_. Idle)(4 := Writing)\<rparr>)"
proof -
  have "step initial (initial\<lparr>locker := \<lparr>m_scoped = 1, m_sharable = 0\<rparr>,
      doing := (doing initial)(4 := Writing)\<rparr>)"
    by (rule step.book [where r = LS_NONE])
      (simp_all add: initial_def new_shared_locker_def try_book_lock_def)
  then show ?thesis by (auto simp: initial_def intro: reachable.intros)
qed

theorem shared_locker_mutual_exclusion_witness:
  "doing (initial\<lparr>locker := \<lparr>m_scoped = 1, m_sharable = 0\<rparr>, doing := (\<lambda>_. Idle)(4 := Writing)\<rparr>) 9 = Idle"
  by (rule shared_locker_mutual_exclusion [OF reachable_writing, where p = 4]) simp_all

text \<open>
  C40. The assertions of \<open>unlock\<close> and \<open>unlock_sharable\<close>
  hold whenever the lock is used as the guards use it: a process that owns the lock can
  release it, one that shares it can leave, and the counter of the readers is exact.
\<close>

theorem shared_locker_assertions:
  assumes "reachable s"
  shows "(doing s p = Writing \<or> doing s p = Booked \<longrightarrow> (\<exists>L. unlock (locker s) = returns L))
    \<and> (doing s p = Reading \<longrightarrow> (\<exists>L. unlock_sharable (locker s) = returns L))
    \<and> unat (m_sharable (locker s)) = card {p. doing s p = Reading}"
  using inv_release(1) [OF reachable_inv [OF assms]] inv_unshare(1) [OF reachable_inv [OF assms]]
    reachable_inv [OF assms] by (auto simp: system_inv_def readers_def)

theorem shared_locker_assertions_witness:
  "\<exists>L. unlock \<lparr>m_scoped = 1, m_sharable = 0\<rparr> = returns L"
  using shared_locker_assertions [OF reachable_writing, of 4] by simp

text \<open>
  C29. A process that waits with the lock booked is never stuck: it
  can enter, or a reader can leave; and no process becomes a reader while it waits.
\<close>

theorem shared_locker_progress:
  assumes "reachable s" and "doing s p = Booked"
  shows "(count_sharable (locker s) = 0 \<or>
      (\<exists>q L. doing s q = Reading \<and> unlock_sharable (locker s) = returns L))
    \<and> (\<forall>s'. step s s' \<longrightarrow> doing s' p = Booked \<longrightarrow>
        {q. doing s' q = Reading} \<subseteq> {q. doing s q = Reading})"
proof (intro conjI allI impI)
  have own: "m_scoped (locker s) = 1"
    using reachable_inv [OF assms(1)] assms(2) by (auto simp: system_inv_def owners_def)
  show "count_sharable (locker s) = 0 \<or>
      (\<exists>q L. doing s q = Reading \<and> unlock_sharable (locker s) = returns L)"
  proof (cases "m_sharable (locker s) = 0")
    case False
    then have "readers s \<noteq> {}"
      using reachable_inv [OF assms(1)] by (auto simp: system_inv_def unat_eq_zero)
    then obtain q where "doing s q = Reading" by (auto simp: readers_def)
    with inv_unshare(1) [OF reachable_inv [OF assms(1)]] show ?thesis by blast
  qed (simp add: count_sharable_def)
  fix s' assume "step s s'" "doing s' p = Booked"
  then show "{q. doing s' q = Reading} \<subseteq> {q. doing s q = Reading}"
    using own assms(2) by cases
      (auto simp: try_book_lock_def try_lock_def try_lock_sharable_def split: if_splits)
qed

definition booked_system :: system where
  "booked_system = \<lparr>locker = \<lparr>m_scoped = 1, m_sharable = 1\<rparr>,
     doing = (\<lambda>_. Idle)(4 := Reading, 9 := Booked)\<rparr>"

lemma reachable_booked: "reachable booked_system"
proof -
  let ?s = "\<lparr>locker = \<lparr>m_scoped = 0, m_sharable = 1\<rparr>, doing = (\<lambda>_. Idle)(4 := Reading)\<rparr>"
  have "step initial ?s"
    using step.share [of initial 4 True "\<lparr>m_scoped = 0, m_sharable = 1\<rparr>"]
    by (simp add: initial_def new_shared_locker_def try_lock_sharable_def word_gt_0)
  moreover have "step ?s booked_system"
    using step.book [of ?s 9 LS_SHARABLE "\<lparr>m_scoped = 1, m_sharable = 1\<rparr>" Booked]
    by (simp add: booked_system_def try_book_lock_def)
  ultimately show ?thesis using reachable.intros by blast
qed

theorem shared_locker_progress_witness:
  "\<exists>q L. doing booked_system q = Reading \<and> unlock_sharable (locker booked_system) = returns L"
proof -
  have "doing booked_system 9 = Booked"
    "count_sharable (locker booked_system) \<noteq> 0"
    by (simp_all add: booked_system_def count_sharable_def)
  then show ?thesis
    using shared_locker_progress [OF reachable_booked, of 9] by simp
qed

text \<open>
  \<open>timed_lock\<close> returns once the clock has passed its deadline, never
  failing the assertion of its own \<open>unlock\<close>, provided the others leave a booking alone that
  is not theirs; when it reports success the lock is owned and no reader is left.
\<close>

theorem timed_lock_ends:
  assumes "clock_live clk" and "clock_runs clk" and "keeps_booking others"
  shows "\<exists>b i' L'. timed_lock clk others timeout i L = returns (b, i', L')
    \<and> (b \<longrightarrow> m_scoped L' = 1 \<and> m_sharable L' = 0)"
  using timed_lock_returns [OF assms] by blast

theorem timed_lock_ends_witness:
  "\<exists>b i' L'. timed_lock sample_clock (\<lambda>k L. L\<lparr>m_sharable := m_sharable L - 1\<rparr>) (Timespec 5 0) 0
     \<lparr>m_scoped = 0, m_sharable = 2\<rparr> = returns (b, i', L')"
  using timed_lock_ends [of sample_clock "\<lambda>k L. L\<lparr>m_sharable := m_sharable L - 1\<rparr>" "Timespec 5 0" 0
    "\<lparr>m_scoped = 0, m_sharable = 2\<rparr>"] by (auto simp: keeps_booking_def)

text \<open>
  \<open>timed_lock_sharable\<close> returns once the clock has passed
  its deadline, whatever the other processes do; on success nobody owns the lock and at least
  one process shares it.
\<close>

theorem timed_lock_sharable_ends:
  assumes "clock_live clk" and "clock_runs clk"
  shows "\<exists>b i' L'. timed_lock_sharable clk others timeout i L = returns (b, i', L')
    \<and> (b \<longrightarrow> m_scoped L' = 0 \<and> m_sharable L' > 0)"
  using timed_lock_sharable_returns [OF assms] by blast

theorem timed_lock_sharable_ends_witness:
  "\<exists>b i' L'. timed_lock_sharable sample_clock (\<lambda>k L. L) (Timespec 1 0) 0 new_shared_locker
     = returns (b, i', L')"
  using timed_lock_sharable_ends [of sample_clock "\<lambda>k L. L" "Timespec 1 0" 0 new_shared_locker] by auto

end
