(* ===== verification/Guards.thy ===== *)
theory Guards
  imports Locker
begin

text \<open>
  \<^verbatim>\<open>qbus/locker.h\<close>: the lock guards \<open>scoped_lock\<close> and \<open>sharable_lock\<close>, the classes
  derived from them that try or wait when constructed, and \<^verbatim>\<open>qbus/locker.cpp\<close>:
  \<open>shared_posix_locker\<close> over the calls of the pthread library.

  The two templates have the same code over two sides of a locker, so a guard is modelled once
  over a \<open>side\<close>, the four operations the template calls: the exclusive ones for
  \<open>scoped_lock\<close> and the sharable ones for \<open>sharable_lock\<close>.
\<close>

section \<open>Guards\<close>

record 'l side =
  side_lock :: "'l \<Rightarrow> 'l run"
  side_try :: "'l \<Rightarrow> (bool \<times> 'l) run"
  side_timed :: "timespec \<Rightarrow> 'l \<Rightarrow> (bool \<times> 'l) run"
  side_unlock :: "'l \<Rightarrow> 'l run"

text \<open>A guard is its flag \<open>m_locked\<close>; the locker it refers to is passed along.\<close>

type_synonym guard = bool

definition guard_lock :: "'l side \<Rightarrow> guard \<Rightarrow> 'l \<Rightarrow> (guard \<times> 'l) run" where
  "guard_lock S m_locked l =
     (if m_locked then crashes Lock_exception
      else and_then (side_lock S l) (\<lambda>l1. returns (True, l1)))"

definition guard_try_lock :: "'l side \<Rightarrow> guard \<Rightarrow> 'l \<Rightarrow> (bool \<times> guard \<times> 'l) run" where
  "guard_try_lock S m_locked l =
     (if m_locked then crashes Lock_exception
      else and_then (side_try S l) (\<lambda>(b, l1). returns (b, b, l1)))"

definition guard_timed_lock :: "'l side \<Rightarrow> timespec \<Rightarrow> guard \<Rightarrow> 'l \<Rightarrow> (bool \<times> guard \<times> 'l) run" where
  "guard_timed_lock S timeout m_locked l =
     (if m_locked then crashes Lock_exception
      else and_then (side_timed S timeout l) (\<lambda>(b, l1). returns (b, b, l1)))"

definition guard_unlock :: "'l side \<Rightarrow> guard \<Rightarrow> 'l \<Rightarrow> (guard \<times> 'l) run" where
  "guard_unlock S m_locked l =
     (if \<not> m_locked then crashes Lock_exception
      else and_then (side_unlock S l) (\<lambda>l1. returns (False, l1)))"

definition owns :: "guard \<Rightarrow> bool" where
  "owns m_locked = m_locked"

definition guard_immediate :: "'l side \<Rightarrow> 'l \<Rightarrow> (guard \<times> 'l) run" where
  "guard_immediate S l = guard_lock S False l"

definition guard_deferred :: "'l \<Rightarrow> guard \<times> 'l" where
  "guard_deferred l = (False, l)"

definition guard_try :: "'l side \<Rightarrow> 'l \<Rightarrow> (guard \<times> 'l) run" where
  "guard_try S l = side_try S l"

definition guard_timed :: "'l side \<Rightarrow> timespec \<Rightarrow> 'l \<Rightarrow> (guard \<times> 'l) run" where
  "guard_timed S timeout l = side_timed S timeout l"

text \<open>The destructor swallows every exception of the locker; an assertion is not one.\<close>

definition guard_destroy :: "'l side \<Rightarrow> guard \<Rightarrow> 'l \<Rightarrow> 'l run" where
  "guard_destroy S m_locked l =
     (if m_locked then
        (if side_unlock S l = crashes Lock_exception then returns l else side_unlock S l)
      else returns l)"

section \<open>\<open>sharable_lock\<close>\<close>

text \<open>
  A class \<open>Locker\<close> with both sets of operations, the argument of the two templates. The code of
  \<open>sharable_lock\<close> is written out over its sharable operations.
\<close>

record 'l lockable =
  exclusive_ops :: "'l side"
  op_lock_sharable :: "'l \<Rightarrow> 'l run"
  op_try_lock_sharable :: "'l \<Rightarrow> (bool \<times> 'l) run"
  op_timed_lock_sharable :: "timespec \<Rightarrow> 'l \<Rightarrow> (bool \<times> 'l) run"
  op_unlock_sharable :: "'l \<Rightarrow> 'l run"

definition sharable_lock_lock :: "'l lockable \<Rightarrow> guard \<Rightarrow> 'l \<Rightarrow> (guard \<times> 'l) run" where
  "sharable_lock_lock K m_locked l =
     (if m_locked then crashes Lock_exception
      else and_then (op_lock_sharable K l) (\<lambda>l1. returns (True, l1)))"

definition sharable_lock_try_lock :: "'l lockable \<Rightarrow> guard \<Rightarrow> 'l \<Rightarrow> (bool \<times> guard \<times> 'l) run" where
  "sharable_lock_try_lock K m_locked l =
     (if m_locked then crashes Lock_exception
      else and_then (op_try_lock_sharable K l) (\<lambda>(b, l1). returns (b, b, l1)))"

definition sharable_lock_timed_lock ::
  "'l lockable \<Rightarrow> timespec \<Rightarrow> guard \<Rightarrow> 'l \<Rightarrow> (bool \<times> guard \<times> 'l) run" where
  "sharable_lock_timed_lock K timeout m_locked l =
     (if m_locked then crashes Lock_exception
      else and_then (op_timed_lock_sharable K timeout l) (\<lambda>(b, l1). returns (b, b, l1)))"

definition sharable_lock_unlock :: "'l lockable \<Rightarrow> guard \<Rightarrow> 'l \<Rightarrow> (guard \<times> 'l) run" where
  "sharable_lock_unlock K m_locked l =
     (if \<not> m_locked then crashes Lock_exception
      else and_then (op_unlock_sharable K l) (\<lambda>l1. returns (False, l1)))"

definition sharable_lock_owns :: "guard \<Rightarrow> bool" where
  "sharable_lock_owns m_locked = m_locked"

definition sharable_lock_immediate :: "'l lockable \<Rightarrow> 'l \<Rightarrow> (guard \<times> 'l) run" where
  "sharable_lock_immediate K l = sharable_lock_lock K False l"

definition sharable_lock_deferred :: "'l \<Rightarrow> guard \<times> 'l" where
  "sharable_lock_deferred l = (False, l)"

definition sharable_lock_try :: "'l lockable \<Rightarrow> 'l \<Rightarrow> (guard \<times> 'l) run" where
  "sharable_lock_try K l = op_try_lock_sharable K l"

definition sharable_lock_timed :: "'l lockable \<Rightarrow> timespec \<Rightarrow> 'l \<Rightarrow> (guard \<times> 'l) run" where
  "sharable_lock_timed K timeout l = op_timed_lock_sharable K timeout l"

definition sharable_lock_destroy :: "'l lockable \<Rightarrow> guard \<Rightarrow> 'l \<Rightarrow> 'l run" where
  "sharable_lock_destroy K m_locked l =
     (if m_locked then
        (if op_unlock_sharable K l = crashes Lock_exception then returns l else op_unlock_sharable K l)
      else returns l)"

text \<open>The classes that are only used to try or to wait when they are constructed.\<close>

definition scoped_try_lock :: "'l lockable \<Rightarrow> timespec option \<Rightarrow> 'l \<Rightarrow> (guard \<times> 'l) run" where
  "scoped_try_lock K timeout l =
     (case timeout of None \<Rightarrow> guard_try (exclusive_ops K) l
      | Some t \<Rightarrow> guard_timed (exclusive_ops K) t l)"

definition sharable_try_lock :: "'l lockable \<Rightarrow> timespec option \<Rightarrow> 'l \<Rightarrow> (guard \<times> 'l) run" where
  "sharable_try_lock K timeout l =
     (case timeout of None \<Rightarrow> sharable_lock_try K l | Some t \<Rightarrow> sharable_lock_timed K t l)"

text \<open>
  The sharable operations as a side: \<open>sharable_lock\<close> is the code of \<open>scoped_lock\<close> over it, so
  that what is proved of the guards over a side holds for both templates.
\<close>

definition sharable_ops :: "'l lockable \<Rightarrow> 'l side" where
  "sharable_ops K =
     \<lparr>side_lock = op_lock_sharable K, side_try = op_try_lock_sharable K,
      side_timed = op_timed_lock_sharable K, side_unlock = op_unlock_sharable K\<rparr>"

lemma sharable_lock_is_guard:
  "sharable_lock_lock K = guard_lock (sharable_ops K)"
  "sharable_lock_try_lock K = guard_try_lock (sharable_ops K)"
  "sharable_lock_timed_lock K = guard_timed_lock (sharable_ops K)"
  "sharable_lock_unlock K = guard_unlock (sharable_ops K)"
  "sharable_lock_owns = owns"
  "sharable_lock_immediate K = guard_immediate (sharable_ops K)"
  "sharable_lock_deferred = guard_deferred"
  "sharable_lock_try K = guard_try (sharable_ops K)"
  "sharable_lock_timed K = guard_timed (sharable_ops K)"
  "sharable_lock_destroy K = guard_destroy (sharable_ops K)"
  by (intro ext, simp add: sharable_ops_def sharable_lock_lock_def guard_lock_def
    sharable_lock_try_lock_def guard_try_lock_def sharable_lock_timed_lock_def guard_timed_lock_def
    sharable_lock_unlock_def guard_unlock_def sharable_lock_owns_def owns_def
    sharable_lock_immediate_def guard_immediate_def sharable_lock_deferred_def guard_deferred_def
    sharable_lock_try_def guard_try_def sharable_lock_timed_def guard_timed_def
    sharable_lock_destroy_def guard_destroy_def)+

text \<open>
  A scope that begins with a trying guard, \<open>body\<close> being what the scope does with the lock
  owned and \<open>otherwise\<close> its result without.
\<close>

definition try_scope ::
  "'l side \<Rightarrow> ('s \<Rightarrow> ('r \<times> 's) run) \<Rightarrow> 'r \<Rightarrow> 'l \<times> 's \<Rightarrow> ('r \<times> 'l \<times> 's) run" where
  "try_scope S body otherwise ls =
     and_then (guard_try S (fst ls)) (\<lambda>(guard, l1).
     and_then (if owns guard then body (snd ls) else returns (otherwise, snd ls)) (\<lambda>(r, s1).
     and_then (guard_destroy S guard l1) (\<lambda>l2. returns (r, l2, s1))))"

section \<open>The contract of a side\<close>

text \<open>
  Trying never waits, succeeds exactly when the side is available, changes nothing when it
  fails, and unlocking afterwards restores the state before.
\<close>

locale try_lockable =
  fixes S :: "'l side"
    and available :: "'l \<Rightarrow> bool"
  assumes try_busy: "\<not> available l \<Longrightarrow> side_try S l = returns (False, l)"
    and try_free: "available l \<Longrightarrow>
      \<exists>l'. side_try S l = returns (True, l') \<and> side_unlock S l' = returns l"
begin

lemma scope_busy: "\<not> available l \<Longrightarrow> try_scope S body r (l, s) = returns (r, l, s)"
  by (simp add: try_scope_def guard_try_def owns_def guard_destroy_def try_busy)

lemma scope_free:
  assumes "available l"
  shows "try_scope S body r (l, s) = and_then (body s) (\<lambda>(r', s'). returns (r', l, s'))"
proof -
  obtain l' where "side_try S l = returns (True, l')" "side_unlock S l' = returns l"
    using try_free [OF assms] by blast
  then show ?thesis by (simp add: try_scope_def guard_try_def owns_def guard_destroy_def)
qed

text \<open>The life of a guard: constructed on an available side, it owns and gives back.\<close>

lemma guard_life:
  assumes "available l"
  shows "\<exists>l'. guard_try S l = returns (True, l')
    \<and> guard_try_lock S True l' = crashes Lock_exception
    \<and> guard_lock S True l' = crashes Lock_exception
    \<and> guard_unlock S True l' = returns (False, l)
    \<and> guard_unlock S False l = crashes Lock_exception
    \<and> guard_destroy S True l' = returns l \<and> guard_destroy S False l = returns l"
proof -
  obtain l' where "side_try S l = returns (True, l')" "side_unlock S l' = returns l"
    using try_free [OF assms] by blast
  then show ?thesis
    by (intro exI [of _ l']) (simp add: guard_try_def guard_destroy_def guard_try_lock_def
      guard_unlock_def guard_lock_def)
qed

end

section \<open>The sides of \<open>shared_locker\<close>\<close>

text \<open>
  The state of a side is the number of the next clock call and the lock; \<open>others\<close> is what
  the other processes do to the lock during a yield.
\<close>

definition scoped_side ::
  "(nat \<Rightarrow> timespec option) \<Rightarrow> shared_locker others \<Rightarrow> (nat \<times> shared_locker) side" where
  "scoped_side clk others =
     \<lparr>side_lock = (\<lambda>(i, L). and_then (as_run (lock others 0 L)) (\<lambda>L1. returns (i, L1))),
      side_try = (\<lambda>(i, L). case try_lock L of (b, L1) \<Rightarrow> returns (b, i, L1)),
      side_timed = (\<lambda>timeout (i, L). timed_lock clk others timeout i L),
      side_unlock = (\<lambda>(i, L). and_then (unlock L) (\<lambda>L1. returns (i, L1)))\<rparr>"

definition sharable_side ::
  "(nat \<Rightarrow> timespec option) \<Rightarrow> shared_locker others \<Rightarrow> (nat \<times> shared_locker) side" where
  "sharable_side clk others =
     \<lparr>side_lock = (\<lambda>(i, L). and_then (as_run (lock_sharable others 0 L)) (\<lambda>L1. returns (i, L1))),
      side_try = (\<lambda>(i, L). case try_lock_sharable L of (b, L1) \<Rightarrow> returns (b, i, L1)),
      side_timed = (\<lambda>timeout (i, L). timed_lock_sharable clk others timeout i L),
      side_unlock = (\<lambda>(i, L). and_then (unlock_sharable L) (\<lambda>L1. returns (i, L1)))\<rparr>"

definition shared_lockable ::
  "(nat \<Rightarrow> timespec option) \<Rightarrow> shared_locker others \<Rightarrow> (nat \<times> shared_locker) lockable" where
  "shared_lockable clk others =
     \<lparr>exclusive_ops = scoped_side clk others,
      op_lock_sharable = side_lock (sharable_side clk others),
      op_try_lock_sharable = side_try (sharable_side clk others),
      op_timed_lock_sharable = side_timed (sharable_side clk others),
      op_unlock_sharable = side_unlock (sharable_side clk others)\<rparr>"

lemma shared_lockable_ops [simp]:
  "exclusive_ops (shared_lockable clk others) = scoped_side clk others"
  "sharable_ops (shared_lockable clk others) = sharable_side clk others"
  by (simp_all add: shared_lockable_def sharable_ops_def)

definition scoped_available :: "nat \<times> shared_locker \<Rightarrow> bool" where
  "scoped_available l \<longleftrightarrow> m_scoped (snd l) = 0 \<and> m_sharable (snd l) = 0"

definition sharable_available :: "nat \<times> shared_locker \<Rightarrow> bool" where
  "sharable_available l \<longleftrightarrow> m_scoped (snd l) = 0 \<and> m_sharable (snd l) < - 1"

lemma word_succ_pos: "(w :: u32) < - 1 \<Longrightarrow> 0 < w + 1"
  by (metis add.inverse_inverse add_eq_0_iff2 order_less_irrefl word_gt_0)

interpretation scoped: try_lockable "scoped_side clk others" scoped_available for clk others
proof
  fix l :: "nat \<times> shared_locker"
  show "\<not> scoped_available l \<Longrightarrow> side_try (scoped_side clk others) l = returns (False, l)"
    by (cases l) (auto simp: scoped_available_def scoped_side_def try_lock_def)
  assume a: "scoped_available l"
  show "\<exists>l'. side_try (scoped_side clk others) l = returns (True, l')
      \<and> side_unlock (scoped_side clk others) l' = returns l"
    by (rule exI [of _ "(fst l, (snd l)\<lparr>m_scoped := 1\<rparr>)"])
      (use a in \<open>cases l, auto simp: scoped_available_def scoped_side_def try_lock_def unlock_def\<close>)
qed

interpretation sharable: try_lockable "sharable_side clk others" sharable_available for clk others
proof
  fix l :: "nat \<times> shared_locker"
  show "\<not> sharable_available l \<Longrightarrow> side_try (sharable_side clk others) l = returns (False, l)"
    by (cases l) (auto simp: sharable_available_def sharable_side_def try_lock_sharable_def)
  assume a: "sharable_available l"
  show "\<exists>l'. side_try (sharable_side clk others) l = returns (True, l')
      \<and> side_unlock (sharable_side clk others) l' = returns l"
    by (rule exI [of _ "(fst l, (snd l)\<lparr>m_sharable := m_sharable (snd l) + 1\<rparr>)"])
      (use a word_succ_pos in \<open>cases l, auto simp: sharable_available_def sharable_side_def
        try_lock_sharable_def unlock_sharable_def\<close>)
qed

section \<open>\<open>shared_posix_locker\<close>\<close>

text \<open>
  The pthread calls are not in the repository: each takes the state \<open>'p\<close> of the lock, or \<open>'a\<close>
  of an attribute object, to the returned error code and the new state, or does not return.
\<close>

record ('p, 'a) rwlock =
  pthread_rwlockattr_init :: "'a \<Rightarrow> int \<times> 'a"
  pthread_rwlockattr_setpshared :: "'a \<Rightarrow> int \<times> 'a"
  pthread_rwlock_init :: "'a \<Rightarrow> 'p \<Rightarrow> int \<times> 'p"
  pthread_rwlock_destroy :: "'p \<Rightarrow> int \<times> 'p"
  pthread_rwlockattr_destroy :: "'a \<Rightarrow> int \<times> 'a"
  pthread_rwlock_trywrlock :: "'p \<Rightarrow> int \<times> 'p"
  pthread_rwlock_wrlock :: "'p \<Rightarrow> (int \<times> 'p) option"
  pthread_rwlock_clockwrlock :: "timespec \<Rightarrow> 'p \<Rightarrow> (int \<times> 'p) option"
  pthread_rwlock_tryrdlock :: "'p \<Rightarrow> int \<times> 'p"
  pthread_rwlock_rdlock :: "'p \<Rightarrow> (int \<times> 'p) option"
  pthread_rwlock_clockrdlock :: "timespec \<Rightarrow> 'p \<Rightarrow> (int \<times> 'p) option"
  pthread_rwlock_unlock :: "'p \<Rightarrow> int \<times> 'p"

definition assert_zero :: "int \<times> 'p \<Rightarrow> 'p run" where
  "assert_zero r = (if fst r = 0 then returns (snd r) else crashes Assertion_failed)"

text \<open>
  The constructor, from the uninitialised memory of the two members, and the destructor.
  \<open>setpshared\<close> is called with \<open>PTHREAD_PROCESS_SHARED\<close> only.
\<close>

definition posix_create :: "('p, 'a) rwlock \<Rightarrow> 'p \<times> 'a \<Rightarrow> ('p \<times> 'a) run" where
  "posix_create P raw =
     and_then (assert_zero (pthread_rwlockattr_init P (snd raw))) (\<lambda>m_lock_attr.
     and_then (assert_zero (pthread_rwlockattr_setpshared P m_lock_attr)) (\<lambda>m_lock_attr1.
     and_then (assert_zero (pthread_rwlock_init P m_lock_attr1 (fst raw))) (\<lambda>m_lock.
     returns (m_lock, m_lock_attr1))))"

definition posix_destroy :: "('p, 'a) rwlock \<Rightarrow> 'p \<times> 'a \<Rightarrow> ('p \<times> 'a) run" where
  "posix_destroy P obj =
     and_then (assert_zero (pthread_rwlock_destroy P (fst obj))) (\<lambda>m_lock.
     and_then (assert_zero (pthread_rwlockattr_destroy P (snd obj))) (\<lambda>m_lock_attr.
     returns (m_lock, m_lock_attr)))"

definition posix_try_lock :: "('p, 'a) rwlock \<Rightarrow> 'p \<Rightarrow> bool \<times> 'p" where
  "posix_try_lock P l = (case pthread_rwlock_trywrlock P l of (e, l1) \<Rightarrow> (e = 0, l1))"

definition posix_lock :: "('p, 'a) rwlock \<Rightarrow> 'p \<Rightarrow> 'p run" where
  "posix_lock P l = and_then (as_run (pthread_rwlock_wrlock P l)) assert_zero"

definition posix_timed_lock ::
  "(nat \<Rightarrow> timespec option) \<Rightarrow> ('p, 'a) rwlock \<Rightarrow> timespec \<Rightarrow> nat \<Rightarrow> 'p \<Rightarrow> (bool \<times> nat \<times> 'p) run" where
  "posix_timed_lock clk P timeout i l =
     and_then (as_run (get_monotonic_time clk i)) (\<lambda>(now, i1).
     and_then (as_run (pthread_rwlock_clockwrlock P (now + timeout) l)) (\<lambda>(e, l1).
     returns (e = 0, i1, l1)))"

definition posix_unlock :: "('p, 'a) rwlock \<Rightarrow> 'p \<Rightarrow> 'p run" where
  "posix_unlock P l = assert_zero (pthread_rwlock_unlock P l)"

definition posix_try_lock_sharable :: "('p, 'a) rwlock \<Rightarrow> 'p \<Rightarrow> bool \<times> 'p" where
  "posix_try_lock_sharable P l = (case pthread_rwlock_tryrdlock P l of (e, l1) \<Rightarrow> (e = 0, l1))"

definition posix_lock_sharable :: "('p, 'a) rwlock \<Rightarrow> 'p \<Rightarrow> 'p run" where
  "posix_lock_sharable P l = and_then (as_run (pthread_rwlock_rdlock P l)) assert_zero"

definition posix_timed_lock_sharable ::
  "(nat \<Rightarrow> timespec option) \<Rightarrow> ('p, 'a) rwlock \<Rightarrow> timespec \<Rightarrow> nat \<Rightarrow> 'p \<Rightarrow> (bool \<times> nat \<times> 'p) run" where
  "posix_timed_lock_sharable clk P timeout i l =
     and_then (as_run (get_monotonic_time clk i)) (\<lambda>(now, i1).
     and_then (as_run (pthread_rwlock_clockrdlock P (now + timeout) l)) (\<lambda>(e, l1).
     returns (e = 0, i1, l1)))"

definition posix_unlock_sharable :: "('p, 'a) rwlock \<Rightarrow> 'p \<Rightarrow> 'p run" where
  "posix_unlock_sharable P l = posix_unlock P l"

text \<open>The locker as an argument of the guards; \<open>i\<close> is the number of the next clock call.\<close>

definition posix_lockable ::
  "(nat \<Rightarrow> timespec option) \<Rightarrow> ('p, 'a) rwlock \<Rightarrow> (nat \<times> 'p) lockable" where
  "posix_lockable clk P =
     \<lparr>exclusive_ops =
        \<lparr>side_lock = (\<lambda>(i, l). and_then (posix_lock P l) (\<lambda>l1. returns (i, l1))),
         side_try = (\<lambda>(i, l). case posix_try_lock P l of (b, l1) \<Rightarrow> returns (b, i, l1)),
         side_timed = (\<lambda>timeout (i, l). posix_timed_lock clk P timeout i l),
         side_unlock = (\<lambda>(i, l). and_then (posix_unlock P l) (\<lambda>l1. returns (i, l1)))\<rparr>,
      op_lock_sharable = (\<lambda>(i, l). and_then (posix_lock_sharable P l) (\<lambda>l1. returns (i, l1))),
      op_try_lock_sharable = (\<lambda>(i, l). case posix_try_lock_sharable P l of (b, l1) \<Rightarrow> returns (b, i, l1)),
      op_timed_lock_sharable = (\<lambda>timeout (i, l). posix_timed_lock_sharable clk P timeout i l),
      op_unlock_sharable = (\<lambda>(i, l). and_then (posix_unlock_sharable P l) (\<lambda>l1. returns (i, l1)))\<rparr>"

section \<open>Properties\<close>

text \<open>
  A scope under a trying guard runs its body exactly when the lock
  is available, and leaves the lock as it found it, for both sides of a shared locker.
\<close>

theorem guard_scope_restores:
  "try_scope (scoped_side clk others) body r (l, s) =
     (if scoped_available l then and_then (body s) (\<lambda>(r', s'). returns (r', l, s'))
      else returns (r, l, s)) \<and>
   try_scope (sharable_side clk others) body r (l, s) =
     (if sharable_available l then and_then (body s) (\<lambda>(r', s'). returns (r', l, s'))
      else returns (r, l, s))"
  by (simp add: scoped.scope_busy scoped.scope_free sharable.scope_busy sharable.scope_free)

text \<open>
  Locking a guard that owns its lock, and unlocking one that does
  not, throws \<open>lock_exception\<close> and leaves the lock alone; a guard that owns an available lock
  gives it back once, by \<open>unlock\<close> or by its destructor.
\<close>

theorem guard_misuse_throws:
  assumes "scoped_available l"
  shows "\<exists>l'. guard_try (scoped_side clk others) l = returns (True, l')
    \<and> guard_try_lock (scoped_side clk others) True l' = crashes Lock_exception
    \<and> guard_lock (scoped_side clk others) True l' = crashes Lock_exception
    \<and> guard_unlock (scoped_side clk others) True l' = returns (False, l)
    \<and> guard_unlock (scoped_side clk others) False l = crashes Lock_exception
    \<and> guard_destroy (scoped_side clk others) True l' = returns l
    \<and> guard_destroy (scoped_side clk others) False l = returns l"
  by (rule scoped.guard_life [OF assms])

theorem guard_misuse_throws_witness:
  "\<exists>l'. guard_try (scoped_side sample_clock (\<lambda>k L. L)) (0, new_shared_locker) = returns (True, l')
    \<and> guard_lock (scoped_side sample_clock (\<lambda>k L. L)) True l' = crashes Lock_exception"
  using guard_misuse_throws [of "(0, new_shared_locker)" sample_clock "\<lambda>k L. L"]
  by (auto simp: scoped_available_def new_shared_locker_def)

end
