(* ===== verification/Barrier.thy ===== *)
theory Barrier
  imports Locker
begin

text \<open>
  \<^verbatim>\<open>qbus/locker.h\<close>, \<^verbatim>\<open>qbus/locker.cpp\<close>: \<open>spinlock\<close>, on which the connectors rely
  while they are created and opened, and \<open>shared_barrier\<close>, on which a timed \<open>get\<close> waits
  for a message.

  The mutex of the barrier makes each locked section one step. Its semaphore is a Boost
  class, so its two operations are an argument of the model, with the documented behaviour
  as the predicate \<open>semaphore_spec\<close>.
\<close>

section \<open>spinlock\<close>

type_synonym spinlock = u32

abbreviation (input) LS_LOCKED :: u32 where "LS_LOCKED \<equiv> 0"
abbreviation (input) LS_UNLOCKED :: u32 where "LS_UNLOCKED \<equiv> 1"

definition spin_try_lock :: "atomic_ops \<Rightarrow> spinlock \<Rightarrow> bool \<times> spinlock" where
  "spin_try_lock A m_lock =
     (case atomic_cas32 A m_lock LS_LOCKED LS_UNLOCKED of (old, m_lock') \<Rightarrow> (LS_LOCKED = old, m_lock'))"

partial_function (option) spin_lock ::
  "atomic_ops \<Rightarrow> spinlock others \<Rightarrow> nat \<Rightarrow> spinlock \<Rightarrow> spinlock option" where
  "spin_lock A others k m_lock =
     (case spin_try_lock A m_lock of
        (locked, m_lock1) \<Rightarrow>
          if locked then Some m_lock1 else spin_lock A others (k + 1) (others k m_lock1))"

partial_function (option) spin_timed_loop ::
  "atomic_ops \<Rightarrow> (nat \<Rightarrow> timespec option) \<Rightarrow> spinlock others \<Rightarrow> timespec \<Rightarrow> nat \<Rightarrow> nat \<Rightarrow> spinlock
    \<Rightarrow> (bool \<times> nat \<times> spinlock) run" where
  "spin_timed_loop A clk others ts k i m_lock =
     and_then (as_run (get_monotonic_time clk i)) (\<lambda>(now, i1).
       if now < ts then
         (case spin_try_lock A m_lock of
            (locked, m_lock1) \<Rightarrow>
              if locked then returns (True, i1, m_lock1)
              else spin_timed_loop A clk others ts (k + 1) i1 (others k m_lock1))
       else returns (False, i1, m_lock))"

definition spin_timed_lock ::
  "atomic_ops \<Rightarrow> (nat \<Rightarrow> timespec option) \<Rightarrow> spinlock others \<Rightarrow> timespec \<Rightarrow> nat \<Rightarrow> spinlock
    \<Rightarrow> (bool \<times> nat \<times> spinlock) run" where
  "spin_timed_lock A clk others timeout i m_lock =
     and_then (as_run (get_monotonic_time clk i)) (\<lambda>(now, i1).
       spin_timed_loop A clk others (now + timeout) 0 i1 m_lock)"

definition spin_unlock :: "atomic_ops \<Rightarrow> spinlock \<Rightarrow> spinlock" where
  "spin_unlock A m_lock = atomic_write32 A m_lock LS_UNLOCKED"

lemma spin_try_lock_eq:
  assumes "atomic_spec A"
  shows "spin_try_lock A m_lock = (m_lock = LS_LOCKED, if m_lock = LS_UNLOCKED then LS_LOCKED else m_lock)"
  by (auto simp: spin_try_lock_def atomic_specD [OF assms])

lemma spin_lock_locked: "atomic_spec A \<Longrightarrow> spin_lock A others k LS_LOCKED = Some LS_LOCKED"
  by (subst spin_lock.simps) (simp add: spin_try_lock_eq)

lemma spin_lock_unlocked:
  assumes "atomic_spec A" and "others k LS_LOCKED = LS_LOCKED"
  shows "spin_lock A others k LS_UNLOCKED = Some LS_LOCKED"
  by (subst spin_lock.simps)
    (simp add: assms spin_try_lock_eq [OF assms(1)] spin_lock_locked [OF assms(1)])

section \<open>shared_barrier\<close>

text \<open>The semaphore: \<open>post\<close>, and \<open>take\<close>, the attempt that \<open>wait\<close> repeats until it succeeds.\<close>

record 'x semaphore_ops =
  sem_post :: "'x \<Rightarrow> 'x"
  sem_take :: "'x \<Rightarrow> bool \<times> 'x"

definition semaphore_spec :: "'x semaphore_ops \<Rightarrow> ('x \<Rightarrow> nat) \<Rightarrow> bool" where
  "semaphore_spec S v \<longleftrightarrow> (\<forall>x. v (sem_post S x) = Suc (v x)) \<and>
     (\<forall>x. fst (sem_take S x) = (0 < v x) \<and> v (snd (sem_take S x)) = v x - 1)"

lemma semaphore_specD:
  assumes "semaphore_spec S v"
  shows "v (sem_post S x) = Suc (v x)" "fst (sem_take S x) = (0 < v x)"
    "v (snd (sem_take S x)) = v x - 1"
  using assms by (simp_all add: semaphore_spec_def)

text \<open>An instance, for the witnesses.\<close>

definition counting_semaphore :: "nat semaphore_ops" where
  "counting_semaphore = \<lparr>sem_post = Suc, sem_take = (\<lambda>n. (0 < n, n - 1))\<rparr>"

record 'x barrier =
  m_barrier :: 'x
  m_counter1 :: u32
  m_counter2 :: u32

definition new_barrier :: "'x \<Rightarrow> 'x barrier" where
  "new_barrier sem = \<lparr>m_barrier = sem, m_counter1 = 0, m_counter2 = 0\<rparr>"

text \<open>\<open>open\<close>: the loop inside the locked section, one iteration for each process that knocked.\<close>

function open_barrier :: "'x semaphore_ops \<Rightarrow> 'x barrier \<Rightarrow> 'x barrier" where
  "open_barrier S b =
     (if m_counter1 b > 0
      then open_barrier S (b\<lparr>m_counter1 := m_counter1 b - 1, m_counter2 := m_counter2 b + 1,
        m_barrier := sem_post S (m_barrier b)\<rparr>)
      else b)"
  by auto
termination
  by (relation "measure (\<lambda>(S, b). unat (m_counter1 b))")
    (auto simp: word_gt_0 unat_minus_one unat_gt_0)

declare open_barrier.simps [simp del]

text \<open>
  \<open>knock\<close> reads \<open>m_counter2\<close> outside the lock and increments \<open>m_counter1\<close> inside;
  \<open>expect\<close> waits for the semaphore and then decrements \<open>m_counter2\<close> inside the lock.
\<close>

definition knock_may_pass :: "'x barrier \<Rightarrow> bool" where
  "knock_may_pass b \<longleftrightarrow> \<not> m_counter2 b > 0"

definition knock_enter :: "'x barrier \<Rightarrow> 'x barrier" where
  "knock_enter b = b\<lparr>m_counter1 := m_counter1 b + 1\<rparr>"

definition expect_take :: "'x semaphore_ops \<Rightarrow> 'x barrier \<Rightarrow> bool \<times> 'x barrier" where
  "expect_take S b = (case sem_take S (m_barrier b) of (ok, sem) \<Rightarrow> (ok, b\<lparr>m_barrier := sem\<rparr>))"

definition expect_leave :: "'x barrier \<Rightarrow> 'x barrier" where
  "expect_leave b = b\<lparr>m_counter2 := m_counter2 b - 1\<rparr>"

text \<open>The locked section of the timed \<open>expect\<close> after the semaphore's wait has timed out.\<close>

definition expect_timed_out :: "'x barrier \<Rightarrow> bool \<times> 'x barrier" where
  "expect_timed_out b =
     (if m_counter2 b = 0 then (False, b\<lparr>m_counter1 := m_counter1 b - 1\<rparr>)
      else (True, b\<lparr>m_counter2 := m_counter2 b - 1\<rparr>))"

text \<open>
  The waiting operations of one process: \<open>others\<close> is what the other processes do to the
  barrier meanwhile, and \<open>polls\<close> how often the semaphore's timed wait looks before the time
  given to it has passed.
\<close>

partial_function (option) knock ::
  "'x barrier others \<Rightarrow> nat \<Rightarrow> 'x barrier \<Rightarrow> 'x barrier option" where
  "knock others k b =
     (if knock_may_pass b then Some (knock_enter b) else knock others (k + 1) (others k b))"

partial_function (option) expect ::
  "'x semaphore_ops \<Rightarrow> 'x barrier others \<Rightarrow> nat \<Rightarrow> 'x barrier \<Rightarrow> 'x barrier option" where
  "expect S others k b =
     (case expect_take S b of
        (ok, b1) \<Rightarrow> if ok then Some (expect_leave b1) else expect S others (k + 1) (others k b1))"

fun expect_for ::
  "'x semaphore_ops \<Rightarrow> 'x barrier others \<Rightarrow> nat \<Rightarrow> nat \<Rightarrow> 'x barrier \<Rightarrow> bool \<times> 'x barrier" where
  "expect_for S others 0 k b = expect_timed_out b"
| "expect_for S others (Suc polls) k b =
     (case expect_take S b of
        (ok, b1) \<Rightarrow> if ok then (True, expect_leave b1)
          else expect_for S others polls (k + 1) (others k b1))"

definition wait ::
  "'x semaphore_ops \<Rightarrow> 'x barrier others \<Rightarrow> 'x barrier \<Rightarrow> 'x barrier option" where
  "wait S others b = Option.bind (knock others 0 b) (expect S others 0)"

definition wait_for ::
  "'x semaphore_ops \<Rightarrow> 'x barrier others \<Rightarrow> nat \<Rightarrow> 'x barrier \<Rightarrow> (bool \<times> 'x barrier) option" where
  "wait_for S others polls b = map_option (expect_for S others polls 0) (knock others 0 b)"

subsection \<open>Processes\<close>

text \<open>
  Where a process is: outside, between the two halves of \<open>knock\<close>, waiting for the semaphore,
  past it, or past the time-out of its wait. \<open>timed\<close> says whether waits may time out; the
  processes are those below \<open>n\<close>.
\<close>

datatype place = Outside | Checked | Knocked | Woken | Timed_out

record 'x hall =
  barrier :: "'x barrier"
  at :: "nat \<Rightarrow> place"

inductive hall_step :: "'x semaphore_ops \<Rightarrow> nat \<Rightarrow> bool \<Rightarrow> 'x hall \<Rightarrow> 'x hall \<Rightarrow> bool"
  for S :: "'x semaphore_ops" and n :: nat and timed :: bool where
  check: "p < n \<Longrightarrow> at s p = Outside \<Longrightarrow> knock_may_pass (barrier s)
    \<Longrightarrow> hall_step S n timed s (s\<lparr>at := (at s)(p := Checked)\<rparr>)"
| knock: "at s p = Checked
    \<Longrightarrow> hall_step S n timed s (s\<lparr>barrier := knock_enter (barrier s), at := (at s)(p := Knocked)\<rparr>)"
| wake: "at s p = Knocked \<Longrightarrow> expect_take S (barrier s) = (True, b)
    \<Longrightarrow> hall_step S n timed s (s\<lparr>barrier := b, at := (at s)(p := Woken)\<rparr>)"
| pass: "at s p = Woken
    \<Longrightarrow> hall_step S n timed s (s\<lparr>barrier := expect_leave (barrier s), at := (at s)(p := Outside)\<rparr>)"
| time_out: "timed \<Longrightarrow> at s p = Knocked
    \<Longrightarrow> hall_step S n timed s (s\<lparr>at := (at s)(p := Timed_out)\<rparr>)"
| withdraw: "at s p = Timed_out \<Longrightarrow> expect_timed_out (barrier s) = (r, b)
    \<Longrightarrow> hall_step S n timed s (s\<lparr>barrier := b, at := (at s)(p := Outside)\<rparr>)"
| open_up: "hall_step S n timed s (s\<lparr>barrier := open_barrier S (barrier s)\<rparr>)"

definition empty_hall :: "'x \<Rightarrow> 'x hall" where
  "empty_hall sem = \<lparr>barrier = new_barrier sem, at = (\<lambda>_. Outside)\<rparr>"

inductive hall_reachable :: "'x semaphore_ops \<Rightarrow> nat \<Rightarrow> bool \<Rightarrow> 'x \<Rightarrow> 'x hall \<Rightarrow> bool"
  for S :: "'x semaphore_ops" and n :: nat and timed :: bool and sem :: 'x where
  hall_start: "hall_reachable S n timed sem (empty_hall sem)"
| hall_more: "hall_reachable S n timed sem s \<Longrightarrow> hall_step S n timed s s'
    \<Longrightarrow> hall_reachable S n timed sem s'"

definition standing :: "'x hall \<Rightarrow> place \<Rightarrow> nat set" where
  "standing s c = {p. at s p = c}"

lemma standing_update:
  "standing (s\<lparr>at := (at s)(p := c')\<rparr>) c = (if c = c' then insert p (standing s c) else standing s c - {p})"
  "standing (s\<lparr>barrier := b, at := (at s)(p := c')\<rparr>) c
     = (if c = c' then insert p (standing s c) else standing s c - {p})"
  "standing (s\<lparr>barrier := b\<rparr>) c = standing s c"
  by (auto simp: standing_def)

lemma in_standing: "p \<in> standing s c \<longleftrightarrow> at s p = c"
  by (simp add: standing_def)

text \<open>Without time-outs the counters are exact.\<close>

definition hall_inv :: "('x \<Rightarrow> nat) \<Rightarrow> nat \<Rightarrow> 'x hall \<Rightarrow> bool" where
  "hall_inv v n s \<longleftrightarrow> (\<forall>p\<ge>n. at s p = Outside) \<and> standing s Timed_out = {}
     \<and> unat (m_counter2 (barrier s)) = v (m_barrier (barrier s)) + card (standing s Woken)
     \<and> unat (m_counter1 (barrier s)) + v (m_barrier (barrier s)) = card (standing s Knocked)"

lemma finite_standing:
  assumes "\<forall>p\<ge>n. at s p = Outside" and "c \<noteq> Outside"
  shows "finite (standing s c)"
  by (rule finite_subset [of _ "{..<n}"]) (use assms in \<open>auto simp: standing_def intro: leI\<close>)

lemma card_standing:
  assumes "\<forall>p\<ge>n. at s p = Outside"
  shows "card (standing s Checked) + card (standing s Knocked) + card (standing s Woken) \<le> n"
proof -
  have "card (standing s Checked \<union> standing s Knocked \<union> standing s Woken) \<le> card {..<n}"
    using assms by (intro card_mono) (auto simp: standing_def intro: leI)
  moreover have "card (standing s Checked \<union> standing s Knocked \<union> standing s Woken)
      = card (standing s Checked) + card (standing s Knocked) + card (standing s Woken)"
    using finite_standing [OF assms] by (subst card_Un_disjoint; auto simp: standing_def)+
  ultimately show ?thesis by simp
qed

lemma open_barrier_counters:
  assumes spec: "semaphore_spec S v" and bound: "unat (m_counter1 b) + unat (m_counter2 b) < 4294967296"
  shows "m_counter1 (open_barrier S b) = 0"
    "unat (m_counter2 (open_barrier S b)) = unat (m_counter2 b) + unat (m_counter1 b)"
    "v (m_barrier (open_barrier S b)) = v (m_barrier b) + unat (m_counter1 b)"
proof -
  have "m_counter1 (open_barrier S b) = 0 \<and>
    unat (m_counter2 (open_barrier S b)) = unat (m_counter2 b) + unat (m_counter1 b) \<and>
    v (m_barrier (open_barrier S b)) = v (m_barrier b) + unat (m_counter1 b)"
    using bound
  proof (induction "unat (m_counter1 b)" arbitrary: b)
    case 0
    then show ?case by (subst (1 2 3) open_barrier.simps) (simp add: unat_eq_zero)
  next
    case (Suc k)
    let ?b = "b\<lparr>m_counter1 := m_counter1 b - 1, m_counter2 := m_counter2 b + 1,
        m_barrier := sem_post S (m_barrier b)\<rparr>"
    have pos: "m_counter1 b > 0" using Suc.hyps(2) by (simp add: word_less_nat_alt)
    have k: "unat (m_counter1 b - 1) = k" and c2: "unat (m_counter2 b + 1) = Suc (unat (m_counter2 b))"
      using Suc.hyps(2) Suc.prems by (simp_all add: unat_sub word_le_nat_alt unat_word_ariths)
    have "open_barrier S b = open_barrier S ?b"
      using pos by (subst open_barrier.simps) simp
    moreover have "k = unat (m_counter1 ?b)"
      "unat (m_counter1 ?b) + unat (m_counter2 ?b) < 4294967296"
      using k c2 Suc.hyps(2) Suc.prems by simp_all
    ultimately show ?case
      using Suc.hyps(1) [of ?b] k c2 Suc.hyps(2) [symmetric] by (simp add: semaphore_specD(1) [OF spec])
  qed
  then show "m_counter1 (open_barrier S b) = 0"
    "unat (m_counter2 (open_barrier S b)) = unat (m_counter2 b) + unat (m_counter1 b)"
    "v (m_barrier (open_barrier S b)) = v (m_barrier b) + unat (m_counter1 b)"
    by simp_all
qed

lemma hall_inv_step:
  assumes "hall_step S n False s s'" and "hall_inv v n s" and "n < 4294967296"
    and spec: "semaphore_spec S v"
  shows "hall_inv v n s'"
proof -
  have out: "\<And>p. n \<le> p \<Longrightarrow> at s p = Outside" and none: "standing s Timed_out = {}"
    and c2: "unat (m_counter2 (barrier s)) = v (m_barrier (barrier s)) + card (standing s Woken)"
    and c1: "unat (m_counter1 (barrier s)) + v (m_barrier (barrier s)) = card (standing s Knocked)"
    using assms(2) by (auto simp: hall_inv_def)
  have inside: "p < n" if "at s p \<noteq> Outside" for p using out [of p] that by (cases "n \<le> p") auto
  have fin: "finite (standing s c)" if "c \<noteq> Outside" for c
    by (rule finite_standing [OF _ that]) (use out in blast)
  have all: "card (standing s Checked) + card (standing s Knocked) + card (standing s Woken) \<le> n"
    by (rule card_standing) (use out in blast)
  note st = standing_update in_standing
  from assms(1) show ?thesis
  proof cases
    case (check p)
    then have "p \<notin> standing s Knocked" "p \<notin> standing s Woken" by (simp_all add: in_standing)
    with check out none c1 c2 show ?thesis by (simp add: hall_inv_def st)
  next
    case (knock p)
    then have p: "p \<notin> standing s Knocked" "p \<notin> standing s Woken" "p < n" "0 < card (standing s Checked)"
      using inside fin by (auto simp: in_standing card_gt_0_iff)
    then have "unat (m_counter1 (barrier s) + 1) = Suc (unat (m_counter1 (barrier s)))"
      using all c1 assms(3) by (simp add: unat_word_ariths)
    with knock p out none c1 c2 fin [of Knocked] show ?thesis
      by (auto simp: hall_inv_def st knock_enter_def)
  next
    case (wake p b)
    then have p: "p \<in> standing s Knocked" "p \<notin> standing s Woken" "p < n"
      using inside by (auto simp: in_standing)
    have b: "b = (barrier s)\<lparr>m_barrier := snd (sem_take S (m_barrier (barrier s)))\<rparr>"
      "0 < v (m_barrier (barrier s))"
      using wake(3) semaphore_specD(2) [OF spec, of "m_barrier (barrier s)"]
      by (auto simp: expect_take_def split: prod.splits)
    have "card (standing s Knocked - {p}) = card (standing s Knocked) - 1"
      using p fin by simp
    with p out none c1 c2 b fin [of Woken] wake(1) show ?thesis
      by (auto simp: hall_inv_def st semaphore_specD(3) [OF spec])
  next
    case (pass p)
    then have p: "p \<in> standing s Woken" "p \<notin> standing s Knocked" "p < n"
      using inside by (auto simp: in_standing)
    then have pos: "0 < card (standing s Woken)" using fin by (auto simp: card_gt_0_iff)
    then have "unat (m_counter2 (barrier s) - 1) = unat (m_counter2 (barrier s)) - 1"
      using c2 by (simp add: unat_sub word_le_nat_alt)
    with p pos out none c1 c2 fin [of Woken] pass show ?thesis
      by (auto simp: hall_inv_def st expect_leave_def)
  next
    case (withdraw p r b)
    with none show ?thesis by (simp add: standing_def)
  next
    case open_up
    have "unat (m_counter1 (barrier s)) + unat (m_counter2 (barrier s)) < 4294967296"
      using c1 c2 all assms(3) by linarith
    from open_barrier_counters [OF spec this] show ?thesis
      using open_up out none c1 c2 by (simp add: hall_inv_def st)
  qed simp
qed

lemma hall_reachable_inv:
  assumes "hall_reachable S n False sem s" and "v sem = 0" and "n < 4294967296"
    and spec: "semaphore_spec S v"
  shows "hall_inv v n s"
  using assms(1)
proof (induction rule: hall_reachable.induct)
  case hall_start
  then show ?case
    using assms(2) by (simp add: hall_inv_def empty_hall_def new_barrier_def standing_def)
next
  case (hall_more s s')
  then show ?case using hall_inv_step assms(3) spec by blast
qed

lemma counting_semaphore_spec [simp]: "semaphore_spec counting_semaphore (\<lambda>n. n)"
  by (simp add: semaphore_spec_def counting_semaphore_def)

section \<open>Properties\<close>

text \<open>
  C16. \<open>spinlock::try_lock\<close> compares the old value with
  \<open>LS_LOCKED\<close>: on a free lock it takes the lock and reports failure, and on a lock held by
  somebody else it reports success. So \<open>lock\<close> never waits for the holder.
\<close>

theorem spinlock_excludes_nobody:
  assumes "atomic_spec A"
  shows "spin_try_lock A LS_UNLOCKED = (False, LS_LOCKED)
    \<and> spin_try_lock A LS_LOCKED = (True, LS_LOCKED)
    \<and> spin_lock A others k LS_LOCKED = Some LS_LOCKED"
  by (simp add: spin_try_lock_eq [OF assms] spin_lock_locked [OF assms])

theorem spinlock_excludes_nobody_witness:
  "spin_lock plain_atomics (\<lambda>k m. m) 0 LS_LOCKED = Some LS_LOCKED"
  using spinlock_excludes_nobody [OF plain_atomics_spec, of "\<lambda>k m. m" 0] by simp

text \<open>
  C30. With untimed waits, however the processes interleave:
  \<open>m_counter1\<close> counts the processes that knocked and have not been let in, \<open>m_counter2\<close>
  those let in that have not left, and the permits of the semaphore are the let-in processes
  still asleep. So the decrement of \<open>m_counter2\<close> never wraps.
\<close>

theorem barrier_counts_exact:
  assumes "hall_reachable S n False sem s" and "semaphore_spec S v" and "v sem = 0"
    and "n < 4294967296"
  shows "unat (m_counter2 (barrier s)) = v (m_barrier (barrier s)) + card {p. at s p = Woken}
    \<and> unat (m_counter1 (barrier s)) + v (m_barrier (barrier s)) = card {p. at s p = Knocked}
    \<and> (at s p = Woken \<longrightarrow> m_counter2 (barrier s) > 0)"
proof -
  have inv: "hall_inv v n s" by (rule hall_reachable_inv [OF assms(1,3,4,2)])
  moreover have "m_counter2 (barrier s) > 0" if "at s p = Woken"
  proof -
    have "finite (standing s Woken)" "p \<in> standing s Woken"
      using that inv finite_standing [of n s Woken] by (auto simp: hall_inv_def in_standing)
    then have "0 < card (standing s Woken)" by (auto simp: card_gt_0_iff)
    then show ?thesis using inv by (simp add: hall_inv_def word_less_nat_alt)
  qed
  ultimately show ?thesis by (simp add: hall_inv_def standing_def)
qed

text \<open>
  Opening the barrier lets in every process that has knocked: the
  semaphore then has a permit for each process that waits for it.
\<close>

theorem barrier_opens_for_all:
  assumes "hall_reachable S n False sem s" and "semaphore_spec S v" and "v sem = 0"
    and "n < 4294967296"
  shows "v (m_barrier (open_barrier S (barrier s))) = card {p. at s p = Knocked}
    \<and> m_counter1 (open_barrier S (barrier s)) = 0"
proof -
  have inv: "hall_inv v n s" by (rule hall_reachable_inv [OF assms(1,3,4,2)])
  then have "unat (m_counter1 (barrier s)) + unat (m_counter2 (barrier s)) \<le> n"
    using card_standing [of n s] by (simp add: hall_inv_def)
  then have "unat (m_counter1 (barrier s)) + unat (m_counter2 (barrier s)) < 4294967296"
    using assms(4) by simp
  from open_barrier_counters [OF assms(2) this] show ?thesis
    using inv by (simp add: hall_inv_def standing_def)
qed

text \<open>Runs of one process, for the witnesses.\<close>

definition lone :: "nat \<Rightarrow> u32 \<Rightarrow> u32 \<Rightarrow> place \<Rightarrow> nat hall" where
  "lone sem c1 c2 c = \<lparr>barrier = \<lparr>m_barrier = sem, m_counter1 = c1, m_counter2 = c2\<rparr>,
     at = (\<lambda>_. Outside)(0 := c)\<rparr>"

lemma lone_steps:
  "c2 = 0 \<Longrightarrow> hall_step counting_semaphore 2 timed (lone v c1 c2 Outside) (lone v c1 c2 Checked)"
  "hall_step counting_semaphore 2 timed (lone v c1 c2 Checked) (lone v (c1 + 1) c2 Knocked)"
  "hall_step counting_semaphore 2 timed (lone (Suc v) c1 c2 Knocked) (lone v c1 c2 Woken)"
  "hall_step counting_semaphore 2 timed (lone v c1 c2 Woken) (lone v c1 (c2 - 1) Outside)"
  "timed \<Longrightarrow> hall_step counting_semaphore 2 timed (lone v c1 c2 Knocked) (lone v c1 c2 Timed_out)"
  "c2 \<noteq> 0 \<Longrightarrow> hall_step counting_semaphore 2 timed (lone v c1 c2 Timed_out) (lone v c1 (c2 - 1) Outside)"
  "hall_step counting_semaphore 2 timed (lone v 1 c2 c) (lone (Suc v) 0 (c2 + 1) c)"
proof -
  let ?S = counting_semaphore
  show "c2 = 0 \<Longrightarrow> hall_step ?S 2 timed (lone v c1 c2 Outside) (lone v c1 c2 Checked)"
    using hall_step.check [of 0 2 "lone v c1 c2 Outside" ?S timed]
    by (simp add: lone_def knock_may_pass_def)
  show "hall_step ?S 2 timed (lone v c1 c2 Checked) (lone v (c1 + 1) c2 Knocked)"
    using hall_step.knock [of "lone v c1 c2 Checked" 0 ?S 2 timed]
    by (simp add: lone_def knock_enter_def)
  show "hall_step ?S 2 timed (lone (Suc v) c1 c2 Knocked) (lone v c1 c2 Woken)"
    using hall_step.wake [of "lone (Suc v) c1 c2 Knocked" 0 ?S _ 2 timed]
    by (simp add: lone_def expect_take_def counting_semaphore_def)
  show "hall_step ?S 2 timed (lone v c1 c2 Woken) (lone v c1 (c2 - 1) Outside)"
    using hall_step.pass [of "lone v c1 c2 Woken" 0 ?S 2 timed]
    by (simp add: lone_def expect_leave_def)
  show "timed \<Longrightarrow> hall_step ?S 2 timed (lone v c1 c2 Knocked) (lone v c1 c2 Timed_out)"
    using hall_step.time_out [of timed "lone v c1 c2 Knocked" 0 ?S 2] by (simp add: lone_def)
  show "c2 \<noteq> 0 \<Longrightarrow> hall_step ?S 2 timed (lone v c1 c2 Timed_out) (lone v c1 (c2 - 1) Outside)"
    using hall_step.withdraw [of "lone v c1 c2 Timed_out" 0 _ _ ?S 2 timed]
    by (simp add: lone_def expect_timed_out_def)
  have "open_barrier ?S \<lparr>m_barrier = v, m_counter1 = 1, m_counter2 = c2\<rparr>
      = \<lparr>m_barrier = Suc v, m_counter1 = 0, m_counter2 = c2 + 1\<rparr>"
    by (subst open_barrier.simps, subst open_barrier.simps) (simp add: counting_semaphore_def)
  then show "hall_step ?S 2 timed (lone v 1 c2 c) (lone (Suc v) 0 (c2 + 1) c)"
    using hall_step.open_up [of ?S 2 timed "lone v 1 c2 c"] by (simp add: lone_def)
qed

lemma lone_start: "hall_reachable counting_semaphore 2 timed 0 (lone 0 0 0 Outside)"
proof -
  have "(\<lambda>_. Outside)(0 :: nat := Outside) = (\<lambda>_. Outside)" by auto
  then show ?thesis
    using hall_start [of counting_semaphore 2 timed 0]
    by (simp add: lone_def empty_hall_def new_barrier_def)
qed

lemma lone_knocked: "hall_reachable counting_semaphore 2 timed 0 (lone 0 1 0 Knocked)"
  using hall_more [OF hall_more [OF lone_start lone_steps(1)] lone_steps(2)] by simp

lemma lone_locked_out: "hall_reachable counting_semaphore 2 True 0 (lone 0 1 (- 1) Outside)"
proof -
  have "hall_reachable counting_semaphore 2 True 0 (lone 1 0 1 Timed_out)"
    using hall_more [OF hall_more [OF lone_knocked lone_steps(5)] lone_steps(7)] by simp
  from hall_more [OF this lone_steps(6)]
  have "hall_reachable counting_semaphore 2 True 0 (lone 1 0 0 Outside)" by simp
  from hall_more [OF hall_more [OF this lone_steps(1)] lone_steps(2)]
  have "hall_reachable counting_semaphore 2 True 0 (lone (Suc 0) 1 0 Knocked)" by simp
  from hall_more [OF hall_more [OF this lone_steps(3)] lone_steps(4)]
  show ?thesis by simp
qed

theorem barrier_counts_exact_witness:
  "unat (m_counter1 (barrier (lone 0 1 0 Knocked))) = card {p. at (lone 0 1 0 Knocked) p = Knocked}"
  using barrier_counts_exact [OF lone_knocked counting_semaphore_spec] by (simp add: lone_def)

theorem barrier_opens_for_all_witness:
  "m_barrier (open_barrier counting_semaphore (barrier (lone 0 1 0 Knocked)))
     = card {p. at (lone 0 1 0 Knocked) p = Knocked}"
  using barrier_opens_for_all [OF lone_knocked counting_semaphore_spec] by simp

text \<open>
  C38. A timed wait that times out while the barrier opens leaves with the permit still in the
  semaphore. The next process passes without an opening and the decrement of \<open>m_counter2\<close> wraps:
  every process is outside and the counter is \<open>2 ^ 32 - 1\<close>, so nobody gets past the first half of
  \<open>knock\<close>, and no process can do anything at the barrier but open it, until somebody does.
\<close>

theorem barrier_timeout_locks_out:
  "\<exists>s. hall_reachable counting_semaphore 2 True 0 s \<and> (\<forall>p. at s p = Outside)
    \<and> m_counter2 (barrier s) = - 1 \<and> \<not> knock_may_pass (barrier s)
    \<and> {s'. hall_step counting_semaphore 2 True s s'}
      = {s\<lparr>barrier := open_barrier counting_semaphore (barrier s)\<rparr>}"
proof -
  let ?s = "lone 0 1 (- 1) Outside"
  have shut: "\<forall>p. at ?s p = Outside" "m_counter2 (barrier ?s) = - 1" "\<not> knock_may_pass (barrier ?s)"
    by (simp_all add: lone_def knock_may_pass_def word_gt_0)
  have "hall_step counting_semaphore 2 True ?s s'
      \<longleftrightarrow> s' = ?s\<lparr>barrier := open_barrier counting_semaphore (barrier ?s)\<rparr>" for s'
    using shut(1,3) by (auto elim!: hall_step.cases intro: open_up)
  with shut lone_locked_out show ?thesis by (intro exI [of _ ?s]) auto
qed

end
