(* ===== verification/Shared_Memory.thy ===== *)
theory Shared_Memory
  imports Message
begin

text \<open>
  \<^verbatim>\<open>qbus/memory.h\<close>, \<^verbatim>\<open>qbus/memory.cpp\<close>: \<open>shared_memory\<close>, a named segment of shared
  memory that an object creates or opens, and unlinks when it is destroyed.
\<close>

section \<open>The operating system's segments\<close>

text \<open>
  \<open>boost::interprocess::shared_memory_object\<close> and \<open>mapped_region\<close> are not in the
  repository. A call that throws is \<open>None\<close> and changes nothing; \<open>'h\<close> are the handles,
  \<open>'o\<close> the state of the operating system. A region is an address and a size.
\<close>

record ('h, 'o) shm_api =
  shm_create_only :: "string \<Rightarrow> 'o \<Rightarrow> ('h \<times> 'o) option"
  shm_open_only :: "string \<Rightarrow> 'o \<Rightarrow> ('h \<times> 'o) option"
  shm_truncate :: "'h \<Rightarrow> u64 \<Rightarrow> 'o \<times> memory \<Rightarrow> ('o \<times> memory) option"
  shm_map :: "'h \<Rightarrow> 'o \<Rightarrow> ((nat \<times> u64) \<times> 'o) option"
  shm_remove :: "string \<Rightarrow> 'o \<Rightarrow> 'o"

text \<open>
  Their documentation, with the segment \<open>seg n o\<close> of a name: creating fails when the name
  exists, opening when it does not; truncating sets the size and fills with zeroes; mapping yields the segment;
  removing deletes the name and nothing else. Names do not disturb each other.
\<close>

definition shm_spec ::
  "('h, 'o) shm_api \<Rightarrow> ('o \<Rightarrow> string \<Rightarrow> (nat \<times> u64) option) \<Rightarrow> ('o \<Rightarrow> 'h \<Rightarrow> string) \<Rightarrow> bool" where
  "shm_spec A seg nm \<longleftrightarrow>
     (\<forall>n s. seg s n \<noteq> None \<longrightarrow> shm_create_only A n s = None) \<and>
     (\<forall>n s. seg s n = None \<longrightarrow> (\<exists>h s' a. shm_create_only A n s = Some (h, s') \<and> nm s' h = n
        \<and> seg s' = (seg s)(n \<mapsto> (a, 0)))) \<and>
     (\<forall>n s. seg s n = None \<longrightarrow> shm_open_only A n s = None) \<and>
     (\<forall>n s. seg s n \<noteq> None \<longrightarrow> (\<exists>h s'. shm_open_only A n s = Some (h, s') \<and> nm s' h = n
        \<and> seg s' = seg s)) \<and>
     (\<forall>h z s m a. seg s (nm s h) = Some (a, 0) \<longrightarrow> (\<exists>s' m'. shm_truncate A h z (s, m) = Some (s', m')
        \<and> nm s' h = nm s h \<and> seg s' = (seg s)(nm s h \<mapsto> (a, z))
        \<and> only_changes m m' {a..<a + unat z} \<and> (\<forall>i \<in> {a..<a + unat z}. m' i = 0))) \<and>
     (\<forall>h s r. seg s (nm s h) = Some r \<longrightarrow> (\<exists>s'. shm_map A h s = Some (r, s') \<and> seg s' = seg s)) \<and>
     (\<forall>n s. seg (shm_remove A n s) = (seg s)(n := None))"

section \<open>shared_memory\<close>

record 'h shared_memory =
  sm_name :: string
  m_pmemory :: "'h option"
  m_pregion :: "(nat \<times> u64) option"

definition new_shared_memory :: "string \<Rightarrow> 'h shared_memory" where
  "new_shared_memory name = \<lparr>sm_name = name, m_pmemory = None, m_pregion = None\<rparr>"

definition sm_remove :: "('h, 'o) shm_api \<Rightarrow> 'h shared_memory \<Rightarrow> 'o \<Rightarrow> 'o" where
  "sm_remove A M s = shm_remove A (sm_name M) s"

definition sm_destroy :: "('h, 'o) shm_api \<Rightarrow> 'h shared_memory \<Rightarrow> 'o \<Rightarrow> 'o" where
  "sm_destroy A M s = sm_remove A M s"

definition sm_create ::
  "('h, 'o) shm_api \<Rightarrow> u64 \<Rightarrow> 'h shared_memory \<Rightarrow> 'o \<times> memory \<Rightarrow> bool \<times> 'h shared_memory \<times> 'o \<times> memory" where
  "sm_create A sz M sm =
     (if m_pmemory M = None then
        (case shm_create_only A (sm_name M) (fst sm) of
           None \<Rightarrow> (False, M, sm_remove A M (fst sm), snd sm)
         | Some (h, s1) \<Rightarrow>
             (case shm_truncate A h sz (s1, snd sm) of
                None \<Rightarrow> (False, M, sm_remove A M s1, snd sm)
              | Some (s2, m2) \<Rightarrow>
                  (case shm_map A h s2 of
                     None \<Rightarrow> (False, M, sm_remove A M s2, m2)
                   | Some (r, s3) \<Rightarrow> (True, M\<lparr>m_pregion := Some r, m_pmemory := Some h\<rparr>, s3, m2))))
      else (False, M, sm))"

definition sm_open ::
  "('h, 'o) shm_api \<Rightarrow> 'h shared_memory \<Rightarrow> 'o \<Rightarrow> bool \<times> 'h shared_memory \<times> 'o" where
  "sm_open A M s =
     (if m_pmemory M = None then
        (case shm_open_only A (sm_name M) s of
           None \<Rightarrow> (False, M, sm_remove A M s)
         | Some (h, s1) \<Rightarrow>
             (case shm_map A h s1 of
                None \<Rightarrow> (False, M, sm_remove A M s1)
              | Some (r, s2) \<Rightarrow> (True, M\<lparr>m_pregion := Some r, m_pmemory := Some h\<rparr>, s2)))
      else (False, M, s))"

text \<open>The null pointer is the address 0.\<close>

definition sm_get :: "'h shared_memory \<Rightarrow> nat" where
  "sm_get M = (case m_pregion M of Some r \<Rightarrow> fst r | None \<Rightarrow> 0)"

definition sm_size :: "'h shared_memory \<Rightarrow> u64" where
  "sm_size M = (case m_pregion M of Some r \<Rightarrow> snd r | None \<Rightarrow> 0)"

lemmas sm_defs = sm_remove_def sm_destroy_def sm_create_def sm_open_def sm_get_def sm_size_def

section \<open>A table of segments\<close>

text \<open>
  An instance of the interface: a table of named segments, handed out one after the other;
  a handle is the name, a new segment is filled with zeroes.
\<close>

record seg_table =
  segments :: "string \<Rightarrow> (nat \<times> u64) option"
  next_address :: nat

definition table_api :: "(string, seg_table) shm_api" where
  "table_api = \<lparr>
     shm_create_only = (\<lambda>n s. if segments s n = None
       then Some (n, s\<lparr>segments := (segments s)(n \<mapsto> (next_address s, 0))\<rparr>) else None),
     shm_open_only = (\<lambda>n s. if segments s n = None then None else Some (n, s)),
     shm_truncate = (\<lambda>n z (s, m). case segments s n of
         None \<Rightarrow> None
       | Some (a, _) \<Rightarrow> Some (s\<lparr>segments := (segments s)(n \<mapsto> (a, z)),
           next_address := max (next_address s) (a + unat z)\<rparr>, store m a (replicate (unat z) 0))),
     shm_map = (\<lambda>n s. case segments s n of None \<Rightarrow> None | Some r \<Rightarrow> Some (r, s)),
     shm_remove = (\<lambda>n s. s\<lparr>segments := (segments s)(n := None)\<rparr>)\<rparr>"

lemma table_api_spec: "shm_spec table_api segments (\<lambda>_ h. h)"
proof -
  have "only_changes m (store m a (replicate n 0)) {a..<a + n}" for m a n
    using only_changes_store [of m a "replicate n 0"] by simp
  moreover have "store m a (replicate n 0) i = 0" if "a \<le> i" "i < a + n" for m a n i
    using that by (simp add: store_def)
  ultimately show ?thesis
    by (auto simp: shm_spec_def table_api_def split: option.splits)
qed

section \<open>Lemmas\<close>

lemma sm_create_fresh:
  assumes "shm_spec A seg nm" and "m_pmemory M = None" and "seg s (sm_name M) = None"
  shows "\<exists>h a s' m'. sm_create A sz M (s, m) = (True, M\<lparr>m_pregion := Some (a, sz), m_pmemory := Some h\<rparr>, s', m')
    \<and> seg s' = (seg s)(sm_name M \<mapsto> (a, sz)) \<and> only_changes m m' {a..<a + unat sz}
    \<and> (\<forall>i \<in> {a..<a + unat sz}. m' i = 0)"
proof -
  obtain h s1 a where 1: "shm_create_only A (sm_name M) s = Some (h, s1)" "nm s1 h = sm_name M"
    "seg s1 = (seg s)(sm_name M \<mapsto> (a, 0))"
    using assms unfolding shm_spec_def by meson
  then have "seg s1 (nm s1 h) = Some (a, 0)" by simp
  then obtain s2 m2 where 2: "shm_truncate A h sz (s1, m) = Some (s2, m2)" "nm s2 h = nm s1 h"
    "seg s2 = (seg s1)(nm s1 h \<mapsto> (a, sz))" "only_changes m m2 {a..<a + unat sz}"
    "\<forall>i \<in> {a..<a + unat sz}. m2 i = 0"
    using assms(1) unfolding shm_spec_def by meson
  then have "seg s2 (nm s2 h) = Some (a, sz)" by simp
  then obtain s3 where 3: "shm_map A h s2 = Some ((a, sz), s3)" "seg s3 = seg s2"
    using assms(1) unfolding shm_spec_def by meson
  show ?thesis
    by (rule exI [of _ h], rule exI [of _ a], rule exI [of _ s3], rule exI [of _ m2])
      (simp add: sm_create_def assms(2) 1 2 3)
qed

lemma sm_create_taken:
  assumes "shm_spec A seg nm" and "m_pmemory M = None" and "seg s (sm_name M) \<noteq> None"
  shows "sm_create A sz M (s, m) = (False, M, shm_remove A (sm_name M) s, m)"
    "seg (shm_remove A (sm_name M) s) = (seg s)(sm_name M := None)"
  using assms unfolding shm_spec_def by (simp_all add: sm_create_def sm_remove_def)

lemma sm_open_existing:
  assumes "shm_spec A seg nm" and "m_pmemory M = None" and "seg s (sm_name M) = Some r"
  shows "\<exists>h s'. sm_open A M s = (True, M\<lparr>m_pregion := Some r, m_pmemory := Some h\<rparr>, s') \<and> seg s' = seg s"
proof -
  obtain h s1 where 1: "shm_open_only A (sm_name M) s = Some (h, s1)" "nm s1 h = sm_name M" "seg s1 = seg s"
    using assms unfolding shm_spec_def by (metis option.distinct(1))
  then have "seg s1 (nm s1 h) = Some r" using assms(3) by simp
  then obtain s2 where 2: "shm_map A h s1 = Some (r, s2)" "seg s2 = seg s1"
    using assms(1) unfolding shm_spec_def by meson
  show ?thesis
    by (rule exI [of _ h], rule exI [of _ s2]) (simp add: sm_open_def assms(2) 1 2)
qed

lemma sm_open_missing:
  assumes "shm_spec A seg nm" and "m_pmemory M = None" and "seg s (sm_name M) = None"
  shows "sm_open A M s = (False, M, shm_remove A (sm_name M) s)"
    "seg (shm_remove A (sm_name M) s) = (seg s)(sm_name M := None)"
  using assms unfolding shm_spec_def by (simp_all add: sm_open_def sm_remove_def)

section \<open>Properties\<close>

text \<open>
  A segment created under a free name can be opened under that name by
  any number of other objects, which see the same region; destroying any one of these objects
  removes the name, so that nobody can open the segment any more although the others still
  use it.
\<close>

theorem segment_life:
  assumes "shm_spec A seg nm" and "seg s name = None"
    and "M = new_shared_memory name" and "sm_create A sz M (s, m) = (b, M1, s1, m1)"
    and "sm_open A M s1 = (b2, M2, s2)"
  shows "b \<and> sm_size M1 = sz \<and> b2 \<and> sm_get M2 = sm_get M1 \<and> sm_size M2 = sz
    \<and> fst (sm_open A M (sm_destroy A M2 s2)) = False"
proof -
  have new: "m_pmemory M = None" "sm_name M = name" by (simp_all add: assms(3) new_shared_memory_def)
  obtain h a where c: "b" "M1 = M\<lparr>m_pregion := Some (a, sz), m_pmemory := Some h\<rparr>"
    "seg s1 = (seg s)(name \<mapsto> (a, sz))"
    using sm_create_fresh [OF assms(1) new(1), of s sz m] assms(2,4) new(2) by auto
  then have there: "seg s1 (sm_name M) = Some (a, sz)" by (simp add: new)
  obtain h2 where o: "b2" "M2 = M\<lparr>m_pregion := Some (a, sz), m_pmemory := Some h2\<rparr>" "seg s2 = seg s1"
    using sm_open_existing [OF assms(1) new(1) there] assms(5) by auto
  have "seg (sm_destroy A M2 s2) name = None"
    using assms(1) o(2) new(2) unfolding shm_spec_def by (simp add: sm_destroy_def sm_remove_def)
  then have "sm_open A M (sm_destroy A M2 s2) = (False, M, shm_remove A name (sm_destroy A M2 s2))"
    using sm_open_missing(1) [OF assms(1) new(1), of "sm_destroy A M2 s2"] by (simp add: new(2))
  then show ?thesis using c o by (simp add: sm_get_def sm_size_def)
qed

theorem segment_life_witness:
  "\<exists>b M1 s1 m1 b2 M2 s2. sm_create table_api 100 (new_shared_memory ''q0'') (\<lparr>segments = Map.empty, next_address = 64\<rparr>, \<lambda>_. 7)
      = (b, M1, s1, m1)
    \<and> sm_open table_api (new_shared_memory ''q0'') s1 = (b2, M2, s2) \<and> b \<and> b2
    \<and> fst (sm_open table_api (new_shared_memory ''q0'') (sm_destroy table_api M2 s2)) = False"
proof -
  let ?s = "\<lparr>segments = Map.empty, next_address = 64\<rparr>"
  obtain b M1 s1 m1 where c: "sm_create table_api 100 (new_shared_memory ''q0'') (?s, \<lambda>_. 7) = (b, M1, s1, m1)"
    using prod_cases4 by blast
  obtain b2 M2 s2 where o: "sm_open table_api (new_shared_memory ''q0'') s1 = (b2, M2, s2)"
    using prod_cases3 by blast
  show ?thesis
    using segment_life [OF table_api_spec _ refl c o] c o by auto
qed

text \<open>
  Creating a segment under a name that exists fails, and removes
  the name of the segment that another process has created: it can no longer be opened.
\<close>

lemma failed_create_unlinks:
  assumes "shm_spec A seg nm" and "seg s name \<noteq> None"
  shows "\<exists>s'. sm_create A sz (new_shared_memory name) (s, m) = (False, new_shared_memory name, s', m)
    \<and> seg s' name = None \<and> fst (sm_open A (new_shared_memory name) s') = False"
proof -
  have new: "m_pmemory (new_shared_memory name) = None" "sm_name (new_shared_memory name) = name"
    by (simp_all add: new_shared_memory_def)
  note c = sm_create_taken [OF assms(1) new(1), of s, unfolded new(2), OF assms(2)]
  then have "seg (shm_remove A name s) name = None" by simp
  with c(1) sm_open_missing(1) [OF assms(1) new(1), of "shm_remove A name s"] show ?thesis
    by (simp add: new(2))
qed

end
