(* ===== verification/Connector.thy ===== *)
theory Connector
  imports Queue_Operations Guards Barrier Shared_Memory
begin

text \<open>
  \<^verbatim>\<open>qbus/connector.h\<close>, \<^verbatim>\<open>qbus/connector.cpp\<close>: connectors, named queues in shared
  memory with a lock in front of them.

  A connector class is the record of its virtual functions, and a class template that derives
  from its argument maps such a record to another. Everything acts on a \<open>site\<close>: the object
  of one process and what all processes share.
\<close>

section \<open>State\<close>

datatype direction_type = CON_IN | CON_OUT | CON_BIDIR

record 'h connector =
  c_name :: string
  c_type :: direction_type
  m_opened :: bool
  m_memory :: "'h shared_memory"
  m_pqueue :: "queue option"
  m_plocker :: "nat option"
  m_pbarrier :: "nat option"

text \<open>
  What the processes share: the segments and their bytes, and the lockers and barriers that
  have been constructed in them, by address. Queues, counters and spinlocks are bytes of
  \<open>wld\<close>; lockers and barriers are kept as the records of their theories.
\<close>

record ('o, 'l, 'b) globals =
  sys :: 'o
  wld :: world
  lockers :: "nat \<Rightarrow> 'l"
  barriers :: "nat \<Rightarrow> 'b"

type_synonym ('h, 'o, 'l, 'b) site = "'h connector \<times> ('o, 'l, 'b) globals"

text \<open>
  The template parameters \<open>Locker\<close> and \<open>Barrier\<close>: their sizes, a new one, and their
  operations. \<open>stub_barrier\<close> has the size 0.
\<close>

record 'l locker_class =
  locker_size :: nat
  new_locker :: 'l
  scoped_lock_type :: "(nat \<times> 'l) side"
  lock_to_push :: "(nat \<times> 'l) side"
  lock_to_get :: "(nat \<times> 'l) side"
  lock_to_pop :: "(nat \<times> 'l) side"

record 'b barrier_class =
  barrier_size :: nat
  new_bar :: 'b
  bar_open :: "'b \<Rightarrow> 'b"
  bar_knock :: "'b \<Rightarrow> 'b option"
  bar_expect :: "timespec \<Rightarrow> 'b \<Rightarrow> bool \<times> 'b"

text \<open>
  The environment: Boost's segments, the clock and atomics, the two template parameters, and
  what the other processes do between two rounds of a waiting loop and to a spinlock.
\<close>

record ('h, 'o, 'l, 'b) platform =
  penv :: env
  papi :: "('h, 'o) shm_api"
  plock :: "'l locker_class"
  pbar :: "'b barrier_class"
  meanwhile :: "nat \<Rightarrow> ('o, 'l, 'b) globals \<Rightarrow> ('o, 'l, 'b) globals"
  spinners :: "u32 others"

definition mapmem :: "(memory \<Rightarrow> memory) \<Rightarrow> ('o, 'l, 'b) globals \<Rightarrow> ('o, 'l, 'b) globals" where
  "mapmem f g = g\<lparr>wld := (wld g)\<lparr>mem := f (mem (wld g))\<rparr>\<rparr>"

abbreviation gmem :: "('o, 'l, 'b) globals \<Rightarrow> memory" where
  "gmem g \<equiv> mem (wld g)"

definition now ::
  "('h, 'o, 'l, 'b) platform \<Rightarrow> ('h, 'o, 'l, 'b) site \<Rightarrow> (timespec \<times> ('h, 'o, 'l, 'b) site) run" where
  "now P s =
     and_then (as_run (get_monotonic_time (clock (penv P)) (readings (wld (snd s))))) (\<lambda>(t, i).
       returns (t, fst s, (snd s)\<lparr>wld := (wld (snd s))\<lparr>readings := i\<rparr>\<rparr>))"

section \<open>Classes\<close>

record 's vtable =
  v_create :: "id_type \<Rightarrow> u64 \<Rightarrow> timespec option \<Rightarrow> queue option \<Rightarrow> 's \<Rightarrow> (bool \<times> 's) run"
  v_open :: "queue option \<Rightarrow> 's \<Rightarrow> (bool \<times> 's) run"
  v_get_memory :: "'s \<Rightarrow> nat"
  v_memory_size :: "u64 \<Rightarrow> u64"
  v_push :: "tag_type \<Rightarrow> u8 list \<Rightarrow> 's \<Rightarrow> (bool \<times> 's) run"
  v_get :: "'s \<Rightarrow> (pmessage \<times> 's) run"
  v_pop :: "'s \<Rightarrow> (bool \<times> 's) run"
  v_timed_push :: "(tag_type \<Rightarrow> u8 list \<Rightarrow> timespec \<Rightarrow> 's \<Rightarrow> (bool \<times> 's) run) option"
  v_timed_get :: "(timespec \<Rightarrow> 's \<Rightarrow> (pmessage \<times> 's) run) option"
  v_timed_pop :: "(timespec \<Rightarrow> 's \<Rightarrow> (bool \<times> 's) run) option"
  v_capacity :: "'s \<Rightarrow> u64 run"
  v_destroy :: "'s \<Rightarrow> 's run"

section \<open>base_connector\<close>

definition new_connector :: "string \<Rightarrow> direction_type \<Rightarrow> 'h connector" where
  "new_connector name type =
     \<lparr>c_name = name, c_type = type, m_opened = False, m_memory = new_shared_memory name,
      m_pqueue = None, m_plocker = None, m_pbarrier = None\<rparr>"

definition connector_create ::
  "('h, 'o, 'l, 'b) site vtable \<Rightarrow> id_type \<Rightarrow> u64 \<Rightarrow> timespec option \<Rightarrow> queue option
    \<Rightarrow> ('h, 'o, 'l, 'b) site \<Rightarrow> (bool \<times> ('h, 'o, 'l, 'b) site) run" where
  "connector_create C cid sz pkeepalive pparent s =
     (if \<not> m_opened (fst s) then
        and_then (v_create C cid sz pkeepalive pparent s) (\<lambda>(b, c, g).
          returns (b, c\<lparr>m_opened := b\<rparr>, g))
      else returns (False, s))"

definition connector_open ::
  "('h, 'o, 'l, 'b) site vtable \<Rightarrow> queue option \<Rightarrow> ('h, 'o, 'l, 'b) site
    \<Rightarrow> (bool \<times> ('h, 'o, 'l, 'b) site) run" where
  "connector_open C pparent s =
     (if \<not> m_opened (fst s) then
        and_then (v_open C pparent s) (\<lambda>(b, c, g). returns (b, c\<lparr>m_opened := b\<rparr>, g))
      else returns (False, s))"

definition may_push :: "'h connector \<Rightarrow> bool" where
  "may_push c \<longleftrightarrow> m_opened c \<and> (c_type c = CON_OUT \<or> c_type c = CON_BIDIR)"

definition may_get :: "'h connector \<Rightarrow> bool" where
  "may_get c \<longleftrightarrow> m_opened c \<and> (c_type c = CON_IN \<or> c_type c = CON_BIDIR)"

text \<open>
  The loop of the inherited timed operations: \<open>attempt\<close> is the virtual operation, \<open>ok\<close>
  tells whether its result ends the loop, and \<open>r\<close> is the result so far.
\<close>

partial_function (option) retry_loop ::
  "('h, 'o, 'l, 'b) platform \<Rightarrow> timespec \<Rightarrow> (('h, 'o, 'l, 'b) site \<Rightarrow> ('r \<times> ('h, 'o, 'l, 'b) site) run)
    \<Rightarrow> ('r \<Rightarrow> bool) \<Rightarrow> 'r \<Rightarrow> nat \<Rightarrow> ('h, 'o, 'l, 'b) site \<Rightarrow> ('r \<times> ('h, 'o, 'l, 'b) site) run" where
  "retry_loop P ts attempt ok r k s =
     and_then (now P s) (\<lambda>(t, s1).
       if t < ts then
         and_then (attempt s1) (\<lambda>(r1, c2, g2).
           if ok r1 then returns (r1, c2, g2)
           else retry_loop P ts attempt ok r1 (k + 1) (c2, meanwhile P k g2))
       else returns (r, s1))"

definition retry ::
  "('h, 'o, 'l, 'b) platform \<Rightarrow> timespec \<Rightarrow> (('h, 'o, 'l, 'b) site \<Rightarrow> ('r \<times> ('h, 'o, 'l, 'b) site) run)
    \<Rightarrow> ('r \<Rightarrow> bool) \<Rightarrow> 'r \<Rightarrow> ('h, 'o, 'l, 'b) site \<Rightarrow> ('r \<times> ('h, 'o, 'l, 'b) site) run" where
  "retry P timeout attempt ok r s =
     and_then (now P s) (\<lambda>(t, s1). retry_loop P (t + timeout) attempt ok r 0 s1)"

definition base_timed_push ::
  "('h, 'o, 'l, 'b) platform \<Rightarrow> ('h, 'o, 'l, 'b) site vtable \<Rightarrow> tag_type \<Rightarrow> u8 list \<Rightarrow> timespec
    \<Rightarrow> ('h, 'o, 'l, 'b) site \<Rightarrow> (bool \<times> ('h, 'o, 'l, 'b) site) run" where
  "base_timed_push P C tag data timeout s = retry P timeout (v_push C tag data) (\<lambda>b. b) False s"

definition base_timed_get ::
  "('h, 'o, 'l, 'b) platform \<Rightarrow> ('h, 'o, 'l, 'b) site vtable \<Rightarrow> timespec
    \<Rightarrow> ('h, 'o, 'l, 'b) site \<Rightarrow> (pmessage \<times> ('h, 'o, 'l, 'b) site) run" where
  "base_timed_get P C timeout s = retry P timeout (v_get C) (\<lambda>ps. ps \<noteq> []) [] s"

definition base_timed_pop ::
  "('h, 'o, 'l, 'b) platform \<Rightarrow> ('h, 'o, 'l, 'b) site vtable \<Rightarrow> timespec
    \<Rightarrow> ('h, 'o, 'l, 'b) site \<Rightarrow> (bool \<times> ('h, 'o, 'l, 'b) site) run" where
  "base_timed_pop P C timeout s = retry P timeout (v_pop C) (\<lambda>b. b) False s"

definition connector_push ::
  "('h, 'o, 'l, 'b) site vtable \<Rightarrow> tag_type \<Rightarrow> u8 list \<Rightarrow> ('h, 'o, 'l, 'b) site
    \<Rightarrow> (bool \<times> ('h, 'o, 'l, 'b) site) run" where
  "connector_push C tag data s =
     (if may_push (fst s) then v_push C tag data s else returns (False, s))"

definition connector_timed_push ::
  "('h, 'o, 'l, 'b) platform \<Rightarrow> ('h, 'o, 'l, 'b) site vtable \<Rightarrow> tag_type \<Rightarrow> u8 list \<Rightarrow> timespec
    \<Rightarrow> ('h, 'o, 'l, 'b) site \<Rightarrow> (bool \<times> ('h, 'o, 'l, 'b) site) run" where
  "connector_timed_push P C tag data timeout s =
     (if may_push (fst s) then
        (case v_timed_push C of Some f \<Rightarrow> f tag data timeout s
         | None \<Rightarrow> base_timed_push P C tag data timeout s)
      else returns (False, s))"

definition connector_get ::
  "('h, 'o, 'l, 'b) site vtable \<Rightarrow> ('h, 'o, 'l, 'b) site \<Rightarrow> (pmessage \<times> ('h, 'o, 'l, 'b) site) run" where
  "connector_get C s = (if may_get (fst s) then v_get C s else returns ([], s))"

definition connector_timed_get ::
  "('h, 'o, 'l, 'b) platform \<Rightarrow> ('h, 'o, 'l, 'b) site vtable \<Rightarrow> timespec
    \<Rightarrow> ('h, 'o, 'l, 'b) site \<Rightarrow> (pmessage \<times> ('h, 'o, 'l, 'b) site) run" where
  "connector_timed_get P C timeout s =
     (if may_get (fst s) then
        (case v_timed_get C of Some f \<Rightarrow> f timeout s | None \<Rightarrow> base_timed_get P C timeout s)
      else returns ([], s))"

definition connector_pop ::
  "('h, 'o, 'l, 'b) site vtable \<Rightarrow> ('h, 'o, 'l, 'b) site \<Rightarrow> (bool \<times> ('h, 'o, 'l, 'b) site) run" where
  "connector_pop C s = (if may_get (fst s) then v_pop C s else returns (False, s))"

definition connector_timed_pop ::
  "('h, 'o, 'l, 'b) platform \<Rightarrow> ('h, 'o, 'l, 'b) site vtable \<Rightarrow> timespec
    \<Rightarrow> ('h, 'o, 'l, 'b) site \<Rightarrow> (bool \<times> ('h, 'o, 'l, 'b) site) run" where
  "connector_timed_pop P C timeout s =
     (if may_get (fst s) then
        (case v_timed_pop C of Some f \<Rightarrow> f timeout s | None \<Rightarrow> base_timed_pop P C timeout s)
      else returns (False, s))"

definition connector_capacity ::
  "('h, 'o, 'l, 'b) site vtable \<Rightarrow> ('h, 'o, 'l, 'b) site \<Rightarrow> u64 run" where
  "connector_capacity C s = (if m_opened (fst s) then v_capacity C s else returns 0)"

section \<open>shared_connector\<close>

definition create_memory ::
  "('h, 'o, 'l, 'b) platform \<Rightarrow> u64 \<Rightarrow> ('h, 'o, 'l, 'b) site \<Rightarrow> bool \<times> ('h, 'o, 'l, 'b) site" where
  "create_memory P sz s =
     (case sm_create (papi P) sz (m_memory (fst s)) (sys (snd s), gmem (snd s)) of
        (b, M, o1, m) \<Rightarrow> (b, (fst s)\<lparr>m_memory := M\<rparr>, mapmem (\<lambda>_. m) ((snd s)\<lparr>sys := o1\<rparr>)))"

definition open_memory ::
  "('h, 'o, 'l, 'b) platform \<Rightarrow> ('h, 'o, 'l, 'b) site \<Rightarrow> bool \<times> ('h, 'o, 'l, 'b) site" where
  "open_memory P s =
     (case sm_open (papi P) (m_memory (fst s)) (sys (snd s)) of
        (b, M, o1) \<Rightarrow> (b, (fst s)\<lparr>m_memory := M\<rparr>, (snd s)\<lparr>sys := o1\<rparr>))"

definition shared_get_memory :: "('h, 'o, 'l, 'b) site \<Rightarrow> nat" where
  "shared_get_memory s = sm_get (m_memory (fst s))"

text \<open>The destructor of \<open>shared_connector\<close>: that of its \<open>shared_memory\<close>.\<close>

definition shared_connector_destroy ::
  "('h, 'o, 'l, 'b) platform \<Rightarrow> ('h, 'o, 'l, 'b) site \<Rightarrow> ('h, 'o, 'l, 'b) site" where
  "shared_connector_destroy P s =
     (fst s, (snd s)\<lparr>sys := sm_destroy (papi P) (m_memory (fst s)) (sys (snd s))\<rparr>)"

section \<open>simple_connector\<close>

text \<open>The queue of the connector, whose pointer must not be null.\<close>

definition with_queue ::
  "(world \<Rightarrow> queue \<Rightarrow> ('r \<times> world \<times> queue) run) \<Rightarrow> ('h, 'o, 'l, 'b) site
    \<Rightarrow> ('r \<times> ('h, 'o, 'l, 'b) site) run" where
  "with_queue f s =
     (case m_pqueue (fst s) of
        None \<Rightarrow> crashes Null_pointer
      | Some q \<Rightarrow> and_then (f (wld (snd s)) q) (\<lambda>(r, w1, q1).
          returns (r, (fst s)\<lparr>m_pqueue := Some q1\<rparr>, (snd s)\<lparr>wld := w1\<rparr>)))"

definition make_queue ::
  "('h, 'o, 'l, 'b) platform \<Rightarrow> queue_class \<Rightarrow> nat \<Rightarrow> id_type \<Rightarrow> u64 \<Rightarrow> timespec option \<Rightarrow> queue option
    \<Rightarrow> ('h, 'o, 'l, 'b) site \<Rightarrow> ('h, 'o, 'l, 'b) site run" where
  "make_queue P Q ptr cid sz pkeepalive pparent s =
     and_then (create_queue (penv P) (wld (snd s)) Q cid ptr sz pparent) (\<lambda>(w, q).
       returns ((fst s)\<lparr>m_pqueue := Some q\<rparr>,
         (snd s)\<lparr>wld := (case pkeepalive of
             None \<Rightarrow> w
           | Some ts \<Rightarrow> w\<lparr>mem := set_keepalive_timeout (mem w) q (of_int (tv_sec ts))\<rparr>)\<rparr>))"

definition attach_queue ::
  "('h, 'o, 'l, 'b) platform \<Rightarrow> queue_class \<Rightarrow> nat \<Rightarrow> queue option
    \<Rightarrow> ('h, 'o, 'l, 'b) site \<Rightarrow> ('h, 'o, 'l, 'b) site run" where
  "attach_queue P Q ptr pparent s =
     and_then (open_queue (penv P) (wld (snd s)) Q ptr pparent) (\<lambda>(w, q).
       returns ((fst s)\<lparr>m_pqueue := Some q\<rparr>, (snd s)\<lparr>wld := w\<rparr>))"

text \<open>Resetting the last pointer to a queue object runs its destructor.\<close>

definition destroy_queue :: "env \<Rightarrow> world \<Rightarrow> queue \<Rightarrow> world run" where
  "destroy_queue E w q =
     (case class_of q of
        Shared_queue \<Rightarrow> returns (w\<lparr>mem := shared_destroy E (mem w) q\<rparr>)
      | Smart_shared_queue \<Rightarrow> and_then (smart_destroy E w q) (\<lambda>(w1, q1). returns w1)
      | _ \<Rightarrow> returns w)"

definition free_queue ::
  "('h, 'o, 'l, 'b) platform \<Rightarrow> ('h, 'o, 'l, 'b) site \<Rightarrow> ('h, 'o, 'l, 'b) site run" where
  "free_queue P s =
     (case m_pqueue (fst s) of
        None \<Rightarrow> returns s
      | Some q \<Rightarrow> and_then (destroy_queue (penv P) (wld (snd s)) q) (\<lambda>w1.
          returns ((fst s)\<lparr>m_pqueue := None\<rparr>, (snd s)\<lparr>wld := w1\<rparr>)))"

definition queue_static_size :: "queue_class \<Rightarrow> u64 \<Rightarrow> u64" where
  "queue_static_size Q sz =
     (case Q of Simple_queue \<Rightarrow> q_static_size sz
      | Smart_shared_queue \<Rightarrow> smart_static_size sz
      | _ \<Rightarrow> s_static_size sz)"

definition simple_connector_create ::
  "('h, 'o, 'l, 'b) platform \<Rightarrow> queue_class \<Rightarrow> id_type \<Rightarrow> u64 \<Rightarrow> timespec option \<Rightarrow> queue option
    \<Rightarrow> ('h, 'o, 'l, 'b) site \<Rightarrow> (bool \<times> ('h, 'o, 'l, 'b) site) run" where
  "simple_connector_create P Q cid sz pkeepalive pparent s =
     (case create_memory P (queue_static_size Q sz) s of
        (b, s1) \<Rightarrow>
          if b then and_then (make_queue P Q (shared_get_memory s1) cid sz pkeepalive pparent s1)
            (\<lambda>s2. returns (True, s2))
          else returns (False, s1))"

definition simple_connector_open ::
  "('h, 'o, 'l, 'b) platform \<Rightarrow> queue_class \<Rightarrow> queue option
    \<Rightarrow> ('h, 'o, 'l, 'b) site \<Rightarrow> (bool \<times> ('h, 'o, 'l, 'b) site) run" where
  "simple_connector_open P Q pparent s =
     (case open_memory P s of
        (b, s1) \<Rightarrow>
          if b then and_then (attach_queue P Q (shared_get_memory s1) pparent s1) (\<lambda>s2. returns (True, s2))
          else returns (False, s1))"

definition simple_connector_push ::
  "('h, 'o, 'l, 'b) platform \<Rightarrow> tag_type \<Rightarrow> u8 list \<Rightarrow> ('h, 'o, 'l, 'b) site
    \<Rightarrow> (bool \<times> ('h, 'o, 'l, 'b) site) run" where
  "simple_connector_push P tag data s = with_queue (\<lambda>w q. push (penv P) w q tag data) s"

definition simple_connector_get ::
  "('h, 'o, 'l, 'b) platform \<Rightarrow> ('h, 'o, 'l, 'b) site \<Rightarrow> (pmessage \<times> ('h, 'o, 'l, 'b) site) run" where
  "simple_connector_get P s =
     with_queue (\<lambda>w q. and_then (get (penv P) (mem w) q) (\<lambda>(ps, m1, q1). returns (ps, w\<lparr>mem := m1\<rparr>, q1))) s"

definition simple_connector_pop ::
  "('h, 'o, 'l, 'b) platform \<Rightarrow> ('h, 'o, 'l, 'b) site \<Rightarrow> (bool \<times> ('h, 'o, 'l, 'b) site) run" where
  "simple_connector_pop P s =
     with_queue (\<lambda>w q. and_then (pop (penv P) (mem w) q) (\<lambda>(b, m1, q1). returns (b, w\<lparr>mem := m1\<rparr>, q1))) s"

definition simple_connector_capacity :: "('h, 'o, 'l, 'b) site \<Rightarrow> u64 run" where
  "simple_connector_capacity s =
     (case m_pqueue (fst s) of None \<Rightarrow> crashes Null_pointer
      | Some q \<Rightarrow> returns (q_capacity (gmem (snd s)) q))"

definition simple_connector ::
  "('h, 'o, 'l, 'b) platform \<Rightarrow> queue_class \<Rightarrow> ('h, 'o, 'l, 'b) site vtable" where
  "simple_connector P Q =
     \<lparr>v_create = simple_connector_create P Q, v_open = simple_connector_open P Q,
      v_get_memory = shared_get_memory, v_memory_size = queue_static_size Q,
      v_push = simple_connector_push P, v_get = simple_connector_get P,
      v_pop = simple_connector_pop P, v_timed_push = None, v_timed_get = None,
      v_timed_pop = None, v_capacity = simple_connector_capacity,
      v_destroy = (\<lambda>s. and_then (free_queue P s) (\<lambda>s1. returns (shared_connector_destroy P s1)))\<rparr>"

section \<open>output_connector, input_connector, bidirectional_connector\<close>

definition output_connector :: "'s vtable \<Rightarrow> 's vtable" where
  "output_connector C =
     C\<lparr>v_get := (\<lambda>s. returns ([], s)), v_timed_get := Some (\<lambda>timeout s. returns ([], s)),
       v_pop := (\<lambda>s. returns (False, s)), v_timed_pop := Some (\<lambda>timeout s. returns (False, s))\<rparr>"

definition input_connector :: "'s vtable \<Rightarrow> 's vtable" where
  "input_connector C =
     C\<lparr>v_push := (\<lambda>tag data s. returns (False, s)),
       v_timed_push := Some (\<lambda>tag data timeout s. returns (False, s))\<rparr>"

definition bidirectional_connector :: "'s vtable \<Rightarrow> 's vtable" where
  "bidirectional_connector C = C"

end
