(* ===== verification/Safe_Connector.thy ===== *)
theory Safe_Connector
  imports Connector
begin

text \<open>
  \<^verbatim>\<open>qbus/connector.h\<close>: \<open>base_safe_connector\<close> and \<open>safe_connector\<close>, the connectors
  with a readers-writer lock in front of the queue, and the classes built from them.

  The segment of such a connector starts with a spinlock and the number of its users, then the
  locker and the barrier; the queue follows.
\<close>

section \<open>The locker and the barrier of an object\<close>

definition locker_at :: "nat \<Rightarrow> ('o, 'l, 'b) globals \<Rightarrow> nat \<times> 'l" where
  "locker_at a g = (readings (wld g), lockers g a)"

definition put_locker :: "nat \<Rightarrow> nat \<times> 'l \<Rightarrow> ('o, 'l, 'b) globals \<Rightarrow> ('o, 'l, 'b) globals" where
  "put_locker a il g =
     g\<lparr>wld := (wld g)\<lparr>readings := fst il\<rparr>, lockers := (lockers g)(a := snd il)\<rparr>"

text \<open>One side of the locker \<open>*m_plocker\<close>, acting on the whole site.\<close>

definition on_locker ::
  "(nat \<times> 'l \<Rightarrow> ('r \<times> nat \<times> 'l) run) \<Rightarrow> ('h, 'o, 'l, 'b) site \<Rightarrow> ('r \<times> ('h, 'o, 'l, 'b) site) run" where
  "on_locker f s =
     (case m_plocker (fst s) of
        None \<Rightarrow> crashes Null_pointer
      | Some a \<Rightarrow> and_then (f (locker_at a (snd s))) (\<lambda>(r, il).
          returns (r, fst s, put_locker a il (snd s))))"

definition site_side :: "(nat \<times> 'l) side \<Rightarrow> ('h, 'o, 'l, 'b) site side" where
  "site_side S =
     \<lparr>side_lock = (\<lambda>s. and_then (on_locker (\<lambda>il. and_then (side_lock S il) (\<lambda>il1. returns ((), il1))) s)
        (\<lambda>(u, s1). returns s1)),
      side_try = on_locker (side_try S),
      side_timed = (\<lambda>timeout. on_locker (side_timed S timeout)),
      side_unlock = (\<lambda>s. and_then (on_locker (\<lambda>il. and_then (side_unlock S il) (\<lambda>il1. returns ((), il1))) s)
        (\<lambda>(u, s1). returns s1))\<rparr>"

text \<open>
  A scope that begins with a guard: \<open>acquired\<close> is what its constructor yields, \<open>body\<close> what
  the scope does when the guard owns the lock, \<open>otherwise\<close> its result when it does not.
\<close>

definition scope ::
  "'s side \<Rightarrow> (guard \<times> 's) run \<Rightarrow> ('s \<Rightarrow> ('r \<times> 's) run) \<Rightarrow> 'r \<Rightarrow> ('r \<times> 's) run" where
  "scope S acquired body otherwise =
     and_then acquired (\<lambda>(guard, s1).
     and_then (if owns guard then body s1 else returns (otherwise, s1)) (\<lambda>(r, s2).
     and_then (guard_destroy S guard s2) (\<lambda>s3. returns (r, s3))))"

definition on_barrier ::
  "('b \<Rightarrow> ('r \<times> 'b) run) \<Rightarrow> ('h, 'o, 'l, 'b) site \<Rightarrow> ('r \<times> ('h, 'o, 'l, 'b) site) run" where
  "on_barrier f s =
     (case m_pbarrier (fst s) of
        None \<Rightarrow> crashes Null_pointer
      | Some a \<Rightarrow> and_then (f (barriers (snd s) a)) (\<lambda>(r, b1).
          returns (r, fst s, (snd s)\<lparr>barriers := (barriers (snd s))(a := b1)\<rparr>)))"

definition open_the_barrier ::
  "('h, 'o, 'l, 'b) platform \<Rightarrow> ('h, 'o, 'l, 'b) site \<Rightarrow> (unit \<times> ('h, 'o, 'l, 'b) site) run" where
  "open_the_barrier P = on_barrier (\<lambda>b. returns ((), bar_open (pbar P) b))"

section \<open>base_safe_connector: layout\<close>

abbreviation (input) SPINLOCK_SIZE :: nat where "SPINLOCK_SIZE \<equiv> 4"
abbreviation (input) COUNTER_SIZE :: nat where "COUNTER_SIZE \<equiv> 4"

definition safe_get_memory ::
  "('h, 'o, 'l, 'b) platform \<Rightarrow> ('h, 'o, 'l, 'b) site vtable \<Rightarrow> ('h, 'o, 'l, 'b) site \<Rightarrow> nat" where
  "safe_get_memory P C s =
     v_get_memory C s + locker_size (plock P) + barrier_size (pbar P) + SPINLOCK_SIZE + COUNTER_SIZE"

definition safe_memory_size ::
  "('h, 'o, 'l, 'b) platform \<Rightarrow> ('h, 'o, 'l, 'b) site vtable \<Rightarrow> u64 \<Rightarrow> u64" where
  "safe_memory_size P C sz =
     v_memory_size C sz + of_nat (locker_size (plock P)) + of_nat (barrier_size (pbar P))
       + of_nat SPINLOCK_SIZE + of_nat COUNTER_SIZE"

definition users :: "nat \<Rightarrow> memory \<Rightarrow> u32" where
  "users a m = load32 m (a + SPINLOCK_SIZE)"

definition set_users :: "nat \<Rightarrow> u32 \<Rightarrow> memory \<Rightarrow> memory" where
  "set_users a v m = store32 m (a + SPINLOCK_SIZE) v"

definition spin_enter ::
  "('h, 'o, 'l, 'b) platform \<Rightarrow> nat \<Rightarrow> ('o, 'l, 'b) globals \<Rightarrow> ('o, 'l, 'b) globals run" where
  "spin_enter P a g =
     and_then (as_run (spin_lock (atomics (penv P)) (spinners P) 0 (load32 (gmem g) a))) (\<lambda>v.
       returns (mapmem (\<lambda>m. store32 m a v) g))"

definition spin_leave ::
  "('h, 'o, 'l, 'b) platform \<Rightarrow> nat \<Rightarrow> ('o, 'l, 'b) globals \<Rightarrow> ('o, 'l, 'b) globals" where
  "spin_leave P a g =
     mapmem (\<lambda>m. store32 m a (spin_unlock (atomics (penv P)) (load32 m a))) g"

section \<open>base_safe_connector: creation, opening, destruction\<close>

text \<open>
  The pointers set by \<open>do_create\<close> and \<open>do_open\<close>: the locker behind the counter, the barrier
  behind the locker.
\<close>

definition set_pointers ::
  "('h, 'o, 'l, 'b) platform \<Rightarrow> nat \<Rightarrow> 'h connector \<Rightarrow> 'h connector" where
  "set_pointers P a c =
     (let ptr = a + SPINLOCK_SIZE + COUNTER_SIZE in
      c\<lparr>m_plocker := Some ptr, m_pbarrier := Some (ptr + locker_size (plock P))\<rparr>)"

definition safe_create ::
  "('h, 'o, 'l, 'b) platform \<Rightarrow> queue_class \<Rightarrow> ('h, 'o, 'l, 'b) site vtable \<Rightarrow> id_type \<Rightarrow> u64
    \<Rightarrow> timespec option \<Rightarrow> queue option \<Rightarrow> ('h, 'o, 'l, 'b) site \<Rightarrow> (bool \<times> ('h, 'o, 'l, 'b) site) run" where
  "safe_create P Q C cid sz pkeepalive pparent s =
     (case create_memory P (safe_memory_size P C sz) s of
        (b, c1, g1) \<Rightarrow>
          if b then
            let a = v_get_memory C (c1, g1);
                c2 = set_pointers P a c1;
                ptr = a + SPINLOCK_SIZE + COUNTER_SIZE;
                g2 = g1\<lparr>lockers := (lockers g1)(ptr := new_locker (plock P)),
                  barriers := (barriers g1)(ptr + locker_size (plock P) := new_bar (pbar P))\<rparr>;
                S = site_side (scoped_lock_type (plock P))
            in scope S (guard_immediate S (c2, g2)) (\<lambda>s2.
                 and_then (make_queue P Q (safe_get_memory P C s2) cid sz pkeepalive pparent s2) (\<lambda>(c3, g3).
                   let g4 = mapmem (\<lambda>m. set_users a (users a m + 1) m) g3
                   in returns (True, c3, spin_leave P a g4))) False
          else returns (False, c1, g1))"

definition safe_open ::
  "('h, 'o, 'l, 'b) platform \<Rightarrow> queue_class \<Rightarrow> ('h, 'o, 'l, 'b) site vtable
    \<Rightarrow> queue option \<Rightarrow> ('h, 'o, 'l, 'b) site \<Rightarrow> (bool \<times> ('h, 'o, 'l, 'b) site) run" where
  "safe_open P Q C pparent s =
     (case open_memory P s of
        (b, c1, g1) \<Rightarrow>
          if b then
            let a = v_get_memory C (c1, g1); S = site_side (scoped_lock_type (plock P)) in
            and_then (spin_enter P a g1) (\<lambda>g2.
            and_then
              (if users a (gmem g2) > 0 then
                 scope S (guard_immediate S (set_pointers P a c1, g2)) (\<lambda>s2.
                   and_then (attach_queue P Q (safe_get_memory P C s2) pparent s2) (\<lambda>(c3, g3).
                     returns (True, c3, mapmem (\<lambda>m. set_users a (users a m + 1) m) g3))) False
               else returns (False, c1, g2)) (\<lambda>(r, c4, g4).
            returns (r, c4, spin_leave P a g4)))
          else returns (False, c1, g1))"

text \<open>
  The destructor, and those of the base classes. The last user ends the life of the barrier
  and of the locker, which leaves nothing to model.
\<close>

definition safe_destroy ::
  "('h, 'o, 'l, 'b) platform \<Rightarrow> ('h, 'o, 'l, 'b) site vtable \<Rightarrow> ('h, 'o, 'l, 'b) site
    \<Rightarrow> ('h, 'o, 'l, 'b) site run" where
  "safe_destroy P C s =
     and_then
       (if m_opened (fst s) then
          let a = v_get_memory C s; S = site_side (scoped_lock_type (plock P)) in
          and_then (spin_enter P a (snd s)) (\<lambda>g1.
          and_then (scope S (guard_immediate S (fst s, g1))
            (\<lambda>s2. and_then (free_queue P s2) (\<lambda>s3. returns ((), s3))) ()) (\<lambda>(u, c4, g4).
          returns (c4, spin_leave P a (mapmem (\<lambda>m. set_users a (users a m - 1) m) g4))))
        else returns s)
       (v_destroy C)"

section \<open>base_safe_connector: operations\<close>

definition safe_push ::
  "('h, 'o, 'l, 'b) platform \<Rightarrow> ('h, 'o, 'l, 'b) site vtable \<Rightarrow> tag_type \<Rightarrow> u8 list
    \<Rightarrow> ('h, 'o, 'l, 'b) site \<Rightarrow> (bool \<times> ('h, 'o, 'l, 'b) site) run" where
  "safe_push P C tag data s =
     (let S = site_side (lock_to_push (plock P)) in
      scope S (guard_try S s) (v_push C tag data) False)"

definition safe_get ::
  "('h, 'o, 'l, 'b) platform \<Rightarrow> ('h, 'o, 'l, 'b) site vtable
    \<Rightarrow> ('h, 'o, 'l, 'b) site \<Rightarrow> (pmessage \<times> ('h, 'o, 'l, 'b) site) run" where
  "safe_get P C s =
     (let S = site_side (lock_to_get (plock P)) in scope S (guard_try S s) (v_get C) [])"

definition safe_pop ::
  "('h, 'o, 'l, 'b) platform \<Rightarrow> ('h, 'o, 'l, 'b) site vtable
    \<Rightarrow> ('h, 'o, 'l, 'b) site \<Rightarrow> (bool \<times> ('h, 'o, 'l, 'b) site) run" where
  "safe_pop P C s =
     (let S = site_side (lock_to_pop (plock P)) in scope S (guard_try S s) (v_pop C) False)"

definition base_safe_connector ::
  "('h, 'o, 'l, 'b) platform \<Rightarrow> queue_class \<Rightarrow> ('h, 'o, 'l, 'b) site vtable
    \<Rightarrow> ('h, 'o, 'l, 'b) site vtable" where
  "base_safe_connector P Q C =
     C\<lparr>v_create := safe_create P Q C, v_open := safe_open P Q C, v_get_memory := safe_get_memory P C,
       v_memory_size := safe_memory_size P C, v_push := safe_push P C, v_get := safe_get P C,
       v_pop := safe_pop P C, v_destroy := safe_destroy P C\<rparr>"

section \<open>safe_connector\<close>

text \<open>With a locker that has no timed lock nothing is added.\<close>

definition safe_connector ::
  "('h, 'o, 'l, 'b) platform \<Rightarrow> queue_class \<Rightarrow> ('h, 'o, 'l, 'b) site vtable
    \<Rightarrow> ('h, 'o, 'l, 'b) site vtable" where
  "safe_connector P Q C = base_safe_connector P Q C"

text \<open>
  With one that has, \<open>do_push\<close> and the timed operations are overridden. \<open>do_push\<close> takes
  the lock and calls \<open>do_push\<close> of \<open>base_safe_connector\<close>; the timed operations call that
  of the connector below.
\<close>

definition timed_safe_push ::
  "('h, 'o, 'l, 'b) platform \<Rightarrow> ('h, 'o, 'l, 'b) site vtable \<Rightarrow> tag_type \<Rightarrow> u8 list
    \<Rightarrow> ('h, 'o, 'l, 'b) site \<Rightarrow> (bool \<times> ('h, 'o, 'l, 'b) site) run" where
  "timed_safe_push P C tag data s =
     (let S = site_side (lock_to_push (plock P)) in
      scope S (guard_try S s) (\<lambda>s1.
        and_then (safe_push P C tag data s1) (\<lambda>(b, s2).
          if b then and_then (open_the_barrier P s2) (\<lambda>(u, s3). returns (True, s3))
          else returns (False, s2))) False)"

partial_function (option) timed_push_loop ::
  "('h, 'o, 'l, 'b) platform \<Rightarrow> ('h, 'o, 'l, 'b) site vtable \<Rightarrow> tag_type \<Rightarrow> u8 list \<Rightarrow> timespec \<Rightarrow> nat
    \<Rightarrow> ('h, 'o, 'l, 'b) site \<Rightarrow> (bool \<times> ('h, 'o, 'l, 'b) site) run" where
  "timed_push_loop P C tag data ts k s =
     and_then (now P s) (\<lambda>(t, s1).
       if t < ts then
         and_then (now P s1) (\<lambda>(t2, s2).
         let S = site_side (lock_to_push (plock P)) in
         and_then (scope S (guard_timed S (ts - t2) s2) (\<lambda>s3.
           and_then (v_push C tag data s3) (\<lambda>(b, s4).
             if b then and_then (open_the_barrier P s4) (\<lambda>(u, s5). returns (True, s5))
             else returns (False, s4))) False) (\<lambda>(b, c6, g6).
         if b then returns (True, c6, g6)
         else timed_push_loop P C tag data ts (k + 1) (c6, meanwhile P k g6)))
       else returns (False, s1))"

definition safe_timed_push ::
  "('h, 'o, 'l, 'b) platform \<Rightarrow> ('h, 'o, 'l, 'b) site vtable \<Rightarrow> tag_type \<Rightarrow> u8 list \<Rightarrow> timespec
    \<Rightarrow> ('h, 'o, 'l, 'b) site \<Rightarrow> (bool \<times> ('h, 'o, 'l, 'b) site) run" where
  "safe_timed_push P C tag data timeout s =
     and_then (now P s) (\<lambda>(t, s1). timed_push_loop P C tag data (t + timeout) 0 s1)"

text \<open>
  One round of the timed get with the lock owned: the message, or the knock, the early
  release, and the wait at the barrier; \<open>None\<close> is "try again".
\<close>

definition timed_get_round ::
  "('h, 'o, 'l, 'b) platform \<Rightarrow> ('h, 'o, 'l, 'b) site vtable \<Rightarrow> timespec \<Rightarrow> guard
    \<Rightarrow> ('h, 'o, 'l, 'b) site \<Rightarrow> (pmessage option \<times> ('h, 'o, 'l, 'b) site) run" where
  "timed_get_round P C ts guard s =
     (let S = site_side (lock_to_get (plock P)) in
      if owns guard then
        and_then (v_get C s) (\<lambda>(pmessage, s1).
          if pmessage \<noteq> [] then
            and_then (guard_destroy S guard s1) (\<lambda>s2. returns (Some pmessage, s2))
          else
            and_then (on_barrier (\<lambda>b. and_then (as_run (bar_knock (pbar P) b)) (\<lambda>b1. returns ((), b1))) s1) (\<lambda>(u, s2).
            and_then (guard_unlock S guard s2) (\<lambda>(guard1, s3).
            and_then (now P s3) (\<lambda>(t, s4).
            and_then (on_barrier (\<lambda>b. returns (bar_expect (pbar P) (ts - t) b)) s4) (\<lambda>(opened, s5).
            and_then (guard_destroy S guard1 s5) (\<lambda>s6.
              returns (if opened then None else Some [], s6)))))))
      else and_then (guard_destroy S guard s) (\<lambda>s1. returns (None, s1)))"

partial_function (option) timed_get_loop ::
  "('h, 'o, 'l, 'b) platform \<Rightarrow> ('h, 'o, 'l, 'b) site vtable \<Rightarrow> timespec \<Rightarrow> nat
    \<Rightarrow> ('h, 'o, 'l, 'b) site \<Rightarrow> (pmessage \<times> ('h, 'o, 'l, 'b) site) run" where
  "timed_get_loop P C ts k s =
     and_then (now P s) (\<lambda>(t, s1).
       if t < ts then
         and_then (now P s1) (\<lambda>(t2, s2).
         and_then (guard_timed (site_side (lock_to_get (plock P))) (ts - t2) s2) (\<lambda>(guard, s3).
         and_then (timed_get_round P C ts guard s3) (\<lambda>(found, c4, g4).
           case found of Some pmessage \<Rightarrow> returns (pmessage, c4, g4)
           | None \<Rightarrow> timed_get_loop P C ts (k + 1) (c4, meanwhile P k g4))))
       else returns ([], s1))"

definition safe_timed_get ::
  "('h, 'o, 'l, 'b) platform \<Rightarrow> ('h, 'o, 'l, 'b) site vtable \<Rightarrow> timespec
    \<Rightarrow> ('h, 'o, 'l, 'b) site \<Rightarrow> (pmessage \<times> ('h, 'o, 'l, 'b) site) run" where
  "safe_timed_get P C timeout s =
     and_then (now P s) (\<lambda>(t, s1). timed_get_loop P C (t + timeout) 0 s1)"

partial_function (option) timed_pop_loop ::
  "('h, 'o, 'l, 'b) platform \<Rightarrow> ('h, 'o, 'l, 'b) site vtable \<Rightarrow> timespec \<Rightarrow> nat
    \<Rightarrow> ('h, 'o, 'l, 'b) site \<Rightarrow> (bool \<times> ('h, 'o, 'l, 'b) site) run" where
  "timed_pop_loop P C ts k s =
     and_then (now P s) (\<lambda>(t, s1).
       if t < ts then
         and_then (now P s1) (\<lambda>(t2, s2).
         let S = site_side (lock_to_pop (plock P)) in
         and_then (scope S (guard_timed S (ts - t2) s2) (v_pop C) False) (\<lambda>(b, c3, g3).
         if b then returns (True, c3, g3)
         else timed_pop_loop P C ts (k + 1) (c3, meanwhile P k g3)))
       else returns (False, s1))"

definition safe_timed_pop ::
  "('h, 'o, 'l, 'b) platform \<Rightarrow> ('h, 'o, 'l, 'b) site vtable \<Rightarrow> timespec
    \<Rightarrow> ('h, 'o, 'l, 'b) site \<Rightarrow> (bool \<times> ('h, 'o, 'l, 'b) site) run" where
  "safe_timed_pop P C timeout s =
     and_then (now P s) (\<lambda>(t, s1). timed_pop_loop P C (t + timeout) 0 s1)"

definition timed_safe_connector ::
  "('h, 'o, 'l, 'b) platform \<Rightarrow> queue_class \<Rightarrow> ('h, 'o, 'l, 'b) site vtable
    \<Rightarrow> ('h, 'o, 'l, 'b) site vtable" where
  "timed_safe_connector P Q C =
     (base_safe_connector P Q C)\<lparr>v_push := timed_safe_push P C,
       v_timed_push := Some (safe_timed_push P C), v_timed_get := Some (safe_timed_get P C),
       v_timed_pop := Some (safe_timed_pop P C)\<rparr>"

section \<open>The classes of the library\<close>

definition single_input_connector ::
  "('h, 'o, 'l, 'b) platform \<Rightarrow> ('h, 'o, 'l, 'b) site vtable" where
  "single_input_connector P =
     safe_connector P Simple_queue (input_connector (simple_connector P Simple_queue))"

definition single_output_connector ::
  "('h, 'o, 'l, 'b) platform \<Rightarrow> ('h, 'o, 'l, 'b) site vtable" where
  "single_output_connector P =
     safe_connector P Simple_queue (output_connector (simple_connector P Simple_queue))"

definition single_bidirectional_connector ::
  "('h, 'o, 'l, 'b) platform \<Rightarrow> ('h, 'o, 'l, 'b) site vtable" where
  "single_bidirectional_connector P =
     safe_connector P Simple_queue (bidirectional_connector (simple_connector P Simple_queue))"

definition multi_input_connector ::
  "('h, 'o, 'l, 'b) platform \<Rightarrow> ('h, 'o, 'l, 'b) site vtable" where
  "multi_input_connector P =
     timed_safe_connector P Shared_queue (input_connector (simple_connector P Shared_queue))"

definition multi_output_connector ::
  "('h, 'o, 'l, 'b) platform \<Rightarrow> ('h, 'o, 'l, 'b) site vtable" where
  "multi_output_connector P =
     timed_safe_connector P Unreadable_shared_queue
       (output_connector (simple_connector P Unreadable_shared_queue))"

definition multi_bidirectional_connector ::
  "('h, 'o, 'l, 'b) platform \<Rightarrow> ('h, 'o, 'l, 'b) site vtable" where
  "multi_bidirectional_connector P =
     timed_safe_connector P Shared_queue (bidirectional_connector (simple_connector P Shared_queue))"

text \<open>
  The locker of the multi connectors is \<open>shared_locker\<close>, with a sharable pop
  (\<open>sharable_spinlocker_with_sharable_pop_interface\<close>), their barrier \<open>shared_barrier\<close>.
\<close>

definition spinlocker_interface ::
  "nat \<Rightarrow> (nat \<Rightarrow> timespec option) \<Rightarrow> shared_locker others \<Rightarrow> shared_locker locker_class" where
  "spinlocker_interface sz clk others =
     \<lparr>locker_size = sz, new_locker = new_shared_locker, scoped_lock_type = scoped_side clk others,
      lock_to_push = scoped_side clk others, lock_to_get = sharable_side clk others,
      lock_to_pop = sharable_side clk others\<rparr>"

text \<open>
  The other interface classes over \<open>shared_locker\<close> and \<open>shared_posix_locker\<close>, which no
  connector of the library uses: with an exclusive pop, and over a POSIX lock \<open>l\<close> that has been
  constructed.
\<close>

definition sharable_spinlocker_interface ::
  "nat \<Rightarrow> (nat \<Rightarrow> timespec option) \<Rightarrow> shared_locker others \<Rightarrow> shared_locker locker_class" where
  "sharable_spinlocker_interface sz clk others =
     \<lparr>locker_size = sz, new_locker = new_shared_locker, scoped_lock_type = scoped_side clk others,
      lock_to_push = scoped_side clk others, lock_to_get = sharable_side clk others,
      lock_to_pop = scoped_side clk others\<rparr>"

definition sharable_posixlocker_interface ::
  "nat \<Rightarrow> 'p \<Rightarrow> (nat \<Rightarrow> timespec option) \<Rightarrow> ('p, 'a) rwlock \<Rightarrow> 'p locker_class" where
  "sharable_posixlocker_interface sz l clk R =
     (let K = posix_lockable clk R in
      \<lparr>locker_size = sz, new_locker = l, scoped_lock_type = exclusive_ops K,
       lock_to_push = exclusive_ops K, lock_to_get = sharable_ops K, lock_to_pop = exclusive_ops K\<rparr>)"

definition sharable_posixlocker_with_sharable_pop_interface ::
  "nat \<Rightarrow> 'p \<Rightarrow> (nat \<Rightarrow> timespec option) \<Rightarrow> ('p, 'a) rwlock \<Rightarrow> 'p locker_class" where
  "sharable_posixlocker_with_sharable_pop_interface sz l clk R =
     (let K = posix_lockable clk R in
      \<lparr>locker_size = sz, new_locker = l, scoped_lock_type = exclusive_ops K,
       lock_to_push = exclusive_ops K, lock_to_get = sharable_ops K, lock_to_pop = sharable_ops K\<rparr>)"

definition sharable_barrier ::
  "nat \<Rightarrow> 'x semaphore_ops \<Rightarrow> 'x \<Rightarrow> 'x barrier others \<Rightarrow> (timespec \<Rightarrow> nat) \<Rightarrow> 'x barrier barrier_class" where
  "sharable_barrier sz S sem others polls =
     \<lparr>barrier_size = sz, new_bar = new_barrier sem, bar_open = open_barrier S,
      bar_knock = knock others 0, bar_expect = (\<lambda>timeout. expect_for S others (polls timeout) 0)\<rparr>"

text \<open>
  The single connectors have no barrier (\<open>stub_barrier\<close>); their locker is
  \<open>boost::interprocess::interprocess_upgradable_mutex\<close> with Boost's lock guards, whose
  operations are an argument.
\<close>

definition stub_barrier :: "unit barrier_class" where
  "stub_barrier = \<lparr>barrier_size = 0, new_bar = (), bar_open = (\<lambda>b. b), bar_knock = Some,
     bar_expect = (\<lambda>timeout b. (True, b))\<rparr>"

definition boost_locker_interface ::
  "nat \<Rightarrow> 'm \<Rightarrow> (nat \<times> 'm) side \<Rightarrow> (nat \<times> 'm) side \<Rightarrow> 'm locker_class" where
  "boost_locker_interface sz m excl shar =
     \<lparr>locker_size = sz, new_locker = m, scoped_lock_type = excl, lock_to_push = excl,
      lock_to_get = shar, lock_to_pop = excl\<rparr>"

definition sharable_locker_with_sharable_pop_interface ::
  "nat \<Rightarrow> 'm \<Rightarrow> (nat \<times> 'm) side \<Rightarrow> (nat \<times> 'm) side \<Rightarrow> 'm locker_class" where
  "sharable_locker_with_sharable_pop_interface sz m excl shar =
     (boost_locker_interface sz m excl shar)\<lparr>lock_to_push := excl, lock_to_pop := shar, lock_to_get := shar\<rparr>"

end
