(* ===== verification/Progress.thy ===== *)
theory Progress
  imports Queue_Operations
begin

text \<open>
  Pushing never winds the clock back: the number of clock calls made only grows. The timed
  loops of the connectors need this to reach their deadlines.
\<close>

section \<open>What holds of every result\<close>

definition every_result :: "('a \<Rightarrow> bool) \<Rightarrow> 'a run \<Rightarrow> bool" where
  "every_result Q r \<longleftrightarrow> (\<forall>x. r = returns x \<longrightarrow> Q x)"

lemma every_result_simps [simp]:
  "every_result Q (returns x) = Q x" "every_result Q (crashes c)" "every_result Q None"
  "every_result Q (and_then r f) = every_result (\<lambda>x. every_result Q (f x)) r"
  by (auto simp: every_result_def and_then_eq_returns)

lemma every_result_if [simp]:
  "every_result Q (if b then r else r') = (if b then every_result Q r else every_result Q r')"
  by simp

lemma every_result_mono: "every_result Q r \<Longrightarrow> (\<And>x. Q x \<Longrightarrow> Q' x) \<Longrightarrow> every_result Q' r"
  by (auto simp: every_result_def)

lemma every_result_any: "(\<And>x. Q x) \<Longrightarrow> every_result Q r"
  by (simp add: every_result_def)

lemma every_result_Some: "every_result Q r \<longleftrightarrow> (\<forall>x. r = Some x \<longrightarrow> (\<forall>y. x = Inr y \<longrightarrow> Q y))"
  by (auto simp: every_result_def returns_def)

section \<open>Pushing\<close>

lemma get_timestamp_forward: "every_result (\<lambda>y. readings w \<le> readings (snd y)) (get_timestamp E w)"
proof -
  have "\<forall>y. x = Inr y \<longrightarrow> readings w \<le> readings (snd y)" if "get_timestamp E w = Some x" for x
  proof (rule get_timestamp.raw_induct [where P = "\<lambda>E w x. \<forall>y. x = Inr y \<longrightarrow> readings w \<le> readings (snd y)",
        OF _ that])
    fix f E w x
    assume IH: "\<And>E w x. f E w = Some x \<Longrightarrow> \<forall>y. x = Inr y \<longrightarrow> readings w \<le> readings (snd y)"
      and eq: "(case clock E (readings w) of
          None \<Rightarrow> f E (w\<lparr>readings := Suc (readings w)\<rparr>)
        | Some ts \<Rightarrow> returns (of_int (tv_sec ts), w\<lparr>readings := Suc (readings w)\<rparr>)) = Some x"
    show "\<forall>y. x = Inr y \<longrightarrow> readings w \<le> readings (snd y)"
    proof (cases "clock E (readings w)")
      case None
      then have "f E (w\<lparr>readings := Suc (readings w)\<rparr>) = Some x" using eq by simp
      from IH [OF this] show ?thesis by auto
    next
      case (Some t)
      then show ?thesis using eq by (auto simp: returns_def)
    qed
  qed
  then show ?thesis by (simp add: every_result_Some case_prod_unfold)
qed

lemma new_message_forward: "every_result (\<lambda>y. readings w \<le> readings (snd y)) (new_message E w p n)"
  using get_timestamp_forward [of "w\<lparr>mem := m\<rparr>" E for m]
  by (simp add: new_message_def Let_def case_prod_unfold)

lemma make_loop_forward: "every_result (\<lambda>y. readings w \<le> readings (fst y)) (make_loop E q w ps pr n)"
proof -
  have "\<forall>y. x = Inr y \<longrightarrow> readings w \<le> readings (fst y)" if "make_loop E q w ps pr n = Some x" for x
  proof (rule make_loop.raw_induct [where P = "\<lambda>E q w ps pr n x. \<forall>y. x = Inr y \<longrightarrow> readings w \<le> readings (fst y)",
        OF _ that])
    fix f E q w ps pr n x
    assume "\<And>E q w ps pr n x. f E q w ps pr n = Some x \<Longrightarrow> \<forall>y. x = Inr y \<longrightarrow> readings w \<le> readings (fst y)"
      and eq: "(if n = 0 then returns (w, Some (ps, pr))
      else and_then (get_free_region E (mem w) q pr) (\<lambda>region.
        if snd region = 0 then returns (w, None)
        else if snd region \<le> 24 then f E q w ps (Some region) n
        else
          let part = min n (unat (static_capacity (snd region))) in
          and_then (new_message E w (q_data q (fst region)) (of_nat part)) (\<lambda>(pnext, w1).
            f E q w1 (attach ps pnext) (Some region) (n - part)))) = Some x" (is "?r = _")
    then have IH: "every_result (\<lambda>y. readings w \<le> readings (fst y)) (f E q w ps pr n)" for w ps pr n
      by (simp add: every_result_Some)
    have "every_result (\<lambda>x. every_result (\<lambda>y. readings w \<le> readings (fst y))
        (f E q (snd x) (attach ps (fst x)) pr' n')) (new_message E w p m)" for pr' n' p m
      by (rule every_result_mono [OF new_message_forward], rule every_result_mono [OF IH]) auto
    then have "every_result (\<lambda>y. readings w \<le> readings (fst y)) ?r"
      using IH [of w] by (simp add: Let_def case_prod_unfold every_result_any)
    then show "\<forall>y. x = Inr y \<longrightarrow> readings w \<le> readings (fst y)"
      by (simp only: eq every_result_Some) simp
  qed
  then show ?thesis by (simp add: every_result_Some case_prod_unfold)
qed

lemma static_make_message_forward:
  "every_result (\<lambda>y. readings w \<le> readings (snd y)) (static_make_message E q w data)"
  unfolding static_make_message_def
  using every_result_mono [OF make_loop_forward [of w E q "[]" None "length data"]]
  by (auto simp: Let_def case_prod_unfold split: option.splits intro!: every_result_mono [OF make_loop_forward])

lemma push_message_forward: "every_result (\<lambda>y. readings w \<le> readings (snd y)) (push_message E q w data)"
proof -
  have shared: "every_result (\<lambda>y. readings w \<le> readings (snd y)) (shared_push_message E q w data)"
    unfolding shared_push_message_def
    by (simp add: Let_def case_prod_unfold if_distrib cong: if_cong)
      (rule every_result_mono [OF static_make_message_forward], auto)
  moreover have "every_result (\<lambda>y. readings w \<le> readings (snd y)) (smart_push_message E q w data)"
    unfolding smart_push_message_def
    by (simp add: Let_def case_prod_unfold if_distrib cong: if_cong)
      (rule every_result_mono [OF shared], auto)
  ultimately show ?thesis
    using static_make_message_forward by (simp add: push_message_def split: queue_class.splits)
qed


lemma do_push_forward: "every_result (\<lambda>y. readings w \<le> readings (fst (snd y))) (do_push E w q tag data)"
proof -
  have pushed: "every_result (\<lambda>y. readings w \<le> readings (snd y)) (push_message E p (w\<lparr>mem := m\<rparr>) data)" for p m
    using push_message_forward [of "w\<lparr>mem := m\<rparr>" E p data] by simp
  show ?thesis
    unfolding do_push_def
    by (simp add: case_prod_unfold if_distrib cong: if_cong)
      (rule every_result_any, rule every_result_mono [OF pushed], auto simp: every_result_any)
qed

lemma evict_loop_forward:
  "every_result (\<lambda>y. readings w \<le> readings (fst (snd y))) (evict_loop E w q tag data limit)"
proof -
  have "\<forall>y. x = Inr y \<longrightarrow> readings w \<le> readings (fst (snd y))"
    if "evict_loop E w q tag data limit = Some x" for x
  proof (rule evict_loop.raw_induct [where P = "\<lambda>E w q tag data limit x.
        \<forall>y. x = Inr y \<longrightarrow> readings w \<le> readings (fst (snd y))", OF _ that])
    fix f E w q tag data limit x
    assume "\<And>E w q tag data limit x. f E w q tag data limit = Some x
        \<Longrightarrow> \<forall>y. x = Inr y \<longrightarrow> readings w \<le> readings (fst (snd y))"
      and eq: "(if q_empty (mem w) q then returns (False, w, q)
      else and_then (get_message E (mem w) q) (\<lambda>(desc, m1, q1).
        if fst desc = [] \<or> msg_timestamp m1 (hd (fst desc)) > limit
        then returns (False, w\<lparr>mem := m1\<rparr>, q1)
        else and_then (pop_message E m1 q1 desc) (\<lambda>(m2, q2).
             and_then (do_push E (w\<lparr>mem := m2\<rparr>) q2 tag data) (\<lambda>(pushed, w3, q3).
               if pushed then returns (True, w3, q3)
               else f E w3 q3 tag data limit)))) = Some x" (is "?r = _")
    then have IH: "every_result (\<lambda>y. readings w \<le> readings (fst (snd y))) (f E w q tag data limit)" for w q
      by (simp add: every_result_Some)
    have step: "every_result (\<lambda>y. every_result (\<lambda>z. readings w \<le> readings (fst (snd z)))
        (if fst y then returns (True, fst (snd y), snd (snd y))
         else f E (fst (snd y)) (snd (snd y)) tag data limit)) (do_push E (w\<lparr>mem := m\<rparr>) p tag data)" for p m
      by (rule every_result_mono [OF do_push_forward])
        (auto intro: every_result_mono [OF IH] order_trans)
    have "every_result (\<lambda>y. readings w \<le> readings (fst (snd y))) ?r"
      using step by (simp add: case_prod_unfold every_result_any)
    then show "\<forall>y. x = Inr y \<longrightarrow> readings w \<le> readings (fst (snd y))"
      by (simp only: eq every_result_Some) simp
  qed
  then show ?thesis by (simp add: every_result_Some)
qed

lemma push_forward: "every_result (\<lambda>y. readings w \<le> readings (fst (snd y))) (push E w q tag data)"
proof -
  have evict: "every_result (\<lambda>y. every_result (\<lambda>z. readings w \<le> readings (fst (snd z)))
      (evict_loop E (snd y) q1 tag data (fst y - t))) (get_timestamp E w1)" if "readings w \<le> readings w1" for w1 q1 t
    by (rule every_result_mono [OF get_timestamp_forward], rule every_result_mono [OF evict_loop_forward])
      (use that in auto)
  show ?thesis
    unfolding push_def
    by (simp add: Let_def case_prod_unfold)
      (rule every_result_mono [OF do_push_forward], auto simp: evict)
qed

end
