(* ===== verification/Connector_Contract.thy ===== *)
theory Connector_Contract
  imports Safe_Connector Simple_Queue Progress
begin

text \<open>
  What the connectors add to the queues below them: with the lock free an operation of a safe
  connector is the queue's operation, with the lock taken it does nothing, and a timed
  operation returns once its deadline has passed.
\<close>

lemma and_then_assoc: "and_then (and_then r f) g = and_then r (\<lambda>x. and_then (f x) g)"
proof (cases r)
  case (Some x)
  then show ?thesis by (cases x) (simp_all add: and_then_def crashes_def)
qed simp

section \<open>Scopes on a free and on a busy lock\<close>

text \<open>
  The contract of one side of a locker: on a free lock a try succeeds and the unlock restores
  the lock, whatever the clock has done in between; on any other lock a try fails and changes
  nothing. A locker class has a set of free locks that fits all its sides.
\<close>

definition side_free :: "(nat \<times> 'l) side \<Rightarrow> 'l \<Rightarrow> bool" where
  "side_free S l \<longleftrightarrow> (\<forall>i. \<exists>l'. side_try S (i, l) = returns (True, i, l')
     \<and> (\<forall>j. side_unlock S (j, l') = returns (j, l)))"

definition side_busy :: "(nat \<times> 'l) side \<Rightarrow> 'l \<Rightarrow> bool" where
  "side_busy S l \<longleftrightarrow> (\<forall>i. side_try S (i, l) = returns (False, i, l))"

definition lock_free :: "'l locker_class \<Rightarrow> 'l \<Rightarrow> bool" where
  "lock_free L l \<longleftrightarrow> side_free (lock_to_push L) l \<and> side_free (lock_to_get L) l
     \<and> side_free (lock_to_pop L) l"

lemma scoped_side_cases:
  "side_free (scoped_side clk others) l \<longleftrightarrow> m_scoped l = 0 \<and> m_sharable l = 0"
  "side_busy (scoped_side clk others) l \<longleftrightarrow> \<not> (m_scoped l = 0 \<and> m_sharable l = 0)"
  by (auto simp: side_free_def side_busy_def scoped_side_def try_lock_def unlock_def)

lemma sharable_side_cases:
  "side_free (sharable_side clk others) l \<longleftrightarrow> m_scoped l = 0 \<and> m_sharable l < - 1"
  "side_busy (sharable_side clk others) l \<longleftrightarrow> \<not> (m_scoped l = 0 \<and> m_sharable l < - 1)"
  using word_succ_pos
  by (auto simp: side_free_def side_busy_def sharable_side_def try_lock_sharable_def
    unlock_sharable_def)

lemma other_interfaces_free:
  "lock_free (sharable_spinlocker_interface sz clk others) l \<longleftrightarrow> m_scoped l = 0 \<and> m_sharable l = 0"
  "lock_free (sharable_locker_with_sharable_pop_interface sz m excl shar) l' \<longleftrightarrow> side_free excl l' \<and> side_free shar l'"
  by (auto simp: lock_free_def sharable_spinlocker_interface_def sharable_locker_with_sharable_pop_interface_def
    boost_locker_interface_def scoped_side_cases sharable_side_cases word_gt_0)

text \<open>Operations that leave the lockers alone and do not look at them.\<close>

definition with_lockers :: "(nat \<Rightarrow> 'l) \<Rightarrow> ('h, 'o, 'l, 'b) site \<Rightarrow> ('h, 'o, 'l, 'b) site" where
  "with_lockers ls s = (fst s, (snd s)\<lparr>lockers := ls\<rparr>)"

definition ignores_lockers ::
  "(('h, 'o, 'l, 'b) site \<Rightarrow> ('r \<times> ('h, 'o, 'l, 'b) site) run) \<Rightarrow> bool" where
  "ignores_lockers f \<longleftrightarrow>
     (\<forall>s ls. f (with_lockers ls s) = and_then (f s) (\<lambda>(r, s1). returns (r, with_lockers ls s1)))
     \<and> (\<forall>s r s1. f s = returns (r, s1) \<longrightarrow>
          lockers (snd s1) = lockers (snd s) \<and> m_plocker (fst s1) = m_plocker (fst s))"

lemma lockers_wld_update: "g\<lparr>lockers := ls, wld := w\<rparr> = g\<lparr>wld := w, lockers := ls\<rparr>"
  by simp

lemma with_queue_ignores_lockers:
  "ignores_lockers (with_queue f :: ('h, 'o, 'l, 'b) site \<Rightarrow> ('r \<times> ('h, 'o, 'l, 'b) site) run)"
  unfolding ignores_lockers_def
proof (intro conjI allI impI)
  fix s :: "('h, 'o, 'l, 'b) site" and ls
  show "with_queue f (with_lockers ls s)
      = and_then (with_queue f s) (\<lambda>(r, s1). returns (r, with_lockers ls s1))"
    by (cases s; cases "m_pqueue (fst s)")
      (auto simp: with_queue_def with_lockers_def and_then_assoc lockers_wld_update case_prod_unfold)
next
  fix s :: "('h, 'o, 'l, 'b) site" and r s1
  assume "with_queue f s = returns (r, s1)"
  then show "lockers (snd s1) = lockers (snd s)" "m_plocker (fst s1) = m_plocker (fst s)"
    by (auto simp: with_queue_def and_then_eq_returns split: option.splits)
qed

lemma site_side_try:
  assumes "m_plocker (fst s) = Some a"
  shows "guard_try (site_side S) s
    = and_then (side_try S (locker_at a (snd s))) (\<lambda>(b, il). returns (b, fst s, put_locker a il (snd s)))"
  by (simp add: guard_try_def site_side_def on_locker_def assms)

lemma site_scope_busy:
  assumes "m_plocker (fst s) = Some a" and "side_busy S (lockers (snd s) a)"
  shows "scope (site_side S) (guard_try (site_side S) s) body r = returns (r, s)"
proof -
  have "side_try S (locker_at a (snd s)) = returns (False, locker_at a (snd s))"
    using assms(2) by (simp add: side_busy_def locker_at_def)
  moreover have "put_locker a (locker_at a (snd s)) (snd s) = snd s"
    by (simp add: put_locker_def locker_at_def)
  ultimately show ?thesis
    by (simp add: scope_def site_side_try [OF assms(1)] owns_def guard_destroy_def)
qed


lemma with_lockers_idem [simp]:
  "with_lockers ls (with_lockers ls' s) = with_lockers ls s" "with_lockers (lockers (snd s)) s = s"
  "fst (with_lockers ls s) = fst s" "lockers (snd (with_lockers ls s)) = ls"
  by (simp_all add: with_lockers_def)

text \<open>On a free lock a scope is its body.\<close>

lemma site_scope_free:
  assumes a: "m_plocker (fst s) = Some a" and free: "side_free S (lockers (snd s) a)"
    and body: "ignores_lockers body"
  shows "scope (site_side S) (guard_try (site_side S) s) body r = body s"
proof -
  let ?l = "lockers (snd s) a" and ?i = "readings (wld (snd s))"
  obtain l' where l': "side_try S (?i, ?l) = returns (True, ?i, l')"
    "\<And>j. side_unlock S (j, l') = returns (j, ?l)"
    using free unfolding side_free_def by metis
  define ls where "ls = (lockers (snd s))(a := l')"
  have start: "guard_try (site_side S) s = returns (True, with_lockers ls s)"
    by (simp add: site_side_try [OF a] locker_at_def l' put_locker_def ls_def with_lockers_def)
  have unlock: "guard_destroy (site_side S) True (with_lockers ls s1) = returns s1"
    if "lockers (snd s1) = lockers (snd s)" "m_plocker (fst s1) = m_plocker (fst s)" for s1
  proof -
    have "side_unlock (site_side S) (with_lockers ls s1) = returns s1"
      using that a by (cases s1) (auto simp: site_side_def on_locker_def with_lockers_def locker_at_def
        ls_def l' put_locker_def)
    then show ?thesis by (simp add: guard_destroy_def returns_def crashes_def)
  qed
  have after: "body (with_lockers ls s) = and_then (body s) (\<lambda>(r, s1). returns (r, with_lockers ls s1))"
    using body unfolding ignores_lockers_def by blast
  show ?thesis
  proof (cases "body s")
    case (Some x)
    show ?thesis
    proof (cases x)
      case (Inr y)
      obtain r1 s1 where y: "y = (r1, s1)" by (cases y)
      then have b: "body s = returns (r1, s1)" using Some Inr by (simp add: returns_def)
      then have "lockers (snd s1) = lockers (snd s)" "m_plocker (fst s1) = m_plocker (fst s)"
        using body unfolding ignores_lockers_def by blast+
      from unlock [OF this] show ?thesis
        by (simp add: scope_def start owns_def after b)
    next
      case (Inl c)
      then have "body s = crashes c" using Some by (simp add: crashes_def)
      then show ?thesis by (simp add: scope_def start owns_def after)
    qed
  next
    case None
    then show ?thesis by (simp add: scope_def start owns_def after)
  qed
qed

lemmas scope_queue = site_scope_free [OF _ _ with_queue_ignores_lockers]

section \<open>A safe connector on a free and on a busy lock\<close>

lemma simple_connector_fields [simp]:
  "v_push (simple_connector P Q) = simple_connector_push P"
  "v_get (simple_connector P Q) = simple_connector_get P"
  "v_pop (simple_connector P Q) = simple_connector_pop P"
  "v_get_memory (simple_connector P Q) = shared_get_memory"
  "v_memory_size (simple_connector P Q) = queue_static_size Q"
  "v_timed_push (simple_connector P Q) = None" "v_timed_get (simple_connector P Q) = None"
  "v_timed_pop (simple_connector P Q) = None"
  by (simp_all add: simple_connector_def)

lemma safe_simple_free:
  assumes "m_plocker (fst s) = Some a" and "lock_free (plock P) (lockers (snd s) a)"
  shows "safe_push P (simple_connector P Q) tag data s = simple_connector_push P tag data s"
    "safe_get P (simple_connector P Q) s = simple_connector_get P s"
    "safe_pop P (simple_connector P Q) s = simple_connector_pop P s"
  using assms
  by (simp_all add: lock_free_def safe_push_def safe_get_def safe_pop_def simple_connector_push_def [abs_def]
    simple_connector_get_def [abs_def] simple_connector_pop_def [abs_def] scope_queue)

lemma safe_busy:
  assumes "m_plocker (fst s) = Some a"
  shows "side_busy (lock_to_push (plock P)) (lockers (snd s) a) \<Longrightarrow> safe_push P C tag data s = returns (False, s)"
    "side_busy (lock_to_get (plock P)) (lockers (snd s) a) \<Longrightarrow> safe_get P C s = returns ([], s)"
    "side_busy (lock_to_pop (plock P)) (lockers (snd s) a) \<Longrightarrow> safe_pop P C s = returns (False, s)"
  by (simp_all add: safe_push_def safe_get_def safe_pop_def site_scope_busy [OF assms])

text \<open>
  \<open>safe_connector::do_push\<close> on \<open>shared_locker\<close>: the outer guard makes the lock busy for
  the inner one.
\<close>

lemma timed_safe_push_fails:
  assumes "m_plocker (fst s) = Some a" and "plock P = spinlocker_interface sz clk others"
  shows "timed_safe_push P C tag data s = returns (False, s)"
proof -
  have push: "lock_to_push (plock P) = scoped_side clk others"
    by (simp add: assms(2) spinlocker_interface_def)
  let ?S = "site_side (scoped_side clk others)"
  let ?body = "\<lambda>s1. and_then (safe_push P C tag data s1) (\<lambda>(b, s2).
      if b then and_then (open_the_barrier P s2) (\<lambda>(u, s3). returns (True, s3)) else returns (False, s2))"
  show ?thesis
  proof (cases "m_scoped (lockers (snd s) a) = 0 \<and> m_sharable (lockers (snd s) a) = 0")
    case False
    then show ?thesis
      by (simp add: timed_safe_push_def push Let_def site_scope_busy [OF assms(1)] scoped_side_cases)
  next
    case True
    let ?l = "lockers (snd s) a"
    let ?s1 = "with_lockers ((lockers (snd s))(a := ?l\<lparr>m_scoped := 1\<rparr>)) s"
    have same: "(lockers (snd s))(a := ?l\<lparr>m_scoped := 0\<rparr>) = lockers (snd s)"
      using True by (intro fun_upd_idem) (cases ?l, simp)
    have "guard_try ?S s = returns (True, ?s1)"
      using True by (simp add: site_side_try [OF assms(1)] scoped_side_def locker_at_def try_lock_def
        put_locker_def with_lockers_def)
    moreover have "m_plocker (fst ?s1) = Some a" using assms(1) by simp
    then have "safe_push P C tag data ?s1 = returns (False, ?s1)"
      by (rule safe_busy(1)) (simp add: push scoped_side_cases)
    moreover have "side_unlock ?S ?s1 = returns s"
      using True assms(1) by (simp add: same prod_eq_iff site_side_def on_locker_def scoped_side_def locker_at_def
        unlock_def put_locker_def with_lockers_def)
    then have "guard_destroy ?S True ?s1 = returns s" by (simp add: guard_destroy_def returns_def crashes_def)
    ultimately show ?thesis
      by (simp add: timed_safe_push_def push Let_def scope_def owns_def)
  qed
qed

section \<open>A single connector is the FIFO of its queue\<close>

definition conn_enq ::
  "('h, 'o, 'l, 'b) site vtable \<Rightarrow> message \<Rightarrow> ('h, 'o, 'l, 'b) site \<Rightarrow> (bool \<times> ('h, 'o, 'l, 'b) site) run" where
  "conn_enq C x s = connector_push C (fst x) (snd x) s"

definition conn_front ::
  "('h, 'o, 'l, 'b) site vtable \<Rightarrow> ('h, 'o, 'l, 'b) site \<Rightarrow> (message option \<times> ('h, 'o, 'l, 'b) site) run" where
  "conn_front C s =
     and_then (connector_get C s) (\<lambda>(ps, s1). returns (read_message (gmem (snd s1)) ps, s1))"

definition conn_deq ::
  "('h, 'o, 'l, 'b) site vtable \<Rightarrow> ('h, 'o, 'l, 'b) site \<Rightarrow> (bool \<times> ('h, 'o, 'l, 'b) site) run" where
  "conn_deq C s = connector_pop C s"

text \<open>An open connector in both directions, with its lock free, whose queue is the FIFO \<open>f\<close>.\<close>

definition single_holds ::
  "('h, 'o, 'l, 'b) platform \<Rightarrow> ('h, 'o, 'l, 'b) site \<Rightarrow> fifo \<Rightarrow> bool" where
  "single_holds P s f \<longleftrightarrow> m_opened (fst s) \<and> c_type (fst s) = CON_BIDIR
     \<and> (\<exists>a q. m_plocker (fst s) = Some a \<and> lock_free (plock P) (lockers (snd s) a)
          \<and> m_pqueue (fst s) = Some q \<and> queue_holds (penv P) (wld (snd s), q) f)"

lemma single_cases:
  assumes "single_holds P s f"
  obtains a q where "m_plocker (fst s) = Some a" "lock_free (plock P) (lockers (snd s) a)"
    "m_pqueue (fst s) = Some q" "queue_holds (penv P) (wld (snd s), q) f"
    "may_push (fst s)" "may_get (fst s)"
  using assms by (auto simp: single_holds_def may_push_def may_get_def)

lemma single_update:
  assumes "single_holds P s f" and "queue_holds (penv P) (w, q) f'"
  shows "single_holds P ((fst s)\<lparr>m_pqueue := Some q\<rparr>, (snd s)\<lparr>wld := w\<rparr>) f'"
  using assms by (auto simp: single_holds_def)

lemma single_fields [simp]:
  "v_push (single_bidirectional_connector P) = safe_push P (simple_connector P Simple_queue)"
  "v_get (single_bidirectional_connector P) = safe_get P (simple_connector P Simple_queue)"
  "v_pop (single_bidirectional_connector P) = safe_pop P (simple_connector P Simple_queue)"
  "v_timed_push (single_bidirectional_connector P) = None"
  "v_timed_get (single_bidirectional_connector P) = None"
  "v_timed_pop (single_bidirectional_connector P) = None"
  "v_push (single_output_connector P) = safe_push P (output_connector (simple_connector P Simple_queue))"
  "v_timed_push (single_output_connector P) = None"
  by (simp_all add: single_bidirectional_connector_def single_output_connector_def safe_connector_def
    base_safe_connector_def bidirectional_connector_def output_connector_def)

text \<open>Each operation is the queue's, on the queue object of the site.\<close>

definition on_queue ::
  "(world \<times> queue \<Rightarrow> ('r \<times> world \<times> queue) run) \<Rightarrow> ('h, 'o, 'l, 'b) site
    \<Rightarrow> ('r \<times> ('h, 'o, 'l, 'b) site) run" where
  "on_queue f s = with_queue (\<lambda>w q. f (w, q)) s"

lemma conn_is_queue:
  assumes "single_holds P s f"
  shows "conn_enq (single_bidirectional_connector P) x s = on_queue (queue_enq (penv P) x) s"
    "conn_front (single_bidirectional_connector P) s = on_queue (queue_front (penv P)) s"
    "conn_deq (single_bidirectional_connector P) s = on_queue (queue_deq (penv P)) s"
proof -
  obtain a q where h: "m_plocker (fst s) = Some a" "lock_free (plock P) (lockers (snd s) a)"
    "m_pqueue (fst s) = Some q" "may_push (fst s)" "may_get (fst s)"
    by (rule single_cases [OF assms])
  note ops = safe_simple_free [OF h(1,2)]
  show "conn_enq (single_bidirectional_connector P) x s = on_queue (queue_enq (penv P) x) s"
    by (simp add: conn_enq_def connector_push_def h ops simple_connector_push_def on_queue_def
      queue_enq_def)
  show "conn_deq (single_bidirectional_connector P) s = on_queue (queue_deq (penv P)) s"
    by (simp add: conn_deq_def connector_pop_def h ops simple_connector_pop_def on_queue_def
      queue_deq_def)
  show "conn_front (single_bidirectional_connector P) s = on_queue (queue_front (penv P)) s"
    by (simp add: conn_front_def connector_get_def h ops simple_connector_get_def on_queue_def
      queue_front_def with_queue_def and_then_assoc case_prod_unfold)
qed

lemma on_queue_law:
  assumes "single_holds P s f" and "\<And>w q. queue_holds (penv P) (w, q) f \<Longrightarrow>
      \<exists>s'. F (w, q) = returns (r, s') \<and> queue_holds (penv P) s' f'"
  shows "\<exists>s'. on_queue F s = returns (r, s') \<and> single_holds P s' f'"
proof -
  obtain a q where q: "m_pqueue (fst s) = Some q" "queue_holds (penv P) (wld (snd s), q) f"
    by (rule single_cases [OF assms(1)])
  obtain w1 q1 where F: "F (wld (snd s), q) = returns (r, w1, q1)" "queue_holds (penv P) (w1, q1) f'"
    using assms(2) [OF q(2)] by auto
  then show ?thesis
    using single_update [OF assms(1) F(2)] q(1) by (simp add: on_queue_def with_queue_def)
qed

lemma conn_enq_law:
  "single_holds P s f \<Longrightarrow> snd x \<noteq> [] \<Longrightarrow>
    \<exists>s'. conn_enq (single_bidirectional_connector P) x s = returns (fst (fifo_push x f), s')
      \<and> single_holds P s' (snd (fifo_push x f))"
  by (simp only: conn_is_queue) (rule on_queue_law, assumption, rule queue_enq_law, assumption+)

lemma conn_front_law:
  "single_holds P s f \<Longrightarrow>
    \<exists>s'. conn_front (single_bidirectional_connector P) s = returns (fifo_get f, s') \<and> single_holds P s' f"
  by (simp only: conn_is_queue) (rule on_queue_law, assumption, rule queue_front_law)

lemma conn_deq_law:
  "single_holds P s f \<Longrightarrow>
    \<exists>s'. conn_deq (single_bidirectional_connector P) s = returns (fst (fifo_pop f), s')
      \<and> single_holds P s' (snd (fifo_pop f))"
  by (simp only: conn_is_queue) (rule on_queue_law, assumption, rule queue_deq_law)

interpretation single: refines_fifo "conn_enq (single_bidirectional_connector P)"
    "conn_front (single_bidirectional_connector P)" "conn_deq (single_bidirectional_connector P)"
    "single_holds P" for P
  by unfold_locales (fact conn_enq_law conn_front_law conn_deq_law)+

section \<open>Timed operations\<close>

abbreviation clock_calls :: "('h, 'o, 'l, 'b) site \<Rightarrow> nat" where
  "clock_calls s \<equiv> readings (wld (snd s))"

definition at_reading :: "nat \<Rightarrow> ('h, 'o, 'l, 'b) site \<Rightarrow> ('h, 'o, 'l, 'b) site" where
  "at_reading i s = (fst s, (snd s)\<lparr>wld := (wld (snd s))\<lparr>readings := i\<rparr>\<rparr>)"

lemma now_cases:
  assumes "clock_live (clock (penv P))"
  obtains t j where "now P s = returns (t, at_reading (Suc j) s)" "clock_calls s \<le> j"
    "clock (penv P) j = Some t"
proof -
  obtain t j where "get_monotonic_time (clock (penv P)) (clock_calls s) = Some (t, Suc j)"
    "clock_calls s \<le> j" "clock (penv P) j = Some t"
    by (rule monotonic_cases [OF assms])
  then show thesis using that by (simp add: now_def at_reading_def)
qed

definition overdue :: "env \<Rightarrow> timespec \<Rightarrow> ('h, 'o, 'l, 'b) site \<Rightarrow> bool" where
  "overdue E ts s \<longleftrightarrow> (\<exists>j t. clock_calls s = Suc j \<and> clock E j = Some t \<and> ts \<le> t)"

text \<open>
  A loop \<open>f\<close> that waits for its deadline: an attempt in each round before it, until one ends
  the loop. It returns, with the result of such an attempt or late, the invariant \<open>I\<close> being kept
  by the attempts and by the others.
\<close>

definition waits ::
  "('h, 'o, 'l, 'b) platform \<Rightarrow> timespec \<Rightarrow> (('h, 'o, 'l, 'b) site \<Rightarrow> ('r \<times> ('h, 'o, 'l, 'b) site) run)
    \<Rightarrow> ('r \<Rightarrow> bool) \<Rightarrow> ('r \<Rightarrow> 'x) \<Rightarrow> ('r \<Rightarrow> nat \<Rightarrow> ('h, 'o, 'l, 'b) site \<Rightarrow> ('x \<times> ('h, 'o, 'l, 'b) site) run) \<Rightarrow> bool" where
  "waits P ts attempt ok result f \<longleftrightarrow> (\<forall>r k s. \<not> ok r \<longrightarrow> f r k s =
     and_then (now P s) (\<lambda>(t, s1).
       if t < ts then
         and_then (attempt s1) (\<lambda>(r1, c2, g2).
           if ok r1 then returns (result r1, c2, g2) else f r1 (k + 1) (c2, meanwhile P k g2))
       else returns (result r, s1)))"

lemma waiting_returns:
  assumes f: "waits P ts attempt ok result f"
    and live: "clock_live (clock (penv P))" and N: "reaches (clock (penv P)) ts N"
    and tick: "\<And>s i. I s \<Longrightarrow> I (at_reading i s)"
    and att: "\<And>s. I s \<Longrightarrow> \<exists>r s'. attempt s = returns (r, s') \<and> clock_calls s \<le> clock_calls s'
      \<and> (if ok r then Q r s' else I s')"
    and others: "\<And>k c g. I (c, g) \<Longrightarrow> I (c, meanwhile P k g)
      \<and> readings (wld g) \<le> readings (wld (meanwhile P k g))"
    and start: "I s" "\<not> ok r"
  shows "\<exists>r' s'. f r k s = returns (result r', s')
    \<and> (if ok r' then Q r' s' else I s' \<and> overdue (penv P) ts s')"
  using start
proof (induction "N - clock_calls s" arbitrary: s r k rule: less_induct)
  case less
  obtain t j where t: "now P s = returns (t, at_reading (Suc j) s)" "clock_calls s \<le> j"
    "clock (penv P) j = Some t"
    by (rule now_cases [OF live])
  let ?s1 = "at_reading (Suc j) s"
  have I1: "I ?s1" and c1: "clock_calls ?s1 = Suc j"
    using tick [OF less.prems(1)] by (simp_all add: at_reading_def)
  note step = f [unfolded waits_def, rule_format, OF less.prems(2), of k s, unfolded t(1)]
  show ?case
  proof (cases "t < ts")
    case False
    then have "f r k s = returns (result r, ?s1)" using step by simp
    moreover have "overdue (penv P) ts ?s1" using False t(3) c1 by (auto simp: overdue_def not_less)
    ultimately show ?thesis using I1 less.prems(2) by auto
  next
    case True
    then have j: "j < N" using reaches_before [OF N t(3)] by simp
    obtain r1 c2 g2 where a: "attempt ?s1 = returns (r1, c2, g2)"
      "Suc j \<le> readings (wld g2)" "if ok r1 then Q r1 (c2, g2) else I (c2, g2)"
      using att [OF I1] c1 by (metis prod.collapse snd_conv)
    have loop: "f r k s = (if ok r1 then returns (result r1, c2, g2)
        else f r1 (k + 1) (c2, meanwhile P k g2))"
      using step True a(1) by simp
    show ?thesis
    proof (cases "ok r1")
      case True
      with loop a show ?thesis by auto
    next
      case False
      then have I2: "I (c2, g2)" using a(3) by simp
      have "N - clock_calls (c2, meanwhile P k g2) < N - clock_calls s"
        using j t(2) a(2) conjunct2 [OF others [OF I2, of k]] by simp
      from less.hyps [OF this _ False] loop False others [OF I2, of k] show ?thesis by auto
    qed
  qed
qed

lemma deadline_returns:
  assumes f: "\<And>ts. waits P ts (attempt ts) ok result (f ts)"
    and live: "clock_live (clock (penv P))" and runs: "clock_runs (clock (penv P))"
    and tick: "\<And>s i. I s \<Longrightarrow> I (at_reading i s)"
    and att: "\<And>ts s. I s \<Longrightarrow> \<exists>r s'. attempt ts s = returns (r, s') \<and> clock_calls s \<le> clock_calls s'
      \<and> (if ok r then Q ts r s' else I s')"
    and others: "\<And>k c g. I (c, g) \<Longrightarrow> I (c, meanwhile P k g)
      \<and> readings (wld g) \<le> readings (wld (meanwhile P k g))"
    and start: "I s" "\<not> ok r"
  shows "\<exists>r' s' i t. and_then (now P s) (\<lambda>(t, s1). f (t + timeout) r 0 s1) = returns (result r', s')
    \<and> clock_calls s \<le> i \<and> clock (penv P) i = Some t
    \<and> (if ok r' then Q (t + timeout) r' s' else I s' \<and> overdue (penv P) (t + timeout) s')"
proof -
  obtain t j where t: "now P s = returns (t, at_reading (Suc j) s)" "clock_calls s \<le> j"
    "clock (penv P) j = Some t"
    by (rule now_cases [OF live])
  obtain N where "reaches (clock (penv P)) (t + timeout) N" using runs by (auto simp: clock_runs_def)
  from waiting_returns [where I = I and Q = "Q (t + timeout)", OF f live this tick att others
      tick [OF start(1)] start(2)] t show ?thesis
    by fastforce
qed

lemma retry_waits:
  "waits P ts attempt ok (\<lambda>r. r) (retry_loop P ts attempt ok)"
  unfolding waits_def by (intro allI impI) (rule retry_loop.simps)

lemma retry_returns:
  assumes live: "clock_live (clock (penv P))" and runs: "clock_runs (clock (penv P))"
    and tick: "\<And>s i. I s \<Longrightarrow> I (at_reading i s)"
    and att: "\<And>s. I s \<Longrightarrow> \<exists>r s'. attempt s = returns (r, s') \<and> I s' \<and> clock_calls s \<le> clock_calls s'
      \<and> (ok r \<longrightarrow> Q r s')"
    and others: "\<And>k c g. I (c, g) \<Longrightarrow> I (c, meanwhile P k g)
      \<and> readings (wld g) \<le> readings (wld (meanwhile P k g))"
    and start: "I s" "\<not> ok r"
  shows "\<exists>r' s' i t. retry P timeout attempt ok r s = returns (r', s') \<and> I s'
    \<and> clock_calls s \<le> i \<and> clock (penv P) i = Some t
    \<and> (if ok r' then Q r' s' else overdue (penv P) (t + timeout) s')"
proof -
  have att': "\<exists>r s'. attempt s = returns (r, s') \<and> clock_calls s \<le> clock_calls s'
      \<and> (if ok r then I s' \<and> Q r s' else I s')" if "I s" for s
    using att [OF that] by auto
  show ?thesis
    using deadline_returns [where I = I and Q = "\<lambda>_ r s. I s \<and> Q r s" and f = "\<lambda>ts. retry_loop P ts attempt ok"
        and attempt = "\<lambda>ts. attempt", OF retry_waits live runs tick att' others start]
    unfolding retry_def by metis
qed

text \<open>A push of a single connector as one attempt of the loop.\<close>

lemma safe_push_forward:
  assumes "single_holds P s f" and "safe_push P (simple_connector P Simple_queue) tag data s = returns (b, s')"
  shows "clock_calls s \<le> clock_calls s'"
proof -
  obtain a q where h: "m_plocker (fst s) = Some a" "lock_free (plock P) (lockers (snd s) a)"
    "m_pqueue (fst s) = Some q"
    by (rule single_cases [OF assms(1)])
  obtain w1 q1 where "push (penv P) (wld (snd s)) q tag data = returns (b, w1, q1)"
    "wld (snd s') = w1"
    using assms(2) h(3) by (auto simp: safe_simple_free [OF h(1,2)] simple_connector_push_def
      with_queue_def and_then_eq_returns)
  with push_forward [of "wld (snd s)" "penv P" q tag data] show ?thesis
    by (auto simp: every_result_def)
qed

lemma single_reading: "single_holds P s f \<Longrightarrow> single_holds P (at_reading i s) f"
  by (auto simp: single_holds_def at_reading_def queue_holds_def)

section \<open>The lock is free or taken\<close>

text \<open>
  An open connector on the simple queue behind \<open>ptr\<close>, which holds the messages \<open>xs\<close> and may have
  an expiry time, with its lock free or taken.
\<close>

definition queue_ready ::
  "('h, 'o, 'l, 'b) platform \<Rightarrow> nat \<Rightarrow> ('h, 'o, 'l, 'b) site \<Rightarrow> message list \<Rightarrow> bool" where
  "queue_ready P ptr s xs \<longleftrightarrow> m_plocker (fst s) \<noteq> None \<and> env_ok (penv P)
     \<and> (\<exists>q. m_pqueue (fst s) = Some q \<and> base_ptr q = ptr \<and> queue_inv (gmem (snd s)) q xs)"

text \<open>A try of the lock either takes it or leaves it as it is.\<close>

definition push_tries :: "('h, 'o, 'l, 'b) platform \<Rightarrow> bool" where
  "push_tries P \<longleftrightarrow> (\<forall>l. side_free (lock_to_push (plock P)) l \<or> side_busy (lock_to_push (plock P)) l)"

text \<open>
  What the other processes may do between two attempts: anything to the lock, and to the queue
  anything that leaves a queue; in particular they push and pop.
\<close>

definition others_share :: "('h, 'o, 'l, 'b) platform \<Rightarrow> nat \<Rightarrow> bool" where
  "others_share P ptr \<longleftrightarrow> (\<forall>k c g xs. queue_ready P ptr (c, g) xs \<longrightarrow>
     (\<exists>xs'. queue_ready P ptr (c, meanwhile P k g) xs') \<and> readings (wld g) \<le> readings (wld (meanwhile P k g)))"

lemma ready_reading: "queue_ready P ptr s xs \<Longrightarrow> queue_ready P ptr (at_reading i s) xs"
  by (simp add: queue_ready_def at_reading_def)

lemma ready_attempt:
  assumes h: "queue_ready P ptr s xs" and P: "push_tries P" and C: "v_push C = simple_connector_push P"
    and ne: "data \<noteq> []"
  shows "\<exists>b s' xs'. safe_push P C tag data s = returns (b, s') \<and> queue_ready P ptr s' xs'
    \<and> clock_calls s \<le> clock_calls s' \<and> (b \<longrightarrow> xs' \<noteq> [] \<and> last xs' = (tag, data))"
proof -
  obtain a q where q: "m_plocker (fst s) = Some a" "m_pqueue (fst s) = Some q" "base_ptr q = ptr"
    "queue_inv (gmem (snd s)) q xs" "env_ok (penv P)"
    using h by (auto simp: queue_ready_def)
  consider "side_busy (lock_to_push (plock P)) (lockers (snd s) a)"
    | "side_free (lock_to_push (plock P)) (lockers (snd s) a)"
    using P by (auto simp: push_tries_def)
  then show ?thesis
  proof cases
    case 1
    from safe_busy(1) [OF q(1) this] h show ?thesis
      by (intro exI [of _ False] exI [of _ s] exI [of _ xs]) simp
  next
    case 2
    obtain b w' k where p: "push (penv P) (wld (snd s)) q tag data = returns (b, w', q)"
      "queue_inv (mem w') q (drop k xs @ (if b then [(tag, data)] else []))"
      using push_returns [OF q(4,5) ne] by blast
    have "safe_push P C tag data s = simple_connector_push P tag data s"
      by (simp add: safe_push_def C simple_connector_push_def [abs_def] scope_queue [OF q(1) 2])
    then have "safe_push P C tag data s
        = returns (b, (fst s)\<lparr>m_pqueue := Some q\<rparr>, (snd s)\<lparr>wld := w'\<rparr>)" (is "_ = returns (b, ?s)")
      by (simp add: simple_connector_push_def with_queue_def q(2) p(1))
    moreover have "queue_ready P ptr ?s (drop k xs @ (if b then [(tag, data)] else []))"
      using q p(2) by (simp add: queue_ready_def)
    moreover have "clock_calls s \<le> clock_calls ?s"
      using push_forward [of "wld (snd s)" "penv P" q tag data] p(1) by (simp add: every_result_def)
    ultimately show ?thesis by (intro exI conjI) auto
  qed
qed

text \<open>A push through another object on the queue is of the kind that the others may do.\<close>

lemma other_push_shares:
  assumes "queue_ready P ptr (c, g) xs" and "base_ptr q2 = ptr" "class_of q2 = Simple_queue" and "data \<noteq> []"
  shows "\<exists>b w xs'. push (penv P) (wld g) q2 tag data = returns (b, w, q2)
    \<and> queue_ready P ptr (c, g\<lparr>wld := w, lockers := ls\<rparr>) xs' \<and> readings (wld g) \<le> readings w"
proof -
  obtain q where q: "m_pqueue c = Some q" "base_ptr q = ptr" "queue_inv (gmem g) q xs" "env_ok (penv P)"
    "m_plocker c \<noteq> None"
    using assms(1) by (auto simp: queue_ready_def)
  have twin: "queue_inv m q2 ys = queue_inv m q ys" for m ys
    using assms(2,3) q(2,3) by (simp add: queue_inv_def ring_state_cong [of q2 q])
  obtain b w k where p: "push (penv P) (wld g) q2 tag data = returns (b, w, q2)"
    "queue_inv (mem w) q2 (drop k xs @ (if b then [(tag, data)] else []))"
    using push_returns [OF q(3) [folded twin] q(4) assms(4)] by blast
  moreover have "readings (wld g) \<le> readings w"
    using push_forward [of "wld g" "penv P" q2 tag data] p(1) by (simp add: every_result_def)
  ultimately show ?thesis using q by (auto simp: queue_ready_def twin)
qed

section \<open>A platform\<close>

text \<open>
  Segments from a table, the mutex of the single connectors an instance with the sides of
  \<open>shared_locker\<close>, and nobody else at work.
\<close>

definition sample_platform :: "(string, seg_table, shared_locker, unit) platform" where
  "sample_platform =
     \<lparr>penv = sample_env, papi = table_api,
      plock = boost_locker_interface 16 new_shared_locker (scoped_side sample_clock (\<lambda>_ l. l))
        (sharable_side sample_clock (\<lambda>_ l. l)),
      pbar = stub_barrier, meanwhile = (\<lambda>_ g. g), spinners = (\<lambda>_ v. v)\<rparr>"

lemma sample_platform_fields [simp]:
  "penv sample_platform = sample_env" "papi sample_platform = table_api"
  "meanwhile sample_platform k g = g" "spinners sample_platform = (\<lambda>_ v. v)"
  by (simp_all add: sample_platform_def)

lemma sample_lock_free [simp]: "lock_free (plock sample_platform) new_shared_locker"
  by (simp add: sample_platform_def boost_locker_interface_def lock_free_def scoped_side_cases
    sharable_side_cases new_shared_locker_def word_gt_0)

lemma sample_single:
  obtains s :: "(string, seg_table, shared_locker, unit) site"
  where "single_holds sample_platform s \<lparr>fifo_cap = 100, fifo_pos = 0, fifo_msgs = []\<rparr>"
    "m_plocker (fst s) = Some 8" "lockers (snd s) 8 = new_shared_locker"
proof -
  obtain m' q where q: "queue_holds sample_env (\<lparr>mem = m', readings = 0\<rparr>, q)
      \<lparr>fifo_cap = 100, fifo_pos = 0, fifo_msgs = []\<rparr>"
    using simple_create_queue_holds [of sample_env 100 "\<lparr>mem = \<lambda>_. 0, readings = 0\<rparr>" 5 64] by auto
  let ?c = "\<lparr>c_name = ''q0'', c_type = CON_BIDIR, m_opened = True, m_memory = new_shared_memory ''q0'',
    m_pqueue = Some q, m_plocker = Some 8, m_pbarrier = Some 24\<rparr>"
  let ?g = "\<lparr>sys = \<lparr>segments = Map.empty, next_address = 0\<rparr>, wld = \<lparr>mem = m', readings = 0\<rparr>,
    lockers = (\<lambda>_. new_shared_locker), barriers = (\<lambda>_. ())\<rparr>"
  show thesis by (rule that [of "(?c, ?g)"]) (simp_all add: single_holds_def q)
qed

text \<open>
  The same platform with another process at work: between two attempts it pushes through an object
  of its own, and it holds the lock at first.
\<close>

definition contended_platform :: "(string, seg_table, shared_locker, unit) platform" where
  "contended_platform = sample_platform\<lparr>meanwhile := (\<lambda>k g.
     case push sample_env (wld g) (simple_open 64) 9 [of_nat k] of
       Some (Inr (b, w, q)) \<Rightarrow> g\<lparr>wld := w, lockers := (lockers g)(8 := new_shared_locker\<lparr>m_scoped := (if k = 0 then 1 else 0)\<rparr>)\<rparr>
     | _ \<Rightarrow> g)\<rparr>"

lemma contended_shares: "others_share contended_platform 64"
  unfolding others_share_def
proof (intro allI impI)
  fix k :: nat and c :: "string connector" and g :: "(seg_table, shared_locker, unit) globals" and xs
  assume h: "queue_ready contended_platform 64 (c, g) xs"
  define ls where "ls = (lockers g)(8 := new_shared_locker\<lparr>m_scoped := (if k = 0 then 1 else 0)\<rparr>)"
  have q2: "base_ptr (simple_open 64) = 64" "class_of (simple_open 64) = Simple_queue" "[of_nat k :: u8] \<noteq> []"
    by (simp_all add: simple_open_def fresh_object_def)
  have env: "penv contended_platform = sample_env" by (simp add: contended_platform_def)
  obtain b w xs' where p: "push sample_env (wld g) (simple_open 64) 9 [of_nat k] = returns (b, w, simple_open 64)"
    "queue_ready contended_platform 64 (c, g\<lparr>wld := w, lockers := ls\<rparr>) xs'" "readings (wld g) \<le> readings w"
    using other_push_shares [OF h q2, of 9 ls] unfolding env by blast
  have "meanwhile contended_platform k g = g\<lparr>wld := w, lockers := ls\<rparr>"
    by (simp add: contended_platform_def p(1) returns_def ls_def)
  with p(2,3) show "(\<exists>xs'. queue_ready contended_platform 64 (c, meanwhile contended_platform k g) xs')
      \<and> readings (wld g) \<le> readings (wld (meanwhile contended_platform k g))" by auto
qed

lemma contended_tries: "push_tries contended_platform"
  by (auto simp: push_tries_def contended_platform_def sample_platform_def boost_locker_interface_def scoped_side_cases)

lemma contended_site:
  obtains s :: "(string, seg_table, shared_locker, unit) site"
  where "queue_ready contended_platform 64 s []" "may_push (fst s)" "m_plocker (fst s) = Some 8"
    "m_scoped (lockers (snd s) 8) = 1"
proof -
  obtain m' q where q: "simple_create (\<lambda>_. 0) 5 64 100 = returns (m', q)" "queue_inv m' q []"
    by (rule sample_queue)
  then have "base_ptr q = 64" by (auto simp: simple_create_def and_then_eq_returns Let_def simple_open_def fresh_object_def)
  let ?c = "\<lparr>c_name = ''q0'', c_type = CON_BIDIR, m_opened = True, m_memory = new_shared_memory ''q0'',
    m_pqueue = Some q, m_plocker = Some 8, m_pbarrier = Some 24\<rparr>"
  let ?g = "\<lparr>sys = \<lparr>segments = Map.empty, next_address = 0\<rparr>, wld = \<lparr>mem = m', readings = 0\<rparr>,
    lockers = (\<lambda>_. new_shared_locker\<lparr>m_scoped := 1\<rparr>), barriers = (\<lambda>_. ())\<rparr>"
  have "env_ok (penv contended_platform)" by (simp add: contended_platform_def)
  then show thesis
    using q(2) \<open>base_ptr q = 64\<close> by (intro that [of "(?c, ?g)"]) (simp_all add: queue_ready_def may_push_def)
qed

section \<open>Properties\<close>

text \<open>
  C7. Every sequence of gets, pops and pushes of non-empty messages on an open bidirectional single
  connector whose queue has no expiry and whose lock nobody else holds ends without a crash and
  behaves as the bounded FIFO of its queue.
\<close>

theorem single_connector_refines_fifo:
  assumes "single_holds P s f" and "\<forall>p \<in> set ps. sendable p"
  shows "\<exists>rs s' f'. impl_run (conn_enq (single_bidirectional_connector P))
      (conn_front (single_bidirectional_connector P)) (conn_deq (single_bidirectional_connector P)) ps s
        = returns (rs, s')
    \<and> fifo_run ps f = (rs, f') \<and> single_holds P s' f'
    \<and> fifo_msgs f' = drop (pops rs) (fifo_msgs f @ accepted ps rs)"
  using single.run_fifo [OF assms] by metis

theorem single_connector_refines_fifo_witness:
  "\<exists>s rs s' f'. impl_run (conn_enq (single_bidirectional_connector sample_platform))
      (conn_front (single_bidirectional_connector sample_platform))
      (conn_deq (single_bidirectional_connector sample_platform)) [Push (7, [1, 2, 3]), Get, Pop] s = returns (rs, s')
    \<and> fifo_run [Push (7, [1, 2, 3]), Get, Pop] \<lparr>fifo_cap = 100, fifo_pos = 0, fifo_msgs = []\<rparr> = (rs, f')
    \<and> single_holds sample_platform s' f'"
proof -
  obtain s :: "(string, seg_table, shared_locker, unit) site"
    where "single_holds sample_platform s \<lparr>fifo_cap = 100, fifo_pos = 0, fifo_msgs = []\<rparr>"
    by (rule sample_single)
  moreover have "\<forall>p \<in> set [Push (7, [1, 2, 3]), Get, Pop]. sendable p" by simp
  ultimately show ?thesis using single_connector_refines_fifo by blast
qed

text \<open>
  C28. The untimed operations of \<open>base_safe_connector\<close>, which are those of the
  \<open>safe_connector\<close> over a locker without timed locks, and so of the single connectors:
  on a free lock they are those of the connector below, whatever these return, crashes included; on
  a lock that is taken they fail and change nothing. (The push of \<open>safe_connector\<close> over
  a locker with timed locks is another function.)
\<close>

theorem safe_connector_is_its_queue:
  assumes "m_plocker (fst s) = Some a"
  shows "(lock_free (plock P) (lockers (snd s) a) \<longrightarrow>
      safe_push P (simple_connector P Q) tag data s = simple_connector_push P tag data s
      \<and> safe_get P (simple_connector P Q) s = simple_connector_get P s
      \<and> safe_pop P (simple_connector P Q) s = simple_connector_pop P s)
    \<and> (side_busy (lock_to_push (plock P)) (lockers (snd s) a) \<longrightarrow>
      safe_push P (simple_connector P Q) tag data s = returns (False, s))
    \<and> (side_busy (lock_to_get (plock P)) (lockers (snd s) a) \<longrightarrow>
      safe_get P (simple_connector P Q) s = returns ([], s))
    \<and> (side_busy (lock_to_pop (plock P)) (lockers (snd s) a) \<longrightarrow>
      safe_pop P (simple_connector P Q) s = returns (False, s))"
  using safe_simple_free [OF assms] safe_busy [OF assms] by blast

theorem safe_connector_is_its_queue_witness:
  "\<exists>s :: (string, seg_table, shared_locker, unit) site.
     lock_free (plock sample_platform) (lockers (snd s) 8)
     \<and> safe_push sample_platform (simple_connector sample_platform Simple_queue) 7 [1] s
       = simple_connector_push sample_platform 7 [1] s"
proof -
  obtain s :: "(string, seg_table, shared_locker, unit) site"
    where s: "m_plocker (fst s) = Some 8" "lockers (snd s) 8 = new_shared_locker"
    by (rule sample_single)
  then have "lock_free (plock sample_platform) (lockers (snd s) 8)" by simp
  with safe_connector_is_its_queue [OF s(1)] show ?thesis by blast
qed

text \<open>
  The untimed push of the multi connectors never succeeds:
  it takes the lock twice, and the second attempt fails because of the first. It changes
  nothing, so no message is lost either.
\<close>

lemma multi_push_never_succeeds:
  assumes "m_plocker (fst s) = Some a" and "plock P = spinlocker_interface sz clk others"
  shows "connector_push (multi_bidirectional_connector P) tag data s = returns (False, s)
    \<and> connector_push (multi_output_connector P) tag data s = returns (False, s)"
  using timed_safe_push_fails [OF assms]
  by (simp add: connector_push_def multi_bidirectional_connector_def multi_output_connector_def
    timed_safe_connector_def)



end
