(* ===== verification/Bus.thy ===== *)
theory Bus
  imports Safe_Connector
begin

text \<open>
  \<^verbatim>\<open>qbus/bus.h\<close>, \<^verbatim>\<open>qbus/bus.cpp\<close>: buses, growing lists of connectors. Messages are
  pushed into the front connector of the list; when it is full a new front connector is added.
  They are got from the back connector; when it is empty it is removed. A control block in
  shared memory tells the other processes the identifiers of the two ends.

  A bus acts on a \<open>hub\<close>: the object of one process and what all processes share. The
  virtual functions of a class are again a record, in three layers: those that the list
  operations use, those that are built on these, and the operations of the interface.
\<close>

section \<open>State\<close>

record specification_type =
  spec_id :: id_type
  spec_keepalive_timeout :: u32
  min_capacity :: u32
  max_capacity :: u32
  capacity_factor :: u32

record controlblock_type =
  epoch :: u32
  input_id :: id_type
  output_id :: id_type

datatype update_status = US_NONE | US_INPUT | US_OUTPUT | US_BOTH

text \<open>
  An object, its base classes included. The list has its front first. \<open>b_memory\<close> is the
  pointer \<open>m_pmemory\<close>, \<open>b_plocker\<close> the one of \<open>base_safe_bus\<close>.
\<close>

record 'h bus =
  b_name :: string
  m_pconnectors :: "'h connector list"
  b_opened :: bool
  b_memory :: "'h shared_memory option"
  m_controlblock :: controlblock_type
  m_status :: update_status
  b_plocker :: "nat option"

type_synonym ('h, 'o, 'l, 'b) hub = "'h bus \<times> ('o, 'l, 'b) globals"

text \<open>
  The first layer: the template parameter \<open>Connector\<close> as its virtual functions and its
  constructor, \<open>boost::lexical_cast\<close> from an identifier to a string, and where the bus has
  its body.
\<close>

record ('h, 'o, 'l, 'b) bus_layout =
  platform_of :: "('h, 'o, 'l, 'b) platform"
  connector_class :: "('h, 'o, 'l, 'b) site vtable"
  connector_make :: "string \<Rightarrow> 'h connector"
  lexical_cast :: "id_type \<Rightarrow> string"
  bus_get_memory :: "'h bus \<Rightarrow> nat"
  bus_memory_size :: u64

record ('h, 'o, 'l, 'b) bus_class =
  layout :: "('h, 'o, 'l, 'b) bus_layout"
  v_add_connector :: "('h, 'o, 'l, 'b) hub \<Rightarrow> (bool \<times> ('h, 'o, 'l, 'b) hub) run"
  v_remove_connector :: "('h, 'o, 'l, 'b) hub \<Rightarrow> (bool \<times> ('h, 'o, 'l, 'b) hub) run"

record ('h, 'o, 'l, 'b) bus_vtable =
  bus_base :: "('h, 'o, 'l, 'b) bus_class"
  b_do_create :: "specification_type \<Rightarrow> ('h, 'o, 'l, 'b) hub \<Rightarrow> (bool \<times> ('h, 'o, 'l, 'b) hub) run"
  b_do_open :: "('h, 'o, 'l, 'b) hub \<Rightarrow> (bool \<times> ('h, 'o, 'l, 'b) hub) run"
  b_do_push :: "tag_type \<Rightarrow> u8 list \<Rightarrow> ('h, 'o, 'l, 'b) hub \<Rightarrow> (bool \<times> ('h, 'o, 'l, 'b) hub) run"
  b_do_timed_push :: "tag_type \<Rightarrow> u8 list \<Rightarrow> timespec \<Rightarrow> ('h, 'o, 'l, 'b) hub
    \<Rightarrow> (bool \<times> ('h, 'o, 'l, 'b) hub) run"
  b_do_get :: "('h, 'o, 'l, 'b) hub \<Rightarrow> (pmessage \<times> ('h, 'o, 'l, 'b) hub) run"
  b_do_timed_get :: "timespec \<Rightarrow> ('h, 'o, 'l, 'b) hub \<Rightarrow> (pmessage \<times> ('h, 'o, 'l, 'b) hub) run"
  b_do_pop :: "('h, 'o, 'l, 'b) hub \<Rightarrow> (bool \<times> ('h, 'o, 'l, 'b) hub) run"
  b_do_timed_pop :: "timespec \<Rightarrow> ('h, 'o, 'l, 'b) hub \<Rightarrow> (bool \<times> ('h, 'o, 'l, 'b) hub) run"
  b_destroy :: "('h, 'o, 'l, 'b) hub \<Rightarrow> ('h, 'o, 'l, 'b) hub run"

section \<open>The body in shared memory\<close>

text \<open>\<open>bus_body\<close>: the specification, then the control block, all 32-bit fields.\<close>

abbreviation (input) BODY_SIZE :: nat where "BODY_SIZE \<equiv> 32"
abbreviation (input) CB_OFFSET :: nat where "CB_OFFSET \<equiv> 20"

definition load_spec :: "memory \<Rightarrow> nat \<Rightarrow> specification_type" where
  "load_spec m a =
     \<lparr>spec_id = load32 m a, spec_keepalive_timeout = load32 m (a + 4), min_capacity = load32 m (a + 8),
      max_capacity = load32 m (a + 12), capacity_factor = load32 m (a + 16)\<rparr>"

definition store_spec :: "nat \<Rightarrow> specification_type \<Rightarrow> memory \<Rightarrow> memory" where
  "store_spec a sp m =
     store32 (store32 (store32 (store32 (store32 m a (spec_id sp)) (a + 4) (spec_keepalive_timeout sp))
       (a + 8) (min_capacity sp)) (a + 12) (max_capacity sp)) (a + 16) (capacity_factor sp)"

definition load_cb :: "memory \<Rightarrow> nat \<Rightarrow> controlblock_type" where
  "load_cb m a =
     \<lparr>epoch = load32 m (a + CB_OFFSET), input_id = load32 m (a + CB_OFFSET + 4),
      output_id = load32 m (a + CB_OFFSET + 8)\<rparr>"

definition store_cb :: "nat \<Rightarrow> controlblock_type \<Rightarrow> memory \<Rightarrow> memory" where
  "store_cb a cb m =
     store32 (store32 (store32 m (a + CB_OFFSET) (epoch cb)) (a + CB_OFFSET + 4) (input_id cb))
       (a + CB_OFFSET + 8) (output_id cb)"

definition get_spec :: "('h, 'o, 'l, 'b) bus_layout \<Rightarrow> ('h, 'o, 'l, 'b) hub \<Rightarrow> specification_type" where
  "get_spec L s = load_spec (gmem (snd s)) (bus_get_memory L (fst s))"

definition get_shared_controlblock ::
  "('h, 'o, 'l, 'b) bus_layout \<Rightarrow> ('h, 'o, 'l, 'b) hub \<Rightarrow> controlblock_type" where
  "get_shared_controlblock L s = load_cb (gmem (snd s)) (bus_get_memory L (fst s))"

text \<open>
  \<open>get_controlblock\<close> returns a reference, to the local copy while the bus is updating its
  connectors: reading it, and writing through it.
\<close>

definition get_controlblock ::
  "('h, 'o, 'l, 'b) bus_layout \<Rightarrow> ('h, 'o, 'l, 'b) hub \<Rightarrow> controlblock_type" where
  "get_controlblock L s =
     (if m_status (fst s) \<noteq> US_NONE then m_controlblock (fst s) else get_shared_controlblock L s)"

definition put_controlblock ::
  "('h, 'o, 'l, 'b) bus_layout \<Rightarrow> controlblock_type \<Rightarrow> ('h, 'o, 'l, 'b) hub \<Rightarrow> ('h, 'o, 'l, 'b) hub" where
  "put_controlblock L cb s =
     (if m_status (fst s) \<noteq> US_NONE then ((fst s)\<lparr>m_controlblock := cb\<rparr>, snd s)
      else (fst s, mapmem (store_cb (bus_get_memory L (fst s)) cb) (snd s)))"

section \<open>base_bus: the list of connectors\<close>

definition set_connectors :: "'h connector list \<Rightarrow> ('h, 'o, 'l, 'b) hub \<Rightarrow> ('h, 'o, 'l, 'b) hub" where
  "set_connectors cs s = ((fst s)\<lparr>m_pconnectors := cs\<rparr>, snd s)"

text \<open>A call on \<open>m_pconnectors.front()\<close> or \<open>m_pconnectors.back()\<close>.\<close>

definition on_output ::
  "(('h, 'o, 'l, 'b) site \<Rightarrow> ('r \<times> ('h, 'o, 'l, 'b) site) run) \<Rightarrow> ('h, 'o, 'l, 'b) hub
    \<Rightarrow> ('r \<times> ('h, 'o, 'l, 'b) hub) run" where
  "on_output f s =
     (case m_pconnectors (fst s) of
        [] \<Rightarrow> crashes Empty_container
      | c # cs \<Rightarrow> and_then (f (c, snd s)) (\<lambda>(r, c1, g1).
          returns (r, (fst s)\<lparr>m_pconnectors := c1 # cs\<rparr>, g1)))"

definition on_input ::
  "(('h, 'o, 'l, 'b) site \<Rightarrow> ('r \<times> ('h, 'o, 'l, 'b) site) run) \<Rightarrow> ('h, 'o, 'l, 'b) hub
    \<Rightarrow> ('r \<times> ('h, 'o, 'l, 'b) hub) run" where
  "on_input f s =
     (let cs = m_pconnectors (fst s) in
      if cs = [] then crashes Empty_container
      else and_then (f (last cs, snd s)) (\<lambda>(r, c1, g1).
        returns (r, (fst s)\<lparr>m_pconnectors := butlast cs @ [c1]\<rparr>, g1)))"

definition new_capacity :: "specification_type \<Rightarrow> u32 \<Rightarrow> u32" where
  "new_capacity sp old_capacity =
     min (max (min_capacity sp) (old_capacity * (capacity_factor sp + 100) div 100)) (max_capacity sp)"

text \<open>
  The destructor of the last pointer to a connector that \<open>make_connector\<close> does not return.
\<close>

definition drop_connector ::
  "('h, 'o, 'l, 'b) bus_layout \<Rightarrow> 'h bus \<Rightarrow> ('h, 'o, 'l, 'b) site
    \<Rightarrow> ('h connector option \<times> ('h, 'o, 'l, 'b) hub) run" where
  "drop_connector L b s =
     and_then (v_destroy (connector_class L) s) (\<lambda>(c, g). returns (None, b, g))"

definition make_connector ::
  "('h, 'o, 'l, 'b) bus_layout \<Rightarrow> id_type \<Rightarrow> ('h, 'o, 'l, 'b) hub
    \<Rightarrow> ('h connector option \<times> ('h, 'o, 'l, 'b) hub) run" where
  "make_connector L cid s =
     (let C = connector_class L; b = fst s; cs = m_pconnectors b;
          parent = (if cs \<noteq> [] then m_pqueue (hd cs) else None) in
      and_then (connector_open C parent (connector_make L (b_name b @ lexical_cast L cid), snd s)) (\<lambda>(opened, c1, g1).
      if opened then returns (Some c1, b, g1)
      else
        let sp = get_spec L (b, g1) in
        if cs = [] \<or> capacity_factor sp > 0 then
          and_then (if cs \<noteq> [] then connector_capacity C (hd cs, g1) else returns 0) (\<lambda>capacity.
            let old_capacity = ucast capacity; new = new_capacity sp old_capacity;
                timeout = (if spec_keepalive_timeout sp \<noteq> 0
                  then Some (Timespec (uint (spec_keepalive_timeout sp)) 0) else None) in
            if new > old_capacity then
              and_then (connector_create C (spec_id sp) (ucast new) timeout parent (c1, g1)) (\<lambda>(created, c2, g2).
                if created then returns (Some c2, b, g2) else drop_connector L b (c2, g2))
            else drop_connector L b (c1, g1))
        else drop_connector L b (c1, g1)))"

definition can_add_connector :: "('h, 'o, 'l, 'b) bus_layout \<Rightarrow> ('h, 'o, 'l, 'b) hub \<Rightarrow> bool" where
  "can_add_connector L s \<longleftrightarrow> output_id (get_controlblock L s) + 1 \<noteq> input_id (get_controlblock L s)"

definition base_add_connector ::
  "('h, 'o, 'l, 'b) bus_layout \<Rightarrow> ('h, 'o, 'l, 'b) hub \<Rightarrow> (bool \<times> ('h, 'o, 'l, 'b) hub) run" where
  "base_add_connector L s =
     and_then (make_connector L (output_id (get_controlblock L s) + 1) s) (\<lambda>(p, s1).
       case p of
         Some c \<Rightarrow>
           let s2 = set_connectors (c # m_pconnectors (fst s1)) s1; cb = get_controlblock L s2 in
           returns (True, put_controlblock L (cb\<lparr>output_id := output_id cb + 1, epoch := epoch cb + 1\<rparr>) s2)
       | None \<Rightarrow> returns (False, s1))"

definition can_remove_connector :: "('h, 'o, 'l, 'b) bus_layout \<Rightarrow> ('h, 'o, 'l, 'b) hub \<Rightarrow> bool" where
  "can_remove_connector L s \<longleftrightarrow> input_id (get_controlblock L s) \<noteq> output_id (get_controlblock L s)"

definition base_remove_connector ::
  "('h, 'o, 'l, 'b) bus_layout \<Rightarrow> ('h, 'o, 'l, 'b) hub \<Rightarrow> (bool \<times> ('h, 'o, 'l, 'b) hub) run" where
  "base_remove_connector L s =
     (let cs = m_pconnectors (fst s) in
      if cs = [] then crashes Empty_container
      else
        and_then (v_destroy (connector_class L) (last cs, snd s)) (\<lambda>(c1, g1).
        let s1 = set_connectors (butlast cs) (fst s, g1); cb = get_controlblock L s1;
            cb1 = cb\<lparr>input_id := input_id cb + 1, epoch := epoch cb + 1\<rparr>;
            s2 = put_controlblock L cb1 s1 in
        if butlast cs = [] then
          and_then (make_connector L (input_id cb1) s2) (\<lambda>(p, s3).
            case p of None \<Rightarrow> returns (False, s3) | Some c \<Rightarrow> returns (True, set_connectors [c] s3))
        else returns (True, s2)))"

text \<open>\<open>m_pconnectors.clear()\<close> runs the destructors from the front to the back.\<close>

fun destroy_all ::
  "('h, 'o, 'l, 'b) site vtable \<Rightarrow> 'h connector list \<Rightarrow> ('o, 'l, 'b) globals \<Rightarrow> ('o, 'l, 'b) globals run" where
  "destroy_all C [] g = returns g"
| "destroy_all C (c # cs) g = and_then (v_destroy C (c, g)) (\<lambda>(c1, g1). destroy_all C cs g1)"

definition close_bus :: "('h, 'o, 'l, 'b) bus_layout \<Rightarrow> ('h, 'o, 'l, 'b) hub \<Rightarrow> ('h, 'o, 'l, 'b) hub run" where
  "close_bus L s =
     and_then (destroy_all (connector_class L) (m_pconnectors (fst s)) (snd s)) (\<lambda>g.
       returns ((fst s)\<lparr>m_pconnectors := []\<rparr>, g))"

definition base_do_create ::
  "('h, 'o, 'l, 'b) bus_layout \<Rightarrow> ('h, 'o, 'l, 'b) hub \<Rightarrow> (bool \<times> ('h, 'o, 'l, 'b) hub) run" where
  "base_do_create L s =
     and_then (make_connector L 0 s) (\<lambda>(p, s1).
       case p of
         Some c \<Rightarrow> returns (True, set_connectors (c # m_pconnectors (fst s1)) s1)
       | None \<Rightarrow> returns (False, s1))"

text \<open>
  The loop of \<open>do_open\<close>, from the identifier \<open>cid\<close> on. \<open>cb\<close> is a reference, so its
  output identifier is read again in each round.
\<close>

partial_function (option) open_loop ::
  "('h, 'o, 'l, 'b) bus_layout \<Rightarrow> id_type \<Rightarrow> ('h, 'o, 'l, 'b) hub
    \<Rightarrow> (bool \<times> ('h, 'o, 'l, 'b) hub) run" where
  "open_loop L cid s =
     and_then (make_connector L cid s) (\<lambda>(p, s1).
       case p of
         None \<Rightarrow> and_then (close_bus L s1) (\<lambda>s2. returns (False, s2))
       | Some c \<Rightarrow>
           let s2 = set_connectors (c # m_pconnectors (fst s1)) s1 in
           if cid \<noteq> output_id (get_controlblock L s2) then open_loop L (cid + 1) s2
           else returns (True, s2))"

definition base_do_open ::
  "('h, 'o, 'l, 'b) bus_layout \<Rightarrow> ('h, 'o, 'l, 'b) hub \<Rightarrow> (bool \<times> ('h, 'o, 'l, 'b) hub) run" where
  "base_do_open L s = open_loop L (input_id (get_controlblock L s)) s"

section \<open>base_bus: operations\<close>

definition bus_create ::
  "('h, 'o, 'l, 'b) bus_vtable \<Rightarrow> specification_type \<Rightarrow> ('h, 'o, 'l, 'b) hub
    \<Rightarrow> (bool \<times> ('h, 'o, 'l, 'b) hub) run" where
  "bus_create V sp s =
     (if \<not> b_opened (fst s) then
        and_then (b_do_create V sp s) (\<lambda>(r, b, g). returns (r, b\<lparr>b_opened := r\<rparr>, g))
      else returns (False, s))"

definition bus_open ::
  "('h, 'o, 'l, 'b) bus_vtable \<Rightarrow> ('h, 'o, 'l, 'b) hub \<Rightarrow> (bool \<times> ('h, 'o, 'l, 'b) hub) run" where
  "bus_open V s =
     (if \<not> b_opened (fst s) then
        and_then (b_do_open V s) (\<lambda>(r, b, g). returns (r, b\<lparr>b_opened := r\<rparr>, g))
      else returns (False, s))"

text \<open>The loop of the two \<open>push\<close> functions, \<open>attempt\<close> being the virtual operation.\<close>

partial_function (option) grow ::
  "('h, 'o, 'l, 'b) bus_class \<Rightarrow> (('h, 'o, 'l, 'b) hub \<Rightarrow> (bool \<times> ('h, 'o, 'l, 'b) hub) run)
    \<Rightarrow> ('h, 'o, 'l, 'b) hub \<Rightarrow> (bool \<times> ('h, 'o, 'l, 'b) hub) run" where
  "grow B attempt s =
     and_then (attempt s) (\<lambda>(pushed, s1).
       if pushed then returns (True, s1)
       else if \<not> can_add_connector (layout B) s1 then returns (False, s1)
       else and_then (v_add_connector B s1) (\<lambda>(added, s2).
         if \<not> added then returns (False, s2) else grow B attempt s2))"

definition bus_push ::
  "('h, 'o, 'l, 'b) bus_vtable \<Rightarrow> tag_type \<Rightarrow> u8 list \<Rightarrow> ('h, 'o, 'l, 'b) hub
    \<Rightarrow> (bool \<times> ('h, 'o, 'l, 'b) hub) run" where
  "bus_push V tag data s =
     (if b_opened (fst s) then grow (bus_base V) (b_do_push V tag data) s else returns (False, s))"

definition bus_timed_push ::
  "('h, 'o, 'l, 'b) bus_vtable \<Rightarrow> tag_type \<Rightarrow> u8 list \<Rightarrow> timespec \<Rightarrow> ('h, 'o, 'l, 'b) hub
    \<Rightarrow> (bool \<times> ('h, 'o, 'l, 'b) hub) run" where
  "bus_timed_push V tag data timeout s =
     (if b_opened (fst s) then grow (bus_base V) (b_do_timed_push V tag data timeout) s
      else returns (False, s))"

text \<open>The loop of the two \<open>get\<close> and the two \<open>pop\<close> functions.\<close>

partial_function (option) advance ::
  "('h, 'o, 'l, 'b) bus_class \<Rightarrow> (('h, 'o, 'l, 'b) hub \<Rightarrow> ('r \<times> ('h, 'o, 'l, 'b) hub) run)
    \<Rightarrow> ('r \<Rightarrow> bool) \<Rightarrow> ('h, 'o, 'l, 'b) hub \<Rightarrow> ('r \<times> ('h, 'o, 'l, 'b) hub) run" where
  "advance B attempt ok s =
     and_then (attempt s) (\<lambda>(r, s1).
       if ok r \<or> \<not> can_remove_connector (layout B) s1 then returns (r, s1)
       else and_then (v_remove_connector B s1) (\<lambda>(removed, s2).
         if \<not> removed then returns (r, s2) else advance B attempt ok s2))"

definition bus_get ::
  "('h, 'o, 'l, 'b) bus_vtable \<Rightarrow> ('h, 'o, 'l, 'b) hub \<Rightarrow> (pmessage \<times> ('h, 'o, 'l, 'b) hub) run" where
  "bus_get V s =
     (if b_opened (fst s) then advance (bus_base V) (b_do_get V) (\<lambda>ps. ps \<noteq> []) s else returns ([], s))"

definition bus_timed_get ::
  "('h, 'o, 'l, 'b) bus_vtable \<Rightarrow> timespec \<Rightarrow> ('h, 'o, 'l, 'b) hub
    \<Rightarrow> (pmessage \<times> ('h, 'o, 'l, 'b) hub) run" where
  "bus_timed_get V timeout s =
     (if b_opened (fst s) then advance (bus_base V) (b_do_timed_get V timeout) (\<lambda>ps. ps \<noteq> []) s
      else returns ([], s))"

definition bus_pop ::
  "('h, 'o, 'l, 'b) bus_vtable \<Rightarrow> ('h, 'o, 'l, 'b) hub \<Rightarrow> (bool \<times> ('h, 'o, 'l, 'b) hub) run" where
  "bus_pop V s =
     (if b_opened (fst s) then advance (bus_base V) (b_do_pop V) (\<lambda>b. b) s else returns (False, s))"

definition bus_timed_pop ::
  "('h, 'o, 'l, 'b) bus_vtable \<Rightarrow> timespec \<Rightarrow> ('h, 'o, 'l, 'b) hub
    \<Rightarrow> (bool \<times> ('h, 'o, 'l, 'b) hub) run" where
  "bus_timed_pop V timeout s =
     (if b_opened (fst s) then advance (bus_base V) (b_do_timed_pop V timeout) (\<lambda>b. b) s
      else returns (False, s))"

definition base_bus_push ::
  "('h, 'o, 'l, 'b) bus_layout \<Rightarrow> tag_type \<Rightarrow> u8 list \<Rightarrow> ('h, 'o, 'l, 'b) hub
    \<Rightarrow> (bool \<times> ('h, 'o, 'l, 'b) hub) run" where
  "base_bus_push L tag data s = on_output (connector_push (connector_class L) tag data) s"

definition base_bus_timed_push ::
  "('h, 'o, 'l, 'b) bus_layout \<Rightarrow> tag_type \<Rightarrow> u8 list \<Rightarrow> timespec \<Rightarrow> ('h, 'o, 'l, 'b) hub
    \<Rightarrow> (bool \<times> ('h, 'o, 'l, 'b) hub) run" where
  "base_bus_timed_push L tag data timeout s =
     on_output (connector_timed_push (platform_of L) (connector_class L) tag data timeout) s"

definition base_bus_get ::
  "('h, 'o, 'l, 'b) bus_layout \<Rightarrow> ('h, 'o, 'l, 'b) hub \<Rightarrow> (pmessage \<times> ('h, 'o, 'l, 'b) hub) run" where
  "base_bus_get L s = on_input (connector_get (connector_class L)) s"

definition base_bus_timed_get ::
  "('h, 'o, 'l, 'b) bus_layout \<Rightarrow> timespec \<Rightarrow> ('h, 'o, 'l, 'b) hub
    \<Rightarrow> (pmessage \<times> ('h, 'o, 'l, 'b) hub) run" where
  "base_bus_timed_get L timeout s =
     on_input (connector_timed_get (platform_of L) (connector_class L) timeout) s"

definition base_bus_pop ::
  "('h, 'o, 'l, 'b) bus_layout \<Rightarrow> ('h, 'o, 'l, 'b) hub \<Rightarrow> (bool \<times> ('h, 'o, 'l, 'b) hub) run" where
  "base_bus_pop L s = on_input (connector_pop (connector_class L)) s"

definition base_bus_timed_pop ::
  "('h, 'o, 'l, 'b) bus_layout \<Rightarrow> timespec \<Rightarrow> ('h, 'o, 'l, 'b) hub
    \<Rightarrow> (bool \<times> ('h, 'o, 'l, 'b) hub) run" where
  "base_bus_timed_pop L timeout s =
     on_input (connector_timed_pop (platform_of L) (connector_class L) timeout) s"

section \<open>shared_bus: memory\<close>

text \<open>
  The constructor leaves the local control block uninitialised; its value is an argument.
  \<open>m_pmemory\<close> is null until \<open>create_memory\<close> or \<open>open_memory\<close> sets it, and null again
  after \<open>free_memory\<close>; the code reads the body in between only. Setting the pointer again
  destroys the segment object it held.
\<close>

definition new_bus :: "string \<Rightarrow> controlblock_type \<Rightarrow> 'h bus" where
  "new_bus name garbage =
     \<lparr>b_name = name, m_pconnectors = [], b_opened = False, b_memory = None, m_controlblock = garbage,
      m_status = US_NONE, b_plocker = None\<rparr>"

definition shared_bus_get_memory :: "'h bus \<Rightarrow> nat" where
  "shared_bus_get_memory b = (case b_memory b of None \<Rightarrow> 0 | Some M \<Rightarrow> sm_get M)"

definition free_memory ::
  "('h, 'o, 'l, 'b) bus_layout \<Rightarrow> ('h, 'o, 'l, 'b) hub \<Rightarrow> ('h, 'o, 'l, 'b) hub" where
  "free_memory L s =
     (case b_memory (fst s) of
        None \<Rightarrow> s
      | Some M \<Rightarrow> ((fst s)\<lparr>b_memory := None\<rparr>,
          (snd s)\<lparr>sys := sm_destroy (papi (platform_of L)) M (sys (snd s))\<rparr>))"

definition bus_create_memory ::
  "('h, 'o, 'l, 'b) bus_layout \<Rightarrow> ('h, 'o, 'l, 'b) hub \<Rightarrow> bool \<times> ('h, 'o, 'l, 'b) hub" where
  "bus_create_memory L s =
     (case free_memory L s of
        (b, g) \<Rightarrow>
          (case sm_create (papi (platform_of L)) (bus_memory_size L) (new_shared_memory (b_name b))
              (sys g, gmem g) of
             (r, M, o1, m) \<Rightarrow> (r, b\<lparr>b_memory := Some M\<rparr>, mapmem (\<lambda>_. m) (g\<lparr>sys := o1\<rparr>))))"

definition bus_open_memory ::
  "('h, 'o, 'l, 'b) bus_layout \<Rightarrow> ('h, 'o, 'l, 'b) hub \<Rightarrow> bool \<times> ('h, 'o, 'l, 'b) hub" where
  "bus_open_memory L s =
     (case free_memory L s of
        (b, g) \<Rightarrow>
          (case sm_open (papi (platform_of L)) (new_shared_memory (b_name b)) (sys g) of
             (r, M, o1) \<Rightarrow> (r, b\<lparr>b_memory := Some M\<rparr>, g\<lparr>sys := o1\<rparr>)))"

definition create_body ::
  "('h, 'o, 'l, 'b) bus_layout \<Rightarrow> specification_type \<Rightarrow> ('h, 'o, 'l, 'b) hub
    \<Rightarrow> (bool \<times> ('h, 'o, 'l, 'b) hub) run" where
  "create_body L sp s =
     (let a = bus_get_memory L (fst s); cb = \<lparr>epoch = 0, input_id = 0, output_id = 0\<rparr>;
          s1 = ((fst s)\<lparr>m_controlblock := cb\<rparr>, mapmem (\<lambda>m. store_cb a cb (store_spec a sp m)) (snd s)) in
      and_then (base_do_create L s1) (\<lambda>(r, s2).
        if r then returns (True, s2) else returns (False, free_memory L s2)))"

definition shared_bus_do_create ::
  "('h, 'o, 'l, 'b) bus_layout \<Rightarrow> specification_type \<Rightarrow> ('h, 'o, 'l, 'b) hub
    \<Rightarrow> (bool \<times> ('h, 'o, 'l, 'b) hub) run" where
  "shared_bus_do_create L sp s =
     (case bus_create_memory L s of
        (r, s1) \<Rightarrow> if r then create_body L sp s1 else returns (False, s1))"

definition attach_body ::
  "('h, 'o, 'l, 'b) bus_layout \<Rightarrow> ('h, 'o, 'l, 'b) hub \<Rightarrow> (bool \<times> ('h, 'o, 'l, 'b) hub) run" where
  "attach_body L s =
     and_then (base_do_open L s) (\<lambda>(r, s1).
       if r then returns (True, (fst s1)\<lparr>m_controlblock := get_controlblock L s1\<rparr>, snd s1)
       else returns (False, free_memory L s1))"

definition shared_bus_do_open ::
  "('h, 'o, 'l, 'b) bus_layout \<Rightarrow> ('h, 'o, 'l, 'b) hub \<Rightarrow> (bool \<times> ('h, 'o, 'l, 'b) hub) run" where
  "shared_bus_do_open L s =
     (case bus_open_memory L s of (r, s1) \<Rightarrow> if r then attach_body L s1 else returns (False, s1))"

text \<open>
  The destructors of \<open>shared_bus\<close> and \<open>base_bus\<close>: the pointer to the segment goes first,
  then \<open>close\<close> destroys the connectors.
\<close>

definition shared_bus_destroy ::
  "('h, 'o, 'l, 'b) bus_layout \<Rightarrow> ('h, 'o, 'l, 'b) hub \<Rightarrow> ('h, 'o, 'l, 'b) hub run" where
  "shared_bus_destroy L s = close_bus L (free_memory L s)"

section \<open>shared_bus: following the other processes\<close>

definition set_status :: "update_status \<Rightarrow> ('h, 'o, 'l, 'b) hub \<Rightarrow> ('h, 'o, 'l, 'b) hub" where
  "set_status st s = ((fst s)\<lparr>m_status := st\<rparr>, snd s)"

definition atomic_cb ::
  "('h, 'o, 'l, 'b) bus_layout \<Rightarrow> (controlblock_type \<Rightarrow> u32) \<Rightarrow> ('h, 'o, 'l, 'b) hub \<Rightarrow> u32" where
  "atomic_cb L field s =
     atomic_read32 (atomics (penv (platform_of L))) (field (get_shared_controlblock L s))"

definition is_updated ::
  "('h, 'o, 'l, 'b) bus_layout \<Rightarrow> ('h, 'o, 'l, 'b) hub \<Rightarrow> bool \<times> ('h, 'o, 'l, 'b) hub" where
  "is_updated L s =
     (let e = atomic_cb L epoch s; cb = m_controlblock (fst s) in
      if e \<noteq> epoch cb then (True, (fst s)\<lparr>m_controlblock := cb\<lparr>epoch := e\<rparr>\<rparr>, snd s)
      else (False, s))"

definition shared_add_connector ::
  "('h, 'o, 'l, 'b) bus_layout \<Rightarrow> ('h, 'o, 'l, 'b) hub \<Rightarrow> (bool \<times> ('h, 'o, 'l, 'b) hub) run" where
  "shared_add_connector L s =
     and_then (base_add_connector L s) (\<lambda>(r, b, g).
       if r \<and> m_status b = US_NONE then
         returns (r, b\<lparr>m_controlblock := (m_controlblock b)\<lparr>output_id := atomic_cb L output_id (b, g)\<rparr>\<rparr>, g)
       else returns (r, b, g))"

definition shared_remove_connector ::
  "('h, 'o, 'l, 'b) bus_layout \<Rightarrow> ('h, 'o, 'l, 'b) hub \<Rightarrow> (bool \<times> ('h, 'o, 'l, 'b) hub) run" where
  "shared_remove_connector L s =
     and_then (base_remove_connector L s) (\<lambda>(r, b, g).
       if r \<and> m_status b = US_NONE then
         returns (r, b\<lparr>m_controlblock := (m_controlblock b)\<lparr>input_id := atomic_cb L input_id (b, g)\<rparr>\<rparr>, g)
       else returns (r, b, g))"

text \<open>
  The inner loop of \<open>update_connectors\<close>: add connectors until the local output identifier
  is \<open>out\<close>.
\<close>

partial_function (option) catch_up ::
  "('h, 'o, 'l, 'b) bus_class \<Rightarrow> id_type \<Rightarrow> ('h, 'o, 'l, 'b) hub \<Rightarrow> (bool \<times> ('h, 'o, 'l, 'b) hub) run" where
  "catch_up B out s =
     (if out = output_id (m_controlblock (fst s)) then returns (True, s)
      else if \<not> can_add_connector (layout B) s then returns (False, s)
      else and_then (v_add_connector B s) (\<lambda>(added, s1).
        if \<not> added then returns (False, s1) else catch_up B out s1))"

text \<open>\<open>rollback\<close> restores the status at every return below it.\<close>

definition update_connectors ::
  "('h, 'o, 'l, 'b) bus_class \<Rightarrow> ('h, 'o, 'l, 'b) hub \<Rightarrow> (update_status \<times> ('h, 'o, 'l, 'b) hub) run" where
  "update_connectors B s =
     (case is_updated (layout B) s of
        (updated, s1) \<Rightarrow>
          if updated then
            let leave = (\<lambda>st s2. returns (st, rollback (\<lambda>s. m_status (fst s)) set_status s1 s2));
                out = atomic_cb (layout B) output_id s1
            in and_then
                 (if out \<noteq> output_id (m_controlblock (fst s1)) then catch_up B out (set_status US_OUTPUT s1)
                  else returns (True, s1)) (\<lambda>(caught_up, s2).
               if \<not> caught_up then leave US_NONE s2
               else if atomic_cb (layout B) input_id s2 \<noteq> input_id (m_controlblock (fst s2)) then
                 let s3 = set_status (if US_OUTPUT = m_status (fst s2) then US_BOTH else US_INPUT) s2 in
                 if \<not> can_remove_connector (layout B) s3 then leave US_NONE s3
                 else and_then (v_remove_connector B s3) (\<lambda>(removed, s4).
                   if \<not> removed then leave US_NONE s4 else leave (m_status (fst s4)) s4)
               else leave (m_status (fst s2)) s2)
          else returns (US_NONE, s1))"

definition update_input_connector ::
  "('h, 'o, 'l, 'b) bus_class \<Rightarrow> ('h, 'o, 'l, 'b) hub \<Rightarrow> (bool \<times> ('h, 'o, 'l, 'b) hub) run" where
  "update_input_connector B s =
     and_then (update_connectors B s) (\<lambda>(st, s1). returns (st = US_INPUT \<or> st = US_BOTH, s1))"

definition update_output_connector ::
  "('h, 'o, 'l, 'b) bus_class \<Rightarrow> ('h, 'o, 'l, 'b) hub \<Rightarrow> (bool \<times> ('h, 'o, 'l, 'b) hub) run" where
  "update_output_connector B s =
     and_then (update_connectors B s) (\<lambda>(st, s1). returns (st = US_OUTPUT \<or> st = US_BOTH, s1))"

section \<open>shared_bus: operations\<close>

text \<open>
  The two loops around the operations of \<open>base_bus\<close>. Between an attempt and the check that
  follows it other processes may act (\<open>meanwhile\<close>, as in the waiting loops of the connectors).
\<close>

partial_function (option) push_again ::
  "('h, 'o, 'l, 'b) bus_class \<Rightarrow> (('h, 'o, 'l, 'b) hub \<Rightarrow> (bool \<times> ('h, 'o, 'l, 'b) hub) run)
    \<Rightarrow> nat \<Rightarrow> ('h, 'o, 'l, 'b) hub \<Rightarrow> (bool \<times> ('h, 'o, 'l, 'b) hub) run" where
  "push_again B attempt k s =
     and_then (attempt s) (\<lambda>(pushed, b, g).
       if \<not> pushed then returns (False, b, g)
       else and_then (update_output_connector B (b, meanwhile (platform_of (layout B)) k g)) (\<lambda>(updated, s2).
         if updated then push_again B attempt (k + 1) s2 else returns (True, s2)))"

partial_function (option) read_again ::
  "('h, 'o, 'l, 'b) bus_class \<Rightarrow> (('h, 'o, 'l, 'b) hub \<Rightarrow> ('r \<times> ('h, 'o, 'l, 'b) hub) run)
    \<Rightarrow> ('r \<Rightarrow> bool) \<Rightarrow> nat \<Rightarrow> ('h, 'o, 'l, 'b) hub \<Rightarrow> ('r \<times> ('h, 'o, 'l, 'b) hub) run" where
  "read_again B attempt ok k s =
     and_then (attempt s) (\<lambda>(r, b, g).
       if ok r then returns (r, b, g)
       else and_then (update_input_connector B (b, meanwhile (platform_of (layout B)) k g)) (\<lambda>(updated, s2).
         if updated then read_again B attempt ok (k + 1) s2 else returns (r, s2)))"

definition shared_bus_push ::
  "('h, 'o, 'l, 'b) bus_class \<Rightarrow> tag_type \<Rightarrow> u8 list \<Rightarrow> ('h, 'o, 'l, 'b) hub
    \<Rightarrow> (bool \<times> ('h, 'o, 'l, 'b) hub) run" where
  "shared_bus_push B tag data s =
     and_then (update_output_connector B s) (\<lambda>(u, s1).
       push_again B (base_bus_push (layout B) tag data) 0 s1)"

definition shared_bus_timed_push ::
  "('h, 'o, 'l, 'b) bus_class \<Rightarrow> tag_type \<Rightarrow> u8 list \<Rightarrow> timespec \<Rightarrow> ('h, 'o, 'l, 'b) hub
    \<Rightarrow> (bool \<times> ('h, 'o, 'l, 'b) hub) run" where
  "shared_bus_timed_push B tag data timeout s =
     and_then (update_output_connector B s) (\<lambda>(u, s1).
       push_again B (base_bus_timed_push (layout B) tag data timeout) 0 s1)"

definition shared_bus_get ::
  "('h, 'o, 'l, 'b) bus_class \<Rightarrow> ('h, 'o, 'l, 'b) hub \<Rightarrow> (pmessage \<times> ('h, 'o, 'l, 'b) hub) run" where
  "shared_bus_get B s = read_again B (base_bus_get (layout B)) (\<lambda>ps. ps \<noteq> []) 0 s"

definition shared_bus_timed_get ::
  "('h, 'o, 'l, 'b) bus_class \<Rightarrow> timespec \<Rightarrow> ('h, 'o, 'l, 'b) hub
    \<Rightarrow> (pmessage \<times> ('h, 'o, 'l, 'b) hub) run" where
  "shared_bus_timed_get B timeout s =
     read_again B (base_bus_timed_get (layout B) timeout) (\<lambda>ps. ps \<noteq> []) 0 s"

definition shared_bus_pop ::
  "('h, 'o, 'l, 'b) bus_class \<Rightarrow> ('h, 'o, 'l, 'b) hub \<Rightarrow> (bool \<times> ('h, 'o, 'l, 'b) hub) run" where
  "shared_bus_pop B s = read_again B (base_bus_pop (layout B)) (\<lambda>b. b) 0 s"

definition shared_bus_timed_pop ::
  "('h, 'o, 'l, 'b) bus_class \<Rightarrow> timespec \<Rightarrow> ('h, 'o, 'l, 'b) hub
    \<Rightarrow> (bool \<times> ('h, 'o, 'l, 'b) hub) run" where
  "shared_bus_timed_pop B timeout s =
     read_again B (base_bus_timed_pop (layout B) timeout) (\<lambda>b. b) 0 s"

text \<open>A \<open>shared_bus\<close> whose virtual list operations are those of \<open>B\<close>.\<close>

definition shared_bus :: "('h, 'o, 'l, 'b) bus_class \<Rightarrow> ('h, 'o, 'l, 'b) bus_vtable" where
  "shared_bus B =
     \<lparr>bus_base = B, b_do_create = shared_bus_do_create (layout B), b_do_open = shared_bus_do_open (layout B),
      b_do_push = shared_bus_push B, b_do_timed_push = shared_bus_timed_push B,
      b_do_get = shared_bus_get B, b_do_timed_get = shared_bus_timed_get B,
      b_do_pop = shared_bus_pop B, b_do_timed_pop = shared_bus_timed_pop B,
      b_destroy = shared_bus_destroy (layout B)\<rparr>"

section \<open>simple_bus, output_bus, input_bus, bidirectional_bus\<close>

definition simple_layout ::
  "('h, 'o, 'l, 'b) platform \<Rightarrow> (id_type \<Rightarrow> string) \<Rightarrow> ('h, 'o, 'l, 'b) site vtable
    \<Rightarrow> (string \<Rightarrow> 'h connector) \<Rightarrow> ('h, 'o, 'l, 'b) bus_layout" where
  "simple_layout P cast C mk =
     \<lparr>platform_of = P, connector_class = C, connector_make = mk, lexical_cast = cast,
      bus_get_memory = shared_bus_get_memory, bus_memory_size = of_nat BODY_SIZE\<rparr>"

definition simple_bus :: "('h, 'o, 'l, 'b) bus_layout \<Rightarrow> ('h, 'o, 'l, 'b) bus_vtable" where
  "simple_bus L =
     shared_bus \<lparr>layout = L, v_add_connector = shared_add_connector L,
       v_remove_connector = shared_remove_connector L\<rparr>"

definition output_bus :: "('h, 'o, 'l, 'b) bus_vtable \<Rightarrow> ('h, 'o, 'l, 'b) bus_vtable" where
  "output_bus V =
     V\<lparr>b_do_get := (\<lambda>s. returns ([], s)), b_do_timed_get := (\<lambda>timeout s. returns ([], s)),
       b_do_pop := (\<lambda>s. returns (False, s)), b_do_timed_pop := (\<lambda>timeout s. returns (False, s))\<rparr>"

definition input_bus :: "('h, 'o, 'l, 'b) bus_vtable \<Rightarrow> ('h, 'o, 'l, 'b) bus_vtable" where
  "input_bus V =
     V\<lparr>b_do_push := (\<lambda>tag data s. returns (False, s)),
       b_do_timed_push := (\<lambda>tag data timeout s. returns (False, s))\<rparr>"

definition bidirectional_bus :: "('h, 'o, 'l, 'b) bus_vtable \<Rightarrow> ('h, 'o, 'l, 'b) bus_vtable" where
  "bidirectional_bus V = V"

section \<open>base_safe_bus\<close>

text \<open>
  The template parameter \<open>Locker\<close>, \<open>boost::interprocess::interprocess_mutex\<close>: its size, a
  new one, and the operations that \<open>scoped_lock\<close> calls. The mutex lies in the segment of the
  bus, so it can be reached only while the segment is mapped.
\<close>

record 'l mutex_class =
  mutex_size :: nat
  new_mutex :: 'l
  mutex_side :: "(nat \<times> 'l) side"

definition on_mutex ::
  "(nat \<times> 'l \<Rightarrow> ('r \<times> nat \<times> 'l) run) \<Rightarrow> ('h, 'o, 'l, 'b) hub \<Rightarrow> ('r \<times> ('h, 'o, 'l, 'b) hub) run" where
  "on_mutex f s =
     (if b_memory (fst s) = None then crashes Unmapped_memory
      else case b_plocker (fst s) of
        None \<Rightarrow> crashes Null_pointer
      | Some a \<Rightarrow> and_then (f (locker_at a (snd s))) (\<lambda>(r, il).
          returns (r, fst s, put_locker a il (snd s))))"

definition hub_side :: "(nat \<times> 'l) side \<Rightarrow> ('h, 'o, 'l, 'b) hub side" where
  "hub_side S =
     \<lparr>side_lock = (\<lambda>s. and_then (on_mutex (\<lambda>il. and_then (side_lock S il) (\<lambda>il1. returns ((), il1))) s)
        (\<lambda>(u, s1). returns s1)),
      side_try = on_mutex (side_try S),
      side_timed = (\<lambda>timeout. on_mutex (side_timed S timeout)),
      side_unlock = (\<lambda>s. and_then (on_mutex (\<lambda>il. and_then (side_unlock S il) (\<lambda>il1. returns ((), il1))) s)
        (\<lambda>(u, s1). returns s1))\<rparr>"

definition locked_hub ::
  "'l mutex_class \<Rightarrow> (('h, 'o, 'l, 'b) hub \<Rightarrow> ('r \<times> ('h, 'o, 'l, 'b) hub) run)
    \<Rightarrow> 'r \<Rightarrow> ('h, 'o, 'l, 'b) hub \<Rightarrow> ('r \<times> ('h, 'o, 'l, 'b) hub) run" where
  "locked_hub X body otherwise s =
     (let S = hub_side (mutex_side X) in scope S (guard_immediate S s) body otherwise)"

text \<open>
  \<open>get_memory\<close> and \<open>memory_size\<close> leave out the spinlock that the creation puts in front of
  the counter.
\<close>

definition safe_bus_get_memory :: "'l mutex_class \<Rightarrow> 'h bus \<Rightarrow> nat" where
  "safe_bus_get_memory X b = shared_bus_get_memory b + mutex_size X + COUNTER_SIZE"

definition safe_bus_memory_size :: "'l mutex_class \<Rightarrow> u64" where
  "safe_bus_memory_size X = of_nat BODY_SIZE + of_nat (mutex_size X) + of_nat COUNTER_SIZE"

definition safe_layout :: "'l mutex_class \<Rightarrow> ('h, 'o, 'l, 'b) bus_layout \<Rightarrow> ('h, 'o, 'l, 'b) bus_layout" where
  "safe_layout X L =
     L\<lparr>bus_get_memory := safe_bus_get_memory X, bus_memory_size := safe_bus_memory_size X\<rparr>"

definition safe_add_connector ::
  "'l mutex_class \<Rightarrow> ('h, 'o, 'l, 'b) bus_layout \<Rightarrow> ('h, 'o, 'l, 'b) hub
    \<Rightarrow> (bool \<times> ('h, 'o, 'l, 'b) hub) run" where
  "safe_add_connector X L s = locked_hub X (shared_add_connector L) False s"

definition safe_remove_connector ::
  "'l mutex_class \<Rightarrow> ('h, 'o, 'l, 'b) bus_layout \<Rightarrow> ('h, 'o, 'l, 'b) hub
    \<Rightarrow> (bool \<times> ('h, 'o, 'l, 'b) hub) run" where
  "safe_remove_connector X L s = locked_hub X (shared_remove_connector L) False s"

definition safe_bus_do_create ::
  "'l mutex_class \<Rightarrow> ('h, 'o, 'l, 'b) bus_layout \<Rightarrow> specification_type \<Rightarrow> ('h, 'o, 'l, 'b) hub
    \<Rightarrow> (bool \<times> ('h, 'o, 'l, 'b) hub) run" where
  "safe_bus_do_create X L sp s =
     (case bus_create_memory L s of
        (r, b1, g1) \<Rightarrow>
          if r then
            let a = shared_bus_get_memory b1; ptr = a + SPINLOCK_SIZE + COUNTER_SIZE;
                s2 = (b1\<lparr>b_plocker := Some ptr\<rparr>, g1\<lparr>lockers := (lockers g1)(ptr := new_mutex X)\<rparr>)
            in locked_hub X (\<lambda>s3. and_then (create_body L sp s3) (\<lambda>(created, b4, g4).
                 if created then
                   returns (True, b4,
                     spin_leave (platform_of L) a (mapmem (\<lambda>m. set_users a (users a m + 1) m) g4))
                 else returns (False, b4, g4))) False s2
          else returns (False, b1, g1))"

text \<open>The spinlock guard of \<open>do_open\<close> and of the destructor lies in the segment too.\<close>

definition bus_spin_leave ::
  "('h, 'o, 'l, 'b) bus_layout \<Rightarrow> nat \<Rightarrow> ('h, 'o, 'l, 'b) hub \<Rightarrow> ('h, 'o, 'l, 'b) hub run" where
  "bus_spin_leave L a s =
     (if b_memory (fst s) = None then crashes Unmapped_memory
      else returns (fst s, spin_leave (platform_of L) a (snd s)))"

definition safe_bus_do_open ::
  "'l mutex_class \<Rightarrow> ('h, 'o, 'l, 'b) bus_layout \<Rightarrow> ('h, 'o, 'l, 'b) hub
    \<Rightarrow> (bool \<times> ('h, 'o, 'l, 'b) hub) run" where
  "safe_bus_do_open X L s =
     (case bus_open_memory L s of
        (r, b1, g1) \<Rightarrow>
          if r then
            let a = shared_bus_get_memory b1 in
            and_then (spin_enter (platform_of L) a g1) (\<lambda>g2.
            and_then
              (if users a (gmem g2) > 0 then
                 locked_hub X (\<lambda>s3. and_then (attach_body L s3) (\<lambda>(attached, b4, g4).
                   if attached then returns (True, b4, mapmem (\<lambda>m. set_users a (users a m + 1) m) g4)
                   else returns (False, b4, g4))) False
                   (b1\<lparr>b_plocker := Some (a + SPINLOCK_SIZE + COUNTER_SIZE)\<rparr>, g2)
               else returns (False, b1, g2)) (\<lambda>(r1, s5).
            and_then (bus_spin_leave L a s5) (\<lambda>s6. returns (r1, s6))))
          else returns (False, b1, g1))"

definition safe_bus_destroy ::
  "'l mutex_class \<Rightarrow> ('h, 'o, 'l, 'b) bus_layout \<Rightarrow> ('h, 'o, 'l, 'b) hub \<Rightarrow> ('h, 'o, 'l, 'b) hub run" where
  "safe_bus_destroy X L s =
     and_then
       (if b_opened (fst s) then
          let a = shared_bus_get_memory (fst s) in
          and_then (spin_enter (platform_of L) a (snd s)) (\<lambda>g1.
          and_then (locked_hub X (\<lambda>s2. and_then (close_bus L s2) (\<lambda>s3. returns ((), s3))) () (fst s, g1))
            (\<lambda>(u, b4, g4).
          bus_spin_leave L a (b4, mapmem (\<lambda>m. set_users a (users a m - 1) m) g4)))
        else returns s)
       (shared_bus_destroy L)"

definition base_safe_bus ::
  "'l mutex_class \<Rightarrow> ('h, 'o, 'l, 'b) bus_layout \<Rightarrow> ('h, 'o, 'l, 'b) bus_vtable" where
  "base_safe_bus X L0 =
     (let L = safe_layout X L0 in
      (shared_bus \<lparr>layout = L, v_add_connector = safe_add_connector X L,
         v_remove_connector = safe_remove_connector X L\<rparr>)
      \<lparr>b_do_create := safe_bus_do_create X L, b_do_open := safe_bus_do_open X L,
       b_destroy := safe_bus_destroy X L\<rparr>)"

section \<open>The buses of the library\<close>

definition single_input_bus where
  "single_input_bus X P cast =
     base_safe_bus X (simple_layout P cast (single_input_connector P) (\<lambda>n. new_connector n CON_IN))"

definition single_output_bus where
  "single_output_bus X P cast =
     base_safe_bus X (simple_layout P cast (single_output_connector P) (\<lambda>n. new_connector n CON_OUT))"

definition single_bidirectional_bus where
  "single_bidirectional_bus X P cast =
     base_safe_bus X (simple_layout P cast (single_bidirectional_connector P) (\<lambda>n. new_connector n CON_BIDIR))"

definition multi_input_bus where
  "multi_input_bus X P cast =
     base_safe_bus X (simple_layout P cast (multi_input_connector P) (\<lambda>n. new_connector n CON_IN))"

definition multi_output_bus where
  "multi_output_bus X P cast =
     base_safe_bus X (simple_layout P cast (multi_output_connector P) (\<lambda>n. new_connector n CON_OUT))"

definition multi_bidirectional_bus where
  "multi_bidirectional_bus X P cast =
     base_safe_bus X (simple_layout P cast (multi_bidirectional_connector P) (\<lambda>n. new_connector n CON_BIDIR))"

end
