(* ===== verification/Connector_Life.thy ===== *)
theory Connector_Life
  imports Connector_Contract
begin

text \<open>
  Creating a single connector, opening it from other objects, and the layout of its segment.
\<close>

section \<open>Creating and opening\<close>

text \<open>A queue does not notice writes outside its segment.\<close>

lemma ring_state_away:
  assumes rs: "ring_state m q xs" and w: "only_changes m m' S" and away: "S \<inter> segment m q = {}"
  shows "ring_state m' q xs" "unchanged m m' (base_ptr q) 24"
proof -
  show hdr: "unchanged m m' (base_ptr q) 24"
    by (rule only_changes_unchanged [OF w]) (use away in \<open>auto simp: segment_def\<close>)
  have below: "ring_part \<subseteq> {0..<cap_of m q}"
    if "ring_part = arc (cap_of m q) (head_of m q) (used (cap_of m q) (head_of m q) xs)" for ring_part
    using rs that by (simp add: arc_below ring_state_def header_ok_def)
  have cells: "same_cells m m' q (arc (cap_of m q) (head_of m q) (used (cap_of m q) (head_of m q) xs))"
  proof (rule same_cells_outside [OF w])
    fix i assume "i \<in> arc (cap_of m q) (head_of m q) (used (cap_of m q) (head_of m q) xs)"
    then have "data_start q + i \<in> segment m q" using below [OF refl] by (auto simp: segment_def)
    then show "data_start q + i \<notin> S" using away by blast
  qed
  have "ring m' q (head_of m q) xs"
    by (rule ring_frame [OF _ _ _ _ cells])
      (use rs hdr in \<open>simp_all add: ring_state_def header_unchanged header_ok_def\<close>)
  then show "ring_state m' q xs"
    using rs by (simp add: ring_state_def header_unchanged [OF hdr] header_ok_cong [OF hdr])
qed

lemma queue_holds_away:
  assumes h: "queue_holds E (w, q) f" and w: "only_changes (mem w) (mem w') S"
    and away: "S \<inter> segment (mem w) q = {}"
  shows "queue_holds E (w', q) f"
proof -
  have rs: "ring_state (mem w) q (fifo_msgs f)" using h by (simp add: queue_holds_def queue_inv_def)
  note k = ring_state_away [OF rs w away]
  note same = header_unchanged [OF k(2)]
  have "desc_ok (mem w') q (fifo_msgs f)"
    using desc_ok_append [of "mem w" q "fifo_msgs f" "mem w'" "[]"] h same by (simp add: queue_holds_def)
  then show ?thesis
    using h k(1) same by (simp add: queue_holds_def queue_inv_def)
qed

text \<open>A second object on the queue of the first.\<close>

lemma queue_holds_open:
  assumes "queue_holds E (w, q) f" and "base_ptr q = ptr"
  shows "queue_holds E (w, simple_open ptr) f"
proof -
  have base: "base_ptr (simple_open ptr) = base_ptr q" "class_of (simple_open ptr) = Simple_queue"
    "fst (m_message_desc (simple_open ptr)) = []"
    using assms(2) by (simp_all add: simple_open_def fresh_object_def null_desc_def)
  then show ?thesis
    using assms(1) by (simp add: queue_holds_def queue_inv_def desc_ok_def ring_state_cong [OF base(1)]
      base_ptr_cong [OF base(1)])
qed

text \<open>
  What creating and opening need of the lock: the scoped lock of a free locker is taken at
  once, and given back as it was.
\<close>

definition side_enters :: "(nat \<times> 'l) side \<Rightarrow> 'l \<Rightarrow> bool" where
  "side_enters S l \<longleftrightarrow> (\<forall>i. \<exists>l'. side_lock S (i, l) = returns (i, l')
     \<and> (\<forall>j. side_unlock S (j, l') = returns (j, l)))"

lemma scoped_side_enters: "side_enters (scoped_side clk others) new_shared_locker"
proof -
  have "lock others 0 new_shared_locker = Some (new_shared_locker\<lparr>m_scoped := 1\<rparr>)"
    by (subst lock.simps) (simp add: try_book_lock_def new_shared_locker_def)
  then show ?thesis
    by (auto simp: side_enters_def scoped_side_def unlock_def new_shared_locker_def)
qed

lemma scope_enters:
  assumes a: "m_plocker (fst s) = Some a" and enters: "side_enters S (lockers (snd s) a)"
    and body: "\<And>ls. body (with_lockers ls s) = returns (r, with_lockers ls s1)"
    and same: "lockers (snd s1) = lockers (snd s)" "m_plocker (fst s1) = Some a"
  shows "scope (site_side S) (guard_immediate (site_side S) s) body r0 = returns (r, s1)"
proof -
  let ?l = "lockers (snd s) a" and ?i = "readings (wld (snd s))"
  obtain l' where l': "side_lock S (?i, ?l) = returns (?i, l')"
    "\<And>j. side_unlock S (j, l') = returns (j, ?l)"
    using enters unfolding side_enters_def by metis
  define ls where "ls = (lockers (snd s))(a := l')"
  have "guard_immediate (site_side S) s = returns (True, with_lockers ls s)"
    by (simp add: guard_immediate_def guard_lock_def site_side_def on_locker_def a locker_at_def l'
      put_locker_def ls_def with_lockers_def)
  moreover have "side_unlock (site_side S) (with_lockers ls s1) = returns s1"
    using same a by (cases s1) (auto simp: site_side_def on_locker_def with_lockers_def locker_at_def
      ls_def l' put_locker_def)
  ultimately show ?thesis
    by (simp add: scope_def owns_def body guard_destroy_def)
qed


section \<open>An open object\<close>

definition queue_ptr :: "('h, 'o, 'l, 'b) platform \<Rightarrow> nat \<Rightarrow> nat" where
  "queue_ptr P a = a + locker_size (plock P) + barrier_size (pbar P) + SPINLOCK_SIZE + COUNTER_SIZE"

text \<open>
  \<open>served P a s f\<close>: the object is open on the segment at \<open>a\<close>, whose spinlock is open, whose
  counter is not zero, whose locker can be taken and whose queue is the FIFO \<open>f\<close>.
\<close>

definition served ::
  "('h, 'o, 'l, 'b) platform \<Rightarrow> nat \<Rightarrow> ('h, 'o, 'l, 'b) site \<Rightarrow> fifo \<Rightarrow> bool" where
  "served P a s f \<longleftrightarrow> single_holds P s f \<and> shared_get_memory s = a
     \<and> m_plocker (fst s) = Some (a + 8) \<and> map_option base_ptr (m_pqueue (fst s)) = Some (queue_ptr P a)
     \<and> 0 < users a (gmem (snd s)) \<and> load32 (gmem (snd s)) a = LS_UNLOCKED
     \<and> side_enters (scoped_lock_type (plock P)) (lockers (snd s) (a + 8))"

lemma load32_zero: "(\<And>i. i < 4 \<Longrightarrow> m (a + i) = 0) \<Longrightarrow> load32 m a = 0"
proof -
  assume "\<And>i. i < 4 \<Longrightarrow> m (a + i) = 0"
  from this [of 0] this [of 1] this [of 2] this [of 3] show ?thesis
    using word32_bytes32 [of 0] by (simp add: load32_def load_def bytes32_def upt_rec numeral_eq_Suc)
qed

lemma spin_enter_open:
  assumes "atomic_spec (atomics (penv P))" and "load32 (gmem g) a = LS_UNLOCKED"
    and "spinners P 0 LS_LOCKED = LS_LOCKED"
  shows "spin_enter P a g = returns (mapmem (\<lambda>m. store32 m a LS_LOCKED) g)"
  by (simp add: spin_enter_def assms spin_lock_unlocked [where others = "spinners P", OF assms(1,3)])

lemma spin_leave_eq:
  "atomic_spec (atomics (penv P)) \<Longrightarrow> spin_leave P a g = mapmem (\<lambda>m. store32 m a LS_UNLOCKED) g"
  by (simp add: spin_leave_def spin_unlock_def atomic_specD)

lemma mapmem_facts [simp]:
  "mapmem f (mapmem h g) = mapmem (\<lambda>m. f (h m)) g" "gmem (mapmem f g) = f (gmem g)"
  "sys (mapmem f g) = sys g" "lockers (mapmem f g) = lockers g" "readings (wld (mapmem f g)) = readings (wld g)"
  "mapmem f (g\<lparr>lockers := ls\<rparr>) = (mapmem f g)\<lparr>lockers := ls\<rparr>"
  "barriers (mapmem f g) = barriers g"
  by (simp_all add: mapmem_def)

lemma new_connector_fields [simp]:
  "\<not> m_opened (new_connector name t)" "c_type (new_connector name t) = t"
  "m_pmemory (m_memory (new_connector name t)) = None" "sm_name (m_memory (new_connector name t)) = name"
  by (simp_all add: new_connector_def new_shared_memory_def)

lemma single_create_field:
  "v_create (single_bidirectional_connector P)
     = safe_create P Simple_queue (simple_connector P Simple_queue)"
  "v_open (single_bidirectional_connector P)
     = safe_open P Simple_queue (simple_connector P Simple_queue)"
  by (simp_all add: single_bidirectional_connector_def safe_connector_def base_safe_connector_def
    bidirectional_connector_def)

text \<open>The header writes around the queue.\<close>

lemma header_writes:
  "only_changes m (store32 (set_users a v m) a w) {a..<a + 8}"
  "users a (store32 (set_users a v m) a w) = v" "load32 (store32 (set_users a v m) a w) a = w"
proof -
  have "only_changes m (set_users a v m) {a + 4..<a + 8}"
    by (simp add: set_users_def only_changes_store32)
  moreover have "only_changes (set_users a v m) (store32 (set_users a v m) a w) {a..<a + 4}"
    by (simp add: only_changes_store32)
  ultimately show "only_changes m (store32 (set_users a v m) a w) {a..<a + 8}"
    by (rule only_changes_trans) auto
  show "users a (store32 (set_users a v m) a w) = v"
    by (simp add: users_def set_users_def load32_store32_other)
  show "load32 (store32 (set_users a v m) a w) a = w" by simp
qed

lemma relocked: "store32 (set_users a v (store32 m a w)) a w' = store32 (set_users a v m) a w'"
  by (rule ext) (simp add: set_users_def store32_def store_def)

lemma away_from_queue:
  assumes "queue_holds E (w, q) f" and "base_ptr q = queue_ptr P a"
    and "only_changes (mem w) (mem w') {a..<a + 8}"
  shows "queue_holds E (w', q) f"
  by (rule queue_holds_away [OF assms(1,3)]) (use assms(2) in \<open>auto simp: segment_def queue_ptr_def\<close>)

section \<open>Opening\<close>

text \<open>A site after an opening: a new object, and the header of the segment written.\<close>

lemma safe_open_runs:
  fixes P :: "('h, 'o, 'l, 'b) platform"
  assumes spec: "shm_spec (papi P) seg nm" and at: "atomic_spec (atomics (penv P))"
    and quiet: "spinners P 0 LS_LOCKED = LS_LOCKED" and there: "seg (sys g) name = Some (a, z)"
    and free: "load32 (gmem g) a = LS_UNLOCKED" and used: "0 < users a (gmem g)"
    and enters: "side_enters (scoped_lock_type (plock P)) (lockers g (a + 8))"
    and attach: "open_queue (penv P) ((wld g)\<lparr>mem := store32 (gmem g) a LS_LOCKED\<rparr>) Q (queue_ptr P a) None = returns (w, q)"
  shows "\<exists>c o1. safe_open P Q (simple_connector P Q) None (new_connector name CON_BIDIR, g)
      = returns (True, c, mapmem (\<lambda>m. store32 (set_users a (users a m + 1) m) a LS_UNLOCKED) (g\<lparr>sys := o1, wld := w\<rparr>))
    \<and> seg o1 = seg (sys g) \<and> c_type c = CON_BIDIR \<and> m_plocker c = Some (a + 8)
    \<and> m_pbarrier c = Some (a + 8 + locker_size (plock P))
    \<and> m_pqueue c = Some q \<and> sm_get (m_memory c) = a \<and> sm_name (m_memory c) = name
    \<and> o1 = snd (snd (sm_open (papi P) (new_shared_memory name :: 'h shared_memory) (sys g)))"
proof -
  let ?c0 = "new_connector name CON_BIDIR :: 'h connector" and ?C = "simple_connector P Q"
  have new: "m_pmemory (m_memory ?c0) = None" "sm_name (m_memory ?c0) = name"
    by (simp_all add: new_connector_def new_shared_memory_def)
  obtain h o1 where o: "sm_open (papi P) (m_memory ?c0) (sys g)
      = (True, (m_memory ?c0)\<lparr>m_pregion := Some (a, z), m_pmemory := Some h\<rparr>, o1)" "seg o1 = seg (sys g)"
    using sm_open_existing [OF spec new(1), of "sys g" "(a, z)"] new(2) there by auto
  define c1 where "c1 = ?c0\<lparr>m_memory := (m_memory ?c0)\<lparr>m_pregion := Some (a, z), m_pmemory := Some h\<rparr>\<rparr>"
  have mem: "open_memory P (?c0, g) = (True, c1, g\<lparr>sys := o1\<rparr>)" "shared_get_memory (c1, g') = a" for g'
    by (simp_all add: open_memory_def o c1_def shared_get_memory_def sm_get_def)
  let ?g1 = "g\<lparr>sys := o1\<rparr>" and ?lock = "\<lambda>m. store32 m a LS_LOCKED" and ?S = "scoped_lock_type (plock P)"
  let ?count = "\<lambda>m. set_users a (users a m + 1) m"
  have enter: "spin_enter P a ?g1 = returns (mapmem ?lock ?g1)"
    by (rule spin_enter_open [OF at _ quiet]) (simp add: free)
  have some: "0 < users a (gmem (mapmem ?lock ?g1))"
    using used by (simp add: users_def load32_store32_other)
  let ?c2 = "set_pointers P a c1" and ?g2 = "?g1\<lparr>wld := w\<rparr>"
  let ?s1 = "(?c2\<lparr>m_pqueue := Some q\<rparr>, mapmem ?count ?g2)"
  have c2: "shared_get_memory (?c2, g') = a" "m_plocker ?c2 = Some (a + 8)" for g'
    using mem(2) by (simp_all add: set_pointers_def shared_get_memory_def Let_def)
  have scoped: "scope (site_side ?S) (guard_immediate (site_side ?S) (?c2, mapmem ?lock ?g1))
      (\<lambda>s2. and_then (attach_queue P Q (safe_get_memory P ?C s2) None s2) (\<lambda>(c3, g3).
         returns (True, c3, mapmem ?count g3))) False = returns (True, ?s1)"
  proof (rule scope_enters)
    show "m_plocker (fst (?c2, mapmem ?lock ?g1)) = Some (a + 8)" using c2 by simp
    show "side_enters ?S (lockers (snd (?c2, mapmem ?lock ?g1)) (a + 8))" using enters by simp
  next
    fix ls
    have "safe_get_memory P ?C (with_lockers ls (?c2, mapmem ?lock ?g1)) = queue_ptr P a"
      using c2(1) by (simp add: safe_get_memory_def queue_ptr_def with_lockers_def)
    then show "and_then (attach_queue P Q (safe_get_memory P ?C (with_lockers ls (?c2, mapmem ?lock ?g1)))
          None (with_lockers ls (?c2, mapmem ?lock ?g1))) (\<lambda>(c3, g3). returns (True, c3, mapmem ?count g3))
        = returns (True, with_lockers ls ?s1)"
      using attach by (simp add: attach_queue_def with_lockers_def mapmem_def)
  qed (use c2 in simp_all)
  have "safe_open P Q ?C None (?c0, g)
      = returns (True, ?c2\<lparr>m_pqueue := Some q\<rparr>, mapmem (\<lambda>m. store32 (set_users a (users a m + 1) m) a LS_UNLOCKED) ?g2)"
    using some by (simp add: safe_open_def mem enter Let_def scoped spin_leave_eq [OF at])
  moreover have "o1 = snd (snd (sm_open (papi P) (new_shared_memory name :: 'h shared_memory) (sys g)))"
    using o(1) by (simp add: new_connector_def)
  ultimately show ?thesis
    using o(2) c2 by (intro exI [of _ "?c2\<lparr>m_pqueue := Some q\<rparr>"] exI [of _ o1])
      (simp add: set_pointers_def c1_def new_connector_def new_shared_memory_def Let_def sm_get_def)
qed

lemma safe_open_served:
  fixes P :: "('h, 'o, 'l, 'b) platform"
  assumes spec: "shm_spec (papi P) seg nm" and srv: "served P a s f"
    and at: "atomic_spec (atomics (penv P))" and quiet: "spinners P 0 LS_LOCKED = LS_LOCKED"
    and there: "seg (sys (snd s)) name = Some (a, z)"
  shows "\<exists>c o1. safe_open P Simple_queue (simple_connector P Simple_queue) None
        (new_connector name CON_BIDIR, snd s)
      = returns (True, c, mapmem (\<lambda>m. store32 (set_users a (users a m + 1) m) a LS_UNLOCKED)
          ((snd s)\<lparr>sys := o1\<rparr>))
    \<and> seg o1 = seg (sys (snd s)) \<and> c_type c = CON_BIDIR \<and> m_plocker c = Some (a + 8)
    \<and> m_pbarrier c = Some (a + 8 + locker_size (plock P))
    \<and> m_pqueue c = Some (simple_open (queue_ptr P a)) \<and> sm_get (m_memory c) = a
    \<and> sm_name (m_memory c) = name
    \<and> o1 = snd (snd (sm_open (papi P) (new_shared_memory name :: 'h shared_memory) (sys (snd s))))"
proof -
  let ?g = "snd s" and ?q = "simple_open (queue_ptr P a)"
  let ?w = "(wld ?g)\<lparr>mem := store32 (gmem ?g) a LS_LOCKED\<rparr>"
  have attach: "open_queue (penv P) ?w Simple_queue (queue_ptr P a) None = returns (?w, ?q)"
    by (simp add: open_queue_def)
  have seen: "users a (store32 m a v) = users a m" for m v by (simp add: users_def load32_store32_other)
  have "mapmem (\<lambda>m. store32 (set_users a (users a m + 1) m) a LS_UNLOCKED) (?g\<lparr>sys := o1, wld := ?w\<rparr>)
      = mapmem (\<lambda>m. store32 (set_users a (users a m + 1) m) a LS_UNLOCKED) (?g\<lparr>sys := o1\<rparr>)" for o1
    by (simp add: mapmem_def seen relocked)
  then show ?thesis
    using safe_open_runs [OF spec at quiet there _ _ _ attach] srv by (fastforce simp: served_def)
qed

lemma served_after:
  assumes srv: "served P a s f" and room: "users a (gmem (snd s)) \<noteq> - 1"
    and g': "g' = mapmem (\<lambda>m. store32 (set_users a (users a m + 1) m) a LS_UNLOCKED) ((snd s)\<lparr>sys := o1\<rparr>)"
  shows "served P a (fst s, g') f"
    "\<lbrakk>c_type c = CON_BIDIR; m_opened c; m_plocker c = Some (a + 8);
      m_pqueue c = Some (simple_open (queue_ptr P a)); sm_get (m_memory c) = a\<rbrakk> \<Longrightarrow> served P a (c, g') f"
    "users a (gmem g') = users a (gmem (snd s)) + 1"
proof -
  obtain q where q: "m_pqueue (fst s) = Some q" "base_ptr q = queue_ptr P a"
    and h: "queue_holds (penv P) (wld (snd s), q) f" and single: "single_holds P s f"
    using srv by (auto simp: served_def single_holds_def)
  have m: "only_changes (gmem (snd s)) (gmem g') {a..<a + 8}" "load32 (gmem g') a = LS_UNLOCKED"
    and u: "users a (gmem g') = users a (gmem (snd s)) + 1"
    by (simp_all add: g' header_writes)
  show "users a (gmem g') = users a (gmem (snd s)) + 1" by (fact u)
  have "users a (gmem g') \<noteq> 0" using u room by (metis add.inverse_unique add.commute)
  then have u0: "0 < users a (gmem g')" by (simp add: word_gt_0)
  have h': "queue_holds (penv P) (wld g', q) f"
    by (rule away_from_queue [OF h q(2) m(1)])
  have ls: "lockers g' = lockers (snd s)" by (simp add: g')
  show "served P a (fst s, g') f"
    using srv h' q m(2) u0 ls by (auto simp: served_def single_holds_def shared_get_memory_def)
  have "queue_holds (penv P) (wld g', simple_open (queue_ptr P a)) f"
    by (rule queue_holds_open [OF h' q(2)])
  moreover have "base_ptr (simple_open (queue_ptr P a)) = queue_ptr P a"
    by (simp add: simple_open_def fresh_object_def)
  ultimately show "served P a (c, g') f" if "c_type c = CON_BIDIR" "m_opened c"
    "m_plocker c = Some (a + 8)" "m_pqueue c = Some (simple_open (queue_ptr P a))" "sm_get (m_memory c) = a"
    using srv that m(2) u0 ls by (auto simp: served_def single_holds_def shared_get_memory_def)
qed

section \<open>Creating\<close>

lemma zeroed_header:
  assumes "\<forall>i \<in> {a..<a + n}. m i = (0 :: u8)" and "8 \<le> n" and "only_changes m m' {b..<e}" and "a + 8 \<le> b"
  shows "users a m' = 0"
proof -
  have "m' i = 0" if "a + 4 \<le> i" "i < a + 8" for i
    using that assms by (auto simp: only_changes_def)
  then show ?thesis by (simp add: users_def load32_zero)
qed

text \<open>The header of a queue.\<close>

definition header_size :: "queue_class \<Rightarrow> nat" where
  "header_size Q = (case Q of Simple_queue \<Rightarrow> 24 | Smart_shared_queue \<Rightarrow> 36 | _ \<Rightarrow> 32)"

lemma safe_size:
  assumes "unat (sz :: u64) < 4294967296" and "locker_size (plock P) + barrier_size (pbar P) < 4294967296"
  shows "unat (safe_memory_size P (simple_connector P Q) sz) = queue_ptr P 0 + header_size Q + unat sz"
proof -
  define n where "n = queue_ptr P 0 + header_size Q"
  have eq: "safe_memory_size P (simple_connector P Q) sz = sz + of_nat n"
    by (cases Q) (simp_all add: n_def safe_memory_size_def queue_static_size_def q_static_size_def
      s_static_size_def smart_static_size_def queue_ptr_def header_size_def)
  have "n < 8589934592" using assms(2) by (cases Q) (simp_all add: n_def queue_ptr_def header_size_def)
  then have "unat (of_nat n :: u64) = n" "unat sz + n < 18446744073709551616"
    using assms(1) by (simp_all add: unat_of_nat_u64)
  then show ?thesis unfolding eq n_def [symmetric] by (simp add: unat_word_ariths take_bit_nat_eq_self_iff)
qed

text \<open>\<open>built w ptr m q\<close>: what the constructor of the queue yields in the fresh segment.\<close>

lemma safe_create_runs:
  fixes P :: "('h, 'o, 'l, 'b) platform"
  assumes spec: "shm_spec (papi P) seg nm" and free: "seg (sys g) name = None"
    and at: "atomic_spec (atomics (penv P))"
    and enters: "side_enters (scoped_lock_type (plock P)) (new_locker (plock P))"
    and make: "\<And>w ptr. \<exists>m q. create_queue (penv P) w Q cid ptr sz None = returns (w\<lparr>mem := m\<rparr>, q) \<and> built w ptr m q"
  shows "\<exists>a c g2 m q. safe_create P Q (simple_connector P Q) cid sz None None (new_connector name CON_BIDIR, g)
      = returns (True, c, mapmem (\<lambda>m. store32 (set_users a (users a m + 1) m) a LS_UNLOCKED) (g2\<lparr>wld := (wld g2)\<lparr>mem := m\<rparr>\<rparr>))
    \<and> built (wld g2) (queue_ptr P a) m q
    \<and> (\<forall>i \<in> {a..<a + unat (safe_memory_size P (simple_connector P Q) sz)}. gmem g2 i = 0)
    \<and> only_changes (gmem g) (gmem g2) {a..<a + unat (safe_memory_size P (simple_connector P Q) sz)}
    \<and> c_name c = name \<and> sm_name (m_memory c) = name \<and> c_type c = CON_BIDIR \<and> m_pqueue c = Some q
    \<and> m_plocker c = Some (a + 8) \<and> m_pbarrier c = Some (a + 8 + locker_size (plock P)) \<and> sm_get (m_memory c) = a
    \<and> lockers g2 = (lockers g)(a + 8 := new_locker (plock P))
    \<and> barriers g2 = (barriers g)(a + 8 + locker_size (plock P) := new_bar (pbar P))
    \<and> sys g2 = fst (snd (snd (sm_create (papi P) (safe_memory_size P (simple_connector P Q) sz)
        (new_shared_memory name :: 'h shared_memory) (sys g, gmem g))))
    \<and> seg (sys g2) = (seg (sys g))(name \<mapsto> (a, safe_memory_size P (simple_connector P Q) sz))"
proof -
  let ?c0 = "new_connector name CON_BIDIR :: 'h connector" and ?C = "simple_connector P Q"
  let ?S = "scoped_lock_type (plock P)" and ?sz = "safe_memory_size P ?C sz"
  obtain h a o1 m1 where o: "sm_create (papi P) ?sz (m_memory ?c0) (sys g, gmem g)
      = (True, (m_memory ?c0)\<lparr>m_pregion := Some (a, ?sz), m_pmemory := Some h\<rparr>, o1, m1)"
    "seg o1 = (seg (sys g))(name \<mapsto> (a, ?sz))" "\<forall>i \<in> {a..<a + unat ?sz}. m1 i = 0"
    "only_changes (gmem g) m1 {a..<a + unat ?sz}"
    using sm_create_fresh [OF spec, of "m_memory ?c0" "sys g" ?sz "gmem g"] free by auto
  define c1 where "c1 = ?c0\<lparr>m_memory := (m_memory ?c0)\<lparr>m_pregion := Some (a, ?sz), m_pmemory := Some h\<rparr>\<rparr>"
  let ?g1 = "mapmem (\<lambda>_. m1) (g\<lparr>sys := o1\<rparr>)" and ?c2 = "set_pointers P a c1"
  have mem: "create_memory P ?sz (?c0, g) = (True, c1, ?g1)" "shared_get_memory (c1, g') = a" for g'
    by (simp_all add: create_memory_def o c1_def shared_get_memory_def sm_get_def)
  have c2: "shared_get_memory (?c2, g') = a" "m_plocker ?c2 = Some (a + 8)" for g'
    using mem(2) by (simp_all add: set_pointers_def shared_get_memory_def Let_def)
  define g2 where "g2 = ?g1\<lparr>lockers := (lockers ?g1)(a + 8 := new_locker (plock P)),
    barriers := (barriers ?g1)(a + 8 + locker_size (plock P) := new_bar (pbar P))\<rparr>"
  have m2: "gmem g2 = m1" by (simp add: g2_def)
  obtain m q where q: "create_queue (penv P) (wld g2) Q cid (queue_ptr P a) sz None = returns ((wld g2)\<lparr>mem := m\<rparr>, q)"
    "built (wld g2) (queue_ptr P a) m q"
    using make by blast
  let ?fin = "mapmem (\<lambda>m. store32 (set_users a (users a m + 1) m) a LS_UNLOCKED) (g2\<lparr>wld := (wld g2)\<lparr>mem := m\<rparr>\<rparr>)"
  let ?s1 = "(?c2\<lparr>m_pqueue := Some q\<rparr>, ?fin)"
  have scoped: "scope (site_side ?S) (guard_immediate (site_side ?S) (?c2, g2))
      (\<lambda>s2. and_then (make_queue P Q (safe_get_memory P ?C s2) cid sz None None s2) (\<lambda>(c3, g3).
         returns (True, c3, spin_leave P a (mapmem (\<lambda>m. set_users a (users a m + 1) m) g3)))) False
      = returns (True, ?s1)"
  proof (rule scope_enters)
    show "m_plocker (fst (?c2, g2)) = Some (a + 8)" using c2 by simp
    show "side_enters ?S (lockers (snd (?c2, g2)) (a + 8))" using enters by (simp add: g2_def)
  next
    fix ls
    have "safe_get_memory P ?C (with_lockers ls (?c2, g2)) = queue_ptr P a"
      using c2(1) by (simp add: safe_get_memory_def queue_ptr_def with_lockers_def)
    then show "and_then (make_queue P Q (safe_get_memory P ?C (with_lockers ls (?c2, g2)))
          cid sz None None (with_lockers ls (?c2, g2))) (\<lambda>(c3, g3).
         returns (True, c3, spin_leave P a (mapmem (\<lambda>m. set_users a (users a m + 1) m) g3)))
        = returns (True, with_lockers ls ?s1)"
      by (simp add: make_queue_def with_lockers_def q(1) spin_leave_eq [OF at] lockers_wld_update mapmem_def)
  qed (use c2 in simp_all)
  have "safe_create P Q ?C cid sz None None (?c0, g) = returns (True, ?s1)"
    using scoped by (simp add: safe_create_def mem Let_def g2_def add.commute [of a 8])
  moreover have "m_memory ?c0 = new_shared_memory name" by (simp add: new_connector_def)
  then have "sys g2 = fst (snd (snd (sm_create (papi P) ?sz (new_shared_memory name :: 'h shared_memory) (sys g, gmem g))))"
    using o(1) by (simp add: g2_def)
  moreover have "lockers g2 = (lockers g)(a + 8 := new_locker (plock P))"
    "barriers g2 = (barriers g)(a + 8 + locker_size (plock P) := new_bar (pbar P))" "seg (sys g2) = (seg (sys g))(name \<mapsto> (a, ?sz))"
    by (simp_all add: g2_def o(2))
  moreover have "c_name ?c2 = name" "sm_name (m_memory ?c2) = name" "c_type ?c2 = CON_BIDIR" "sm_get (m_memory ?c2) = a"
    "m_pbarrier ?c2 = Some (a + 8 + locker_size (plock P))"
    by (simp_all add: set_pointers_def c1_def new_connector_def new_shared_memory_def Let_def sm_get_def)
  ultimately show ?thesis
    using q(2) o(3,4) m2 c2(2)
    by (intro exI [of _ a] exI [of _ "?c2\<lparr>m_pqueue := Some q\<rparr>"] exI [of _ g2] exI [of _ m] exI [of _ q]) simp
qed

lemma safe_create_serves:
  fixes P :: "('h, 'o, 'l, 'b) platform"
  assumes "shm_spec (papi P) seg nm" and "seg (sys g) name = None" and "env_ok (penv P)"
    and "lock_free (plock P) (new_locker (plock P))"
    and "side_enters (scoped_lock_type (plock P)) (new_locker (plock P))"
    and "0 < unat sz" "unat sz < 4294967296"
    and "locker_size (plock P) + barrier_size (pbar P) < 4294967296"
  shows "\<exists>a c g'. safe_create P Simple_queue (simple_connector P Simple_queue) cid sz None None
        (new_connector name CON_BIDIR, g) = returns (True, c, g')
    \<and> served P a (c\<lparr>m_opened := True\<rparr>, g') \<lparr>fifo_cap = unat sz, fifo_pos = 0, fifo_msgs = []\<rparr>
    \<and> users a (gmem g') = 1 \<and> c_name c = name \<and> sm_name (m_memory c) = name
    \<and> m_pqueue c = Some (simple_open (queue_ptr P a))
    \<and> m_pbarrier c = Some (a + 8 + locker_size (plock P))
    \<and> lockers g' = (lockers g)(a + 8 := new_locker (plock P))
    \<and> barriers g' = (barriers g)(a + 8 + locker_size (plock P) := new_bar (pbar P))
    \<and> only_changes (gmem g) (gmem g')
        {a..<a + unat (safe_memory_size P (simple_connector P Simple_queue) sz)}
    \<and> sys g' = fst (snd (snd (sm_create (papi P) (safe_memory_size P (simple_connector P Simple_queue) sz)
        (new_shared_memory name :: 'h shared_memory) (sys g, gmem g))))
    \<and> seg (sys g') = (seg (sys g))(name \<mapsto> (a, safe_memory_size P (simple_connector P Simple_queue) sz))"
proof -
  let ?sz = "safe_memory_size P (simple_connector P Simple_queue) sz" and ?f = "\<lparr>fifo_cap = unat sz, fifo_pos = 0, fifo_msgs = []\<rparr>"
  define built where "built w ptr m q \<longleftrightarrow> q = simple_open ptr \<and> queue_holds (penv P) (w\<lparr>mem := m\<rparr>, q) ?f
    \<and> only_changes (mem w) m {ptr..<ptr + 24}" for w ptr m q
  have at: "atomic_spec (atomics (penv P))" using assms(3) by (simp add: env_ok_def)
  have make: "\<exists>m q. create_queue (penv P) w Simple_queue cid ptr sz None = returns (w\<lparr>mem := m\<rparr>, q) \<and> built w ptr m q" for w ptr
  proof -
    obtain m q where q: "simple_create (mem w) cid ptr sz = returns (m, q)" "queue_holds (penv P) (w\<lparr>mem := m\<rparr>, q) ?f"
      "only_changes (mem w) m {ptr..<ptr + 24}"
      using simple_create_queue_holds [OF assms(3,6,7), of w cid ptr] by blast
    moreover have "q = simple_open ptr" using q(1) by (auto simp: simple_create_def and_then_eq_returns Let_def)
    ultimately show ?thesis by (auto simp: built_def create_queue_def)
  qed
  obtain a c g2 m q where run: "safe_create P Simple_queue (simple_connector P Simple_queue) cid sz None None
        (new_connector name CON_BIDIR, g)
      = returns (True, c, mapmem (\<lambda>m. store32 (set_users a (users a m + 1) m) a LS_UNLOCKED) (g2\<lparr>wld := (wld g2)\<lparr>mem := m\<rparr>\<rparr>))"
    and q: "built (wld g2) (queue_ptr P a) m q" and zero: "\<forall>i \<in> {a..<a + unat ?sz}. gmem g2 i = 0"
    and w: "only_changes (gmem g) (gmem g2) {a..<a + unat ?sz}"
    and c: "c_name c = name" "sm_name (m_memory c) = name" "c_type c = CON_BIDIR" "m_pqueue c = Some q"
      "m_plocker c = Some (a + 8)" "sm_get (m_memory c) = a" "m_pbarrier c = Some (a + 8 + locker_size (plock P))"
    and ls: "lockers g2 = (lockers g)(a + 8 := new_locker (plock P))"
      "barriers g2 = (barriers g)(a + 8 + locker_size (plock P) := new_bar (pbar P))"
    and os: "sys g2 = fst (snd (snd (sm_create (papi P) ?sz (new_shared_memory name :: 'h shared_memory) (sys g, gmem g))))"
      "seg (sys g2) = (seg (sys g))(name \<mapsto> (a, ?sz))"
    using safe_create_runs [where Q = Simple_queue and built = built, OF assms(1,2) at assms(5) make] by blast
  note q = q [unfolded built_def]
  let ?fin = "mapmem (\<lambda>m. store32 (set_users a (users a m + 1) m) a LS_UNLOCKED) (g2\<lparr>wld := (wld g2)\<lparr>mem := m\<rparr>\<rparr>)"
  have size: "unat ?sz = queue_ptr P 0 + 24 + unat sz"
    using safe_size [OF assms(7,8), of Simple_queue] by (simp add: header_size_def)
  then have "users a m = 0"
    by (intro zeroed_header [OF zero _ conjunct2 [OF conjunct2 [OF q]]]) (simp_all add: queue_ptr_def)
  then have users: "users a (gmem ?fin) = 1" by (simp add: header_writes)
  have "queue_holds (penv P) (wld ?fin, q) ?f"
  proof (rule away_from_queue)
    show "queue_holds (penv P) ((wld g2)\<lparr>mem := m\<rparr>, q) ?f" using q by blast
    show "base_ptr q = queue_ptr P a" using q by (simp add: simple_open_def fresh_object_def)
    show "only_changes (mem ((wld g2)\<lparr>mem := m\<rparr>)) (mem (wld ?fin)) {a..<a + 8}" by simp (rule header_writes(1))
  qed
  then have "served P a (c\<lparr>m_opened := True\<rparr>, ?fin) ?f"
    using c users assms(4,5) q
    by (simp add: served_def single_holds_def shared_get_memory_def header_writes ls simple_open_def fresh_object_def)
  moreover have "only_changes (gmem g) (gmem ?fin) {a..<a + unat ?sz}"
  proof (rule only_changes_trans3 [OF w conjunct2 [OF conjunct2 [OF q]]])
    show "only_changes m (gmem ?fin) {a..<a + 8}" by simp (rule header_writes(1))
  qed (simp_all add: size queue_ptr_def)
  ultimately show ?thesis using run users c q ls os by (intro exI [of _ a] exI [of _ c] exI [of _ ?fin]) simp
qed

section \<open>A served connector\<close>

lemma sample_quiet: "atomic_spec (atomics sample_env)"
  using sample_env_ok by (simp add: env_ok_def)

lemma sample_enters:
  "side_enters (scoped_lock_type (plock sample_platform)) (new_locker (plock sample_platform))"
  "lock_free (plock sample_platform) (new_locker (plock sample_platform))"
  "locker_size (plock sample_platform) + barrier_size (pbar sample_platform) < 4294967296"
  using scoped_side_enters [of sample_clock "\<lambda>_ l. l"] sample_lock_free
  by (simp_all add: sample_platform_def boost_locker_interface_def stub_barrier_def)

definition sample_globals :: "(seg_table, shared_locker, unit) globals" where
  "sample_globals =
     \<lparr>sys = \<lparr>segments = Map.empty, next_address = 64\<rparr>, wld = \<lparr>mem = \<lambda>_. 7, readings = 0\<rparr>,
      lockers = (\<lambda>_. new_shared_locker), barriers = (\<lambda>_. ())\<rparr>"

lemma sample_served:
  obtains s a z where "served sample_platform a s \<lparr>fifo_cap = 100, fifo_pos = 0, fifo_msgs = []\<rparr>"
    "segments (sys (snd s)) ''q0'' = Some (a, z)" "users a (gmem (snd s)) = 1"
proof -
  have "shm_spec (papi sample_platform) segments (\<lambda>_ h. h)" using table_api_spec by simp
  moreover have "segments (sys sample_globals) ''q0'' = None" by (simp add: sample_globals_def)
  moreover have "env_ok (penv sample_platform)" by simp
  moreover have "0 < unat (100 :: u64)" "unat (100 :: u64) < 4294967296" by simp_all
  ultimately obtain a c g' where
    "served sample_platform a (c\<lparr>m_opened := True\<rparr>, g') \<lparr>fifo_cap = unat (100 :: u64), fifo_pos = 0, fifo_msgs = []\<rparr>"
    "users a (gmem g') = 1" "segments (sys g') = (segments (sys sample_globals))(''q0'' \<mapsto> (a, safe_memory_size sample_platform
       (simple_connector sample_platform Simple_queue) 100))"
    using safe_create_serves [OF _ _ _ sample_enters(2,1) _ _ sample_enters(3), where cid = 5] by blast
  then show thesis by (intro that [of a "(c\<lparr>m_opened := True\<rparr>, g')"]) simp_all
qed

section \<open>Properties\<close>

text \<open>
  C17. Creating a single connector under a free name succeeds: the object
  is open on an empty FIFO of the given capacity, it is the one user of the segment, and the
  spinlock that guards opening, locked in the fresh segment, is released.
\<close>

theorem single_create_serves:
  fixes P :: "('h, 'o, 'l, 'b) platform"
  assumes "shm_spec (papi P) seg nm" and "seg (sys g) name = None" and "env_ok (penv P)"
    and "lock_free (plock P) (new_locker (plock P))"
    and "side_enters (scoped_lock_type (plock P)) (new_locker (plock P))"
    and "0 < unat sz" "unat sz < 4294967296"
    and "locker_size (plock P) + barrier_size (pbar P) < 4294967296"
  shows "\<exists>a c g'. connector_create (single_bidirectional_connector P) cid sz None None
        (new_connector name CON_BIDIR, g) = returns (True, c, g')
    \<and> served P a (c, g') \<lparr>fifo_cap = unat sz, fifo_pos = 0, fifo_msgs = []\<rparr>
    \<and> users a (gmem g') = 1
    \<and> seg (sys g') = (seg (sys g))(name \<mapsto> (a, safe_memory_size P (simple_connector P Simple_queue) sz))"
proof -
  obtain a c g' where c: "safe_create P Simple_queue (simple_connector P Simple_queue) cid sz None None
      (new_connector name CON_BIDIR, g) = returns (True, c, g')"
    and rest: "served P a (c\<lparr>m_opened := True\<rparr>, g') \<lparr>fifo_cap = unat sz, fifo_pos = 0, fifo_msgs = []\<rparr>"
    "users a (gmem g') = 1"
    "seg (sys g') = (seg (sys g))(name \<mapsto> (a, safe_memory_size P (simple_connector P Simple_queue) sz))"
    using safe_create_serves [OF assms] by blast
  have "connector_create (single_bidirectional_connector P) cid sz None None (new_connector name CON_BIDIR, g)
      = returns (True, c\<lparr>m_opened := True\<rparr>, g')"
    by (simp add: connector_create_def single_create_field c)
  with rest show ?thesis by blast
qed

theorem single_create_serves_witness:
  "\<exists>a c g'. connector_create (single_bidirectional_connector sample_platform) 5 100 None None
        (new_connector ''q0'' CON_BIDIR, sample_globals) = returns (True, c, g')
    \<and> served sample_platform a (c, g') \<lparr>fifo_cap = 100, fifo_pos = 0, fifo_msgs = []\<rparr>"
proof -
  have "shm_spec (papi sample_platform) segments (\<lambda>_ h. h)" using table_api_spec by simp
  moreover have "segments (sys sample_globals) ''q0'' = None" by (simp add: sample_globals_def)
  moreover have "env_ok (penv sample_platform)" by simp
  ultimately show ?thesis
    using single_create_serves [OF _ _ _ sample_enters(2,1) _ _ sample_enters(3),
        where sz = 100 and cid = 5 and name = "''q0''" and g = sample_globals]
    by (simp del: fun_upd_apply) blast
qed

text \<open>
  C14. Opening a connector by its name while it is served yields a second
  object on the same FIFO, counted as one more user; the first object is served as before. So a
  message pushed by either is in the queue of both.
\<close>

theorem single_open_shares:
  assumes "shm_spec (papi P) seg nm" and "served P a s f" and "atomic_spec (atomics (penv P))"
    and "spinners P 0 LS_LOCKED = LS_LOCKED" and "seg (sys (snd s)) name = Some (a, z)"
    and "users a (gmem (snd s)) \<noteq> - 1"
  shows "\<exists>c g'. connector_open (single_bidirectional_connector P) None (new_connector name CON_BIDIR, snd s)
        = returns (True, c, g')
    \<and> served P a (c, g') f \<and> served P a (fst s, g') f
    \<and> users a (gmem g') = users a (gmem (snd s)) + 1 \<and> seg (sys g') = seg (sys (snd s))"
proof -
  obtain c o1 where c: "safe_open P Simple_queue (simple_connector P Simple_queue) None
        (new_connector name CON_BIDIR, snd s)
      = returns (True, c, mapmem (\<lambda>m. store32 (set_users a (users a m + 1) m) a LS_UNLOCKED)
          ((snd s)\<lparr>sys := o1\<rparr>))"
    "seg o1 = seg (sys (snd s))" "c_type c = CON_BIDIR" "m_plocker c = Some (a + 8)"
    "m_pqueue c = Some (simple_open (queue_ptr P a))" "sm_get (m_memory c) = a"
    using safe_open_served [OF assms(1-5)] by auto
  define c' where "c' = c\<lparr>m_opened := True\<rparr>"
  define g' where "g' = mapmem (\<lambda>m. store32 (set_users a (users a m + 1) m) a LS_UNLOCKED)
    ((snd s)\<lparr>sys := o1\<rparr>)"
  have "connector_open (single_bidirectional_connector P) None (new_connector name CON_BIDIR, snd s)
      = returns (True, c', g')"
    by (simp add: connector_open_def single_create_field c(1) g'_def c'_def)
  moreover note after = served_after [OF assms(2,6) g'_def]
  have "served P a (c', g') f" by (rule after(2)) (simp_all add: c'_def c)
  moreover have "seg (sys g') = seg (sys (snd s))" by (simp add: g'_def c(2))
  ultimately show ?thesis using after(1,3) by blast
qed

theorem single_open_shares_witness:
  "\<exists>g a c g'. connector_open (single_bidirectional_connector sample_platform) None
        (new_connector ''q0'' CON_BIDIR, g) = returns (True, c, g')
    \<and> served sample_platform a (c, g') \<lparr>fifo_cap = 100, fifo_pos = 0, fifo_msgs = []\<rparr>
    \<and> users a (gmem g') = 2"
proof -
  obtain s :: "(string, seg_table, shared_locker, unit) site" and a z
    where s: "served sample_platform a s \<lparr>fifo_cap = 100, fifo_pos = 0, fifo_msgs = []\<rparr>"
    "segments (sys (snd s)) ''q0'' = Some (a, z)" "users a (gmem (snd s)) = 1"
    by (rule sample_served)
  have "shm_spec (papi sample_platform) segments (\<lambda>_ h. h)" "atomic_spec (atomics (penv sample_platform))"
    "spinners sample_platform 0 LS_LOCKED = LS_LOCKED" using table_api_spec sample_quiet by simp_all
  from single_open_shares [OF this(1) s(1) this(2,3) s(2)] obtain c g' where
    "connector_open (single_bidirectional_connector sample_platform) None
        (new_connector ''q0'' CON_BIDIR, snd s) = returns (True, c, g')"
    "served sample_platform a (c, g') \<lparr>fifo_cap = 100, fifo_pos = 0, fifo_msgs = []\<rparr>"
    "users a (gmem g') = 2" using s(3) by auto
  then show ?thesis by blast
qed

text \<open>
  C39. Creating a single connector lays its segment out without overlap: behind the spinlock and
  the counter of users, four bytes each, the new locker, behind it the barrier, then header and
  data of the queue, and the data ends where the segment created under the name ends. An object
  that opens the segment by its name uses the same places.
\<close>

theorem single_layout:
  fixes P :: "('h, 'o, 'l, 'b) platform"
  assumes "shm_spec (papi P) seg nm" and "seg (sys g) name = None" and "env_ok (penv P)"
    and "lock_free (plock P) (new_locker (plock P))"
    and "side_enters (scoped_lock_type (plock P)) (new_locker (plock P))"
    and "0 < unat sz" "unat sz < 4294967296"
    and "locker_size (plock P) + barrier_size (pbar P) < 4294967296"
    and "spinners P 0 LS_LOCKED = LS_LOCKED"
  shows "\<exists>a l b q c g1 c2 g2. connector_create (single_bidirectional_connector P) cid sz None None
        (new_connector name CON_BIDIR, g) = returns (True, c, g1)
    \<and> connector_open (single_bidirectional_connector P) None (new_connector name CON_BIDIR, g1) = returns (True, c2, g2)
    \<and> seg (sys g1) name = Some (a, safe_memory_size P (simple_connector P Simple_queue) sz)
    \<and> sm_get (m_memory c) = a \<and> sm_get (m_memory c2) = a
    \<and> m_plocker c = Some l \<and> m_pbarrier c = Some b \<and> m_pqueue c = Some q
    \<and> m_plocker c2 = Some l \<and> m_pbarrier c2 = Some b \<and> m_pqueue c2 = Some q
    \<and> lockers g1 l = new_locker (plock P) \<and> barriers g1 b = new_bar (pbar P)
    \<and> l = a + SPINLOCK_SIZE + COUNTER_SIZE \<and> b = l + locker_size (plock P) \<and> base_ptr q = b + barrier_size (pbar P)
    \<and> segment (gmem g1) q = {base_ptr q..<a + unat (safe_memory_size P (simple_connector P Simple_queue) sz)}"
proof -
  let ?f = "\<lparr>fifo_cap = unat sz, fifo_pos = 0, fifo_msgs = []\<rparr>" and ?z = "safe_memory_size P (simple_connector P Simple_queue) sz"
  obtain a c g1 where c: "safe_create P Simple_queue (simple_connector P Simple_queue) cid sz None None
        (new_connector name CON_BIDIR, g) = returns (True, c, g1)"
    "served P a (c\<lparr>m_opened := True\<rparr>, g1) ?f" "m_pqueue c = Some (simple_open (queue_ptr P a))"
    "m_pbarrier c = Some (a + 8 + locker_size (plock P))" "lockers g1 = (lockers g)(a + 8 := new_locker (plock P))"
    "barriers g1 = (barriers g)(a + 8 + locker_size (plock P) := new_bar (pbar P))"
    "seg (sys g1) = (seg (sys g))(name \<mapsto> (a, ?z))"
    using safe_create_serves [OF assms(1-8)] by blast
  have create: "connector_create (single_bidirectional_connector P) cid sz None None (new_connector name CON_BIDIR, g)
      = returns (True, c\<lparr>m_opened := True\<rparr>, g1)"
    by (simp add: connector_create_def single_create_field c(1))
  have at: "atomic_spec (atomics (penv P))" using assms(3) by (simp add: env_ok_def)
  have there: "seg (sys (snd (c\<lparr>m_opened := True\<rparr>, g1))) name = Some (a, ?z)" by (simp add: c(7))
  obtain c2 g2 where c2: "safe_open P Simple_queue (simple_connector P Simple_queue) None (new_connector name CON_BIDIR, g1)
      = returns (True, c2, g2)" "m_plocker c2 = Some (a + 8)" "m_pbarrier c2 = Some (a + 8 + locker_size (plock P))"
    "m_pqueue c2 = Some (simple_open (queue_ptr P a))" "sm_get (m_memory c2) = a"
    using safe_open_served [OF assms(1) c(2) at assms(9) there] by auto
  have open2: "connector_open (single_bidirectional_connector P) None (new_connector name CON_BIDIR, g1)
      = returns (True, c2\<lparr>m_opened := True\<rparr>, g2)"
    by (simp add: connector_open_def single_create_field c2(1))
  have base: "base_ptr (simple_open (queue_ptr P a)) = queue_ptr P a" by (simp add: simple_open_def fresh_object_def)
  have "cap_of (gmem g1) (simple_open (queue_ptr P a)) = unat sz"
    using c(2,3) by (auto simp: served_def single_holds_def queue_holds_def)
  then have "segment (gmem g1) (simple_open (queue_ptr P a)) = {queue_ptr P a..<a + unat ?z}"
    using safe_size [OF assms(7,8), of Simple_queue] base by (simp add: segment_def header_size_def queue_ptr_def algebra_simps)
  moreover have "m_plocker c = Some (a + 8)" "sm_get (m_memory c) = a"
    using c(2) by (simp_all add: served_def shared_get_memory_def)
  ultimately show ?thesis
    using create open2 c(3-7) c2(2-5) base
    by (intro exI [of _ a] exI [of _ "a + 8"] exI [of _ "a + 8 + locker_size (plock P)"]
        exI [of _ "simple_open (queue_ptr P a)"] exI [of _ "c\<lparr>m_opened := True\<rparr>"] exI [of _ g1]
        exI [of _ "c2\<lparr>m_opened := True\<rparr>"] exI [of _ g2]) (simp add: queue_ptr_def)
qed

theorem single_layout_witness:
  "\<exists>a c g1 q. connector_create (single_bidirectional_connector sample_platform) 5 100 None None
        (new_connector ''q0'' CON_BIDIR, sample_globals) = returns (True, c, g1)
    \<and> m_plocker c = Some (a + 8) \<and> m_pbarrier c = Some (a + 24) \<and> m_pqueue c = Some q \<and> base_ptr q = a + 24
    \<and> segment (gmem g1) q = {a + 24..<a + 148}"
proof -
  have sizes: "locker_size (plock sample_platform) = 16" "barrier_size (pbar sample_platform) = 0"
    "unat (safe_memory_size sample_platform (simple_connector sample_platform Simple_queue) 100) = 148"
    by (simp_all add: sample_platform_def boost_locker_interface_def stub_barrier_def safe_memory_size_def
      queue_static_size_def q_static_size_def)
  have "shm_spec (papi sample_platform) segments (\<lambda>_ h. h)" using table_api_spec by simp
  moreover have "segments (sys sample_globals) ''q0'' = None" by (simp add: sample_globals_def)
  moreover have "env_ok (penv sample_platform)" by simp
  moreover have "0 < unat (100 :: u64)" "unat (100 :: u64) < 4294967296" "spinners sample_platform 0 LS_LOCKED = LS_LOCKED"
    by simp_all
  ultimately obtain a q c g1 where "connector_create (single_bidirectional_connector sample_platform) 5 100 None None
        (new_connector ''q0'' CON_BIDIR, sample_globals) = returns (True, c, g1)"
    "m_plocker c = Some (a + 8)" "m_pbarrier c = Some (a + 24)" "m_pqueue c = Some q" "base_ptr q = a + 24"
    "segment (gmem g1) q = {base_ptr q..<a + 148}"
    using single_layout [OF _ _ _ sample_enters(2,1) _ _ sample_enters(3), where seg = segments and nm = "\<lambda>_ h. h" and g = sample_globals
        and name = "''q0''" and sz = 100 and cid = 5]
    unfolding sizes by (auto simp: add.assoc simp del: fun_upd_apply)
  then show ?thesis by auto
qed

end
