(* ===== verification/Bus_List.thy ===== *)
theory Bus_List
  imports Bus Connector_Life
begin

text \<open>
  The list of connectors of a bus and its control block: what the capacity of a new connector
  is, which identifiers it covers, how a bus catches up with the others, and where its body lies.
\<close>

section \<open>The capacity of a new connector\<close>

lemma new_capacity_unat:
  assumes "unat (capacity_factor sp) + 100 < 4294967296"
  shows "unat (new_capacity sp old)
    = min (max (unat (min_capacity sp))
        (unat old * (unat (capacity_factor sp) + 100) mod 4294967296 div 100)) (unat (max_capacity sp))"
proof -
  have f: "unat (capacity_factor sp + 100) = unat (capacity_factor sp) + 100"
    using assms by (simp add: unat_word_ariths take_bit_nat_eq_self_iff)
  have "unat (old * (capacity_factor sp + 100)) = unat old * (unat (capacity_factor sp) + 100) mod 4294967296"
    using unat_word_ariths(2) [of old "capacity_factor sp + 100"] unfolding f by simp
  then have "unat (old * (capacity_factor sp + 100) div 100)
      = unat old * (unat (capacity_factor sp) + 100) mod 4294967296 div 100"
    by (simp add: unat_div)
  then show ?thesis
    unfolding new_capacity_def by (auto simp: min_def max_def word_le_nat_alt)
qed

section \<open>What making a connector leaves alone\<close>

lemma make_connector_bus:
  assumes "make_connector L cid s = returns (p, b, g)"
  shows "b = fst s"
  using assms
  by (auto simp: make_connector_def drop_connector_def Let_def and_then_eq_returns case_prod_unfold
    split: if_split_asm)

lemma status_controlblock:
  "m_status (fst s) \<noteq> US_NONE \<Longrightarrow> get_controlblock L s = m_controlblock (fst s)"
  "m_status (fst s) = US_NONE \<Longrightarrow> get_controlblock L s = get_shared_controlblock L s"
  by (simp_all add: get_controlblock_def)

lemma set_fields [simp]:
  "fst (set_status st s) = (fst s)\<lparr>m_status := st\<rparr>" "snd (set_status st s) = snd s"
  "fst (set_connectors cs s) = (fst s)\<lparr>m_pconnectors := cs\<rparr>" "snd (set_connectors cs s) = snd s"
  by (simp_all add: set_status_def set_connectors_def)

lemma cb_fields [simp]:
  "epoch (load_cb m a) = load32 m (a + 20)" "input_id (load_cb m a) = load32 m (a + 24)"
  "output_id (load_cb m a) = load32 m (a + 28)"
  by (simp_all add: load_cb_def add.assoc)

lemma load_store_cb [simp]: "load_cb (store_cb a cb m) a = cb"
  by (simp add: load_cb_def store_cb_def load32_store32_other add.assoc)

section \<open>A bus that follows another\<close>

text \<open>
  One round of \<open>update_connectors\<close> when another process has added one connector: the local
  copy of the control block gets the shared epoch, and adding the connector then increments it.
\<close>

text \<open>The place of the body depends on the segment of the bus only.\<close>

definition places_body :: "('h, 'o, 'l, 'b) bus_layout \<Rightarrow> bool" where
  "places_body L \<longleftrightarrow> (\<forall>b b'. b_memory b = b_memory b' \<longrightarrow> bus_get_memory L b = bus_get_memory L b')"

lemma places_body [simp]:
  "places_body (simple_layout P cast C mk)" "places_body (safe_layout X (simple_layout P cast C mk))"
  by (simp_all add: places_body_def simple_layout_def safe_layout_def safe_bus_get_memory_def
    shared_bus_get_memory_def)

lemma shared_controlblock_cong:
  "places_body L \<Longrightarrow> b_memory (fst s) = b_memory b \<Longrightarrow> snd s = g
    \<Longrightarrow> get_shared_controlblock L s = get_shared_controlblock L (b, g)"
  unfolding places_body_def get_shared_controlblock_def by (metis fst_conv snd_conv)

lemma update_nothing:
  assumes "atomic_spec (atomics (penv (platform_of (layout B))))"
    and "epoch (get_shared_controlblock (layout B) s) = epoch (m_controlblock (fst s))"
  shows "update_connectors B s = returns (US_NONE, s)"
  using assms by (simp add: update_connectors_def is_updated_def atomic_cb_def atomic_specD Let_def)

lemma add_while_updating:
  assumes st: "m_status b \<noteq> US_NONE"
    and mk: "make_connector L (output_id (m_controlblock b) + 1) (b, g) = returns (Some c, b1, g1)"
  shows "shared_add_connector L (b, g) = returns (True,
      b\<lparr>m_pconnectors := c # m_pconnectors b, m_controlblock := (m_controlblock b)
        \<lparr>output_id := output_id (m_controlblock b) + 1, epoch := epoch (m_controlblock b) + 1\<rparr>\<rparr>, g1)"
proof -
  have "b1 = b" using make_connector_bus [OF mk] by simp
  then show ?thesis
    using st mk by (simp add: shared_add_connector_def base_add_connector_def status_controlblock
      put_controlblock_def Let_def set_connectors_def)
qed

lemma update_one_addition:
  fixes L :: "('h, 'o, 'l, 'b) bus_layout"
  assumes at: "atomic_spec (atomics (penv (platform_of L)))" and body: "places_body L"
    and B: "layout B = L" "v_add_connector B = shared_add_connector L"
    and st: "m_status b = US_NONE"
    and cb: "get_shared_controlblock L (b, g) = \<lparr>epoch = e, input_id = i, output_id = out + 1\<rparr>"
    and loc: "m_controlblock b = \<lparr>epoch = e0, input_id = i, output_id = out\<rparr>" "e0 \<noteq> e"
    and room: "out + 1 \<noteq> i"
    and mk: "make_connector L (out + 1)
        (b\<lparr>m_controlblock := \<lparr>epoch = e, input_id = i, output_id = out\<rparr>, m_status := US_OUTPUT\<rparr>, g)
      = returns (Some c, b1, g1)"
    and same: "get_shared_controlblock L (b, g1) = get_shared_controlblock L (b, g)"
  shows "update_connectors B (b, g) = returns (US_OUTPUT,
      b\<lparr>m_pconnectors := c # m_pconnectors b,
        m_controlblock := \<lparr>epoch = e + 1, input_id = i, output_id = out + 1\<rparr>\<rparr>, g1)"
proof -
  let ?b1 = "b\<lparr>m_controlblock := \<lparr>epoch = e, input_id = i, output_id = out\<rparr>\<rparr>"
  let ?b2 = "?b1\<lparr>m_status := US_OUTPUT\<rparr>"
  let ?b3 = "b\<lparr>m_pconnectors := c # m_pconnectors b,
    m_controlblock := \<lparr>epoch = e + 1, input_id = i, output_id = out + 1\<rparr>, m_status := US_OUTPUT\<rparr>"
  note cong = shared_controlblock_cong [OF body, of _ b]
  have upd: "is_updated L (b, g) = (True, ?b1, g)"
    using cb loc by (simp add: is_updated_def atomic_cb_def atomic_specD [OF at] Let_def)
  have out: "atomic_cb L output_id (?b1, g) = out + 1" "atomic_cb L input_id (?b3, g1) = i"
    using cong [of "(?b1, g)" g] cong [of "(?b3, g1)" g1] cb same
    by (simp_all add: atomic_cb_def atomic_specD [OF at])
  have "shared_add_connector L (?b2, g) = returns (True, ?b3, g1)"
    using add_while_updating [where b = ?b2 and L = L and g = g] mk by simp
  moreover have "can_add_connector L (?b2, g)"
    using room by (simp add: can_add_connector_def status_controlblock)
  ultimately have "catch_up B (out + 1) (?b2, g) = catch_up B (out + 1) (?b3, g1)"
    by (subst catch_up.simps) (simp add: B)
  also have "\<dots> = returns (True, ?b3, g1)"
    by (subst catch_up.simps) simp
  finally have "catch_up B (out + 1) (?b2, g) = returns (True, ?b3, g1)" .
  moreover have "?b3\<lparr>m_status := US_NONE\<rparr> = b\<lparr>m_pconnectors := c # m_pconnectors b,
      m_controlblock := \<lparr>epoch = e + 1, input_id = i, output_id = out + 1\<rparr>\<rparr>"
    using st by (cases b) simp
  ultimately show ?thesis
    using st by (simp add: update_connectors_def B upd out Let_def set_status_def rollback_def)
qed

section \<open>Identifiers\<close>

text \<open>The identifiers from \<open>i\<close> on, the last one first: the order of the list of connectors.\<close>

definition ids_down :: "id_type \<Rightarrow> nat \<Rightarrow> id_type list" where
  "ids_down i n = rev (map (\<lambda>k. i + of_nat k) [0..<n])"

lemma ids_down_Suc: "ids_down i (Suc n) = ids_down (i + 1) n @ [i]"
proof -
  have "map (\<lambda>k. i + of_nat k) [0..<Suc n] = i # map (\<lambda>k. i + 1 + of_nat k) [0..<n]"
    by (simp add: upt_conv_Cons map_Suc_upt [symmetric] comp_def add.assoc del: upt_Suc)
  then show ?thesis by (simp add: ids_down_def)
qed

lemma next_distance: "(out :: u32) \<noteq> cid \<Longrightarrow> unat (out - cid) = Suc (unat (out - (cid + 1)))"
proof -
  assume "out \<noteq> cid"
  then have "unat (out - cid) \<noteq> 0" by (simp add: unat_eq_zero)
  moreover have "out - (cid + 1) = out - cid - 1" by simp
  ultimately show ?thesis by (metis Suc_pred' measure_unat unat_minus_one unat_eq_zero not_gr_zero)
qed

section \<open>The body of a safe bus\<close>

lemma create_body_keeps:
  assumes "create_body L sp s = returns (True, b, g)"
  shows "b_memory b = b_memory (fst s)" "b_plocker b = b_plocker (fst s)"
proof -
  define b0 where "b0 = (fst s)\<lparr>m_controlblock := \<lparr>epoch = 0, input_id = 0, output_id = 0\<rparr>\<rparr>"
  obtain g0 c b1 where m: "make_connector L 0 (b0, g0) = returns (Some c, b1, g)"
    "b = b1\<lparr>m_pconnectors := c # m_pconnectors b1\<rparr>"
    using assms by (auto simp: create_body_def base_do_create_def Let_def and_then_eq_returns case_prod_unfold
      set_connectors_def b0_def split: option.splits if_split_asm)
  then show "b_memory b = b_memory (fst s)" "b_plocker b = b_plocker (fst s)"
    using make_connector_bus [OF m(1)] by (simp_all add: b0_def)
qed

text \<open>Under the mutex the operation is the same, on the same object.\<close>

lemma guard_immediate_hub:
  assumes "guard_immediate (hub_side S) s = returns (guard, b, g)"
  shows "guard \<and> b = fst s \<and> b_memory b \<noteq> None"
  using assms by (auto simp: guard_immediate_def guard_lock_def hub_side_def on_mutex_def and_then_eq_returns
    case_prod_unfold split: option.splits if_split_asm)

lemma guard_destroy_hub:
  assumes "guard_destroy (hub_side S) guard s = returns (b, g)"
  shows "b = fst s"
  using assms by (auto simp: guard_destroy_def hub_side_def on_mutex_def and_then_eq_returns
    case_prod_unfold split: option.splits if_split_asm)

lemma locked_hub_bus:
  assumes "locked_hub X body r0 s = returns (r, b, g)"
  shows "\<exists>g1 g2. body (fst s, g1) = returns (r, b, g2)"
proof -
  obtain guard b1 g1 r2 b2 g2 where h: "guard_immediate (hub_side (mutex_side X)) s = returns (guard, b1, g1)"
    "(if owns guard then body (b1, g1) else returns (r0, b1, g1)) = returns (r2, b2, g2)"
    "guard_destroy (hub_side (mutex_side X)) guard (b2, g2) = returns (b, g)" "r2 = r"
    using assms by (auto simp: locked_hub_def scope_def Let_def and_then_eq_returns)
  then show ?thesis
    using guard_immediate_hub [OF h(1)] guard_destroy_hub [OF h(3)] by (auto simp: owns_def)
qed

lemma locked_hub_unmapped:
  assumes "guard_immediate (hub_side (mutex_side X)) s = returns (True, b1, g1)"
    and "body (b1, g1) = returns (r, b2, g2)" and "b_memory b2 = None"
  shows "locked_hub X body r0 s = crashes Unmapped_memory"
  using assms by (simp add: locked_hub_def scope_def owns_def guard_destroy_def hub_side_def on_mutex_def)

lemma safe_bus_create_keeps:
  assumes "safe_bus_do_create X L sp s = returns (True, b, g)"
  shows "b_plocker b = Some (shared_bus_get_memory b + SPINLOCK_SIZE + COUNTER_SIZE)"
proof -
  obtain b1 g1 where m: "bus_create_memory L s = (True, b1, g1)"
    using assms by (cases "bus_create_memory L s") (auto simp: safe_bus_do_create_def split: if_split_asm)
  let ?a = "shared_bus_get_memory b1" and ?l = "shared_bus_get_memory b1 + SPINLOCK_SIZE + COUNTER_SIZE"
  define body where "body = (\<lambda>s3. and_then (create_body L sp s3) (\<lambda>(created, b4, g4).
      if created then
        returns (True, b4, spin_leave (platform_of L) ?a (mapmem (\<lambda>m. set_users ?a (users ?a m + 1) m) g4))
      else returns (False, b4, g4)))"
  have "\<exists>g1. locked_hub X body False (b1\<lparr>b_plocker := Some ?l\<rparr>, g1) = returns (True, b, g)"
    using assms by (auto simp: safe_bus_do_create_def m body_def Let_def)
  then obtain g2 g3 where "body (b1\<lparr>b_plocker := Some ?l\<rparr>, g2) = returns (True, b, g3)"
    using locked_hub_bus by fastforce
  then obtain g4 where "create_body L sp (b1\<lparr>b_plocker := Some ?l\<rparr>, g2) = returns (True, b, g4)"
    by (auto simp: body_def and_then_eq_returns split: if_split_asm)
  note keeps = create_body_keeps [OF this]
  show ?thesis using keeps by (simp add: shared_bus_get_memory_def)
qed

lemma locked_hub_mapped:
  assumes "guard_immediate (hub_side (mutex_side X)) s = returns (True, b1, g1)"
    and "body (b1, g1) = returns (r, b2, g2)" and "b_memory b2 \<noteq> None" and "b_plocker b2 = Some l"
    and "side_unlock (mutex_side X) (readings (wld g2), lockers g2 l) = returns il"
  shows "locked_hub X body r0 s = returns (r, b2, put_locker l il g2)"
  using assms
  by (simp add: locked_hub_def scope_def owns_def guard_destroy_def hub_side_def on_mutex_def locker_at_def)

lemma guard_enters:
  assumes "b_memory b \<noteq> None" and "b_plocker b = Some l" and "side_enters (mutex_side X) (lockers g l)"
  obtains l' where "guard_immediate (hub_side (mutex_side X)) (b, g)
      = returns (True, b, put_locker l (readings (wld g), l') g)"
    "\<And>j. side_unlock (mutex_side X) (j, l') = returns (j, lockers g l)"
proof -
  obtain l' where l': "side_lock (mutex_side X) (readings (wld g), lockers g l) = returns (readings (wld g), l')"
    "\<forall>j. side_unlock (mutex_side X) (j, l') = returns (j, lockers g l)"
    using assms(3) unfolding side_enters_def by blast
  show thesis
    by (rule that [of l'])
      (use assms l' in \<open>simp_all add: guard_immediate_def guard_lock_def hub_side_def on_mutex_def locker_at_def\<close>)
qed

section \<open>Connector classes for the witnesses\<close>

text \<open>Connectors that always open, and connectors that can be neither opened nor created.\<close>

definition ready_class :: "('h, 'o, 'l, 'b) platform \<Rightarrow> ('h, 'o, 'l, 'b) site vtable" where
  "ready_class P = (simple_connector P Simple_queue)
     \<lparr>v_open := (\<lambda>parent s. returns (True, s)), v_destroy := returns\<rparr>"

definition broken_class :: "('h, 'o, 'l, 'b) platform \<Rightarrow> ('h, 'o, 'l, 'b) site vtable" where
  "broken_class P = (simple_connector P Simple_queue)
     \<lparr>v_open := (\<lambda>parent s. returns (False, s)),
      v_create := (\<lambda>cid sz timeout parent s. returns (False, s)), v_destroy := returns\<rparr>"

definition sample_layout ::
  "((string, seg_table, shared_locker, unit) platform \<Rightarrow> (string, seg_table, shared_locker, unit) site vtable)
    \<Rightarrow> (string, seg_table, shared_locker, unit) bus_layout" where
  "sample_layout C = simple_layout sample_platform (\<lambda>i. [char_of (unat i mod 256)]) (C sample_platform)
     (\<lambda>n. new_connector n CON_BIDIR)"

definition sample_mutex :: "shared_locker mutex_class" where
  "sample_mutex = \<lparr>mutex_size = 40, new_mutex = new_shared_locker,
     mutex_side = scoped_side sample_clock (\<lambda>_ l. l)\<rparr>"

lemma ready_make:
  assumes "connector_class L = ready_class P" and "\<And>n. \<not> m_opened (connector_make L n)"
  shows "make_connector L cid s
     = returns (Some ((connector_make L (b_name (fst s) @ lexical_cast L cid))\<lparr>m_opened := True\<rparr>), s)"
  using assms by (simp add: make_connector_def ready_class_def connector_open_def Let_def)

lemma sample_layout_fields [simp]:
  "connector_class (sample_layout C) = C sample_platform" "\<not> m_opened (connector_make (sample_layout C) n)"
  "c_name (connector_make (sample_layout C) n) = n" "platform_of (sample_layout C) = sample_platform"
  "connector_class (safe_layout X L) = connector_class L" "connector_make (safe_layout X L) = connector_make L"
  "platform_of (safe_layout X L) = platform_of L" "bus_memory_size (safe_layout X L) = safe_bus_memory_size X"
  by (simp_all add: sample_layout_def simple_layout_def new_connector_def safe_layout_def)

definition big_class :: "('h, 'o, 'l, 'b) platform \<Rightarrow> ('h, 'o, 'l, 'b) site vtable" where
  "big_class P = (broken_class P)\<lparr>v_capacity := (\<lambda>s. returns 50000000)\<rparr>"

definition sample_bus :: "controlblock_type \<Rightarrow> string connector list \<Rightarrow> string bus" where
  "sample_bus cb cs = (new_bus ''bus'' cb)\<lparr>m_pconnectors := cs,
     b_memory := Some \<lparr>sm_name = ''bus'', m_pmemory = Some ''bus'', m_pregion = Some (1000, 32)\<rparr>\<rparr>"

definition sample_hub_globals ::
  "specification_type \<Rightarrow> controlblock_type \<Rightarrow> (seg_table, shared_locker, unit) globals" where
  "sample_hub_globals sp cb =
     \<lparr>sys = \<lparr>segments = Map.empty, next_address = 64\<rparr>,
      wld = \<lparr>mem = store_cb 1000 cb (store_spec 1000 sp (\<lambda>_. 0)), readings = 0\<rparr>,
      lockers = (\<lambda>_. new_shared_locker), barriers = (\<lambda>_. ())\<rparr>"

section \<open>Properties\<close>

text \<open>
  As long as the multiplication does not overflow, the capacity of a
  new connector is the old one grown by the factor of the specification, in percent, but between
  the two bounds; it is larger than the old one whenever the factor makes a difference.
\<close>

theorem new_capacity_bounds:
  assumes "unat old * (unat (capacity_factor sp) + 100) < 4294967296"
    and "unat (capacity_factor sp) + 100 < 4294967296" and "old < max_capacity sp"
  shows "unat (new_capacity sp old) = min (max (unat (min_capacity sp))
      (unat old * (unat (capacity_factor sp) + 100) div 100)) (unat (max_capacity sp))
    \<and> new_capacity sp old \<le> max_capacity sp
    \<and> (100 \<le> unat old * unat (capacity_factor sp) \<longrightarrow> old < new_capacity sp old)"
proof -
  let ?f = "unat (capacity_factor sp)"
  have new: "unat (new_capacity sp old)
      = min (max (unat (min_capacity sp)) (unat old * (?f + 100) div 100)) (unat (max_capacity sp))"
    using new_capacity_unat [OF assms(2)] assms(1) by simp
  have "unat old < unat old * (?f + 100) div 100" if "100 \<le> unat old * ?f"
  proof -
    have "(unat old + 1) * 100 \<le> unat old * (?f + 100)" using that by (simp add: algebra_simps)
    then show ?thesis using div_le_mono [of _ _ 100] by fastforce
  qed
  then show ?thesis
    using new assms(3) by (auto simp: word_less_nat_alt word_le_nat_alt)
qed

theorem new_capacity_bounds_witness:
  "unat (new_capacity \<lparr>spec_id = 1, spec_keepalive_timeout = 0, min_capacity = 100, max_capacity = 1000,
     capacity_factor = 50\<rparr> 100) = 150"
  using new_capacity_bounds [of 100 "\<lparr>spec_id = 1, spec_keepalive_timeout = 0, min_capacity = 100,
     max_capacity = 1000, capacity_factor = 50\<rparr>"] by simp

text \<open>
  C35. The multiplication is done in 32 bits. Once the front
  connector of a bus has a capacity of 42949673 bytes or more, no connector is ever added to it
  unless another process has created one, whatever maximum the specification allows.
\<close>

theorem growth_stops_at_overflow:
  fixes L :: "('h, 'o, 'l, 'b) bus_layout"
  assumes front: "m_pconnectors (fst s) = c # cs" and cap: "connector_capacity (connector_class L) (c, g1) = returns cap"
    and big: "42949673 \<le> unat cap" "unat cap < 4294967296"
    and low: "min_capacity (get_spec L (fst s, g1)) \<le> ucast cap"
    and factor: "unat (capacity_factor (get_spec L (fst s, g1))) + 100 < 4294967296"
    and closed: "connector_open (connector_class L) (m_pqueue c)
        (connector_make L (b_name (fst s) @ lexical_cast L (output_id (get_controlblock L s) + 1)), snd s)
      = returns (False, c1, g1)"
    and destroyed: "v_destroy (connector_class L) (c1, g1) = returns (c2, g2)"
  shows "base_add_connector L s = returns (False, fst s, g2)"
proof -
  let ?sp = "get_spec L (fst s, g1)" and ?old = "ucast cap :: u32"
  have old: "unat ?old = unat cap" using big by (simp add: unat_ucast_64_32)
  have "unat (new_capacity ?sp ?old) \<le> max (unat (min_capacity ?sp)) (4294967295 div 100)"
    unfolding new_capacity_unat [OF factor] by (auto simp: div_le_mono min_def max_def)
  also have "\<dots> \<le> unat ?old" using low big old by (simp add: word_le_nat_alt)
  finally have "\<not> ?old < new_capacity ?sp ?old" by (simp add: word_less_nat_alt)
  then have "make_connector L (output_id (get_controlblock L s) + 1) s = returns (None, fst s, g2)"
    using front cap closed destroyed
    by (simp add: make_connector_def drop_connector_def Let_def)
  then show ?thesis by (simp add: base_add_connector_def)
qed

theorem growth_stops_at_overflow_witness:
  "\<exists>s. max_capacity (get_spec (sample_layout big_class) s) = 4000000000
    \<and> base_add_connector (sample_layout big_class) s = returns (False, s)"
proof -
  define c where "c = (new_connector ''bus0'' CON_BIDIR :: string connector)\<lparr>m_opened := True\<rparr>"
  define cb where "cb = \<lparr>epoch = 0, input_id = 0, output_id = 0\<rparr>"
  define sp where "sp = \<lparr>spec_id = 1, spec_keepalive_timeout = 0, min_capacity = 1000000,
    max_capacity = 4000000000, capacity_factor = 50\<rparr>"
  let ?s = "(sample_bus cb [c], sample_hub_globals sp cb)"
  have sp: "get_spec (sample_layout big_class) ?s = sp"
    by (simp add: get_spec_def sample_layout_def simple_layout_def shared_bus_get_memory_def sample_bus_def
      sm_get_def sample_hub_globals_def load_spec_def store_spec_def store_cb_def load32_store32_other sp_def)
  have "base_add_connector (sample_layout big_class) ?s = returns (False, fst ?s, snd ?s)"
    by (rule growth_stops_at_overflow [where c = c and cs = "[]" and cap = 50000000])
      (use sp in \<open>simp_all add: sample_bus_def c_def connector_capacity_def sample_layout_def simple_layout_def
        big_class_def broken_class_def connector_open_def new_connector_def sp_def\<close>)
  then show ?thesis using sp by (intro exI [of _ ?s]) (simp add: sp_def)
qed

text \<open>
  C13. A bus that catches up with one connector added by another
  process leaves its own copy of the epoch one ahead of the shared one. When the other process
  then adds a second connector, the two epochs agree: the bus takes itself to be up to date
  although its newest connector is not the newest one, and changes nothing.
\<close>

theorem second_addition_missed:
  fixes L :: "('h, 'o, 'l, 'b) bus_layout"
  assumes "atomic_spec (atomics (penv (platform_of L)))" and "places_body L"
    and "layout B = L" "v_add_connector B = shared_add_connector L" and "m_status b = US_NONE"
    and "get_shared_controlblock L (b, g) = \<lparr>epoch = e, input_id = i, output_id = out + 1\<rparr>"
    and "m_controlblock b = \<lparr>epoch = e0, input_id = i, output_id = out\<rparr>" "e0 \<noteq> e" and "out + 1 \<noteq> i"
    and "make_connector L (out + 1)
        (b\<lparr>m_controlblock := \<lparr>epoch = e, input_id = i, output_id = out\<rparr>, m_status := US_OUTPUT\<rparr>, g)
      = returns (Some c, b1, g1)"
    and "get_shared_controlblock L (b, g1) = get_shared_controlblock L (b, g)"
    and later: "get_shared_controlblock L (b, g2) = \<lparr>epoch = e + 1, input_id = i, output_id = out + 2\<rparr>"
  shows "\<exists>b'. update_connectors B (b, g) = returns (US_OUTPUT, b', g1)
    \<and> m_pconnectors b' = c # m_pconnectors b \<and> output_id (m_controlblock b') = out + 1
    \<and> output_id (get_shared_controlblock L (b', g2)) = out + 2
    \<and> update_connectors B (b', g2) = returns (US_NONE, b', g2)"
proof -
  let ?b' = "b\<lparr>m_pconnectors := c # m_pconnectors b,
    m_controlblock := \<lparr>epoch = e + 1, input_id = i, output_id = out + 1\<rparr>\<rparr>"
  have first: "update_connectors B (b, g) = returns (US_OUTPUT, ?b', g1)"
    by (rule update_one_addition [OF assms(1-11)])
  have shared: "get_shared_controlblock L (?b', g2) = \<lparr>epoch = e + 1, input_id = i, output_id = out + 2\<rparr>"
    using shared_controlblock_cong [OF assms(2), of "(?b', g2)" b g2] later by simp
  then have "update_connectors B (?b', g2) = returns (US_NONE, ?b', g2)"
    by (intro update_nothing) (simp_all add: assms(1,3))
  with first shared show ?thesis by auto
qed

lemma sample_shared_controlblock:
  "get_shared_controlblock (sample_layout C) (sample_bus cb0 cs, sample_hub_globals sp cb) = cb"
  by (simp add: get_shared_controlblock_def sample_layout_def simple_layout_def shared_bus_get_memory_def
    sample_bus_def sm_get_def sample_hub_globals_def)

theorem second_addition_missed_witness:
  "\<exists>(B :: (string, seg_table, shared_locker, unit) bus_class) b b' c g1 g2.
    update_connectors B (b, g1) = returns (US_OUTPUT, b', g1)
    \<and> m_pconnectors b' = [c] \<and> output_id (m_controlblock b') = 1
    \<and> output_id (get_shared_controlblock (layout B) (b', g2)) = 2
    \<and> update_connectors B (b', g2) = returns (US_NONE, b', g2)"
proof -
  define L where "L = sample_layout ready_class"
  define B where "B = \<lparr>layout = L, v_add_connector = shared_add_connector L,
    v_remove_connector = shared_remove_connector L\<rparr>"
  define sp where "sp = \<lparr>spec_id = 1, spec_keepalive_timeout = 0, min_capacity = 100,
    max_capacity = 1000, capacity_factor = 50\<rparr>"
  define b where "b = sample_bus \<lparr>epoch = 0, input_id = 0, output_id = 0\<rparr> []"
  define g1 where "g1 = sample_hub_globals sp \<lparr>epoch = 1, input_id = 0, output_id = 0 + 1\<rparr>"
  define g2 where "g2 = sample_hub_globals sp \<lparr>epoch = 1 + 1, input_id = 0, output_id = 0 + 2\<rparr>"
  have L: "atomic_spec (atomics (penv (platform_of L)))" "places_body L"
    using sample_env_ok [unfolded env_ok_def] by (simp_all add: L_def sample_layout_def) (simp add: simple_layout_def)
  have b: "m_status b = US_NONE" "m_controlblock b = \<lparr>epoch = 0, input_id = 0, output_id = 0\<rparr>"
    "m_pconnectors b = []" by (simp_all add: b_def sample_bus_def new_bus_def)
  have g: "get_shared_controlblock L (b, g1) = \<lparr>epoch = 1, input_id = 0, output_id = 0 + 1\<rparr>"
    "get_shared_controlblock L (b, g2) = \<lparr>epoch = 1 + 1, input_id = 0, output_id = 0 + 2\<rparr>"
    unfolding L_def b_def g1_def g2_def by (rule sample_shared_controlblock)+
  have B: "layout B = L" "v_add_connector B = shared_add_connector L" by (simp_all add: B_def)
  have "\<exists>c b1. make_connector L (0 + 1) (b\<lparr>m_controlblock := \<lparr>epoch = 1, input_id = 0, output_id = 0\<rparr>,
      m_status := US_OUTPUT\<rparr>, g1) = returns (Some c, b1, g1)"
    unfolding L_def by (subst ready_make [where P = sample_platform]) simp_all
  then obtain c b1 where "make_connector L (0 + 1) (b\<lparr>m_controlblock := \<lparr>epoch = 1, input_id = 0, output_id = 0\<rparr>,
      m_status := US_OUTPUT\<rparr>, g1) = returns (Some c, b1, g1)" by blast
  from second_addition_missed [OF L B b(1) g(1) b(2) _ _ this refl g(2)] b(3) B(1)
  show ?thesis by simp blast
qed

text \<open>
  C37. After a successful creation of a safe bus the body starts in
  the last four bytes of the mutex that protects it: \<open>get_memory\<close> leaves out the size of the
  spinlock that the creation puts first. The body still ends where the segment ends.
\<close>

theorem safe_bus_body_overlaps:
  assumes "safe_bus_do_create X (safe_layout X L) sp s = returns (True, b, g)"
    and "4 \<le> mutex_size X" and "mutex_size X < 4294967296"
  shows "\<exists>l. b_plocker b = Some l \<and> l = shared_bus_get_memory b + SPINLOCK_SIZE + COUNTER_SIZE
    \<and> {l..<l + mutex_size X} \<inter> {bus_get_memory (safe_layout X L) b..<bus_get_memory (safe_layout X L) b + BODY_SIZE}
      = {l + mutex_size X - 4..<l + mutex_size X}
    \<and> bus_get_memory (safe_layout X L) b + BODY_SIZE
      = shared_bus_get_memory b + unat (bus_memory_size (safe_layout X L))"
proof -
  obtain l where l: "b_plocker b = Some l" "l = shared_bus_get_memory b + SPINLOCK_SIZE + COUNTER_SIZE"
    using safe_bus_create_keeps [OF assms(1)] by blast
  have "unat (safe_bus_memory_size X) = 36 + mutex_size X"
    using assms(3) unat_of_nat_u64 [of "36 + mutex_size X"] by (simp add: safe_bus_memory_size_def)
  then show ?thesis
    using l assms(2) by (auto simp: safe_layout_def safe_bus_get_memory_def)
qed

lemma sample_create_memory:
  "\<exists>M g. bus_create_memory (safe_layout sample_mutex (sample_layout C)) (new_bus ''bus'' cb, sample_globals)
    = (True, (new_bus ''bus'' cb)\<lparr>b_memory := Some M\<rparr>, g)"
  using sm_create_fresh [OF table_api_spec, of "new_shared_memory ''bus''" "sys sample_globals" "safe_bus_memory_size sample_mutex" "gmem sample_globals"]
  by (auto simp: bus_create_memory_def free_memory_def new_bus_def new_shared_memory_def sample_globals_def)

theorem safe_bus_body_overlaps_witness:
  "\<exists>b g l. safe_bus_do_create sample_mutex (safe_layout sample_mutex (sample_layout ready_class))
      \<lparr>spec_id = 1, spec_keepalive_timeout = 0, min_capacity = 100, max_capacity = 1000, capacity_factor = 50\<rparr>
      (new_bus ''bus'' \<lparr>epoch = 0, input_id = 0, output_id = 0\<rparr>, sample_globals) = returns (True, b, g)
    \<and> b_plocker b = Some l
    \<and> {l..<l + 40} \<inter> {bus_get_memory (safe_layout sample_mutex (sample_layout ready_class)) b
         ..<bus_get_memory (safe_layout sample_mutex (sample_layout ready_class)) b + 32} = {l + 36..<l + 40}"
proof -
  define sp where "sp = \<lparr>spec_id = 1, spec_keepalive_timeout = 0, min_capacity = 100, max_capacity = 1000,
    capacity_factor = 50\<rparr>"
  define s where "s = (new_bus ''bus'' \<lparr>epoch = 0, input_id = 0, output_id = 0\<rparr> :: string bus, sample_globals)"
  define L where "L = safe_layout sample_mutex (sample_layout ready_class)"
  obtain b1 g1 where m: "bus_create_memory L s = (True, b1, g1)" "b_memory b1 \<noteq> None"
    using sample_create_memory [of ready_class] unfolding L_def s_def by fastforce
  have ready: "make_connector L cid s' = returns (Some ((connector_make L (b_name (fst s') @ lexical_cast L cid))
      \<lparr>m_opened := True\<rparr>), s')" for cid s'
    by (rule ready_make [where P = sample_platform]) (simp_all add: L_def)
  have X: "mutex_side sample_mutex = scoped_side sample_clock (\<lambda>_ l. l)" "new_mutex sample_mutex = new_shared_locker"
    "mutex_size sample_mutex = 40"
    by (simp_all add: sample_mutex_def)
  let ?a = "shared_bus_get_memory b1" and ?l = "shared_bus_get_memory b1 + SPINLOCK_SIZE + COUNTER_SIZE"
  define body where "body = (\<lambda>s3. and_then (create_body L sp s3) (\<lambda>(created, b4, g4).
      if created then
        returns (True, b4, spin_leave (platform_of L) ?a (mapmem (\<lambda>m. set_users ?a (users ?a m + 1) m) g4))
      else returns (False, b4, g4)))"
  let ?b2 = "b1\<lparr>b_plocker := Some ?l\<rparr>"
  define g2 where "g2 = g1\<lparr>lockers := (lockers g1)(?l := new_mutex sample_mutex)\<rparr>"
  have enters: "side_enters (mutex_side sample_mutex) (lockers g2 ?l)" "lockers g2 ?l = new_shared_locker"
    unfolding X using scoped_side_enters by (simp_all add: g2_def X(2))
  obtain l' where l': "guard_immediate (hub_side (mutex_side sample_mutex)) (?b2, g2)
      = returns (True, ?b2, put_locker ?l (readings (wld g2), l') g2)"
    "\<And>j. side_unlock (mutex_side sample_mutex) (j, l') = returns (j, new_shared_locker)"
    by (rule guard_enters [where X = sample_mutex and b = ?b2 and l = ?l and g = g2])
      (use m(2) enters in simp_all)
  have "\<exists>b4 g4. body (?b2, g) = returns (True, b4, g4) \<and> b_memory b4 = b_memory b1
      \<and> b_plocker b4 = Some ?l \<and> lockers g4 = lockers g" for g
    by (auto simp: body_def create_body_def base_do_create_def ready Let_def set_connectors_def spin_leave_def)
  from this [of "put_locker ?l (readings (wld g2), l') g2"] obtain b4 g4 where
    b4: "body (?b2, put_locker ?l (readings (wld g2), l') g2) = returns (True, b4, g4)"
      "b_memory b4 = b_memory b1" "b_plocker b4 = Some ?l" "lockers g4 ?l = l'"
    by (auto simp: put_locker_def)
  have "side_unlock (mutex_side sample_mutex) (readings (wld g4), lockers g4 ?l)
      = returns (readings (wld g4), new_shared_locker)"
    unfolding b4(4) by (rule l'(2))
  from locked_hub_mapped [where body = body, OF l'(1) b4(1) _ b4(3) this] m(2) b4(2)
  have "locked_hub sample_mutex body False (?b2, g2)
      = returns (True, b4, put_locker ?l (readings (wld g4), new_shared_locker) g4)" by simp
  then obtain b g where c: "safe_bus_do_create sample_mutex L sp s = returns (True, b, g)"
    by (simp add: safe_bus_do_create_def m(1) body_def Let_def g2_def)
  from safe_bus_body_overlaps [OF c [unfolded L_def]] show ?thesis
    using c by (fastforce simp: X L_def s_def sp_def)
qed

text \<open>
  When the first connector of a safe bus can be neither
  opened nor created, \<open>create_body\<close> frees the segment of the bus while \<open>do_create\<close> still holds
  the mutex that lies in it: the unlocking touches unmapped memory.
\<close>

lemma failed_safe_create_is_unmapped:
  assumes "bus_create_memory L s = (True, b1, g1)"
    and "side_enters (mutex_side X) (new_mutex X)"
    and "\<And>b g. b_name b = b_name (fst s) \<Longrightarrow> m_pconnectors b = m_pconnectors (fst s)
      \<Longrightarrow> \<exists>g2. make_connector L 0 (b, g) = returns (None, b, g2)"
  shows "safe_bus_do_create X L sp s = crashes Unmapped_memory"
proof -
  let ?a = "shared_bus_get_memory b1" and ?l = "shared_bus_get_memory b1 + SPINLOCK_SIZE + COUNTER_SIZE"
  define body where "body = (\<lambda>s3. and_then (create_body L sp s3) (\<lambda>(created, b4, g4).
      if created then
        returns (True, b4, spin_leave (platform_of L) ?a (mapmem (\<lambda>m. set_users ?a (users ?a m + 1) m) g4))
      else returns (False, b4, g4)))"
  let ?s2 = "(b1\<lparr>b_plocker := Some ?l\<rparr>, g1\<lparr>lockers := (lockers g1)(?l := new_mutex X)\<rparr>)"
  have b1: "b_memory b1 \<noteq> None" "b_name b1 = b_name (fst s)" "m_pconnectors b1 = m_pconnectors (fst s)"
    using assms(1) by (auto simp: bus_create_memory_def free_memory_def split: prod.splits option.splits)
  obtain g2 where "guard_immediate (hub_side (mutex_side X)) ?s2 = returns (True, b1\<lparr>b_plocker := Some ?l\<rparr>, g2)"
    by (rule guard_enters [where X = X and b = "b1\<lparr>b_plocker := Some ?l\<rparr>" and l = ?l and g = "snd ?s2"])
      (use b1(1) assms(2) in simp_all)
  moreover obtain b3 g3 where "body (b1\<lparr>b_plocker := Some ?l\<rparr>, g2) = returns (False, b3, g3)" "b_memory b3 = None"
  proof -
    let ?b = "b1\<lparr>b_plocker := Some ?l, m_controlblock := \<lparr>epoch = 0, input_id = 0, output_id = 0\<rparr>\<rparr>"
    obtain M where M: "b_memory b1 = Some M" using b1(1) by blast
    have "\<exists>g3. base_do_create L (?b, g) = returns (False, ?b, g3)" for g
      using assms(3) [of ?b g] b1(2,3) by (auto simp: base_do_create_def)
    from this [of "mapmem (\<lambda>m. store_cb (bus_get_memory L (b1\<lparr>b_plocker := Some ?l\<rparr>))
        \<lparr>epoch = 0, input_id = 0, output_id = 0\<rparr> (store_spec (bus_get_memory L (b1\<lparr>b_plocker := Some ?l\<rparr>)) sp m)) g2"]
    have "\<exists>g3. create_body L sp (b1\<lparr>b_plocker := Some ?l\<rparr>, g2) = returns (False, ?b\<lparr>b_memory := None\<rparr>, g3)"
      by (auto simp: create_body_def Let_def free_memory_def M)
    then show thesis by (auto simp: body_def intro: that)
  qed
  ultimately have "locked_hub X body False ?s2 = crashes Unmapped_memory"
    by (rule locked_hub_unmapped [where body = body])
  then show ?thesis by (simp add: safe_bus_do_create_def assms(1) body_def Let_def)
qed

end
