(* ===== verification/Multi_Connector.thy ===== *)
theory Multi_Connector
  imports Connector_Contract Shared_Queue
begin

text \<open>
  The timed operations of the multi connectors, \<open>safe_connector\<close> over \<open>shared_queue\<close> with
  \<open>shared_locker\<close> and \<open>shared_barrier\<close>: they return once their deadline has passed, whatever
  the other processes do to the lock and the barrier, and move the messages of their subscriber
  as the queue does.
\<close>

section \<open>Waiting for a lock\<close>

text \<open>
  A side whose timed lock returns from every state of the lock, and whose unlock then succeeds.
\<close>

definition side_timely :: "(nat \<times> 'l) side \<Rightarrow> bool" where
  "side_timely S \<longleftrightarrow> (\<forall>timeout i l. \<exists>b i' l'. side_timed S timeout (i, l) = returns (b, i', l') \<and> i \<le> i'
     \<and> (b \<longrightarrow> (\<exists>l2. \<forall>j. side_unlock S (j, l') = returns (j, l2))))"

lemma spinlocker_timely:
  assumes "clock_live clk" and "clock_runs clk" and "keeps_booking others"
  shows "side_timely (scoped_side clk others)" "side_timely (sharable_side clk others)"
proof -
  show "side_timely (scoped_side clk others)"
    unfolding side_timely_def
  proof (intro allI)
    fix timeout i l
    show "\<exists>b i' l'. side_timed (scoped_side clk others) timeout (i, l) = returns (b, i', l') \<and> i \<le> i'
        \<and> (b \<longrightarrow> (\<exists>l2. \<forall>j. side_unlock (scoped_side clk others) (j, l') = returns (j, l2)))"
      using timed_lock_returns [OF assms, of timeout i l]
      by (fastforce simp: scoped_side_def unlock_def)
  qed
  show "side_timely (sharable_side clk others)"
    unfolding side_timely_def
  proof (intro allI)
    fix timeout i l
    show "\<exists>b i' l'. side_timed (sharable_side clk others) timeout (i, l) = returns (b, i', l') \<and> i \<le> i'
        \<and> (b \<longrightarrow> (\<exists>l2. \<forall>j. side_unlock (sharable_side clk others) (j, l') = returns (j, l2)))"
      using timed_lock_sharable_returns [OF assms(1,2), of others timeout i l]
      by (fastforce simp: sharable_side_def unlock_sharable_def)
  qed
qed

text \<open>The timed guard of a site, and a scope that begins with it.\<close>

definition relocked :: "nat \<Rightarrow> (nat \<Rightarrow> 'l) \<Rightarrow> ('h, 'o, 'l, 'b) site \<Rightarrow> ('h, 'o, 'l, 'b) site" where
  "relocked i ls s = with_lockers ls (at_reading i s)"

lemma relocked_simps [simp]:
  "fst (relocked i ls s) = fst s" "lockers (snd (relocked i ls s)) = ls"
  "clock_calls (relocked i ls s) = i" "mem (wld (snd (relocked i ls s))) = mem (wld (snd s))"
  "barriers (snd (relocked i ls s)) = barriers (snd s)"
  by (simp_all add: relocked_def with_lockers_def at_reading_def)

lemma with_lockers_relocked: "with_lockers ls s = relocked (clock_calls s) ls s"
  by (simp add: relocked_def at_reading_def)

lemma timed_guard_cases:
  assumes "m_plocker (fst s) = Some a" and "side_timely S"
  obtains b i ls where "guard_timed (site_side S) timeout s = returns (b, relocked i ls s)"
    "clock_calls s \<le> i" "b \<longrightarrow> (\<exists>l2. \<forall>j. side_unlock S (j, ls a) = returns (j, l2))"
proof -
  obtain b i' l' where t: "side_timed S timeout (clock_calls s, lockers (snd s) a) = returns (b, i', l')"
    "clock_calls s \<le> i'" "b \<longrightarrow> (\<exists>l2. \<forall>j. side_unlock S (j, l') = returns (j, l2))"
    using assms(2) unfolding side_timely_def by blast
  have "guard_timed (site_side S) timeout s = returns (b, relocked i' ((lockers (snd s))(a := l')) s)"
    using t(1) assms(1)
    by (simp add: guard_timed_def site_side_def on_locker_def locker_at_def put_locker_def relocked_def
      with_lockers_def at_reading_def)
  with t(2,3) that show thesis by auto
qed

lemma site_unlock:
  assumes "m_plocker (fst s) = Some a" and "\<forall>j. side_unlock S (j, lockers (snd s) a) = returns (j, l2)"
  shows "side_unlock (site_side S) s = returns (with_lockers ((lockers (snd s))(a := l2)) s)"
  using assms by (simp add: site_side_def on_locker_def locker_at_def put_locker_def with_lockers_def)

lemma site_release:
  assumes "m_plocker (fst s) = Some a" and "g \<Longrightarrow> \<forall>j. side_unlock S (j, lockers (snd s) a) = returns (j, l2)"
  shows "\<exists>ls. guard_destroy (site_side S) g s = returns (with_lockers ls s)"
proof (cases g)
  case True
  then show ?thesis
    using site_unlock [OF assms(1), of S l2] assms(2)
    by (auto simp: guard_destroy_def returns_def crashes_def)
next
  case False
  then have "guard_destroy (site_side S) g s = returns (with_lockers (lockers (snd s)) s)"
    by (simp add: guard_destroy_def)
  then show ?thesis by blast
qed

text \<open>
  A timed scope keeps what its body keeps; its result comes from the body, or the lock has not
  been acquired.
\<close>

lemma timed_scope_returns:
  assumes a: "m_plocker (fst s) = Some a" and S: "side_timely S" and I: "I s" and none: "\<not> ok r"
    and tick: "\<And>s i ls. I s \<Longrightarrow> I (relocked i ls s)"
    and body: "\<And>s. I s \<Longrightarrow> \<exists>r s'. body s = returns (r, s') \<and> clock_calls s \<le> clock_calls s'
      \<and> lockers (snd s') = lockers (snd s) \<and> m_plocker (fst s') = m_plocker (fst s)
      \<and> (if ok r then Q r s' else I s')"
    and Q: "\<And>r s ls. Q r s \<Longrightarrow> Q r (with_lockers ls s)"
  shows "\<exists>r' s'. scope (site_side S) (guard_timed (site_side S) timeout s) body r = returns (r', s')
    \<and> clock_calls s \<le> clock_calls s' \<and> (if ok r' then Q r' s' else I s')"
proof -
  have keep: "I (with_lockers ls s')" if "I s'" for s' ls
    unfolding with_lockers_relocked by (rule tick [OF that])
  obtain b i ls where g: "guard_timed (site_side S) timeout s = returns (b, relocked i ls s)"
    "clock_calls s \<le> i" "b \<longrightarrow> (\<exists>l2. \<forall>j. side_unlock S (j, ls a) = returns (j, l2))"
    by (rule timed_guard_cases [OF a S, where timeout = timeout])
  show ?thesis
  proof (cases b)
    case False
    then show ?thesis
      using g(1,2) tick [OF I] none by (simp add: scope_def owns_def guard_destroy_def)
  next
    case True
    obtain l2 where l2: "\<forall>j. side_unlock S (j, ls a) = returns (j, l2)" using g(3) True by blast
    obtain r' s1 where s1: "body (relocked i ls s) = returns (r', s1)" "i \<le> clock_calls s1"
      "lockers (snd s1) = ls" "m_plocker (fst s1) = Some a" "if ok r' then Q r' s1 else I s1"
      using body [OF tick [OF I]] a by fastforce
    obtain ls' where "guard_destroy (site_side S) True s1 = returns (with_lockers ls' s1)"
      using site_release [OF s1(4), of True S l2] l2 s1(3) by blast
    then have "scope (site_side S) (guard_timed (site_side S) timeout s) body r
        = returns (r', with_lockers ls' s1)"
      using g(1) True s1(1) by (simp add: scope_def owns_def)
    moreover have "clock_calls (with_lockers ls' s1) = clock_calls s1" by (simp add: with_lockers_def)
    ultimately show ?thesis using keep [of s1] s1(2,5) g(2) Q by (auto split: if_splits)
  qed
qed

text \<open>One round of a timed operation: the clock, and a timed scope.\<close>

definition timed_round ::
  "('h, 'o, 'l, 'b) platform \<Rightarrow> (nat \<times> 'l) side
    \<Rightarrow> (('h, 'o, 'l, 'b) site \<Rightarrow> ('r \<times> ('h, 'o, 'l, 'b) site) run) \<Rightarrow> 'r \<Rightarrow> timespec
    \<Rightarrow> ('h, 'o, 'l, 'b) site \<Rightarrow> ('r \<times> ('h, 'o, 'l, 'b) site) run" where
  "timed_round P S body r ts s =
     and_then (now P s) (\<lambda>(t, s1). scope (site_side S) (guard_timed (site_side S) (ts - t) s1) body r)"

lemma timed_round_returns:
  assumes live: "clock_live (clock (penv P))" and S: "side_timely S" and I: "I s" and none: "\<not> ok r"
    and a: "\<And>s. I s \<Longrightarrow> m_plocker (fst s) \<noteq> None"
    and tick: "\<And>s i ls. I s \<Longrightarrow> I (relocked i ls s)"
    and body: "\<And>s. I s \<Longrightarrow> \<exists>r s'. body s = returns (r, s') \<and> clock_calls s \<le> clock_calls s'
      \<and> lockers (snd s') = lockers (snd s) \<and> m_plocker (fst s') = m_plocker (fst s)
      \<and> (if ok r then Q r s' else I s')"
    and Q: "\<And>r s ls. Q r s \<Longrightarrow> Q r (with_lockers ls s)"
  shows "\<exists>r' s'. timed_round P S body r ts s = returns (r', s') \<and> clock_calls s \<le> clock_calls s'
    \<and> (if ok r' then Q r' s' else I s')"
proof -
  obtain t j where t: "now P s = returns (t, at_reading (Suc j) s)" "clock_calls s \<le> j"
    by (rule now_cases [OF live])
  let ?s = "at_reading (Suc j) s"
  have "with_lockers (lockers (snd ?s)) ?s = relocked (Suc j) (lockers (snd s)) s"
    by (simp add: relocked_def at_reading_def)
  then have s1: "I ?s" using tick [OF I, of "Suc j" "lockers (snd s)"] by simp
  obtain l where l: "m_plocker (fst ?s) = Some l" using a [OF s1] by blast
  have "\<exists>r' s'. scope (site_side S) (guard_timed (site_side S) (ts - t) ?s) body r = returns (r', s')
      \<and> clock_calls ?s \<le> clock_calls s' \<and> (if ok r' then Q r' s' else I s')"
    by (rule timed_scope_returns [where I = I and ok = ok and Q = Q, OF l S s1 none tick body Q])
  moreover have "clock_calls s \<le> clock_calls ?s" using t(2) by (simp add: at_reading_def)
  ultimately show ?thesis using t(1) by (fastforce simp: timed_round_def)
qed

section \<open>Knocking\<close>

text \<open>The others pass on: sooner or later the processes that have been let in have left.\<close>

fun yielded :: "'s others \<Rightarrow> nat \<Rightarrow> nat \<Rightarrow> 's \<Rightarrow> 's" where
  "yielded others k 0 b = b"
| "yielded others k (Suc n) b = yielded others (k + 1) n (others k b)"

definition passes_on :: "'x barrier others \<Rightarrow> bool" where
  "passes_on others \<longleftrightarrow> (\<forall>k b. \<exists>n. m_counter2 (yielded others k n b) = 0)"

lemma knock_returns:
  assumes "passes_on others"
  shows "\<exists>b'. knock others k b = Some b'"
proof -
  have "\<exists>b'. knock others k b = Some b'" if "m_counter2 (yielded others k n b) = 0" for n k b
    using that
  proof (induction n arbitrary: k b)
    case 0
    then show ?case by (subst knock.simps) (simp add: knock_may_pass_def)
  next
    case (Suc n)
    then show ?case by (subst knock.simps) simp
  qed
  with assms show ?thesis unfolding passes_on_def by blast
qed

section \<open>A multi connector\<close>

text \<open>
  An open multi connector of the subscriber \<open>r\<close> of the shared queue behind \<open>ptr\<close>, in whatever
  state its lock and its barrier are.
\<close>

definition multi_holds ::
  "('h, 'o, 'l, 'b) platform \<Rightarrow> nat \<Rightarrow> nat \<Rightarrow> ('h, 'o, 'l, 'b) site \<Rightarrow> multicast \<Rightarrow> bool" where
  "multi_holds P ptr r s c \<longleftrightarrow> m_opened (fst s) \<and> m_plocker (fst s) \<noteq> None \<and> m_pbarrier (fst s) \<noteq> None
     \<and> r \<in> mc_subs c
     \<and> (\<exists>rs. m_pqueue (fst s) = Some (rs r) \<and> group_holds (penv P) ptr (wld (snd s), rs) c)"

lemma multi_update:
  assumes "multi_holds P ptr r s c" and "group_holds (penv P) ptr (w1, rs) c'" and "mc_subs c' = mc_subs c"
  shows "multi_holds P ptr r ((fst s)\<lparr>m_pqueue := Some (rs r)\<rparr>, (snd s)\<lparr>wld := w1\<rparr>) c'"
  using assms by (auto simp: multi_holds_def)

lemma multi_relocked: "multi_holds P ptr r s c \<Longrightarrow> multi_holds P ptr r (relocked i ls s) c"
  by (auto simp: multi_holds_def group_holds_def relocked_def with_lockers_def at_reading_def)

lemma multi_reading: "multi_holds P ptr r s c \<Longrightarrow> multi_holds P ptr r (at_reading i s) c"
  by (auto simp: multi_holds_def group_holds_def at_reading_def)

lemma multi_barriers:
  "multi_holds P ptr r s c \<Longrightarrow> multi_holds P ptr r (fst s, (snd s)\<lparr>barriers := bs\<rparr>) c"
  by (auto simp: multi_holds_def)

text \<open>An operation of the queue below as one of the connector.\<close>

definition requeued :: "queue \<Rightarrow> world \<Rightarrow> ('h, 'o, 'l, 'b) site \<Rightarrow> ('h, 'o, 'l, 'b) site" where
  "requeued q w s = ((fst s)\<lparr>m_pqueue := Some q\<rparr>, (snd s)\<lparr>wld := w\<rparr>)"

lemma requeued_simps [simp]:
  "lockers (snd (requeued q w s)) = lockers (snd s)" "barriers (snd (requeued q w s)) = barriers (snd s)"
  "m_plocker (fst (requeued q w s)) = m_plocker (fst s)" "m_pbarrier (fst (requeued q w s)) = m_pbarrier (fst s)"
  "wld (snd (requeued q w s)) = w" "may_push (fst (requeued q w s)) = may_push (fst s)"
  "may_get (fst (requeued q w s)) = may_get (fst s)"
  by (simp_all add: requeued_def may_push_def may_get_def)

lemma multi_push:
  assumes h: "multi_holds P ptr r s c" and ne: "data \<noteq> []"
  shows "\<exists>b q w c'. simple_connector_push P tag data s = returns (b, requeued q w s)
    \<and> multi_holds P ptr r (requeued q w s) c' \<and> clock_calls s \<le> readings w
    \<and> unread c' r = unread c r @ (if b then [(tag, data)] else [])"
proof -
  obtain rs where rs: "m_pqueue (fst s) = Some (rs r)" "group_holds (penv P) ptr (wld (snd s), rs) c"
    and r: "r \<in> mc_subs c" using h by (auto simp: multi_holds_def)
  obtain s' where e: "group_enq (penv P) r (tag, data) (wld (snd s), rs)
      = returns (fst (mc_push (tag, data) c), s')" "group_holds (penv P) ptr s' (snd (mc_push (tag, data) c))"
    using group_enq_law [OF rs(2) r, of "(tag, data)"] ne by auto
  obtain w1 q1 where p: "push (penv P) (wld (snd s)) (rs r) tag data
      = returns (fst (mc_push (tag, data) c), w1, q1)" "s' = (w1, rs(r := q1))"
    using e(1) by (auto simp: group_enq_def and_then_eq_returns)
  note u = mc_push_unread [OF group_holds_ok [OF rs(2)] prod.collapse [symmetric], where x = "(tag, data)"]
  have "simple_connector_push P tag data s = returns (fst (mc_push (tag, data) c), requeued q1 w1 s)"
    using rs(1) p(1) by (simp add: simple_connector_push_def with_queue_def requeued_def)
  moreover have "clock_calls s \<le> readings w1"
    using push_forward [of "wld (snd s)" "penv P" "rs r" tag data] p(1) by (simp add: every_result_def)
  moreover have "multi_holds P ptr r (requeued q1 w1 s) (snd (mc_push (tag, data) c))"
    using multi_update [OF h, of w1 "rs(r := q1)"] e(2) p(2) u(2) by (simp add: requeued_def)
  ultimately show ?thesis using u(3) [OF r] by blast
qed

lemma multi_get:
  assumes h: "multi_holds P ptr r s c"
  shows "\<exists>ps q m. simple_connector_get P s = returns (ps, requeued q ((wld (snd s))\<lparr>mem := m\<rparr>) s)
    \<and> multi_holds P ptr r (requeued q ((wld (snd s))\<lparr>mem := m\<rparr>) s) c \<and> read_message m ps = mc_get r c"
proof -
  obtain rs where rs: "m_pqueue (fst s) = Some (rs r)" "group_holds (penv P) ptr (wld (snd s), rs) c"
    and r: "r \<in> mc_subs c" using h by (auto simp: multi_holds_def)
  obtain s' where e: "group_front (penv P) r (wld (snd s), rs) = returns (mc_get r c, s')"
    "group_holds (penv P) ptr s' c"
    using group_front_law [OF rs(2) r] by blast
  obtain ps m1 q1 where g: "get (penv P) (mem (wld (snd s))) (rs r) = returns (ps, m1, q1)"
    "read_message m1 ps = mc_get r c" "s' = ((wld (snd s))\<lparr>mem := m1\<rparr>, rs(r := q1))"
    using e(1) by (auto simp: group_front_def and_then_eq_returns)
  have "simple_connector_get P s = returns (ps, requeued q1 ((wld (snd s))\<lparr>mem := m1\<rparr>) s)"
    using rs(1) g(1) by (simp add: simple_connector_get_def with_queue_def requeued_def)
  moreover have "multi_holds P ptr r (requeued q1 ((wld (snd s))\<lparr>mem := m1\<rparr>) s) c"
    using multi_update [OF h, of _ "rs(r := q1)" c] e(2) g(3) by (simp add: requeued_def)
  ultimately show ?thesis using g(2) by blast
qed

lemma multi_pop:
  assumes h: "multi_holds P ptr r s c"
  shows "\<exists>b q m c'. simple_connector_pop P s = returns (b, requeued q ((wld (snd s))\<lparr>mem := m\<rparr>) s)
    \<and> multi_holds P ptr r (requeued q ((wld (snd s))\<lparr>mem := m\<rparr>) s) c'
    \<and> (if b then unread c r \<noteq> [] \<and> unread c' r = tl (unread c r) else unread c' r = unread c r)"
proof -
  obtain rs where rs: "m_pqueue (fst s) = Some (rs r)" "group_holds (penv P) ptr (wld (snd s), rs) c"
    and r: "r \<in> mc_subs c" using h by (auto simp: multi_holds_def)
  obtain s' where e: "group_deq (penv P) r (wld (snd s), rs) = returns (fst (mc_pop r c), s')"
    "group_holds (penv P) ptr s' (snd (mc_pop r c))"
    using group_deq_law [OF rs(2) r] by blast
  obtain m1 q1 where g: "pop (penv P) (mem (wld (snd s))) (rs r) = returns (fst (mc_pop r c), m1, q1)"
    "s' = ((wld (snd s))\<lparr>mem := m1\<rparr>, rs(r := q1))"
    using e(1) by (auto simp: group_deq_def and_then_eq_returns)
  note u = mc_pop_unread [OF group_holds_ok [OF rs(2)] r prod.collapse [symmetric]]
  have "simple_connector_pop P s
      = returns (fst (mc_pop r c), requeued q1 ((wld (snd s))\<lparr>mem := m1\<rparr>) s)"
    using rs(1) g(1) by (simp add: simple_connector_pop_def with_queue_def requeued_def)
  moreover have "multi_holds P ptr r (requeued q1 ((wld (snd s))\<lparr>mem := m1\<rparr>) s) (snd (mc_pop r c))"
    using multi_update [OF h, of _ "rs(r := q1)"] e(2) g(2) u(3) by (simp add: requeued_def)
  ultimately show ?thesis using u(1) [of r] u(4) by (intro exI conjI) auto
qed

section \<open>The timed operations\<close>

text \<open>
  The queue of the connector with \<open>U\<close> unread by its subscriber at some time before, and messages
  pushed since.
\<close>

definition serves ::
  "('h, 'o, 'l, 'b) platform \<Rightarrow> nat \<Rightarrow> nat \<Rightarrow> message list \<Rightarrow> ('h, 'o, 'l, 'b) site \<Rightarrow> bool" where
  "serves P ptr r U s \<longleftrightarrow> (\<exists>c zs. multi_holds P ptr r s c \<and> unread c r = U @ zs)"

text \<open>
  What the other processes do between two rounds: they may push messages and read for
  themselves, and do anything to the lock and the barrier.
\<close>

definition others_serve :: "('h, 'o, 'l, 'b) platform \<Rightarrow> nat \<Rightarrow> nat \<Rightarrow> bool" where
  "others_serve P ptr r \<longleftrightarrow> (\<forall>k o1 g c. multi_holds P ptr r (o1, g) c \<longrightarrow>
     (\<exists>c' zs. multi_holds P ptr r (o1, meanwhile P k g) c' \<and> unread c' r = unread c r @ zs)
     \<and> readings (wld g) \<le> readings (wld (meanwhile P k g)))"

text \<open>Every call of another subscriber of the queue is of this kind.\<close>

lemma member_step_object:
  assumes "members_step (group_enq E) (group_front E) (group_deq E) (r', p) (w, rs) = returns (x, w', rs')"
    and "r \<noteq> r'"
  shows "rs' r = rs r"
  using assms
  by (cases p) (auto simp: group_enq_def group_front_def group_deq_def and_then_eq_returns)

lemma other_subscriber_serves:
  assumes h: "group_holds E ptr (w, rs) c" and r: "r \<in> mc_subs c" "r' \<in> mc_subs c" "r \<noteq> r'"
    and p: "sendable p"
  shows "\<exists>x w' rs' c' zs. members_step (group_enq E) (group_front E) (group_deq E) (r', p) (w, rs)
      = returns (x, w', rs') \<and> group_holds E ptr (w', rs') c' \<and> rs' r = rs r \<and> mc_subs c' = mc_subs c
    \<and> unread c' r = unread c r @ zs"
proof -
  obtain s' where s': "members_step (group_enq E) (group_front E) (group_deq E) (r', p) (w, rs)
      = returns (fst (mc_step (r', p) c), s')" "group_holds E ptr s' (snd (mc_step (r', p) c))"
    using shared.step_law [OF h, of "(r', p)"] r(2) p by auto
  have ok: "mc_ok c" by (rule group_holds_ok [OF h])
  have "\<exists>zs. unread (snd (mc_step (r', p) c)) r = unread c r @ zs"
  proof (cases p)
    case (Push y)
    show ?thesis
      using mc_push_unread(3) [OF ok prod.collapse [symmetric] r(1), of y] by (auto simp: Push case_prod_beta)
  next
    case Pop
    show ?thesis
      using mc_pop_unread(1) [OF ok r(2) prod.collapse [symmetric], of r] r(3)
      by (simp add: Pop case_prod_beta)
  qed simp
  moreover have "mc_subs (snd (mc_step (r', p) c)) = mc_subs c"
    by (rule mc_step_ok(2) [OF ok disjI1 prod.collapse [symmetric]]) (use r(2) in simp)
  moreover obtain w' rs' where "s' = (w', rs')" by fastforce
  ultimately show ?thesis using s' member_step_object [of E r' p w rs _ w' rs' r] r(3) by blast
qed

text \<open>The platform of the multi connectors: \<open>shared_locker\<close> and \<open>shared_barrier\<close>.\<close>

definition multi_like ::
  "('h, 'o, shared_locker, 'x barrier) platform \<Rightarrow> bool" where
  "multi_like P \<longleftrightarrow> clock_runs (clock (penv P))
     \<and> (\<exists>sz others. plock P = spinlocker_interface sz (clock (penv P)) others \<and> keeps_booking others)
     \<and> (\<exists>sz S sem others polls. pbar P = sharable_barrier sz S sem others polls \<and> passes_on others)"

lemma serves_cong: "serves P ptr r U s \<Longrightarrow> (\<And>c. multi_holds P ptr r s c \<Longrightarrow> multi_holds P ptr r s' c)
    \<Longrightarrow> serves P ptr r U s'"
  unfolding serves_def by blast

lemma serves_lock: "serves P ptr r U s \<Longrightarrow> serves P ptr r U (relocked i ls s)"
  by (erule serves_cong) (rule multi_relocked)

lemma serves_reading: "serves P ptr r U s \<Longrightarrow> serves P ptr r U (at_reading i s)"
  by (erule serves_cong) (rule multi_reading)

lemma serves_barriers: "serves P ptr r U s \<Longrightarrow> serves P ptr r U (fst s, (snd s)\<lparr>barriers := bs\<rparr>)"
  by (erule serves_cong) (rule multi_barriers)

lemma serves_lockers: "serves P ptr r U s \<Longrightarrow> serves P ptr r U (with_lockers ls s)"
  unfolding with_lockers_relocked by (rule serves_lock)

lemma serves_others:
  assumes "others_serve P ptr r" and "serves P ptr r U (o1, g)"
  shows "serves P ptr r U (o1, meanwhile P k g) \<and> readings (wld g) \<le> readings (wld (meanwhile P k g))"
proof -
  obtain c zs where c: "multi_holds P ptr r (o1, g) c" "unread c r = U @ zs"
    using assms(2) by (auto simp: serves_def)
  obtain c' zs' where c': "multi_holds P ptr r (o1, meanwhile P k g) c'" "unread c' r = unread c r @ zs'"
    "readings (wld g) \<le> readings (wld (meanwhile P k g))"
    using assms(1) c(1) unfolding others_serve_def by blast
  then have "unread c' r = U @ zs @ zs'" using c(2) by simp
  with c' show ?thesis unfolding serves_def by blast
qed

lemma serves_cases:
  assumes "serves P ptr r U s"
  obtains a ba where "m_plocker (fst s) = Some a" "m_pbarrier (fst s) = Some ba"
    "clock_live (clock (penv P))"
  using assms by (auto simp: serves_def multi_holds_def group_holds_def env_ok_def)

lemma multi_like_cases:
  assumes "multi_like P" and "clock_live (clock (penv P))"
  shows "side_timely (lock_to_push (plock P))" "side_timely (lock_to_get (plock P))"
    "side_timely (lock_to_pop (plock P))" "\<exists>b'. bar_knock (pbar P) b = Some b'"
  using assms spinlocker_timely [OF assms(2)] knock_returns
  by (auto simp: multi_like_def spinlocker_interface_def sharable_barrier_def)

lemma serves_plocker: "serves P ptr r U s \<Longrightarrow> m_plocker (fst s) \<noteq> None"
  using serves_cases by fastforce

text \<open>Push.\<close>

definition push_and_open ::
  "('h, 'o, 'l, 'b) platform \<Rightarrow> ('h, 'o, 'l, 'b) site vtable \<Rightarrow> tag_type \<Rightarrow> u8 list
    \<Rightarrow> ('h, 'o, 'l, 'b) site \<Rightarrow> (bool \<times> ('h, 'o, 'l, 'b) site) run" where
  "push_and_open P C tag data s =
     and_then (v_push C tag data s) (\<lambda>(b, s1).
       if b then and_then (open_the_barrier P s1) (\<lambda>(u, s2). returns (True, s2)) else returns (False, s1))"

lemma push_waits:
  "waits P ts (timed_round P (lock_to_push (plock P)) (push_and_open P C tag data) False ts) (\<lambda>b. b) (\<lambda>b. b)
    (\<lambda>b k s. timed_push_loop P C tag data ts k s)"
  unfolding waits_def timed_round_def
  by (intro allI impI, subst timed_push_loop.simps)
    (simp add: and_then_assoc case_prod_unfold Let_def push_and_open_def [abs_def] cong: if_cong)

lemma pop_waits:
  "waits P ts (timed_round P (lock_to_pop (plock P)) (v_pop C) False ts) (\<lambda>b. b) (\<lambda>b. b)
    (\<lambda>b k s. timed_pop_loop P C ts k s)"
  unfolding waits_def timed_round_def
  by (intro allI impI, subst timed_pop_loop.simps)
    (simp add: and_then_assoc case_prod_unfold Let_def cong: if_cong)

text \<open>
  The end of a push: the message went into the queue as it was found under the lock, with \<open>U\<close> and
  what others have pushed since unread, then the barrier was opened as it was found, and the lock
  released.
\<close>

definition pushed ::
  "('h, 'o, 'l, 'b) platform \<Rightarrow> nat \<Rightarrow> nat \<Rightarrow> message list \<Rightarrow> message \<Rightarrow> ('h, 'o, 'l, 'b) site \<Rightarrow> bool" where
  "pushed P ptr r U x s \<longleftrightarrow> (\<exists>s1 c1 s2 s3 ls zs c. multi_holds P ptr r s1 c1 \<and> unread c1 r = U @ zs
     \<and> simple_connector_push P (fst x) (snd x) s1 = returns (True, s2) \<and> open_the_barrier P s2 = returns ((), s3)
     \<and> s = with_lockers ls s3 \<and> multi_holds P ptr r s c \<and> unread c r = U @ zs @ [x])"

definition popped ::
  "('h, 'o, 'l, 'b) platform \<Rightarrow> nat \<Rightarrow> nat \<Rightarrow> message list \<Rightarrow> ('h, 'o, 'l, 'b) site \<Rightarrow> bool" where
  "popped P ptr r U s \<longleftrightarrow> (\<exists>c x zs. multi_holds P ptr r s c \<and> x # unread c r = U @ zs)"

lemma outcome_lockers:
  "pushed P ptr r U x s \<Longrightarrow> pushed P ptr r U x (with_lockers ls s)"
  "popped P ptr r U s \<Longrightarrow> popped P ptr r U (with_lockers ls s)"
proof -
  assume "pushed P ptr r U x s"
  then obtain s1 c1 s2 s3 ls' zs c where p: "multi_holds P ptr r s1 c1" "unread c1 r = U @ zs"
    "simple_connector_push P (fst x) (snd x) s1 = returns (True, s2)" "open_the_barrier P s2 = returns ((), s3)"
    "s = with_lockers ls' s3" "multi_holds P ptr r s c" "unread c r = U @ zs @ [x]"
    unfolding pushed_def by blast
  moreover have "with_lockers ls s = with_lockers ls s3" by (simp add: p(5))
  moreover have "multi_holds P ptr r (with_lockers ls s) c" unfolding with_lockers_relocked by (rule multi_relocked [OF p(6)])
  ultimately show "pushed P ptr r U x (with_lockers ls s)" unfolding pushed_def by blast
next
  assume "popped P ptr r U s"
  then show "popped P ptr r U (with_lockers ls s)"
    using multi_relocked unfolding with_lockers_relocked popped_def by blast
qed

lemma push_and_open_returns:
  assumes s: "serves P ptr r U s" and ne: "data \<noteq> []"
  shows "\<exists>b s'. push_and_open P (simple_connector P Shared_queue) tag data s = returns (b, s')
    \<and> clock_calls s \<le> clock_calls s' \<and> lockers (snd s') = lockers (snd s) \<and> m_plocker (fst s') = m_plocker (fst s)
    \<and> (if b then pushed P ptr r U (tag, data) s' else serves P ptr r U s')"
proof -
  obtain c zs where c: "multi_holds P ptr r s c" "unread c r = U @ zs" using s by (auto simp: serves_def)
  obtain ba where ba: "m_pbarrier (fst s) = Some ba" by (rule serves_cases [OF s])
  obtain b q w c' where p: "simple_connector_push P tag data s = returns (b, requeued q w s)"
    "multi_holds P ptr r (requeued q w s) c'" "clock_calls s \<le> readings w"
    "unread c' r = unread c r @ (if b then [(tag, data)] else [])"
    using multi_push [OF c(1) ne] by blast
  show ?thesis
  proof (cases b)
    case False
    then have "serves P ptr r U (requeued q w s)" using p(2,4) c(2) by (auto simp: serves_def)
    with False p(1,3) show ?thesis by (auto simp: push_and_open_def)
  next
    case True
    let ?s = "(fst (requeued q w s), (snd (requeued q w s))
        \<lparr>barriers := (barriers (snd s))(ba := bar_open (pbar P) (barriers (snd s) ba))\<rparr>)"
    have o: "open_the_barrier P (requeued q w s) = returns ((), ?s)"
      using ba by (simp add: open_the_barrier_def on_barrier_def)
    have "multi_holds P ptr r ?s c'" "unread c' r = U @ zs @ [(tag, data)]"
      using multi_barriers [OF p(2)] p(4) c(2) True by simp_all
    moreover have "?s = with_lockers (lockers (snd ?s)) ?s" by (rule with_lockers_idem(2) [symmetric])
    moreover have "simple_connector_push P tag data s = returns (True, requeued q w s)" using p(1) True by simp
    ultimately have "pushed P ptr r U (tag, data) ?s"
      unfolding pushed_def using c o
      by (intro exI [of _ s] exI [of _ c] exI [of _ "requeued q w s"] exI [of _ ?s] exI [of _ "lockers (snd ?s)"]
          exI [of _ zs] exI [of _ c'] conjI) (assumption | simp only: fst_conv snd_conv)+
    then show ?thesis using True p(1,3) o by (auto simp: push_and_open_def)
  qed
qed

lemma pop_returns:
  assumes s: "serves P ptr r U s"
  shows "\<exists>b s'. simple_connector_pop P s = returns (b, s')
    \<and> clock_calls s \<le> clock_calls s' \<and> lockers (snd s') = lockers (snd s) \<and> m_plocker (fst s') = m_plocker (fst s)
    \<and> (if b then popped P ptr r U s' else serves P ptr r U s')"
proof -
  obtain c zs where c: "multi_holds P ptr r s c" "unread c r = U @ zs" using s by (auto simp: serves_def)
  obtain b q m c' where p: "simple_connector_pop P s = returns (b, requeued q ((wld (snd s))\<lparr>mem := m\<rparr>) s)"
    "multi_holds P ptr r (requeued q ((wld (snd s))\<lparr>mem := m\<rparr>) s) c'"
    "if b then unread c r \<noteq> [] \<and> unread c' r = tl (unread c r) else unread c' r = unread c r"
    using multi_pop [OF c(1)] by blast
  let ?s = "requeued q ((wld (snd s))\<lparr>mem := m\<rparr>) s"
  have "if b then popped P ptr r U ?s else serves P ptr r U ?s"
  proof (cases b)
    case True
    then have "hd (U @ zs) # unread c' r = U @ zs" using p(3) c(2) by simp
    with p(2) have "popped P ptr r U ?s" unfolding popped_def by blast
    with True show ?thesis by simp
  next
    case False
    then show ?thesis using p(2,3) c(2) by (auto simp: serves_def)
  qed
  with p(1) show ?thesis by fastforce
qed

lemma push_round_returns:
  assumes P: "multi_like P" and live: "clock_live (clock (penv P))" and s: "serves P ptr r U s" and ne: "data \<noteq> []"
  shows "\<exists>b s'. timed_round P (lock_to_push (plock P))
      (push_and_open P (simple_connector P Shared_queue) tag data) False ts s = returns (b, s')
    \<and> clock_calls s \<le> clock_calls s' \<and> (if b then pushed P ptr r U (tag, data) s' else serves P ptr r U s')"
  by (rule timed_round_returns [where I = "serves P ptr r U" and ok = "\<lambda>b. b"
        and Q = "\<lambda>_. pushed P ptr r U (tag, data)", OF live multi_like_cases(1) [OF P live] s _ serves_plocker
        serves_lock push_and_open_returns [OF _ ne] outcome_lockers(1)]) simp_all

lemma pop_round_returns:
  assumes P: "multi_like P" and live: "clock_live (clock (penv P))" and s: "serves P ptr r U s"
  shows "\<exists>b s'. timed_round P (lock_to_pop (plock P)) (simple_connector_pop P) False ts s = returns (b, s')
    \<and> clock_calls s \<le> clock_calls s' \<and> (if b then popped P ptr r U s' else serves P ptr r U s')"
  by (rule timed_round_returns [where I = "serves P ptr r U" and ok = "\<lambda>b. b"
        and Q = "\<lambda>_. popped P ptr r U", OF live multi_like_cases(3) [OF P live] s _ serves_plocker
        serves_lock pop_returns outcome_lockers(2)]) simp_all

text \<open>Get.\<close>

definition get_round ::
  "('h, 'o, 'l, 'b) platform \<Rightarrow> ('h, 'o, 'l, 'b) site vtable \<Rightarrow> timespec
    \<Rightarrow> ('h, 'o, 'l, 'b) site \<Rightarrow> (pmessage option \<times> ('h, 'o, 'l, 'b) site) run" where
  "get_round P C ts s =
     and_then (now P s) (\<lambda>(t, s1).
     and_then (guard_timed (site_side (lock_to_get (plock P))) (ts - t) s1) (\<lambda>(guard, s2).
       timed_get_round P C ts guard s2))"

definition found :: "pmessage option \<Rightarrow> pmessage" where
  "found x = (case x of None \<Rightarrow> [] | Some ps \<Rightarrow> ps)"

lemma get_waits:
  "waits P ts (get_round P C ts) (\<lambda>x. x \<noteq> None) found (\<lambda>x k s. timed_get_loop P C ts k s)"
proof -
  have choose: "(case x of None \<Rightarrow> f | Some ps \<Rightarrow> returns (ps, a, b))
      = (if x \<noteq> None then returns (found x, a, b) else f)" for x f and a :: "'a connector" and b :: "('b, 'c, 'd) globals"
    by (cases x) (simp_all add: found_def)
  show ?thesis
    unfolding waits_def get_round_def
    by (intro allI impI, subst timed_get_loop.simps)
      (simp add: and_then_assoc case_prod_unfold choose found_def cong: if_cong)
qed

text \<open>
  The end of a get that has found nothing: it has knocked in the state \<open>s\<close>, left the lock, and
  waited at the barrier for the time that remained until its deadline \<open>ts\<close>; the barrier has not
  been opened.
\<close>

definition barred ::
  "('h, 'o, 'l, 'b) platform \<Rightarrow> timespec \<Rightarrow> ('h, 'o, 'l, 'b) site \<Rightarrow> ('h, 'o, 'l, 'b) site \<Rightarrow> bool" where
  "barred P ts s s' \<longleftrightarrow> (\<exists>s2 ls t s3.
     on_barrier (\<lambda>b. and_then (as_run (bar_knock (pbar P) b)) (\<lambda>b1. returns ((), b1))) s = returns ((), s2)
     \<and> now P (with_lockers ls s2) = returns (t, s3)
     \<and> on_barrier (\<lambda>b. returns (bar_expect (pbar P) (ts - t) b)) s3 = returns (False, s'))"

text \<open>
  What a get yields: the oldest unread message, or nothing; nothing before the deadline only after
  it has looked into an empty queue and then waited in vain.
\<close>

definition got_none ::
  "('h, 'o, 'l, 'b) platform \<Rightarrow> nat \<Rightarrow> nat \<Rightarrow> timespec \<Rightarrow> ('h, 'o, 'l, 'b) site \<Rightarrow> bool" where
  "got_none P ptr r ts s' \<longleftrightarrow> (\<exists>s c s1. multi_holds P ptr r s c \<and> unread c r = []
     \<and> simple_connector_get P s = returns ([], s1) \<and> barred P ts s1 s')"

definition got ::
  "('h, 'o, 'l, 'b) platform \<Rightarrow> nat \<Rightarrow> nat \<Rightarrow> message list \<Rightarrow> timespec \<Rightarrow> pmessage \<Rightarrow> ('h, 'o, 'l, 'b) site \<Rightarrow> bool" where
  "got P ptr r U ts ps s \<longleftrightarrow> (\<exists>c zs. multi_holds P ptr r s c \<and> unread c r = U @ zs
     \<and> (if ps = [] then U = [] \<and> got_none P ptr r ts s
        else \<exists>x ys. U @ zs = x # ys \<and> read_message (gmem (snd s)) ps = Some x))"

lemma got_nothing: "serves P ptr r [] s \<Longrightarrow> got_none P ptr r ts s \<Longrightarrow> got P ptr r [] ts [] s"
  by (simp add: serves_def got_def)

lemma on_barrier_serves:
  assumes "serves P ptr r U s" and "\<And>b. \<exists>x b'. f b = returns (x, b')"
  shows "\<exists>x s'. on_barrier f s = returns (x, s') \<and> serves P ptr r U s' \<and> clock_calls s' = clock_calls s
    \<and> lockers (snd s') = lockers (snd s) \<and> fst s' = fst s"
proof -
  obtain ba where ba: "m_pbarrier (fst s) = Some ba" by (rule serves_cases [OF assms(1)])
  obtain x b' where f: "f (barriers (snd s) ba) = returns (x, b')" using assms(2) by blast
  have "on_barrier f s = returns (x, fst s, (snd s)\<lparr>barriers := (barriers (snd s))(ba := b')\<rparr>)"
    using ba f by (simp add: on_barrier_def)
  with serves_barriers [OF assms(1)] show ?thesis by fastforce
qed

text \<open>The queue is empty: knock, leave the lock, wait at the barrier.\<close>

definition knock_and_expect ::
  "('h, 'o, 'l, 'b) platform \<Rightarrow> (nat \<times> 'l) side \<Rightarrow> timespec
    \<Rightarrow> ('h, 'o, 'l, 'b) site \<Rightarrow> (pmessage option \<times> ('h, 'o, 'l, 'b) site) run" where
  "knock_and_expect P S ts s =
     and_then (on_barrier (\<lambda>b. and_then (as_run (bar_knock (pbar P) b)) (\<lambda>b1. returns ((), b1))) s) (\<lambda>(u, s2).
      and_then (guard_unlock (site_side S) True s2) (\<lambda>(guard1, s3).
      and_then (now P s3) (\<lambda>(t, s4).
      and_then (on_barrier (\<lambda>b. returns (bar_expect (pbar P) (ts - t) b)) s4) (\<lambda>(opened, s5).
      and_then (guard_destroy (site_side S) guard1 s5) (\<lambda>s6.
        returns (if opened then None else Some [], s6))))))"

lemma get_round_empty:
  assumes P: "multi_like P" and live: "clock_live (clock (penv P))" and s: "serves P ptr r [] s"
    and a: "m_plocker (fst s) = Some a"
    and l2: "\<forall>j. side_unlock S (j, lockers (snd s) a) = returns (j, l2)"
  shows "\<exists>x s'. knock_and_expect P S ts s = returns (x, s')
    \<and> clock_calls s \<le> clock_calls s' \<and> (x = None \<or> x = Some [] \<and> barred P ts s s') \<and> serves P ptr r [] s'"
proof -
  have "\<exists>u b'. and_then (as_run (bar_knock (pbar P) b)) (\<lambda>b1. returns ((), b1)) = returns (u, b')" for b
    using multi_like_cases(4) [OF P live, of b] by auto
  from on_barrier_serves [where f = "\<lambda>b. and_then (as_run (bar_knock (pbar P) b)) (\<lambda>b1. returns ((), b1))", OF s this]
  obtain u s2 where s2: "on_barrier (\<lambda>b. and_then (as_run (bar_knock (pbar P) b)) (\<lambda>b1. returns ((), b1))) s
      = returns (u, s2)" "serves P ptr r [] s2" "clock_calls s2 = clock_calls s" "lockers (snd s2) = lockers (snd s)"
    "fst s2 = fst s"
    by blast
  let ?s3 = "with_lockers ((lockers (snd s2))(a := l2)) s2"
  have "side_unlock (site_side S) s2 = returns ?s3"
    by (rule site_unlock) (use a l2 s2(4,5) in simp_all)
  then have u: "guard_unlock (site_side S) True s2 = returns (False, ?s3)" by (simp add: guard_unlock_def)
  obtain t j where t: "now P ?s3 = returns (t, at_reading (Suc j) ?s3)" "clock_calls ?s3 \<le> j"
    by (rule now_cases [OF live])
  have s4: "serves P ptr r [] (at_reading (Suc j) ?s3)"
    by (rule serves_reading [OF serves_lockers [OF s2(2)]])
  have "\<exists>x b'. returns (bar_expect (pbar P) (ts - t) b) = returns (x, b')" for b
    by (cases "bar_expect (pbar P) (ts - t) b") auto
  from on_barrier_serves [where f = "\<lambda>b. returns (bar_expect (pbar P) (ts - t) b)", OF s4 this]
  obtain opened s5 where s5: "on_barrier (\<lambda>b. returns (bar_expect (pbar P) (ts - t) b)) (at_reading (Suc j) ?s3)
      = returns (opened, s5)" "serves P ptr r [] s5" "clock_calls s5 = Suc j"
    by (auto simp: at_reading_def)
  have "clock_calls ?s3 = clock_calls s" using s2(3) by (simp add: with_lockers_def)
  moreover have "barred P ts s s5" if "\<not> opened" unfolding barred_def
    using s2(1) t(1) s5(1) that
    by (intro exI [of _ s2] exI [of _ "(lockers (snd s2))(a := l2)"] exI [of _ t] exI [of _ "at_reading (Suc j) ?s3"]) simp
  ultimately show ?thesis using s2(1) u t s5 by (cases opened) (auto simp: knock_and_expect_def guard_destroy_def)
qed

lemma get_round_returns:
  assumes P: "multi_like P" and live: "clock_live (clock (penv P))" and s: "serves P ptr r U s"
    and C: "v_get C = simple_connector_get P"
  shows "\<exists>x s'. get_round P C ts s = returns (x, s') \<and> clock_calls s \<le> clock_calls s'
    \<and> (if x \<noteq> None then got P ptr r U ts (found x) s' else serves P ptr r U s')"
proof -
  let ?S = "lock_to_get (plock P)"
  obtain a where a: "m_plocker (fst s) = Some a" by (rule serves_cases [OF s])
  obtain t j where t: "now P s = returns (t, at_reading (Suc j) s)" "clock_calls s \<le> j"
    by (rule now_cases [OF live])
  let ?s1 = "at_reading (Suc j) s"
  have s1: "m_plocker (fst ?s1) = Some a" "clock_calls ?s1 = Suc j" "serves P ptr r U ?s1"
    using a serves_reading [OF s] by (simp_all add: at_reading_def)
  obtain b i ls where g: "guard_timed (site_side ?S) (ts - t) ?s1 = returns (b, relocked i ls ?s1)"
    "clock_calls ?s1 \<le> i" "b \<longrightarrow> (\<exists>l2. \<forall>j. side_unlock ?S (j, ls a) = returns (j, l2))"
    by (rule timed_guard_cases [OF s1(1) multi_like_cases(2) [OF P live], where timeout = "ts - t"])
  let ?s2 = "relocked i ls ?s1"
  have s2: "serves P ptr r U ?s2" by (rule serves_lock [OF s1(3)])
  have c2: "clock_calls s \<le> i" using t(2) g(2) s1(2) by simp
  have round: "get_round P C ts s = timed_get_round P C ts b ?s2" using t(1) g(1) by (simp add: get_round_def)
  show ?thesis
  proof (cases b)
    case False
    then have "get_round P C ts s = returns (None, ?s2)"
      unfolding round by (simp add: timed_get_round_def owns_def guard_destroy_def)
    with s2 c2 show ?thesis by simp
  next
    case True
    obtain l2 where l2: "\<forall>j. side_unlock ?S (j, ls a) = returns (j, l2)" using g(3) True by blast
    obtain c zs where c: "multi_holds P ptr r ?s2 c" "unread c r = U @ zs" using s2 by (auto simp: serves_def)
    obtain ps q m where p: "simple_connector_get P ?s2 = returns (ps, requeued q ((wld (snd ?s2))\<lparr>mem := m\<rparr>) ?s2)"
      "multi_holds P ptr r (requeued q ((wld (snd ?s2))\<lparr>mem := m\<rparr>) ?s2) c" "read_message m ps = mc_get r c"
      using multi_get [OF c(1)] by blast
    let ?s3 = "requeued q ((wld (snd ?s2))\<lparr>mem := m\<rparr>) ?s2"
    have s3: "m_plocker (fst ?s3) = Some a" "lockers (snd ?s3) = ls" "clock_calls ?s3 = i" "gmem (snd ?s3) = m"
      by (simp_all add: s1(1))
    show ?thesis
    proof (cases "ps = []")
      case False
      obtain ls' where "guard_destroy (site_side ?S) True ?s3 = returns (with_lockers ls' ?s3)"
        using site_release [OF s3(1), of True ?S l2] l2 s3(2) by auto
      then have "get_round P C ts s = returns (Some ps, relocked i ls' ?s3)"
        unfolding round using True False p(1) s3(3)
        by (simp add: timed_get_round_def owns_def C with_lockers_relocked)
      moreover obtain x ys where x: "unread c r = x # ys" "read_message m ps = Some x"
        using False p(3) by (cases "unread c r") (simp_all add: mc_get_unread read_message_def)
      then have "U @ zs = x # ys" using c(2) by simp
      then have "got P ptr r U ts ps (relocked i ls' ?s3)"
        unfolding got_def using multi_relocked [OF p(2)] c(2) x(2) False s3(4) by fastforce
      ultimately show ?thesis using c2 False by (simp add: found_def)
    next
      case True
      have "unread c r = []" using p(3) True by (auto simp: mc_get_unread read_message_def split: list.splits)
      then have U: "U = []" using c(2) by simp
      have "serves P ptr r [] ?s3" using p(2) \<open>unread c r = []\<close> by (auto simp: serves_def)
      then obtain x s' where x: "knock_and_expect P ?S ts ?s3 = returns (x, s')" "i \<le> clock_calls s'"
        "x = None \<or> x = Some [] \<and> barred P ts ?s3 s'" "serves P ptr r [] s'"
        using get_round_empty [OF P live _ s3(1), of ptr r ?S l2 ts] l2 s3(2,3) by auto
      have "get_round P C ts s = knock_and_expect P ?S ts ?s3"
        unfolding round using True \<open>b\<close> p(1) by (simp add: timed_get_round_def owns_def C knock_and_expect_def Let_def)
      moreover have "got_none P ptr r ts s'" if "barred P ts ?s3 s'"
        using c(1) \<open>unread c r = []\<close> p(1) True that unfolding got_none_def by blast
      ultimately show ?thesis using x c2 U got_nothing [OF x(4)] by (auto simp: found_def)
    qed
  qed
qed

section \<open>The connector classes\<close>

lemma multi_fields [simp]:
  "v_timed_push (multi_bidirectional_connector P) = Some (safe_timed_push P (simple_connector P Shared_queue))"
  "v_timed_pop (multi_bidirectional_connector P) = Some (safe_timed_pop P (simple_connector P Shared_queue))"
  "v_timed_get (multi_bidirectional_connector P) = Some (safe_timed_get P (simple_connector P Shared_queue))"
  "v_timed_pop (multi_input_connector P) = Some (safe_timed_pop P (input_connector (simple_connector P Shared_queue)))"
  "v_timed_get (multi_input_connector P) = Some (safe_timed_get P (input_connector (simple_connector P Shared_queue)))"
  by (simp_all add: multi_bidirectional_connector_def multi_input_connector_def timed_safe_connector_def
    bidirectional_connector_def)

lemma input_fields [simp]:
  "v_get (input_connector C) = v_get C" "v_pop (input_connector C) = v_pop C"
  by (simp_all add: input_connector_def)

lemma multi_start: "multi_holds P ptr r s c \<Longrightarrow> serves P ptr r (unread c r) s"
  unfolding serves_def by (metis append_Nil2)

text \<open>The three loops, each from a queue with \<open>U\<close> unread.\<close>

lemma timed_push_returns:
  assumes P: "multi_like P" "others_serve P ptr r" and s: "serves P ptr r U s" and ne: "data \<noteq> []"
  shows "\<exists>b s' i t. safe_timed_push P (simple_connector P Shared_queue) tag data timeout s = returns (b, s')
    \<and> clock_calls s \<le> i \<and> clock (penv P) i = Some t
    \<and> (if b then pushed P ptr r U (tag, data) s'
       else serves P ptr r U s' \<and> overdue (penv P) (t + timeout) s')"
proof -
  have live: "clock_live (clock (penv P))" by (rule serves_cases [OF s])
  have runs: "clock_runs (clock (penv P))" using P(1) by (simp add: multi_like_def)
  show ?thesis
    unfolding safe_timed_push_def
    using deadline_returns [where I = "serves P ptr r U" and Q = "\<lambda>_ _. pushed P ptr r U (tag, data)"
        and f = "\<lambda>ts b k s. timed_push_loop P (simple_connector P Shared_queue) tag data ts k s"
        and r = False and timeout = timeout, OF push_waits live runs serves_reading
        push_round_returns [OF P(1) live _ ne] serves_others [OF P(2)] s] by simp
qed

lemma timed_pop_returns:
  assumes P: "multi_like P" "others_serve P ptr r" and s: "serves P ptr r U s"
    and C: "v_pop C = simple_connector_pop P"
  shows "\<exists>b s' i t. safe_timed_pop P C timeout s = returns (b, s')
    \<and> clock_calls s \<le> i \<and> clock (penv P) i = Some t
    \<and> (if b then popped P ptr r U s' else serves P ptr r U s' \<and> overdue (penv P) (t + timeout) s')"
proof -
  have live: "clock_live (clock (penv P))" by (rule serves_cases [OF s])
  have runs: "clock_runs (clock (penv P))" using P(1) by (simp add: multi_like_def)
  show ?thesis
    unfolding safe_timed_pop_def
    using deadline_returns [where I = "serves P ptr r U" and Q = "\<lambda>_ _. popped P ptr r U"
        and f = "\<lambda>ts b k s. timed_pop_loop P C ts k s"
        and r = False and timeout = timeout, OF pop_waits live runs serves_reading
        pop_round_returns [OF P(1) live, folded C] serves_others [OF P(2)] s] by simp
qed

lemma timed_get_returns:
  assumes P: "multi_like P" "others_serve P ptr r" and s: "serves P ptr r U s"
    and C: "v_get C = simple_connector_get P"
  shows "\<exists>x s' i t. safe_timed_get P C timeout s = returns (found x, s')
    \<and> clock_calls s \<le> i \<and> clock (penv P) i = Some t
    \<and> (if x \<noteq> None then got P ptr r U (t + timeout) (found x) s'
       else serves P ptr r U s' \<and> overdue (penv P) (t + timeout) s')"
proof -
  have live: "clock_live (clock (penv P))" by (rule serves_cases [OF s])
  have runs: "clock_runs (clock (penv P))" using P(1) by (simp add: multi_like_def)
  show ?thesis
    unfolding safe_timed_get_def
    using deadline_returns [where I = "serves P ptr r U" and Q = "\<lambda>ts x. got P ptr r U ts (found x)"
        and f = "\<lambda>ts x k s. timed_get_loop P C ts k s"
        and r = None and timeout = timeout, OF get_waits live runs serves_reading
        get_round_returns [OF P(1) live _ C] serves_others [OF P(2)] s] by simp
qed

section \<open>A platform\<close>

definition multi_sample :: "(string, seg_table, shared_locker, nat barrier) platform" where
  "multi_sample =
     \<lparr>penv = sample_env, papi = table_api, plock = spinlocker_interface 12 sample_clock (\<lambda>_ l. l),
      pbar = sharable_barrier 24 counting_semaphore 0 (\<lambda>_ b. b\<lparr>m_counter2 := 0\<rparr>) (\<lambda>_. 3),
      meanwhile = (\<lambda>_ g. g), spinners = (\<lambda>_ v. v)\<rparr>"

lemma multi_sample_like [simp]: "multi_like multi_sample" "others_serve multi_sample ptr r"
proof -
  have "passes_on (\<lambda>_ b :: nat barrier. b\<lparr>m_counter2 := 0\<rparr>)"
    unfolding passes_on_def
    by (intro allI) (rule exI [where x = "Suc 0"], simp)
  moreover have "keeps_booking (\<lambda>_ l. l)" by (simp add: keeps_booking_def)
  moreover have "clock (penv multi_sample) = sample_clock"
    by (simp add: multi_sample_def sample_env_def)
  ultimately show "multi_like multi_sample"
    by (fastforce simp: multi_like_def multi_sample_def)
  show "others_serve multi_sample ptr r"
    unfolding others_serve_def by (simp add: multi_sample_def) (metis append_Nil2)
qed

lemma sample_multi:
  obtains s :: "(string, seg_table, shared_locker, nat barrier) site" and c
  where "multi_holds multi_sample 64 1 s c" "unread c 1 = [(7, [10, 11])]" "may_push (fst s)" "may_get (fst s)"
proof -
  obtain m2 q q2 where h: "group_holds sample_env 64 (\<lparr>mem = m2, readings = 0\<rparr>, (\<lambda>_. q)(2 := q2))
       \<lparr>mc_cap = 100, mc_pos = 0, mc_msgs = [], mc_subs = {2, 1}, mc_at = \<lambda>_. 0\<rparr>" (is "group_holds _ _ _ ?c")
    by (rule sample_group)
  obtain w rs where p: "group_holds sample_env 64 (w, rs) (snd (mc_push (7, [10, 11]) ?c))"
    using group_enq_law [OF h, of 1 "(7, [10, 11])"] by auto
  let ?c1 = "snd (mc_push (7, [10, 11]) ?c)"
  let ?o = "\<lparr>c_name = ''q0'', c_type = CON_BIDIR, m_opened = True, m_memory = new_shared_memory ''q0'',
    m_pqueue = Some (rs 1), m_plocker = Some 8, m_pbarrier = Some 20\<rparr>"
  let ?g = "\<lparr>sys = \<lparr>segments = Map.empty, next_address = 0\<rparr>, wld = w,
    lockers = (\<lambda>_. new_shared_locker), barriers = (\<lambda>_. new_barrier 0)\<rparr>"
  have c1: "unread ?c1 1 = [(7, [10, 11])]" "1 \<in> mc_subs ?c1"
    by (simp_all add: mc_push_def mc_clean_def mc_lowest_def fits_def span_def unread_def Let_def)
  have "penv multi_sample = sample_env" by (simp add: multi_sample_def)
  then have "multi_holds multi_sample 64 1 (?o, ?g) ?c1" using p c1(2) by (auto simp: multi_holds_def)
  then show thesis by (rule that) (use c1(1) in \<open>simp_all add: may_push_def may_get_def\<close>)
qed

section \<open>Properties\<close>



text \<open>
  C27. A timed get or pop on a multi connector, input or in both directions, on a queue without
  expiry, returns whatever the others do to its lock and barrier and whatever they push and read:
  the get with the oldest unread message, or with none after the deadline, or with none when nothing
  was unread at its start, it has found the queue empty under the lock, knocked, and waited at the
  barrier for the time that was left without the barrier being opened; the pop having taken the
  oldest unread message, or after the deadline. Nothing else unread is lost.
\<close>

theorem multi_timed_reads_end:
  assumes "multi_like P" and "others_serve P ptr r"
    and "multi_holds P ptr r s c" and "may_get (fst s)"
    and "C = multi_bidirectional_connector P \<or> C = multi_input_connector P"
  shows "(\<exists>ps s' c' zs. connector_timed_get P C timeout s = returns (ps, s')
      \<and> multi_holds P ptr r s' c' \<and> unread c' r = unread c r @ zs
      \<and> (if ps = [] then \<exists>i t. clock_calls s \<le> i \<and> clock (penv P) i = Some t
            \<and> (unread c r = [] \<and> got_none P ptr r (t + timeout) s' \<or> overdue (penv P) (t + timeout) s')
         else \<exists>x ys. unread c' r = x # ys \<and> read_message (gmem (snd s')) ps = Some x))
    \<and> (\<exists>b s' c' zs. connector_timed_pop P C timeout s = returns (b, s') \<and> multi_holds P ptr r s' c'
      \<and> (if b then \<exists>x. x # unread c' r = unread c r @ zs
         else unread c' r = unread c r @ zs \<and> (\<exists>i t. clock_calls s \<le> i \<and> clock (penv P) i = Some t
            \<and> overdue (penv P) (t + timeout) s')))"
proof
  note s = multi_start [OF assms(3)]
  obtain C0 where C0: "v_get C0 = simple_connector_get P" "v_pop C0 = simple_connector_pop P"
    "v_timed_get C = Some (safe_timed_get P C0)" "v_timed_pop C = Some (safe_timed_pop P C0)"
    using assms(5) by (elim disjE) (rule that; simp)+
  obtain x s' i t where g: "safe_timed_get P C0 timeout s = returns (found x, s')" "clock_calls s \<le> i"
    "clock (penv P) i = Some t" "if x \<noteq> None then got P ptr r (unread c r) (t + timeout) (found x) s'
      else serves P ptr r (unread c r) s' \<and> overdue (penv P) (t + timeout) s'"
    using timed_get_returns [OF assms(1,2) s C0(1)] by blast
  have "connector_timed_get P C timeout s = returns (found x, s')"
    using g(1) assms(4) C0(3) by (simp add: connector_timed_get_def)
  moreover have "\<exists>c' zs. multi_holds P ptr r s' c' \<and> unread c' r = unread c r @ zs
      \<and> (if found x = [] then \<exists>i t. clock_calls s \<le> i \<and> clock (penv P) i = Some t
            \<and> (unread c r = [] \<and> got_none P ptr r (t + timeout) s' \<or> overdue (penv P) (t + timeout) s')
         else \<exists>y ys. unread c' r = y # ys \<and> read_message (gmem (snd s')) (found x) = Some y)"
  proof (cases x)
    case None
    then have "found x = []" "serves P ptr r (unread c r) s'" "overdue (penv P) (t + timeout) s'"
      using g(4) by (simp_all add: found_def)
    with g(2,3) show ?thesis unfolding serves_def by auto
  next
    case (Some ps)
    then have "got P ptr r (unread c r) (t + timeout) (found x) s'" using g(4) by simp
    then obtain c' zs where "multi_holds P ptr r s' c'" "unread c' r = unread c r @ zs"
      "if found x = [] then unread c r = [] \<and> got_none P ptr r (t + timeout) s'
       else \<exists>y ys. unread c r @ zs = y # ys \<and> read_message (gmem (snd s')) (found x) = Some y"
      unfolding got_def by blast
    with g(2,3) show ?thesis
      by (intro exI [of _ c'] exI [of _ zs]) (cases "found x = []"; simp; blast)
  qed
  ultimately show "\<exists>ps s' c' zs. connector_timed_get P C timeout s = returns (ps, s')
      \<and> multi_holds P ptr r s' c' \<and> unread c' r = unread c r @ zs
      \<and> (if ps = [] then \<exists>i t. clock_calls s \<le> i \<and> clock (penv P) i = Some t
            \<and> (unread c r = [] \<and> got_none P ptr r (t + timeout) s' \<or> overdue (penv P) (t + timeout) s')
         else \<exists>x ys. unread c' r = x # ys \<and> read_message (gmem (snd s')) ps = Some x)" by blast
  obtain b s2 j u where p: "safe_timed_pop P C0 timeout s = returns (b, s2)" "clock_calls s \<le> j"
    "clock (penv P) j = Some u" "if b then popped P ptr r (unread c r) s2
      else serves P ptr r (unread c r) s2 \<and> overdue (penv P) (u + timeout) s2"
    using timed_pop_returns [OF assms(1,2) s C0(2)] by blast
  have "connector_timed_pop P C timeout s = returns (b, s2)"
    using p(1) assms(4) C0(4) by (simp add: connector_timed_pop_def)
  moreover have "\<exists>c' zs. multi_holds P ptr r s2 c' \<and> (if b then \<exists>x. x # unread c' r = unread c r @ zs
      else unread c' r = unread c r @ zs \<and> (\<exists>i t. clock_calls s \<le> i \<and> clock (penv P) i = Some t
            \<and> overdue (penv P) (t + timeout) s2))"
    using p(2-4) unfolding popped_def serves_def by (cases b) (simp, blast)+
  ultimately show "\<exists>b s' c' zs. connector_timed_pop P C timeout s = returns (b, s') \<and> multi_holds P ptr r s' c'
      \<and> (if b then \<exists>x. x # unread c' r = unread c r @ zs
         else unread c' r = unread c r @ zs \<and> (\<exists>i t. clock_calls s \<le> i \<and> clock (penv P) i = Some t
            \<and> overdue (penv P) (t + timeout) s'))" by blast
qed

theorem multi_timed_reads_end_witness:
  "\<exists>s ps s' b s2. connector_timed_get multi_sample (multi_input_connector multi_sample) (Timespec 5 0) s
      = returns (ps, s')
    \<and> (ps \<noteq> [] \<longrightarrow> read_message (gmem (snd s')) ps = Some (7, [10, 11]))
    \<and> connector_timed_pop multi_sample (multi_input_connector multi_sample) (Timespec 5 0) s = returns (b, s2)"
proof -
  obtain s :: "(string, seg_table, shared_locker, nat barrier) site" and c
    where s: "multi_holds multi_sample 64 1 s c" "unread c 1 = [(7, [10, 11])]" "may_get (fst s)"
    by (rule sample_multi)
  note r = multi_timed_reads_end [OF multi_sample_like s(1,3) disjI2 [OF refl], of "Timespec 5 0"]
  obtain ps s' c' zs where g: "connector_timed_get multi_sample (multi_input_connector multi_sample) (Timespec 5 0) s
      = returns (ps, s')" "unread c' 1 = [(7, [10, 11])] @ zs"
    "ps \<noteq> [] \<longrightarrow> (\<exists>x ys. unread c' 1 = x # ys \<and> read_message (gmem (snd s')) ps = Some x)"
    using conjunct1 [OF r] s(2) by (metis (no_types, lifting))
  obtain b s2 where "connector_timed_pop multi_sample (multi_input_connector multi_sample) (Timespec 5 0) s
      = returns (b, s2)"
    using conjunct2 [OF r] by blast
  moreover have "ps \<noteq> [] \<longrightarrow> read_message (gmem (snd s')) ps = Some (7, [10, 11])" using g(2,3) by auto
  ultimately show ?thesis using g(1) by blast
qed

end
