(* ===== verification/Multi_Bus.thy ===== *)
theory Multi_Bus
  imports Bus_List Multi_Connector
begin

text \<open>
  The untimed push of a bus of multi connectors. Its connectors refuse every message, so the
  bus adds connectors until it may not or cannot, and stores nothing.
\<close>

section \<open>An attempt\<close>

lemma connector_push_refuses:
  assumes "plock P = spinlocker_interface sz clk others" and "m_plocker (fst s) = Some a"
    and "C = multi_bidirectional_connector P \<or> C = multi_output_connector P"
  shows "connector_push C tag data s = returns (False, s)"
  using timed_safe_push_fails [OF assms(2,1)] assms(3)
  by (auto simp: connector_push_def multi_bidirectional_connector_def multi_output_connector_def
    timed_safe_connector_def)

lemma site_locker_needed:
  assumes "m_plocker (fst s) = None"
  shows "timed_safe_push P C tag data s = crashes Null_pointer"
  using assms by (simp add: timed_safe_push_def scope_def guard_try_def site_side_def on_locker_def Let_def)

lemma connector_push_never:
  assumes "plock P = spinlocker_interface sz clk others"
    and "C = multi_bidirectional_connector P \<or> C = multi_output_connector P"
  shows "connector_push C tag data s \<noteq> returns (True, s')"
proof (cases "m_plocker (fst s)")
  case (Some a)
  then show ?thesis using connector_push_refuses [OF assms(1) _ assms(2)] by simp
next
  case None
  then show ?thesis using assms(2) site_locker_needed [OF None]
    by (auto simp: connector_push_def multi_bidirectional_connector_def multi_output_connector_def
      timed_safe_connector_def)
qed

definition multi_writer_layout ::
  "('h, 'o, shared_locker, 'b) bus_layout \<Rightarrow> bool" where
  "multi_writer_layout L \<longleftrightarrow>
     (\<exists>sz clk others. plock (platform_of L) = spinlocker_interface sz clk others)
     \<and> (connector_class L = multi_bidirectional_connector (platform_of L)
        \<or> connector_class L = multi_output_connector (platform_of L))"

lemma base_push_never:
  assumes "multi_writer_layout L"
  shows "base_bus_push L tag data s \<noteq> returns (True, s')"
proof -
  obtain sz clk others where "plock (platform_of L) = spinlocker_interface sz clk others"
    "connector_class L = multi_bidirectional_connector (platform_of L)
      \<or> connector_class L = multi_output_connector (platform_of L)"
    using assms by (auto simp: multi_writer_layout_def)
  note never = connector_push_never [OF this]
  show ?thesis
    using never by (auto simp: base_bus_push_def on_output_def and_then_eq_returns split: list.splits)
qed

lemma base_push_refuses:
  assumes "multi_writer_layout L" and "m_pconnectors (fst s) = c # cs" and "m_plocker c = Some a"
  shows "base_bus_push L tag data s = returns (False, s)"
proof -
  obtain sz clk others where L: "plock (platform_of L) = spinlocker_interface sz clk others"
    "connector_class L = multi_bidirectional_connector (platform_of L)
      \<or> connector_class L = multi_output_connector (platform_of L)"
    using assms(1) by (auto simp: multi_writer_layout_def)
  have "connector_push (connector_class L) tag data (c, snd s) = returns (False, c, snd s)"
    by (rule connector_push_refuses [OF L(1) _ L(2)]) (simp add: assms(3))
  then show ?thesis using assms(2) by (simp add: base_bus_push_def on_output_def prod_eq_iff)
qed

lemma push_again_never:
  assumes "multi_writer_layout (layout B)"
  shows "push_again B (base_bus_push (layout B) tag data) k s \<noteq> returns (True, s')"
proof (subst push_again.simps)
  show "and_then (base_bus_push (layout B) tag data s) (\<lambda>(pushed, b, g).
       if \<not> pushed then returns (False, b, g)
       else and_then (update_output_connector B (b, meanwhile (platform_of (layout B)) k g)) (\<lambda>(updated, s2).
         if updated then push_again B (base_bus_push (layout B) tag data) (k + 1) s2 else returns (True, s2)))
      \<noteq> returns (True, s')"
    using base_push_never [OF assms, of tag data s]
    by (auto simp: and_then_eq_returns split: if_splits)
qed

section \<open>The loop of the bus\<close>

text \<open>Why the loop has ended, when no attempt of it succeeds.\<close>

definition no_more :: "('h, 'o, 'l, 'b) bus_class \<Rightarrow> ('h, 'o, 'l, 'b) hub \<Rightarrow> bool" where
  "no_more B s' \<longleftrightarrow> \<not> can_add_connector (layout B) s'
     \<or> (\<exists>t. can_add_connector (layout B) t \<and> v_add_connector B t = returns (False, s'))"

lemma no_moreI:
  "\<not> can_add_connector (layout B) s' \<Longrightarrow> no_more B s'"
  "can_add_connector (layout B) t \<Longrightarrow> v_add_connector B t = returns (False, s') \<Longrightarrow> no_more B s'"
  unfolding no_more_def by blast+

lemma grow_ends:
  assumes "\<And>s s'. attempt s \<noteq> returns (True, s')" and "grow B attempt s = returns (r, s')"
  shows "\<not> r \<and> no_more B s'"
proof -
  have "att = attempt \<longrightarrow> (\<forall>r s'. x = Inr (r, s') \<longrightarrow> \<not> r \<and> no_more B s')" if "grow B att s = Some x" for B att s x
  proof (rule grow.raw_induct [where P = "\<lambda>B att s x. att = attempt \<longrightarrow> (\<forall>r s'. x = Inr (r, s') \<longrightarrow> \<not> r \<and> no_more B s')",
        OF _ that], intro impI allI)
    fix f B att s x r s'
    assume IH: "\<And>B att s x. f B att s = Some x \<Longrightarrow> att = attempt \<longrightarrow> (\<forall>r s'. x = Inr (r, s') \<longrightarrow> \<not> r \<and> no_more B s')"
      and eq: "and_then (att s) (\<lambda>(pushed, s1).
         if pushed then returns (True, s1)
         else if \<not> can_add_connector (layout B) s1 then returns (False, s1)
         else and_then (v_add_connector B s1) (\<lambda>(added, s2).
           if \<not> added then returns (False, s2) else f B att s2)) = Some x" (is "?r = _")
      and att: "att = attempt" and x: "x = Inr (r, s')"
    have run: "?r = returns (r, s')" using eq x by (simp add: returns_def)
    have f: "\<not> r \<and> no_more B s'" if "f B att s2 = returns (r, s')" for s2
      using IH [OF that [unfolded returns_def]] att by blast
    show "\<not> r \<and> no_more B s'"
      using run assms(1) f by (auto simp: and_then_eq_returns att split: if_splits intro: no_moreI)
  qed
  from this [OF assms(2) [unfolded returns_def]] show ?thesis by blast
qed

lemma update_none:
  assumes "\<not> fst (is_updated (layout B) s)"
  shows "update_output_connector B s = returns (False, s)"
proof -
  have "is_updated (layout B) s = (False, s)" using assms by (auto simp: is_updated_def Let_def split: if_splits)
  then show ?thesis by (simp add: update_output_connector_def update_connectors_def)
qed

lemma shared_push_never:
  assumes "multi_writer_layout (layout B)"
  shows "shared_bus_push B tag data s \<noteq> returns (True, s')"
  using push_again_never [OF assms] by (auto simp: shared_bus_push_def and_then_eq_returns)

section \<open>Properties\<close>

text \<open>
  C36. An untimed push on an open bus of multi connectors never reports success. Every attempt on an
  open front connector is refused and changes nothing, whether the connector has room or not; so
  when the push ends, then because no connector may be added any more or the last one could not be
  added.
\<close>

theorem multi_bus_push_only_grows:
  assumes "plock P = spinlocker_interface sz clk others"
    and "V = multi_bidirectional_bus X P cast \<or> V = multi_output_bus X P cast" and "b_opened (fst s)"
  shows "bus_push V tag data s \<noteq> returns (True, s')
    \<and> (bus_push V tag data s = returns (False, s') \<longrightarrow> no_more (bus_base V) s')
    \<and> (m_pconnectors (fst t) = c # cs \<and> m_plocker c = Some a \<longrightarrow>
        base_bus_push (layout (bus_base V)) tag data t = returns (False, t))"
proof (intro conjI impI)
  let ?B = "bus_base V"
  have V: "b_do_push V = shared_bus_push ?B" "platform_of (layout ?B) = P"
    "connector_class (layout ?B) = multi_bidirectional_connector P
      \<or> connector_class (layout ?B) = multi_output_connector P"
    using assms(2)
    by (elim disjE; simp add: multi_bidirectional_bus_def multi_output_bus_def base_safe_bus_def Let_def
      shared_bus_def safe_layout_def simple_layout_def)+
  then have L: "multi_writer_layout (layout ?B)" using assms(1) by (auto simp: multi_writer_layout_def)
  have ends: "\<not> r \<and> no_more ?B s'" if "bus_push V tag data s = returns (r, s')" for r
    by (rule grow_ends [OF shared_push_never [OF L], where s = s])
      (use that assms(3) in \<open>simp add: bus_push_def V(1)\<close>)
  show "bus_push V tag data s \<noteq> returns (True, s')"
    using ends [of True] by blast
  show "no_more ?B s'" if "bus_push V tag data s = returns (False, s')"
    using ends [OF that] by blast
  show "base_bus_push (layout ?B) tag data t = returns (False, t)"
    if "m_pconnectors (fst t) = c # cs \<and> m_plocker c = Some a"
    using base_push_refuses [OF L conjunct1 [OF that] conjunct2 [OF that]] .
qed

theorem multi_bus_push_only_grows_witness:
  "\<exists>s :: (string, seg_table, shared_locker, nat barrier) hub.
     b_opened (fst s) \<and> m_pconnectors (fst s) \<noteq> [] \<and> m_opened (hd (m_pconnectors (fst s)))
     \<and> bus_push (multi_bidirectional_bus \<lparr>mutex_size = 40, new_mutex = new_shared_locker,
          mutex_side = scoped_side sample_clock (\<lambda>_ l. l)\<rparr> multi_sample (\<lambda>_. ''0'')) 7 [1] s = returns (False, s)"
proof -
  define X where "X = \<lparr>mutex_size = 40, new_mutex = new_shared_locker,
    mutex_side = scoped_side sample_clock (\<lambda>_ l. l)\<rparr>"
  define V where "V = multi_bidirectional_bus X multi_sample (\<lambda>_. ''0'')"
  define c :: "string connector" where "c = \<lparr>c_name = ''q0'', c_type = CON_BIDIR, m_opened = True,
    m_memory = new_shared_memory ''q0'', m_pqueue = None, m_plocker = Some 8, m_pbarrier = Some 20\<rparr>"
  define b where "b = \<lparr>b_name = ''bus'', m_pconnectors = [c], b_opened = True,
    b_memory = Some (new_shared_memory ''bus''), m_controlblock = \<lparr>epoch = 0, input_id = 1, output_id = 0\<rparr>,
    m_status = US_NONE, b_plocker = Some 8\<rparr>"
  define m where "m = store_cb (safe_bus_get_memory X b) \<lparr>epoch = 0, input_id = 1, output_id = 0\<rparr> (\<lambda>_. 0)"
  define g :: "(seg_table, shared_locker, nat barrier) globals" where
    "g = \<lparr>sys = \<lparr>segments = Map.empty, next_address = 0\<rparr>, wld = \<lparr>mem = m, readings = 0\<rparr>,
      lockers = (\<lambda>_. new_shared_locker), barriers = (\<lambda>_. new_barrier 0)\<rparr>"
  have P: "plock multi_sample = spinlocker_interface 12 sample_clock (\<lambda>_ l. l)" by (simp add: multi_sample_def)
  have lay: "platform_of (layout (bus_base V)) = multi_sample"
    "bus_get_memory (layout (bus_base V)) = safe_bus_get_memory X"
    by (simp_all add: V_def multi_bidirectional_bus_def base_safe_bus_def Let_def shared_bus_def
      safe_layout_def simple_layout_def)
  have at: "atomic_spec (atomics (penv multi_sample))"
    using sample_env_ok by (simp add: env_ok_def multi_sample_def)
  have cb: "get_shared_controlblock (layout (bus_base V)) (b, g) = \<lparr>epoch = 0, input_id = 1, output_id = 0\<rparr>"
    by (simp add: get_shared_controlblock_def lay g_def m_def load_store_cb)
  have up: "\<not> fst (is_updated (layout (bus_base V)) (b, g))"
    unfolding is_updated_def atomic_cb_def lay cb by (simp add: atomic_specD [OF at] b_def)
  have full: "\<not> can_add_connector (layout (bus_base V)) (b, g)"
    unfolding can_add_connector_def get_controlblock_def cb by (simp add: b_def)
  have o: "b_opened (fst (b, g))" "m_pconnectors (fst (b, g)) = c # []" "m_plocker c = Some 8"
    by (simp_all add: b_def c_def)
  note claim = multi_bus_push_only_grows [OF P disjI1 [OF V_def] o(1), where tag = 7 and data = "[1]"]
  have V: "b_do_push V = shared_bus_push (bus_base V)"
    by (simp add: V_def multi_bidirectional_bus_def base_safe_bus_def Let_def shared_bus_def)
  have "base_bus_push (layout (bus_base V)) 7 [1] (b, g) = returns (False, (b, g))" using claim o by blast
  then have "push_again (bus_base V) (base_bus_push (layout (bus_base V)) 7 [1]) 0 (b, g) = returns (False, (b, g))"
    by (subst push_again.simps) simp
  then have "shared_bus_push (bus_base V) 7 [1] (b, g) = returns (False, (b, g))"
    by (simp add: shared_bus_push_def update_none [OF up])
  then have "bus_push V 7 [1] (b, g) = returns (False, (b, g))"
    using o(1) full by (simp add: bus_push_def V, subst grow.simps, simp)
  moreover have "b_opened (fst (b, g)) \<and> m_pconnectors (fst (b, g)) \<noteq> [] \<and> m_opened (hd (m_pconnectors (fst (b, g))))"
    by (simp add: b_def c_def)
  ultimately show ?thesis unfolding V_def X_def by blast
qed

end
