(* ===== verification/Multi_Group.thy ===== *)
theory Multi_Group
  imports Multi_Connector
begin

text \<open>
  The connectors of all subscribers of one shared queue: with timeouts that leave time for a
  first attempt, their timed operations make of them the multicast queue, as long as each call
  runs by itself.
\<close>

section \<open>Time for a first attempt\<close>

text \<open>
  The readings of the clock up to the lock of the first round: the two of the round, and the two
  of the timed lock, whose own deadline is what is left of the timeout.
\<close>

definition in_time :: "(nat \<Rightarrow> timespec option) \<Rightarrow> timespec \<Rightarrow> nat \<Rightarrow> bool" where
  "in_time clk ts i \<longleftrightarrow> (\<forall>t2 i2 t3 i3 t4 i4. get_monotonic_time clk i = Some (t2, i2)
     \<longrightarrow> get_monotonic_time clk i2 = Some (t3, i3) \<longrightarrow> get_monotonic_time clk i3 = Some (t4, i4)
     \<longrightarrow> t4 < t3 + (ts - t2))"

definition ample :: "(nat \<Rightarrow> timespec option) \<Rightarrow> timespec \<Rightarrow> bool" where
  "ample clk timeout \<longleftrightarrow> (\<forall>i t0 i0 t1 i1. get_monotonic_time clk i = Some (t0, i0)
     \<longrightarrow> get_monotonic_time clk i0 = Some (t1, i1) \<longrightarrow> t1 < t0 + timeout \<and> in_time clk (t0 + timeout) i1)"

lemma now_reading:
  assumes "clock_live (clock (penv P))"
  obtains t j where "now P s = returns (t, at_reading (Suc j) s)" "clock_calls s \<le> j"
    "get_monotonic_time (clock (penv P)) (clock_calls s) = Some (t, Suc j)"
proof -
  obtain t j where "clock_calls s \<le> j" "get_monotonic_time (clock (penv P)) (clock_calls s) = Some (t, Suc j)"
    by (rule get_monotonic_time_live [OF assms])
  then show thesis using that by (simp add: now_def at_reading_def)
qed

text \<open>
  A waiting loop whose first attempt is in time: \<open>I\<close> holds before it, \<open>J\<close> after each attempt
  that does not end the loop.
\<close>

lemma first_attempt_returns:
  assumes f: "\<And>ts. waits P ts (attempt ts) ok result (f ts)"
    and live: "clock_live (clock (penv P))" and runs: "clock_runs (clock (penv P))"
    and ample: "ample (clock (penv P)) timeout" and alone: "\<And>k g. meanwhile P k g = g"
    and tick: "\<And>s i. I s \<Longrightarrow> I (at_reading i s)" "\<And>s i. J s \<Longrightarrow> J (at_reading i s)"
    and first: "\<And>ts s. I s \<Longrightarrow> in_time (clock (penv P)) ts (clock_calls s) \<Longrightarrow>
      \<exists>r s'. attempt ts s = returns (r, s') \<and> clock_calls s \<le> clock_calls s' \<and> (if ok r then Q r s' else J s')"
    and rest: "\<And>ts s. J s \<Longrightarrow>
      \<exists>r s'. attempt ts s = returns (r, s') \<and> clock_calls s \<le> clock_calls s' \<and> (if ok r then Q r s' else J s')"
    and start: "I s" "\<not> ok r"
  shows "\<exists>r' s'. and_then (now P s) (\<lambda>(t, s1). f (t + timeout) r 0 s1) = returns (result r', s')
    \<and> (if ok r' then Q r' s' else J s')"
proof -
  obtain t0 i0 where t0: "now P s = returns (t0, at_reading (Suc i0) s)"
    "get_monotonic_time (clock (penv P)) (clock_calls s) = Some (t0, Suc i0)"
    by (rule now_reading [OF live])
  let ?s0 = "at_reading (Suc i0) s" and ?ts = "t0 + timeout"
  have calls: "clock_calls (at_reading i s) = i" for i by (simp add: at_reading_def)
  obtain t1 i1 where t1: "now P ?s0 = returns (t1, at_reading (Suc i1) ?s0)"
    "get_monotonic_time (clock (penv P)) (Suc i0) = Some (t1, Suc i1)"
    using now_reading [OF live, of ?s0] calls by metis
  have s1: "at_reading (Suc i1) ?s0 = at_reading (Suc i1) s" by (simp add: at_reading_def)
  have early: "t1 < ?ts" "in_time (clock (penv P)) ?ts (Suc i1)"
    using ample t0(2) t1(2) unfolding ample_def by blast+
  obtain r1 c2 g2 where a: "attempt ?ts (at_reading (Suc i1) s) = returns (r1, c2, g2)"
    "if ok r1 then Q r1 (c2, g2) else J (c2, g2)"
    using first [where ts = ?ts, OF tick(1) [OF start(1), of "Suc i1"]] early(2) calls by (metis prod.collapse)
  have step: "f ?ts r 0 ?s0 = (if ok r1 then returns (result r1, c2, g2) else f ?ts r1 1 (c2, g2))"
    using f [of ?ts, unfolded waits_def, rule_format, OF start(2), of 0 ?s0] t1(1) s1 a(1) early(1)
    by (simp add: alone)
  show ?thesis
  proof (cases "ok r1")
    case True
    then show ?thesis using step t0(1) a(2) by (intro exI [of _ r1] exI [of _ "(c2, g2)"]) simp
  next
    case False
    then have J: "J (c2, g2)" using a(2) by simp
    obtain N where N: "reaches (clock (penv P)) ?ts N" using runs by (auto simp: clock_runs_def)
    have others: "J (c, g) \<Longrightarrow> J (c, meanwhile P k g) \<and> readings (wld g) \<le> readings (wld (meanwhile P k g))"
      for k c g by (simp add: alone)
    obtain r' s' where "f ?ts r1 1 (c2, g2) = returns (result r', s')"
      "if ok r' then Q r' s' else J s' \<and> overdue (penv P) ?ts s'"
      using waiting_returns [where I = J and Q = Q, OF f live N tick(2) rest others J False] by blast
    then show ?thesis using step False t0(1) by (intro exI [of _ r'] exI [of _ s']) (auto split: if_splits)
  qed
qed

section \<open>A free lock\<close>

text \<open>A side that acquires the lock \<open>l\<close> unless time has run out, and gives it back as it was.\<close>

definition timed_enters :: "(nat \<Rightarrow> timespec option) \<Rightarrow> (nat \<times> 'l) side \<Rightarrow> 'l \<Rightarrow> bool" where
  "timed_enters clk S l \<longleftrightarrow> (\<forall>timeout i t j u k. get_monotonic_time clk i = Some (t, j)
     \<longrightarrow> get_monotonic_time clk j = Some (u, k)
     \<longrightarrow> (if u < t + timeout
          then \<exists>l1. side_timed S timeout (i, l) = returns (True, k, l1) \<and> (\<forall>n. side_unlock S (n, l1) = returns (n, l))
          else side_timed S timeout (i, l) = returns (False, k, l)))"

lemma free_lock_enters:
  "timed_enters clk (scoped_side clk others) new_shared_locker"
  "timed_enters clk (sharable_side clk others) new_shared_locker"
proof -
  show "timed_enters clk (scoped_side clk others) new_shared_locker"
    unfolding timed_enters_def
  proof (intro allI impI)
    fix timeout i t j u k
    assume t: "get_monotonic_time clk i = Some (t, j)" "get_monotonic_time clk j = Some (u, k)"
    show "if u < t + timeout
        then \<exists>l1. side_timed (scoped_side clk others) timeout (i, new_shared_locker) = returns (True, k, l1)
          \<and> (\<forall>n. side_unlock (scoped_side clk others) (n, l1) = returns (n, new_shared_locker))
        else side_timed (scoped_side clk others) timeout (i, new_shared_locker) = returns (False, k, new_shared_locker)"
      using t by (auto simp: scoped_side_def timed_lock_def timed_lock_loop.simps [of _ _ _ 0] locker_defs
        new_shared_locker_def)
  qed
  show "timed_enters clk (sharable_side clk others) new_shared_locker"
    unfolding timed_enters_def
  proof (intro allI impI)
    fix timeout i t j u k
    assume t: "get_monotonic_time clk i = Some (t, j)" "get_monotonic_time clk j = Some (u, k)"
    have "(0 :: u32) < - 1" by (simp add: word_gt_0)
    then show "if u < t + timeout
        then \<exists>l1. side_timed (sharable_side clk others) timeout (i, new_shared_locker) = returns (True, k, l1)
          \<and> (\<forall>n. side_unlock (sharable_side clk others) (n, l1) = returns (n, new_shared_locker))
        else side_timed (sharable_side clk others) timeout (i, new_shared_locker) = returns (False, k, new_shared_locker)"
      using t by (auto simp: sharable_side_def timed_lock_sharable_def timed_sharable_loop.simps [of _ _ _ 0] locker_defs
        new_shared_locker_def)
  qed
qed

lemma guard_free:
  assumes live: "clock_live (clock (penv P))" and a: "m_plocker (fst s) = Some a"
    and S: "timed_enters (clock (penv P)) S (lockers (snd s) a)"
  obtains (late) i where "guard_timed (site_side S) timeout s = returns (False, at_reading i s)" "clock_calls s \<le> i"
      "\<And>ts t. timeout = ts - t \<Longrightarrow> get_monotonic_time (clock (penv P)) k = Some (t, clock_calls s) \<Longrightarrow>
        \<not> in_time (clock (penv P)) ts k"
  | (owned) i l1 where "guard_timed (site_side S) timeout s = returns (True, relocked i ((lockers (snd s))(a := l1)) s)"
      "clock_calls s \<le> i" "\<forall>n. side_unlock S (n, l1) = returns (n, lockers (snd s) a)"
proof -
  obtain t j where t: "clock_calls s \<le> j" "get_monotonic_time (clock (penv P)) (clock_calls s) = Some (t, Suc j)"
    by (rule get_monotonic_time_live [OF live])
  obtain u n where u: "Suc j \<le> n" "get_monotonic_time (clock (penv P)) (Suc j) = Some (u, Suc n)"
    by (rule get_monotonic_time_live [OF live])
  have le: "clock_calls s \<le> Suc n" using t(1) u(1) by simp
  note enter = S [unfolded timed_enters_def, rule_format, OF t(2) u(2), of timeout]
  show thesis
  proof (cases "u < t + timeout")
    case True
    then obtain l1 where l1: "side_timed S timeout (clock_calls s, lockers (snd s) a) = returns (True, Suc n, l1)"
      "\<forall>n. side_unlock S (n, l1) = returns (n, lockers (snd s) a)"
      using enter by auto
    have "guard_timed (site_side S) timeout s = returns (True, relocked (Suc n) ((lockers (snd s))(a := l1)) s)"
      using l1(1) a by (simp add: guard_timed_def site_side_def on_locker_def locker_at_def put_locker_def relocked_def
        with_lockers_def at_reading_def)
    then show thesis using le l1(2) by (rule owned)
  next
    case False
    then have "side_timed S timeout (clock_calls s, lockers (snd s) a) = returns (False, Suc n, lockers (snd s) a)"
      using enter by simp
    then have "guard_timed (site_side S) timeout s = returns (False, at_reading (Suc n) s)"
      using a by (simp add: guard_timed_def site_side_def on_locker_def locker_at_def put_locker_def
        with_lockers_def at_reading_def)
    then show thesis using le by (rule late) (use False t(2) u(2) in \<open>auto simp: in_time_def\<close>)
  qed
qed

section \<open>One connector among those of a queue\<close>

text \<open>
  The connector \<open>s\<close> of the subscriber \<open>r\<close> on the lock \<open>a\<close> and the barrier \<open>ba\<close>, the queue objects
  of the others being \<open>rs\<close>; \<open>member_at\<close> when the lock is free as well.
\<close>

definition member_in ::
  "('h, 'o, 'l, 'b) platform \<Rightarrow> nat \<Rightarrow> nat \<Rightarrow> nat \<Rightarrow> (nat \<Rightarrow> queue) \<Rightarrow> nat \<Rightarrow> ('h, 'o, 'l, 'b) site \<Rightarrow> multicast
    \<Rightarrow> bool" where
  "member_in P ptr a ba rs r s c \<longleftrightarrow> may_push (fst s) \<and> may_get (fst s) \<and> m_plocker (fst s) = Some a
     \<and> m_pbarrier (fst s) = Some ba \<and> r \<in> mc_subs c
     \<and> (\<exists>q. m_pqueue (fst s) = Some q \<and> group_holds (penv P) ptr (wld (snd s), rs(r := q)) c)"

definition member_at ::
  "('h, 'o, shared_locker, 'b) platform \<Rightarrow> nat \<Rightarrow> nat \<Rightarrow> nat \<Rightarrow> (nat \<Rightarrow> queue) \<Rightarrow> nat
    \<Rightarrow> ('h, 'o, shared_locker, 'b) site \<Rightarrow> multicast \<Rightarrow> bool" where
  "member_at P ptr a ba rs r s c \<longleftrightarrow> member_in P ptr a ba rs r s c \<and> lockers (snd s) a = new_shared_locker"

lemma group_readings: "group_holds E ptr (w, rs) c \<Longrightarrow> group_holds E ptr (w\<lparr>readings := i\<rparr>, rs) c"
  by (simp add: group_holds_def)

lemma member_in_kept:
  assumes "member_in P ptr a ba rs r s c"
  shows "member_in P ptr a ba rs r (relocked i ls s) c" "member_in P ptr a ba rs r (at_reading i s) c"
    "member_in P ptr a ba rs r (with_lockers ls s) c"
    "member_in P ptr a ba rs r (fst s, (snd s)\<lparr>barriers := bs\<rparr>) c"
  using assms by (auto simp: member_in_def relocked_def with_lockers_def at_reading_def group_readings)

lemma member_at_kept:
  assumes "member_at P ptr a ba rs r s c"
  shows "member_at P ptr a ba rs r (at_reading i s) c" "member_at P ptr a ba rs r (fst s, (snd s)\<lparr>barriers := bs\<rparr>) c"
  using assms by (simp_all add: member_at_def member_in_kept) (simp add: at_reading_def)

lemma member_at_facts:
  assumes "member_at P ptr a ba rs r s c"
  shows "m_plocker (fst s) = Some a" "m_pbarrier (fst s) = Some ba" "r \<in> mc_subs c" "mc_ok c"
    "clock_live (clock (penv P))" "lockers (snd s) a = new_shared_locker" "may_push (fst s)" "may_get (fst s)"
    "member_in P ptr a ba rs r s c"
  using assms by (auto simp: member_at_def member_in_def group_holds_ok) (simp add: group_holds_def env_ok_def)

text \<open>The operations of the queue below.\<close>

lemma member_push:
  assumes h: "member_in P ptr a ba rs r s c" and ne: "data \<noteq> []"
  shows "\<exists>s'. push_and_open P (simple_connector P Shared_queue) tag data s = returns (fst (mc_push (tag, data) c), s')
    \<and> member_in P ptr a ba rs r s' (snd (mc_push (tag, data) c)) \<and> clock_calls s \<le> clock_calls s'
    \<and> lockers (snd s') = lockers (snd s)"
proof -
  let ?x = "(tag, data)"
  obtain q where q: "m_pqueue (fst s) = Some q" "group_holds (penv P) ptr (wld (snd s), rs(r := q)) c"
    and r: "r \<in> mc_subs c" and ba: "m_pbarrier (fst s) = Some ba"
    using h by (auto simp: member_in_def)
  obtain s1 where e: "group_enq (penv P) r ?x (wld (snd s), rs(r := q)) = returns (fst (mc_push ?x c), s1)"
    "group_holds (penv P) ptr s1 (snd (mc_push ?x c))"
    using group_enq_law [OF q(2) r, of ?x] ne by auto
  obtain w1 q1 where p: "push (penv P) (wld (snd s)) q tag data = returns (fst (mc_push ?x c), w1, q1)"
    "s1 = (w1, rs(r := q1))"
    using e(1) by (auto simp: group_enq_def and_then_eq_returns)
  have subs: "mc_subs (snd (mc_push ?x c)) = mc_subs c"
    by (rule mc_push_unread(2) [OF group_holds_ok [OF q(2)] prod.collapse [symmetric]])
  have run: "simple_connector_push P tag data s = returns (fst (mc_push ?x c), requeued q1 w1 s)"
    using q(1) p(1) by (simp add: simple_connector_push_def with_queue_def requeued_def)
  have fwd: "clock_calls s \<le> readings w1"
    using push_forward [of "wld (snd s)" "penv P" q tag data] p(1) by (simp add: every_result_def)
  have in1: "member_in P ptr a ba rs r (requeued q1 w1 s) (snd (mc_push ?x c))"
    using h e(2) p(2) subs by (simp add: member_in_def) (simp add: requeued_def)
  show ?thesis
  proof (cases "fst (mc_push ?x c)")
    case False
    with run fwd in1 show ?thesis by (intro exI [of _ "requeued q1 w1 s"]) (simp add: push_and_open_def)
  next
    case True
    let ?s = "(fst (requeued q1 w1 s), (snd (requeued q1 w1 s))
        \<lparr>barriers := (barriers (snd s))(ba := bar_open (pbar P) (barriers (snd s) ba))\<rparr>)"
    have "open_the_barrier P (requeued q1 w1 s) = returns ((), ?s)"
      using ba by (simp add: open_the_barrier_def on_barrier_def)
    then show ?thesis using True run fwd member_in_kept(4) [OF in1]
      by (intro exI [of _ ?s]) (simp add: push_and_open_def)
  qed
qed

lemma member_get:
  assumes h: "member_in P ptr a ba rs r s c"
  shows "\<exists>ps s'. simple_connector_get P s = returns (ps, s') \<and> read_message (gmem (snd s')) ps = mc_get r c
    \<and> member_in P ptr a ba rs r s' c \<and> clock_calls s' = clock_calls s \<and> lockers (snd s') = lockers (snd s)"
proof -
  obtain q where q: "m_pqueue (fst s) = Some q" "group_holds (penv P) ptr (wld (snd s), rs(r := q)) c"
    and r: "r \<in> mc_subs c"
    using h by (auto simp: member_in_def)
  obtain s1 where e: "group_front (penv P) r (wld (snd s), rs(r := q)) = returns (mc_get r c, s1)"
    "group_holds (penv P) ptr s1 c"
    using group_front_law [OF q(2) r] by blast
  obtain ps m1 q1 where g: "get (penv P) (mem (wld (snd s))) q = returns (ps, m1, q1)"
    "read_message m1 ps = mc_get r c" "s1 = ((wld (snd s))\<lparr>mem := m1\<rparr>, rs(r := q1))"
    using e(1) by (auto simp: group_front_def and_then_eq_returns)
  let ?s = "requeued q1 ((wld (snd s))\<lparr>mem := m1\<rparr>) s"
  have "simple_connector_get P s = returns (ps, ?s)"
    using q(1) g(1) by (simp add: simple_connector_get_def with_queue_def requeued_def)
  moreover have "member_in P ptr a ba rs r ?s c"
    using h e(2) g(3) by (simp add: member_in_def) (simp add: requeued_def)
  ultimately show ?thesis using g(2) by (intro exI [of _ ps] exI [of _ ?s]) simp
qed

lemma member_pop:
  assumes h: "member_in P ptr a ba rs r s c"
  shows "\<exists>s'. simple_connector_pop P s = returns (fst (mc_pop r c), s')
    \<and> member_in P ptr a ba rs r s' (snd (mc_pop r c)) \<and> clock_calls s \<le> clock_calls s' \<and> lockers (snd s') = lockers (snd s)"
proof -
  obtain q where q: "m_pqueue (fst s) = Some q" "group_holds (penv P) ptr (wld (snd s), rs(r := q)) c"
    and r: "r \<in> mc_subs c"
    using h by (auto simp: member_in_def)
  obtain s1 where e: "group_deq (penv P) r (wld (snd s), rs(r := q)) = returns (fst (mc_pop r c), s1)"
    "group_holds (penv P) ptr s1 (snd (mc_pop r c))"
    using group_deq_law [OF q(2) r] by blast
  obtain m1 q1 where g: "pop (penv P) (mem (wld (snd s))) q = returns (fst (mc_pop r c), m1, q1)"
    "s1 = ((wld (snd s))\<lparr>mem := m1\<rparr>, rs(r := q1))"
    using e(1) by (auto simp: group_deq_def and_then_eq_returns)
  let ?s = "requeued q1 ((wld (snd s))\<lparr>mem := m1\<rparr>) s"
  have "mc_subs (snd (mc_pop r c)) = mc_subs c"
    by (rule mc_pop_unread(3) [OF group_holds_ok [OF q(2)] r prod.collapse [symmetric]])
  then have "member_in P ptr a ba rs r ?s (snd (mc_pop r c))"
    using h e(2) g(2) by (simp add: member_in_def) (simp add: requeued_def)
  moreover have "simple_connector_pop P s = returns (fst (mc_pop r c), ?s)"
    using q(1) g(1) by (simp add: simple_connector_pop_def with_queue_def requeued_def)
  ultimately show ?thesis by (intro exI [of _ ?s]) simp
qed

section \<open>One round\<close>

lemma member_released:
  assumes "member_in P ptr a ba rs r s c"
  shows "member_at P ptr a ba rs r (with_lockers ((lockers (snd s))(a := new_shared_locker)) s) c"
  using member_in_kept(3) [OF assms] by (simp add: member_at_def with_lockers_def)

lemma release_free:
  assumes "m_plocker (fst s) = Some a" and "lockers (snd s) a = l1"
    and "\<forall>n. side_unlock S (n, l1) = returns (n, new_shared_locker)"
  shows "side_unlock (site_side S) s = returns (with_lockers ((lockers (snd s))(a := new_shared_locker)) s)"
  using assms by (intro site_unlock) simp_all

lemma member_round:
  assumes at: "member_at P ptr a ba rs r s c" and S: "timed_enters (clock (penv P)) S new_shared_locker"
    and body: "\<And>s. member_in P ptr a ba rs r s c \<Longrightarrow> \<exists>s'. body s = returns (b, s') \<and> member_in P ptr a ba rs r s' c'
      \<and> clock_calls s \<le> clock_calls s' \<and> lockers (snd s') = lockers (snd s)"
  shows "\<exists>b' s'. timed_round P S body r0 ts s = returns (b', s') \<and> clock_calls s \<le> clock_calls s'
    \<and> (b' = b \<and> member_at P ptr a ba rs r s' c'
        \<or> b' = r0 \<and> member_at P ptr a ba rs r s' c \<and> \<not> in_time (clock (penv P)) ts (clock_calls s))"
proof -
  have live: "clock_live (clock (penv P))" by (rule member_at_facts(5) [OF at])
  obtain t j where t: "now P s = returns (t, at_reading (Suc j) s)" "clock_calls s \<le> j"
    "get_monotonic_time (clock (penv P)) (clock_calls s) = Some (t, Suc j)"
    by (rule now_reading [OF live])
  let ?s = "at_reading (Suc j) s"
  note at1 = member_at_kept(1) [OF at, of "Suc j"]
  note m = member_at_facts [OF at1]
  have calls: "clock_calls ?s = Suc j" by (simp add: at_reading_def)
  have round: "timed_round P S body r0 ts s
      = scope (site_side S) (guard_timed (site_side S) (ts - t) ?s) body r0"
    by (simp add: timed_round_def t(1))
  show ?thesis
  proof (rule guard_free [OF live m(1), where S = S and timeout = "ts - t" and k = "clock_calls s"])
    show "timed_enters (clock (penv P)) S (lockers (snd ?s) a)" using S m(6) by simp
  next
    fix i assume g: "guard_timed (site_side S) (ts - t) ?s = returns (False, at_reading i ?s)" "clock_calls ?s \<le> i"
      and late: "\<And>ts' t'. ts - t = ts' - t' \<Longrightarrow>
        get_monotonic_time (clock (penv P)) (clock_calls s) = Some (t', clock_calls ?s) \<Longrightarrow>
        \<not> in_time (clock (penv P)) ts' (clock_calls s)"
    have "timed_round P S body r0 ts s = returns (r0, at_reading i ?s)"
      unfolding round by (simp add: g(1) scope_def owns_def guard_destroy_def)
    moreover have "\<not> in_time (clock (penv P)) ts (clock_calls s)" by (rule late [OF refl]) (simp add: t(3) calls)
    moreover have "clock_calls (at_reading i ?s) = i" by (simp add: at_reading_def)
    ultimately show ?thesis using g(2) t(2) calls member_at_kept(1) [OF at1, of i]
      by (intro exI [of _ r0] exI [of _ "at_reading i ?s"]) simp
  next
    fix i l1
    assume g: "guard_timed (site_side S) (ts - t) ?s = returns (True, relocked i ((lockers (snd ?s))(a := l1)) ?s)"
      "clock_calls ?s \<le> i" and l1: "\<forall>n. side_unlock S (n, l1) = returns (n, lockers (snd ?s) a)"
    let ?s2 = "relocked i ((lockers (snd ?s))(a := l1)) ?s"
    obtain s3 where s3: "body ?s2 = returns (b, s3)" "member_in P ptr a ba rs r s3 c'" "i \<le> clock_calls s3"
      "lockers (snd s3) = (lockers (snd ?s))(a := l1)"
      using body [OF member_in_kept(1) [OF m(9), of i "(lockers (snd ?s))(a := l1)"]] by auto
    let ?s4 = "with_lockers ((lockers (snd s3))(a := new_shared_locker)) s3"
    have "m_plocker (fst s3) = Some a" using s3(2) by (simp add: member_in_def)
    then have "side_unlock (site_side S) s3 = returns ?s4"
      by (rule release_free) (use s3(4) l1 m(6) in simp_all)
    then have "guard_destroy (site_side S) True s3 = returns ?s4"
      by (simp add: guard_destroy_def returns_def crashes_def)
    then have "timed_round P S body r0 ts s = returns (b, ?s4)"
      unfolding round by (simp add: g(1) scope_def owns_def s3(1))
    moreover have "clock_calls ?s4 = clock_calls s3" by (simp add: with_lockers_def)
    ultimately show ?thesis using member_released [OF s3(2)] s3(3) g(2) t(2) calls
      by (intro exI [of _ b] exI [of _ ?s4]) simp
  qed
qed

lemma member_barrier:
  assumes h: "member_in P ptr a ba rs r s c" and f: "\<And>b. \<exists>x b'. f b = returns (x, b')"
  shows "\<exists>x s'. on_barrier f s = returns (x, s') \<and> member_in P ptr a ba rs r s' c \<and> clock_calls s' = clock_calls s
    \<and> lockers (snd s') = lockers (snd s)"
proof -
  have ba: "m_pbarrier (fst s) = Some ba" using h by (simp add: member_in_def)
  obtain x b' where x: "f (barriers (snd s) ba) = returns (x, b')" using f by blast
  have "on_barrier f s = returns (x, fst s, (snd s)\<lparr>barriers := (barriers (snd s))(ba := b')\<rparr>)"
    using ba x by (simp add: on_barrier_def)
  with member_in_kept(4) [OF h] show ?thesis by fastforce
qed

lemma member_knock:
  assumes P: "multi_like P" and live: "clock_live (clock (penv P))" and h: "member_in P ptr a ba rs r s c"
    and l1: "\<forall>n. side_unlock S (n, lockers (snd s) a) = returns (n, new_shared_locker)"
  shows "\<exists>x s'. knock_and_expect P S ts s = returns (x, s') \<and> clock_calls s \<le> clock_calls s'
    \<and> (x = None \<or> x = Some []) \<and> member_at P ptr a ba rs r s' c"
proof -
  let ?knock = "\<lambda>b. and_then (as_run (bar_knock (pbar P) b)) (\<lambda>b1. returns ((), b1))"
  have "\<exists>u b'. ?knock b = returns (u, b')" for b using multi_like_cases(4) [OF P live, of b] by auto
  from member_barrier [where f = ?knock, OF h this] obtain u s2 where s2: "on_barrier ?knock s = returns (u, s2)"
    "member_in P ptr a ba rs r s2 c" "clock_calls s2 = clock_calls s" "lockers (snd s2) = lockers (snd s)" by blast
  let ?s3 = "with_lockers ((lockers (snd s2))(a := new_shared_locker)) s2"
  have "m_plocker (fst s2) = Some a" using s2(2) by (simp add: member_in_def)
  then have "side_unlock (site_side S) s2 = returns ?s3" by (rule release_free) (use l1 s2(4) in simp_all)
  then have u: "guard_unlock (site_side S) True s2 = returns (False, ?s3)" by (simp add: guard_unlock_def)
  have at3: "member_at P ptr a ba rs r ?s3 c" by (rule member_released [OF s2(2)])
  obtain t j where t: "now P ?s3 = returns (t, at_reading (Suc j) ?s3)" "clock_calls ?s3 \<le> j"
    by (rule now_cases [OF live])
  note at4 = member_at_kept(1) [OF at3, of "Suc j"]
  have "\<exists>x b'. returns (bar_expect (pbar P) (ts - t) b) = returns (x, b')" for b
    by (cases "bar_expect (pbar P) (ts - t) b") auto
  from member_barrier [where f = "\<lambda>b. returns (bar_expect (pbar P) (ts - t) b)", OF member_at_facts(9) [OF at4] this]
  obtain opened s5 where s5: "on_barrier (\<lambda>b. returns (bar_expect (pbar P) (ts - t) b)) (at_reading (Suc j) ?s3)
      = returns (opened, s5)" "member_in P ptr a ba rs r s5 c" "clock_calls s5 = clock_calls (at_reading (Suc j) ?s3)"
    "lockers (snd s5) = lockers (snd (at_reading (Suc j) ?s3))"
    by blast
  have "clock_calls ?s3 = clock_calls s" using s2(3) by (simp add: with_lockers_def)
  moreover have "clock_calls s5 = Suc j" using s5(3) by (simp add: at_reading_def)
  moreover have "member_at P ptr a ba rs r s5 c"
    using s5(2,4) member_at_facts(6) [OF at4] by (simp add: member_at_def)
  ultimately show ?thesis using s2(1) u t s5(1) by (auto simp: knock_and_expect_def guard_destroy_def)
qed

lemma member_get_round:
  assumes P: "multi_like P" and at: "member_at P ptr a ba rs r s c" and C: "v_get C = simple_connector_get P"
  shows "\<exists>x s'. get_round P C ts s = returns (x, s') \<and> clock_calls s \<le> clock_calls s' \<and> member_at P ptr a ba rs r s' c
    \<and> (case x of Some ps \<Rightarrow> read_message (gmem (snd s')) ps = mc_get r c
       | None \<Rightarrow> mc_get r c = None \<or> \<not> in_time (clock (penv P)) ts (clock_calls s))"
proof -
  let ?S = "lock_to_get (plock P)"
  have live: "clock_live (clock (penv P))" by (rule member_at_facts(5) [OF at])
  have S: "timed_enters (clock (penv P)) ?S new_shared_locker"
    using P free_lock_enters by (auto simp: multi_like_def spinlocker_interface_def)
  obtain t j where t: "now P s = returns (t, at_reading (Suc j) s)" "clock_calls s \<le> j"
    "get_monotonic_time (clock (penv P)) (clock_calls s) = Some (t, Suc j)"
    by (rule now_reading [OF live])
  let ?s = "at_reading (Suc j) s"
  note at1 = member_at_kept(1) [OF at, of "Suc j"]
  note m = member_at_facts [OF at1]
  have calls: "clock_calls ?s = Suc j" by (simp add: at_reading_def)
  show ?thesis
  proof (rule guard_free [OF live m(1), where S = ?S and timeout = "ts - t" and k = "clock_calls s"])
    show "timed_enters (clock (penv P)) ?S (lockers (snd ?s) a)" using S m(6) by simp
  next
    fix i assume g: "guard_timed (site_side ?S) (ts - t) ?s = returns (False, at_reading i ?s)" "clock_calls ?s \<le> i"
      and late: "\<And>ts' t'. ts - t = ts' - t' \<Longrightarrow>
        get_monotonic_time (clock (penv P)) (clock_calls s) = Some (t', clock_calls ?s) \<Longrightarrow>
        \<not> in_time (clock (penv P)) ts' (clock_calls s)"
    have "get_round P C ts s = returns (None, at_reading i ?s)"
      by (simp add: get_round_def t(1) g(1) timed_get_round_def owns_def guard_destroy_def)
    moreover have "\<not> in_time (clock (penv P)) ts (clock_calls s)" by (rule late [OF refl]) (simp add: t(3) calls)
    moreover have "clock_calls (at_reading i ?s) = i" by (simp add: at_reading_def)
    ultimately show ?thesis using g(2) t(2) calls member_at_kept(1) [OF at1, of i]
      by (intro exI [of _ None] exI [of _ "at_reading i ?s"]) simp
  next
    fix i l1
    assume g: "guard_timed (site_side ?S) (ts - t) ?s = returns (True, relocked i ((lockers (snd ?s))(a := l1)) ?s)"
      "clock_calls ?s \<le> i" and l1: "\<forall>n. side_unlock ?S (n, l1) = returns (n, lockers (snd ?s) a)"
    let ?s2 = "relocked i ((lockers (snd ?s))(a := l1)) ?s"
    obtain ps s3 where s3: "simple_connector_get P ?s2 = returns (ps, s3)" "read_message (gmem (snd s3)) ps = mc_get r c"
      "member_in P ptr a ba rs r s3 c" "clock_calls s3 = i" "lockers (snd s3) = (lockers (snd ?s))(a := l1)"
      using member_get [OF member_in_kept(1) [OF m(9), of i "(lockers (snd ?s))(a := l1)"]] by auto
    have unlock: "\<forall>n. side_unlock ?S (n, lockers (snd s3) a) = returns (n, new_shared_locker)"
      using l1 m(6) s3(5) by simp
    show ?thesis
    proof (cases "ps = []")
      case False
      let ?s4 = "with_lockers ((lockers (snd s3))(a := new_shared_locker)) s3"
      have "m_plocker (fst s3) = Some a" using s3(3) by (simp add: member_in_def)
      then have "side_unlock (site_side ?S) s3 = returns ?s4" by (rule release_free) (use unlock in simp_all)
      then have "guard_destroy (site_side ?S) True s3 = returns ?s4"
        by (simp add: guard_destroy_def returns_def crashes_def)
      then have "get_round P C ts s = returns (Some ps, ?s4)"
        using False by (simp add: get_round_def t(1) g(1) timed_get_round_def owns_def C s3(1))
      moreover have "clock_calls ?s4 = i" "gmem (snd ?s4) = gmem (snd s3)" using s3(4) by (simp_all add: with_lockers_def)
      ultimately show ?thesis using member_released [OF s3(3)] s3(2) g(2) t(2) calls
        by (intro exI [of _ "Some ps"] exI [of _ ?s4]) simp
    next
      case True
      then have none: "mc_get r c = None" using s3(2) by (simp add: read_message_def)
      obtain x s' where x: "knock_and_expect P ?S ts s3 = returns (x, s')" "clock_calls s3 \<le> clock_calls s'"
        "x = None \<or> x = Some []" "member_at P ptr a ba rs r s' c"
        using member_knock [OF P live s3(3) unlock] by blast
      have "get_round P C ts s = knock_and_expect P ?S ts s3"
        using True by (simp add: get_round_def t(1) g(1) timed_get_round_def owns_def C s3(1) knock_and_expect_def Let_def)
      then show ?thesis using x s3(4) g(2) t(2) calls none
        by (intro exI [of _ x] exI [of _ s']) (auto simp: read_message_def)
    qed
  qed
qed

section \<open>The timed operations\<close>

text \<open>A push that is refused has cleaned the ring; the next attempts find it so.\<close>

lemma mc_lowest_clean:
  assumes "mc_ok c"
  shows "mc_lowest (mc_clean c) = 0"
proof (cases "mc_subs c = {}")
  case True
  then show ?thesis by (simp add: mc_lowest_def mc_clean_def Let_def)
next
  case False
  have fin: "finite (mc_subs c)" using assms by (simp add: mc_ok_def)
  then have "mc_lowest c \<in> mc_at c ` mc_subs c" using Min_in [of "mc_at c ` mc_subs c"] False by (simp add: mc_lowest_def)
  then obtain r where r: "r \<in> mc_subs c" "mc_at c r = mc_lowest c" by (metis imageE)
  have "Min (mc_at (mc_clean c) ` mc_subs c) \<le> mc_at (mc_clean c) r" using fin r(1) by (intro Min_le) auto
  also have "\<dots> = 0" using r(2) by (simp add: mc_clean_def Let_def)
  finally show ?thesis using False by (simp add: mc_lowest_def) (simp add: mc_clean_def Let_def)
qed

lemma mc_push_again:
  assumes "mc_ok c" and "\<not> fst (mc_push x c)"
  shows "mc_push x (snd (mc_push x c)) = (False, snd (mc_push x c))"
proof -
  let ?c = "mc_clean c"
  have "mc_clean ?c = ?c"
    using mc_lowest_clean [OF assms(1)] by (simp add: mc_clean_def [of ?c] Let_def) (simp add: mc_clean_def Let_def)
  then show ?thesis using assms(2) by (auto simp: mc_push_def Let_def split: if_splits)
qed

lemma member_timed_push:
  assumes P: "multi_like P" and ample: "ample (clock (penv P)) timeout" and alone: "\<And>k g. meanwhile P k g = g"
    and at: "member_at P ptr a ba rs r s c" and ne: "data \<noteq> []"
  shows "\<exists>s'. connector_timed_push P (multi_bidirectional_connector P) tag data timeout s
      = returns (fst (mc_push (tag, data) c), s') \<and> member_at P ptr a ba rs r s' (snd (mc_push (tag, data) c))"
proof -
  let ?x = "(tag, data)" and ?C = "simple_connector P Shared_queue"
  let ?b = "fst (mc_push ?x c)" and ?c = "snd (mc_push ?x c)"
  let ?round = "\<lambda>ts. timed_round P (lock_to_push (plock P)) (push_and_open P ?C tag data) False ts"
  note m = member_at_facts [OF at]
  have runs: "clock_runs (clock (penv P))" using P by (simp add: multi_like_def)
  have S: "timed_enters (clock (penv P)) (lock_to_push (plock P)) new_shared_locker"
    using P free_lock_enters by (auto simp: multi_like_def spinlocker_interface_def)
  let ?J = "\<lambda>s. member_at P ptr a ba rs r s ?c \<and> \<not> ?b" and ?Q = "\<lambda>b s. member_at P ptr a ba rs r s ?c \<and> ?b"
  have round: "\<exists>b s'. ?round ts s = returns (b, s') \<and> clock_calls s \<le> clock_calls s'
      \<and> (b = fst (mc_push ?x d) \<and> member_at P ptr a ba rs r s' (snd (mc_push ?x d))
        \<or> b = False \<and> member_at P ptr a ba rs r s' d \<and> \<not> in_time (clock (penv P)) ts (clock_calls s))"
    if "member_at P ptr a ba rs r s d" for ts s d
    by (rule member_round [OF that S]) (rule member_push [OF _ ne])
  have first: "\<exists>b s'. ?round ts s = returns (b, s') \<and> clock_calls s \<le> clock_calls s' \<and> (if b then ?Q b s' else ?J s')"
    if at: "member_at P ptr a ba rs r s c" and in_time: "in_time (clock (penv P)) ts (clock_calls s)" for ts s
  proof -
    obtain b s' where b: "?round ts s = returns (b, s')" "clock_calls s \<le> clock_calls s'"
      "b = ?b \<and> member_at P ptr a ba rs r s' ?c
        \<or> b = False \<and> member_at P ptr a ba rs r s' c \<and> \<not> in_time (clock (penv P)) ts (clock_calls s)"
      using round [OF at, of ts] by (elim exE conjE) (rule that)
    then show ?thesis using in_time by (intro exI [of _ b] exI [of _ s']) auto
  qed
  have rest: "\<exists>b s'. ?round ts s = returns (b, s') \<and> clock_calls s \<le> clock_calls s' \<and> (if b then ?Q b s' else ?J s')"
    if J: "?J s" for ts s
  proof -
    have again: "mc_push ?x ?c = (False, ?c)" using mc_push_again [OF m(4)] J by blast
    show ?thesis using round [OF conjunct1 [OF J], of ts] J by (auto simp: again)
  qed
  have "\<exists>b s'. and_then (now P s) (\<lambda>(t, s1). timed_push_loop P ?C tag data (t + timeout) 0 s1) = returns (b, s')
      \<and> (if b then ?Q b s' else ?J s')"
    using first_attempt_returns [where I = "\<lambda>s. member_at P ptr a ba rs r s c" and J = ?J and Q = ?Q
        and f = "\<lambda>ts b k s. timed_push_loop P ?C tag data ts k s" and r = False,
        OF push_waits m(5) runs ample alone member_at_kept(1) _ first rest at] member_at_kept(1) by blast
  then obtain b s' where b: "safe_timed_push P ?C tag data timeout s = returns (b, s')" "if b then ?Q b s' else ?J s'"
    unfolding safe_timed_push_def by blast
  then have "b = ?b" "member_at P ptr a ba rs r s' ?c" by (auto split: if_splits)
  with b(1) m(7) show ?thesis by (simp add: connector_timed_push_def)
qed

lemma member_timed_get:
  assumes P: "multi_like P" and ample: "ample (clock (penv P)) timeout" and alone: "\<And>k g. meanwhile P k g = g"
    and at: "member_at P ptr a ba rs r s c"
  shows "\<exists>ps s'. connector_timed_get P (multi_bidirectional_connector P) timeout s = returns (ps, s')
    \<and> read_message (gmem (snd s')) ps = mc_get r c \<and> member_at P ptr a ba rs r s' c"
proof -
  let ?C = "simple_connector P Shared_queue"
  note m = member_at_facts [OF at]
  have runs: "clock_runs (clock (penv P))" using P by (simp add: multi_like_def)
  have C: "v_get ?C = simple_connector_get P" by (simp add: simple_connector_def)
  let ?J = "\<lambda>s. member_at P ptr a ba rs r s c \<and> mc_get r c = None"
  let ?Q = "\<lambda>x s. member_at P ptr a ba rs r s c \<and> read_message (gmem (snd s)) (found x) = mc_get r c"
  have first: "\<exists>x s'. get_round P ?C ts s = returns (x, s') \<and> clock_calls s \<le> clock_calls s'
      \<and> (if x \<noteq> None then ?Q x s' else ?J s')"
    if "member_at P ptr a ba rs r s c" "in_time (clock (penv P)) ts (clock_calls s)" for ts s
    using member_get_round [OF P that(1) C, of ts] that(2) by (fastforce simp: found_def split: option.splits)
  have rest: "\<exists>x s'. get_round P ?C ts s = returns (x, s') \<and> clock_calls s \<le> clock_calls s'
      \<and> (if x \<noteq> None then ?Q x s' else ?J s')" if "?J s" for ts s
    using member_get_round [OF P conjunct1 [OF that] C, of ts] that by (fastforce simp: found_def split: option.splits)
  have "\<exists>x s'. and_then (now P s) (\<lambda>(t, s1). timed_get_loop P ?C (t + timeout) 0 s1) = returns (found x, s')
      \<and> (if x \<noteq> None then ?Q x s' else ?J s')"
    using first_attempt_returns [where I = "\<lambda>s. member_at P ptr a ba rs r s c" and J = ?J and Q = ?Q
        and f = "\<lambda>ts x k s. timed_get_loop P ?C ts k s" and r = None,
        OF get_waits m(5) runs ample alone member_at_kept(1) _ first rest at] member_at_kept(1) by blast
  then obtain x s' where x: "safe_timed_get P ?C timeout s = returns (found x, s')" "if x \<noteq> None then ?Q x s' else ?J s'"
    unfolding safe_timed_get_def by blast
  then have "read_message (gmem (snd s')) (found x) = mc_get r c" "member_at P ptr a ba rs r s' c"
    by (auto simp: found_def read_message_def split: if_splits)
  with x(1) m(8) show ?thesis by (simp add: connector_timed_get_def)
qed

lemma member_timed_pop:
  assumes P: "multi_like P" and ample: "ample (clock (penv P)) timeout" and alone: "\<And>k g. meanwhile P k g = g"
    and at: "member_at P ptr a ba rs r s c"
  shows "\<exists>s'. connector_timed_pop P (multi_bidirectional_connector P) timeout s = returns (fst (mc_pop r c), s')
    \<and> member_at P ptr a ba rs r s' (snd (mc_pop r c))"
proof -
  let ?C = "simple_connector P Shared_queue"
  let ?b = "fst (mc_pop r c)" and ?c = "snd (mc_pop r c)"
  let ?round = "\<lambda>ts. timed_round P (lock_to_pop (plock P)) (v_pop ?C) False ts"
  note m = member_at_facts [OF at]
  have runs: "clock_runs (clock (penv P))" using P by (simp add: multi_like_def)
  have C: "v_pop ?C = simple_connector_pop P" by (simp add: simple_connector_def)
  have S: "timed_enters (clock (penv P)) (lock_to_pop (plock P)) new_shared_locker"
    using P free_lock_enters by (auto simp: multi_like_def spinlocker_interface_def)
  have same: "\<not> ?b \<longrightarrow> ?c = c" by (simp add: mc_pop_def)
  let ?J = "\<lambda>s. member_at P ptr a ba rs r s c \<and> \<not> ?b" and ?Q = "\<lambda>b s. member_at P ptr a ba rs r s ?c \<and> ?b"
  have round: "\<exists>b s'. ?round ts s = returns (b, s') \<and> clock_calls s \<le> clock_calls s'
      \<and> (b = ?b \<and> member_at P ptr a ba rs r s' ?c
        \<or> b = False \<and> member_at P ptr a ba rs r s' c \<and> \<not> in_time (clock (penv P)) ts (clock_calls s))"
    if "member_at P ptr a ba rs r s c" for ts s
    unfolding C by (rule member_round [OF that S]) (rule member_pop)
  have first: "\<exists>b s'. ?round ts s = returns (b, s') \<and> clock_calls s \<le> clock_calls s' \<and> (if b then ?Q b s' else ?J s')"
    if at: "member_at P ptr a ba rs r s c" and in_time: "in_time (clock (penv P)) ts (clock_calls s)" for ts s
  proof -
    obtain b s' where b: "?round ts s = returns (b, s')" "clock_calls s \<le> clock_calls s'"
      "b = ?b \<and> member_at P ptr a ba rs r s' ?c
        \<or> b = False \<and> member_at P ptr a ba rs r s' c \<and> \<not> in_time (clock (penv P)) ts (clock_calls s)"
      using round [OF at, of ts] by (elim exE conjE) (rule that)
    then show ?thesis using in_time same by (intro exI [of _ b] exI [of _ s']) auto
  qed
  have rest: "\<exists>b s'. ?round ts s = returns (b, s') \<and> clock_calls s \<le> clock_calls s' \<and> (if b then ?Q b s' else ?J s')"
    if J: "?J s" for ts s
    using round [OF conjunct1 [OF J], of ts] J same by auto
  have "\<exists>b s'. and_then (now P s) (\<lambda>(t, s1). timed_pop_loop P ?C (t + timeout) 0 s1) = returns (b, s')
      \<and> (if b then ?Q b s' else ?J s')"
    using first_attempt_returns [where I = "\<lambda>s. member_at P ptr a ba rs r s c" and J = ?J and Q = ?Q
        and f = "\<lambda>ts b k s. timed_pop_loop P ?C ts k s" and r = False,
        OF pop_waits m(5) runs ample alone member_at_kept(1) _ first rest at] member_at_kept(1) by blast
  then obtain b s' where b: "safe_timed_pop P ?C timeout s = returns (b, s')" "if b then ?Q b s' else ?J s'"
    unfolding safe_timed_pop_def by blast
  then have "b = ?b" "member_at P ptr a ba rs r s' ?c" using same by (auto split: if_splits)
  with b(1) m(8) show ?thesis by (simp add: connector_timed_pop_def)
qed

section \<open>All connectors of a queue\<close>

text \<open>The state: the connector of every subscriber, and the globals.\<close>

type_synonym ('h, 'o, 'l, 'b) crowd = "(nat \<Rightarrow> 'h connector) \<times> ('o, 'l, 'b) globals"

definition crowd_enq ::
  "('h, 'o, shared_locker, 'x barrier) platform \<Rightarrow> timespec \<Rightarrow> nat \<Rightarrow> message \<Rightarrow> ('h, 'o, shared_locker, 'x barrier) crowd
    \<Rightarrow> (bool \<times> ('h, 'o, shared_locker, 'x barrier) crowd) run" where
  "crowd_enq P timeout r x s =
     and_then (connector_timed_push P (multi_bidirectional_connector P) (fst x) (snd x) timeout (fst s r, snd s))
       (\<lambda>(b, c1, g1). returns (b, (fst s)(r := c1), g1))"

definition crowd_front ::
  "('h, 'o, shared_locker, 'x barrier) platform \<Rightarrow> timespec \<Rightarrow> nat \<Rightarrow> ('h, 'o, shared_locker, 'x barrier) crowd
    \<Rightarrow> (message option \<times> ('h, 'o, shared_locker, 'x barrier) crowd) run" where
  "crowd_front P timeout r s =
     and_then (connector_timed_get P (multi_bidirectional_connector P) timeout (fst s r, snd s))
       (\<lambda>(ps, c1, g1). returns (read_message (gmem g1) ps, (fst s)(r := c1), g1))"

definition crowd_deq ::
  "('h, 'o, shared_locker, 'x barrier) platform \<Rightarrow> timespec \<Rightarrow> nat \<Rightarrow> ('h, 'o, shared_locker, 'x barrier) crowd
    \<Rightarrow> (bool \<times> ('h, 'o, shared_locker, 'x barrier) crowd) run" where
  "crowd_deq P timeout r s =
     and_then (connector_timed_pop P (multi_bidirectional_connector P) timeout (fst s r, snd s))
       (\<lambda>(b, c1, g1). returns (b, (fst s)(r := c1), g1))"

text \<open>Every subscriber has an open connector on the one lock and barrier, and the lock is free.\<close>

definition crowd_holds ::
  "('h, 'o, shared_locker, 'x barrier) platform \<Rightarrow> nat \<Rightarrow> timespec \<Rightarrow> ('h, 'o, shared_locker, 'x barrier) crowd
    \<Rightarrow> multicast \<Rightarrow> bool" where
  "crowd_holds P ptr timeout s c \<longleftrightarrow> multi_like P \<and> ample (clock (penv P)) timeout \<and> (\<forall>k g. meanwhile P k g = g)
     \<and> group_holds (penv P) ptr (wld (snd s), \<lambda>r. the (m_pqueue (fst s r))) c
     \<and> (\<exists>a ba. lockers (snd s) a = new_shared_locker
          \<and> (\<forall>r \<in> mc_subs c. may_push (fst s r) \<and> may_get (fst s r) \<and> m_plocker (fst s r) = Some a
               \<and> m_pbarrier (fst s r) = Some ba \<and> m_pqueue (fst s r) \<noteq> None))"

lemma crowd_holds_ok: "crowd_holds P ptr timeout s c \<Longrightarrow> mc_ok c"
  using group_holds_ok by (auto simp: crowd_holds_def)

lemma crowd_call:
  assumes h: "crowd_holds P ptr timeout s c" and r: "r \<in> mc_subs c" and subs: "mc_subs c' = mc_subs c"
    and call: "\<And>a ba rs. multi_like P \<Longrightarrow> ample (clock (penv P)) timeout \<Longrightarrow> (\<And>k g. meanwhile P k g = g) \<Longrightarrow>
      member_at P ptr a ba rs r (fst s r, snd s) c \<Longrightarrow>
      \<exists>v s'. f (fst s r, snd s) = returns (v, s') \<and> Q v s' \<and> member_at P ptr a ba rs r s' c'"
  shows "\<exists>v s'. f (fst s r, snd s) = returns (v, s') \<and> Q v s'
    \<and> crowd_holds P ptr timeout ((fst s)(r := fst s'), snd s') c'"
proof -
  let ?rs = "\<lambda>x. the (m_pqueue (fst s x))"
  obtain a ba where h': "multi_like P" "ample (clock (penv P)) timeout" "\<forall>k g. meanwhile P k g = g"
    "group_holds (penv P) ptr (wld (snd s), ?rs) c" "lockers (snd s) a = new_shared_locker"
    "\<forall>x \<in> mc_subs c. may_push (fst s x) \<and> may_get (fst s x) \<and> m_plocker (fst s x) = Some a
       \<and> m_pbarrier (fst s x) = Some ba \<and> m_pqueue (fst s x) \<noteq> None"
    using h unfolding crowd_holds_def by blast
  obtain q where q: "m_pqueue (fst s r) = Some q" using h'(6) r by blast
  then have "?rs(r := q) = ?rs" by auto
  then have "member_at P ptr a ba ?rs r (fst s r, snd s) c"
    using h'(4-6) r q by (auto simp: member_at_def member_in_def)
  then obtain v s' where s': "f (fst s r, snd s) = returns (v, s')" "Q v s'" "member_at P ptr a ba ?rs r s' c'"
    using call h'(1-3) by blast
  obtain q1 where q1: "m_pqueue (fst s') = Some q1" "group_holds (penv P) ptr (wld (snd s'), ?rs(r := q1)) c'"
    using s'(3) by (auto simp: member_at_def member_in_def)
  have "?rs(r := q1) = (\<lambda>x. the (m_pqueue (((fst s)(r := fst s')) x)))" using q1(1) by auto
  moreover have "\<forall>x \<in> mc_subs c'. may_push (((fst s)(r := fst s')) x) \<and> may_get (((fst s)(r := fst s')) x)
      \<and> m_plocker (((fst s)(r := fst s')) x) = Some a \<and> m_pbarrier (((fst s)(r := fst s')) x) = Some ba
      \<and> m_pqueue (((fst s)(r := fst s')) x) \<noteq> None"
    using h'(6) s'(3) q1(1) subs by (auto simp: member_at_def member_in_def)
  moreover have "lockers (snd s') a = new_shared_locker" by (rule member_at_facts(6) [OF s'(3)])
  ultimately have "crowd_holds P ptr timeout ((fst s)(r := fst s'), snd s') c'"
    using h'(1-3) q1(2) unfolding crowd_holds_def by auto
  with s'(1,2) show ?thesis by blast
qed

lemma crowd_enq_law:
  assumes h: "crowd_holds P ptr timeout s c" and r: "r \<in> mc_subs c" and ne: "snd x \<noteq> []"
  shows "\<exists>s'. crowd_enq P timeout r x s = returns (fst (mc_push x c), s') \<and> crowd_holds P ptr timeout s' (snd (mc_push x c))"
proof -
  have subs: "mc_subs (snd (mc_push x c)) = mc_subs c"
    by (rule mc_push_unread(2) [OF crowd_holds_ok [OF h] prod.collapse [symmetric]])
  show ?thesis
    using crowd_call [where f = "connector_timed_push P (multi_bidirectional_connector P) (fst x) (snd x) timeout"
        and Q = "\<lambda>b s'. b = fst (mc_push x c)", OF h r subs] member_timed_push [where tag = "fst x" and data = "snd x"] ne
    by (fastforce simp: crowd_enq_def)
qed

lemma crowd_front_law:
  assumes h: "crowd_holds P ptr timeout s c" and r: "r \<in> mc_subs c"
  shows "\<exists>s'. crowd_front P timeout r s = returns (mc_get r c, s') \<and> crowd_holds P ptr timeout s' c"
  using crowd_call [where f = "connector_timed_get P (multi_bidirectional_connector P) timeout"
      and Q = "\<lambda>ps s'. read_message (gmem (snd s')) ps = mc_get r c", OF h r refl] member_timed_get
  by (fastforce simp: crowd_front_def)

lemma crowd_deq_law:
  assumes h: "crowd_holds P ptr timeout s c" and r: "r \<in> mc_subs c"
  shows "\<exists>s'. crowd_deq P timeout r s = returns (fst (mc_pop r c), s') \<and> crowd_holds P ptr timeout s' (snd (mc_pop r c))"
proof -
  have subs: "mc_subs (snd (mc_pop r c)) = mc_subs c"
    by (rule mc_pop_unread(3) [OF crowd_holds_ok [OF h] r prod.collapse [symmetric]])
  show ?thesis
    using crowd_call [where f = "connector_timed_pop P (multi_bidirectional_connector P) timeout"
        and Q = "\<lambda>b s'. b = fst (mc_pop r c)", OF h r subs] member_timed_pop
    by (fastforce simp: crowd_deq_def)
qed

interpretation crowd: refines_multicast "crowd_enq P timeout" "crowd_front P timeout" "crowd_deq P timeout"
    "crowd_holds P ptr timeout" for P timeout ptr
  by unfold_locales (fact crowd_holds_ok crowd_enq_law crowd_front_law crowd_deq_law)+

lemma sample_ample: "ample (clock (penv multi_sample)) (Timespec 10 0)"
proof -
  have "get_monotonic_time sample_clock i = Some (Timespec (1000 + int i) 0, Suc i)" for i
    by (subst get_monotonic_time.simps) (simp add: sample_clock_def)
  then show ?thesis
    by (auto simp: ample_def in_time_def multi_sample_def sample_env_def less_timespec_def timespec_less_def
      plus_timespec_def timespec_add_def minus_timespec_def timespec_sub_def)
qed

lemma sample_crowd:
  obtains s :: "(string, seg_table, shared_locker, nat barrier) crowd"
  where "crowd_holds multi_sample 64 (Timespec 10 0) s
    \<lparr>mc_cap = 100, mc_pos = 0, mc_msgs = [], mc_subs = {2, 1}, mc_at = \<lambda>_. 0\<rparr>"
proof -
  obtain m2 q q2 where h: "group_holds sample_env 64 (\<lparr>mem = m2, readings = 0\<rparr>, (\<lambda>_. q)(2 := q2))
       \<lparr>mc_cap = 100, mc_pos = 0, mc_msgs = [], mc_subs = {2, 1}, mc_at = \<lambda>_. 0\<rparr>"
    by (rule sample_group)
  let ?o = "\<lambda>r :: nat. \<lparr>c_name = ''q0'', c_type = CON_BIDIR, m_opened = True, m_memory = new_shared_memory ''q0'',
    m_pqueue = Some (if r = 2 then q2 else q), m_plocker = Some 8, m_pbarrier = Some 20\<rparr>"
  let ?g = "\<lparr>sys = \<lparr>segments = Map.empty, next_address = 0\<rparr>, wld = \<lparr>mem = m2, readings = 0\<rparr>,
    lockers = (\<lambda>_. new_shared_locker), barriers = (\<lambda>_. new_barrier 0)\<rparr>"
  have "(\<lambda>r. the (m_pqueue (?o r))) = (\<lambda>_. q)(2 := q2)" by auto
  moreover have "penv multi_sample = sample_env" "meanwhile multi_sample k g = g" for k g
    by (simp_all add: multi_sample_def)
  ultimately have "crowd_holds multi_sample 64 (Timespec 10 0) (?o, ?g)
      \<lparr>mc_cap = 100, mc_pos = 0, mc_msgs = [], mc_subs = {2, 1}, mc_at = \<lambda>_. 0\<rparr>"
    using h sample_ample by (simp add: crowd_holds_def may_push_def may_get_def)
  then show thesis by (rule that)
qed

section \<open>Properties\<close>

text \<open>
  C8. The open connectors that the subscribers of one shared queue without expiry have on it, of the
  multi bidirectional class, their lock free and their subscribers fixed, used with a timeout that
  leaves time for the first attempt of a call whatever it waits for: any sequence of timed gets,
  pops and pushes of non-empty messages, each running by itself, in any order, returns and behaves
  as the abstract multicast queue; each subscriber is left with what it had not read at the start
  and every message accepted during the run, in order, less those it popped itself.
\<close>

theorem multi_connectors_deliver_to_all:
  assumes "crowd_holds P ptr timeout s c" and "by_subscribers (mc_subs c) ps"
  shows "\<exists>os s' c'. members_run (crowd_enq P timeout) (crowd_front P timeout) (crowd_deq P timeout) ps s
      = returns (os, s') \<and> crowd_holds P ptr timeout s' c' \<and> mc_run ps c = (os, c')
    \<and> (\<forall>r \<in> mc_subs c. unread c' r
          = drop (pops (calls_of r ps os)) (unread c r @ accepted (map snd ps) os))"
  by (rule crowd.run_multicast [OF assms])

theorem multi_connectors_deliver_to_all_witness:
  "\<exists>s s'. members_run (crowd_enq multi_sample (Timespec 10 0)) (crowd_front multi_sample (Timespec 10 0))
      (crowd_deq multi_sample (Timespec 10 0))
      [(1, Push (7, [10, 11])), (2, Get), (2, Pop), (2, Pop), (1, Push (8, [12])), (1, Get), (1, Pop), (2, Get)] s
    = returns ([Pushed True, Got (Some (7, [10, 11])), Popped True, Popped False, Pushed True,
        Got (Some (7, [10, 11])), Popped True, Got (Some (8, [12]))], s')"
proof -
  obtain s :: "(string, seg_table, shared_locker, nat barrier) crowd"
    where s: "crowd_holds multi_sample 64 (Timespec 10 0) s
      \<lparr>mc_cap = 100, mc_pos = 0, mc_msgs = [], mc_subs = {2, 1}, mc_at = \<lambda>_. 0\<rparr>"
    by (rule sample_crowd)
  obtain os s' c' where run: "members_run (crowd_enq multi_sample (Timespec 10 0)) (crowd_front multi_sample (Timespec 10 0))
      (crowd_deq multi_sample (Timespec 10 0))
      [(1, Push (7, [10, 11])), (2, Get), (2, Pop), (2, Pop), (1, Push (8, [12])), (1, Get), (1, Pop), (2, Get)] s
      = returns (os, s')"
    "mc_run [(1, Push (7, [10, 11])), (2, Get), (2, Pop), (2, Pop), (1, Push (8, [12])), (1, Get), (1, Pop), (2, Get)]
      \<lparr>mc_cap = 100, mc_pos = 0, mc_msgs = [], mc_subs = {2, 1}, mc_at = \<lambda>_. 0\<rparr> = (os, c')"
    using multi_connectors_deliver_to_all [OF s, of "[(1, Push (7, [10, 11])), (2, Get), (2, Pop), (2, Pop),
        (1, Push (8, [12])), (1, Get), (1, Pop), (2, Get)]"] by auto
  have "os = [Pushed True, Got (Some (7, [10, 11])), Popped True, Popped False, Pushed True,
      Got (Some (7, [10, 11])), Popped True, Got (Some (8, [12]))]"
    using run(2) by (auto simp: mc_push_def mc_clean_def mc_lowest_def mc_get_def mc_pop_def fits_def span_def
      Let_def after_def)
  with run(1) show ?thesis by blast
qed

end
