(* ===== verification/Multi_Life.thy ===== *)
theory Multi_Life
  imports Multi_Group Connector_Life
begin

text \<open>
  The life of a group of multi connectors up to its first message: one subscriber creates the
  connector, the others open it by its name.
\<close>

section \<open>Queues without messages\<close>

text \<open>A group of subscribers does not notice writes outside the headers of its empty queue.\<close>

lemma group_holds_away:
  assumes h: "group_holds E ptr (w, rs) c" and empty: "mc_msgs c = []"
    and w: "only_changes (mem w) (mem w') S" and away: "S \<inter> {ptr..<ptr + 32} = {}"
  shows "group_holds E ptr (w', rs) c"
proof -
  have same: "load32 (mem w') p = load32 (mem w) p" if "ptr \<le> p" "p + 4 \<le> ptr + 32" for p
    by (intro load32_unchanged only_changes_unchanged [OF w]) (use away that in auto)
  have hdr: "unchanged (mem w) (mem w') (base_ptr (ring_object ptr)) 24"
    by (rule only_changes_unchanged [OF w]) (use away in auto)
  note f = header_unchanged [OF hdr]
  note h' = h [unfolded group_holds_def, simplified]
  have g: "group_inv (mem w) ptr (mc_subs c) rs [] (mc_at c)" using h' empty by simp
  have "group_inv (mem w') ptr (mc_subs c) rs [] (mc_at c)"
    unfolding group_inv_def
  proof (intro conjI ballI)
    show "finite (mc_subs c)" "card (mc_subs c) < 4294967296" using g by (simp_all add: group_inv_def)
    show "load32 (mem w') ptr = of_nat (card (mc_subs c))" using g by (simp add: group_inv_def same)
    show "ring_state (mem w') (ring_object ptr) []"
      using g f by (simp add: group_inv_def ring_state_def header_ok_def)
    fix r assume r: "r \<in> mc_subs c"
    note gm = group_member [OF g r]
    show "base_ptr (rs r) = ptr + 8" "shared_ptr (rs r) = ptr" using g r by (simp_all add: group_inv_def)
    have "head_of (mem w') (rs r) = head_of (mem w) (rs r)" "cap_of (mem w') (rs r) = cap_of (mem w) (rs r)"
      using f by (simp_all only: base_ptr_cong [OF gm(1)])
    moreover have "s_counter (mem w') (rs r) = s_counter (mem w) (rs r)"
      using gm(3) by (simp add: s_counter_def same)
    ultimately show "reader (mem w') (rs r) [] (mc_at c r)" using reader_same [OF gm(4)] by simp
  qed simp_all
  then show ?thesis using h' f empty by (simp add: group_holds_def)
qed

section \<open>A group without messages\<close>

text \<open>An object of the class, open on the segment at \<open>a\<close>.\<close>

definition open_at :: "('h, 'o, 'l, 'b) platform \<Rightarrow> nat \<Rightarrow> 'h connector \<Rightarrow> bool" where
  "open_at P a c \<longleftrightarrow> c_type c = CON_BIDIR \<and> m_opened c \<and> m_plocker c = Some (a + 8)
     \<and> m_pbarrier c = Some (a + 8 + locker_size (plock P)) \<and> m_pqueue c \<noteq> None"

text \<open>
  The subscribers of \<open>c\<close> have their connectors on the segment of the name at \<open>a\<close>; its
  spinlock and its lock are free, and it counts them.
\<close>

definition gathered ::
  "('h, 'o, shared_locker, 'b) platform \<Rightarrow> ('o \<Rightarrow> string \<Rightarrow> (nat \<times> u64) option) \<Rightarrow> string \<Rightarrow> nat
    \<Rightarrow> ('h, 'o, shared_locker, 'b) crowd \<Rightarrow> multicast \<Rightarrow> bool" where
  "gathered P seg name a s c \<longleftrightarrow>
     group_holds (penv P) (queue_ptr P a) (wld (snd s), \<lambda>r. the (m_pqueue (fst s r))) c
     \<and> (\<forall>r \<in> mc_subs c. open_at P a (fst s r)) \<and> lockers (snd s) (a + 8) = new_shared_locker
     \<and> load32 (gmem (snd s)) a = LS_UNLOCKED \<and> users a (gmem (snd s)) = of_nat (card (mc_subs c))
     \<and> (\<exists>z. seg (sys (snd s)) name = Some (a, z))"

lemma gathered_holds:
  assumes "gathered P seg name a s c" and "multi_like P" and "ample (clock (penv P)) timeout"
    and "\<And>k g. meanwhile P k g = g"
  shows "crowd_holds P (queue_ptr P a) timeout s c"
  using assms unfolding crowd_holds_def gathered_def
  by (auto simp: open_at_def may_push_def may_get_def)

lemma header_group:
  assumes "group_holds E (queue_ptr P a) (w, rs) c" and "mc_msgs c = []" and "only_changes (mem w) (mem w') {a..<a + 8}"
  shows "group_holds E (queue_ptr P a) (w', rs) c"
  by (rule group_holds_away [OF assms]) (auto simp: queue_ptr_def)

lemma multi_enters: "multi_like P \<Longrightarrow> side_enters (scoped_lock_type (plock P)) new_shared_locker"
  by (auto simp: multi_like_def spinlocker_interface_def scoped_side_enters)

lemma multi_class_fields:
  "v_create (multi_bidirectional_connector P) = safe_create P Shared_queue (simple_connector P Shared_queue)"
  "v_open (multi_bidirectional_connector P) = safe_open P Shared_queue (simple_connector P Shared_queue)"
  by (simp_all add: multi_bidirectional_connector_def timed_safe_connector_def base_safe_connector_def
    bidirectional_connector_def)

section \<open>The calls\<close>

definition crowd_create ::
  "('h, 'o, shared_locker, 'b) platform \<Rightarrow> string \<Rightarrow> id_type \<Rightarrow> u64 \<Rightarrow> nat \<Rightarrow> ('h, 'o, shared_locker, 'b) crowd
    \<Rightarrow> (bool \<times> ('h, 'o, shared_locker, 'b) crowd) run" where
  "crowd_create P name cid sz r s =
     and_then (connector_create (multi_bidirectional_connector P) cid sz None None (new_connector name CON_BIDIR, snd s))
       (\<lambda>(b, c1, g1). returns (b, (fst s)(r := c1), g1))"

primrec crowd_open ::
  "('h, 'o, shared_locker, 'b) platform \<Rightarrow> string \<Rightarrow> nat list \<Rightarrow> ('h, 'o, shared_locker, 'b) crowd
    \<Rightarrow> (bool list \<times> ('h, 'o, shared_locker, 'b) crowd) run" where
  "crowd_open P name [] s = returns ([], s)"
| "crowd_open P name (r # rs) s =
     and_then (connector_open (multi_bidirectional_connector P) None (new_connector name CON_BIDIR, snd s))
       (\<lambda>(b, c1, g1). and_then (crowd_open P name rs ((fst s)(r := c1), g1)) (\<lambda>(bs, s'). returns (b # bs, s')))"

abbreviation empty_queue :: "nat \<Rightarrow> nat set \<Rightarrow> multicast" where
  "empty_queue cap R \<equiv> \<lparr>mc_cap = cap, mc_pos = 0, mc_msgs = [], mc_subs = R, mc_at = \<lambda>_. 0\<rparr>"

lemma gathered_create:
  fixes P :: "('h, 'o, shared_locker, 'x barrier) platform"
  assumes P: "multi_like P" and spec: "shm_spec (papi P) seg nm" and free: "seg (sys (snd s)) name = None"
    and E: "env_ok (penv P)" and sz: "0 < unat sz" "unat sz < 4294967296"
    and sizes: "locker_size (plock P) + barrier_size (pbar P) < 4294967296"
  shows "\<exists>a s'. crowd_create P name cid sz r s = returns (True, s') \<and> gathered P seg name a s' (empty_queue (unat sz) {r})
    \<and> q_id (gmem (snd s')) (the (m_pqueue (fst s' r))) = cid"
proof -
  let ?sz = "safe_memory_size P (simple_connector P Shared_queue) sz" and ?c = "empty_queue (unat sz) {r}"
  define built where "built w ptr m q \<longleftrightarrow> group_holds (penv P) ptr (w\<lparr>mem := m\<rparr>, \<lambda>_. q) ?c
    \<and> q_id m q = cid \<and> only_changes (mem w) m {ptr..<ptr + 32}" for w ptr m q
  have at: "atomic_spec (atomics (penv P))" using E by (simp add: env_ok_def)
  have new: "new_locker (plock P) = new_shared_locker" using P by (auto simp: multi_like_def spinlocker_interface_def)
  have make: "\<exists>m q. create_queue (penv P) w Shared_queue cid ptr sz None = returns (w\<lparr>mem := m\<rparr>, q) \<and> built w ptr m q" for w ptr
    using shared_create_group [OF E sz, of w cid ptr r] by (auto simp: built_def create_queue_def)
  obtain a c g2 m q where run: "safe_create P Shared_queue (simple_connector P Shared_queue) cid sz None None
        (new_connector name CON_BIDIR, snd s)
      = returns (True, c, mapmem (\<lambda>m. store32 (set_users a (users a m + 1) m) a LS_UNLOCKED) (g2\<lparr>wld := (wld g2)\<lparr>mem := m\<rparr>\<rparr>))"
    and q: "built (wld g2) (queue_ptr P a) m q" and zero: "\<forall>i \<in> {a..<a + unat ?sz}. gmem g2 i = 0"
    and c: "c_type c = CON_BIDIR" "m_pqueue c = Some q" "m_plocker c = Some (a + 8)"
      "m_pbarrier c = Some (a + 8 + locker_size (plock P))"
    and ls: "lockers g2 = (lockers (snd s))(a + 8 := new_locker (plock P))"
    and os: "seg (sys g2) = (seg (sys (snd s)))(name \<mapsto> (a, ?sz))"
    using safe_create_runs [where Q = Shared_queue and built = built, OF spec free at _ make] multi_enters [OF P] new by auto
  have q: "group_holds (penv P) (queue_ptr P a) ((wld g2)\<lparr>mem := m\<rparr>, \<lambda>_. q) ?c" "q_id m q = cid"
    "only_changes (gmem g2) m {queue_ptr P a..<queue_ptr P a + 32}"
    using q by (simp_all add: built_def)
  let ?fin = "mapmem (\<lambda>m. store32 (set_users a (users a m + 1) m) a LS_UNLOCKED) (g2\<lparr>wld := (wld g2)\<lparr>mem := m\<rparr>\<rparr>)"
  let ?c' = "c\<lparr>m_opened := True\<rparr>"
  have size: "unat ?sz = queue_ptr P 0 + 32 + unat sz"
    using safe_size [OF sz(2) sizes, of Shared_queue] by (simp add: header_size_def)
  then have "users a m = 0" by (intro zeroed_header [OF zero _ q(3)]) (simp_all add: queue_ptr_def)
  then have users: "users a (gmem ?fin) = 1" by (simp add: header_writes)
  have w: "only_changes m (gmem ?fin) {a..<a + 8}" by simp (rule header_writes(1))
  have h: "group_holds (penv P) (queue_ptr P a) (wld ?fin, \<lambda>_. q) ?c"
    by (rule header_group [OF q(1)]) (use w in simp_all)
  have rs: "(\<lambda>x. the (m_pqueue (((fst s)(r := ?c')) x))) = (\<lambda>x. the (m_pqueue (fst s x)))(r := q)"
    using c(2) by auto
  have "group_holds (penv P) (queue_ptr P a) (wld ?fin, \<lambda>x. the (m_pqueue (((fst s)(r := ?c')) x))) ?c"
    unfolding rs using h by (simp add: group_holds_def group_inv_def)
  moreover have "lockers ?fin (a + 8) = new_shared_locker" "load32 (gmem ?fin) a = LS_UNLOCKED"
    by (simp_all add: ls new)
  moreover have "\<exists>z. seg (sys ?fin) name = Some (a, z)" by (simp add: os)
  moreover have "open_at P a ?c'" using c by (simp add: open_at_def)
  ultimately have g: "gathered P seg name a ((fst s)(r := ?c'), ?fin) ?c"
    using users by (simp add: gathered_def)
  have "base_ptr q = queue_ptr P a + 8" using q(1) by (simp add: group_holds_def group_inv_def)
  then have "q_id (gmem ?fin) q = q_id m q"
    unfolding q_id_def by (intro load32_unchanged only_changes_unchanged [OF w]) (auto simp: queue_ptr_def)
  moreover have "crowd_create P name cid sz r s = returns (True, (fst s)(r := ?c'), ?fin)"
    by (simp add: crowd_create_def connector_create_def multi_class_fields run)
  ultimately show ?thesis using g c(2) q(2) by (intro exI [of _ a] exI [of _ "((fst s)(r := ?c'), ?fin)"]) simp
qed

lemma gathered_open:
  fixes P :: "('h, 'o, shared_locker, 'x barrier) platform"
  assumes P: "multi_like P" and spec: "shm_spec (papi P) seg nm" and quiet: "spinners P 0 LS_LOCKED = LS_LOCKED"
    and g: "gathered P seg name a s (empty_queue cap R)" and new: "r \<notin> R" and some: "R \<noteq> {}"
    and few: "card R + 1 < 4294967296"
  shows "\<exists>c1 g1. connector_open (multi_bidirectional_connector P) None (new_connector name CON_BIDIR, snd s)
      = returns (True, c1, g1) \<and> gathered P seg name a ((fst s)(r := c1), g1) (empty_queue cap (insert r R))"
proof -
  let ?g = "snd s" and ?rs = "\<lambda>x. the (m_pqueue (fst s x))" and ?p = "queue_ptr P a"
  let ?w = "(wld ?g)\<lparr>mem := store32 (gmem ?g) a LS_LOCKED\<rparr>"
  have h: "group_holds (penv P) ?p (wld ?g, ?rs) (empty_queue cap R)" and mates: "\<forall>x \<in> R. open_at P a (fst s x)"
    and lock: "lockers ?g (a + 8) = new_shared_locker" and unlocked: "load32 (gmem ?g) a = LS_UNLOCKED"
    and users: "users a (gmem ?g) = of_nat (card R)"
    using g by (simp_all add: gathered_def)
  obtain z where z: "seg (sys ?g) name = Some (a, z)" using g by (auto simp: gathered_def)
  have at: "atomic_spec (atomics (penv P))" using h by (simp add: group_holds_def env_ok_def)
  have fin: "finite R" using h by (simp add: group_holds_def group_inv_def)
  then have "\<not> 2 ^ 32 dvd card R" using some few by (intro nat_dvd_not_less) (simp_all add: card_gt_0_iff)
  then have used: "0 < users a (gmem ?g)" using users by (simp add: word_gt_0 word_of_nat_eq_0_iff)
  have "group_holds (penv P) ?p (?w, ?rs) (empty_queue cap R)"
  proof (rule header_group [OF h])
    show "only_changes (mem (wld ?g)) (mem ?w) {a..<a + 8}"
      using only_changes_mono [OF only_changes_store32 [OF refl], of a "{a..<a + 8}"] by simp
  qed simp
  then obtain m1 q where q: "shared_open (penv P) (mem ?w) ?p = (m1, q)"
    "group_holds (penv P) ?p (?w\<lparr>mem := m1\<rparr>, ?rs(r := q)) (empty_queue cap (insert r R))"
    "only_changes (mem ?w) m1 {?p..<?p + 4}"
    using shared_open_group [of "penv P" ?p ?w ?rs "empty_queue cap R" r] new few by auto
  have attach: "open_queue (penv P) ?w Shared_queue ?p None = returns (?w\<lparr>mem := m1\<rparr>, q)"
    using q(1) by (simp add: open_queue_def)
  obtain c o1 where c: "safe_open P Shared_queue (simple_connector P Shared_queue) None (new_connector name CON_BIDIR, ?g)
      = returns (True, c, mapmem (\<lambda>m. store32 (set_users a (users a m + 1) m) a LS_UNLOCKED) (?g\<lparr>sys := o1, wld := ?w\<lparr>mem := m1\<rparr>\<rparr>))"
    "seg o1 = seg (sys ?g)" "c_type c = CON_BIDIR" "m_plocker c = Some (a + 8)"
    "m_pbarrier c = Some (a + 8 + locker_size (plock P))" "m_pqueue c = Some q"
    using safe_open_runs [OF spec at quiet z unlocked used _ attach] multi_enters [OF P] lock by auto
  let ?fin = "mapmem (\<lambda>m. store32 (set_users a (users a m + 1) m) a LS_UNLOCKED) (?g\<lparr>sys := o1, wld := ?w\<lparr>mem := m1\<rparr>\<rparr>)"
  let ?c = "c\<lparr>m_opened := True\<rparr>"
  have "users a m1 = users a (mem ?w)"
    unfolding users_def by (intro load32_unchanged only_changes_unchanged [OF q(3)]) (auto simp: queue_ptr_def)
  also have "\<dots> = of_nat (card R)" using users by (simp add: users_def load32_store32_other)
  finally have "users a (gmem ?fin) = of_nat (card (insert r R))" using fin new by (simp add: header_writes)
  moreover have "group_holds (penv P) ?p (wld ?fin, ?rs(r := q)) (empty_queue cap (insert r R))"
    by (rule header_group [OF q(2)]) (simp_all add: header_writes(1))
  moreover have "?rs(r := q) = (\<lambda>x. the (m_pqueue (((fst s)(r := ?c)) x)))" using c(6) by auto
  moreover have "open_at P a ?c" using c by (simp add: open_at_def)
  moreover have "\<exists>z. seg (sys ?fin) name = Some (a, z)" using z c(2) by simp
  ultimately have "gathered P seg name a ((fst s)(r := ?c), ?fin) (empty_queue cap (insert r R))"
    using mates lock by (simp add: gathered_def)
  moreover have "connector_open (multi_bidirectional_connector P) None (new_connector name CON_BIDIR, ?g)
      = returns (True, ?c, ?fin)"
    by (simp add: connector_open_def multi_class_fields c(1))
  ultimately show ?thesis by blast
qed

lemma gathered_opens:
  fixes P :: "('h, 'o, shared_locker, 'x barrier) platform"
  assumes P: "multi_like P" "shm_spec (papi P) seg nm" "spinners P 0 LS_LOCKED = LS_LOCKED"
    and "gathered P seg name a s (empty_queue cap R)" and "R \<noteq> {}" and "distinct rs" "set rs \<inter> R = {}"
    and "card R + length rs < 4294967296"
  shows "\<exists>s'. crowd_open P name rs s = returns (replicate (length rs) True, s')
    \<and> gathered P seg name a s' (empty_queue cap (R \<union> set rs))"
  using assms(4-)
proof (induction rs arbitrary: s R)
  case (Cons r rs)
  obtain c1 g1 where c: "connector_open (multi_bidirectional_connector P) None (new_connector name CON_BIDIR, snd s)
      = returns (True, c1, g1)" "gathered P seg name a ((fst s)(r := c1), g1) (empty_queue cap (insert r R))"
    using gathered_open [OF P Cons.prems(1), of r] Cons.prems(2,4,5) by auto
  have "card (insert r R) \<le> card R + 1" by (cases "finite R") (auto simp: card_insert_if)
  then have few: "card (insert r R) + length rs < 4294967296" using Cons.prems(5) by simp
  obtain s' where "crowd_open P name rs ((fst s)(r := c1), g1) = returns (replicate (length rs) True, s')"
    "gathered P seg name a s' (empty_queue cap (insert r R \<union> set rs))"
    using Cons.IH [OF c(2) _ _ _ few] Cons.prems(3,4) by auto
  then show ?case using c(1) by auto
qed auto

lemma multi_sample_sizes:
  "locker_size (plock multi_sample) + barrier_size (pbar multi_sample) < 4294967296"
  by (simp add: multi_sample_def spinlocker_interface_def sharable_barrier_def)

definition multi_globals :: "(seg_table, shared_locker, nat barrier) globals" where
  "multi_globals =
     \<lparr>sys = \<lparr>segments = Map.empty, next_address = 64\<rparr>, wld = \<lparr>mem = \<lambda>_. 7, readings = 0\<rparr>,
      lockers = (\<lambda>_. new_shared_locker), barriers = (\<lambda>_. new_barrier 0)\<rparr>"

section \<open>Properties\<close>

text \<open>
  C18. When one process creates a multi connector under a
  free name, and the others open it by that name one after the other before anything is pushed,
  all these calls succeed, whatever bytes the memory held before: each process is a subscriber
  of the one empty queue of the given capacity, the lock is free, and the segment counts them all.
\<close>

theorem multi_group_starts:
  fixes P :: "('h, 'o, shared_locker, 'x barrier) platform"
  assumes "multi_like P" and "ample (clock (penv P)) timeout" and "\<And>k g. meanwhile P k g = g"
    and "shm_spec (papi P) seg nm" and "seg (sys (snd s)) name = None"
    and "spinners P 0 LS_LOCKED = LS_LOCKED" and "env_ok (penv P)" and "0 < unat sz" "unat sz < 4294967296"
    and "locker_size (plock P) + barrier_size (pbar P) < 4294967296"
    and "distinct (r # rs)" and "length (r # rs) < 4294967296"
  shows "\<exists>a s1 s2. crowd_create P name cid sz r s = returns (True, s1)
    \<and> crowd_open P name rs s1 = returns (replicate (length rs) True, s2)
    \<and> crowd_holds P (queue_ptr P a) timeout s2
        \<lparr>mc_cap = unat sz, mc_pos = 0, mc_msgs = [], mc_subs = set (r # rs), mc_at = \<lambda>_. 0\<rparr>
    \<and> users a (gmem (snd s2)) = of_nat (length (r # rs))"
proof -
  obtain a s1 where s1: "crowd_create P name cid sz r s = returns (True, s1)"
    "gathered P seg name a s1 (empty_queue (unat sz) {r})"
    using gathered_create [OF assms(1,4,5,7-10)] by blast
  obtain s2 where s2: "crowd_open P name rs s1 = returns (replicate (length rs) True, s2)"
    "gathered P seg name a s2 (empty_queue (unat sz) ({r} \<union> set rs))"
    using gathered_opens [OF assms(1,4,6) s1(2), of rs] assms(11,12) by auto
  have "card ({r} \<union> set rs) = length (r # rs)" using distinct_card [OF assms(11)] by simp
  then have "users a (gmem (snd s2)) = of_nat (length (r # rs))" using s2(2) by (simp add: gathered_def)
  then show ?thesis using s1(1) s2(1) gathered_holds [OF s2(2) assms(1-3)]
    by (intro exI [of _ a] exI [of _ s1] exI [of _ s2]) simp
qed

theorem multi_group_starts_witness:
  "\<exists>a s1 s2. crowd_create multi_sample ''q0'' 5 100 1 (\<lambda>_. new_connector '''' CON_BIDIR, multi_globals) = returns (True, s1)
    \<and> crowd_open multi_sample ''q0'' [2, 3] s1 = returns ([True, True], s2)
    \<and> crowd_holds multi_sample (queue_ptr multi_sample a) (Timespec 10 0) s2
        \<lparr>mc_cap = 100, mc_pos = 0, mc_msgs = [], mc_subs = {1, 2, 3}, mc_at = \<lambda>_. 0\<rparr>
    \<and> users a (gmem (snd s2)) = 3"
proof -
  have f: "meanwhile multi_sample k g = g" "shm_spec (papi multi_sample) segments (\<lambda>_ h. h)"
    "segments (sys (snd (\<lambda>_ :: nat. new_connector '''' CON_BIDIR :: string connector, multi_globals))) ''q0'' = None"
    "spinners multi_sample 0 LS_LOCKED = LS_LOCKED" "env_ok (penv multi_sample)" for k g
    using table_api_spec by (simp_all add: multi_sample_def multi_globals_def)
  have "0 < unat (100 :: u64)" "unat (100 :: u64) < 4294967296" "distinct [1 :: nat, 2, 3]" "length [1 :: nat, 2, 3] < 4294967296"
    by simp_all
  note starts = multi_group_starts [OF multi_sample_like(1) sample_ample f this(1,2) multi_sample_sizes this(3,4), of 5]
  have e: "replicate (length [2 :: nat, 3]) True = [True, True]" "set [1 :: nat, 2, 3] = {1, 2, 3}" "unat (100 :: u64) = 100"
    "of_nat (length [1 :: nat, 2, 3]) = (3 :: u32)" by simp_all
  from starts show ?thesis unfolding e .
qed

end
