(* ===== verification/Connector_Frame.thy ===== *)
theory Connector_Frame
  imports Connector_Life
begin

text \<open>
  What an operation on one single connector leaves alone: everything outside the segment of the
  connector. This is what lets several connectors live side by side in a bus.
\<close>

section \<open>Queues\<close>

lemma queue_enq_frame:
  assumes h: "queue_holds E (w, q) f" and ne: "snd x \<noteq> []"
  shows "\<exists>w' q'. queue_enq E x (w, q) = returns (fst (fifo_push x f), w', q')
    \<and> queue_holds E (w', q') (snd (fifo_push x f))
    \<and> only_changes (mem w) (mem w') (segment (mem w) q) \<and> base_ptr q' = base_ptr q"
proof -
  obtain w' q' where law: "queue_enq E x (w, q) = returns (fst (fifo_push x f), w', q')"
    "queue_holds E (w', q') (snd (fifo_push x f))"
    using queue_enq_law [OF h ne] by auto
  have "queue_inv (mem w) q (fifo_msgs f)" "env_ok E" using h by (simp_all add: queue_holds_def)
  from push_returns [OF this ne, of "fst x"] law(1)
  have "only_changes (mem w) (mem w') (segment (mem w) q)" "q' = q"
    by (auto simp: queue_enq_def)
  with law show ?thesis by blast
qed

lemma queue_front_frame:
  assumes h: "queue_holds E (w, q) f"
  shows "\<exists>w' q'. queue_front E (w, q) = returns (fifo_get f, w', q') \<and> queue_holds E (w', q') f
    \<and> only_changes (mem w) (mem w') (segment (mem w) q) \<and> base_ptr q' = base_ptr q"
proof -
  obtain w' q' where law: "queue_front E (w, q) = returns (fifo_get f, w', q')" "queue_holds E (w', q') f"
    using queue_front_law [OF h] by auto
  have inv: "queue_inv (mem w) q (fifo_msgs f)" using h by (simp add: queue_holds_def)
  have "mem w' = mem w \<and> base_ptr q' = base_ptr q"
  proof (cases "fifo_msgs f")
    case Nil
    then have "\<not> q_count (mem w) q > 0" using inv simple_empty [of "mem w" q] by simp
    then show ?thesis using law(1) by (auto simp: queue_front_def get_def)
  next
    case (Cons x xs)
    obtain q1 pos where "get E (mem w) q
        = returns (chain_at q (cap_of (mem w) q) (head_of (mem w) q) (length (snd x)), mem w, q1)"
      "q1 = q\<lparr>m_message_desc := (chain_at q (cap_of (mem w) q) (head_of (mem w) q) (length (snd x)), pos)\<rparr>"
      by (rule get_simple [OF inv [unfolded Cons]])
    then show ?thesis using law(1) by (auto simp: queue_front_def)
  qed
  with law show ?thesis by (intro exI [of _ w'] exI [of _ q']) simp
qed

lemma queue_deq_frame:
  assumes h: "queue_holds E (w, q) f"
  shows "\<exists>w' q'. queue_deq E (w, q) = returns (fst (fifo_pop f), w', q') \<and> queue_holds E (w', q') (snd (fifo_pop f))
    \<and> only_changes (mem w) (mem w') (segment (mem w) q) \<and> base_ptr q' = base_ptr q"
proof -
  obtain w' q' where law: "queue_deq E (w, q) = returns (fst (fifo_pop f), w', q')"
    "queue_holds E (w', q') (snd (fifo_pop f))"
    using queue_deq_law [OF h] by auto
  have inv: "queue_inv (mem w) q (fifo_msgs f)" and desc: "desc_ok (mem w) q (fifo_msgs f)"
    and at: "atomic_spec (atomics E)"
    using h by (simp_all add: queue_holds_def env_ok_def)
  have "only_changes (mem w) (mem w') (segment (mem w) q) \<and> base_ptr q' = base_ptr q"
  proof (cases "fifo_msgs f")
    case Nil
    then have "\<not> q_count (mem w) q > 0" using inv simple_empty [of "mem w" q] by simp
    then show ?thesis using law(1) by (auto simp: queue_deq_def pop_def)
  next
    case (Cons x xs)
    obtain m1 q1 pos where "pop E (mem w) q = returns (True, m1, q1)" "q1 = q\<lparr>m_message_desc := ([], pos)\<rparr>"
      "only_changes (mem w) m1 (segment (mem w) q)"
      by (rule pop_simple [OF inv [unfolded Cons] desc [unfolded Cons] at])
    then show ?thesis using law(1) by (auto simp: queue_deq_def)
  qed
  with law show ?thesis by blast
qed

section \<open>Connectors\<close>

text \<open>The segment of a connector, and shared states that differ inside a set of addresses only.\<close>

definition conn_region :: "('h, 'o, 'l, 'b) platform \<Rightarrow> nat \<Rightarrow> fifo \<Rightarrow> nat set" where
  "conn_region P a f = {a..<queue_ptr P a + 24 + fifo_cap f}"

definition elsewhere :: "nat set \<Rightarrow> ('o, 'l, 'b) globals \<Rightarrow> ('o, 'l, 'b) globals \<Rightarrow> bool" where
  "elsewhere S g g' \<longleftrightarrow> only_changes (gmem g) (gmem g') S \<and> (\<forall>l. l \<notin> S \<longrightarrow> lockers g' l = lockers g l)"

lemma elsewhere_refl [simp]: "elsewhere S g g"
  by (simp add: elsewhere_def)

lemma elsewhere_trans: "elsewhere S g g' \<Longrightarrow> elsewhere S g' g'' \<Longrightarrow> elsewhere S g g''"
  unfolding elsewhere_def using only_changes_trans [of _ _ S _ S S] by auto

lemma elsewhere_mono: "elsewhere S g g' \<Longrightarrow> S \<subseteq> T \<Longrightarrow> elsewhere T g g'"
  unfolding elsewhere_def using only_changes_mono by blast

lemma elsewhere_load32:
  "elsewhere S g g' \<Longrightarrow> {a..<a + 4} \<inter> S = {} \<Longrightarrow> load32 (gmem g') a = load32 (gmem g) a"
  unfolding elsewhere_def by (blast intro: load32_unchanged only_changes_unchanged)

lemma served_cases:
  assumes "served P a (c, g) f"
  obtains q where "m_pqueue c = Some q" "base_ptr q = queue_ptr P a" "queue_holds (penv P) (wld g, q) f"
    "m_plocker c = Some (a + 8)" "sm_get (m_memory c) = a" "single_holds P (c, g) f"
    "segment (gmem g) q = {queue_ptr P a..<queue_ptr P a + 24 + fifo_cap f}"
proof -
  obtain q where q: "m_pqueue c = Some q" "base_ptr q = queue_ptr P a" "queue_holds (penv P) (wld g, q) f"
    using assms by (auto simp: served_def single_holds_def)
  then have "segment (gmem g) q = {queue_ptr P a..<queue_ptr P a + 24 + fifo_cap f}"
    by (simp add: segment_def queue_holds_def)
  with q that assms show thesis by (simp add: served_def shared_get_memory_def)
qed

lemma served_elsewhere:
  assumes srv: "served P a (c, g) f" and e: "elsewhere S g g'" and away: "S \<inter> conn_region P a f = {}"
  shows "served P a (c, g') f"
proof -
  obtain q where q: "m_pqueue c = Some q" "base_ptr q = queue_ptr P a" "queue_holds (penv P) (wld g, q) f"
    "m_plocker c = Some (a + 8)" "segment (gmem g) q = {queue_ptr P a..<queue_ptr P a + 24 + fifo_cap f}"
    by (rule served_cases [OF srv])
  have inside: "{a..<a + 9} \<subseteq> conn_region P a f" "segment (gmem g) q \<subseteq> conn_region P a f"
    by (auto simp: conn_region_def q(5) queue_ptr_def)
  have sub: "{a..<a + 4} \<subseteq> {a..<a + 9}" "{a + 4..<a + 4 + 4} \<subseteq> {a..<a + 9}" "a + 8 \<in> {a..<a + 9}" by auto
  have "{a..<a + 4} \<inter> S = {}" "{a + 4..<a + 4 + 4} \<inter> S = {}" "a + 8 \<notin> S" "S \<inter> segment (mem (wld g)) q = {}"
    using away inside sub by blast+
  then have "load32 (gmem g') a = load32 (gmem g) a" "users a (gmem g') = users a (gmem g)"
    "lockers g' (a + 8) = lockers g (a + 8)" "queue_holds (penv P) (wld g', q) f"
    using e elsewhere_load32 [OF e] queue_holds_away [OF q(3)]
    by (auto simp: users_def elsewhere_def)
  then show ?thesis
    using srv q(1,4) by (auto simp: served_def single_holds_def shared_get_memory_def)
qed

text \<open>An operation of a served connector: what the queue yields, within the segment and for the same users.\<close>

definition stays_served ::
  "('h, 'o, 'l, 'b) platform \<Rightarrow> nat \<Rightarrow> fifo \<Rightarrow> ('h, 'o, 'l, 'b) site \<Rightarrow> fifo \<Rightarrow> ('h, 'o, 'l, 'b) site \<Rightarrow> bool" where
  "stays_served P a f s f' s' \<longleftrightarrow> served P a s' f' \<and> elsewhere (conn_region P a f) (snd s) (snd s')
     \<and> sys (snd s') = sys (snd s) \<and> c_name (fst s') = c_name (fst s)
     \<and> m_memory (fst s') = m_memory (fst s) \<and> fifo_cap f' = fifo_cap f
     \<and> users a (gmem (snd s')) = users a (gmem (snd s))"

lemma served_op:
  assumes srv: "served P a (c, g) f" and cap: "fifo_cap f' = fifo_cap f"
    and F: "\<And>w q. queue_holds (penv P) (w, q) f \<Longrightarrow> \<exists>w' q'. F (w, q) = returns (r, w', q')
      \<and> queue_holds (penv P) (w', q') f' \<and> only_changes (mem w) (mem w') (segment (mem w) q)
      \<and> base_ptr q' = base_ptr q"
  shows "\<exists>s'. on_queue F (c, g) = returns (r, s') \<and> stays_served P a f (c, g) f' s'"
proof -
  obtain q where q: "m_pqueue c = Some q" "base_ptr q = queue_ptr P a" "queue_holds (penv P) (wld g, q) f"
    "segment (gmem g) q = {queue_ptr P a..<queue_ptr P a + 24 + fifo_cap f}" "single_holds P (c, g) f"
    by (rule served_cases [OF srv])
  obtain w' q' where w': "F (wld g, q) = returns (r, w', q')" "queue_holds (penv P) (w', q') f'"
    "only_changes (gmem g) (mem w') (segment (gmem g) q)" "base_ptr q' = base_ptr q"
    using F [OF q(3)] by blast
  let ?s' = "(c\<lparr>m_pqueue := Some q'\<rparr>, g\<lparr>wld := w'\<rparr>)"
  have run: "on_queue F (c, g) = returns (r, ?s')"
    by (simp add: on_queue_def with_queue_def q(1) w'(1))
  have "single_holds P ?s' f'" using single_update [OF q(5) w'(2)] by simp
  moreover have head: "unchanged (gmem g) (mem w') a 8"
    by (rule only_changes_unchanged [OF w'(3)]) (auto simp: q(4) queue_ptr_def)
  have same: "load32 (mem w') a = load32 (gmem g) a" "users a (mem w') = users a (gmem g)"
    using load32_unchanged [OF unchanged_sub [OF head, of a 4]]
      load32_unchanged [OF unchanged_sub [OF head, of "a + 4" 4]] by (simp_all add: users_def)
  ultimately have "served P a ?s' f'"
    using same srv w'(4) q(1,2) by (simp add: served_def shared_get_memory_def)
  moreover have "elsewhere (conn_region P a f) g (g\<lparr>wld := w'\<rparr>)"
    using only_changes_mono [OF w'(3), of "conn_region P a f"]
    by (auto simp: elsewhere_def q(4) conn_region_def queue_ptr_def)
  ultimately show ?thesis using run cap same(2) by (auto simp: stays_served_def)
qed

lemma fifo_caps [simp]:
  "fifo_cap (snd (fifo_push x f)) = fifo_cap f" "fifo_cap (snd (fifo_pop f)) = fifo_cap f"
  by (auto simp: fifo_push_def fifo_pop_def split: list.splits)

lemma served_single: "served P a s f \<Longrightarrow> single_holds P s f"
  by (simp add: served_def)

lemma served_enq:
  assumes "served P a (c, g) f" and "snd x \<noteq> []"
  shows "\<exists>s'. conn_enq (single_bidirectional_connector P) x (c, g) = returns (fst (fifo_push x f), s')
    \<and> stays_served P a f (c, g) (snd (fifo_push x f)) s'"
  unfolding conn_is_queue(1) [OF served_single [OF assms(1)]]
  by (rule served_op [OF assms(1) fifo_caps(1) queue_enq_frame [OF _ assms(2)]])

lemma served_front:
  assumes "served P a (c, g) f"
  shows "\<exists>s'. conn_front (single_bidirectional_connector P) (c, g) = returns (fifo_get f, s')
    \<and> stays_served P a f (c, g) f s'"
  unfolding conn_is_queue(2) [OF served_single [OF assms]]
  by (rule served_op [OF assms refl queue_front_frame])

lemma served_deq:
  assumes "served P a (c, g) f"
  shows "\<exists>s'. conn_deq (single_bidirectional_connector P) (c, g) = returns (fst (fifo_pop f), s')
    \<and> stays_served P a f (c, g) (snd (fifo_pop f)) s'"
  unfolding conn_is_queue(3) [OF served_single [OF assms]]
  by (rule served_op [OF assms fifo_caps(2) queue_deq_frame])

section \<open>Opening a missing one, destroying\<close>

lemma open_missing:
  fixes P :: "('h, 'o, 'l, 'b) platform"
  assumes spec: "shm_spec (papi P) seg nm" and no: "seg (sys g) name = None"
  shows "connector_open (single_bidirectional_connector P) pp (new_connector name t, g)
      = returns (False, new_connector name t,
          g\<lparr>sys := snd (snd (sm_open (papi P) (new_shared_memory name) (sys g)))\<rparr>)"
    "seg (snd (snd (sm_open (papi P) (new_shared_memory name :: 'h shared_memory) (sys g)))) = seg (sys g)"
proof -
  let ?M = "new_shared_memory name :: 'h shared_memory"
  have M: "m_pmemory ?M = None" "sm_name ?M = name" by (simp_all add: new_shared_memory_def)
  note missing = sm_open_missing [OF spec M(1), of "sys g", unfolded M(2), OF no]
  have conn: "m_memory (new_connector name t) = ?M" "(new_connector name t)\<lparr>m_memory := ?M\<rparr> = new_connector name t"
    "(new_connector name t)\<lparr>m_opened := False\<rparr> = new_connector name t"
    by (simp_all add: new_connector_def)
  show "connector_open (single_bidirectional_connector P) pp (new_connector name t, g)
      = returns (False, new_connector name t, g\<lparr>sys := snd (snd (sm_open (papi P) ?M (sys g)))\<rparr>)"
    by (simp add: connector_open_def single_create_field safe_open_def open_memory_def conn missing(1))
  show "seg (snd (snd (sm_open (papi P) ?M (sys g)))) = seg (sys g)"
    using missing no by (simp add: fun_upd_idem)
qed

lemma single_destroy_field:
  "v_destroy (single_bidirectional_connector P) = safe_destroy P (simple_connector P Simple_queue)"
  by (simp add: single_bidirectional_connector_def safe_connector_def base_safe_connector_def
    bidirectional_connector_def)

lemma served_destroy:
  assumes srv: "served P a (c, g) f" and quiet: "spinners P 0 LS_LOCKED = LS_LOCKED"
  shows "\<exists>c' g'. v_destroy (single_bidirectional_connector P) (c, g) = returns (c', g')
    \<and> elsewhere {a..<a + 8} g g' \<and> sys g' = sm_destroy (papi P) (m_memory c) (sys g)
    \<and> lockers g' = lockers g \<and> load32 (gmem g') a = LS_UNLOCKED \<and> users a (gmem g') = users a (gmem g) - 1"
proof -
  let ?C = "simple_connector P Simple_queue" and ?S = "scoped_lock_type (plock P)"
  obtain q where q: "m_pqueue c = Some q" "queue_holds (penv P) (wld g, q) f" "m_plocker c = Some (a + 8)"
    "sm_get (m_memory c) = a"
    by (rule served_cases [OF srv])
  have cls: "class_of q = Simple_queue" and at: "atomic_spec (atomics (penv P))"
    using q(2) by (simp_all add: queue_holds_def queue_inv_def env_ok_def)
  have mem: "shared_get_memory (c, g) = a" by (simp add: shared_get_memory_def q(4))
  let ?g1 = "mapmem (\<lambda>m. store32 m a LS_LOCKED) g" and ?c1 = "c\<lparr>m_pqueue := None\<rparr>"
  have "load32 (gmem g) a = LS_UNLOCKED" using srv by (simp add: served_def)
  then have enter: "spin_enter P a g = returns ?g1" by (rule spin_enter_open [OF at _ quiet])
  have scoped: "scope (site_side ?S) (guard_immediate (site_side ?S) (c, ?g1))
      (\<lambda>s2. and_then (free_queue P s2) (\<lambda>s3. returns ((), s3))) () = returns ((), ?c1, ?g1)"
  proof (rule scope_enters)
    show "m_plocker (fst (c, ?g1)) = Some (a + 8)" using q(3) by simp
    show "side_enters ?S (lockers (snd (c, ?g1)) (a + 8))" using srv by (simp add: served_def)
    show "and_then (free_queue P (with_lockers ls (c, ?g1))) (\<lambda>s3. returns ((), s3))
        = returns ((), with_lockers ls (?c1, ?g1))" for ls
      by (simp add: free_queue_def with_lockers_def q(1) destroy_queue_def cls)
  qed (use q(3) in simp_all)
  let ?m = "\<lambda>m. store32 (set_users a (users a (store32 m a LS_LOCKED) - 1) m) a LS_UNLOCKED"
  let ?g2 = "(mapmem ?m g)\<lparr>sys := sm_destroy (papi P) (m_memory c) (sys g)\<rparr>"
  have below: "v_destroy ?C (?c1, g') = returns (?c1, g'\<lparr>sys := sm_destroy (papi P) (m_memory c) (sys g')\<rparr>)" for g'
    by (simp add: simple_connector_def free_queue_def shared_connector_destroy_def)
  have "m_opened c" using srv by (simp add: served_def single_holds_def)
  then have "v_destroy (single_bidirectional_connector P) (c, g) = returns (?c1, ?g2)"
    by (simp add: single_destroy_field safe_destroy_def mem enter scoped Let_def
      spin_leave_eq [OF at] relocked below)
  moreover have "elsewhere {a..<a + 8} g ?g2"
    using header_writes(1) [of "gmem g" a "users a (store32 (gmem g) a LS_LOCKED) - 1" LS_UNLOCKED]
    by (simp add: elsewhere_def)
  moreover have "load32 (gmem ?g2) a = LS_UNLOCKED" "users a (gmem ?g2) = users a (gmem g) - 1"
    using header_writes(2,3) [of a "users a (store32 (gmem g) a LS_LOCKED) - 1" "gmem g" LS_UNLOCKED]
    by (simp_all add: users_def load32_store32_other)
  ultimately show ?thesis by (intro exI [of _ ?c1] exI [of _ ?g2]) simp
qed

end
