(* ===== verification/Bus_Entries.thy ===== *)
theory Bus_Entries
  imports Bus_List Connector_Frame
begin

text \<open>
  The connectors of a bus as entries of a list: what a bus of single connectors holds when one
  process uses it, that an operation on one entry leaves the others alone, the virtual
  operations on the two ends of the list, and the making of a new entry.
\<close>

section \<open>The platform\<close>

text \<open>Segments with different names do not overlap, and the operations of Boost keep it so.\<close>

definition apart :: "(string \<Rightarrow> (nat \<times> u64) option) \<Rightarrow> bool" where
  "apart T \<longleftrightarrow> (\<forall>n n' a z a' z'. n \<noteq> n' \<longrightarrow> T n = Some (a, z) \<longrightarrow> T n' = Some (a', z')
     \<longrightarrow> {a..<a + unat z} \<inter> {a'..<a' + unat z'} = {})"

definition shm_apart ::
  "('h, 'o) shm_api \<Rightarrow> ('o \<Rightarrow> string \<Rightarrow> (nat \<times> u64) option) \<Rightarrow> ('o \<Rightarrow> bool) \<Rightarrow> bool" where
  "shm_apart A seg valid \<longleftrightarrow> (\<forall>o1. valid o1 \<longrightarrow> apart (seg o1)
     \<and> (\<forall>n. valid (shm_remove A n o1))
     \<and> (\<forall>n. valid (snd (snd (sm_open A (new_shared_memory n) o1))))
     \<and> (\<forall>n z m. valid (fst (snd (snd (sm_create A z (new_shared_memory n) (o1, m)))))))"

text \<open>
  What the bus is given: segments, a working environment, a mutex class for its connectors and
  distinct names.
\<close>

definition bus_platform ::
  "('h, 'o, 'l, 'b) platform \<Rightarrow> (id_type \<Rightarrow> string) \<Rightarrow> ('o \<Rightarrow> string \<Rightarrow> (nat \<times> u64) option)
    \<Rightarrow> ('o \<Rightarrow> 'h \<Rightarrow> string) \<Rightarrow> ('o \<Rightarrow> bool) \<Rightarrow> bool" where
  "bus_platform P cast seg nm valid \<longleftrightarrow>
     shm_spec (papi P) seg nm \<and> shm_apart (papi P) seg valid \<and> env_ok (penv P)
     \<and> lock_free (plock P) (new_locker (plock P))
     \<and> side_enters (scoped_lock_type (plock P)) (new_locker (plock P))
     \<and> locker_size (plock P) + barrier_size (pbar P) < 4294967296
     \<and> spinners P 0 LS_LOCKED = LS_LOCKED
     \<and> inj cast \<and> (\<forall>i. cast i \<noteq> [])"

text \<open>Each call runs by itself: nobody else acts between the steps of one.\<close>

definition lone_platform ::
  "('h, 'o, 'l, 'b) platform \<Rightarrow> (id_type \<Rightarrow> string) \<Rightarrow> ('o \<Rightarrow> string \<Rightarrow> (nat \<times> u64) option)
    \<Rightarrow> ('o \<Rightarrow> 'h \<Rightarrow> string) \<Rightarrow> ('o \<Rightarrow> bool) \<Rightarrow> bool" where
  "lone_platform P cast seg nm valid \<longleftrightarrow> bus_platform P cast seg nm valid \<and> (\<forall>k g. meanwhile P k g = g)"

lemma lone_bus: "lone_platform P cast seg nm valid \<Longrightarrow> bus_platform P cast seg nm valid"
  by (simp add: lone_platform_def)

definition single_layout_of ::
  "('h, 'o, 'l, 'b) platform \<Rightarrow> (id_type \<Rightarrow> string) \<Rightarrow> ('h, 'o, 'l, 'b) bus_layout" where
  "single_layout_of P cast = simple_layout P cast (single_bidirectional_connector P) (\<lambda>n. new_connector n CON_BIDIR)"

definition single_bus_class ::
  "('h, 'o, 'l, 'b) platform \<Rightarrow> (id_type \<Rightarrow> string) \<Rightarrow> ('h, 'o, 'l, 'b) bus_class" where
  "single_bus_class P cast = bus_base (simple_bus (single_layout_of P cast))"

lemma single_layout_fields [simp]:
  "platform_of (single_layout_of P cast) = P"
  "connector_class (single_layout_of P cast) = single_bidirectional_connector P"
  "connector_make (single_layout_of P cast) n = new_connector n CON_BIDIR"
  "lexical_cast (single_layout_of P cast) = cast"
  "bus_get_memory (single_layout_of P cast) = shared_bus_get_memory"
  "bus_memory_size (single_layout_of P cast) = 32"
  "layout (single_bus_class P cast) = single_layout_of P cast"
  "v_add_connector (single_bus_class P cast) = shared_add_connector (single_layout_of P cast)"
  "v_remove_connector (single_bus_class P cast) = shared_remove_connector (single_layout_of P cast)"
  by (simp_all add: single_layout_of_def simple_layout_def single_bus_class_def simple_bus_def shared_bus_def)

section \<open>What a bus holds\<close>

text \<open>
  An entry of the list: the identifier, the connector, and the FIFO of its queue. The segment
  of the connector is the one of its name.
\<close>

type_synonym 'h entry = "id_type \<times> 'h connector \<times> fifo"

abbreviation entry_fifo :: "'h entry \<Rightarrow> fifo" where
  "entry_fifo e \<equiv> snd (snd e)"

definition entry_ok ::
  "('h, 'o, 'l, 'b) platform \<Rightarrow> ('o \<Rightarrow> string \<Rightarrow> (nat \<times> u64) option) \<Rightarrow> (id_type \<Rightarrow> string)
    \<Rightarrow> ('o, 'l, 'b) globals \<Rightarrow> 'h entry \<Rightarrow> bool" where
  "entry_ok P seg names g e \<longleftrightarrow>
     (\<exists>a z. served P a (fst (snd e), g) (entry_fifo e) \<and> sm_name (m_memory (fst (snd e))) = names (fst e)
       \<and> seg (sys g) (names (fst e)) = Some (a, z) \<and> unat z = queue_ptr P 0 + 24 + fifo_cap (entry_fifo e)
       \<and> fifo_cap (entry_fifo e) < 4294967296)"

definition contents :: "'h entry list \<Rightarrow> message list" where
  "contents es = concat (rev (map (\<lambda>e. fifo_msgs (entry_fifo e)) es))"

text \<open>
  The segments around a bus: its own, one for each entry of its list, and none under its other
  names.
\<close>

abbreviation names_of :: "(id_type \<Rightarrow> string) \<Rightarrow> 'h bus \<Rightarrow> id_type \<Rightarrow> string" where
  "names_of cast b \<equiv> \<lambda>i. b_name b @ cast i"

definition surroundings ::
  "('h, 'o, 'l, 'b) platform \<Rightarrow> (id_type \<Rightarrow> string) \<Rightarrow> ('o \<Rightarrow> string \<Rightarrow> (nat \<times> u64) option) \<Rightarrow> ('o \<Rightarrow> bool)
    \<Rightarrow> 'h bus \<Rightarrow> ('o, 'l, 'b) globals \<Rightarrow> 'h entry list \<Rightarrow> bool" where
  "surroundings P cast seg valid b g es \<longleftrightarrow>
     valid (sys g) \<and> (\<exists>z. seg (sys g) (b_name b) = Some (shared_bus_get_memory b, z) \<and> 32 \<le> unat z)
     \<and> distinct (map fst es) \<and> (\<forall>e \<in> set es. entry_ok P seg (names_of cast b) g e)
     \<and> (\<forall>i. i \<notin> fst ` set es \<longrightarrow> seg (sys g) (names_of cast b i) = None)"

definition bus_holds ::
  "('h, 'o, 'l, 'b) platform \<Rightarrow> (id_type \<Rightarrow> string) \<Rightarrow> ('o \<Rightarrow> string \<Rightarrow> (nat \<times> u64) option) \<Rightarrow> ('o \<Rightarrow> bool)
    \<Rightarrow> specification_type \<Rightarrow> ('h, 'o, 'l, 'b) hub \<Rightarrow> 'h entry list \<Rightarrow> bool" where
  "bus_holds P cast seg valid sp s es \<longleftrightarrow>
     (let b = fst s; g = snd s; a = shared_bus_get_memory b; cb = load_cb (gmem g) a in
      b_opened b \<and> m_status b = US_NONE \<and> surroundings P cast seg valid b g es
      \<and> load_spec (gmem g) a = sp
      \<and> input_id (m_controlblock b) = input_id cb \<and> output_id (m_controlblock b) = output_id cb
      \<and> m_pconnectors b = map (fst \<circ> snd) es
      \<and> map fst es = ids_down (input_id cb) (Suc (unat (output_id cb - input_id cb))))"

lemma single_memory [simp]: "shared_bus_get_memory (b\<lparr>m_pconnectors := cs\<rparr>) = shared_bus_get_memory b"
  "shared_bus_get_memory (b\<lparr>m_controlblock := cb\<rparr>) = shared_bus_get_memory b"
  "shared_bus_get_memory (b\<lparr>b_opened := r\<rparr>) = shared_bus_get_memory b"
  by (simp_all add: shared_bus_get_memory_def)

lemma surroundings_update [simp]:
  "surroundings P cast seg valid (b\<lparr>m_controlblock := cb\<rparr>) g es = surroundings P cast seg valid b g es"
  "surroundings P cast seg valid (b\<lparr>m_pconnectors := cs\<rparr>) g es = surroundings P cast seg valid b g es"
  "surroundings P cast seg valid (b\<lparr>b_opened := r\<rparr>) g es = surroundings P cast seg valid b g es"
  by (simp_all add: surroundings_def)

section \<open>Frames\<close>

definition seg_region :: "(string \<Rightarrow> (nat \<times> u64) option) \<Rightarrow> string \<Rightarrow> nat set" where
  "seg_region T n = (case T n of None \<Rightarrow> {} | Some (a, z) \<Rightarrow> {a..<a + unat z})"

lemma apart_regions: "apart T \<Longrightarrow> n \<noteq> n' \<Longrightarrow> seg_region T n \<inter> seg_region T n' = {}"
  unfolding apart_def seg_region_def by (auto split: option.splits)

lemma entry_region:
  assumes "T n = Some (a, z)" and "unat z = queue_ptr P 0 + 24 + fifo_cap f"
  shows "conn_region P a f = seg_region T n"
  using assms by (simp add: conn_region_def seg_region_def queue_ptr_def add_ac)

lemma entry_frame:
  assumes ok: "entry_ok P seg names g e" and e: "elsewhere S g g'"
    and same: "seg (sys g') (names (fst e)) = seg (sys g) (names (fst e))"
    and away: "S \<inter> seg_region (seg (sys g)) (names (fst e)) = {}"
  shows "entry_ok P seg names g' e"
proof -
  obtain a z where o: "served P a (fst (snd e), g) (entry_fifo e)" "sm_name (m_memory (fst (snd e))) = names (fst e)"
    "seg (sys g) (names (fst e)) = Some (a, z)" "unat z = queue_ptr P 0 + 24 + fifo_cap (entry_fifo e)"
    "fifo_cap (entry_fifo e) < 4294967296"
    using ok unfolding entry_ok_def by blast
  have "S \<inter> conn_region P a (entry_fifo e) = {}"
    using away using entry_region [where T = "seg (sys g)" and n = "names (fst e)", OF o(3,4)] by simp
  from served_elsewhere [OF o(1) e this] o(2-5) same show ?thesis
    unfolding entry_ok_def by (intro exI [of _ a] exI [of _ z]) simp
qed

lemma body_frame:
  assumes e: "elsewhere S g g'" and there: "T n = Some (a, z)" "32 \<le> unat z"
    and away: "S \<inter> seg_region T n = {}"
  shows "load_spec (gmem g') a = load_spec (gmem g) a" "load_cb (gmem g') a = load_cb (gmem g) a"
proof -
  have "{a..<a + 32} \<subseteq> seg_region T n" using there by (auto simp: seg_region_def)
  then have "{a..<a + 32} \<inter> S = {}" using away by blast
  then have "unchanged (gmem g) (gmem g') a 32"
    using e unfolding elsewhere_def by (blast intro: only_changes_unchanged)
  note u = load32_unchanged [OF unchanged_sub [OF this]]
  show "load_spec (gmem g') a = load_spec (gmem g) a" "load_cb (gmem g') a = load_cb (gmem g) a"
    by (simp_all add: load_spec_def load_cb_def u)
qed

text \<open>Identifiers.\<close>

lemma distinct_ids_down:
  assumes "n \<le> 4294967296"
  shows "distinct (ids_down (i :: u32) n)"
proof -
  have "inj_on (\<lambda>k. i + of_nat k) {0..<n}"
  proof (rule inj_onI)
    fix j k assume "j \<in> {0..<n}" "k \<in> {0..<n}" "i + of_nat j = i + of_nat k"
    then have "(of_nat j :: u32) = of_nat k" "j < 4294967296" "k < 4294967296" using assms by auto
    then show "j = k" by (metis unat_of_nat_u32)
  qed
  then show ?thesis by (simp add: ids_down_def distinct_map)
qed

lemma ids_down_front: "ids_down i (Suc n) = (i + of_nat n) # ids_down i n"
  by (simp add: ids_down_def)

section \<open>Operations on one connector of the list\<close>

lemma bus_names:
  assumes "bus_platform P cast seg nm valid"
  shows "cast i = cast j \<longleftrightarrow> i = j" "b_name b \<noteq> names_of cast b i"
    "names_of cast b i \<noteq> b_name b" "cast i \<noteq> []"
  using assms by (auto simp: bus_platform_def inj_eq)

lemma bus_apart:
  "bus_platform P cast seg nm valid \<Longrightarrow> valid o1 \<Longrightarrow> n \<noteq> n' \<Longrightarrow> seg_region (seg o1) n \<inter> seg_region (seg o1) n' = {}"
  by (rule apart_regions) (auto simp: bus_platform_def shm_apart_def)

lemma surroundings_entry:
  assumes bus: "bus_platform P cast seg nm valid" and sur: "surroundings P cast seg valid b g (xs @ (i, c, f) # ys)"
    and e: "elsewhere (seg_region (seg (sys g)) (names_of cast b i)) g g'" and same: "sys g' = sys g"
    and new: "entry_ok P seg (names_of cast b) g' (i, c', f')"
  shows "surroundings P cast seg valid b g' (xs @ (i, c', f') # ys)"
proof -
  have "entry_ok P seg (names_of cast b) g' e" if "e \<in> set (xs @ ys)" for e
  proof (rule entry_frame [OF _ e])
    show "entry_ok P seg (names_of cast b) g e" using sur that by (auto simp: surroundings_def)
    have "fst e \<noteq> i" using sur that by (auto simp: surroundings_def image_iff)
    then show "seg_region (seg (sys g)) (names_of cast b i)
        \<inter> seg_region (seg (sys g)) (names_of cast b (fst e)) = {}"
      using sur by (intro bus_apart [OF bus]) (auto simp: surroundings_def bus_names [OF bus])
  qed (simp add: same)
  then show ?thesis using sur new unfolding surroundings_def same by auto
qed

lemma bus_entry_op:
  assumes bus: "bus_platform P cast seg nm valid" and holds: "bus_holds P cast seg valid sp (b, g) (xs @ (i, c, f) # ys)"
    and op: "\<And>a. served P a (c, g) f \<Longrightarrow> \<exists>s'. F (c, g) = returns (r, s') \<and> stays_served P a f (c, g) f' s'"
  shows "\<exists>c' g'. F (c, g) = returns (r, c', g')
    \<and> bus_holds P cast seg valid sp (b\<lparr>m_pconnectors := map (fst \<circ> snd) (xs @ (i, c', f') # ys)\<rparr>, g') (xs @ (i, c', f') # ys)"
proof -
  let ?N = "names_of cast b" and ?a = "shared_bus_get_memory b"
  have sur: "surroundings P cast seg valid b g (xs @ (i, c, f) # ys)" using holds by (simp add: bus_holds_def Let_def)
  then have "entry_ok P seg ?N g (i, c, f)" by (simp add: surroundings_def)
  then obtain a z where o: "served P a (c, g) f" "sm_name (m_memory c) = ?N i"
    "seg (sys g) (?N i) = Some (a, z)" "unat z = queue_ptr P 0 + 24 + fifo_cap f" "fifo_cap f < 4294967296"
    by (auto simp: entry_ok_def)
  obtain c' g' where run: "F (c, g) = returns (r, c', g')" and stays: "stays_served P a f (c, g) f' (c', g')"
    using op [OF o(1)] by auto
  have same: "sys g' = sys g" and e: "elsewhere (seg_region (seg (sys g)) (?N i)) g g'"
    using stays entry_region [where T = "seg (sys g)" and n = "?N i", OF o(3,4)] by (simp_all add: stays_served_def)
  have "entry_ok P seg ?N g' (i, c', f')"
    using stays o(2-5) unfolding entry_ok_def by (intro exI [of _ a] exI [of _ z]) (simp add: stays_served_def)
  from surroundings_entry [OF bus sur e same this]
  have "surroundings P cast seg valid b g' (xs @ (i, c', f') # ys)" .
  moreover obtain z0 where there: "seg (sys g) (b_name b) = Some (?a, z0)" "32 \<le> unat z0"
    using sur by (auto simp: surroundings_def)
  have "seg_region (seg (sys g)) (?N i) \<inter> seg_region (seg (sys g)) (b_name b) = {}"
    using sur by (intro bus_apart [OF bus]) (auto simp: surroundings_def bus_names [OF bus])
  note body = body_frame [where T = "seg (sys g)" and n = "b_name b", OF e there this]
  note ids = arg_cong [OF body(2), of input_id, simplified] arg_cong [OF body(2), of output_id, simplified]
  ultimately have "bus_holds P cast seg valid sp (b\<lparr>m_pconnectors := map (fst \<circ> snd) (xs @ (i, c', f') # ys)\<rparr>, g')
      (xs @ (i, c', f') # ys)"
    using holds
    by (simp add: bus_holds_def Let_def body(1) ids)
  with run show ?thesis by blast
qed

section \<open>Following nobody\<close>

lemma update_in_sync:
  assumes bus: "bus_platform P cast seg nm valid" and holds: "bus_holds P cast seg valid sp (b, g) es"
  shows "\<exists>b'. update_connectors (single_bus_class P cast) (b, g) = returns (US_NONE, b', g)
    \<and> bus_holds P cast seg valid sp (b', g) es"
proof -
  have at: "atomic_spec (atomics (penv P))" using bus by (simp add: bus_platform_def env_ok_def)
  have sync: "m_status b = US_NONE" "input_id (m_controlblock b) = input_id (load_cb (gmem g) (shared_bus_get_memory b))"
    "output_id (m_controlblock b) = output_id (load_cb (gmem g) (shared_bus_get_memory b))"
    using holds by (simp_all add: bus_holds_def Let_def)
  let ?b = "\<lambda>e. b\<lparr>m_controlblock := (m_controlblock b)\<lparr>epoch := e\<rparr>\<rparr>"
  have self: "b\<lparr>m_controlblock := cb, m_status := US_NONE\<rparr> = b\<lparr>m_controlblock := cb\<rparr>" for cb
    using sync(1) by (cases b) simp
  have "bus_holds P cast seg valid sp (?b e, g) es" for e
    using holds by (simp add: bus_holds_def Let_def)
  moreover have "update_connectors (single_bus_class P cast) (b, g)
      = returns (US_NONE, ?b (epoch (load_cb (gmem g) (shared_bus_get_memory b))), g)
      \<or> update_connectors (single_bus_class P cast) (b, g) = returns (US_NONE, b, g)"
    using sync self [of "(m_controlblock b)\<lparr>epoch := load32 (gmem g) (shared_bus_get_memory b + 20)\<rparr>"]
    by (simp add: update_connectors_def is_updated_def atomic_cb_def atomic_specD [OF at]
      get_shared_controlblock_def Let_def rollback_def set_status_def)
  ultimately show ?thesis using holds by blast
qed

section \<open>The virtual operations on the ends of the list\<close>

lemma bus_connectors: "bus_holds P cast seg valid sp (b, g) es \<Longrightarrow> m_pconnectors b = map (fst \<circ> snd) es"
  by (simp add: bus_holds_def Let_def)

lemma lone_meanwhile: "lone_platform P cast seg nm valid \<Longrightarrow> meanwhile P k g = g"
  by (simp add: lone_platform_def)

lemma served_place: "served P a (c, g) f \<Longrightarrow> sm_get (m_memory c) = a"
  by (simp add: served_def shared_get_memory_def)

lemma holds_served:
  assumes "bus_holds P cast seg valid sp (b, g) es" and "(i, c, f) \<in> set es"
  shows "\<exists>a. served P a (c, g) f"
proof -
  have "entry_ok P seg (names_of cast b) g (i, c, f)"
    using assms unfolding bus_holds_def surroundings_def Let_def by simp
  then show ?thesis by (auto simp: entry_ok_def)
qed

text \<open>
  An attempt \<open>F\<close> to push on the connector at the front, between the two checks for the other
  processes. It makes the FIFO \<open>f'\<close> of \<open>f\<close> or fails and leaves it.
\<close>

lemma push_front:
  assumes lone: "lone_platform P cast seg nm valid" and holds: "bus_holds P cast seg valid sp s ((i, c, f) # es)"
    and op: "\<And>a g. served P a (c, g) f \<Longrightarrow> \<exists>r s'. F (c, g) = returns (r, s')
      \<and> stays_served P a f (c, g) (if r then f' else f) s' \<and> Q r"
  shows "\<exists>r s' c'. and_then (update_output_connector (single_bus_class P cast) s)
      (\<lambda>(u, s1). push_again (single_bus_class P cast) (on_output F) 0 s1) = returns (r, s')
    \<and> bus_holds P cast seg valid sp s' ((i, c', if r then f' else f) # es) \<and> Q r"
proof -
  note bus = lone_bus [OF lone]
  let ?B = "single_bus_class P cast"
  obtain b g where s: "s = (b, g)" by (cases s)
  obtain b1 where b1: "update_connectors ?B (b, g) = returns (US_NONE, b1, g)"
    "bus_holds P cast seg valid sp (b1, g) ((i, c, f) # es)"
    using update_in_sync [OF bus] holds unfolding s by blast
  obtain a where a: "served P a (c, g) f" using holds_served [OF b1(2), of i c f] by auto
  obtain r s0 where r: "F (c, g) = returns (r, s0)" "stays_served P a f (c, g) (if r then f' else f) s0" "Q r"
    using op [OF a] by blast
  define f1 where "f1 = (if r then f' else f)"
  have "\<exists>s'. F (c, g) = returns (r, s') \<and> stays_served P a' f (c, g) f1 s'" if "served P a' (c, g) f" for a'
    using r(1,2) served_place [OF that] served_place [OF a] unfolding f1_def by blast
  then have "\<exists>c' g'. F (c, g) = returns (r, c', g')
    \<and> bus_holds P cast seg valid sp (b1\<lparr>m_pconnectors := map (fst \<circ> snd) ([] @ (i, c', f1) # es)\<rparr>, g')
      ([] @ (i, c', f1) # es)"
    by (intro bus_entry_op [OF bus, where F = F]) (use b1(2) in simp_all)
  then obtain c' g' where c': "F (c, g) = returns (r, c', g')"
    "bus_holds P cast seg valid sp (b1\<lparr>m_pconnectors := c' # map (fst \<circ> snd) es\<rparr>, g') ((i, c', f1) # es)"
    by auto
  let ?b2 = "b1\<lparr>m_pconnectors := c' # map (fst \<circ> snd) es\<rparr>"
  have attempt: "on_output F (b1, g) = returns (r, ?b2, g')"
    by (simp add: on_output_def bus_connectors [OF b1(2)] c'(1))
  obtain b3 where b3: "update_connectors ?B (?b2, g') = returns (US_NONE, b3, g')"
    "bus_holds P cast seg valid sp (b3, g') ((i, c', f1) # es)"
    using update_in_sync [OF bus c'(2)] by blast
  have "push_again ?B (on_output F) 0 (b1, g) = (if r then returns (True, b3, g') else returns (False, ?b2, g'))"
    by (subst push_again.simps) (simp add: attempt update_output_connector_def lone_meanwhile [OF lone] b3(1))
  then show ?thesis
    using b3(2) c'(2) r(3) unfolding f1_def by (cases r) (auto simp: s update_output_connector_def b1(1))
qed

lemma shared_push_front:
  assumes lone: "lone_platform P cast seg nm valid" and holds: "bus_holds P cast seg valid sp s ((i, c, f) # es)"
    and ne: "snd x \<noteq> []"
  shows "\<exists>s' c'. shared_bus_push (single_bus_class P cast) (fst x) (snd x) s = returns (fst (fifo_push x f), s')
    \<and> bus_holds P cast seg valid sp s' ((i, c', snd (fifo_push x f)) # es)"
proof -
  have full: "snd (fifo_push x f) = f" if "\<not> fst (fifo_push x f)"
    using that by (simp add: fifo_push_def split: if_split_asm)
  have "\<exists>r s'. connector_push (single_bidirectional_connector P) (fst x) (snd x) (c, g) = returns (r, s')
      \<and> stays_served P a f (c, g) (if r then snd (fifo_push x f) else f) s' \<and> r = fst (fifo_push x f)"
    if "served P a (c, g) f" for a g
    using served_enq [OF that ne] full by (auto simp: conn_enq_def)
  from push_front [where Q = "\<lambda>r. r = fst (fifo_push x f)", OF lone holds this]
  obtain s' c' where "shared_bus_push (single_bus_class P cast) (fst x) (snd x) s = returns (fst (fifo_push x f), s')"
    "bus_holds P cast seg valid sp s' ((i, c', if fst (fifo_push x f) then snd (fifo_push x f) else f) # es)"
    by (auto simp: shared_bus_push_def base_bus_push_def [abs_def])
  with full show ?thesis by (cases "fst (fifo_push x f)") auto
qed

text \<open>An attempt on the back of the list, and the loop around it when nobody else adds or removes.\<close>

lemma read_back:
  assumes lone: "lone_platform P cast seg nm valid" and holds: "bus_holds P cast seg valid sp (b, g) (es @ [(i, c, f)])"
    and op: "\<And>a. served P a (c, g) f \<Longrightarrow> \<exists>s'. F (c, g) = returns (r, s') \<and> stays_served P a f (c, g) f' s'"
  shows "\<exists>b' g' c' g0. F (c, g) = returns (r, c', g0) \<and> gmem g' = gmem g0
    \<and> read_again (single_bus_class P cast) (on_input F) ok 0 (b, g) = returns (r, b', g')
    \<and> bus_holds P cast seg valid sp (b', g') (es @ [(i, c', f')])"
proof -
  note bus = lone_bus [OF lone]
  let ?B = "single_bus_class P cast"
  obtain c' g' where c': "F (c, g) = returns (r, c', g')"
    "bus_holds P cast seg valid sp (b\<lparr>m_pconnectors := map (fst \<circ> snd) es @ [c']\<rparr>, g') (es @ [(i, c', f')])"
    using bus_entry_op [OF bus, where xs = es and ys = "[]" and F = F and r = r and f' = f', OF holds op] by auto
  let ?b2 = "b\<lparr>m_pconnectors := map (fst \<circ> snd) es @ [c']\<rparr>"
  have attempt: "on_input F (b, g) = returns (r, ?b2, g')"
    by (simp add: on_input_def bus_connectors [OF holds] c'(1) butlast_append)
  obtain b3 where b3: "update_connectors ?B (?b2, g') = returns (US_NONE, b3, g')"
    "bus_holds P cast seg valid sp (b3, g') (es @ [(i, c', f')])"
    using update_in_sync [OF bus c'(2)] by blast
  have "read_again ?B (on_input F) ok 0 (b, g) = (if ok r then returns (r, ?b2, g') else returns (r, b3, g'))"
    by (subst read_again.simps) (simp add: attempt update_input_connector_def lone_meanwhile [OF lone] b3(1))
  then show ?thesis
    using c' b3(2) by (cases "ok r") auto
qed

text \<open>Getting and popping.\<close>

lemma served_get:
  assumes "served P a (c, g) f"
  shows "\<exists>ps s'. connector_get (single_bidirectional_connector P) (c, g) = returns (ps, s')
    \<and> read_message (gmem (snd s')) ps = fifo_get f \<and> stays_served P a f (c, g) f s'"
  using served_front [OF assms] by (auto simp: conn_front_def and_then_eq_returns)

lemma get_back:
  assumes lone: "lone_platform P cast seg nm valid" and holds: "bus_holds P cast seg valid sp s (es @ [(i, c, f)])"
    and op: "\<And>a g. served P a (c, g) f \<Longrightarrow> \<exists>ps s'. G (c, g) = returns (ps, s')
      \<and> read_message (gmem (snd s')) ps = fifo_get f \<and> stays_served P a f (c, g) f s'"
  shows "\<exists>ps s' c'. read_again (single_bus_class P cast) (on_input G) (\<lambda>ps. ps \<noteq> []) 0 s = returns (ps, s')
    \<and> read_message (gmem (snd s')) ps = fifo_get f \<and> bus_holds P cast seg valid sp s' (es @ [(i, c', f)])"
proof -
  obtain b g where s: "s = (b, g)" by (cases s)
  obtain a where a: "served P a (c, g) f" using holds_served holds unfolding s by fastforce
  obtain ps s1 where get: "G (c, g) = returns (ps, s1)" "read_message (gmem (snd s1)) ps = fifo_get f"
    "stays_served P a f (c, g) f s1"
    using op [OF a] by blast
  have "\<exists>s'. G (c, g) = returns (ps, s') \<and> stays_served P a' f (c, g) f s'" if "served P a' (c, g) f" for a'
    using get(1,3) served_place [OF that] served_place [OF a] by blast
  from read_back [OF lone holds [unfolded s], where F = G and r = ps and f' = f and ok = "\<lambda>ps. ps \<noteq> []", OF this] obtain b' g' c' where
    "read_again (single_bus_class P cast) (on_input G) (\<lambda>ps. ps \<noteq> []) 0 (b, g) = returns (ps, b', g')"
    "bus_holds P cast seg valid sp (b', g') (es @ [(i, c', f)])" "gmem g' = gmem (snd s1)"
    using get(1) by fastforce
  then show ?thesis
    using get(2) by (intro exI [of _ ps] exI [of _ "(b', g')"] exI [of _ c']) (simp add: s)
qed

lemma shared_get_back:
  assumes "lone_platform P cast seg nm valid" and "bus_holds P cast seg valid sp s (es @ [(i, c, f)])"
  shows "\<exists>ps s' c'. shared_bus_get (single_bus_class P cast) s = returns (ps, s')
    \<and> read_message (gmem (snd s')) ps = fifo_get f \<and> bus_holds P cast seg valid sp s' (es @ [(i, c', f)])"
  using get_back [OF assms served_get] by (simp add: shared_bus_get_def base_bus_get_def [abs_def])

lemma shared_pop_back:
  assumes lone: "lone_platform P cast seg nm valid" and holds: "bus_holds P cast seg valid sp s (es @ [(i, c, f)])"
  shows "\<exists>s' c'. shared_bus_pop (single_bus_class P cast) s = returns (fst (fifo_pop f), s')
    \<and> bus_holds P cast seg valid sp s' (es @ [(i, c', snd (fifo_pop f))])"
proof -
  let ?G = "connector_pop (single_bidirectional_connector P)"
  obtain b g where s: "s = (b, g)" by (cases s)
  have "\<exists>s'. ?G (c, g) = returns (fst (fifo_pop f), s') \<and> stays_served P a f (c, g) (snd (fifo_pop f)) s'"
    if "served P a (c, g) f" for a
    using served_deq [OF that] by (simp add: conn_deq_def)
  from read_back [OF lone holds [unfolded s], where F = ?G and r = "fst (fifo_pop f)" and f' = "snd (fifo_pop f)" and ok = "\<lambda>b. b", OF this] obtain b' g' c' where
    "read_again (single_bus_class P cast) (on_input ?G) (\<lambda>b. b) 0 (b, g) = returns (fst (fifo_pop f), b', g')"
    "bus_holds P cast seg valid sp (b', g') (es @ [(i, c', snd (fifo_pop f))])"
    by fast
  then show ?thesis
    by (intro exI [of _ "(b', g')"] exI [of _ c']) (simp add: s shared_bus_pop_def base_bus_pop_def [abs_def])
qed

section \<open>A new connector\<close>

lemma surroundings_sys:
  assumes sur: "surroundings P cast seg valid b g es" and "elsewhere {} g g'"
    and same: "seg (sys g') = seg (sys g)" and "valid (sys g')"
  shows "surroundings P cast seg valid b g' es"
proof -
  have "entry_ok P seg (names_of cast b) g' e" if "e \<in> set es" for e
  proof (rule entry_frame [OF _ assms(2)])
    show "entry_ok P seg (names_of cast b) g e" using sur that by (simp add: surroundings_def)
  qed (simp_all add: same)
  then show ?thesis using sur assms(4) unfolding surroundings_def same by simp
qed

lemma surroundings_new:
  assumes bus: "bus_platform P cast seg nm valid" and sur: "surroundings P cast seg valid b g es"
    and fresh: "i \<notin> fst ` set es" and e: "elsewhere {a..<a + unat z} g g'"
    and seg: "seg (sys g') = (seg (sys g))(names_of cast b i \<mapsto> (a, z))" and "valid (sys g')"
    and ok: "entry_ok P seg (names_of cast b) g' (i, c, f)"
  shows "surroundings P cast seg valid b g' ((i, c, f) # es)"
    "{a..<a + unat z} \<inter> seg_region (seg (sys g)) (b_name b) = {}"
proof -
  have away: "{a..<a + unat z} \<inter> seg_region (seg (sys g)) n = {}" if "n \<noteq> names_of cast b i" for n
  proof -
    have "{a..<a + unat z} = seg_region (seg (sys g')) (names_of cast b i)"
      "seg_region (seg (sys g)) n = seg_region (seg (sys g')) n"
      using that by (simp_all add: seg_region_def seg)
    then show ?thesis using bus_apart [OF bus assms(6)] that by metis
  qed
  then show "{a..<a + unat z} \<inter> seg_region (seg (sys g)) (b_name b) = {}"
    by (simp add: bus_names [OF bus])
  have "entry_ok P seg (names_of cast b) g' x" if x: "x \<in> set es" for x
  proof (rule entry_frame [OF _ e])
    show "entry_ok P seg (names_of cast b) g x" using sur x by (simp add: surroundings_def)
    have "fst x \<noteq> i" using fresh x by auto
    then show "seg (sys g') (names_of cast b (fst x)) = seg (sys g) (names_of cast b (fst x))"
      "{a..<a + unat z} \<inter> seg_region (seg (sys g)) (names_of cast b (fst x)) = {}"
      using away by (simp_all add: seg bus_names [OF bus])
  qed
  then show "surroundings P cast seg valid b g' ((i, c, f) # es)"
    using sur ok fresh assms(6) unfolding surroundings_def seg by (simp add: bus_names [OF bus])
qed

lemma served_capacity:
  assumes "served P a (c, g) f"
  shows "\<exists>z. connector_capacity (single_bidirectional_connector P) (c, g) = returns z \<and> unat z = fifo_cap f
    \<and> fifo_cap f < 4294967296"
proof -
  obtain q where q: "m_pqueue c = Some q" "queue_holds (penv P) (wld g, q) f"
    by (rule served_cases [OF assms])
  have "m_opened c" using assms by (simp add: served_def single_holds_def)
  moreover have "v_capacity (single_bidirectional_connector P) = simple_connector_capacity"
    by (simp add: single_bidirectional_connector_def safe_connector_def base_safe_connector_def
      bidirectional_connector_def simple_connector_def)
  moreover have "unat (q_capacity (gmem g) q) = fifo_cap f" using q(2) by (simp add: queue_holds_def)
  moreover have "unat (q_capacity (gmem g) q) < 4294967296" by (simp add: q_capacity_def unat_lt_u32)
  ultimately show ?thesis
    by (simp add: connector_capacity_def simple_connector_capacity_def q(1))
qed

lemma unopened_destroy:
  "v_destroy (single_bidirectional_connector P) (new_connector name CON_BIDIR, g)
    = returns (new_connector name CON_BIDIR, g\<lparr>sys := shm_remove (papi P) name (sys g)\<rparr>)"
  by (simp add: single_destroy_field safe_destroy_def simple_connector_def free_queue_def
    shared_connector_destroy_def sm_destroy_def sm_remove_def) (simp add: new_connector_def new_shared_memory_def)

lemma safe_create_parent:
  "safe_create P Simple_queue C cid sz None parent s = safe_create P Simple_queue C cid sz None None s"
proof -
  have "make_queue P Simple_queue ptr cid sz None parent s = make_queue P Simple_queue ptr cid sz None None s" for ptr s
    by (simp add: make_queue_def create_queue_def)
  then show ?thesis by (simp only: safe_create_def)
qed

text \<open>
  A segment made under a free name by its first object: where it is, what it leaves alone, and
  its one user.
\<close>

definition segment_made ::
  "('h, 'o, 'l, 'b) platform \<Rightarrow> ('o \<Rightarrow> string \<Rightarrow> (nat \<times> u64) option) \<Rightarrow> string
    \<Rightarrow> ('o, 'l, 'b) globals \<Rightarrow> ('o, 'l, 'b) globals \<Rightarrow> 'h connector \<Rightarrow> bool" where
  "segment_made P seg n g g' c \<longleftrightarrow> (\<exists>a z m. seg (sys g') = (seg (sys g))(n \<mapsto> (a, z)) \<and> elsewhere {a..<a + unat z} g g'
     \<and> sys g' = fst (snd (snd (sm_create (papi P) z (new_shared_memory n :: 'h shared_memory) (sys g, m))))
     \<and> users a (gmem g') = 1 \<and> sm_get (m_memory c) = a \<and> m_pqueue c = Some (simple_open (queue_ptr P a)))"

lemma create_fresh:
  fixes P :: "('h, 'o, 'l, 'b) platform"
  assumes bus: "bus_platform P cast seg nm valid" and sur: "surroundings P cast seg valid b g es"
    and fresh: "i \<notin> fst ` set es" and sz: "0 < unat sz" "unat sz < 4294967296"
  shows "\<exists>c g'. connector_create (single_bidirectional_connector P) cid sz None parent
        (new_connector (names_of cast b i) CON_BIDIR, g) = returns (True, c, g')
    \<and> segment_made P seg (names_of cast b i) g g' c
    \<and> surroundings P cast seg valid b g' ((i, c, \<lparr>fifo_cap = unat sz, fifo_pos = 0, fifo_msgs = []\<rparr>) # es)
    \<and> load_spec (gmem g') (shared_bus_get_memory b) = load_spec (gmem g) (shared_bus_get_memory b)
    \<and> load_cb (gmem g') (shared_bus_get_memory b) = load_cb (gmem g) (shared_bus_get_memory b)"
proof -
  let ?C = "simple_connector P Simple_queue" and ?n = "names_of cast b i"
  let ?sz = "safe_memory_size P (simple_connector P Simple_queue) sz"
  let ?f = "\<lparr>fifo_cap = unat sz, fifo_pos = 0, fifo_msgs = []\<rparr>"
  have plat: "shm_spec (papi P) seg nm" "env_ok (penv P)" "lock_free (plock P) (new_locker (plock P))"
    "side_enters (scoped_lock_type (plock P)) (new_locker (plock P))"
    "locker_size (plock P) + barrier_size (pbar P) < 4294967296"
    using bus by (simp_all add: bus_platform_def)
  have none: "seg (sys g) ?n = None" and val: "valid (sys g)" using sur fresh by (simp_all add: surroundings_def)
  obtain a c g' where r: "safe_create P Simple_queue ?C cid sz None None (new_connector ?n CON_BIDIR, g) = returns (True, c, g')"
    "served P a (c\<lparr>m_opened := True\<rparr>, g') ?f" "sm_name (m_memory c) = ?n"
    "lockers g' = (lockers g)(a + 8 := new_locker (plock P))"
    "only_changes (gmem g) (gmem g') {a..<a + unat ?sz}"
    "sys g' = fst (snd (snd (sm_create (papi P) ?sz (new_shared_memory ?n :: 'h shared_memory) (sys g, gmem g))))"
    "seg (sys g') = (seg (sys g))(?n \<mapsto> (a, ?sz))" "users a (gmem g') = 1"
    "m_pqueue c = Some (simple_open (queue_ptr P a))"
    using safe_create_serves [OF plat(1) none plat(2-4) sz plat(5), of cid] by blast
  have size: "unat ?sz = queue_ptr P 0 + 24 + unat sz"
    using safe_size [OF sz(2) plat(5), of Simple_queue] by (simp add: header_size_def)
  have e: "elsewhere {a..<a + unat ?sz} g g'"
    using r(4,5) size by (auto simp: elsewhere_def queue_ptr_def)
  have val': "valid (sys g')" unfolding r(6) using bus val by (auto simp: bus_platform_def shm_apart_def)
  have ok: "entry_ok P seg (names_of cast b) g' (i, c\<lparr>m_opened := True\<rparr>, ?f)"
    unfolding entry_ok_def using r(2,3) size sz(2)
    by (intro exI [of _ a] exI [of _ ?sz]) (simp add: r(7))
  note new = surroundings_new [OF bus sur fresh e r(7) val' ok]
  obtain z0 where there: "seg (sys g) (b_name b) = Some (shared_bus_get_memory b, z0)" "32 \<le> unat z0"
    using sur by (auto simp: surroundings_def)
  note body = body_frame [where T = "seg (sys g)" and n = "b_name b", OF e there new(2)]
  have "connector_create (single_bidirectional_connector P) cid sz None parent (new_connector ?n CON_BIDIR, g)
      = returns (True, c\<lparr>m_opened := True\<rparr>, g')"
    by (simp add: connector_create_def single_create_field safe_create_parent [where parent = parent] r(1))
  moreover have "segment_made P seg ?n g g' (c\<lparr>m_opened := True\<rparr>)"
    unfolding segment_made_def using e r(6-9) served_place [OF r(2)]
    by (intro exI [of _ a] exI [of _ ?sz] exI [of _ "gmem g"]) simp
  ultimately show ?thesis using new(1) body by blast
qed

definition front_cap :: "'h entry list \<Rightarrow> nat" where
  "front_cap es = (case es of [] \<Rightarrow> 0 | e # _ \<Rightarrow> fifo_cap (entry_fifo e))"

text \<open>The FIFO of a new connector in front of the list.\<close>

definition new_fifo :: "specification_type \<Rightarrow> 'h entry list \<Rightarrow> fifo" where
  "new_fifo sp es = \<lparr>fifo_cap = unat (new_capacity sp (of_nat (front_cap es))), fifo_pos = 0, fifo_msgs = []\<rparr>"

text \<open>No larger connector may follow.\<close>

definition stuck :: "specification_type \<Rightarrow> 'h entry list \<Rightarrow> bool" where
  "stuck sp es \<longleftrightarrow> es \<noteq> [] \<and> capacity_factor sp = 0
     \<or> new_capacity sp (of_nat (front_cap es)) \<le> of_nat (front_cap es)"

lemma drop_fresh:
  assumes bus: "bus_platform P cast seg nm valid" and sur: "surroundings P cast seg valid b g es"
    and fresh: "i \<notin> fst ` set es"
  shows "\<exists>g'. drop_connector (single_layout_of P cast) b (new_connector (names_of cast b i) CON_BIDIR, g)
      = returns (None, b, g') \<and> g' = g\<lparr>sys := shm_remove (papi P) (names_of cast b i) (sys g)\<rparr>
    \<and> surroundings P cast seg valid b g' es"
proof -
  let ?g = "g\<lparr>sys := shm_remove (papi P) (names_of cast b i) (sys g)\<rparr>"
  have "seg (sys g) (names_of cast b i) = None" "valid (sys g)"
    using sur fresh by (simp_all add: surroundings_def)
  moreover have "seg (shm_remove (papi P) (names_of cast b i) (sys g)) = (seg (sys g))(names_of cast b i := None)"
    using bus by (simp add: bus_platform_def shm_spec_def)
  moreover have "valid (shm_remove (papi P) (names_of cast b i) (sys g))"
    using bus \<open>valid (sys g)\<close> by (simp add: bus_platform_def shm_apart_def)
  ultimately have "surroundings P cast seg valid b ?g es"
    by (intro surroundings_sys [OF sur]) (simp_all add: elsewhere_def fun_upd_idem)
  then show ?thesis
    by (intro exI [of _ ?g]) (simp add: drop_connector_def unopened_destroy)
qed

text \<open>The globals after the attempt to open a missing segment.\<close>

definition opening_failed ::
  "('h, 'o, 'l, 'b) platform \<Rightarrow> string \<Rightarrow> ('o, 'l, 'b) globals \<Rightarrow> ('o, 'l, 'b) globals" where
  "opening_failed P n g = g\<lparr>sys := snd (snd (sm_open (papi P) (new_shared_memory n :: 'h shared_memory) (sys g)))\<rparr>"

lemma opening_failed_fields [simp]:
  "wld (opening_failed P n g) = wld g" "lockers (opening_failed P n g) = lockers g"
  by (simp_all add: opening_failed_def)

text \<open>
  The bus may have further connectors behind those of the list.
\<close>

lemma make_fresh:
  fixes P :: "('h, 'o, 'l, 'b) platform"
  assumes bus: "bus_platform P cast seg nm valid" and sur: "surroundings P cast seg valid b g es"
    and list: "m_pconnectors b = map (fst \<circ> snd) es @ cs" "es = [] \<Longrightarrow> cs = []" and fresh: "i \<notin> fst ` set es"
    and spec: "load_spec (gmem g) (shared_bus_get_memory b) = sp" "spec_keepalive_timeout sp = 0"
  shows "\<exists>p g'. make_connector (single_layout_of P cast) i (b, g) = returns (p, b, g')
    \<and> load_spec (gmem g') (shared_bus_get_memory b) = sp
    \<and> load_cb (gmem g') (shared_bus_get_memory b) = load_cb (gmem g) (shared_bus_get_memory b)
    \<and> (case p of None \<Rightarrow> surroundings P cast seg valid b g' es \<and> stuck sp es
           \<and> g' = (opening_failed P (names_of cast b i) g)
               \<lparr>sys := shm_remove (papi P) (names_of cast b i) (sys (opening_failed P (names_of cast b i) g))\<rparr>
       | Some c \<Rightarrow> segment_made P seg (names_of cast b i) (opening_failed P (names_of cast b i) g) g' c
           \<and> (\<exists>f. fifo_msgs f = [] \<and> front_cap es < fifo_cap f \<and> fifo_cap f < 4294967296
           \<and> f = new_fifo sp es
           \<and> surroundings P cast seg valid b g' ((i, c, f) # es)))"
proof -
  let ?L = "single_layout_of P cast" and ?n = "names_of cast b i" and ?C = "single_bidirectional_connector P"
  let ?cs = "map (fst \<circ> snd) es @ cs" and ?c0 = "new_connector (names_of cast b i) CON_BIDIR :: 'h connector"
  let ?g1 = "opening_failed P ?n g"
  have plat: "shm_spec (papi P) seg nm" "shm_apart (papi P) seg valid" using bus by (simp_all add: bus_platform_def)
  have none: "seg (sys g) ?n = None" and val: "valid (sys g)" using sur fresh by (simp_all add: surroundings_def)
  note missing = open_missing [where P = P, OF plat(1) none]
  have sur1: "surroundings P cast seg valid b ?g1 es"
    using plat(2) val missing(2)
    by (intro surroundings_sys [OF sur]) (auto simp: shm_apart_def elsewhere_def opening_failed_def)
  note missing1 = missing(1) [folded opening_failed_def]
  have sp: "get_spec ?L (b, ?g1) = sp" using spec(1) by (simp add: get_spec_def)
  have "\<exists>z. (if ?cs \<noteq> [] then connector_capacity ?C (hd ?cs, ?g1) else returns 0) = returns z \<and> unat z = front_cap es
      \<and> front_cap es < 4294967296"
  proof (cases es)
    case (Cons e es1)
    then have "entry_ok P seg (names_of cast b) ?g1 e" using sur1 by (simp add: surroundings_def)
    then obtain a where "served P a (fst (snd e), ?g1) (entry_fifo e)" by (auto simp: entry_ok_def)
    from served_capacity [OF this] show ?thesis by (simp add: Cons front_cap_def)
  qed (simp add: front_cap_def list(2))
  then obtain z where z: "(if ?cs \<noteq> [] then connector_capacity ?C (hd ?cs, ?g1) else returns 0) = returns z"
    "unat z = front_cap es" "front_cap es < 4294967296" by blast
  then have old: "unat (ucast z :: u32) = front_cap es" by (simp add: unat_ucast_64_32)
  have word: "ucast z = (of_nat (front_cap es) :: u32)" using arg_cong [OF old, of "of_nat :: nat \<Rightarrow> u32"] by simp
  let ?new = "new_capacity sp (ucast z)"
  obtain g2 where g2: "drop_connector ?L b (?c0, ?g1) = returns (None, b, g2)"
    "g2 = ?g1\<lparr>sys := shm_remove (papi P) ?n (sys ?g1)\<rparr>" "surroundings P cast seg valid b g2 es"
    using drop_fresh [OF bus sur1 fresh] by auto
  define parent where "parent = (if ?cs \<noteq> [] then m_pqueue (hd ?cs) else None)"
  have make: "make_connector ?L i (b, g)
      = (if (es = [] \<or> capacity_factor sp > 0) \<and> ?new > ucast z then
           and_then (connector_create ?C (spec_id sp) (ucast ?new) None parent (?c0, ?g1)) (\<lambda>(created, c2, g2).
             if created then returns (Some c2, b, g2) else drop_connector ?L b (c2, g2))
         else returns (None, b, g2))"
  proof (cases "es = []")
    case True
    then have "z = 0" using z(2) by (simp add: front_cap_def unat_eq_zero)
    then show ?thesis using g2(1) True by (simp add: make_connector_def parent_def Let_def list missing1 sp spec(2))
  next
    case False
    then show ?thesis using z(1) g2(1) by (simp add: make_connector_def parent_def Let_def list missing1 sp spec(2))
  qed
  show ?thesis
  proof (cases "(es = [] \<or> capacity_factor sp > 0) \<and> ?new > ucast z")
    case True
    then have less: "front_cap es < unat ?new" using old by (simp add: word_less_nat_alt)
    have sz: "unat (ucast ?new :: u64) = unat ?new" "unat ?new < 4294967296"
      by (simp_all add: unat_lt_u32)
    then obtain c g' where c: "connector_create ?C (spec_id sp) (ucast ?new) None parent (?c0, ?g1) = returns (True, c, g')"
      "surroundings P cast seg valid b g' ((i, c, \<lparr>fifo_cap = unat ?new, fifo_pos = 0, fifo_msgs = []\<rparr>) # es)"
      "load_spec (gmem g') (shared_bus_get_memory b) = load_spec (gmem g) (shared_bus_get_memory b)"
      "load_cb (gmem g') (shared_bus_get_memory b) = load_cb (gmem g) (shared_bus_get_memory b)"
      "segment_made P seg ?n ?g1 g' c"
      using create_fresh [OF bus sur1 fresh, of "ucast ?new" "spec_id sp" parent] less by auto
    have "make_connector ?L i (b, g) = returns (Some c, b, g')" using True by (simp add: make c(1))
    with c(2-5) less sz(2) spec(1) word show ?thesis
      by (intro exI [of _ "Some c"] exI [of _ g'])
        (auto simp: new_fifo_def intro!: exI [of _ "\<lparr>fifo_cap = unat ?new, fifo_pos = 0, fifo_msgs = []\<rparr>"])
  next
    case False
    have "make_connector ?L i (b, g) = returns (None, b, g2)" by (simp only: make if_not_P [OF False])
    moreover have "stuck sp es" using False word by (auto simp: stuck_def not_less)
    ultimately show ?thesis using g2 spec(1) by (intro exI [of _ None] exI [of _ g2]) simp
  qed
qed

end
