(* ===== verification/Bus_Fifo.thy ===== *)
theory Bus_Fifo
  imports Bus_Entries
begin

text \<open>
  A bus of single connectors that one process uses is one FIFO: the contents of its connectors,
  from the back to the front, are what has been pushed and not yet popped, in order, whatever
  connectors are added and removed on the way.
\<close>

section \<open>Growing at the front\<close>

lemma ids_extend:
  assumes "(out :: u32) + 1 \<noteq> i"
  shows "(out + 1) # ids_down i (Suc (unat (out - i))) = ids_down i (Suc (unat (out + 1 - i)))"
    "out + 1 \<notin> set (ids_down i (Suc (unat (out - i))))"
proof -
  have n: "unat (out + 1 - i) = Suc (unat (out - i))"
    using next_distance [OF assms] by simp
  have "i + of_nat (Suc (unat (out - i))) = out + 1" by simp
  then show eq: "(out + 1) # ids_down i (Suc (unat (out - i))) = ids_down i (Suc (unat (out + 1 - i)))"
    unfolding n ids_down_front [of i "Suc (unat (out - i))"] by simp
  have "unat (out + 1 - i) < 4294967296" by (rule unat_lt_u32)
  then have "distinct (ids_down i (Suc (unat (out + 1 - i))))" by (intro distinct_ids_down) simp
  then show "out + 1 \<notin> set (ids_down i (Suc (unat (out - i))))" unfolding eq [symmetric] by simp
qed

lemma load_spec_store_cb [simp]: "load_spec (store_cb a cb m) a = load_spec m a"
  by (simp add: load_spec_def store_cb_def load32_store32_other add.assoc)

lemma stored_ids [simp]:
  "load32 (store_cb a cb m) (a + 28) = output_id cb" "load32 (store_cb a cb m) (a + 24) = input_id cb"
  using load_store_cb [of a cb m] by (metis cb_fields(3), metis cb_fields(2))

lemma store_cb_changes: "only_changes m (store_cb a cb m) {a..<a + 32}"
proof -
  have "only_changes m (store_cb a cb m) {a + 20..<a + 32}"
    unfolding store_cb_def add.assoc by (auto simp: only_changes_def store32_def store_def)
  then show ?thesis by (rule only_changes_mono) simp
qed

lemma surroundings_body:
  assumes bus: "bus_platform P cast seg nm valid" and sur: "surroundings P cast seg valid b g es"
  shows "surroundings P cast seg valid b (mapmem (store_cb (shared_bus_get_memory b) cb) g) es"
proof -
  let ?a = "shared_bus_get_memory b" and ?g = "mapmem (store_cb (shared_bus_get_memory b) cb) g"
  have e: "elsewhere {?a..<?a + 32} g ?g" by (simp add: elsewhere_def store_cb_changes)
  obtain z where "seg (sys g) (b_name b) = Some (?a, z)" "32 \<le> unat z" using sur by (auto simp: surroundings_def)
  then have inside: "{?a..<?a + 32} \<subseteq> seg_region (seg (sys g)) (b_name b)" by (auto simp: seg_region_def)
  have "entry_ok P seg (names_of cast b) ?g x" if "x \<in> set es" for x
  proof (rule entry_frame [OF _ e])
    show "entry_ok P seg (names_of cast b) g x" using sur that by (simp add: surroundings_def)
    have "seg_region (seg (sys g)) (b_name b) \<inter> seg_region (seg (sys g)) (names_of cast b (fst x)) = {}"
      using sur by (intro bus_apart [OF bus]) (simp_all add: surroundings_def bus_names [OF bus])
    then show "{?a..<?a + 32} \<inter> seg_region (seg (sys g)) (names_of cast b (fst x)) = {}"
      using inside by blast
  qed simp
  then show ?thesis using sur by (simp add: surroundings_def)
qed

text \<open>
  One addition: what the bus and the shared control block become. There may be further connectors
  behind those of the list.
\<close>

lemma add_step:
  fixes P :: "('h, 'o, 'l, 'b) platform"
  assumes bus: "bus_platform P cast seg nm valid" and st: "m_status b = US_NONE"
    and sur: "surroundings P cast seg valid b g es"
    and list: "m_pconnectors b = map (fst \<circ> snd) es @ cs" "es = [] \<Longrightarrow> cs = []"
    and cb: "load_cb (gmem g) (shared_bus_get_memory b) = cb" and fresh: "output_id cb + 1 \<notin> fst ` set es"
    and spec: "load_spec (gmem g) (shared_bus_get_memory b) = sp" "spec_keepalive_timeout sp = 0"
  shows "\<exists>p g'. load_spec (gmem g') (shared_bus_get_memory b) = sp \<and> load_cb (gmem g') (shared_bus_get_memory b) = cb
    \<and> (case p of
         None \<Rightarrow> shared_add_connector (single_layout_of P cast) (b, g) = returns (False, b, g')
           \<and> surroundings P cast seg valid b g' es \<and> stuck sp es
           \<and> g' = (opening_failed P (names_of cast b (output_id cb + 1)) g)
               \<lparr>sys := shm_remove (papi P) (names_of cast b (output_id cb + 1))
                  (sys (opening_failed P (names_of cast b (output_id cb + 1)) g))\<rparr>
       | Some c \<Rightarrow> shared_add_connector (single_layout_of P cast) (b, g)
             = returns (True, b\<lparr>m_pconnectors := c # m_pconnectors b, m_controlblock := (m_controlblock b)\<lparr>output_id := output_id cb + 1\<rparr>\<rparr>,
                 mapmem (store_cb (shared_bus_get_memory b) (cb\<lparr>output_id := output_id cb + 1, epoch := epoch cb + 1\<rparr>)) g')
           \<and> segment_made P seg (names_of cast b (output_id cb + 1)) (opening_failed P (names_of cast b (output_id cb + 1)) g) g' c
           \<and> fifo_msgs (new_fifo sp es) = [] \<and> front_cap es < fifo_cap (new_fifo sp es)
           \<and> fifo_cap (new_fifo sp es) < 4294967296
           \<and> surroundings P cast seg valid b g' ((output_id cb + 1, c, new_fifo sp es) # es))"
proof -
  let ?L = "single_layout_of P cast" and ?a = "shared_bus_get_memory b" and ?n = "names_of cast b (output_id cb + 1)"
  have at: "atomic_spec (atomics (penv P))" using bus by (simp add: bus_platform_def env_ok_def)
  have gcb: "get_controlblock ?L (b\<lparr>m_pconnectors := cs\<rparr>, g') = load_cb (gmem g') ?a"
    "get_controlblock ?L (b, g') = load_cb (gmem g') ?a" for cs g'
    using st by (simp_all add: get_controlblock_def get_shared_controlblock_def)
  obtain p g' where p: "make_connector ?L (output_id cb + 1) (b, g) = returns (p, b, g')"
    "load_spec (gmem g') ?a = sp" "load_cb (gmem g') ?a = load_cb (gmem g) ?a"
    "case p of None \<Rightarrow> surroundings P cast seg valid b g' es \<and> stuck sp es
         \<and> g' = (opening_failed P ?n g)\<lparr>sys := shm_remove (papi P) ?n (sys (opening_failed P ?n g))\<rparr>
       | Some c \<Rightarrow> segment_made P seg ?n (opening_failed P ?n g) g' c
           \<and> (\<exists>f. fifo_msgs f = [] \<and> front_cap es < fifo_cap f \<and> fifo_cap f < 4294967296
           \<and> f = new_fifo sp es
           \<and> surroundings P cast seg valid b g' ((output_id cb + 1, c, f) # es))"
    using make_fresh [OF bus sur list fresh spec] by blast
  have same: "load_cb (gmem g') ?a = cb" using p(3) cb by simp
  show ?thesis
  proof (cases p)
    case None
    have "shared_add_connector ?L (b, g) = returns (False, b, g')"
      using p(1) None by (simp add: shared_add_connector_def base_add_connector_def gcb cb)
    moreover have "surroundings P cast seg valid b g' es \<and> stuck sp es
      \<and> g' = (opening_failed P ?n g)\<lparr>sys := shm_remove (papi P) ?n (sys (opening_failed P ?n g))\<rparr>"
      using p(4) unfolding None option.case .
    ultimately show ?thesis using p(2) same
      by (intro exI [of _ None] exI [of _ g'], unfold option.case) (intro conjI; elim conjE; assumption)
  next
    case (Some c)
    let ?cb = "cb\<lparr>output_id := output_id cb + 1, epoch := epoch cb + 1\<rparr>"
    let ?b = "b\<lparr>m_pconnectors := c # m_pconnectors b, m_controlblock := (m_controlblock b)\<lparr>output_id := output_id cb + 1\<rparr>\<rparr>"
    have "shared_add_connector ?L (b, g) = returns (True, ?b, mapmem (store_cb ?a ?cb) g')"
      using p(1) Some st by (simp add: shared_add_connector_def base_add_connector_def gcb same cb Let_def
        set_connectors_def put_controlblock_def atomic_cb_def atomic_specD [OF at] get_shared_controlblock_def)
    then show ?thesis using p(2,4) Some same by (intro exI [of _ "Some c"] exI [of _ g']) auto
  qed
qed

lemma add_law:
  assumes bus: "bus_platform P cast seg nm valid" and holds: "bus_holds P cast seg valid sp s es"
    and spec: "spec_keepalive_timeout sp = 0" and room: "can_add_connector (single_layout_of P cast) s"
  shows "\<exists>r s'. shared_add_connector (single_layout_of P cast) s = returns (r, s')
    \<and> (if r then \<exists>e. fifo_msgs (entry_fifo e) = [] \<and> entry_fifo e = new_fifo sp es
         \<and> front_cap es < front_cap [e] \<and> front_cap [e] < 4294967296
         \<and> bus_holds P cast seg valid sp s' (e # es) else bus_holds P cast seg valid sp s' es \<and> stuck sp es)"
proof -
  let ?L = "single_layout_of P cast"
  obtain b g where s: "s = (b, g)" by (cases s)
  let ?a = "shared_bus_get_memory b"
  define i out where "i = input_id (load_cb (gmem g) ?a)" and "out = output_id (load_cb (gmem g) ?a)"
  have h: "m_status b = US_NONE" "surroundings P cast seg valid b g es" "load_spec (gmem g) ?a = sp" "b_opened b"
    "m_pconnectors b = map (fst \<circ> snd) es" "map fst es = ids_down i (Suc (unat (out - i)))"
    "input_id (m_controlblock b) = i" "output_id (m_controlblock b) = out"
    using holds by (simp_all add: s bus_holds_def Let_def i_def out_def)
  have "out + 1 \<noteq> i" using room h(1)
    by (simp add: s can_add_connector_def get_controlblock_def get_shared_controlblock_def i_def out_def)
  note ids = ids_extend [OF this]
  have fresh: "output_id (load_cb (gmem g) ?a) + 1 \<notin> fst ` set es"
    using ids(2) unfolding h(6) [symmetric] by (simp add: out_def)
  have list: "m_pconnectors b = map (fst \<circ> snd) es @ []" by (simp add: h(5))
  obtain p g' where p: "load_spec (gmem g') ?a = sp" "load_cb (gmem g') ?a = load_cb (gmem g) ?a"
    "case p of
       None \<Rightarrow> shared_add_connector ?L (b, g) = returns (False, b, g') \<and> surroundings P cast seg valid b g' es \<and> stuck sp es
     | Some c \<Rightarrow> shared_add_connector ?L (b, g)
           = returns (True, b\<lparr>m_pconnectors := c # m_pconnectors b, m_controlblock := (m_controlblock b)\<lparr>output_id := out + 1\<rparr>\<rparr>,
               mapmem (store_cb ?a ((load_cb (gmem g) ?a)\<lparr>output_id := out + 1, epoch := epoch (load_cb (gmem g) ?a) + 1\<rparr>)) g')
         \<and> fifo_msgs (new_fifo sp es) = [] \<and> front_cap es < fifo_cap (new_fifo sp es)
         \<and> fifo_cap (new_fifo sp es) < 4294967296
         \<and> surroundings P cast seg valid b g' ((out + 1, c, new_fifo sp es) # es)"
    using add_step [OF bus h(1,2) list _ refl fresh h(3) spec, folded out_def] by (fastforce split: option.splits)
  note same = arg_cong [OF p(2), of input_id] arg_cong [OF p(2), of output_id]
  show ?thesis
  proof (cases p)
    case None
    have "bus_holds P cast seg valid sp (b, g') es"
      using h p(1,3) None same by (simp add: bus_holds_def Let_def i_def out_def)
    with p(3) None show ?thesis by (intro exI [of _ False] exI [of _ "(b, g')"]) (simp add: s)
  next
    case (Some c)
    let ?cb = "(load_cb (gmem g) ?a)\<lparr>output_id := out + 1, epoch := epoch (load_cb (gmem g) ?a) + 1\<rparr>"
    let ?b = "b\<lparr>m_pconnectors := c # m_pconnectors b, m_controlblock := (m_controlblock b)\<lparr>output_id := out + 1\<rparr>\<rparr>"
    let ?g = "mapmem (store_cb ?a ?cb) g'"
    have new: "shared_add_connector ?L s = returns (True, ?b, ?g)"
      "fifo_msgs (new_fifo sp es) = []" "front_cap es < fifo_cap (new_fifo sp es)" "fifo_cap (new_fifo sp es) < 4294967296"
      "surroundings P cast seg valid b g' ((out + 1, c, new_fifo sp es) # es)"
      using p(3) by (simp_all add: Some s)
    have "bus_holds P cast seg valid sp (?b, ?g) ((out + 1, c, new_fifo sp es) # es)"
      using h(1,4-7) p(1) same ids(1) surroundings_body [OF bus new(5), of ?cb]
      by (simp add: bus_holds_def Let_def i_def)
    then show ?thesis using new
      by (intro exI [of _ True] exI [of _ "(?b, ?g)"])
        (auto simp: front_cap_def intro!: exI [of _ "(out + 1, c, new_fifo sp es)"])
  qed
qed

lemma holds_nonempty: "bus_holds P cast seg valid sp s es \<Longrightarrow> es \<noteq> []"
  by (auto simp: bus_holds_def Let_def ids_down_front)

lemma contents_simps [simp]:
  "contents [] = []" "contents (e # es) = contents es @ fifo_msgs (entry_fifo e)"
  "contents (es @ es') = contents es' @ contents es"
  by (simp_all add: contents_def)

lemma length_ids_down: "length (ids_down i n) = n"
  by (simp add: ids_down_def)

lemma holds_length:
  assumes "bus_holds P cast seg valid sp s es"
  shows "length es = Suc (unat (output_id (load_cb (gmem (snd s)) (shared_bus_get_memory (fst s)))
    - input_id (load_cb (gmem (snd s)) (shared_bus_get_memory (fst s)))))"
proof -
  let ?cb = "load_cb (gmem (snd s)) (shared_bus_get_memory (fst s))"
  have "map fst es = ids_down (input_id ?cb) (Suc (unat (output_id ?cb - input_id ?cb)))"
    using assms by (simp only: bus_holds_def Let_def)
  then show ?thesis by (metis length_ids_down length_map)
qed

lemma holds_room:
  assumes "bus_holds P cast seg valid sp s es"
  shows "can_remove_connector (single_layout_of P cast) s \<longleftrightarrow> 2 \<le> length es"
proof -
  let ?cb = "load_cb (gmem (snd s)) (shared_bus_get_memory (fst s))"
  have "length es = Suc (unat (output_id ?cb - input_id ?cb))" by (rule holds_length [OF assms])
  then have "2 \<le> length es \<longleftrightarrow> unat (output_id ?cb - input_id ?cb) \<noteq> 0" by (simp add: Suc_le_eq)
  also have "\<dots> \<longleftrightarrow> input_id ?cb \<noteq> output_id ?cb" by (auto simp: unat_eq_zero)
  finally show ?thesis
    using assms by (simp add: can_remove_connector_def get_controlblock_def get_shared_controlblock_def
      bus_holds_def Let_def)
qed

text \<open>
  Why a push is refused: the message does not fit into the front connector, and either no larger
  one may follow or every identifier is in use.
\<close>

definition no_room :: "specification_type \<Rightarrow> message \<Rightarrow> 'h entry list \<Rightarrow> bool" where
  "no_room sp x es \<longleftrightarrow> \<not> fst (fifo_push x (entry_fifo (hd es))) \<and> (stuck sp es \<or> length es = 4294967296)"

lemma holds_full:
  assumes "bus_holds P cast seg valid sp s es" and "\<not> can_add_connector (single_layout_of P cast) s"
  shows "length es = 4294967296"
proof -
  let ?cb = "load_cb (gmem (snd s)) (shared_bus_get_memory (fst s))"
  have len: "length es = Suc (unat (output_id ?cb - input_id ?cb))"
    by (rule holds_length [OF assms(1)])
  have "output_id ?cb + 1 = input_id ?cb"
    using assms by (simp add: can_add_connector_def get_controlblock_def get_shared_controlblock_def
      bus_holds_def Let_def)
  then have "output_id ?cb - input_id ?cb = output_id ?cb - (output_id ?cb + 1)" by (rule arg_cong [OF sym])
  then have "output_id ?cb - input_id ?cb = - 1" by (simp del: cb_fields)
  moreover have "unat (- 1 :: u32) = 4294967295" by (simp add: unsigned_minus_1_eq_mask mask_eq_exp_minus_1)
  ultimately show ?thesis unfolding len by simp
qed

lemma grow_law_any:
  assumes bus: "bus_platform P cast seg nm valid" and spec: "spec_keepalive_timeout sp = 0"
    and attempt: "\<forall>s i c f es. bus_holds P cast seg valid sp s ((i, c, f) # es) \<longrightarrow>
      (\<exists>r s' c'. attempt s = returns (r, s')
        \<and> bus_holds P cast seg valid sp s' ((i, c', if r then snd (fifo_push x f) else f) # es)
        \<and> (if r then fst (fifo_push x f) else R f))"
    and "bus_holds P cast seg valid sp s es"
  shows "\<exists>r s' es'. grow (single_bus_class P cast) attempt s = returns (r, s')
    \<and> bus_holds P cast seg valid sp s' es' \<and> contents es' = (if r then contents es @ [x] else contents es)
    \<and> (\<not> r \<longrightarrow> R (entry_fifo (hd es')) \<and> (stuck sp es' \<or> length es' = 4294967296))"
  using assms(4)
proof (induction "4294967296 - front_cap es" arbitrary: s es rule: less_induct)
  case less
  let ?B = "single_bus_class P cast"
  let ?push = attempt
  obtain i c f es1 where es: "es = (i, c, f) # es1"
    using holds_nonempty [OF less.prems] by (metis list.exhaust prod.exhaust)
  obtain p s1 c1 where push: "attempt s = returns (p, s1)"
    and s1: "bus_holds P cast seg valid sp s1 ((i, c1, if p then snd (fifo_push x f) else f) # es1)"
    and p: "if p then fst (fifo_push x f) else R f"
    using attempt less.prems unfolding es by blast
  show ?case
  proof (cases p)
    case True
    then have "fifo_msgs (snd (fifo_push x f)) = fifo_msgs f @ [x]" using p by (simp add: fifo_push_def split: if_split_asm)
    moreover have "grow ?B ?push s = returns (True, s1)" by (subst grow.simps) (simp add: push True)
    ultimately show ?thesis using s1 True
      by (intro exI [of _ True] exI [of _ s1] exI [of _ "(i, c1, snd (fifo_push x f)) # es1"]) (simp add: es)
  next
    case False
    let ?es = "(i, c1, f) # es1"
    have s1: "bus_holds P cast seg valid sp s1 ?es" and f: "R f" using s1 p False by simp_all
    have same: "contents ?es = contents es" "front_cap ?es = front_cap es" by (simp_all add: es front_cap_def)
    show ?thesis
    proof (cases "can_add_connector (single_layout_of P cast) s1")
      case False
      then have "grow ?B ?push s = returns (False, s1)"
        by (subst grow.simps) (simp add: push \<open>\<not> p\<close>)
      with s1 same holds_full [OF s1 False] \<open>\<not> p\<close> show ?thesis
        by (intro exI [of _ False] exI [of _ s1] exI [of _ ?es]) (simp add: f)
    next
      case True
      obtain r s2 where add: "shared_add_connector (single_layout_of P cast) s1 = returns (r, s2)"
        "if r then \<exists>e. fifo_msgs (entry_fifo e) = [] \<and> entry_fifo e = new_fifo sp ?es
         \<and> front_cap ?es < front_cap [e] \<and> front_cap [e] < 4294967296
           \<and> bus_holds P cast seg valid sp s2 (e # ?es) else bus_holds P cast seg valid sp s2 ?es \<and> stuck sp ?es"
        using add_law [OF bus s1 spec True] by blast
      have grow: "grow ?B ?push s = (if r then grow ?B ?push s2 else returns (False, s2))"
        by (subst grow.simps) (simp add: push \<open>\<not> p\<close> True add(1))
      show ?thesis
      proof (cases r)
        case False
        with grow add(2) same \<open>\<not> p\<close> show ?thesis
          by (intro exI [of _ False] exI [of _ s2] exI [of _ ?es]) (simp add: f)
      next
        case True
        obtain e where e: "fifo_msgs (entry_fifo e) = []" "front_cap es < front_cap [e]" "front_cap [e] < 4294967296"
          "bus_holds P cast seg valid sp s2 (e # ?es)"
          using add(2) True same by auto
        have front: "front_cap (e # ?es) = front_cap [e]" by (simp add: front_cap_def)
        then have "4294967296 - front_cap (e # ?es) < 4294967296 - front_cap es" using e(2,3) by simp
        from less.hyps [OF this e(4)] obtain r' s' es' where
          "grow ?B ?push s2 = returns (r', s')" "bus_holds P cast seg valid sp s' es'"
          "contents es' = (if r' then contents (e # ?es) @ [x] else contents (e # ?es))"
          "\<not> r' \<longrightarrow> R (entry_fifo (hd es')) \<and> (stuck sp es' \<or> length es' = 4294967296)" by blast
        with grow True e(1) same(1) show ?thesis by auto
      qed
    qed
  qed
qed

lemma grow_law:
  assumes lone: "lone_platform P cast seg nm valid" and spec: "spec_keepalive_timeout sp = 0" and ne: "snd x \<noteq> []"
    and holds: "bus_holds P cast seg valid sp s es"
  shows "\<exists>r s' es'. grow (single_bus_class P cast) (shared_bus_push (single_bus_class P cast) (fst x) (snd x)) s = returns (r, s')
    \<and> bus_holds P cast seg valid sp s' es' \<and> contents es' = (if r then contents es @ [x] else contents es)
    \<and> (\<not> r \<longrightarrow> no_room sp x es')"
proof -
  note bus = lone_bus [OF lone]
  have full: "\<not> fst (fifo_push x f) \<longrightarrow> snd (fifo_push x f) = f" for f
    by (simp add: fifo_push_def)
  have "\<forall>s i c f es. bus_holds P cast seg valid sp s ((i, c, f) # es) \<longrightarrow>
      (\<exists>r s' c'. shared_bus_push (single_bus_class P cast) (fst x) (snd x) s = returns (r, s')
        \<and> bus_holds P cast seg valid sp s' ((i, c', if r then snd (fifo_push x f) else f) # es)
        \<and> (if r then fst (fifo_push x f) else \<not> fst (fifo_push x f)))"
  proof (intro allI impI)
    fix s i c f es assume "bus_holds P cast seg valid sp s ((i, c, f) # es)"
    from shared_push_front [OF lone this ne] obtain s' c' where
      "shared_bus_push (single_bus_class P cast) (fst x) (snd x) s = returns (fst (fifo_push x f), s')"
      "bus_holds P cast seg valid sp s' ((i, c', snd (fifo_push x f)) # es)" by blast
    with full [of f] show "\<exists>r s' c'. shared_bus_push (single_bus_class P cast) (fst x) (snd x) s = returns (r, s')
        \<and> bus_holds P cast seg valid sp s' ((i, c', if r then snd (fifo_push x f) else f) # es)
        \<and> (if r then fst (fifo_push x f) else \<not> fst (fifo_push x f))"
      by (intro exI [of _ "fst (fifo_push x f)"] exI [of _ s'] exI [of _ c']) auto
  qed
  from grow_law_any [OF bus spec this holds] show ?thesis unfolding no_room_def .
qed

section \<open>Shrinking at the back\<close>

lemma remove_law:
  assumes bus: "bus_platform P cast seg nm valid" and holds: "bus_holds P cast seg valid sp s (es @ [(i, c, f)])"
    and more: "es \<noteq> []"
  shows "\<exists>s'. shared_remove_connector (single_layout_of P cast) s = returns (True, s')
    \<and> bus_holds P cast seg valid sp s' es"
proof -
  let ?L = "single_layout_of P cast" and ?es = "es @ [(i, c, f)]"
  obtain b g where s: "s = (b, g)" by (cases s)
  let ?a = "shared_bus_get_memory b" and ?N = "names_of cast b"
  define k out where "k = input_id (load_cb (gmem g) ?a)" and "out = output_id (load_cb (gmem g) ?a)"
  have h: "m_status b = US_NONE" "surroundings P cast seg valid b g ?es" "load_spec (gmem g) ?a = sp" "b_opened b"
    "m_pconnectors b = map (fst \<circ> snd) ?es" "map fst ?es = ids_down k (Suc (unat (out - k)))"
    "input_id (m_controlblock b) = k" "output_id (m_controlblock b) = out"
    using holds by (simp_all add: s bus_holds_def Let_def k_def out_def)
  have plat: "shm_spec (papi P) seg nm" "shm_apart (papi P) seg valid" "spinners P 0 LS_LOCKED = LS_LOCKED"
    and at: "atomic_spec (atomics (penv P))"
    using bus by (simp_all add: bus_platform_def env_ok_def)
  have "can_remove_connector ?L s" unfolding holds_room [OF holds] using more by (cases es) auto
  then have "out \<noteq> k" using h(1)
    by (auto simp: s can_remove_connector_def get_controlblock_def get_shared_controlblock_def k_def out_def)
  note dist = next_distance [OF this]
  have "map fst es @ [i] = ids_down (k + 1) (Suc (unat (out - (k + 1)))) @ [k]"
    using h(6) unfolding dist ids_down_Suc [of k "Suc (unat (out - (k + 1)))"] by simp
  then have ids: "map fst es = ids_down (k + 1) (Suc (unat (out - (k + 1))))" by simp
  have "entry_ok P seg ?N g (i, c, f)" using h(2) by (simp add: surroundings_def)
  then obtain a z where o: "served P a (c, g) f" "sm_name (m_memory c) = ?N i"
    "seg (sys g) (?N i) = Some (a, z)" "unat z = queue_ptr P 0 + 24 + fifo_cap f"
    by (auto simp: entry_ok_def)
  obtain c' g' where d: "v_destroy (single_bidirectional_connector P) (c, g) = returns (c', g')"
    "elsewhere {a..<a + 8} g g'" "sys g' = shm_remove (papi P) (?N i) (sys g)"
    using served_destroy [OF o(1) plat(3)] o(2) by (auto simp: sm_destroy_def sm_remove_def)
  have seg: "seg (sys g') = (seg (sys g))(?N i := None)" using plat(1) by (simp add: d(3) shm_spec_def)
  have valid: "valid (sys g)" "valid (sys g')"
    using h(2) plat(2) by (simp_all add: d(3) surroundings_def shm_apart_def)
  have inside: "{a..<a + 8} \<subseteq> seg_region (seg (sys g)) (?N i)"
    using o(3,4) by (auto simp: seg_region_def queue_ptr_def)
  have away: "{a..<a + 8} \<inter> seg_region (seg (sys g)) n = {}" if "n \<noteq> ?N i" for n
    using bus_apart [OF bus valid(1) that] inside by blast
  have sur: "surroundings P cast seg valid b g' es"
  proof -
    have "entry_ok P seg ?N g' x" if x: "x \<in> set es" for x
    proof (rule entry_frame [OF _ d(2)])
      show "entry_ok P seg ?N g x" using h(2) x by (simp add: surroundings_def)
      have "fst x \<noteq> i" using h(2) x by (auto simp: surroundings_def)
      then show "seg (sys g') (?N (fst x)) = seg (sys g) (?N (fst x))"
        "{a..<a + 8} \<inter> seg_region (seg (sys g)) (?N (fst x)) = {}"
        using away by (simp_all add: seg bus_names [OF bus])
    qed
    then show ?thesis using h(2) valid unfolding surroundings_def seg
      by (auto simp: bus_names [OF bus])
  qed
  obtain z0 where there: "seg (sys g) (b_name b) = Some (?a, z0)" "32 \<le> unat z0"
    using h(2) by (auto simp: surroundings_def)
  have "{a..<a + 8} \<inter> seg_region (seg (sys g)) (b_name b) = {}" by (rule away) (simp add: bus_names [OF bus])
  note body = body_frame [where T = "seg (sys g)" and n = "b_name b", OF d(2) there this]
  have in2: "input_id (load_cb (gmem g') ?a) = k" "output_id (load_cb (gmem g') ?a) = out"
    by (simp_all only: body(2) k_def out_def)
  let ?cb = "(load_cb (gmem g') ?a)\<lparr>input_id := k + 1, epoch := epoch (load_cb (gmem g') ?a) + 1\<rparr>"
  let ?b = "b\<lparr>m_pconnectors := map (fst \<circ> snd) es, m_controlblock := (m_controlblock b)\<lparr>input_id := k + 1\<rparr>\<rparr>"
  let ?g = "mapmem (store_cb ?a ?cb) g'"
  have cb: "get_controlblock ?L (b\<lparr>m_pconnectors := cs\<rparr>, g'') = load_cb (gmem g'') ?a" for cs g''
    using h(1) by (simp add: get_controlblock_def get_shared_controlblock_def)
  have "shared_remove_connector ?L s = returns (True, ?b, ?g)"
    using in2 h(1,5) more by (simp add: s shared_remove_connector_def base_remove_connector_def Let_def d(1)
      set_connectors_def cb put_controlblock_def atomic_cb_def atomic_specD [OF at] get_shared_controlblock_def butlast_append)
  moreover have "bus_holds P cast seg valid sp (?b, ?g) es"
    using h(1,3,4,8) in2 ids surroundings_body [OF bus sur, of ?cb] body(1)
    by (simp add: bus_holds_def Let_def)
  ultimately show ?thesis by blast
qed

text \<open>
  The loop of getting and popping: an attempt on the back connector yields \<open>r\<close> and makes its
  FIFO \<open>F f\<close>; it succeeds when there is a message.
\<close>

lemma advance_law:
  assumes bus: "bus_platform P cast seg nm valid"
    and attempt: "\<forall>s es i c f. bus_holds P cast seg valid sp s (es @ [(i, c, f)]) \<longrightarrow>
      (\<exists>r s' c'. attempt s = returns (r, s') \<and> Q (snd s') r f \<and> ok r = (fifo_msgs f \<noteq> [])
        \<and> bus_holds P cast seg valid sp s' (es @ [(i, c', F f)]))"
    and idle: "\<And>f. fifo_msgs f = [] \<Longrightarrow> F f = f"
    and "bus_holds P cast seg valid sp s es"
  shows "\<exists>r s' es1 i c f. advance (single_bus_class P cast) attempt ok s = returns (r, s') \<and> Q (snd s') r f
    \<and> bus_holds P cast seg valid sp s' (es1 @ [(i, c, F f)]) \<and> contents es = fifo_msgs f @ contents es1
    \<and> (fifo_msgs f = [] \<longrightarrow> es1 = [])"
  using assms(4)
proof (induction es arbitrary: s rule: rev_induct)
  case Nil
  then show ?case using holds_nonempty by blast
next
  case (snoc e es)
  obtain i c f where e: "e = (i, c, f)" by (cases e)
  obtain r s1 c1 where r: "attempt s = returns (r, s1)" "Q (snd s1) r f" "ok r = (fifo_msgs f \<noteq> [])"
    "bus_holds P cast seg valid sp s1 (es @ [(i, c1, F f)])"
    using attempt snoc.prems unfolding e by blast
  have room: "can_remove_connector (single_layout_of P cast) s1 \<longleftrightarrow> es \<noteq> []"
    unfolding holds_room [OF r(4)] by (cases es) auto
  show ?case
  proof (cases "fifo_msgs f = [] \<and> es \<noteq> []")
    case False
    then have "advance (single_bus_class P cast) attempt ok s = returns (r, s1)"
      by (subst advance.simps) (auto simp: r(1,3) room)
    with r(2,4) False show ?thesis
      by (intro exI [of _ r] exI [of _ s1] exI [of _ es] exI [of _ i] exI [of _ c1] exI [of _ f]) (simp add: e)
  next
    case True
    obtain s2 where s2: "shared_remove_connector (single_layout_of P cast) s1 = returns (True, s2)"
      "bus_holds P cast seg valid sp s2 es"
      using remove_law [OF bus r(4)] True by blast
    have "advance (single_bus_class P cast) attempt ok s = advance (single_bus_class P cast) attempt ok s2"
      using True by (subst advance.simps) (simp add: r(1,3) room s2(1))
    moreover have "contents (es @ [e]) = contents es" using True by (simp add: e)
    ultimately show ?thesis using snoc.IH [OF s2(2)] by simp
  qed
qed

section \<open>The bus as a queue of messages\<close>

definition bus_enq ::
  "('h, 'o, 'l, 'b) bus_vtable \<Rightarrow> message \<Rightarrow> ('h, 'o, 'l, 'b) hub \<Rightarrow> (bool \<times> ('h, 'o, 'l, 'b) hub) run" where
  "bus_enq V x s = bus_push V (fst x) (snd x) s"

definition bus_front ::
  "('h, 'o, 'l, 'b) bus_vtable \<Rightarrow> ('h, 'o, 'l, 'b) hub \<Rightarrow> (message option \<times> ('h, 'o, 'l, 'b) hub) run" where
  "bus_front V s = and_then (bus_get V s) (\<lambda>(ps, s1). returns (read_message (gmem (snd s1)) ps, s1))"

definition bus_deq ::
  "('h, 'o, 'l, 'b) bus_vtable \<Rightarrow> ('h, 'o, 'l, 'b) hub \<Rightarrow> (bool \<times> ('h, 'o, 'l, 'b) hub) run" where
  "bus_deq V s = bus_pop V s"

definition single_bus ::
  "('h, 'o, 'l, 'b) platform \<Rightarrow> (id_type \<Rightarrow> string) \<Rightarrow> ('h, 'o, 'l, 'b) bus_vtable" where
  "single_bus P cast = simple_bus (single_layout_of P cast)"

lemma single_bus_fields [simp]:
  "bus_base (single_bus P cast) = single_bus_class P cast"
  "b_do_push (single_bus P cast) = shared_bus_push (single_bus_class P cast)"
  "b_do_get (single_bus P cast) = shared_bus_get (single_bus_class P cast)"
  "b_do_pop (single_bus P cast) = shared_bus_pop (single_bus_class P cast)"
  "b_do_timed_push (single_bus P cast) = shared_bus_timed_push (single_bus_class P cast)"
  "b_do_timed_get (single_bus P cast) = shared_bus_timed_get (single_bus_class P cast)"
  "b_do_timed_pop (single_bus P cast) = shared_bus_timed_pop (single_bus_class P cast)"
  "b_do_create (single_bus P cast) = shared_bus_do_create (single_layout_of P cast)"
  by (simp_all add: single_bus_def single_bus_class_def simple_bus_def shared_bus_def)

definition line_holds ::
  "('h, 'o, 'l, 'b) platform \<Rightarrow> (id_type \<Rightarrow> string) \<Rightarrow> ('o \<Rightarrow> string \<Rightarrow> (nat \<times> u64) option) \<Rightarrow> ('o \<Rightarrow> 'h \<Rightarrow> string)
    \<Rightarrow> ('o \<Rightarrow> bool) \<Rightarrow> ('h, 'o, 'l, 'b) hub \<Rightarrow> message list \<Rightarrow> bool" where
  "line_holds P cast seg nm valid s xs \<longleftrightarrow> lone_platform P cast seg nm valid
     \<and> (\<exists>sp es. spec_keepalive_timeout sp = 0 \<and> bus_holds P cast seg valid sp s es \<and> contents es = xs)"

lemma line_holdsI:
  "\<lbrakk>lone_platform P cast seg nm valid; spec_keepalive_timeout sp = 0; bus_holds P cast seg valid sp s es;
    contents es = xs\<rbrakk> \<Longrightarrow> line_holds P cast seg nm valid s xs"
  unfolding line_holds_def by blast

lemma line_opened: "line_holds P cast seg nm valid s xs \<Longrightarrow> b_opened (fst s)"
  by (auto simp: line_holds_def bus_holds_def Let_def)

lemma bus_enq_law:
  assumes "line_holds P cast seg nm valid s xs" and ne: "snd x \<noteq> []"
  shows "\<exists>b s'. bus_enq (single_bus P cast) x s = returns (b, s')
    \<and> line_holds P cast seg nm valid s' (if b then xs @ [x] else xs)"
proof -
  obtain sp es where h: "lone_platform P cast seg nm valid" "spec_keepalive_timeout sp = 0"
    "bus_holds P cast seg valid sp s es" "contents es = xs"
    using assms(1) by (auto simp: line_holds_def)
  from grow_law [OF h(1,2) ne h(3)] obtain r s' es' where
    "grow (single_bus_class P cast) (shared_bus_push (single_bus_class P cast) (fst x) (snd x)) s = returns (r, s')"
    "bus_holds P cast seg valid sp s' es'" "contents es' = (if r then contents es @ [x] else contents es)"
    by blast
  then show ?thesis using line_holdsI [OF h(1,2)] h(4) line_opened [OF assms(1)]
    by (intro exI [of _ r] exI [of _ s']) (simp add: bus_enq_def bus_push_def)
qed

text \<open>Getting and popping, untimed or not, by the attempts they make on the connector at the back.\<close>

lemma front_any:
  assumes lone: "lone_platform P cast seg nm valid" and spec: "spec_keepalive_timeout sp = 0"
    and get: "\<And>s es i c f. bus_holds P cast seg valid sp s (es @ [(i, c, f)]) \<Longrightarrow>
      \<exists>ps s' c'. G s = returns (ps, s') \<and> read_message (gmem (snd s')) ps = fifo_get f
        \<and> bus_holds P cast seg valid sp s' (es @ [(i, c', f)])"
    and holds: "bus_holds P cast seg valid sp s es"
  shows "\<exists>ps s'. advance (single_bus_class P cast) G (\<lambda>ps. ps \<noteq> []) s = returns (ps, s')
    \<and> read_message (gmem (snd s')) ps = first_of (contents es) \<and> line_holds P cast seg nm valid s' (contents es)"
proof -
  note bus = lone_bus [OF lone]
  have attempt: "\<forall>s es i c f. bus_holds P cast seg valid sp s (es @ [(i, c, f)]) \<longrightarrow>
      (\<exists>r s' c'. G s = returns (r, s') \<and> read_message (gmem (snd s')) r = fifo_get f
      \<and> (r \<noteq> []) = (fifo_msgs f \<noteq> []) \<and> bus_holds P cast seg valid sp s' (es @ [(i, c', f)]))"
  proof (intro allI impI)
    fix s es i c f assume "bus_holds P cast seg valid sp s (es @ [(i, c, f)])"
    from get [OF this] obtain ps s' c' where r: "G s = returns (ps, s')"
      "read_message (gmem (snd s')) ps = fifo_get f" "bus_holds P cast seg valid sp s' (es @ [(i, c', f)])"
      by blast
    moreover have "(ps \<noteq> []) = (fifo_msgs f \<noteq> [])"
      using r(2) by (auto simp: read_message_def fifo_get_def split: if_splits list.splits)
    ultimately show "\<exists>r s' c'. G s = returns (r, s') \<and> read_message (gmem (snd s')) r = fifo_get f
      \<and> (r \<noteq> []) = (fifo_msgs f \<noteq> []) \<and> bus_holds P cast seg valid sp s' (es @ [(i, c', f)])" by blast
  qed
  from advance_law [where attempt = G and F = "\<lambda>f. f" and ok = "\<lambda>ps. ps \<noteq> []" and Q = "\<lambda>g r f. read_message (gmem g) r = fifo_get f",
      OF bus attempt refl holds]
  obtain r s' es1 i c f where r: "advance (single_bus_class P cast) G (\<lambda>ps. ps \<noteq> []) s = returns (r, s')"
    "read_message (gmem (snd s')) r = fifo_get f" "bus_holds P cast seg valid sp s' (es1 @ [(i, c, f)])"
    "contents es = fifo_msgs f @ contents es1" "fifo_msgs f = [] \<longrightarrow> es1 = []"
    by blast
  have "fifo_get f = first_of (contents es)"
    using r(4,5) by (cases "fifo_msgs f") (auto simp: fifo_get_def first_of_def)
  moreover have "line_holds P cast seg nm valid s' (contents es)"
    using line_holdsI [OF lone spec r(3)] r(4) by simp
  ultimately show ?thesis using r(1,2) by simp
qed

lemma deq_any:
  assumes lone: "lone_platform P cast seg nm valid" and spec: "spec_keepalive_timeout sp = 0"
    and pop: "\<And>s es i c f. bus_holds P cast seg valid sp s (es @ [(i, c, f)]) \<Longrightarrow>
      \<exists>s' c'. G s = returns (fst (fifo_pop f), s') \<and> bus_holds P cast seg valid sp s' (es @ [(i, c', snd (fifo_pop f))])"
    and holds: "bus_holds P cast seg valid sp s es"
  shows "\<exists>s'. advance (single_bus_class P cast) G (\<lambda>b. b) s = returns (contents es \<noteq> [], s')
    \<and> line_holds P cast seg nm valid s' (tl (contents es))"
proof -
  note bus = lone_bus [OF lone]
  let ?F = "\<lambda>f. snd (fifo_pop f)"
  have some: "fst (fifo_pop f) = (fifo_msgs f \<noteq> [])" for f by (simp add: fifo_pop_def split: list.splits)
  have attempt: "\<forall>s es i c f. bus_holds P cast seg valid sp s (es @ [(i, c, f)]) \<longrightarrow>
      (\<exists>r s' c'. G s = returns (r, s') \<and> r = (fifo_msgs f \<noteq> [])
      \<and> r = (fifo_msgs f \<noteq> []) \<and> bus_holds P cast seg valid sp s' (es @ [(i, c', ?F f)]))"
    using pop unfolding some by blast
  have idle: "fifo_msgs f = [] \<Longrightarrow> ?F f = f" for f by (simp add: fifo_pop_def)
  from advance_law [where attempt = G and F = ?F and ok = "\<lambda>b. b" and Q = "\<lambda>g r f. r = (fifo_msgs f \<noteq> [])", OF bus attempt idle holds]
  obtain r s' es1 i c f where r: "advance (single_bus_class P cast) G (\<lambda>b. b) s = returns (r, s')"
    "r = (fifo_msgs f \<noteq> [])" "bus_holds P cast seg valid sp s' (es1 @ [(i, c, ?F f)])"
    "contents es = fifo_msgs f @ contents es1" "fifo_msgs f = [] \<longrightarrow> es1 = []"
    by blast
  have "r = (contents es \<noteq> [])" "contents (es1 @ [(i, c, ?F f)]) = tl (contents es)"
    using r(2,4,5) by (cases "fifo_msgs f"; auto simp: fifo_pop_def)+
  moreover from this(2) have "line_holds P cast seg nm valid s' (tl (contents es))"
    by (rule line_holdsI [OF lone spec r(3)])
  ultimately show ?thesis using r(1) by blast
qed

lemma bus_front_law:
  assumes "line_holds P cast seg nm valid s xs"
  shows "\<exists>s'. bus_front (single_bus P cast) s = returns (first_of xs, s') \<and> line_holds P cast seg nm valid s' xs"
proof -
  obtain sp es where h: "lone_platform P cast seg nm valid" "spec_keepalive_timeout sp = 0"
    "bus_holds P cast seg valid sp s es" "contents es = xs"
    using assms by (auto simp: line_holds_def)
  obtain ps s' where "advance (single_bus_class P cast) (shared_bus_get (single_bus_class P cast)) (\<lambda>ps. ps \<noteq> []) s
      = returns (ps, s')" "read_message (gmem (snd s')) ps = first_of xs" "line_holds P cast seg nm valid s' xs"
    using front_any [OF h(1,2) _ h(3), where G = "shared_bus_get (single_bus_class P cast)"]
      shared_get_back [OF h(1)] h(4) by blast
  then show ?thesis using line_opened [OF assms] by (simp add: bus_front_def bus_get_def)
qed

lemma bus_deq_law:
  assumes "line_holds P cast seg nm valid s xs"
  shows "\<exists>s'. bus_deq (single_bus P cast) s = returns (xs \<noteq> [], s') \<and> line_holds P cast seg nm valid s' (tl xs)"
proof -
  obtain sp es where h: "lone_platform P cast seg nm valid" "spec_keepalive_timeout sp = 0"
    "bus_holds P cast seg valid sp s es" "contents es = xs"
    using assms by (auto simp: line_holds_def)
  obtain s' where "advance (single_bus_class P cast) (shared_bus_pop (single_bus_class P cast)) (\<lambda>b. b) s
      = returns (xs \<noteq> [], s')" "line_holds P cast seg nm valid s' (tl xs)"
    using deq_any [OF h(1,2) _ h(3), where G = "shared_bus_pop (single_bus_class P cast)"]
      shared_pop_back [OF h(1)] h(4) by blast
  then show ?thesis using line_opened [OF assms] by (simp add: bus_deq_def bus_pop_def)
qed

interpretation line: lossless_queue "bus_enq (single_bus P cast)" "bus_front (single_bus P cast)"
    "bus_deq (single_bus P cast)" "line_holds P cast seg nm valid" for P cast seg nm valid
  by unfold_locales (fact bus_enq_law bus_front_law bus_deq_law)+

section \<open>Creating a bus\<close>

lemma load_store_spec: "load_spec (store_spec a sp m) a = sp"
  by (simp add: load_spec_def store_spec_def load32_store32_other)

lemma create_law:
  fixes P :: "('h, 'o, 'l, 'b) platform"
  assumes bus: "bus_platform P cast seg nm valid" and spec: "spec_keepalive_timeout sp = 0" "new_capacity sp 0 \<noteq> 0"
    and free: "valid (sys g)" "seg (sys g) name = None" "\<forall>i. seg (sys g) (name @ cast i) = None"
  shows "\<exists>s c f. bus_create (single_bus P cast) sp (new_bus name garbage, g) = returns (True, s)
    \<and> bus_holds P cast seg valid sp s [(0, c, f)] \<and> fifo_msgs f = []
    \<and> f = new_fifo sp ([] :: 'h entry list) \<and> b_name (fst s) = name \<and> (\<exists>n g1. segment_made P seg n g1 (snd s) c)"
proof -
  let ?L = "single_layout_of P cast" and ?M = "new_shared_memory name :: 'h shared_memory"
  let ?cb = "\<lparr>epoch = 0, input_id = 0, output_id = 0\<rparr>"
  have plat: "shm_spec (papi P) seg nm" "shm_apart (papi P) seg valid" using bus by (simp_all add: bus_platform_def)
  have new: "m_pmemory ?M = None" "sm_name ?M = name" by (simp_all add: new_shared_memory_def)
  obtain h a o1 m1 where c: "sm_create (papi P) 32 ?M (sys g, gmem g)
      = (True, ?M\<lparr>m_pregion := Some (a, 32), m_pmemory := Some h\<rparr>, o1, m1)" "seg o1 = (seg (sys g))(name \<mapsto> (a, 32))"
    using sm_create_fresh [OF plat(1) new(1), of "sys g" 32 "gmem g"] free(2) new(2) by auto
  have "valid (fst (snd (snd (sm_create (papi P) 32 ?M (sys g, gmem g)))))"
    using plat(2) free(1) unfolding shm_apart_def by blast
  then have valid: "valid o1" by (simp add: c(1))
  define b1 where "b1 = (new_bus name garbage)\<lparr>b_memory := Some (?M\<lparr>m_pregion := Some (a, 32), m_pmemory := Some h\<rparr>),
    m_controlblock := ?cb\<rparr>"
  define g1 where "g1 = mapmem (\<lambda>m. store_cb a ?cb (store_spec a sp m)) (mapmem (\<lambda>_. m1) (g\<lparr>sys := o1\<rparr>))"
  have place: "shared_bus_get_memory b1 = a" "b_name b1 = name" "m_pconnectors b1 = []" "m_status b1 = US_NONE"
    by (simp_all add: b1_def shared_bus_get_memory_def sm_get_def new_bus_def)
  have "sys g1 = o1" by (simp add: g1_def)
  then have sur: "surroundings P cast seg valid b1 g1 []"
    using valid free(3) by (simp add: surroundings_def place c(2) bus_names [OF bus])
  have body: "load_spec (gmem g1) (shared_bus_get_memory b1) = sp" "load_cb (gmem g1) a = ?cb"
    by (simp_all add: g1_def place load_store_spec)
  obtain p g2 where p: "make_connector ?L 0 (b1, g1) = returns (p, b1, g2)" "load_spec (gmem g2) a = sp"
    "load_cb (gmem g2) a = ?cb"
    "case p of None \<Rightarrow> surroundings P cast seg valid b1 g2 [] \<and> stuck sp ([] :: 'h entry list)
         \<and> g2 = (opening_failed P (names_of cast b1 0) g1)
             \<lparr>sys := shm_remove (papi P) (names_of cast b1 0) (sys (opening_failed P (names_of cast b1 0) g1))\<rparr>
     | Some c \<Rightarrow> segment_made P seg (names_of cast b1 0) (opening_failed P (names_of cast b1 0) g1) g2 c
         \<and> (\<exists>f. fifo_msgs f = [] \<and> front_cap ([] :: 'h entry list) < fifo_cap f \<and> fifo_cap f < 4294967296
         \<and> f = new_fifo sp ([] :: 'h entry list)
         \<and> surroundings P cast seg valid b1 g2 [(0, c, f)])"
    using make_fresh [OF bus sur, where cs = "[]" and i = 0 and sp = sp] body spec(1) place by auto
  obtain c f where f: "p = Some c" "fifo_msgs f = []" "surroundings P cast seg valid b1 g2 [(0, c, f)]"
    "f = new_fifo sp ([] :: 'h entry list)" "segment_made P seg (names_of cast b1 0) (opening_failed P (names_of cast b1 0) g1) g2 c"
    using p(4) spec(2) by (cases p) (auto simp: stuck_def front_cap_def)
  let ?s = "(b1\<lparr>m_pconnectors := [c], b_opened := True\<rparr>, g2)"
  have "bus_create_memory ?L (new_bus name garbage, g)
      = (True, (new_bus name garbage)\<lparr>b_memory := Some (?M\<lparr>m_pregion := Some (a, 32), m_pmemory := Some h\<rparr>)\<rparr>,
         mapmem (\<lambda>_. m1) (g\<lparr>sys := o1\<rparr>))"
    by (simp add: bus_create_memory_def free_memory_def new_bus_def c(1))
  moreover have "shared_bus_get_memory ((new_bus name garbage)
      \<lparr>b_memory := Some (?M\<lparr>m_pregion := Some (a, 32), m_pmemory := Some h\<rparr>)\<rparr>) = a"
    by (simp add: shared_bus_get_memory_def sm_get_def)
  moreover have "base_do_create ?L (b1, g1) = returns (True, b1\<lparr>m_pconnectors := [c]\<rparr>, g2)"
    by (simp add: base_do_create_def p(1) f(1) place set_connectors_def)
  ultimately have "bus_create (single_bus P cast) sp (new_bus name garbage, g) = returns (True, ?s)"
    by (simp add: bus_create_def shared_bus_do_create_def create_body_def Let_def b1_def g1_def) (simp add: new_bus_def)
  moreover have "bus_holds P cast seg valid sp ?s [(0, c, f)]"
    using f(3) p(2) arg_cong [OF p(3), of input_id] arg_cong [OF p(3), of output_id] place
    by (simp add: bus_holds_def Let_def ids_down_def) (simp add: b1_def)
  moreover have "b_name (fst ?s) = name" by (simp add: place)
  moreover have "\<exists>n g1. segment_made P seg n g1 (snd ?s) c" using f(5) by auto
  ultimately show ?thesis using f(2,4) by blast
qed

section \<open>The shape of a bus\<close>

text \<open>
  The shape every operation keeps: the local identifiers are the shared ones, the list has one
  open connector for each identifier from the output down to the input one, and each of them is
  mapped to the segment of its own name.
\<close>

definition bus_shape ::
  "(id_type \<Rightarrow> string) \<Rightarrow> ('o \<Rightarrow> string \<Rightarrow> (nat \<times> u64) option) \<Rightarrow> ('h, 'o, 'l, 'b) hub \<Rightarrow> bool" where
  "bus_shape cast seg s \<longleftrightarrow>
     (let b = fst s; cs = m_pconnectors b; cb = load_cb (gmem (snd s)) (shared_bus_get_memory b);
          names = map (sm_name \<circ> m_memory) cs in
      m_status b = US_NONE \<and> input_id (m_controlblock b) = input_id cb \<and> output_id (m_controlblock b) = output_id cb
      \<and> names = map (names_of cast b) (ids_down (input_id cb) (Suc (unat (output_id cb - input_id cb))))
      \<and> distinct names
      \<and> (\<forall>c \<in> set cs. m_opened c \<and> map_option fst (seg (sys (snd s)) (sm_name (m_memory c))) = Some (sm_get (m_memory c))))"

lemma holds_shape:
  assumes bus: "bus_platform P cast seg nm valid" and holds: "bus_holds P cast seg valid sp (b, g) es"
  shows "bus_shape cast seg (b, g)"
proof -
  let ?cb = "load_cb (gmem g) (shared_bus_get_memory b)" and ?N = "names_of cast b"
  let ?ids = "ids_down (input_id ?cb) (Suc (unat (output_id ?cb - input_id ?cb)))"
  have h: "m_status b = US_NONE" "input_id (m_controlblock b) = input_id ?cb" "output_id (m_controlblock b) = output_id ?cb"
    "m_pconnectors b = map (fst \<circ> snd) es" "map fst es = ?ids" "surroundings P cast seg valid b g es"
    using holds by (simp_all only: bus_holds_def Let_def fst_conv snd_conv)
  have entry: "m_opened (fst (snd e)) \<and> sm_name (m_memory (fst (snd e))) = ?N (fst e)
      \<and> map_option fst (seg (sys g) (?N (fst e))) = Some (sm_get (m_memory (fst (snd e))))" if "e \<in> set es" for e
  proof -
    have "entry_ok P seg ?N g e" using h(6) that by (simp add: surroundings_def)
    then show ?thesis by (auto simp: entry_ok_def served_def single_holds_def shared_get_memory_def)
  qed
  have "map (sm_name \<circ> m_memory) (m_pconnectors b) = map (?N \<circ> fst) es"
    unfolding h(4) map_map using entry by simp
  also have "\<dots> = map ?N (map fst es)" by (simp only: map_map)
  also have "\<dots> = map ?N ?ids" by (simp only: h(5))
  finally have names: "map (sm_name \<circ> m_memory) (m_pconnectors b) = map ?N ?ids" .
  have "distinct ?ids" using h(6) unfolding surroundings_def h(5) by blast
  then have "distinct (map ?N ?ids)" using bus by (simp add: distinct_map inj_on_def bus_platform_def inj_def)
  then show ?thesis
    using h(1-3) names entry unfolding bus_shape_def Let_def by (auto simp: h(4))
qed

section \<open>A platform for the witnesses\<close>

text \<open>The table hands out its addresses in increasing order.\<close>

definition table_valid :: "seg_table \<Rightarrow> bool" where
  "table_valid t \<longleftrightarrow> apart (segments t)
     \<and> (\<forall>n a z. segments t n = Some (a, z) \<longrightarrow> a + unat z \<le> next_address t)"

lemma apart_remove: "apart T \<Longrightarrow> apart (T(n := None))"
  by (simp add: apart_def)

lemma apart_insert:
  assumes "apart T" and "\<forall>n a z. T n = Some (a, z) \<longrightarrow> a + unat z \<le> e"
  shows "apart (T(n \<mapsto> (e, z)))"
  using assms unfolding apart_def by auto (meson disjoint_iff_not_equal le_trans atLeastLessThan_iff leD)+

lemma table_valid_remove: "table_valid t \<Longrightarrow> table_valid (shm_remove table_api n t)"
  by (auto simp: table_valid_def table_api_def apart_remove)

lemma table_valid_create:
  assumes "table_valid t"
  shows "table_valid (fst (snd (snd (sm_create table_api z (new_shared_memory n) (t, m)))))"
proof (cases "segments t n")
  case None
  have "apart ((segments t)(n \<mapsto> (next_address t, z)))"
    using assms by (intro apart_insert) (auto simp: table_valid_def)
  with None assms show ?thesis
    by (auto simp: sm_create_def new_shared_memory_def table_api_def table_valid_def le_max_iff_disj
      intro: trans_le_add1)
next
  case (Some r)
  then have "fst (snd (snd (sm_create table_api z (new_shared_memory n) (t, m)))) = shm_remove table_api n t"
    by (simp add: sm_create_def new_shared_memory_def table_api_def sm_remove_def)
  then show ?thesis using table_valid_remove [OF assms] by simp
qed

lemma table_apart: "shm_apart table_api segments table_valid"
proof -
  have "table_valid (snd (snd (sm_open table_api (new_shared_memory n) t)))" if "table_valid t" for n t
  proof (cases "segments t n")
    case None
    then have "snd (snd (sm_open table_api (new_shared_memory n) t)) = shm_remove table_api n t"
      by (simp add: sm_open_def new_shared_memory_def table_api_def sm_remove_def)
    then show ?thesis using table_valid_remove [OF that] by simp
  next
    case (Some r)
    then have "snd (snd (sm_open table_api (new_shared_memory n) t)) = t"
      by (simp add: sm_open_def new_shared_memory_def table_api_def)
    then show ?thesis using that by simp
  qed
  then show ?thesis
    by (auto simp: shm_apart_def table_valid_remove table_valid_create) (simp add: table_valid_def)
qed

text \<open>The binary digits of an identifier for \<open>boost::lexical_cast\<close>.\<close>

definition digits :: "id_type \<Rightarrow> string" where
  "digits i = map (\<lambda>k. if bit i k then CHR ''1'' else CHR ''0'') [0..<32]"

lemma digits_inj: "inj digits"
proof (rule injI)
  fix i j assume eq: "digits i = digits j"
  have "bit i k = bit j k" if "k < 32" for k
  proof -
    have "digits i ! k = digits j ! k" using eq by simp
    then show ?thesis using that by (simp add: digits_def split: if_split_asm)
  qed
  then show "i = j" by (intro bit_word_eqI) simp
qed

lemma sample_lone: "lone_platform sample_platform digits segments (\<lambda>_ h. h) table_valid"
  using sample_enters table_api_spec table_apart digits_inj
  by (simp add: lone_platform_def bus_platform_def) (simp add: digits_def)

definition sample_spec :: specification_type where
  "sample_spec = \<lparr>spec_id = 1, spec_keepalive_timeout = 0, min_capacity = 40, max_capacity = 1000,
     capacity_factor = 50\<rparr>"

lemma sample_spec_facts:
  "spec_keepalive_timeout sample_spec = 0" "new_capacity sample_spec 0 \<noteq> 0"
  by (simp_all add: sample_spec_def new_capacity_def)

lemma sample_free:
  "table_valid (sys sample_globals)" "segments (sys sample_globals) n = None"
  by (simp_all add: sample_globals_def table_valid_def apart_def)

section \<open>Properties\<close>

text \<open>
  C5. A bus of single connectors that is created under free names, for a specification without
  expiry whose first capacity is not zero, and used by one process only is one FIFO without loss:
  every sequence of gets, pops and pushes of non-empty messages returns, a get yields the oldest
  message that is still in the bus and a pop drops it, whatever connectors the pushes add at the
  front and the gets and pops remove at the back.
\<close>

theorem bus_is_one_fifo:
  assumes "lone_platform P cast seg nm valid" and "spec_keepalive_timeout sp = 0" "new_capacity sp 0 \<noteq> 0"
    and "valid (sys g)" "seg (sys g) name = None" "\<forall>i. seg (sys g) (name @ cast i) = None"
    and "\<forall>p \<in> set ps. sendable p"
  shows "\<exists>s rs s'. bus_create (single_bus P cast) sp (new_bus name garbage, g) = returns (True, s)
    \<and> impl_run (bus_enq (single_bus P cast)) (bus_front (single_bus P cast)) (bus_deq (single_bus P cast)) ps s
      = returns (rs, s')
    \<and> explained [] ps rs \<and> pops rs \<le> length (accepted ps rs)
    \<and> line_holds P cast seg nm valid s' (drop (pops rs) (accepted ps rs))"
proof -
  obtain s c f where s: "bus_create (single_bus P cast) sp (new_bus name garbage, g) = returns (True, s)"
    "bus_holds P cast seg valid sp s [(0, c, f)]" "fifo_msgs f = []"
    using create_law [OF lone_bus [OF assms(1)] assms(2-6)] by blast
  have "line_holds P cast seg nm valid s []" by (rule line_holdsI [OF assms(1,2) s(2)]) (simp add: s(3))
  from line.lossless_run [OF this assms(7)] s(1) show ?thesis by auto
qed

theorem bus_is_one_fifo_witness:
  "\<exists>s rs s'. bus_create (single_bus sample_platform digits) sample_spec
        (new_bus ''bus'' \<lparr>epoch = 0, input_id = 0, output_id = 0\<rparr>, sample_globals) = returns (True, s)
    \<and> impl_run (bus_enq (single_bus sample_platform digits)) (bus_front (single_bus sample_platform digits))
        (bus_deq (single_bus sample_platform digits)) [Push (7, [1, 2, 3]), Push (8, [4]), Get, Pop] s = returns (rs, s')
    \<and> explained [] [Push (7, [1, 2, 3]), Push (8, [4]), Get, Pop] rs"
proof -
  have "\<forall>p \<in> set [Push (7, [1, 2, 3]), Push (8, [4]), Get, Pop]. sendable p" by simp
  from bus_is_one_fifo [OF sample_lone sample_spec_facts sample_free(1,2) _ this] sample_free(2)
  show ?thesis by blast
qed

text \<open>
  C21. On such a bus, without expiry and used by one process only, a push of a non-empty message
  returns and is refused only for want of room: the message does not fit into the newest connector,
  and either the specification allows no larger one or all identifiers are in use. Refused or not,
  the messages that the bus held stay in it; connectors may have been added.
\<close>

theorem bus_push_refused:
  assumes "lone_platform P cast seg nm valid" and "spec_keepalive_timeout sp = 0"
    and "bus_holds P cast seg valid sp s es" and "data \<noteq> []"
  shows "\<exists>r s' es'. bus_push (single_bus P cast) tag data s = returns (r, s')
    \<and> bus_holds P cast seg valid sp s' es'
    \<and> contents es' = (if r then contents es @ [(tag, data)] else contents es)
    \<and> (\<not> r \<longrightarrow> no_room sp (tag, data) es')"
proof -
  have "b_opened (fst s)" using assms(3) by (simp add: bus_holds_def Let_def)
  then have "bus_push (single_bus P cast) tag data s
      = grow (single_bus_class P cast) (shared_bus_push (single_bus_class P cast) tag data) s"
    by (simp add: bus_push_def)
  then show ?thesis using grow_law [OF assms(1,2) _ assms(3), of "(tag, data)"] assms(4) by simp
qed

theorem bus_push_refused_witness:
  "\<exists>s r s' es'. bus_push (single_bus sample_platform digits) 7 (replicate 100 1) s = returns (r, s')
    \<and> contents es' = (if r then [(7, replicate 100 1)] else [])
    \<and> (\<not> r \<longrightarrow> no_room sample_spec (7, replicate 100 1) (es' :: string entry list))"
proof -
  obtain s c f where s: "bus_holds sample_platform digits segments table_valid sample_spec s [(0, c, f)]" "fifo_msgs f = []"
    using create_law [OF lone_bus [OF sample_lone] sample_spec_facts sample_free(1,2)] sample_free(2) by blast
  have "replicate 100 (1 :: u8) \<noteq> []" by simp
  from bus_push_refused [OF sample_lone sample_spec_facts(1) s(1) this, of 7] obtain r s' and es' :: "string entry list" where
    "bus_push (single_bus sample_platform digits) 7 (replicate 100 1) s = returns (r, s')"
    "contents es' = (if r then contents [(0, c, f)] @ [(7, replicate 100 1)] else contents [(0, c, f)])"
    "\<not> r \<longrightarrow> no_room sample_spec (7, replicate 100 1) es'"
    by blast
  then show ?thesis using s(2)
    by (intro exI [of _ s] exI [of _ r] exI [of _ s'] exI [of _ es']) simp
qed

text \<open>
  C22. Whatever non-empty messages are pushed and whatever is got and popped, without timeouts, on a
  bus of single connectors without expiry that one process uses alone, the list of connectors keeps
  its shape: one open connector for each identifier between the two in the shared control block,
  newest first, each mapped to the segment of its own name, and the local copy in step.
\<close>

theorem bus_stays_in_shape:
  assumes "line_holds P cast seg nm valid s xs" and "\<forall>p \<in> set ps. sendable p"
  shows "\<exists>rs s'. impl_run (bus_enq (single_bus P cast)) (bus_front (single_bus P cast)) (bus_deq (single_bus P cast)) ps s
      = returns (rs, s') \<and> bus_shape cast seg s'"
proof -
  obtain rs s' ys where run: "impl_run (bus_enq (single_bus P cast)) (bus_front (single_bus P cast))
      (bus_deq (single_bus P cast)) ps s = returns (rs, s')" and "line_holds P cast seg nm valid s' ys"
    using line.lossless_run [OF assms] by blast
  then obtain sp es where "lone_platform P cast seg nm valid" "bus_holds P cast seg valid sp s' es"
    by (auto simp: line_holds_def)
  from holds_shape [OF lone_bus [OF this(1)], of sp "fst s'" "snd s'" es] this(2) have "bus_shape cast seg s'" by simp
  with run show ?thesis by blast
qed

theorem bus_stays_in_shape_witness:
  "\<exists>s rs s'. impl_run (bus_enq (single_bus sample_platform digits)) (bus_front (single_bus sample_platform digits))
        (bus_deq (single_bus sample_platform digits)) [Push (7, replicate 100 1), Pop, Pop] s = returns (rs, s')
    \<and> bus_shape digits segments s'"
proof -
  obtain s c f where s: "bus_holds sample_platform digits segments table_valid sample_spec s [(0, c, f)]" "fifo_msgs f = []"
    using create_law [OF lone_bus [OF sample_lone] sample_spec_facts sample_free(1,2)] sample_free(2) by blast
  have "line_holds sample_platform digits segments (\<lambda>_ h. h) table_valid s []"
    by (rule line_holdsI [OF sample_lone sample_spec_facts(1) s(1)]) (simp add: s(2))
  moreover have "\<forall>p \<in> set [Push (7, replicate 100 1), Pop, Pop]. sendable p" by simp
  ultimately show ?thesis using bus_stays_in_shape by blast
qed

end
