(* ===== verification/Bus_Timed.thy ===== *)
theory Bus_Timed
  imports Bus_Fifo
begin

text \<open>
  The timed operations of a bus of single connectors that one process uses: a timed push returns
  and loses nothing; a timed get or pop that comes too late to look at its connector removes it
  with the messages it holds.
\<close>

section \<open>Timed operations on one connector\<close>

lemma stays_refl: "served P a s f \<Longrightarrow> stays_served P a f s f s"
  by (simp add: stays_served_def)

lemma stays_trans:
  assumes "stays_served P a f s f1 s1" and "stays_served P a f1 s1 f2 s2"
  shows "stays_served P a f s f2 s2"
proof -
  have "conn_region P a f1 = conn_region P a f" using assms(1) by (simp add: stays_served_def conn_region_def)
  then show ?thesis using assms elsewhere_trans by (fastforce simp: stays_served_def)
qed

lemma stays_reading: "stays_served P a f s f1 s1 \<Longrightarrow> stays_served P a f s f1 (at_reading i s1)"
  using single_reading [of P s1 f1 i]
  by (auto simp: stays_served_def served_def at_reading_def shared_get_memory_def elsewhere_def)

text \<open>
  Pushing: each attempt is the untimed push of the connector, and none but the last changes
  the FIFO.
\<close>

lemma served_timed_push:
  assumes srv: "served P a (c, g) f" and ne: "snd x \<noteq> []" and runs: "clock_runs (clock (penv P))"
    and alone: "\<And>k g. meanwhile P k g = g"
  shows "\<exists>b s'. connector_timed_push P (single_bidirectional_connector P) (fst x) (snd x) timeout (c, g) = returns (b, s')
    \<and> stays_served P a f (c, g) (if b then snd (fifo_push x f) else f) s' \<and> (b \<longrightarrow> fst (fifo_push x f))"
proof -
  let ?C = "simple_connector P Simple_queue"
  let ?push = "safe_push P ?C (fst x) (snd x)"
  have s: "single_holds P (c, g) f" using srv by (simp add: served_def)
  have live: "clock_live (clock (penv P))" using s by (auto simp: single_holds_def queue_holds_def env_ok_def)
  have may: "may_push c" using s by (auto elim: single_cases)
  let ?I = "stays_served P a f (c, g) f"
  let ?Q = "\<lambda>b s'. stays_served P a f (c, g) (snd (fifo_push x f)) s' \<and> fst (fifo_push x f)"
  have att: "\<exists>b s'. ?push s1 = returns (b, s') \<and> clock_calls s1 \<le> clock_calls s' \<and> (if b then ?Q b s' else ?I s')"
    if I: "?I s1" for s1
  proof -
    have srv1: "served P a s1 f" using I by (simp add: stays_served_def)
    then have h1: "single_holds P s1 f" by (simp add: served_def)
    obtain s2 where s2: "conn_enq (single_bidirectional_connector P) x s1 = returns (fst (fifo_push x f), s2)"
      "stays_served P a f s1 (snd (fifo_push x f)) s2"
      using served_enq [of P a "fst s1" "snd s1" f x] srv1 ne by auto
    have "may_push (fst s1)" by (rule single_cases [OF h1])
    then have run: "?push s1 = returns (fst (fifo_push x f), s2)"
      using s2(1) by (simp add: conn_enq_def connector_push_def)
    have "\<not> fst (fifo_push x f) \<longrightarrow> snd (fifo_push x f) = f" by (simp add: fifo_push_def)
    then show ?thesis
      using run safe_push_forward [OF h1 run] stays_trans [OF I s2(2)] by (cases "fst (fifo_push x f)") auto
  qed
  have others: "?I (o1, g1) \<Longrightarrow> ?I (o1, meanwhile P k g1) \<and> readings (wld g1) \<le> readings (wld (meanwhile P k g1))"
    for k o1 g1 by (simp add: alone)
  have "\<exists>b s' i t. retry P timeout ?push (\<lambda>b. b) False (c, g) = returns (b, s')
      \<and> clock_calls (c, g) \<le> i \<and> clock (penv P) i = Some t
      \<and> (if b then ?Q b s' else ?I s' \<and> overdue (penv P) (t + timeout) s')"
    unfolding retry_def
    by (rule deadline_returns [where I = ?I and Q = "\<lambda>_. ?Q" and ok = "\<lambda>b. b" and r = False and result = "\<lambda>b. b",
        OF retry_waits live runs stays_reading att others stays_refl [OF srv]]) simp_all
  then show ?thesis
    using may by (auto simp: connector_timed_push_def base_timed_push_def split: if_splits)
qed

text \<open>A timeout that has passed at the next look at the clock.\<close>

definition too_late :: "(nat \<Rightarrow> timespec option) \<Rightarrow> timespec \<Rightarrow> bool" where
  "too_late clk timeout \<longleftrightarrow> (\<forall>i j t u. i < j \<longrightarrow> clk i = Some t \<longrightarrow> clk j = Some u \<longrightarrow> t + timeout \<le> u)"

lemma retry_too_late:
  assumes "clock_live (clock (penv P))" and "too_late (clock (penv P)) timeout"
  shows "\<exists>i. retry P timeout attempt ok r s = returns (r, at_reading i s)"
proof -
  obtain t j where t: "now P s = returns (t, at_reading (Suc j) s)" "clock (penv P) j = Some t"
    by (rule now_cases [OF assms(1)])
  let ?s = "at_reading (Suc j) s"
  obtain u k where u: "now P ?s = returns (u, at_reading (Suc k) ?s)" "clock_calls ?s \<le> k" "clock (penv P) k = Some u"
    by (rule now_cases [OF assms(1)])
  have "j < k" using u(2) by (simp add: at_reading_def)
  then have "\<not> u < t + timeout" using assms(2) t(2) u(3) unfolding too_late_def by (meson not_less)
  then have "retry_loop P (t + timeout) attempt ok r 0 ?s = returns (r, at_reading (Suc k) ?s)"
    by (subst retry_loop.simps) (simp add: u(1))
  moreover have "at_reading (Suc k) ?s = at_reading (Suc k) s" by (simp add: at_reading_def)
  ultimately show ?thesis using t(1) by (auto simp: retry_def)
qed

lemma served_late:
  assumes srv: "served P a (c, g) f" and late: "too_late (clock (penv P)) timeout"
  shows "\<exists>s'. connector_timed_get P (single_bidirectional_connector P) timeout (c, g) = returns ([], s')
      \<and> stays_served P a f (c, g) f s'"
    "\<exists>s'. connector_timed_pop P (single_bidirectional_connector P) timeout (c, g) = returns (False, s')
      \<and> stays_served P a f (c, g) f s'"
proof -
  have s: "single_holds P (c, g) f" using srv by (simp add: served_def)
  have live: "clock_live (clock (penv P))" using s by (auto simp: single_holds_def queue_holds_def env_ok_def)
  have may: "may_get c" using s by (auto elim: single_cases)
  have stays: "stays_served P a f (c, g) f (at_reading i (c, g))" for i
    by (rule stays_reading [OF stays_refl [OF srv]])
  obtain i where "retry P timeout (safe_get P (simple_connector P Simple_queue)) (\<lambda>m. m \<noteq> []) [] (c, g)
      = returns ([], at_reading i (c, g))"
    using retry_too_late [OF live late, of "safe_get P (simple_connector P Simple_queue)" "\<lambda>m. m \<noteq> []" "[]" "(c, g)"]
    by auto
  then show "\<exists>s'. connector_timed_get P (single_bidirectional_connector P) timeout (c, g) = returns ([], s')
      \<and> stays_served P a f (c, g) f s'"
    using may stays by (intro exI [of _ "at_reading i (c, g)"]) (simp add: connector_timed_get_def base_timed_get_def)
  obtain i where "retry P timeout (safe_pop P (simple_connector P Simple_queue)) (\<lambda>b. b) False (c, g)
      = returns (False, at_reading i (c, g))"
    using retry_too_late [OF live late, of "safe_pop P (simple_connector P Simple_queue)" "\<lambda>b. b" False "(c, g)"]
    by auto
  then show "\<exists>s'. connector_timed_pop P (single_bidirectional_connector P) timeout (c, g) = returns (False, s')
      \<and> stays_served P a f (c, g) f s'"
    using may stays by (intro exI [of _ "at_reading i (c, g)"]) (simp add: connector_timed_pop_def base_timed_pop_def)
qed

text \<open>
  A timeout long enough for a first attempt: the second of two successive readings of the clock
  is before the deadline the first one sets. Then a read is the untimed one, only that it waits
  for a message that does not come.
\<close>

definition prompt :: "(nat \<Rightarrow> timespec option) \<Rightarrow> timespec \<Rightarrow> bool" where
  "prompt clk timeout \<longleftrightarrow> (\<forall>i t j u k. get_monotonic_time clk i = Some (t, j)
     \<longrightarrow> get_monotonic_time clk j = Some (u, k) \<longrightarrow> u < t + timeout)"

lemma prompt_attempt:
  assumes live: "clock_live (clock (penv P))" and prompt: "prompt (clock (penv P)) timeout"
    and first: "\<And>i. \<exists>r1 s1. attempt (at_reading i s) = returns (r1, s1) \<and> ok r1 \<and> Q r1 s1"
  shows "\<exists>r1 s1. retry P timeout attempt ok r s = returns (r1, s1) \<and> ok r1 \<and> Q r1 s1"
proof -
  obtain t j where t: "get_monotonic_time (clock (penv P)) (clock_calls s) = Some (t, Suc j)"
    by (rule get_monotonic_time_live [OF live])
  obtain u k where u: "get_monotonic_time (clock (penv P)) (Suc j) = Some (u, Suc k)"
    by (rule get_monotonic_time_live [OF live])
  let ?s = "at_reading (Suc k) s"
  obtain r1 s1 where a: "attempt ?s = returns (r1, s1)" "ok r1" "Q r1 s1" using first by blast
  have now1: "now P s = returns (t, at_reading (Suc j) s)" using t by (simp add: now_def at_reading_def)
  have now2: "now P (at_reading (Suc j) s) = returns (u, ?s)" using u by (simp add: now_def at_reading_def)
  have "u < t + timeout" using prompt t u unfolding prompt_def by blast
  then have "retry_loop P (t + timeout) attempt ok r 0 (at_reading (Suc j) s) = returns (r1, s1)"
    using a(2) by (subst retry_loop.simps) (simp add: now2 a(1) split: prod.split)
  then show ?thesis using a(2,3) by (simp add: retry_def now1)
qed

lemma served_prompt:
  assumes srv: "served P a (c, g) f" and runs: "clock_runs (clock (penv P))" and prompt: "prompt (clock (penv P)) timeout"
    and alone: "\<And>k g. meanwhile P k g = g"
    and attempt: "\<And>s. stays_served P a f (c, g) f s \<Longrightarrow> \<exists>r s'. attempt s = returns (r, s')
      \<and> stays_served P a f s (if ok r then f' else f) s' \<and> ok r = (fifo_msgs f \<noteq> []) \<and> (ok r \<longrightarrow> Q r s')
      \<and> clock_calls s \<le> clock_calls s'"
    and none: "\<not> ok r0"
  shows "\<exists>r s'. retry P timeout attempt ok r0 (c, g) = returns (r, s')
    \<and> stays_served P a f (c, g) (if ok r then f' else f) s' \<and> ok r = (fifo_msgs f \<noteq> []) \<and> (ok r \<longrightarrow> Q r s')"
proof -
  have live: "clock_live (clock (penv P))" using srv by (auto simp: served_def single_holds_def queue_holds_def env_ok_def)
  let ?I = "stays_served P a f (c, g) f"
  show ?thesis
  proof (cases "fifo_msgs f = []")
    case False
    have "\<exists>r s'. attempt (at_reading i (c, g)) = returns (r, s') \<and> ok r \<and> (stays_served P a f (c, g) f' s' \<and> Q r s')" for i
    proof -
      have at: "?I (at_reading i (c, g))" by (rule stays_reading [OF stays_refl [OF srv]])
      from attempt [OF at] obtain r s' where "attempt (at_reading i (c, g)) = returns (r, s')"
        "stays_served P a f (at_reading i (c, g)) f' s'" "ok r" "Q r s'"
        using False by auto
      then show ?thesis using stays_trans [OF at] by blast
    qed
    from prompt_attempt [where attempt = attempt and ok = ok and s = "(c, g)" and Q = "\<lambda>r s'. stays_served P a f (c, g) f' s' \<and> Q r s'", OF live prompt this] False
    show ?thesis by fastforce
  next
    case True
    have att: "\<exists>r s'. attempt s = returns (r, s') \<and> clock_calls s \<le> clock_calls s' \<and> (if ok r then False else ?I s')"
      if at: "?I s" for s
    proof -
      obtain r s' where "attempt s = returns (r, s')" "stays_served P a f s f s'" "\<not> ok r"
        "clock_calls s \<le> clock_calls s'"
        using attempt [OF at] True by auto
      then show ?thesis using stays_trans [OF at] by auto
    qed
    have others: "?I (c1, g1) \<Longrightarrow> ?I (c1, meanwhile P k g1) \<and> readings (wld g1) \<le> readings (wld (meanwhile P k g1))"
      for k c1 g1 by (simp add: alone)
    have "\<exists>r s' i t. retry P timeout attempt ok r0 (c, g) = returns (r, s')
        \<and> clock_calls (c, g) \<le> i \<and> clock (penv P) i = Some t
        \<and> (if ok r then False else ?I s' \<and> overdue (penv P) (t + timeout) s')"
      unfolding retry_def
      by (rule deadline_returns [where I = ?I and Q = "\<lambda>_ _ _. False" and result = "\<lambda>r. r",
          OF retry_waits live runs stays_reading att others stays_refl [OF srv] none]) simp_all
    then show ?thesis using True by (auto split: if_splits)
  qed
qed

lemma safe_reads_forward:
  assumes "single_holds P s f"
  shows "safe_get P (simple_connector P Simple_queue) s = returns (ps, s') \<Longrightarrow> clock_calls s' = clock_calls s"
    "safe_pop P (simple_connector P Simple_queue) s = returns (b, s') \<Longrightarrow> clock_calls s' = clock_calls s"
proof -
  obtain a q where h: "m_plocker (fst s) = Some a" "lock_free (plock P) (lockers (snd s) a)" "m_pqueue (fst s) = Some q"
    by (rule single_cases [OF assms])
  note ops = safe_simple_free [OF h(1,2)]
  show "safe_get P (simple_connector P Simple_queue) s = returns (ps, s') \<Longrightarrow> clock_calls s' = clock_calls s"
    "safe_pop P (simple_connector P Simple_queue) s = returns (b, s') \<Longrightarrow> clock_calls s' = clock_calls s"
    using h(3) by (auto simp: ops simple_connector_get_def simple_connector_pop_def with_queue_def and_then_eq_returns)
qed

lemma prompt_get:
  assumes srv: "served P a (c, g) f" and runs: "clock_runs (clock (penv P))" and prompt: "prompt (clock (penv P)) timeout"
    and alone: "\<And>k g. meanwhile P k g = g"
  shows "\<exists>ps s'. connector_timed_get P (single_bidirectional_connector P) timeout (c, g) = returns (ps, s')
    \<and> read_message (gmem (snd s')) ps = fifo_get f \<and> stays_served P a f (c, g) f s'"
proof -
  let ?get = "safe_get P (simple_connector P Simple_queue)"
  have may: "may_get c" using srv by (auto simp: served_def elim: single_cases)
  have "\<exists>r s'. ?get s = returns (r, s') \<and> stays_served P a f s (if r \<noteq> [] then f else f) s'
      \<and> (r \<noteq> []) = (fifo_msgs f \<noteq> []) \<and> (r \<noteq> [] \<longrightarrow> read_message (gmem (snd s')) r = fifo_get f)
      \<and> clock_calls s \<le> clock_calls s'" if at: "stays_served P a f (c, g) f s" for s
  proof -
    obtain c1 g1 where s: "s = (c1, g1)" by (cases s)
    have srv1: "served P a (c1, g1) f" using at by (simp add: stays_served_def s)
    then have h1: "single_holds P s f" by (simp add: served_def s)
    obtain ps s2 where s2: "connector_get (single_bidirectional_connector P) (c1, g1) = returns (ps, s2)"
      "read_message (gmem (snd s2)) ps = fifo_get f" "stays_served P a f (c1, g1) f s2"
      using served_get [OF srv1] by blast
    have "may_get c1" using h1 by (auto simp: s elim: single_cases)
    then have run: "?get s = returns (ps, s2)" using s2(1) by (simp add: connector_get_def s)
    have "(ps \<noteq> []) = (fifo_msgs f \<noteq> [])"
      using s2(2) by (auto simp: read_message_def fifo_get_def split: if_splits list.splits)
    with run s2(2,3) safe_reads_forward(1) [OF h1 run] show ?thesis unfolding s by auto
  qed
  from served_prompt [where attempt = ?get and f' = f and ok = "\<lambda>ps. ps \<noteq> []" and Q = "\<lambda>r s'. read_message (gmem (snd s')) r = fifo_get f",
      OF srv runs prompt alone this, of "[]"]
  obtain ps s' where r: "retry P timeout ?get (\<lambda>ps. ps \<noteq> []) [] (c, g) = returns (ps, s')"
    "stays_served P a f (c, g) f s'" "(ps \<noteq> []) = (fifo_msgs f \<noteq> [])"
    "ps \<noteq> [] \<longrightarrow> read_message (gmem (snd s')) ps = fifo_get f"
    by auto
  then have "read_message (gmem (snd s')) ps = fifo_get f"
    by (cases "ps = []") (auto simp: read_message_def fifo_get_def)
  with r(1,2) show ?thesis
    using may by (intro exI [of _ ps] exI [of _ s']) (simp add: connector_timed_get_def base_timed_get_def)
qed

lemma prompt_pop:
  assumes srv: "served P a (c, g) f" and runs: "clock_runs (clock (penv P))" and prompt: "prompt (clock (penv P)) timeout"
    and alone: "\<And>k g. meanwhile P k g = g"
  shows "\<exists>s'. connector_timed_pop P (single_bidirectional_connector P) timeout (c, g) = returns (fst (fifo_pop f), s')
    \<and> stays_served P a f (c, g) (snd (fifo_pop f)) s'"
proof -
  let ?pop = "safe_pop P (simple_connector P Simple_queue)"
  have may: "may_get c" using srv by (auto simp: served_def elim: single_cases)
  have pop: "fst (fifo_pop f) = (fifo_msgs f \<noteq> [])" "fifo_msgs f = [] \<Longrightarrow> snd (fifo_pop f) = f"
    by (auto simp: fifo_pop_def split: list.splits)
  have "\<exists>r s'. ?pop s = returns (r, s') \<and> stays_served P a f s (if r then snd (fifo_pop f) else f) s'
      \<and> r = (fifo_msgs f \<noteq> []) \<and> (r \<longrightarrow> True) \<and> clock_calls s \<le> clock_calls s'"
    if at: "stays_served P a f (c, g) f s" for s
  proof -
    obtain c1 g1 where s: "s = (c1, g1)" by (cases s)
    have srv1: "served P a (c1, g1) f" using at by (simp add: stays_served_def s)
    then have h1: "single_holds P s f" by (simp add: served_def s)
    obtain s2 where s2: "connector_pop (single_bidirectional_connector P) (c1, g1) = returns (fst (fifo_pop f), s2)"
      "stays_served P a f (c1, g1) (snd (fifo_pop f)) s2"
      using served_deq [OF srv1] by (auto simp: conn_deq_def)
    have "may_get c1" using h1 by (auto simp: s elim: single_cases)
    then have run: "?pop s = returns (fst (fifo_pop f), s2)" using s2(1) by (simp add: connector_pop_def s)
    with s2(2) safe_reads_forward(2) [OF h1 run] pop show ?thesis unfolding s by auto
  qed
  from served_prompt [where attempt = ?pop and f' = "snd (fifo_pop f)" and ok = "\<lambda>b. b" and Q = "\<lambda>_ _. True", OF srv runs prompt alone this, of False]
  obtain s' where r: "retry P timeout ?pop (\<lambda>b. b) False (c, g) = returns (fst (fifo_pop f), s')"
    "stays_served P a f (c, g) (if fst (fifo_pop f) then snd (fifo_pop f) else f) s'"
    unfolding pop(1) by auto
  have "(if fst (fifo_pop f) then snd (fifo_pop f) else f) = snd (fifo_pop f)" using pop by auto
  with r show ?thesis
    using may by (intro exI [of _ s']) (simp add: connector_timed_pop_def base_timed_pop_def)
qed

section \<open>Timed operations on the bus\<close>

lemma timed_push_front:
  assumes lone: "lone_platform P cast seg nm valid" and runs: "clock_runs (clock (penv P))"
    and holds: "bus_holds P cast seg valid sp s ((i, c, f) # es)" and ne: "snd x \<noteq> []"
  shows "\<exists>r s' c'. shared_bus_timed_push (single_bus_class P cast) (fst x) (snd x) timeout s = returns (r, s')
    \<and> bus_holds P cast seg valid sp s' ((i, c', if r then snd (fifo_push x f) else f) # es)
    \<and> (r \<longrightarrow> fst (fifo_push x f))"
proof -
  have "\<exists>r s'. connector_timed_push P (single_bidirectional_connector P) (fst x) (snd x) timeout (c, g) = returns (r, s')
      \<and> stays_served P a f (c, g) (if r then snd (fifo_push x f) else f) s' \<and> (r \<longrightarrow> fst (fifo_push x f))"
    if "served P a (c, g) f" for a g
    by (rule served_timed_push [OF that ne runs lone_meanwhile [OF lone]])
  from push_front [where Q = "\<lambda>r. r \<longrightarrow> fst (fifo_push x f)", OF lone holds this] show ?thesis
    by (simp add: shared_bus_timed_push_def base_bus_timed_push_def [abs_def])
qed

lemma late_back:
  assumes lone: "lone_platform P cast seg nm valid" and late: "too_late (clock (penv P)) timeout"
    and holds: "bus_holds P cast seg valid sp s (es @ [(i, c, f)])"
  shows "\<exists>s' c'. shared_bus_timed_get (single_bus_class P cast) timeout s = returns ([], s')
      \<and> bus_holds P cast seg valid sp s' (es @ [(i, c', f)])"
    "\<exists>s' c'. shared_bus_timed_pop (single_bus_class P cast) timeout s = returns (False, s')
      \<and> bus_holds P cast seg valid sp s' (es @ [(i, c', f)])"
proof -
  obtain b g where s: "s = (b, g)" by (cases s)
  note last = read_back [OF lone holds [unfolded s]]
  show "\<exists>s' c'. shared_bus_timed_get (single_bus_class P cast) timeout s = returns ([], s')
      \<and> bus_holds P cast seg valid sp s' (es @ [(i, c', f)])"
    using last [where F = "connector_timed_get P (single_bidirectional_connector P) timeout", OF served_late(1) [OF _ late], where ok = "\<lambda>ps. ps \<noteq> []"]
    unfolding s shared_bus_timed_get_def base_bus_timed_get_def [abs_def] single_layout_fields by blast
  show "\<exists>s' c'. shared_bus_timed_pop (single_bus_class P cast) timeout s = returns (False, s')
      \<and> bus_holds P cast seg valid sp s' (es @ [(i, c', f)])"
    using last [where F = "connector_timed_pop P (single_bidirectional_connector P) timeout", OF served_late(2) [OF _ late], where ok = "\<lambda>b. b"]
    unfolding s shared_bus_timed_pop_def base_bus_timed_pop_def [abs_def] single_layout_fields by blast
qed

text \<open>
  An attempt that yields nothing from the back connector, whatever that holds: every connector but
  the one at the front goes.
\<close>

lemma discard_law:
  assumes bus: "bus_platform P cast seg nm valid"
    and attempt: "\<forall>s es i c f. bus_holds P cast seg valid sp s (es @ [(i, c, f)]) \<longrightarrow>
      (\<exists>s' c'. attempt s = returns (r, s') \<and> bus_holds P cast seg valid sp s' (es @ [(i, c', f)]))"
    and no: "\<not> ok r" and "bus_holds P cast seg valid sp s es"
  shows "\<exists>s' c. advance (single_bus_class P cast) attempt ok s = returns (r, s')
    \<and> bus_holds P cast seg valid sp s' [(fst (hd es), c, entry_fifo (hd es))]"
  using assms(4)
proof (induction es arbitrary: s rule: rev_induct)
  case Nil
  then show ?case using holds_nonempty by blast
next
  case (snoc e es)
  obtain i c f where e: "e = (i, c, f)" by (cases e)
  obtain s1 c1 where s1: "attempt s = returns (r, s1)" "bus_holds P cast seg valid sp s1 (es @ [(i, c1, f)])"
    using attempt snoc.prems unfolding e by blast
  have room: "can_remove_connector (single_layout_of P cast) s1 \<longleftrightarrow> es \<noteq> []"
    unfolding holds_room [OF s1(2)] by (cases es) auto
  show ?case
  proof (cases "es = []")
    case True
    then have "advance (single_bus_class P cast) attempt ok s = returns (r, s1)"
      by (subst advance.simps) (simp add: s1(1) no room)
    with s1(2) True show ?thesis by (auto simp: e)
  next
    case False
    obtain s2 where s2: "shared_remove_connector (single_layout_of P cast) s1 = returns (True, s2)"
      "bus_holds P cast seg valid sp s2 es"
      using remove_law [OF bus s1(2) False] by blast
    have "advance (single_bus_class P cast) attempt ok s = advance (single_bus_class P cast) attempt ok s2"
      using False by (subst advance.simps) (simp add: s1(1) no room s2(1))
    then show ?thesis using snoc.IH [OF s2(2)] False by simp
  qed
qed

section \<open>The bus with timeouts as a queue of messages\<close>

definition bus_timed_enq ::
  "('h, 'o, 'l, 'b) bus_vtable \<Rightarrow> timespec \<Rightarrow> message \<Rightarrow> ('h, 'o, 'l, 'b) hub \<Rightarrow> (bool \<times> ('h, 'o, 'l, 'b) hub) run" where
  "bus_timed_enq V timeout x s = bus_timed_push V (fst x) (snd x) timeout s"

definition bus_timed_front ::
  "('h, 'o, 'l, 'b) bus_vtable \<Rightarrow> timespec \<Rightarrow> ('h, 'o, 'l, 'b) hub \<Rightarrow> (message option \<times> ('h, 'o, 'l, 'b) hub) run" where
  "bus_timed_front V timeout s = and_then (bus_timed_get V timeout s) (\<lambda>(ps, s1). returns (read_message (gmem (snd s1)) ps, s1))"

definition bus_timed_deq ::
  "('h, 'o, 'l, 'b) bus_vtable \<Rightarrow> timespec \<Rightarrow> ('h, 'o, 'l, 'b) hub \<Rightarrow> (bool \<times> ('h, 'o, 'l, 'b) hub) run" where
  "bus_timed_deq V timeout s = bus_timed_pop V timeout s"

definition timed_line_holds ::
  "('h, 'o, 'l, 'b) platform \<Rightarrow> (id_type \<Rightarrow> string) \<Rightarrow> ('o \<Rightarrow> string \<Rightarrow> (nat \<times> u64) option) \<Rightarrow> ('o \<Rightarrow> 'h \<Rightarrow> string)
    \<Rightarrow> ('o \<Rightarrow> bool) \<Rightarrow> timespec \<Rightarrow> ('h, 'o, 'l, 'b) hub \<Rightarrow> message list \<Rightarrow> bool" where
  "timed_line_holds P cast seg nm valid timeout s xs \<longleftrightarrow> line_holds P cast seg nm valid s xs
     \<and> clock_runs (clock (penv P)) \<and> prompt (clock (penv P)) timeout"

lemma timed_line_cases:
  assumes "timed_line_holds P cast seg nm valid timeout s xs"
  obtains sp es where "lone_platform P cast seg nm valid" "spec_keepalive_timeout sp = 0"
    "bus_holds P cast seg valid sp s es" "contents es = xs" "b_opened (fst s)"
    "clock_runs (clock (penv P))" "prompt (clock (penv P)) timeout"
  using assms line_opened unfolding timed_line_holds_def line_holds_def by blast

lemma timed_grow_law:
  assumes lone: "lone_platform P cast seg nm valid" and spec: "spec_keepalive_timeout sp = 0"
    and runs: "clock_runs (clock (penv P))" and holds: "bus_holds P cast seg valid sp s es" and ne: "snd x \<noteq> []"
  shows "\<exists>r s' es'. bus_timed_push (single_bus P cast) (fst x) (snd x) timeout s = returns (r, s')
    \<and> bus_holds P cast seg valid sp s' es' \<and> contents es' = (if r then contents es @ [x] else contents es)
    \<and> (\<not> r \<longrightarrow> stuck sp es' \<or> length es' = 4294967296)"
proof -
  note bus = lone_bus [OF lone]
  have "\<forall>s i c f es. bus_holds P cast seg valid sp s ((i, c, f) # es) \<longrightarrow>
      (\<exists>r s' c'. shared_bus_timed_push (single_bus_class P cast) (fst x) (snd x) timeout s = returns (r, s')
        \<and> bus_holds P cast seg valid sp s' ((i, c', if r then snd (fifo_push x f) else f) # es)
        \<and> (if r then fst (fifo_push x f) else True))"
  proof (intro allI impI)
    fix s i c f es assume "bus_holds P cast seg valid sp s ((i, c, f) # es)"
    from timed_push_front [OF lone runs this ne, of timeout] obtain r s' c' where
      "shared_bus_timed_push (single_bus_class P cast) (fst x) (snd x) timeout s = returns (r, s')"
      "bus_holds P cast seg valid sp s' ((i, c', if r then snd (fifo_push x f) else f) # es)"
      "r \<longrightarrow> fst (fifo_push x f)" by blast
    then show "\<exists>r s' c'. shared_bus_timed_push (single_bus_class P cast) (fst x) (snd x) timeout s = returns (r, s')
        \<and> bus_holds P cast seg valid sp s' ((i, c', if r then snd (fifo_push x f) else f) # es)
        \<and> (if r then fst (fifo_push x f) else True)"
      by (intro exI [of _ r] exI [of _ s'] exI [of _ c']) simp
  qed
  note grow = grow_law_any [OF bus spec this holds]
  have "b_opened (fst s)" using holds by (simp add: bus_holds_def Let_def)
  then have "bus_timed_push (single_bus P cast) (fst x) (snd x) timeout s
      = grow (single_bus_class P cast) (shared_bus_timed_push (single_bus_class P cast) (fst x) (snd x) timeout) s"
    by (simp add: bus_timed_push_def)
  with grow show ?thesis by simp
qed

lemma timed_enq_law:
  assumes "timed_line_holds P cast seg nm valid timeout s xs" and "snd x \<noteq> []"
  shows "\<exists>b s'. bus_timed_enq (single_bus P cast) timeout x s = returns (b, s')
    \<and> timed_line_holds P cast seg nm valid timeout s' (if b then xs @ [x] else xs)"
proof -
  obtain sp es where h: "lone_platform P cast seg nm valid" "spec_keepalive_timeout sp = 0"
    "bus_holds P cast seg valid sp s es" "contents es = xs"
    "clock_runs (clock (penv P))" "prompt (clock (penv P)) timeout"
    by (rule timed_line_cases [OF assms(1)])
  from timed_grow_law [OF h(1,2,5,3) assms(2)] obtain r s' es' where
    "bus_timed_push (single_bus P cast) (fst x) (snd x) timeout s = returns (r, s')"
    "bus_holds P cast seg valid sp s' es'" "contents es' = (if r then contents es @ [x] else contents es)"
    by blast
  then show ?thesis using line_holdsI [OF h(1,2)] h(4-6) by (auto simp: bus_timed_enq_def timed_line_holds_def)
qed

lemma timed_front_law:
  assumes "timed_line_holds P cast seg nm valid timeout s xs"
  shows "\<exists>s'. bus_timed_front (single_bus P cast) timeout s = returns (first_of xs, s')
    \<and> timed_line_holds P cast seg nm valid timeout s' xs"
proof -
  let ?G = "shared_bus_timed_get (single_bus_class P cast) timeout"
  obtain sp es where h: "lone_platform P cast seg nm valid" "spec_keepalive_timeout sp = 0"
    "bus_holds P cast seg valid sp s es" "contents es = xs" "b_opened (fst s)"
    "clock_runs (clock (penv P))" "prompt (clock (penv P)) timeout"
    by (rule timed_line_cases [OF assms])
  have "\<exists>ps s' c'. ?G s = returns (ps, s') \<and> read_message (gmem (snd s')) ps = fifo_get f
      \<and> bus_holds P cast seg valid sp s' (es @ [(i, c', f)])"
    if "bus_holds P cast seg valid sp s (es @ [(i, c, f)])" for s es i c f
    using get_back [OF h(1) that prompt_get [OF _ h(6,7) lone_meanwhile [OF h(1)]]]
    by (simp add: shared_bus_timed_get_def base_bus_timed_get_def [abs_def])
  then obtain ps s' where "advance (single_bus_class P cast) ?G (\<lambda>ps. ps \<noteq> []) s = returns (ps, s')"
    "read_message (gmem (snd s')) ps = first_of xs" "line_holds P cast seg nm valid s' xs"
    using front_any [OF h(1,2) _ h(3), where G = ?G] h(4) by blast
  then show ?thesis using h(5-7) by (simp add: bus_timed_front_def bus_timed_get_def timed_line_holds_def)
qed

lemma timed_deq_law:
  assumes "timed_line_holds P cast seg nm valid timeout s xs"
  shows "\<exists>s'. bus_timed_deq (single_bus P cast) timeout s = returns (xs \<noteq> [], s')
    \<and> timed_line_holds P cast seg nm valid timeout s' (tl xs)"
proof -
  let ?G = "shared_bus_timed_pop (single_bus_class P cast) timeout"
  obtain sp es where h: "lone_platform P cast seg nm valid" "spec_keepalive_timeout sp = 0"
    "bus_holds P cast seg valid sp s es" "contents es = xs" "b_opened (fst s)"
    "clock_runs (clock (penv P))" "prompt (clock (penv P)) timeout"
    by (rule timed_line_cases [OF assms])
  have "\<exists>s' c'. ?G s = returns (fst (fifo_pop f), s') \<and> bus_holds P cast seg valid sp s' (es @ [(i, c', snd (fifo_pop f))])"
    if "bus_holds P cast seg valid sp s (es @ [(i, c, f)])" for s es i c f
  proof -
    obtain b g where s: "s = (b, g)" by (cases s)
    show ?thesis
      using read_back [where F = "connector_timed_pop P (single_bidirectional_connector P) timeout" and ok = "\<lambda>b. b",
          OF h(1) that [unfolded s] prompt_pop [OF _ h(6,7) lone_meanwhile [OF h(1)]]]
      unfolding s shared_bus_timed_pop_def base_bus_timed_pop_def [abs_def] single_layout_fields by blast
  qed
  then obtain s' where "advance (single_bus_class P cast) ?G (\<lambda>b. b) s = returns (xs \<noteq> [], s')"
    "line_holds P cast seg nm valid s' (tl xs)"
    using deq_any [OF h(1,2) _ h(3), where G = ?G] h(4) by blast
  then show ?thesis using h(5-7) by (simp add: bus_timed_deq_def bus_timed_pop_def timed_line_holds_def)
qed

interpretation timed_line: lossless_queue "bus_timed_enq (single_bus P cast) timeout"
    "bus_timed_front (single_bus P cast) timeout" "bus_timed_deq (single_bus P cast) timeout"
    "timed_line_holds P cast seg nm valid timeout" for P cast seg nm valid timeout
  by unfold_locales (fact timed_enq_law timed_front_law timed_deq_law)+

section \<open>Clocks\<close>

text \<open>On a clock that does not go back, a timeout of zero is always too late.\<close>

lemma zero_too_late:
  assumes forward: "\<And>i j t u. i < j \<Longrightarrow> clk i = Some t \<Longrightarrow> clk j = Some u \<Longrightarrow> t \<le> u"
    and normal: "\<And>i t. clk i = Some t \<Longrightarrow> normalised t"
  shows "too_late clk (Timespec 0 0)"
proof -
  have "t + Timespec 0 0 = t" if "normalised t" for t
    using that by (cases t) (simp add: plus_timespec_def timespec_add_def normalised_def)
  then show ?thesis using forward normal unfolding too_late_def by metis
qed

lemma sample_too_late: "too_late (clock (penv sample_platform)) (Timespec 0 0)"
  by (rule zero_too_late)
    (auto simp: sample_env_def sample_clock_def less_eq_timespec_def timespec_order_defs normalised_def)

lemma sample_prompt: "prompt (clock (penv sample_platform)) (Timespec 5 0)"
proof -
  have "get_monotonic_time sample_clock i = Some (Timespec (1000 + int i) 0, Suc i)" for i
    by (subst get_monotonic_time.simps) (simp add: sample_clock_def)
  then show ?thesis
    by (auto simp: prompt_def sample_env_def less_timespec_def timespec_less_def plus_timespec_def timespec_add_def)
qed

lemma sample_runs: "clock_runs (clock (penv sample_platform))"
  by (simp add: sample_env_def)

text \<open>A bus of two connectors, with one message in each.\<close>

lemma sample_two:
  "\<exists>s e0 e1. bus_holds sample_platform digits segments table_valid sample_spec s [e1, e0]
    \<and> fifo_msgs (entry_fifo e0) = [(7, [1])] \<and> fifo_msgs (entry_fifo e1) = [(8, [2])]"
proof -
  let ?H = "bus_holds sample_platform digits segments table_valid sample_spec"
  obtain s c f where s: "?H s [(0, c, f)]" "fifo_msgs f = []" "f = new_fifo sample_spec ([] :: string entry list)"
    using create_law [OF lone_bus [OF sample_lone] sample_spec_facts sample_free(1,2)] sample_free(2) by blast
  let ?f0 = "snd (fifo_push (7, [1]) f)"
  have f: "f = \<lparr>fifo_cap = 40, fifo_pos = 0, fifo_msgs = []\<rparr>"
    by (simp add: s(3) new_fifo_def new_capacity_def sample_spec_def front_cap_def)
  then have f0: "fifo_msgs ?f0 = [(7, [1])]" "fifo_cap ?f0 = 40"
    by (simp_all add: fifo_push_def fits_def span_def)
  obtain s1 c0 where s1: "?H s1 [(0, c0, ?f0)]"
    using shared_push_front [OF sample_lone s(1), of "(7, [1])"] by auto
  let ?es = "[(0, c0, ?f0)] :: string entry list"
  have cap: "front_cap ?es = 40" using f0(2) by (simp add: front_cap_def)
  have "\<not> stuck sample_spec ?es" by (simp add: stuck_def cap) (simp add: new_capacity_def sample_spec_def)
  moreover have "can_add_connector (single_layout_of sample_platform digits) s1" using holds_full [OF s1] by auto
  ultimately obtain s2 e where s2: "?H s2 (e # ?es)" "entry_fifo e = new_fifo sample_spec ?es"
    using add_law [OF lone_bus [OF sample_lone] s1 sample_spec_facts(1)] by (metis (no_types, lifting))
  obtain i c1 f1 where e: "e = (i, c1, f1)" by (cases e)
  have "f1 = \<lparr>fifo_cap = 60, fifo_pos = 0, fifo_msgs = []\<rparr>"
    using s2(2) by (simp add: e new_fifo_def cap) (simp add: new_capacity_def sample_spec_def)
  then have f1: "fifo_msgs (snd (fifo_push (8, [2]) f1)) = [(8, [2])]"
    by (simp add: fifo_push_def fits_def span_def)
  obtain s3 c3 where "?H s3 ((i, c3, snd (fifo_push (8, [2]) f1)) # ?es)"
    using shared_push_front [OF sample_lone s2(1) [unfolded e], of "(8, [2])"] by auto
  with f0(1) f1 show ?thesis
    by (intro exI [of _ s3] exI [of _ "(0, c0, ?f0)"] exI [of _ "(i, c3, snd (fifo_push (8, [2]) f1))"]) simp
qed

section \<open>Properties\<close>

text \<open>
  C6. The same bus, without expiry, with a first capacity that is not zero and used by one process
  only, is one FIFO without loss for the timed operations, too, when the timeout leaves time for a
  first attempt: every sequence of timed gets, pops and pushes of non-empty messages returns, and a
  timed get waits for a message that does not come and yields the oldest one otherwise, whatever
  connectors are added and removed.
\<close>

theorem timed_bus_is_one_fifo:
  assumes "lone_platform P cast seg nm valid" and "spec_keepalive_timeout sp = 0" "new_capacity sp 0 \<noteq> 0"
    and "valid (sys g)" "seg (sys g) name = None" "\<forall>i. seg (sys g) (name @ cast i) = None"
    and "clock_runs (clock (penv P))" "prompt (clock (penv P)) timeout"
    and "\<forall>p \<in> set ps. sendable p"
  shows "\<exists>s rs s'. bus_create (single_bus P cast) sp (new_bus name garbage, g) = returns (True, s)
    \<and> impl_run (bus_timed_enq (single_bus P cast) timeout) (bus_timed_front (single_bus P cast) timeout)
        (bus_timed_deq (single_bus P cast) timeout) ps s = returns (rs, s')
    \<and> explained [] ps rs \<and> pops rs \<le> length (accepted ps rs)
    \<and> line_holds P cast seg nm valid s' (drop (pops rs) (accepted ps rs))"
proof -
  obtain s c f where s: "bus_create (single_bus P cast) sp (new_bus name garbage, g) = returns (True, s)"
    "bus_holds P cast seg valid sp s [(0, c, f)]" "fifo_msgs f = []"
    using create_law [OF lone_bus [OF assms(1)] assms(2-6)] by blast
  have "line_holds P cast seg nm valid s []" by (rule line_holdsI [OF assms(1,2) s(2)]) (simp add: s(3))
  then have "timed_line_holds P cast seg nm valid timeout s []"
    using assms(7,8) by (simp add: timed_line_holds_def)
  from timed_line.lossless_run [OF this assms(9)] s(1) show ?thesis by (auto simp: timed_line_holds_def)
qed

theorem timed_bus_is_one_fifo_witness:
  "\<exists>s rs s'. bus_create (single_bus sample_platform digits) sample_spec
        (new_bus ''bus'' \<lparr>epoch = 0, input_id = 0, output_id = 0\<rparr>, sample_globals) = returns (True, s)
    \<and> impl_run (bus_timed_enq (single_bus sample_platform digits) (Timespec 5 0))
        (bus_timed_front (single_bus sample_platform digits) (Timespec 5 0))
        (bus_timed_deq (single_bus sample_platform digits) (Timespec 5 0)) [Get, Push (7, [1, 2, 3]), Push (8, [4]), Get, Pop] s
      = returns (rs, s')
    \<and> explained [] [Get, Push (7, [1, 2, 3]), Push (8, [4]), Get, Pop] rs"
proof -
  have "\<forall>p \<in> set [Get, Push (7, [1, 2, 3]), Push (8, [4]), Get, Pop]. sendable p" by simp
  from timed_bus_is_one_fifo [OF sample_lone sample_spec_facts sample_free(1,2) _ sample_runs sample_prompt this]
    sample_free(2)
  show ?thesis by blast
qed

text \<open>
  C24. A timed push of a non-empty message on such a bus, without expiry and used by one process
  only, returns whatever its timeout, even one that has passed. The messages that the bus held stay
  in it, and the new one is added behind them exactly when the push reports success. A push that
  fails adds connectors until it may not add another: the newest one cannot be followed by a larger
  one, or all identifiers are in use.
\<close>

theorem timed_bus_push_ends:
  assumes "lone_platform P cast seg nm valid" and "spec_keepalive_timeout sp = 0"
    and "clock_runs (clock (penv P))" and "bus_holds P cast seg valid sp s es" and "data \<noteq> []"
  shows "\<exists>r s' es'. bus_timed_push (single_bus P cast) tag data timeout s = returns (r, s')
    \<and> bus_holds P cast seg valid sp s' es'
    \<and> contents es' = (if r then contents es @ [(tag, data)] else contents es)
    \<and> (\<not> r \<longrightarrow> stuck sp es' \<or> length es' = 4294967296)"
  using timed_grow_law [OF assms(1-4), of "(tag, data)" timeout] assms(5) by simp

theorem timed_bus_push_ends_witness:
  "\<exists>s e0 e1 r s' es'. bus_timed_push (single_bus sample_platform digits) 9 (replicate 50 3) (Timespec 5 0) s = returns (r, s')
    \<and> bus_holds sample_platform digits segments table_valid sample_spec s [e1, e0]
    \<and> contents es' = (if r then [(7, [1]), (8, [2]), (9, replicate 50 3)] else [(7, [1]), (8, [2])])
    \<and> (\<not> r \<longrightarrow> stuck sample_spec (es' :: string entry list) \<or> length es' = 4294967296)"
proof -
  obtain s e0 e1 where s: "bus_holds sample_platform digits segments table_valid sample_spec s [e1, e0]"
    "fifo_msgs (entry_fifo e0) = [(7, [1])]" "fifo_msgs (entry_fifo e1) = [(8, [2])]"
    using sample_two by blast
  have "replicate 50 (3 :: u8) \<noteq> []" by simp
  from timed_bus_push_ends [OF sample_lone sample_spec_facts(1) sample_runs s(1) this, of 9 "Timespec 5 0"]
  obtain r s' and es' :: "string entry list" where
    "bus_timed_push (single_bus sample_platform digits) 9 (replicate 50 3) (Timespec 5 0) s = returns (r, s')"
    "contents es' = (if r then contents [e1, e0] @ [(9, replicate 50 3)] else contents [e1, e0])"
    "\<not> r \<longrightarrow> stuck sample_spec es' \<or> length es' = 4294967296" by blast
  then show ?thesis using s
    by (intro exI [of _ s] exI [of _ e0] exI [of _ e1] exI [of _ r] exI [of _ s'] exI [of _ es']) simp
qed

text \<open>
  C11. A timed get or pop whose timeout has passed before its first attempt,
  as one of zero has by the time the clock is read again, throws messages away: it yields nothing,
  and having taken every connector but the newest for empty it removes them with what they hold.
\<close>

theorem late_read_discards_messages:
  assumes "lone_platform P cast seg nm valid" and "too_late (clock (penv P)) timeout"
    and "bus_holds P cast seg valid sp s (e # es)"
  shows "(\<exists>s' c. bus_timed_get (single_bus P cast) timeout s = returns ([], s')
      \<and> bus_holds P cast seg valid sp s' [(fst e, c, entry_fifo e)])
    \<and> (\<exists>s' c. bus_timed_pop (single_bus P cast) timeout s = returns (False, s')
      \<and> bus_holds P cast seg valid sp s' [(fst e, c, entry_fifo e)])"
proof -
  have opened: "b_opened (fst s)" using assms(3) by (simp add: bus_holds_def Let_def)
  have "\<exists>s' c. advance (single_bus_class P cast) (shared_bus_timed_get (single_bus_class P cast) timeout) (\<lambda>ps. ps \<noteq> []) s
      = returns ([], s') \<and> bus_holds P cast seg valid sp s' [(fst (hd (e # es)), c, entry_fifo (hd (e # es)))]"
    by (rule discard_law [OF lone_bus [OF assms(1)] _ _ assms(3)]) (use late_back(1) [OF assms(1,2)] in \<open>blast, simp\<close>)
  moreover have "\<exists>s' c. advance (single_bus_class P cast) (shared_bus_timed_pop (single_bus_class P cast) timeout) (\<lambda>b. b) s
      = returns (False, s') \<and> bus_holds P cast seg valid sp s' [(fst (hd (e # es)), c, entry_fifo (hd (e # es)))]"
    by (rule discard_law [OF lone_bus [OF assms(1)] _ _ assms(3)]) (use late_back(2) [OF assms(1,2)] in \<open>blast, simp\<close>)
  ultimately show ?thesis using opened by (simp add: bus_timed_get_def bus_timed_pop_def)
qed

theorem late_read_discards_messages_witness:
  "\<exists>s e0 e1 s' c. bus_holds sample_platform digits segments table_valid sample_spec s [e1, e0]
    \<and> contents [e1, e0] = [(7, [1]), (8, [2])]
    \<and> bus_timed_get (single_bus sample_platform digits) (Timespec 0 0) s = returns ([], s')
    \<and> bus_holds sample_platform digits segments table_valid sample_spec s' [(fst e1, c, entry_fifo e1)]
    \<and> contents [(fst e1, c, entry_fifo e1)] = [(8, [2])]"
proof -
  obtain s e0 e1 where s: "bus_holds sample_platform digits segments table_valid sample_spec s [e1, e0]"
    "fifo_msgs (entry_fifo e0) = [(7, [1])]" "fifo_msgs (entry_fifo e1) = [(8, [2])]"
    using sample_two by blast
  obtain s' c where "bus_timed_get (single_bus sample_platform digits) (Timespec 0 0) s = returns ([], s')"
    "bus_holds sample_platform digits segments table_valid sample_spec s' [(fst e1, c, entry_fifo e1)]"
    using late_read_discards_messages [OF sample_lone sample_too_late s(1)] by blast
  with s show ?thesis
    by (intro exI [of _ s] exI [of _ e0] exI [of _ e1] exI [of _ s'] exI [of _ c]) simp
qed

end
