(* ===== verification/Bus_Cells.thy ===== *)
theory Bus_Cells
  imports Bus_Fifo
begin

text \<open>
  The connectors of a bus that two processes use, one that pushes and one that gets and pops: each
  segment with the objects that the two have on it.
\<close>

section \<open>Two objects on one segment\<close>

text \<open>An object that holds no message description: it has never got a message.\<close>

definition idle :: "'h connector \<Rightarrow> bool" where
  "idle c \<longleftrightarrow> (\<exists>q. m_pqueue c = Some q \<and> fst (m_message_desc q) = [])"

text \<open>
  What an operation through one object makes of the other: its message description stays right
  when the head of the queue stays, and an idle object has none.
\<close>

lemma served_twin:
  assumes one: "served P a (c1, g') f'" and two: "served P a (c2, g) f"
    and keeps: "idle c2 \<or> fifo_cap f' = fifo_cap f \<and> fifo_pos f' = fifo_pos f \<and> (\<exists>ys. fifo_msgs f' = fifo_msgs f @ ys)"
  shows "served P a (c2, g') f'"
proof -
  obtain q1 where q1: "m_pqueue c1 = Some q1" "base_ptr q1 = queue_ptr P a" "queue_holds (penv P) (wld g', q1) f'"
    by (rule served_cases [OF one])
  obtain q2 where q2: "m_pqueue c2 = Some q2" "base_ptr q2 = queue_ptr P a" "queue_holds (penv P) (wld g, q2) f"
    by (rule served_cases [OF two])
  have base: "base_ptr q2 = base_ptr q1" by (simp add: q1(2) q2(2))
  have cls: "class_of q2 = Simple_queue" using q2(3) by (simp add: queue_holds_def queue_inv_def)
  note h1 = q1(3) [unfolded queue_holds_def, simplified]
  note h2 = q2(3) [unfolded queue_holds_def, simplified]
  have "desc_ok (gmem g') q2 (fifo_msgs f')"
    using keeps
  proof
    assume "idle c2"
    then show ?thesis by (simp add: idle_def q2(1) desc_ok_def)
  next
    assume "fifo_cap f' = fifo_cap f \<and> fifo_pos f' = fifo_pos f \<and> (\<exists>ys. fifo_msgs f' = fifo_msgs f @ ys)"
    then obtain ys where ys: "fifo_cap f' = fifo_cap f" "fifo_pos f' = fifo_pos f" "fifo_msgs f' = fifo_msgs f @ ys"
      by blast
    have "desc_ok (gmem g') q2 (fifo_msgs f @ ys)"
      by (rule desc_ok_append [where m = "gmem g"]) (use h1 h2 ys(1,2) in \<open>simp_all add: base_ptr_cong [OF base]\<close>)
    then show ?thesis by (simp add: ys(3))
  qed
  moreover have "queue_inv (gmem g') q2 (fifo_msgs f')"
    using h1 cls by (simp add: queue_inv_def ring_state_cong [OF base] base_ptr_cong [OF base])
  ultimately have "queue_holds (penv P) (wld g', q2) f'"
    using h1 by (simp add: queue_holds_def base_ptr_cong [OF base])
  then show ?thesis
    using one two q1(1) q2(1,2) by (auto simp: served_def single_holds_def shared_get_memory_def)
qed

text \<open>A push leaves the queue object as it is.\<close>

lemma enq_idle:
  assumes srv: "served P a (c, g) f" and ne: "snd x \<noteq> []" and "idle c"
    and run: "conn_enq (single_bidirectional_connector P) x (c, g) = returns (b, c', g')"
  shows "idle c'"
proof -
  obtain q where q: "m_pqueue c = Some q" "queue_holds (penv P) (wld g, q) f" "single_holds P (c, g) f"
    by (rule served_cases [OF srv])
  have "on_queue (queue_enq (penv P) x) (c, g) = returns (b, c', g')"
    using run unfolding conn_is_queue(1) [OF q(3)] .
  then obtain w1 q1 where q1: "queue_enq (penv P) x (wld g, q) = returns (b, w1, q1)" "c' = c\<lparr>m_pqueue := Some q1\<rparr>"
    by (auto simp: on_queue_def with_queue_def q(1) and_then_eq_returns)
  have "queue_inv (gmem g) q (fifo_msgs f)" "env_ok (penv P)" using q(2) by (simp_all add: queue_holds_def)
  from push_returns [OF this ne, of "fst x"] q1(1) have "q1 = q" by (auto simp: queue_enq_def)
  then show ?thesis using assms(3) q(1) q1(2) by (simp add: idle_def)
qed

section \<open>Cells\<close>

text \<open>
  A cell of the shared list: the identifier, the object of the process that pushes, that of the
  process that reads when it has opened the segment, and the FIFO. The objects are the users of the
  segment.
\<close>

type_synonym 'h cell = "id_type \<times> 'h connector \<times> 'h connector option \<times> fifo"

abbreviation cell_fifo :: "'h cell \<Rightarrow> fifo" where
  "cell_fifo x \<equiv> snd (snd (snd x))"

abbreviation cell_reader :: "'h cell \<Rightarrow> 'h connector option" where
  "cell_reader x \<equiv> fst (snd (snd x))"

definition writer_entry :: "'h cell \<Rightarrow> 'h entry" where
  "writer_entry x = (fst x, fst (snd x), cell_fifo x)"

definition conn_users :: "'h connector \<Rightarrow> ('o, 'l, 'b) globals \<Rightarrow> u32" where
  "conn_users c g = users (sm_get (m_memory c)) (gmem g)"

definition cell_ok ::
  "('h, 'o, 'l, 'b) platform \<Rightarrow> ('o \<Rightarrow> string \<Rightarrow> (nat \<times> u64) option) \<Rightarrow> (id_type \<Rightarrow> string)
    \<Rightarrow> ('o, 'l, 'b) globals \<Rightarrow> 'h cell \<Rightarrow> bool" where
  "cell_ok P seg names g x \<longleftrightarrow> entry_ok P seg names g (writer_entry x) \<and> idle (fst (snd x))
     \<and> (case cell_reader x of
          None \<Rightarrow> conn_users (fst (snd x)) g = 1
        | Some c \<Rightarrow> entry_ok P seg names g (fst x, c, cell_fifo x) \<and> conn_users (fst (snd x)) g = 2)"

lemma writer_entry_simps [simp]:
  "fst (writer_entry x) = fst x" "entry_fifo (writer_entry x) = cell_fifo x"
  "fst (snd (writer_entry x)) = fst (snd x)" "writer_entry (i, c, ro, f) = (i, c, f)"
  by (simp_all add: writer_entry_def)

lemma entry_okD:
  assumes "entry_ok P seg names g (i, c, f)"
  obtains z where "served P (sm_get (m_memory c)) (c, g) f" "sm_name (m_memory c) = names i"
    "seg (sys g) (names i) = Some (sm_get (m_memory c), z)" "unat z = queue_ptr P 0 + 24 + fifo_cap f"
    "fifo_cap f < 4294967296" "conn_region P (sm_get (m_memory c)) f = seg_region (seg (sys g)) (names i)"
proof -
  obtain a z where o: "served P a (c, g) f" "sm_name (m_memory c) = names i"
    "seg (sys g) (names i) = Some (a, z)" "unat z = queue_ptr P 0 + 24 + fifo_cap f" "fifo_cap f < 4294967296"
    using assms by (auto simp: entry_ok_def)
  moreover have "sm_get (m_memory c) = a" by (rule served_place [OF o(1)])
  moreover have "conn_region P a f = seg_region (seg (sys g)) (names i)"
    by (rule entry_region [where T = "seg (sys g)" and n = "names i", OF o(3,4)])
  ultimately show thesis using that by simp
qed

lemma entry_okI:
  assumes "served P a (c, g) f" and "sm_name (m_memory c) = names i" and "seg (sys g) (names i) = Some (a, z)"
    and "unat z = queue_ptr P 0 + 24 + fifo_cap f" and "fifo_cap f < 4294967296"
  shows "entry_ok P seg names g (i, c, f)"
  using assms by (auto simp: entry_ok_def)

text \<open>Elsewhere.\<close>

lemma users_away:
  assumes "elsewhere S g g'" and "S \<inter> conn_region P a f = {}"
  shows "users a (gmem g') = users a (gmem g)"
proof -
  have "{a + 4..<a + 4 + 4} \<subseteq> conn_region P a f" by (auto simp: conn_region_def queue_ptr_def)
  then have "{a + 4..<a + 4 + 4} \<inter> S = {}" using assms(2) by blast
  then show ?thesis using elsewhere_load32 [OF assms(1), of "a + 4"] by (simp add: users_def)
qed

lemma cell_frame:
  assumes ok: "cell_ok P seg names g x" and e: "elsewhere S g g'"
    and same: "seg (sys g') (names (fst x)) = seg (sys g) (names (fst x))"
    and away: "S \<inter> seg_region (seg (sys g)) (names (fst x)) = {}"
  shows "cell_ok P seg names g' x"
proof -
  obtain i c ro f where x: "x = (i, c, ro, f)" by (cases x)
  have w: "entry_ok P seg names g (i, c, f)" using ok by (simp add: cell_ok_def x)
  obtain z where "conn_region P (sm_get (m_memory c)) f = seg_region (seg (sys g)) (names i)"
    by (rule entry_okD [OF w])
  then have "S \<inter> conn_region P (sm_get (m_memory c)) f = {}" using away by (simp add: x)
  then have "conn_users c g' = conn_users c g" unfolding conn_users_def by (rule users_away [OF e])
  moreover have "entry_ok P seg names g' (i, d, f)" if "entry_ok P seg names g (i, d, f)" for d
    using entry_frame [OF that e] same away by (simp add: x)
  ultimately show ?thesis using ok by (auto simp: cell_ok_def x split: option.splits)
qed

text \<open>An operation of one of the two.\<close>

lemma writer_op:
  assumes ok: "cell_ok P seg names g (i, c, ro, f)"
    and op: "stays_served P (sm_get (m_memory c)) f (c, g) f' (c', g')" and "idle c'"
    and f': "fifo_pos f' = fifo_pos f" "fifo_msgs f' = fifo_msgs f @ ys"
  shows "cell_ok P seg names g' (i, c', ro, f')"
proof -
  have w: "entry_ok P seg names g (i, c, f)" using ok by (simp add: cell_ok_def)
  obtain z where z: "sm_name (m_memory c) = names i" "seg (sys g) (names i) = Some (sm_get (m_memory c), z)"
    "unat z = queue_ptr P 0 + 24 + fifo_cap f" "fifo_cap f < 4294967296"
    by (rule entry_okD [OF w])
  note o = op [unfolded stays_served_def fst_conv snd_conv]
  have w': "entry_ok P seg names g' (i, c', f')"
    by (rule entry_okI [where z = z]) (use o z in simp_all)
  moreover have "conn_users c' g' = conn_users c g" using o by (simp add: conn_users_def)
  moreover have "entry_ok P seg names g' (i, cr, f')" if r: "entry_ok P seg names g (i, cr, f)" for cr
  proof -
    obtain z' where z': "served P (sm_get (m_memory cr)) (cr, g) f" "sm_name (m_memory cr) = names i"
      "seg (sys g) (names i) = Some (sm_get (m_memory cr), z')"
      by (rule entry_okD [OF r])
    have a: "sm_get (m_memory cr) = sm_get (m_memory c)" using z(2) z'(3) by simp
    have "served P (sm_get (m_memory c)) (cr, g') f'"
      by (rule served_twin [of _ _ c' _ _ _ g f]) (use o z'(1) f' in \<open>auto simp: a\<close>)
    then show ?thesis by (rule entry_okI [where z = z]) (use o z z'(2) in simp_all)
  qed
  ultimately show ?thesis using ok assms(3) by (auto simp: cell_ok_def split: option.splits)
qed

lemma reader_op:
  assumes ok: "cell_ok P seg names g (i, c, Some cr, f)"
    and op: "stays_served P (sm_get (m_memory cr)) f (cr, g) f' (cr', g')"
  shows "cell_ok P seg names g' (i, c, Some cr', f')"
proof -
  have w: "entry_ok P seg names g (i, c, f)" and r: "entry_ok P seg names g (i, cr, f)" and idle: "idle c"
    using ok by (simp_all add: cell_ok_def)
  obtain z where z: "served P (sm_get (m_memory c)) (c, g) f" "sm_name (m_memory c) = names i"
    "seg (sys g) (names i) = Some (sm_get (m_memory c), z)"
    "unat z = queue_ptr P 0 + 24 + fifo_cap f" "fifo_cap f < 4294967296"
    by (rule entry_okD [OF w])
  obtain z' where z': "sm_name (m_memory cr) = names i" "seg (sys g) (names i) = Some (sm_get (m_memory cr), z')"
    by (rule entry_okD [OF r])
  have a: "sm_get (m_memory cr) = sm_get (m_memory c)" using z(3) z'(2) by simp
  note o = op [unfolded stays_served_def fst_conv snd_conv a]
  have "entry_ok P seg names g' (i, cr', f')"
    by (rule entry_okI [where z = z]) (use o z z' in simp_all)
  moreover have "served P (sm_get (m_memory c)) (c, g') f'"
    by (rule served_twin [of _ _ cr' _ _ _ g f]) (use o z(1) idle in auto)
  then have "entry_ok P seg names g' (i, c, f')"
    by (rule entry_okI [where z = z]) (use o z in simp_all)
  moreover have "conn_users c g' = conn_users c g" using o by (simp add: conn_users_def)
  ultimately show ?thesis using ok by (simp add: cell_ok_def)
qed

section \<open>The segments around the cells\<close>

text \<open>
  What the operating system promises of addresses: \<open>taken\<close> are the addresses that have been given
  to a segment, and a new segment gets none of them. So a segment whose name is gone is left alone
  as long as somebody has it mapped.
\<close>

definition shm_unused ::
  "('h, 'o) shm_api \<Rightarrow> ('o \<Rightarrow> string \<Rightarrow> (nat \<times> u64) option) \<Rightarrow> ('o \<Rightarrow> bool) \<Rightarrow> ('o \<Rightarrow> nat set) \<Rightarrow> bool" where
  "shm_unused A seg valid taken \<longleftrightarrow> (\<forall>o1 n. valid o1 \<longrightarrow> seg_region (seg o1) n \<subseteq> taken o1
     \<and> taken o1 \<subseteq> taken (shm_remove A n o1)
     \<and> taken o1 \<subseteq> taken (snd (snd (sm_open A (new_shared_memory n) o1)))
     \<and> (\<forall>z m. taken o1 \<subseteq> taken (fst (snd (snd (sm_create A z (new_shared_memory n) (o1, m)))))
          \<and> (seg o1 n = None \<longrightarrow>
              seg_region (seg (fst (snd (snd (sm_create A z (new_shared_memory n) (o1, m)))))) n \<inter> taken o1 = {})))"

definition pair_basis ::
  "('h, 'o, 'l, 'b) platform \<Rightarrow> (id_type \<Rightarrow> string) \<Rightarrow> ('o \<Rightarrow> string \<Rightarrow> (nat \<times> u64) option)
    \<Rightarrow> ('o \<Rightarrow> 'h \<Rightarrow> string) \<Rightarrow> ('o \<Rightarrow> bool) \<Rightarrow> ('o \<Rightarrow> nat set) \<Rightarrow> bool" where
  "pair_basis P cast seg nm valid taken \<longleftrightarrow>
     bus_platform P cast seg nm valid \<and> shm_unused (papi P) seg valid taken"

text \<open>
  A connector that the process that pushes still has although the other one has removed it from the
  bus: its segment has no name any more and shares no address with one that has.
\<close>

definition entry_region_of :: "('h, 'o, 'l, 'b) platform \<Rightarrow> 'h entry \<Rightarrow> nat set" where
  "entry_region_of P e = conn_region P (sm_get (m_memory (fst (snd e)))) (entry_fifo e)"

definition gone_ok ::
  "('h, 'o, 'l, 'b) platform \<Rightarrow> ('o \<Rightarrow> string \<Rightarrow> (nat \<times> u64) option) \<Rightarrow> ('o \<Rightarrow> nat set) \<Rightarrow> (id_type \<Rightarrow> string)
    \<Rightarrow> ('o, 'l, 'b) globals \<Rightarrow> 'h entry \<Rightarrow> bool" where
  "gone_ok P seg taken names g e \<longleftrightarrow>
     served P (sm_get (m_memory (fst (snd e)))) (fst (snd e), g) (entry_fifo e)
     \<and> sm_name (m_memory (fst (snd e))) = names (fst e)
     \<and> entry_region_of P e \<subseteq> taken (sys g)
     \<and> (\<forall>n. entry_region_of P e \<inter> seg_region (seg (sys g)) n = {})"

definition pair_env ::
  "('h, 'o, 'l, 'b) platform \<Rightarrow> (id_type \<Rightarrow> string) \<Rightarrow> ('o \<Rightarrow> string \<Rightarrow> (nat \<times> u64) option) \<Rightarrow> ('o \<Rightarrow> bool)
    \<Rightarrow> ('o \<Rightarrow> nat set) \<Rightarrow> 'h bus \<Rightarrow> ('o, 'l, 'b) globals \<Rightarrow> 'h cell list \<Rightarrow> 'h entry list \<Rightarrow> bool" where
  "pair_env P cast seg valid taken b g xs st \<longleftrightarrow>
     surroundings P cast seg valid b g (map writer_entry xs)
     \<and> (\<forall>x \<in> set xs. cell_ok P seg (names_of cast b) g x)
     \<and> (\<forall>e \<in> set st. gone_ok P seg taken (names_of cast b) g e)
     \<and> (\<forall>e \<in> set st. \<forall>e' \<in> set st. fst e \<noteq> fst e' \<longrightarrow> entry_region_of P e \<inter> entry_region_of P e' = {})
     \<and> distinct (map fst xs @ map fst st)"

lemma status_memory [simp]: "shared_bus_get_memory (b\<lparr>m_status := us\<rparr>) = shared_bus_get_memory b"
  by (simp add: shared_bus_get_memory_def)

lemma pair_env_update [simp]:
  "pair_env P cast seg valid taken (b\<lparr>m_controlblock := cb\<rparr>) g xs st = pair_env P cast seg valid taken b g xs st"
  "pair_env P cast seg valid taken (b\<lparr>m_pconnectors := cs\<rparr>) g xs st = pair_env P cast seg valid taken b g xs st"
  "pair_env P cast seg valid taken (b\<lparr>m_status := us\<rparr>) g xs st = pair_env P cast seg valid taken b g xs st"
  by (simp_all add: pair_env_def) (simp add: surroundings_def)

lemma pair_bus: "pair_basis P cast seg nm valid taken \<Longrightarrow> bus_platform P cast seg nm valid"
  by (simp add: pair_basis_def)

text \<open>Each call runs by itself.\<close>

definition pair_platform ::
  "('h, 'o, 'l, 'b) platform \<Rightarrow> (id_type \<Rightarrow> string) \<Rightarrow> ('o \<Rightarrow> string \<Rightarrow> (nat \<times> u64) option)
    \<Rightarrow> ('o \<Rightarrow> 'h \<Rightarrow> string) \<Rightarrow> ('o \<Rightarrow> bool) \<Rightarrow> ('o \<Rightarrow> nat set) \<Rightarrow> bool" where
  "pair_platform P cast seg nm valid taken \<longleftrightarrow>
     lone_platform P cast seg nm valid \<and> shm_unused (papi P) seg valid taken"

lemma pair_lone:
  assumes "pair_platform P cast seg nm valid taken"
  shows "lone_platform P cast seg nm valid" "pair_basis P cast seg nm valid taken"
  using assms by (simp_all add: pair_platform_def pair_basis_def lone_bus)

lemma env_facts:
  assumes "pair_env P cast seg valid taken b g xs st"
  shows "surroundings P cast seg valid b g (map writer_entry xs)" "valid (sys g)" "distinct (map fst xs)"
    "x \<in> set xs \<Longrightarrow> cell_ok P seg (names_of cast b) g x"
    "i \<notin> fst ` set xs \<Longrightarrow> seg (sys g) (names_of cast b i) = None"
proof -
  show sur: "surroundings P cast seg valid b g (map writer_entry xs)" using assms by (simp add: pair_env_def)
  then show "valid (sys g)" by (simp add: surroundings_def)
  show "distinct (map fst xs)" "x \<in> set xs \<Longrightarrow> cell_ok P seg (names_of cast b) g x"
    using assms by (simp_all add: pair_env_def)
  show "i \<notin> fst ` set xs \<Longrightarrow> seg (sys g) (names_of cast b i) = None"
    using sur by (simp add: surroundings_def image_image)
qed

lemma env_body_place:
  assumes "pair_env P cast seg valid taken b g xs st"
  obtains z where "seg (sys g) (b_name b) = Some (shared_bus_get_memory b, z)" "32 \<le> unat z"
  using assms by (auto simp: pair_env_def surroundings_def)

lemma gone_frame:
  assumes ok: "gone_ok P seg taken names g e" and e: "elsewhere S g g'" and away: "S \<inter> entry_region_of P e = {}"
    and "taken (sys g) \<subseteq> taken (sys g')" and "\<And>n. entry_region_of P e \<inter> seg_region (seg (sys g')) n = {}"
  shows "gone_ok P seg taken names g' e"
  using ok served_elsewhere [OF _ e] away assms(4,5) unfolding gone_ok_def entry_region_of_def by blast

lemma writer_ids [simp]: "map fst (map writer_entry xs) = map fst xs" "fst ` set (map writer_entry xs) = fst ` set xs"
  by (simp_all add: comp_def image_image)

lemma surroundings_cells:
  assumes sur: "surroundings P cast seg valid b g (map writer_entry xs)" and "valid (sys g')"
    and "seg (sys g') = seg (sys g)" and ok: "\<forall>x \<in> set ys. cell_ok P seg (names_of cast b) g' x"
    and ids: "map fst ys = map fst xs"
  shows "surroundings P cast seg valid b g' (map writer_entry ys)"
proof -
  have "\<forall>e \<in> set (map writer_entry ys). entry_ok P seg (names_of cast b) g' e"
    using ok by (simp add: cell_ok_def)
  moreover have "fst ` set ys = fst ` set xs" using ids by (metis set_map)
  ultimately show ?thesis
    using sur assms(2,3) ids unfolding surroundings_def writer_ids by metis
qed

text \<open>A change away from all cells, and from what is gone.\<close>

lemma env_frame:
  assumes env: "pair_env P cast seg valid taken b g xs st" and e: "elsewhere S g g'"
    and cells: "\<And>x. x \<in> set xs \<Longrightarrow> S \<inter> seg_region (seg (sys g)) (names_of cast b (fst x)) = {}"
    and gone: "\<And>y. y \<in> set st \<Longrightarrow> S \<inter> entry_region_of P y = {}"
    and sys: "seg (sys g') = seg (sys g)" "valid (sys g')" "taken (sys g) \<subseteq> taken (sys g')"
  shows "pair_env P cast seg valid taken b g' xs st"
proof -
  note env1 = env [unfolded pair_env_def]
  have "cell_ok P seg (names_of cast b) g' x" if x: "x \<in> set xs" for x
    by (rule cell_frame [OF env_facts(4) [OF env x] e _ cells [OF x]]) (simp add: sys(1))
  moreover have "gone_ok P seg taken (names_of cast b) g' x" if x: "x \<in> set st" for x
  proof (rule gone_frame [OF _ e gone [OF x] sys(3)])
    show "gone_ok P seg taken (names_of cast b) g x" using env1 x by blast
    then show "\<And>n. entry_region_of P x \<inter> seg_region (seg (sys g')) n = {}" by (simp add: gone_ok_def sys(1))
  qed
  ultimately show ?thesis
    using env1 surroundings_cells [where valid = valid and seg = seg, OF _ sys(2,1) _ refl] unfolding pair_env_def by blast
qed

lemma gone_away:
  assumes "pair_env P cast seg valid taken b g xs st" and "e \<in> set st"
  shows "entry_region_of P e \<inter> seg_region (seg (sys g)) n = {}"
  using assms by (simp add: pair_env_def gone_ok_def)

lemma env_cell:
  assumes plat: "pair_basis P cast seg nm valid taken" and env: "pair_env P cast seg valid taken b g (xs @ x # ys) st"
    and e: "elsewhere (seg_region (seg (sys g)) (names_of cast b (fst x))) g g'"
    and ok: "cell_ok P seg (names_of cast b) g' x'" "fst x' = fst x"
    and sys: "seg (sys g') = seg (sys g)" "valid (sys g')" "taken (sys g) \<subseteq> taken (sys g')"
  shows "pair_env P cast seg valid taken b g' (xs @ x' # ys) st"
    "load_spec (gmem g') (shared_bus_get_memory b) = load_spec (gmem g) (shared_bus_get_memory b)"
    "load_cb (gmem g') (shared_bus_get_memory b) = load_cb (gmem g) (shared_bus_get_memory b)"
proof -
  let ?N = "names_of cast b" and ?S = "seg_region (seg (sys g)) (names_of cast b (fst x))"
  note lone = pair_bus [OF plat] and env1 = env [unfolded pair_env_def]
  have val: "valid (sys g)" by (rule env_facts(2) [OF env])
  have cells: "cell_ok P seg ?N g' y" if y: "y \<in> set (xs @ ys)" for y
  proof (rule cell_frame [OF env_facts(4) [OF env] e])
    show "y \<in> set (xs @ x # ys)" using y by auto
    have "fst y \<in> fst ` set (xs @ ys)" using y by (rule imageI)
    moreover have "fst x \<notin> fst ` set (xs @ ys)" using env_facts(3) [OF env] by (simp add: image_Un)
    ultimately have "fst y \<noteq> fst x" by metis
    then show "?S \<inter> seg_region (seg (sys g)) (?N (fst y)) = {}"
      by (intro bus_apart [OF lone val]) (simp add: bus_names [OF lone])
  qed (simp add: sys(1))
  then have all: "\<forall>y \<in> set (xs @ x' # ys). cell_ok P seg ?N g' y" using ok by simp
  have gone: "gone_ok P seg taken ?N g' y" if y: "y \<in> set st" for y
  proof (rule gone_frame [OF _ e _ sys(3)])
    show "gone_ok P seg taken ?N g y" using env1 y by blast
    then have away: "\<And>n. entry_region_of P y \<inter> seg_region (seg (sys g)) n = {}" by (simp add: gone_ok_def)
    then show "?S \<inter> entry_region_of P y = {}" "\<And>n. entry_region_of P y \<inter> seg_region (seg (sys g')) n = {}"
      using sys(1) by (blast, simp)
  qed
  have ids: "map fst (xs @ x' # ys) = map fst (xs @ x # ys)" by (simp add: ok(2))
  have sur: "surroundings P cast seg valid b g' (map writer_entry (xs @ x' # ys))"
    by (rule surroundings_cells [OF env_facts(1) [OF env] sys(2,1) all ids])
  have "distinct (map fst (xs @ x' # ys) @ map fst st)" unfolding ids using env1 by blast
  then show "pair_env P cast seg valid taken b g' (xs @ x' # ys) st"
    using env1 sur all gone unfolding pair_env_def by blast
  obtain z where there: "seg (sys g) (b_name b) = Some (shared_bus_get_memory b, z)" "32 \<le> unat z"
    by (rule env_body_place [OF env])
  have "?S \<inter> seg_region (seg (sys g)) (b_name b) = {}"
    by (rule bus_apart [OF lone val]) (simp add: bus_names [OF lone])
  from body_frame [where T = "seg (sys g)" and n = "b_name b", OF e there this]
  show "load_spec (gmem g') (shared_bus_get_memory b) = load_spec (gmem g) (shared_bus_get_memory b)"
    "load_cb (gmem g') (shared_bus_get_memory b) = load_cb (gmem g) (shared_bus_get_memory b)" by blast+
qed

lemma env_sys:
  assumes "pair_env P cast seg valid taken b g xs st" and "elsewhere {} g g'"
    and "seg (sys g') = seg (sys g)" "valid (sys g')" "taken (sys g) \<subseteq> taken (sys g')"
  shows "pair_env P cast seg valid taken b g' xs st"
  by (rule env_frame [OF assms(1,2) _ _ assms(3-5)]) simp_all

lemma env_body:
  assumes plat: "pair_basis P cast seg nm valid taken" and env: "pair_env P cast seg valid taken b g xs st"
  shows "pair_env P cast seg valid taken b (mapmem (store_cb (shared_bus_get_memory b) cb) g) xs st"
proof (rule env_frame [OF env])
  let ?a = "shared_bus_get_memory b"
  note lone = pair_bus [OF plat]
  show "elsewhere {?a..<?a + 32} g (mapmem (store_cb ?a cb) g)" by (simp add: elsewhere_def store_cb_changes)
  obtain z where "seg (sys g) (b_name b) = Some (?a, z)" "32 \<le> unat z" by (rule env_body_place [OF env])
  then have inside: "{?a..<?a + 32} \<subseteq> seg_region (seg (sys g)) (b_name b)" by (auto simp: seg_region_def)
  show "{?a..<?a + 32} \<inter> seg_region (seg (sys g)) (names_of cast b (fst x)) = {}" for x :: "'a cell"
    using inside bus_apart [OF lone env_facts(2) [OF env], of "b_name b" "names_of cast b (fst x)"]
    by (auto simp: bus_names [OF lone])
  show "y \<in> set st \<Longrightarrow> {?a..<?a + 32} \<inter> entry_region_of P y = {}" for y
    using inside gone_away [OF env] by blast
qed (use env_facts(2) [OF env] in simp_all)

lemma simple_open_idle: "fst (m_message_desc (simple_open ptr)) = []"
  by (simp add: simple_open_def fresh_object_def null_desc_def)

text \<open>What opening a missing segment does to the globals.\<close>

lemma failed_opening:
  fixes P :: "('h, 'o, 'l, 'b) platform"
  assumes plat: "pair_basis P cast seg nm valid taken" and val: "valid (sys g)" and none: "seg (sys g) n = None"
  shows "seg (sys (opening_failed P n g)) = seg (sys g)" "valid (sys (opening_failed P n g))"
    "taken (sys g) \<subseteq> taken (sys (opening_failed P n g))"
proof -
  have lone: "shm_spec (papi P) seg nm" "shm_apart (papi P) seg valid" "shm_unused (papi P) seg valid taken"
    using plat by (simp_all add: pair_basis_def bus_platform_def)
  show "seg (sys (opening_failed P n g)) = seg (sys g)"
    using open_missing(2) [where P = P, OF lone(1) none] by (simp add: opening_failed_def)
  show "valid (sys (opening_failed P n g))" using lone(2) val by (simp add: shm_apart_def opening_failed_def)
  show "taken (sys g) \<subseteq> taken (sys (opening_failed P n g))"
    using lone(3) val by (simp add: shm_unused_def opening_failed_def)
qed

text \<open>Removing a name that is not there.\<close>

lemma removed_missing:
  assumes plat: "pair_basis P cast seg nm valid taken" and val: "valid o1"
  shows "seg (shm_remove (papi P) n o1) = (seg o1)(n := None)" "valid (shm_remove (papi P) n o1)"
    "taken o1 \<subseteq> taken (shm_remove (papi P) n o1)"
  using plat val by (simp_all add: pair_basis_def bus_platform_def shm_spec_def shm_apart_def shm_unused_def)

lemma env_new:
  fixes P :: "('h, 'o, 'l, 'b) platform"
  assumes plat: "pair_basis P cast seg nm valid taken" and env: "pair_env P cast seg valid taken b g xs st"
    and fresh: "i \<notin> fst ` set xs" "i \<notin> fst ` set st"
    and made: "segment_made P seg (names_of cast b i) (opening_failed P (names_of cast b i) g) g' c"
    and sur: "surroundings P cast seg valid b g' ((i, c, f) # map writer_entry xs)"
  shows "pair_env P cast seg valid taken b g' ((i, c, None, f) # xs) st"
proof -
  let ?N = "names_of cast b" and ?g1 = "opening_failed P (names_of cast b i) g"
  note lone = pair_bus [OF plat] and env1 = env [unfolded pair_env_def]
  have val: "valid (sys g)" "valid (sys g')" using env_facts(2) [OF env] sur by (simp_all add: surroundings_def)
  have none: "seg (sys g) (?N i) = None" using env_facts(5) [OF env fresh(1)] .
  note opened = failed_opening [OF plat val(1) none]
  obtain a z m where m: "seg (sys g') = (seg (sys ?g1))(?N i \<mapsto> (a, z))" "elsewhere {a..<a + unat z} ?g1 g'"
    "sys g' = fst (snd (snd (sm_create (papi P) z (new_shared_memory (?N i) :: 'h shared_memory) (sys ?g1, m))))"
    "users a (gmem g') = 1" "sm_get (m_memory c) = a" "m_pqueue c = Some (simple_open (queue_ptr P a))"
    using made unfolding segment_made_def by blast
  have new: "seg_region (seg (sys g')) (?N i) = {a..<a + unat z}" by (simp add: seg_region_def m(1))
  have "shm_unused (papi P) seg valid taken" using plat by (simp add: pair_basis_def)
  then have away: "taken (sys ?g1) \<subseteq> taken (sys g')" "{a..<a + unat z} \<inter> taken (sys ?g1) = {}"
    using opened none new unfolding shm_unused_def m(3) by (metis, metis)
  have e: "elsewhere {a..<a + unat z} g g'" using m(2) by (simp add: elsewhere_def)
  have regions: "seg_region (seg (sys g')) n = seg_region (seg (sys g)) n" if "n \<noteq> ?N i" for n
    using that by (simp add: seg_region_def m(1) opened(1))
  have "cell_ok P seg ?N g' x" if x: "x \<in> set xs" for x
  proof (rule cell_frame [OF env_facts(4) [OF env x] e])
    have ne: "?N (fst x) \<noteq> ?N i" using fresh(1) x by (auto simp: bus_names [OF lone])
    then show "seg (sys g') (?N (fst x)) = seg (sys g) (?N (fst x))" by (simp add: m(1) opened(1))
    show "{a..<a + unat z} \<inter> seg_region (seg (sys g)) (?N (fst x)) = {}"
      using bus_apart [OF lone val(2), of "?N i" "?N (fst x)"] ne new regions [OF ne] by simp
  qed
  moreover have "cell_ok P seg ?N g' (i, c, None, f)"
    using sur m(4-6) by (simp add: cell_ok_def surroundings_def idle_def simple_open_idle conn_users_def)
  moreover have "gone_ok P seg taken ?N g' y" if y: "y \<in> set st" for y
  proof (rule gone_frame [OF _ e])
    show old: "gone_ok P seg taken ?N g y" using env1 y by blast
    then have inside: "entry_region_of P y \<subseteq> taken (sys ?g1)" using opened(3) by (auto simp: gone_ok_def)
    then show "{a..<a + unat z} \<inter> entry_region_of P y = {}" using away(2) by blast
    show "taken (sys g) \<subseteq> taken (sys g')" using opened(3) away(1) by blast
    show "entry_region_of P y \<inter> seg_region (seg (sys g')) n = {}" for n
    proof (cases "n = ?N i")
      case True
      then show ?thesis using inside away(2) new by blast
    next
      case False
      then show ?thesis using old regions [OF False] by (simp add: gone_ok_def)
    qed
  qed
  ultimately show ?thesis using env1 sur fresh unfolding pair_env_def by simp
qed

text \<open>The reader opens a cell.\<close>

lemma open_parent:
  "safe_open P Simple_queue C parent s = safe_open P Simple_queue C None s"
proof -
  have "attach_queue P Simple_queue ptr parent s = attach_queue P Simple_queue ptr None s" for ptr s
    by (simp add: attach_queue_def open_queue_def)
  then show ?thesis by (simp only: safe_open_def)
qed

lemma cell_opened:
  fixes P :: "('h, 'o, 'l, 'b) platform"
  assumes plat: "pair_basis P cast seg nm valid taken"
    and env: "pair_env P cast seg valid taken b g (xs @ (i, c, None, f) # ys) st"
  shows "\<exists>cr g'. connector_open (single_bidirectional_connector P) parent (new_connector (names_of cast b i) CON_BIDIR, g)
      = returns (True, cr, g')
    \<and> pair_env P cast seg valid taken b g' (xs @ (i, c, Some cr, f) # ys) st
    \<and> load_spec (gmem g') (shared_bus_get_memory b) = load_spec (gmem g) (shared_bus_get_memory b)
    \<and> load_cb (gmem g') (shared_bus_get_memory b) = load_cb (gmem g) (shared_bus_get_memory b)"
proof -
  let ?N = "names_of cast b" and ?a = "sm_get (m_memory c)"
  have lone: "shm_spec (papi P) seg nm" "shm_apart (papi P) seg valid" "atomic_spec (atomics (penv P))"
    "spinners P 0 LS_LOCKED = LS_LOCKED" "shm_unused (papi P) seg valid taken"
    using plat by (simp_all add: pair_basis_def bus_platform_def env_ok_def)
  have ok: "cell_ok P seg ?N g (i, c, None, f)" using env_facts(4) [OF env] by simp
  then have w: "entry_ok P seg ?N g (i, c, f)" and idle: "idle c" and one: "users ?a (gmem g) = 1"
    by (simp_all add: cell_ok_def conn_users_def)
  obtain z where z: "served P ?a (c, g) f" "sm_name (m_memory c) = ?N i" "seg (sys g) (?N i) = Some (?a, z)"
    "unat z = queue_ptr P 0 + 24 + fifo_cap f" "fifo_cap f < 4294967296"
    "conn_region P ?a f = seg_region (seg (sys g)) (?N i)"
    by (rule entry_okD [OF w])
  obtain c1 o1 where c1: "safe_open P Simple_queue (simple_connector P Simple_queue) None
        (new_connector (?N i) CON_BIDIR, g)
      = returns (True, c1, mapmem (\<lambda>m. store32 (set_users ?a (users ?a m + 1) m) ?a LS_UNLOCKED) (g\<lparr>sys := o1\<rparr>))"
    "seg o1 = seg (sys g)" "c_type c1 = CON_BIDIR" "m_plocker c1 = Some (?a + 8)"
    "m_pqueue c1 = Some (simple_open (queue_ptr P ?a))" "sm_get (m_memory c1) = ?a" "sm_name (m_memory c1) = ?N i"
    "o1 = snd (snd (sm_open (papi P) (new_shared_memory (?N i) :: 'h shared_memory) (sys g)))"
    using safe_open_served [OF lone(1) z(1) lone(3,4), of "?N i" z] z(3) by auto
  let ?cr = "c1\<lparr>m_opened := True\<rparr>"
  define g' where "g' = mapmem (\<lambda>m. store32 (set_users ?a (users ?a m + 1) m) ?a LS_UNLOCKED) (g\<lparr>sys := o1\<rparr>)"
  have run: "connector_open (single_bidirectional_connector P) parent (new_connector (?N i) CON_BIDIR, g)
      = returns (True, ?cr, g')"
    by (simp add: connector_open_def single_create_field open_parent [where parent = parent] c1(1) g'_def)
  have room: "users ?a (gmem (snd (c, g))) \<noteq> - 1" by (simp add: one)
  have "g' = mapmem (\<lambda>m. store32 (set_users ?a (users ?a m + 1) m) ?a LS_UNLOCKED) ((snd (c, g))\<lparr>sys := o1\<rparr>)"
    by (simp add: g'_def)
  note after = served_after [OF z(1) room this]
  have sys: "sys g' = o1" "valid (sys g')" "taken (sys g) \<subseteq> taken (sys g')"
    using env_facts(2) [OF env] lone(2,5) by (simp_all add: g'_def c1(8) shm_apart_def shm_unused_def)
  have "entry_ok P seg ?N g' (i, ?cr, f)"
    by (rule entry_okI [where a = ?a and z = z]) (use after(2) [of ?cr] c1 z sys in simp_all)
  moreover have "entry_ok P seg ?N g' (i, c, f)"
    by (rule entry_okI [where a = ?a and z = z]) (use after(1) c1 z sys in simp_all)
  ultimately have cell: "cell_ok P seg ?N g' (i, c, Some ?cr, f)"
    using after(3) idle by (simp add: cell_ok_def conn_users_def one)
  have "{?a..<?a + 8} \<subseteq> conn_region P ?a f" by (auto simp: conn_region_def queue_ptr_def)
  moreover have "elsewhere {?a..<?a + 8} g g'" by (simp add: elsewhere_def g'_def header_writes)
  ultimately have "elsewhere (seg_region (seg (sys g)) (?N i)) g g'" using elsewhere_mono z(6) by metis
  note kept = env_cell [OF plat env, of g' "(i, c, Some ?cr, f)", simplified, OF this cell _ sys(2,3)]
  show ?thesis using run kept c1(2) sys(1) by blast
qed

text \<open>The reader removes the last cell: its segment is gone for all but the other process.\<close>

lemma served_left:
  assumes srv: "served P a (c, g) f" and e: "elsewhere {a..<a + 8} g g'" and "lockers g' = lockers g"
    and "load32 (gmem g') a = LS_UNLOCKED" and "0 < users a (gmem g')"
  shows "served P a (c, g') f"
proof -
  obtain q where q: "m_pqueue c = Some q" "base_ptr q = queue_ptr P a" "queue_holds (penv P) (wld g, q) f"
    by (rule served_cases [OF srv])
  have "queue_holds (penv P) (wld g', q) f"
    by (rule away_from_queue [OF q(3,2)]) (use e in \<open>simp add: elsewhere_def\<close>)
  then show ?thesis
    using srv q(1) assms(3-5) by (auto simp: served_def single_holds_def shared_get_memory_def)
qed

lemma head_inside: "{a..<a + 8} \<subseteq> conn_region P a f"
  by (auto simp: conn_region_def queue_ptr_def)

lemma cell_dropped:
  fixes P :: "('h, 'o, 'l, 'b) platform"
  assumes plat: "pair_basis P cast seg nm valid taken"
    and env: "pair_env P cast seg valid taken b g (xs @ [(i, c, Some cr, f)]) st"
  shows "\<exists>cr' g'. v_destroy (single_bidirectional_connector P) (cr, g) = returns (cr', g')
    \<and> pair_env P cast seg valid taken b g' xs ((i, c, f) # st)
    \<and> load_spec (gmem g') (shared_bus_get_memory b) = load_spec (gmem g) (shared_bus_get_memory b)
    \<and> load_cb (gmem g') (shared_bus_get_memory b) = load_cb (gmem g) (shared_bus_get_memory b)"
proof -
  let ?N = "names_of cast b" and ?a = "sm_get (m_memory c)"
  note lone = pair_bus [OF plat] and env1 = env [unfolded pair_env_def]
  have val: "valid (sys g)" by (rule env_facts(2) [OF env])
  have quiet: "spinners P 0 LS_LOCKED = LS_LOCKED" and un: "shm_unused (papi P) seg valid taken"
    using plat by (simp_all add: pair_basis_def bus_platform_def)
  have ok: "cell_ok P seg ?N g (i, c, Some cr, f)" using env_facts(4) [OF env] by simp
  then have w: "entry_ok P seg ?N g (i, c, f)" and r: "entry_ok P seg ?N g (i, cr, f)" and two: "users ?a (gmem g) = 2"
    by (simp_all add: cell_ok_def conn_users_def)
  obtain z where z: "served P ?a (c, g) f" "sm_name (m_memory c) = ?N i" "seg (sys g) (?N i) = Some (?a, z)"
    "conn_region P ?a f = seg_region (seg (sys g)) (?N i)"
    by (rule entry_okD [OF w])
  obtain z' where z': "served P (sm_get (m_memory cr)) (cr, g) f" "sm_name (m_memory cr) = ?N i"
    "seg (sys g) (?N i) = Some (sm_get (m_memory cr), z')"
    by (rule entry_okD [OF r])
  have a: "sm_get (m_memory cr) = ?a" using z(3) z'(3) by simp
  obtain cr' g' where d: "v_destroy (single_bidirectional_connector P) (cr, g) = returns (cr', g')"
    "elsewhere {?a..<?a + 8} g g'" "sys g' = shm_remove (papi P) (?N i) (sys g)"
    "lockers g' = lockers g" "load32 (gmem g') ?a = LS_UNLOCKED" "users ?a (gmem g') = users ?a (gmem g) - 1"
    using served_destroy [OF z'(1) quiet] z'(2) by (auto simp: a sm_destroy_def sm_remove_def)
  note gone = removed_missing [OF plat val, of "?N i", folded d(3)]
  have region: "entry_region_of P (i, c, f) = seg_region (seg (sys g)) (?N i)"
    using z(4) by (simp add: entry_region_of_def)
  have named: "seg_region (seg (sys g')) n = (if n = ?N i then {} else seg_region (seg (sys g)) n)" for n
    by (simp add: seg_region_def gone(1))
  have disj: "seg_region (seg (sys g)) (?N i) \<inter> seg_region (seg (sys g')) n = {}" for n
    unfolding named using bus_apart [OF lone val, of "?N i" n] by simp
  have sub: "{?a..<?a + 8} \<subseteq> seg_region (seg (sys g)) (?N i)" using head_inside [of ?a P f] z(4) by blast
  have "served P ?a (c, g') f" by (rule served_left [OF z(1) d(2,4,5)]) (simp add: d(6) two)
  moreover have "seg_region (seg (sys g)) (?N i) \<subseteq> taken (sys g')"
    using un val gone(3) unfolding shm_unused_def by blast
  ultimately have new: "gone_ok P seg taken ?N g' (i, c, f)"
    using z(2) disj by (simp add: gone_ok_def region)
  have "cell_ok P seg ?N g' x" if x: "x \<in> set xs" for x
  proof (rule cell_frame [OF _ d(2)])
    show "cell_ok P seg ?N g x" using env_facts(4) [OF env] x by simp
    have "fst x \<in> fst ` set xs" using x by (rule imageI)
    then have ne: "?N (fst x) \<noteq> ?N i" using env_facts(3) [OF env] by (auto simp: bus_names [OF lone])
    then show "seg (sys g') (?N (fst x)) = seg (sys g) (?N (fst x))" by (simp add: gone(1))
    show "{?a..<?a + 8} \<inter> seg_region (seg (sys g)) (?N (fst x)) = {}"
      using bus_apart [OF lone val, of "?N i" "?N (fst x)"] ne sub by auto
  qed
  then have cells: "\<forall>x \<in> set xs. cell_ok P seg ?N g' x" by blast
  have old: "gone_ok P seg taken ?N g' y" "entry_region_of P y \<inter> seg_region (seg (sys g)) (?N i) = {}" if y: "y \<in> set st" for y
  proof -
    show away: "entry_region_of P y \<inter> seg_region (seg (sys g)) (?N i) = {}" by (rule gone_away [OF env y])
    show "gone_ok P seg taken ?N g' y"
    proof (rule gone_frame [OF _ d(2) _ gone(3)])
      show "gone_ok P seg taken ?N g y" using env1 y by blast
      show "{?a..<?a + 8} \<inter> entry_region_of P y = {}" using away sub by blast
      show "entry_region_of P y \<inter> seg_region (seg (sys g')) n = {}" for n
        unfolding named using gone_away [OF env y] by simp
    qed
  qed
  have sur: "surroundings P cast seg valid b g' (map writer_entry xs)"
  proof -
    have "\<forall>e \<in> set (map writer_entry xs). entry_ok P seg ?N g' e" using cells by (simp add: cell_ok_def)
    then show ?thesis
      using env_facts(1) [OF env] gone(1,2) unfolding surroundings_def by (auto simp: bus_names [OF lone] image_image)
  qed
  have "pair_env P cast seg valid taken b g' xs ((i, c, f) # st)"
    using env1 sur cells new old region unfolding pair_env_def by (auto simp: Int_commute)
  moreover obtain z0 where there: "seg (sys g) (b_name b) = Some (shared_bus_get_memory b, z0)" "32 \<le> unat z0"
    by (rule env_body_place [OF env])
  have "{?a..<?a + 8} \<inter> seg_region (seg (sys g)) (b_name b) = {}"
    using bus_apart [OF lone val, of "?N i" "b_name b"] sub by (auto simp: bus_names [OF lone])
  note body_frame [where T = "seg (sys g)" and n = "b_name b", OF d(2) there this]
  ultimately show ?thesis using d(1) by blast
qed

text \<open>The process that pushes removes its last connector after the other one.\<close>

lemma gone_forgotten:
  fixes P :: "('h, 'o, 'l, 'b) platform"
  assumes plat: "pair_basis P cast seg nm valid taken"
    and env: "pair_env P cast seg valid taken b g xs (st @ [e])"
  shows "\<exists>c' g'. v_destroy (single_bidirectional_connector P) (fst (snd e), g) = returns (c', g')
    \<and> pair_env P cast seg valid taken b g' xs st
    \<and> load_spec (gmem g') (shared_bus_get_memory b) = load_spec (gmem g) (shared_bus_get_memory b)
    \<and> load_cb (gmem g') (shared_bus_get_memory b) = load_cb (gmem g) (shared_bus_get_memory b)"
proof -
  let ?N = "names_of cast b" and ?a = "sm_get (m_memory (fst (snd e)))"
  note env1 = env [unfolded pair_env_def]
  have val: "valid (sys g)" by (rule env_facts(2) [OF env])
  have quiet: "spinners P 0 LS_LOCKED = LS_LOCKED" using plat by (simp add: pair_basis_def bus_platform_def)
  have ok: "served P ?a (fst (snd e), g) (entry_fifo e)" "sm_name (m_memory (fst (snd e))) = ?N (fst e)"
    using env1 by (simp_all add: gone_ok_def)
  obtain c' g' where d: "v_destroy (single_bidirectional_connector P) (fst (snd e), g) = returns (c', g')"
    "elsewhere {?a..<?a + 8} g g'" "sys g' = shm_remove (papi P) (?N (fst e)) (sys g)"
    using served_destroy [OF ok(1) quiet] ok(2) by (auto simp: sm_destroy_def sm_remove_def)
  note gone = removed_missing [OF plat val, of "?N (fst e)", folded d(3)]
  have "fst e \<notin> fst ` set xs" using env1 by auto
  then have same: "seg (sys g') = seg (sys g)" using env_facts(5) [OF env] by (simp add: gone(1) fun_upd_idem)
  have sub: "{?a..<?a + 8} \<subseteq> entry_region_of P e" by (simp add: entry_region_of_def head_inside)
  have named: "{?a..<?a + 8} \<inter> seg_region (seg (sys g)) n = {}" for n
    using gone_away [OF env, of e n] sub by auto
  have env0: "pair_env P cast seg valid taken b g xs st" using env1 unfolding pair_env_def by auto
  have "pair_env P cast seg valid taken b g' xs st"
  proof (rule env_frame [OF env0 d(2) named _ same gone(2,3)])
    fix y assume y: "y \<in> set st"
    have "fst y \<in> fst ` set st" using y by (rule imageI)
    moreover have "fst e \<notin> fst ` set st" using env1 by simp
    ultimately have "fst e \<noteq> fst y" by metis
    then have "entry_region_of P e \<inter> entry_region_of P y = {}" using env1 y by auto
    then show "{?a..<?a + 8} \<inter> entry_region_of P y = {}" using sub by blast
  qed
  moreover obtain z0 where there: "seg (sys g) (b_name b) = Some (shared_bus_get_memory b, z0)" "32 \<le> unat z0"
    by (rule env_body_place [OF env])
  note body_frame [where T = "seg (sys g)" and n = "b_name b", OF d(2) there named]
  ultimately show ?thesis using d(1) by blast
qed

end
