(* ===== verification/Bus_Pair.thy ===== *)
theory Bus_Pair
  imports Bus_Cells
begin

text \<open>
  A bus of single connectors that two processes use: one creates it and pushes, the other opens it,
  gets and pops. Their calls are interleaved in any order; each call runs by itself. The process
  that pushes adds connectors, which the other one follows when it finds its last connector
  empty; the latter removes connectors, which the former follows one by one.
\<close>

section \<open>Identifiers\<close>

text \<open>
  Connectors grow from one to the next, so that their number stays below their capacities: the
  identifiers do not wrap, and can be taken for natural numbers.
\<close>

definition id_range :: "nat \<Rightarrow> nat \<Rightarrow> id_type list" where
  "id_range lo hi = map of_nat (rev [lo..<hi])"

lemma id_range_simps [simp]:
  "id_range n n = []" "lo \<le> hi \<Longrightarrow> id_range lo (Suc hi) = of_nat hi # id_range lo hi"
  "length (id_range lo hi) = hi - lo"
  by (simp_all add: id_range_def)

lemma id_range_split: "lo < hi \<Longrightarrow> id_range lo hi = id_range (Suc lo) hi @ [of_nat lo]"
  by (simp add: id_range_def upt_conv_Cons)

lemma id_inj: "a < 4294967296 \<Longrightarrow> b < 4294967296 \<Longrightarrow> ((of_nat a :: u32) = of_nat b) = (a = b)"
  by (metis unat_of_nat_u32)

lemma id_fresh: "hi \<le> n \<Longrightarrow> n < 4294967296 \<Longrightarrow> of_nat n \<notin> set (id_range lo hi)"
  by (auto simp: id_range_def id_inj)

lemma id_next: "0 < n \<Longrightarrow> (of_nat (n - 1) :: u32) + 1 = of_nat n"
  by (metis Suc_pred' of_nat_Suc add.commute)

section \<open>Epochs\<close>

text \<open>
  The epoch of the reader's copy against the shared one. A reader that follows additions counts
  them in its own copy as well, so that it may get ahead and take a further addition for what it
  has seen. It has at least two connectors then: it is ahead by \<open>d\<close>, less the additions it has
  not followed yet, and has more than \<open>d\<close> connectors.
\<close>

definition in_step :: "u32 \<Rightarrow> u32 \<Rightarrow> nat \<Rightarrow> nat \<Rightarrow> bool" where
  "in_step e er len k \<longleftrightarrow>
     (\<exists>j \<le> Suc k. e = er + of_nat j \<and> (j = 0 \<longrightarrow> k = 0))
     \<or> (\<exists>d \<ge> 1. d < len \<and> er + of_nat k = e + of_nat d)"

text \<open>The same, after the reader has looked.\<close>

definition looked :: "u32 \<Rightarrow> u32 \<Rightarrow> nat \<Rightarrow> nat \<Rightarrow> bool" where
  "looked e er len k \<longleftrightarrow> e = er \<and> k = 0 \<or> (\<exists>d \<ge> 1. d < len \<and> er + of_nat k = e + of_nat d \<and> (k = 0 \<or> k = d))"

lemma looked_cases:
  assumes "looked e er len k"
  obtains (even) "e = er" "k = 0" | (ahead) d where "d \<ge> 1" "d < len" "er = e + of_nat d" "k = 0"
    | (missed) "e = er" "1 \<le> k" "k < len"
proof -
  consider "e = er" "k = 0" | d where "d \<ge> 1" "d < len" "er + of_nat k = e + of_nat d" "k = 0 \<or> k = d"
    using assms unfolding looked_def by blast
  then show thesis
  proof cases
    case 2
    from 2(4) show thesis
    proof
      assume "k = 0"
      with 2 show thesis by (intro ahead) simp_all
    next
      assume "k = d"
      with 2 show thesis by (intro missed) simp_all
    qed
  qed (rule even)
qed

lemma looked_in_step:
  assumes "looked e er len k"
  shows "in_step e er len k"
  using assms
proof (cases rule: looked_cases)
  case even
  then show ?thesis unfolding in_step_def by (intro disjI1 exI [of _ 0]) simp
next
  case (ahead d)
  then show ?thesis unfolding in_step_def by (intro disjI2 exI [of _ d]) simp
next
  case missed
  then show ?thesis unfolding in_step_def by (intro disjI2 exI [of _ k]) simp
qed

lemma in_step_add: "in_step e er len k \<Longrightarrow> in_step (e + 1) er len (Suc k)"
proof -
  assume "in_step e er len k"
  then consider (behind) j where "j \<le> Suc k" "e = er + of_nat j"
    | (ahead) d where "d \<ge> 1" "d < len" "er + of_nat k = e + of_nat d"
    unfolding in_step_def by blast
  then show ?thesis
  proof cases
    case behind
    then show ?thesis unfolding in_step_def by (intro disjI1 exI [of _ "Suc j"]) simp
  next
    case ahead
    then show ?thesis unfolding in_step_def by (intro disjI2 exI [of _ d]) (simp add: add.assoc [symmetric] add.commute [of 1])
  qed
qed

lemma look_unnoticed:
  assumes "in_step e e len k" and "len < 4294967296" and "k < 4294967295"
  shows "looked e e len k"
proof -
  consider (behind) j where "j \<le> Suc k" "e = e + of_nat j" "j = 0 \<longrightarrow> k = 0"
    | (ahead) d where "d \<ge> 1" "d < len" "e + of_nat k = e + of_nat d"
    using assms(1) unfolding in_step_def by blast
  then show ?thesis
  proof cases
    case behind
    then have "(of_nat j :: u32) = of_nat 0" by simp
    then have "j = 0" using behind(1) assms(3) by (subst (asm) id_inj) simp_all
    then show ?thesis using behind(3) by (simp add: looked_def)
  next
    case ahead
    then have "k = d" using assms by (simp add: id_inj)
    then show ?thesis using ahead by (auto simp: looked_def)
  qed
qed

lemma look_follows: "0 < len \<Longrightarrow> looked e (e + of_nat k) (len + k) 0"
proof (cases "k = 0")
  case False
  then show "0 < len \<Longrightarrow> looked e (e + of_nat k) (len + k) 0"
    unfolding looked_def by (intro disjI2 exI [of _ k]) simp
qed (simp add: looked_def)

lemma looked_remove:
  assumes "looked e er len k" and "2 \<le> len + k"
  shows "in_step (e + 1) er (len - 1) k" "2 \<le> len"
proof -
  from assms(1) show "2 \<le> len" by (cases rule: looked_cases) (use assms(2) in simp_all)
  from assms(1) show "in_step (e + 1) er (len - 1) k"
  proof (cases rule: looked_cases)
    case even
    then show ?thesis unfolding in_step_def by (intro disjI1 exI [of _ 1]) simp
  next
    case (ahead d)
    then obtain d' where d': "d = Suc d'" by (cases d) auto
    show ?thesis
    proof (cases d')
      case 0
      then show ?thesis using ahead d' unfolding in_step_def by (intro disjI1 exI [of _ 0]) simp
    next
      case (Suc d2)
      then show ?thesis using ahead d' unfolding in_step_def
        by (intro disjI2 exI [of _ d']) (simp add: add.assoc)
    qed
  next
    case missed
    then show ?thesis unfolding in_step_def by (intro disjI1 exI [of _ 1]) simp
  qed
qed

section \<open>What the two processes hold\<close>

type_synonym ('h, 'o, 'l, 'b) pair = "'h bus \<times> 'h bus \<times> ('o, 'l, 'b) globals"

text \<open>
  The identifiers are \<open>j\<close>, the oldest of the process that pushes; \<open>i\<close>, the oldest of the bus;
  \<open>m - 1\<close>, the newest of the reader; \<open>n - 1\<close>, the newest of the bus. The cells \<open>new\<close> have not
  been opened by the reader, the cells \<open>old\<close> have, the connectors \<open>st\<close> are gone from the bus.
\<close>

definition shared_cb :: "('h, 'o, 'l, 'b) pair \<Rightarrow> controlblock_type" where
  "shared_cb s = load_cb (gmem (snd (snd s))) (shared_bus_get_memory (fst s))"

definition lists_of :: "('h, 'o, 'l, 'b) pair \<Rightarrow> 'h cell list \<Rightarrow> 'h cell list \<Rightarrow> 'h entry list \<Rightarrow> bool" where
  "lists_of s new old st \<longleftrightarrow>
     m_pconnectors (fst s) = map (fst \<circ> snd) (map writer_entry (new @ old) @ st)
     \<and> map Some (m_pconnectors (fst (snd s))) = map cell_reader old
     \<and> (\<forall>x \<in> set new. cell_reader x = None)"

definition numbered :: "nat \<Rightarrow> nat \<Rightarrow> nat \<Rightarrow> nat \<Rightarrow> 'h cell list \<Rightarrow> 'h cell list \<Rightarrow> 'h entry list \<Rightarrow> bool" where
  "numbered j i m n new old st \<longleftrightarrow> j \<le> i \<and> i \<le> m \<and> i < n \<and> m \<le> n \<and> n \<le> front_cap (map writer_entry (new @ old))
     \<and> map fst new = id_range m n \<and> map fst old = id_range i m \<and> map fst st = id_range j i"

definition bus_core ::
  "('h, 'o, 'l, 'b) platform \<Rightarrow> (id_type \<Rightarrow> string) \<Rightarrow> ('o \<Rightarrow> string \<Rightarrow> (nat \<times> u64) option) \<Rightarrow> ('o \<Rightarrow> bool)
    \<Rightarrow> ('o \<Rightarrow> nat set) \<Rightarrow> specification_type \<Rightarrow> nat \<Rightarrow> nat \<Rightarrow> nat \<Rightarrow> nat \<Rightarrow> update_status \<Rightarrow> ('h, 'o, 'l, 'b) pair
    \<Rightarrow> 'h cell list \<Rightarrow> 'h cell list \<Rightarrow> 'h entry list \<Rightarrow> bool" where
  "bus_core P cast seg valid taken sp j i m n us s new old st \<longleftrightarrow>
     (let bw = fst s; br = fst (snd s); g = snd (snd s) in
      b_opened bw \<and> b_opened br \<and> m_status bw = US_NONE \<and> m_status br = us
      \<and> b_name br = b_name bw \<and> shared_bus_get_memory br = shared_bus_get_memory bw
      \<and> load_spec (gmem g) (shared_bus_get_memory bw) = sp
      \<and> input_id (shared_cb s) = of_nat i \<and> output_id (shared_cb s) = of_nat (n - 1)
      \<and> input_id (m_controlblock bw) = of_nat j \<and> output_id (m_controlblock bw) = of_nat (n - 1)
      \<and> input_id (m_controlblock br) = of_nat i \<and> output_id (m_controlblock br) = of_nat (m - 1)
      \<and> lists_of s new old st \<and> numbered j i m n new old st
      \<and> pair_env P cast seg valid taken bw g (new @ old) st)"

text \<open>The reader has the bus open, with the oldest connector in its list.\<close>

definition pair_core ::
  "('h, 'o, 'l, 'b) platform \<Rightarrow> (id_type \<Rightarrow> string) \<Rightarrow> ('o \<Rightarrow> string \<Rightarrow> (nat \<times> u64) option) \<Rightarrow> ('o \<Rightarrow> bool)
    \<Rightarrow> ('o \<Rightarrow> nat set) \<Rightarrow> specification_type \<Rightarrow> nat \<Rightarrow> nat \<Rightarrow> nat \<Rightarrow> nat \<Rightarrow> update_status \<Rightarrow> ('h, 'o, 'l, 'b) pair
    \<Rightarrow> 'h cell list \<Rightarrow> 'h cell list \<Rightarrow> 'h entry list \<Rightarrow> bool" where
  "pair_core P cast seg valid taken sp j i m n us s new old st \<longleftrightarrow>
     bus_core P cast seg valid taken sp j i m n us s new old st \<and> i < m"

definition pair_step :: "(u32 \<Rightarrow> u32 \<Rightarrow> nat \<Rightarrow> nat \<Rightarrow> bool) \<Rightarrow> ('h, 'o, 'l, 'b) pair \<Rightarrow> nat \<Rightarrow> nat \<Rightarrow> nat \<Rightarrow> bool" where
  "pair_step R s i m n \<longleftrightarrow> R (epoch (shared_cb s)) (epoch (m_controlblock (fst (snd s)))) (m - i) (n - m)"

definition pair_holds ::
  "('h, 'o, 'l, 'b) platform \<Rightarrow> (id_type \<Rightarrow> string) \<Rightarrow> ('o \<Rightarrow> string \<Rightarrow> (nat \<times> u64) option) \<Rightarrow> ('o \<Rightarrow> bool)
    \<Rightarrow> ('o \<Rightarrow> nat set) \<Rightarrow> specification_type \<Rightarrow> nat \<Rightarrow> nat \<Rightarrow> nat \<Rightarrow> nat \<Rightarrow> ('h, 'o, 'l, 'b) pair
    \<Rightarrow> 'h cell list \<Rightarrow> 'h cell list \<Rightarrow> 'h entry list \<Rightarrow> bool" where
  "pair_holds P cast seg valid taken sp j i m n s new old st \<longleftrightarrow>
     pair_core P cast seg valid taken sp j i m n US_NONE s new old st \<and> pair_step in_step s i m n"

text \<open>
  What the process that pushes needs of this: the other one may as well have nothing open, with
  \<open>i = m\<close> and no cell in \<open>old\<close>.
\<close>

definition writer_holds ::
  "('h, 'o, 'l, 'b) platform \<Rightarrow> (id_type \<Rightarrow> string) \<Rightarrow> ('o \<Rightarrow> string \<Rightarrow> (nat \<times> u64) option) \<Rightarrow> ('o \<Rightarrow> bool)
    \<Rightarrow> ('o \<Rightarrow> nat set) \<Rightarrow> specification_type \<Rightarrow> nat \<Rightarrow> nat \<Rightarrow> nat \<Rightarrow> nat \<Rightarrow> ('h, 'o, 'l, 'b) pair
    \<Rightarrow> 'h cell list \<Rightarrow> 'h cell list \<Rightarrow> 'h entry list \<Rightarrow> bool" where
  "writer_holds P cast seg valid taken sp j i m n s new old st \<longleftrightarrow>
     bus_core P cast seg valid taken sp j i m n US_NONE s new old st \<and> pair_step in_step s i m n"

lemma pair_writer:
  "pair_holds P cast seg valid taken sp j i m n s new old st
    \<longleftrightarrow> writer_holds P cast seg valid taken sp j i m n s new old st \<and> i < m"
  unfolding pair_holds_def writer_holds_def pair_core_def by blast

definition cells_contents :: "'h cell list \<Rightarrow> message list" where
  "cells_contents xs = concat (rev (map (\<lambda>x. fifo_msgs (cell_fifo x)) xs))"

lemma cells_contents_simps [simp]:
  "cells_contents [] = []" "cells_contents (x # xs) = cells_contents xs @ fifo_msgs (cell_fifo x)"
  "cells_contents (xs @ ys) = cells_contents ys @ cells_contents xs"
  by (simp_all add: cells_contents_def)

lemma bus_coreD:
  assumes "bus_core P cast seg valid taken sp j i m n us (bw, br, g) new old st"
  shows "b_opened bw" "b_opened br" "m_status bw = US_NONE" "m_status br = us"
    "b_name br = b_name bw" "shared_bus_get_memory br = shared_bus_get_memory bw"
    "load_spec (gmem g) (shared_bus_get_memory bw) = sp"
    "input_id (load_cb (gmem g) (shared_bus_get_memory bw)) = of_nat i"
    "output_id (load_cb (gmem g) (shared_bus_get_memory bw)) = of_nat (n - 1)"
    "input_id (m_controlblock bw) = of_nat j" "output_id (m_controlblock bw) = of_nat (n - 1)"
    "input_id (m_controlblock br) = of_nat i" "output_id (m_controlblock br) = of_nat (m - 1)"
    "m_pconnectors bw = map (fst \<circ> snd) (map writer_entry (new @ old) @ st)"
    "map Some (m_pconnectors br) = map cell_reader old" "\<forall>x \<in> set new. cell_reader x = None"
    "j \<le> i" "i \<le> m" "m \<le> n" "n \<le> front_cap (map writer_entry (new @ old))"
    "map fst new = id_range m n" "map fst old = id_range i m" "map fst st = id_range j i"
    "pair_env P cast seg valid taken bw g (new @ old) st" "i < n"
  using assms by (simp_all only: bus_core_def Let_def fst_conv snd_conv shared_cb_def lists_of_def numbered_def) blast

lemma bus_bound:
  assumes "bus_core P cast seg valid taken sp j i m n us (bw, br, g) new old st"
  shows "n < 4294967296" "new @ old \<noteq> []"
proof -
  note h = bus_coreD [OF assms]
  have "length (new @ old) = n - i"
    using arg_cong [OF h(21), of length] arg_cong [OF h(22), of length] h(18,19) by simp
  then show ne: "new @ old \<noteq> []" using h(25) by (metis list.size(3) zero_less_diff less_nat_zero_code)
  then obtain x xs where x: "new @ old = x # xs" by (cases "new @ old") auto
  have "cell_ok P seg (names_of cast bw) g x" using env_facts(4) [OF h(24), of x] x by simp
  then have "fifo_cap (cell_fifo x) < 4294967296" by (auto simp: cell_ok_def entry_ok_def)
  then show "n < 4294967296" using h(20) x by (simp add: front_cap_def)
qed

lemma pair_coreD:
  assumes "pair_core P cast seg valid taken sp j i m n us (bw, br, g) new old st"
  shows "b_opened bw" "b_opened br" "m_status bw = US_NONE" "m_status br = us"
    "b_name br = b_name bw" "shared_bus_get_memory br = shared_bus_get_memory bw"
    "load_spec (gmem g) (shared_bus_get_memory bw) = sp"
    "input_id (load_cb (gmem g) (shared_bus_get_memory bw)) = of_nat i"
    "output_id (load_cb (gmem g) (shared_bus_get_memory bw)) = of_nat (n - 1)"
    "input_id (m_controlblock bw) = of_nat j" "output_id (m_controlblock bw) = of_nat (n - 1)"
    "input_id (m_controlblock br) = of_nat i" "output_id (m_controlblock br) = of_nat (m - 1)"
    "m_pconnectors bw = map (fst \<circ> snd) (map writer_entry (new @ old) @ st)"
    "map Some (m_pconnectors br) = map cell_reader old" "\<forall>x \<in> set new. cell_reader x = None"
    "j \<le> i" "i < m" "m \<le> n" "n \<le> front_cap (map writer_entry (new @ old))"
    "map fst new = id_range m n" "map fst old = id_range i m" "map fst st = id_range j i"
    "pair_env P cast seg valid taken bw g (new @ old) st"
proof -
  note c = assms [unfolded pair_core_def]
  show "b_opened bw" "b_opened br" "m_status bw = US_NONE" "m_status br = us"
    "b_name br = b_name bw" "shared_bus_get_memory br = shared_bus_get_memory bw"
    "load_spec (gmem g) (shared_bus_get_memory bw) = sp"
    "input_id (load_cb (gmem g) (shared_bus_get_memory bw)) = of_nat i"
    "output_id (load_cb (gmem g) (shared_bus_get_memory bw)) = of_nat (n - 1)"
    "input_id (m_controlblock bw) = of_nat j" "output_id (m_controlblock bw) = of_nat (n - 1)"
    "input_id (m_controlblock br) = of_nat i" "output_id (m_controlblock br) = of_nat (m - 1)"
    "m_pconnectors bw = map (fst \<circ> snd) (map writer_entry (new @ old) @ st)"
    "map Some (m_pconnectors br) = map cell_reader old" "\<forall>x \<in> set new. cell_reader x = None"
    "j \<le> i" "i < m" "m \<le> n" "n \<le> front_cap (map writer_entry (new @ old))"
    "map fst new = id_range m n" "map fst old = id_range i m" "map fst st = id_range j i"
    "pair_env P cast seg valid taken bw g (new @ old) st"
    by (rule conjunct2 [OF c] | rule bus_coreD [OF conjunct1 [OF c]])+
qed

lemma pair_bound:
  assumes "pair_core P cast seg valid taken sp j i m n us (bw, br, g) new old st"
  shows "n < 4294967296" "old \<noteq> []" "new @ old \<noteq> []"
proof -
  note h = pair_coreD [OF assms]
  show "old \<noteq> []" using h(18,22) by (metis id_range_simps(3) length_map list.size(3) zero_less_diff less_nat_zero_code)
  note core = conjunct1 [OF assms [unfolded pair_core_def]]
  show "n < 4294967296" "new @ old \<noteq> []" by (fact bus_bound [OF core])+
qed

lemma lone_atomics: "pair_basis P cast seg nm valid taken \<Longrightarrow> atomic_spec (atomics (penv P))"
  by (simp add: pair_basis_def bus_platform_def env_ok_def)

section \<open>The process that pushes follows a removal\<close>

lemma remove_step:
  assumes cs: "m_pconnectors b = cs @ [c]" "cs \<noteq> []"
    and d: "v_destroy (single_bidirectional_connector P) (c, g) = returns (c', g')"
    and cb: "get_controlblock (single_layout_of P cast) (b\<lparr>m_pconnectors := cs\<rparr>, g') = cb"
  shows "base_remove_connector (single_layout_of P cast) (b, g)
    = returns (True, put_controlblock (single_layout_of P cast) (cb\<lparr>input_id := input_id cb + 1, epoch := epoch cb + 1\<rparr>)
        (b\<lparr>m_pconnectors := cs\<rparr>, g'))"
  using cs by (simp add: base_remove_connector_def Let_def d set_connectors_def butlast_append cb)

lemma writer_update:
  assumes plat: "pair_basis P cast seg nm valid taken"
    and holds: "writer_holds P cast seg valid taken sp j i m n (bw, br, g) new old st"
  shows "\<exists>u bw' g' j' st'. update_connectors (single_bus_class P cast) (bw, g) = returns (u, bw', g')
    \<and> (u = US_NONE \<or> u = US_INPUT) \<and> writer_holds P cast seg valid taken sp j' i m n (bw', br, g') new old st'"
proof -
  let ?L = "single_layout_of P cast" and ?a = "shared_bus_get_memory bw"
  let ?cb = "load_cb (gmem g) ?a" and ?l = "m_controlblock bw"
  have core: "bus_core P cast seg valid taken sp j i m n US_NONE (bw, br, g) new old st"
    and step: "pair_step in_step (bw, br, g) i m n"
    using holds by (simp_all add: writer_holds_def)
  note h = bus_coreD [OF core] and at = atomic_specD [OF lone_atomics [OF plat]]
  have set: "bw\<lparr>m_controlblock := cb, m_status := US_NONE\<rparr> = bw\<lparr>m_controlblock := cb\<rparr>" for cb
    using h(3) by (cases bw) simp
  show ?thesis
  proof (cases "epoch ?cb = epoch ?l \<or> i = j")
    case True
    let ?b = "if epoch ?cb = epoch ?l then bw else bw\<lparr>m_controlblock := ?l\<lparr>epoch := epoch ?cb\<rparr>\<rparr>"
    have "update_connectors (single_bus_class P cast) (bw, g) = returns (US_NONE, ?b, g)"
      using True h(3,8-11) set
      by (auto simp: update_connectors_def is_updated_def atomic_cb_def at get_shared_controlblock_def Let_def
        rollback_def set_status_def)
    moreover have "writer_holds P cast seg valid taken sp j i m n (?b, br, g) new old st"
      using holds by (auto simp: writer_holds_def bus_core_def pair_step_def Let_def shared_cb_def lists_of_def)
    ultimately show ?thesis by blast
  next
    case False
    then have ji: "j < i" using h(17) by simp
    then obtain st1 e where st: "st = st1 @ [e]" using h(23)
      by (metis id_range_simps(3) length_map list.size(3) rev_exhaust zero_less_diff less_nat_zero_code)
    let ?l1 = "?l\<lparr>epoch := epoch ?cb\<rparr>" and ?cs = "map (fst \<circ> snd) (map writer_entry (new @ old) @ st1)"
    let ?l2 = "?l1\<lparr>input_id := of_nat (Suc j), epoch := epoch ?cb + 1\<rparr>"
    let ?b1 = "bw\<lparr>m_controlblock := ?l1\<rparr>"
    let ?b3 = "bw\<lparr>m_controlblock := ?l1, m_status := US_INPUT\<rparr>"
    let ?b = "bw\<lparr>m_pconnectors := ?cs, m_controlblock := ?l2\<rparr>"
    have list: "m_pconnectors ?b3 = ?cs @ [fst (snd e)]" by (simp add: h(14) st)
    have ne: "?cs \<noteq> []" using bus_bound(2) [OF core] by auto
    obtain c' g' where d: "v_destroy (single_bidirectional_connector P) (fst (snd e), g) = returns (c', g')"
      "pair_env P cast seg valid taken bw g' (new @ old) st1" "load_spec (gmem g') ?a = load_spec (gmem g) ?a"
      "load_cb (gmem g') ?a = ?cb"
      using gone_forgotten [OF plat h(24) [unfolded st]] by blast
    have local: "get_controlblock ?L (?b3\<lparr>m_pconnectors := cs\<rparr>, g'') = ?l1" "get_controlblock ?L (?b3, g'') = ?l1"
      for cs g''
      by (simp_all add: get_controlblock_def)
    have bound: "n < 4294967296" by (rule bus_bound(1) [OF core])
    have differ: "(of_nat i :: u32) \<noteq> of_nat j" "(of_nat j :: u32) \<noteq> of_nat (n - 1)"
      using ji h(18,19,25) bound by (simp_all add: id_inj del: of_nat_diff)
    have step1: "(of_nat j :: u32) + 1 = of_nat (Suc j)" by simp
    have "shared_remove_connector ?L (?b3, g) = returns (True, ?b3\<lparr>m_pconnectors := ?cs, m_controlblock := ?l2\<rparr>, g')"
      using remove_step [where cast = cast, OF list ne d(1) local(1)] h(10)
      by (simp add: shared_remove_connector_def put_controlblock_def add.commute [of 1])
    moreover have "bw\<lparr>m_pconnectors := ?cs, m_controlblock := ?l2, m_status := US_NONE\<rparr> = ?b"
      using h(3) by (cases bw) simp
    ultimately have "update_connectors (single_bus_class P cast) (bw, g) = returns (US_INPUT, ?b, g')"
      using False h(3,8-11) differ
      by (simp add: update_connectors_def is_updated_def atomic_cb_def at get_shared_controlblock_def Let_def
        rollback_def set_status_def can_remove_connector_def get_controlblock_def)
    moreover have "map fst st1 = id_range (Suc j) i" using h(23) ji by (simp add: st id_range_split)
    then have "writer_holds P cast seg valid taken sp (Suc j) i m n (?b, br, g') new old st1"
      using holds d(2-4) ji h(10)
      by (simp add: writer_holds_def bus_core_def pair_step_def Let_def shared_cb_def lists_of_def numbered_def)
    ultimately show ?thesis by blast
  qed
qed

lemma head_fifo:
  assumes "map cell_fifo xs = map cell_fifo ys" and "xs \<noteq> []" "ys \<noteq> []"
  shows "cell_fifo (hd xs) = cell_fifo (hd ys)"
  using assms by (cases xs; cases ys) simp_all

lemma front_cap_fifos:
  assumes "map cell_fifo xs = map cell_fifo ys"
  shows "front_cap (map writer_entry xs) = front_cap (map writer_entry ys)"
  using assms by (cases xs; cases ys) (simp_all add: front_cap_def)

section \<open>The reader follows additions\<close>

lemma contents_of_fifos: "cells_contents xs = concat (rev (map fifo_msgs (map cell_fifo xs)))"
  by (simp add: cells_contents_def comp_def)

lemma cells_contents_fifos: "map cell_fifo xs = map cell_fifo ys \<Longrightarrow> cells_contents xs = cells_contents ys"
  by (simp only: contents_of_fifos)

lemma reader_catches:
  fixes P :: "('h, 'o, 'l, 'b) platform"
  assumes plat: "pair_basis P cast seg nm valid taken"
    and "pair_core P cast seg valid taken sp j i m n US_OUTPUT (bw, br, g) new old st"
  shows "\<exists>br' g' old'. catch_up (single_bus_class P cast) (of_nat (n - 1)) (br, g) = returns (True, br', g')
    \<and> pair_core P cast seg valid taken sp j i n n US_OUTPUT (bw, br', g') [] old' st
    \<and> map cell_fifo old' = map cell_fifo (new @ old)
    \<and> epoch (m_controlblock br') = epoch (m_controlblock br) + of_nat (n - m)
    \<and> load_cb (gmem g') (shared_bus_get_memory bw) = load_cb (gmem g) (shared_bus_get_memory bw)"
  using assms(2)
proof (induction new arbitrary: br g m old rule: rev_induct)
  case Nil
  note h = pair_coreD [OF Nil]
  have m: "m = n" using h(19,21) by (metis diff_is_0_eq id_range_simps(3) le_antisym length_map list.size(3))
  then have "catch_up (single_bus_class P cast) (of_nat (n - 1)) (br, g) = returns (True, br, g)"
    using h(13) by (subst catch_up.simps) simp
  then show ?case using Nil m by auto
next
  case (snoc x new)
  let ?L = "single_layout_of P cast" and ?a = "shared_bus_get_memory bw"
  note h = pair_coreD [OF snoc.prems] and bound = pair_bound(1) [OF snoc.prems]
  have mn: "m < n" using h(19,21) by (cases "m = n") auto
  have "map fst new @ [fst x] = id_range (Suc m) n @ [of_nat m]"
    using h(21) id_range_split [OF mn] by simp
  then have ids: "map fst new = id_range (Suc m) n" "fst x = of_nat m" by simp_all
  obtain c f where x: "x = (of_nat m, c, None, f)"
    using h(16) ids(2) by (cases x) auto
  have nxt: "(of_nat (m - 1) :: u32) + 1 = of_nat m" using h(18) by (intro id_next) simp
  have env: "pair_env P cast seg valid taken bw g (new @ (of_nat m, c, None, f) # old) st" using h(24) by (simp add: x)
  let ?parent = "if m_pconnectors br \<noteq> [] then m_pqueue (hd (m_pconnectors br)) else None"
  obtain cr g' where cr: "connector_open (single_bidirectional_connector P) ?parent
        (new_connector (names_of cast bw (of_nat m)) CON_BIDIR, g) = returns (True, cr, g')"
    "pair_env P cast seg valid taken bw g' (new @ (of_nat m, c, Some cr, f) # old) st"
    "load_spec (gmem g') ?a = load_spec (gmem g) ?a" "load_cb (gmem g') ?a = load_cb (gmem g) ?a"
    using cell_opened [OF plat env, of ?parent] by blast
  let ?l = "m_controlblock br"
  let ?br = "br\<lparr>m_pconnectors := cr # m_pconnectors br, m_controlblock := ?l\<lparr>output_id := of_nat m, epoch := epoch ?l + 1\<rparr>\<rparr>"
  have "make_connector ?L (of_nat m) (br, g) = returns (Some cr, br, g')"
    using cr(1) by (simp add: make_connector_def Let_def h(5))
  then have add: "shared_add_connector ?L (br, g) = returns (True, ?br, g')"
    using nxt h(4,13) by (simp add: shared_add_connector_def base_add_connector_def get_controlblock_def Let_def
      set_connectors_def put_controlblock_def)
  have differ: "(of_nat (n - 1) :: u32) \<noteq> of_nat (m - 1)" "(of_nat m :: u32) \<noteq> of_nat i"
    using mn h(18) bound by (simp_all add: id_inj del: of_nat_diff)
  have "can_add_connector ?L (br, g)"
    using nxt h(4,12,13) differ(2) by (simp add: can_add_connector_def get_controlblock_def)
  then have loop: "catch_up (single_bus_class P cast) (of_nat (n - 1)) (br, g)
      = catch_up (single_bus_class P cast) (of_nat (n - 1)) (?br, g')"
    using differ(1) h(13) by (subst catch_up.simps) (simp add: add)
  have id: "map fst ((of_nat m, c, Some cr, f) # old) = id_range i (Suc m)" using h(18,22) by simp
  have core: "pair_core P cast seg valid taken sp j i (Suc m) n US_OUTPUT (bw, ?br, g') new ((of_nat m, c, Some cr, f) # old) st"
    using snoc.prems cr(2-4) mn ids(1) id
    by (simp add: pair_core_def bus_core_def Let_def shared_cb_def lists_of_def numbered_def x)
  obtain br' g'' old' where ih: "catch_up (single_bus_class P cast) (of_nat (n - 1)) (?br, g') = returns (True, br', g'')"
    "pair_core P cast seg valid taken sp j i n n US_OUTPUT (bw, br', g'') [] old' st"
    "map cell_fifo old' = map cell_fifo (new @ (of_nat m, c, Some cr, f) # old)"
    "epoch (m_controlblock br') = epoch (m_controlblock ?br) + of_nat (n - Suc m)"
    "load_cb (gmem g'') ?a = load_cb (gmem g') ?a"
    using snoc.IH [OF core] by blast
  have "of_nat (n - m) = (1 :: u32) + of_nat (n - Suc m)"
    using mn by (metis Suc_diff_Suc of_nat_Suc add.commute)
  then have "epoch (m_controlblock br') = epoch ?l + of_nat (n - m)" using ih(4) by (simp add: add.assoc)
  then show ?case using ih cr(4) loop x by (intro exI [of _ br'] exI [of _ g''] exI [of _ old']) simp
qed

text \<open>
  What the reader does when it looks: nothing, when the epochs agree; it takes over the epoch,
  when there is nothing new; it opens all connectors that it does not have, otherwise.
\<close>

lemma reader_in_step:
  assumes plat: "pair_basis P cast seg nm valid taken"
    and core: "pair_core P cast seg valid taken sp j i m n US_NONE (bw, br, g) new old st"
    and same: "epoch (shared_cb (bw, br, g)) = epoch (m_controlblock br)"
  shows "update_connectors (single_bus_class P cast) (br, g) = returns (US_NONE, br, g)"
proof -
  note h = pair_coreD [OF core] and at = atomic_specD [OF lone_atomics [OF plat]]
  show ?thesis
    using same h(6) by (simp add: shared_cb_def update_connectors_def is_updated_def atomic_cb_def at get_shared_controlblock_def)
qed

lemma reader_level:
  fixes P :: "('h, 'o, 'l, 'b) platform"
  assumes plat: "pair_basis P cast seg nm valid taken"
    and core: "pair_core P cast seg valid taken sp j i n n US_NONE (bw, br, g) new old st"
    and differ: "epoch (shared_cb (bw, br, g)) \<noteq> epoch (m_controlblock br)"
  shows "\<exists>br'. update_connectors (single_bus_class P cast) (br, g) = returns (US_NONE, br', g)
    \<and> pair_core P cast seg valid taken sp j i n n US_NONE (bw, br', g) new old st
    \<and> pair_step looked (bw, br', g) i n n"
proof -
  let ?cb = "shared_cb (bw, br, g)" and ?l = "m_controlblock br"
  let ?b1 = "br\<lparr>m_controlblock := ?l\<lparr>epoch := epoch ?cb\<rparr>\<rparr>"
  note h = pair_coreD [OF core] and at = atomic_specD [OF lone_atomics [OF plat]]
  have "br\<lparr>m_controlblock := cb, m_status := US_NONE\<rparr> = br\<lparr>m_controlblock := cb\<rparr>" for cb
    using h(4) by (cases br) simp
  then have "update_connectors (single_bus_class P cast) (br, g) = returns (US_NONE, ?b1, g)"
    using differ h(4,6,8,9,12,13)
    by (simp add: update_connectors_def is_updated_def atomic_cb_def at get_shared_controlblock_def Let_def
      rollback_def set_status_def shared_cb_def)
  moreover have "pair_core P cast seg valid taken sp j i n n US_NONE (bw, ?b1, g) new old st"
    using core by (simp add: pair_core_def bus_core_def Let_def shared_cb_def lists_of_def)
  moreover have "pair_step looked (bw, ?b1, g) i n n"
    by (simp add: pair_step_def shared_cb_def looked_def)
  ultimately show ?thesis by blast
qed

lemma reader_follows:
  fixes P :: "('h, 'o, 'l, 'b) platform"
  assumes plat: "pair_basis P cast seg nm valid taken"
    and core: "pair_core P cast seg valid taken sp j i m n US_NONE (bw, br, g) new old st"
    and differ: "epoch (shared_cb (bw, br, g)) \<noteq> epoch (m_controlblock br)" and more: "m \<noteq> n"
  shows "\<exists>br' g' old'. update_connectors (single_bus_class P cast) (br, g) = returns (US_OUTPUT, br', g')
    \<and> pair_core P cast seg valid taken sp j i n n US_NONE (bw, br', g') [] old' st
    \<and> pair_step looked (bw, br', g') i n n \<and> map cell_fifo old' = map cell_fifo (new @ old)"
proof -
  let ?a = "shared_bus_get_memory bw" and ?B = "single_bus_class P cast"
  let ?cb = "load_cb (gmem g) ?a" and ?l = "m_controlblock br"
  note h = pair_coreD [OF core] and at = atomic_specD [OF lone_atomics [OF plat]]
  have bound: "n < 4294967296" by (rule pair_bound(1) [OF core])
  let ?b1 = "br\<lparr>m_controlblock := ?l\<lparr>epoch := epoch ?cb\<rparr>\<rparr>"
  let ?b2 = "?b1\<lparr>m_status := US_OUTPUT\<rparr>"
  have core2: "pair_core P cast seg valid taken sp j i m n US_OUTPUT (bw, ?b2, g) new old st"
    using core by (simp add: pair_core_def bus_core_def Let_def shared_cb_def lists_of_def)
  obtain br' g' old' where c: "catch_up ?B (of_nat (n - 1)) (?b2, g) = returns (True, br', g')"
    "pair_core P cast seg valid taken sp j i n n US_OUTPUT (bw, br', g') [] old' st"
    "map cell_fifo old' = map cell_fifo (new @ old)"
    "epoch (m_controlblock br') = epoch ?cb + of_nat (n - m)" "load_cb (gmem g') ?a = ?cb"
    using reader_catches [OF plat core2] by auto
  note h' = pair_coreD [OF c(2)]
  let ?b3 = "br'\<lparr>m_status := US_NONE\<rparr>"
  have out: "(of_nat (n - 1) :: u32) \<noteq> of_nat (m - 1)"
    using more h(18,19) bound by (simp add: id_inj del: of_nat_diff)
  have "update_connectors ?B (br, g) = returns (US_OUTPUT, ?b3, g')"
    using differ h(4,6,8,9,12,13) out c(1) h'(4,6,8,12)
    by (simp add: update_connectors_def is_updated_def atomic_cb_def at get_shared_controlblock_def Let_def
      rollback_def set_status_def shared_cb_def)
  moreover have "pair_core P cast seg valid taken sp j i n n US_NONE (bw, ?b3, g') [] old' st"
    using c(2) by (simp add: pair_core_def bus_core_def Let_def shared_cb_def lists_of_def)
  moreover have "pair_step looked (bw, ?b3, g') i n n"
  proof -
    have "looked (epoch ?cb) (epoch ?cb + of_nat (n - m)) (m - i + (n - m)) 0"
      using h(18) by (intro look_follows) simp
    moreover have "m - i + (n - m) = n - i" using h(18,19) by simp
    moreover have "epoch (m_controlblock ?b3) = epoch ?cb + of_nat (n - m)" using c(4) by simp
    ultimately show ?thesis by (simp only: pair_step_def shared_cb_def fst_conv snd_conv c(5) diff_self_eq_0)
  qed
  ultimately show ?thesis using c(3)
    by (intro exI [of _ ?b3] exI [of _ g'] exI [of _ old']) (simp only: simp_thms)
qed

lemma reader_update:
  fixes P :: "('h, 'o, 'l, 'b) platform"
  assumes plat: "pair_basis P cast seg nm valid taken"
    and holds: "pair_holds P cast seg valid taken sp j i m n (bw, br, g) new old st"
  shows "\<exists>u br' g' m' new' old'. update_connectors (single_bus_class P cast) (br, g) = returns (u, br', g')
    \<and> (u = US_NONE \<or> u = US_OUTPUT)
    \<and> pair_core P cast seg valid taken sp j i m' n US_NONE (bw, br', g') new' old' st
    \<and> pair_step looked (bw, br', g') i m' n \<and> map cell_fifo (new' @ old') = map cell_fifo (new @ old)"
proof -
  have core: "pair_core P cast seg valid taken sp j i m n US_NONE (bw, br, g) new old st"
    and step: "pair_step in_step (bw, br, g) i m n"
    using holds by (simp_all add: pair_holds_def)
  note h = pair_coreD [OF core]
  show ?thesis
  proof (cases "epoch (shared_cb (bw, br, g)) = epoch (m_controlblock br)")
    case True
    have "looked (epoch (m_controlblock br)) (epoch (m_controlblock br)) (m - i) (n - m)"
      by (rule look_unnoticed)
        (use step True pair_bound(1) [OF core] h(18,19) in \<open>simp_all add: pair_step_def\<close>)
    then have "pair_step looked (bw, br, g) i m n" using True by (simp add: pair_step_def)
    with reader_in_step [OF plat core True] core show ?thesis by blast
  next
    case differ: False
    show ?thesis
    proof (cases "m = n")
      case True
      with reader_level [OF plat core [unfolded True] differ] show ?thesis by blast
    next
      case False
      obtain br' g' old' where f: "update_connectors (single_bus_class P cast) (br, g) = returns (US_OUTPUT, br', g')"
        "pair_core P cast seg valid taken sp j i n n US_NONE (bw, br', g') [] old' st"
        "pair_step looked (bw, br', g') i n n" "map cell_fifo old' = map cell_fifo (new @ old)"
        using reader_follows [OF plat core differ False] by (elim exE conjE) (rule that)
      then show ?thesis
        by (intro exI [of _ US_OUTPUT] exI [of _ br'] exI [of _ g'] exI [of _ n] exI [of _ "[]"] exI [of _ old'])
          (simp only: append_Nil simp_thms)
    qed
  qed
qed

section \<open>Pushing\<close>

lemma fifo_push_keeps:
  "fifo_pos (snd (fifo_push x f)) = fifo_pos f" "\<exists>ys. fifo_msgs (snd (fifo_push x f)) = fifo_msgs f @ ys"
  by (simp_all add: fifo_push_def)

lemma writer_attempt:
  fixes P :: "('h, 'o, 'l, 'b) platform"
  assumes plat: "pair_basis P cast seg nm valid taken"
    and holds: "writer_holds P cast seg valid taken sp j i m n (bw, br, g) new old st" and ne: "snd x \<noteq> []"
  shows "\<exists>bw' g' new' old'. on_output (connector_push (single_bidirectional_connector P) (fst x) (snd x)) (bw, g)
      = returns (fst (fifo_push x (cell_fifo (hd (new @ old)))), bw', g')
    \<and> writer_holds P cast seg valid taken sp j i m n (bw', br, g') new' old' st
    \<and> map cell_fifo (new' @ old') = snd (fifo_push x (cell_fifo (hd (new @ old)))) # map cell_fifo (tl (new @ old))"
proof -
  let ?a = "shared_bus_get_memory bw" and ?N = "names_of cast bw"
  have core: "bus_core P cast seg valid taken sp j i m n US_NONE (bw, br, g) new old st"
    using holds by (simp add: writer_holds_def)
  note h = bus_coreD [OF core]
  obtain y ys where y: "new @ old = y # ys" using bus_bound(2) [OF core] by (cases "new @ old") auto
  obtain k c ro f where k: "y = (k, c, ro, f)" by (cases y)
  let ?f' = "snd (fifo_push x f)"
  have env: "pair_env P cast seg valid taken bw g ([] @ y # ys) st" using h(24) y by simp
  have ok: "cell_ok P seg ?N g (k, c, ro, f)" using env_facts(4) [OF env] k by simp
  then have w: "entry_ok P seg ?N g (k, c, f)" and idle: "idle c" by (simp_all add: cell_ok_def)
  obtain z where z: "served P (sm_get (m_memory c)) (c, g) f"
    "conn_region P (sm_get (m_memory c)) f = seg_region (seg (sys g)) (?N k)"
    by (rule entry_okD [OF w])
  obtain c' g' where c': "conn_enq (single_bidirectional_connector P) x (c, g) = returns (fst (fifo_push x f), c', g')"
    "stays_served P (sm_get (m_memory c)) f (c, g) ?f' (c', g')"
    using served_enq [OF z(1) ne] by auto
  have idle': "idle c'" by (rule enq_idle [OF z(1) ne idle c'(1)])
  obtain zs where zs: "fifo_msgs ?f' = fifo_msgs f @ zs" using fifo_push_keeps(2) by blast
  have cell: "cell_ok P seg ?N g' (k, c', ro, ?f')"
    by (rule writer_op [OF ok c'(2) idle' fifo_push_keeps(1) zs])
  have sys: "sys g' = sys g" "elsewhere (seg_region (seg (sys g)) (?N k)) g g'" "fifo_cap ?f' = fifo_cap f"
    using c'(2) z(2) by (simp_all add: stays_served_def)
  let ?y = "(k, c', ro, ?f')" and ?b = "bw\<lparr>m_pconnectors := c' # tl (m_pconnectors bw)\<rparr>"
  have "pair_env P cast seg valid taken bw g' ([] @ ?y # ys) st" and load: "load_spec (gmem g') ?a = load_spec (gmem g) ?a"
    "load_cb (gmem g') ?a = load_cb (gmem g) ?a"
    using env_cell [OF plat env, of g' ?y] sys(2) cell env_facts(2) [OF env] by (simp_all add: k sys(1))
  then have env': "pair_env P cast seg valid taken bw g' (?y # ys) st" by simp
  have list: "m_pconnectors bw = c # map (fst \<circ> snd) (map writer_entry ys @ st)"
    unfolding h(14) y by (simp add: k)
  have run: "on_output (connector_push (single_bidirectional_connector P) (fst x) (snd x)) (bw, g)
      = returns (fst (fifo_push x f), ?b, g')"
    using c'(1) by (simp add: on_output_def list conn_enq_def)
  have "\<exists>new' old'. new' @ old' = ?y # ys \<and> writer_holds P cast seg valid taken sp j i m n (?b, br, g') new' old' st"
  proof (cases new)
    case Nil
    then have "old = y # ys" using y by simp
    then have "writer_holds P cast seg valid taken sp j i m n (?b, br, g') [] (?y # ys) st"
      using holds env' load list sys(3)
      by (simp add: writer_holds_def bus_core_def pair_step_def Let_def shared_cb_def lists_of_def numbered_def
        front_cap_def k Nil)
    then show ?thesis by (metis append_Nil)
  next
    case (Cons y1 new1)
    then have n: "new = y # new1" "ys = new1 @ old" using y by simp_all
    then have "writer_holds P cast seg valid taken sp j i m n (?b, br, g') (?y # new1) old st"
      using holds env' load list sys(3)
      by (simp add: writer_holds_def bus_core_def pair_step_def Let_def shared_cb_def lists_of_def numbered_def
        front_cap_def k)
    then show ?thesis using n(2) by (metis append_Cons)
  qed
  then obtain new' old' where cells: "new' @ old' = ?y # ys"
    "writer_holds P cast seg valid taken sp j i m n (?b, br, g') new' old' st" by blast
  have "map cell_fifo (new' @ old') = ?f' # map cell_fifo ys"
    using arg_cong [OF cells(1), of "map cell_fifo"] by simp
  then show ?thesis using run cells(2) unfolding y k
    by (intro exI [of _ ?b] exI [of _ g'] exI [of _ new'] exI [of _ old']) simp
qed

text \<open>The attempt between the two checks for the other process.\<close>

lemma writer_shared_push:
  fixes P :: "('h, 'o, 'l, 'b) platform"
  assumes plat: "pair_platform P cast seg nm valid taken"
    and holds: "writer_holds P cast seg valid taken sp j i m n (bw, br, g) new old st" and ne: "snd x \<noteq> []"
  shows "\<exists>bw' g' j' new' old' st'. shared_bus_push (single_bus_class P cast) (fst x) (snd x) (bw, g)
      = returns (fst (fifo_push x (cell_fifo (hd (new @ old)))), bw', g')
    \<and> writer_holds P cast seg valid taken sp j' i m n (bw', br, g') new' old' st'
    \<and> map cell_fifo (new' @ old') = snd (fifo_push x (cell_fifo (hd (new @ old)))) # map cell_fifo (tl (new @ old))"
proof -
  note basis = pair_lone(2) [OF plat]
  let ?B = "single_bus_class P cast"
  obtain u b1 g1 j1 st1 where 1: "update_connectors ?B (bw, g) = returns (u, b1, g1)" "u = US_NONE \<or> u = US_INPUT"
    "writer_holds P cast seg valid taken sp j1 i m n (b1, br, g1) new old st1"
    using writer_update [OF basis holds] by blast
  obtain b2 g2 new2 old2 where 2: "on_output (connector_push (single_bidirectional_connector P) (fst x) (snd x)) (b1, g1)
      = returns (fst (fifo_push x (cell_fifo (hd (new @ old)))), b2, g2)"
    "writer_holds P cast seg valid taken sp j1 i m n (b2, br, g2) new2 old2 st1"
    "map cell_fifo (new2 @ old2) = snd (fifo_push x (cell_fifo (hd (new @ old)))) # map cell_fifo (tl (new @ old))"
    using writer_attempt [OF basis 1(3) ne] by (elim exE conjE) (rule that)
  obtain u3 b3 g3 j3 st3 where 3: "update_connectors ?B (b2, g2) = returns (u3, b3, g3)" "u3 = US_NONE \<or> u3 = US_INPUT"
    "writer_holds P cast seg valid taken sp j3 i m n (b3, br, g3) new2 old2 st3"
    using writer_update [OF basis 2(2)] by blast
  let ?A = "base_bus_push (single_layout_of P cast) (fst x) (snd x)"
  have attempt: "?A (b1, g1) = returns (fst (fifo_push x (cell_fifo (hd (new @ old)))), b2, g2)"
    by (simp add: base_bus_push_def 2(1))
  have "push_again ?B ?A 0 (b1, g1)
      = (if fst (fifo_push x (cell_fifo (hd (new @ old)))) then returns (True, b3, g3) else returns (False, b2, g2))"
    using 3(2) by (subst push_again.simps)
      (auto simp: attempt update_output_connector_def lone_meanwhile [OF pair_lone(1) [OF plat]] 3(1))
  then have "shared_bus_push ?B (fst x) (snd x) (bw, g)
      = (if fst (fifo_push x (cell_fifo (hd (new @ old)))) then returns (True, b3, g3) else returns (False, b2, g2))"
    by (simp add: shared_bus_push_def update_output_connector_def 1(1))
  then show ?thesis using 2(2,3) 3(3) by (cases "fst (fifo_push x (cell_fifo (hd (new @ old))))") (simp, blast)+
qed

lemma pair_fresh:
  assumes "bus_core P cast seg valid taken sp j i m n us (bw, br, g) new old st"
  shows "of_nat n \<notin> fst ` set (new @ old)" "of_nat n \<notin> fst ` set st"
proof -
  note h = bus_coreD [OF assms] and bound = bus_bound(1) [OF assms]
  have "fst ` set (new @ old) = set (map fst new) \<union> set (map fst old)" by auto
  then show "of_nat n \<notin> fst ` set (new @ old)" using h(19,21,22) bound by (simp add: id_fresh del: set_map)
  have "fst ` set st = set (map fst st)" by simp
  then show "of_nat n \<notin> fst ` set st" using h(18,19,23) bound by (simp add: id_fresh del: set_map)
qed

lemma writer_add:
  fixes P :: "('h, 'o, 'l, 'b) platform"
  assumes plat: "pair_basis P cast seg nm valid taken"
    and holds: "writer_holds P cast seg valid taken sp j i m n (bw, br, g) new old st"
    and spec: "spec_keepalive_timeout sp = 0"
  shows "can_add_connector (single_layout_of P cast) (bw, g)"
    "\<exists>r bw' g'. shared_add_connector (single_layout_of P cast) (bw, g) = returns (r, bw', g')
      \<and> (if r then \<exists>y. writer_holds P cast seg valid taken sp j i m (Suc n) (bw', br, g') (y # new) old st
             \<and> cell_fifo y = new_fifo sp (map writer_entry (new @ old)) \<and> fifo_msgs (cell_fifo y) = []
             \<and> front_cap (map writer_entry (new @ old)) < fifo_cap (cell_fifo y) \<and> fifo_cap (cell_fifo y) < 4294967296
             \<and> epoch (shared_cb (bw', br, g')) = epoch (shared_cb (bw, br, g)) + 1
           else writer_holds P cast seg valid taken sp j i m n (bw', br, g') new old st
             \<and> stuck sp (map writer_entry (new @ old)))"
proof -
  let ?L = "single_layout_of P cast" and ?a = "shared_bus_get_memory bw" and ?es = "map writer_entry (new @ old)"
  let ?cb = "load_cb (gmem g) ?a" and ?f = "new_fifo sp ?es" and ?n = "names_of cast bw (of_nat n)"
  have core: "bus_core P cast seg valid taken sp j i m n US_NONE (bw, br, g) new old st"
    and step: "pair_step in_step (bw, br, g) i m n"
    using holds by (simp_all add: writer_holds_def)
  note h = bus_coreD [OF core] and lone = pair_bus [OF plat] and fresh = pair_fresh [OF core]
  have bound: "n < 4294967296" "0 < n" using bus_bound(1) [OF core] h(25) by simp_all
  have nxt: "output_id ?cb + 1 = of_nat n" unfolding h(9) by (rule id_next [OF bound(2)])
  have "(of_nat n :: u32) \<noteq> of_nat i" using h(25) bound by (simp add: id_inj)
  then show "can_add_connector ?L (bw, g)"
    using h(3,8) nxt by (simp add: can_add_connector_def get_controlblock_def get_shared_controlblock_def)
  have list: "m_pconnectors bw = map (fst \<circ> snd) ?es @ map (fst \<circ> snd) st" by (simp only: h(14) map_append)
  have some: "?es = [] \<Longrightarrow> map (fst \<circ> snd) st = []" using bus_bound(2) [OF core] by simp
  have fresh1: "output_id ?cb + 1 \<notin> fst ` set ?es" unfolding nxt writer_ids by (rule fresh(1))
  obtain p g' where p: "load_spec (gmem g') ?a = sp" "load_cb (gmem g') ?a = ?cb"
    and case_p: "case p of
         None \<Rightarrow> shared_add_connector ?L (bw, g) = returns (False, bw, g')
           \<and> surroundings P cast seg valid bw g' ?es \<and> stuck sp ?es
           \<and> g' = (opening_failed P ?n g)\<lparr>sys := shm_remove (papi P) ?n (sys (opening_failed P ?n g))\<rparr>
       | Some c \<Rightarrow> shared_add_connector ?L (bw, g)
             = returns (True, bw\<lparr>m_pconnectors := c # m_pconnectors bw, m_controlblock := (m_controlblock bw)\<lparr>output_id := of_nat n\<rparr>\<rparr>,
                 mapmem (store_cb ?a (?cb\<lparr>output_id := of_nat n, epoch := epoch ?cb + 1\<rparr>)) g')
           \<and> segment_made P seg ?n (opening_failed P ?n g) g' c
           \<and> fifo_msgs ?f = [] \<and> front_cap ?es < fifo_cap ?f \<and> fifo_cap ?f < 4294967296
           \<and> surroundings P cast seg valid bw g' ((of_nat n, c, ?f) # ?es)"
    using add_step [OF lone h(3) env_facts(1) [OF h(24)] list some refl fresh1 h(7) spec] unfolding nxt by blast
  show "\<exists>r bw' g'. shared_add_connector ?L (bw, g) = returns (r, bw', g')
      \<and> (if r then \<exists>y. writer_holds P cast seg valid taken sp j i m (Suc n) (bw', br, g') (y # new) old st
             \<and> cell_fifo y = ?f \<and> fifo_msgs (cell_fifo y) = [] \<and> front_cap ?es < fifo_cap (cell_fifo y)
             \<and> fifo_cap (cell_fifo y) < 4294967296 \<and> epoch (shared_cb (bw', br, g')) = epoch (shared_cb (bw, br, g)) + 1
           else writer_holds P cast seg valid taken sp j i m n (bw', br, g') new old st \<and> stuck sp ?es)"
  proof (cases p)
    case None
    then have run: "shared_add_connector ?L (bw, g) = returns (False, bw, g')" "stuck sp ?es"
      and g': "g' = (opening_failed P ?n g)\<lparr>sys := shm_remove (papi P) ?n (sys (opening_failed P ?n g))\<rparr>"
      using case_p by (simp_all only: option.case)
    have none: "seg (sys g) ?n = None" by (rule env_facts(5) [OF h(24) fresh(1)])
    note opened = failed_opening [OF plat env_facts(2) [OF h(24)] none]
    note gone = removed_missing [OF plat opened(2), of ?n]
    have "pair_env P cast seg valid taken bw g' (new @ old) st"
      by (rule env_sys [OF h(24)])
        (use opened gone none in \<open>auto simp: g' elsewhere_def fun_upd_idem\<close>)
    then have "writer_holds P cast seg valid taken sp j i m n (bw, br, g') new old st"
      using holds p by (simp add: writer_holds_def bus_core_def pair_step_def Let_def shared_cb_def lists_of_def)
    then show ?thesis using run by (intro exI [of _ False] exI [of _ bw] exI [of _ g']) simp
  next
    case (Some c)
    let ?b = "bw\<lparr>m_pconnectors := c # m_pconnectors bw, m_controlblock := (m_controlblock bw)\<lparr>output_id := of_nat n\<rparr>\<rparr>"
    let ?new = "?cb\<lparr>output_id := of_nat n, epoch := epoch ?cb + 1\<rparr>"
    let ?g = "mapmem (store_cb ?a ?new) g'" and ?y = "(of_nat n, c, None, ?f)"
    have s: "shared_add_connector ?L (bw, g) = returns (True, ?b, ?g)"
      "segment_made P seg ?n (opening_failed P ?n g) g' c"
      "fifo_msgs ?f = []" "front_cap ?es < fifo_cap ?f" "fifo_cap ?f < 4294967296"
      "surroundings P cast seg valid bw g' ((of_nat n, c, ?f) # ?es)"
      using case_p by (simp_all only: Some option.case)
    have "pair_env P cast seg valid taken bw g' (?y # new @ old) st"
      by (rule env_new [OF plat h(24) fresh s(2,6)])
    then have env: "pair_env P cast seg valid taken ?b ?g ((?y # new) @ old) st"
      using env_body [OF plat, where cb = ?new] by simp
    have "in_step (epoch ?cb + 1) (epoch (m_controlblock br)) (m - i) (Suc (n - m))"
      using step by (intro in_step_add) (simp add: pair_step_def shared_cb_def)
    moreover have "Suc n - m = Suc (n - m)" using h(19) by simp
    moreover have "id_range m (Suc n) = of_nat n # id_range m n" using h(19) by simp
    moreover have "Suc n \<le> fifo_cap ?f" using s(4) h(20) by simp
    ultimately have "writer_holds P cast seg valid taken sp j i m (Suc n) (?b, br, ?g) (?y # new) old st"
      using core env p h(18,19)
      by (simp add: writer_holds_def bus_core_def pair_step_def Let_def shared_cb_def lists_of_def numbered_def
        front_cap_def load_store_cb)
    then show ?thesis using s(1,3-5)
      by (intro exI [of _ True] exI [of _ ?b] exI [of _ ?g]) (auto simp: shared_cb_def load_store_cb p intro!: exI [of _ ?y])
  qed
qed

lemma writer_grow:
  fixes P :: "('h, 'o, 'l, 'b) platform"
  assumes plat: "pair_platform P cast seg nm valid taken"
    and spec: "spec_keepalive_timeout sp = 0" and ne: "snd x \<noteq> []"
    and "writer_holds P cast seg valid taken sp j i m n (bw, br, g) new old st"
  shows "\<exists>r bw' g' j' n' new' old' st'.
      grow (single_bus_class P cast) (shared_bus_push (single_bus_class P cast) (fst x) (snd x)) (bw, g)
      = returns (r, bw', g')
    \<and> writer_holds P cast seg valid taken sp j' i m n' (bw', br, g') new' old' st'
    \<and> cells_contents (new' @ old') = (if r then cells_contents (new @ old) @ [x] else cells_contents (new @ old))
    \<and> (\<not> r \<longrightarrow> \<not> fst (fifo_push x (cell_fifo (hd (new' @ old')))) \<and> stuck sp (map writer_entry (new' @ old')))"
  using assms(4)
proof (induction "4294967296 - front_cap (map writer_entry (new @ old))" arbitrary: bw g j n new old st rule: less_induct)
  case less
  note basis = pair_lone(2) [OF plat]
  let ?B = "single_bus_class P cast" and ?push = "shared_bus_push (single_bus_class P cast) (fst x) (snd x)"
  let ?f = "cell_fifo (hd (new @ old))"
  have core: "bus_core P cast seg valid taken sp j i m n US_NONE (bw, br, g) new old st"
    using less.prems by (simp add: writer_holds_def)
  have cells: "new @ old = hd (new @ old) # tl (new @ old)" using bus_bound(2) [OF core] by simp
  obtain b1 g1 j1 new1 old1 st1 where push: "?push (bw, g) = returns (fst (fifo_push x ?f), b1, g1)"
    "writer_holds P cast seg valid taken sp j1 i m n (b1, br, g1) new1 old1 st1"
    "map cell_fifo (new1 @ old1) = snd (fifo_push x ?f) # map cell_fifo (tl (new @ old))"
    using writer_shared_push [OF plat less.prems ne] by (elim exE conjE) (rule that)
  show ?case
  proof (cases "fst (fifo_push x ?f)")
    case True
    then have msgs: "fifo_msgs (snd (fifo_push x ?f)) = fifo_msgs ?f @ [x]"
      by (simp add: fifo_push_def split: if_split_asm)
    have "cells_contents (new @ old) = cells_contents (tl (new @ old)) @ fifo_msgs ?f"
      by (subst cells) simp
    moreover have "cells_contents (new1 @ old1) = cells_contents (tl (new @ old)) @ fifo_msgs (snd (fifo_push x ?f))"
      using push(3) by (simp only: contents_of_fifos) simp
    ultimately have "cells_contents (new1 @ old1) = cells_contents (new @ old) @ [x]" by (simp add: msgs)
    moreover have "grow ?B ?push (bw, g) = returns (True, b1, g1)" by (subst grow.simps) (simp add: push(1) True)
    ultimately show ?thesis using push(2) by (intro exI [of _ True] exI) simp
  next
    case False
    then have "snd (fifo_push x ?f) = ?f" by (simp add: fifo_push_def split: if_split_asm)
    then have "map cell_fifo (new1 @ old1) = map cell_fifo (hd (new @ old) # tl (new @ old))" using push(3) by simp
    then have same: "map cell_fifo (new1 @ old1) = map cell_fifo (new @ old)" unfolding cells [symmetric] .
    have core1: "bus_core P cast seg valid taken sp j1 i m n US_NONE (b1, br, g1) new1 old1 st1"
      using push(2) by (simp add: writer_holds_def)
    have head: "cell_fifo (hd (new1 @ old1)) = ?f"
      by (rule head_fifo [OF same bus_bound(2) [OF core1] bus_bound(2) [OF core]])
    have all: "cells_contents (new1 @ old1) = cells_contents (new @ old)" by (rule cells_contents_fifos [OF same])
    have cap: "front_cap (map writer_entry (new1 @ old1)) = front_cap (map writer_entry (new @ old))"
      by (rule front_cap_fifos [OF same])
    obtain r b2 g2 where add: "can_add_connector (single_layout_of P cast) (b1, g1)"
      "shared_add_connector (single_layout_of P cast) (b1, g1) = returns (r, b2, g2)"
      "if r then \<exists>y. writer_holds P cast seg valid taken sp j1 i m (Suc n) (b2, br, g2) (y # new1) old1 st1
             \<and> cell_fifo y = new_fifo sp (map writer_entry (new1 @ old1)) \<and> fifo_msgs (cell_fifo y) = []
             \<and> front_cap (map writer_entry (new1 @ old1)) < fifo_cap (cell_fifo y) \<and> fifo_cap (cell_fifo y) < 4294967296
             \<and> epoch (shared_cb (b2, br, g2)) = epoch (shared_cb (b1, br, g1)) + 1
           else writer_holds P cast seg valid taken sp j1 i m n (b2, br, g2) new1 old1 st1
             \<and> stuck sp (map writer_entry (new1 @ old1))"
      using writer_add [OF basis push(2) spec] by blast
    have grow: "grow ?B ?push (bw, g) = (if r then grow ?B ?push (b2, g2) else returns (False, b2, g2))"
      by (subst grow.simps) (simp add: push(1) False add(1,2))
    show ?thesis
    proof (cases r)
      case no: False
      then have "writer_holds P cast seg valid taken sp j1 i m n (b2, br, g2) new1 old1 st1"
        "stuck sp (map writer_entry (new1 @ old1))"
        using add(3) by simp_all
      then show ?thesis using grow no all head False
        by (intro exI [of _ False] exI [of _ b2] exI [of _ g2] exI [of _ j1] exI [of _ n] exI [of _ new1] exI [of _ old1]
            exI [of _ st1]) simp
    next
      case True
      then obtain y where y: "writer_holds P cast seg valid taken sp j1 i m (Suc n) (b2, br, g2) (y # new1) old1 st1"
        "fifo_msgs (cell_fifo y) = []" "front_cap (map writer_entry (new1 @ old1)) < fifo_cap (cell_fifo y)"
        "fifo_cap (cell_fifo y) < 4294967296"
        using add(3) by auto
      have "4294967296 - front_cap (map writer_entry ((y # new1) @ old1)) < 4294967296 - front_cap (map writer_entry (new @ old))"
        using y(3,4) cap by (simp add: front_cap_def)
      from less.hyps [OF this y(1)] obtain r' b3 g3 j3 n3 new3 old3 st3 where
        "grow ?B ?push (b2, g2) = returns (r', b3, g3)"
        "writer_holds P cast seg valid taken sp j3 i m n3 (b3, br, g3) new3 old3 st3"
        "cells_contents (new3 @ old3) = (if r' then cells_contents ((y # new1) @ old1) @ [x] else cells_contents ((y # new1) @ old1))"
        "\<not> r' \<longrightarrow> \<not> fst (fifo_push x (cell_fifo (hd (new3 @ old3)))) \<and> stuck sp (map writer_entry (new3 @ old3))"
        by (elim exE conjE) (rule that)
      then show ?thesis using grow True y(2) all
        by (intro exI [of _ r'] exI [of _ b3] exI [of _ g3] exI [of _ j3] exI [of _ n3] exI [of _ new3] exI [of _ old3]
            exI [of _ st3]) simp
    qed
  qed
qed

text \<open>The same with the reader at work.\<close>

lemma pair_grow:
  fixes P :: "('h, 'o, 'l, 'b) platform"
  assumes "pair_platform P cast seg nm valid taken" and "spec_keepalive_timeout sp = 0" and "snd x \<noteq> []"
    and "pair_holds P cast seg valid taken sp j i m n (bw, br, g) new old st"
  shows "\<exists>r bw' g' j' n' new' old' st'.
      grow (single_bus_class P cast) (shared_bus_push (single_bus_class P cast) (fst x) (snd x)) (bw, g)
      = returns (r, bw', g')
    \<and> pair_holds P cast seg valid taken sp j' i m n' (bw', br, g') new' old' st'
    \<and> cells_contents (new' @ old') = (if r then cells_contents (new @ old) @ [x] else cells_contents (new @ old))
    \<and> (\<not> r \<longrightarrow> \<not> fst (fifo_push x (cell_fifo (hd (new' @ old')))) \<and> stuck sp (map writer_entry (new' @ old')))"
  using writer_grow [OF assms(1-3), of j i m n bw br g new old st] assms(4) unfolding pair_writer by blast

lemma pair_add:
  fixes P :: "('h, 'o, 'l, 'b) platform"
  assumes "pair_basis P cast seg nm valid taken"
    and "pair_holds P cast seg valid taken sp j i m n (bw, br, g) new old st" and "spec_keepalive_timeout sp = 0"
  shows "\<exists>r bw' g'. shared_add_connector (single_layout_of P cast) (bw, g) = returns (r, bw', g')
      \<and> (if r then \<exists>y. pair_holds P cast seg valid taken sp j i m (Suc n) (bw', br, g') (y # new) old st
             \<and> cell_fifo y = new_fifo sp (map writer_entry (new @ old)) \<and> fifo_msgs (cell_fifo y) = []
             \<and> front_cap (map writer_entry (new @ old)) < fifo_cap (cell_fifo y) \<and> fifo_cap (cell_fifo y) < 4294967296
             \<and> epoch (shared_cb (bw', br, g')) = epoch (shared_cb (bw, br, g)) + 1
           else pair_holds P cast seg valid taken sp j i m n (bw', br, g') new old st
             \<and> stuck sp (map writer_entry (new @ old)))"
proof -
  note w = assms(2) [unfolded pair_writer]
  obtain r bw' g' where "shared_add_connector (single_layout_of P cast) (bw, g) = returns (r, bw', g')"
    "if r then \<exists>y. writer_holds P cast seg valid taken sp j i m (Suc n) (bw', br, g') (y # new) old st
             \<and> cell_fifo y = new_fifo sp (map writer_entry (new @ old)) \<and> fifo_msgs (cell_fifo y) = []
             \<and> front_cap (map writer_entry (new @ old)) < fifo_cap (cell_fifo y) \<and> fifo_cap (cell_fifo y) < 4294967296
             \<and> epoch (shared_cb (bw', br, g')) = epoch (shared_cb (bw, br, g)) + 1
           else writer_holds P cast seg valid taken sp j i m n (bw', br, g') new old st
             \<and> stuck sp (map writer_entry (new @ old))"
    using writer_add(2) [OF assms(1) conjunct1 [OF w] assms(3)] by (elim exE conjE) (rule that)
  then show ?thesis using conjunct2 [OF w]
    by (intro exI [of _ r] exI [of _ bw'] exI [of _ g']) (cases r; simp only: if_True if_False pair_writer simp_thms)
qed

end
