(* ===== verification/Bus_Pair_Reader.thy ===== *)
theory Bus_Pair_Reader
  imports Bus_Pair
begin

text \<open>
  The process that gets and pops on a bus that another one pushes to: an attempt on its last
  connector, the look for what the other process has done when it finds nothing, and the removal
  of an empty last connector while there is a newer one.
\<close>

section \<open>One attempt\<close>

lemma pair_last:
  assumes "pair_core P cast seg valid taken sp j i m n us (bw, br, g) new old st"
  obtains ys c cr f where "old = ys @ [(of_nat i, c, Some cr, f)]" "map Some (m_pconnectors br) = map cell_reader ys @ [Some cr]"
    "m_pconnectors br = butlast (m_pconnectors br) @ [cr]" "map Some (butlast (m_pconnectors br)) = map cell_reader ys"
proof -
  note h = pair_coreD [OF assms]
  obtain ys y where y: "old = ys @ [y]" using pair_bound(2) [OF assms] by (metis rev_exhaust)
  have "map fst ys @ [fst y] = id_range (Suc i) m @ [of_nat i]"
    using h(22) id_range_split [OF h(18)] by (simp add: y)
  then have "fst y = of_nat i" by simp
  then obtain c ro f where k: "y = (of_nat i, c, ro, f)" by (cases y) auto
  have list: "map Some (m_pconnectors br) = map cell_reader ys @ [ro]" using h(15) by (simp add: y k)
  then obtain cs cr where cs: "m_pconnectors br = cs @ [cr]" by (cases "m_pconnectors br" rule: rev_cases) auto
  with list have "ro = Some cr" "map Some cs = map cell_reader ys" by simp_all
  then show thesis using that [of ys c cr f] y k cs by simp
qed

lemma map_Some_split:
  assumes "map Some cs = map f (xs @ x # ys)"
  obtains cs1 c cs2 where "cs = cs1 @ c # cs2" "map Some cs1 = map f xs" "f x = Some c" "map Some cs2 = map f ys"
  using assms by (auto simp: map_eq_append_conv map_eq_Cons_conv)

text \<open>An operation \<open>F\<close> of the reader on one of its connectors.\<close>

lemma reader_cell:
  fixes P :: "('h, 'o, 'l, 'b) platform"
  assumes plat: "pair_basis P cast seg nm valid taken"
    and core: "pair_core P cast seg valid taken sp j i m n US_NONE (bw, br, g) new (pre @ x # suf) st"
    and op: "\<And>a cr. served P a (cr, g) (cell_fifo x) \<Longrightarrow> \<exists>r cr' g'. F (cr, g) = returns (r, cr', g')
      \<and> stays_served P a (cell_fifo x) (cr, g) f' (cr', g') \<and> Q r g'"
  obtains cs1 cr cs2 r cr' g' y where "m_pconnectors br = cs1 @ cr # cs2" "length cs1 = length pre" "length cs2 = length suf"
    "F (cr, g) = returns (r, cr', g')" "Q r g'" "cell_fifo y = f'"
    "pair_core P cast seg valid taken sp j i m n US_NONE (bw, br\<lparr>m_pconnectors := cs1 @ cr' # cs2\<rparr>, g') new (pre @ y # suf) st"
    "load_cb (gmem g') (shared_bus_get_memory bw) = load_cb (gmem g) (shared_bus_get_memory bw)"
proof -
  let ?N = "names_of cast bw" and ?a = "shared_bus_get_memory bw"
  note h = pair_coreD [OF core]
  obtain cs1 cr cs2 where cs: "m_pconnectors br = cs1 @ cr # cs2" "map Some cs1 = map cell_reader pre"
    "cell_reader x = Some cr" "map Some cs2 = map cell_reader suf"
    by (rule map_Some_split [OF h(15)])
  then obtain k c f where x: "x = (k, c, Some cr, f)" by (cases x) auto
  have env: "pair_env P cast seg valid taken bw g ((new @ pre) @ (k, c, Some cr, f) # suf) st"
    using h(24) by (simp add: x)
  have ok: "cell_ok P seg ?N g (k, c, Some cr, f)" using env_facts(4) [OF env] by simp
  then have r: "entry_ok P seg ?N g (k, cr, f)" by (simp add: cell_ok_def)
  obtain z where z: "served P (sm_get (m_memory cr)) (cr, g) f"
    "conn_region P (sm_get (m_memory cr)) f = seg_region (seg (sys g)) (?N k)"
    by (rule entry_okD [OF r])
  obtain res cr' g' where run: "F (cr, g) = returns (res, cr', g')" "Q res g'"
    "stays_served P (sm_get (m_memory cr)) f (cr, g) f' (cr', g')"
    using op [of "sm_get (m_memory cr)" cr] z(1) by (auto simp: x)
  let ?y = "(k, c, Some cr', f')" and ?br = "br\<lparr>m_pconnectors := cs1 @ cr' # cs2\<rparr>"
  have cell: "cell_ok P seg ?N g' ?y" by (rule reader_op [OF ok run(3)])
  have keep: "sys g' = sys g" "elsewhere (seg_region (seg (sys g)) (?N k)) g g'" "fifo_cap f' = fifo_cap f"
    using run(3) z(2) by (simp_all add: stays_served_def)
  note kept = env_cell [OF plat env, of g' ?y, simplified]
  have env': "pair_env P cast seg valid taken bw g' (new @ pre @ ?y # suf) st"
    and load: "load_spec (gmem g') ?a = load_spec (gmem g) ?a" "load_cb (gmem g') ?a = load_cb (gmem g) ?a"
    using kept keep(2) cell env_facts(2) [OF env] by (simp_all add: keep(1))
  have "front_cap (map writer_entry (new @ pre @ ?y # suf)) = front_cap (map writer_entry (new @ pre @ x # suf))"
    using keep(3) by (cases new; cases pre) (simp_all add: front_cap_def x)
  then have "pair_core P cast seg valid taken sp j i m n US_NONE (bw, ?br, g') new (pre @ ?y # suf) st"
    using core env' load cs(2,4)
    by (simp add: pair_core_def bus_core_def Let_def shared_cb_def lists_of_def numbered_def x)
  moreover have "length cs1 = length pre" "length cs2 = length suf"
    using cs(2,4) by (metis length_map)+
  ultimately show thesis using that [of cs1 cr cs2 res cr' g' ?y] cs(1) run(1,2) load(2) by simp
qed

lemma reader_attempt:
  fixes P :: "('h, 'o, 'l, 'b) platform"
  assumes plat: "pair_basis P cast seg nm valid taken"
    and core: "pair_core P cast seg valid taken sp j i m n US_NONE (bw, br, g) new old st"
    and op: "\<And>a cr. served P a (cr, g) (cell_fifo (last old)) \<Longrightarrow> \<exists>r cr' g'. F (cr, g) = returns (r, cr', g')
      \<and> stays_served P a (cell_fifo (last old)) (cr, g) f' (cr', g') \<and> Q r g'"
  shows "\<exists>r br' g' old'. on_input F (br, g) = returns (r, br', g') \<and> Q r g'
    \<and> pair_core P cast seg valid taken sp j i m n US_NONE (bw, br', g') new old' st
    \<and> m_controlblock br' = m_controlblock br
    \<and> load_cb (gmem g') (shared_bus_get_memory bw) = load_cb (gmem g) (shared_bus_get_memory bw)
    \<and> map cell_fifo old' = map cell_fifo (butlast old) @ [f']"
proof -
  obtain ys c cr0 f where y: "old = ys @ [(of_nat i, c, Some cr0, f)]" by (rule pair_last [OF core])
  then have x: "f = cell_fifo (last old)" by simp
  obtain cs1 cr cs2 r cr' g' z where run: "m_pconnectors br = cs1 @ cr # cs2" "length cs2 = length ([] :: 'h cell list)"
    "F (cr, g) = returns (r, cr', g')" "Q r g'" "cell_fifo z = f'"
    "pair_core P cast seg valid taken sp j i m n US_NONE (bw, br\<lparr>m_pconnectors := cs1 @ cr' # cs2\<rparr>, g') new (ys @ [z]) st"
    "load_cb (gmem g') (shared_bus_get_memory bw) = load_cb (gmem g) (shared_bus_get_memory bw)"
    by (rule reader_cell [where F = F and Q = Q and f' = f', OF plat core [unfolded y]]) (use op x in auto)
  then have "on_input F (br, g) = returns (r, br\<lparr>m_pconnectors := cs1 @ cr' # cs2\<rparr>, g')"
    by (simp add: on_input_def Let_def)
  then show ?thesis using run(4-7)
    by (intro exI [of _ r] exI [of _ "br\<lparr>m_pconnectors := cs1 @ cr' # cs2\<rparr>"] exI [of _ g'] exI [of _ "ys @ [z]"]) (simp add: y)
qed

text \<open>A push of the reader on the newest connector that it knows, when nobody has added one since.\<close>

lemma reader_pushes:
  fixes P :: "('h, 'o, 'l, 'b) platform"
  assumes plat: "pair_basis P cast seg nm valid taken"
    and core: "pair_core P cast seg valid taken sp j i m n US_NONE (bw, br, g) new (x # old) st" and ne: "snd msg \<noteq> []"
  shows "\<exists>br' g' y. on_output (connector_push (single_bidirectional_connector P) (fst msg) (snd msg)) (br, g)
      = returns (fst (fifo_push msg (cell_fifo x)), br', g')
    \<and> pair_core P cast seg valid taken sp j i m n US_NONE (bw, br', g') new (y # old) st
    \<and> cell_fifo y = snd (fifo_push msg (cell_fifo x)) \<and> m_controlblock br' = m_controlblock br
    \<and> load_cb (gmem g') (shared_bus_get_memory bw) = load_cb (gmem g) (shared_bus_get_memory bw)"
proof -
  let ?F = "connector_push (single_bidirectional_connector P) (fst msg) (snd msg)"
  have op: "\<exists>r cr' g'. ?F (cr, g) = returns (r, cr', g')
      \<and> stays_served P a (cell_fifo x) (cr, g) (snd (fifo_push msg (cell_fifo x))) (cr', g')
      \<and> r = fst (fifo_push msg (cell_fifo x))" if "served P a (cr, g) (cell_fifo x)" for a cr
    using served_enq [OF that ne] by (auto simp: conn_enq_def)
  obtain cs1 cr cs2 r cr' g' y where run: "m_pconnectors br = cs1 @ cr # cs2" "length cs1 = length ([] :: 'h cell list)"
    "?F (cr, g) = returns (r, cr', g')" "r = fst (fifo_push msg (cell_fifo x))" "cell_fifo y = snd (fifo_push msg (cell_fifo x))"
    "pair_core P cast seg valid taken sp j i m n US_NONE (bw, br\<lparr>m_pconnectors := cs1 @ cr' # cs2\<rparr>, g') new ([] @ y # old) st"
    "load_cb (gmem g') (shared_bus_get_memory bw) = load_cb (gmem g) (shared_bus_get_memory bw)"
    by (rule reader_cell [where pre = "[]" and F = ?F and Q = "\<lambda>r g'. r = fst (fifo_push msg (cell_fifo x))", OF plat _ op]) (use core in auto)
  then have "on_output ?F (br, g) = returns (r, br\<lparr>m_pconnectors := cs1 @ cr' # cs2\<rparr>, g')"
    by (simp add: on_output_def)
  then show ?thesis using run(4-7)
    by (intro exI [of _ "br\<lparr>m_pconnectors := cs1 @ cr' # cs2\<rparr>"] exI [of _ g'] exI [of _ y]) simp
qed

section \<open>The attempt and the look\<close>

text \<open>
  What getting and popping have in common: \<open>F\<close> on a connector with the FIFO \<open>f\<close> leaves it as
  \<open>T f\<close>; it succeeds when there is a message, and then \<open>Q\<close> tells what it returns.
\<close>

definition reading ::
  "('h, 'o, 'l, 'b) platform \<Rightarrow> (('h, 'o, 'l, 'b) site \<Rightarrow> ('r \<times> ('h, 'o, 'l, 'b) site) run) \<Rightarrow> ('r \<Rightarrow> bool)
    \<Rightarrow> (fifo \<Rightarrow> fifo) \<Rightarrow> ('r \<Rightarrow> ('o, 'l, 'b) globals \<Rightarrow> fifo \<Rightarrow> bool) \<Rightarrow> bool" where
  "reading P F ok T Q \<longleftrightarrow>
     (\<forall>a c g f. served P a (c, g) f \<longrightarrow> (\<exists>r c' g'. F (c, g) = returns (r, c', g')
        \<and> stays_served P a f (c, g) (T f) (c', g') \<and> ok r = (fifo_msgs f \<noteq> []) \<and> (ok r \<longrightarrow> Q r g' f)))
     \<and> (\<forall>f. fifo_msgs f = [] \<longrightarrow> T f = f)"

lemma reader_read:
  fixes P :: "('h, 'o, 'l, 'b) platform"
  assumes plat: "pair_platform P cast seg nm valid taken" and reading: "reading P F ok T Q"
    and holds: "pair_holds P cast seg valid taken sp j i m n (bw, br, g) new old st"
  shows "\<exists>r br' g' m' new' old'. read_again (single_bus_class P cast) (on_input F) ok 0 (br, g) = returns (r, br', g')
    \<and> ok r = (fifo_msgs (cell_fifo (last old)) \<noteq> []) \<and> (ok r \<longrightarrow> Q r g' (cell_fifo (last old)))
    \<and> pair_core P cast seg valid taken sp j i m' n US_NONE (bw, br', g') new' old' st
    \<and> pair_step (if ok r then in_step else looked) (bw, br', g') i m' n
    \<and> map cell_fifo (new' @ old') = map cell_fifo (new @ butlast old) @ [T (cell_fifo (last old))]"
proof -
  note basis = pair_lone(2) [OF plat]
  let ?B = "single_bus_class P cast" and ?f = "cell_fifo (last old)"
  have core: "pair_core P cast seg valid taken sp j i m n US_NONE (bw, br, g) new old st"
    and step: "pair_step in_step (bw, br, g) i m n"
    using holds by (simp_all add: pair_holds_def)
  have op: "\<exists>r cr' g'. F (cr, g) = returns (r, cr', g')
      \<and> stays_served P a ?f (cr, g) (T ?f) (cr', g') \<and> (ok r = (fifo_msgs ?f \<noteq> []) \<and> (ok r \<longrightarrow> Q r g' ?f))"
    if "served P a (cr, g) ?f" for a cr
    using reading that unfolding reading_def by blast
  note attempt = reader_attempt [OF basis core, where F = F and f' = "T ?f"
      and Q = "\<lambda>r g'. ok r = (fifo_msgs ?f \<noteq> []) \<and> (ok r \<longrightarrow> Q r g' ?f)"]
  obtain r b1 g1 old1 where a: "on_input F (br, g) = returns (r, b1, g1)"
    "ok r = (fifo_msgs ?f \<noteq> [])" "ok r \<longrightarrow> Q r g1 ?f"
    "pair_core P cast seg valid taken sp j i m n US_NONE (bw, b1, g1) new old1 st"
    "m_controlblock b1 = m_controlblock br"
    "load_cb (gmem g1) (shared_bus_get_memory bw) = load_cb (gmem g) (shared_bus_get_memory bw)"
    "map cell_fifo old1 = map cell_fifo (butlast old) @ [T ?f]"
    using attempt op by blast
  have step1: "pair_step in_step (bw, b1, g1) i m n" using step a(5,6) by (simp add: pair_step_def shared_cb_def)
  have fifos: "map cell_fifo (new @ old1) = map cell_fifo (new @ butlast old) @ [T ?f]" using a(7) by simp
  show ?thesis
  proof (cases "ok r")
    case True
    then have "read_again ?B (on_input F) ok 0 (br, g) = returns (r, b1, g1)"
      by (subst read_again.simps) (simp add: a(1))
    then show ?thesis using True a(2-4) step1 fifos
      by (intro exI [of _ r] exI [of _ b1] exI [of _ g1] exI [of _ m] exI [of _ new] exI [of _ old1]) simp
  next
    case False
    have holds1: "pair_holds P cast seg valid taken sp j i m n (bw, b1, g1) new old1 st"
      using a(4) step1 by (simp add: pair_holds_def)
    obtain u b2 g2 m2 new2 old2 where u: "update_connectors ?B (b1, g1) = returns (u, b2, g2)"
      "u = US_NONE \<or> u = US_OUTPUT"
      "pair_core P cast seg valid taken sp j i m2 n US_NONE (bw, b2, g2) new2 old2 st"
      "pair_step looked (bw, b2, g2) i m2 n" "map cell_fifo (new2 @ old2) = map cell_fifo (new @ old1)"
      using reader_update [OF basis holds1] by (elim exE conjE) (rule that)
    have "read_again ?B (on_input F) ok 0 (br, g) = returns (r, b2, g2)"
      using u(2) False
      by (subst read_again.simps) (auto simp: a(1) update_input_connector_def lone_meanwhile [OF pair_lone(1) [OF plat]] u(1))
    then show ?thesis using False a(2) u(3-5) fifos
      by (intro exI [of _ r] exI [of _ b2] exI [of _ g2] exI [of _ m2] exI [of _ new2] exI [of _ old2]) simp
  qed
qed

section \<open>Removing the last connector\<close>

lemma reader_remove:
  fixes P :: "('h, 'o, 'l, 'b) platform"
  assumes plat: "pair_basis P cast seg nm valid taken"
    and core: "pair_core P cast seg valid taken sp j i m n US_NONE (bw, br, g) new old st"
    and step: "pair_step looked (bw, br, g) i m n" and more: "i \<noteq> n - 1"
  shows "\<exists>br' g' st'. shared_remove_connector (single_layout_of P cast) (br, g) = returns (True, br', g')
    \<and> pair_holds P cast seg valid taken sp j (Suc i) m n (bw, br', g') new (butlast old) st'"
proof -
  let ?L = "single_layout_of P cast" and ?a = "shared_bus_get_memory bw"
  let ?cb = "load_cb (gmem g) ?a" and ?l = "m_controlblock br"
  note h = pair_coreD [OF core] and at = atomic_specD [OF lone_atomics [OF plat]]
  have bound: "n < 4294967296" by (rule pair_bound(1) [OF core])
  have "looked (epoch ?cb) (epoch ?l) (m - i) (n - m)" using step by (simp add: pair_step_def shared_cb_def)
  moreover have "2 \<le> m - i + (n - m)" using more h(18,19) by simp
  ultimately have nxt: "in_step (epoch ?cb + 1) (epoch ?l) (m - i - 1) (n - m)" and two: "2 \<le> m - i"
    by (rule looked_remove)+
  obtain ys c cr f where y: "old = ys @ [(of_nat i, c, Some cr, f)]"
    and list: "m_pconnectors br = butlast (m_pconnectors br) @ [cr]"
      "map Some (butlast (m_pconnectors br)) = map cell_reader ys"
    by (rule pair_last [OF core])
  let ?cs = "butlast (m_pconnectors br)"
  have lt: "Suc i < m" "Suc i < n" using two h(19) by simp_all
  have "length ys = m - i - 1" using arg_cong [OF h(22), of length] by (simp add: y)
  then have ne: "ys \<noteq> []" using two by auto
  then have ne': "?cs \<noteq> []" using list(2) by auto
  have env: "pair_env P cast seg valid taken bw g ((new @ ys) @ [(of_nat i, c, Some cr, f)]) st"
    using h(24) by (simp add: y)
  obtain cr' g' where d: "v_destroy (single_bidirectional_connector P) (cr, g) = returns (cr', g')"
    "pair_env P cast seg valid taken bw g' (new @ ys) ((of_nat i, c, f) # st)"
    "load_spec (gmem g') ?a = load_spec (gmem g) ?a" "load_cb (gmem g') ?a = ?cb"
    using cell_dropped [OF plat env] by blast
  let ?new = "?cb\<lparr>input_id := of_nat (Suc i), epoch := epoch ?cb + 1\<rparr>"
  let ?g = "mapmem (store_cb ?a ?new) g'"
  let ?br = "br\<lparr>m_pconnectors := ?cs, m_controlblock := ?l\<lparr>input_id := of_nat (Suc i)\<rparr>\<rparr>"
  have cb: "get_controlblock ?L (br\<lparr>m_pconnectors := cs\<rparr>, g'') = load_cb (gmem g'') ?a" for cs g''
    using h(4,6) by (simp add: get_controlblock_def get_shared_controlblock_def)
  have "base_remove_connector ?L (br, g)
      = returns (True, put_controlblock ?L ?new (br\<lparr>m_pconnectors := ?cs\<rparr>, g'))"
    using remove_step [OF list(1) ne' d(1) cb] d(4) h(8) by (simp add: add.commute [of 1])
  then have "shared_remove_connector ?L (br, g) = returns (True, ?br, ?g)"
    using h(4,6) by (simp add: shared_remove_connector_def put_controlblock_def atomic_cb_def at get_shared_controlblock_def)
  moreover have "map fst ys @ [of_nat i] = id_range (Suc i) m @ [of_nat i]"
    using h(22) id_range_split [OF h(18)] by (simp add: y)
  then have ids: "map fst ys = id_range (Suc i) m" by simp
  have "id_range j (Suc i) = of_nat i # id_range j i" using h(17) by simp
  moreover have "front_cap (map writer_entry (new @ ys)) = front_cap (map writer_entry (new @ old))"
    using ne by (cases new; cases ys) (simp_all add: front_cap_def y)
  moreover have "pair_env P cast seg valid taken bw ?g (new @ ys) ((of_nat i, c, f) # st)"
    by (rule env_body [OF plat d(2)])
  ultimately have "pair_holds P cast seg valid taken sp j (Suc i) m n (bw, ?br, ?g) new ys ((of_nat i, c, f) # st)"
    using core nxt ids two lt list(2) d(3,4)
    by (simp add: pair_holds_def pair_core_def bus_core_def pair_step_def Let_def shared_cb_def lists_of_def numbered_def y)
  then show ?thesis using \<open>shared_remove_connector ?L (br, g) = returns (True, ?br, ?g)\<close>
    by (intro exI [of _ ?br] exI [of _ ?g] exI [of _ "(of_nat i, c, f) # st"]) (simp add: y)
qed

section \<open>The loop of getting and popping\<close>

lemma contents_back:
  assumes "map cell_fifo xs = map cell_fifo ys @ [f]"
  shows "cells_contents xs = fifo_msgs f @ cells_contents ys"
  using assms by (simp add: contents_of_fifos del: map_map)

lemma last_cell: "old \<noteq> [] \<Longrightarrow> map cell_fifo (new @ old) = map cell_fifo (new @ butlast old) @ [cell_fifo (last old)]"
  by (cases old rule: rev_cases) simp_all

lemma reader_room:
  assumes "pair_core P cast seg valid taken sp j i m n US_NONE (bw, br, g) new old st"
  shows "can_remove_connector (single_layout_of P cast) (br, g) \<longleftrightarrow> i \<noteq> n - 1"
proof -
  note h = pair_coreD [OF assms] and bound = pair_bound(1) [OF assms]
  have "(of_nat i :: u32) = of_nat (n - 1) \<longleftrightarrow> i = n - 1" using h(18,19) bound by (intro id_inj) simp_all
  then show ?thesis
    using h(4,6,8,9) by (simp add: can_remove_connector_def get_controlblock_def get_shared_controlblock_def del: of_nat_diff)
qed

lemma reader_advance:
  fixes P :: "('h, 'o, 'l, 'b) platform"
  assumes plat: "pair_platform P cast seg nm valid taken" and reading: "reading P F ok T Q"
    and "pair_holds P cast seg valid taken sp j i m n (bw, br, g) new old st"
  shows "\<exists>r br' g' i' m' new' old' st' f rest.
      advance (single_bus_class P cast) (read_again (single_bus_class P cast) (on_input F) ok 0) ok (br, g) = returns (r, br', g')
    \<and> pair_holds P cast seg valid taken sp j i' m' n (bw, br', g') new' old' st'
    \<and> cells_contents (new @ old) = fifo_msgs f @ rest \<and> cells_contents (new' @ old') = fifo_msgs (T f) @ rest
    \<and> (fifo_msgs f = [] \<longrightarrow> rest = []) \<and> ok r = (fifo_msgs f \<noteq> []) \<and> (ok r \<longrightarrow> Q r g' f)"
  using assms(3)
proof (induction "n - i" arbitrary: i m br g new old st rule: less_induct)
  case less
  note basis = pair_lone(2) [OF plat]
  let ?B = "single_bus_class P cast" and ?f = "cell_fifo (last old)" and ?rest = "cells_contents (new @ butlast old)"
  let ?attempt = "read_again ?B (on_input F) ok 0"
  have core: "pair_core P cast seg valid taken sp j i m n US_NONE (bw, br, g) new old st"
    using less.prems by (simp add: pair_holds_def)
  note h = pair_coreD [OF core]
  have all: "cells_contents (new @ old) = fifo_msgs ?f @ ?rest"
    by (rule contents_back [OF last_cell [OF pair_bound(2) [OF core]]])
  obtain r b1 g1 m1 new1 old1 where a: "?attempt (br, g) = returns (r, b1, g1)" "ok r = (fifo_msgs ?f \<noteq> [])"
    "ok r \<longrightarrow> Q r g1 ?f" "pair_core P cast seg valid taken sp j i m1 n US_NONE (bw, b1, g1) new1 old1 st"
    "pair_step (if ok r then in_step else looked) (bw, b1, g1) i m1 n"
    "map cell_fifo (new1 @ old1) = map cell_fifo (new @ butlast old) @ [T ?f]"
    using reader_read [OF plat reading less.prems] by (elim exE conjE) (rule that)
  have all1: "cells_contents (new1 @ old1) = fifo_msgs (T ?f) @ ?rest" by (rule contents_back [OF a(6)])
  have holds1: "pair_holds P cast seg valid taken sp j i m1 n (bw, b1, g1) new1 old1 st"
    using a(4,5) looked_in_step by (auto simp: pair_holds_def pair_step_def split: if_splits)
  show ?case
  proof (cases "ok r \<or> i = n - 1")
    case True
    have "?rest = []" if "\<not> ok r"
    proof -
      have "length new + length old = n - i"
        using arg_cong [OF h(21), of length] arg_cong [OF h(22), of length] h(18,19) by simp
      then have "length new + length old = 1" using True that h(18,19) by simp
      then have "new = []" "butlast old = []" using pair_bound(2) [OF core] by (cases old; auto)+
      then show ?thesis by simp
    qed
    then have rest: "fifo_msgs ?f = [] \<longrightarrow> ?rest = []" using a(2) by blast
    have "advance ?B ?attempt ok (br, g) = returns (r, b1, g1)"
      using True by (subst advance.simps) (auto simp: a(1) reader_room [OF a(4)])
    then show ?thesis using holds1 all all1 rest a(2,3)
      by (intro exI [of _ r] exI [of _ b1] exI [of _ g1] exI [of _ i] exI [of _ m1] exI [of _ new1] exI [of _ old1]
          exI [of _ st] exI [of _ ?f] exI [of _ ?rest] conjI)
  next
    case False
    then have empty: "fifo_msgs ?f = []" and more: "i \<noteq> n - 1" and "\<not> ok r" using a(2) by simp_all
    have same: "T ?f = ?f" using reading empty by (simp add: reading_def)
    have step1: "pair_step looked (bw, b1, g1) i m1 n" using a(5) False by simp
    obtain b2 g2 st2 where b2: "shared_remove_connector (single_layout_of P cast) (b1, g1) = returns (True, b2, g2)"
      "pair_holds P cast seg valid taken sp j (Suc i) m1 n (bw, b2, g2) new1 (butlast old1) st2"
      using reader_remove [OF basis a(4) step1 more] by blast
    have loop: "advance ?B ?attempt ok (br, g) = advance ?B ?attempt ok (b2, g2)"
      using False by (subst advance.simps) (simp add: a(1) reader_room [OF a(4)] b2(1))
    have "map cell_fifo (new1 @ butlast old1) = map cell_fifo (new @ butlast old)"
      using a(6) last_cell [OF pair_bound(2) [OF a(4)], of new1] by simp
    then have left: "cells_contents (new1 @ butlast old1) = cells_contents (new @ old)"
      using cells_contents_fifos empty all by (metis append_Nil)
    have "n - Suc i < n - i" using h(18,19) by simp
    from less.hyps [OF this b2(2)] show ?thesis unfolding loop left by blast
  qed
qed

text \<open>Getting and popping.\<close>

lemma readingI:
  assumes "\<And>a c g f. served P a (c, g) f \<Longrightarrow> \<exists>r s'. F (c, g) = returns (r, s')
      \<and> stays_served P a f (c, g) (T f) s' \<and> ok r = (fifo_msgs f \<noteq> []) \<and> Q r (snd s') f"
    and "\<And>f. fifo_msgs f = [] \<Longrightarrow> T f = f"
  shows "reading P F ok T Q"
  unfolding reading_def
proof (intro conjI allI impI)
  fix a c g f assume "served P a (c, g) f"
  from assms(1) [OF this] obtain r s' where "F (c, g) = returns (r, s')" "stays_served P a f (c, g) (T f) s'"
    "ok r = (fifo_msgs f \<noteq> [])" "Q r (snd s') f" by blast
  then show "\<exists>r c' g'. F (c, g) = returns (r, c', g') \<and> stays_served P a f (c, g) (T f) (c', g')
      \<and> ok r = (fifo_msgs f \<noteq> []) \<and> (ok r \<longrightarrow> Q r g' f)"
    by (intro exI [of _ r] exI [of _ "fst s'"] exI [of _ "snd s'"]) simp
qed (rule assms(2))

lemma get_reading: "reading P (connector_get (single_bidirectional_connector P)) (\<lambda>ps. ps \<noteq> []) (\<lambda>f. f)
    (\<lambda>ps g f. read_message (gmem g) ps = fifo_get f)"
proof (rule readingI)
  fix a c g f assume "served P a (c, g) f"
  from served_get [OF this] obtain ps s' where r: "connector_get (single_bidirectional_connector P) (c, g) = returns (ps, s')"
    "read_message (gmem (snd s')) ps = fifo_get f" "stays_served P a f (c, g) f s'" by blast
  moreover have "(ps \<noteq> []) = (fifo_msgs f \<noteq> [])"
    using r(2) by (auto simp: read_message_def fifo_get_def split: if_splits list.splits)
  ultimately show "\<exists>r s'. connector_get (single_bidirectional_connector P) (c, g) = returns (r, s')
      \<and> stays_served P a f (c, g) f s' \<and> (r \<noteq> []) = (fifo_msgs f \<noteq> []) \<and> read_message (gmem (snd s')) r = fifo_get f"
    by blast
qed simp

lemma pop_reading: "reading P (connector_pop (single_bidirectional_connector P)) (\<lambda>b. b) (\<lambda>f. snd (fifo_pop f)) (\<lambda>_ _ _. True)"
proof (rule readingI)
  fix a c g f assume "served P a (c, g) f"
  from served_deq [OF this] obtain s' where "connector_pop (single_bidirectional_connector P) (c, g) = returns (fst (fifo_pop f), s')"
    "stays_served P a f (c, g) (snd (fifo_pop f)) s'" by (auto simp: conn_deq_def)
  moreover have "fst (fifo_pop f) = (fifo_msgs f \<noteq> [])" by (simp add: fifo_pop_def split: list.splits)
  ultimately show "\<exists>r s'. connector_pop (single_bidirectional_connector P) (c, g) = returns (r, s')
      \<and> stays_served P a f (c, g) (snd (fifo_pop f)) s' \<and> r = (fifo_msgs f \<noteq> []) \<and> True"
    by (intro exI [of _ "fst (fifo_pop f)"] exI [of _ s']) simp
qed (simp add: fifo_pop_def)

end
