(* ===== verification/Two_Processes.thy ===== *)
theory Two_Processes
  imports Bus_Pair_Reader
begin

text \<open>
  Two processes on one bus of single connectors, as one queue: the first creates the bus and
  pushes, the second opens it, at once or when the first has already pushed to it, gets and pops.
  The queue that the two make is without loss, in whatever order their calls come.
\<close>

section \<open>Their calls\<close>

definition pair_enq ::
  "('h, 'o, 'l, 'b) bus_vtable \<Rightarrow> message \<Rightarrow> ('h, 'o, 'l, 'b) pair \<Rightarrow> (bool \<times> ('h, 'o, 'l, 'b) pair) run" where
  "pair_enq V x s = (case s of (bw, br, g) \<Rightarrow>
     and_then (bus_push V (fst x) (snd x) (bw, g)) (\<lambda>(r, bw1, g1). returns (r, bw1, br, g1)))"

definition pair_front ::
  "('h, 'o, 'l, 'b) bus_vtable \<Rightarrow> ('h, 'o, 'l, 'b) pair \<Rightarrow> (message option \<times> ('h, 'o, 'l, 'b) pair) run" where
  "pair_front V s = (case s of (bw, br, g) \<Rightarrow>
     and_then (bus_get V (br, g)) (\<lambda>(ps, br1, g1). returns (read_message (gmem g1) ps, bw, br1, g1)))"

definition pair_deq ::
  "('h, 'o, 'l, 'b) bus_vtable \<Rightarrow> ('h, 'o, 'l, 'b) pair \<Rightarrow> (bool \<times> ('h, 'o, 'l, 'b) pair) run" where
  "pair_deq V s = (case s of (bw, br, g) \<Rightarrow>
     and_then (bus_pop V (br, g)) (\<lambda>(r, br1, g1). returns (r, bw, br1, g1)))"

definition pair_line ::
  "('h, 'o, 'l, 'b) platform \<Rightarrow> (id_type \<Rightarrow> string) \<Rightarrow> ('o \<Rightarrow> string \<Rightarrow> (nat \<times> u64) option) \<Rightarrow> ('o \<Rightarrow> 'h \<Rightarrow> string)
    \<Rightarrow> ('o \<Rightarrow> bool) \<Rightarrow> ('o \<Rightarrow> nat set) \<Rightarrow> ('h, 'o, 'l, 'b) pair \<Rightarrow> message list \<Rightarrow> bool" where
  "pair_line P cast seg nm valid taken s xs \<longleftrightarrow> pair_platform P cast seg nm valid taken
     \<and> (\<exists>sp j i m n new old st. spec_keepalive_timeout sp = 0
          \<and> pair_holds P cast seg valid taken sp j i m n s new old st \<and> cells_contents (new @ old) = xs)"

lemma pair_lineI:
  "\<lbrakk>pair_platform P cast seg nm valid taken; spec_keepalive_timeout sp = 0;
    pair_holds P cast seg valid taken sp j i m n s new old st; cells_contents (new @ old) = xs\<rbrakk>
    \<Longrightarrow> pair_line P cast seg nm valid taken s xs"
  unfolding pair_line_def by blast

lemma pair_lineE:
  assumes "pair_line P cast seg nm valid taken (bw, br, g) xs"
  obtains sp j i m n new old st where "pair_platform P cast seg nm valid taken" "spec_keepalive_timeout sp = 0"
    "pair_holds P cast seg valid taken sp j i m n (bw, br, g) new old st" "cells_contents (new @ old) = xs"
    "b_opened bw" "b_opened br"
proof -
  obtain sp j i m n new old st where h: "pair_platform P cast seg nm valid taken" "spec_keepalive_timeout sp = 0"
    "pair_holds P cast seg valid taken sp j i m n (bw, br, g) new old st" "cells_contents (new @ old) = xs"
    using assms unfolding pair_line_def by blast
  have "b_opened bw" "b_opened br" using h(3) by (simp_all add: pair_holds_def pair_core_def bus_core_def Let_def)
  with h show thesis by (rule that)
qed

lemma pair_enq_law:
  assumes "pair_line P cast seg nm valid taken s xs" and ne: "snd x \<noteq> []"
  shows "\<exists>b s'. pair_enq (single_bus P cast) x s = returns (b, s')
    \<and> pair_line P cast seg nm valid taken s' (if b then xs @ [x] else xs)"
proof -
  obtain bw br g where s: "s = (bw, br, g)" by (cases s)
  obtain sp j i m n new old st where h: "pair_platform P cast seg nm valid taken" "spec_keepalive_timeout sp = 0"
    "pair_holds P cast seg valid taken sp j i m n (bw, br, g) new old st" "cells_contents (new @ old) = xs"
    "b_opened bw" by (rule pair_lineE [OF assms(1) [unfolded s]])
  obtain r bw' g' j' n' new' old' st' where r:
    "grow (single_bus_class P cast) (shared_bus_push (single_bus_class P cast) (fst x) (snd x)) (bw, g)
      = returns (r, bw', g')"
    "pair_holds P cast seg valid taken sp j' i m n' (bw', br, g') new' old' st'"
    "cells_contents (new' @ old') = (if r then cells_contents (new @ old) @ [x] else cells_contents (new @ old))"
    using pair_grow [OF h(1,2) ne h(3)] by (elim exE conjE) (rule that)
  have "pair_line P cast seg nm valid taken (bw', br, g') (if r then xs @ [x] else xs)"
    by (rule pair_lineI [OF h(1,2) r(2)]) (simp only: r(3) h(4))
  then show ?thesis using r(1) h(5)
    by (intro exI [of _ r] exI [of _ "(bw', br, g')"]) (simp add: s pair_enq_def bus_push_def)
qed

lemma reads_by_attempts:
  "shared_bus_get (single_bus_class P cast) = read_again (single_bus_class P cast)
     (on_input (connector_get (single_bidirectional_connector P))) (\<lambda>ps. ps \<noteq> []) 0"
  "shared_bus_pop (single_bus_class P cast) = read_again (single_bus_class P cast)
     (on_input (connector_pop (single_bidirectional_connector P))) (\<lambda>b. b) 0"
  by (simp_all add: fun_eq_iff shared_bus_get_def shared_bus_pop_def base_bus_get_def [abs_def] base_bus_pop_def [abs_def])

lemma pair_front_law:
  assumes "pair_line P cast seg nm valid taken s xs"
  shows "\<exists>s'. pair_front (single_bus P cast) s = returns (first_of xs, s') \<and> pair_line P cast seg nm valid taken s' xs"
proof -
  obtain bw br g where s: "s = (bw, br, g)" by (cases s)
  obtain sp j i m n new old st where h: "pair_platform P cast seg nm valid taken" "spec_keepalive_timeout sp = 0"
    "pair_holds P cast seg valid taken sp j i m n (bw, br, g) new old st" "cells_contents (new @ old) = xs"
    "b_opened br" by (rule pair_lineE [OF assms [unfolded s]])
  obtain r br' g' i' m' new' old' st' f rest where r:
    "advance (single_bus_class P cast) (shared_bus_get (single_bus_class P cast)) (\<lambda>ps. ps \<noteq> []) (br, g) = returns (r, br', g')"
    "pair_holds P cast seg valid taken sp j i' m' n (bw, br', g') new' old' st'"
    "xs = fifo_msgs f @ rest" "cells_contents (new' @ old') = fifo_msgs f @ rest"
    "fifo_msgs f = [] \<longrightarrow> rest = []" "(r \<noteq> []) = (fifo_msgs f \<noteq> [])" "r \<noteq> [] \<longrightarrow> read_message (gmem g') r = fifo_get f"
    using reader_advance [OF h(1) get_reading h(3), unfolded h(4), folded reads_by_attempts]
    by (elim exE conjE) (rule that)
  have "read_message (gmem g') r = first_of xs"
    using r(3,5-7) by (cases "fifo_msgs f") (auto simp: fifo_get_def first_of_def read_message_def)
  moreover have "pair_line P cast seg nm valid taken (bw, br', g') xs"
    by (rule pair_lineI [OF h(1,2) r(2)]) (simp only: r(3,4))
  ultimately show ?thesis using r(1) h(5) by (simp add: s pair_front_def bus_get_def)
qed

lemma pair_deq_law:
  assumes "pair_line P cast seg nm valid taken s xs"
  shows "\<exists>s'. pair_deq (single_bus P cast) s = returns (xs \<noteq> [], s') \<and> pair_line P cast seg nm valid taken s' (tl xs)"
proof -
  obtain bw br g where s: "s = (bw, br, g)" by (cases s)
  obtain sp j i m n new old st where h: "pair_platform P cast seg nm valid taken" "spec_keepalive_timeout sp = 0"
    "pair_holds P cast seg valid taken sp j i m n (bw, br, g) new old st" "cells_contents (new @ old) = xs"
    "b_opened br" by (rule pair_lineE [OF assms [unfolded s]])
  obtain r br' g' i' m' new' old' st' f rest where r:
    "advance (single_bus_class P cast) (shared_bus_pop (single_bus_class P cast)) (\<lambda>b. b) (br, g) = returns (r, br', g')"
    "pair_holds P cast seg valid taken sp j i' m' n (bw, br', g') new' old' st'"
    "xs = fifo_msgs f @ rest" "cells_contents (new' @ old') = fifo_msgs (snd (fifo_pop f)) @ rest"
    "fifo_msgs f = [] \<longrightarrow> rest = []" "r = (fifo_msgs f \<noteq> [])"
    using reader_advance [OF h(1) pop_reading h(3), unfolded h(4), folded reads_by_attempts]
    by (elim exE conjE) (rule that)
  have "r = (xs \<noteq> [])" "cells_contents (new' @ old') = tl xs"
    using r(3-6) by (cases "fifo_msgs f"; auto simp: fifo_pop_def)+
  moreover from this(2) have "pair_line P cast seg nm valid taken (bw, br', g') (tl xs)"
    by (rule pair_lineI [OF h(1,2) r(2)])
  ultimately show ?thesis using r(1) h(5) by (simp add: s pair_deq_def bus_pop_def)
qed

interpretation pair_queue: lossless_queue "pair_enq (single_bus P cast)" "pair_front (single_bus P cast)"
    "pair_deq (single_bus P cast)" "pair_line P cast seg nm valid taken" for P cast seg nm valid taken
  by unfold_locales (fact pair_enq_law pair_front_law pair_deq_law)+

section \<open>Creating and opening the bus\<close>

lemma first_cell:
  assumes plat: "pair_basis P cast seg nm valid taken" and holds: "bus_holds P cast seg valid sp (b, g) [(0, c, f)]"
    and made: "segment_made P seg n g0 g c"
  shows "pair_env P cast seg valid taken b g [(0, c, None, f)] []"
    "input_id (load_cb (gmem g) (shared_bus_get_memory b)) = 0" "output_id (load_cb (gmem g) (shared_bus_get_memory b)) = 0"
proof -
  let ?cb = "load_cb (gmem g) (shared_bus_get_memory b)"
  have sur: "surroundings P cast seg valid b g [(0, c, f)]"
    and ids: "[0] = ids_down (input_id ?cb) (Suc (unat (output_id ?cb - input_id ?cb)))"
    using holds by (simp_all add: bus_holds_def Let_def)
  have "users (sm_get (m_memory c)) (gmem g) = 1" "idle c"
    using made by (auto simp: segment_made_def idle_def simple_open_idle)
  then show "pair_env P cast seg valid taken b g [(0, c, None, f)] []"
    using sur by (simp add: pair_env_def cell_ok_def conn_users_def) (simp add: surroundings_def)
  have dist: "unat (output_id ?cb - input_id ?cb) = 0" using arg_cong [OF ids, of length] by (simp add: length_ids_down)
  then show "input_id ?cb = 0" using ids by (simp add: ids_down_def)
  then show "output_id ?cb = 0" using dist by (simp add: unat_eq_0)
qed

text \<open>Opening walks through the identifiers and makes an object for each cell.\<close>

lemma cells_opened:
  fixes P :: "('h, 'o, 'l, 'b) platform"
  assumes plat: "pair_basis P cast seg nm valid taken" and n: "n < 4294967296"
    and "pair_env P cast seg valid taken bw g (new @ old) []" and "map fst new = id_range m n" "m < n"
    and "\<forall>x \<in> set new. cell_reader x = None"
    and "b_name br = b_name bw" "shared_bus_get_memory br = shared_bus_get_memory bw" "m_status br = US_NONE"
    and "map Some (m_pconnectors br) = map cell_reader old"
    and "output_id (load_cb (gmem g) (shared_bus_get_memory bw)) = of_nat (n - 1)"
  shows "\<exists>cs g' old'. open_loop (single_layout_of P cast) (of_nat m) (br, g) = returns (True, br\<lparr>m_pconnectors := cs\<rparr>, g')
    \<and> pair_env P cast seg valid taken bw g' old' [] \<and> map Some cs = map cell_reader old'
    \<and> map writer_entry old' = map writer_entry (new @ old)
    \<and> load_spec (gmem g') (shared_bus_get_memory bw) = load_spec (gmem g) (shared_bus_get_memory bw)
    \<and> load_cb (gmem g') (shared_bus_get_memory bw) = load_cb (gmem g) (shared_bus_get_memory bw)"
  using assms(3-)
proof (induction new arbitrary: br g m old rule: rev_induct)
  case Nil
  then show ?case by (metis id_range_simps(3) length_map list.size(3) zero_less_diff less_nat_zero_code)
next
  case (snoc x new)
  let ?L = "single_layout_of P cast" and ?a = "shared_bus_get_memory bw"
  note br = snoc.prems(5-8)
  have "map fst new @ [fst x] = id_range (Suc m) n @ [of_nat m]"
    using snoc.prems(2) id_range_split [OF snoc.prems(3)] by simp
  then have ids: "map fst new = id_range (Suc m) n" "fst x = of_nat m" by simp_all
  obtain c f where x: "x = (of_nat m, c, None, f)" using snoc.prems(4) ids(2) by (cases x) auto
  have env: "pair_env P cast seg valid taken bw g (new @ (of_nat m, c, None, f) # old) []" using snoc.prems(1) by (simp add: x)
  let ?parent = "if m_pconnectors br \<noteq> [] then m_pqueue (hd (m_pconnectors br)) else None"
  obtain cr g1 where cr: "connector_open (single_bidirectional_connector P) ?parent
        (new_connector (names_of cast bw (of_nat m)) CON_BIDIR, g) = returns (True, cr, g1)"
    "pair_env P cast seg valid taken bw g1 (new @ (of_nat m, c, Some cr, f) # old) []"
    "load_spec (gmem g1) ?a = load_spec (gmem g) ?a" "load_cb (gmem g1) ?a = load_cb (gmem g) ?a"
    using cell_opened [OF plat env, of ?parent] by blast
  let ?br = "br\<lparr>m_pconnectors := cr # m_pconnectors br\<rparr>"
  have "make_connector ?L (of_nat m) (br, g) = returns (Some cr, br, g1)"
    using cr(1) by (simp add: make_connector_def Let_def br)
  moreover have "output_id (get_controlblock ?L (?br, g1)) = of_nat (n - 1)"
    using br snoc.prems(9) cr(4) by (simp add: get_controlblock_def get_shared_controlblock_def)
  moreover have "(of_nat m :: u32) = of_nat (n - 1) \<longleftrightarrow> m = n - 1"
    using n snoc.prems(3) by (intro id_inj) simp_all
  ultimately have loop: "open_loop ?L (of_nat m) (br, g)
      = (if m \<noteq> n - 1 then open_loop ?L (of_nat (Suc m)) (?br, g1) else returns (True, ?br, g1))"
    by (subst open_loop.simps) (simp add: set_connectors_def Let_def add.commute [of 1] del: of_nat_diff)
  show ?case
  proof (cases "m = n - 1")
    case True
    then have "new = []" using ids(1) by (cases new) (simp_all add: id_range_def)
    then show ?thesis using loop True cr(2-4) br(4)
      by (intro exI [of _ "cr # m_pconnectors br"] exI [of _ g1] exI [of _ "(of_nat m, c, Some cr, f) # old"]) (simp add: x)
  next
    case False
    then have lt: "Suc m < n" using snoc.prems(3) by simp
    from snoc.IH [OF cr(2) ids(1) lt, of ?br] snoc.prems(4,9) br cr(4)
    obtain cs g2 old' where ih: "open_loop ?L (of_nat (Suc m)) (?br, g1) = returns (True, ?br\<lparr>m_pconnectors := cs\<rparr>, g2)"
      "pair_env P cast seg valid taken bw g2 old' []" "map Some cs = map cell_reader old'"
      "map writer_entry old' = map writer_entry (new @ (of_nat m, c, Some cr, f) # old)"
      "load_spec (gmem g2) ?a = load_spec (gmem g1) ?a" "load_cb (gmem g2) ?a = load_cb (gmem g1) ?a"
      by auto
    then show ?thesis using loop False cr(3,4)
      by (intro exI [of _ cs] exI [of _ g2] exI [of _ old']) (simp add: x)
  qed
qed

text \<open>
  The process that has created the bus, before the other one opens it. The object of the other is
  of no consequence yet.
\<close>

definition alone_holds ::
  "('h, 'o, 'l, 'b) platform \<Rightarrow> (id_type \<Rightarrow> string) \<Rightarrow> ('o \<Rightarrow> string \<Rightarrow> (nat \<times> u64) option) \<Rightarrow> ('o \<Rightarrow> bool)
    \<Rightarrow> ('o \<Rightarrow> nat set) \<Rightarrow> specification_type \<Rightarrow> nat \<Rightarrow> ('h, 'o, 'l, 'b) hub \<Rightarrow> 'h cell list \<Rightarrow> bool" where
  "alone_holds P cast seg valid taken sp n s xs \<longleftrightarrow>
     (\<exists>b0. writer_holds P cast seg valid taken sp 0 0 0 n (fst s, b0, snd s) xs [] [])"

lemma alone_start:
  assumes plat: "pair_basis P cast seg nm valid taken" and holds: "bus_holds P cast seg valid sp (b, g) [(0, c, f)]"
    and made: "segment_made P seg n g0 g c" and cap: "0 < fifo_cap f"
  shows "alone_holds P cast seg valid taken sp 1 (b, g) [(0, c, None, f)]"
proof -
  let ?cb = "load_cb (gmem g) (shared_bus_get_memory b)"
  let ?b0 = "b\<lparr>m_pconnectors := [], m_controlblock := \<lparr>epoch = epoch ?cb - 1, input_id = 0, output_id = 0\<rparr>\<rparr>"
  note first = first_cell [OF plat holds made]
  have h: "b_opened b" "m_status b = US_NONE" "load_spec (gmem g) (shared_bus_get_memory b) = sp" "m_pconnectors b = [c]"
    "input_id (m_controlblock b) = input_id ?cb" "output_id (m_controlblock b) = output_id ?cb"
    using holds by (simp_all add: bus_holds_def Let_def)
  have "in_step (epoch ?cb) (epoch ?cb - 1) 0 1" unfolding in_step_def by (intro disjI1 exI [of _ 1]) simp
  then have "writer_holds P cast seg valid taken sp 0 0 0 1 (b, ?b0, g) [(0, c, None, f)] [] []"
    using h first cap
    by (simp add: writer_holds_def bus_core_def pair_step_def Let_def shared_cb_def lists_of_def numbered_def front_cap_def)
  then show ?thesis by (auto simp: alone_holds_def)
qed

lemma alone_opened:
  fixes P :: "('h, 'o, 'l, 'b) platform"
  assumes plat: "pair_basis P cast seg nm valid taken" and alone: "alone_holds P cast seg valid taken sp n (bw, g) xs"
    and name: "b_name bw = name"
  shows "\<exists>br g' old. bus_open (single_bus P cast) (new_bus name garbage, g) = returns (True, br, g')
    \<and> pair_holds P cast seg valid taken sp 0 0 n n (bw, br, g') [] old [] \<and> map writer_entry old = map writer_entry xs
    \<and> epoch (shared_cb (bw, br, g')) = epoch (m_controlblock br)"
proof -
  let ?L = "single_layout_of P cast" and ?M = "new_shared_memory name :: 'h shared_memory" and ?a = "shared_bus_get_memory bw"
  let ?cb = "load_cb (gmem g) ?a"
  obtain b0 where "bus_core P cast seg valid taken sp 0 0 0 n US_NONE (bw, b0, g) xs [] []"
    using alone by (auto simp: alone_holds_def writer_holds_def)
  note core = this and h = bus_coreD [OF this, simplified] and bound = bus_bound(1) [OF this]
  have api: "shm_spec (papi P) seg nm" "shm_apart (papi P) seg valid" "shm_unused (papi P) seg valid taken"
    using plat by (simp_all add: pair_basis_def bus_platform_def)
  have env0: "pair_env P cast seg valid taken bw g xs []" using bus_coreD(24) [OF core] by simp
  obtain z where there: "seg (sys g) name = Some (?a, z)" using env_body_place [OF env0] name by auto
  have M: "m_pmemory ?M = None" "sm_name ?M = name" by (simp_all add: new_shared_memory_def)
  obtain h' o1 where o: "sm_open (papi P) ?M (sys g) = (True, ?M\<lparr>m_pregion := Some (?a, z), m_pmemory := Some h'\<rparr>, o1)"
    "seg o1 = seg (sys g)"
    using sm_open_existing [OF api(1) M(1), of "sys g" "(?a, z)"] there M(2) by auto
  let ?g1 = "g\<lparr>sys := o1\<rparr>"
  have o1: "o1 = snd (snd (sm_open (papi P) ?M (sys g)))" by (simp add: o(1))
  have "valid o1" "taken (sys g) \<subseteq> taken o1"
    using api(2,3) env_facts(2) [OF env0] unfolding o1 shm_apart_def shm_unused_def by blast+
  then have env: "pair_env P cast seg valid taken bw ?g1 (xs @ []) []"
    using env_sys [OF env0, of ?g1] o(2) by (simp add: elsewhere_def)
  define b1 where "b1 = (new_bus name garbage)\<lparr>b_memory := Some (?M\<lparr>m_pregion := Some (?a, z), m_pmemory := Some h'\<rparr>)\<rparr>"
  have "shared_bus_get_memory b1 = ?a" by (subst shared_bus_get_memory_def) (simp add: b1_def sm_get_def)
  then have b1: "b_name b1 = b_name bw" "shared_bus_get_memory b1 = ?a" "m_pconnectors b1 = []" "m_status b1 = US_NONE"
    by (simp_all add: b1_def new_bus_def name)
  have mem: "bus_open_memory ?L (new_bus name garbage, g) = (True, b1, ?g1)"
    by (simp add: bus_open_memory_def free_memory_def b1_def o(1)) (simp add: new_bus_def o(1))
  have cb: "get_controlblock ?L (b1, g') = load_cb (gmem g') ?a"
    "get_controlblock ?L (b1\<lparr>m_pconnectors := cs\<rparr>, g') = load_cb (gmem g') ?a" for cs g'
    using b1 by (simp_all add: get_controlblock_def get_shared_controlblock_def)
  have "\<exists>cs g' old'. open_loop ?L (of_nat 0) (b1, ?g1) = returns (True, b1\<lparr>m_pconnectors := cs\<rparr>, g')
    \<and> pair_env P cast seg valid taken bw g' old' [] \<and> map Some cs = map cell_reader old'
    \<and> map writer_entry old' = map writer_entry (xs @ [])
    \<and> load_spec (gmem g') ?a = load_spec (gmem ?g1) ?a \<and> load_cb (gmem g') ?a = load_cb (gmem ?g1) ?a"
    by (rule cells_opened [OF plat bound env]) (use bus_coreD [OF core] b1 in simp_all)
  then obtain cs g2 old where r: "open_loop ?L 0 (b1, ?g1) = returns (True, b1\<lparr>m_pconnectors := cs\<rparr>, g2)"
    "pair_env P cast seg valid taken bw g2 old []" "map Some cs = map cell_reader old"
    "map writer_entry old = map writer_entry xs" "load_spec (gmem g2) ?a = sp" "load_cb (gmem g2) ?a = ?cb"
    using bus_coreD(7) [OF core] by auto
  have in0: "input_id ?cb = 0" and out: "output_id ?cb = of_nat (n - 1)"
    using bus_coreD(8,9) [OF core] by simp_all
  have "base_do_open ?L (b1, ?g1) = returns (True, b1\<lparr>m_pconnectors := cs\<rparr>, g2)"
    using r(1) in0 by (simp add: base_do_open_def cb)
  then have body: "attach_body ?L (b1, ?g1) = returns (True, b1\<lparr>m_pconnectors := cs, m_controlblock := ?cb\<rparr>, g2)"
    by (simp add: attach_body_def cb r(6))
  let ?br = "b1\<lparr>m_pconnectors := cs, m_controlblock := ?cb, b_opened := True\<rparr>"
  have "b_do_open (single_bus P cast) = shared_bus_do_open ?L"
    by (simp add: single_bus_def simple_bus_def shared_bus_def)
  then have "bus_open (single_bus P cast) (new_bus name garbage, g) = returns (True, ?br, g2)"
    by (simp add: bus_open_def shared_bus_do_open_def mem body) (simp add: new_bus_def)
  moreover have "in_step (epoch ?cb) (epoch ?cb) n 0" unfolding in_step_def by (intro disjI1 exI [of _ 0]) simp
  moreover have "map fst old = map fst xs" using arg_cong [OF r(4), of "map fst"] by (simp add: comp_def)
  ultimately show ?thesis
    using bus_coreD [OF core] in0 out r(2-6) b1
    by (intro exI [of _ ?br] exI [of _ g2] exI [of _ old])
      (simp add: pair_holds_def pair_core_def bus_core_def pair_step_def Let_def shared_cb_def lists_of_def numbered_def)
qed

lemma pair_made:
  fixes P :: "('h, 'o, 'l, 'b) platform"
  assumes plat: "pair_basis P cast seg nm valid taken"
    and spec: "spec_keepalive_timeout sp = 0" "new_capacity sp 0 \<noteq> 0"
    and free: "valid (sys g)" "seg (sys g) name = None" "\<forall>i. seg (sys g) (name @ cast i) = None"
  shows "\<exists>bw g1 br g2 y. bus_create (single_bus P cast) sp (new_bus name garbage, g) = returns (True, bw, g1)
    \<and> bus_open (single_bus P cast) (new_bus name garbage', g1) = returns (True, br, g2)
    \<and> pair_holds P cast seg valid taken sp 0 0 1 1 (bw, br, g2) [] [y] [] \<and> fifo_msgs (cell_fifo y) = []
    \<and> cell_fifo y = new_fifo sp ([] :: 'h entry list) \<and> epoch (shared_cb (bw, br, g2)) = epoch (m_controlblock br)"
proof -
  obtain s c f n g0 where s: "bus_create (single_bus P cast) sp (new_bus name garbage, g) = returns (True, s)"
    "bus_holds P cast seg valid sp s [(0, c, f)]" "fifo_msgs f = []" "f = new_fifo sp ([] :: 'h entry list)"
    "b_name (fst s) = name" "segment_made P seg n g0 (snd s) c"
    using create_law [OF pair_bus [OF plat] spec free, of garbage] by blast
  obtain bw g1 where bg: "s = (bw, g1)" by (cases s)
  have "0 < fifo_cap f" using spec(2) by (simp add: s(4) new_fifo_def front_cap_def unat_gt_0)
  then have "alone_holds P cast seg valid taken sp 1 (bw, g1) [(0, c, None, f)]"
    using alone_start [OF plat, of sp bw g1 c f n g0] s(2,6) unfolding bg by simp
  from alone_opened [OF plat this, of name garbage'] s(5) obtain br g2 old where
    br: "bus_open (single_bus P cast) (new_bus name garbage', g1) = returns (True, br, g2)"
    "pair_holds P cast seg valid taken sp 0 0 1 1 (bw, br, g2) [] old []"
    "map writer_entry old = map writer_entry [(0, c, None, f)]" "epoch (shared_cb (bw, br, g2)) = epoch (m_controlblock br)"
    by (auto simp: bg)
  then obtain y where y: "old = [y]" "cell_fifo y = f" by (auto simp: writer_entry_def)
  then have "fifo_msgs (cell_fifo y) = []" "cell_fifo y = new_fifo sp ([] :: 'h entry list)" by (simp_all add: s(4) new_fifo_def)
  with s(1) br(1,2,4) show ?thesis unfolding bg y(1) by blast
qed

section \<open>Pushing before the other process opens the bus\<close>

text \<open>The segment that an object is on.\<close>

abbreviation segment_of :: "'h connector \<Rightarrow> string \<times> nat" where
  "segment_of c \<equiv> (sm_name (m_memory c), sm_get (m_memory c))"

lemma cell_segments:
  assumes "cell_ok P seg names g x" and "cell_reader x = Some c"
  shows "segment_of c = segment_of (fst (snd x))"
proof -
  have o: "entry_ok P seg names g (fst x, c, cell_fifo x)" "entry_ok P seg names g (fst x, fst (snd x), cell_fifo x)"
    using assms by (simp_all add: cell_ok_def writer_entry_def)
  obtain z where 1: "sm_name (m_memory c) = names (fst x)" "seg (sys g) (names (fst x)) = Some (sm_get (m_memory c), z)"
    by (rule entry_okD [OF o(1)])
  obtain z' where "sm_name (m_memory (fst (snd x))) = names (fst x)"
    "seg (sys g) (names (fst x)) = Some (sm_get (m_memory (fst (snd x))), z')"
    by (rule entry_okD [OF o(2)])
  with 1 show ?thesis by simp
qed

lemma cells_segments:
  assumes "map Some cs = map cell_reader xs" and "\<forall>x \<in> set xs. cell_ok P seg names g x"
  shows "map segment_of cs = map segment_of (map (fst \<circ> snd) (map writer_entry xs))"
  using assms
proof (induction xs arbitrary: cs)
  case (Cons x xs)
  then obtain c cs1 where cs: "cs = c # cs1" "cell_reader x = Some c" "map Some cs1 = map cell_reader xs"
    by (cases cs) auto
  then show ?case using Cons.IH [OF cs(3)] Cons.prems(2) cell_segments [of P seg names g x c] by simp
qed simp

lemma same_segments:
  assumes "pair_holds P cast seg valid taken sp j i n n (bw, br, g) [] old []"
  shows "map segment_of (m_pconnectors br) = map segment_of (m_pconnectors bw)"
proof -
  have core: "pair_core P cast seg valid taken sp j i n n US_NONE (bw, br, g) [] old []"
    using assms by (simp add: pair_holds_def)
  note h = pair_coreD [OF core]
  have "\<forall>x \<in> set old. cell_ok P seg (names_of cast bw) g x" using env_facts(4) [OF h(24)] by simp
  from cells_segments [OF h(15) this] show ?thesis using h(14) by simp
qed

definition alone_line ::
  "('h, 'o, 'l, 'b) platform \<Rightarrow> (id_type \<Rightarrow> string) \<Rightarrow> ('o \<Rightarrow> string \<Rightarrow> (nat \<times> u64) option) \<Rightarrow> ('o \<Rightarrow> bool)
    \<Rightarrow> ('o \<Rightarrow> nat set) \<Rightarrow> specification_type \<Rightarrow> string \<Rightarrow> ('h, 'o, 'l, 'b) hub \<Rightarrow> message list \<Rightarrow> bool" where
  "alone_line P cast seg valid taken sp name s xs \<longleftrightarrow>
     (\<exists>n cells. alone_holds P cast seg valid taken sp n s cells \<and> cells_contents cells = xs \<and> b_name (fst s) = name)"

lemma alone_push:
  fixes P :: "('h, 'o, 'l, 'b) platform"
  assumes plat: "pair_platform P cast seg nm valid taken" and spec: "spec_keepalive_timeout sp = 0"
    and alone: "alone_line P cast seg valid taken sp name s xs" and ne: "snd x \<noteq> []"
  shows "\<exists>b s'. bus_enq (single_bus P cast) x s = returns (b, s')
    \<and> alone_line P cast seg valid taken sp name s' (if b then xs @ [x] else xs)"
proof -
  obtain bw g where s: "s = (bw, g)" by (cases s)
  obtain n cells b0 where w: "writer_holds P cast seg valid taken sp 0 0 0 n (bw, b0, g) cells [] []"
    and xs: "cells_contents cells = xs" "b_name bw = name"
    using alone by (auto simp: alone_line_def alone_holds_def s)
  then have core: "bus_core P cast seg valid taken sp 0 0 0 n US_NONE (bw, b0, g) cells [] []"
    by (simp add: writer_holds_def)
  obtain r bw' g' j' n' new' old' st' where r:
    "grow (single_bus_class P cast) (shared_bus_push (single_bus_class P cast) (fst x) (snd x)) (bw, g) = returns (r, bw', g')"
    "writer_holds P cast seg valid taken sp j' 0 0 n' (bw', b0, g') new' old' st'"
    "cells_contents (new' @ old') = (if r then cells_contents (cells @ []) @ [x] else cells_contents (cells @ []))"
    using writer_grow [OF plat spec ne w] by (elim exE conjE) (rule that)
  have core': "bus_core P cast seg valid taken sp j' 0 0 n' US_NONE (bw', b0, g') new' old' st'"
    using r(2) by (simp add: writer_holds_def)
  note h' = bus_coreD [OF core']
  have "j' = 0" using h'(17) by simp
  then have "old' = []" "st' = []" using h'(22,23) by simp_all
  then have "alone_holds P cast seg valid taken sp n' (bw', g') new'"
    using r(2) \<open>j' = 0\<close> by (auto simp: alone_holds_def)
  moreover have "b_name bw' = name" using h'(5) bus_coreD(5) [OF core] xs(2) by simp
  ultimately have "alone_line P cast seg valid taken sp name (bw', g') (if r then xs @ [x] else xs)"
    using r(3) \<open>old' = []\<close> xs(1) unfolding alone_line_def by (intro exI [of _ n'] exI [of _ new']) simp
  moreover have "bus_enq (single_bus P cast) x s = returns (r, bw', g')"
    using r(1) bus_coreD(1) [OF core] by (simp add: s bus_enq_def bus_push_def)
  ultimately show ?thesis by blast
qed

lemma alone_pushes:
  assumes plat: "pair_platform P cast seg nm valid taken" and spec: "spec_keepalive_timeout sp = 0"
    and "alone_line P cast seg valid taken sp name s ys" and "\<forall>x \<in> set xs. snd x \<noteq> []"
  shows "\<exists>rs s'. impl_run (bus_enq (single_bus P cast)) (bus_front (single_bus P cast)) (bus_deq (single_bus P cast))
      (map Push xs) s = returns (rs, s')
    \<and> alone_line P cast seg valid taken sp name s' (ys @ accepted (map Push xs) rs)"
  using assms(3,4)
proof (induction xs arbitrary: s ys)
  case (Cons x xs)
  let ?run = "impl_run (bus_enq (single_bus P cast)) (bus_front (single_bus P cast)) (bus_deq (single_bus P cast))"
  obtain b s1 where 1: "bus_enq (single_bus P cast) x s = returns (b, s1)"
    "alone_line P cast seg valid taken sp name s1 (if b then ys @ [x] else ys)"
    using alone_push [OF plat spec Cons.prems(1), of x] Cons.prems(2) by auto
  obtain rs s2 where 2: "?run (map Push xs) s1 = returns (rs, s2)"
    "alone_line P cast seg valid taken sp name s2 ((if b then ys @ [x] else ys) @ accepted (map Push xs) rs)"
    using Cons.IH [OF 1(2)] Cons.prems(2) by auto
  have "?run (map Push (x # xs)) s = returns (Pushed b # rs, s2)" using 1(1) 2(1) by simp
  moreover have "(if b then ys @ [x] else ys) @ accepted (map Push xs) rs = ys @ accepted (map Push (x # xs)) (Pushed b # rs)"
    by simp
  ultimately show ?case using 2(2) by metis
qed simp

section \<open>A platform for the witness\<close>

text \<open>The table has given away all addresses below the next one.\<close>

definition table_taken :: "seg_table \<Rightarrow> nat set" where
  "table_taken t = {..<next_address t}"

lemma table_unused: "shm_unused table_api segments table_valid table_taken"
proof -
  have open_next: "next_address (snd (snd (sm_open table_api (new_shared_memory n) t))) = next_address t" for n t
    by (simp add: sm_open_def new_shared_memory_def table_api_def sm_remove_def split: option.splits)
  have create: "next_address t \<le> next_address (fst (snd (snd (sm_create table_api z (new_shared_memory n) (t, m)))))
      \<and> (segments t n = None \<longrightarrow>
          segments (fst (snd (snd (sm_create table_api z (new_shared_memory n) (t, m))))) n = Some (next_address t, z))"
    for n z t m
    by (cases "segments t n") (simp_all add: sm_create_def new_shared_memory_def table_api_def sm_remove_def)
  have "seg_region (segments t) n \<subseteq> table_taken t" if "table_valid t" for t n
    using that by (auto simp: table_valid_def table_taken_def seg_region_def split: option.splits) (meson less_le_trans)
  moreover have "table_taken t \<subseteq> table_taken (shm_remove table_api n t)" for t n
    by (simp add: table_taken_def table_api_def)
  ultimately show ?thesis
    using create by (auto simp: shm_unused_def table_taken_def open_next seg_region_def intro: less_le_trans)
qed

lemma sample_pair: "pair_platform sample_platform digits segments (\<lambda>_ h. h) table_valid table_taken"
  using sample_lone table_unused by (simp add: pair_platform_def)

section \<open>Properties\<close>

text \<open>
  C4. One process creates a bus of single connectors under free names, for a specification without
  expiry whose first capacity is not zero, and a second one opens it. Whatever non-empty messages
  the first pushes and whenever the second gets and pops, as long as no call overlaps another, the
  bus is one FIFO without loss: every call returns, a get yields the oldest message that has not
  been popped and a pop drops it, although each process follows the list of connectors in its own
  copy: the reader opens what the other has added when it runs out, the other closes what the reader
  has removed.
\<close>

theorem two_processes_share_one_fifo:
  assumes "pair_platform P cast seg nm valid taken"
    and "spec_keepalive_timeout sp = 0" "new_capacity sp 0 \<noteq> 0"
    and "valid (sys g)" "seg (sys g) name = None" "\<forall>i. seg (sys g) (name @ cast i) = None"
    and "\<forall>p \<in> set ps. sendable p"
  shows "\<exists>bw g1 br g2 rs s'. bus_create (single_bus P cast) sp (new_bus name garbage, g) = returns (True, bw, g1)
    \<and> bus_open (single_bus P cast) (new_bus name garbage', g1) = returns (True, br, g2)
    \<and> impl_run (pair_enq (single_bus P cast)) (pair_front (single_bus P cast)) (pair_deq (single_bus P cast)) ps
        (bw, br, g2) = returns (rs, s')
    \<and> explained [] ps rs \<and> pops rs \<le> length (accepted ps rs)
    \<and> pair_line P cast seg nm valid taken s' (drop (pops rs) (accepted ps rs))"
proof -
  obtain bw g1 br g2 y where made: "bus_create (single_bus P cast) sp (new_bus name garbage, g) = returns (True, bw, g1)"
    "bus_open (single_bus P cast) (new_bus name garbage', g1) = returns (True, br, g2)"
    "pair_holds P cast seg valid taken sp 0 0 1 1 (bw, br, g2) [] [y] []" "fifo_msgs (cell_fifo y) = []"
    using pair_made [OF pair_lone(2) [OF assms(1)] assms(2-6)] by blast
  have "pair_line P cast seg nm valid taken (bw, br, g2) []"
    by (rule pair_lineI [OF assms(1,2) made(3)]) (simp add: made(4))
  from pair_queue.lossless_run [OF this assms(7)] made(1,2) show ?thesis by auto
qed

theorem two_processes_share_one_fifo_witness:
  "\<exists>bw g1 br g2 rs s'. bus_create (single_bus sample_platform digits) sample_spec
        (new_bus ''bus'' \<lparr>epoch = 0, input_id = 0, output_id = 0\<rparr>, sample_globals) = returns (True, bw, g1)
    \<and> bus_open (single_bus sample_platform digits) (new_bus ''bus'' \<lparr>epoch = 7, input_id = 8, output_id = 9\<rparr>, g1)
        = returns (True, br, g2)
    \<and> impl_run (pair_enq (single_bus sample_platform digits)) (pair_front (single_bus sample_platform digits))
        (pair_deq (single_bus sample_platform digits)) [Push (7, [1, 2, 3]), Get, Push (8, replicate 30 4), Pop, Pop]
        (bw, br, g2) = returns (rs, s')
    \<and> explained [] [Push (7, [1, 2, 3]), Get, Push (8, replicate 30 4), Pop, Pop] rs"
proof -
  have "\<forall>p \<in> set [Push (7, [1, 2, 3]), Get, Push (8, replicate 30 4), Pop, Pop]. sendable p" by simp
  from two_processes_share_one_fifo [OF sample_pair sample_spec_facts sample_free(1,2) _ this] sample_free(2)
  show ?thesis by blast
qed

text \<open>
  C20. On a bus of single connectors without expiry that another process reads, a push of a
  non-empty message that no call of the other overlaps returns, and is refused only for want of
  room: the message does not fit into the newest connector and the specification allows no larger
  one. Refused or not, the messages that the bus held stay in it, and unlike on other buses the
  identifiers never run out, since each connector is larger than the one before.
\<close>

theorem two_process_push_refused:
  assumes "pair_platform P cast seg nm valid taken" and "spec_keepalive_timeout sp = 0"
    and "pair_holds P cast seg valid taken sp j i m n (bw, br, g) new old st" and "data \<noteq> []"
  shows "\<exists>r bw' g' j' n' new' old' st'. bus_push (single_bus P cast) tag data (bw, g) = returns (r, bw', g')
    \<and> pair_holds P cast seg valid taken sp j' i m n' (bw', br, g') new' old' st'
    \<and> cells_contents (new' @ old') = (if r then cells_contents (new @ old) @ [(tag, data)] else cells_contents (new @ old))
    \<and> (\<not> r \<longrightarrow> \<not> fst (fifo_push (tag, data) (cell_fifo (hd (new' @ old')))) \<and> stuck sp (map writer_entry (new' @ old')))"
proof -
  have "b_opened bw" using assms(3) by (simp add: pair_holds_def pair_core_def bus_core_def Let_def)
  then have "bus_push (single_bus P cast) tag data (bw, g)
      = grow (single_bus_class P cast) (shared_bus_push (single_bus_class P cast) tag data) (bw, g)"
    by (simp add: bus_push_def)
  then show ?thesis using pair_grow [OF assms(1,2) _ assms(3), of "(tag, data)"] assms(4)
    by (simp only: fst_conv snd_conv) blast
qed

theorem two_process_push_refused_witness:
  "\<exists>bw g r bw' g' xs. bus_push (single_bus sample_platform digits) 7 (replicate 100 1) (bw, g) = returns (r, bw', g')
    \<and> cells_contents xs = (if r then [(7, replicate 100 1)] else [])
    \<and> (\<not> r \<longrightarrow> stuck sample_spec (map writer_entry (xs :: string cell list)))"
proof -
  obtain bw g br y where h: "pair_holds sample_platform digits segments table_valid table_taken sample_spec 0 0 1 1
      (bw, br, g) [] [y] []" "fifo_msgs (cell_fifo y) = []"
    using pair_made [OF pair_lone(2) [OF sample_pair] sample_spec_facts sample_free(1,2)] sample_free(2) by blast
  have "replicate 100 (1 :: u8) \<noteq> []" by simp
  from two_process_push_refused [OF sample_pair sample_spec_facts(1) h(1) this, of 7] obtain r bw' g' and new' old' :: "string cell list" where
    "bus_push (single_bus sample_platform digits) 7 (replicate 100 1) (bw, g) = returns (r, bw', g')"
    "cells_contents (new' @ old') = (if r then cells_contents ([] @ [y]) @ [(7, replicate 100 1)] else cells_contents ([] @ [y]))"
    "\<not> r \<longrightarrow> \<not> fst (fifo_push (7, replicate 100 1) (cell_fifo (hd (new' @ old')))) \<and> stuck sample_spec (map writer_entry (new' @ old'))"
    by (elim exE conjE) (rule that)
  with h(2) show ?thesis
    by (intro exI [of _ bw] exI [of _ g] exI [of _ r] exI [of _ bw'] exI [of _ g'] exI [of _ "new' @ old'"])
      (simp del: cells_contents_simps(3))
qed

text \<open>
  C23. One process creates a bus of single connectors under free names, for
  a specification without expiry whose first capacity is not zero, and pushes any non-empty messages, adding
  connectors as it needs them. A second process that opens the bus only then finds all of them: it has
  an object for every connector of the bus, and from there on its gets and pops and the further
  pushes of the first process, of non-empty messages and in any order, none overlapping another, all
  return and make one FIFO without loss that starts with the messages accepted before.
\<close>

theorem late_reader_gets_all:
  assumes "pair_platform P cast seg nm valid taken"
    and "spec_keepalive_timeout sp = 0" "new_capacity sp 0 \<noteq> 0"
    and "valid (sys g)" "seg (sys g) name = None" "\<forall>i. seg (sys g) (name @ cast i) = None"
    and "\<forall>x \<in> set xs. snd x \<noteq> []" "\<forall>p \<in> set ps. sendable p"
  shows "\<exists>bw g1 rs bw1 g2 br g3 rs' s'. bus_create (single_bus P cast) sp (new_bus name garbage, g) = returns (True, bw, g1)
    \<and> impl_run (bus_enq (single_bus P cast)) (bus_front (single_bus P cast)) (bus_deq (single_bus P cast))
        (map Push xs) (bw, g1) = returns (rs, bw1, g2)
    \<and> bus_open (single_bus P cast) (new_bus name garbage', g2) = returns (True, br, g3)
    \<and> map segment_of (m_pconnectors br) = map segment_of (m_pconnectors bw1)
    \<and> impl_run (pair_enq (single_bus P cast)) (pair_front (single_bus P cast)) (pair_deq (single_bus P cast)) ps
        (bw1, br, g3) = returns (rs', s')
    \<and> explained (accepted (map Push xs) rs) ps rs'
    \<and> pair_line P cast seg nm valid taken s' (drop (pops rs') (accepted (map Push xs) rs @ accepted ps rs'))"
proof -
  note basis = pair_lone(2) [OF assms(1)]
  obtain s c f n0 g0 where c: "bus_create (single_bus P cast) sp (new_bus name garbage, g) = returns (True, s)"
    "bus_holds P cast seg valid sp s [(0, c, f)]" "fifo_msgs f = []" "f = new_fifo sp ([] :: 'a entry list)"
    "b_name (fst s) = name" "segment_made P seg n0 g0 (snd s) c"
    using create_law [OF pair_bus [OF basis] assms(2-6), of garbage] by blast
  obtain bw g1 where bg: "s = (bw, g1)" by (cases s)
  have "0 < fifo_cap f" using assms(3) by (simp add: c(4) new_fifo_def front_cap_def unat_gt_0)
  then have "alone_holds P cast seg valid taken sp 1 (bw, g1) [(0, c, None, f)]"
    using alone_start [OF basis, of sp bw g1 c f n0 g0] c(2,6) unfolding bg by simp
  then have "alone_line P cast seg valid taken sp name (bw, g1) []"
    unfolding alone_line_def using c(3,5) by (intro exI [of _ 1] exI [of _ "[(0, c, None, f)]"]) (simp add: bg)
  from alone_pushes [OF assms(1,2) this assms(7)] obtain rs bw1 g2 where
    run: "impl_run (bus_enq (single_bus P cast)) (bus_front (single_bus P cast)) (bus_deq (single_bus P cast))
        (map Push xs) (bw, g1) = returns (rs, bw1, g2)"
    and "alone_line P cast seg valid taken sp name (bw1, g2) (accepted (map Push xs) rs)" by auto
  then obtain n cells where cells: "alone_holds P cast seg valid taken sp n (bw1, g2) cells"
    "cells_contents cells = accepted (map Push xs) rs" "b_name bw1 = name"
    by (auto simp: alone_line_def)
  obtain br g3 old where o: "bus_open (single_bus P cast) (new_bus name garbage', g2) = returns (True, br, g3)"
    "pair_holds P cast seg valid taken sp 0 0 n n (bw1, br, g3) [] old []" "map writer_entry old = map writer_entry cells"
    using alone_opened [OF basis cells(1,3), of garbage'] by blast
  have "map cell_fifo old = map cell_fifo cells" using arg_cong [OF o(3), of "map (snd \<circ> snd)"] by (simp add: comp_def)
  then have "cells_contents ([] @ old) = accepted (map Push xs) rs"
    using cells_contents_fifos [of old cells] cells(2) by simp
  then have "pair_line P cast seg nm valid taken (bw1, br, g3) (accepted (map Push xs) rs)"
    by (rule pair_lineI [OF assms(1,2) o(2)])
  from pair_queue.lossless_run [OF this assms(8)] obtain rs' s' where
    "impl_run (pair_enq (single_bus P cast)) (pair_front (single_bus P cast)) (pair_deq (single_bus P cast)) ps
        (bw1, br, g3) = returns (rs', s')"
    "explained (accepted (map Push xs) rs) ps rs'"
    "pair_line P cast seg nm valid taken s' (drop (pops rs') (accepted (map Push xs) rs @ accepted ps rs'))"
    by blast
  then show ?thesis using c(1) run o(1) same_segments [OF o(2)] unfolding bg
    by (intro exI [of _ bw] exI [of _ g1] exI [of _ rs] exI [of _ bw1] exI [of _ g2] exI [of _ br] exI [of _ g3]
        exI [of _ rs'] exI [of _ s'] conjI)
qed

theorem late_reader_gets_all_witness:
  "\<exists>bw g1 rs bw1 g2 br g3 rs' s'. bus_create (single_bus sample_platform digits) sample_spec
        (new_bus ''bus'' \<lparr>epoch = 0, input_id = 0, output_id = 0\<rparr>, sample_globals) = returns (True, bw, g1)
    \<and> impl_run (bus_enq (single_bus sample_platform digits)) (bus_front (single_bus sample_platform digits))
        (bus_deq (single_bus sample_platform digits)) (map Push [(7, replicate 60 1), (8, replicate 60 2)]) (bw, g1)
      = returns (rs, bw1, g2)
    \<and> bus_open (single_bus sample_platform digits)
        (new_bus ''bus'' \<lparr>epoch = 9, input_id = 9, output_id = 9\<rparr>, g2) = returns (True, br, g3)
    \<and> length (m_pconnectors br) = length (m_pconnectors bw1)
    \<and> impl_run (pair_enq (single_bus sample_platform digits)) (pair_front (single_bus sample_platform digits))
        (pair_deq (single_bus sample_platform digits)) [Get, Pop, Get, Push (9, [3]), Pop, Get] (bw1, br, g3) = returns (rs', s')
    \<and> explained (accepted (map Push [(7, replicate 60 1), (8, replicate 60 2)]) rs) [Get, Pop, Get, Push (9, [3]), Pop, Get] rs'"
proof -
  have "\<forall>x \<in> set [(7 :: tag_type, replicate 60 (1 :: u8)), (8, replicate 60 2)]. snd x \<noteq> []"
    "\<forall>p \<in> set [Get, Pop, Get, Push (9, [3]), Pop, Get]. sendable p" by simp_all
  note claim = late_reader_gets_all [OF sample_pair sample_spec_facts sample_free(1,2) _ this,
      where garbage = "\<lparr>epoch = 0, input_id = 0, output_id = 0\<rparr>" and garbage' = "\<lparr>epoch = 9, input_id = 9, output_id = 9\<rparr>"
        and name = "''bus''"]
  have "\<forall>i. segments (sys sample_globals) (''bus'' @ digits i) = None" using sample_free(2) by blast
  from claim [OF this] show ?thesis
    by (elim exE conjE) (intro exI conjI, assumption+, erule map_eq_imp_length_eq, assumption+)
qed

end
