(* ===== verification/Overlapping_Push.thy ===== *)
theory Overlapping_Push
  imports Two_Processes
begin

text \<open>
  What happens when the calls of two processes on one bus overlap: a connector that one of them
  adds between the push of the other and its check for updates makes the latter push again.
\<close>

section \<open>A message that fits\<close>

lemma fits_larger:
  assumes "fst (fifo_push x f)" and "fifo_cap f < cap"
  shows "fst (fifo_push x \<lparr>fifo_cap = cap, fifo_pos = 0, fifo_msgs = []\<rparr>)"
proof -
  have "fits (fifo_cap f) (fifo_pos f) (fifo_msgs f) (snd x)"
    using assms(1) by (simp add: fifo_push_def split: if_split_asm)
  then have "span (fifo_cap f) ((fifo_pos f + used (fifo_cap f) (fifo_pos f) (fifo_msgs f)) mod fifo_cap f) (length (snd x))
      \<le> fifo_cap f"
    unfolding fits_def by linarith
  then have "24 + length (snd x) < cap"
    using assms(2) unfolding span_def by (auto split: if_splits)
  then have "span cap 0 (length (snd x)) \<le> cap" unfolding span_def by auto
  then show ?thesis by (simp add: fifo_push_def fits_def)
qed

lemma pushed_msgs: "fst (fifo_push x f) \<Longrightarrow> fifo_msgs (snd (fifo_push x f)) = fifo_msgs f @ [x]"
  by (simp add: fifo_push_def split: if_split_asm)

section \<open>The push and the addition\<close>

text \<open>The globals after the other process has called \<open>add_connector\<close> on its bus \<open>bw\<close>.\<close>

definition other_adds ::
  "('h, 'o, 'l, 'b) bus_layout \<Rightarrow> 'h bus \<Rightarrow> ('o, 'l, 'b) globals \<Rightarrow> ('o, 'l, 'b) globals" where
  "other_adds L bw g = (case shared_add_connector L (bw, g) of Some (Inr (r, bw', g')) \<Rightarrow> g' | _ \<Rightarrow> g)"

lemma other_adds_returns: "shared_add_connector L (bw, g) = returns (r, bw', g') \<Longrightarrow> other_adds L bw g = g'"
  by (simp add: other_adds_def returns_def)

lemma pushes_twice:
  fixes P :: "('h, 'o, 'l, 'b) platform"
  assumes plat: "pair_basis P cast seg nm valid taken" and spec: "spec_keepalive_timeout sp = 0"
    and holds: "pair_holds P cast seg valid taken sp j i n n (bw, br, g) [] old st"
    and same: "epoch (shared_cb (bw, br, g)) = epoch (m_controlblock br)"
    and ne: "snd msg \<noteq> []" and fit: "fst (fifo_push msg (cell_fifo (hd old)))"
    and larger: "\<not> stuck sp (map writer_entry old)"
    and other: "\<And>g1. meanwhile P 0 g1 = other_adds (single_layout_of P cast) bw g1" and alone: "\<And>g. meanwhile P 1 g = g"
  shows "\<exists>bw' br' g' old'. shared_bus_push (single_bus_class P cast) (fst msg) (snd msg) (br, g) = returns (True, br', g')
    \<and> pair_holds P cast seg valid taken sp j i (Suc n) (Suc n) (bw', br', g') [] old' st
    \<and> cells_contents old' = cells_contents old @ [msg, msg]"
proof -
  let ?B = "single_bus_class P cast" and ?L = "single_layout_of P cast"
  let ?A = "base_bus_push ?L (fst msg) (snd msg)"
  have core: "pair_core P cast seg valid taken sp j i n n US_NONE (bw, br, g) [] old st"
    and step: "pair_step in_step (bw, br, g) i n n"
    using holds by (simp_all add: pair_holds_def)
  obtain x xs where x: "old = x # xs" using pair_bound(2) [OF core] by (cases old) auto
  obtain b1 g1 y where 1: "?A (br, g) = returns (True, b1, g1)"
    "pair_core P cast seg valid taken sp j i n n US_NONE (bw, b1, g1) [] (y # xs) st"
    "cell_fifo y = snd (fifo_push msg (cell_fifo x))" "m_controlblock b1 = m_controlblock br"
    "shared_cb (bw, b1, g1) = shared_cb (bw, br, g)"
    using reader_pushes [OF plat core [unfolded x] ne] fit by (auto simp: x base_bus_push_def shared_cb_def)
  have holds1: "pair_holds P cast seg valid taken sp j i n n (bw, b1, g1) [] (y # xs) st"
    using 1(2,4,5) step by (simp add: pair_holds_def pair_step_def)
  have "cell_fifo y = (cell_fifo x)\<lparr>fifo_msgs := fifo_msgs (cell_fifo x) @ [msg]\<rparr>"
    using fit by (simp add: 1(3) x fifo_push_def split: if_split_asm)
  then have cap: "front_cap (map writer_entry ([] @ y # xs)) = fifo_cap (cell_fifo x)"
    "front_cap (map writer_entry old) = fifo_cap (cell_fifo x)"
    by (simp_all add: front_cap_def x)
  have "\<not> stuck sp (map writer_entry ([] @ y # xs))"
    using larger by (simp add: stuck_def cap cap(1) [simplified]) (simp add: x)
  moreover obtain r bw' g2 where r: "shared_add_connector ?L (bw, g1) = returns (r, bw', g2)"
    "if r then \<exists>z. pair_holds P cast seg valid taken sp j i n (Suc n) (bw', b1, g2) (z # []) (y # xs) st
         \<and> cell_fifo z = new_fifo sp (map writer_entry ([] @ y # xs)) \<and> fifo_msgs (cell_fifo z) = []
         \<and> front_cap (map writer_entry ([] @ y # xs)) < fifo_cap (cell_fifo z) \<and> fifo_cap (cell_fifo z) < 4294967296
         \<and> epoch (shared_cb (bw', b1, g2)) = epoch (shared_cb (bw, b1, g1)) + 1
       else pair_holds P cast seg valid taken sp j i n n (bw', b1, g2) [] (y # xs) st
         \<and> stuck sp (map writer_entry ([] @ y # xs))"
    using pair_add [OF plat holds1 spec] by (elim exE conjE) (rule that)
  ultimately have "r" by (metis (full_types))
  with r obtain z where added: "shared_add_connector ?L (bw, g1) = returns (True, bw', g2)"
    "pair_holds P cast seg valid taken sp j i n (Suc n) (bw', b1, g2) [z] (y # xs) st"
    "cell_fifo z = new_fifo sp (map writer_entry ([] @ y # xs))"
    "front_cap (map writer_entry ([] @ y # xs)) < fifo_cap (cell_fifo z)"
    "epoch (shared_cb (bw', b1, g2)) = epoch (shared_cb (bw, b1, g1)) + 1"
    by (simp only: if_True) (elim exE conjE, rule that)
  have "g2 = meanwhile P 0 g1" using other_adds_returns [OF added(1)] other by simp
  note add = added [unfolded this]
  let ?g2 = "meanwhile P 0 g1"
  have core2: "pair_core P cast seg valid taken sp j i n (Suc n) US_NONE (bw', b1, ?g2) [z] (y # xs) st"
    using add(2) by (simp add: pair_holds_def)
  have "epoch (shared_cb (bw', b1, ?g2)) \<noteq> epoch (m_controlblock b1)"
    using add(5) 1(4,5) same by simp
  then obtain b3 g3 old3 where 3: "update_connectors ?B (b1, ?g2) = returns (US_OUTPUT, b3, g3)"
    "pair_core P cast seg valid taken sp j i (Suc n) (Suc n) US_NONE (bw', b3, g3) [] old3 st"
    "pair_step looked (bw', b3, g3) i (Suc n) (Suc n)" "map cell_fifo old3 = map cell_fifo ([z] @ y # xs)"
    using reader_follows [OF plat core2] by auto
  obtain z3 xs3 where old3: "old3 = z3 # xs3" using 3(4) by (cases old3) auto
  have z3: "cell_fifo z3 = cell_fifo z" "map cell_fifo xs3 = map cell_fifo (y # xs)" using 3(4) by (simp_all add: old3)
  have fit3: "fst (fifo_push msg (cell_fifo z3))" "fifo_msgs (cell_fifo z3) = []"
    using fits_larger [of msg "cell_fifo x"] fit add(3,4) cap(1) by (simp_all add: z3 x new_fifo_def)
  obtain b4 g4 y4 where 4: "?A (b3, g3) = returns (True, b4, g4)"
    "pair_core P cast seg valid taken sp j i (Suc n) (Suc n) US_NONE (bw', b4, g4) [] (y4 # xs3) st"
    "cell_fifo y4 = snd (fifo_push msg (cell_fifo z3))" "m_controlblock b4 = m_controlblock b3"
    "shared_cb (bw', b4, g4) = shared_cb (bw', b3, g3)"
    using reader_pushes [OF plat 3(2) [unfolded old3] ne] fit3(1) by (auto simp: base_bus_push_def shared_cb_def)
  have step4: "pair_step looked (bw', b4, g4) i (Suc n) (Suc n)"
    using 3(3) 4(4,5) by (simp add: pair_step_def)
  obtain b5 where 5: "update_connectors ?B (b4, g4) = returns (US_NONE, b5, g4)"
    "pair_core P cast seg valid taken sp j i (Suc n) (Suc n) US_NONE (bw', b5, g4) [] (y4 # xs3) st"
    "pair_step looked (bw', b5, g4) i (Suc n) (Suc n)"
  proof (cases "epoch (shared_cb (bw', b4, g4)) = epoch (m_controlblock b4)")
    case True
    show thesis by (rule that [OF reader_in_step [OF plat 4(2) True] 4(2) step4])
  next
    case False
    show thesis using reader_level [OF plat 4(2) False] that by blast
  qed
  have final: "pair_holds P cast seg valid taken sp j i (Suc n) (Suc n) (bw', b5, g4) [] (y4 # xs3) st"
    using 5(2,3) looked_in_step by (simp add: pair_holds_def pair_step_def)
  have "shared_bus_push ?B (fst msg) (snd msg) (br, g) = push_again ?B ?A 0 (br, g)"
    by (simp add: shared_bus_push_def update_output_connector_def reader_in_step [OF plat core same])
  also have "\<dots> = push_again ?B ?A 1 (b3, g3)"
    by (subst push_again.simps) (simp add: 1(1) update_output_connector_def 3(1))
  also have "\<dots> = returns (True, b5, g4)"
    by (subst push_again.simps) (simp add: 4(1) update_output_connector_def alone [simplified] 5(1))
  finally have run: "shared_bus_push ?B (fst msg) (snd msg) (br, g) = returns (True, b5, g4)" .
  have "cells_contents xs3 = cells_contents (y # xs)" by (rule cells_contents_fifos [OF z3(2)])
  then have "cells_contents (y4 # xs3) = cells_contents old @ [msg, msg]"
    using pushed_msgs [OF fit3(1)] pushed_msgs [OF fit] by (simp add: 4(3) fit3(2) 1(3) x)
  with run final show ?thesis by blast
qed

section \<open>A platform with an overlapping call\<close>

text \<open>What the others do in the meantime does not matter to the invariants, nor to \<open>add_connector\<close>.\<close>

lemma meanwhile_invariants [simp]:
  "served (P\<lparr>meanwhile := f\<rparr>) = served P" "entry_ok (P\<lparr>meanwhile := f\<rparr>) = entry_ok P"
  "cell_ok (P\<lparr>meanwhile := f\<rparr>) = cell_ok P" "entry_region_of (P\<lparr>meanwhile := f\<rparr>) = entry_region_of P"
  "gone_ok (P\<lparr>meanwhile := f\<rparr>) = gone_ok P" "surroundings (P\<lparr>meanwhile := f\<rparr>) = surroundings P"
  "pair_env (P\<lparr>meanwhile := f\<rparr>) = pair_env P" "pair_holds (P\<lparr>meanwhile := f\<rparr>) = pair_holds P"
  "pair_basis (P\<lparr>meanwhile := f\<rparr>) = pair_basis P"
proof -
  show served: "served (P\<lparr>meanwhile := f\<rparr>) = served P"
    by (simp add: fun_eq_iff served_def single_holds_def queue_ptr_def)
  show entry: "entry_ok (P\<lparr>meanwhile := f\<rparr>) = entry_ok P"
    by (simp add: fun_eq_iff entry_ok_def served queue_ptr_def)
  show cell: "cell_ok (P\<lparr>meanwhile := f\<rparr>) = cell_ok P" by (simp add: fun_eq_iff cell_ok_def entry cong: option.case_cong)
  show region: "entry_region_of (P\<lparr>meanwhile := f\<rparr>) = entry_region_of P"
    by (simp add: fun_eq_iff entry_region_of_def conn_region_def queue_ptr_def)
  show gone: "gone_ok (P\<lparr>meanwhile := f\<rparr>) = gone_ok P" by (simp add: fun_eq_iff gone_ok_def served region)
  show sur: "surroundings (P\<lparr>meanwhile := f\<rparr>) = surroundings P" by (simp add: fun_eq_iff surroundings_def entry)
  show env: "pair_env (P\<lparr>meanwhile := f\<rparr>) = pair_env P"
    by (simp add: fun_eq_iff pair_env_def sur cell gone region)
  show "pair_holds (P\<lparr>meanwhile := f\<rparr>) = pair_holds P"
    by (simp add: fun_eq_iff pair_holds_def pair_core_def bus_core_def env)
  show "pair_basis (P\<lparr>meanwhile := f\<rparr>) = pair_basis P"
    by (simp add: fun_eq_iff pair_basis_def bus_platform_def)
qed

lemma meanwhile_parts:
  "create_memory (P\<lparr>meanwhile := f\<rparr>) = create_memory P" "open_memory (P\<lparr>meanwhile := f\<rparr>) = open_memory P"
  "make_queue (P\<lparr>meanwhile := f\<rparr>) = make_queue P" "attach_queue (P\<lparr>meanwhile := f\<rparr>) = attach_queue P"
  "set_pointers (P\<lparr>meanwhile := f\<rparr>) = set_pointers P" "spin_enter (P\<lparr>meanwhile := f\<rparr>) = spin_enter P"
  "spin_leave (P\<lparr>meanwhile := f\<rparr>) = spin_leave P" "free_queue (P\<lparr>meanwhile := f\<rparr>) = free_queue P"
  "shared_connector_destroy (P\<lparr>meanwhile := f\<rparr>) = shared_connector_destroy P"
  by (simp_all add: fun_eq_iff create_memory_def open_memory_def make_queue_def attach_queue_def set_pointers_def
    spin_enter_def spin_leave_def free_queue_def shared_connector_destroy_def cong: option.case_cong)

lemma meanwhile_class:
  "v_create (single_bidirectional_connector (P\<lparr>meanwhile := f\<rparr>)) = v_create (single_bidirectional_connector P)"
  "v_open (single_bidirectional_connector (P\<lparr>meanwhile := f\<rparr>)) = v_open (single_bidirectional_connector P)"
  "v_destroy (single_bidirectional_connector (P\<lparr>meanwhile := f\<rparr>)) = v_destroy (single_bidirectional_connector P)"
  "v_capacity (single_bidirectional_connector (P\<lparr>meanwhile := f\<rparr>)) = v_capacity (single_bidirectional_connector P)"
  by (simp_all add: fun_eq_iff single_bidirectional_connector_def safe_connector_def base_safe_connector_def
    bidirectional_connector_def simple_connector_def safe_create_def safe_open_def safe_destroy_def safe_get_memory_def
    safe_memory_size_def meanwhile_parts Let_def cong: if_cong option.case_cong)

lemma meanwhile_add:
  "shared_add_connector (single_layout_of (P\<lparr>meanwhile := f\<rparr>) cast) = shared_add_connector (single_layout_of P cast)"
  by (simp add: fun_eq_iff single_layout_of_def simple_layout_def shared_add_connector_def base_add_connector_def
    make_connector_def drop_connector_def connector_open_def connector_create_def connector_capacity_def meanwhile_class
    get_controlblock_def put_controlblock_def get_shared_controlblock_def get_spec_def atomic_cb_def Let_def
    cong: if_cong option.case_cong)

section \<open>Properties\<close>

text \<open>
  C12. A push that overlaps with the addition of a connector by another
  process delivers its message twice: the message is in the connector that was the newest; then the other
  process adds a larger one; the check that follows takes the update for a reason to push again,
  and the message is in the new connector as well.
\<close>

theorem overlapping_push_repeats:
  assumes "pair_basis P cast seg nm valid taken" and "spec_keepalive_timeout sp = 0"
    and "pair_holds P cast seg valid taken sp j i n n (bw, br, g) [] old st"
    and "epoch (shared_cb (bw, br, g)) = epoch (m_controlblock br)"
    and "data \<noteq> []" and "fst (fifo_push (tag, data) (cell_fifo (hd old)))" and "\<not> stuck sp (map writer_entry old)"
    and "\<And>g1. meanwhile P 0 g1 = other_adds (single_layout_of P cast) bw g1" and "\<And>g1. meanwhile P 1 g1 = g1"
  shows "\<exists>bw' br' g' old'. bus_push (single_bus P cast) tag data (br, g) = returns (True, br', g')
    \<and> pair_holds P cast seg valid taken sp j i (Suc n) (Suc n) (bw', br', g') [] old' st
    \<and> cells_contents old' = cells_contents old @ [(tag, data), (tag, data)]"
proof -
  obtain bw' br' g' old' where run: "shared_bus_push (single_bus_class P cast) tag data (br, g) = returns (True, br', g')"
    "pair_holds P cast seg valid taken sp j i (Suc n) (Suc n) (bw', br', g') [] old' st"
    "cells_contents old' = cells_contents old @ [(tag, data), (tag, data)]"
    using pushes_twice [OF assms(1-4) _ assms(6-9)] assms(5) by auto
  have "b_opened br" using assms(3) by (simp add: pair_holds_def pair_core_def bus_core_def Let_def)
  then have "bus_push (single_bus P cast) tag data (br, g) = returns (True, br', g')"
    by (simp add: bus_push_def) (subst grow.simps, simp add: run(1))
  with run(2,3) show ?thesis by blast
qed

theorem overlapping_push_repeats_witness:
  "\<exists>(P :: (string, seg_table, shared_locker, unit) platform) br g bw' br' g' old.
    bus_push (single_bus P digits) 7 [1, 2, 3] (br, g) = returns (True, br', g')
    \<and> pair_holds P digits segments table_valid table_taken sample_spec 0 0 (Suc 1) (Suc 1) (bw', br', g') [] old []
    \<and> cells_contents old = [(7, [1, 2, 3]), (7, [1, 2, 3])]"
proof -
  note basis = pair_lone(2) [OF sample_pair]
  obtain bw g br y where h: "pair_holds sample_platform digits segments table_valid table_taken sample_spec 0 0 1 1
      (bw, br, g) [] [y] []" "cell_fifo y = new_fifo sample_spec ([] :: string entry list)"
    "epoch (shared_cb (bw, br, g)) = epoch (m_controlblock br)"
    using pair_made [OF basis sample_spec_facts sample_free(1,2)] sample_free(2) by blast
  define P where "P = sample_platform\<lparr>meanwhile := \<lambda>k g. if k = 0
    then other_adds (single_layout_of sample_platform digits) bw g else g\<rparr>"
  have y: "cell_fifo y = \<lparr>fifo_cap = 40, fifo_pos = 0, fifo_msgs = []\<rparr>"
    by (simp add: h(2) new_fifo_def new_capacity_def sample_spec_def front_cap_def)
  then have cap: "front_cap (map writer_entry [y]) = 40" by (simp add: front_cap_def)
  have fit: "fst (fifo_push (7, [1, 2, 3]) (cell_fifo (hd [y])))" by (simp add: y fifo_push_def fits_def span_def)
  have larger: "\<not> stuck sample_spec (map writer_entry [y])"
    unfolding stuck_def cap by (simp add: new_capacity_def sample_spec_def)
  have holds: "pair_holds P digits segments table_valid table_taken sample_spec 0 0 1 1 (bw, br, g) [] [y] []"
    and basis': "pair_basis P digits segments (\<lambda>_ h. h) table_valid table_taken"
    using h(1) basis by (simp_all add: P_def)
  have other: "meanwhile P 0 g1 = other_adds (single_layout_of P digits) bw g1" "meanwhile P 1 g1 = g1" for g1
    by (simp_all add: P_def other_adds_def meanwhile_add)
  have "[1, 2, 3 :: u8] \<noteq> []" by simp
  from overlapping_push_repeats [OF basis' sample_spec_facts(1) holds h(3) this fit larger other]
  obtain bw' br' g' and old' :: "string cell list" where "bus_push (single_bus P digits) 7 [1, 2, 3] (br, g) = returns (True, br', g')"
    "pair_holds P digits segments table_valid table_taken sample_spec 0 0 (Suc 1) (Suc 1) (bw', br', g') [] old' []"
    "cells_contents old' = cells_contents [y] @ [(7, [1, 2, 3]), (7, [1, 2, 3])]"
    by blast
  then show ?thesis by (intro exI [of _ P] exI [of _ br] exI [of _ g] exI [of _ bw'] exI [of _ br'] exI [of _ g']
    exI [of _ old']) (simp add: y)
qed

end
