(* ===== verification/Spec2Isabelle.thy ===== *)
theory Spec2Isabelle
  imports Simple_Queue Shared_Queue Unreadable_Queue Smart_Reserve Guards Barrier Shared_Memory Connector_Contract Multi_Bus Multi_Life Bus_List
    Bus_Timed Overlapping_Push
begin

text \<open>
  A verification development for qbus, a library of message buses in shared memory.

  \<^bold>\<open>The program.\<close> A bus (\<^verbatim>\<open>qbus/bus.h\<close>, \<^verbatim>\<open>qbus/bus.cpp\<close>) is a list of connectors that
  grows at the front, where messages are pushed, and shrinks at the back, where they are read.
  A connector (\<^verbatim>\<open>qbus/connector.h\<close>, \<^verbatim>\<open>qbus/connector.cpp\<close>) is a queue in a named segment of
  shared memory (\<^verbatim>\<open>qbus/memory.h\<close>, \<^verbatim>\<open>qbus/memory.cpp\<close>) behind a lock and, for the multi
  classes, a barrier (\<^verbatim>\<open>qbus/locker.h\<close>, \<^verbatim>\<open>qbus/locker.cpp\<close>). A queue (\<^verbatim>\<open>qbus/queue.h\<close>,
  \<^verbatim>\<open>qbus/queue.cpp\<close>) is a ring of bytes that holds messages as chains of blocks
  (\<^verbatim>\<open>qbus/message.h\<close>, \<^verbatim>\<open>qbus/message.cpp\<close>); deadlines use the arithmetic of
  \<^verbatim>\<open>qbus/common.h\<close>.

  \<^bold>\<open>The model.\<close> Shared memory is a function from addresses to bytes, and every header field is
  the little-endian word at the offset the code gives it, at its width of 32 or 64 bits with
  wrap-around. An operation yields a value of type \<open>run\<close>: a result, a crash (null pointer,
  division by zero, failed assertion, exception, empty list, unmapped segment), or \<open>None\<close> when
  it does not return. Loops that wait or retry are \<open>partial_function\<close>s over this type, so that
  not returning is \<open>None\<close>; no fuel is used. A C++ object is a record whose fields are the
  members of all its base classes, and the memory is passed along. Classes with virtual
  functions are selected by a tag (queues) or are records of their virtual functions
  (connectors, buses), so that a class template is a function on such records.

  What is not in the repository is an argument: the clock, the process identifier and the Boost
  atomics (record \<open>env\<close>), Boost's shared memory (\<open>shm_api\<close> with its documented behaviour
  \<open>shm_spec\<close>), Boost's semaphore and mutexes, \<open>lexical_cast\<close>, the pthread calls, and what other
  processes do between two rounds of a waiting loop (\<open>others\<close>, \<open>meanwhile\<close>). A concrete
  instance of each is used by the witnesses (\<open>sample_env\<close>, \<open>table_api\<close>, \<open>sample_platform\<close>).

  \<^bold>\<open>The theories, in the order of their imports.\<close>

  \<^item> \<open>Prelude\<close>: words, results, memory and its frames, atomics.
  \<^item> \<open>Common\<close>: \<open>struct timespec\<close> as an instance of \<open>linorder\<close>, \<open>plus\<close> and \<open>minus\<close>;
    \<open>get_monotonic_time\<close>; \<open>rollback\<close>. The arithmetic is exact on normalised time stamps.
  \<^item> \<open>Message\<close>: message headers, chains, \<open>pack\<close> and \<open>unpack\<close>, service messages: round trip,
    frame and flags.
  \<^item> \<open>Queue\<close>, \<open>Queue_Operations\<close>: the headers of the four queue classes, free and busy regions,
    \<open>static_make_message\<close>, \<open>static_get_message\<close>; push, get, pop, clean, constructors and
    destructors. Virtual functions dispatch on \<open>class_of\<close>.
  \<^item> \<open>Ring\<close>, \<open>Ring_State\<close>: where the parts of a message lie in the ring, and the invariant
    \<open>ring_state\<close> that ties the bytes between head and tail to a list of messages.
  \<^item> \<open>Fifo\<close>: the bounded FIFO as an abstract specification and the locale \<open>refines_fifo\<close>; the
    unbounded \<open>lossless_queue\<close>, of which it is a sublocale. \<open>Simple_Queue\<close> interprets it for
    \<open>simple_queue\<close>, and shows what eviction, empty buffers and stale descriptions do.
  \<^item> \<open>Shared_Ring\<close>, \<open>Shared_Queue\<close>: the group of objects on one \<open>shared_queue\<close>, the abstract
    multicast queue, the locale \<open>refines_multicast\<close> and its interpretation.
  \<^item> \<open>Simulation\<close>: a locale for state machines whose calls the code follows where the abstract
    one allows them. \<open>Unreadable_Queue\<close> interprets it for writers (\<open>unreadable_shared_queue\<close>) and
    subscribers on one ring: the lag of a writer's counter bounds how long no counter overflows.
  \<^item> \<open>Smart_Ring\<close>, \<open>Smart_Queue\<close>, \<open>Smart_Group\<close>, \<open>Smart_Reader\<close>, \<open>Smart_Contract\<close>,
    \<open>Smart_Reserve\<close>: \<open>smart_shared_queue\<close>. \<open>Smart_Ring\<close> is its \<open>get_free_region\<close>, which keeps a
    reserve back; \<open>Smart_Queue\<close> the abstract queue, whose packets carry the process that pushed
    them, and what a run delivers to a subscriber; \<open>Smart_Group\<close> the invariant \<open>smart_inv\<close> that
    ties the bytes and the objects of all processes to it, and the pushes; \<open>Smart_Reader\<close> the
    skipping get, pop and the draining of the destructor; \<open>Smart_Contract\<close> joining, leaving,
    creation, and the interpretation of \<open>simulation\<close>; \<open>Smart_Reserve\<close> what the reserve
    guarantees to those who leave, and how a message in three parts uses it up. The abstract queue says nothing of a push that is cut short by
    the reserve beyond its first region, of a pop without a message, and of a service message
    that finds no room; the last two have properties of their own.
  \<^item> \<open>Locker\<close>: \<open>shared_locker\<close>, as operations and as the step relation of any number of
    processes, with mutual exclusion, assertions, progress, and termination of the timed locks.
  \<^item> \<open>Guards\<close>: \<open>scoped_lock\<close> and \<open>sharable_lock\<close> over a locale for lockers, the POSIX locker with
    its constructor and destructor over the pthread calls.
  \<^item> \<open>Barrier\<close>: \<open>spinlock\<close> and \<open>shared_barrier\<close>, the latter as operations and as a step relation.
  \<^item> \<open>Shared_Memory\<close>: \<open>shared_memory\<close> over \<open>shm_api\<close>: the life of a segment and of its name.
  \<^item> \<open>Connector\<close>, \<open>Safe_Connector\<close>: the connector classes. Their state is a \<open>site\<close>: the object of
    one process and the globals (segments, bytes, lockers and barriers by address).
  \<^item> \<open>Progress\<close>: no queue operation winds the count of clock calls back, as the deadlines of
    the waiting loops need.
  \<^item> \<open>Connector_Contract\<close>: on a free lock a safe connector is its queue, so \<open>refines_fifo\<close> is
    interpreted once more; the timed push of the single connectors ends while others take the lock
    and push and pop between its attempts (\<open>others_share\<close>), of which a push through another object
    is an instance (\<open>contended_platform\<close>); the untimed push of the multi connectors fails.
  \<^item> \<open>Multi_Connector\<close>: the timed operations of the multi connectors return whatever the others do
    to the lock and the barrier, and lose nothing that is unread; the rule for waiting loops is
    \<open>deadline_returns\<close> of \<open>Connector_Contract\<close>. \<open>Multi_Bus\<close>: an untimed push on a bus of
    multi connectors never succeeds, and ends when no connector can be added any more.
  \<^item> \<open>Connector_Life\<close>: creating and opening a connector of any class, and for the single ones what
    they are on then and the layout of their segment.
  \<^item> \<open>Multi_Group\<close>: the connectors of all subscribers of one shared queue. Their timed calls, each
    running by itself with a timeout that leaves time for a first attempt (\<open>ample\<close>), interpret
    \<open>refines_multicast\<close>. \<open>Multi_Life\<close>: such a group comes about when one process creates the
    connector and the others open it before the first push.
  \<^item> \<open>Bus\<close>: the bus classes. Their state is a \<open>hub\<close>, the object with its list of connectors and
    the globals. \<open>Bus_List\<close>: the capacity of new connectors, the range of identifiers, following
    another process, and the body of a safe bus.
  \<^item> \<open>Connector_Frame\<close>: an operation on a connector changes its own segment only.
    \<open>Bus_Entries\<close>, \<open>Bus_Fifo\<close>: the list of connectors as entries with the FIFOs of their queues,
    growing and shrinking; a bus of single connectors that one process uses interprets
    \<open>lossless_queue\<close>, refuses a push only for want of room and keeps its list in shape.
  \<^item> \<open>Bus_Timed\<close>: the timed operations of the same bus. With a timeout that leaves time for a first
    attempt (\<open>prompt\<close>) they interpret \<open>lossless_queue\<close> as well; a timed push always ends; a get or
    pop that comes too late for an attempt discards connectors with their messages.
  \<^item> \<open>Bus_Cells\<close>, \<open>Bus_Pair\<close>, \<open>Bus_Pair_Reader\<close>, \<open>Two_Processes\<close>: the same bus, created and pushed to by one
    process, opened and read by another, each call running by itself. \<open>Bus_Cells\<close> is a segment with
    the objects both have on it, and the segments whose names are gone but which the process that
    pushes still has mapped; \<open>Bus_Pair\<close> the invariant of the two lists, of the identifiers and of
    the epochs, and pushing; \<open>Bus_Pair_Reader\<close> getting and popping; \<open>Two_Processes\<close> creation,
    opening the new bus and opening one that has grown (\<open>alone_holds\<close> is the bus before anybody else
    has opened it), and the interpretation of \<open>lossless_queue\<close>. The epoch that a reader counts twice
    (\<open>second_addition_missed\<close>) does no harm here: whenever it hides an addition the reader still
    has an older connector to leave, and leaving it shows the addition. The operating system gives
    a new segment addresses that no segment has had (\<open>shm_unused\<close>).
  \<^item> \<open>Overlapping_Push\<close>: what two overlapping calls do to that bus. The waiting and repeating loops call
    \<open>meanwhile\<close> between their steps; the hypotheses \<open>lone_platform\<close> and \<open>pair_platform\<close> say that nothing
    happens there, \<open>bus_platform\<close> and \<open>pair_basis\<close> leave it open. Here it is the addition of a connector.

  \<^bold>\<open>How the proofs are built.\<close> Reading a field after writing it and frames of memory writes are
  \<open>memory_simps\<close>; the ring lemmas give each queue operation as one equation under
  \<open>ring_state\<close>; the locales turn these equations into statements about whole runs by induction
  on the calls; the connector theories lift them through locks (\<open>site_scope_free\<close>,
  \<open>scope_enters\<close>) and the waiting loop \<open>retry_loop\<close>. The step relations are proved by rule
  induction on reachable states.

  \<^bold>\<open>What the refinements assume.\<close> Messages are not empty (pushing an empty one crashes,
  \<open>push_empty_crashes\<close>); the queues have no expiry where no message may be lost (a push on a queue
  with expiry may evict the oldest ones, \<open>push_evicts_oldest\<close>); the calls of different processes do
  not overlap, except in the lock, the barrier, the timed operations of \<open>Connector_Contract\<close> and
  \<open>Multi_Connector\<close>, and \<open>Overlapping_Push\<close>; and subscribers stay the same during a run, except
  those of a smart queue.

  \<^bold>\<open>Not modelled.\<close> \<open>print\<close> and \<open>get_real_busy_region\<close> (test builds only), \<open>qbus.cpp\<close>
  (a \<open>main\<close> outside the sources of the library, whose calls do not fit the constructors any
  more), examples and tests. Plain loads and stores of header fields are taken as sequentially consistent, and the
  operations of one process on a queue as atomic: the locks that make them so are modelled by
  their own theories. Lockers and barriers are kept as records by address, not as bytes.
  Overflow of the signed 64-bit fields of \<open>struct timespec\<close> is undefined in C++ and excluded by
  the hypotheses.

  \<^bold>\<open>Planned.\<close> Buses with several readers or several processes that push, and other calls of two
  processes that overlap, as far as the code keeps them in step; the booking of a smart queue for
  the subscribers of its parent.
\<close>

end
